(* ===== verification/Cvip_Prelude.thy ===== *)
theory Cvip_Prelude
  imports Main "HOL-Library.Word" "HOL-Library.Signed_Division" "HOL-Library.Monad_Syntax"
begin

text \<open>
  Vocabulary shared by every component: the machine types of the C code, C's conversion of a value
  to a signed 32-bit object, checked array accesses (an access outside the array is
  \<open>None\<close>), and the generic lemmas the component proofs use through the collections
  \<open>arr_simps\<close> (checked arrays) and \<open>cint_simps\<close> (integer conversions).
\<close>

unbundle bit_operations_syntax

named_theorems arr_simps
named_theorems cint_simps

section \<open>Machine types\<close>

type_synonym u8 = "8 word"
type_synonym u16 = "16 word"
type_synonym u32 = "32 word"
type_synonym u64 = "64 word"
type_synonym bytes = "8 word list"

text \<open>
  A C \<open>int\<close> is an \<open>int\<close> of HOL; \<open>i32\<close> is the conversion of a value to a
  32-bit signed object (two's complement, as every compiler the repository targets does it).
\<close>

definition i32 :: "int \<Rightarrow> int" where
  "i32 x = sint (word_of_int x :: 32 word)"

lemma i32_id [cint_simps]: "- (2 ^ 31) \<le> x \<Longrightarrow> x < 2 ^ 31 \<Longrightarrow> i32 x = x"
  by (simp add: i32_def signed_take_bit_int_eq_self_iff sint_sbintrunc')

lemma i32_range: "- (2 ^ 31) \<le> i32 x \<and> i32 x < 2 ^ 31"
  using sint_greater_eq [of "word_of_int x :: 32 word"] sint_less [of "word_of_int x :: 32 word"]
  by (simp add: i32_def)

lemma i32_small_word [cint_simps]: "uint (w :: u32) < 2 ^ 31 \<Longrightarrow> sint w = uint w"
  by (simp add: sint_uint signed_take_bit_int_eq_self_iff order_trans [OF _ uint_ge_0])

lemma unat_u32_lt: "unat (w :: u32) < 4294967296"
  using unsigned_less [of w] by simp

lemma sint_u32:
  "sint (w :: u32) = (if unat w < 2147483648 then int (unat w) else int (unat w) - 4294967296)"
proof -
  have *: "uint w = sint w mod 4294967296"
    using uint_word_of_int [where 'a = 32, of "sint w"] by (simp add: take_bit_eq_mod)
  have lo: "- 2147483648 \<le> sint w" and hi: "sint w < 2147483648"
    using sint_greater_eq [of w] sint_less [of w] by simp_all
  show ?thesis
  proof (cases "0 \<le> sint w")
    case True
    with hi have "uint w = sint w"
      unfolding * by (intro mod_pos_pos_trivial) simp_all
    with True hi show ?thesis
      by (simp add: unat_eq_nat_uint)
  next
    case False
    have "sint w mod 4294967296 = (sint w + 4294967296) mod 4294967296"
      by simp
    also have "\<dots> = sint w + 4294967296"
      using False lo by (intro mod_pos_pos_trivial) simp_all
    finally have "uint w = sint w + 4294967296"
      by (simp add: *)
    with False lo show ?thesis
      by (simp add: unat_eq_nat_uint)
  qed
qed

text \<open>Sizes and offsets stay natural numbers: \<open>int (unat w)\<close> is kept as it is.\<close>

declare of_nat_unat [simp del]

section \<open>Checked arrays\<close>

text \<open>
  \<open>aget xs i\<close> reads \<open>xs[i]\<close> and \<open>aset xs i v\<close> writes it; the index is a C
  \<open>int\<close>, and an access outside the array, undefined behaviour in C, is \<open>None\<close>.
  A function in the \<open>option\<close> monad that returns \<open>Some\<close> made no such access.
\<close>

definition aget :: "'a list \<Rightarrow> int \<Rightarrow> 'a option" where
  "aget xs i = (if 0 \<le> i \<and> i < int (length xs) then Some (xs ! nat i) else None)"

definition aset :: "'a list \<Rightarrow> int \<Rightarrow> 'a \<Rightarrow> 'a list option" where
  "aset xs i v = (if 0 \<le> i \<and> i < int (length xs) then Some (xs[nat i := v]) else None)"

lemma aget_in [arr_simps]: "0 \<le> i \<Longrightarrow> i < int (length xs) \<Longrightarrow> aget xs i = Some (xs ! nat i)"
  by (simp add: aget_def)

lemma aset_in [arr_simps]:
  "0 \<le> i \<Longrightarrow> i < int (length xs) \<Longrightarrow> aset xs i v = Some (xs[nat i := v])"
  by (simp add: aset_def)

lemma aget_nat [arr_simps]: "i < length xs \<Longrightarrow> aget xs (int i) = Some (xs ! i)"
  by (simp add: aget_def)

lemma aset_nat [arr_simps]: "i < length xs \<Longrightarrow> aset xs (int i) v = Some (xs[i := v])"
  by (simp add: aset_def)

lemma aget_Some: "aget xs i = Some v \<longleftrightarrow> 0 \<le> i \<and> i < int (length xs) \<and> v = xs ! nat i"
  by (auto simp: aget_def)

lemma aset_Some:
  "aset xs i v = Some ys \<longleftrightarrow> 0 \<le> i \<and> i < int (length xs) \<and> ys = xs[nat i := v]"
  by (auto simp: aset_def)

section \<open>Lists\<close>

lemma take_update_ge [simp]: "n \<le> i \<Longrightarrow> take n (xs[i := x]) = take n xs"
  by (rule take_update_cancel)

section \<open>Linked structures\<close>

text \<open>The nodes on a path of successor pointers that ends with the null pointer 0.\<close>

fun nodes :: "(nat \<Rightarrow> nat) \<Rightarrow> nat \<Rightarrow> nat list \<Rightarrow> bool" where
  "nodes nx a [] \<longleftrightarrow> a = 0"
| "nodes nx a (x # xs) \<longleftrightarrow> a = x \<and> x \<noteq> 0 \<and> nodes nx (nx x) xs"

lemma nodes_cong: "(\<And>x. x \<in> set xs \<Longrightarrow> nx x = nx' x) \<Longrightarrow> nodes nx a xs \<longleftrightarrow> nodes nx' a xs"
  by (induction xs arbitrary: a) auto

lemma nodes_upd [simp]: "x \<notin> set xs \<Longrightarrow> nodes (nx(x := y)) a xs \<longleftrightarrow> nodes nx a xs"
  by (rule nodes_cong) auto

lemma nodes_unique: "nodes nx a xs \<Longrightarrow> nodes nx a ys \<Longrightarrow> xs = ys"
proof (induction xs arbitrary: a ys)
  case Nil
  then show ?case by (cases ys) auto
next
  case (Cons x xs)
  then show ?case by (cases ys) auto
qed

lemma nodes_append: "nodes nx a (xs @ y # ys) \<Longrightarrow> nodes nx y (y # ys)"
  by (induction xs arbitrary: a) auto

lemma nodes_distinct: "nodes nx a xs \<Longrightarrow> distinct xs"
proof (induction xs arbitrary: a)
  case (Cons x xs)
  have "x \<notin> set xs"
  proof
    assume "x \<in> set xs"
    then obtain us vs where xs: "xs = us @ x # vs" by (auto simp: in_set_conv_decomp)
    have "nodes nx x (x # vs)" using Cons.prems xs nodes_append [of nx a "x # us"] by simp
    moreover have "nodes nx x (x # xs)" using Cons.prems by auto
    ultimately have "vs = xs" using nodes_unique by blast
    then show False using xs by auto
  qed
  then show ?case using Cons by auto
qed simp

lemma nodes_zero: "nodes nx a xs \<Longrightarrow> 0 \<notin> set xs"
  by (induction xs arbitrary: a) auto

lemma nodes_from: "nodes nx a xs \<Longrightarrow> y \<in> set xs \<Longrightarrow> \<exists>us vs. xs = us @ y # vs \<and> nodes nx y (y # vs)"
  by (metis in_set_conv_decomp nodes_append)

text \<open>Appending a fresh node behind the last one.\<close>

lemma nodes_snoc:
  "nodes nx a xs \<Longrightarrow> xs \<noteq> [] \<Longrightarrow> y \<notin> set xs \<Longrightarrow> y \<noteq> 0 \<Longrightarrow> nx y = 0 \<Longrightarrow>
   nodes (nx(last xs := y)) a (xs @ [y])"
proof (induction xs arbitrary: a)
  case (Cons x xs)
  show ?case
  proof (cases "xs = []")
    case False
    have "last xs \<in> set xs" using False by simp
    then have "x \<noteq> last xs" using nodes_distinct [OF Cons.prems(1)] by auto
    then show ?thesis using Cons False by auto
  qed (use Cons in auto)
qed simp

end
