(* ===== verification/Kcp_Base.thy ===== *)
theory Kcp_Base
  imports Cvip_Prelude
begin

text \<open>
  The basic part of the KCP reliable transport (\<open>code/kcp/ikcp.c\<close>, \<open>ikcp.h\<close>): the
  protocol constants, the little-endian wire codec, the modular time and sequence comparison, the
  segment and control-block structures, and the operations that only set parameters.  Fields keep
  the names of the C structures with the prefix \<open>seg_\<close> or \<open>k_\<close>.  Fields of type
  \<open>IUINT32\<close> are 32-bit words; fields of type \<open>int\<close> or \<open>IINT32\<close> are integers
  stored through \<open>i32\<close>.  The four intrusive queues are lists of segments (the pointer
  structure behind them is in \<open>Kcp_Queue\<close>).
\<close>

section \<open>Constants\<close>

named_theorems kcp_consts

definition IKCP_RTO_NDL :: u32 where [kcp_consts]: "IKCP_RTO_NDL = 30"
definition IKCP_RTO_MIN :: u32 where [kcp_consts]: "IKCP_RTO_MIN = 100"
definition IKCP_RTO_DEF :: u32 where [kcp_consts]: "IKCP_RTO_DEF = 200"
definition IKCP_RTO_MAX :: u32 where [kcp_consts]: "IKCP_RTO_MAX = 60000"
definition IKCP_CMD_PUSH :: u32 where [kcp_consts]: "IKCP_CMD_PUSH = 81"
definition IKCP_CMD_ACK :: u32 where [kcp_consts]: "IKCP_CMD_ACK = 82"
definition IKCP_CMD_WASK :: u32 where [kcp_consts]: "IKCP_CMD_WASK = 83"
definition IKCP_CMD_WINS :: u32 where [kcp_consts]: "IKCP_CMD_WINS = 84"
definition IKCP_ASK_SEND :: u32 where [kcp_consts]: "IKCP_ASK_SEND = 1"
definition IKCP_ASK_TELL :: u32 where [kcp_consts]: "IKCP_ASK_TELL = 2"
definition IKCP_WND_SND :: u32 where [kcp_consts]: "IKCP_WND_SND = 32"
definition IKCP_WND_RCV :: u32 where [kcp_consts]: "IKCP_WND_RCV = 128"
definition IKCP_MTU_DEF :: u32 where [kcp_consts]: "IKCP_MTU_DEF = 1400"
definition IKCP_INTERVAL :: u32 where [kcp_consts]: "IKCP_INTERVAL = 100"
definition IKCP_OVERHEAD :: u32 where [kcp_consts]: "IKCP_OVERHEAD = 24"
definition IKCP_DEADLINK :: u32 where [kcp_consts]: "IKCP_DEADLINK = 20"
definition IKCP_THRESH_INIT :: u32 where [kcp_consts]: "IKCP_THRESH_INIT = 2"
definition IKCP_THRESH_MIN :: u32 where [kcp_consts]: "IKCP_THRESH_MIN = 2"
definition IKCP_PROBE_INIT :: u32 where [kcp_consts]: "IKCP_PROBE_INIT = 7000"
definition IKCP_PROBE_LIMIT :: u32 where [kcp_consts]: "IKCP_PROBE_LIMIT = 120000"
definition IKCP_FASTACK_LIMIT :: int where [kcp_consts]: "IKCP_FASTACK_LIMIT = 5"

section \<open>Wire codec\<close>

text \<open>
  The encoders append the bytes at the write pointer and return the pointer behind them; the model
  returns the bytes.  The decoders read at the read pointer and return the pointer behind what they
  read; reading past the end of the input is \<open>None\<close>.
\<close>

definition ikcp_encode8u :: "u8 \<Rightarrow> bytes" where
  "ikcp_encode8u c = [c]"

definition ikcp_encode16u :: "u16 \<Rightarrow> bytes" where
  "ikcp_encode16u w = [ucast w, ucast (drop_bit 8 w)]"

definition ikcp_encode32u :: "u32 \<Rightarrow> bytes" where
  "ikcp_encode32u l = [ucast l, ucast (drop_bit 8 l), ucast (drop_bit 16 l), ucast (drop_bit 24 l)]"

fun ikcp_decode8u :: "bytes \<Rightarrow> (u8 \<times> bytes) option" where
  "ikcp_decode8u (a # p) = Some (a, p)"
| "ikcp_decode8u _ = None"

fun ikcp_decode16u :: "bytes \<Rightarrow> (u16 \<times> bytes) option" where
  "ikcp_decode16u (a # b # p) = Some (ucast a + push_bit 8 (ucast b), p)"
| "ikcp_decode16u _ = None"

fun ikcp_decode32u :: "bytes \<Rightarrow> (u32 \<times> bytes) option" where
  "ikcp_decode32u (a # b # c # d # p) =
     Some (ucast a + push_bit 8 (ucast b + push_bit 8 (ucast c + push_bit 8 (ucast d))), p)"
| "ikcp_decode32u _ = None"

lemma decode8u_encode [simp]: "ikcp_decode8u (ikcp_encode8u c @ p) = Some (c, p)"
  by (simp add: ikcp_encode8u_def)

lemma low_byte: "ucast (ucast w :: u8) = take_bit 8 (w :: 'a::len word)"
  by (rule bit_word_eqI) (auto simp: bit_simps)

lemma join_byte: "take_bit 8 w + push_bit 8 (drop_bit 8 w) = (w :: 'a::len word)"
  using bits_ident [of 8 w] by (simp add: add.commute)

lemma bytes16: "ucast (ucast w :: u8) + push_bit 8 (ucast (ucast (drop_bit 8 w) :: u8)) = (w :: u16)"
proof -
  have "take_bit 8 (drop_bit 8 w) = drop_bit 8 w"
    by (rule bit_word_eqI) (auto simp: bit_simps dest: bit_imp_le_length)
  then show ?thesis
    by (simp add: low_byte join_byte)
qed

lemma bytes32:
  "ucast (ucast w :: u8) + push_bit 8 (ucast (ucast (drop_bit 8 w) :: u8)
     + push_bit 8 (ucast (ucast (drop_bit 16 w) :: u8)
     + push_bit 8 (ucast (ucast (drop_bit 24 w) :: u8)))) = (w :: u32)"
proof -
  have "take_bit 8 (drop_bit 24 w) = drop_bit 24 w"
    by (rule bit_word_eqI) (auto simp: bit_simps dest: bit_imp_le_length)
  moreover have "take_bit 8 (drop_bit 16 w) + push_bit 8 (drop_bit 24 w) = drop_bit 16 w"
    using join_byte [of "drop_bit 16 w"] by simp
  moreover have "take_bit 8 (drop_bit 8 w) + push_bit 8 (drop_bit 16 w) = drop_bit 8 w"
    using join_byte [of "drop_bit 8 w"] by simp
  ultimately show ?thesis
    by (simp add: low_byte join_byte)
qed

lemma decode16u_encode [simp]: "ikcp_decode16u (ikcp_encode16u w @ p) = Some (w, p)"
  by (simp add: ikcp_encode16u_def bytes16)

lemma decode32u_encode [simp]: "ikcp_decode32u (ikcp_encode32u w @ p) = Some (w, p)"
  by (simp add: ikcp_encode32u_def bytes32)

lemma length_encode [simp]:
  "length (ikcp_encode8u c) = 1" "length (ikcp_encode16u w) = 2" "length (ikcp_encode32u l) = 4"
  by (simp_all add: ikcp_encode8u_def ikcp_encode16u_def ikcp_encode32u_def)

section \<open>Modular comparison\<close>

definition imin32 :: "u32 \<Rightarrow> u32 \<Rightarrow> u32" where
  "imin32 a b = (if a \<le> b then a else b)"

definition imax32 :: "u32 \<Rightarrow> u32 \<Rightarrow> u32" where
  "imax32 a b = (if a \<ge> b then a else b)"

definition ibound :: "u32 \<Rightarrow> u32 \<Rightarrow> u32 \<Rightarrow> u32" where
  "ibound lower middle upper = imin32 (imax32 lower middle) upper"

definition itimediff :: "u32 \<Rightarrow> u32 \<Rightarrow> int" where
  "itimediff later earlier = sint (later - earlier)"

text \<open>
  A sequence number or time \<open>x\<close> seen from a base \<open>b\<close> is the offset
  \<open>unat (x - b)\<close>; \<open>itimediff\<close> compares offsets correctly as long as both stay
  below \<open>2 ^ 31\<close>.
\<close>

abbreviation off :: "u32 \<Rightarrow> u32 \<Rightarrow> nat" where
  "off b x \<equiv> unat (x - b)"

lemma itimediff_ge_0: "0 \<le> itimediff a b \<longleftrightarrow> off b a < 2147483648"
  using unat_u32_lt [of "a - b"] by (simp add: itimediff_def sint_u32)

lemma itimediff_lt_0: "itimediff a b < 0 \<longleftrightarrow> 2147483648 \<le> off b a"
  using itimediff_ge_0 [of a b] by linarith

lemma itimediff_gt_0: "0 < itimediff a b \<longleftrightarrow> off b a < 2147483648 \<and> a \<noteq> b"
proof -
  have "off b a = 0 \<longleftrightarrow> a = b"
    by (simp add: unat_eq_0)
  then show ?thesis
    using unat_u32_lt [of "a - b"] by (auto simp: itimediff_def sint_u32)
qed

lemma itimediff_self [simp]: "itimediff a a = 0"
  by (simp add: itimediff_def)

lemma off_inj: "off b x = off b y \<longleftrightarrow> x = y"
  by (simp add: word_unat_eq_iff [symmetric])

lemma off_eq_nat: "k < 4294967296 \<Longrightarrow> off b (b + of_nat k) = k"
  by (simp add: unat_of_nat)

lemma base_plus_off: "b + of_nat (off b x) = x"
  by (simp add: of_nat_unat)

lemma itimediff_window:
  assumes "off b x < 2147483648" "off b y < 2147483648"
  shows "itimediff x y = int (off b x) - int (off b y)"
proof -
  have "x - y = (x - b) - (y - b)"
    by simp
  also have "\<dots> = word_of_int (uint (x - b) - uint (y - b))"
    by (simp only: word_sub_wi)
  also have "\<dots> = word_of_int (int (off b x) - int (off b y))"
    by (simp only: uint_nat)
  finally have "itimediff x y = i32 (int (off b x) - int (off b y))"
    by (simp only: itimediff_def i32_def)
  also have "\<dots> = int (off b x) - int (off b y)"
    using assms by (intro i32_id) simp_all
  finally show ?thesis .
qed

section \<open>Segments and the control block\<close>

record ikcpseg =
  seg_conv :: u32
  seg_cmd :: u32
  seg_frg :: u32
  seg_wnd :: u32
  seg_ts :: u32
  seg_sn :: u32
  seg_una :: u32
  seg_len :: u32
  seg_resendts :: u32
  seg_rto :: u32
  seg_fastack :: u32
  seg_xmit :: u32
  seg_data :: bytes

text \<open>
  The \<open>acklist\<close> array holds \<open>ackblock\<close> pairs of which the first \<open>ackcount\<close>
  are in use; \<open>k_acklist\<close> is the list of the pairs that were written.  The scratch buffer
  \<open>buffer\<close> is known by its size \<open>k_bufsize\<close>.  The callbacks \<open>output\<close> and
  \<open>writelog\<close>, the \<open>user\<close> pointer and the log mask do not influence the protocol:
  the datagrams handed to \<open>output\<close> are a result of \<open>ikcp_flush\<close>, and logging is
  left out.
\<close>

record ikcpcb =
  k_conv :: u32
  k_mtu :: u32
  k_mss :: u32
  k_state :: u32
  k_snd_una :: u32
  k_snd_nxt :: u32
  k_rcv_nxt :: u32
  k_ts_recent :: u32
  k_ts_lastack :: u32
  k_ssthresh :: u32
  k_rx_rttval :: int
  k_rx_srtt :: int
  k_rx_rto :: int
  k_rx_minrto :: int
  k_snd_wnd :: u32
  k_rcv_wnd :: u32
  k_rmt_wnd :: u32
  k_cwnd :: u32
  k_probe :: u32
  k_current :: u32
  k_interval :: u32
  k_ts_flush :: u32
  k_xmit :: u32
  k_nrcv_buf :: u32
  k_nsnd_buf :: u32
  k_nrcv_que :: u32
  k_nsnd_que :: u32
  k_nodelay :: u32
  k_updated :: u32
  k_ts_probe :: u32
  k_probe_wait :: u32
  k_dead_link :: u32
  k_incr :: u32
  k_snd_queue :: "ikcpseg list"
  k_rcv_queue :: "ikcpseg list"
  k_snd_buf :: "ikcpseg list"
  k_rcv_buf :: "ikcpseg list"
  k_acklist :: "(u32 \<times> u32) list"
  k_ackcount :: u32
  k_ackblock :: u32
  k_bufsize :: u32
  k_fastresend :: int
  k_fastlimit :: int
  k_nocwnd :: int
  k_stream :: int

section \<open>Creation and parameters\<close>

text \<open>
  \<open>ikcp_create\<close> makes two allocations, the control block and its buffer; the arguments
  say whether each succeeds.
\<close>

definition ikcp_init :: "u32 \<Rightarrow> ikcpcb" where
  "ikcp_init conv =
     \<lparr>k_conv = conv, k_mtu = IKCP_MTU_DEF, k_mss = IKCP_MTU_DEF - IKCP_OVERHEAD, k_state = 0,
      k_snd_una = 0, k_snd_nxt = 0, k_rcv_nxt = 0, k_ts_recent = 0, k_ts_lastack = 0,
      k_ssthresh = IKCP_THRESH_INIT,
      k_rx_rttval = 0, k_rx_srtt = 0, k_rx_rto = i32 (uint IKCP_RTO_DEF),
      k_rx_minrto = i32 (uint IKCP_RTO_MIN),
      k_snd_wnd = IKCP_WND_SND, k_rcv_wnd = IKCP_WND_RCV, k_rmt_wnd = IKCP_WND_RCV,
      k_cwnd = 0, k_probe = 0, k_current = 0, k_interval = IKCP_INTERVAL,
      k_ts_flush = IKCP_INTERVAL, k_xmit = 0, k_nrcv_buf = 0, k_nsnd_buf = 0,
      k_nrcv_que = 0, k_nsnd_que = 0, k_nodelay = 0, k_updated = 0, k_ts_probe = 0,
      k_probe_wait = 0, k_dead_link = IKCP_DEADLINK, k_incr = 0,
      k_snd_queue = [], k_rcv_queue = [], k_snd_buf = [], k_rcv_buf = [],
      k_acklist = [], k_ackcount = 0, k_ackblock = 0,
      k_bufsize = (IKCP_MTU_DEF + IKCP_OVERHEAD) * 3,
      k_fastresend = 0, k_fastlimit = IKCP_FASTACK_LIMIT, k_nocwnd = 0, k_stream = 0\<rparr>"

definition ikcp_create :: "bool \<Rightarrow> bool \<Rightarrow> u32 \<Rightarrow> ikcpcb option" where
  "ikcp_create kcp_ok buffer_ok conv =
     (if \<not> kcp_ok then None else if \<not> buffer_ok then None else Some (ikcp_init conv))"

text \<open>
  \<open>ikcp_release\<close>: the segments freed, in the order in which the four drains free them (each
  drain is \<open>iqueue_drain\<close> of \<open>Kcp_Queue\<close>), and the control block just before it is freed
  itself.
\<close>

definition ikcp_release :: "ikcpcb \<Rightarrow> ikcpseg list \<times> ikcpcb" where
  "ikcp_release kcp =
     (k_snd_buf kcp @ k_rcv_buf kcp @ k_snd_queue kcp @ k_rcv_queue kcp,
      kcp\<lparr>k_snd_buf := [], k_rcv_buf := [], k_snd_queue := [], k_rcv_queue := [],
          k_nrcv_buf := 0, k_nsnd_buf := 0, k_nrcv_que := 0, k_nsnd_que := 0, k_ackcount := 0,
          k_acklist := [], k_bufsize := 0\<rparr>)"

definition ikcp_setmtu :: "bool \<Rightarrow> ikcpcb \<Rightarrow> int \<Rightarrow> int \<times> ikcpcb" where
  "ikcp_setmtu buffer_ok kcp mtu =
     (if mtu < 50 \<or> mtu < uint IKCP_OVERHEAD then (- 1, kcp)
      else if \<not> buffer_ok then (- 2, kcp)
      else (0, kcp\<lparr>k_mtu := word_of_int mtu, k_mss := word_of_int mtu - IKCP_OVERHEAD,
                   k_bufsize := (word_of_int mtu + IKCP_OVERHEAD) * 3\<rparr>))"

definition clamp_interval :: "int \<Rightarrow> int" where
  "clamp_interval interval =
     (if interval > 5000 then 5000 else if interval < 10 then 10 else interval)"

definition ikcp_interval :: "ikcpcb \<Rightarrow> int \<Rightarrow> int \<times> ikcpcb" where
  "ikcp_interval kcp interval =
     (0, kcp\<lparr>k_interval := word_of_int (clamp_interval interval)\<rparr>)"

definition ikcp_nodelay :: "ikcpcb \<Rightarrow> int \<Rightarrow> int \<Rightarrow> int \<Rightarrow> int \<Rightarrow> int \<times> ikcpcb" where
  "ikcp_nodelay kcp nodelay interval resend nc =
     (let kcp1 = (if nodelay \<ge> 0
                  then kcp\<lparr>k_nodelay := word_of_int nodelay,
                           k_rx_minrto := (if nodelay \<noteq> 0 then i32 (uint IKCP_RTO_NDL)
                                           else i32 (uint IKCP_RTO_MIN))\<rparr>
                  else kcp);
          kcp2 = (if interval \<ge> 0
                  then kcp1\<lparr>k_interval := word_of_int (clamp_interval interval)\<rparr> else kcp1);
          kcp3 = (if resend \<ge> 0 then kcp2\<lparr>k_fastresend := resend\<rparr> else kcp2);
          kcp4 = (if nc \<ge> 0 then kcp3\<lparr>k_nocwnd := nc\<rparr> else kcp3)
      in (0, kcp4))"

definition ikcp_wndsize :: "ikcpcb \<Rightarrow> int \<Rightarrow> int \<Rightarrow> int \<times> ikcpcb" where
  "ikcp_wndsize kcp sndwnd rcvwnd =
     (let kcp1 = (if sndwnd > 0 then kcp\<lparr>k_snd_wnd := word_of_int sndwnd\<rparr> else kcp);
          kcp2 = (if rcvwnd > 0
                  then kcp1\<lparr>k_rcv_wnd := imax32 (word_of_int rcvwnd) IKCP_WND_RCV\<rparr> else kcp1)
      in (0, kcp2))"

definition ikcp_waitsnd :: "ikcpcb \<Rightarrow> int" where
  "ikcp_waitsnd kcp = sint (k_nsnd_buf kcp + k_nsnd_que kcp)"

definition ikcp_getconv :: "bytes \<Rightarrow> u32 option" where
  "ikcp_getconv ptr = map_option fst (ikcp_decode32u ptr)"

definition ikcp_wnd_unused :: "ikcpcb \<Rightarrow> int" where
  "ikcp_wnd_unused kcp =
     (if k_nrcv_que kcp < k_rcv_wnd kcp then sint (k_rcv_wnd kcp - k_nrcv_que kcp) else 0)"

text \<open>\<open>ikcp_encode_seg\<close> writes the 24-byte header; the data is copied behind it by the caller.\<close>

definition ikcp_encode_seg :: "ikcpseg \<Rightarrow> bytes" where
  "ikcp_encode_seg seg =
     ikcp_encode32u (seg_conv seg) @ ikcp_encode8u (ucast (seg_cmd seg)) @
     ikcp_encode8u (ucast (seg_frg seg)) @ ikcp_encode16u (ucast (seg_wnd seg)) @
     ikcp_encode32u (seg_ts seg) @ ikcp_encode32u (seg_sn seg) @
     ikcp_encode32u (seg_una seg) @ ikcp_encode32u (seg_len seg)"

lemma length_encode_seg [simp]: "length (ikcp_encode_seg seg) = 24"
  by (simp add: ikcp_encode_seg_def)

lemma clamp_interval_bounds: "10 \<le> clamp_interval i \<and> clamp_interval i \<le> 5000"
  by (simp add: clamp_interval_def)

end
