(* ===== verification/Kcp_Send.thy ===== *)
theory Kcp_Send
  imports Kcp_Base
begin

text \<open>
  The sender's entry point \<open>ikcp_send\<close>: it cuts the user's buffer into segments of at most
  \<open>mss\<close> bytes, numbered downwards by \<open>frg\<close>, and appends them to the send queue; in stream
  mode it first fills up the last segment of the queue.
\<close>

text \<open>
  The allocations of one call are numbered from 0; \<open>mal i\<close> is \<open>None\<close> when allocation
  \<open>i\<close> returns \<open>NULL\<close> and otherwise the uninitialised segment it returns.  (The
  assertions of the source are compiled out, so that the checks behind them decide.)
\<close>

type_synonym malloc = "nat \<Rightarrow> ikcpseg option"

text \<open>
  The loop \<open>for (i = 0; i < count; i++)\<close>.  A \<open>NULL\<close> buffer leaves the data of the new
  segment as it was allocated.
\<close>

function ikcp_send_loop ::
  "malloc \<Rightarrow> nat \<Rightarrow> int \<Rightarrow> int \<Rightarrow> bytes option \<Rightarrow> int \<Rightarrow> ikcpcb \<Rightarrow> int \<times> ikcpcb" where
  "ikcp_send_loop mal base count i buffer len kcp =
     (if i < count then
        let size = (if len > sint (k_mss kcp) then sint (k_mss kcp) else len) in
        (case mal (base + nat i) of
           None \<Rightarrow> (- 2, kcp)
         | Some raw \<Rightarrow>
             let dat = (case buffer of
                          Some b \<Rightarrow> if len > 0 then take (nat size) b else take (nat size) (seg_data raw)
                        | None \<Rightarrow> take (nat size) (seg_data raw));
                 seg = raw\<lparr>seg_data := dat, seg_len := word_of_int size,
                           seg_frg := word_of_int (if k_stream kcp = 0 then count - i - 1 else 0)\<rparr>;
                 kcp' = kcp\<lparr>k_snd_queue := k_snd_queue kcp @ [seg],
                            k_nsnd_que := k_nsnd_que kcp + 1\<rparr>
             in ikcp_send_loop mal base count (i + 1) (map_option (drop (nat size)) buffer)
                  (len - size) kcp')
      else (0, kcp))"
  by pat_completeness auto
termination
  by (relation "measure (\<lambda>(mal, base, count, i, buffer, len, kcp). nat (count - i))") auto

declare ikcp_send_loop.simps [simp del]

text \<open>
  Appending to the previous segment in stream mode: the replacement of the last segment, the
  number of bytes taken and the number of allocations made; \<open>None\<close> when the allocation fails.
\<close>

definition ikcp_send_extend :: "malloc \<Rightarrow> bytes option \<Rightarrow> int \<Rightarrow> ikcpcb \<Rightarrow> (ikcpcb \<times> int \<times> nat) option" where
  "ikcp_send_extend mal buffer len kcp =
     (if k_snd_queue kcp = [] then Some (kcp, 0, 0)
      else let old = last (k_snd_queue kcp) in
        if seg_len old < k_mss kcp then
          let capacity = sint (k_mss kcp - seg_len old);
              extn = (if len < capacity then len else capacity)
          in (case mal 0 of
                None \<Rightarrow> None
              | Some raw \<Rightarrow>
                  let n = unat (seg_len old);
                      new = (case buffer of Some b \<Rightarrow> take (nat extn) b
                             | None \<Rightarrow> take (nat extn) (drop n (seg_data raw)));
                      seg = raw\<lparr>seg_data := take n (seg_data old) @ new,
                                seg_len := seg_len old + word_of_int extn, seg_frg := 0\<rparr>
                  in Some (kcp\<lparr>k_snd_queue := butlast (k_snd_queue kcp) @ [seg]\<rparr>, extn, 1))
        else Some (kcp, 0, 0))"

definition ikcp_send_count :: "ikcpcb \<Rightarrow> int \<Rightarrow> int" where
  "ikcp_send_count kcp len =
     (if len \<le> sint (k_mss kcp) then 1
      else sint ((word_of_int len + k_mss kcp - 1) div k_mss kcp))"

definition ikcp_send_fragments ::
  "malloc \<Rightarrow> nat \<Rightarrow> bytes option \<Rightarrow> int \<Rightarrow> ikcpcb \<Rightarrow> int \<times> ikcpcb" where
  "ikcp_send_fragments mal base buffer len kcp =
     (let count = ikcp_send_count kcp len in
      if count \<ge> sint IKCP_WND_RCV then (- 2, kcp)
      else let count' = (if count = 0 then 1 else count)
           in ikcp_send_loop mal base count' 0 buffer len kcp)"

definition ikcp_send :: "malloc \<Rightarrow> ikcpcb \<Rightarrow> bytes option \<Rightarrow> int \<Rightarrow> int \<times> ikcpcb" where
  "ikcp_send mal kcp buffer len =
     (if len < 0 then (- 1, kcp)
      else if k_stream kcp \<noteq> 0 then
        (case ikcp_send_extend mal buffer len kcp of
           None \<Rightarrow> (- 2, kcp)
         | Some (kcp', extn, n) \<Rightarrow>
             if len - extn \<le> 0 then (0, kcp')
             else ikcp_send_fragments mal n (map_option (drop (nat extn)) buffer) (len - extn) kcp')
      else ikcp_send_fragments mal 0 buffer len kcp)"

section \<open>What a call queues\<close>

text \<open>The bytes waiting in a queue, and a segment that is consistent and fits the segment size.\<close>

definition queue_bytes :: "ikcpseg list \<Rightarrow> bytes" where
  "queue_bytes segs = concat (map seg_data segs)"

lemma queue_bytes_simps [simp]:
  "queue_bytes [] = []" "queue_bytes (s # ss) = seg_data s @ queue_bytes ss"
  "queue_bytes (xs @ ys) = queue_bytes xs @ queue_bytes ys"
  by (simp_all add: queue_bytes_def)

definition seg_ok :: "u32 \<Rightarrow> ikcpseg \<Rightarrow> bool" where
  "seg_ok mss s \<longleftrightarrow> unat (seg_len s) = length (seg_data s) \<and> length (seg_data s) \<le> unat mss"

text \<open>
  The outcome of queueing: the new segments \<open>segs\<close> go behind the queue and are counted.
\<close>

definition queued :: "ikcpcb \<Rightarrow> ikcpseg list \<Rightarrow> ikcpcb" where
  "queued kcp segs =
     kcp\<lparr>k_snd_queue := k_snd_queue kcp @ segs, k_nsnd_que := k_nsnd_que kcp + of_nat (length segs)\<rparr>"

lemma queued_Nil [simp]: "queued kcp [] = kcp"
  by (simp add: queued_def)

lemma queued_Cons: "queued (queued kcp [s]) ss = queued kcp (s # ss)"
  by (simp add: queued_def algebra_simps)

lemma queued_sel [simp]:
  "k_mss (queued kcp ss) = k_mss kcp" "k_stream (queued kcp ss) = k_stream kcp"
  "k_snd_queue (queued kcp ss) = k_snd_queue kcp @ ss"
  "k_nsnd_que (queued kcp ss) = k_nsnd_que kcp + of_nat (length ss)"
  by (simp_all add: queued_def)

text \<open>The loop, when every allocation succeeds: \<open>r\<close> fragments remain for \<open>bs\<close>.\<close>

lemma ikcp_send_loop_spec:
  assumes mal: "\<forall>j. mal j \<noteq> None"
    and mss: "0 < sint (k_mss kcp)"
    and fit: "length bs \<le> r * unat (k_mss kcp)" "length bs < 2 ^ 31" "int r = count - i" "0 \<le> i"
  shows "\<exists>segs. ikcp_send_loop mal base count i (Some bs) (int (length bs)) kcp = (0, queued kcp segs) \<and>
           length segs = r \<and> queue_bytes segs = bs \<and> (\<forall>s \<in> set segs. seg_ok (k_mss kcp) s) \<and>
           map seg_frg segs = (if k_stream kcp = 0 then rev (map of_nat [0..<r]) else replicate r 0)"
  using mss fit
proof (induction r arbitrary: bs i kcp)
  case 0
  then show ?case
    by (subst ikcp_send_loop.simps) (simp add: exI [of _ "[]"])
next
  case (Suc r)
  let ?m = "unat (k_mss kcp)"
  have m: "sint (k_mss kcp) = int ?m" "0 < ?m" "?m < 2147483648"
    using Suc.prems(1) unat_u32_lt [of "k_mss kcp"] by (auto simp: sint_u32 split: if_splits)
  obtain raw where raw: "mal (base + nat i) = Some raw" using mal by blast
  let ?n = "min (length bs) ?m"
  let ?size = "(if int (length bs) > sint (k_mss kcp) then sint (k_mss kcp) else int (length bs))"
  have size: "?size = int ?n" using m by auto
  have frg: "count - i - 1 = int r" using Suc.prems by simp
  let ?seg = "raw\<lparr>seg_data := take ?n bs, seg_len := word_of_int (int ?n),
                  seg_frg := word_of_int (if k_stream kcp = 0 then int r else 0)\<rparr>"
  have step: "ikcp_send_loop mal base count i (Some bs) (int (length bs)) kcp =
      ikcp_send_loop mal base count (i + 1) (Some (drop ?n bs)) (int (length (drop ?n bs)))
        (queued kcp [?seg])"
    using Suc.prems raw
    by (subst ikcp_send_loop.simps) (simp add: Let_def size frg queued_def of_nat_diff del: of_nat_min)
  have p: "length (drop ?n bs) \<le> r * ?m" "length (drop ?n bs) < 2 ^ 31"
    "int r = count - (i + 1)" "0 \<le> i + 1"
    using Suc.prems by (auto simp: min_def)
  have "\<exists>segs. ikcp_send_loop mal base count (i + 1) (Some (drop ?n bs)) (int (length (drop ?n bs)))
        (queued kcp [?seg]) = (0, queued (queued kcp [?seg]) segs) \<and>
      length segs = r \<and> queue_bytes segs = drop ?n bs \<and>
      (\<forall>s \<in> set segs. seg_ok (k_mss kcp) s) \<and>
      map seg_frg segs = (if k_stream kcp = 0 then rev (map of_nat [0..<r]) else replicate r 0)"
    using Suc.IH [of "queued kcp [?seg]" "drop ?n bs" "i + 1", unfolded queued_sel, OF Suc.prems(1) p] .
  then obtain segs where segs: "ikcp_send_loop mal base count (i + 1) (Some (drop ?n bs))
        (int (length (drop ?n bs))) (queued kcp [?seg]) = (0, queued (queued kcp [?seg]) segs)"
      "length segs = r" "queue_bytes segs = drop ?n bs" "\<forall>s \<in> set segs. seg_ok (k_mss kcp) s"
      "map seg_frg segs = (if k_stream kcp = 0 then rev (map of_nat [0..<r]) else replicate r 0)"
    by blast
  have "seg_ok (k_mss kcp) ?seg"
    using Suc.prems m by (simp add: seg_ok_def unat_of_nat min_def)
  with segs show ?case
    by (intro exI [of _ "?seg # segs"]) (simp add: step queued_Cons)
qed


text \<open>The fragment count is the number of segments needed, and at least one.\<close>

lemma ikcp_send_count_spec:
  assumes mss: "0 < sint (k_mss kcp)" and len: "n < 2 ^ 31"
  shows "ikcp_send_count kcp (int n) = max 1 (int ((n + unat (k_mss kcp) - 1) div unat (k_mss kcp)))"
proof -
  let ?m = "unat (k_mss kcp)"
  have m: "sint (k_mss kcp) = int ?m" "0 < ?m" "?m < 2147483648"
    using mss unat_u32_lt [of "k_mss kcp"] by (auto simp: sint_u32 split: if_splits)
  have e: "word_of_int (int n) + k_mss kcp - 1 = (of_nat (n + ?m - 1) :: u32)"
    using m by (simp add: of_nat_diff of_nat_unat)
  have "unat (word_of_int (int n) + k_mss kcp - 1) = n + ?m - 1"
    using m len by (subst e, subst unat_of_nat, intro mod_less) simp
  then have "unat ((word_of_int (int n) + k_mss kcp - 1) div k_mss kcp) = (n + ?m - 1) div ?m"
    by (simp only: unat_div)
  moreover have "(n + ?m - 1) div ?m < 2147483648"
    using len m div_le_dividend [of "n + ?m - 1" ?m]
    by (cases "?m = 1") (auto intro!: div_less_dividend [THEN less_le_trans] simp: less_mult_imp_div_less)
  moreover have "n \<le> ?m \<Longrightarrow> (n + ?m - 1) div ?m \<le> 1"
    using m less_mult_imp_div_less [of "n + ?m - 1" 2 ?m] by linarith
  moreover have "\<not> n \<le> ?m \<Longrightarrow> 1 \<le> (n + ?m - 1) div ?m"
    using m by (simp add: Suc_le_eq div_greater_zero_iff)
  ultimately show ?thesis
    using m by (auto simp: ikcp_send_count_def sint_u32)
qed

text \<open>The number of segments a message of \<open>n\<close> bytes is cut into.\<close>

definition frag_count :: "ikcpcb \<Rightarrow> nat \<Rightarrow> nat" where
  "frag_count kcp n = max 1 ((n + unat (k_mss kcp) - 1) div unat (k_mss kcp))"

lemma frag_count_fits: "0 < unat (k_mss kcp) \<Longrightarrow> n \<le> frag_count kcp n * unat (k_mss kcp)"
proof -
  assume m: "0 < unat (k_mss kcp)"
  let ?k = "(n + unat (k_mss kcp) - 1) div unat (k_mss kcp)"
  have "n \<le> ?k * unat (k_mss kcp)"
    using div_mult_mod_eq [of "n + unat (k_mss kcp) - 1" "unat (k_mss kcp)"]
      mod_less_divisor [OF m, of "n + unat (k_mss kcp) - 1"] by linarith
  also have "\<dots> \<le> frag_count kcp n * unat (k_mss kcp)"
    unfolding frag_count_def by (intro mult_right_mono) simp_all
  finally show ?thesis .
qed

lemma frag_count_pos: "1 \<le> frag_count kcp n"
  by (simp add: frag_count_def)

lemma ikcp_send_fragments_spec:
  assumes mal: "\<forall>j. mal j \<noteq> None" and mss: "0 < sint (k_mss kcp)" and len: "length bs < 2 ^ 31"
    and few: "frag_count kcp (length bs) < 128"
  shows "\<exists>segs. ikcp_send_fragments mal base (Some bs) (int (length bs)) kcp = (0, queued kcp segs) \<and>
           length segs = frag_count kcp (length bs) \<and> queue_bytes segs = bs \<and>
           (\<forall>s \<in> set segs. seg_ok (k_mss kcp) s) \<and>
           map seg_frg segs = (if k_stream kcp = 0 then rev (map of_nat [0..<length segs])
                               else replicate (length segs) 0)"
proof -
  let ?c = "frag_count kcp (length bs)"
  have c: "ikcp_send_count kcp (int (length bs)) = int ?c"
    using ikcp_send_count_spec [OF mss len] by (simp add: frag_count_def)
  have m: "0 < unat (k_mss kcp)"
    using mss by (auto simp: sint_u32 split: if_splits)
  have "ikcp_send_fragments mal base (Some bs) (int (length bs)) kcp =
      ikcp_send_loop mal base (int ?c) 0 (Some bs) (int (length bs)) kcp"
    using few frag_count_pos [of kcp "length bs"]
    by (simp add: ikcp_send_fragments_def c IKCP_WND_RCV_def Let_def)
  then show ?thesis
    using ikcp_send_loop_spec [where i = 0 and count = "int ?c" and base = base,
        OF mal mss frag_count_fits [OF m] len] by auto
qed

lemma ikcp_send_fragments_too_long:
  assumes mss: "0 < sint (k_mss kcp)" and len: "n < 2 ^ 31" and many: "128 \<le> frag_count kcp n"
  shows "ikcp_send_fragments mal base buffer (int n) kcp = (- 2, kcp)"
proof -
  have "ikcp_send_count kcp (int n) = int (frag_count kcp n)"
    using ikcp_send_count_spec [OF mss len] by (simp add: frag_count_def)
  then show ?thesis
    using many by (simp add: ikcp_send_fragments_def IKCP_WND_RCV_def Let_def)
qed

section \<open>Properties of ikcp_send\<close>

text \<open>Extending the last segment of a stream moves bytes from the buffer into the queue.\<close>

lemma ikcp_send_extend_spec:
  assumes mal: "\<forall>j. mal j \<noteq> None"
    and mss: "0 < sint (k_mss kcp)" and len: "length bs < 2 ^ 31"
    and ok: "\<And>s. s \<in> set (k_snd_queue kcp) \<Longrightarrow> seg_ok (k_mss kcp) s"
  shows "\<exists>kcp' n k. ikcp_send_extend mal (Some bs) (int (length bs)) kcp = Some (kcp', int n, k) \<and>
           n \<le> length bs \<and> k_mss kcp' = k_mss kcp \<and> k_stream kcp' = k_stream kcp \<and>
           k_nsnd_que kcp' = k_nsnd_que kcp \<and> length (k_snd_queue kcp') = length (k_snd_queue kcp) \<and>
           queue_bytes (k_snd_queue kcp') = queue_bytes (k_snd_queue kcp) @ take n bs \<and>
           (\<forall>s \<in> set (k_snd_queue kcp'). seg_ok (k_mss kcp) s)"
proof (cases "k_snd_queue kcp = [] \<or> \<not> seg_len (last (k_snd_queue kcp)) < k_mss kcp")
  case True
  then show ?thesis
    using ok by (intro exI [of _ kcp] exI [of _ 0]) (auto simp: ikcp_send_extend_def Let_def)
next
  case False
  define q where "q = butlast (k_snd_queue kcp)"
  define old where "old = last (k_snd_queue kcp)"
  have sq: "k_snd_queue kcp = q @ [old]" using False by (simp add: q_def old_def)
  have lt: "unat (seg_len old) < unat (k_mss kcp)" using False by (simp add: old_def word_less_nat_alt)
  have m: "unat (k_mss kcp) < 2147483648"
    using mss unat_u32_lt [of "k_mss kcp"] by (auto simp: sint_u32 split: if_splits)
  have o: "unat (seg_len old) = length (seg_data old)" using ok sq by (simp add: seg_ok_def)
  obtain raw where raw: "mal 0 = Some raw" using mal by blast
  define c where "c = unat (k_mss kcp) - unat (seg_len old)"
  have cap: "sint (k_mss kcp - seg_len old) = int c"
    using lt m by (simp add: sint_u32 unat_sub_if' c_def)
  define n where "n = min (length bs) c"
  define seg where "seg = raw\<lparr>seg_data := seg_data old @ take n bs, seg_len := seg_len old + of_nat n, seg_frg := 0\<rparr>"
  have "ikcp_send_extend mal (Some bs) (int (length bs)) kcp =
      Some (kcp\<lparr>k_snd_queue := q @ [seg]\<rparr>, int n, 1)"
    using False raw o
    by (auto simp: ikcp_send_extend_def Let_def old_def [symmetric] q_def [symmetric] cap n_def seg_def min_def)
  moreover have "seg_ok (k_mss kcp) seg"
    using o lt m len by (auto simp: seg_ok_def seg_def unat_plus_if' unat_of_nat n_def c_def min_def)
  ultimately show ?thesis
    using ok sq by (intro exI [of _ "kcp\<lparr>k_snd_queue := q @ [seg]\<rparr>"] exI [of _ n] exI [of _ "1::nat"])
      (auto simp: seg_def n_def)
qed

text \<open>C7: \<open>ikcp_send\<close> in message mode cuts the buffer into the announced number of
  fragments: their data is the buffer, every fragment fits the segment size, \<open>frg\<close> counts
  down to 0, and they are appended to the send queue and counted; nothing else changes.\<close>

theorem ikcp_send_message:
  assumes "\<forall>j. mal j \<noteq> None" and "0 < sint (k_mss kcp)" and "length bs < 2 ^ 31"
    and "k_stream kcp = 0" and "frag_count kcp (length bs) < 128"
  shows "\<exists>segs. ikcp_send mal kcp (Some bs) (int (length bs)) =
             (0, kcp\<lparr>k_snd_queue := k_snd_queue kcp @ segs,
                     k_nsnd_que := k_nsnd_que kcp + of_nat (length segs)\<rparr>) \<and>
           length segs = frag_count kcp (length bs) \<and> concat (map seg_data segs) = bs \<and>
           (\<forall>s \<in> set segs. unat (seg_len s) = length (seg_data s) \<and> length (seg_data s) \<le> unat (k_mss kcp)) \<and>
           map seg_frg segs = rev (map of_nat [0..<length segs])"
  using ikcp_send_fragments_spec [where base = 0, OF assms(1,2,3,5)] assms(4)
  by (simp add: ikcp_send_def queued_def queue_bytes_def seg_ok_def)

definition sample_seg :: ikcpseg where
  "sample_seg = \<lparr>seg_conv = 0, seg_cmd = 0, seg_frg = 0, seg_wnd = 0, seg_ts = 0, seg_sn = 0,
     seg_una = 0, seg_len = 0, seg_resendts = 0, seg_rto = 0, seg_fastack = 0, seg_xmit = 0,
     seg_data = []\<rparr>"

lemma ikcp_send_message_witness:
  "\<exists>segs. ikcp_send (\<lambda>_. Some sample_seg) (ikcp_init 7) (Some (replicate 3000 1)) 3000 =
       (0, (ikcp_init 7)\<lparr>k_snd_queue := k_snd_queue (ikcp_init 7) @ segs,
                         k_nsnd_que := k_nsnd_que (ikcp_init 7) + of_nat (length segs)\<rparr>) \<and>
     length segs = 3 \<and> map seg_frg segs = [2, 1, 0]"
proof -
  have c: "frag_count (ikcp_init 7) 3000 = 3"
    by (simp add: frag_count_def ikcp_init_def kcp_consts)
  show ?thesis
    using ikcp_send_message [of "\<lambda>_. Some sample_seg" "ikcp_init 7" "replicate 3000 1"] c
    by (auto simp: ikcp_init_def kcp_consts upt_rec numeral_3_eq_3)
qed

text \<open>Fragmenting either refuses the message as a whole or queues exactly its bytes.\<close>

lemma ikcp_send_fragments_cases:
  assumes mal: "\<forall>j. mal j \<noteq> None" and mss: "0 < sint (k_mss kcp)" and len: "length bs < 2 ^ 31"
    and ret: "ikcp_send_fragments mal base (Some bs) (int (length bs)) kcp = (r, kcp')"
  shows "r = - 2 \<and> kcp' = kcp \<or>
         r = 0 \<and> (\<exists>segs. kcp' = queued kcp segs \<and> queue_bytes segs = bs \<and> (\<forall>s \<in> set segs. seg_ok (k_mss kcp) s))"
proof (cases "frag_count kcp (length bs) < 128")
  case True
  then show ?thesis
    using ikcp_send_fragments_spec [where base = base, OF mal mss len True] ret by auto
next
  case False
  then show ?thesis
    using ikcp_send_fragments_too_long [OF mss len, of mal base "Some bs"] ret by simp
qed

text \<open>In both modes, a call that returns 0 has appended exactly the caller's bytes to the
  bytes waiting in the send queue, and the queue still holds only consistent segments that fit the
  segment size (stream mode may have rewritten the last one).\<close>

theorem ikcp_send_bytes:
  assumes "\<forall>j. mal j \<noteq> None" and "0 < sint (k_mss kcp)" and "length bs < 2 ^ 31"
    and "\<forall>s \<in> set (k_snd_queue kcp). unat (seg_len s) = length (seg_data s) \<and> length (seg_data s) \<le> unat (k_mss kcp)"
    and "ikcp_send mal kcp (Some bs) (int (length bs)) = (0, kcp')"
  shows "concat (map seg_data (k_snd_queue kcp')) = concat (map seg_data (k_snd_queue kcp)) @ bs \<and>
         (\<forall>s \<in> set (k_snd_queue kcp'). unat (seg_len s) = length (seg_data s) \<and> length (seg_data s) \<le> unat (k_mss kcp))"
proof (cases "k_stream kcp = 0")
  case True
  then show ?thesis
    using ikcp_send_fragments_cases [OF assms(1-3), of 0 0 kcp'] assms(4,5)
    by (auto simp: ikcp_send_def queue_bytes_def seg_ok_def)
next
  case False
  obtain k1 n k where e: "ikcp_send_extend mal (Some bs) (int (length bs)) kcp = Some (k1, int n, k)"
      "n \<le> length bs" "k_mss k1 = k_mss kcp"
      "queue_bytes (k_snd_queue k1) = queue_bytes (k_snd_queue kcp) @ take n bs"
      "\<forall>s \<in> set (k_snd_queue k1). seg_ok (k_mss kcp) s"
    using ikcp_send_extend_spec [OF assms(1-3)] assms(4) by (auto simp: seg_ok_def)
  show ?thesis
  proof (cases "n = length bs")
    case True
    then show ?thesis
      using e False assms(5) by (auto simp: ikcp_send_def queue_bytes_def seg_ok_def)
  next
    case more: False
    then have "ikcp_send_fragments mal k (Some (drop n bs)) (int (length (drop n bs))) k1 = (0, kcp')"
      using e False assms(5) by (simp add: ikcp_send_def of_nat_diff)
    moreover have "0 < sint (k_mss k1)" "length (drop n bs) < 2 ^ 31"
      using e assms(2,3) by auto
    ultimately have "\<exists>segs. kcp' = queued k1 segs \<and> queue_bytes segs = drop n bs \<and> (\<forall>s \<in> set segs. seg_ok (k_mss k1) s)"
      using ikcp_send_fragments_cases [OF assms(1), of k1 "drop n bs" k 0 kcp'] by auto
    then show ?thesis
      using e by (auto simp: queue_bytes_def seg_ok_def)
  qed
qed

definition sample_stream :: ikcpcb where
  "sample_stream = (ikcp_init 7)\<lparr>k_mss := 2, k_stream := 1, k_nsnd_que := 1,
     k_snd_queue := [sample_seg\<lparr>seg_len := 1, seg_data := [65]\<rparr>]\<rparr>"

lemma ikcp_send_bytes_witness:
  "concat (map seg_data (k_snd_queue (snd (ikcp_send (\<lambda>_. Some sample_seg) sample_stream (Some [66, 67, 68]) 3))))
     = [65, 66, 67, 68]"
proof -
  have "fst (ikcp_send (\<lambda>_. Some sample_seg) sample_stream (Some [66, 67, 68]) (int (length [66, 67, 68 :: u8]))) = 0"
    by (simp add: ikcp_send_def ikcp_send_extend_def ikcp_send_fragments_def ikcp_send_count_def
        ikcp_send_loop.simps sample_stream_def ikcp_init_def kcp_consts)
  then show ?thesis
    using ikcp_send_bytes [of "\<lambda>_. Some sample_seg" sample_stream "[66, 67, 68]"]
    by (simp add: sample_stream_def ikcp_init_def prod_eq_iff)
qed

text \<open>The refusals of \<open>ikcp_send\<close>: a negative length is \<open>-1\<close>, a message of
  128 fragments or more is \<open>-2\<close>, and in message mode neither changes the control block.\<close>

theorem ikcp_send_refuses:
  "(len < 0 \<longrightarrow> ikcp_send mal kcp buffer len = (- 1, kcp)) \<and>
   (k_stream kcp = 0 \<and> 0 < sint (k_mss kcp) \<and> n < 2 ^ 31 \<and> 128 \<le> frag_count kcp n \<longrightarrow>
      ikcp_send mal kcp buffer (int n) = (- 2, kcp))"
  by (simp add: ikcp_send_def ikcp_send_fragments_too_long)

lemma ikcp_send_refuses_witness:
  "ikcp_send (\<lambda>_. None) (ikcp_init 7) None (- 5) = (- 1, ikcp_init 7) \<and>
   ikcp_send (\<lambda>_. None) (ikcp_init 7) None 200000 = (- 2, ikcp_init 7)"
proof -
  have "128 \<le> frag_count (ikcp_init 7) 200000"
    by (simp add: frag_count_def ikcp_init_def kcp_consts)
  then show ?thesis
    using ikcp_send_refuses [of "- 5" "\<lambda>_. None" "ikcp_init 7" None 200000]
    by (simp add: ikcp_init_def kcp_consts)
qed

end
