(* ===== verification/Kcp_Recv.thy ===== *)
theory Kcp_Recv
  imports Kcp_Send "HOL-Library.Multiset"
begin

text \<open>
  The receiver's side: \<open>ikcp_peeksize\<close>, \<open>ikcp_recv\<close> and \<open>ikcp_parse_data\<close>.
  Segments that arrive are kept in \<open>rcv_buf\<close>, ordered by their offset from
  \<open>rcv_nxt\<close>; those that are next in order move to \<open>rcv_queue\<close>, from which the user
  reads whole messages.  \<open>rcv_inv\<close> is the invariant of this side.
\<close>

section \<open>Operations\<close>

text \<open>\<open>length += seg->len\<close> of a C \<open>int\<close> and an \<open>IUINT32\<close>, up to the last fragment.\<close>

fun peek_sum :: "ikcpseg list \<Rightarrow> int \<Rightarrow> int" where
  "peek_sum [] len = len"
| "peek_sum (seg # p) len =
     (let len' = i32 (len + uint (seg_len seg))
      in if seg_frg seg = 0 then len' else peek_sum p len')"

definition ikcp_peeksize :: "ikcpcb \<Rightarrow> int" where
  "ikcp_peeksize kcp =
     (case k_rcv_queue kcp of
        [] \<Rightarrow> - 1
      | seg # _ \<Rightarrow>
          if seg_frg seg = 0 then sint (seg_len seg)
          else if k_nrcv_que kcp < seg_frg seg + 1 then - 1
          else peek_sum (k_rcv_queue kcp) 0)"

text \<open>
  The loop that merges the fragments: the bytes copied, the length, the number of segments visited
  and the segments behind them.
\<close>

fun recv_merge :: "ikcpseg list \<Rightarrow> bytes \<Rightarrow> int \<Rightarrow> nat \<Rightarrow> bytes \<times> int \<times> nat \<times> ikcpseg list" where
  "recv_merge [] out len n = (out, len, n, [])"
| "recv_merge (seg # p) out len n =
     (let out' = out @ take (unat (seg_len seg)) (seg_data seg);
          len' = i32 (len + uint (seg_len seg))
      in if seg_frg seg = 0 then (out', len', Suc n, p) else recv_merge p out' len' (Suc n))"

text \<open>Moving available data from \<open>rcv_buf\<close> to \<open>rcv_queue\<close>.\<close>

function rcv_move :: "ikcpcb \<Rightarrow> ikcpcb" where
  "rcv_move kcp =
     (case k_rcv_buf kcp of
        [] \<Rightarrow> kcp
      | seg # rest \<Rightarrow>
          if seg_sn seg = k_rcv_nxt kcp \<and> k_nrcv_que kcp < k_rcv_wnd kcp
          then rcv_move (kcp\<lparr>k_rcv_buf := rest, k_nrcv_buf := k_nrcv_buf kcp - 1,
                             k_rcv_queue := k_rcv_queue kcp @ [seg],
                             k_nrcv_que := k_nrcv_que kcp + 1,
                             k_rcv_nxt := k_rcv_nxt kcp + 1\<rparr>)
          else kcp)"
  by pat_completeness auto
termination
  by (relation "measure (\<lambda>kcp. length (k_rcv_buf kcp))") auto

declare rcv_move.simps [simp del]

text \<open>
  \<open>ikcp_recv\<close>: the result, the bytes written through \<open>buffer\<close> (\<open>buffer\<close> says
  whether the pointer is non-null) and the new control block.
\<close>

definition ikcp_recv :: "ikcpcb \<Rightarrow> bool \<Rightarrow> int \<Rightarrow> int \<times> bytes \<times> ikcpcb" where
  "ikcp_recv kcp buffer len =
     (let ispeek = (len < 0) in
      if k_rcv_queue kcp = [] then (- 1, [], kcp)
      else let len1 = (if len < 0 then - len else len);
               peeksize = ikcp_peeksize kcp
           in if peeksize < 0 then (- 2, [], kcp)
              else if peeksize > len1 then (- 3, [], kcp)
              else let recover = (k_nrcv_que kcp \<ge> k_rcv_wnd kcp);
                       (out, len2, n, rest) = recv_merge (k_rcv_queue kcp) [] 0 0;
                       kcp1 = (if ispeek then kcp
                               else kcp\<lparr>k_rcv_queue := rest, k_nrcv_que := k_nrcv_que kcp - of_nat n\<rparr>);
                       kcp2 = rcv_move kcp1;
                       kcp3 = (if k_nrcv_que kcp2 < k_rcv_wnd kcp2 \<and> recover
                               then kcp2\<lparr>k_probe := k_probe kcp2 OR IKCP_ASK_TELL\<rparr> else kcp2)
                   in (len2, if buffer then out else [], kcp3))"

text \<open>
  The backward scan of \<open>ikcp_parse_data\<close>, on the reversed \<open>rcv_buf\<close>: \<open>None\<close> for
  a repeated segment, otherwise the reversed list with the new segment behind the place where the
  scan stopped.
\<close>

fun rcv_scan :: "ikcpseg \<Rightarrow> ikcpseg list \<Rightarrow> ikcpseg list option" where
  "rcv_scan newseg [] = Some [newseg]"
| "rcv_scan newseg (seg # prev) =
     (if seg_sn seg = seg_sn newseg then None
      else if itimediff (seg_sn newseg) (seg_sn seg) > 0 then Some (newseg # seg # prev)
      else map_option ((#) seg) (rcv_scan newseg prev))"

definition ikcp_parse_data :: "ikcpcb \<Rightarrow> ikcpseg \<Rightarrow> ikcpcb" where
  "ikcp_parse_data kcp newseg =
     (let sn = seg_sn newseg in
      if itimediff sn (k_rcv_nxt kcp + k_rcv_wnd kcp) \<ge> 0 \<or> itimediff sn (k_rcv_nxt kcp) < 0 then kcp
      else let kcp1 = (case rcv_scan newseg (rev (k_rcv_buf kcp)) of
                         None \<Rightarrow> kcp
                       | Some b \<Rightarrow> kcp\<lparr>k_rcv_buf := rev b, k_nrcv_buf := k_nrcv_buf kcp + 1\<rparr>)
           in rcv_move kcp1)"

section \<open>Invariant\<close>

definition seg_wf :: "ikcpseg \<Rightarrow> bool" where
  "seg_wf s \<longleftrightarrow> unat (seg_len s) = length (seg_data s)"

text \<open>
  The receive queue holds the sequence numbers right below \<open>rcv_nxt\<close>, without a gap; the
  receive buffer is strictly ordered by offset; the counters count.
\<close>

definition contiguous :: "u32 \<Rightarrow> ikcpseg list \<Rightarrow> bool" where
  "contiguous nxt q \<longleftrightarrow> (\<forall>i < length q. seg_sn (q ! i) + of_nat (length q - i) = nxt)"

definition buf_sorted :: "u32 \<Rightarrow> ikcpseg list \<Rightarrow> bool" where
  "buf_sorted nxt b \<longleftrightarrow> sorted_wrt (<) (map (\<lambda>s. off nxt (seg_sn s)) b) \<and>
     (\<forall>s \<in> set b. off nxt (seg_sn s) < 2147483648)"

definition rcv_inv :: "ikcpcb \<Rightarrow> bool" where
  "rcv_inv kcp \<longleftrightarrow>
     unat (k_rcv_wnd kcp) < 2147483648 \<and>
     contiguous (k_rcv_nxt kcp) (k_rcv_queue kcp) \<and>
     buf_sorted (k_rcv_nxt kcp) (k_rcv_buf kcp) \<and>
     unat (k_nrcv_que kcp) = length (k_rcv_queue kcp) \<and>
     k_nrcv_buf kcp = of_nat (length (k_rcv_buf kcp)) \<and>
     (\<forall>s \<in> set (k_rcv_queue kcp) \<union> set (k_rcv_buf kcp). seg_wf s)"

lemma rcv_inv_init: "rcv_inv (ikcp_init conv)"
  by (simp add: rcv_inv_def ikcp_init_def kcp_consts contiguous_def buf_sorted_def)

lemma contiguous_snoc:
  assumes "contiguous nxt q" "seg_sn s = nxt"
  shows "contiguous (nxt + 1) (q @ [s])"
  using assms by (auto simp: contiguous_def nth_append less_Suc_eq Suc_diff_le add.assoc)

lemma contiguous_drop: "contiguous nxt q \<Longrightarrow> contiguous nxt (drop n q)"
  by (auto simp: contiguous_def add.commute less_diff_conv)

text \<open>Advancing \<open>rcv_nxt\<close> over the head of the buffer lowers every remaining offset by one.\<close>

lemma off_step: "off nxt x \<noteq> 0 \<Longrightarrow> off (nxt + 1) x = off nxt x - 1"
proof -
  assume "off nxt x \<noteq> 0"
  then have "x - nxt \<noteq> 0" by auto
  then have "unat (x - nxt - 1) = off nxt x - 1"
    by (rule unat_minus_one)
  then show ?thesis by (simp add: diff_diff_eq)
qed

lemma buf_sorted_tl:
  assumes "buf_sorted nxt (s # b)" "seg_sn s = nxt"
  shows "buf_sorted (nxt + 1) b"
proof -
  have pos: "\<And>x. x \<in> set b \<Longrightarrow> 0 < off nxt (seg_sn x)"
    using assms by (simp add: buf_sorted_def)
  have st: "\<And>x. x \<in> set b \<Longrightarrow> off (nxt + 1) (seg_sn x) = off nxt (seg_sn x) - 1"
    using pos off_step by simp
  have "sorted_wrt (<) (map (\<lambda>s. off (nxt + 1) (seg_sn s)) b)"
    using assms(1) st pos
    by (auto simp: buf_sorted_def sorted_wrt_map intro!: diff_less_mono elim!: sorted_wrt_mono_rel [rotated])
  moreover have "\<forall>x \<in> set b. off (nxt + 1) (seg_sn x) < 2147483648"
    using assms(1) st by (auto simp: buf_sorted_def less_imp_diff_less)
  ultimately show ?thesis by (simp add: buf_sorted_def)
qed

text \<open>The step of the moving loop keeps the invariant, hence the loop does.\<close>

lemma rcv_move_inv: "rcv_inv kcp \<Longrightarrow> rcv_inv (rcv_move kcp)"
proof (induction kcp rule: rcv_move.induct)
  case (1 kcp)
  show ?case
  proof (cases "k_rcv_buf kcp")
    case Nil
    with 1 show ?thesis by (simp add: rcv_move.simps [of kcp])
  next
    case (Cons s b)
    show ?thesis
    proof (cases "seg_sn s = k_rcv_nxt kcp \<and> k_nrcv_que kcp < k_rcv_wnd kcp")
      case False
      with 1 Cons show ?thesis by (auto simp: rcv_move.simps [of kcp])
    next
      case True
      let ?k = "kcp\<lparr>k_rcv_buf := b, k_nrcv_buf := k_nrcv_buf kcp - 1,
                   k_rcv_queue := k_rcv_queue kcp @ [s], k_nrcv_que := k_nrcv_que kcp + 1,
                   k_rcv_nxt := k_rcv_nxt kcp + 1\<rparr>"
      have "rcv_inv ?k"
        using "1.prems" Cons True buf_sorted_tl [of "k_rcv_nxt kcp" s b]
          contiguous_snoc [of "k_rcv_nxt kcp" "k_rcv_queue kcp" s]
        by (auto simp: rcv_inv_def word_less_nat_alt unat_plus_if')
      then show ?thesis
        using "1.IH" [OF Cons True] Cons True by (simp add: rcv_move.simps [of kcp])
    qed
  qed
qed

text \<open>What the loop does: it moves a prefix of the buffer, and stops only when nothing can move.\<close>

definition moved :: "ikcpcb \<Rightarrow> nat \<Rightarrow> ikcpcb" where
  "moved kcp n =
     kcp\<lparr>k_rcv_buf := drop n (k_rcv_buf kcp), k_nrcv_buf := k_nrcv_buf kcp - of_nat n,
         k_rcv_queue := k_rcv_queue kcp @ take n (k_rcv_buf kcp),
         k_nrcv_que := k_nrcv_que kcp + of_nat n, k_rcv_nxt := k_rcv_nxt kcp + of_nat n\<rparr>"

lemma rcv_move_spec:
  "\<exists>n \<le> length (k_rcv_buf kcp). rcv_move kcp = moved kcp n \<and>
     (case drop n (k_rcv_buf kcp) of [] \<Rightarrow> True
      | s # _ \<Rightarrow> \<not> (seg_sn s = k_rcv_nxt kcp + of_nat n \<and> k_nrcv_que kcp + of_nat n < k_rcv_wnd kcp))"
proof (induction kcp rule: rcv_move.induct)
  case (1 kcp)
  show ?case
  proof (cases "k_rcv_buf kcp")
    case Nil
    then show ?thesis by (simp add: rcv_move.simps [of kcp] moved_def)
  next
    case (Cons s b)
    show ?thesis
    proof (cases "seg_sn s = k_rcv_nxt kcp \<and> k_nrcv_que kcp < k_rcv_wnd kcp")
      case False
      with Cons show ?thesis
        by (intro exI [of _ 0]) (auto simp: rcv_move.simps [of kcp] moved_def)
    next
      case True
      let ?k = "kcp\<lparr>k_rcv_buf := b, k_nrcv_buf := k_nrcv_buf kcp - 1,
                   k_rcv_queue := k_rcv_queue kcp @ [s], k_nrcv_que := k_nrcv_que kcp + 1,
                   k_rcv_nxt := k_rcv_nxt kcp + 1\<rparr>"
      from "1.IH" [OF Cons True] obtain n where n: "n \<le> length (k_rcv_buf ?k)" "rcv_move ?k = moved ?k n"
        "case drop n (k_rcv_buf ?k) of [] \<Rightarrow> True
         | x # _ \<Rightarrow> \<not> (seg_sn x = k_rcv_nxt ?k + of_nat n \<and> k_nrcv_que ?k + of_nat n < k_rcv_wnd ?k)"
        by blast
      have "moved ?k n = moved kcp (Suc n)"
        using Cons by (simp add: moved_def add.assoc diff_diff_eq)
      moreover have "rcv_move kcp = rcv_move ?k"
        using Cons True by (simp add: rcv_move.simps [of kcp])
      ultimately show ?thesis
        using n Cons by (intro exI [of _ "Suc n"]) (auto simp: add.assoc split: list.splits)
    qed
  qed
qed

section \<open>Storing a segment\<close>

text \<open>The backward scan inserts into the strictly ordered buffer, or finds the number present.\<close>

lemma rcv_scan_None:
  assumes "\<forall>s \<in> set b. off nxt (seg_sn s) < 2147483648" "off nxt (seg_sn x) < 2147483648"
    and "sorted_wrt (>) (map (\<lambda>s. off nxt (seg_sn s)) b)"
  shows "rcv_scan x b = None \<longleftrightarrow> seg_sn x \<in> seg_sn ` set b"
  using assms
proof (induction b)
  case (Cons s b)
  then have d: "itimediff (seg_sn x) (seg_sn s) = int (off nxt (seg_sn x)) - int (off nxt (seg_sn s))"
    by (intro itimediff_window) simp_all
  show ?case
  proof (cases "itimediff (seg_sn x) (seg_sn s) > 0")
    case True
    with Cons.prems d have "\<forall>y \<in> set (s # b). off nxt (seg_sn y) < off nxt (seg_sn x)" by fastforce
    then have "seg_sn x \<notin> seg_sn ` set (s # b)" by auto
    with True show ?thesis by auto
  next
    case False
    with Cons show ?thesis by auto
  qed
qed simp

lemma rcv_scan_Some:
  assumes "\<forall>s \<in> set b. off nxt (seg_sn s) < 2147483648" "off nxt (seg_sn x) < 2147483648"
    and "sorted_wrt (>) (map (\<lambda>s. off nxt (seg_sn s)) b)" and "rcv_scan x b = Some b'"
  shows "(\<exists>us vs. b = us @ vs \<and> b' = us @ x # vs) \<and> sorted_wrt (>) (map (\<lambda>s. off nxt (seg_sn s)) b')"
  using assms
proof (induction b arbitrary: b')
  case (Cons s b)
  then have d: "itimediff (seg_sn x) (seg_sn s) = int (off nxt (seg_sn x)) - int (off nxt (seg_sn s))"
    by (intro itimediff_window) simp_all
  have ne: "seg_sn s \<noteq> seg_sn x" using Cons.prems(4) by auto
  then have no: "off nxt (seg_sn s) \<noteq> off nxt (seg_sn x)" by (simp add: off_inj)
  show ?case
  proof (cases "itimediff (seg_sn x) (seg_sn s) > 0")
    case True
    then have "b' = x # s # b" using Cons.prems(4) ne by simp
    with True d Cons.prems(3) show ?thesis
      by (intro conjI exI [of _ "[]"] exI [of _ "s # b"]) fastforce+
  next
    case False
    then obtain c where c: "rcv_scan x b = Some c" "b' = s # c" using Cons.prems(4) ne by auto
    have IH: "(\<exists>us vs. b = us @ vs \<and> c = us @ x # vs) \<and> sorted_wrt (>) (map (\<lambda>s. off nxt (seg_sn s)) c)"
      using Cons.IH [OF _ _ _ c(1)] Cons.prems by simp
    then obtain us vs where uv: "b = us @ vs" "c = us @ x # vs" by blast
    have "off nxt (seg_sn x) < off nxt (seg_sn s)" using False d no by linarith
    with IH uv Cons.prems(3) have "sorted_wrt (>) (map (\<lambda>s. off nxt (seg_sn s)) b')"
      by (auto simp: c(2))
    then show ?thesis
      using uv c(2) by (intro conjI exI [of _ "s # us"] exI [of _ vs]) simp_all
  qed
qed auto

text \<open>Storing keeps the invariant; the segment is new exactly when its number is not in the buffer.\<close>

definition rcv_accepts :: "ikcpcb \<Rightarrow> u32 \<Rightarrow> bool" where
  "rcv_accepts kcp sn \<longleftrightarrow>
     off (k_rcv_nxt kcp) sn < unat (k_rcv_wnd kcp) \<and> sn \<notin> seg_sn ` set (k_rcv_buf kcp)"

definition rcv_store :: "ikcpcb \<Rightarrow> ikcpseg \<Rightarrow> ikcpcb" where
  "rcv_store kcp newseg =
     (case rcv_scan newseg (rev (k_rcv_buf kcp)) of
        None \<Rightarrow> kcp
      | Some b \<Rightarrow> kcp\<lparr>k_rcv_buf := rev b, k_nrcv_buf := k_nrcv_buf kcp + 1\<rparr>)"

lemma window_test:
  assumes "unat w < 2147483648"
  shows "itimediff sn (nxt + w) \<ge> 0 \<or> itimediff sn nxt < 0 \<longleftrightarrow> \<not> off nxt sn < unat w"
proof -
  have "off (nxt + w) sn = (if unat w \<le> off nxt sn then off nxt sn - unat w
                            else off nxt sn + 4294967296 - unat w)"
    using unat_sub_if' [of "sn - nxt" w] by (simp add: diff_diff_eq)
  then show ?thesis
    using assms unat_u32_lt [of "sn - nxt"] unat_u32_lt [of "sn - (nxt + w)"]
    by (auto simp: itimediff_ge_0 itimediff_lt_0 split: if_splits)
qed

lemma ikcp_parse_data_eq:
  assumes "unat (k_rcv_wnd kcp) < 2147483648"
  shows "ikcp_parse_data kcp newseg =
     (if off (k_rcv_nxt kcp) (seg_sn newseg) < unat (k_rcv_wnd kcp)
      then rcv_move (rcv_store kcp newseg) else kcp)"
  using window_test [OF assms, of "seg_sn newseg" "k_rcv_nxt kcp"]
  by (auto simp: ikcp_parse_data_def rcv_store_def Let_def)

lemma buf_sorted_rev:
  "buf_sorted nxt b \<longleftrightarrow> sorted_wrt (>) (map (\<lambda>s. off nxt (seg_sn s)) (rev b)) \<and>
     (\<forall>s \<in> set (rev b). off nxt (seg_sn s) < 2147483648)"
  by (simp add: buf_sorted_def sorted_wrt_rev rev_map [symmetric])

lemma rcv_store_spec:
  assumes inv: "rcv_inv kcp" and win: "off (k_rcv_nxt kcp) (seg_sn x) < unat (k_rcv_wnd kcp)"
    and wf: "seg_wf x"
  shows "rcv_inv (rcv_store kcp x) \<and>
     (if seg_sn x \<in> seg_sn ` set (k_rcv_buf kcp) then rcv_store kcp x = kcp
      else \<exists>us vs. k_rcv_buf kcp = us @ vs \<and>
             rcv_store kcp x = kcp\<lparr>k_rcv_buf := us @ x # vs, k_nrcv_buf := k_nrcv_buf kcp + 1\<rparr>)"
proof -
  let ?n = "k_rcv_nxt kcp" and ?b = "rev (k_rcv_buf kcp)"
  have b: "\<forall>s \<in> set ?b. off ?n (seg_sn s) < 2147483648" "sorted_wrt (>) (map (\<lambda>s. off ?n (seg_sn s)) ?b)"
    using inv by (auto simp: rcv_inv_def buf_sorted_rev)
  have x: "off ?n (seg_sn x) < 2147483648" using inv win by (auto simp: rcv_inv_def)
  show ?thesis
  proof (cases "rcv_scan x ?b")
    case None
    then show ?thesis
      using rcv_scan_None [OF b(1) x b(2)] inv by (simp add: rcv_store_def)
  next
    case (Some c)
    then obtain us vs where uv: "?b = us @ vs" "c = us @ x # vs"
      and st: "sorted_wrt (>) (map (\<lambda>s. off ?n (seg_sn s)) c)"
      using rcv_scan_Some [OF b(1) x b(2) Some] by blast
    have split: "k_rcv_buf kcp = rev vs @ rev us" "rev c = rev vs @ x # rev us"
      using uv by (metis rev_append rev_rev_ident, simp)
    have srt: "buf_sorted ?n (rev c)"
      using st b(1) x uv by (auto simp: buf_sorted_rev)
    have new: "seg_sn x \<notin> seg_sn ` set (k_rcv_buf kcp)"
      using rcv_scan_None [OF b(1) x b(2)] Some by simp
    have "rcv_store kcp x = kcp\<lparr>k_rcv_buf := rev c, k_nrcv_buf := k_nrcv_buf kcp + 1\<rparr>"
      using Some by (simp add: rcv_store_def)
    moreover have "rcv_inv (kcp\<lparr>k_rcv_buf := rev c, k_nrcv_buf := k_nrcv_buf kcp + 1\<rparr>)"
      using inv srt wf split by (auto simp: rcv_inv_def)
    ultimately show ?thesis
      using new split by auto
  qed
qed

lemma ikcp_parse_data_inv:
  assumes "rcv_inv kcp" "seg_wf x"
  shows "rcv_inv (ikcp_parse_data kcp x)"
  using assms rcv_store_spec [OF assms(1) _ assms(2)]
  by (auto simp: ikcp_parse_data_eq rcv_inv_def [of kcp] intro: rcv_move_inv)

section \<open>Reading a message\<close>

text \<open>A complete message at the head of the queue: every fragment but the last has \<open>frg > 0\<close>.\<close>

definition message :: "ikcpseg list \<Rightarrow> bool" where
  "message m \<longleftrightarrow> m \<noteq> [] \<and> seg_frg (last m) = 0 \<and> (\<forall>s \<in> set (butlast m). seg_frg s \<noteq> 0)"

lemma message_Cons:
  "message (s # m) \<longleftrightarrow> (if seg_frg s = 0 then m = [] else message m)"
  by (cases m) (auto simp: message_def)

lemma recv_merge_message:
  assumes "message m" "\<forall>s \<in> set m. seg_wf s" "0 \<le> len"
    and "len + int (length (queue_bytes m)) < 2 ^ 31"
  shows "recv_merge (m @ rest) out len n =
           (out @ queue_bytes m, len + int (length (queue_bytes m)), n + length m, rest)"
  using assms
proof (induction m arbitrary: out len n)
  case (Cons s m)
  then have "i32 (len + uint (seg_len s)) = len + int (length (seg_data s))"
    by (simp add: seg_wf_def uint_nat cint_simps)
  with Cons show ?case
    by (cases "seg_frg s = 0") (auto simp: message_Cons seg_wf_def Let_def)
qed (simp add: message_def)

lemma peek_sum_message:
  assumes "message m" "\<forall>s \<in> set m. seg_wf s" "0 \<le> len"
    and "len + int (length (queue_bytes m)) < 2 ^ 31"
  shows "peek_sum (m @ rest) len = len + int (length (queue_bytes m))"
  using assms
proof (induction m arbitrary: len)
  case (Cons s m)
  then have "i32 (len + uint (seg_len s)) = len + int (length (seg_data s))"
    by (simp add: seg_wf_def uint_nat cint_simps)
  with Cons show ?case
    by (cases "seg_frg s = 0") (auto simp: message_Cons seg_wf_def Let_def)
qed (simp add: message_def)

text \<open>
  \<open>ikcp_peeksize\<close> additionally demands that the first \<open>frg\<close> announces no more
  fragments than the queue holds.
\<close>

lemma ikcp_peeksize_message:
  assumes inv: "rcv_inv kcp" and q: "k_rcv_queue kcp = m @ rest" and m: "message m"
    and frg: "unat (seg_frg (hd m)) < length (m @ rest)"
    and small: "length (queue_bytes m) < 2 ^ 31"
  shows "ikcp_peeksize kcp = int (length (queue_bytes m))"
proof -
  obtain s m' where s: "m = s # m'" using m by (cases m) (auto simp: message_def)
  have wf: "\<forall>s \<in> set m. seg_wf s" using inv q by (auto simp: rcv_inv_def)
  have nq: "unat (k_nrcv_que kcp) = length (m @ rest)" using inv q by (simp add: rcv_inv_def)
  show ?thesis
  proof (cases "seg_frg s = 0")
    case True
    then have "m' = []" using m s by (simp add: message_Cons)
    then show ?thesis
      using wf small s q True by (simp add: ikcp_peeksize_def sint_u32 seg_wf_def)
  next
    case False
    have "unat (seg_frg s + 1) = unat (seg_frg s) + 1"
      using frg nq s unat_u32_lt [of "k_nrcv_que kcp"] by (simp add: unat_plus_if')
    then have "\<not> k_nrcv_que kcp < seg_frg s + 1"
      using frg nq s by (simp add: word_less_nat_alt)
    then show ?thesis
      using peek_sum_message [OF m wf, of 0 rest] small s q False by (simp add: ikcp_peeksize_def)
  qed
qed

text \<open>The control block after the message has been taken out of the queue.\<close>

definition taken :: "ikcpcb \<Rightarrow> nat \<Rightarrow> ikcpcb" where
  "taken kcp n = kcp\<lparr>k_rcv_queue := drop n (k_rcv_queue kcp), k_nrcv_que := k_nrcv_que kcp - of_nat n\<rparr>"

lemma taken_inv:
  assumes "rcv_inv kcp" "n \<le> length (k_rcv_queue kcp)"
  shows "rcv_inv (taken kcp n)"
proof -
  have l: "unat (k_nrcv_que kcp) = length (k_rcv_queue kcp)" using assms by (simp add: rcv_inv_def)
  have "k_nrcv_que kcp - of_nat n = (of_nat (length (k_rcv_queue kcp) - n) :: u32)"
    using assms(2) by (simp add: of_nat_diff l [symmetric] of_nat_unat)
  then have "unat (k_nrcv_que kcp - of_nat n) = length (k_rcv_queue kcp) - n"
    using l unat_u32_lt [of "k_nrcv_que kcp"] by (simp add: unat_of_nat)
  then show ?thesis
    using assms contiguous_drop [of "k_rcv_nxt kcp" "k_rcv_queue kcp" n] set_drop_subset [of n "k_rcv_queue kcp"]
    by (auto simp: rcv_inv_def taken_def)
qed

lemma recv_merge_visits:
  "\<exists>k \<le> length q. \<exists>out' len'. recv_merge q out len n = (out', len', n + k, drop k q)"
proof (induction q arbitrary: out len n)
  case (Cons s q)
  show ?case
  proof (cases "seg_frg s = 0")
    case True
    then show ?thesis by (intro exI [of _ 1]) (auto simp: Let_def)
  next
    case False
    from Cons.IH [of "out @ take (unat (seg_len s)) (seg_data s)" "i32 (len + uint (seg_len s))" "Suc n"]
    obtain k out' len' where "k \<le> length q"
      "recv_merge q (out @ take (unat (seg_len s)) (seg_data s)) (i32 (len + uint (seg_len s))) (Suc n) =
         (out', len', Suc n + k, drop k q)" by blast
    with False show ?thesis by (intro exI [of _ "Suc k"]) (auto simp: Let_def)
  qed
qed simp

lemma rcv_inv_probe [simp]: "rcv_inv (kcp\<lparr>k_probe := p\<rparr>) = rcv_inv kcp"
  by (simp add: rcv_inv_def)

text \<open>A successful call, unfolded: the merge, the removal, the move and the probe flag.\<close>

lemma ikcp_recv_ok:
  assumes "recv_merge (k_rcv_queue kcp) [] 0 0 = (out, l, n, rest)" "rest = drop n (k_rcv_queue kcp)"
    and "k_rcv_queue kcp \<noteq> []" "0 \<le> ikcp_peeksize kcp" "ikcp_peeksize kcp \<le> \<bar>len\<bar>"
  shows "\<exists>p. ikcp_recv kcp buffer len =
     (l, if buffer then out else [], (rcv_move (if len < 0 then kcp else taken kcp n))\<lparr>k_probe := p\<rparr>)"
proof -
  let ?k = "rcv_move (if len < 0 then kcp else taken kcp n)"
  have c: "\<not> ikcp_peeksize kcp < 0" "\<not> ikcp_peeksize kcp > (if len < 0 then - len else len)"
    using assms(4,5) by auto
  have "ikcp_recv kcp buffer len = (l, if buffer then out else [],
      if k_nrcv_que ?k < k_rcv_wnd ?k \<and> k_nrcv_que kcp \<ge> k_rcv_wnd kcp
      then ?k\<lparr>k_probe := k_probe ?k OR IKCP_ASK_TELL\<rparr> else ?k)"
    using assms(1-3) c by (simp add: ikcp_recv_def Let_def taken_def)
  then show ?thesis
    by (intro exI [of _ "if k_nrcv_que ?k < k_rcv_wnd ?k \<and> k_nrcv_que kcp \<ge> k_rcv_wnd kcp
        then k_probe ?k OR IKCP_ASK_TELL else k_probe ?k"]) simp
qed

lemma ikcp_recv_fail:
  assumes "k_rcv_queue kcp = [] \<or> ikcp_peeksize kcp < 0 \<or> \<bar>len\<bar> < ikcp_peeksize kcp"
  shows "\<exists>r < 0. ikcp_recv kcp buffer len = (r, [], kcp)"
  using assms by (auto simp: ikcp_recv_def Let_def)

lemma ikcp_recv_inv:
  assumes "rcv_inv kcp"
  shows "rcv_inv (snd (snd (ikcp_recv kcp buffer len)))"
proof (cases "k_rcv_queue kcp = [] \<or> ikcp_peeksize kcp < 0 \<or> \<bar>len\<bar> < ikcp_peeksize kcp")
  case True
  then show ?thesis using ikcp_recv_fail [OF True, of buffer] assms by auto
next
  case False
  obtain k out l where k: "k \<le> length (k_rcv_queue kcp)"
    "recv_merge (k_rcv_queue kcp) [] 0 0 = (out, l, k, drop k (k_rcv_queue kcp))"
    using recv_merge_visits [of "k_rcv_queue kcp" "[]" 0 0] by auto
  have "rcv_inv (rcv_move (if len < 0 then kcp else taken kcp k))"
    using assms taken_inv [OF assms k(1)] by (auto intro: rcv_move_inv)
  then show ?thesis
    using ikcp_recv_ok [OF k(2) refl, of len buffer] False by auto
qed

text \<open>Receiving a complete message into a buffer that is large enough.\<close>

lemma recv_complete:
  assumes inv: "rcv_inv kcp" and q: "k_rcv_queue kcp = m @ rest" and m: "message m"
    and frg: "unat (seg_frg (hd m)) < length (m @ rest)" and small: "length (queue_bytes m) < 2 ^ 31"
    and fits: "int (length (queue_bytes m)) \<le> len"
  shows "ikcp_peeksize kcp = int (length (queue_bytes m)) \<and>
     (\<exists>p. ikcp_recv kcp True len = (int (length (queue_bytes m)), queue_bytes m,
        (rcv_move (taken kcp (length m)))\<lparr>k_probe := p\<rparr>))"
proof -
  let ?q = "queue_bytes m"
  have pk: "ikcp_peeksize kcp = int (length ?q)"
    using ikcp_peeksize_message [OF inv q m frg] small by (simp add: queue_bytes_def)
  have ne: "k_rcv_queue kcp \<noteq> []" using q m by (auto simp: message_def)
  have wf: "\<forall>s \<in> set m. seg_wf s" using inv q by (auto simp: rcv_inv_def)
  have mg: "recv_merge (k_rcv_queue kcp) [] 0 0 = (?q, int (length ?q), length m, rest)"
    using recv_merge_message [OF m wf, of 0 rest "[]" 0] q small by (simp add: queue_bytes_def)
  have "rest = drop (length m) (k_rcv_queue kcp)" using q by simp
  from ikcp_recv_ok [OF mg this ne, of len True] pk fits show ?thesis by auto
qed

section \<open>Properties\<close>

text \<open>C5: storing a segment (\<open>ikcp_parse_data\<close>) keeps the receive invariant, and a segment
  is delivered at most once: a number outside the window or already buffered leaves the set of
  buffered and queued segments alone, any other adds exactly this segment.  The queue only grows
  at its end.\<close>

theorem ikcp_parse_data_stores:
  assumes "rcv_inv kcp" and "unat (seg_len x) = length (seg_data x)"
  defines "kcp' \<equiv> ikcp_parse_data kcp x"
  shows "rcv_inv kcp' \<and>
         mset (k_rcv_queue kcp' @ k_rcv_buf kcp') =
           mset (k_rcv_queue kcp @ k_rcv_buf kcp) + (if rcv_accepts kcp (seg_sn x) then {#x#} else {#}) \<and>
         (\<exists>new. k_rcv_queue kcp' = k_rcv_queue kcp @ new)"
proof -
  have wf: "seg_wf x" using assms(2) by (simp add: seg_wf_def)
  have wnd: "unat (k_rcv_wnd kcp) < 2147483648" using assms(1) by (simp add: rcv_inv_def)
  show ?thesis
  proof (cases "off (k_rcv_nxt kcp) (seg_sn x) < unat (k_rcv_wnd kcp)")
    case False
    then show ?thesis
      using assms(1) by (simp add: kcp'_def ikcp_parse_data_eq [OF wnd] rcv_accepts_def)
  next
    case True
    let ?s = "rcv_store kcp x"
    have k: "kcp' = rcv_move ?s" using True by (simp add: kcp'_def ikcp_parse_data_eq [OF wnd])
    obtain n where n: "rcv_move ?s = moved ?s n" using rcv_move_spec [of ?s] by blast
    have "mset (k_rcv_queue kcp' @ k_rcv_buf kcp') = mset (k_rcv_queue ?s) + mset (take n (k_rcv_buf ?s) @ drop n (k_rcv_buf ?s))"
      by (simp add: k n moved_def del: append_take_drop_id)
    then have ms: "mset (k_rcv_queue kcp' @ k_rcv_buf kcp') = mset (k_rcv_queue ?s) + mset (k_rcv_buf ?s)"
      by simp
    note st = rcv_store_spec [OF assms(1) True wf]
    have "mset (k_rcv_queue ?s) + mset (k_rcv_buf ?s) =
        mset (k_rcv_queue kcp @ k_rcv_buf kcp) + (if rcv_accepts kcp (seg_sn x) then {#x#} else {#})"
      using st True by (auto simp: rcv_accepts_def split: if_splits)
    moreover have "k_rcv_queue ?s = k_rcv_queue kcp" using st by (auto split: if_splits)
    moreover have "rcv_inv kcp'" using st by (simp add: k rcv_move_inv)
    ultimately show ?thesis using ms by (auto simp: k n moved_def)
  qed
qed

definition sample_rcv :: ikcpcb where
  "sample_rcv = (ikcp_init 7)\<lparr>k_rcv_nxt := 5, k_nrcv_buf := 1,
     k_rcv_buf := [sample_seg\<lparr>seg_sn := 6, seg_len := 1, seg_data := [66]\<rparr>]\<rparr>"

lemma sample_rcv_inv: "rcv_inv sample_rcv"
  by (simp add: rcv_inv_def sample_rcv_def ikcp_init_def kcp_consts contiguous_def buf_sorted_def
      seg_wf_def sample_seg_def)

lemma ikcp_parse_data_stores_witness:
  "mset (k_rcv_queue (ikcp_parse_data sample_rcv (sample_seg\<lparr>seg_sn := 5\<rparr>)) @
         k_rcv_buf (ikcp_parse_data sample_rcv (sample_seg\<lparr>seg_sn := 5\<rparr>))) =
   {#sample_seg\<lparr>seg_sn := 6, seg_len := 1, seg_data := [66]\<rparr>, sample_seg\<lparr>seg_sn := 5\<rparr>#}"
  using ikcp_parse_data_stores [OF sample_rcv_inv, of "sample_seg\<lparr>seg_sn := 5\<rparr>"]
  by (simp add: rcv_accepts_def sample_rcv_def ikcp_init_def kcp_consts sample_seg_def)

text \<open>When a complete message is at the head of the receive queue, \<open>ikcp_recv\<close> with a
  large enough buffer returns its length and its bytes, which agree with \<open>ikcp_peeksize\<close>
  (the assertion of the source), removes exactly its fragments and keeps the invariant; with a
  smaller buffer it is refused with \<open>-3\<close> and nothing changes.\<close>

theorem ikcp_recv_message:
  assumes "rcv_inv kcp" and "k_rcv_queue kcp = m @ rest" and "message m"
    and "unat (seg_frg (hd m)) < length (m @ rest)" and "length (concat (map seg_data m)) < 2 ^ 31"
    and "0 \<le> len"
  shows "if len < int (length (concat (map seg_data m))) then ikcp_recv kcp True len = (- 3, [], kcp)
         else \<exists>kcp' more. ikcp_recv kcp True len =
                (int (length (concat (map seg_data m))), concat (map seg_data m), kcp') \<and>
              ikcp_peeksize kcp = int (length (concat (map seg_data m))) \<and>
              k_rcv_queue kcp' = rest @ more \<and> rcv_inv kcp'"
proof (cases "len < int (length (concat (map seg_data m)))")
  case True
  have "ikcp_peeksize kcp = int (length (queue_bytes m))"
    using ikcp_peeksize_message [OF assms(1-4)] assms(5) by (simp add: queue_bytes_def)
  moreover have "k_rcv_queue kcp \<noteq> []" using assms(2,3) by (auto simp: message_def)
  ultimately show ?thesis using True assms(6) by (simp add: ikcp_recv_def queue_bytes_def)
next
  case False
  then obtain p where r: "ikcp_peeksize kcp = int (length (queue_bytes m))"
    "ikcp_recv kcp True len = (int (length (queue_bytes m)), queue_bytes m,
        (rcv_move (taken kcp (length m)))\<lparr>k_probe := p\<rparr>)"
    using recv_complete [OF assms(1-4), of len] assms(5) by (auto simp: queue_bytes_def)
  moreover have "rcv_inv (rcv_move (taken kcp (length m)))"
    using taken_inv [OF assms(1), of "length m"] assms(2) by (simp add: rcv_move_inv)
  moreover have "\<exists>more. k_rcv_queue (rcv_move (taken kcp (length m))) = rest @ more"
    using rcv_move_spec [of "taken kcp (length m)"] assms(2) by (auto simp: moved_def taken_def)
  ultimately show ?thesis using False by (auto simp: queue_bytes_def)
qed

definition sample_queue :: ikcpcb where
  "sample_queue = (ikcp_init 7)\<lparr>k_rcv_nxt := 2, k_nrcv_que := 2,
     k_rcv_queue := [sample_seg\<lparr>seg_sn := 0, seg_frg := 1, seg_len := 2, seg_data := [1, 2]\<rparr>,
                     sample_seg\<lparr>seg_sn := 1, seg_len := 1, seg_data := [3]\<rparr>]\<rparr>"

lemma ikcp_recv_message_witness:
  "fst (ikcp_recv sample_queue True 10) = 3 \<and> fst (snd (ikcp_recv sample_queue True 10)) = [1, 2, 3]"
proof -
  have "rcv_inv sample_queue"
    by (auto simp: rcv_inv_def sample_queue_def ikcp_init_def kcp_consts contiguous_def buf_sorted_def
        seg_wf_def sample_seg_def less_Suc_eq)
  then show ?thesis
    using ikcp_recv_message [of sample_queue "k_rcv_queue sample_queue" "[]" 10]
    by (auto simp: sample_queue_def message_def sample_seg_def)
qed

text \<open>When the segments that \<open>ikcp_send\<close> queued stand at the head of a receiver's queue,
  with whatever headers the transport filled in, \<open>ikcp_recv\<close> returns the original buffer.\<close>

lemma recv_sent_message:
  assumes "\<forall>j. mal j \<noteq> None" and "0 < sint (k_mss tx)" and "length bs < 2 ^ 31"
    and "k_stream tx = 0" and "k_snd_queue tx = []"
    and "ikcp_send mal tx (Some bs) (int (length bs)) = (0, tx')"
    and "rcv_inv rx"
    and "map (\<lambda>s. (seg_frg s, seg_len s, seg_data s)) (take (length (k_snd_queue tx')) (k_rcv_queue rx)) =
         map (\<lambda>s. (seg_frg s, seg_len s, seg_data s)) (k_snd_queue tx')"
    and "int (length bs) \<le> len"
  shows "\<exists>rx'. ikcp_recv rx True len = (int (length bs), bs, rx')"
proof -
  have few: "frag_count tx (length bs) < 128"
    using ikcp_send_fragments_too_long [OF assms(2,3), of mal 0 "Some bs"] assms(4,6)
    by (auto simp: ikcp_send_def not_less [symmetric])
  obtain segs where s: "k_snd_queue tx' = segs" "length segs = frag_count tx (length bs)"
    "concat (map seg_data segs) = bs" "map seg_frg segs = rev (map of_nat [0..<length segs])"
    using ikcp_send_fragments_spec [OF assms(1-3) few, of 0] assms(4-6)
    by (auto simp: ikcp_send_def queue_bytes_def)
  let ?m = "take (length segs) (k_rcv_queue rx)"
  have eq: "map (\<lambda>s. (seg_frg s, seg_len s, seg_data s)) ?m = map (\<lambda>s. (seg_frg s, seg_len s, seg_data s)) segs"
    using assms(8) s(1) by simp
  have dat: "map seg_data ?m = map seg_data segs" and frg: "map seg_frg ?m = map seg_frg segs"
    using arg_cong [OF eq, of "map (snd \<circ> snd)"] arg_cong [OF eq, of "map fst"] by (simp_all add: comp_def)
  have len: "length ?m = length segs" using map_eq_imp_length_eq [OF eq] .
  define n where "n = length segs"
  have n: "0 < n" "n < 128" using s(2) few frag_count_pos [of tx "length bs"] by (simp_all add: n_def)
  have fi: "seg_frg (?m ! i) = of_nat (n - Suc i)" if "i < n" for i
    using that arg_cong [OF frg, of "\<lambda>l. l ! i"] len s(4) by (simp add: n_def rev_nth)
  have nz: "(of_nat (n - Suc i) :: u32) \<noteq> 0" if "Suc i < n" for i
  proof
    assume "(of_nat (n - Suc i) :: u32) = 0"
    then have "unat (of_nat (n - Suc i) :: u32) = 0" by simp
    then show False using that n by (simp add: unat_of_nat del: of_nat_diff)
  qed
  have ne: "?m \<noteq> []" using len n by (auto simp: n_def)
  have "message ?m"
    unfolding message_def
  proof (intro conjI ballI)
    show "seg_frg (last ?m) = 0" using fi [of "n - 1"] n len ne by (simp add: last_conv_nth n_def)
    fix x assume "x \<in> set (butlast ?m)"
    then obtain i where "i < n - 1" "x = ?m ! i"
      using len by (auto simp: in_set_conv_nth nth_butlast n_def)
    then show "seg_frg x \<noteq> 0" using fi [of i] nz [of i] by simp
  qed (rule ne)
  moreover have "unat (seg_frg (hd ?m)) < length (?m @ drop n (k_rcv_queue rx))"
  proof -
    have "n \<le> length (k_rcv_queue rx)" using len by (simp add: n_def min_def split: if_splits)
    moreover have "unat (seg_frg (hd ?m)) = n - 1"
      using fi [of 0] n ne by (simp add: hd_conv_nth unat_of_nat del: of_nat_diff)
    moreover have "length (?m @ drop n (k_rcv_queue rx)) = length (k_rcv_queue rx)" by (simp add: n_def)
    ultimately show ?thesis using n by linarith
  qed
  moreover have "concat (map seg_data ?m) = bs" using dat s(3) by simp
  ultimately show ?thesis
    using recv_complete [OF assms(7), of ?m "drop n (k_rcv_queue rx)" len] assms(3,9)
    by (auto simp: n_def queue_bytes_def)
qed

definition sample_tx :: ikcpcb where
  "sample_tx = (ikcp_init 7)\<lparr>k_mss := 2\<rparr>"

end
