(* ===== verification/Kcp_Input.thy ===== *)
theory Kcp_Input
  imports Kcp_Recv
begin

text \<open>
  \<open>ikcp_input\<close>: a datagram is a sequence of segments, each a 24-byte header and its data.
  Every segment carries the peer's window and cumulative acknowledgement; an \<open>ACK\<close> also
  acknowledges one number and feeds the round-trip estimate, a \<open>PUSH\<close> is acknowledged and
  stored, a \<open>WASK\<close> asks for the window.  Sender-side invariant: \<open>snd_inv\<close>.
\<close>

section \<open>Acknowledgements on the sender\<close>

definition ikcp_update_ack :: "ikcpcb \<Rightarrow> int \<Rightarrow> ikcpcb" where
  "ikcp_update_ack kcp rtt =
     (let kcp1 =
        (if k_rx_srtt kcp = 0 then kcp\<lparr>k_rx_srtt := rtt, k_rx_rttval := rtt sdiv 2\<rparr>
         else
           let delta0 = i32 (rtt - k_rx_srtt kcp);
               delta = (if delta0 < 0 then - delta0 else delta0);
               rttval = i32 ((i32 (3 * k_rx_rttval kcp) + delta) sdiv 4);
               srtt = i32 (i32 (7 * k_rx_srtt kcp) + rtt) sdiv 8
           in kcp\<lparr>k_rx_rttval := rttval, k_rx_srtt := (if srtt < 1 then 1 else srtt)\<rparr>);
          rto = word_of_int (k_rx_srtt kcp1)
                + imax32 (k_interval kcp1) (word_of_int (i32 (4 * k_rx_rttval kcp1)))
      in kcp1\<lparr>k_rx_rto := sint (ibound (word_of_int (k_rx_minrto kcp1)) rto IKCP_RTO_MAX)\<rparr>)"

definition ikcp_shrink_buf :: "ikcpcb \<Rightarrow> ikcpcb" where
  "ikcp_shrink_buf kcp =
     (case k_snd_buf kcp of
        seg # _ \<Rightarrow> kcp\<lparr>k_snd_una := seg_sn seg\<rparr>
      | [] \<Rightarrow> kcp\<lparr>k_snd_una := k_snd_nxt kcp\<rparr>)"

text \<open>The scan of \<open>ikcp_parse_ack\<close>: the buffer afterwards, and whether a segment was deleted.\<close>

fun ack_scan :: "u32 \<Rightarrow> ikcpseg list \<Rightarrow> ikcpseg list \<times> bool" where
  "ack_scan sn [] = ([], False)"
| "ack_scan sn (seg # p) =
     (if sn = seg_sn seg then (p, True)
      else if itimediff sn (seg_sn seg) < 0 then (seg # p, False)
      else let (q, found) = ack_scan sn p in (seg # q, found))"

definition ikcp_parse_ack :: "ikcpcb \<Rightarrow> u32 \<Rightarrow> ikcpcb" where
  "ikcp_parse_ack kcp sn =
     (if itimediff sn (k_snd_una kcp) < 0 \<or> itimediff sn (k_snd_nxt kcp) \<ge> 0 then kcp
      else let (q, found) = ack_scan sn (k_snd_buf kcp)
           in kcp\<lparr>k_snd_buf := q, k_nsnd_buf := k_nsnd_buf kcp - (if found then 1 else 0)\<rparr>)"

fun una_scan :: "u32 \<Rightarrow> ikcpseg list \<Rightarrow> u32 \<Rightarrow> ikcpseg list \<times> u32" where
  "una_scan una [] n = ([], n)"
| "una_scan una (seg # p) n =
     (if itimediff una (seg_sn seg) > 0 then una_scan una p (n - 1) else (seg # p, n))"

definition ikcp_parse_una :: "ikcpcb \<Rightarrow> u32 \<Rightarrow> ikcpcb" where
  "ikcp_parse_una kcp una =
     (let (q, n) = una_scan una (k_snd_buf kcp) (k_nsnd_buf kcp)
      in kcp\<lparr>k_snd_buf := q, k_nsnd_buf := n\<rparr>)"

fun fastack_scan :: "u32 \<Rightarrow> ikcpseg list \<Rightarrow> ikcpseg list" where
  "fastack_scan sn [] = []"
| "fastack_scan sn (seg # p) =
     (if itimediff sn (seg_sn seg) < 0 then seg # p
      else if sn \<noteq> seg_sn seg then seg\<lparr>seg_fastack := seg_fastack seg + 1\<rparr> # fastack_scan sn p
      else seg # fastack_scan sn p)"

text \<open>The compiled variant of \<open>ikcp_parse_fastack\<close> (no \<open>IKCP_FASTACK_CONSERVE\<close>) ignores
  its argument \<open>ts\<close>.\<close>

definition ikcp_parse_fastack :: "ikcpcb \<Rightarrow> u32 \<Rightarrow> u32 \<Rightarrow> ikcpcb" where
  "ikcp_parse_fastack kcp sn ts =
     (if itimediff sn (k_snd_una kcp) < 0 \<or> itimediff sn (k_snd_nxt kcp) \<ge> 0 then kcp
      else kcp\<lparr>k_snd_buf := fastack_scan sn (k_snd_buf kcp)\<rparr>)"

section \<open>The list of acknowledgements to send\<close>

text \<open>
  \<open>for (newblock = 8; newblock < newsize; newblock <<= 1);\<close>: beyond \<open>2 ^ 31\<close> entries the
  shift overflows to 0 and the loop does not end, which is \<open>None\<close>.
\<close>

partial_function (option) ack_block :: "u32 \<Rightarrow> u32 \<Rightarrow> u32 option" where
  "ack_block newsize newblock =
     (if newblock < newsize then ack_block newsize (push_bit 1 newblock) else Some newblock)"

definition ikcp_ack_push :: "ikcpcb \<Rightarrow> u32 \<Rightarrow> u32 \<Rightarrow> ikcpcb option" where
  "ikcp_ack_push kcp sn ts =
     (let newsize = k_ackcount kcp + 1 in
      case (if newsize > k_ackblock kcp then ack_block newsize 8 else Some (k_ackblock kcp)) of
        None \<Rightarrow> None
      | Some block \<Rightarrow>
          Some (kcp\<lparr>k_ackblock := block,
                    k_acklist := take (unat (k_ackcount kcp)) (k_acklist kcp) @ [(sn, ts)],
                    k_ackcount := k_ackcount kcp + 1\<rparr>))"

definition ikcp_ack_get :: "ikcpcb \<Rightarrow> nat \<Rightarrow> (u32 \<times> u32) option" where
  "ikcp_ack_get kcp p = aget (k_acklist kcp) (int p)"

section \<open>Input\<close>

record ikcphdr =
  h_conv :: u32
  h_cmd :: u8
  h_frg :: u8
  h_wnd :: u16
  h_ts :: u32
  h_sn :: u32
  h_una :: u32
  h_len :: u32

definition decode_header :: "bytes \<Rightarrow> (ikcphdr \<times> bytes) option" where
  "decode_header data = do {
     (conv, p) \<leftarrow> ikcp_decode32u data;
     (cmd, p) \<leftarrow> ikcp_decode8u p;
     (frg, p) \<leftarrow> ikcp_decode8u p;
     (wnd, p) \<leftarrow> ikcp_decode16u p;
     (ts, p) \<leftarrow> ikcp_decode32u p;
     (sn, p) \<leftarrow> ikcp_decode32u p;
     (una, p) \<leftarrow> ikcp_decode32u p;
     (len, p) \<leftarrow> ikcp_decode32u p;
     Some (\<lparr>h_conv = conv, h_cmd = cmd, h_frg = frg, h_wnd = wnd, h_ts = ts, h_sn = sn,
            h_una = una, h_len = len\<rparr>, p)
   }"

lemma decode_length:
  "ikcp_decode8u d = Some (v, p) \<Longrightarrow> length d = length p + 1"
  "ikcp_decode16u d = Some (v', p) \<Longrightarrow> length d = length p + 2"
  "ikcp_decode32u d = Some (v'', p) \<Longrightarrow> length d = length p + 4"
  by (auto elim: ikcp_decode8u.elims ikcp_decode16u.elims ikcp_decode32u.elims)

lemma decode_header_length: "decode_header d = Some (h, p) \<Longrightarrow> length d = length p + 24"
  by (auto simp: decode_header_def bind_eq_Some_conv split: prod.splits dest!: decode_length)

lemma decode_header_total: "24 \<le> length d \<Longrightarrow> \<exists>h p. decode_header d = Some (h, p)"
proof -
  have d8: "1 \<le> length d \<Longrightarrow> \<exists>v p. ikcp_decode8u d = Some (v, p)" for d by (cases d) auto
  have d16: "2 \<le> length d \<Longrightarrow> \<exists>v p. ikcp_decode16u d = Some (v, p)" for d
    by (cases d rule: ikcp_decode16u.cases) auto
  have d32: "4 \<le> length d \<Longrightarrow> \<exists>v p. ikcp_decode32u d = Some (v, p)" for d
    by (cases d rule: ikcp_decode32u.cases) auto
  assume l: "24 \<le> length d"
  obtain a p1 where 1: "ikcp_decode32u d = Some (a, p1)" using d32 [of d] l by auto
  note l1 = decode_length(3) [OF 1]
  obtain b p2 where 2: "ikcp_decode8u p1 = Some (b, p2)" using d8 [of p1] l l1 by auto
  note l2 = decode_length(1) [OF 2]
  obtain c p3 where 3: "ikcp_decode8u p2 = Some (c, p3)" using d8 [of p2] l l1 l2 by auto
  note l3 = decode_length(1) [OF 3]
  obtain e p4 where 4: "ikcp_decode16u p3 = Some (e, p4)" using d16 [of p3] l l1 l2 l3 by auto
  note l4 = decode_length(2) [OF 4]
  obtain f p5 where 5: "ikcp_decode32u p4 = Some (f, p5)" using d32 [of p4] l l1 l2 l3 l4 by auto
  note l5 = decode_length(3) [OF 5]
  obtain g p6 where 6: "ikcp_decode32u p5 = Some (g, p6)" using d32 [of p5] l l1 l2 l3 l4 l5 by auto
  note l6 = decode_length(3) [OF 6]
  obtain i p7 where 7: "ikcp_decode32u p6 = Some (i, p7)" using d32 [of p6] l l1 l2 l3 l4 l5 l6 by auto
  note l7 = decode_length(3) [OF 7]
  obtain j p8 where 8: "ikcp_decode32u p7 = Some (j, p8)" using d32 [of p7] l l1 l2 l3 l4 l5 l6 l7 by auto
  note l8 = decode_length(3) [OF 8]
  show ?thesis by (simp add: decode_header_def 1 2 3 4 5 6 7 8)
qed

lemma decode_encode_seg:
  "decode_header (ikcp_encode_seg s @ p) =
     Some (\<lparr>h_conv = seg_conv s, h_cmd = ucast (seg_cmd s), h_frg = ucast (seg_frg s),
            h_wnd = ucast (seg_wnd s), h_ts = seg_ts s, h_sn = seg_sn s, h_una = seg_una s,
            h_len = seg_len s\<rparr>, p)"
  by (simp add: decode_header_def ikcp_encode_seg_def)

text \<open>
  The local variables that survive an iteration: the control block, \<open>flag\<close>,
  \<open>maxack\<close> and \<open>latest_ts\<close>.  \<open>raw\<close> is the uninitialised memory of the segment
  allocated for a \<open>PUSH\<close> (its allocation is not checked by the source and is taken to
  succeed).
\<close>

type_synonym istate = "ikcpcb \<times> bool \<times> u32 \<times> u32"

definition input_ack :: "ikcphdr \<Rightarrow> istate \<Rightarrow> istate" where
  "input_ack h st =
     (let (kcp, flag, maxack, latest_ts) = st;
          kcp1 = (if itimediff (k_current kcp) (h_ts h) \<ge> 0
                  then ikcp_update_ack kcp (itimediff (k_current kcp) (h_ts h)) else kcp);
          kcp2 = ikcp_shrink_buf (ikcp_parse_ack kcp1 (h_sn h))
      in if \<not> flag then (kcp2, True, h_sn h, h_ts h)
         else if itimediff (h_sn h) maxack > 0 then (kcp2, flag, h_sn h, h_ts h)
         else (kcp2, flag, maxack, latest_ts))"

definition push_seg :: "ikcpseg \<Rightarrow> ikcphdr \<Rightarrow> bytes \<Rightarrow> ikcpseg" where
  "push_seg raw h dat =
     raw\<lparr>seg_conv := h_conv h, seg_cmd := ucast (h_cmd h), seg_frg := ucast (h_frg h),
         seg_wnd := ucast (h_wnd h), seg_ts := h_ts h, seg_sn := h_sn h, seg_una := h_una h,
         seg_len := h_len h, seg_data := dat\<rparr>"

definition input_push :: "ikcpseg \<Rightarrow> ikcphdr \<Rightarrow> bytes \<Rightarrow> ikcpcb \<Rightarrow> ikcpcb option" where
  "input_push raw h dat kcp =
     (if itimediff (h_sn h) (k_rcv_nxt kcp + k_rcv_wnd kcp) < 0 then
        do { kcp1 \<leftarrow> ikcp_ack_push kcp (h_sn h) (h_ts h);
             if itimediff (h_sn h) (k_rcv_nxt kcp1) \<ge> 0
             then Some (ikcp_parse_data kcp1 (push_seg raw h dat)) else Some kcp1 }
      else Some kcp)"

definition input_seg :: "ikcpseg \<Rightarrow> ikcphdr \<Rightarrow> bytes \<Rightarrow> istate \<Rightarrow> istate option" where
  "input_seg raw h dat st =
     (let (kcp, flag, maxack, latest_ts) = st;
          kcp0 = ikcp_shrink_buf (ikcp_parse_una (kcp\<lparr>k_rmt_wnd := ucast (h_wnd h)\<rparr>) (h_una h));
          cmd = (ucast (h_cmd h) :: u32)
      in if cmd = IKCP_CMD_ACK then Some (input_ack h (kcp0, flag, maxack, latest_ts))
         else if cmd = IKCP_CMD_PUSH
         then do { kcp1 \<leftarrow> input_push raw h dat kcp0; Some (kcp1, flag, maxack, latest_ts) }
         else if cmd = IKCP_CMD_WASK
         then Some (kcp0\<lparr>k_probe := k_probe kcp0 OR IKCP_ASK_TELL\<rparr>, flag, maxack, latest_ts)
         else Some (kcp0, flag, maxack, latest_ts))"

definition known_cmd :: "u8 \<Rightarrow> bool" where
  "known_cmd c \<longleftrightarrow> (let cmd = (ucast c :: u32) in
     cmd = IKCP_CMD_PUSH \<or> cmd = IKCP_CMD_ACK \<or> cmd = IKCP_CMD_WASK \<or> cmd = IKCP_CMD_WINS)"

text \<open>The loop \<open>while (1)\<close>; the code is 0 for the \<open>break\<close> and otherwise what is returned.\<close>

function ikcp_input_loop :: "ikcpseg \<Rightarrow> istate \<Rightarrow> bytes \<Rightarrow> (int \<times> istate) option" where
  "ikcp_input_loop raw st data =
     (if length data < unat IKCP_OVERHEAD then Some (0, st)
      else case decode_header data of
        None \<Rightarrow> None
      | Some (h, p) \<Rightarrow>
          if h_conv h \<noteq> k_conv (fst st) then Some (- 1, st)
          else if int (length p) < uint (h_len h) \<or> sint (h_len h) < 0 then Some (- 2, st)
          else if \<not> known_cmd (h_cmd h) then Some (- 3, st)
          else (case input_seg raw h (take (unat (h_len h)) p) st of
                  None \<Rightarrow> None
                | Some st' \<Rightarrow> ikcp_input_loop raw st' (drop (unat (h_len h)) p)))"
  by pat_completeness auto
termination
  by (relation "measure (\<lambda>(raw, st, data). length data)") (auto dest: decode_header_length)

declare ikcp_input_loop.simps [simp del]

text \<open>The congestion window after new data was acknowledged.\<close>

definition input_cwnd :: "ikcpcb \<Rightarrow> ikcpcb" where
  "input_cwnd kcp =
     (if k_cwnd kcp < k_rmt_wnd kcp then
        let mss = k_mss kcp;
            kcp1 =
              (if k_cwnd kcp < k_ssthresh kcp
               then kcp\<lparr>k_cwnd := k_cwnd kcp + 1, k_incr := k_incr kcp + mss\<rparr>
               else
                 let incr0 = (if k_incr kcp < mss then mss else k_incr kcp);
                     incr = incr0 + ((mss * mss) div incr0 + mss div 16);
                     cwnd = (if (k_cwnd kcp + 1) * mss \<le> incr
                             then (incr + mss - 1) div (if mss > 0 then mss else 1) else k_cwnd kcp)
                 in kcp\<lparr>k_cwnd := cwnd, k_incr := incr\<rparr>)
        in if k_cwnd kcp1 > k_rmt_wnd kcp1
           then kcp1\<lparr>k_cwnd := k_rmt_wnd kcp1, k_incr := k_rmt_wnd kcp1 * mss\<rparr> else kcp1
      else kcp)"

definition ikcp_input :: "ikcpseg \<Rightarrow> ikcpcb \<Rightarrow> bytes option \<Rightarrow> (int \<times> ikcpcb) option" where
  "ikcp_input raw kcp data =
     (case data of
        None \<Rightarrow> Some (- 1, kcp)
      | Some bs \<Rightarrow>
          if i32 (int (length bs)) < sint IKCP_OVERHEAD then Some (- 1, kcp)
          else (case ikcp_input_loop raw (kcp, False, 0, 0) bs of
                  None \<Rightarrow> None
                | Some (code, kcp1, flag, maxack, latest_ts) \<Rightarrow>
                    if code \<noteq> 0 then Some (code, kcp1)
                    else let kcp2 = (if flag then ikcp_parse_fastack kcp1 maxack latest_ts else kcp1);
                             kcp3 = (if itimediff (k_snd_una kcp2) (k_snd_una kcp) > 0
                                     then input_cwnd kcp2 else kcp2)
                         in Some (0, kcp3)))"

end
