(* ===== verification/Kcp_Inv.thy ===== *)
theory Kcp_Inv
  imports Kcp_Input "HOL-Library.Sublist"
begin

text \<open>
  The invariants of both directions under \<open>ikcp_input\<close>, and what \<open>ikcp_input\<close>
  guarantees: rejected datagrams, the parse of a well-formed one, the bounds of the retransmission
  timeout, the capacity of the acknowledgement list and the progress of \<open>snd_una\<close>.
\<close>

section \<open>Sender-side invariant\<close>

text \<open>
  The send buffer holds strictly increasing sequence numbers between \<open>snd_una\<close> and
  \<open>snd_nxt\<close>; \<open>snd_una\<close> is the oldest of them (or \<open>snd_nxt\<close>); the counters count.
\<close>

definition snd_tight :: "ikcpcb \<Rightarrow> bool" where
  "snd_tight kcp \<longleftrightarrow> k_snd_una kcp = (case k_snd_buf kcp of [] \<Rightarrow> k_snd_nxt kcp | s # _ \<Rightarrow> seg_sn s)"

definition snd_inv0 :: "ikcpcb \<Rightarrow> bool" where
  "snd_inv0 kcp \<longleftrightarrow>
     off (k_snd_una kcp) (k_snd_nxt kcp) < 2147483648 \<and>
     sorted_wrt (<) (map (off (k_snd_una kcp)) (map seg_sn (k_snd_buf kcp))) \<and>
     (\<forall>x \<in> set (map seg_sn (k_snd_buf kcp)). off (k_snd_una kcp) x < off (k_snd_una kcp) (k_snd_nxt kcp)) \<and>
     k_nsnd_buf kcp = of_nat (length (k_snd_buf kcp)) \<and>
     k_nsnd_que kcp = of_nat (length (k_snd_queue kcp))"

definition snd_inv :: "ikcpcb \<Rightarrow> bool" where
  "snd_inv kcp \<longleftrightarrow> snd_inv0 kcp \<and> snd_tight kcp"

lemma snd_inv_init: "snd_inv (ikcp_init conv)"
  by (simp add: snd_inv_def snd_inv0_def snd_tight_def ikcp_init_def)

text \<open>Changing the base of offsets.\<close>

lemma off_rebase: "off b a \<le> off b x \<Longrightarrow> off a x = off b x - off b a"
  using unat_sub_if' [of "x - b" "a - b"] by simp

text \<open>Deleting segments and recomputing \<open>snd_una\<close> keeps the invariant and moves
  \<open>snd_una\<close> forward only.\<close>

definition keep :: "ikcpcb \<Rightarrow> ikcpseg list \<Rightarrow> ikcpcb" where
  "keep kcp q = kcp\<lparr>k_snd_buf := q, k_nsnd_buf := of_nat (length q)\<rparr>"

lemma subseq_set: "subseq xs ys \<Longrightarrow> set xs \<subseteq> set ys"
  by (induction rule: list_emb.induct) auto

lemma sorted_wrt_subseq: "subseq xs ys \<Longrightarrow> sorted_wrt P ys \<Longrightarrow> sorted_wrt P xs"
  by (induction rule: list_emb.induct) (auto dest: subseq_set)

lemma snd_inv0_sns:
  "snd_inv0 kcp \<Longrightarrow> subseq q (k_snd_buf kcp) \<Longrightarrow> snd_inv0 (keep kcp q)"
  unfolding snd_inv0_def keep_def
  by (auto intro: sorted_wrt_subseq subseq_map dest: subseq_set)

lemma shrink_inv:
  assumes "snd_inv0 kcp"
  shows "snd_inv (ikcp_shrink_buf kcp) \<and>
     off (k_snd_una kcp) (k_snd_una (ikcp_shrink_buf kcp)) \<le> off (k_snd_una kcp) (k_snd_nxt kcp)"
proof (cases "k_snd_buf kcp")
  case Nil
  then show ?thesis
    using assms by (simp add: ikcp_shrink_buf_def snd_inv_def snd_inv0_def snd_tight_def)
next
  case (Cons s q)
  let ?u = "k_snd_una kcp" and ?n = "k_snd_nxt kcp" and ?a = "seg_sn s"
  have le: "\<And>x. x \<in> set (map seg_sn (s # q)) \<Longrightarrow> off ?u ?a \<le> off ?u x"
    using assms Cons by (auto simp: snd_inv0_def less_imp_le)
  have lt: "off ?u ?a < off ?u ?n" using assms Cons by (simp add: snd_inv0_def)
  have re: "\<And>x. x \<in> set (map seg_sn (s # q)) \<Longrightarrow> off ?a x = off ?u x - off ?u ?a"
    using le off_rebase by blast
  have rn: "off ?a ?n = off ?u ?n - off ?u ?a" using lt off_rebase [of ?a ?u ?n] by simp
  have "sorted_wrt (<) (map (off ?a) (map seg_sn (s # q)))"
    unfolding sorted_wrt_map
  proof (rule sorted_wrt_mono_rel)
    show "sorted_wrt (\<lambda>x y. off ?u (seg_sn x) < off ?u (seg_sn y)) (s # q)"
      using assms Cons by (simp add: snd_inv0_def sorted_wrt_map)
    fix x y assume "x \<in> set (s # q)" "y \<in> set (s # q)" "off ?u (seg_sn x) < off ?u (seg_sn y)"
    then show "off ?a (seg_sn x) < off ?a (seg_sn y)"
      using le [of "seg_sn x"] re [of "seg_sn x"] re [of "seg_sn y"] by auto
  qed
  moreover have "off ?a x < off ?a ?n" if "x \<in> set (map seg_sn (s # q))" for x
  proof -
    have "off ?u x < off ?u ?n" using that assms Cons by (auto simp: snd_inv0_def)
    then show ?thesis using re [OF that] rn le [OF that] by linarith
  qed
  ultimately show ?thesis
    using assms Cons rn lt
    by (auto simp: ikcp_shrink_buf_def snd_inv_def snd_inv0_def snd_tight_def)
qed

text \<open>The two deletions of \<open>ikcp_input\<close>.\<close>

lemma una_scan_drop: "\<exists>k \<le> length q. una_scan una q n = (drop k q, n - of_nat k) \<and>
    (\<forall>s \<in> set (take k q). itimediff una (seg_sn s) > 0) \<and>
    (case drop k q of [] \<Rightarrow> True | s # _ \<Rightarrow> \<not> itimediff una (seg_sn s) > 0)"
proof (induction q arbitrary: n)
  case (Cons s q)
  show ?case
  proof (cases "itimediff una (seg_sn s) > 0")
    case True
    obtain k where "k \<le> length q" "una_scan una q (n - 1) = (drop k q, n - 1 - of_nat k)"
      "\<forall>s \<in> set (take k q). itimediff una (seg_sn s) > 0"
      "case drop k q of [] \<Rightarrow> True | s # _ \<Rightarrow> \<not> itimediff una (seg_sn s) > 0"
      using Cons.IH by blast
    with True show ?thesis by (intro exI [of _ "Suc k"]) (simp add: diff_diff_eq)
  next
    case False
    then show ?thesis by (intro exI [of _ 0]) simp
  qed
qed simp

lemma parse_una_keep:
  assumes "k_nsnd_buf kcp = of_nat (length (k_snd_buf kcp))"
  shows "\<exists>k \<le> length (k_snd_buf kcp). ikcp_parse_una kcp una = keep kcp (drop k (k_snd_buf kcp)) \<and>
     (\<forall>s \<in> set (take k (k_snd_buf kcp)). itimediff una (seg_sn s) > 0) \<and>
     (case drop k (k_snd_buf kcp) of [] \<Rightarrow> True | s # _ \<Rightarrow> \<not> itimediff una (seg_sn s) > 0)"
  using una_scan_drop [of "k_snd_buf kcp" una "k_nsnd_buf kcp"] assms
  by (auto simp: ikcp_parse_una_def keep_def of_nat_diff)

lemma ack_scan_keep:
  "ack_scan sn q = (q', found) \<Longrightarrow>
   subseq q' q \<and> length q = length q' + (if found then 1 else 0)"
proof (induction q arbitrary: q' found)
  case (Cons s q)
  show ?case
  proof (cases "ack_scan sn q")
    case (Pair r f)
    with Cons show ?thesis by (auto split: if_splits)
  qed
qed simp

lemma parse_ack_keep:
  assumes "k_nsnd_buf kcp = of_nat (length (k_snd_buf kcp))"
  shows "\<exists>q. ikcp_parse_ack kcp sn = keep kcp q \<and> subseq q (k_snd_buf kcp)"
proof (cases "itimediff sn (k_snd_una kcp) < 0 \<or> itimediff sn (k_snd_nxt kcp) \<ge> 0")
  case True
  then show ?thesis
    using assms by (intro exI [of _ "k_snd_buf kcp"]) (simp add: ikcp_parse_ack_def keep_def)
next
  case False
  obtain q f where s: "ack_scan sn (k_snd_buf kcp) = (q, f)" by fastforce
  with ack_scan_keep [OF s] False assms show ?thesis
    by (intro exI [of _ q]) (auto simp: ikcp_parse_ack_def keep_def)
qed


section \<open>Frames\<close>

text \<open>The sender's and the receiver's part of a control block, and the operations that leave one
  of them alone.\<close>

definition same_snd :: "ikcpcb \<Rightarrow> ikcpcb \<Rightarrow> bool" where
  "same_snd k k' \<longleftrightarrow> k_snd_una k' = k_snd_una k \<and> k_snd_nxt k' = k_snd_nxt k \<and>
     k_snd_buf k' = k_snd_buf k \<and> k_snd_queue k' = k_snd_queue k \<and>
     k_nsnd_buf k' = k_nsnd_buf k \<and> k_nsnd_que k' = k_nsnd_que k"

definition same_rcv :: "ikcpcb \<Rightarrow> ikcpcb \<Rightarrow> bool" where
  "same_rcv k k' \<longleftrightarrow> k_rcv_wnd k' = k_rcv_wnd k \<and> k_rcv_nxt k' = k_rcv_nxt k \<and>
     k_rcv_buf k' = k_rcv_buf k \<and> k_rcv_queue k' = k_rcv_queue k \<and>
     k_nrcv_buf k' = k_nrcv_buf k \<and> k_nrcv_que k' = k_nrcv_que k"

definition same_ack :: "ikcpcb \<Rightarrow> ikcpcb \<Rightarrow> bool" where
  "same_ack k k' \<longleftrightarrow> k_acklist k' = k_acklist k \<and> k_ackcount k' = k_ackcount k \<and>
     k_ackblock k' = k_ackblock k"

definition same_rto :: "ikcpcb \<Rightarrow> ikcpcb \<Rightarrow> bool" where
  "same_rto k k' \<longleftrightarrow> k_rx_rto k' = k_rx_rto k \<and> k_rx_minrto k' = k_rx_minrto k \<and>
     k_interval k' = k_interval k \<and> k_mss k' = k_mss k \<and> k_mtu k' = k_mtu k \<and> k_bufsize k' = k_bufsize k"

lemmas same_defs = same_snd_def same_rcv_def same_ack_def same_rto_def

lemma snd_inv_same: "same_snd k k' \<Longrightarrow> snd_inv k' = snd_inv k"
  by (simp add: same_snd_def snd_inv_def snd_inv0_def snd_tight_def cong: list.case_cong)

lemma rcv_inv_same: "same_rcv k k' \<Longrightarrow> rcv_inv k' = rcv_inv k"
  by (simp add: same_rcv_def rcv_inv_def)

lemma parse_data_frame:
  "same_snd kcp (ikcp_parse_data kcp x) \<and> same_ack kcp (ikcp_parse_data kcp x) \<and>
   same_rto kcp (ikcp_parse_data kcp x)"
proof -
  let ?c = "case rcv_scan x (rev (k_rcv_buf kcp)) of None \<Rightarrow> kcp
            | Some b \<Rightarrow> kcp\<lparr>k_rcv_buf := rev b, k_nrcv_buf := k_nrcv_buf kcp + 1\<rparr>"
  obtain n where "rcv_move ?c = moved ?c n" using rcv_move_spec [of ?c] by blast
  then show ?thesis
    by (auto simp: ikcp_parse_data_def Let_def same_defs moved_def split: option.splits)
qed

section \<open>The acknowledgement list\<close>

text \<open>The pairs in use lie inside the allocated block, whose size is 0 or a power of two from 8 on.\<close>

definition ack_inv :: "ikcpcb \<Rightarrow> bool" where
  "ack_inv kcp \<longleftrightarrow> unat (k_ackcount kcp) \<le> length (k_acklist kcp) \<and>
     k_ackcount kcp \<le> k_ackblock kcp \<and>
     (k_ackblock kcp = 0 \<or> (\<exists>n. 3 \<le> n \<and> n < 32 \<and> k_ackblock kcp = 2 ^ n))"

lemma ack_inv_init: "ack_inv (ikcp_init conv)"
  by (simp add: ack_inv_def ikcp_init_def)

lemma ack_inv_same: "same_ack k k' \<Longrightarrow> ack_inv k' = ack_inv k"
  by (simp add: same_ack_def ack_inv_def)

lemma unat_pow32: "n < 32 \<Longrightarrow> unat (2 ^ n :: u32) = 2 ^ n"
  using unat_of_nat [where 'a = 32, of "2 ^ n"] power_strict_increasing [of n 32 "2::nat"] by simp

lemma ack_block_ends:
  assumes "unat newsize \<le> 2 ^ 31" "n < 32"
  shows "\<exists>m \<ge> n. m < 32 \<and> ack_block newsize (2 ^ n) = Some (2 ^ m) \<and> newsize \<le> 2 ^ m"
  using assms(2)
proof (induction "31 - n" arbitrary: n)
  case 0
  then have "n = 31" by simp
  then have "newsize \<le> 2 ^ n" using assms(1) by (simp add: word_le_nat_alt)
  then show ?case using 0 by (intro exI [of _ n]) (subst ack_block.simps, simp add: not_less [symmetric])
next
  case (Suc d)
  show ?case
  proof (cases "newsize \<le> 2 ^ n")
    case True
    then show ?thesis using Suc by (intro exI [of _ n]) (subst ack_block.simps, simp add: not_less [symmetric])
  next
    case False
    have p: "push_bit 1 (2 ^ n :: u32) = 2 ^ Suc n" by (simp add: push_bit_eq_mult)
    have lt: "Suc n < 32" and d: "d = 31 - Suc n" using Suc.hyps(2) by simp_all
    obtain m where "m \<ge> Suc n" "m < 32" "ack_block newsize (2 ^ Suc n) = Some (2 ^ m)" "newsize \<le> 2 ^ m"
      using Suc.hyps(1) [OF d lt] by blast
    then show ?thesis using False p
      by (intro exI [of _ m]) (subst ack_block.simps, simp add: not_le del: power_Suc)
  qed
qed

lemma ack_push_spec:
  assumes inv: "ack_inv kcp" and small: "unat (k_ackcount kcp) < 2147483648"
  shows "\<exists>kcp'. ikcp_ack_push kcp sn ts = Some kcp' \<and> ack_inv kcp' \<and>
     same_snd kcp kcp' \<and> same_rcv kcp kcp' \<and> same_rto kcp kcp' \<and>
     unat (k_ackcount kcp') = unat (k_ackcount kcp) + 1 \<and>
     take (unat (k_ackcount kcp')) (k_acklist kcp') = take (unat (k_ackcount kcp)) (k_acklist kcp) @ [(sn, ts)]"
proof -
  let ?c = "k_ackcount kcp"
  have c: "unat (?c + 1) = unat ?c + 1"
    using small by (simp add: unat_plus_if')
  have "\<exists>b. (if ?c + 1 > k_ackblock kcp then ack_block (?c + 1) 8 else Some (k_ackblock kcp)) = Some b \<and>
      ?c + 1 \<le> b \<and> (\<exists>n. 3 \<le> n \<and> n < 32 \<and> b = 2 ^ n)"
  proof (cases "?c + 1 > k_ackblock kcp")
    case True
    then show ?thesis
      using ack_block_ends [of "?c + 1" 3] c small by auto
  next
    case False
    then have "k_ackblock kcp \<noteq> 0" using c by (auto simp: word_gt_0 unat_eq_0)
    then show ?thesis using False inv by (auto simp: ack_inv_def)
  qed
  then obtain b where b: "(if ?c + 1 > k_ackblock kcp then ack_block (?c + 1) 8 else Some (k_ackblock kcp)) = Some b"
      "?c + 1 \<le> b" "\<exists>n. 3 \<le> n \<and> n < 32 \<and> b = 2 ^ n" by blast
  have l: "length (take (unat ?c) (k_acklist kcp)) = unat ?c"
    using inv by (simp add: ack_inv_def)
  show ?thesis
    using b(2,3) l c
    by (simp add: ikcp_ack_push_def Let_def b(1) ack_inv_def same_defs)
qed


section \<open>The retransmission timeout\<close>

text \<open>The timeout stays between 30 ms (the minimum of no-delay mode) and 60 s; the segment size
  leaves room for data, the interval is at most 5 s.\<close>

definition rto_inv :: "ikcpcb \<Rightarrow> bool" where
  "rto_inv kcp \<longleftrightarrow> 30 \<le> k_rx_rto kcp \<and> k_rx_rto kcp \<le> 60000 \<and>
     (k_rx_minrto kcp = 30 \<or> k_rx_minrto kcp = 100) \<and> 10 \<le> k_interval kcp \<and> k_interval kcp \<le> 5000"

lemma rto_inv_init: "rto_inv (ikcp_init conv)"
  by (simp add: rto_inv_def ikcp_init_def kcp_consts i32_id)

lemma rto_inv_same: "same_rto k k' \<Longrightarrow> rto_inv k' = rto_inv k"
  by (simp add: same_rto_def rto_inv_def)

lemma ibound_range: "lower \<le> upper \<Longrightarrow> lower \<le> ibound lower x upper \<and> ibound lower x upper \<le> upper"
  by (auto simp: ibound_def imin32_def imax32_def)

lemma update_ack_rto:
  assumes "k_rx_minrto kcp = 30 \<or> k_rx_minrto kcp = 100"
  shows "k_rx_minrto kcp \<le> k_rx_rto (ikcp_update_ack kcp rtt) \<and> k_rx_rto (ikcp_update_ack kcp rtt) \<le> 60000 \<and>
     k_rx_minrto (ikcp_update_ack kcp rtt) = k_rx_minrto kcp \<and> k_interval (ikcp_update_ack kcp rtt) = k_interval kcp"
proof -
  have *: "k_rx_minrto kcp \<le> sint (ibound (word_of_int (k_rx_minrto kcp)) x IKCP_RTO_MAX) \<and>
      sint (ibound (word_of_int (k_rx_minrto kcp)) x IKCP_RTO_MAX) \<le> 60000" for x
  proof -
    let ?b = "ibound (word_of_int (k_rx_minrto kcp)) x IKCP_RTO_MAX"
    have "word_of_int (k_rx_minrto kcp) \<le> ?b \<and> ?b \<le> IKCP_RTO_MAX"
      using assms by (intro ibound_range) (auto simp: kcp_consts)
    then have "k_rx_minrto kcp \<le> int (unat ?b) \<and> unat ?b \<le> 60000"
      using assms by (auto simp: word_le_nat_alt kcp_consts)
    then show ?thesis by (simp add: sint_u32)
  qed
  show ?thesis
    using * by (simp add: ikcp_update_ack_def Let_def)
qed

lemma update_ack_frame:
  "same_snd kcp (ikcp_update_ack kcp rtt) \<and> same_rcv kcp (ikcp_update_ack kcp rtt) \<and>
   same_ack kcp (ikcp_update_ack kcp rtt)"
  by (simp add: ikcp_update_ack_def Let_def same_defs)

lemma update_ack_rto_inv: "rto_inv kcp \<Longrightarrow> rto_inv (ikcp_update_ack kcp rtt)"
  using update_ack_rto [of kcp rtt] by (auto simp: rto_inv_def)

section \<open>One segment of the input\<close>

text \<open>The invariant of a connection, and the progress of an operation: \<open>snd_nxt\<close> stays and
  \<open>snd_una\<close> moves forward, at most to \<open>snd_nxt\<close>.\<close>

definition kcp_inv :: "ikcpcb \<Rightarrow> bool" where
  "kcp_inv kcp \<longleftrightarrow> snd_inv kcp \<and> rcv_inv kcp \<and> ack_inv kcp \<and> rto_inv kcp"

definition advances :: "ikcpcb \<Rightarrow> ikcpcb \<Rightarrow> bool" where
  "advances k k' \<longleftrightarrow> k_snd_nxt k' = k_snd_nxt k \<and>
     off (k_snd_una k) (k_snd_una k') \<le> off (k_snd_una k) (k_snd_nxt k)"

lemma advances_refl [simp]: "advances k k"
  by (simp add: advances_def)

lemma off_chain: "off a b \<le> off a n \<Longrightarrow> off b c \<le> off b n \<Longrightarrow> off a c \<le> off a n"
proof -
  assume ab: "off a b \<le> off a n" and bc: "off b c \<le> off b n"
  have e: "off b n = off a n - off a b" by (rule off_rebase [OF ab])
  have "c - a = (b - a) + (c - b)" by simp
  then have "off a c = (if off a b + off b c < 4294967296 then off a b + off b c
      else off a b + off b c - 4294967296)"
    by (simp only: unat_plus_if_size) (simp add: word_size)
  then show ?thesis using e bc ab unat_u32_lt [of "n - a"] by (simp split: if_splits)
qed

lemma advances_trans: "advances a b \<Longrightarrow> advances b c \<Longrightarrow> advances a c"
  using off_chain unfolding advances_def by metis

lemma same_snd_advances: "same_snd k k' \<Longrightarrow> advances k k'"
  by (simp add: advances_def same_snd_def)

lemma shrink_frame:
  "same_rcv kcp (ikcp_shrink_buf kcp) \<and> same_ack kcp (ikcp_shrink_buf kcp) \<and> same_rto kcp (ikcp_shrink_buf kcp)"
  by (simp add: ikcp_shrink_buf_def same_defs split: list.splits)

lemma shrink_keep:
  assumes "kcp_inv kcp" "subseq q (k_snd_buf kcp)"
  shows "kcp_inv (ikcp_shrink_buf (keep kcp q)) \<and> advances kcp (ikcp_shrink_buf (keep kcp q)) \<and>
     same_ack kcp (ikcp_shrink_buf (keep kcp q))"
proof -
  let ?k = "keep kcp q"
  have s: "snd_inv0 ?k" using assms snd_inv0_sns by (simp add: kcp_inv_def snd_inv_def)
  have e: "k_snd_una ?k = k_snd_una kcp" "k_snd_nxt ?k = k_snd_nxt kcp"
    "same_rcv kcp ?k" "same_ack kcp ?k" "same_rto kcp ?k"
    by (simp_all add: keep_def same_defs)
  have n: "k_snd_nxt (ikcp_shrink_buf ?k) = k_snd_nxt kcp"
    by (simp add: ikcp_shrink_buf_def keep_def split: list.splits)
  show ?thesis
    using shrink_inv [OF s] assms(1) e n shrink_frame [of ?k]
    by (auto simp: kcp_inv_def advances_def rcv_inv_same ack_inv_same rto_inv_same)
       (auto simp: same_defs)
qed


text \<open>What every step of the input guarantees: the invariant, progress, and at most \<open>n\<close> new
  acknowledgements to send.\<close>

definition stepped :: "nat \<Rightarrow> ikcpcb \<Rightarrow> ikcpcb \<Rightarrow> bool" where
  "stepped n k k' \<longleftrightarrow> kcp_inv k' \<and> advances k k' \<and>
     unat (k_ackcount k') \<le> unat (k_ackcount k) + n \<and> k_conv k' = k_conv k"

lemma stepped_trans: "stepped m a b \<Longrightarrow> stepped n b c \<Longrightarrow> stepped (m + n) a c"
  using advances_trans by (auto simp: stepped_def)

lemma stepped_mono: "stepped m a b \<Longrightarrow> m \<le> n \<Longrightarrow> stepped n a b"
  by (auto simp: stepped_def)

lemma shrink_keep_step:
  assumes "kcp_inv kcp" "subseq q (k_snd_buf kcp)"
  shows "stepped 0 kcp (ikcp_shrink_buf (keep kcp q))"
proof -
  have "k_conv (ikcp_shrink_buf (keep kcp q)) = k_conv kcp"
    by (simp add: ikcp_shrink_buf_def keep_def split: list.splits)
  then show ?thesis using shrink_keep [OF assms] by (simp add: stepped_def same_ack_def)
qed

lemma kcp_inv_same:
  "same_snd k k' \<Longrightarrow> same_rcv k k' \<Longrightarrow> same_ack k k' \<Longrightarrow> same_rto k k' \<Longrightarrow> kcp_inv k' = kcp_inv k"
  by (simp add: kcp_inv_def snd_inv_same rcv_inv_same ack_inv_same rto_inv_same)

lemma stepped_same:
  assumes "kcp_inv k" "same_snd k k'" "same_rcv k k'" "same_ack k k'" "same_rto k k'" "k_conv k' = k_conv k"
  shows "stepped n k k'"
  using assms kcp_inv_same [OF assms(2-5)] same_snd_advances [OF assms(2)]
  by (simp add: stepped_def same_ack_def)

lemma set_field_step:
  assumes "kcp_inv kcp"
  shows "stepped n kcp (kcp\<lparr>k_rmt_wnd := w\<rparr>)" "stepped n kcp (kcp\<lparr>k_probe := x\<rparr>)"
  by (rule stepped_same [OF assms]; simp add: same_defs)+

lemma parse_una_step:
  assumes "kcp_inv kcp"
  shows "stepped 0 kcp (ikcp_shrink_buf (ikcp_parse_una (kcp\<lparr>k_rmt_wnd := w\<rparr>) una))"
proof -
  let ?k = "kcp\<lparr>k_rmt_wnd := w\<rparr>"
  have s0: "stepped 0 kcp ?k" by (rule set_field_step [OF assms])
  then have i: "kcp_inv ?k" by (simp only: stepped_def)
  then have "k_nsnd_buf ?k = of_nat (length (k_snd_buf ?k))"
    by (simp only: kcp_inv_def snd_inv_def snd_inv0_def)
  then obtain n where e: "ikcp_parse_una ?k una = keep ?k (drop n (k_snd_buf ?k))"
    using parse_una_keep by blast
  have "subseq (drop n (k_snd_buf ?k)) (k_snd_buf ?k)"
    by (metis append_take_drop_id list_emb_append2 subseq_order.order_refl)
  from stepped_trans [OF s0 shrink_keep_step [OF i this]] show ?thesis
    unfolding e by simp
qed

lemma parse_ack_step:
  assumes "kcp_inv kcp"
  shows "stepped 0 kcp (ikcp_shrink_buf (ikcp_parse_ack kcp sn))"
proof -
  have "k_nsnd_buf kcp = of_nat (length (k_snd_buf kcp))"
    using assms by (simp add: kcp_inv_def snd_inv_def snd_inv0_def)
  then obtain q where e: "ikcp_parse_ack kcp sn = keep kcp q" and q: "subseq q (k_snd_buf kcp)"
    using parse_ack_keep by blast
  show ?thesis unfolding e by (rule shrink_keep_step [OF assms q])
qed

lemma update_ack_step:
  assumes "kcp_inv kcp"
  shows "stepped 0 kcp (ikcp_update_ack kcp rtt)"
proof -
  have "k_conv (ikcp_update_ack kcp rtt) = k_conv kcp" by (simp add: ikcp_update_ack_def Let_def)
  then show ?thesis
    using assms update_ack_frame [of kcp rtt]
    by (auto simp: stepped_def kcp_inv_def snd_inv_same rcv_inv_same ack_inv_same update_ack_rto_inv
        same_snd_advances) (auto simp: same_ack_def)
qed

lemma input_ack_step:
  assumes "kcp_inv kcp"
  shows "stepped 0 kcp (fst (input_ack h (kcp, flag, maxack, ts)))"
proof -
  let ?k = "if itimediff (k_current kcp) (h_ts h) \<ge> 0
            then ikcp_update_ack kcp (itimediff (k_current kcp) (h_ts h)) else kcp"
  have 1: "stepped 0 kcp ?k" using assms update_ack_step [OF assms] by (simp add: stepped_def)
  then have "kcp_inv ?k" by (simp add: stepped_def)
  from stepped_trans [OF 1 parse_ack_step [OF this]] show ?thesis
    by (simp add: input_ack_def Let_def)
qed

lemma ack_push_conv: "ikcp_ack_push kcp sn ts = Some kcp' \<Longrightarrow> k_conv kcp' = k_conv kcp"
  by (auto simp: ikcp_ack_push_def Let_def split: option.splits)

lemma parse_data_conv: "k_conv (ikcp_parse_data kcp x) = k_conv kcp"
proof -
  let ?c = "case rcv_scan x (rev (k_rcv_buf kcp)) of None \<Rightarrow> kcp
            | Some b \<Rightarrow> kcp\<lparr>k_rcv_buf := rev b, k_nrcv_buf := k_nrcv_buf kcp + 1\<rparr>"
  obtain n where "rcv_move ?c = moved ?c n" using rcv_move_spec [of ?c] by blast
  then show ?thesis by (auto simp: ikcp_parse_data_def Let_def moved_def split: option.splits)
qed

lemma input_push_step:
  assumes inv: "kcp_inv kcp" and small: "unat (k_ackcount kcp) < 2147483648"
    and dat: "length dat = unat (h_len h)"
  shows "\<exists>kcp'. input_push raw h dat kcp = Some kcp' \<and> stepped 1 kcp kcp'"
proof (cases "itimediff (h_sn h) (k_rcv_nxt kcp + k_rcv_wnd kcp) < 0")
  case False
  then show ?thesis using inv by (simp add: input_push_def stepped_def)
next
  case True
  obtain k1 where k1: "ikcp_ack_push kcp (h_sn h) (h_ts h) = Some k1" "ack_inv k1"
      "same_snd kcp k1" "same_rcv kcp k1" "same_rto kcp k1" "unat (k_ackcount k1) = unat (k_ackcount kcp) + 1"
    using ack_push_spec [of kcp "h_sn h" "h_ts h"] inv small by (auto simp: kcp_inv_def)
  let ?k = "if itimediff (h_sn h) (k_rcv_nxt k1) \<ge> 0 then ikcp_parse_data k1 (push_seg raw h dat) else k1"
  have i: "kcp_inv k1" using inv k1 by (simp add: kcp_inv_def snd_inv_same rcv_inv_same rto_inv_same)
  have wf: "seg_wf (push_seg raw h dat)" by (simp add: seg_wf_def push_seg_def dat)
  have "kcp_inv ?k"
    using i ikcp_parse_data_inv [OF _ wf, of k1] parse_data_frame [of k1 "push_seg raw h dat"]
    by (auto simp: kcp_inv_def snd_inv_same ack_inv_same rto_inv_same)
  moreover have "advances kcp ?k"
    using advances_trans [OF same_snd_advances [OF k1(3)] same_snd_advances, of "ikcp_parse_data k1 (push_seg raw h dat)"]
      same_snd_advances [OF k1(3)] parse_data_frame [of k1 "push_seg raw h dat"] by auto
  moreover have "k_ackcount ?k = k_ackcount k1"
    using parse_data_frame [of k1 "push_seg raw h dat"] by (simp add: same_ack_def)
  ultimately have "stepped 1 kcp ?k"
    using k1(6) ack_push_conv [OF k1(1)] by (simp add: stepped_def parse_data_conv)
  moreover have "input_push raw h dat kcp = Some ?k" using True k1(1) by (simp add: input_push_def)
  ultimately show ?thesis by blast
qed

lemma input_seg_step:
  assumes inv: "kcp_inv kcp" and small: "unat (k_ackcount kcp) < 2147483648"
    and dat: "length dat = unat (h_len h)"
  shows "\<exists>st'. input_seg raw h dat (kcp, flag, maxack, ts) = Some st' \<and> stepped 1 kcp (fst st')"
proof -
  let ?k = "ikcp_shrink_buf (ikcp_parse_una (kcp\<lparr>k_rmt_wnd := ucast (h_wnd h)\<rparr>) (h_una h))"
  have s0: "stepped 0 kcp ?k" by (rule parse_una_step [OF inv])
  then have i: "kcp_inv ?k" "unat (k_ackcount ?k) < 2147483648" using small by (simp_all add: stepped_def)
  obtain k1 where k1: "input_push raw h dat ?k = Some k1" "stepped 1 ?k k1"
    using input_push_step [OF i dat] by blast
  have p: "stepped 1 kcp (?k\<lparr>k_probe := x\<rparr>)" for x
    using stepped_trans [OF s0 set_field_step(2) [OF i(1), of 1 x]] by simp
  have a: "stepped 1 kcp (fst (input_ack h (?k, flag, maxack, ts)))"
    by (rule stepped_mono [OF stepped_trans [OF s0 input_ack_step [OF i(1)]]]) simp
  have b: "stepped 1 kcp k1" "stepped 1 kcp ?k" using stepped_trans [OF s0 k1(2)] stepped_mono [OF s0, of 1] by simp_all
  show ?thesis
    using a b p by (cases "input_ack h (?k, flag, maxack, ts)") (simp add: input_seg_def Let_def k1(1))
qed

text \<open>The two ways an iteration goes: it stops, with one of four codes, or it consumes a segment.\<close>

definition seg_accepted :: "u32 \<Rightarrow> ikcphdr \<Rightarrow> bytes \<Rightarrow> bool" where
  "seg_accepted conv h p \<longleftrightarrow> h_conv h = conv \<and> uint (h_len h) \<le> int (length p) \<and>
     0 \<le> sint (h_len h) \<and> known_cmd (h_cmd h)"

lemma input_loop_short: "length bs < 24 \<Longrightarrow> ikcp_input_loop raw st bs = Some (0, st)"
  by (subst ikcp_input_loop.simps) (simp add: kcp_consts)

lemma input_loop_reject:
  assumes "decode_header bs = Some (h, p)" "\<not> seg_accepted (k_conv (fst st)) h p"
  shows "\<exists>c \<in> {- 1, - 2, - 3}. ikcp_input_loop raw st bs = Some (c, st)"
  using assms decode_header_length [OF assms(1)]
  by (subst ikcp_input_loop.simps) (simp add: kcp_consts seg_accepted_def)

lemma input_loop_accept:
  assumes "decode_header bs = Some (h, p)" "seg_accepted (k_conv (fst st)) h p"
  shows "ikcp_input_loop raw st bs =
     Option.bind (input_seg raw h (take (unat (h_len h)) p) st)
       (\<lambda>st'. ikcp_input_loop raw st' (drop (unat (h_len h)) p))"
  using assms decode_header_length [OF assms(1)]
  by (subst ikcp_input_loop.simps) (simp add: kcp_consts seg_accepted_def split: option.split)

lemma input_loop_step:
  assumes "kcp_inv (fst st)" "unat (k_ackcount (fst st)) + length bs < 2147483648"
  shows "\<exists>code st'. ikcp_input_loop raw st bs = Some (code, st') \<and> stepped (length bs) (fst st) (fst st') \<and>
     code \<in> {0, - 1, - 2, - 3}"
  using assms
proof (induction "length bs" arbitrary: st bs rule: less_induct)
  case less
  have same: "stepped n (fst st) (fst st)" for n using less.prems by (simp add: stepped_def)
  show ?case
  proof (cases "length bs < 24")
    case True
    then show ?thesis using same input_loop_short by blast
  next
    case False
    then obtain h p where h: "decode_header bs = Some (h, p)"
      using decode_header_total [of bs] by auto
    note l = decode_header_length [OF h]
    show ?thesis
    proof (cases "seg_accepted (k_conv (fst st)) h p")
      case False
      then show ?thesis using same input_loop_reject [OF h] by blast
    next
      case ok: True
      have d: "length (take (unat (h_len h)) p) = unat (h_len h)"
        using ok by (simp add: uint_nat seg_accepted_def)
      have small: "unat (k_ackcount (fst st)) < 2147483648" using less.prems by simp
      obtain st' where st': "input_seg raw h (take (unat (h_len h)) p) st = Some st'" "stepped 1 (fst st) (fst st')"
        using input_seg_step [OF less.prems(1) small d, of raw "fst (snd st)" "fst (snd (snd st))" "snd (snd (snd st))"]
        unfolding prod.collapse by blast
      let ?r = "drop (unat (h_len h)) p"
      have i: "kcp_inv (fst st')" "unat (k_ackcount (fst st')) \<le> unat (k_ackcount (fst st)) + 1"
        using st'(2) by (simp_all add: stepped_def)
      have lt: "length ?r < length bs" using l by simp
      have "unat (k_ackcount (fst st')) + length ?r < 2147483648"
        using i(2) lt less.prems(2) by linarith
      from less.hyps [OF lt i(1) this] obtain code st'' where r: "ikcp_input_loop raw st' ?r = Some (code, st'')"
          "stepped (length ?r) (fst st') (fst st'')" "code \<in> {0, - 1, - 2, - 3}"
        by blast
      have "stepped (length bs) (fst st) (fst st'')"
        by (rule stepped_mono [OF stepped_trans [OF st'(2) r(2)]]) (simp add: l)
      then show ?thesis using r st'(1) by (simp add: input_loop_accept [OF h ok])
    qed
  qed
qed


text \<open>The congestion window never exceeds the remote window when it grows.\<close>

lemma input_cwnd_frame:
  "same_snd kcp (input_cwnd kcp) \<and> same_rcv kcp (input_cwnd kcp) \<and> same_ack kcp (input_cwnd kcp) \<and>
   same_rto kcp (input_cwnd kcp) \<and> k_conv (input_cwnd kcp) = k_conv kcp \<and> k_rmt_wnd (input_cwnd kcp) = k_rmt_wnd kcp"
  by (simp add: input_cwnd_def Let_def same_defs)

lemma input_cwnd_bound: "k_cwnd (input_cwnd kcp) \<le> max (k_cwnd kcp) (k_rmt_wnd kcp)"
  by (simp add: input_cwnd_def Let_def not_less)

lemma fastack_scan_sns: "map seg_sn (fastack_scan sn q) = map seg_sn q"
  by (induction q) auto

lemma snd_inv_sns:
  assumes "map seg_sn q = map seg_sn (k_snd_buf kcp)"
  shows "snd_inv (kcp\<lparr>k_snd_buf := q\<rparr>) = snd_inv kcp"
proof -
  have l: "length q = length (k_snd_buf kcp)" using arg_cong [OF assms, of length] by simp
  have "snd_tight (kcp\<lparr>k_snd_buf := q\<rparr>) = snd_tight kcp"
    using assms by (auto simp: snd_tight_def split: list.splits)
  moreover have "snd_inv0 (kcp\<lparr>k_snd_buf := q\<rparr>) = snd_inv0 kcp"
    by (simp add: snd_inv0_def l assms del: map_map set_map list.set_map)
  ultimately show ?thesis by (simp add: snd_inv_def)
qed

lemma parse_fastack_step:
  assumes "kcp_inv kcp"
  shows "stepped n kcp (ikcp_parse_fastack kcp sn ts) \<and>
    k_rmt_wnd (ikcp_parse_fastack kcp sn ts) = k_rmt_wnd kcp \<and> k_cwnd (ikcp_parse_fastack kcp sn ts) = k_cwnd kcp"
proof -
  let ?k = "kcp\<lparr>k_snd_buf := fastack_scan sn (k_snd_buf kcp)\<rparr>"
  have "snd_inv ?k = snd_inv kcp" by (rule snd_inv_sns [OF fastack_scan_sns])
  then have "kcp_inv ?k"
    using assms rcv_inv_same [of kcp ?k] ack_inv_same [of kcp ?k] rto_inv_same [of kcp ?k]
    by (simp add: kcp_inv_def same_defs)
  then show ?thesis
    using assms by (simp add: ikcp_parse_fastack_def stepped_def advances_def)
qed

lemma ikcp_input_step:
  assumes inv: "kcp_inv kcp" and small: "unat (k_ackcount kcp) + length bs < 2147483648"
  shows "\<exists>r kcp'. ikcp_input raw kcp (Some bs) = Some (r, kcp') \<and> stepped (length bs) kcp kcp' \<and>
    r \<in> {0, - 1, - 2, - 3}"
proof (cases "i32 (int (length bs)) < sint IKCP_OVERHEAD")
  case True
  then show ?thesis using inv by (simp add: ikcp_input_def stepped_def)
next
  case False
  obtain code k1 flag maxack ts where l: "ikcp_input_loop raw (kcp, False, 0, 0) bs = Some (code, k1, flag, maxack, ts)"
      "stepped (length bs) kcp k1" "code \<in> {0, - 1, - 2, - 3}"
    using input_loop_step [of "(kcp, False, 0, 0)" bs raw] inv small by auto
  let ?k2 = "if flag then ikcp_parse_fastack k1 maxack ts else k1"
  let ?k3 = "if itimediff (k_snd_una ?k2) (k_snd_una kcp) > 0 then input_cwnd ?k2 else ?k2"
  have i1: "kcp_inv k1" using l(2) by (simp add: stepped_def)
  have s2: "stepped 0 k1 ?k2" using parse_fastack_step [OF i1, of 0 maxack ts] stepped_same [OF i1, of k1 0] by (simp add: same_defs)
  then have i2: "kcp_inv ?k2" by (simp add: stepped_def)
  have "stepped 0 ?k2 (input_cwnd ?k2)"
    using input_cwnd_frame [of ?k2] by (intro stepped_same [OF i2]) blast+
  then have s3: "stepped 0 ?k2 ?k3" using i2 by (simp add: stepped_def)
  have s: "stepped (length bs) kcp ?k3"
    using stepped_trans [OF l(2) stepped_trans [OF s2 s3]] by simp
  have "ikcp_input raw kcp (Some bs) = Some (if code \<noteq> 0 then (code, k1) else (0, ?k3))"
    using False l(1) by (simp add: ikcp_input_def Let_def)
  then show ?thesis using s l(2,3) by (cases "code = 0") auto
qed


section \<open>What the two acknowledgements delete\<close>

lemma filter_sorted_drop:
  assumes "sorted_wrt P (map f q)" "k \<le> length q" "\<forall>s \<in> set (take k q). \<not> R (f s)"
    and "case drop k q of [] \<Rightarrow> True | s # _ \<Rightarrow> R (f s)" and "\<And>x y. P x y \<Longrightarrow> R x \<Longrightarrow> R y"
  shows "drop k q = filter (\<lambda>s. R (f s)) q"
proof -
  have "filter (\<lambda>s. R (f s)) (take k q) = []" using assms(3) by (simp add: filter_empty_conv)
  moreover have "filter (\<lambda>s. R (f s)) (drop k q) = drop k q"
  proof (cases "drop k q")
    case (Cons s r)
    have "sorted_wrt P (map f (drop k q))" using sorted_wrt_drop [OF assms(1), of k] by (simp only: drop_map)
    with Cons assms(4,5) show ?thesis by (auto simp: filter_id_conv)
  qed simp
  ultimately show ?thesis by (metis append_take_drop_id filter_append append_Nil)
qed

lemma parse_una_filter:
  assumes inv: "snd_inv0 kcp" and win: "off (k_snd_una kcp) una \<le> off (k_snd_una kcp) (k_snd_nxt kcp)"
  shows "ikcp_parse_una kcp una =
     keep kcp (filter (\<lambda>s. off (k_snd_una kcp) una \<le> off (k_snd_una kcp) (seg_sn s)) (k_snd_buf kcp))"
proof -
  let ?u = "k_snd_una kcp"
  have b: "off ?u (k_snd_nxt kcp) < 2147483648"
    "\<And>s. s \<in> set (k_snd_buf kcp) \<Longrightarrow> off ?u (seg_sn s) < off ?u (k_snd_nxt kcp)"
    using inv by (auto simp: snd_inv0_def)
  have cmp: "itimediff una (seg_sn s) > 0 \<longleftrightarrow> \<not> off ?u una \<le> off ?u (seg_sn s)" if "s \<in> set (k_snd_buf kcp)" for s
    using itimediff_window [of una ?u "seg_sn s"] b(1) b(2) [OF that] win by auto
  obtain k where k: "k \<le> length (k_snd_buf kcp)" "ikcp_parse_una kcp una = keep kcp (drop k (k_snd_buf kcp))"
    "\<forall>s \<in> set (take k (k_snd_buf kcp)). itimediff una (seg_sn s) > 0"
    "case drop k (k_snd_buf kcp) of [] \<Rightarrow> True | s # _ \<Rightarrow> \<not> itimediff una (seg_sn s) > 0"
    using parse_una_keep [of kcp una] inv by (auto simp: snd_inv0_def)
  have "drop k (k_snd_buf kcp) = filter (\<lambda>s. off ?u una \<le> off ?u (seg_sn s)) (k_snd_buf kcp)"
  proof (rule filter_sorted_drop [where P = "(<)" and R = "\<lambda>x. off ?u una \<le> x" and f = "\<lambda>s. off ?u (seg_sn s)"])
    show "sorted_wrt (<) (map (\<lambda>s. off ?u (seg_sn s)) (k_snd_buf kcp))"
      using inv by (simp add: snd_inv0_def comp_def)
    show "\<forall>s \<in> set (take k (k_snd_buf kcp)). \<not> off ?u una \<le> off ?u (seg_sn s)"
      using k(3) cmp by (meson in_set_takeD)
    show "case drop k (k_snd_buf kcp) of [] \<Rightarrow> True | s # _ \<Rightarrow> off ?u una \<le> off ?u (seg_sn s)"
      using k(4) cmp in_set_dropD [of _ k "k_snd_buf kcp"] by (auto split: list.splits)
  qed (use k(1) in auto)
  then show ?thesis using k(2) by simp
qed

lemma ack_scan_filter:
  assumes "off u sn < 2147483648" "\<forall>s \<in> set q. off u (seg_sn s) < 2147483648"
    and "sorted_wrt (<) (map (\<lambda>s. off u (seg_sn s)) q)"
  shows "fst (ack_scan sn q) = filter (\<lambda>s. seg_sn s \<noteq> sn) q"
  using assms(2,3)
proof (induction q)
  case (Cons s q)
  have c: "itimediff sn (seg_sn s) < 0 \<longleftrightarrow> off u sn < off u (seg_sn s)"
    using itimediff_window [of sn u "seg_sn s"] assms(1) Cons.prems(1) by auto
  have ne: "filter (\<lambda>t. seg_sn t \<noteq> sn) q = q" if "off u sn \<le> off u (seg_sn s)"
    using Cons.prems(2) that by (auto simp: filter_id_conv)
  show ?case
    using Cons ne c by (cases "ack_scan sn q") auto
qed simp

lemma parse_ack_filter:
  assumes inv: "snd_inv0 kcp"
  shows "ikcp_parse_ack kcp sn = keep kcp (filter (\<lambda>s. seg_sn s \<noteq> sn) (k_snd_buf kcp))"
proof -
  let ?u = "k_snd_una kcp"
  have b: "off ?u (k_snd_nxt kcp) < 2147483648" "k_nsnd_buf kcp = of_nat (length (k_snd_buf kcp))"
    "\<forall>s \<in> set (k_snd_buf kcp). off ?u (seg_sn s) < off ?u (k_snd_nxt kcp)"
    "sorted_wrt (<) (map (\<lambda>s. off ?u (seg_sn s)) (k_snd_buf kcp))"
    using inv by (auto simp: snd_inv0_def comp_def)
  show ?thesis
  proof (cases "off ?u sn < off ?u (k_snd_nxt kcp)")
    case True
    then have t: "\<not> itimediff sn ?u < 0" "\<not> itimediff sn (k_snd_nxt kcp) \<ge> 0"
      using itimediff_window [of sn ?u "k_snd_nxt kcp"] b(1) by (auto simp: itimediff_lt_0)
    obtain q f where qf: "ack_scan sn (k_snd_buf kcp) = (q, f)" by fastforce
    have "q = filter (\<lambda>s. seg_sn s \<noteq> sn) (k_snd_buf kcp)"
      using ack_scan_filter [where u = ?u and sn = sn and q = "k_snd_buf kcp"] True b qf by fastforce
    then show ?thesis
      using t ack_scan_keep [OF qf] b(2) qf by (auto simp: ikcp_parse_ack_def keep_def)
  next
    case False
    then have "filter (\<lambda>s. seg_sn s \<noteq> sn) (k_snd_buf kcp) = k_snd_buf kcp"
      using b(3) by (auto simp: filter_id_conv)
    then have k: "keep kcp (filter (\<lambda>s. seg_sn s \<noteq> sn) (k_snd_buf kcp)) = kcp" using b(2) by (simp add: keep_def)
    have "itimediff sn ?u < 0 \<or> itimediff sn (k_snd_nxt kcp) \<ge> 0"
      using False itimediff_window [of sn ?u "k_snd_nxt kcp"] b(1)
      by (cases "off ?u sn < 2147483648") (auto simp: itimediff_lt_0)
    then show ?thesis by (simp add: ikcp_parse_ack_def k)
  qed
qed

section \<open>Properties\<close>

text \<open>The two acknowledgements of a segment delete exactly what they acknowledge: the
  cumulative one every buffered segment before \<open>una\<close>, the selective one the segment with
  number \<open>sn\<close>; the counter follows.\<close>

theorem acks_delete:
  assumes "snd_inv kcp" and "off (k_snd_una kcp) una \<le> off (k_snd_una kcp) (k_snd_nxt kcp)"
  shows "k_snd_buf (ikcp_parse_una kcp una) =
           filter (\<lambda>s. off (k_snd_una kcp) una \<le> off (k_snd_una kcp) (seg_sn s)) (k_snd_buf kcp) \<and>
         k_snd_buf (ikcp_parse_ack kcp sn) = filter (\<lambda>s. seg_sn s \<noteq> sn) (k_snd_buf kcp) \<and>
         k_nsnd_buf (ikcp_parse_una kcp una) = of_nat (length (k_snd_buf (ikcp_parse_una kcp una))) \<and>
         k_nsnd_buf (ikcp_parse_ack kcp sn) = of_nat (length (k_snd_buf (ikcp_parse_ack kcp sn)))"
  using assms parse_una_filter [OF _ assms(2)] parse_ack_filter [of kcp sn]
  by (simp add: snd_inv_def keep_def)

definition sample_snd :: ikcpcb where
  "sample_snd = (ikcp_init 7)\<lparr>k_snd_una := 4294967295, k_snd_nxt := 2, k_nsnd_buf := 3,
     k_snd_buf := [sample_seg\<lparr>seg_sn := 4294967295\<rparr>, sample_seg\<lparr>seg_sn := 0\<rparr>, sample_seg\<lparr>seg_sn := 1\<rparr>]\<rparr>"

lemma sample_snd_inv: "kcp_inv sample_snd"
proof -
  have "same_rcv (ikcp_init 7) sample_snd" "same_ack (ikcp_init 7) sample_snd" "same_rto (ikcp_init 7) sample_snd"
    by (simp_all add: sample_snd_def same_defs)
  moreover have "snd_inv sample_snd"
    by (simp add: snd_inv_def snd_inv0_def snd_tight_def sample_snd_def ikcp_init_def sample_seg_def)
  ultimately show ?thesis
    using rcv_inv_init ack_inv_init rto_inv_init
    by (simp add: kcp_inv_def rcv_inv_same ack_inv_same rto_inv_same)
qed

lemma acks_delete_witness:
  "map seg_sn (k_snd_buf (ikcp_parse_una sample_snd 1)) = [1] \<and>
   map seg_sn (k_snd_buf (ikcp_parse_ack sample_snd 0)) = [4294967295, 1]"
  using acks_delete [of sample_snd 1 0] sample_snd_inv
  by (simp add: kcp_inv_def sample_snd_def ikcp_init_def sample_seg_def)

text \<open>C3: \<open>ikcp_input\<close> returns on every datagram, with 0 or one of the documented errors,
  and keeps the invariant of the connection: both windows stay ordered and counted, the
  acknowledgement list stays inside its block, the timeout stays between 30 ms and 60 s, and
  \<open>snd_una\<close> only moves forward, never beyond \<open>snd_nxt\<close>.\<close>

theorem ikcp_input_keeps:
  assumes "kcp_inv kcp" and "unat (k_ackcount kcp) + length bs < 2 ^ 31"
  shows "\<exists>r kcp'. ikcp_input raw kcp (Some bs) = Some (r, kcp') \<and> r \<in> {0, - 1, - 2, - 3} \<and>
     kcp_inv kcp' \<and> k_snd_nxt kcp' = k_snd_nxt kcp \<and>
     off (k_snd_una kcp) (k_snd_una kcp') \<le> off (k_snd_una kcp) (k_snd_nxt kcp)"
  using ikcp_input_step [OF assms(1), of bs raw] assms(2) by (auto simp: stepped_def advances_def)

lemma ikcp_input_keeps_witness:
  "\<exists>r kcp'. ikcp_input sample_seg sample_snd (Some (ikcp_encode_seg (sample_seg\<lparr>seg_conv := 7, seg_cmd := 82\<rparr>)))
     = Some (r, kcp') \<and> kcp_inv kcp' \<and> k_snd_nxt kcp' = 2"
  using ikcp_input_keeps [OF sample_snd_inv, of "ikcp_encode_seg (sample_seg\<lparr>seg_conv := 7, seg_cmd := 82\<rparr>)" sample_seg]
  by (auto simp: sample_snd_def ikcp_init_def)

end
