(* ===== verification/Kcp_Flush.thy ===== *)
theory Kcp_Flush
  imports Kcp_Inv
begin

text \<open>
  \<open>ikcp_flush\<close>, \<open>ikcp_update\<close> and \<open>ikcp_check\<close>: the datagrams of one flush
  (acknowledgements, window probes, then the data segments that are due), the move of segments from
  the send queue into the window, retransmission and the congestion reaction.

  The scratch buffer is modelled by its content up to the write pointer: a write that would go
  beyond the \<open>k_bufsize\<close> bytes allocated for it is \<open>None\<close>, as is a read behind the
  data of a segment or behind the acknowledgement list.  The datagrams passed to the output
  callback are collected in a list.
\<close>

section \<open>The output buffer\<close>

type_synonym obuf = "bytes \<times> bytes list"

text \<open>\<open>ikcp_output\<close> does nothing for an empty buffer; afterwards \<open>ptr = buffer\<close>.\<close>

definition flush_output :: "obuf \<Rightarrow> obuf" where
  "flush_output ob = ([], if fst ob = [] then snd ob else snd ob @ [fst ob])"

definition flush_room :: "ikcpcb \<Rightarrow> int \<Rightarrow> obuf \<Rightarrow> obuf" where
  "flush_room kcp need ob =
     (if i32 (int (length (fst ob)) + need) > sint (k_mtu kcp) then flush_output ob else ob)"

definition flush_put :: "ikcpcb \<Rightarrow> bytes \<Rightarrow> obuf \<Rightarrow> obuf option" where
  "flush_put kcp bs ob =
     (if length (fst ob) + length bs \<le> unat (k_bufsize kcp) then Some (fst ob @ bs, snd ob) else None)"

text \<open>One header of the template segment, behind what is in the buffer already.\<close>

definition flush_header :: "ikcpcb \<Rightarrow> ikcpseg \<Rightarrow> obuf \<Rightarrow> obuf option" where
  "flush_header kcp seg ob =
     flush_put kcp (ikcp_encode_seg seg) (flush_room kcp (sint IKCP_OVERHEAD) ob)"

section \<open>Acknowledgements and probes\<close>

text \<open>The local \<open>seg\<close>; the fields the code leaves uninitialised are never read.\<close>

definition flush_seg :: "ikcpcb \<Rightarrow> ikcpseg" where
  "flush_seg kcp =
     \<lparr>seg_conv = k_conv kcp, seg_cmd = IKCP_CMD_ACK, seg_frg = 0,
      seg_wnd = word_of_int (ikcp_wnd_unused kcp), seg_ts = 0, seg_sn = 0, seg_una = k_rcv_nxt kcp,
      seg_len = 0, seg_resendts = 0, seg_rto = 0, seg_fastack = 0, seg_xmit = 0, seg_data = []\<rparr>"

text \<open>\<open>n\<close> acknowledgements from index \<open>i\<close> on; \<open>seg\<close> keeps the last one.\<close>

fun flush_acks :: "ikcpcb \<Rightarrow> nat \<Rightarrow> nat \<Rightarrow> ikcpseg \<Rightarrow> obuf \<Rightarrow> (ikcpseg \<times> obuf) option" where
  "flush_acks kcp 0 i seg ob = Some (seg, ob)"
| "flush_acks kcp (Suc n) i seg ob = do {
     (sn, ts) \<leftarrow> ikcp_ack_get kcp i;
     let seg' = seg\<lparr>seg_sn := sn, seg_ts := ts\<rparr>;
     ob' \<leftarrow> flush_header kcp seg' ob;
     flush_acks kcp n (Suc i) seg' ob'
   }"

definition flush_probe_timer :: "ikcpcb \<Rightarrow> ikcpcb" where
  "flush_probe_timer kcp =
     (if k_rmt_wnd kcp = 0 then
        (if k_probe_wait kcp = 0
         then kcp\<lparr>k_probe_wait := IKCP_PROBE_INIT, k_ts_probe := k_current kcp + IKCP_PROBE_INIT\<rparr>
         else if itimediff (k_current kcp) (k_ts_probe kcp) \<ge> 0 then
           (let w0 = (if k_probe_wait kcp < IKCP_PROBE_INIT then IKCP_PROBE_INIT else k_probe_wait kcp);
                w1 = w0 + w0 div 2;
                w2 = (if w1 > IKCP_PROBE_LIMIT then IKCP_PROBE_LIMIT else w1)
            in kcp\<lparr>k_probe_wait := w2, k_ts_probe := k_current kcp + w2,
                   k_probe := k_probe kcp OR IKCP_ASK_SEND\<rparr>)
         else kcp)
      else kcp\<lparr>k_ts_probe := 0, k_probe_wait := 0\<rparr>)"

definition flush_probe :: "ikcpcb \<Rightarrow> u32 \<Rightarrow> u32 \<Rightarrow> ikcpseg \<times> obuf \<Rightarrow> (ikcpseg \<times> obuf) option" where
  "flush_probe kcp ask cmd st =
     (if k_probe kcp AND ask \<noteq> 0 then
        let seg = (fst st)\<lparr>seg_cmd := cmd\<rparr>
        in map_option (Pair seg) (flush_header kcp seg (snd st))
      else Some st)"

section \<open>Moving segments into the window\<close>

definition flush_cwnd :: "ikcpcb \<Rightarrow> u32" where
  "flush_cwnd kcp =
     (let cwnd = imin32 (k_snd_wnd kcp) (k_rmt_wnd kcp)
      in if k_nocwnd kcp = 0 then imin32 (k_cwnd kcp) cwnd else cwnd)"

definition flush_newseg :: "ikcpcb \<Rightarrow> u32 \<Rightarrow> u32 \<Rightarrow> ikcpseg \<Rightarrow> ikcpseg" where
  "flush_newseg kcp wnd current s =
     s\<lparr>seg_conv := k_conv kcp, seg_cmd := IKCP_CMD_PUSH, seg_wnd := wnd, seg_ts := current,
       seg_sn := k_snd_nxt kcp, seg_una := k_rcv_nxt kcp, seg_resendts := current,
       seg_rto := word_of_int (k_rx_rto kcp), seg_fastack := 0, seg_xmit := 0\<rparr>"

function flush_move :: "u32 \<Rightarrow> u32 \<Rightarrow> u32 \<Rightarrow> ikcpcb \<Rightarrow> ikcpcb" where
  "flush_move cwnd wnd current kcp =
     (if itimediff (k_snd_nxt kcp) (k_snd_una kcp + cwnd) < 0 then
        (case k_snd_queue kcp of
           [] \<Rightarrow> kcp
         | s # q \<Rightarrow> flush_move cwnd wnd current
             (kcp\<lparr>k_snd_queue := q, k_snd_buf := k_snd_buf kcp @ [flush_newseg kcp wnd current s],
                  k_nsnd_que := k_nsnd_que kcp - 1, k_nsnd_buf := k_nsnd_buf kcp + 1,
                  k_snd_nxt := k_snd_nxt kcp + 1\<rparr>))
      else kcp)"
  by pat_completeness auto
termination
  by (relation "measure (\<lambda>(cwnd, wnd, current, kcp). length (k_snd_queue kcp))") auto

declare flush_move.simps [simp del]

section \<open>Sending and resending\<close>

definition flush_resent :: "ikcpcb \<Rightarrow> u32" where
  "flush_resent kcp = (if k_fastresend kcp > 0 then word_of_int (k_fastresend kcp) else 0xffffffff)"

definition flush_rtomin :: "ikcpcb \<Rightarrow> u32" where
  "flush_rtomin kcp = (if k_nodelay kcp = 0 then word_of_int (k_rx_rto kcp div 8) else 0)"

text \<open>The decision about one segment: whether it is sent, its new timers, the change of the
  global transmission count and the flags \<open>change\<close> and \<open>lost\<close>.\<close>

definition flush_decide :: "ikcpcb \<Rightarrow> ikcpseg \<Rightarrow> bool \<times> ikcpseg \<times> u32 \<times> int \<times> bool" where
  "flush_decide kcp s =
     (let current = k_current kcp in
      if seg_xmit s = 0 then
        (True, s\<lparr>seg_xmit := seg_xmit s + 1, seg_rto := word_of_int (k_rx_rto kcp),
                 seg_resendts := current + word_of_int (k_rx_rto kcp) + flush_rtomin kcp\<rparr>, 0, 0, False)
      else if itimediff current (seg_resendts s) \<ge> 0 then
        (let rto = seg_rto s +
               (if k_nodelay kcp = 0 then imax32 (seg_rto s) (word_of_int (k_rx_rto kcp))
                else word_of_int ((if k_nodelay kcp < 2 then sint (seg_rto s) else k_rx_rto kcp) sdiv 2))
         in (True, s\<lparr>seg_xmit := seg_xmit s + 1, seg_rto := rto, seg_resendts := current + rto\<rparr>, 1, 0, True))
      else if seg_fastack s \<ge> flush_resent kcp \<and>
              (sint (seg_xmit s) \<le> k_fastlimit kcp \<or> k_fastlimit kcp \<le> 0) then
        (True, s\<lparr>seg_xmit := seg_xmit s + 1, seg_fastack := 0, seg_resendts := current + seg_rto s\<rparr>,
         0, 1, False)
      else (False, s, 0, 0, False))"

definition flush_send :: "ikcpcb \<Rightarrow> ikcpseg \<Rightarrow> obuf \<Rightarrow> obuf option" where
  "flush_send kcp s ob = do {
     let need = sint (IKCP_OVERHEAD + seg_len s);
     ob1 \<leftarrow> flush_put kcp (ikcp_encode_seg s) (flush_room kcp need ob);
     (if seg_len s > 0 then
        if unat (seg_len s) \<le> length (seg_data s)
        then flush_put kcp (take (unat (seg_len s)) (seg_data s)) ob1 else None
      else Some ob1)
   }"

text \<open>The pass over the send buffer; \<open>seen\<close> is the part already visited.\<close>

fun flush_segs :: "u32 \<Rightarrow> ikcpseg list \<Rightarrow> ikcpseg list \<Rightarrow> int \<Rightarrow> bool \<Rightarrow> ikcpcb \<Rightarrow> obuf \<Rightarrow>
    (ikcpseg list \<times> int \<times> bool \<times> ikcpcb \<times> obuf) option" where
  "flush_segs wnd [] seen change lost kcp ob = Some (seen, change, lost, kcp, ob)"
| "flush_segs wnd (s # p) seen change lost kcp ob =
     (let (needsend, s1, x, c, l) = flush_decide kcp s;
          kcp1 = kcp\<lparr>k_xmit := k_xmit kcp + x\<rparr>
      in if needsend then do {
           let s2 = s1\<lparr>seg_ts := k_current kcp, seg_wnd := wnd, seg_una := k_rcv_nxt kcp\<rparr>;
           ob1 \<leftarrow> flush_send kcp1 s2 ob;
           let kcp2 = (if seg_xmit s2 \<ge> k_dead_link kcp1 then kcp1\<lparr>k_state := - 1\<rparr> else kcp1);
           flush_segs wnd p (seen @ [s2]) (change + c) (lost \<or> l) kcp2 ob1
         }
         else flush_segs wnd p (seen @ [s1]) (change + c) (lost \<or> l) kcp1 ob)"

section \<open>Congestion reaction\<close>

definition at_least_min :: "u32 \<Rightarrow> u32" where
  "at_least_min x = (if x < IKCP_THRESH_MIN then IKCP_THRESH_MIN else x)"

definition flush_congestion :: "int \<Rightarrow> bool \<Rightarrow> u32 \<Rightarrow> ikcpcb \<Rightarrow> ikcpcb" where
  "flush_congestion change lost cwnd kcp =
     (let kcp1 = (if change \<noteq> 0 then
                    let inflight = k_snd_nxt kcp - k_snd_una kcp;
                        th = at_least_min (inflight div 2)
                    in kcp\<lparr>k_ssthresh := th, k_cwnd := th + flush_resent kcp,
                           k_incr := (th + flush_resent kcp) * k_mss kcp\<rparr>
                  else kcp);
          kcp2 = (if lost then kcp1\<lparr>k_ssthresh := at_least_min (cwnd div 2), k_cwnd := 1,
                                    k_incr := k_mss kcp1\<rparr> else kcp1)
      in if k_cwnd kcp2 < 1 then kcp2\<lparr>k_cwnd := 1, k_incr := k_mss kcp2\<rparr> else kcp2)"

section \<open>Flush, update and check\<close>

definition ikcp_flush :: "ikcpcb \<Rightarrow> (bytes list \<times> ikcpcb) option" where
  "ikcp_flush kcp =
     (if k_updated kcp = 0 then Some ([], kcp)
      else do {
        (seg, ob) \<leftarrow> flush_acks kcp (nat (sint (k_ackcount kcp))) 0 (flush_seg kcp) ([], []);
        let kcp1 = flush_probe_timer (kcp\<lparr>k_ackcount := 0\<rparr>);
        (seg, ob) \<leftarrow> flush_probe kcp1 IKCP_ASK_SEND IKCP_CMD_WASK (seg, ob);
        (seg, ob) \<leftarrow> flush_probe kcp1 IKCP_ASK_TELL IKCP_CMD_WINS (seg, ob);
        let kcp2 = kcp1\<lparr>k_probe := 0\<rparr>;
        let cwnd = flush_cwnd kcp2;
        let kcp3 = flush_move cwnd (seg_wnd seg) (k_current kcp) kcp2;
        (buf, change, lost, kcp4, ob) \<leftarrow>
          flush_segs (seg_wnd seg) (k_snd_buf kcp3) [] 0 False kcp3 ob;
        let ob = flush_output ob;
        Some (snd ob, flush_congestion change lost cwnd (kcp4\<lparr>k_snd_buf := buf\<rparr>))
      })"

definition ikcp_update :: "ikcpcb \<Rightarrow> u32 \<Rightarrow> (bytes list \<times> ikcpcb) option" where
  "ikcp_update kcp current =
     (let kcp1 = kcp\<lparr>k_current := current\<rparr>;
          kcp2 = (if k_updated kcp1 = 0
                  then kcp1\<lparr>k_updated := 1, k_ts_flush := k_current kcp1\<rparr> else kcp1);
          slap0 = itimediff (k_current kcp2) (k_ts_flush kcp2);
          wrong = (slap0 \<ge> 10000 \<or> slap0 < - 10000);
          kcp3 = (if wrong then kcp2\<lparr>k_ts_flush := k_current kcp2\<rparr> else kcp2);
          slap = (if wrong then 0 else slap0)
      in if slap \<ge> 0 then
           let kcp4 = kcp3\<lparr>k_ts_flush := k_ts_flush kcp3 + k_interval kcp3\<rparr>;
               kcp5 = (if itimediff (k_current kcp4) (k_ts_flush kcp4) \<ge> 0
                       then kcp4\<lparr>k_ts_flush := k_current kcp4 + k_interval kcp4\<rparr> else kcp4)
           in ikcp_flush kcp5
         else Some ([], kcp3))"

text \<open>The scan of the send buffer in \<open>ikcp_check\<close>: \<open>None\<close> when a segment is due.\<close>

fun check_scan :: "u32 \<Rightarrow> ikcpseg list \<Rightarrow> int \<Rightarrow> int option" where
  "check_scan current [] tm_packet = Some tm_packet"
| "check_scan current (s # p) tm_packet =
     (let diff = itimediff (seg_resendts s) current in
      if diff \<le> 0 then None
      else check_scan current p (if diff < tm_packet then diff else tm_packet))"

definition ikcp_check :: "ikcpcb \<Rightarrow> u32 \<Rightarrow> u32" where
  "ikcp_check kcp current =
     (if k_updated kcp = 0 then current
      else let d = itimediff current (k_ts_flush kcp);
               ts_flush = (if d \<ge> 10000 \<or> d < - 10000 then current else k_ts_flush kcp)
           in if itimediff current ts_flush \<ge> 0 then current
              else let tm_flush = itimediff ts_flush current in
                (case check_scan current (k_snd_buf kcp) 0x7fffffff of
                   None \<Rightarrow> current
                 | Some tm_packet \<Rightarrow>
                     let minimal = (word_of_int (if tm_packet < tm_flush then tm_packet else tm_flush) :: u32);
                         minimal' = (if minimal \<ge> k_interval kcp then k_interval kcp else minimal)
                     in current + minimal'))"

end
