(* ===== verification/Kcp_Spec.thy ===== *)
theory Kcp_Spec
  imports Kcp_Flush
begin

text \<open>
  What the datagrams of \<open>ikcp_flush\<close> look like on the wire and that a peer accepts them; the
  bounds of a flush; the timers of \<open>ikcp_update\<close> and \<open>ikcp_check\<close>; and the invariant of
  every state a connection can reach through its interface.
\<close>

section \<open>The wire format\<close>

definition wire :: "ikcpseg \<Rightarrow> bytes" where
  "wire s = ikcp_encode_seg s @ take (unat (seg_len s)) (seg_data s)"

definition hdr_of :: "ikcpseg \<Rightarrow> ikcphdr" where
  "hdr_of s = \<lparr>h_conv = seg_conv s, h_cmd = ucast (seg_cmd s), h_frg = ucast (seg_frg s),
     h_wnd = ucast (seg_wnd s), h_ts = seg_ts s, h_sn = seg_sn s, h_una = seg_una s, h_len = seg_len s\<rparr>"

text \<open>A segment of connection \<open>conv\<close> that may be sent: a known command, and data of the
  length the header announces.\<close>

definition wireable :: "u32 \<Rightarrow> ikcpseg \<Rightarrow> bool" where
  "wireable conv s \<longleftrightarrow> seg_conv s = conv \<and> known_cmd (ucast (seg_cmd s)) \<and>
     unat (seg_len s) = length (seg_data s) \<and> length (seg_data s) < 2147483648"

text \<open>What the peer does with a sequence of segments.\<close>

fun input_segs :: "ikcpseg \<Rightarrow> ikcpseg list \<Rightarrow> istate \<Rightarrow> istate option" where
  "input_segs raw [] st = Some st"
| "input_segs raw (s # ss) st = Option.bind (input_seg raw (hdr_of s) (seg_data s) st) (input_segs raw ss)"

lemma decode_wire: "decode_header (wire s @ p) = Some (hdr_of s, take (unat (seg_len s)) (seg_data s) @ p)"
  by (simp add: wire_def hdr_of_def decode_encode_seg)

lemma input_loop_wire:
  assumes "\<forall>s \<in> set ss. wireable (k_conv (fst st)) s" "kcp_inv (fst st)"
    and "unat (k_ackcount (fst st)) + length ss < 2147483648"
  shows "\<exists>st'. input_segs raw ss st = Some st' \<and> ikcp_input_loop raw st (concat (map wire ss)) = Some (0, st') \<and>
     stepped (length ss) (fst st) (fst st')"
  using assms
proof (induction ss arbitrary: st)
  case Nil
  then show ?case by (simp add: input_loop_short stepped_def)
next
  case (Cons s ss)
  let ?r = "concat (map wire ss)"
  have w: "wireable (k_conv (fst st)) s" using Cons.prems(1) by simp
  then have h: "decode_header (wire s @ ?r) = Some (hdr_of s, seg_data s @ ?r)"
    by (simp add: decode_wire wireable_def)
  have ok: "seg_accepted (k_conv (fst st)) (hdr_of s) (seg_data s @ ?r)"
    using w by (auto simp: seg_accepted_def wireable_def hdr_of_def uint_nat sint_u32)
  have len: "unat (h_len (hdr_of s)) = length (seg_data s)" using w by (simp add: wireable_def hdr_of_def)
  have small: "unat (k_ackcount (fst st)) < 2147483648" using Cons.prems(3) by simp
  obtain st1 where s1: "input_seg raw (hdr_of s) (seg_data s) st = Some st1" "stepped 1 (fst st) (fst st1)"
    using input_seg_step [OF Cons.prems(2) small len [symmetric], of raw "fst (snd st)" "fst (snd (snd st))" "snd (snd (snd st))"]
    unfolding prod.collapse by blast
  have i: "kcp_inv (fst st1)" "k_conv (fst st1) = k_conv (fst st)"
      "unat (k_ackcount (fst st1)) \<le> unat (k_ackcount (fst st)) + 1"
    using s1(2) by (simp_all add: stepped_def)
  have small': "unat (k_ackcount (fst st1)) + length ss < 2147483648"
    using i(3) Cons.prems(3) by simp
  have all: "\<forall>x \<in> set ss. wireable (k_conv (fst st1)) x" using Cons.prems(1) i(2) by simp
  obtain st' where r: "input_segs raw ss st1 = Some st'" "ikcp_input_loop raw st1 ?r = Some (0, st')"
      "stepped (length ss) (fst st1) (fst st')"
    using Cons.IH [OF all i(1) small'] by blast
  have "ikcp_input_loop raw st (wire s @ ?r) = Some (0, st')"
    unfolding input_loop_accept [OF h ok] len using s1(1) r(2) by simp
  moreover have "stepped (length (s # ss)) (fst st) (fst st')"
    using stepped_trans [OF s1(2) r(3)] by simp
  ultimately show ?case using s1(1) r(1) by simp
qed

section \<open>What a flush writes\<close>

definition mtu_ok :: "ikcpcb \<Rightarrow> bool" where
  "mtu_ok kcp \<longleftrightarrow> 50 \<le> unat (k_mtu kcp) \<and> unat (k_mtu kcp) \<le> 536870912 \<and>
     unat (k_mss kcp) = unat (k_mtu kcp) - 24 \<and> unat (k_bufsize kcp) = (unat (k_mtu kcp) + 24) * 3"

text \<open>A datagram: a sequence of segments of the connection, within the transmission unit.\<close>

definition datagram :: "u32 \<Rightarrow> nat \<Rightarrow> bytes \<Rightarrow> bool" where
  "datagram conv mtu d \<longleftrightarrow> length d \<le> mtu \<and> (\<exists>ss. d = concat (map wire ss) \<and> (\<forall>s \<in> set ss. wireable conv s))"

definition good_ob :: "ikcpcb \<Rightarrow> obuf \<Rightarrow> bool" where
  "good_ob kcp ob \<longleftrightarrow> datagram (k_conv kcp) (unat (k_mtu kcp)) (fst ob) \<and>
     (\<forall>d \<in> set (snd ob). d \<noteq> [] \<and> datagram (k_conv kcp) (unat (k_mtu kcp)) d)"

definition stream_of :: "obuf \<Rightarrow> bytes" where
  "stream_of ob = concat (snd ob) @ fst ob"

lemma datagram_Nil [simp]: "datagram conv mtu []"
  by (auto simp: datagram_def intro: exI [of _ "[]"])

lemma good_ob_init [simp]: "good_ob kcp ([], [])"
  by (simp add: good_ob_def)

lemma good_output: "good_ob kcp ob \<Longrightarrow> good_ob kcp (flush_output ob)"
  by (auto simp: good_ob_def flush_output_def)

lemma stream_output [simp]: "stream_of (flush_output ob) = stream_of ob"
  by (simp add: stream_of_def flush_output_def)

lemma stream_room [simp]: "stream_of (flush_room kcp need ob) = stream_of ob"
  by (simp add: flush_room_def)

lemma flush_send_ok:
  assumes ok: "mtu_ok kcp" and ob: "good_ob kcp ob" and s: "wireable (k_conv kcp) s"
    and fit: "length (seg_data s) \<le> unat (k_mss kcp)"
  shows "\<exists>ob'. flush_send kcp s ob = Some ob' \<and> good_ob kcp ob' \<and> stream_of ob' = stream_of ob @ wire s"
proof -
  let ?m = "unat (k_mtu kcp)" and ?n = "24 + length (seg_data s)"
  have m: "sint (k_mtu kcp) = int ?m" "?n \<le> ?m" "?m \<le> unat (k_bufsize kcp)"
    using ok fit by (auto simp: mtu_ok_def sint_u32)
  have len: "unat (seg_len s) = length (seg_data s)" using s by (simp add: wireable_def)
  have need: "sint (IKCP_OVERHEAD + seg_len s) = int ?n"
    using m(2) len ok by (simp add: kcp_consts sint_u32 unat_plus_if' mtu_ok_def)
  have fit0: "length (fst ob) \<le> ?m" using ob by (simp add: good_ob_def datagram_def)
  then have "i32 (int (length (fst ob)) + int ?n) = int (length (fst ob)) + int ?n"
    using m(2) ok by (intro i32_id) (auto simp: mtu_ok_def)
  then have room: "flush_room kcp (sint (IKCP_OVERHEAD + seg_len s)) ob =
      (if length (fst ob) + ?n > ?m then flush_output ob else ob)"
    unfolding flush_room_def need m(1) by simp
  let ?ob = "flush_room kcp (sint (IKCP_OVERHEAD + seg_len s)) ob"
  have g: "good_ob kcp ?ob" using ob good_output by (simp add: room)
  have l: "length (fst ?ob) + ?n \<le> ?m" using m(2) by (auto simp: room flush_output_def)
  let ?ob' = "(fst ?ob @ wire s, snd ?ob)"
  have lw: "length (wire s) = ?n" by (simp add: wire_def len)
  have "flush_send kcp s ob = Some ?ob'"
    using l m(3) by (simp add: flush_send_def flush_put_def Let_def wire_def len word_gt_0 unat_eq_0 [symmetric])
  moreover have "datagram (k_conv kcp) ?m (fst ?ob @ wire s)"
  proof -
    obtain ss where "fst ?ob = concat (map wire ss)" "\<forall>x \<in> set ss. wireable (k_conv kcp) x"
      using g by (auto simp: good_ob_def datagram_def)
    then show ?thesis
      unfolding datagram_def using l lw s by (intro conjI exI [of _ "ss @ [s]"]) auto
  qed
  moreover have "stream_of ?ob' = stream_of ob @ wire s"
    using stream_room [of kcp "sint (IKCP_OVERHEAD + seg_len s)" ob] by (simp add: stream_of_def)
  ultimately show ?thesis using g by (auto simp: good_ob_def)
qed

lemma flush_header_send: "seg_len s = 0 \<Longrightarrow> flush_header kcp s ob = flush_send kcp s ob"
  by (cases "flush_put kcp (ikcp_encode_seg s) (flush_room kcp 24 ob)")
     (simp_all add: flush_header_def flush_send_def Let_def kcp_consts)


text \<open>The same for a header alone, and for the acknowledgements and probes of a flush.\<close>

lemma flush_header_ok:
  assumes "mtu_ok kcp" "good_ob kcp ob" "wireable (k_conv kcp) s" "seg_len s = 0"
  shows "\<exists>ob'. flush_header kcp s ob = Some ob' \<and> good_ob kcp ob' \<and> stream_of ob' = stream_of ob @ wire s"
  using flush_send_ok [OF assms(1-3)] assms(3,4) by (simp add: flush_header_send wireable_def)

definition bare :: "u32 \<Rightarrow> ikcpseg \<Rightarrow> bool" where
  "bare conv s \<longleftrightarrow> wireable conv s \<and> seg_len s = 0"

lemma bare_update:
  "bare conv s \<Longrightarrow> bare conv (s\<lparr>seg_sn := sn, seg_ts := ts\<rparr>)"
  "bare conv s \<Longrightarrow> c \<in> {81, 82, 83, 84} \<Longrightarrow> bare conv (s\<lparr>seg_cmd := c\<rparr>)"
  by (auto simp: bare_def wireable_def known_cmd_def kcp_consts)

lemma bare_flush_seg: "bare (k_conv kcp) (flush_seg kcp)"
  by (simp add: bare_def wireable_def flush_seg_def known_cmd_def kcp_consts)

lemma flush_acks_ok:
  assumes "mtu_ok kcp" "good_ob kcp ob" "bare (k_conv kcp) seg" "i + n \<le> length (k_acklist kcp)"
  shows "\<exists>seg' ob'. flush_acks kcp n i seg ob = Some (seg', ob') \<and> good_ob kcp ob' \<and> bare (k_conv kcp) seg' \<and>
     seg_wnd seg' = seg_wnd seg \<and>
     seg' = last (seg # map (\<lambda>(sn, ts). seg\<lparr>seg_sn := sn, seg_ts := ts\<rparr>) (take n (drop i (k_acklist kcp)))) \<and>
     stream_of ob' = stream_of ob @
       concat (map (\<lambda>(sn, ts). wire (seg\<lparr>seg_sn := sn, seg_ts := ts\<rparr>)) (take n (drop i (k_acklist kcp))))"
  using assms(2-4)
proof (induction n arbitrary: i seg ob)
  case (Suc n)
  obtain sn ts where a: "k_acklist kcp ! i = (sn, ts)" by fastforce
  have i: "i < length (k_acklist kcp)" using Suc.prems(3) by simp
  let ?s = "seg\<lparr>seg_sn := sn, seg_ts := ts\<rparr>"
  have b: "bare (k_conv kcp) ?s" by (rule bare_update(1) [OF Suc.prems(2)])
  obtain ob1 where o1: "flush_header kcp ?s ob = Some ob1" "good_ob kcp ob1" "stream_of ob1 = stream_of ob @ wire ?s"
    using flush_header_ok [OF assms(1) Suc.prems(1), of ?s] b by (auto simp: bare_def)
  have "Suc i + n \<le> length (k_acklist kcp)" using Suc.prems(3) by simp
  from Suc.IH [OF o1(2) b this] obtain seg' ob' where
    r: "flush_acks kcp n (Suc i) ?s ob1 = Some (seg', ob')" "good_ob kcp ob'" "bare (k_conv kcp) seg'"
      "seg_wnd seg' = seg_wnd seg"
      "seg' = last (?s # map (\<lambda>(sn, ts). ?s\<lparr>seg_sn := sn, seg_ts := ts\<rparr>) (take n (drop (Suc i) (k_acklist kcp))))"
      "stream_of ob' = stream_of ob1 @
       concat (map (\<lambda>(sn, ts). wire (?s\<lparr>seg_sn := sn, seg_ts := ts\<rparr>)) (take n (drop (Suc i) (k_acklist kcp))))"
    by auto
  have "take (Suc n) (drop i (k_acklist kcp)) = (sn, ts) # take n (drop (Suc i) (k_acklist kcp))"
    using i a by (simp add: Cons_nth_drop_Suc [symmetric])
  then show ?case
    using r o1 a i by (simp add: ikcp_ack_get_def arr_simps)
qed simp

lemma flush_probe_ok:
  assumes "mtu_ok kcp" "good_ob kcp ob" "bare (k_conv kcp) seg" "cmd \<in> {81, 82, 83, 84}"
  shows "\<exists>seg' ob'. flush_probe kcp ask cmd (seg, ob) = Some (seg', ob') \<and> good_ob kcp ob' \<and>
     bare (k_conv kcp) seg' \<and> seg_wnd seg' = seg_wnd seg \<and> (\<forall>c. seg'\<lparr>seg_cmd := c\<rparr> = seg\<lparr>seg_cmd := c\<rparr>) \<and>
     stream_of ob' = stream_of ob @ concat (map wire (if k_probe kcp AND ask \<noteq> 0 then [seg\<lparr>seg_cmd := cmd\<rparr>] else []))"
proof -
  let ?s = "seg\<lparr>seg_cmd := cmd\<rparr>"
  have b: "bare (k_conv kcp) ?s" by (rule bare_update(2) [OF assms(3,4)])
  obtain ob1 where o1: "flush_header kcp ?s ob = Some ob1" "good_ob kcp ob1" "stream_of ob1 = stream_of ob @ wire ?s"
    using flush_header_ok [OF assms(1,2), of ?s] b by (auto simp: bare_def)
  show ?thesis
  proof (cases "k_probe kcp AND ask \<noteq> 0")
    case True
    then show ?thesis using o1 b by (auto simp: flush_probe_def)
  next
    case False
    then show ?thesis using assms by (auto simp: flush_probe_def)
  qed
qed


section \<open>The state of a connection\<close>

text \<open>Beyond \<open>kcp_inv\<close>: the buffer sizes fit the transmission unit, every waiting segment
  fits the segment size, and the segments in flight carry the headers of data segments.\<close>

definition sendable :: "ikcpcb \<Rightarrow> ikcpseg \<Rightarrow> bool" where
  "sendable kcp s \<longleftrightarrow> seg_ok (k_mss kcp) s \<and> seg_conv s = k_conv kcp \<and> seg_cmd s = IKCP_CMD_PUSH"

definition conn_inv :: "ikcpcb \<Rightarrow> bool" where
  "conn_inv kcp \<longleftrightarrow> kcp_inv kcp \<and> mtu_ok kcp \<and> unat (k_rmt_wnd kcp) < 65536 \<and>
     (\<forall>s \<in> set (k_snd_queue kcp). seg_ok (k_mss kcp) s) \<and> (\<forall>s \<in> set (k_snd_buf kcp). sendable kcp s)"

lemma conn_inv_init: "conn_inv (ikcp_init conv)"
  using snd_inv_init rcv_inv_init ack_inv_init rto_inv_init
  by (simp add: conn_inv_def kcp_inv_def mtu_ok_def) (simp add: ikcp_init_def kcp_consts)

lemma sendable_wireable:
  assumes "mtu_ok kcp" "sendable kcp s"
  shows "wireable (k_conv kcp) s \<and> length (seg_data s) \<le> unat (k_mss kcp)"
  using assms by (auto simp: sendable_def seg_ok_def wireable_def mtu_ok_def known_cmd_def kcp_consts)

section \<open>Moving into the window\<close>

definition to_window :: "u32 \<Rightarrow> u32 \<Rightarrow> ikcpseg \<Rightarrow> ikcpseg list \<Rightarrow> ikcpcb \<Rightarrow> ikcpcb" where
  "to_window wnd current s q kcp =
     kcp\<lparr>k_snd_queue := q, k_snd_buf := k_snd_buf kcp @ [flush_newseg kcp wnd current s],
         k_nsnd_que := k_nsnd_que kcp - 1, k_nsnd_buf := k_nsnd_buf kcp + 1, k_snd_nxt := k_snd_nxt kcp + 1\<rparr>"

lemma window_room:
  assumes "snd_inv kcp" "unat cwnd < 65536"
  shows "itimediff (k_snd_nxt kcp) (k_snd_una kcp + cwnd) < 0 \<longleftrightarrow>
     off (k_snd_una kcp) (k_snd_nxt kcp) < unat cwnd"
  using assms itimediff_window [of "k_snd_nxt kcp" "k_snd_una kcp" "k_snd_una kcp + cwnd"]
  by (auto simp: snd_inv_def snd_inv0_def)

lemma to_window_snd_inv:
  assumes inv: "snd_inv kcp" and q: "k_snd_queue kcp = s # q"
    and room: "off (k_snd_una kcp) (k_snd_nxt kcp) < 65536"
  shows "snd_inv (to_window wnd current s q kcp) \<and>
     off (k_snd_una kcp) (k_snd_nxt kcp + 1) = off (k_snd_una kcp) (k_snd_nxt kcp) + 1"
proof -
  let ?u = "k_snd_una kcp" and ?n = "k_snd_nxt kcp"
  have "off ?u (?n + 1) = unat ((?n - ?u) + 1)" by (simp add: algebra_simps)
  then have n: "off ?u (?n + 1) = off ?u ?n + 1" using room by (simp add: unat_plus_if')
  have "snd_inv0 (to_window wnd current s q kcp)"
    using inv q room n
    by (auto simp: snd_inv_def snd_inv0_def to_window_def flush_newseg_def sorted_wrt_append less_Suc_eq)
  moreover have "snd_tight (to_window wnd current s q kcp)"
    using inv by (simp add: snd_inv_def snd_tight_def to_window_def flush_newseg_def split: list.splits)
  ultimately show ?thesis using n by (simp add: snd_inv_def)
qed

lemma to_window_inv:
  assumes inv: "conn_inv kcp" and q: "k_snd_queue kcp = s # q"
    and room: "off (k_snd_una kcp) (k_snd_nxt kcp) < 65536"
  shows "conn_inv (to_window wnd current s q kcp)"
proof -
  let ?k = "to_window wnd current s q kcp"
  have "same_rcv kcp ?k" "same_ack kcp ?k" "same_rto kcp ?k"
    by (simp_all add: to_window_def same_defs)
  moreover have "snd_inv kcp" using inv by (simp add: conn_inv_def kcp_inv_def)
  ultimately have "kcp_inv ?k"
    using inv to_window_snd_inv [OF _ q room, of wnd current]
    by (simp add: conn_inv_def kcp_inv_def rcv_inv_same ack_inv_same rto_inv_same)
  moreover have "sendable kcp (flush_newseg kcp wnd current s)"
    using inv q by (simp add: sendable_def flush_newseg_def conn_inv_def seg_ok_def)
  ultimately show ?thesis
    using inv q by (auto simp: conn_inv_def to_window_def mtu_ok_def sendable_def)
qed

text \<open>What the move leaves as it was.\<close>

definition same_conn :: "ikcpcb \<Rightarrow> ikcpcb \<Rightarrow> bool" where
  "same_conn k k' \<longleftrightarrow> k_conv k' = k_conv k \<and> k_mtu k' = k_mtu k \<and> k_mss k' = k_mss k \<and>
     k_bufsize k' = k_bufsize k \<and> k_rmt_wnd k' = k_rmt_wnd k \<and> k_snd_una k' = k_snd_una k \<and>
     k_current k' = k_current k \<and> k_acklist k' = k_acklist k \<and> k_ackcount k' = k_ackcount k"

lemma same_conn_trans: "same_conn a b \<Longrightarrow> same_conn b c \<Longrightarrow> same_conn a c"
  by (simp add: same_conn_def)

lemma flush_move_spec:
  fixes wnd current
  assumes "conn_inv kcp" "unat cwnd < 65536"
  defines "k' \<equiv> flush_move cwnd wnd current kcp"
  shows "conn_inv k' \<and> same_conn kcp k' \<and>
     map seg_data (k_snd_buf k' @ k_snd_queue k') = map seg_data (k_snd_buf kcp @ k_snd_queue kcp) \<and>
     off (k_snd_una kcp) (k_snd_nxt k') \<le> max (off (k_snd_una kcp) (k_snd_nxt kcp)) (unat cwnd) \<and>
     (k_snd_queue k' = [] \<or> unat cwnd \<le> off (k_snd_una kcp) (k_snd_nxt k'))"
  using assms(1) unfolding k'_def
proof (induction "length (k_snd_queue kcp)" arbitrary: kcp rule: less_induct)
  case less
  have s: "snd_inv kcp" using less.prems by (simp add: conn_inv_def kcp_inv_def)
  note room = window_room [OF s assms(2)]
  show ?case
  proof (cases "off (k_snd_una kcp) (k_snd_nxt kcp) < unat cwnd \<and> k_snd_queue kcp \<noteq> []")
    case False
    then have "flush_move cwnd wnd current kcp = kcp"
      by (subst flush_move.simps) (auto simp: room split: list.splits)
    then show ?thesis using less.prems False by (auto simp: same_conn_def)
  next
    case True
    then obtain x q where q: "k_snd_queue kcp = x # q" by (auto simp: neq_Nil_conv)
    let ?k = "to_window wnd current x q kcp"
    have e: "flush_move cwnd wnd current kcp = flush_move cwnd wnd current ?k"
      using True by (subst flush_move.simps) (simp add: room q to_window_def)
    have r: "off (k_snd_una kcp) (k_snd_nxt kcp) < 65536" using True assms(2) by simp
    have i: "conn_inv ?k" by (rule to_window_inv [OF less.prems q r])
    have lt: "length (k_snd_queue ?k) < length (k_snd_queue kcp)" by (simp add: q to_window_def)
    have n: "k_snd_una ?k = k_snd_una kcp" "off (k_snd_una kcp) (k_snd_nxt ?k) = off (k_snd_una kcp) (k_snd_nxt kcp) + 1"
      using to_window_snd_inv [OF s q r] by (simp_all add: to_window_def)
    have d: "map seg_data (k_snd_buf ?k @ k_snd_queue ?k) = map seg_data (k_snd_buf kcp @ k_snd_queue kcp)"
      by (simp add: to_window_def flush_newseg_def q)
    have c: "same_conn kcp ?k" by (simp add: same_conn_def to_window_def)
    note ih = less.hyps [OF lt i, unfolded n(1) d n(2)]
    show ?thesis unfolding e using ih same_conn_trans [OF c] True by auto
  qed
qed


section \<open>The pass over the send buffer\<close>

definition due :: "ikcpcb \<Rightarrow> ikcpseg \<Rightarrow> bool" where
  "due kcp s = fst (flush_decide kcp s)"

definition refreshed :: "ikcpcb \<Rightarrow> u32 \<Rightarrow> ikcpseg \<Rightarrow> ikcpseg" where
  "refreshed kcp wnd s =
     (let s1 = fst (snd (flush_decide kcp s))
      in if due kcp s then s1\<lparr>seg_ts := k_current kcp, seg_wnd := wnd, seg_una := k_rcv_nxt kcp\<rparr> else s1)"

lemma refreshed_sel [simp]:
  "seg_sn (refreshed kcp wnd s) = seg_sn s" "seg_data (refreshed kcp wnd s) = seg_data s"
  "seg_len (refreshed kcp wnd s) = seg_len s" "seg_conv (refreshed kcp wnd s) = seg_conv s"
  "seg_cmd (refreshed kcp wnd s) = seg_cmd s"
  by (simp_all add: refreshed_def due_def flush_decide_def Let_def)

text \<open>A segment that was never sent, or whose timer ran out, is due.\<close>

lemma due_cases:
  "seg_xmit s = 0 \<Longrightarrow> due kcp s" "itimediff (k_current kcp) (seg_resendts s) \<ge> 0 \<Longrightarrow> due kcp s"
  by (simp_all add: due_def flush_decide_def Let_def)

definition counted :: "ikcpcb \<Rightarrow> ikcpcb \<Rightarrow> bool" where
  "counted k k' \<longleftrightarrow> (\<exists>x st. k' = k\<lparr>k_xmit := x, k_state := st\<rparr>)"

lemma counted_refl: "counted k k"
  unfolding counted_def by (intro exI [of _ "k_xmit k"] exI [of _ "k_state k"]) simp

lemma counted_step: "counted k (k\<lparr>k_xmit := x\<rparr>)" "counted k (k\<lparr>k_xmit := x, k_state := st\<rparr>)"
proof -
  show "counted k (k\<lparr>k_xmit := x\<rparr>)"
    unfolding counted_def by (intro exI [of _ x] exI [of _ "k_state k"]) simp
qed (auto simp: counted_def)

lemma counted_trans: "counted a b \<Longrightarrow> counted b c \<Longrightarrow> counted a c"
proof -
  assume "counted a b" "counted b c"
  then obtain x st y u where "b = a\<lparr>k_xmit := x, k_state := st\<rparr>" "c = b\<lparr>k_xmit := y, k_state := u\<rparr>"
    unfolding counted_def by blast
  then show "counted a c" by (simp add: counted_step(2))
qed

lemma counted_sel:
  "counted k k' \<Longrightarrow> k_current k' = k_current k \<and> k_rcv_nxt k' = k_rcv_nxt k \<and> k_rx_rto k' = k_rx_rto k \<and>
     k_nodelay k' = k_nodelay k \<and> k_fastresend k' = k_fastresend k \<and> k_fastlimit k' = k_fastlimit k \<and>
     k_conv k' = k_conv k \<and> k_mtu k' = k_mtu k \<and> k_mss k' = k_mss k \<and> k_bufsize k' = k_bufsize k"
  by (auto simp: counted_def)

lemma counted_decide:
  "counted k k' \<Longrightarrow> due k' = due k \<and> refreshed k' = refreshed k \<and> flush_decide k' s = flush_decide k s"
proof -
  assume "counted k k'"
  then have "flush_decide k' x = flush_decide k x" "k_current k' = k_current k" "k_rcv_nxt k' = k_rcv_nxt k" for x
    using counted_sel [of k k'] by (simp_all only: flush_decide_def flush_rtomin_def flush_resent_def)
  then show ?thesis by (simp add: due_def refreshed_def fun_eq_iff Let_def)
qed

lemma counted_sendable: "counted k k' \<Longrightarrow> sendable k' = sendable k \<and> mtu_ok k' = mtu_ok k \<and> good_ob k' = good_ob k"
  using counted_sel [of k k'] by (simp add: sendable_def mtu_ok_def good_ob_def fun_eq_iff)

lemma sendable_refreshed: "sendable kcp s \<Longrightarrow> sendable kcp (refreshed kcp wnd s)"
  by (simp add: sendable_def seg_ok_def)

lemma flush_segs_ok:
  assumes "mtu_ok kcp" "\<forall>s \<in> set p. sendable kcp s" "good_ob kcp ob"
  shows "\<exists>c l k' ob'. flush_segs wnd p seen change lost kcp ob =
       Some (seen @ map (refreshed kcp wnd) p, c, l, k', ob') \<and> counted kcp k' \<and> good_ob kcp ob' \<and>
     stream_of ob' = stream_of ob @ concat (map (\<lambda>s. wire (refreshed kcp wnd s)) (filter (due kcp) p))"
  using assms
proof (induction p arbitrary: seen change lost kcp ob)
  case Nil
  then show ?case using counted_refl by auto
next
  case (Cons s p)
  obtain nd s1 x c l where d: "flush_decide kcp s = (nd, s1, x, c, l)" by (cases "flush_decide kcp s") auto
  let ?k1 = "kcp\<lparr>k_xmit := k_xmit kcp + x\<rparr>"
  have step: "\<exists>c' l' k' ob'. flush_segs wnd p seen' ch lo k2 ob2 =
       Some (seen' @ map (refreshed kcp wnd) p, c', l', k', ob') \<and> counted kcp k' \<and> good_ob kcp ob' \<and>
     stream_of ob' = stream_of ob2 @ concat (map (\<lambda>s. wire (refreshed kcp wnd s)) (filter (due kcp) p))"
    if k2: "counted kcp k2" and g: "good_ob kcp ob2" for k2 ob2 seen' ch lo
  proof -
    have e: "due k2 = due kcp" "refreshed k2 = refreshed kcp" using counted_decide [OF k2] by auto
    have "mtu_ok k2" "\<forall>s \<in> set p. sendable k2 s" "good_ob k2 ob2"
      using counted_sendable [OF k2] Cons.prems g by auto
    from Cons.IH [OF this, of seen' ch lo] show ?thesis
      unfolding e counted_sendable [OF k2, THEN conjunct2, THEN conjunct2]
      using counted_trans [OF k2] by blast
  qed
  show ?case
  proof (cases nd)
    case False
    then have r: "\<not> due kcp s" "refreshed kcp wnd s = s1" by (simp_all add: due_def refreshed_def d)
    obtain c' l' k' ob' where "flush_segs wnd p (seen @ [s1]) (change + c) (lost \<or> l) ?k1 ob =
        Some ((seen @ [s1]) @ map (refreshed kcp wnd) p, c', l', k', ob') \<and> counted kcp k' \<and> good_ob kcp ob' \<and>
        stream_of ob' = stream_of ob @ concat (map (\<lambda>s. wire (refreshed kcp wnd s)) (filter (due kcp) p))"
      using step [OF counted_step(1) Cons.prems(3)] by blast
    then show ?thesis using False by (simp add: d r)
  next
    case True
    let ?s2 = "s1\<lparr>seg_ts := k_current kcp, seg_wnd := wnd, seg_una := k_rcv_nxt kcp\<rparr>"
    have r: "due kcp s" "refreshed kcp wnd s = ?s2" using True by (simp_all add: due_def refreshed_def d)
    have "sendable kcp ?s2" using sendable_refreshed [of kcp s wnd] Cons.prems(2) r(2) by simp
    then obtain ob1 where o1: "flush_send ?k1 ?s2 ob = Some ob1" "good_ob kcp ob1" "stream_of ob1 = stream_of ob @ wire ?s2"
      using flush_send_ok [of ?k1 ob ?s2] sendable_wireable [of ?k1 ?s2] Cons.prems(1,3)
        counted_sendable [OF counted_step(1) [of kcp "k_xmit kcp + x"]] by auto
    let ?k2 = "if seg_xmit ?s2 \<ge> k_dead_link ?k1 then ?k1\<lparr>k_state := - 1\<rparr> else ?k1"
    have k2: "counted kcp ?k2" using counted_step by auto
    obtain c' l' k' ob' where "flush_segs wnd p (seen @ [?s2]) (change + c) (lost \<or> l) ?k2 ob1 =
        Some ((seen @ [?s2]) @ map (refreshed kcp wnd) p, c', l', k', ob') \<and> counted kcp k' \<and> good_ob kcp ob' \<and>
        stream_of ob' = stream_of ob1 @ concat (map (\<lambda>s. wire (refreshed kcp wnd s)) (filter (due kcp) p))"
      using step [OF k2 o1(2)] by blast
    then show ?thesis
      using True o1(1,3) r by (simp add: d Let_def del: ikcpseg.update_convs)
  qed
qed


section \<open>A whole flush\<close>

text \<open>The parts of the control block the invariant does not look at.\<close>

lemma conn_inv_same:
  assumes "same_snd k k'" "same_rcv k k'" "same_ack k k'" "same_rto k k'"
    "k_rmt_wnd k' = k_rmt_wnd k" "k_conv k' = k_conv k"
  shows "conn_inv k' = conn_inv k"
proof -
  have e: "k_mtu k' = k_mtu k" "k_mss k' = k_mss k" "k_bufsize k' = k_bufsize k"
    "k_snd_queue k' = k_snd_queue k" "k_snd_buf k' = k_snd_buf k"
    using assms by (simp_all add: same_defs)
  then have "mtu_ok k' = mtu_ok k" "sendable k' = sendable k"
    using assms(6) by (simp_all add: mtu_ok_def sendable_def fun_eq_iff)
  then show ?thesis by (simp add: conn_inv_def kcp_inv_same [OF assms(1-4)] e assms(5))
qed

lemma clear_acks:
  assumes "conn_inv kcp"
  shows "conn_inv (kcp\<lparr>k_ackcount := 0\<rparr>)"
proof -
  let ?k = "kcp\<lparr>k_ackcount := 0\<rparr>"
  have "same_snd kcp ?k" "same_rcv kcp ?k" "same_rto kcp ?k" by (simp_all add: same_defs)
  moreover have "ack_inv ?k" using assms by (simp add: conn_inv_def kcp_inv_def ack_inv_def)
  ultimately have "kcp_inv ?k" using assms
    by (simp add: conn_inv_def kcp_inv_def snd_inv_same rcv_inv_same rto_inv_same)
  then show ?thesis using assms by (simp add: conn_inv_def mtu_ok_def sendable_def)
qed

lemma probe_timer_frame:
  "same_snd k (flush_probe_timer k) \<and> same_rcv k (flush_probe_timer k) \<and> same_ack k (flush_probe_timer k) \<and>
   same_rto k (flush_probe_timer k) \<and> k_rmt_wnd (flush_probe_timer k) = k_rmt_wnd k \<and>
   k_conv (flush_probe_timer k) = k_conv k \<and> k_current (flush_probe_timer k) = k_current k"
  by (simp add: flush_probe_timer_def Let_def same_defs)

lemma congestion_frame:
  "same_snd k (flush_congestion c l w k) \<and> same_rcv k (flush_congestion c l w k) \<and>
   same_ack k (flush_congestion c l w k) \<and> same_rto k (flush_congestion c l w k) \<and>
   k_rmt_wnd (flush_congestion c l w k) = k_rmt_wnd k \<and> k_conv (flush_congestion c l w k) = k_conv k"
  by (simp add: flush_congestion_def Let_def same_defs)

lemma congestion_min: "k_cwnd (flush_congestion c l w k) \<noteq> 0"
  by (simp add: flush_congestion_def Let_def)

lemma refreshed_buf:
  assumes "conn_inv k" "counted k k'"
  shows "conn_inv (k'\<lparr>k_snd_buf := map (refreshed k wnd) (k_snd_buf k)\<rparr>)"
proof -
  obtain x st where k': "k' = k\<lparr>k_xmit := x, k_state := st\<rparr>" using assms(2) by (auto simp: counted_def)
  let ?q = "map (refreshed k wnd) (k_snd_buf k)"
  have i: "conn_inv k'" using assms(1) conn_inv_same [of k k'] by (simp add: k' same_defs)
  have s: "sendable (k'\<lparr>k_snd_buf := ?q\<rparr>) = sendable k" "mtu_ok (k'\<lparr>k_snd_buf := ?q\<rparr>) = mtu_ok k"
    by (simp_all add: k' sendable_def mtu_ok_def fun_eq_iff)
  have "snd_inv (k'\<lparr>k_snd_buf := ?q\<rparr>)"
    using snd_inv_sns [of ?q k'] i by (simp add: k' conn_inv_def kcp_inv_def comp_def)
  moreover have "same_rcv k' (k'\<lparr>k_snd_buf := ?q\<rparr>)" "same_ack k' (k'\<lparr>k_snd_buf := ?q\<rparr>)" "same_rto k' (k'\<lparr>k_snd_buf := ?q\<rparr>)"
    by (simp_all add: same_defs)
  ultimately have "kcp_inv (k'\<lparr>k_snd_buf := ?q\<rparr>)"
    using i by (simp add: conn_inv_def kcp_inv_def rcv_inv_same ack_inv_same rto_inv_same)
  then show ?thesis
    using assms(1) sendable_refreshed [of k] by (auto simp: conn_inv_def s) (simp_all add: k')
qed

lemma flush_cwnd_small: "unat (k_rmt_wnd kcp) < 65536 \<Longrightarrow> unat (flush_cwnd kcp) < 65536"
  by (auto simp: flush_cwnd_def imin32_def Let_def word_le_nat_alt)

text \<open>The acknowledgements a flush owes, and the datagrams it produces.\<close>

definition pending_acks :: "ikcpcb \<Rightarrow> ikcpseg list" where
  "pending_acks kcp = map (\<lambda>(sn, ts). (flush_seg kcp)\<lparr>seg_sn := sn, seg_ts := ts\<rparr>)
     (take (unat (k_ackcount kcp)) (k_acklist kcp))"

text \<open>The window probes a flush owes: the template segment, last used for an acknowledgement,
  asks for the peer's window when the probe timer of a closed window ran out, and tells the own
  window when the peer asked for it.\<close>

definition owed_probes :: "ikcpcb \<Rightarrow> ikcpseg list" where
  "owed_probes kcp =
     (let seg = last (flush_seg kcp # pending_acks kcp); probe = k_probe (flush_probe_timer kcp)
      in (if probe AND IKCP_ASK_SEND \<noteq> 0 then [seg\<lparr>seg_cmd := IKCP_CMD_WASK\<rparr>] else []) @
         (if probe AND IKCP_ASK_TELL \<noteq> 0 then [seg\<lparr>seg_cmd := IKCP_CMD_WINS\<rparr>] else []))"

text \<open>The control block after the probe timer and the move into the window.\<close>

definition flush_window :: "ikcpcb \<Rightarrow> ikcpcb" where
  "flush_window kcp = flush_move (flush_cwnd kcp) (seg_wnd (flush_seg kcp)) (k_current kcp)
     ((flush_probe_timer (kcp\<lparr>k_ackcount := 0\<rparr>))\<lparr>k_probe := 0\<rparr>)"

lemma ikcp_flush_spec:
  assumes inv: "conn_inv kcp" and up: "k_updated kcp \<noteq> 0" and small: "unat (k_ackcount kcp) < 2147483648"
  shows "\<exists>outs k'. ikcp_flush kcp = Some (outs, k') \<and> conn_inv k' \<and> k_ackcount k' = 0 \<and>
     k_conv k' = k_conv kcp \<and> k_cwnd k' \<noteq> 0 \<and> k_snd_una k' = k_snd_una kcp \<and>
     (\<forall>d \<in> set outs. d \<noteq> [] \<and> datagram (k_conv kcp) (unat (k_mtu kcp)) d) \<and>
     off (k_snd_una kcp) (k_snd_nxt k') \<le> max (off (k_snd_una kcp) (k_snd_nxt kcp)) (unat (flush_cwnd kcp)) \<and>
     map seg_data (k_snd_buf k' @ k_snd_queue k') = map seg_data (k_snd_buf kcp @ k_snd_queue kcp) \<and>
     k_snd_buf k' = map (refreshed (flush_window kcp) (seg_wnd (flush_seg kcp))) (k_snd_buf (flush_window kcp)) \<and>
     k_snd_queue k' = k_snd_queue (flush_window kcp) \<and>
     concat outs = concat (map wire (pending_acks kcp @ owed_probes kcp @
        map (refreshed (flush_window kcp) (seg_wnd (flush_seg kcp))) (filter (due (flush_window kcp)) (k_snd_buf (flush_window kcp)))))"
proof -
  let ?n = "unat (k_ackcount kcp)" and ?w = "seg_wnd (flush_seg kcp)"
  have mtu: "mtu_ok kcp" and al: "0 + ?n \<le> length (k_acklist kcp)"
    using inv by (simp_all add: conn_inv_def kcp_inv_def ack_inv_def)
  have n: "nat (sint (k_ackcount kcp)) = ?n" using small by (simp add: sint_u32)
  obtain seg1 ob1 where 1: "flush_acks kcp ?n 0 (flush_seg kcp) ([], []) = Some (seg1, ob1)" "good_ob kcp ob1"
      "bare (k_conv kcp) seg1" "seg_wnd seg1 = ?w" "stream_of ob1 = concat (map wire (pending_acks kcp))"
      "seg1 = last (flush_seg kcp # pending_acks kcp)"
    using flush_acks_ok [OF mtu good_ob_init bare_flush_seg al]
    by (auto simp: pending_acks_def stream_of_def comp_def split_def)
  define k1 where "k1 = flush_probe_timer (kcp\<lparr>k_ackcount := 0\<rparr>)"
  have f1: "conn_inv k1" "k_conv k1 = k_conv kcp" "k_mtu k1 = k_mtu kcp" "k_rmt_wnd k1 = k_rmt_wnd kcp"
      "k_current k1 = k_current kcp" "k_ackcount k1 = 0" "same_snd kcp k1"
    using probe_timer_frame [of "kcp\<lparr>k_ackcount := 0\<rparr>"] clear_acks [OF inv]
      conn_inv_same [of "kcp\<lparr>k_ackcount := 0\<rparr>" k1]
    by (simp_all add: k1_def) (simp_all add: same_defs)
  have m1: "mtu_ok k1" and g1: "good_ob k1 = good_ob kcp"
    using f1 by (auto simp: conn_inv_def good_ob_def fun_eq_iff)
  have c: "IKCP_CMD_WASK \<in> {81, 82, 83, 84}" "IKCP_CMD_WINS \<in> {81, 82, 83, 84}" by (simp_all add: kcp_consts)
  let ?p2 = "if k_probe k1 AND IKCP_ASK_SEND \<noteq> 0 then [seg1\<lparr>seg_cmd := IKCP_CMD_WASK\<rparr>] else []"
  let ?p3 = "if k_probe k1 AND IKCP_ASK_TELL \<noteq> 0 then [seg1\<lparr>seg_cmd := IKCP_CMD_WINS\<rparr>] else []"
  obtain seg2 ob2 where 2: "flush_probe k1 IKCP_ASK_SEND IKCP_CMD_WASK (seg1, ob1) = Some (seg2, ob2)"
      "good_ob k1 ob2" "bare (k_conv k1) seg2" "seg_wnd seg2 = ?w"
      "stream_of ob2 = stream_of ob1 @ concat (map wire ?p2)"
      "seg2\<lparr>seg_cmd := IKCP_CMD_WINS\<rparr> = seg1\<lparr>seg_cmd := IKCP_CMD_WINS\<rparr>"
    using flush_probe_ok [OF m1, of ob1 seg1 IKCP_CMD_WASK IKCP_ASK_SEND] 1(2,3,4) c(1) unfolding f1(2) g1 by auto
  obtain seg3 ob3 where 3: "flush_probe k1 IKCP_ASK_TELL IKCP_CMD_WINS (seg2, ob2) = Some (seg3, ob3)"
      "good_ob k1 ob3" "bare (k_conv k1) seg3" "seg_wnd seg3 = ?w"
      "stream_of ob3 = stream_of ob2 @ concat (map wire ?p3)"
    using flush_probe_ok [OF m1 2(2,3) c(2), of IKCP_ASK_TELL] 2(4,6) by auto
  have pt: "k_probe k1 = k_probe (flush_probe_timer kcp)"
    by (simp add: k1_def flush_probe_timer_def Let_def)
  have probes: "?p2 @ ?p3 = owed_probes kcp"
    unfolding owed_probes_def Let_def pt [symmetric] 1(6) [symmetric] ..
  define k2 where "k2 = k1\<lparr>k_probe := 0\<rparr>"
  have i2: "conn_inv k2" using f1(1) conn_inv_same [of k1 k2] by (simp add: k2_def same_defs)
  have cw: "flush_cwnd k2 = flush_cwnd kcp"
    by (simp add: k2_def k1_def flush_probe_timer_def flush_cwnd_def Let_def)
  have small_cw: "unat (flush_cwnd kcp) < 65536" using inv flush_cwnd_small by (simp add: conn_inv_def)
  define k3 where "k3 = flush_move (flush_cwnd kcp) ?w (k_current kcp) k2"
  have 4: "conn_inv k3" "same_conn k2 k3"
      "map seg_data (k_snd_buf k3 @ k_snd_queue k3) = map seg_data (k_snd_buf k2 @ k_snd_queue k2)"
      "off (k_snd_una k2) (k_snd_nxt k3) \<le> max (off (k_snd_una k2) (k_snd_nxt k2)) (unat (flush_cwnd kcp))"
    using flush_move_spec [OF i2 small_cw, of ?w "k_current kcp"] unfolding k3_def by blast+
  have m3: "mtu_ok k3" "\<forall>s \<in> set (k_snd_buf k3). sendable k3 s" using 4(1) by (simp_all add: conn_inv_def)
  have g3: "good_ob k3 = good_ob kcp"
    using 4(2) f1(2,3) by (simp add: good_ob_def fun_eq_iff same_conn_def k2_def)
  have o3: "good_ob k3 ob3" using 3(2) g1 g3 by simp
  obtain ch lo k4 ob4 where 5: "flush_segs ?w (k_snd_buf k3) [] 0 False k3 ob3 =
        Some (map (refreshed k3 ?w) (k_snd_buf k3), ch, lo, k4, ob4)" "counted k3 k4" "good_ob k3 ob4"
      "stream_of ob4 = stream_of ob3 @ concat (map (\<lambda>s. wire (refreshed k3 ?w s)) (filter (due k3) (k_snd_buf k3)))"
    using flush_segs_ok [OF m3 o3, of ?w "[]" 0 False] by auto
  let ?k5 = "k4\<lparr>k_snd_buf := map (refreshed k3 ?w) (k_snd_buf k3)\<rparr>"
  let ?k6 = "flush_congestion ch lo (flush_cwnd kcp) ?k5"
  have run: "ikcp_flush kcp = Some (snd (flush_output ob4), ?k6)"
    using up 1(1) 2(1) 3(1) 3(4) 5(1)
    by (simp add: ikcp_flush_def n Let_def k1_def [symmetric] k2_def [symmetric] cw k3_def [symmetric])
  have i5: "conn_inv ?k5" by (rule refreshed_buf [OF 4(1) 5(2)])
  note f6 = congestion_frame [of ?k5 ch lo "flush_cwnd kcp"]
  have i6: "conn_inv ?k6" using i5 f6 conn_inv_same [of ?k5 ?k6] by blast
  have sel: "k_ackcount ?k6 = 0" "k_conv ?k6 = k_conv kcp" "k_snd_una ?k6 = k_snd_una kcp"
      "k_snd_nxt ?k6 = k_snd_nxt k3" "k_snd_queue ?k6 = k_snd_queue k3"
      "k_snd_buf ?k6 = map (refreshed k3 ?w) (k_snd_buf k3)"
    using f6 4(2) 5(2) f1(2,6,7) by (auto simp: same_defs same_conn_def k2_def counted_def)
  have k2s: "k_snd_una k2 = k_snd_una kcp" "k_snd_nxt k2 = k_snd_nxt kcp" "k_snd_buf k2 = k_snd_buf kcp"
      "k_snd_queue k2 = k_snd_queue kcp"
    using f1(7) by (simp_all add: same_snd_def k2_def)
  have out: "concat (snd (flush_output ob4)) = stream_of ob4"
    by (simp add: flush_output_def stream_of_def)
  have dg: "\<forall>d \<in> set (snd (flush_output ob4)). d \<noteq> [] \<and> datagram (k_conv kcp) (unat (k_mtu kcp)) d"
    using good_output [OF 5(3)] by (simp add: g3 good_ob_def)
  have str: "concat (snd (flush_output ob4)) = concat (map wire (pending_acks kcp @ (?p2 @ ?p3) @
        map (refreshed k3 ?w) (filter (due k3) (k_snd_buf k3))))"
    unfolding out 5(4) 3(5) 2(5) 1(5) by (simp only: map_append concat_append map_map comp_def append_assoc)
  have bd: "map seg_data (k_snd_buf ?k6 @ k_snd_queue ?k6) = map seg_data (k_snd_buf kcp @ k_snd_queue kcp)"
    using 4(3) by (simp add: sel k2s comp_def)
  show ?thesis
    using run i6 sel congestion_min dg str bd 4(4) unfolding k2s probes
    by (intro exI [of _ "snd (flush_output ob4)"] exI [of _ ?k6])
       (simp add: flush_window_def k3_def k2_def k1_def del: map_append)
qed

end
