(* ===== verification/Kcp_Conn.thy ===== *)
theory Kcp_Conn
  imports Kcp_Spec
begin

text \<open>
  The interface of a connection as a step relation, one rule per function of \<open>ikcp.h\<close> that
  changes the control block, and the invariant \<open>conn_inv\<close> of every reachable state; with it the
  theorems on flush, update and check.
\<close>

section \<open>What the input leaves alone on the sending side\<close>

definition seg_key :: "ikcpseg \<Rightarrow> u32 \<times> u32 \<times> u32 \<times> bytes" where
  "seg_key s = (seg_conv s, seg_cmd s, seg_len s, seg_data s)"

definition tx_frame :: "ikcpcb \<Rightarrow> ikcpcb \<Rightarrow> bool" where
  "tx_frame k k' \<longleftrightarrow> k_snd_queue k' = k_snd_queue k \<and> k_mtu k' = k_mtu k \<and> k_mss k' = k_mss k \<and>
     k_bufsize k' = k_bufsize k \<and> k_conv k' = k_conv k \<and>
     (unat (k_rmt_wnd k) < 65536 \<longrightarrow> unat (k_rmt_wnd k') < 65536) \<and>
     seg_key ` set (k_snd_buf k') \<subseteq> seg_key ` set (k_snd_buf k)"

lemma tx_frame_refl: "tx_frame k k"
  by (simp add: tx_frame_def)

lemma tx_frame_trans: "tx_frame a b \<Longrightarrow> tx_frame b c \<Longrightarrow> tx_frame a c"
  unfolding tx_frame_def by (elim conjE) (intro conjI; (erule subset_trans)?; simp)

lemma tx_frame_conn:
  assumes "conn_inv k" "kcp_inv k'" "tx_frame k k'"
  shows "conn_inv k'"
proof -
  have e: "k_mss k' = k_mss k" "k_mtu k' = k_mtu k" "k_bufsize k' = k_bufsize k" "k_conv k' = k_conv k"
    "k_snd_queue k' = k_snd_queue k" "unat (k_rmt_wnd k') < 65536"
    using assms by (simp_all add: tx_frame_def conn_inv_def)
  have "sendable k' s" if "s \<in> set (k_snd_buf k')" for s
  proof -
    from that assms(3) obtain t where t: "t \<in> set (k_snd_buf k)" "seg_key s = seg_key t"
      by (auto simp: tx_frame_def)
    then have "sendable k t" using assms(1) by (simp add: conn_inv_def)
    then show ?thesis using t(2) e by (simp add: sendable_def seg_ok_def seg_key_def)
  qed
  then show ?thesis using assms(1,2) e by (simp add: conn_inv_def mtu_ok_def)
qed

lemma una_scan_subset: "set (fst (una_scan una q n)) \<subseteq> set q"
  using una_scan_drop [of q una n] by (auto dest: in_set_dropD)

lemma ack_scan_subset: "set (fst (ack_scan sn q)) \<subseteq> set q"
  using ack_scan_keep [of sn q] subseq_set by (cases "ack_scan sn q") fastforce

lemma fastack_scan_keys: "seg_key ` set (fastack_scan sn q) = seg_key ` set q"
  by (induction q) (auto simp: seg_key_def)

lemma tx_frame_una: "tx_frame k (ikcp_parse_una k una)"
  using una_scan_subset [of una "k_snd_buf k" "k_nsnd_buf k"]
  by (auto simp: tx_frame_def ikcp_parse_una_def split: prod.split)

lemma tx_frame_ack: "tx_frame k (ikcp_parse_ack k sn)"
  using ack_scan_subset [of sn "k_snd_buf k"]
  by (auto simp: tx_frame_def ikcp_parse_ack_def split: prod.split)

lemma tx_frame_shrink: "tx_frame k (ikcp_shrink_buf k)"
  by (simp add: tx_frame_def ikcp_shrink_buf_def split: list.split)

lemma tx_frame_fastack: "tx_frame k (ikcp_parse_fastack k sn ts)"
  by (simp add: tx_frame_def ikcp_parse_fastack_def fastack_scan_keys)

lemma tx_frame_update_ack: "tx_frame k (ikcp_update_ack k rtt)"
  by (simp add: tx_frame_def ikcp_update_ack_def Let_def)

lemma tx_frame_push: "ikcp_ack_push k sn ts = Some k' \<Longrightarrow> tx_frame k k'"
  by (auto simp: tx_frame_def ikcp_ack_push_def Let_def split: option.splits)

lemma tx_frame_same:
  assumes "same_snd k k'" "same_rto k k'" "k_conv k' = k_conv k" "k_rmt_wnd k' = k_rmt_wnd k"
  shows "tx_frame k k'"
  using assms by (simp add: tx_frame_def same_defs)

lemma parse_data_rmt: "k_rmt_wnd (ikcp_parse_data k x) = k_rmt_wnd k"
proof -
  let ?c = "case rcv_scan x (rev (k_rcv_buf k)) of None \<Rightarrow> k
            | Some b \<Rightarrow> k\<lparr>k_rcv_buf := rev b, k_nrcv_buf := k_nrcv_buf k + 1\<rparr>"
  obtain n where "rcv_move ?c = moved ?c n" using rcv_move_spec [of ?c] by blast
  then show ?thesis by (auto simp: ikcp_parse_data_def Let_def moved_def split: option.splits)
qed

lemma tx_frame_parse_data: "tx_frame k (ikcp_parse_data k x)"
  using parse_data_frame [of k x] by (intro tx_frame_same) (auto simp: parse_data_conv parse_data_rmt)

lemma tx_frame_input_push:
  assumes "input_push raw h dat k = Some k'"
  shows "tx_frame k k'"
proof (cases "itimediff (h_sn h) (k_rcv_nxt k + k_rcv_wnd k) < 0")
  case True
  then obtain k1 where k1: "ikcp_ack_push k (h_sn h) (h_ts h) = Some k1"
      "k' = (if itimediff (h_sn h) (k_rcv_nxt k1) \<ge> 0 then ikcp_parse_data k1 (push_seg raw h dat) else k1)"
    using assms by (cases "ikcp_ack_push k (h_sn h) (h_ts h)") (auto simp: input_push_def split: if_splits)
  show ?thesis
    unfolding k1(2) using tx_frame_trans [OF tx_frame_push [OF k1(1)] tx_frame_parse_data] tx_frame_push [OF k1(1)]
    by simp
qed (use assms tx_frame_refl in \<open>simp add: input_push_def\<close>)

lemma tx_frame_input_ack: "tx_frame (fst st) (fst (input_ack h st))"
proof -
  obtain k f m t where st: "st = (k, f, m, t)" by (cases st) auto
  let ?k = "if itimediff (k_current k) (h_ts h) \<ge> 0
            then ikcp_update_ack k (itimediff (k_current k) (h_ts h)) else k"
  have "tx_frame k ?k" using tx_frame_update_ack tx_frame_refl by simp
  from tx_frame_trans [OF tx_frame_trans [OF this tx_frame_ack] tx_frame_shrink]
  show ?thesis by (simp add: input_ack_def Let_def st)
qed

lemma unat_ucast_u16: "unat (ucast (w :: u16) :: u32) < 65536"
proof -
  have "unat w < 65536" using unsigned_less [of w, where 'a = nat] by simp
  then have "take_bit 32 (unat w) < 65536" by (rule order.strict_trans1 [OF take_bit_nat_less_eq_self])
  then show ?thesis by (simp add: unsigned_ucast_eq)
qed

lemma tx_frame_input_seg:
  assumes "input_seg raw h dat st = Some st'"
  shows "tx_frame (fst st) (fst st')"
proof -
  obtain k f m t where st: "st = (k, f, m, t)" by (cases st) auto
  let ?kw = "k\<lparr>k_rmt_wnd := ucast (h_wnd h)\<rparr>"
  let ?k = "ikcp_shrink_buf (ikcp_parse_una ?kw (h_una h))"
  have "unat (ucast (h_wnd h) :: u32) < 65536" by (rule unat_ucast_u16)
  then have "tx_frame k ?kw" by (simp add: tx_frame_def)
  then have b: "tx_frame k ?k" using tx_frame_trans tx_frame_una tx_frame_shrink by blast
  have p: "tx_frame ?k (?k\<lparr>k_probe := x\<rparr>)" for x by (rule tx_frame_same) (simp_all add: same_defs)
  have a: "tx_frame ?k (fst (input_ack h (?k, f, m, t)))"
    using tx_frame_input_ack [of "(?k, f, m, t)" h] by simp
  let ?c = "ucast (h_cmd h) :: u32"
  have e: "input_seg raw h dat st =
      (if ?c = IKCP_CMD_ACK then Some (input_ack h (?k, f, m, t))
       else if ?c = IKCP_CMD_PUSH then Option.bind (input_push raw h dat ?k) (\<lambda>k1. Some (k1, f, m, t))
       else if ?c = IKCP_CMD_WASK then Some (?k\<lparr>k_probe := k_probe ?k OR IKCP_ASK_TELL\<rparr>, f, m, t)
       else Some (?k, f, m, t))"
    by (simp only: input_seg_def Let_def st prod.case)
  have "tx_frame ?k (fst st')"
  proof (cases "?c = IKCP_CMD_PUSH \<and> ?c \<noteq> IKCP_CMD_ACK")
    case True
    then obtain k1 where "input_push raw h dat ?k = Some k1" "st' = (k1, f, m, t)"
      using assms e by (cases "input_push raw h dat ?k") auto
    then show ?thesis using tx_frame_input_push by simp
  next
    case False
    show ?thesis
    proof (cases "?c = IKCP_CMD_ACK")
      case True
      then have "st' = input_ack h (?k, f, m, t)" using assms e by simp
      then show ?thesis using a by simp
    next
      case no: False
      show ?thesis
      proof (cases "?c = IKCP_CMD_WASK")
        case True
        then have "st' = (?k\<lparr>k_probe := k_probe ?k OR IKCP_ASK_TELL\<rparr>, f, m, t)" using assms e no False by simp
        then show ?thesis using p by simp
      next
        case last: False
        then have "st' = (?k, f, m, t)" using assms e no False by simp
        then show ?thesis using tx_frame_refl by simp
      qed
    qed
  qed
  then show ?thesis using tx_frame_trans [OF b] by (simp add: st)
qed

lemma tx_frame_loop: "ikcp_input_loop raw st bs = Some (c, st') \<Longrightarrow> tx_frame (fst st) (fst st')"
proof (induction "length bs" arbitrary: st bs rule: less_induct)
  case less
  show ?case
  proof (cases "length bs < 24")
    case True
    then show ?thesis using less.prems input_loop_short [OF True] tx_frame_refl by simp
  next
    case False
    then obtain h p where h: "decode_header bs = Some (h, p)" using decode_header_total [of bs] by auto
    show ?thesis
    proof (cases "seg_accepted (k_conv (fst st)) h p")
      case False
      then show ?thesis using less.prems input_loop_reject [OF h False, of raw] tx_frame_refl by auto
    next
      case True
      then obtain st1 where s1: "input_seg raw h (take (unat (h_len h)) p) st = Some st1"
          "ikcp_input_loop raw st1 (drop (unat (h_len h)) p) = Some (c, st')"
        using less.prems input_loop_accept [OF h True] by (auto simp: bind_eq_Some_conv)
      have "length (drop (unat (h_len h)) p) < length bs" using decode_header_length [OF h] by simp
      from less.hyps [OF this s1(2)] show ?thesis
        using tx_frame_trans [OF tx_frame_input_seg [OF s1(1)]] by blast
    qed
  qed
qed

lemma tx_frame_cwnd: "tx_frame k (input_cwnd k)"
  using input_cwnd_frame [of k] by (intro tx_frame_same) auto

lemma tx_frame_input:
  assumes "ikcp_input raw k data = Some (r, k')"
  shows "tx_frame k k'"
proof (cases "\<exists>bs. data = Some bs \<and> \<not> i32 (int (length bs)) < sint IKCP_OVERHEAD")
  case False
  then show ?thesis using assms tx_frame_refl by (auto simp: ikcp_input_def split: option.splits if_splits)
next
  case True
  then obtain bs code k1 f m t where b: "data = Some bs" "\<not> i32 (int (length bs)) < sint IKCP_OVERHEAD"
      "ikcp_input_loop raw (k, False, 0, 0) bs = Some (code, k1, f, m, t)"
    using assms by (auto simp: ikcp_input_def split: option.splits)
  let ?k2 = "if f then ikcp_parse_fastack k1 m t else k1"
  have 1: "tx_frame k k1" using tx_frame_loop [OF b(3)] by simp
  have "tx_frame k1 ?k2" using tx_frame_fastack tx_frame_refl by simp
  then have 2: "tx_frame k ?k2" "tx_frame k (input_cwnd ?k2)"
    using tx_frame_trans [OF 1] tx_frame_trans [OF _ tx_frame_cwnd] by blast+
  have "k' \<in> {k1, ?k2, input_cwnd ?k2}"
    using assms b by (auto simp: ikcp_input_def Let_def split: if_splits)
  then show ?thesis using 1 2 by auto
qed


section \<open>Sending\<close>

text \<open>Whatever the allocator does, a send with a real buffer keeps the segments of the queue
  consistent and counted.\<close>

definition queue_ok :: "ikcpcb \<Rightarrow> bool" where
  "queue_ok kcp \<longleftrightarrow> (\<forall>s \<in> set (k_snd_queue kcp). seg_ok (k_mss kcp) s) \<and>
     k_nsnd_que kcp = of_nat (length (k_snd_queue kcp)) \<and> 0 < sint (k_mss kcp)"

definition only_queue :: "ikcpcb \<Rightarrow> ikcpcb \<Rightarrow> bool" where
  "only_queue k k' \<longleftrightarrow> (\<exists>q n. k' = k\<lparr>k_snd_queue := q, k_nsnd_que := n\<rparr>)"

lemma only_queue_refl: "only_queue k k"
  unfolding only_queue_def by (intro exI [of _ "k_snd_queue k"] exI [of _ "k_nsnd_que k"]) simp

lemma only_queue_trans: "only_queue a b \<Longrightarrow> only_queue b c \<Longrightarrow> only_queue a c"
proof -
  assume "only_queue a b" "only_queue b c"
  then obtain q n r m where "b = a\<lparr>k_snd_queue := q, k_nsnd_que := n\<rparr>" "c = b\<lparr>k_snd_queue := r, k_nsnd_que := m\<rparr>"
    unfolding only_queue_def by blast
  then have "c = a\<lparr>k_snd_queue := r, k_nsnd_que := m\<rparr>" by simp
  then show ?thesis unfolding only_queue_def by blast
qed

lemma sint_pos_u32: "0 < sint (w :: u32) \<Longrightarrow> sint w = int (unat w) \<and> unat w < 2147483648"
  using unat_u32_lt [of w] by (auto simp: sint_u32 split: if_splits)

lemma send_loop_keeps:
  assumes "queue_ok kcp" "length bs < 2147483648"
    and "ikcp_send_loop mal base cnt i (Some bs) (int (length bs)) kcp = (r, kcp')"
  shows "queue_ok kcp' \<and> only_queue kcp kcp'"
  using assms
proof (induction "nat (cnt - i)" arbitrary: i bs kcp rule: less_induct)
  case less
  show ?case
  proof (cases "i < cnt")
    case False
    then show ?thesis using less.prems by (subst (asm) ikcp_send_loop.simps) (simp add: only_queue_refl)
  next
    case True
    show ?thesis
    proof (cases "mal (base + nat i)")
      case None
      then show ?thesis using less.prems True
        by (subst (asm) ikcp_send_loop.simps) (simp add: only_queue_refl Let_def)
    next
      case (Some raw)
      let ?n = "min (length bs) (unat (k_mss kcp))"
      let ?size = "if int (length bs) > sint (k_mss kcp) then sint (k_mss kcp) else int (length bs)"
      have m: "sint (k_mss kcp) = int (unat (k_mss kcp))" "unat (k_mss kcp) < 2147483648"
        using less.prems(1) sint_pos_u32 by (auto simp: queue_ok_def)
      have size: "?size = int ?n" using m by auto
      define seg where "seg = raw\<lparr>seg_data := take ?n bs, seg_len := word_of_int (int ?n),
          seg_frg := word_of_int (if k_stream kcp = 0 then cnt - i - 1 else 0)\<rparr>"
      let ?k = "kcp\<lparr>k_snd_queue := k_snd_queue kcp @ [seg], k_nsnd_que := k_nsnd_que kcp + 1\<rparr>"
      have "ikcp_send_loop mal base cnt i (Some bs) (int (length bs)) kcp =
          ikcp_send_loop mal base cnt (i + 1) (Some (drop ?n bs)) (int (length (drop ?n bs))) ?k"
        using True Some
        by (subst ikcp_send_loop.simps) (simp add: Let_def size seg_def of_nat_diff del: of_nat_min)
      then have step: "ikcp_send_loop mal base cnt (i + 1) (Some (drop ?n bs)) (int (length (drop ?n bs))) ?k = (r, kcp')"
        using less.prems(3) by simp
      have "seg_ok (k_mss kcp) seg"
        using less.prems(2) by (simp add: seg_ok_def seg_def unat_of_nat min_def)
      then have q: "queue_ok ?k" using less.prems(1) by (auto simp: queue_ok_def)
      have "only_queue kcp ?k" unfolding only_queue_def by blast
      moreover have "queue_ok kcp' \<and> only_queue ?k kcp'"
        using less.hyps [OF _ q _ step] True less.prems(2) by simp
      ultimately show ?thesis using only_queue_trans by blast
    qed
  qed
qed

lemma send_fragments_keeps:
  assumes "queue_ok kcp" "length bs < 2147483648"
    and "ikcp_send_fragments mal base (Some bs) (int (length bs)) kcp = (r, kcp')"
  shows "queue_ok kcp' \<and> only_queue kcp kcp'"
  using assms send_loop_keeps [OF assms(1,2)] only_queue_refl
  by (auto simp: ikcp_send_fragments_def Let_def split: if_splits)

lemma send_extend_keeps:
  assumes ok: "queue_ok kcp" and len: "length bs < 2147483648"
    and ext: "ikcp_send_extend mal (Some bs) (int (length bs)) kcp = Some (kcp', e, n)"
  shows "queue_ok kcp' \<and> only_queue kcp kcp' \<and> 0 \<le> e \<and> e \<le> int (length bs)"
proof (cases "k_snd_queue kcp = [] \<or> \<not> seg_len (last (k_snd_queue kcp)) < k_mss kcp")
  case True
  then show ?thesis using assms only_queue_refl by (auto simp: ikcp_send_extend_def Let_def split: if_splits)
next
  case False
  obtain raw where raw: "mal 0 = Some raw"
    using ext False by (auto simp: ikcp_send_extend_def Let_def split: option.splits)
  have s: "\<forall>s \<in> set (k_snd_queue kcp). seg_ok (k_mss kcp) s" using ok by (simp add: queue_ok_def)
  obtain k1 n1 m where e: "ikcp_send_extend (\<lambda>_. Some raw) (Some bs) (int (length bs)) kcp = Some (k1, int n1, m)"
      "n1 \<le> length bs" "k_mss k1 = k_mss kcp" "k_nsnd_que k1 = k_nsnd_que kcp"
      "length (k_snd_queue k1) = length (k_snd_queue kcp)" "\<forall>s \<in> set (k_snd_queue k1). seg_ok (k_mss kcp) s"
    using ikcp_send_extend_spec [of "\<lambda>_. Some raw" kcp bs] ok len s by (auto simp: queue_ok_def)
  have "ikcp_send_extend mal (Some bs) (int (length bs)) kcp = ikcp_send_extend (\<lambda>_. Some raw) (Some bs) (int (length bs)) kcp"
    using raw by (simp add: ikcp_send_extend_def Let_def)
  then have r: "kcp' = k1" "e = int n1" using ext e(1) by auto
  have "only_queue kcp kcp'"
  proof -
    obtain q where q: "kcp' = kcp\<lparr>k_snd_queue := q\<rparr>"
      using ext False by (auto simp: ikcp_send_extend_def Let_def split: option.splits)
    show ?thesis unfolding only_queue_def by (intro exI [of _ q] exI [of _ "k_nsnd_que kcp"]) (simp add: q)
  qed
  then show ?thesis using e ok by (simp add: r queue_ok_def)
qed

lemma ikcp_send_keeps:
  assumes ok: "queue_ok kcp" and len: "length bs < 2147483648"
  shows "queue_ok (snd (ikcp_send mal kcp (Some bs) (int (length bs)))) \<and>
     only_queue kcp (snd (ikcp_send mal kcp (Some bs) (int (length bs))))"
proof (cases "k_stream kcp = 0")
  case True
  obtain r k where f: "ikcp_send_fragments mal 0 (Some bs) (int (length bs)) kcp = (r, k)" by fastforce
  then show ?thesis using send_fragments_keeps [OF ok len f] True by (simp add: ikcp_send_def)
next
  case False
  show ?thesis
  proof (cases "ikcp_send_extend mal (Some bs) (int (length bs)) kcp")
    case None
    then show ?thesis using False ok by (simp add: ikcp_send_def only_queue_refl)
  next
    case (Some t)
    then obtain k1 e n where t: "ikcp_send_extend mal (Some bs) (int (length bs)) kcp = Some (k1, e, n)"
      by (cases t) auto
    note x = send_extend_keeps [OF ok len t]
    define d where "d = drop (nat e) bs"
    have ld: "int (length bs) - e = int (length d)" "length d < 2147483648" using x len by (auto simp: d_def of_nat_diff)
    obtain r k where f: "ikcp_send_fragments mal n (Some d) (int (length d)) k1 = (r, k)" by fastforce
    have "queue_ok k \<and> only_queue k1 k" using send_fragments_keeps [OF _ ld(2) f] x by blast
    then have "queue_ok k \<and> only_queue kcp k" using x only_queue_trans by blast
    then show ?thesis using False t f x by (simp add: ikcp_send_def ld(1) d_def [symmetric])
  qed
qed


section \<open>The other operations\<close>

lemma send_conn:
  assumes inv: "conn_inv kcp" and len: "length bs < 2147483648"
  shows "conn_inv (snd (ikcp_send mal kcp (Some bs) (int (length bs))))"
proof -
  let ?k = "snd (ikcp_send mal kcp (Some bs) (int (length bs)))"
  have "mtu_ok kcp" using inv by (simp add: conn_inv_def)
  then have "0 < sint (k_mss kcp)" by (auto simp: mtu_ok_def sint_u32)
  then have "queue_ok kcp"
    using inv by (simp add: queue_ok_def conn_inv_def kcp_inv_def snd_inv_def snd_inv0_def)
  from ikcp_send_keeps [OF this len, of mal] obtain q n where
    k: "queue_ok ?k" "?k = kcp\<lparr>k_snd_queue := q, k_nsnd_que := n\<rparr>" by (auto simp: only_queue_def)
  have "same_rcv kcp ?k" "same_ack kcp ?k" "same_rto kcp ?k" unfolding k(2) by (simp_all add: same_defs)
  moreover have "snd_inv ?k"
  proof -
    have "snd_tight ?k = snd_tight kcp" unfolding k(2) by (simp add: snd_tight_def cong: list.case_cong)
    moreover have "snd_inv kcp" using inv by (simp add: conn_inv_def kcp_inv_def)
    ultimately show ?thesis using k(1) unfolding k(2) by (simp add: snd_inv_def snd_inv0_def queue_ok_def)
  qed
  ultimately have "kcp_inv ?k" using inv
    by (simp add: conn_inv_def kcp_inv_def rcv_inv_same ack_inv_same rto_inv_same)
  moreover have "\<forall>s \<in> set (k_snd_queue ?k). seg_ok (k_mss ?k) s" using k(1) by (simp add: queue_ok_def)
  moreover have "mtu_ok ?k = mtu_ok kcp" "sendable ?k = sendable kcp" "k_rmt_wnd ?k = k_rmt_wnd kcp"
    "k_snd_buf ?k = k_snd_buf kcp"
    unfolding k(2) by (simp_all add: mtu_ok_def sendable_def fun_eq_iff)
  ultimately show ?thesis using inv by (simp add: conn_inv_def)
qed

lemma recv_frame:
  fixes kcp buffer len
  defines "k' \<equiv> snd (snd (ikcp_recv kcp buffer len))"
  shows "same_snd kcp k' \<and> same_ack kcp k' \<and> same_rto kcp k' \<and> k_conv k' = k_conv kcp \<and> k_rmt_wnd k' = k_rmt_wnd kcp"
proof (cases "k_rcv_queue kcp = [] \<or> ikcp_peeksize kcp < 0 \<or> \<bar>len\<bar> < ikcp_peeksize kcp")
  case True
  then show ?thesis using ikcp_recv_fail [OF True, of buffer] by (auto simp: k'_def same_defs)
next
  case False
  obtain k out l where k: "recv_merge (k_rcv_queue kcp) [] 0 0 = (out, l, k, drop k (k_rcv_queue kcp))"
    using recv_merge_visits [of "k_rcv_queue kcp" "[]" 0 0] by auto
  obtain p where p: "k' = (rcv_move (if len < 0 then kcp else taken kcp k))\<lparr>k_probe := p\<rparr>"
    using ikcp_recv_ok [OF k refl, of len buffer] False by (auto simp: k'_def)
  obtain n where "rcv_move (if len < 0 then kcp else taken kcp k) = moved (if len < 0 then kcp else taken kcp k) n"
    using rcv_move_spec [of "if len < 0 then kcp else taken kcp k"] by blast
  then show ?thesis unfolding p by (simp add: moved_def taken_def same_defs)
qed

lemma recv_conn:
  assumes "conn_inv kcp"
  shows "conn_inv (snd (snd (ikcp_recv kcp buffer len)))"
proof -
  note f = recv_frame [of kcp buffer len]
  have "kcp_inv (snd (snd (ikcp_recv kcp buffer len)))"
    using assms ikcp_recv_inv [of kcp buffer len] snd_inv_same [of kcp] ack_inv_same [of kcp] rto_inv_same [of kcp] f
    unfolding conn_inv_def kcp_inv_def by blast
  then show ?thesis using tx_frame_conn [OF assms] tx_frame_same f by blast
qed

lemma input_conn:
  assumes "conn_inv kcp" "unat (k_ackcount kcp) + length bs < 2147483648"
    and "ikcp_input raw kcp (Some bs) = Some (r, kcp')"
  shows "conn_inv kcp'"
proof -
  have "kcp_inv kcp'" using ikcp_input_step [of kcp bs raw] assms by (auto simp: conn_inv_def stepped_def)
  then show ?thesis using tx_frame_conn [OF assms(1)] tx_frame_input [OF assms(3)] by blast
qed

lemma clamp_u32:
  "10 \<le> (word_of_int (clamp_interval i) :: u32) \<and> (word_of_int (clamp_interval i) :: u32) \<le> 5000"
  using clamp_interval_bounds [of i] by (simp add: word_le_def uint_word_of_int take_bit_eq_mod)

lemma rto_conn:
  assumes "conn_inv k" "same_snd k k'" "same_rcv k k'" "same_ack k k'" "rto_inv k'" "k_mtu k' = k_mtu k"
    "k_mss k' = k_mss k" "k_bufsize k' = k_bufsize k" "k_conv k' = k_conv k" "k_rmt_wnd k' = k_rmt_wnd k"
  shows "conn_inv k'"
proof -
  have "kcp_inv k'"
    using assms(1-5) by (simp add: conn_inv_def kcp_inv_def snd_inv_same rcv_inv_same ack_inv_same)
  moreover have "tx_frame k k'" using assms by (simp add: tx_frame_def same_snd_def)
  ultimately show ?thesis using tx_frame_conn [OF assms(1)] by blast
qed

lemma interval_conn:
  assumes "conn_inv kcp"
  shows "conn_inv (snd (ikcp_interval kcp i))"
proof -
  have "rto_inv kcp" using assms by (simp only: conn_inv_def kcp_inv_def)
  then have "rto_inv (snd (ikcp_interval kcp i))"
    using clamp_u32 [of i] by (simp add: ikcp_interval_def rto_inv_def)
  then show ?thesis
    by (rule rto_conn [OF assms, rotated 3])
       (simp_all add: ikcp_interval_def same_snd_def same_rcv_def same_ack_def)
qed

lemma nodelay_conn:
  assumes "conn_inv kcp"
  shows "conn_inv (snd (ikcp_nodelay kcp nodelay interval resend nc))"
proof -
  have "rto_inv kcp" using assms by (simp only: conn_inv_def kcp_inv_def)
  then have "rto_inv (snd (ikcp_nodelay kcp nodelay interval resend nc))"
    using clamp_u32 [of interval] by (simp add: ikcp_nodelay_def Let_def rto_inv_def i32_id kcp_consts)
  then show ?thesis
    by (rule rto_conn [OF assms, rotated 3])
       (simp_all add: ikcp_nodelay_def Let_def same_snd_def same_rcv_def same_ack_def)
qed

lemma wndsize_conn:
  assumes "conn_inv kcp" "rcvwnd < 2147483648"
  shows "conn_inv (snd (ikcp_wndsize kcp sndwnd rcvwnd))"
proof -
  let ?k = "snd (ikcp_wndsize kcp sndwnd rcvwnd)"
  have "unat (imax32 (word_of_int rcvwnd) IKCP_WND_RCV) < 2147483648" if "0 < rcvwnd"
  proof -
    have "rcvwnd = int (nat rcvwnd)" "nat rcvwnd < 2147483648" using that assms(2) by simp_all
    then obtain n where n: "rcvwnd = int n" "n < 2147483648" by blast
    then have "unat (word_of_int rcvwnd :: u32) = n" by (simp add: unat_of_nat)
    then show ?thesis using n by (simp add: imax32_def kcp_consts)
  qed
  then have "rcv_inv ?k"
    using assms(1) by (simp add: ikcp_wndsize_def Let_def rcv_inv_def conn_inv_def kcp_inv_def)
  moreover have f: "same_snd kcp ?k" "same_ack kcp ?k" "same_rto kcp ?k" "k_conv ?k = k_conv kcp" "k_rmt_wnd ?k = k_rmt_wnd kcp"
    by (simp_all add: ikcp_wndsize_def Let_def same_defs)
  ultimately have "kcp_inv ?k"
    using assms(1) by (simp add: conn_inv_def kcp_inv_def snd_inv_same ack_inv_same rto_inv_same)
  then show ?thesis using tx_frame_conn [OF assms(1)] tx_frame_same [OF f(1,3-5)] by blast
qed

text \<open>A larger transmission unit is always safe; a smaller one only while nothing is queued.\<close>

lemma setmtu_conn:
  assumes inv: "conn_inv kcp" and mtu: "mtu \<le> 536870912"
    and safe: "int (unat (k_mtu kcp)) \<le> mtu \<or> k_snd_queue kcp = [] \<and> k_snd_buf kcp = []"
  shows "conn_inv (snd (ikcp_setmtu ok kcp mtu))"
proof (cases "mtu < 50 \<or> mtu < uint IKCP_OVERHEAD \<or> \<not> ok")
  case True
  then show ?thesis using inv by (auto simp: ikcp_setmtu_def)
next
  case False
  define m where "m = nat mtu"
  have m: "mtu = int m" "50 \<le> m" "m \<le> 536870912" using False mtu by (auto simp: m_def)
  let ?k = "snd (ikcp_setmtu ok kcp mtu)"
  have e: "?k = kcp\<lparr>k_mtu := of_nat m, k_mss := of_nat m - 24, k_bufsize := (of_nat m + 24) * 3\<rparr>"
    using False by (simp add: ikcp_setmtu_def m(1) kcp_consts)
  have u: "unat (of_nat m :: u32) = m" "unat (of_nat m - 24 :: u32) = m - 24"
    "unat ((of_nat m + 24) * 3 :: u32) = (m + 24) * 3"
  proof -
    show *: "unat (of_nat m :: u32) = m" using m by (simp add: unat_of_nat)
    then show "unat (of_nat m - 24 :: u32) = m - 24" using m by (simp add: unat_sub word_le_nat_alt)
    have "((of_nat m + 24) * 3 :: u32) = of_nat ((m + 24) * 3)" by simp
    then show "unat ((of_nat m + 24) * 3 :: u32) = (m + 24) * 3"
      using m by (simp only: unat_of_nat) simp
  qed
  have "mtu_ok ?k" unfolding e mtu_ok_def using m u by simp
  moreover have "kcp_inv ?k"
  proof -
    have "same_snd kcp ?k" "same_rcv kcp ?k" "same_ack kcp ?k" unfolding e by (simp_all add: same_defs)
    moreover have "rto_inv ?k = rto_inv kcp" unfolding e by (simp add: rto_inv_def)
    ultimately show ?thesis using inv by (simp add: conn_inv_def kcp_inv_def snd_inv_same rcv_inv_same ack_inv_same)
  qed
  moreover have "seg_ok (k_mss kcp) s \<Longrightarrow> seg_ok (k_mss ?k) s" if "int (unat (k_mtu kcp)) \<le> mtu" for s
    using that inv m u unfolding e by (auto simp: seg_ok_def conn_inv_def mtu_ok_def)
  ultimately show ?thesis
    using inv safe unfolding conn_inv_def sendable_def by (auto simp: e)
qed


lemma flush_conn:
  assumes "conn_inv kcp" "unat (k_ackcount kcp) < 2147483648"
  shows "\<exists>outs k'. ikcp_flush kcp = Some (outs, k') \<and> conn_inv k'"
proof (cases "k_updated kcp = 0")
  case True
  then show ?thesis using assms by (simp add: ikcp_flush_def)
next
  case False
  from ikcp_flush_spec [OF assms(1) this assms(2)] show ?thesis by blast
qed

text \<open>\<open>ikcp_update\<close> is a change of the clock fields, followed by a flush when it is time.\<close>

definition update_clock :: "ikcpcb \<Rightarrow> u32 \<Rightarrow> ikcpcb \<times> bool" where
  "update_clock kcp current =
     (let ts = (if k_updated kcp = 0 \<or> \<not> (- 10000 \<le> itimediff current (k_ts_flush kcp) \<and>
                  itimediff current (k_ts_flush kcp) < 10000) then current else k_ts_flush kcp);
          k1 = kcp\<lparr>k_current := current, k_updated := (if k_updated kcp = 0 then 1 else k_updated kcp)\<rparr>
      in if itimediff current ts \<ge> 0
         then (k1\<lparr>k_ts_flush := (if itimediff current (ts + k_interval kcp) \<ge> 0
                                then current + k_interval kcp else ts + k_interval kcp)\<rparr>, True)
         else (k1\<lparr>k_ts_flush := ts\<rparr>, False))"

lemma ikcp_update_clock:
  "ikcp_update kcp current = (case update_clock kcp current of
     (k, fl) \<Rightarrow> if fl then ikcp_flush k else Some ([], k))"
proof (cases "k_updated kcp = 0")
  case True
  then show ?thesis by (simp add: ikcp_update_def update_clock_def Let_def)
next
  case False
  consider "itimediff current (k_ts_flush kcp) < - 10000" | "10000 \<le> itimediff current (k_ts_flush kcp)"
    | "- 10000 \<le> itimediff current (k_ts_flush kcp)" "itimediff current (k_ts_flush kcp) < 10000" by linarith
  then show ?thesis
    by cases (use False in \<open>simp_all add: ikcp_update_def update_clock_def Let_def\<close>)
qed

lemma update_clock_frame:
  "same_snd kcp (fst (update_clock kcp c)) \<and> same_rcv kcp (fst (update_clock kcp c)) \<and>
   same_ack kcp (fst (update_clock kcp c)) \<and> same_rto kcp (fst (update_clock kcp c)) \<and>
   k_rmt_wnd (fst (update_clock kcp c)) = k_rmt_wnd kcp \<and> k_conv (fst (update_clock kcp c)) = k_conv kcp"
  by (simp add: update_clock_def Let_def same_defs)

lemma update_conn:
  assumes "conn_inv kcp" "unat (k_ackcount kcp) < 2147483648"
  shows "\<exists>outs k'. ikcp_update kcp current = Some (outs, k') \<and> conn_inv k'"
proof -
  obtain k fl where u: "update_clock kcp current = (k, fl)" by fastforce
  have i: "conn_inv k" "unat (k_ackcount k) < 2147483648"
    using update_clock_frame [of kcp current] conn_inv_same [of kcp k] assms u by (auto simp: same_ack_def)
  show ?thesis using flush_conn [OF i] i by (simp add: ikcp_update_clock u)
qed

section \<open>Reachable states\<close>

text \<open>
  One rule per operation of the interface.  Guards: buffers and the list of pending
  acknowledgements are below 2 GB; the transmission unit may be lowered only on an empty send side
  (\<open>setmtu_overflow\<close> below shows why).
\<close>

inductive conn_step :: "ikcpcb \<Rightarrow> ikcpcb \<Rightarrow> bool" where
  send: "length bs < 2 ^ 31 \<Longrightarrow> conn_step kcp (snd (ikcp_send mal kcp (Some bs) (int (length bs))))"
| recv: "conn_step kcp (snd (snd (ikcp_recv kcp buffer len)))"
| input: "unat (k_ackcount kcp) + length bs < 2 ^ 31 \<Longrightarrow>
    ikcp_input raw kcp (Some bs) = Some (r, kcp') \<Longrightarrow> conn_step kcp kcp'"
| update: "unat (k_ackcount kcp) < 2 ^ 31 \<Longrightarrow>
    ikcp_update kcp current = Some (outs, kcp') \<Longrightarrow> conn_step kcp kcp'"
| flush: "unat (k_ackcount kcp) < 2 ^ 31 \<Longrightarrow> ikcp_flush kcp = Some (outs, kcp') \<Longrightarrow> conn_step kcp kcp'"
| interval: "conn_step kcp (snd (ikcp_interval kcp i))"
| nodelay: "conn_step kcp (snd (ikcp_nodelay kcp nodelay interval resend nc))"
| wndsize: "rcvwnd < 2 ^ 31 \<Longrightarrow> conn_step kcp (snd (ikcp_wndsize kcp sndwnd rcvwnd))"
| setmtu: "mtu \<le> 2 ^ 29 \<Longrightarrow> int (unat (k_mtu kcp)) \<le> mtu \<or> k_snd_queue kcp = [] \<and> k_snd_buf kcp = [] \<Longrightarrow>
    conn_step kcp (snd (ikcp_setmtu ok kcp mtu))"
| stream: "conn_step kcp (kcp\<lparr>k_stream := b\<rparr>)"

inductive conn_reach :: "u32 \<Rightarrow> ikcpcb \<Rightarrow> bool" for conv where
  create: "ikcp_create True True conv = Some kcp \<Longrightarrow> conn_reach conv kcp"
| step: "conn_reach conv kcp \<Longrightarrow> conn_step kcp kcp' \<Longrightarrow> conn_reach conv kcp'"

lemma conn_step_inv: "conn_step kcp kcp' \<Longrightarrow> conn_inv kcp \<Longrightarrow> conn_inv kcp'"
proof (induction rule: conn_step.induct)
  case (input kcp bs raw r kcp')
  then show ?case using input_conn by simp
next
  case (update kcp current outs kcp')
  then show ?case using update_conn [of kcp current] by auto
next
  case (flush kcp outs kcp')
  then show ?case using flush_conn [of kcp] by auto
next
  case (stream kcp b)
  have "conn_inv (kcp\<lparr>k_stream := b\<rparr>) = conn_inv kcp" by (rule conn_inv_same) (simp_all add: same_defs)
  then show ?case using stream by simp
qed (simp_all add: send_conn recv_conn interval_conn nodelay_conn wndsize_conn setmtu_conn)

lemma conn_reach_inv: "conn_reach conv kcp \<Longrightarrow> conn_inv kcp"
  by (induction rule: conn_reach.induct)
     (auto simp: ikcp_create_def conn_inv_init intro: conn_step_inv)


section \<open>The clock\<close>

definition same_clock :: "ikcpcb \<Rightarrow> ikcpcb \<Rightarrow> bool" where
  "same_clock k k' \<longleftrightarrow> k_current k' = k_current k \<and> k_ts_flush k' = k_ts_flush k \<and>
     k_interval k' = k_interval k \<and> k_updated k' = k_updated k"

lemma flush_move_clock: "same_clock kcp (flush_move cwnd wnd current kcp)"
proof (induction "length (k_snd_queue kcp)" arbitrary: kcp rule: less_induct)
  case less
  show ?case
  proof (cases "itimediff (k_snd_nxt kcp) (k_snd_una kcp + cwnd) < 0 \<and> k_snd_queue kcp \<noteq> []")
    case False
    then show ?thesis by (subst flush_move.simps) (auto simp: same_clock_def split: list.splits)
  next
    case True
    then obtain s q where q: "k_snd_queue kcp = s # q" by (auto simp: neq_Nil_conv)
    let ?k = "to_window wnd current s q kcp"
    have e: "flush_move cwnd wnd current kcp = flush_move cwnd wnd current ?k"
      using True by (subst flush_move.simps) (simp add: q to_window_def)
    have "same_clock ?k (flush_move cwnd wnd current ?k)" by (rule less.hyps) (simp add: q to_window_def)
    then show ?thesis unfolding e by (simp add: same_clock_def to_window_def)
  qed
qed

lemma flush_segs_counted:
  "flush_segs wnd p seen ch lo kcp ob = Some (q, c, l, k', ob') \<Longrightarrow> counted kcp k'"
proof (induction p arbitrary: seen ch lo kcp ob)
  case Nil
  then show ?case by (simp add: counted_refl)
next
  case (Cons s p)
  obtain nd s1 x c1 l1 where d: "flush_decide kcp s = (nd, s1, x, c1, l1)" by (cases "flush_decide kcp s") auto
  show ?case
  proof (cases nd)
    case False
    then have "flush_segs wnd p (seen @ [s1]) (ch + c1) (lo \<or> l1) (kcp\<lparr>k_xmit := k_xmit kcp + x\<rparr>) ob =
        Some (q, c, l, k', ob')" using Cons.prems by (simp add: d Let_def)
    from counted_trans [OF counted_step(1) Cons.IH [OF this]] show ?thesis .
  next
    case True
    let ?k1 = "kcp\<lparr>k_xmit := k_xmit kcp + x\<rparr>"
    let ?s2 = "s1\<lparr>seg_ts := k_current kcp, seg_wnd := wnd, seg_una := k_rcv_nxt kcp\<rparr>"
    let ?k2 = "if seg_xmit ?s2 \<ge> k_dead_link ?k1 then ?k1\<lparr>k_state := - 1\<rparr> else ?k1"
    obtain ob1 where "flush_segs wnd p (seen @ [?s2]) (ch + c1) (lo \<or> l1) ?k2 ob1 = Some (q, c, l, k', ob')"
      using Cons.prems True by (auto simp: d Let_def bind_eq_Some_conv)
    from Cons.IH [OF this] have "counted ?k2 k'" .
    moreover have "counted kcp ?k2" using counted_step by auto
    ultimately show ?thesis using counted_trans by blast
  qed
qed

lemma flush_clock:
  assumes "ikcp_flush kcp = Some (outs, k')"
  shows "same_clock kcp k'"
proof (cases "k_updated kcp = 0")
  case True
  then show ?thesis using assms by (simp add: ikcp_flush_def same_clock_def)
next
  case False
  define k2 where "k2 = (flush_probe_timer (kcp\<lparr>k_ackcount := 0\<rparr>))\<lparr>k_probe := 0\<rparr>"
  have c2: "same_clock kcp k2" by (simp add: k2_def flush_probe_timer_def same_clock_def Let_def)
  obtain cwnd wnd c k3 b ch lo k4 ob ob' where f: "k3 = flush_move cwnd wnd c k2"
      "flush_segs wnd (k_snd_buf k3) [] 0 False k3 ob = Some (b, ch, lo, k4, ob')"
      "k' = flush_congestion ch lo cwnd (k4\<lparr>k_snd_buf := b\<rparr>)"
    using assms False by (auto simp: ikcp_flush_def Let_def k2_def [symmetric] bind_eq_Some_conv)
  have "same_clock k2 k3" unfolding f(1) by (rule flush_move_clock)
  moreover have "same_clock k3 k4" using flush_segs_counted [OF f(2)] by (auto simp: counted_def same_clock_def)
  moreover have "same_clock k4 k'" unfolding f(3) by (simp add: flush_congestion_def same_clock_def Let_def)
  ultimately show ?thesis using c2 by (simp add: same_clock_def)
qed

lemma itimediff_add: "unat d < 2147483648 \<Longrightarrow> itimediff (c + d) c = int (unat d)"
  by (simp add: itimediff_def sint_u32)

lemma itimediff_of_int:
  "later - earlier = word_of_int x \<Longrightarrow> - (2 ^ 31) \<le> x \<Longrightarrow> x < 2 ^ 31 \<Longrightarrow> itimediff later earlier = x"
  by (simp add: itimediff_def i32_id [unfolded i32_def])

text \<open>The next flush time after an update lies in the future, at most 10 seconds ahead.\<close>

lemma update_clock_next:
  fixes current
  assumes "10 \<le> k_interval kcp" "k_interval kcp \<le> 5000"
  defines "k' \<equiv> fst (update_clock kcp current)"
  shows "0 < itimediff (k_ts_flush k') current \<and> itimediff (k_ts_flush k') current \<le> 10000 \<and> k_current k' = current \<and>
    k_updated k' \<noteq> 0 \<and> k_interval k' = k_interval kcp"
proof -
  define ts where "ts = (if k_updated kcp = 0 \<or> \<not> (- 10000 \<le> itimediff current (k_ts_flush kcp) \<and>
                  itimediff current (k_ts_flush kcp) < 10000) then current else k_ts_flush kcp)"
  have i: "10 \<le> unat (k_interval kcp)" "unat (k_interval kcp) \<le> 5000"
    using assms(1,2) by (simp_all add: word_le_nat_alt)
  define e where "e = itimediff current ts"
  have ts: "- 10000 \<le> e" "e < 10000" by (auto simp: ts_def e_def)
  have wrap: "current = ts + word_of_int e" by (simp add: e_def itimediff_def)
  have iw: "word_of_nat (unat (k_interval kcp)) = k_interval kcp" by (simp add: of_nat_unat)
  have bwd: "itimediff ts current = - e"
    by (rule itimediff_of_int) (use ts in \<open>simp_all add: wrap\<close>)
  have fwd: "itimediff (ts + k_interval kcp) current = int (unat (k_interval kcp)) - e"
    by (rule itimediff_of_int) (use ts i iw in \<open>simp_all add: wrap\<close>)
  have rev: "itimediff current (ts + k_interval kcp) = e - int (unat (k_interval kcp))"
    by (rule itimediff_of_int) (use ts i iw in \<open>simp_all add: wrap\<close>)
  have far: "itimediff (current + k_interval kcp) current = int (unat (k_interval kcp))"
    using i by (intro itimediff_add) simp
  have "k_ts_flush k' = (if e \<ge> 0 then if e - int (unat (k_interval kcp)) \<ge> 0 then current + k_interval kcp
        else ts + k_interval kcp else ts)"
    unfolding k'_def update_clock_def Let_def ts_def [symmetric] e_def [symmetric] rev by simp
  moreover have "k_current k' = current \<and> k_updated k' \<noteq> 0 \<and> k_interval k' = k_interval kcp"
    by (simp add: k'_def update_clock_def Let_def)
  ultimately show ?thesis
    using bwd fwd far i ts by auto
qed


section \<open>What enters the window\<close>

text \<open>The first \<open>m\<close> segments of the send queue, numbered from \<open>snd_nxt\<close> on, with the
  headers a new data segment gets; and the control block after they have moved.\<close>

definition entering :: "u32 \<Rightarrow> u32 \<Rightarrow> ikcpcb \<Rightarrow> nat \<Rightarrow> ikcpseg list" where
  "entering wnd current kcp m =
     map (\<lambda>i. flush_newseg (kcp\<lparr>k_snd_nxt := k_snd_nxt kcp + word_of_nat i\<rparr>) wnd current (k_snd_queue kcp ! i)) [0..<m]"

definition window_moved :: "u32 \<Rightarrow> u32 \<Rightarrow> nat \<Rightarrow> ikcpcb \<Rightarrow> ikcpcb" where
  "window_moved wnd current m kcp =
     kcp\<lparr>k_snd_queue := drop m (k_snd_queue kcp), k_snd_buf := k_snd_buf kcp @ entering wnd current kcp m,
         k_nsnd_que := k_nsnd_que kcp - word_of_nat m, k_nsnd_buf := k_nsnd_buf kcp + word_of_nat m,
         k_snd_nxt := k_snd_nxt kcp + word_of_nat m\<rparr>"

lemma entering_Suc:
  assumes "k_snd_queue kcp = s # q"
  shows "entering wnd current kcp (Suc m) =
     flush_newseg kcp wnd current s # entering wnd current (to_window wnd current s q kcp) m"
  unfolding entering_def upt_conv_Cons [OF zero_less_Suc] map_Suc_upt [symmetric]
  by (simp add: assms flush_newseg_def to_window_def ac_simps del: upt_Suc)

lemma window_moved_Suc:
  assumes "k_snd_queue kcp = s # q"
  shows "window_moved wnd current (Suc m) kcp = window_moved wnd current m (to_window wnd current s q kcp)"
  by (simp add: window_moved_def entering_Suc [OF assms]) (simp add: to_window_def assms)

lemma window_moved_0 [simp]: "window_moved wnd current 0 kcp = kcp"
  by (simp add: window_moved_def entering_def)

lemma flush_move_exact:
  assumes "snd_inv kcp" "unat cwnd < 65536"
  shows "flush_move cwnd wnd current kcp =
    window_moved wnd current (min (length (k_snd_queue kcp)) (unat cwnd - off (k_snd_una kcp) (k_snd_nxt kcp))) kcp"
  using assms(1)
proof (induction "length (k_snd_queue kcp)" arbitrary: kcp rule: less_induct)
  case less
  note room = window_room [OF less.prems assms(2)]
  show ?case
  proof (cases "off (k_snd_una kcp) (k_snd_nxt kcp) < unat cwnd \<and> k_snd_queue kcp \<noteq> []")
    case False
    then have "flush_move cwnd wnd current kcp = kcp"
      by (subst flush_move.simps) (auto simp: room split: list.splits)
    moreover have "min (length (k_snd_queue kcp)) (unat cwnd - off (k_snd_una kcp) (k_snd_nxt kcp)) = 0"
      using False by (auto simp: min_def)
    ultimately show ?thesis by (simp only: window_moved_0)
  next
    case True
    then obtain x q where q: "k_snd_queue kcp = x # q" by (auto simp: neq_Nil_conv)
    let ?k = "to_window wnd current x q kcp"
    have e: "flush_move cwnd wnd current kcp = flush_move cwnd wnd current ?k"
      using True by (subst flush_move.simps) (simp add: room q to_window_def)
    have r: "off (k_snd_una kcp) (k_snd_nxt kcp) < 65536" using True assms(2) by simp
    have s: "snd_inv ?k" "off (k_snd_una ?k) (k_snd_nxt ?k) = off (k_snd_una kcp) (k_snd_nxt kcp) + 1"
      "length (k_snd_queue ?k) = length q"
      using to_window_snd_inv [OF less.prems q r, of wnd current] by (simp_all add: to_window_def)
    have "length (k_snd_queue ?k) < length (k_snd_queue kcp)" by (simp add: q s(3))
    note ih = less.hyps [OF this s(1), unfolded s(2,3)]
    have "min (length (k_snd_queue kcp)) (unat cwnd - off (k_snd_una kcp) (k_snd_nxt kcp)) =
      Suc (min (length q) (unat cwnd - (off (k_snd_una kcp) (k_snd_nxt kcp) + 1)))"
      using True q by simp
    then show ?thesis unfolding e ih by (simp only: window_moved_Suc [OF q])
  qed
qed

text \<open>When a segment of the window is sent: for the first time, after its timeout, or early after
  enough later acknowledgements; and the window one flush looks at.\<close>

definition must_send :: "ikcpcb \<Rightarrow> ikcpseg \<Rightarrow> bool" where
  "must_send kcp s \<longleftrightarrow> seg_xmit s = 0 \<or> itimediff (k_current kcp) (seg_resendts s) \<ge> 0 \<or>
     seg_fastack s \<ge> flush_resent kcp \<and> (sint (seg_xmit s) \<le> k_fastlimit kcp \<or> k_fastlimit kcp \<le> 0)"

lemma due_must: "due = must_send"
  by (rule ext)+ (simp add: due_def must_send_def flush_decide_def Let_def)

lemma decide_same:
  assumes "k_current k' = k_current k" "k_rcv_nxt k' = k_rcv_nxt k" "k_rx_rto k' = k_rx_rto k"
    "k_nodelay k' = k_nodelay k" "k_fastresend k' = k_fastresend k" "k_fastlimit k' = k_fastlimit k"
  shows "due k' = due k \<and> refreshed k' = refreshed k"
proof -
  have "flush_decide k' x = flush_decide k x" for x
    using assms by (simp only: flush_decide_def flush_rtomin_def flush_resent_def)
  then show ?thesis using assms by (simp add: due_def refreshed_def fun_eq_iff Let_def)
qed

lemma decide_unsent: "\<not> must_send kcp s \<Longrightarrow> flush_decide kcp s = (False, s, 0, 0, False)"
  by (simp add: must_send_def flush_decide_def Let_def)

lemma decide_sent:
  assumes "must_send kcp s"
  shows "\<exists>r t a x c l. flush_decide kcp s =
     (True, s\<lparr>seg_xmit := seg_xmit s + 1, seg_rto := r, seg_resendts := t, seg_fastack := a\<rparr>, x, c, l)"
proof -
  consider "seg_xmit s = 0" | "seg_xmit s \<noteq> 0" "itimediff (k_current kcp) (seg_resendts s) \<ge> 0"
    | "seg_xmit s \<noteq> 0" "\<not> itimediff (k_current kcp) (seg_resendts s) \<ge> 0" "seg_fastack s \<ge> flush_resent kcp"
      "sint (seg_xmit s) \<le> k_fastlimit kcp \<or> k_fastlimit kcp \<le> 0"
    using assms by (auto simp: must_send_def)
  then show ?thesis
  proof cases
    case 1
    show ?thesis unfolding flush_decide_def Let_def if_P [OF 1]
      by (cases s) (simp, blast?)
  next
    case 2
    show ?thesis unfolding flush_decide_def Let_def if_not_P [OF 2(1)] if_P [OF 2(2)]
      by (cases s) (simp, blast?)
  next
    case 3
    show ?thesis unfolding flush_decide_def Let_def if_not_P [OF 3(1)] if_not_P [OF 3(2)] if_P [OF conjI [OF 3(3,4)]]
      by (cases s) (simp, blast?)
  qed
qed

lemma refreshed_sent:
  assumes "must_send kcp s"
  shows "refreshed kcp wnd s =
     s\<lparr>seg_ts := k_current kcp, seg_wnd := wnd, seg_una := k_rcv_nxt kcp, seg_xmit := seg_xmit s + 1,
       seg_rto := seg_rto (refreshed kcp wnd s), seg_resendts := seg_resendts (refreshed kcp wnd s),
       seg_fastack := seg_fastack (refreshed kcp wnd s)\<rparr>"
proof -
  obtain r t a x c l where "flush_decide kcp s =
     (True, s\<lparr>seg_xmit := seg_xmit s + 1, seg_rto := r, seg_resendts := t, seg_fastack := a\<rparr>, x, c, l)"
    using decide_sent [OF assms] by blast
  then show ?thesis by (simp add: refreshed_def due_def)
qed

lemma refreshed_unsent: "\<not> must_send kcp s \<Longrightarrow> refreshed kcp wnd s = s"
  by (simp add: refreshed_def due_def decide_unsent)


section \<open>Properties of a connection\<close>

text \<open>C1: a connection is safe in every state it can reach from \<open>ikcp_create\<close> through
  its interface: the invariant holds (both directions stay ordered, contiguous and counted, the
  acknowledgement list stays inside its block, the timeout and interval in their bounds, every waiting
  segment fits the segment size and the scratch buffer fits the transmission unit), and a flush, an
  update and the input of any bytes return without leaving their memory, as long as fewer than
  \<open>2 ^ 31\<close> acknowledgements are pending.  The steps are calls of the interface with these
  limits: a message of less than 2 GB, a receive window below \<open>2 ^ 31\<close>, and a transmission
  unit of at most \<open>2 ^ 29\<close> that is lowered only when no data waits (lowering it under
  waiting data is unsafe, see \<open>setmtu_overflow\<close>).\<close>

theorem conn_reach_safe:
  "conn_reach conv kcp \<Longrightarrow> conn_inv kcp \<and>
     (unat (k_ackcount kcp) < 2 ^ 31 \<longrightarrow> ikcp_flush kcp \<noteq> None \<and> (\<forall>t. ikcp_update kcp t \<noteq> None)) \<and>
     (\<forall>raw bs. unat (k_ackcount kcp) + length bs < 2 ^ 31 \<longrightarrow> ikcp_input raw kcp (Some bs) \<noteq> None)"
  using conn_reach_inv [of conv kcp] flush_conn [of kcp] update_conn [of kcp] ikcp_input_step [of kcp]
  by (fastforce simp: conn_inv_def)

lemma conn_reach_safe_witness:
  "conn_inv (snd (ikcp_nodelay (snd (ikcp_wndsize (ikcp_init 7) 64 256)) 1 20 2 1)) \<and>
   ikcp_update (snd (ikcp_nodelay (snd (ikcp_wndsize (ikcp_init 7) 64 256)) 1 20 2 1)) 4294967295 \<noteq> None"
proof -
  have "conn_reach 7 (ikcp_init 7)" by (rule create) (simp add: ikcp_create_def)
  then have "conn_reach 7 (snd (ikcp_wndsize (ikcp_init 7) 64 256))"
    by (rule conn_reach.step) (rule conn_step.wndsize, simp)
  then have "conn_reach 7 (snd (ikcp_nodelay (snd (ikcp_wndsize (ikcp_init 7) 64 256)) 1 20 2 1))"
    by (rule conn_reach.step) (rule conn_step.nodelay)
  moreover have "k_ackcount (snd (ikcp_nodelay (snd (ikcp_wndsize (ikcp_init 7) 64 256)) 1 20 2 1)) = 0"
    by (simp add: ikcp_nodelay_def ikcp_wndsize_def ikcp_init_def Let_def)
  ultimately show ?thesis using conn_reach_safe by fastforce
qed

lemma ikcp_input_datagram:
  assumes d: "datagram (k_conv peer) m d" "d \<noteq> []" "length d < 536870913"
    and peer: "kcp_inv peer" "unat (k_ackcount peer) + length d < 2147483648"
  shows "\<exists>peer'. ikcp_input raw peer (Some d) = Some (0, peer')"
proof -
  obtain ss where ss: "d = concat (map wire ss)" "\<forall>s \<in> set ss. wireable (k_conv peer) s"
    using d(1) by (auto simp: datagram_def)
  have lw: "24 \<le> length (wire s)" for s by (simp add: wire_def)
  have l: "24 * length ss \<le> length d"
    unfolding ss(1) by (induction ss) (use lw in \<open>auto intro: add_mono\<close>)
  moreover have "ss \<noteq> []" using d(2) ss(1) by auto
  ultimately have ge: "24 \<le> length d" by (cases ss) auto
  have "i32 (int (length d)) = int (length d)" using d(3) by (intro i32_id) simp_all
  then have big: "\<not> i32 (int (length d)) < sint IKCP_OVERHEAD" using ge by (simp add: kcp_consts)
  have all: "\<forall>s \<in> set ss. wireable (k_conv (fst (peer, False, 0 :: u32, 0 :: u32))) s" using ss(2) by simp
  have few: "unat (k_ackcount (fst (peer, False, 0 :: u32, 0 :: u32))) + length ss < 2147483648" using peer(2) l by simp
  have inv: "kcp_inv (fst (peer, False, 0 :: u32, 0 :: u32))" using peer(1) by simp
  obtain st' where "ikcp_input_loop raw (peer, False, 0, 0) d = Some (0, st')"
    using input_loop_wire [OF all inv few, of raw] unfolding ss(1) by blast
  then show ?thesis using big by (cases st') (simp add: ikcp_input_def Let_def)
qed

text \<open>C6: a flush of a connection that has been updated returns without writing behind its
  scratch buffer; every datagram is non-empty, fits the transmission unit, and is accepted with code
  0 by every peer of the same conversation; all pending acknowledgements are cleared and the
  invariant is kept.\<close>

theorem ikcp_flush_datagrams:
  assumes "conn_inv kcp" and "k_updated kcp \<noteq> 0" and "unat (k_ackcount kcp) < 2 ^ 31"
  shows "\<exists>outs kcp'. ikcp_flush kcp = Some (outs, kcp') \<and> conn_inv kcp' \<and> k_ackcount kcp' = 0 \<and>
    (\<forall>d \<in> set outs. d \<noteq> [] \<and> length d \<le> unat (k_mtu kcp) \<and>
       (\<forall>raw peer. conn_inv peer \<and> k_conv peer = k_conv kcp \<and> unat (k_ackcount peer) + length d < 2 ^ 31 \<longrightarrow>
          (\<exists>peer'. ikcp_input raw peer (Some d) = Some (0, peer') \<and> conn_inv peer')))"
proof -
  obtain outs k' where f: "ikcp_flush kcp = Some (outs, k')" "conn_inv k'" "k_ackcount k' = 0"
      "\<And>d. d \<in> set outs \<Longrightarrow> d \<noteq> [] \<and> datagram (k_conv kcp) (unat (k_mtu kcp)) d"
    using ikcp_flush_spec [of kcp] assms by auto
  have m: "unat (k_mtu kcp) < 536870913" using assms(1) by (simp add: conn_inv_def mtu_ok_def)
  have "\<exists>peer'. ikcp_input raw peer (Some d) = Some (0, peer') \<and> conn_inv peer'"
    if d: "d \<in> set outs" and p: "conn_inv peer" "k_conv peer = k_conv kcp" "unat (k_ackcount peer) + length d < 2 ^ 31"
    for d raw peer
  proof -
    have "length d < 536870913" using f(4) [OF d] m by (simp add: datagram_def)
    then obtain peer' where "ikcp_input raw peer (Some d) = Some (0, peer')"
      using ikcp_input_datagram [of peer "unat (k_mtu kcp)" d raw] f(4) [OF d] p by (auto simp: conn_inv_def)
    then show ?thesis using input_conn [of peer d raw 0] p by auto
  qed
  then show ?thesis
    using f by (intro exI [of _ outs] exI [of _ k']) (auto simp: datagram_def)
qed

text \<open>A connection with one message of two segments, updated once.\<close>

definition sample_conn :: ikcpcb where
  "sample_conn = (ikcp_init 7)\<lparr>k_updated := 1, k_cwnd := 8, k_nsnd_que := 2, k_acklist := [(3, 9)], k_ackcount := 1,
     k_ackblock := 8, k_snd_queue := [sample_seg\<lparr>seg_frg := 1, seg_len := 2, seg_data := [1, 2]\<rparr>,
                     sample_seg\<lparr>seg_len := 1, seg_data := [3]\<rparr>]\<rparr>"

lemma sample_conn_inv: "conn_inv sample_conn"
proof -
  have "same_rcv (ikcp_init 7) sample_conn" "same_rto (ikcp_init 7) sample_conn"
    by (simp_all add: sample_conn_def same_defs)
  moreover have "snd_inv sample_conn"
    by (simp add: snd_inv_def snd_inv0_def snd_tight_def sample_conn_def ikcp_init_def)
  moreover have "ack_inv sample_conn"
    by (auto simp: ack_inv_def sample_conn_def ikcp_init_def intro: exI [of _ 3])
  ultimately show ?thesis
    using rcv_inv_init rto_inv_init
    by (simp add: conn_inv_def kcp_inv_def rcv_inv_same rto_inv_same)
       (simp add: sample_conn_def ikcp_init_def kcp_consts mtu_ok_def seg_ok_def sample_seg_def)
qed

lemma ikcp_flush_datagrams_witness:
  "\<exists>outs kcp'. ikcp_flush sample_conn = Some (outs, kcp') \<and> (\<forall>d \<in> set outs. length d \<le> 1400)"
  using ikcp_flush_datagrams [OF sample_conn_inv]
  by (fastforce simp: sample_conn_def ikcp_init_def kcp_consts)


text \<open>C4: what one flush sends: first one acknowledgement segment per received number, in the
  order they were recorded; then the window probes that are owed; then exactly those segments of the
  window that were never sent, have timed out or are fast-resent, in window order, with their number,
  fragment, length and data as queued and time stamp, window, next expected number and transmission
  count brought up to date.  The window is what was in flight followed by as many segments of the
  send queue, first-in first-out and numbered from \<open>snd_nxt\<close> on, as the smallest of the
  windows admits; it is kept with the new timers, and the rest of the queue stays.\<close>

theorem ikcp_flush_content:
  assumes "conn_inv kcp" and "k_updated kcp \<noteq> 0" and "unat (k_ackcount kcp) < 2 ^ 31"
  shows "\<exists>outs kcp'. ikcp_flush kcp = Some (outs, kcp') \<and>
    (let wnd = seg_wnd (flush_seg kcp);
         m = min (length (k_snd_queue kcp)) (unat (flush_cwnd kcp) - off (k_snd_una kcp) (k_snd_nxt kcp));
         window = k_snd_buf kcp @ entering wnd (k_current kcp) kcp m
     in concat outs = concat (map wire (pending_acks kcp @ owed_probes kcp @
          map (refreshed kcp wnd) (filter (must_send kcp) window))) \<and>
        (\<forall>s. must_send kcp s \<longrightarrow> refreshed kcp wnd s =
           s\<lparr>seg_ts := k_current kcp, seg_wnd := wnd, seg_una := k_rcv_nxt kcp, seg_xmit := seg_xmit s + 1,
             seg_rto := seg_rto (refreshed kcp wnd s), seg_resendts := seg_resendts (refreshed kcp wnd s),
             seg_fastack := seg_fastack (refreshed kcp wnd s)\<rparr>) \<and>
        (\<forall>s. \<not> must_send kcp s \<longrightarrow> refreshed kcp wnd s = s) \<and>
        k_snd_buf kcp' = map (refreshed kcp wnd) window \<and>
        k_snd_queue kcp' = drop m (k_snd_queue kcp)) \<and>
    off (k_snd_una kcp) (k_snd_nxt kcp') \<le> max (off (k_snd_una kcp) (k_snd_nxt kcp)) (unat (flush_cwnd kcp))"
proof -
  let ?w = "seg_wnd (flush_seg kcp)"
  define k2 where "k2 = (flush_probe_timer (kcp\<lparr>k_ackcount := 0\<rparr>))\<lparr>k_probe := 0\<rparr>"
  have k2: "k_snd_queue k2 = k_snd_queue kcp" "k_snd_buf k2 = k_snd_buf kcp" "k_snd_una k2 = k_snd_una kcp"
      "k_snd_nxt k2 = k_snd_nxt kcp" "k_conv k2 = k_conv kcp" "k_rcv_nxt k2 = k_rcv_nxt kcp" "k_rx_rto k2 = k_rx_rto kcp"
      "k_current k2 = k_current kcp" "k_nodelay k2 = k_nodelay kcp" "k_fastresend k2 = k_fastresend kcp"
      "k_fastlimit k2 = k_fastlimit kcp" "k_nsnd_que k2 = k_nsnd_que kcp"
    by (simp_all add: k2_def flush_probe_timer_def Let_def)
  have small: "unat (k_ackcount kcp) < 2147483648" using assms(3) by simp
  define kw where "kw = flush_window kcp"
  obtain outs k' where f: "ikcp_flush kcp = Some (outs, k')"
      "off (k_snd_una kcp) (k_snd_nxt k') \<le> max (off (k_snd_una kcp) (k_snd_nxt kcp)) (unat (flush_cwnd kcp))"
      "k_snd_buf k' = map (refreshed kw ?w) (k_snd_buf kw)" "k_snd_queue k' = k_snd_queue kw"
      "concat outs = concat (map wire (pending_acks kcp @ owed_probes kcp @
        map (refreshed kw ?w) (filter (due kw) (k_snd_buf kw))))"
    using ikcp_flush_spec [OF assms(1,2) small] unfolding kw_def by blast
  define m where "m = min (length (k_snd_queue kcp)) (unat (flush_cwnd kcp) - off (k_snd_una kcp) (k_snd_nxt kcp))"
  have "same_snd kcp k2" by (simp add: k2_def flush_probe_timer_def Let_def same_snd_def)
  then have s: "snd_inv k2" using assms(1) by (simp add: conn_inv_def kcp_inv_def snd_inv_same)
  have c: "unat (flush_cwnd kcp) < 65536" using assms(1) flush_cwnd_small by (simp add: conn_inv_def)
  have kw: "kw = window_moved ?w (k_current kcp) m k2"
    unfolding kw_def flush_window_def k2_def [symmetric] flush_move_exact [OF s c] k2 m_def ..
  have e: "k_snd_buf kw = k_snd_buf kcp @ entering ?w (k_current kcp) kcp m"
      "k_snd_queue kw = drop m (k_snd_queue kcp)"
    by (simp_all add: kw window_moved_def entering_def flush_newseg_def k2)
  have d: "due kw = due kcp \<and> refreshed kw = refreshed kcp"
    by (rule decide_same) (simp_all add: kw window_moved_def k2)
  then have d: "due kw = must_send kcp" "refreshed kw = refreshed kcp" by (simp_all add: due_must)
  show ?thesis
    unfolding f(1) Let_def m_def [symmetric]
    by (intro exI [of _ outs] exI [of _ k'] conjI allI impI refl f(2) refreshed_sent refreshed_unsent)
       (simp_all only: f(3,4,5) d e not_False_eq_True)
qed

lemma ikcp_flush_content_witness:
  "\<exists>outs kcp'. ikcp_flush sample_conn = Some (outs, kcp') \<and> length (concat outs) = 75 \<and>
     map seg_sn (k_snd_buf kcp') = [0, 1] \<and> map seg_data (k_snd_buf kcp') = [[1, 2], [3]] \<and>
     k_snd_queue kcp' = []"
proof -
  define w where "w = seg_wnd (flush_seg sample_conn)"
  have f: "k_updated sample_conn \<noteq> 0" "unat (k_ackcount sample_conn) < 2 ^ 31" "k_snd_una sample_conn = 0"
      "k_snd_nxt sample_conn = 0" "length (k_snd_queue sample_conn) = 2" "k_snd_buf sample_conn = []"
      "k_current sample_conn = 0" "k_snd_queue sample_conn = [sample_seg\<lparr>seg_frg := 1, seg_len := 2, seg_data := [1, 2]\<rparr>,
                     sample_seg\<lparr>seg_len := 1, seg_data := [3]\<rparr>]"
    by (simp_all add: sample_conn_def ikcp_init_def)
  have cw: "flush_cwnd sample_conn = 8"
    by (simp add: flush_cwnd_def imin32_def Let_def sample_conn_def ikcp_init_def kcp_consts)
  have m: "min 2 (unat (flush_cwnd sample_conn) - off 0 0) = 2" by (simp add: cw)
  define win where "win = entering w 0 sample_conn 2"
  have "[0..<2] = [0, 1 :: nat]" by (simp add: upt_rec)
  then have win: "map seg_sn win = [0, 1]" "map seg_data win = [[1, 2], [3]]" "\<forall>s \<in> set win. seg_xmit s = 0"
      "map (unat \<circ> seg_len) win = [2, 1]"
    by (simp_all add: win_def entering_def f flush_newseg_def)
  have fil: "filter (must_send sample_conn) win = win" using win(3) by (simp add: must_send_def)
  have "owed_probes sample_conn = []"
    by (simp add: owed_probes_def Let_def sample_conn_def ikcp_init_def flush_probe_timer_def kcp_consts)
  moreover have "length (pending_acks sample_conn) = 1"
    by (simp add: pending_acks_def sample_conn_def ikcp_init_def)
  moreover obtain s1 s2 where "win = [s1, s2]" using win(1) by auto
  moreover obtain p where "pending_acks sample_conn = [p]" "seg_len p = 0"
    by (simp add: pending_acks_def sample_conn_def ikcp_init_def flush_seg_def)
  ultimately have l: "length (concat (map wire (pending_acks sample_conn @ owed_probes sample_conn @
      map (refreshed sample_conn w) win))) = 75"
    using win by (simp add: wire_def)
  show ?thesis
    using ikcp_flush_content [OF sample_conn_inv f(1,2), unfolded w_def [symmetric] Let_def f(3-7) m append_Nil win_def [symmetric] fil]
      l win by (auto simp: comp_def f(8))
qed

text \<open>After an update the clock is the given time and the next flush is scheduled in the
  future, at most ten seconds ahead, whatever the old schedule was.\<close>

theorem ikcp_update_schedules:
  assumes "conn_inv kcp" and "unat (k_ackcount kcp) < 2 ^ 31"
  shows "\<exists>outs kcp'. ikcp_update kcp current = Some (outs, kcp') \<and> conn_inv kcp' \<and> k_current kcp' = current \<and>
     0 < itimediff (k_ts_flush kcp') current \<and> itimediff (k_ts_flush kcp') current \<le> 10000"
proof -
  obtain k fl where u: "update_clock kcp current = (k, fl)" by fastforce
  obtain outs k' where r: "ikcp_update kcp current = Some (outs, k')" "conn_inv k'"
    using update_conn [of kcp current] assms by auto
  have "10 \<le> k_interval kcp" "k_interval kcp \<le> 5000"
    using assms(1) by (simp_all add: conn_inv_def kcp_inv_def rto_inv_def)
  note n = update_clock_next [OF this, of current, unfolded u fst_conv]
  have "same_clock k k'"
  proof (cases fl)
    case True
    then show ?thesis using r(1) flush_clock by (simp add: ikcp_update_clock u)
  next
    case False
    then show ?thesis using r(1) by (simp add: ikcp_update_clock u same_clock_def)
  qed
  then show ?thesis using r n by (simp add: same_clock_def)
qed

lemma ikcp_update_schedules_witness:
  "\<exists>outs kcp'. ikcp_update sample_conn 4294967290 = Some (outs, kcp') \<and> k_current kcp' = 4294967290 \<and>
     0 < itimediff (k_ts_flush kcp') 4294967290"
  using ikcp_update_schedules [OF sample_conn_inv, of 4294967290]
  by (fastforce simp: sample_conn_def ikcp_init_def kcp_consts)

lemma check_scan_Some:
  "check_scan c q m = Some t \<Longrightarrow> t \<le> m \<and> (\<forall>s \<in> set q. t \<le> itimediff (seg_resendts s) c) \<and> (0 < m \<longrightarrow> 0 < t)"
  by (induction q arbitrary: m) (fastforce simp: Let_def split: if_splits)+

lemma check_scan_None: "check_scan c q m = None \<Longrightarrow> \<exists>s \<in> set q. itimediff (seg_resendts s) c \<le> 0"
  by (induction q arbitrary: m) (auto simp: Let_def split: if_splits)

lemma before_deadline: "off c t < nat (itimediff x c) \<Longrightarrow> itimediff t x < 0"
proof -
  assume a: "off c t < nat (itimediff x c)"
  then have "0 \<le> itimediff x c" by linarith
  then have x: "off c x < 2147483648" by (simp add: itimediff_ge_0)
  then have "itimediff x c = int (off c x)" by (simp add: itimediff_def sint_u32)
  then show ?thesis using a x itimediff_window [of t c x] by simp
qed

text \<open>The time \<open>ikcp_check\<close> returns is at most one interval ahead, and calling
  \<open>ikcp_update\<close> any earlier would be useless: before that time neither the flush nor any segment
  of the window is due.  It is the current time only if something is due already.\<close>

theorem ikcp_check_next:
  assumes "10 \<le> k_interval kcp" and "k_interval kcp \<le> 5000"
  shows "off current (ikcp_check kcp current) \<le> unat (k_interval kcp) \<and>
    (\<forall>t. off current t < off current (ikcp_check kcp current) \<longrightarrow>
       itimediff t (k_ts_flush kcp) < 0 \<and> (\<forall>s \<in> set (k_snd_buf kcp). itimediff t (seg_resendts s) < 0)) \<and>
    (ikcp_check kcp current = current \<longrightarrow> k_updated kcp = 0 \<or>
       itimediff current (k_ts_flush kcp) \<ge> 0 \<or> itimediff current (k_ts_flush kcp) < - 10000 \<or>
       (\<exists>s \<in> set (k_snd_buf kcp). itimediff (seg_resendts s) current \<le> 0))"
proof -
  let ?d = "itimediff current (k_ts_flush kcp)"
  show ?thesis
  proof (cases "k_updated kcp = 0 \<or> \<not> (- 10000 \<le> ?d \<and> ?d < 0)")
    case True
    then have "ikcp_check kcp current = current" by (auto simp: ikcp_check_def Let_def)
    then show ?thesis using True by auto
  next
    case False
    show ?thesis
    proof (cases "check_scan current (k_snd_buf kcp) 0x7fffffff")
      case None
      then have "ikcp_check kcp current = current" using False by (auto simp: ikcp_check_def Let_def)
      then show ?thesis using check_scan_None [OF None] by simp
    next
      case (Some tp)
      let ?tf = "itimediff (k_ts_flush kcp) current"
      define m where "m = (if tp < ?tf then tp else ?tf)"
      note cs = check_scan_Some [OF Some]
      have "- ?d = ?tf"
      proof (rule sym, rule itimediff_of_int)
        show "k_ts_flush kcp - current = word_of_int (- ?d)" by (simp add: itimediff_def)
      qed (use False in auto)
      then have tf: "0 < ?tf" "?tf \<le> 10000" using False by auto
      have m: "0 < m" "m \<le> 10000" using tf cs by (auto simp: m_def)
      define u where "u = (word_of_int m :: u32)"
      have u: "unat u = nat m"
      proof -
        obtain n where n: "m = int n" using m zero_le_imp_eq_int [of m] by auto
        then show ?thesis using m by (simp add: u_def unat_of_nat)
      qed
      define v where "v = (if u \<ge> k_interval kcp then k_interval kcp else u)"
      have c: "ikcp_check kcp current = current + v"
        using False Some by (auto simp: ikcp_check_def Let_def m_def [symmetric] u_def [symmetric] v_def)
      have i: "10 \<le> unat (k_interval kcp)" using assms(1) by (simp add: word_le_nat_alt)
      have v: "v \<le> k_interval kcp" "unat v \<le> nat m" "0 < unat v"
        using u m i by (auto simp: v_def word_le_nat_alt)
      have "current + v \<noteq> current" using v(3) by auto
      moreover have "itimediff t (k_ts_flush kcp) < 0 \<and> (\<forall>s \<in> set (k_snd_buf kcp). itimediff t (seg_resendts s) < 0)"
        if "off current t < unat v" for t
      proof -
        have "off current t < nat ?tf" using that v(2) by (auto simp: m_def split: if_splits)
        moreover have "off current t < nat (itimediff (seg_resendts s) current)" if "s \<in> set (k_snd_buf kcp)" for s
          using cs that \<open>off current t < unat v\<close> v(2) by (fastforce simp: m_def split: if_splits)
        ultimately show ?thesis using before_deadline by blast
      qed
      ultimately show ?thesis using v(1) by (simp add: c word_le_nat_alt)
    qed
  qed
qed

lemma ikcp_check_next_witness:
  "off 5 (ikcp_check ((ikcp_init 7)\<lparr>k_updated := 1, k_ts_flush := 60\<rparr>) 5) \<le> 100"
  using ikcp_check_next [of "(ikcp_init 7)\<lparr>k_updated := 1, k_ts_flush := 60\<rparr>" 5]
  by (simp add: ikcp_init_def kcp_consts)


text \<open>Lowering the transmission unit is not safe once data is queued: the queued segment was
  cut for the old unit, the new scratch buffer is too small for it, and the flush writes behind its
  end (in the model, \<open>None\<close>).\<close>

definition lowered_mtu :: ikcpcb where
  "lowered_mtu =
     (let k1 = snd (ikcp_send (\<lambda>_. Some sample_seg) (ikcp_init 7) (Some (replicate 1000 0)) 1000);
          k2 = snd (ikcp_setmtu True k1 50)
      in k2\<lparr>k_cwnd := 1, k_updated := 1\<rparr>)"

theorem setmtu_overflow:
  "k_snd_queue lowered_mtu = [sample_seg\<lparr>seg_len := 1000, seg_data := replicate 1000 0\<rparr>] \<and>
   fst (ikcp_setmtu True (ikcp_init 7) 50) = 0 \<and> ikcp_flush lowered_mtu = None"
proof -
  have "ikcp_send (\<lambda>_. Some sample_seg) (ikcp_init 7) (Some (replicate 1000 0)) 1000 =
      (0, (ikcp_init 7)\<lparr>k_snd_queue := [sample_seg\<lparr>seg_len := 1000, seg_data := replicate 1000 0\<rparr>], k_nsnd_que := 1\<rparr>)"
    by (simp add: ikcp_send_def ikcp_send_fragments_def ikcp_send_count_def ikcp_send_loop.simps
        ikcp_init_def kcp_consts sample_seg_def Let_def)
  then have l: "lowered_mtu = (ikcp_init 7)\<lparr>k_snd_queue := [sample_seg\<lparr>seg_len := 1000, seg_data := replicate 1000 0\<rparr>],
      k_nsnd_que := 1, k_mtu := 50, k_mss := 26, k_bufsize := 222, k_cwnd := 1, k_updated := 1\<rparr>"
    by (simp add: lowered_mtu_def ikcp_setmtu_def kcp_consts Let_def)
  have "ikcp_flush lowered_mtu = None"
    by (simp add: l ikcp_flush_def ikcp_init_def kcp_consts flush_probe_timer_def flush_probe_def flush_cwnd_def
        flush_move.simps flush_newseg_def flush_decide_def flush_send_def flush_put_def flush_room_def
        flush_output_def imin32_def itimediff_def i32_def Let_def sample_seg_def)
  then show ?thesis by (simp add: l ikcp_setmtu_def ikcp_init_def kcp_consts)
qed

end
