(* ===== verification/Kcp_Arrive.thy ===== *)
theory Kcp_Arrive
  imports Kcp_Conn
begin

text \<open>
  A message on its way through an unreliable network: the datagrams that carry its fragments reach
  the peer's \<open>ikcp_input\<close> in any order, repeated, mixed with other segments and with any
  window, time stamp and acknowledgement fields in their headers, and \<open>ikcp_recv\<close> still
  returns the bytes that were sent.
\<close>

section \<open>A message being reassembled\<close>

definition fragment_copy :: "ikcpseg \<Rightarrow> ikcpseg \<Rightarrow> bool" where
  "fragment_copy f s \<longleftrightarrow> seg_frg s = seg_frg f \<and> seg_len s = seg_len f \<and> seg_data s = seg_data f"

text \<open>The fragments \<open>frs\<close> are numbered from \<open>base\<close> on; those with an index in \<open>A\<close>
  have arrived.  Every stored segment with one of these numbers is the fragment of that number, and
  nothing at the head of the buffer could still move to the queue.\<close>

definition reassembling :: "u32 \<Rightarrow> ikcpseg list \<Rightarrow> nat set \<Rightarrow> ikcpcb \<Rightarrow> bool" where
  "reassembling base frs A kcp \<longleftrightarrow> rcv_inv kcp \<and> length frs \<le> unat (k_rcv_wnd kcp) \<and>
     k_rcv_nxt kcp = base + of_nat (length (k_rcv_queue kcp)) \<and>
     (\<forall>s \<in> set (k_rcv_queue kcp @ k_rcv_buf kcp). off base (seg_sn s) < length frs \<longrightarrow>
        fragment_copy (frs ! off base (seg_sn s)) s) \<and>
     (\<forall>i \<in> A. i < length frs \<longrightarrow> base + of_nat i \<in> seg_sn ` set (k_rcv_queue kcp @ k_rcv_buf kcp)) \<and>
     (case k_rcv_buf kcp of [] \<Rightarrow> True
      | s # _ \<Rightarrow> \<not> (seg_sn s = k_rcv_nxt kcp \<and> k_nrcv_que kcp < k_rcv_wnd kcp))"

lemma reassembling_same: "same_rcv k k' \<Longrightarrow> reassembling base frs A k' = reassembling base frs A k"
  using rcv_inv_same [of k k'] by (simp add: reassembling_def same_rcv_def cong: list.case_cong)

lemma reassembling_mono: "reassembling base frs A k \<Longrightarrow> B \<subseteq> A \<Longrightarrow> reassembling base frs B k"
  by (auto simp: reassembling_def)

lemma off_base: "i < 2147483648 \<Longrightarrow> off base (base + of_nat i) = i"
  by (simp add: unat_of_nat)

lemma queue_number:
  assumes "reassembling base frs A kcp" "i < length (k_rcv_queue kcp)"
  shows "seg_sn (k_rcv_queue kcp ! i) = base + of_nat i"
proof -
  have "seg_sn (k_rcv_queue kcp ! i) + of_nat (length (k_rcv_queue kcp) - i) =
      base + (of_nat i + of_nat (length (k_rcv_queue kcp) - i))"
    using assms by (simp add: reassembling_def rcv_inv_def contiguous_def of_nat_diff)
  then show ?thesis by (metis add.assoc add_right_cancel)
qed

lemma rcv_wnd_31: "reassembling base frs A kcp \<Longrightarrow> unat (k_rcv_wnd kcp) < 2147483648"
  by (simp add: reassembling_def rcv_inv_def)

text \<open>A fragment outside the window is in the queue already.\<close>

lemma outside_arrived:
  assumes r: "reassembling base frs A kcp" and i: "off base sn < length frs"
    and out: "\<not> off (k_rcv_nxt kcp) sn < unat (k_rcv_wnd kcp)"
  shows "sn \<in> seg_sn ` set (k_rcv_queue kcp)"
proof -
  define i q where "i = off base sn" and "q = length (k_rcv_queue kcp)"
  have sn: "sn = base + of_nat i" by (simp add: i_def of_nat_unat)
  have w: "length frs \<le> unat (k_rcv_wnd kcp)" "unat (k_rcv_wnd kcp) < 2147483648"
      "k_rcv_nxt kcp = base + of_nat q"
    using r rcv_wnd_31 [OF r] by (simp_all add: reassembling_def q_def)
  have "i < q"
  proof (rule ccontr)
    assume "\<not> i < q"
    then have "sn - k_rcv_nxt kcp = of_nat (i - q)" by (simp add: sn w(3) of_nat_diff)
    then have "off (k_rcv_nxt kcp) sn = i - q" using i w i_def by (simp add: unat_of_nat)
    then show False using out i w by (simp add: i_def)
  qed
  then have "k_rcv_queue kcp ! i \<in> set (k_rcv_queue kcp)" "seg_sn (k_rcv_queue kcp ! i) = sn"
    using queue_number [OF r, of i] by (simp_all add: q_def sn [symmetric])
  then show ?thesis by (metis image_eqI)
qed

lemma reassembling_outside:
  assumes "reassembling base frs A kcp" "\<not> off (k_rcv_nxt kcp) sn < unat (k_rcv_wnd kcp)"
  shows "reassembling base frs (insert (off base sn) A) kcp"
  using assms outside_arrived [OF assms(1) _ assms(2)] by (auto simp: reassembling_def of_nat_unat)

lemma reassembling_parse_data:
  assumes r: "reassembling base frs A kcp" and wf: "seg_wf x"
    and c: "off base (seg_sn x) < length frs \<Longrightarrow> fragment_copy (frs ! off base (seg_sn x)) x"
  shows "reassembling base frs (insert (off base (seg_sn x)) A) (ikcp_parse_data kcp x)"
proof -
  note w = rcv_wnd_31 [OF r]
  have inv: "rcv_inv kcp" using r by (simp add: reassembling_def)
  have sn: "base + of_nat (off base (seg_sn x)) = seg_sn x" by (simp add: of_nat_unat)
  show ?thesis
  proof (cases "off (k_rcv_nxt kcp) (seg_sn x) < unat (k_rcv_wnd kcp)")
    case False
    then show ?thesis
      using reassembling_outside [OF r False] by (simp add: ikcp_parse_data_eq [OF w])
  next
    case True
    let ?s = "rcv_store kcp x"
    note st = rcv_store_spec [OF inv True wf]
    have e: "k_rcv_queue ?s = k_rcv_queue kcp" "k_rcv_nxt ?s = k_rcv_nxt kcp" "k_rcv_wnd ?s = k_rcv_wnd kcp"
      "k_nrcv_que ?s = k_nrcv_que kcp"
      using st by (auto split: if_splits)
    have b: "seg_sn ` set (k_rcv_buf ?s) = insert (seg_sn x) (seg_sn ` set (k_rcv_buf kcp))"
      "set (k_rcv_buf ?s) \<subseteq> insert x (set (k_rcv_buf kcp))"
      using st by (auto split: if_splits)
    obtain n where n: "n \<le> length (k_rcv_buf ?s)" "rcv_move ?s = moved ?s n"
      "case drop n (k_rcv_buf ?s) of [] \<Rightarrow> True
       | y # _ \<Rightarrow> \<not> (seg_sn y = k_rcv_nxt ?s + of_nat n \<and> k_nrcv_que ?s + of_nat n < k_rcv_wnd ?s)"
      using rcv_move_spec [of ?s] by blast
    have set: "set (k_rcv_queue (moved ?s n) @ k_rcv_buf (moved ?s n)) = set (k_rcv_queue kcp) \<union> set (k_rcv_buf ?s)"
    proof -
      have "set (take n (k_rcv_buf ?s)) \<union> set (drop n (k_rcv_buf ?s)) = set (k_rcv_buf ?s)"
        by (metis append_take_drop_id set_append)
      then show ?thesis by (auto simp: moved_def e)
    qed
    have "rcv_inv (moved ?s n)" using st rcv_move_inv [of ?s] by (simp add: n(2))
    moreover have "k_rcv_nxt (moved ?s n) = base + of_nat (length (k_rcv_queue (moved ?s n)))"
      using r n(1) by (simp add: moved_def e reassembling_def add.assoc)
    moreover have "\<forall>s \<in> set (k_rcv_queue (moved ?s n) @ k_rcv_buf (moved ?s n)).
        off base (seg_sn s) < length frs \<longrightarrow> fragment_copy (frs ! off base (seg_sn s)) s"
      unfolding set using r b(2) c by (auto simp: reassembling_def)
    moreover have "\<forall>i \<in> insert (off base (seg_sn x)) A. i < length frs \<longrightarrow>
        base + of_nat i \<in> seg_sn ` set (k_rcv_queue (moved ?s n) @ k_rcv_buf (moved ?s n))"
      unfolding set image_Un b(1) using r sn by (auto simp: reassembling_def)
    moreover have "case k_rcv_buf (moved ?s n) of [] \<Rightarrow> True
      | s # _ \<Rightarrow> \<not> (seg_sn s = k_rcv_nxt (moved ?s n) \<and> k_nrcv_que (moved ?s n) < k_rcv_wnd (moved ?s n))"
      using n(3) by (simp add: moved_def cong: list.case_cong)
    moreover have "length frs \<le> unat (k_rcv_wnd (moved ?s n))" using r by (simp add: moved_def e reassembling_def)
    ultimately show ?thesis using True by (simp only: ikcp_parse_data_eq [OF w] n(2) reassembling_def if_True)
  qed
qed

text \<open>When all have arrived, the message is at the head of the queue.\<close>

lemma reassembled:
  assumes r: "reassembling base frs A kcp" and all: "{..< length frs} \<subseteq> A"
  shows "length frs \<le> length (k_rcv_queue kcp) \<and>
     (\<forall>i < length frs. fragment_copy (frs ! i) (k_rcv_queue kcp ! i))"
proof -
  define q where "q = length (k_rcv_queue kcp)"
  have inv: "rcv_inv kcp" using r by (simp add: reassembling_def)
  have w: "length frs \<le> unat (k_rcv_wnd kcp)" "unat (k_rcv_wnd kcp) < 2147483648" "k_rcv_nxt kcp = base + of_nat q"
      "rcv_inv kcp" "unat (k_nrcv_que kcp) = q"
    using r inv rcv_wnd_31 [OF r] by (simp_all add: reassembling_def q_def) (simp_all add: rcv_inv_def)
  have len: "length frs \<le> q"
  proof (rule ccontr)
    assume "\<not> length frs \<le> q"
    then have "q \<in> A" "q < length frs" using all by auto
    then have "base + of_nat q \<in> seg_sn ` set (k_rcv_queue kcp @ k_rcv_buf kcp)" using r by (simp add: reassembling_def)
    then obtain s where s0: "base + of_nat q = seg_sn s" "s \<in> set (k_rcv_queue kcp @ k_rcv_buf kcp)" by (rule imageE)
    then have s: "s \<in> set (k_rcv_queue kcp) \<or> s \<in> set (k_rcv_buf kcp)" "seg_sn s = base + of_nat q" by simp_all
    have "s \<notin> set (k_rcv_queue kcp)"
    proof
      assume "s \<in> set (k_rcv_queue kcp)"
      then obtain i where i: "i < q" "s = k_rcv_queue kcp ! i" by (auto simp: in_set_conv_nth q_def)
      then have "seg_sn s = base + of_nat i" using queue_number [OF r, of i] by (simp add: q_def)
      then have "base + of_nat i = base + of_nat q" using s(2) by simp
      moreover have "i < 2147483648" "q < 2147483648" using i(1) \<open>q < length frs\<close> w(1,2) by simp_all
      ultimately show False using off_base [of i base] off_base [of q base] i(1) by (metis less_irrefl)
    qed
    then have sb: "s \<in> set (k_rcv_buf kcp)" using s(1) by simp
    then obtain y ys where y: "k_rcv_buf kcp = y # ys" by (cases "k_rcv_buf kcp") auto
    have "off (k_rcv_nxt kcp) (seg_sn y) \<le> off (k_rcv_nxt kcp) (seg_sn s)"
      using w(4) sb y by (auto simp: rcv_inv_def buf_sorted_def)
    then have "seg_sn y - k_rcv_nxt kcp = 0" using s(2) w(3) by (simp add: unat_eq_0)
    then have "seg_sn y = k_rcv_nxt kcp" by simp
    moreover have "k_nrcv_que kcp < k_rcv_wnd kcp"
      using w(1,5) \<open>q < length frs\<close> by (simp add: word_less_nat_alt)
    ultimately show False using r y by (simp add: reassembling_def)
  qed
  moreover have "fragment_copy (frs ! i) (k_rcv_queue kcp ! i)" if i: "i < length frs" for i
  proof -
    have n: "seg_sn (k_rcv_queue kcp ! i) = base + of_nat i" using queue_number [OF r, of i] i len by (simp add: q_def)
    have o: "off base (seg_sn (k_rcv_queue kcp ! i)) = i" unfolding n using i w by (intro off_base) simp
    have "\<forall>s \<in> set (k_rcv_queue kcp @ k_rcv_buf kcp). off base (seg_sn s) < length frs \<longrightarrow>
        fragment_copy (frs ! off base (seg_sn s)) s"
      using r unfolding reassembling_def by (elim conjE)
    moreover have "k_rcv_queue kcp ! i \<in> set (k_rcv_queue kcp @ k_rcv_buf kcp)" using i len by (simp add: q_def)
    ultimately have "off base (seg_sn (k_rcv_queue kcp ! i)) < length frs \<longrightarrow>
        fragment_copy (frs ! off base (seg_sn (k_rcv_queue kcp ! i))) (k_rcv_queue kcp ! i)" by (rule bspec)
    then show ?thesis unfolding o using i by simp
  qed
  ultimately show ?thesis by (simp add: q_def)
qed


section \<open>Arrival\<close>

definition pushes :: "ikcpseg \<Rightarrow> bool" where
  "pushes s \<longleftrightarrow> ucast (h_cmd (hdr_of s)) = IKCP_CMD_PUSH"

definition arrived_at :: "u32 \<Rightarrow> ikcpseg list \<Rightarrow> nat set" where
  "arrived_at base ss = {off base (seg_sn s) | s. s \<in> set ss \<and> pushes s}"

lemma shrink_una_rcv: "same_rcv kcp (ikcp_shrink_buf (ikcp_parse_una (kcp\<lparr>k_rmt_wnd := w\<rparr>) una))"
  by (auto simp: ikcp_shrink_buf_def ikcp_parse_una_def same_rcv_def split: prod.splits list.splits)

lemma parse_ack_rcv: "same_rcv kcp (ikcp_shrink_buf (ikcp_parse_ack kcp sn))"
  by (auto simp: ikcp_shrink_buf_def ikcp_parse_ack_def same_rcv_def split: prod.splits list.splits)

lemma same_rcv_trans: "same_rcv a b \<Longrightarrow> same_rcv b c \<Longrightarrow> same_rcv a c"
  by (simp add: same_rcv_def)

lemma input_ack_rcv: "same_rcv (fst st) (fst (input_ack h st))"
proof -
  obtain kcp flag m ts where st: "st = (kcp, flag, m, ts)" by (cases st) auto
  let ?k1 = "if itimediff (k_current kcp) (h_ts h) \<ge> 0
             then ikcp_update_ack kcp (itimediff (k_current kcp) (h_ts h)) else kcp"
  have "same_rcv kcp ?k1" using update_ack_frame [of kcp] by (simp add: same_rcv_def)
  then have "same_rcv kcp (ikcp_shrink_buf (ikcp_parse_ack ?k1 (h_sn h)))"
    using parse_ack_rcv same_rcv_trans by blast
  then show ?thesis by (simp add: input_ack_def Let_def st)
qed

lemma reassembling_push:
  assumes r: "reassembling base frs A kcp" and inv: "ack_inv kcp" "unat (k_ackcount kcp) < 2147483648"
    and s: "unat (seg_len s) = length (seg_data s)" "\<forall>f \<in> set frs. seg_frg f < 256"
    and c: "off base (seg_sn s) < length frs \<Longrightarrow> fragment_copy (frs ! off base (seg_sn s)) s"
  shows "\<exists>kcp'. input_push raw (hdr_of s) (seg_data s) kcp = Some kcp' \<and>
     reassembling base frs (insert (off base (seg_sn s)) A) kcp'"
proof -
  note wt = window_test [OF rcv_wnd_31 [OF r], of "seg_sn s" "k_rcv_nxt kcp"]
  have sn: "h_sn (hdr_of s) = seg_sn s" by (simp add: hdr_of_def)
  show ?thesis
  proof (cases "itimediff (seg_sn s) (k_rcv_nxt kcp + k_rcv_wnd kcp) < 0")
    case False
    then show ?thesis using reassembling_outside [OF r] wt by (simp add: input_push_def sn)
  next
    case True
    obtain k1 where k1: "ikcp_ack_push kcp (seg_sn s) (h_ts (hdr_of s)) = Some k1" "same_rcv kcp k1"
      using ack_push_spec [OF inv] by blast
    have r1: "reassembling base frs A k1" using r reassembling_same [OF k1(2)] by simp
    have e: "k_rcv_nxt k1 = k_rcv_nxt kcp" using k1(2) by (simp add: same_rcv_def)
    show ?thesis
    proof (cases "itimediff (seg_sn s) (k_rcv_nxt kcp) \<ge> 0")
      case False
      then have "\<not> off (k_rcv_nxt k1) (seg_sn s) < unat (k_rcv_wnd k1)"
        using wt k1(2) by (simp add: same_rcv_def)
      then show ?thesis using True False reassembling_outside [OF r1] k1(1) by (simp add: input_push_def sn e)
    next
      case in_window: True
      let ?x = "push_seg raw (hdr_of s) (seg_data s)"
      have x: "seg_sn ?x = seg_sn s" "seg_wf ?x" using s(1) by (simp_all add: push_seg_def hdr_of_def seg_wf_def)
      have "fragment_copy (frs ! off base (seg_sn ?x)) ?x" if "off base (seg_sn ?x) < length frs"
      proof -
        have c': "fragment_copy (frs ! off base (seg_sn s)) s" using c that x by simp
        then have "seg_frg s < 256" using s(2) that x by (simp add: fragment_copy_def)
        then have "unat (seg_frg s) < 256" by (simp add: word_less_nat_alt)
        then have "(ucast (ucast (seg_frg s) :: u8) :: u32) = seg_frg s"
          by (simp add: word_unat_eq_iff unsigned_ucast_eq unsigned_take_bit_eq take_bit_nat_eq_self)
        then show ?thesis using c' by (simp add: x(1) fragment_copy_def) (simp add: push_seg_def hdr_of_def)
      qed
      then have "reassembling base frs (insert (off base (seg_sn s)) A) (ikcp_parse_data k1 ?x)"
        using reassembling_parse_data [OF r1 x(2)] x(1) by simp
      then show ?thesis using True in_window k1(1) by (simp add: input_push_def sn e)
    qed
  qed
qed


lemma reassembling_seg:
  assumes r: "reassembling base frs A (fst st)" and inv: "kcp_inv (fst st)" "unat (k_ackcount (fst st)) < 2147483648"
    and s: "unat (seg_len s) = length (seg_data s)" "\<forall>f \<in> set frs. seg_frg f < 256"
    and c: "pushes s \<Longrightarrow> off base (seg_sn s) < length frs \<Longrightarrow> fragment_copy (frs ! off base (seg_sn s)) s"
    and run: "input_seg raw (hdr_of s) (seg_data s) st = Some st'"
  shows "reassembling base frs (A \<union> arrived_at base [s]) (fst st')"
proof -
  obtain kcp flag m ts where st: "st = (kcp, flag, m, ts)" by (cases st) auto
  let ?k = "ikcp_shrink_buf (ikcp_parse_una (kcp\<lparr>k_rmt_wnd := ucast (h_wnd (hdr_of s))\<rparr>) (h_una (hdr_of s)))"
  have k: "reassembling base frs A ?k" using r reassembling_same [OF shrink_una_rcv] by (simp add: st)
  have "stepped 0 kcp ?k" using inv(1) by (intro parse_una_step) (simp add: st)
  then have i: "ack_inv ?k" "unat (k_ackcount ?k) < 2147483648"
    using inv(2) by (simp_all add: stepped_def kcp_inv_def st)
  have arr: "arrived_at base [s] = (if pushes s then {off base (seg_sn s)} else {})" by (auto simp: arrived_at_def)
  show ?thesis
  proof (cases "pushes s")
    case True
    then have cmd: "ucast (h_cmd (hdr_of s)) = IKCP_CMD_PUSH" by (simp add: pushes_def)
    obtain k1 where k1: "input_push raw (hdr_of s) (seg_data s) ?k = Some k1"
        "reassembling base frs (insert (off base (seg_sn s)) A) k1"
      using reassembling_push [OF k i s] c True by blast
    have "st' = (k1, flag, m, ts)" using run k1(1) by (simp add: input_seg_def st cmd kcp_consts Let_def)
    then show ?thesis using k1(2) True by (simp add: arr)
  next
    case False
    have "same_rcv ?k (fst st')"
      using run False input_ack_rcv [of "(?k, flag, m, ts)" "hdr_of s"]
      by (auto simp: input_seg_def st Let_def pushes_def same_rcv_def split: if_splits)
    then show ?thesis using k reassembling_same False by (simp add: arr)
  qed
qed

lemma reassembling_segs:
  assumes "reassembling base frs A (fst st)" "kcp_inv (fst st)" "unat (k_ackcount (fst st)) + length ss < 2147483648"
    and "\<forall>f \<in> set frs. seg_frg f < 256" "\<forall>s \<in> set ss. unat (seg_len s) = length (seg_data s)"
    and "\<forall>s \<in> set ss. pushes s \<and> off base (seg_sn s) < length frs \<longrightarrow> fragment_copy (frs ! off base (seg_sn s)) s"
    and "input_segs raw ss st = Some st'"
  shows "reassembling base frs (A \<union> arrived_at base ss) (fst st')"
  using assms
proof (induction ss arbitrary: st A)
  case Nil
  then show ?case by (simp add: arrived_at_def)
next
  case (Cons s ss)
  have small: "unat (k_ackcount (fst st)) < 2147483648" using Cons.prems(3) by simp
  have len: "unat (h_len (hdr_of s)) = length (seg_data s)" using Cons.prems(5) by (simp add: hdr_of_def)
  obtain st1 where s1: "input_seg raw (hdr_of s) (seg_data s) st = Some st1" "stepped 1 (fst st) (fst st1)"
    using input_seg_step [OF Cons.prems(2) small len [symmetric], of raw "fst (snd st)" "fst (snd (snd st))" "snd (snd (snd st))"]
    unfolding prod.collapse by blast
  have r1: "reassembling base frs (A \<union> arrived_at base [s]) (fst st1)"
    using reassembling_seg [OF Cons.prems(1,2) small _ Cons.prems(4) _ s1(1)] Cons.prems(5,6) by simp
  have i: "kcp_inv (fst st1)" "unat (k_ackcount (fst st1)) + length ss < 2147483648"
    using s1(2) Cons.prems(3) by (simp_all add: stepped_def)
  have run: "input_segs raw ss st1 = Some st'" using Cons.prems(7) s1(1) by simp
  have all: "\<forall>s \<in> set ss. unat (seg_len s) = length (seg_data s)"
      "\<forall>s \<in> set ss. pushes s \<and> off base (seg_sn s) < length frs \<longrightarrow> fragment_copy (frs ! off base (seg_sn s)) s"
    using Cons.prems(5,6) by simp_all
  have "arrived_at base (s # ss) = arrived_at base [s] \<union> arrived_at base ss" by (auto simp: arrived_at_def)
  then show ?case using Cons.IH [OF r1 i Cons.prems(4) all run] by (simp add: Un_assoc)
qed

lemma reassembling_input:
  assumes r: "reassembling base frs A kcp" and inv: "kcp_inv kcp"
    and small: "unat (k_ackcount kcp) + length d < 2147483648"
    and d: "d = concat (map wire ss)" "ss \<noteq> []" "\<forall>s \<in> set ss. wireable (k_conv kcp) s"
    and frg: "\<forall>f \<in> set frs. seg_frg f < 256"
    and c: "\<forall>s \<in> set ss. pushes s \<and> off base (seg_sn s) < length frs \<longrightarrow> fragment_copy (frs ! off base (seg_sn s)) s"
  shows "\<exists>kcp'. ikcp_input raw kcp (Some d) = Some (0, kcp') \<and> kcp_inv kcp' \<and> k_conv kcp' = k_conv kcp \<and>
     unat (k_ackcount kcp') \<le> unat (k_ackcount kcp) + length d \<and>
     reassembling base frs (A \<union> arrived_at base ss) kcp'"
proof -
  have lw: "24 \<le> length (wire s)" for s by (simp add: wire_def)
  have l: "24 * length ss \<le> length d"
    unfolding d(1) by (induction ss) (use lw in \<open>auto intro: add_mono\<close>)
  moreover have "0 < length ss" using d(2) by simp
  ultimately have ge: "24 \<le> length d" by linarith
  have "i32 (int (length d)) = int (length d)" using small by (intro i32_id) simp_all
  then have big: "\<not> i32 (int (length d)) < sint IKCP_OVERHEAD" using ge by (simp add: kcp_consts)
  let ?st = "(kcp, False, 0 :: u32, 0 :: u32)"
  have few: "unat (k_ackcount (fst ?st)) + length ss < 2147483648" using small l by simp
  obtain st' where st: "input_segs raw ss ?st = Some st'" "ikcp_input_loop raw ?st d = Some (0, st')"
    using input_loop_wire [of ss ?st raw] d(3) inv few unfolding d(1) by auto
  have data: "\<forall>s \<in> set ss. unat (seg_len s) = length (seg_data s)" using d(3) by (simp add: wireable_def)
  have r': "reassembling base frs (A \<union> arrived_at base ss) (fst st')"
    by (rule reassembling_segs [OF _ _ few frg data c st(1)]) (use r inv in simp_all)
  obtain k1 flag m ts where k1: "st' = (k1, flag, m, ts)" by (cases st') auto
  let ?k2 = "if flag then ikcp_parse_fastack k1 m ts else k1"
  let ?k3 = "if itimediff (k_snd_una ?k2) (k_snd_una kcp) > 0 then input_cwnd ?k2 else ?k2"
  have run: "ikcp_input raw kcp (Some d) = Some (0, ?k3)" using big st(2) by (simp add: ikcp_input_def k1 Let_def)
  have "same_rcv k1 ?k2" by (simp add: ikcp_parse_fastack_def same_rcv_def)
  moreover have "same_rcv ?k2 ?k3" using input_cwnd_frame [of ?k2] by (auto simp: same_rcv_def)
  ultimately have "reassembling base frs (A \<union> arrived_at base ss) ?k3"
    using r' reassembling_same same_rcv_trans by (simp only: k1 fst_conv)
  moreover obtain q kq where "ikcp_input raw kcp (Some d) = Some (q, kq)" "stepped (length d) kcp kq"
    using ikcp_input_step [OF inv small, of raw] by blast
  ultimately show ?thesis using run by (simp add: stepped_def)
qed


fun arrive :: "ikcpseg \<Rightarrow> ikcpcb \<Rightarrow> bytes list \<Rightarrow> ikcpcb option" where
  "arrive raw kcp [] = Some kcp"
| "arrive raw kcp (d # ds) = Option.bind (ikcp_input raw kcp (Some d)) (\<lambda>r. arrive raw (snd r) ds)"

lemma reassembling_arrive:
  assumes "reassembling base frs A kcp" "kcp_inv kcp"
    and "unat (k_ackcount kcp) + length (concat (map (\<lambda>ss. concat (map wire ss)) dss)) < 2147483648"
    and "\<forall>ss \<in> set dss. ss \<noteq> [] \<and> (\<forall>s \<in> set ss. wireable (k_conv kcp) s \<and>
       (pushes s \<and> off base (seg_sn s) < length frs \<longrightarrow> fragment_copy (frs ! off base (seg_sn s)) s))"
    and "\<forall>f \<in> set frs. seg_frg f < 256"
  shows "\<exists>kcp'. arrive raw kcp (map (\<lambda>ss. concat (map wire ss)) dss) = Some kcp' \<and>
     reassembling base frs (A \<union> arrived_at base (concat dss)) kcp'"
  using assms
proof (induction dss arbitrary: kcp A)
  case Nil
  then show ?case by (simp add: arrived_at_def)
next
  case (Cons ss dss)
  let ?d = "concat (map wire ss)"
  have small: "unat (k_ackcount kcp) + length ?d < 2147483648" using Cons.prems(3) by simp
  have ss: "ss \<noteq> []" "\<forall>s \<in> set ss. wireable (k_conv kcp) s"
      "\<forall>s \<in> set ss. pushes s \<and> off base (seg_sn s) < length frs \<longrightarrow> fragment_copy (frs ! off base (seg_sn s)) s"
    using Cons.prems(4) by simp_all
  obtain k1 where k1: "ikcp_input raw kcp (Some ?d) = Some (0, k1)" "kcp_inv k1" "k_conv k1 = k_conv kcp"
      "unat (k_ackcount k1) \<le> unat (k_ackcount kcp) + length ?d"
      "reassembling base frs (A \<union> arrived_at base ss) k1"
    using reassembling_input [OF Cons.prems(1,2) small refl ss(1,2) Cons.prems(5) ss(3), of raw] by blast
  have "unat (k_ackcount k1) + length (concat (map (\<lambda>ss. concat (map wire ss)) dss)) < 2147483648"
    using Cons.prems(3) k1(4) by simp
  moreover have "\<forall>ss \<in> set dss. ss \<noteq> [] \<and> (\<forall>s \<in> set ss. wireable (k_conv k1) s \<and>
       (pushes s \<and> off base (seg_sn s) < length frs \<longrightarrow> fragment_copy (frs ! off base (seg_sn s)) s))"
    using Cons.prems(4) k1(3) by simp
  moreover have "arrived_at base (concat (ss # dss)) = arrived_at base ss \<union> arrived_at base (concat dss)"
    by (auto simp: arrived_at_def)
  ultimately show ?case using Cons.IH [OF k1(5,2) _ _ Cons.prems(5)] k1(1) by (simp add: Un_assoc)
qed


section \<open>End to end\<close>

text \<open>C2: a message survives an unreliable network.  The fragments that \<open>ikcp_send\<close> queued
  travel to a receiver that waits for them with an empty queue and a window of at least their number.
  The datagrams that reach its \<open>ikcp_input\<close> may be in any order and repeated, may hold any
  mixture of acknowledgements, probes and data, and any window, time and acknowledgement fields; a
  data segment with the number of one of the fragments is that fragment, and each fragment comes at
  least once.  Then every datagram is taken in, and \<open>ikcp_recv\<close> returns the bytes sent.\<close>

theorem send_arrive_recv:
  assumes "\<forall>j. mal j \<noteq> None" and "0 < sint (k_mss tx)" and "length bs < 2 ^ 31"
    and "k_stream tx = 0" and "k_snd_queue tx = []"
    and "ikcp_send mal tx (Some bs) (int (length bs)) = (0, tx')"
    and "kcp_inv rx" and "k_rcv_queue rx = []" and "k_rcv_buf rx = []"
    and "length (k_snd_queue tx') \<le> unat (k_rcv_wnd rx)"
    and "\<forall>ss \<in> set dss. ss \<noteq> [] \<and> (\<forall>s \<in> set ss. wireable (k_conv rx) s \<and>
       (pushes s \<and> off (k_rcv_nxt rx) (seg_sn s) < length (k_snd_queue tx') \<longrightarrow>
          fragment_copy (k_snd_queue tx' ! off (k_rcv_nxt rx) (seg_sn s)) s))"
    and "\<forall>i < length (k_snd_queue tx'). \<exists>ss \<in> set dss. \<exists>s \<in> set ss. pushes s \<and> seg_sn s = k_rcv_nxt rx + of_nat i"
    and "unat (k_ackcount rx) + length (concat (map (\<lambda>ss. concat (map wire ss)) dss)) < 2 ^ 31"
    and "int (length bs) \<le> len"
  shows "\<exists>rx' rx''. arrive raw rx (map (\<lambda>ss. concat (map wire ss)) dss) = Some rx' \<and>
     ikcp_recv rx' True len = (int (length bs), bs, rx'')"
proof -
  let ?base = "k_rcv_nxt rx" and ?frs = "k_snd_queue tx'"
  have few: "frag_count tx (length bs) < 128"
    using ikcp_send_fragments_too_long [OF assms(2,3), of mal 0 "Some bs"] assms(4,6)
    by (auto simp: ikcp_send_def not_less [symmetric])
  have fr: "length ?frs = frag_count tx (length bs)" "map seg_frg ?frs = rev (map of_nat [0..<length ?frs])"
    using ikcp_send_fragments_spec [OF assms(1-3) few, of 0] assms(4-6) by (auto simp: ikcp_send_def)
  have small_frg: "\<forall>f \<in> set ?frs. seg_frg f < 256"
  proof
    fix f assume "f \<in> set ?frs"
    then have "seg_frg f \<in> set (map seg_frg ?frs)" by simp
    then obtain i where "i < length ?frs" "seg_frg f = of_nat i" unfolding fr(2) by auto
    moreover from this have "i < 128" using fr(1) few by simp
    ultimately show "seg_frg f < 256" by (simp add: word_less_nat_alt unat_of_nat)
  qed
  have r0: "reassembling ?base ?frs {} rx"
    using assms(7-10) by (simp add: reassembling_def kcp_inv_def)
  have bytes: "unat (k_ackcount rx) + length (concat (map (\<lambda>ss. concat (map wire ss)) dss)) < 2147483648"
    using assms(13) by simp
  obtain rx' where rx': "arrive raw rx (map (\<lambda>ss. concat (map wire ss)) dss) = Some rx'"
      "reassembling ?base ?frs (arrived_at ?base (concat dss)) rx'"
    using reassembling_arrive [OF r0 assms(7) bytes assms(11) small_frg, of raw] by auto
  have "i \<in> arrived_at ?base (concat dss)" if i: "i < length ?frs" for i
  proof -
    obtain ss s where s: "ss \<in> set dss" "s \<in> set ss" "pushes s" "seg_sn s = ?base + of_nat i" using assms(12) i by blast
    have "i < 2147483648" using i fr(1) few by simp
    then have "i = off ?base (seg_sn s)" using off_base [of i ?base] by (simp only: s(4))
    then show ?thesis using s(1-3) by (auto simp: arrived_at_def)
  qed
  then have all: "{..< length ?frs} \<subseteq> arrived_at ?base (concat dss)" by auto
  note here = reassembled [OF rx'(2) all]
  have "map (\<lambda>s. (seg_frg s, seg_len s, seg_data s)) (take (length ?frs) (k_rcv_queue rx')) =
      map (\<lambda>s. (seg_frg s, seg_len s, seg_data s)) ?frs"
    by (rule nth_equalityI) (use here in \<open>auto simp: fragment_copy_def\<close>)
  moreover have "rcv_inv rx'" using rx'(2) by (simp add: reassembling_def)
  ultimately show ?thesis
    using recv_sent_message [OF assms(1-6) _ _ assms(14), of rx'] rx'(1) by blast
qed

text \<open>Three bytes sent with segments of two bytes; the second fragment arrives first, with an
  acknowledgement in front of it, then the first fragment twice.\<close>

definition sample_frag :: "u32 \<Rightarrow> u32 \<Rightarrow> bytes \<Rightarrow> ikcpseg" where
  "sample_frag sn frg dat = sample_seg\<lparr>seg_conv := 7, seg_cmd := 81, seg_sn := sn, seg_frg := frg,
     seg_len := of_nat (length dat), seg_data := dat, seg_ts := 5, seg_wnd := 9\<rparr>"

lemma send_arrive_recv_witness:
  "\<exists>rx' rx''. arrive sample_seg (ikcp_init 7)
       (map (\<lambda>ss. concat (map wire ss)) [[(sample_frag 40 0 [])\<lparr>seg_cmd := 82\<rparr>, sample_frag 1 0 [3]],
          [sample_frag 0 1 [1, 2]], [sample_frag 0 1 [1, 2]]]) = Some rx' \<and>
     ikcp_recv rx' True 3 = (3, [1, 2, 3], rx'')"
proof -
  let ?tx = "sample_tx\<lparr>k_snd_queue := [sample_seg\<lparr>seg_frg := 1, seg_len := 2, seg_data := [1, 2]\<rparr>,
     sample_seg\<lparr>seg_frg := 0, seg_len := 1, seg_data := [3]\<rparr>], k_nsnd_que := 2\<rparr>"
  have "ikcp_send (\<lambda>_. Some sample_seg) sample_tx (Some [1, 2, 3]) (int (length [1, 2, 3 :: u8])) = (0, ?tx)"
    by (simp add: ikcp_send_def ikcp_send_fragments_def ikcp_send_count_def ikcp_send_loop.simps
        sample_tx_def ikcp_init_def kcp_consts)
  moreover have "kcp_inv (ikcp_init 7)" using conn_inv_init by (simp add: conn_inv_def)
  moreover have "length (wire (sample_frag sn frg dat)) = 24 + length dat" if "length dat < 5" for sn frg dat
    using that by (simp add: wire_def sample_frag_def unat_of_nat)
  ultimately show ?thesis
    using send_arrive_recv [of "\<lambda>_. Some sample_seg" sample_tx "[1, 2, 3]" ?tx "ikcp_init 7"
        "[[(sample_frag 40 0 [])\<lparr>seg_cmd := 82\<rparr>, sample_frag 1 0 [3]],
          [sample_frag 0 1 [1, 2]], [sample_frag 0 1 [1, 2]]]" 3 sample_seg]
    by (auto simp: less_Suc_eq sample_frag_def sample_tx_def ikcp_init_def kcp_consts sample_seg_def wireable_def
        known_cmd_def pushes_def hdr_of_def fragment_copy_def wire_def)
qed

end
