(* ===== verification/Kcp_Queue.thy ===== *)
theory Kcp_Queue
  imports Cvip_Prelude
begin

text \<open>
  The intrusive circular queues of \<open>code/kcp/ikcp.h\<close> (\<open>IQUEUE_*\<close>): a queue is a head
  node linked in a ring with its entries.  The macros are translated link by link over a heap with
  the fields \<open>next\<close> and \<open>prev\<close>; \<open>ring h p xs\<close> says that the ring at head
  \<open>p\<close> holds the entries \<open>xs\<close> in order.  The locale \<open>intrusive_queue\<close> is the
  contract the transport relies on when it treats its four queues as lists; its interpretation on
  the macros discharges it.
\<close>

type_synonym node = nat

record qheap =
  q_next :: "node \<Rightarrow> node"
  q_prev :: "node \<Rightarrow> node"

definition set_next :: "node \<Rightarrow> node \<Rightarrow> qheap \<Rightarrow> qheap" where
  "set_next p v h = h\<lparr>q_next := (q_next h)(p := v)\<rparr>"

definition set_prev :: "node \<Rightarrow> node \<Rightarrow> qheap \<Rightarrow> qheap" where
  "set_prev p v h = h\<lparr>q_prev := (q_prev h)(p := v)\<rparr>"

definition IQUEUE_INIT :: "node \<Rightarrow> qheap \<Rightarrow> qheap" where
  "IQUEUE_INIT p h = set_prev p p (set_next p p h)"

definition IQUEUE_ADD :: "node \<Rightarrow> node \<Rightarrow> qheap \<Rightarrow> qheap" where
  "IQUEUE_ADD n head h0 =
     (let h1 = set_prev n head h0;
          h2 = set_next n (q_next h1 head) h1;
          h3 = set_prev (q_next h2 head) n h2
      in set_next head n h3)"

definition IQUEUE_ADD_TAIL :: "node \<Rightarrow> node \<Rightarrow> qheap \<Rightarrow> qheap" where
  "IQUEUE_ADD_TAIL n head h0 =
     (let h1 = set_prev n (q_prev h0 head) h0;
          h2 = set_next n head h1;
          h3 = set_next (q_prev h2 head) n h2
      in set_prev head n h3)"

text \<open>The null pointer stored by \<open>IQUEUE_DEL\<close> is node 0.\<close>

definition IQUEUE_DEL :: "node \<Rightarrow> qheap \<Rightarrow> qheap" where
  "IQUEUE_DEL entry h0 =
     (let h1 = set_prev (q_next h0 entry) (q_prev h0 entry) h0;
          h2 = set_next (q_prev h1 entry) (q_next h1 entry) h1
      in set_prev entry 0 (set_next entry 0 h2))"

definition IQUEUE_DEL_INIT :: "node \<Rightarrow> qheap \<Rightarrow> qheap" where
  "IQUEUE_DEL_INIT entry h = IQUEUE_INIT entry (IQUEUE_DEL entry h)"

definition IQUEUE_IS_EMPTY :: "node \<Rightarrow> qheap \<Rightarrow> bool" where
  "IQUEUE_IS_EMPTY p h \<longleftrightarrow> p = q_next h p"

definition iqueue_splice :: "node \<Rightarrow> node \<Rightarrow> qheap \<Rightarrow> qheap" where
  "iqueue_splice list head h0 =
     (if IQUEUE_IS_EMPTY list h0 then h0
      else let first = q_next h0 list; last = q_prev h0 list; at = q_next h0 head;
               h1 = set_prev first head h0;
               h2 = set_next head first h1;
               h3 = set_next last at h2
           in set_prev at last h3)"

section \<open>Rings\<close>

fun linked :: "qheap \<Rightarrow> node list \<Rightarrow> bool" where
  "linked h (a # b # r) \<longleftrightarrow> q_next h a = b \<and> q_prev h b = a \<and> linked h (b # r)"
| "linked h _ \<longleftrightarrow> True"

definition ring :: "qheap \<Rightarrow> node \<Rightarrow> node list \<Rightarrow> bool" where
  "ring h p xs \<longleftrightarrow> distinct (p # xs) \<and> linked h (p # xs @ [p])"

lemma linked_append:
  "linked h (xs @ a # ys) \<longleftrightarrow> linked h (xs @ [a]) \<and> linked h (a # ys)"
  by (induction h xs rule: linked.induct) (auto simp: neq_Nil_conv elim!: linked.elims)

text \<open>A chain depends on the \<open>next\<close> links of all but its last node and the \<open>prev\<close>
  links of all but its first.\<close>

lemma linked_cong:
  assumes "\<And>x. x \<in> set (butlast xs) \<Longrightarrow> q_next h' x = q_next h x"
    and "\<And>x. x \<in> set (tl xs) \<Longrightarrow> q_prev h' x = q_prev h x"
  shows "linked h' xs \<longleftrightarrow> linked h xs"
  using assms
proof (induction h xs rule: linked.induct)
  case (1 h a b r)
  then have "linked h' (b # r) \<longleftrightarrow> linked h (b # r)"
    by (cases r) auto
  with 1 show ?case by simp
qed auto

lemma linked_ends:
  "linked h (a # xs @ [b]) \<Longrightarrow> q_next h a = hd (xs @ [b]) \<and> q_prev h b = last (a # xs)"
  by (induction xs arbitrary: a) auto

text \<open>
  The full cycle \<open>p # xs @ [p]\<close>: its \<open>butlast\<close> and its \<open>tl\<close> are
  distinct.  Inserting between two neighbours and removing a node change exactly the links around
  the place.
\<close>

definition chain :: "qheap \<Rightarrow> node list \<Rightarrow> bool" where
  "chain h zs \<longleftrightarrow> distinct (butlast zs) \<and> distinct (tl zs) \<and> linked h zs"

lemma ring_chain: "ring h p xs \<longleftrightarrow> chain h (p # xs @ [p])"
  by (auto simp: ring_def chain_def)

definition put_between :: "node \<Rightarrow> node \<Rightarrow> node \<Rightarrow> qheap \<Rightarrow> qheap" where
  "put_between a n b h =
     h\<lparr>q_next := (q_next h)(n := b, a := n), q_prev := (q_prev h)(n := a, b := n)\<rparr>"

lemma chain_put_between:
  assumes c: "chain h (us @ a # b # vs)" and n: "n \<notin> set (us @ a # b # vs)"
  shows "chain (put_between a n b h) (us @ a # n # b # vs)"
proof -
  let ?h = "put_between a n b h"
  have l: "linked h (us @ [a])" "linked h (b # vs)"
    using c linked_append [of h us a "b # vs"] by (auto simp: chain_def)
  have d: "a \<notin> set us" "b \<notin> set vs" "b \<notin> set (tl (us @ [a]))" "a \<notin> set (butlast (b # vs))"
    using c by (cases us; auto simp: chain_def butlast_append)+
  have "n \<notin> set (tl (us @ [a]))" "n \<notin> set (butlast (b # vs))"
    using n in_set_butlastD [of n "b # vs"] by (cases us; auto)+
  note n = n this
  have "linked ?h (us @ [a])"
    using d n by (subst linked_cong [OF _ _, of _ ?h h])
      (auto simp: put_between_def l butlast_append dest: in_set_butlastD list.set_sel(2))
  moreover have "linked ?h (b # vs)"
    using d n by (subst linked_cong [OF _ _, of _ ?h h])
      (auto simp: put_between_def l dest: in_set_butlastD)
  moreover have "q_next ?h a = n" "q_prev ?h n = a" "q_next ?h n = b" "q_prev ?h b = n"
    using n by (auto simp: put_between_def)
  ultimately have "linked ?h (us @ a # n # b # vs)"
    using linked_append [of ?h us a "n # b # vs"] by simp
  then show ?thesis
    using c n by (cases us) (auto simp: chain_def butlast_append split: if_splits dest: in_set_butlastD)
qed

lemma chain_unlink:
  assumes c: "chain h (us @ a # e # b # vs)" and e: "e \<notin> set (us @ a # b # vs)"
  shows "chain (h\<lparr>q_next := (q_next h)(a := b, e := x), q_prev := (q_prev h)(b := a, e := y)\<rparr>)
           (us @ a # b # vs)"
proof -
  let ?h = "h\<lparr>q_next := (q_next h)(a := b, e := x), q_prev := (q_prev h)(b := a, e := y)\<rparr>"
  have l: "linked h (us @ [a])" "linked h (b # vs)"
    using c linked_append [of h us a "e # b # vs"] by (auto simp: chain_def)
  have d: "a \<notin> set us" "b \<notin> set vs" "b \<notin> set (tl (us @ [a]))" "a \<notin> set (butlast (b # vs))"
    using c by (cases us; auto simp: chain_def butlast_append)+
  have "e \<notin> set (tl (us @ [a]))" "e \<notin> set (butlast (b # vs))"
    using e in_set_butlastD [of e "b # vs"] by (cases us; auto)+
  note e = e this
  have "linked ?h (us @ [a])"
    using d e by (subst linked_cong [OF _ _, of _ ?h h])
      (auto simp: l butlast_append dest: in_set_butlastD list.set_sel(2))
  moreover have "linked ?h (b # vs)"
    using d e by (subst linked_cong [OF _ _, of _ ?h h]) (auto simp: l dest: in_set_butlastD)
  ultimately have "linked ?h (us @ a # b # vs)"
    using e linked_append [of ?h us a "b # vs"] by auto
  then show ?thesis
    using c e by (cases us) (auto simp: chain_def butlast_append split: if_splits dest: in_set_butlastD)
qed

text \<open>The macros are these two changes.\<close>

lemma IQUEUE_ADD_between:
  "q_next h p = b \<Longrightarrow> n \<noteq> p \<Longrightarrow> n \<noteq> b \<Longrightarrow> IQUEUE_ADD n p h = put_between p n b h"
  by (auto simp: IQUEUE_ADD_def put_between_def set_next_def set_prev_def Let_def)

lemma IQUEUE_ADD_TAIL_between:
  "q_prev h p = a \<Longrightarrow> n \<noteq> p \<Longrightarrow> n \<noteq> a \<Longrightarrow> IQUEUE_ADD_TAIL n p h = put_between a n p h"
  by (auto simp: IQUEUE_ADD_TAIL_def put_between_def set_next_def set_prev_def Let_def)

lemma IQUEUE_DEL_unlink:
  "q_prev h e = a \<Longrightarrow> q_next h e = b \<Longrightarrow> e \<noteq> a \<Longrightarrow> e \<noteq> b \<Longrightarrow>
   IQUEUE_DEL e h = h\<lparr>q_next := (q_next h)(a := b, e := 0), q_prev := (q_prev h)(b := a, e := 0)\<rparr>"
  by (auto simp: IQUEUE_DEL_def set_next_def set_prev_def Let_def)

lemma ring_INIT: "ring (IQUEUE_INIT p h) p []"
  by (simp add: ring_def IQUEUE_INIT_def set_next_def set_prev_def)

lemma ring_ADD:
  assumes r: "ring h p xs" and n: "n \<notin> set (p # xs)" and a: "p # xs = us @ a # vs"
  shows "ring (IQUEUE_ADD n a h) p (tl (us @ a # n # vs))"
proof -
  obtain b ws where w: "vs @ [p] = b # ws" by (cases vs) auto
  have e: "p # xs @ [p] = us @ a # b # ws" using a w by (metis append_Cons append_assoc)
  have c: "chain h (us @ a # b # ws)" using r e by (simp add: ring_chain)
  have m: "n \<notin> set (us @ a # b # ws)" using n e by (metis Un_iff empty_iff empty_set insert_iff set_append list.simps(15))
  have "q_next h a = b" using c linked_append [of h us a "b # ws"] by (simp add: chain_def)
  then have "IQUEUE_ADD n a h = put_between a n b h" using m by (intro IQUEUE_ADD_between) auto
  then have "chain (IQUEUE_ADD n a h) (us @ a # n # b # ws)" using chain_put_between [OF c m] by simp
  moreover have "us @ a # n # b # ws = p # tl (us @ a # n # vs) @ [p]"
    using a w by (cases us) auto
  ultimately show ?thesis by (simp add: ring_chain)
qed

lemma ring_ADD_TAIL:
  assumes r: "ring h p xs" and n: "n \<notin> set (p # xs)"
  shows "ring (IQUEUE_ADD_TAIL n p h) p (xs @ [n])"
proof -
  obtain us a where u: "p # xs = us @ [a]" by (metis list.distinct(1) rev_exhaust)
  have c: "chain h (us @ a # p # [])" using r u by (simp add: ring_chain) (metis append_Cons append_assoc append_Nil)
  have m: "n \<notin> set (us @ a # p # [])" using n u by (metis Un_iff empty_iff empty_set insert_iff set_append list.simps(15))
  have "q_prev h p = a" using c linked_append [of h us a "[p]"] by (simp add: chain_def)
  then have "IQUEUE_ADD_TAIL n p h = put_between a n p h" using m by (intro IQUEUE_ADD_TAIL_between) auto
  then have "chain (IQUEUE_ADD_TAIL n p h) (us @ a # n # p # [])" using chain_put_between [OF c m] by simp
  moreover have "us @ a # n # p # [] = p # (xs @ [n]) @ [p]"
    using u by (metis append_Cons append_assoc append_Nil)
  ultimately show ?thesis by (simp add: ring_chain)
qed

lemma ring_DEL:
  assumes r: "ring h p (xs @ e # ys)"
  shows "ring (IQUEUE_DEL e h) p (xs @ ys)"
proof -
  obtain us a where u: "p # xs = us @ [a]" by (metis list.distinct(1) rev_exhaust)
  obtain b ws where w: "ys @ [p] = b # ws" by (cases ys) auto
  have eq: "p # (xs @ e # ys) @ [p] = us @ a # e # b # ws"
    using u w by (metis append_Cons append_assoc append_Nil)
  have c: "chain h (us @ a # e # b # ws)" using r eq by (simp add: ring_chain)
  have m: "e \<notin> set (us @ a # b # ws)"
  proof -
    have "e \<notin> set (p # xs)" "e \<notin> set (ys @ [p])" using r by (auto simp: ring_def)
    then show ?thesis using u w by auto
  qed
  have "q_next h a = e" "q_prev h e = a" "q_next h e = b" "q_prev h b = e"
    using c linked_append [of h us a "e # b # ws"] by (simp_all add: chain_def)
  then have "IQUEUE_DEL e h = h\<lparr>q_next := (q_next h)(a := b, e := 0), q_prev := (q_prev h)(b := a, e := 0)\<rparr>"
    using m by (intro IQUEUE_DEL_unlink) auto
  then have "chain (IQUEUE_DEL e h) (us @ a # b # ws)" using chain_unlink [OF c m] by simp
  moreover have "us @ a # b # ws = p # (xs @ ys) @ [p]"
    using u w by (metis append_Cons append_assoc append_Nil)
  ultimately show ?thesis by (simp add: ring_chain)
qed

lemma IQUEUE_IS_EMPTY_ring: "ring h p xs \<Longrightarrow> IQUEUE_IS_EMPTY p h \<longleftrightarrow> xs = []"
  by (cases xs) (auto simp: ring_def IQUEUE_IS_EMPTY_def)

text \<open>A ring whose nodes avoid the changed links stays as it is.\<close>

lemma ring_frame:
  assumes "\<And>x. x \<in> set (p # xs) \<Longrightarrow> q_next h' x = q_next h x \<and> q_prev h' x = q_prev h x"
  shows "ring h' p xs \<longleftrightarrow> ring h p xs"
proof -
  have "linked h' (p # xs @ [p]) \<longleftrightarrow> linked h (p # xs @ [p])"
    using assms by (intro linked_cong) (auto dest!: in_set_butlastD)
  then show ?thesis by (simp add: ring_def)
qed

lemma ring_neighbours:
  assumes "ring h p xs" "a \<in> set (p # xs)"
  shows "q_next h a \<in> set (p # xs) \<and> q_prev h a \<in> set (p # xs)"
proof -
  obtain us vs where s: "p # xs = us @ a # vs" using assms(2) by (meson split_list)
  obtain b ws where w: "vs @ [p] = b # ws" by (cases vs) auto
  have e: "p # xs @ [p] = us @ a # b # ws" using s w by (metis append_Cons append_assoc)
  have "linked h (us @ a # b # ws)" using assms(1) e by (simp add: ring_def)
  then have n: "q_next h a = b" and l: "linked h (us @ [a])"
    using linked_append [of h us a "b # ws"] by simp_all
  have "set (p # xs) = set (us @ a # vs)" using s by simp
  then have "b \<in> set (p # xs)" using w by (cases vs) auto
  moreover have "q_prev h a \<in> set (p # xs)"
  proof (cases us rule: rev_cases)
    case Nil
    then have "a = p" using s by simp
    then show ?thesis using linked_ends [of h p xs p] assms(1) by (simp add: ring_def)
  next
    case (snoc us' c)
    then have "q_prev h a = c" using l linked_append [of h us' c "[a]"] by simp
    then show ?thesis using snoc s by (metis Un_iff in_set_conv_decomp set_append)
  qed
  ultimately show ?thesis using n by simp
qed

section \<open>The queue contract\<close>

text \<open>
  What the transport relies on: the ring abstraction is kept by the four operations, and an
  operation on one ring leaves a disjoint ring alone.
\<close>

locale intrusive_queue =
  fixes init :: "'n \<Rightarrow> 'h \<Rightarrow> 'h"
    and add :: "'n \<Rightarrow> 'n \<Rightarrow> 'h \<Rightarrow> 'h"
    and add_tail :: "'n \<Rightarrow> 'n \<Rightarrow> 'h \<Rightarrow> 'h"
    and del :: "'n \<Rightarrow> 'h \<Rightarrow> 'h"
    and is_empty :: "'n \<Rightarrow> 'h \<Rightarrow> bool"
    and first :: "'n \<Rightarrow> 'h \<Rightarrow> 'n"
    and isring :: "'h \<Rightarrow> 'n \<Rightarrow> 'n list \<Rightarrow> bool"
  assumes isring_init: "isring (init p h) p []"
    and isring_distinct: "isring h p xs \<Longrightarrow> distinct (p # xs)"
    and isring_add_tail: "isring h p xs \<Longrightarrow> n \<notin> set (p # xs) \<Longrightarrow> isring (add_tail n p h) p (xs @ [n])"
    and isring_add: "isring h p xs \<Longrightarrow> n \<notin> set (p # xs) \<Longrightarrow> p # xs = us @ a # vs \<Longrightarrow>
      isring (add n a h) p (tl (us @ a # n # vs))"
    and isring_del: "isring h p (xs @ e # ys) \<Longrightarrow> isring (del e h) p (xs @ ys)"
    and isring_empty: "isring h p xs \<Longrightarrow> is_empty p h \<longleftrightarrow> xs = []"
    and isring_first: "isring h p (x # xs) \<Longrightarrow> first p h = x"
    and add_tail_frame: "isring h p xs \<Longrightarrow> isring h q ys \<Longrightarrow> set (p # xs) \<inter> set (q # ys) = {} \<Longrightarrow>
      n \<notin> set (q # ys) \<Longrightarrow> isring (add_tail n p h) q ys"
    and del_frame: "isring h p xs \<Longrightarrow> isring h q ys \<Longrightarrow> set (p # xs) \<inter> set (q # ys) = {} \<Longrightarrow>
      e \<in> set xs \<Longrightarrow> isring (del e h) q ys"
begin

text \<open>Taking the first entry of one queue and appending it to another, as \<open>ikcp_recv\<close>,
  \<open>ikcp_parse_data\<close> and \<open>ikcp_flush\<close> do.\<close>

lemma move_first:
  assumes "isring h p (x # xs)" "isring h q ys" "set (p # x # xs) \<inter> set (q # ys) = {}"
  shows "isring (add_tail x q (del x h)) p xs \<and> isring (add_tail x q (del x h)) q (ys @ [x])"
proof -
  have p: "isring (del x h) p xs"
    using isring_del [of h p "[]" x xs] assms(1) by simp
  have q: "isring (del x h) q ys"
    using del_frame [OF assms] by simp
  have d: "x \<notin> set (p # xs)" "x \<notin> set (q # ys)"
    using isring_distinct [OF assms(1)] assms(3) by auto
  have "isring (add_tail x q (del x h)) q (ys @ [x])"
    using isring_add_tail [OF q d(2)] .
  moreover have "isring (add_tail x q (del x h)) p xs"
    using add_tail_frame [OF q p _ d(1)] assms(3) by auto
  ultimately show ?thesis by simp
qed

end

lemma ring_ADD_TAIL_frame:
  assumes "ring h p xs" "ring h q ys" "set (p # xs) \<inter> set (q # ys) = {}" "n \<notin> set (q # ys)"
  shows "ring (IQUEUE_ADD_TAIL n p h) q ys"
proof -
  have "q_prev h p \<in> set (p # xs)" using ring_neighbours [OF assms(1)] by simp
  then have "ring (IQUEUE_ADD_TAIL n p h) q ys \<longleftrightarrow> ring h q ys"
    using assms(3,4) by (intro ring_frame)
      (auto simp: IQUEUE_ADD_TAIL_def set_next_def set_prev_def Let_def)
  with assms(2) show ?thesis by simp
qed

lemma ring_DEL_frame:
  assumes "ring h p xs" "ring h q ys" "set (p # xs) \<inter> set (q # ys) = {}" "e \<in> set xs"
  shows "ring (IQUEUE_DEL e h) q ys"
proof -
  have "q_prev h e \<in> set (p # xs)" "q_next h e \<in> set (p # xs)"
    using ring_neighbours [OF assms(1)] assms(4) by simp_all
  moreover have "q_prev (set_prev (q_next h e) (q_prev h e) h) e \<in> {q_prev h e}"
    by (auto simp: set_prev_def)
  ultimately have "ring (IQUEUE_DEL e h) q ys \<longleftrightarrow> ring h q ys"
    using assms(3,4) by (intro ring_frame)
      (auto simp: IQUEUE_DEL_def set_next_def set_prev_def Let_def)
  with assms(2) show ?thesis by simp
qed

interpretation iqueue: intrusive_queue IQUEUE_INIT IQUEUE_ADD IQUEUE_ADD_TAIL IQUEUE_DEL
  IQUEUE_IS_EMPTY "\<lambda>p h. q_next h p" ring
  by unfold_locales
    (rule ring_INIT, simp add: ring_def, erule (1) ring_ADD_TAIL, erule (2) ring_ADD,
     erule ring_DEL, erule IQUEUE_IS_EMPTY_ring, simp add: ring_def,
     erule (3) ring_ADD_TAIL_frame, erule (3) ring_DEL_frame)

section \<open>Draining one queue into another\<close>

text \<open>
  The loop \<open>while (!iqueue_is_empty(src)) { e = src->next; if (...) { iqueue_del(e);
  iqueue_add_tail(e, dst); ... } else break; }\<close> of \<open>ikcp_recv\<close>, \<open>ikcp_parse_data\<close>
  and \<open>ikcp_flush\<close>, for any test and update of the counters (\<open>step\<close>, \<open>None\<close>
  to break), on the pointers and on the lists.
\<close>

partial_function (option) iqueue_drain ::
  "(node \<Rightarrow> 's \<Rightarrow> 's option) \<Rightarrow> node \<Rightarrow> node \<Rightarrow> qheap \<Rightarrow> 's \<Rightarrow> (qheap \<times> 's) option" where
  "iqueue_drain step src dst h st =
     (if IQUEUE_IS_EMPTY src h then Some (h, st)
      else let e = q_next h src in
        (case step e st of
           None \<Rightarrow> Some (h, st)
         | Some st' \<Rightarrow> iqueue_drain step src dst (IQUEUE_ADD_TAIL e dst (IQUEUE_DEL e h)) st'))"

fun list_drain :: "('n \<Rightarrow> 's \<Rightarrow> 's option) \<Rightarrow> 'n list \<Rightarrow> 'n list \<Rightarrow> 's \<Rightarrow> 'n list \<times> 'n list \<times> 's" where
  "list_drain step [] ys st = ([], ys, st)"
| "list_drain step (x # xs) ys st =
     (case step x st of None \<Rightarrow> (x # xs, ys, st) | Some st' \<Rightarrow> list_drain step xs (ys @ [x]) st')"

text \<open>On the pointers the loop ends and does what \<open>list_drain\<close> does on lists: it moves
  the prefix of the source the loop body accepts to the end of the destination, and both lists are
  well-formed rings afterwards.\<close>

lemma drain_refines:
  assumes "ring h src xs" "ring h dst ys" "set (src # xs) \<inter> set (dst # ys) = {}"
    and "list_drain step xs ys st = (xs', ys', st')"
  shows "\<exists>h'. iqueue_drain step src dst h st = Some (h', st') \<and> ring h' src xs' \<and> ring h' dst ys'"
  using assms
proof (induction step xs ys st arbitrary: h rule: list_drain.induct)
  case (1 step ys st)
  then show ?case
    by (subst iqueue_drain.simps) (simp add: iqueue.isring_empty)
next
  case (2 step x xs ys st)
  have ne: "\<not> IQUEUE_IS_EMPTY src h" and fst: "q_next h src = x"
    using iqueue.isring_empty [OF "2.prems"(1)] iqueue.isring_first [OF "2.prems"(1)] by simp_all
  show ?case
  proof (cases "step x st")
    case None
    then show ?thesis
      using 2 ne fst by (subst iqueue_drain.simps) auto
  next
    case (Some s)
    let ?h = "IQUEUE_ADD_TAIL x dst (IQUEUE_DEL x h)"
    have "ring ?h src xs" "ring ?h dst (ys @ [x])"
      using iqueue.move_first [OF "2.prems"(1-3)] by simp_all
    moreover have "set (src # xs) \<inter> set (dst # ys @ [x]) = {}"
      using "2.prems"(3) iqueue.isring_distinct [OF "2.prems"(1)] by auto
    ultimately show ?thesis
      using "2.IH" [OF Some, of ?h] "2.prems"(4) Some ne fst by (subst iqueue_drain.simps) auto
  qed
qed

definition sample_heap :: qheap where
  "sample_heap = IQUEUE_ADD_TAIL 4 1 (IQUEUE_ADD_TAIL 3 1 (IQUEUE_INIT 1 (IQUEUE_INIT 2
     \<lparr>q_next = \<lambda>_. 0, q_prev = \<lambda>_. 0\<rparr>)))"

end
