(* ===== verification/Kcp_Links.thy ===== *)
theory Kcp_Links
  imports Kcp_Queue Kcp_Flush
begin

text \<open>
  The transport on its pointers: \<open>ikcp_parse_data\<close> and the loop of \<open>ikcp_flush\<close> that
  fills the window, over the links of the intrusive queues and a store \<open>sg\<close> that gives the
  segment of a node.  They refine the list operations of \<open>Kcp_Recv\<close> and \<open>Kcp_Flush\<close>;
  the four list fields of the control block are not used at this level.
\<close>

type_synonym store = "node \<Rightarrow> ikcpseg"

section \<open>The loops on pointers\<close>

text \<open>\<open>rcv_buf\<close> and \<open>rcv_queue\<close> are given by their head nodes.\<close>

definition rcv_drain :: "store \<Rightarrow> node \<Rightarrow> node \<Rightarrow> qheap \<Rightarrow> ikcpcb \<Rightarrow> (qheap \<times> ikcpcb) option" where
  "rcv_drain sg rcv_buf rcv_queue h kcp =
     iqueue_drain (\<lambda>e k. if seg_sn (sg e) = k_rcv_nxt k \<and> k_nrcv_que k < k_rcv_wnd k
         then Some (k\<lparr>k_nrcv_buf := k_nrcv_buf k - 1, k_nrcv_que := k_nrcv_que k + 1, k_rcv_nxt := k_rcv_nxt k + 1\<rparr>)
         else None) rcv_buf rcv_queue h kcp"

text \<open>The backward scan: the node where it stops, and whether it met the number.\<close>

partial_function (option) rcv_find :: "store \<Rightarrow> u32 \<Rightarrow> node \<Rightarrow> qheap \<Rightarrow> node \<Rightarrow> (node \<times> bool) option" where
  "rcv_find sg sn rcv_buf h p =
     (if p = rcv_buf then Some (p, False)
      else if seg_sn (sg p) = sn then Some (p, True)
      else if itimediff sn (seg_sn (sg p)) > 0 then Some (p, False)
      else rcv_find sg sn rcv_buf h (q_prev h p))"

text \<open>\<open>ikcp_parse_data\<close> for the new node \<open>e\<close>; a repeated or unacceptable segment is
  freed by the code and simply not linked here.\<close>

definition parse_data_links :: "store \<Rightarrow> node \<Rightarrow> node \<Rightarrow> qheap \<Rightarrow> node \<Rightarrow> ikcpcb \<Rightarrow> (qheap \<times> ikcpcb) option" where
  "parse_data_links sg rcv_buf rcv_queue h e kcp =
     (let sn = seg_sn (sg e) in
      if itimediff sn (k_rcv_nxt kcp + k_rcv_wnd kcp) \<ge> 0 \<or> itimediff sn (k_rcv_nxt kcp) < 0 then Some (h, kcp)
      else do {
        (p, repeat) \<leftarrow> rcv_find sg sn rcv_buf h (q_prev h rcv_buf);
        (if repeat then rcv_drain sg rcv_buf rcv_queue h kcp
         else rcv_drain sg rcv_buf rcv_queue (IQUEUE_ADD e p (IQUEUE_INIT e h))
                (kcp\<lparr>k_nrcv_buf := k_nrcv_buf kcp + 1\<rparr>))
      })"

text \<open>The window loop of \<open>ikcp_flush\<close>; it also writes the headers of the moved segments.\<close>

definition window_drain :: "u32 \<Rightarrow> u32 \<Rightarrow> u32 \<Rightarrow> node \<Rightarrow> node \<Rightarrow> qheap \<Rightarrow> ikcpcb \<times> store \<Rightarrow>
    (qheap \<times> ikcpcb \<times> store) option" where
  "window_drain cwnd wnd current snd_queue snd_buf =
     iqueue_drain (\<lambda>e (k, sg). if itimediff (k_snd_nxt k) (k_snd_una k + cwnd) < 0
         then Some (k\<lparr>k_nsnd_que := k_nsnd_que k - 1, k_nsnd_buf := k_nsnd_buf k + 1, k_snd_nxt := k_snd_nxt k + 1\<rparr>,
                    sg(e := flush_newseg k wnd current (sg e)))
         else None) snd_queue snd_buf"

section \<open>Refinement\<close>

text \<open>The control block of the list level, with the segments of the nodes in its lists.\<close>

definition rcv_lists :: "store \<Rightarrow> node list \<Rightarrow> node list \<Rightarrow> ikcpcb \<Rightarrow> ikcpcb" where
  "rcv_lists sg ns ms k = k\<lparr>k_rcv_buf := map sg ns, k_rcv_queue := map sg ms\<rparr>"

definition snd_lists :: "store \<Rightarrow> node list \<Rightarrow> node list \<Rightarrow> ikcpcb \<Rightarrow> ikcpcb" where
  "snd_lists sg ns ms k = k\<lparr>k_snd_queue := map sg ns, k_snd_buf := map sg ms\<rparr>"

lemma lists_sel [simp]:
  "k_rcv_buf (rcv_lists sg ns ms k) = map sg ns" "k_rcv_queue (rcv_lists sg ns ms k) = map sg ms"
  "k_rcv_nxt (rcv_lists sg ns ms k) = k_rcv_nxt k" "k_rcv_wnd (rcv_lists sg ns ms k) = k_rcv_wnd k"
  "k_nrcv_que (rcv_lists sg ns ms k) = k_nrcv_que k" "k_nrcv_buf (rcv_lists sg ns ms k) = k_nrcv_buf k"
  by (simp_all add: rcv_lists_def)

lemma rcv_list_drain:
  "\<exists>ns' ms' k'. list_drain (\<lambda>e k. if seg_sn (sg e) = k_rcv_nxt k \<and> k_nrcv_que k < k_rcv_wnd k
       then Some (k\<lparr>k_nrcv_buf := k_nrcv_buf k - 1, k_nrcv_que := k_nrcv_que k + 1, k_rcv_nxt := k_rcv_nxt k + 1\<rparr>)
       else None) ns ms k = (ns', ms', k') \<and> ms' @ ns' = ms @ ns \<and>
     rcv_move (rcv_lists sg ns ms k) = rcv_lists sg ns' ms' k'"
proof (induction ns arbitrary: ms k)
  case Nil
  have "rcv_move (rcv_lists sg [] ms k) = rcv_lists sg [] ms k"
    by (subst rcv_move.simps) (simp add: rcv_lists_def)
  then show ?case by simp
next
  case (Cons n ns)
  show ?case
  proof (cases "seg_sn (sg n) = k_rcv_nxt k \<and> k_nrcv_que k < k_rcv_wnd k")
    case False
    then have "rcv_move (rcv_lists sg (n # ns) ms k) = rcv_lists sg (n # ns) ms k"
      by (subst rcv_move.simps) (auto simp: rcv_lists_def)
    then show ?thesis using False by auto
  next
    case True
    let ?k = "k\<lparr>k_nrcv_buf := k_nrcv_buf k - 1, k_nrcv_que := k_nrcv_que k + 1, k_rcv_nxt := k_rcv_nxt k + 1\<rparr>"
    have "(rcv_lists sg (n # ns) ms k)\<lparr>k_rcv_buf := map sg ns, k_nrcv_buf := k_nrcv_buf k - 1,
        k_rcv_queue := map sg ms @ [sg n], k_nrcv_que := k_nrcv_que k + 1, k_rcv_nxt := k_rcv_nxt k + 1\<rparr> =
        rcv_lists sg ns (ms @ [n]) ?k"
      by (rule ikcpcb.equality) (simp_all add: rcv_lists_def)
    then have "rcv_move (rcv_lists sg (n # ns) ms k) = rcv_move (rcv_lists sg ns (ms @ [n]) ?k)"
      using True by (subst rcv_move.simps) simp
    then show ?thesis using True Cons.IH [of "ms @ [n]" ?k] by simp
  qed
qed

lemma rcv_drain_refines:
  assumes "ring h rcv_buf ns" "ring h rcv_queue ms" "set (rcv_buf # ns) \<inter> set (rcv_queue # ms) = {}"
  shows "\<exists>h' ns' ms' k'. rcv_drain sg rcv_buf rcv_queue h k = Some (h', k') \<and> ring h' rcv_buf ns' \<and>
     ring h' rcv_queue ms' \<and> ms' @ ns' = ms @ ns \<and> rcv_move (rcv_lists sg ns ms k) = rcv_lists sg ns' ms' k'"
proof -
  obtain ns' ms' k' where l: "list_drain (\<lambda>e k. if seg_sn (sg e) = k_rcv_nxt k \<and> k_nrcv_que k < k_rcv_wnd k
       then Some (k\<lparr>k_nrcv_buf := k_nrcv_buf k - 1, k_nrcv_que := k_nrcv_que k + 1, k_rcv_nxt := k_rcv_nxt k + 1\<rparr>)
       else None) ns ms k = (ns', ms', k')" "ms' @ ns' = ms @ ns"
     "rcv_move (rcv_lists sg ns ms k) = rcv_lists sg ns' ms' k'"
    using rcv_list_drain [of sg ns ms k] by blast
  show ?thesis using drain_refines [OF assms l(1)] l(2,3) unfolding rcv_drain_def by blast
qed

text \<open>The node in front of a suffix of the ring, and the scan towards it.\<close>

lemma ring_prev:
  assumes "ring h p (us @ a # vs)"
  shows "q_prev h a = last (p # us)"
proof -
  obtain ws c where u: "p # us = ws @ [c]" by (metis list.distinct(1) rev_exhaust)
  have "linked h (ws @ c # a # vs @ [p])" using assms u by (simp add: ring_def) (metis append_Cons append_assoc append_Nil)
  then have "q_prev h a = c" using linked_append [of h ws c "a # vs @ [p]"] by simp
  then show ?thesis using u by simp
qed

lemma ring_prev_head: "ring h p us \<Longrightarrow> q_prev h p = last (p # us)"
  using linked_ends [of h p us p] by (simp add: ring_def)

lemma rcv_find_scan:
  assumes "ring h rcv_buf (us @ vs)"
  shows "\<exists>p repeat. rcv_find sg (seg_sn x) rcv_buf h (last (rcv_buf # us)) = Some (p, repeat) \<and>
     (if repeat then rcv_scan x (rev (map sg us)) = None
      else \<exists>us1 us2. us = us1 @ us2 \<and> p = last (rcv_buf # us1) \<and>
             rcv_scan x (rev (map sg us)) = Some (rev (map sg us1 @ x # map sg us2)))"
  using assms
proof (induction us arbitrary: vs rule: rev_induct)
  case Nil
  then show ?case by (simp add: rcv_find.simps exI [of _ False])
next
  case (snoc a us)
  have ne: "a \<noteq> rcv_buf" and pr: "q_prev h a = last (rcv_buf # us)"
    using snoc.prems ring_prev [of h rcv_buf us a vs] by (auto simp: ring_def)
  have e: "rcv_scan x (rev (map sg (us @ [a]))) = rcv_scan x (sg a # rev (map sg us))" by simp
  consider "seg_sn (sg a) = seg_sn x" | "seg_sn (sg a) \<noteq> seg_sn x" "itimediff (seg_sn x) (seg_sn (sg a)) > 0"
    | "seg_sn (sg a) \<noteq> seg_sn x" "\<not> itimediff (seg_sn x) (seg_sn (sg a)) > 0" by blast
  then show ?case
  proof cases
    case 1
    then show ?thesis using ne by (simp add: rcv_find.simps exI [of _ True])
  next
    case 2
    then have "rcv_find sg (seg_sn x) rcv_buf h a = Some (a, False)" using ne by (simp add: rcv_find.simps)
    moreover have "rcv_scan x (rev (map sg (us @ [a]))) = Some (rev (map sg (us @ [a]) @ x # map sg []))"
      using 2 by simp
    ultimately show ?thesis by (intro exI [of _ a] exI [of _ False]) (force intro: exI [of _ "us @ [a]"])
  next
    case 3
    have f: "rcv_find sg (seg_sn x) rcv_buf h a = rcv_find sg (seg_sn x) rcv_buf h (last (rcv_buf # us))"
      using 3 ne by (subst rcv_find.simps) (simp add: pr)
    have sc: "rcv_scan x (rev (map sg (us @ [a]))) = map_option ((#) (sg a)) (rcv_scan x (rev (map sg us)))"
      using 3 by simp
    obtain p repeat where ih: "rcv_find sg (seg_sn x) rcv_buf h (last (rcv_buf # us)) = Some (p, repeat)"
        "if repeat then rcv_scan x (rev (map sg us)) = None
         else \<exists>us1 us2. us = us1 @ us2 \<and> p = last (rcv_buf # us1) \<and>
             rcv_scan x (rev (map sg us)) = Some (rev (map sg us1 @ x # map sg us2))"
      using snoc.IH [of "a # vs"] snoc.prems by auto
    show ?thesis
    proof (cases repeat)
      case True
      then show ?thesis using ih f sc by (simp add: exI [of _ True])
    next
      case False
      then obtain us1 us2 where u: "us = us1 @ us2" "p = last (rcv_buf # us1)"
          "rcv_scan x (rev (map sg us)) = Some (rev (map sg us1 @ x # map sg us2))" using ih(2) by auto
      then have "rcv_scan x (rev (map sg (us @ [a]))) = Some (rev (map sg us1 @ x # map sg (us2 @ [a])))"
        unfolding sc by simp
      then show ?thesis using False ih(1) f u(1,2)
        by (intro exI [of _ p] exI [of _ False]) (force intro: exI [of _ us1] exI [of _ "us2 @ [a]"])
    qed
  qed
qed

lemma ring_INIT_frame: "e \<notin> set (p # xs) \<Longrightarrow> ring (IQUEUE_INIT e h) p xs = ring h p xs"
  by (rule ring_frame) (auto simp: IQUEUE_INIT_def set_next_def set_prev_def)

lemma ring_ADD_frame:
  assumes "ring h p xs" "ring h q ys" "set (p # xs) \<inter> set (q # ys) = {}" "n \<notin> set (q # ys)" "a \<in> set (p # xs)"
  shows "ring (IQUEUE_ADD n a h) q ys"
proof -
  have "q_next h a \<in> set (p # xs)" using ring_neighbours [OF assms(1,5)] by simp
  then have "ring (IQUEUE_ADD n a h) q ys \<longleftrightarrow> ring h q ys"
    using assms(3-5) by (intro ring_frame) (auto simp: IQUEUE_ADD_def set_next_def set_prev_def Let_def)
  with assms(2) show ?thesis by simp
qed

lemma ring_ADD_after:
  assumes "ring h p (us1 @ us2)" "e \<notin> set (p # us1 @ us2)"
  shows "ring (IQUEUE_ADD e (last (p # us1)) (IQUEUE_INIT e h)) p (us1 @ e # us2)"
proof -
  have r: "ring (IQUEUE_INIT e h) p (us1 @ us2)" using assms ring_INIT_frame by simp
  obtain ws c where u: "p # us1 = ws @ [c]" by (metis list.distinct(1) rev_exhaust)
  have "p # us1 @ us2 = ws @ c # us2" using u by (metis append_Cons append_assoc append_Nil)
  note ring_ADD [OF r assms(2) this]
  moreover have "tl (ws @ c # e # us2) = us1 @ e # us2"
    using u by (metis append_Cons append_assoc append_Nil list.sel(3))
  ultimately show ?thesis using u by simp
qed


lemma snd_list_drain:
  assumes "distinct ns" "set ns \<inter> set ms = {}"
  shows "\<exists>ns' ms' k' sg'. list_drain (\<lambda>e (k, sg). if itimediff (k_snd_nxt k) (k_snd_una k + cwnd) < 0
         then Some (k\<lparr>k_nsnd_que := k_nsnd_que k - 1, k_nsnd_buf := k_nsnd_buf k + 1, k_snd_nxt := k_snd_nxt k + 1\<rparr>,
                    sg(e := flush_newseg k wnd current (sg e)))
         else None) ns ms (k, sg) = (ns', ms', k', sg') \<and> ms' @ ns' = ms @ ns \<and> (\<forall>n. n \<notin> set ns \<longrightarrow> sg' n = sg n) \<and>
     flush_move cwnd wnd current (snd_lists sg ns ms k) = snd_lists sg' ns' ms' k'"
  using assms
proof (induction ns arbitrary: ms k sg)
  case Nil
  have "flush_move cwnd wnd current (snd_lists sg [] ms k) = snd_lists sg [] ms k"
    by (subst flush_move.simps) (simp add: snd_lists_def)
  then show ?case by simp
next
  case (Cons n ns)
  show ?case
  proof (cases "itimediff (k_snd_nxt k) (k_snd_una k + cwnd) < 0")
    case False
    then have "flush_move cwnd wnd current (snd_lists sg (n # ns) ms k) = snd_lists sg (n # ns) ms k"
      by (subst flush_move.simps) (simp add: snd_lists_def)
    then show ?thesis using False by simp
  next
    case True
    let ?k = "k\<lparr>k_nsnd_que := k_nsnd_que k - 1, k_nsnd_buf := k_nsnd_buf k + 1, k_snd_nxt := k_snd_nxt k + 1\<rparr>"
    let ?sg = "sg(n := flush_newseg k wnd current (sg n))"
    have m: "map ?sg ns = map sg ns" "map ?sg ms = map sg ms" using Cons.prems by (auto cong: map_cong)
    have "flush_newseg (snd_lists sg (n # ns) ms k) wnd current (sg n) = flush_newseg k wnd current (sg n)"
      by (simp add: snd_lists_def flush_newseg_def)
    moreover have "(snd_lists sg (n # ns) ms k)\<lparr>k_snd_queue := map sg ns,
        k_snd_buf := map sg ms @ [flush_newseg k wnd current (sg n)], k_nsnd_que := k_nsnd_que k - 1,
        k_nsnd_buf := k_nsnd_buf k + 1, k_snd_nxt := k_snd_nxt k + 1\<rparr> = snd_lists ?sg ns (ms @ [n]) ?k"
      using m by (intro ikcpcb.equality) (simp_all add: snd_lists_def)
    ultimately have "flush_move cwnd wnd current (snd_lists sg (n # ns) ms k) =
        flush_move cwnd wnd current (snd_lists ?sg ns (ms @ [n]) ?k)"
      using True by (subst flush_move.simps) (simp add: snd_lists_def)
    moreover have "distinct ns" "set ns \<inter> set (ms @ [n]) = {}" using Cons.prems by auto
    ultimately show ?thesis using True Cons.IH [of "ms @ [n]" ?k ?sg] by fastforce
  qed
qed


section \<open>Properties\<close>

text \<open>C11: \<open>ikcp_parse_data\<close> on the pointers of the intrusive queues does what the list model
  of the transport does: the backward scan, the insertion and the move of what is next in order
  terminate, both queues are well-formed rings afterwards, and their segments and the counters are
  those of the list operation.\<close>

theorem parse_data_links_refines:
  assumes "ring h rcv_buf ns" and "ring h rcv_queue ms" and "set (rcv_buf # ns) \<inter> set (rcv_queue # ms) = {}"
    and "e \<notin> set (rcv_buf # ns) \<union> set (rcv_queue # ms)"
  shows "\<exists>h' ns' ms' k'. parse_data_links sg rcv_buf rcv_queue h e k = Some (h', k') \<and>
     ring h' rcv_buf ns' \<and> ring h' rcv_queue ms' \<and>
     ikcp_parse_data (rcv_lists sg ns ms k) (sg e) = rcv_lists sg ns' ms' k'"
proof (cases "itimediff (seg_sn (sg e)) (k_rcv_nxt k + k_rcv_wnd k) \<ge> 0 \<or> itimediff (seg_sn (sg e)) (k_rcv_nxt k) < 0")
  case True
  then have "ikcp_parse_data (rcv_lists sg ns ms k) (sg e) = rcv_lists sg ns ms k"
    by (simp add: ikcp_parse_data_def rcv_lists_def)
  then show ?thesis using True assms(1,2) by (auto simp: parse_data_links_def)
next
  case False
  obtain p repeat where f: "rcv_find sg (seg_sn (sg e)) rcv_buf h (q_prev h rcv_buf) = Some (p, repeat)"
      "if repeat then rcv_scan (sg e) (rev (map sg ns)) = None
       else \<exists>us1 us2. ns = us1 @ us2 \<and> p = last (rcv_buf # us1) \<and>
             rcv_scan (sg e) (rev (map sg ns)) = Some (rev (map sg us1 @ sg e # map sg us2))"
    using rcv_find_scan [of h rcv_buf ns "[]" sg "sg e"] assms(1) ring_prev_head [OF assms(1)] by auto
  show ?thesis
  proof (cases repeat)
    case True
    then have "ikcp_parse_data (rcv_lists sg ns ms k) (sg e) = rcv_move (rcv_lists sg ns ms k)"
      using False f(2) by (simp add: ikcp_parse_data_def Let_def)
    moreover have "parse_data_links sg rcv_buf rcv_queue h e k = rcv_drain sg rcv_buf rcv_queue h k"
      using False True f(1) by (simp add: parse_data_links_def Let_def)
    ultimately show ?thesis using rcv_drain_refines [OF assms(1-3), of sg k] by auto
  next
    case new: False
    then obtain us1 us2 where u: "ns = us1 @ us2" "p = last (rcv_buf # us1)"
        "rcv_scan (sg e) (rev (map sg ns)) = Some (rev (map sg us1 @ sg e # map sg us2))" using f(2) by auto
    let ?h = "IQUEUE_ADD e p (IQUEUE_INIT e h)" and ?k = "k\<lparr>k_nrcv_buf := k_nrcv_buf k + 1\<rparr>"
    have r: "ring ?h rcv_buf (us1 @ e # us2)"
      unfolding u(2) by (rule ring_ADD_after) (use assms(1,4) in \<open>simp_all add: u(1)\<close>)
    have i: "ring (IQUEUE_INIT e h) rcv_buf ns" "ring (IQUEUE_INIT e h) rcv_queue ms"
      using assms by (simp_all add: ring_INIT_frame)
    have "p \<in> set (rcv_buf # ns)" using u(1,2) by (auto simp: last_ConsR split: if_splits)
    then have q: "ring ?h rcv_queue ms" using ring_ADD_frame [OF i assms(3)] assms(4) by simp
    have "set (rcv_buf # us1 @ e # us2) \<inter> set (rcv_queue # ms) = {}" using assms(3,4) u(1) by auto
    note dr = rcv_drain_refines [OF r q this, of sg ?k]
    have "(rcv_lists sg ns ms k)\<lparr>k_rcv_buf := map sg us1 @ sg e # map sg us2, k_nrcv_buf := k_nrcv_buf k + 1\<rparr> =
        rcv_lists sg (us1 @ e # us2) ms ?k"
      by (rule ikcpcb.equality) (simp_all add: rcv_lists_def)
    then have "ikcp_parse_data (rcv_lists sg ns ms k) (sg e) = rcv_move (rcv_lists sg (us1 @ e # us2) ms ?k)"
      using False u(3) by (simp add: ikcp_parse_data_def Let_def)
    moreover have "parse_data_links sg rcv_buf rcv_queue h e k = rcv_drain sg rcv_buf rcv_queue ?h ?k"
      using False new f(1) by (simp add: parse_data_links_def Let_def)
    ultimately show ?thesis using dr by auto
  qed
qed

text \<open>C12: the loop of \<open>ikcp_flush\<close> that fills the window, on the pointers, does what the list
  model does: it ends, \<open>snd_queue\<close> and \<open>snd_buf\<close> are well-formed rings afterwards, the
  moved nodes hold the new data segments, no other segment is written, and the lists and counters are
  those of \<open>flush_move\<close>.\<close>

theorem window_drain_refines:
  assumes "ring h snd_queue ns" and "ring h snd_buf ms" and "set (snd_queue # ns) \<inter> set (snd_buf # ms) = {}"
  shows "\<exists>h' ns' ms' k' sg'. window_drain cwnd wnd current snd_queue snd_buf h (k, sg) = Some (h', k', sg') \<and>
     ring h' snd_queue ns' \<and> ring h' snd_buf ms' \<and> ms' @ ns' = ms @ ns \<and> (\<forall>n. n \<notin> set ns \<longrightarrow> sg' n = sg n) \<and>
     flush_move cwnd wnd current (snd_lists sg ns ms k) = snd_lists sg' ns' ms' k'"
proof -
  have d: "distinct ns" "set ns \<inter> set ms = {}" using assms by (auto simp: ring_def)
  obtain ns' ms' k' sg' where l: "list_drain (\<lambda>e (k, sg). if itimediff (k_snd_nxt k) (k_snd_una k + cwnd) < 0
         then Some (k\<lparr>k_nsnd_que := k_nsnd_que k - 1, k_nsnd_buf := k_nsnd_buf k + 1, k_snd_nxt := k_snd_nxt k + 1\<rparr>,
                    sg(e := flush_newseg k wnd current (sg e)))
         else None) ns ms (k, sg) = (ns', ms', k', sg')" "ms' @ ns' = ms @ ns" "\<forall>n. n \<notin> set ns \<longrightarrow> sg' n = sg n"
     "flush_move cwnd wnd current (snd_lists sg ns ms k) = snd_lists sg' ns' ms' k'"
    using snd_list_drain [OF d, of cwnd wnd current k sg] by blast
  show ?thesis using drain_refines [OF assms l(1)] l(2-4) unfolding window_drain_def by blast
qed

text \<open>Heads 1 and 2, nodes 3 and 4 in the first queue.\<close>

lemma sample_rings: "ring sample_heap 1 [3, 4]" "ring sample_heap 2 []"
  by (simp_all add: sample_heap_def ring_def IQUEUE_ADD_TAIL_def IQUEUE_INIT_def set_next_def set_prev_def Let_def)

definition sample_store :: store where
  "sample_store n = sample_seg\<lparr>seg_sn := (if n = 3 then 6 else if n = 4 then 8 else 5)\<rparr>"

lemma parse_data_links_refines_witness:
  "\<exists>h' k'. parse_data_links sample_store 1 2 sample_heap 9 ((ikcp_init 7)\<lparr>k_rcv_nxt := 5, k_nrcv_buf := 2\<rparr>) =
      Some (h', k') \<and> k_rcv_nxt k' = 7 \<and> k_nrcv_que k' = 2"
proof -
  let ?k = "(ikcp_init 7)\<lparr>k_rcv_nxt := 5, k_nrcv_buf := 2\<rparr>"
  have "k_rcv_nxt (ikcp_parse_data (rcv_lists sample_store [3, 4] [] ?k) (sample_store 9)) = 7 \<and>
      k_nrcv_que (ikcp_parse_data (rcv_lists sample_store [3, 4] [] ?k) (sample_store 9)) = 2"
    by (simp add: ikcp_parse_data_def Let_def rcv_move.simps itimediff_def sample_store_def sample_seg_def rcv_lists_def ikcp_init_def kcp_consts)
  then show ?thesis
    using parse_data_links_refines [OF sample_rings, of 9 sample_store ?k] by (auto simp: rcv_lists_def)
qed

lemma window_drain_refines_witness:
  "\<exists>h' k' sg'. window_drain 1 64 9 1 2 sample_heap (ikcp_init 7, sample_store) = Some (h', k', sg') \<and> k_snd_nxt k' = 1"
proof -
  have "k_snd_nxt (flush_move 1 64 9 (snd_lists sample_store [3, 4] [] (ikcp_init 7))) = 1"
    by (simp add: flush_move.simps itimediff_def snd_lists_def ikcp_init_def)
  then show ?thesis
    using window_drain_refines [OF sample_rings, of 1 64 9 "ikcp_init 7" sample_store] by (auto simp: snd_lists_def)
qed

end
