(* ===== verification/Sorting.thy ===== *)
theory Sorting
  imports Cvip_Prelude "HOL-Library.Multiset"
begin

text \<open>
  The in-place sorts of \<open>code/sort/sort.c\<close>.  An array of \<open>int\<close> is a list of integers,
  accessed through \<open>aget\<close> and \<open>aset\<close>: a result \<open>Some\<close> says that no access was out of
  bounds and that the loops ended.  Indices never leave the array, so their arithmetic does not
  overflow.  The properties state that each sort returns exactly the sorted array.
\<close>

section \<open>Shell sort\<close>

text \<open>The innermost loop: the array and \<open>j\<close> when it stops.\<close>

partial_function (option) shell_shift :: "int list \<Rightarrow> int \<Rightarrow> int \<Rightarrow> int \<Rightarrow> (int list \<times> int) option" where
  "shell_shift data gap temp j =
     (if j \<ge> 0 then do {
        x \<leftarrow> aget data j;
        (if temp < x then do {
           data' \<leftarrow> aset data (j + gap) x;
           shell_shift data' gap temp (j - gap)
         } else Some (data, j))
      } else Some (data, j))"

partial_function (option) shell_pass :: "int list \<Rightarrow> int \<Rightarrow> int \<Rightarrow> int \<Rightarrow> int list option" where
  "shell_pass data len gap i =
     (if i < len then do {
        temp \<leftarrow> aget data i;
        (data', j) \<leftarrow> shell_shift data gap temp (i - gap);
        data'' \<leftarrow> aset data' (j + gap) temp;
        shell_pass data'' len gap (i + 1)
      } else Some data)"

partial_function (option) shell_gaps :: "int list \<Rightarrow> int \<Rightarrow> int \<Rightarrow> int list option" where
  "shell_gaps data len gap =
     (if gap \<ge> 1 then do {
        data' \<leftarrow> shell_pass data len gap gap;
        shell_gaps data' len (gap sdiv 2)
      } else Some data)"

definition shell_sort :: "int list \<Rightarrow> int \<Rightarrow> int list option" where
  "shell_sort data len = shell_gaps data len (len sdiv 2)"

section \<open>Merge sort\<close>

text \<open>The first loop of \<open>merge\<close>: \<open>temp\<close>, \<open>i\<close>, \<open>j\<close> and \<open>k\<close> when it stops.\<close>

partial_function (option) merge_both ::
  "int list \<Rightarrow> int list \<Rightarrow> int \<Rightarrow> int \<Rightarrow> int \<Rightarrow> int \<Rightarrow> int \<Rightarrow> (int list \<times> int \<times> int \<times> int) option" where
  "merge_both data temp middle stop i j k =
     (if i \<le> middle \<and> j \<le> stop then do {
        x \<leftarrow> aget data i;
        y \<leftarrow> aget data j;
        (if x > y then do {
           temp' \<leftarrow> aset temp k y;
           merge_both data temp' middle stop i (j + 1) (k + 1)
         } else do {
           temp' \<leftarrow> aset temp k x;
           merge_both data temp' middle stop (i + 1) j (k + 1)
         })
      } else Some (temp, i, j, k))"

text \<open>The two loops that append a rest: \<open>while (i <= lim) temp[k++] = data[i++]\<close>.\<close>

partial_function (option) merge_rest ::
  "int list \<Rightarrow> int list \<Rightarrow> int \<Rightarrow> int \<Rightarrow> int \<Rightarrow> (int list \<times> int) option" where
  "merge_rest data temp lim i k =
     (if i \<le> lim then do {
        x \<leftarrow> aget data i;
        temp' \<leftarrow> aset temp k x;
        merge_rest data temp' lim (i + 1) (k + 1)
      } else Some (temp, k))"

partial_function (option) merge_back :: "int list \<Rightarrow> int list \<Rightarrow> int \<Rightarrow> int \<Rightarrow> int list option" where
  "merge_back data temp stop i =
     (if i \<le> stop then do {
        x \<leftarrow> aget temp i;
        data' \<leftarrow> aset data i x;
        merge_back data' temp stop (i + 1)
      } else Some data)"

definition merge :: "int list \<Rightarrow> int list \<Rightarrow> int \<Rightarrow> int \<Rightarrow> int \<Rightarrow> (int list \<times> int list) option" where
  "merge data temp start middle stop = do {
     (temp1, i, j, k) \<leftarrow> merge_both data temp middle stop start (middle + 1) start;
     (temp2, k) \<leftarrow> merge_rest data temp1 middle i k;
     (temp3, k) \<leftarrow> merge_rest data temp2 stop j k;
     data' \<leftarrow> merge_back data temp3 stop start;
     Some (data', temp3)
   }"

partial_function (option) merge_sort :: "int list \<Rightarrow> int list \<Rightarrow> int \<Rightarrow> int \<Rightarrow> (int list \<times> int list) option" where
  "merge_sort data temp start stop =
     (if start < stop then do {
        let middle = start + (stop - start) sdiv 2;
        (data1, temp1) \<leftarrow> merge_sort data temp start middle;
        (data2, temp2) \<leftarrow> merge_sort data1 temp1 (middle + 1) stop;
        merge data2 temp2 start middle stop
      } else Some (data, temp))"

section \<open>Quicksort\<close>

partial_function (option) quick_right :: "int list \<Rightarrow> int \<Rightarrow> int \<Rightarrow> int \<Rightarrow> int option" where
  "quick_right data key i j =
     (if i < j then do {
        x \<leftarrow> aget data j;
        (if key \<le> x then quick_right data key i (j - 1) else Some j)
      } else Some j)"

partial_function (option) quick_left :: "int list \<Rightarrow> int \<Rightarrow> int \<Rightarrow> int \<Rightarrow> int option" where
  "quick_left data key i j =
     (if i < j then do {
        x \<leftarrow> aget data i;
        (if key \<ge> x then quick_left data key (i + 1) j else Some i)
      } else Some i)"

partial_function (option) quick_partition :: "int list \<Rightarrow> int \<Rightarrow> int \<Rightarrow> int \<Rightarrow> (int list \<times> int) option" where
  "quick_partition data key i j =
     (if i < j then do {
        j' \<leftarrow> quick_right data key i j;
        x \<leftarrow> aget data j';
        data1 \<leftarrow> aset data i x;
        i' \<leftarrow> quick_left data1 key i j';
        y \<leftarrow> aget data1 i';
        data2 \<leftarrow> aset data1 j' y;
        quick_partition data2 key i' j'
      } else Some (data, i))"

partial_function (option) quick :: "int list \<Rightarrow> int \<Rightarrow> int \<Rightarrow> int list option" where
  "quick data left right =
     (if left \<ge> right then Some data
      else do {
        key \<leftarrow> aget data left;
        (data1, i) \<leftarrow> quick_partition data key left right;
        data2 \<leftarrow> aset data1 i key;
        data3 \<leftarrow> quick data2 left (i - 1);
        quick data3 (i + 1) right
      })"

definition quick_sort :: "int list \<Rightarrow> int \<Rightarrow> int list option" where
  "quick_sort data len = quick data 0 (len - 1)"

section \<open>Moving elements\<close>

text \<open>Filling a hole: moving the element at \<open>j\<close> into the hole at \<open>i\<close> moves the hole.\<close>

lemma mset_move_hole:
  assumes "i < length xs" "j < length xs"
  shows "mset (xs[i := xs ! j, j := x]) = mset (xs[i := x])"
proof (cases "i = j")
  case True
  then show ?thesis by simp
next
  case False
  then have "mset (xs[i := xs ! j, j := x]) = mset ((xs[i := x])[i := (xs[i := x]) ! j, j := (xs[i := x]) ! i])"
    using assms by simp
  also have "\<dots> = mset (xs[i := x])"
    using mset_swap [of j "xs[i := x]" i] assms by simp
  finally show ?thesis .
qed

lemma sdiv2: "0 \<le> (a::int) \<Longrightarrow> a sdiv 2 = a div 2"
  by (cases "a = 0") (simp_all add: signed_divide_int_def sgn_if)

section \<open>Shell sort is correct\<close>

text \<open>
  The shift loop from \<open>j\<close>, the hole being at \<open>h = j + gap\<close>: it ends with the hole at
  some \<open>h'\<close>; for \<open>gap = 1\<close> it has moved the elements above \<open>temp\<close> up by one.
\<close>

lemma shell_shift_spec:
  assumes "1 \<le> gap" "h < length data" "j = int h - gap"
  shows "\<exists>d h'. shell_shift data gap temp j = Some (d, int h' - gap) \<and> h' \<le> h \<and> length d = length data \<and>
     mset (d[h' := temp]) = mset (data[h := temp]) \<and> (\<forall>p. h < p \<longrightarrow> d ! p = data ! p) \<and>
     (gap = 1 \<longrightarrow> (\<forall>p < h'. d ! p = data ! p) \<and> (0 < h' \<longrightarrow> data ! (h' - 1) \<le> temp) \<and>
        (\<forall>p. h' < p \<and> p \<le> h \<longrightarrow> d ! p = data ! (p - 1) \<and> temp < data ! (p - 1)))"
  using assms(2,3)
proof (induction h arbitrary: data j rule: less_induct)
  case (less h)
  show ?case
  proof (cases "j \<ge> 0 \<and> temp < data ! nat j")
    case False
    then have "shell_shift data gap temp j = Some (data, j)"
      using less.prems assms(1) by (subst shell_shift.simps) (auto simp: aget_def)
    moreover have "0 < h \<longrightarrow> gap = 1 \<longrightarrow> data ! (h - 1) \<le> temp"
      using False less.prems by (auto simp: nat_diff_distrib)
    ultimately show ?thesis
      using less.prems by (intro exI [of _ data] exI [of _ h]) auto
  next
    case True
    define g where "g = nat j"
    have g: "j = int g" "g < h" "int h = j + gap" using True less.prems assms(1) by (auto simp: g_def)
    let ?d = "data[h := data ! g]"
    have step: "shell_shift data gap temp j = shell_shift ?d gap temp (int g - gap)"
      using True less.prems(1) g(2) unfolding g(1)
      by (subst shell_shift.simps) (simp add: arr_simps g(3) [symmetric, unfolded g(1)])
    obtain d h' where ih: "shell_shift ?d gap temp (int g - gap) = Some (d, int h' - gap)" "h' \<le> g"
        "length d = length data" "mset (d[h' := temp]) = mset (?d[g := temp])" "\<forall>p. g < p \<longrightarrow> d ! p = ?d ! p"
        "gap = 1 \<longrightarrow> (\<forall>p < h'. d ! p = ?d ! p) \<and> (0 < h' \<longrightarrow> ?d ! (h' - 1) \<le> temp) \<and>
          (\<forall>p. h' < p \<and> p \<le> g \<longrightarrow> d ! p = ?d ! (p - 1) \<and> temp < ?d ! (p - 1))"
      using less.IH [OF g(2), of ?d "int g - gap"] less.prems(1) g(2) by auto
    have tg: "temp < data ! g" using True by (simp add: g_def)
    have "d ! p = data ! (p - 1) \<and> temp < data ! (p - 1)" if "gap = 1" "h' < p" "p \<le> h" for p
    proof -
      have h: "h = Suc g" using g that(1) by simp
      show ?thesis
      proof (cases "p = h")
        case True
        then show ?thesis using ih(5) tg h less.prems(1) by simp
      next
        case False
        then have p: "p \<le> g" "p - 1 \<noteq> h" using that h by simp_all
        have e: "?d ! (p - 1) = data ! (p - 1)" using p(2) by (simp only: nth_list_update_neq)
        show ?thesis using ih(6) that p(1) unfolding e [symmetric] by blast
      qed
    qed
    then have "gap = 1 \<longrightarrow> (\<forall>p. h' < p \<and> p \<le> h \<longrightarrow> d ! p = data ! (p - 1) \<and> temp < data ! (p - 1))"
      by blast
    moreover have "mset (?d[g := temp]) = mset (data[h := temp])"
      using mset_move_hole [of h data g temp] less.prems(1) g(2) by simp
    moreover have "\<forall>p. h < p \<longrightarrow> d ! p = data ! p" using ih(5) g(2) by simp
    moreover have "gap = 1 \<longrightarrow> (\<forall>p < h'. d ! p = data ! p) \<and> (0 < h' \<longrightarrow> data ! (h' - 1) \<le> temp)"
      using ih(2,6) g(2) by simp
    moreover have "h' \<le> h" "length d = length data" using ih(2,3) g(2) by simp_all
    ultimately show ?thesis
      using ih(1,4) unfolding step by metis
  qed
qed

lemma sorted_insert_hole:
  assumes "sorted (take i data)" "i < length data" "h \<le> i" "length d = length data"
    and "\<forall>p < h. d ! p = data ! p" "0 < h \<longrightarrow> data ! (h - 1) \<le> temp"
    and "\<forall>p. h < p \<and> p \<le> i \<longrightarrow> d ! p = data ! (p - 1) \<and> temp < data ! (p - 1)"
  shows "sorted (take (Suc i) (d[h := temp]))"
proof -
  have s: "data ! p \<le> data ! q" if "p \<le> q" "q < i" for p q
    using assms(1,2) that sorted_iff_nth_mono [of "take i data"] by simp
  show ?thesis
    unfolding sorted_iff_nth_mono
  proof (intro allI impI)
    fix p q assume pq: "p \<le> q" "q < length (take (Suc i) (d[h := temp]))"
    then have q: "q \<le> i" using assms(2,4) by simp
    consider "q < h" | "q = h" "p < h" | "q = h" "p = h" | "h < q" "p < h" | "h < q" "p = h" | "h < p"
      using pq(1) by linarith
    then have "d[h := temp] ! p \<le> d[h := temp] ! q"
    proof cases
      case 2
      then have "data ! p \<le> data ! (h - 1)" using assms(3) by (intro s) auto
      then show ?thesis using 2 assms by simp
    next
      case 4
      then show ?thesis using q assms s [of p "q - 1"] by simp
    next
      case 1
      then show ?thesis using assms s [OF pq(1)] pq(1) by simp
    next
      case 3
      then show ?thesis by simp
    next
      case 5
      then show ?thesis using assms q by (simp add: less_imp_le)
    next
      case 6
      then show ?thesis using assms q pq(1) s [of "p - 1" "q - 1"] by simp
    qed
    then show "take (Suc i) (d[h := temp]) ! p \<le> take (Suc i) (d[h := temp]) ! q"
      using pq q by simp
  qed
qed

lemma shell_pass_spec:
  assumes "1 \<le> gap" "gap \<le> int i" "int (length data) = len" "gap = 1 \<longrightarrow> sorted (take i data)" "i \<le> length data"
  shows "\<exists>d. shell_pass data len gap (int i) = Some d \<and> mset d = mset data \<and> (gap = 1 \<longrightarrow> sorted d)"
  using assms(2-)
proof (induction "length data - i" arbitrary: i data)
  case 0
  then show ?case by (subst shell_pass.simps) simp
next
  case (Suc n)
  have i: "i < length data" using Suc.hyps(2) by simp
  obtain d h where sh: "shell_shift data gap (data ! i) (int i - gap) = Some (d, int h - gap)" "h \<le> i"
      "length d = length data" "mset (d[h := data ! i]) = mset (data[i := data ! i])"
      "gap = 1 \<longrightarrow> (\<forall>p < h. d ! p = data ! p) \<and> (0 < h \<longrightarrow> data ! (h - 1) \<le> data ! i) \<and>
        (\<forall>p. h < p \<and> p \<le> i \<longrightarrow> d ! p = data ! (p - 1) \<and> data ! i < data ! (p - 1))"
    using shell_shift_spec [OF assms(1) i refl, of "data ! i"] by auto
  let ?d = "d[h := data ! i]"
  have step: "shell_pass data len gap (int i) = shell_pass ?d len gap (int (Suc i))"
    using i sh(1-3) Suc.prems(2)
    by (subst shell_pass.simps) (simp add: arr_simps algebra_simps)
  have srt: "gap = 1 \<longrightarrow> sorted (take (Suc i) ?d)"
    using sorted_insert_hole [of i data h d "data ! i"] Suc.prems(3) i sh by auto
  have n: "n = length ?d - Suc i" using Suc.hyps(2) sh(3) by simp
  have m: "mset ?d = mset data" using sh(4) by simp
  have g: "gap \<le> int (Suc i)" "int (length ?d) = len" "Suc i \<le> length ?d" using Suc.prems sh(3) i by simp_all
  from Suc.hyps(1) [OF n g(1,2) srt g(3)] show ?case
    unfolding step m by simp
qed

lemma shell_gaps_spec:
  assumes "int (length data) = len" "0 \<le> gap" "gap \<le> len" "gap = 0 \<longrightarrow> sorted data"
  shows "shell_gaps data len gap = Some (sort data)"
  using assms
proof (induction "nat gap" arbitrary: gap data rule: less_induct)
  case less
  show ?case
  proof (cases "gap \<ge> 1")
    case False
    then show ?thesis using less.prems by (subst shell_gaps.simps) (simp add: sorted_sort_id)
  next
    case True
    define g where "g = nat gap"
    have g: "gap = int g" "1 \<le> g" "g \<le> length data" using True less.prems(1,3) by (simp_all add: g_def)
    have s1: "gap = 1 \<longrightarrow> sorted (take g data)" using g(1,3) by (cases data) auto
    have gi: "gap \<le> int g" using g(1) by simp
    obtain d where d: "shell_pass data len gap gap = Some d" "mset d = mset data" "gap = 1 \<longrightarrow> sorted d"
      using shell_pass_spec [OF True gi less.prems(1) s1 g(3)] unfolding g(1) [symmetric] by blast
    have e: "sort d = sort data" using d(2) by (metis sorted_list_of_multiset_mset)
    have len: "length d = length data" using d(2) by (metis mset_eq_length)
    have half: "gap sdiv 2 = gap div 2" using True by (simp add: sdiv2)
    have "shell_gaps d len (gap sdiv 2) = Some (sort d)"
      unfolding half
    proof (rule less.hyps)
      show "gap div 2 = 0 \<longrightarrow> sorted d" using d(3) True by auto
      show "nat (gap div 2) < nat gap" using True by simp
      show "int (length d) = len" using less.prems(1) len by simp
      show "0 \<le> gap div 2" using True by simp
      show "gap div 2 \<le> len" using True less.prems(3) by linarith
    qed
    then show ?thesis using True d(1) by (subst shell_gaps.simps) (simp add: e)
  qed
qed


section \<open>Merge sort is correct\<close>

text \<open>The reference: merging two lists, the left one first on ties.\<close>

fun mrg :: "int list \<Rightarrow> int list \<Rightarrow> int list" where
  "mrg (x # xs) (y # ys) = (if x > y then y # mrg (x # xs) ys else x # mrg xs (y # ys))"
| "mrg [] ys = ys"
| "mrg xs [] = xs"

lemma mrg_Nil2 [simp]: "mrg xs [] = xs"
  by (cases xs) simp_all

lemma mset_mrg [simp]: "mset (mrg xs ys) = mset xs + mset ys"
  by (induction xs ys rule: mrg.induct) simp_all

lemma set_mrg [simp]: "set (mrg xs ys) = set xs \<union> set ys"
  by (induction xs ys rule: mrg.induct) auto

lemma length_mrg [simp]: "length (mrg xs ys) = length xs + length ys"
  by (induction xs ys rule: mrg.induct) simp_all

lemma sorted_mrg: "sorted xs \<Longrightarrow> sorted ys \<Longrightarrow> sorted (mrg xs ys)"
  by (induction xs ys rule: mrg.induct) force+

lemma mrg_sort: "mrg (sort xs) (sort ys) = sort (xs @ ys)"
  by (rule properties_for_sort [symmetric]) (simp_all add: sorted_mrg)

text \<open>The part of an array from \<open>i\<close> up to \<open>j\<close>, \<open>j\<close> excluded; and writing a list there.\<close>

definition part :: "int list \<Rightarrow> nat \<Rightarrow> nat \<Rightarrow> int list" where
  "part xs i j = drop i (take j xs)"

definition patch :: "int list \<Rightarrow> nat \<Rightarrow> int list \<Rightarrow> int list" where
  "patch xs i ys = take i xs @ ys @ drop (i + length ys) xs"

lemma length_part [simp]: "j \<le> length xs \<Longrightarrow> length (part xs i j) = j - i"
  by (simp add: part_def)

lemma part_Cons: "i < j \<Longrightarrow> j \<le> length xs \<Longrightarrow> part xs i j = xs ! i # part xs (Suc i) j"
  by (simp add: part_def Cons_nth_drop_Suc [symmetric])

lemma part_empty [simp]: "part xs i i = []"
  by (simp add: part_def)

lemma part_append:
  assumes "i \<le> j" "j \<le> k"
  shows "part xs i j @ part xs j k = part xs i k"
proof -
  have e: "k - i = (j - i) + (k - j)" using assms by simp
  have "take (k - i) (drop i xs) = take (j - i) (drop i xs) @ take (k - j) (drop (j - i) (drop i xs))"
    by (subst e, rule take_add)
  then show ?thesis using assms by (simp add: part_def drop_take)
qed

lemma length_patch [simp]: "i + length ys \<le> length xs \<Longrightarrow> length (patch xs i ys) = length xs"
  by (simp add: patch_def)

lemma patch_Nil [simp]: "patch xs i [] = xs"
  by (simp add: patch_def)

lemma patch_Cons: "i < length xs \<Longrightarrow> patch xs i (y # ys) = patch (xs[i := y]) (Suc i) ys"
  by (simp add: patch_def take_Suc_conv_app_nth upd_conv_take_nth_drop ac_simps)

lemma patch_append: "i + length ys \<le> length xs \<Longrightarrow> patch (patch xs i ys) (i + length ys) zs = patch xs i (ys @ zs)"
  by (simp add: patch_def ac_simps)


text \<open>Each loop of \<open>merge\<close> patches its destination.\<close>

lemma merge_rest_spec:
  assumes "i \<le> Suc n" "Suc n \<le> length data" "k + (Suc n - i) \<le> length temp"
  shows "merge_rest data temp (int n) (int i) (int k) =
     Some (patch temp k (part data i (Suc n)), int (k + (Suc n - i)))"
  using assms
proof (induction "Suc n - i" arbitrary: i k temp)
  case 0
  then show ?case by (subst merge_rest.simps) simp
next
  case (Suc d)
  have i: "i \<le> n" "i < length data" "k < length temp" using Suc.hyps(2) Suc.prems by simp_all
  have "merge_rest data temp (int n) (int i) (int k) =
      merge_rest data (temp[k := data ! i]) (int n) (int (Suc i)) (int (Suc k))"
    using i by (subst merge_rest.simps) (simp add: arr_simps algebra_simps)
  also have "\<dots> = Some (patch (temp[k := data ! i]) (Suc k) (part data (Suc i) (Suc n)), int (Suc k + (Suc n - Suc i)))"
    using Suc.hyps(2) Suc.prems i by (intro Suc.hyps(1)) simp_all
  also have "patch (temp[k := data ! i]) (Suc k) (part data (Suc i) (Suc n)) = patch temp k (part data i (Suc n))"
    using i Suc.prems by (simp add: part_Cons patch_Cons)
  finally show ?case using i by (simp add: Suc_diff_le)
qed

lemma merge_back_spec:
  assumes "i \<le> Suc n" "Suc n \<le> length data" "Suc n \<le> length temp"
  shows "merge_back data temp (int n) (int i) = Some (patch data i (part temp i (Suc n)))"
  using assms
proof (induction "Suc n - i" arbitrary: i data)
  case 0
  then show ?case by (subst merge_back.simps) simp
next
  case (Suc d)
  have i: "i \<le> n" "i < length data" "i < length temp" using Suc.hyps(2) Suc.prems by simp_all
  have "merge_back data temp (int n) (int i) = merge_back (data[i := temp ! i]) temp (int n) (int (Suc i))"
    using i by (subst merge_back.simps) (simp add: arr_simps algebra_simps)
  also have "\<dots> = Some (patch (data[i := temp ! i]) (Suc i) (part temp (Suc i) (Suc n)))"
    using Suc.hyps(2) Suc.prems i by (intro Suc.hyps(1)) simp_all
  finally show ?case using i Suc.prems by (simp add: part_Cons patch_Cons)
qed

lemma merge_both_spec:
  assumes "i \<le> Suc m" "j \<le> Suc n" "Suc m \<le> length data" "Suc n \<le> length data"
    and "k + (Suc m - i) + (Suc n - j) \<le> length temp"
  shows "\<exists>t i' j' k'. merge_both data temp (int m) (int n) (int i) (int j) (int k) = Some (t, int i', int j', int k') \<and>
     i' \<le> Suc m \<and> j' \<le> Suc n \<and> (i' = Suc m \<or> j' = Suc n) \<and> length t = length temp \<and>
     k' + (Suc m - i') + (Suc n - j') = k + (Suc m - i) + (Suc n - j) \<and>
     patch t k' (part data i' (Suc m) @ part data j' (Suc n)) =
       patch temp k (mrg (part data i (Suc m)) (part data j (Suc n)))"
  using assms
proof (induction "(Suc m - i) + (Suc n - j)" arbitrary: i j k temp rule: less_induct)
  case less
  show ?case
  proof (cases "i \<le> m \<and> j \<le> n")
    case False
    then have "merge_both data temp (int m) (int n) (int i) (int j) (int k) = Some (temp, int i, int j, int k)"
      by (subst merge_both.simps) auto
    moreover have "i = Suc m \<or> j = Suc n" using False less.prems(1,2) by auto
    ultimately show ?thesis using less.prems
      by (intro exI [of _ temp] exI [of _ i] exI [of _ j] exI [of _ k]) auto
  next
    case True
    then have b: "i < length data" "j < length data" "k < length temp" "i \<le> m" "j \<le> n" using less.prems by auto
    let ?y = "data ! i > data ! j"
    define t1 where "t1 = temp[k := (if ?y then data ! j else data ! i)]"
    define i1 where "i1 = (if ?y then i else Suc i)"
    define j1 where "j1 = (if ?y then Suc j else j)"
    have step: "merge_both data temp (int m) (int n) (int i) (int j) (int k) =
        merge_both data t1 (int m) (int n) (int i1) (int j1) (int (Suc k))"
      using b by (subst merge_both.simps) (simp add: arr_simps algebra_simps t1_def i1_def j1_def)
    have p: "(Suc m - i1) + (Suc n - j1) < (Suc m - i) + (Suc n - j)" "i1 \<le> Suc m" "j1 \<le> Suc n"
      "Suc k + (Suc m - i1) + (Suc n - j1) = k + (Suc m - i) + (Suc n - j)"
      using b by (auto simp: i1_def j1_def)
    have l: "length t1 = length temp" by (simp add: t1_def)
    have pm: "patch t1 (Suc k) (mrg (part data i1 (Suc m)) (part data j1 (Suc n))) =
        patch temp k (mrg (part data i (Suc m)) (part data j (Suc n)))"
      using b less.prems by (simp add: i1_def j1_def t1_def part_Cons [of i] part_Cons [of j] patch_Cons)
    have fit: "Suc k + (Suc m - i1) + (Suc n - j1) \<le> length t1" using p(4) l less.prems(5) by simp
    from less.hyps [OF p(1-3) less.prems(3,4) fit] show ?thesis
      unfolding step pm l p(4) .
  qed
qed


lemma part_patch: "i + length ys \<le> length xs \<Longrightarrow> part (patch xs i ys) i (i + length ys) = ys"
  by (simp add: part_def patch_def)

lemma patch_part:
  assumes "i \<le> j" "j \<le> length xs"
  shows "patch xs i (part xs i j) = xs"
proof -
  have "drop j xs = drop (j - i) (drop i xs)" using assms by simp
  then show ?thesis using assms by (simp add: patch_def part_def drop_take del: drop_drop)
qed

lemma part_patch_out:
  "i + length ys \<le> length xs \<Longrightarrow> b \<le> i \<or> i + length ys \<le> a \<Longrightarrow> part (patch xs i ys) a b = part xs a b"
  by (auto simp: part_def patch_def drop_take min_def)

lemma merge_spec:
  assumes "s \<le> m" "m < e" "e < length data" "length data \<le> length temp"
  shows "\<exists>t. merge data temp (int s) (int m) (int e) =
     Some (patch data s (mrg (part data s (Suc m)) (part data (Suc m) (Suc e))), t) \<and> length t = length temp"
proof -
  let ?r = "mrg (part data s (Suc m)) (part data (Suc m) (Suc e))"
  have lr: "length ?r = Suc e - s" using assms by simp
  have pre: "s \<le> Suc m" "Suc m \<le> Suc e" "Suc m \<le> length data" "Suc e \<le> length data"
      "s + (Suc m - s) + (Suc e - Suc m) \<le> length temp" using assms by simp_all
  from merge_both_spec [OF pre] obtain t i j k where b: "merge_both data temp (int m) (int e) (int s) (int (Suc m)) (int s) = Some (t, int i, int j, int k)"
      "i \<le> Suc m" "j \<le> Suc e" "i = Suc m \<or> j = Suc e" "length t = length temp"
      "k + (Suc m - i) + (Suc e - j) = s + (Suc m - s) + (Suc e - Suc m)"
      "patch t k (part data i (Suc m) @ part data j (Suc e)) = patch temp s ?r"
    by blast
  have fit: "k + (Suc m - i) + (Suc e - j) \<le> length t" using b(5,6) assms by simp
  let ?t1 = "patch t k (part data i (Suc m))"
  have r1: "merge_rest data t (int m) (int i) (int k) = Some (?t1, int (k + (Suc m - i)))"
    using merge_rest_spec [of i m data k t] b(2) fit assms by simp
  have l1: "length ?t1 = length t" using fit assms by simp
  have r2: "merge_rest data ?t1 (int e) (int j) (int (k + (Suc m - i))) =
      Some (patch ?t1 (k + (Suc m - i)) (part data j (Suc e)), int (k + (Suc m - i) + (Suc e - j)))"
    using merge_rest_spec [of j e data "k + (Suc m - i)" ?t1] b(3) fit assms l1 by simp
  have "patch ?t1 (k + length (part data i (Suc m))) (part data j (Suc e)) = patch t k (part data i (Suc m) @ part data j (Suc e))"
    using fit assms by (intro patch_append) simp
  then have t3: "patch ?t1 (k + (Suc m - i)) (part data j (Suc e)) = patch temp s ?r"
    using b(7) assms by simp
  have l3: "length (patch temp s ?r) = length temp" using lr assms by simp
  have "part (patch temp s ?r) s (s + length ?r) = ?r" using lr assms by (intro part_patch) simp
  then have p3: "part (patch temp s ?r) s (Suc e) = ?r" using lr assms by simp
  have "merge_back data (patch temp s ?r) (int e) (int s) = Some (patch data s ?r)"
    using merge_back_spec [of s e data "patch temp s ?r"] assms l3 p3 by simp
  then have "merge data temp (int s) (int m) (int e) = Some (patch data s ?r, patch temp s ?r)"
    using b(1) r1 r2 t3 by (simp add: merge_def algebra_simps)
  then show ?thesis using l3 by blast
qed

lemma merge_sort_spec:
  assumes "e < length data" "length data \<le> length temp" "s \<le> Suc e"
  shows "\<exists>t. merge_sort data temp (int s) (int e) = Some (patch data s (sort (part data s (Suc e))), t) \<and>
     length t = length temp"
  using assms
proof (induction "e - s" arbitrary: s e data temp rule: less_induct)
  case less
  show ?case
  proof (cases "s < e")
    case False
    have "length (part data s (Suc e)) \<le> 1" using False less.prems by simp
    then have "sort (part data s (Suc e)) = part data s (Suc e)"
      by (cases "part data s (Suc e)") auto
    moreover have "patch data s (part data s (Suc e)) = data"
      using less.prems by (intro patch_part) simp_all
    ultimately show ?thesis using False by (subst merge_sort.simps) simp
  next
    case True
    define m where "m = s + (e - s) div 2"
    have m: "s \<le> m" "m < e" using True div_less_dividend [of 2 "e - s"] by (simp_all add: m_def)
    have dm: "m - s < e - s" "e - Suc m < e - s" using m by linarith+
    have mid: "int s + (int e - int s) sdiv 2 = int m"
      using True by (simp add: sdiv2 m_def of_nat_diff zdiv_int)
    let ?a = "part data s (Suc m)" and ?b = "part data (Suc m) (Suc e)"
    have la: "length ?a = Suc m - s" "length ?b = e - m" using less.prems m by simp_all
    let ?d1 = "patch data s (sort ?a)"
    obtain t1 where 1: "merge_sort data temp (int s) (int m) = Some (?d1, t1)" "length t1 = length temp"
      using less.hyps [OF dm(1), of data temp] less.prems m by auto
    have l1: "length ?d1 = length data" using la less.prems m by simp
    have pb: "part ?d1 (Suc m) (Suc e) = ?b" using la less.prems m by (intro part_patch_out) simp_all
    let ?d2 = "patch ?d1 (Suc m) (sort ?b)"
    obtain t2 where 2: "merge_sort ?d1 t1 (int (Suc m)) (int e) = Some (?d2, t2)" "length t2 = length temp"
      using less.hyps [OF dm(2), of ?d1 t1] less.prems m l1 1(2) by (auto simp: pb)
    have d2: "?d2 = patch data s (sort ?a @ sort ?b)"
      using patch_append [of s "sort ?a" data "sort ?b"] la less.prems m by simp
    have l2: "length ?d2 = length data" unfolding d2 using la less.prems m by simp
    have p2: "part ?d2 s (Suc m) = sort ?a" "part ?d2 (Suc m) (Suc e) = sort ?b"
    proof -
      have "part ?d2 s (Suc m) = part ?d1 s (Suc m)" using la l1 less.prems m by (intro part_patch_out) simp_all
      also have "\<dots> = sort ?a" using part_patch [of s "sort ?a" data] la less.prems m by simp
      finally show "part ?d2 s (Suc m) = sort ?a" .
      show "part ?d2 (Suc m) (Suc e) = sort ?b"
        using part_patch [of "Suc m" "sort ?b" ?d1] la l1 less.prems m by simp
    qed
    obtain t3 where 3: "merge ?d2 t2 (int s) (int m) (int e) = Some (patch ?d2 s (mrg (sort ?a) (sort ?b)), t3)"
        "length t3 = length temp"
      using merge_spec [of s m e ?d2 t2] m less.prems l2 2(2) by (auto simp: p2)
    have s: "mrg (sort ?a) (sort ?b) = sort (part data s (Suc e))"
      using part_append [of s "Suc m" "Suc e" data] m by (simp add: mrg_sort)
    have "patch ?d2 s (sort (part data s (Suc e))) = patch data s (sort (part data s (Suc e)))"
      unfolding d2 using la less.prems m by (simp add: patch_def)
    then show ?thesis
      using True 1(1) 2(1) 3 by (subst merge_sort.simps) (simp add: mid s add.commute)
  qed
qed


section \<open>Quicksort is correct\<close>

lemma quick_right_spec:
  assumes "i \<le> j" "j < length data"
  shows "\<exists>j'. quick_right data key (int i) (int j) = Some (int j') \<and> i \<le> j' \<and> j' \<le> j \<and>
     (\<forall>p. j' < p \<and> p \<le> j \<longrightarrow> key \<le> data ! p) \<and> (j' = i \<or> data ! j' < key)"
  using assms
proof (induction "j - i" arbitrary: j)
  case 0
  then show ?case by (subst quick_right.simps) (auto intro: exI [of _ i])
next
  case (Suc d)
  show ?case
  proof (cases "key \<le> data ! j")
    case False
    then show ?thesis using Suc.prems by (subst quick_right.simps) (auto simp: arr_simps intro: exI [of _ j])
  next
    case True
    have "i < j" using Suc.hyps(2) by simp
    then have step: "quick_right data key (int i) (int j) = quick_right data key (int i) (int (j - 1))"
      using True Suc.prems by (subst quick_right.simps) (simp add: arr_simps of_nat_diff)
    have "d = j - 1 - i" "i \<le> j - 1" "j - 1 < length data" using Suc.hyps(2) Suc.prems by simp_all
    from Suc.hyps(1) [OF this] obtain j' where j': "quick_right data key (int i) (int (j - 1)) = Some (int j')"
        "i \<le> j'" "j' \<le> j - 1" "\<forall>p. j' < p \<and> p \<le> j - 1 \<longrightarrow> key \<le> data ! p" "j' = i \<or> data ! j' < key" by blast
    have "key \<le> data ! p" if "j' < p" "p \<le> j" for p
      using j'(4) True that by (cases "p = j") auto
    then show ?thesis unfolding step using j' by (intro exI [of _ j']) auto
  qed
qed

lemma quick_left_spec:
  assumes "i \<le> j" "j < length data"
  shows "\<exists>i'. quick_left data key (int i) (int j) = Some (int i') \<and> i \<le> i' \<and> i' \<le> j \<and>
     (\<forall>p. i \<le> p \<and> p < i' \<longrightarrow> data ! p \<le> key) \<and> (i' = j \<or> key < data ! i')"
  using assms
proof (induction "j - i" arbitrary: i)
  case 0
  then show ?case by (subst quick_left.simps) (auto intro: exI [of _ j])
next
  case (Suc d)
  show ?case
  proof (cases "data ! i \<le> key")
    case False
    then show ?thesis using Suc.prems by (subst quick_left.simps) (auto simp: arr_simps intro: exI [of _ i])
  next
    case True
    have "i < j" using Suc.hyps(2) by simp
    then have step: "quick_left data key (int i) (int j) = quick_left data key (int (Suc i)) (int j)"
      using True Suc.prems by (subst quick_left.simps) (simp add: arr_simps add.commute)
    have "d = j - Suc i" "Suc i \<le> j" using Suc.hyps(2) Suc.prems by simp_all
    from Suc.hyps(1) [OF this Suc.prems(2)] obtain i' where i': "quick_left data key (int (Suc i)) (int j) = Some (int i')"
        "Suc i \<le> i'" "i' \<le> j" "\<forall>p. Suc i \<le> p \<and> p < i' \<longrightarrow> data ! p \<le> key" "i' = j \<or> key < data ! i'" by blast
    have "data ! p \<le> key" if "i \<le> p" "p < i'" for p
      using i'(4) True that by (cases "p = i") auto
    then show ?thesis unfolding step using i' by (intro exI [of _ i']) auto
  qed
qed

text \<open>The partition, the hole being at \<open>i\<close>.\<close>

lemma quick_partition_spec:
  assumes "i \<le> j" "j < length data"
  shows "\<exists>d h. quick_partition data key (int i) (int j) = Some (d, int h) \<and> i \<le> h \<and> h \<le> j \<and>
     length d = length data \<and> mset (d[h := key]) = mset (data[i := key]) \<and>
     (\<forall>p. p < i \<or> j < p \<longrightarrow> d ! p = data ! p) \<and>
     (\<forall>p. i \<le> p \<and> p < h \<longrightarrow> d ! p \<le> key) \<and> (\<forall>p. h < p \<and> p \<le> j \<longrightarrow> key \<le> d ! p)"
  using assms
proof (induction "j - i" arbitrary: i j data rule: less_induct)
  case less
  show ?case
  proof (cases "i < j")
    case False
    then show ?thesis using less.prems
      by (subst quick_partition.simps) (auto intro!: exI [of _ data] exI [of _ i])
  next
    case True
    obtain j1 where j1: "quick_right data key (int i) (int j) = Some (int j1)" "i \<le> j1" "j1 \<le> j"
        "\<And>p. j1 < p \<Longrightarrow> p \<le> j \<Longrightarrow> key \<le> data ! p" "j1 = i \<or> data ! j1 < key"
      using quick_right_spec [OF less.prems] by blast
    define d1 where "d1 = data[i := data ! j1]"
    have l1: "length d1 = length data" by (simp add: d1_def)
    have "j1 < length d1" using j1(3) less.prems l1 by simp
    from quick_left_spec [OF j1(2) this, of key] obtain i1 where i1: "quick_left d1 key (int i) (int j1) = Some (int i1)" "i \<le> i1" "i1 \<le> j1"
        "\<And>p. i \<le> p \<Longrightarrow> p < i1 \<Longrightarrow> d1 ! p \<le> key" "i1 = j1 \<or> key < d1 ! i1"
      by blast
    define d2 where "d2 = d1[j1 := d1 ! i1]"
    have l2: "length d2 = length data" by (simp add: d2_def l1)
    have step: "quick_partition data key (int i) (int j) = quick_partition d2 key (int i1) (int j1)"
      using True j1(1-3) i1(1-3) less.prems
      by (subst quick_partition.simps) (simp add: arr_simps d1_def d2_def)
    have move: "mset (d2[i1 := key]) = mset (data[i := key])"
    proof -
      have "mset (d2[i1 := key]) = mset (d1[j1 := key])"
        using mset_move_hole [of j1 d1 i1 key] i1(3) j1(3) less.prems l1 by (simp add: d2_def)
      also have "\<dots> = mset (data[i := key])"
        using mset_move_hole [of i data j1 key] j1(2,3) less.prems by (simp add: d1_def)
      finally show ?thesis .
    qed
    have dec: "j1 - i1 < j - i"
    proof (cases "j1 = j")
      case False
      then show ?thesis using True j1(2,3) i1(2,3) by linarith
    next
      case same: True
      then have "data ! j1 < key" using j1(5) True by auto
      then have "d1 ! i < key" using less.prems True by (simp add: d1_def)
      then have "i1 \<noteq> i" using i1(5) True same by auto
      then show ?thesis using i1(2,3) same True by linarith
    qed
    have "j1 < length d2" using j1(3) less.prems l2 by simp
    from less.hyps [OF dec i1(3) this] obtain d h where ih:
      "quick_partition d2 key (int i1) (int j1) = Some (d, int h)" "i1 \<le> h" "h \<le> j1" "length d = length d2"
      "mset (d[h := key]) = mset (d2[i1 := key])" "\<And>p. p < i1 \<or> j1 < p \<Longrightarrow> d ! p = d2 ! p"
      "\<And>p. i1 \<le> p \<Longrightarrow> p < h \<Longrightarrow> d ! p \<le> key" "\<And>p. h < p \<Longrightarrow> p \<le> j1 \<Longrightarrow> key \<le> d ! p" by blast
    have out: "d ! p = data ! p" if "p < i \<or> j < p" for p
      using ih(6) [of p] that i1(2,3) j1(2,3) by (auto simp: d2_def d1_def)
    have low: "d ! p \<le> key" if "i \<le> p" "p < h" for p
    proof (cases "p < i1")
      case True
      then have "d ! p = d1 ! p" using ih(6) [of p] i1(3) by (simp add: d2_def)
      then show ?thesis using i1(4) that True by simp
    qed (use ih(7) that in simp)
    have high: "key \<le> d ! p" if "h < p" "p \<le> j" for p
    proof (cases "p \<le> j1")
      case False
      then have "d ! p = data ! p" using ih(6) [of p] j1(2) by (simp add: d2_def d1_def)
      then show ?thesis using j1(4) that False by simp
    qed (use ih(8) that in simp)
    show ?thesis
      unfolding step using ih(1-5) l2 move out low high i1(2) j1(3)
      by (intro exI [of _ d] exI [of _ h]) simp
  qed
qed


lemma sorted_around:
  "\<forall>x \<in> set a. x \<le> key \<Longrightarrow> \<forall>x \<in> set b. key \<le> x \<Longrightarrow> sort a @ key # sort b = sort (a @ key # b)"
  by (rule properties_for_sort [symmetric]) (auto simp: sorted_append intro: order_trans)

lemma quick_spec:
  assumes "l \<le> n" "n \<le> length data"
  shows "quick data (int l) (int n - 1) = Some (patch data l (sort (part data l n)))"
  using assms
proof (induction "n - l" arbitrary: l n data rule: less_induct)
  case less
  show ?case
  proof (cases "int l \<ge> int n - 1")
    case True
    then have "length (part data l n) \<le> 1" using less.prems by simp
    then have "sort (part data l n) = part data l n" by (cases "part data l n") auto
    moreover have "patch data l (part data l n) = data" using less.prems by (intro patch_part)
    ultimately show ?thesis using True by (subst quick.simps) simp
  next
    case False
    define r where "r = n - 1"
    have r: "n = Suc r" "l < r" "int n - 1 = int r" "r < length data" using False less.prems by (auto simp: r_def of_nat_diff)
    let ?key = "data ! l"
    obtain d h where p: "quick_partition data ?key (int l) (int r) = Some (d, int h)" "l \<le> h" "h \<le> r"
        "length d = length data" "mset (d[h := ?key]) = mset (data[l := ?key])"
        "\<And>p. p < l \<or> r < p \<Longrightarrow> d ! p = data ! p"
        "\<And>p. l \<le> p \<Longrightarrow> p < h \<Longrightarrow> d ! p \<le> ?key" "\<And>p. h < p \<Longrightarrow> p \<le> r \<Longrightarrow> ?key \<le> d ! p"
      using quick_partition_spec [OF less_imp_le [OF r(2)] r(4), of ?key] by blast
    define d2 where "d2 = d[h := ?key]"
    define a where "a = part d2 l h"
    define b where "b = part d2 (Suc h) n"
    have l2: "length d2 = length data" by (simp add: d2_def p(4))
    have la: "length a = h - l" "length b = n - Suc h" using p(3) r l2 by (simp_all add: a_def b_def)
    have pd: "part d2 l n = a @ ?key # b"
      using part_append [of l h n d2] part_Cons [of h n d2] p(2,3) r(2,4) l2 unfolding r(1)
      by (simp add: a_def b_def d2_def p(4) r(1))
    have "take l d2 = take l data" "drop n d2 = drop n data"
      using p(2-4,6) r by (auto intro!: nth_equalityI simp: d2_def)
    then have eq: "d2 = patch data l (a @ ?key # b)"
      using patch_part [of l n d2] less.prems l2 la p(2,3) r by (simp add: patch_def pd [unfolded r(1)])
    have "mset d2 = mset data" using p(5) by (simp add: d2_def)
    moreover have "mset data = mset (take l data) + mset (part data l n) + mset (drop n data)"
      using patch_part [OF less.prems] less.prems
      by (metis (no_types, lifting) add.assoc le_add_diff_inverse length_part mset_append patch_def)
    moreover have "mset d2 = mset (take l data) + mset (a @ ?key # b) + mset (drop n data)"
      unfolding eq patch_def using la p(2,3) r by (simp add: add.assoc r(1))
    ultimately have ms: "mset (a @ ?key # b) = mset (part data l n)" by simp
    have "\<forall>x \<in> set a. x \<le> ?key" "\<forall>x \<in> set b. ?key \<le> x"
      using p(2-4,7,8) r l2
      by (auto simp: a_def b_def part_def in_set_conv_nth d2_def)
    then have srt: "sort a @ ?key # sort b = sort (part data l n)"
      using sorted_around [of a ?key b] ms by (metis sorted_list_of_multiset_mset)
    have q1: "quick d2 (int l) (int h - 1) = Some (patch d2 l (sort a))"
      using less.hyps [of h l d2] p(2,3) r l2 by (simp add: a_def)
    let ?d3 = "patch d2 l (sort a)"
    have l3: "length ?d3 = length data" using la l2 p(2,3) r by simp
    have "part ?d3 (Suc h) n = b" using la l2 p(2,3) r by (simp add: part_patch_out b_def)
    then have q2: "quick ?d3 (int (Suc h)) (int n - 1) = Some (patch ?d3 (Suc h) (sort b))"
      using less.hyps [of n "Suc h" ?d3] p(2,3) r l3 by simp
    have "patch ?d3 (Suc h) (sort b) = patch data l (sort a @ ?key # sort b)"
      unfolding eq using la p(2,3) r less.prems by (simp add: patch_def Suc_diff_le)
    then show ?thesis
      using False p(1,3,4) q1 q2 r
      by (subst quick.simps) (simp add: arr_simps d2_def [symmetric] srt add.commute r(1))
  qed
qed

section \<open>Properties\<close>

text \<open>Shell sort returns the sorted array: every array, every number of elements, no access
  outside the array.\<close>

theorem shell_sort_sorts: "shell_sort data (int (length data)) = Some (sort data)"
proof -
  have "sorted data" if "length data div 2 = 0"
    using that by (cases data rule: remdups_adj.cases) auto
  then show ?thesis
    unfolding shell_sort_def by (intro shell_gaps_spec) (auto simp: sdiv2 zdiv_int [symmetric])
qed

text \<open>Merge sort of a non-empty array with a scratch array of at least its size returns the
  sorted array.\<close>

theorem merge_sort_sorts:
  assumes "data \<noteq> []" and "length data \<le> length temp"
  shows "\<exists>temp'. merge_sort data temp 0 (int (length data) - 1) = Some (sort data, temp')"
proof -
  have n: "int (length data) - 1 = int (length data - 1)" "Suc (length data - 1) = length data"
    using assms(1) by (cases data; simp)+
  have "length data - 1 < length data" using assms(1) by simp
  from merge_sort_spec [OF this assms(2), of 0] show ?thesis
    unfolding n by (auto simp: part_def patch_def)
qed

lemma merge_sort_sorts_witness:
  "\<exists>temp'. merge_sort [23, 64, 24, 12, 9] [0, 0, 0, 0, 0] 0 4 = Some ([9, 12, 23, 24, 64], temp')"
  using merge_sort_sorts [of "[23, 64, 24, 12, 9]" "[0, 0, 0, 0, 0]"] by simp

text \<open>C14: quicksort returns the sorted array, in place, for every array.\<close>

theorem quick_sort_sorts: "quick_sort data (int (length data)) = Some (sort data)"
  using quick_spec [of 0 "length data" data] by (simp add: quick_sort_def part_def patch_def)

end
