(* ===== verification/Kmp.thy ===== *)
theory Kmp
  imports Cvip_Prelude "HOL-Library.Sublist"
begin

text \<open>
  Knuth-Morris-Pratt search, \<open>code/search/kmp.c\<close>.  A C string is the list of its bytes without
  the terminating NUL; reading at index \<open>strlen\<close> gives the NUL, reading behind it is
  \<open>None\<close>.  The table \<open>next\<close> is a checked array supplied by the caller.
\<close>

section \<open>The program\<close>

definition cstr_get :: "bytes \<Rightarrow> int \<Rightarrow> u8 option" where
  "cstr_get s i = (if i = int (length s) then Some 0 else aget s i)"

text \<open>\<open>while (k > 0 && c != pattern[k]) k = next[k - 1];\<close> with \<open>c\<close> the character to extend
  the match with: \<open>pattern[q]\<close> in \<open>make_next\<close>, \<open>text[i]\<close> in \<open>kmp\<close>.\<close>

partial_function (option) fall_back :: "bytes \<Rightarrow> int list \<Rightarrow> u8 \<Rightarrow> int \<Rightarrow> int option" where
  "fall_back pat nxt c k =
     (if k > 0 then do {
        x \<leftarrow> cstr_get pat k;
        (if c \<noteq> x then do { k' \<leftarrow> aget nxt (k - 1); fall_back pat nxt c k' } else Some k)
      } else Some k)"

partial_function (option) make_next_loop :: "bytes \<Rightarrow> int list \<Rightarrow> int \<Rightarrow> int \<Rightarrow> int list option" where
  "make_next_loop pat nxt q k =
     (if q < int (length pat) then do {
        c \<leftarrow> cstr_get pat q;
        k1 \<leftarrow> fall_back pat nxt c k;
        x \<leftarrow> cstr_get pat k1;
        let k2 = (if c = x then k1 + 1 else k1);
        nxt' \<leftarrow> aset nxt q k2;
        make_next_loop pat nxt' (q + 1) k2
      } else Some nxt)"

definition make_next :: "bytes \<Rightarrow> int list \<Rightarrow> int list option" where
  "make_next pat nxt = do { nxt' \<leftarrow> aset nxt 0 0; make_next_loop pat nxt' 1 0 }"

text \<open>The loop of \<open>kmp\<close>: the values of \<open>i\<close> and \<open>q\<close> at its end.\<close>

partial_function (option) kmp_loop :: "bytes \<Rightarrow> bytes \<Rightarrow> int list \<Rightarrow> int \<Rightarrow> int \<Rightarrow> (int \<times> int) option" where
  "kmp_loop txt pat nxt i q =
     (if i < int (length txt) then do {
        c \<leftarrow> cstr_get txt i;
        q1 \<leftarrow> fall_back pat nxt c q;
        x \<leftarrow> cstr_get pat q1;
        let q2 = (if x = c then q1 + 1 else q1);
        (if q2 = int (length pat) then Some (i, q2) else kmp_loop txt pat nxt (i + 1) q2)
      } else Some (i, q))"

definition kmp :: "bytes \<Rightarrow> bytes \<Rightarrow> int list \<Rightarrow> (int \<times> int list) option" where
  "kmp txt pat nxt = do {
     nxt' \<leftarrow> make_next pat nxt;
     (i, q) \<leftarrow> kmp_loop txt pat nxt' 0 0;
     Some (i - q + 1, nxt')
   }"

section \<open>Borders\<close>

text \<open>The longest proper border of a prefix: \<open>k\<close> is the length of the longest proper prefix of
  \<open>take q p\<close> that is also its suffix.\<close>

definition border :: "'a list \<Rightarrow> nat \<Rightarrow> nat \<Rightarrow> bool" where
  "border p q k \<longleftrightarrow> k < q \<and> suffix (take k p) (take q p) \<and> (\<forall>j < q. suffix (take j p) (take q p) \<longrightarrow> j \<le> k)"

definition table_ok :: "bytes \<Rightarrow> int list \<Rightarrow> nat \<Rightarrow> bool" where
  "table_ok p nxt q \<longleftrightarrow> q \<le> length nxt \<and> (\<forall>j < q. \<exists>k. nxt ! j = int k \<and> border p (Suc j) k)"

lemma cstr_get_nat: "i < length s \<Longrightarrow> cstr_get s (int i) = Some (s ! i)"
  by (simp add: cstr_get_def arr_simps)

lemma suffix_shorter: "suffix a x \<Longrightarrow> length b \<le> length a \<Longrightarrow> suffix b a \<longleftrightarrow> suffix b x"
  by (meson suffix_length_suffix suffix_order.trans)

lemma suffix_snoc_take:
  assumes "k < length p"
  shows "suffix (take (Suc k) p) (x @ [c]) \<longleftrightarrow> suffix (take k p) x \<and> p ! k = c"
  using assms by (simp add: take_Suc_conv_app_nth) auto

text \<open>
  The fall-back loop, for a text \<open>x\<close> that ends with \<open>take k p\<close>: it ends with the longest
  match not longer than \<open>k\<close> that \<open>c\<close> extends, or with 0.
\<close>

definition best :: "bytes \<Rightarrow> bytes \<Rightarrow> u8 \<Rightarrow> nat \<Rightarrow> nat \<Rightarrow> bool" where
  "best p x c k r \<longleftrightarrow> r \<le> k \<and> suffix (take r p) x \<and> (r = 0 \<or> p ! r = c) \<and>
     (\<forall>j. r < j \<and> j \<le> k \<and> suffix (take j p) x \<longrightarrow> p ! j \<noteq> c)"

lemma fall_back_spec:
  assumes "table_ok p nxt k" "k < length p" "suffix (take k p) x"
  shows "\<exists>r. fall_back p nxt c (int k) = Some (int r) \<and> best p x c k r"
  using assms
proof (induction k rule: less_induct)
  case (less k)
  show ?case
  proof (cases "k = 0 \<or> c = p ! k")
    case True
    then have "fall_back p nxt c (int k) = Some (int k)"
      using less.prems(2) by (subst fall_back.simps) (auto simp: cstr_get_nat)
    then show ?thesis using True less.prems(3) by (intro exI [of _ k]) (auto simp: best_def)
  next
    case False
    then obtain b where b: "nxt ! (k - 1) = int b" "border p k b"
      using less.prems(1) by (auto simp: table_ok_def dest!: spec [of _ "k - 1"])
    have step: "fall_back p nxt c (int k) = fall_back p nxt c (int b)"
      using False less.prems(1,2) b(1)
      by (subst fall_back.simps) (simp add: cstr_get_nat aget_def table_ok_def nat_diff_distrib)
    have bk: "b < k" "suffix (take b p) (take k p)" using b(2) by (simp_all add: border_def)
    have "suffix (take b p) x" using bk(2) less.prems(3) suffix_order.trans by blast
    moreover have "table_ok p nxt b" using less.prems(1) bk(1) by (simp add: table_ok_def)
    ultimately obtain r where r: "fall_back p nxt c (int b) = Some (int r)" "best p x c b r"
      using less.IH [OF bk(1)] bk(1) less.prems(2) by auto
    have "p ! j \<noteq> c" if "r < j" "j \<le> k" "suffix (take j p) x" for j
    proof (cases "j = k")
      case True
      then show ?thesis using False by auto
    next
      case jk: False
      then have "suffix (take j p) (take k p)"
        using that less.prems(2,3) suffix_shorter [of "take k p" x "take j p"] by simp
      then have "j \<le> b" using b(2) jk that(2) by (simp add: border_def)
      then show ?thesis using r(2) that by (simp add: best_def)
    qed
    then have "best p x c k r" using r(2) bk(1) by (auto simp: best_def)
    then show ?thesis using r(1) step by auto
  qed
qed

text \<open>Extending the best match gives the longest match of the extended text, among those of
  length at most \<open>k + 1\<close>.\<close>

definition longest :: "bytes \<Rightarrow> bytes \<Rightarrow> nat \<Rightarrow> nat \<Rightarrow> bool" where
  "longest p x lim k \<longleftrightarrow> k \<le> lim \<and> suffix (take k p) x \<and> (\<forall>j \<le> lim. suffix (take j p) x \<longrightarrow> j \<le> k)"

lemma extend_best:
  assumes l: "longest p x lim k" and r: "best p x c k r" and p: "lim < length p"
  shows "longest p (x @ [c]) (Suc lim) (if p ! r = c then Suc r else r)"
proof -
  have rk: "r \<le> k" "k \<le> lim" using l r by (simp_all add: longest_def best_def)
  have none: "j \<le> r" if "suffix (take (Suc j) p) (x @ [c])" "j \<le> lim" for j
  proof -
    have j: "suffix (take j p) x" "p ! j = c" using that suffix_snoc_take [of j p x c] p by auto
    then have "j \<le> k" using l that(2) by (simp add: longest_def)
    then show ?thesis using r j by (auto simp: best_def not_less [symmetric])
  qed
  show ?thesis
  proof (cases "p ! r = c")
    case True
    then have "suffix (take (Suc r) p) (x @ [c])"
      using suffix_snoc_take [of r p x c] r rk p by (simp add: best_def)
    moreover have "j \<le> Suc r" if "j \<le> Suc lim" "suffix (take j p) (x @ [c])" for j
      using none [of "j - 1"] that by (cases j) auto
    ultimately show ?thesis using True rk by (simp add: longest_def)
  next
    case False
    then have r0: "r = 0" using r by (auto simp: best_def)
    have "j = 0" if "j \<le> Suc lim" "suffix (take j p) (x @ [c])" for j
    proof (rule ccontr)
      assume "j \<noteq> 0"
      then obtain i where i: "j = Suc i" by (cases j) auto
      then have "i = 0" using none [of i] that r0 by simp
      have "0 < length p" using p by linarith
      then show False using that(2) suffix_snoc_take [of 0 p x c] False r0 i \<open>i = 0\<close> by simp
    qed
    then show ?thesis using False r0 by (auto simp: longest_def)
  qed
qed


lemma border_longest: "border p (Suc q) k \<longleftrightarrow> longest p (take (Suc q) p) q k"
  by (auto simp: border_def longest_def less_Suc_eq_le)

lemma make_next_loop_spec:
  assumes "table_ok p nxt q" "1 \<le> q" "q \<le> length p" "length p \<le> length nxt" "border p q k"
  shows "\<exists>nxt'. make_next_loop p nxt (int q) (int k) = Some nxt' \<and> length nxt' = length nxt \<and>
     table_ok p nxt' (length p)"
  using assms
proof (induction "length p - q" arbitrary: q k nxt)
  case 0
  then show ?case by (subst make_next_loop.simps) (simp add: table_ok_def)
next
  case (Suc d)
  then have q: "q < length p" "q < length nxt" by simp_all
  have k: "k < q" "suffix (take k p) (take q p)" using Suc.prems(5) by (simp_all add: border_def)
  have tk: "table_ok p nxt k" using Suc.prems(1) k(1) by (simp add: table_ok_def)
  obtain r where r: "fall_back p nxt (p ! q) (int k) = Some (int r)" "best p (take q p) (p ! q) k r"
    using fall_back_spec [OF tk _ k(2), of "p ! q"] k(1) q by auto
  define k2 where "k2 = (if p ! r = p ! q then Suc r else r)"
  have rl: "r < length p" using r(2) k(1) q(1) by (simp add: best_def)
  have "longest p (take q p) (q - 1) k"
    using Suc.prems(2,5) border_longest [of p "q - 1" k] by simp
  from extend_best [OF this r(2)] have "longest p (take q p @ [p ! q]) q k2"
    using q(1) Suc.prems(2) by (simp add: k2_def)
  then have b2: "border p (Suc q) k2" using q(1) by (simp add: border_longest take_Suc_conv_app_nth)
  let ?n = "nxt[q := int k2]"
  have step: "make_next_loop p nxt (int q) (int k) = make_next_loop p ?n (int (Suc q)) (int k2)"
    using q rl r(1) by (subst make_next_loop.simps) (auto simp: cstr_get_nat arr_simps k2_def add.commute Let_def)
  have t2: "table_ok p ?n (Suc q)"
    using Suc.prems(1) b2 q(2) by (auto simp: table_ok_def less_Suc_eq)
  have "d = length p - Suc q" "1 \<le> Suc q" "Suc q \<le> length p" "length p \<le> length ?n"
    using Suc.hyps(2) Suc.prems q(1) by simp_all
  from Suc.hyps(1) [OF this(1) t2 this(2-4) b2] show ?case unfolding step by simp
qed

lemma make_next_spec:
  assumes "p \<noteq> []" "length p \<le> length nxt"
  shows "\<exists>nxt'. make_next p nxt = Some nxt' \<and> length nxt' = length nxt \<and> table_ok p nxt' (length p)"
proof -
  have b: "border p 1 0" by (simp add: border_def)
  have l: "1 \<le> length p" using assms(1) by (cases p) auto
  then have "nxt[0 := 0] ! 0 = int 0" "1 \<le> length nxt" using assms(2) by (cases nxt; simp)+
  then have "table_ok p (nxt[0 := 0]) 1" using b unfolding table_ok_def by auto
  moreover have "nxt \<noteq> []" using assms(2) l by (cases nxt) auto
  ultimately show ?thesis
    using make_next_loop_spec [OF _ _ l _ b, of "nxt[0 := 0]"] assms(2)
    by (simp add: make_next_def aset_def)
qed

lemma kmp_loop_spec:
  assumes "table_ok p nxt (length p)" "p \<noteq> []" "longest p (take i t) (length p - 1) q" "i \<le> length t"
  shows "\<exists>i' q'. kmp_loop t p nxt (int i) (int q) = Some (int i', int q') \<and>
    (\<forall>j. i < j \<and> j \<le> i' \<longrightarrow> \<not> suffix p (take j t)) \<and>
    (q' = length p \<and> i' < length t \<and> suffix p (take (Suc i') t) \<or>
     q' < length p \<and> i' = length t \<and> longest p t (length p - 1) q')"
  using assms(3,4)
proof (induction "length t - i" arbitrary: i q)
  case 0
  have m: "0 < length p" using assms(2) by simp
  have "q \<le> length p - 1" using "0.prems"(1) by (simp add: longest_def)
  then have "q < length p" using m by linarith
  then show ?case using 0 by (subst kmp_loop.simps) (auto intro!: exI [of _ i] exI [of _ q])
next
  case (Suc d)
  let ?c = "t ! i"
  have i: "i < length t" using Suc.hyps(2) by simp
  have m: "0 < length p" "length p - 1 < length p" "Suc (length p - 1) = length p" using assms(2) by simp_all
  have q: "q < length p" "suffix (take q p) (take i t)"
    using Suc.prems(1) m(2) unfolding longest_def by linarith+
  have tq: "table_ok p nxt q" using assms(1) q(1) by (simp add: table_ok_def)
  obtain r where r: "fall_back p nxt ?c (int q) = Some (int r)" "best p (take i t) ?c q r"
    using fall_back_spec [OF tq q] by blast
  define q2 where "q2 = (if p ! r = ?c then Suc r else r)"
  have rl: "r < length p" using r(2) q(1) by (simp add: best_def)
  have l2: "longest p (take (Suc i) t) (length p) q2"
    using extend_best [OF Suc.prems(1) r(2) m(2)] i m(3) by (simp add: q2_def take_Suc_conv_app_nth)
  have step: "kmp_loop t p nxt (int i) (int q) =
      (if q2 = length p then Some (int i, int q2) else kmp_loop t p nxt (int (Suc i)) (int q2))"
    using i rl r(1) by (subst kmp_loop.simps) (auto simp: cstr_get_nat q2_def add.commute)
  show ?case
  proof (cases "q2 = length p")
    case True
    then have "suffix p (take (Suc i) t)" using l2 by (simp add: longest_def)
    then show ?thesis using True i step by (intro exI [of _ i] exI [of _ q2]) auto
  next
    case False
    then have no: "\<not> suffix p (take (Suc i) t)" using l2 by (auto simp: longest_def)
    have "longest p (take (Suc i) t) (length p - 1) q2" using l2 False by (auto simp: longest_def)
    moreover have "d = length t - Suc i" using Suc.hyps(2) by simp
    ultimately obtain i' q' where r: "kmp_loop t p nxt (int (Suc i)) (int q2) = Some (int i', int q')"
        "\<forall>j. Suc i < j \<and> j \<le> i' \<longrightarrow> \<not> suffix p (take j t)"
        "q' = length p \<and> i' < length t \<and> suffix p (take (Suc i') t) \<or>
         q' < length p \<and> i' = length t \<and> longest p t (length p - 1) q'"
      using Suc.hyps(1) i by (metis Suc_leI)
    have "\<not> suffix p (take j t)" if "i < j" "j \<le> i'" for j
      using r(2) no that by (cases "j = Suc i") auto
    then show ?thesis using r step False by (intro exI [of _ i'] exI [of _ q']) auto
  qed
qed

section \<open>Properties\<close>

text \<open>The table of \<open>make_next\<close>: entry \<open>q\<close> is the length of the longest proper prefix of
  the first \<open>q + 1\<close> characters of the pattern that is also their suffix; the table needs as many
  entries as the pattern has characters.\<close>

theorem make_next_borders:
  assumes "p \<noteq> []" and "length p \<le> length nxt"
  shows "\<exists>nxt'. make_next p nxt = Some nxt' \<and> length nxt' = length nxt \<and>
    (\<forall>q < length p. \<exists>k. nxt' ! q = int k \<and> k \<le> q \<and> suffix (take k p) (take (Suc q) p) \<and>
       (\<forall>j \<le> q. suffix (take j p) (take (Suc q) p) \<longrightarrow> j \<le> k))"
  using make_next_spec [OF assms] by (auto simp: table_ok_def border_def less_Suc_eq_le)

lemma make_next_borders_witness:
  "\<exists>nxt'. make_next [97, 98, 99, 97, 98, 100] (replicate 20 0) = Some nxt' \<and> length nxt' = 20"
  using make_next_borders [of "[97, 98, 99, 97, 98, 100]" "replicate 20 0"] by auto

text \<open>An occurrence of \<open>p\<close> in \<open>t\<close> at index \<open>a\<close>.\<close>

definition occurs_at :: "bytes \<Rightarrow> bytes \<Rightarrow> nat \<Rightarrow> bool" where
  "occurs_at p t a \<longleftrightarrow> a + length p \<le> length t \<and> take (length p) (drop a t) = p"

lemma occurs_suffix:
  "a + length p \<le> length t \<Longrightarrow> occurs_at p t a \<longleftrightarrow> suffix p (take (a + length p) t)"
proof -
  assume l: "a + length p \<le> length t"
  have e: "take (a + length p) t = take a t @ take (length p) (drop a t)" by (rule take_add)
  have "length (take (length p) (drop a t)) = length p" using l by simp
  then have "suffix p (take (a + length p) t) \<longleftrightarrow> take (length p) (drop a t) = p"
    unfolding e suffix_def by (metis append_eq_append_conv)
  then show ?thesis using l by (simp add: occurs_at_def)
qed

text \<open>C13: the search ends without leaving its arrays.  If the pattern occurs, the result is the
  index of its first occurrence; if it does not, the result is \<open>n - q + 1\<close> for the length
  \<open>q\<close> of the partial match at the end, a positive number like an index, and no failure
  value.\<close>

theorem kmp_finds:
  assumes "p \<noteq> []" and "length p \<le> length nxt"
  shows "\<exists>r nxt'. kmp t p nxt = Some (r, nxt') \<and>
    ((\<exists>a. occurs_at p t a) \<longrightarrow> (\<exists>a. r = int a \<and> occurs_at p t a \<and> (\<forall>b < a. \<not> occurs_at p t b))) \<and>
    ((\<nexists>a. occurs_at p t a) \<longrightarrow> (\<exists>q < length p. suffix (take q p) t \<and> r = int (length t) - int q + 1 \<and> 0 < r))"
proof -
  obtain nxt' where n: "make_next p nxt = Some nxt'" "table_ok p nxt' (length p)"
    using make_next_spec [OF assms] by blast
  have "longest p (take 0 t) (length p - 1) 0" by (auto simp: longest_def)
  then obtain i q where l: "kmp_loop t p nxt' 0 0 = Some (int i, int q)"
      "\<And>j. 0 < j \<Longrightarrow> j \<le> i \<Longrightarrow> \<not> suffix p (take j t)"
      "q = length p \<and> i < length t \<and> suffix p (take (Suc i) t) \<or> q < length p \<and> i = length t \<and> longest p t (length p - 1) q"
    using kmp_loop_spec [OF n(2) assms(1), of 0 t 0] by auto
  have none: "\<not> occurs_at p t b" if "b + length p \<le> i" for b
  proof -
    have "0 < b + length p" using assms(1) by simp
    then have "\<not> suffix p (take (b + length p) t)" using l(2) that by simp
    moreover have "i \<le> length t" using l(3) by auto
    ultimately show ?thesis using occurs_suffix [of b p t] that by simp
  qed
  have k: "kmp t p nxt = Some (int i - int q + 1, nxt')" by (simp add: kmp_def n(1) l(1))
  from l(3) show ?thesis
  proof
    assume f: "q = length p \<and> i < length t \<and> suffix p (take (Suc i) t)"
    then have "length p \<le> length (take (Suc i) t)" using suffix_length_le by blast
    then have pl: "length p \<le> Suc i" using f by simp
    define a where "a = Suc i - length p"
    have a: "a + length p = Suc i" "int i - int q + 1 = int a" using pl f by (simp_all add: a_def of_nat_diff)
    have "occurs_at p t a" using occurs_suffix [of a p t] a(1) f by simp
    moreover have "\<not> occurs_at p t b" if "b < a" for b using none [of b] that a(1) by simp
    ultimately show ?thesis using k a(2) by auto
  next
    assume f: "q < length p \<and> i = length t \<and> longest p t (length p - 1) q"
    then have no: "\<nexists>a. occurs_at p t a" using none by (auto simp: occurs_at_def)
    have s: "suffix (take q p) t" using f by (simp add: longest_def)
    then have "length (take q p) \<le> length t" by (rule suffix_length_le)
    then have "q \<le> length t" using f by simp
    then show ?thesis using k f s no by auto
  qed
qed

lemma kmp_finds_witness:
  "\<exists>r nxt'. kmp [97, 98, 97, 98, 99] [97, 98, 99] [0, 0, 0] = Some (r, nxt') \<and> r = 2"
proof -
  have o: "occurs_at [97, 98, 99] [97, 98, 97, 98, 99] 2" by (simp add: occurs_at_def)
  obtain r nxt' a where r: "kmp [97, 98, 97, 98, 99] [97, 98, 99] [0, 0, 0] = Some (r, nxt')"
      "r = int a" "occurs_at [97, 98, 99] [97, 98, 97, 98, 99 :: u8] a"
      "\<forall>b < a. \<not> occurs_at [97, 98, 99] [97, 98, 97, 98, 99 :: u8] b"
    using kmp_finds [of "[97, 98, 99]" "[0, 0, 0]" "[97, 98, 97, 98, 99]"] o by auto
  have "\<not> 2 < a" using r(4) o by blast
  then have "a = 0 \<or> a = 1 \<or> a = 2" by linarith
  then have "a = 2" using r(3) by (auto simp: occurs_at_def)
  then show ?thesis using r(1,2) by simp
qed

end
