(* ===== verification/Pool.thy ===== *)
theory Pool
  imports Cvip_Prelude
begin

text \<open>
  The memory pool of nginx (\<open>code/mmpool/ngx_palloc.c\<close>, \<open>ngx_palloc.h\<close>) on a heap
  of structure fields.  Addresses and sizes are natural numbers, 0 is \<open>NULL\<close>, and
  \<open>size_t\<close> writes out the wrap-around of the unsigned differences.  What the file takes from
  \<open>ngx_config.h\<close> and \<open>ngx_core.h\<close> (pointer alignment, page size, structure sizes and the
  system allocator) is the argument \<open>env\<close>; the allocator sees the number of earlier calls and the
  live regions.  \<open>None\<close> is undefined behaviour: a \<open>free\<close> of something that is not live, or a
  loop that does not end.
\<close>

section \<open>State\<close>

type_synonym region = "nat \<times> nat"

record ngx_env =
  e_align_ptr :: "nat \<Rightarrow> nat"
  e_alignment :: nat
  e_pagesize :: nat
  e_sizeof_data :: nat
  e_sizeof_pool :: nat
  e_sizeof_large :: nat
  e_sizeof_cleanup :: nat
  e_memalign :: "nat \<Rightarrow> nat \<Rightarrow> nat \<Rightarrow> region list \<Rightarrow> nat"
  e_alloc :: "nat \<Rightarrow> nat \<Rightarrow> region list \<Rightarrow> nat"

datatype handler = Cleanup_File | Delete_File | Handler nat

record pmem =
  d_last :: "nat \<Rightarrow> nat"
  d_end :: "nat \<Rightarrow> nat"
  d_next :: "nat \<Rightarrow> nat"
  d_failed :: "nat \<Rightarrow> nat"
  p_max :: "nat \<Rightarrow> nat"
  p_current :: "nat \<Rightarrow> nat"
  p_chain :: "nat \<Rightarrow> nat"
  p_large :: "nat \<Rightarrow> nat"
  p_cleanup :: "nat \<Rightarrow> nat"
  l_next :: "nat \<Rightarrow> nat"
  l_alloc :: "nat \<Rightarrow> nat"
  c_handler :: "nat \<Rightarrow> handler option"
  c_data :: "nat \<Rightarrow> nat"
  c_next :: "nat \<Rightarrow> nat"
  f_fd :: "nat \<Rightarrow> int"
  f_name :: "nat \<Rightarrow> nat"
  m_byte :: "nat \<Rightarrow> u8"
  os_live :: "region list"
  os_tick :: nat

definition size_t :: "int \<Rightarrow> nat" where
  "size_t x = nat (x mod 2 ^ 64)"

definition NGX_POOL_ALIGNMENT :: nat where "NGX_POOL_ALIGNMENT = 16"

definition NGX_MAX_ALLOC_FROM_POOL :: "ngx_env \<Rightarrow> nat" where
  "NGX_MAX_ALLOC_FROM_POOL env = size_t (int (e_pagesize env) - 1)"

text \<open>The calls of the system allocator.\<close>

definition os_take :: "nat \<Rightarrow> nat \<Rightarrow> pmem \<Rightarrow> pmem" where
  "os_take a sz h =
     h\<lparr>os_live := (if a = 0 then os_live h else (a, sz) # os_live h), os_tick := os_tick h + 1\<rparr>"

definition ngx_memalign :: "ngx_env \<Rightarrow> nat \<Rightarrow> nat \<Rightarrow> pmem \<Rightarrow> nat \<times> pmem" where
  "ngx_memalign env alignment sz h =
     (let a = e_memalign env alignment sz (os_tick h) (os_live h) in (a, os_take a sz h))"

definition ngx_alloc :: "ngx_env \<Rightarrow> nat \<Rightarrow> pmem \<Rightarrow> nat \<times> pmem" where
  "ngx_alloc env sz h =
     (let a = e_alloc env sz (os_tick h) (os_live h) in (a, os_take a sz h))"

definition ngx_free :: "nat \<Rightarrow> pmem \<Rightarrow> pmem option" where
  "ngx_free a h =
     (if a = 0 then Some h
      else if a \<in> fst ` set (os_live h) then Some (h\<lparr>os_live := filter (\<lambda>r. fst r \<noteq> a) (os_live h)\<rparr>) else None)"

section \<open>Creating a pool\<close>

definition ngx_create_pool :: "ngx_env \<Rightarrow> nat \<Rightarrow> pmem \<Rightarrow> nat \<times> pmem" where
  "ngx_create_pool env sz h0 =
     (let (p, h) = ngx_memalign env NGX_POOL_ALIGNMENT sz h0 in
      if p = 0 then (0, h)
      else let room = size_t (int sz - int (e_sizeof_pool env)) in
        (p, h\<lparr>d_last := (d_last h)(p := p + e_sizeof_pool env),
              d_end := (d_end h)(p := p + sz),
              d_next := (d_next h)(p := 0),
              d_failed := (d_failed h)(p := 0),
              p_max := (p_max h)(p := if room < NGX_MAX_ALLOC_FROM_POOL env then room
                                      else NGX_MAX_ALLOC_FROM_POOL env),
              p_current := (p_current h)(p := p),
              p_chain := (p_chain h)(p := 0),
              p_large := (p_large h)(p := 0),
              p_cleanup := (p_cleanup h)(p := 0)\<rparr>))"

section \<open>Small allocations\<close>

text \<open>The loop of \<open>ngx_palloc_small\<close>: \<open>Some None\<close> when no block has room.\<close>

partial_function (option) small_loop ::
  "ngx_env \<Rightarrow> nat \<Rightarrow> bool \<Rightarrow> nat \<Rightarrow> pmem \<Rightarrow> (nat \<times> pmem) option option" where
  "small_loop env sz align p h =
     (let m = (if align then e_align_ptr env (d_last h p) else d_last h p) in
      if size_t (int (d_end h p) - int m) \<ge> sz
      then Some (Some (m, h\<lparr>d_last := (d_last h)(p := m + sz)\<rparr>))
      else let p' = d_next h p in
        if p' \<noteq> 0 then small_loop env sz align p' h else Some None)"

text \<open>The loop that finds the last block and counts the failures: the last block and the heap.\<close>

partial_function (option) block_loop :: "nat \<Rightarrow> nat \<Rightarrow> pmem \<Rightarrow> (nat \<times> pmem) option" where
  "block_loop pool p h =
     (if d_next h p \<noteq> 0 then
        let h1 = h\<lparr>d_failed := (d_failed h)(p := size_t (int (d_failed h p) + 1))\<rparr>;
            h2 = (if d_failed h p > 4 then h1\<lparr>p_current := (p_current h1)(pool := d_next h1 p)\<rparr> else h1)
        in block_loop pool (d_next h2 p) h2
      else Some (p, h))"

definition ngx_palloc_block :: "ngx_env \<Rightarrow> nat \<Rightarrow> nat \<Rightarrow> pmem \<Rightarrow> (nat \<times> pmem) option" where
  "ngx_palloc_block env pool sz h0 =
     (let psize = size_t (int (d_end h0 pool) - int pool);
          (m, h) = ngx_memalign env NGX_POOL_ALIGNMENT psize h0
      in if m = 0 then Some (0, h)
         else let new = m;
                  m' = e_align_ptr env (m + e_sizeof_data env);
                  h1 = h\<lparr>d_end := (d_end h)(new := new + psize),
                         d_next := (d_next h)(new := 0),
                         d_failed := (d_failed h)(new := 0),
                         d_last := (d_last h)(new := m' + sz)\<rparr>
              in do {
                (p, h2) \<leftarrow> block_loop pool (p_current h1 pool) h1;
                Some (m', h2\<lparr>d_next := (d_next h2)(p := new)\<rparr>)
              })"

definition ngx_palloc_small :: "ngx_env \<Rightarrow> nat \<Rightarrow> nat \<Rightarrow> bool \<Rightarrow> pmem \<Rightarrow> (nat \<times> pmem) option" where
  "ngx_palloc_small env pool sz align h = do {
     r \<leftarrow> small_loop env sz align (p_current h pool) h;
     (case r of Some res \<Rightarrow> Some res | None \<Rightarrow> ngx_palloc_block env pool sz h)
   }"

section \<open>Large allocations\<close>

text \<open>The search for a record whose memory has been freed: 0 when none is found in time.\<close>

function large_slot :: "pmem \<Rightarrow> nat \<Rightarrow> nat \<Rightarrow> nat" where
  "large_slot h large n =
     (if large = 0 then 0
      else if l_alloc h large = 0 then large
      else if n > 3 then 0 else large_slot h (l_next h large) (n + 1))"
  by pat_completeness auto
termination
  by (relation "measure (\<lambda>(h, large, n). 5 - n)") auto

declare large_slot.simps [simp del]

definition large_record :: "ngx_env \<Rightarrow> nat \<Rightarrow> nat \<Rightarrow> pmem \<Rightarrow> (nat \<times> pmem) option" where
  "large_record env pool p h = do {
     (large, h1) \<leftarrow> ngx_palloc_small env pool (e_sizeof_large env) True h;
     (if large = 0 then do { h2 \<leftarrow> ngx_free p h1; Some (0, h2) }
      else Some (p, h1\<lparr>l_alloc := (l_alloc h1)(large := p),
                       l_next := (l_next h1)(large := p_large h1 pool),
                       p_large := (p_large h1)(pool := large)\<rparr>))
   }"

definition ngx_palloc_large :: "ngx_env \<Rightarrow> nat \<Rightarrow> nat \<Rightarrow> pmem \<Rightarrow> (nat \<times> pmem) option" where
  "ngx_palloc_large env pool sz h0 =
     (let (p, h) = ngx_alloc env sz h0 in
      if p = 0 then Some (0, h)
      else let large = large_slot h (p_large h pool) 0 in
        if large \<noteq> 0 then Some (p, h\<lparr>l_alloc := (l_alloc h)(large := p)\<rparr>)
        else large_record env pool p h)"

definition ngx_pmemalign :: "ngx_env \<Rightarrow> nat \<Rightarrow> nat \<Rightarrow> nat \<Rightarrow> pmem \<Rightarrow> (nat \<times> pmem) option" where
  "ngx_pmemalign env pool sz alignment h0 =
     (let (p, h) = ngx_memalign env alignment sz h0 in
      if p = 0 then Some (0, h) else large_record env pool p h)"

definition ngx_palloc :: "ngx_env \<Rightarrow> nat \<Rightarrow> nat \<Rightarrow> pmem \<Rightarrow> (nat \<times> pmem) option" where
  "ngx_palloc env pool sz h =
     (if sz \<le> p_max h pool then ngx_palloc_small env pool sz True h
      else ngx_palloc_large env pool sz h)"

definition ngx_pnalloc :: "ngx_env \<Rightarrow> nat \<Rightarrow> nat \<Rightarrow> pmem \<Rightarrow> (nat \<times> pmem) option" where
  "ngx_pnalloc env pool sz h =
     (if sz \<le> p_max h pool then ngx_palloc_small env pool sz False h
      else ngx_palloc_large env pool sz h)"

definition ngx_pcalloc :: "ngx_env \<Rightarrow> nat \<Rightarrow> nat \<Rightarrow> pmem \<Rightarrow> (nat \<times> pmem) option" where
  "ngx_pcalloc env pool sz h = do {
     (p, h1) \<leftarrow> ngx_palloc env pool sz h;
     Some (p, if p \<noteq> 0 then h1\<lparr>m_byte := (\<lambda>a. if p \<le> a \<and> a < p + sz then 0 else m_byte h1 a)\<rparr> else h1)
   }"

datatype ngx_rc = NGX_OK | NGX_DECLINED

partial_function (option) pfree_loop :: "nat \<Rightarrow> nat \<Rightarrow> pmem \<Rightarrow> (ngx_rc \<times> pmem) option" where
  "pfree_loop p l h =
     (if l = 0 then Some (NGX_DECLINED, h)
      else if p = l_alloc h l then do {
        h1 \<leftarrow> ngx_free (l_alloc h l) h;
        Some (NGX_OK, h1\<lparr>l_alloc := (l_alloc h1)(l := 0)\<rparr>)
      } else pfree_loop p (l_next h l) h)"

definition ngx_pfree :: "nat \<Rightarrow> nat \<Rightarrow> pmem \<Rightarrow> (ngx_rc \<times> pmem) option" where
  "ngx_pfree pool p h = pfree_loop p (p_large h pool) h"

section \<open>Cleanup handlers\<close>

definition ngx_pool_cleanup_add :: "ngx_env \<Rightarrow> nat \<Rightarrow> nat \<Rightarrow> pmem \<Rightarrow> (nat \<times> pmem) option" where
  "ngx_pool_cleanup_add env p sz h = do {
     (c, h1) \<leftarrow> ngx_palloc env p (e_sizeof_cleanup env) h;
     (if c = 0 then Some (0, h1) else do {
        (ok, h2) \<leftarrow> (if sz \<noteq> 0 then do {
            (d, h') \<leftarrow> ngx_palloc env p sz h1;
            Some (d \<noteq> 0, h'\<lparr>c_data := (c_data h')(c := d)\<rparr>)
          } else Some (True, h1\<lparr>c_data := (c_data h1)(c := 0)\<rparr>));
        (if \<not> ok then Some (0, h2)
         else Some (c, h2\<lparr>c_handler := (c_handler h2)(c := None),
                          c_next := (c_next h2)(c := p_cleanup h2 p),
                          p_cleanup := (p_cleanup h2)(p := c)\<rparr>))
      })
   }"

text \<open>What a handler asks of the system: the files it closes or deletes, the errors it logs, or
  the call of a handler defined elsewhere.  The system's answers are arguments.\<close>

datatype effect = Close_File int | Delete_Name nat | Log_Alert nat | Log_Crit nat | Call nat nat

definition ngx_pool_cleanup_file :: "(int \<Rightarrow> bool) \<Rightarrow> pmem \<Rightarrow> nat \<Rightarrow> effect list" where
  "ngx_pool_cleanup_file close_ok h c =
     Close_File (f_fd h c) # (if close_ok (f_fd h c) then [] else [Log_Alert (f_name h c)])"

text \<open>The result of \<open>ngx_delete_file\<close>: no error, or \<open>Some\<close> whether \<open>ngx_errno\<close> is
  \<open>NGX_ENOENT\<close>.\<close>

definition ngx_pool_delete_file :: "(int \<Rightarrow> bool) \<Rightarrow> (nat \<Rightarrow> bool option) \<Rightarrow> pmem \<Rightarrow> nat \<Rightarrow> effect list" where
  "ngx_pool_delete_file close_ok del h c =
     Delete_Name (f_name h c) #
     (case del (f_name h c) of
        None \<Rightarrow> [] | Some enoent \<Rightarrow> if \<not> enoent then [Log_Crit (f_name h c)] else []) @
     Close_File (f_fd h c) # (if close_ok (f_fd h c) then [] else [Log_Alert (f_name h c)])"

fun run_handler :: "(int \<Rightarrow> bool) \<Rightarrow> (nat \<Rightarrow> bool option) \<Rightarrow> pmem \<Rightarrow> handler \<Rightarrow> nat \<Rightarrow> effect list" where
  "run_handler ok del h Cleanup_File d = ngx_pool_cleanup_file ok h d"
| "run_handler ok del h Delete_File d = ngx_pool_delete_file ok del h d"
| "run_handler ok del h (Handler i) d = [Call i d]"

partial_function (option) run_file_loop ::
  "(int \<Rightarrow> bool) \<Rightarrow> int \<Rightarrow> nat \<Rightarrow> pmem \<Rightarrow> (effect list \<times> pmem) option" where
  "run_file_loop ok fd c h =
     (if c = 0 then Some ([], h)
      else if c_handler h c = Some Cleanup_File \<and> f_fd h (c_data h c) = fd then
        Some (ngx_pool_cleanup_file ok h (c_data h c), h\<lparr>c_handler := (c_handler h)(c := None)\<rparr>)
      else run_file_loop ok fd (c_next h c) h)"

definition ngx_pool_run_cleanup_file ::
  "(int \<Rightarrow> bool) \<Rightarrow> nat \<Rightarrow> int \<Rightarrow> pmem \<Rightarrow> (effect list \<times> pmem) option" where
  "ngx_pool_run_cleanup_file ok p fd h = run_file_loop ok fd (p_cleanup h p) h"

section \<open>Reset and destroy\<close>

partial_function (option) cleanup_loop ::
  "(int \<Rightarrow> bool) \<Rightarrow> (nat \<Rightarrow> bool option) \<Rightarrow> nat \<Rightarrow> pmem \<Rightarrow> effect list option" where
  "cleanup_loop ok del c h =
     (if c = 0 then Some []
      else do {
        rest \<leftarrow> cleanup_loop ok del (c_next h c) h;
        Some ((case c_handler h c of None \<Rightarrow> [] | Some f \<Rightarrow> run_handler ok del h f (c_data h c)) @ rest)
      })"

partial_function (option) free_large :: "nat \<Rightarrow> pmem \<Rightarrow> pmem option" where
  "free_large l h =
     (if l = 0 then Some h
      else do {
        h1 \<leftarrow> (if l_alloc h l \<noteq> 0 then ngx_free (l_alloc h l) h else Some h);
        free_large (l_next h1 l) h1
      })"

text \<open>The loop keeps \<open>n\<close>, read before \<open>p\<close> is freed.\<close>

partial_function (option) free_blocks :: "nat \<Rightarrow> nat \<Rightarrow> pmem \<Rightarrow> pmem option" where
  "free_blocks p n h = do {
     h1 \<leftarrow> ngx_free p h;
     (if n = 0 then Some h1 else free_blocks n (d_next h1 n) h1)
   }"

definition ngx_destroy_pool ::
  "(int \<Rightarrow> bool) \<Rightarrow> (nat \<Rightarrow> bool option) \<Rightarrow> nat \<Rightarrow> pmem \<Rightarrow> (effect list \<times> pmem) option" where
  "ngx_destroy_pool ok del pool h = do {
     effs \<leftarrow> cleanup_loop ok del (p_cleanup h pool) h;
     h1 \<leftarrow> free_large (p_large h pool) h;
     h2 \<leftarrow> free_blocks pool (d_next h1 pool) h1;
     Some (effs, h2)
   }"

partial_function (option) reset_blocks :: "ngx_env \<Rightarrow> nat \<Rightarrow> pmem \<Rightarrow> pmem option" where
  "reset_blocks env p h =
     (if p = 0 then Some h
      else let h1 = h\<lparr>d_last := (d_last h)(p := p + e_sizeof_pool env), d_failed := (d_failed h)(p := 0)\<rparr>
           in reset_blocks env (d_next h1 p) h1)"

definition ngx_reset_pool :: "ngx_env \<Rightarrow> nat \<Rightarrow> pmem \<Rightarrow> pmem option" where
  "ngx_reset_pool env pool h = do {
     h1 \<leftarrow> free_large (p_large h pool) h;
     h2 \<leftarrow> reset_blocks env pool h1;
     Some (h2\<lparr>p_current := (p_current h2)(pool := pool), p_chain := (p_chain h2)(pool := 0),
              p_large := (p_large h2)(pool := 0)\<rparr>)
   }"

end
