(* ===== verification/Pool_Inv.thy ===== *)
theory Pool_Inv
  imports Pool
begin

text \<open>
  The invariant of a memory pool and the lemmas that every operation keeps it: the chain of blocks,
  the list of large-allocation records, the documented contract of the code outside the file
  (\<open>env_ok\<close>), and the regions the pool has handed out.
\<close>

section \<open>Regions and the system allocator\<close>

definition apart :: "region \<Rightarrow> region \<Rightarrow> bool" where
  "apart r s \<longleftrightarrow> fst r + snd r \<le> fst s \<or> fst s + snd s \<le> fst r"

lemma apart_sym: "apart r s \<longleftrightarrow> apart s r"
  by (auto simp: apart_def)

definition within :: "region \<Rightarrow> region \<Rightarrow> bool" where
  "within r s \<longleftrightarrow> fst s \<le> fst r \<and> fst r + snd r \<le> fst s + snd s"

lemma apart_within: "apart r s \<Longrightarrow> within r' r \<Longrightarrow> within s' s \<Longrightarrow> apart r' s'"
  by (auto simp: apart_def within_def)

definition live_ok :: "region list \<Rightarrow> bool" where
  "live_ok live \<longleftrightarrow> sorted_wrt apart live \<and> distinct (map fst live) \<and>
     (\<forall>r \<in> set live. fst r \<noteq> 0 \<and> fst r + snd r < 2 ^ 64)"

text \<open>What a successful call of the system allocator promises.\<close>

definition fresh :: "nat \<Rightarrow> nat \<Rightarrow> region list \<Rightarrow> bool" where
  "fresh a n live \<longleftrightarrow> a + n < 2 ^ 64 \<and> a \<notin> fst ` set live \<and> (\<forall>r \<in> set live. apart (a, n) r)"

text \<open>The documented behaviour of what the pool uses from outside: \<open>ngx_align_ptr\<close> rounds up to
  the platform alignment, the allocators return \<open>NULL\<close> or fresh (aligned) memory, and the
  structures have the sizes of a platform on which they are laid out without padding.\<close>

definition env_ok :: "ngx_env \<Rightarrow> bool" where
  "env_ok env \<longleftrightarrow>
     0 < e_alignment env \<and> e_alignment env dvd NGX_POOL_ALIGNMENT \<and>
     (\<forall>p. e_alignment env dvd e_align_ptr env p \<and> p \<le> e_align_ptr env p \<and>
          e_align_ptr env p < p + e_alignment env) \<and>
     0 < e_pagesize env \<and>
     e_alignment env dvd e_sizeof_data env \<and>
     0 < e_sizeof_data env \<and> 0 < e_sizeof_large env \<and> 0 < e_sizeof_cleanup env \<and>
     e_sizeof_large env < 2 ^ 64 \<and> e_sizeof_cleanup env < 2 ^ 64 \<and>
     e_sizeof_data env + e_sizeof_large env \<le> e_sizeof_pool env \<and>
     (\<forall>al n t live. let a = e_memalign env al n t live in a \<noteq> 0 \<longrightarrow> al dvd a \<and> fresh a n live) \<and>
     (\<forall>n t live. let a = e_alloc env n t live in a \<noteq> 0 \<longrightarrow> fresh a n live)"

lemma live_ok_take: "live_ok live \<Longrightarrow> a \<noteq> 0 \<Longrightarrow> fresh a n live \<Longrightarrow> live_ok ((a, n) # live)"
  by (auto simp: live_ok_def fresh_def)

lemma live_ok_filter: "live_ok live \<Longrightarrow> live_ok (filter P live)"
  by (auto simp: live_ok_def sorted_wrt_filter distinct_map_filter)

lemma live_ok_apart:
  assumes "live_ok live" "r \<in> set live" "s \<in> set live" "r \<noteq> s"
  shows "apart r s"
proof -
  obtain i j where i: "i < length live" "live ! i = r" and j: "j < length live" "live ! j = s"
    using assms(2,3) by (meson in_set_conv_nth)
  have "i \<noteq> j" using i j assms(4) by auto
  then have "apart (live ! i) (live ! j) \<or> apart (live ! j) (live ! i)"
    using assms(1) i j by (cases "i < j") (auto simp: live_ok_def sorted_wrt_iff_nth_less)
  then show ?thesis using i j apart_sym by blast
qed

lemma live_ok_base: "live_ok live \<Longrightarrow> (a, n) \<in> set live \<Longrightarrow> (a, m) \<in> set live \<Longrightarrow> n = m"
  by (auto simp: live_ok_def dest: eq_key_imp_eq_value)

lemma size_t_nat: "n < 2 ^ 64 \<Longrightarrow> size_t (int n) = n"
  by (simp add: size_t_def)

lemma size_t_diff: "a \<le> b \<Longrightarrow> b < 2 ^ 64 \<Longrightarrow> size_t (int b - int a) = b - a"
  using size_t_nat [of "b - a"] by (simp add: of_nat_diff)

lemma align_le:
  assumes "env_ok env" "e_alignment env dvd e" "l \<le> e"
  shows "e_align_ptr env l \<le> e"
proof -
  let ?A = "e_alignment env" and ?m = "e_align_ptr env l"
  have m: "?A dvd ?m" "?m < l + ?A" using assms(1) by (auto simp: env_ok_def)
  then obtain i j where ij: "?m = ?A * i" "e = ?A * j" using assms(2) by (meson dvdE)
  have "?A * i < ?A * (j + 1)" using m(2) ij assms(3) by (simp add: algebra_simps)
  then have "i \<le> j" by (metis Suc_eq_plus1 mult_less_cancel1 not_less_eq linorder_not_less)
  then show ?thesis using ij by simp
qed

lemma align_id: "env_ok env \<Longrightarrow> e_alignment env dvd l \<Longrightarrow> e_align_ptr env l = l"
  using align_le [of env l l] by (auto simp: env_ok_def intro: antisym)

section \<open>The invariant\<close>

definition owned :: "pmem \<Rightarrow> nat list \<Rightarrow> nat list" where
  "owned h ls = filter (\<lambda>a. a \<noteq> 0) (map (l_alloc h) ls)"

definition header :: "ngx_env \<Rightarrow> nat \<Rightarrow> nat \<Rightarrow> nat" where
  "header env pool b = (if b = pool then e_sizeof_pool env else e_sizeof_data env)"

definition block_ok :: "ngx_env \<Rightarrow> pmem \<Rightarrow> nat \<Rightarrow> nat \<Rightarrow> nat \<Rightarrow> bool" where
  "block_ok env h pool n b \<longleftrightarrow> (b, n) \<in> set (os_live h) \<and> NGX_POOL_ALIGNMENT dvd b \<and>
     d_end h b = b + n \<and> b + header env pool b \<le> d_last h b \<and> d_last h b \<le> b + n"

definition in_block :: "ngx_env \<Rightarrow> pmem \<Rightarrow> nat \<Rightarrow> nat list \<Rightarrow> region \<Rightarrow> bool" where
  "in_block env h pool bs r \<longleftrightarrow>
     (\<exists>b \<in> set bs. b + header env pool b \<le> fst r \<and> fst r + snd r \<le> d_last h b)"

definition blocks_ok :: "ngx_env \<Rightarrow> pmem \<Rightarrow> nat \<Rightarrow> nat list \<Rightarrow> nat \<Rightarrow> bool" where
  "blocks_ok env h pool bs n \<longleftrightarrow>
     bs \<noteq> [] \<and> nodes (d_next h) pool bs \<and> p_current h pool \<in> set bs \<and>
     n < 2 ^ 64 \<and> e_alignment env dvd n \<and> e_sizeof_pool env + p_max h pool \<le> n \<and>
     (\<forall>b \<in> set bs. block_ok env h pool n b)"

definition pool_ok :: "ngx_env \<Rightarrow> pmem \<Rightarrow> nat \<Rightarrow> nat list \<Rightarrow> nat list \<Rightarrow> region list \<Rightarrow> bool" where
  "pool_ok env h pool bs ls used \<longleftrightarrow>
     live_ok (os_live h) \<and> (\<exists>n. blocks_ok env h pool bs n) \<and>
     nodes (l_next h) (p_large h pool) ls \<and>
     distinct (bs @ owned h ls) \<and> set (owned h ls) \<subseteq> fst ` set (os_live h) \<and>
     sorted_wrt apart used \<and> (\<forall>r \<in> set used. in_block env h pool bs r) \<and>
     (\<forall>l \<in> set ls. (l, e_sizeof_large env) \<in> set used)"

section \<open>Small allocations\<close>

lemma small_loop_spec:
  assumes "env_ok env" and "live_ok (os_live h)" and "e_alignment env dvd n"
    and "\<forall>b \<in> set bs. block_ok env h pool n b" and "nodes (d_next h) p bs" and "bs \<noteq> []"
  shows "small_loop env sz al p h = Some None \<or>
    (\<exists>b \<in> set bs. \<exists>m. small_loop env sz al p h = Some (Some (m, h\<lparr>d_last := (d_last h)(b := m + sz)\<rparr>)) \<and>
       d_last h b \<le> m \<and> m + sz \<le> b + n \<and> (al \<longrightarrow> e_alignment env dvd m))"
  using assms(4-6)
proof (induction bs arbitrary: p)
  case (Cons b bs)
  have p: "p = b" using Cons.prems by simp
  have b: "(b, n) \<in> set (os_live h)" "NGX_POOL_ALIGNMENT dvd b" "d_end h b = b + n" "d_last h b \<le> b + n"
    using Cons.prems(1) by (auto simp: block_ok_def)
  define m where "m = (if al then e_align_ptr env (d_last h b) else d_last h b)"
  have al: "e_alignment env dvd b + n"
    using b(2) assms(1,3) by (auto simp: env_ok_def intro: dvd_trans)
  have m: "d_last h b \<le> m" "m \<le> b + n" "al \<longrightarrow> e_alignment env dvd m"
    using align_le [OF assms(1) al b(4)] assms(1) b(4) by (auto simp: m_def env_ok_def)
  have lt: "b + n < 2 ^ 64" using assms(2) b(1) by (auto simp: live_ok_def)
  have room: "size_t (int (d_end h b) - int m) = b + n - m"
    unfolding b(3) by (rule size_t_diff) (use m(2) lt in auto)
  show ?case
  proof (cases "sz \<le> b + n - m")
    case True
    have "small_loop env sz al p h = Some (Some (m, h\<lparr>d_last := (d_last h)(b := m + sz)\<rparr>))"
      unfolding p by (subst small_loop.simps) (use True room in \<open>simp add: m_def Let_def\<close>)
    moreover have "m + sz \<le> b + n" using True m(2) by simp
    moreover have "b \<in> set (b # bs)" by simp
    ultimately show ?thesis using m(1,3) by blast
  next
    case False
    then have step: "small_loop env sz al p h =
        (if d_next h b \<noteq> 0 then small_loop env sz al (d_next h b) h else Some None)"
      unfolding p by (subst small_loop.simps) (use room in \<open>simp add: m_def Let_def\<close>)
    show ?thesis
    proof (cases bs)
      case Nil
      then show ?thesis using step Cons.prems(2) by simp
    next
      case (Cons c cs)
      then have "d_next h b \<noteq> 0" using Cons.prems(2) by auto
      then show ?thesis using step Cons.IH [of "d_next h b"] Cons.prems Cons by auto
    qed
  qed
qed simp

lemma block_loop_spec:
  assumes "nodes (d_next h) p bs" and "bs \<noteq> []"
  shows "\<exists>f c. block_loop pool p h = Some (last bs, h\<lparr>d_failed := f, p_current := (p_current h)(pool := c)\<rparr>) \<and>
    c \<in> insert (p_current h pool) (set bs)"
  using assms
proof (induction bs arbitrary: p h)
  case (Cons b bs)
  have p: "p = b" using Cons.prems by simp
  show ?case
  proof (cases bs)
    case Nil
    then have "block_loop pool p h = Some (b, h)"
      using Cons.prems by (subst block_loop.simps) (simp add: p)
    then have "block_loop pool p h =
        Some (b, h\<lparr>d_failed := d_failed h, p_current := (p_current h)(pool := p_current h pool)\<rparr>)"
      by simp
    moreover have "last (b # bs) = b" using Nil by simp
    ultimately show ?thesis by (metis insertI1)
  next
    case (Cons c cs)
    have nx: "d_next h b = c" "c \<noteq> 0" using Cons.prems Cons by auto
    define h1 where "h1 = h\<lparr>d_failed := (d_failed h)(b := size_t (int (d_failed h b) + 1))\<rparr>"
    define h2 where "h2 = (if d_failed h b > 4 then h1\<lparr>p_current := (p_current h1)(pool := d_next h1 b)\<rparr> else h1)"
    have step: "block_loop pool p h = block_loop pool c h2"
      using nx by (subst block_loop.simps) (simp add: p h1_def h2_def Let_def)
    have "d_next h2 = d_next h" by (simp add: h1_def h2_def)
    then have "nodes (d_next h2) c bs" using Cons.prems nx by simp
    then obtain f d where r: "block_loop pool c h2 =
        Some (last bs, h2\<lparr>d_failed := f, p_current := (p_current h2)(pool := d)\<rparr>)"
        "d \<in> insert (p_current h2 pool) (set bs)"
      using Cons.IH [of h2 c] Cons by blast
    have "h2\<lparr>d_failed := f, p_current := (p_current h2)(pool := d)\<rparr> =
        h\<lparr>d_failed := f, p_current := (p_current h)(pool := d)\<rparr>"
      by (simp add: h1_def h2_def)
    moreover have "d \<in> insert (p_current h pool) (set (b # bs))"
      using r(2) nx Cons by (auto simp: h1_def h2_def split: if_splits)
    moreover have "last (b # bs) = last bs" using Cons by simp
    ultimately show ?thesis using step r(1) by metis
  qed
qed simp

text \<open>The fields the block allocator does not write.\<close>

definition same_lists :: "pmem \<Rightarrow> pmem \<Rightarrow> bool" where
  "same_lists h h' \<longleftrightarrow> l_next h' = l_next h \<and> l_alloc h' = l_alloc h \<and> p_large h' = p_large h \<and>
     p_cleanup h' = p_cleanup h \<and> c_handler h' = c_handler h \<and> c_data h' = c_data h \<and>
     c_next h' = c_next h \<and> f_fd h' = f_fd h \<and> f_name h' = f_name h \<and> p_max h' = p_max h"

lemma owned_cong: "l_alloc h' = l_alloc h \<Longrightarrow> owned h' ls = owned h ls"
  by (simp add: owned_def)

lemma block_within:
  assumes "live_ok (os_live h)" "block_ok env h pool n b" "block_ok env h pool n c"
    "b + header env pool b \<le> fst r" "fst r + snd r \<le> d_last h b"
    "c + header env pool c \<le> fst s" "fst s + snd s \<le> c + n" "b = c \<Longrightarrow> d_last h b \<le> fst s"
  shows "apart s r"
proof (cases "b = c")
  case True
  then show ?thesis using assms(5,8) by (simp add: apart_def)
next
  case False
  have "apart (c, n) (b, n)"
    using live_ok_apart [OF assms(1)] assms(2,3) False by (auto simp: block_ok_def)
  moreover have "within s (c, n)" "within r (b, n)"
    using assms by (auto simp: within_def block_ok_def)
  ultimately show ?thesis by (rule apart_within)
qed

lemma advance_last:
  assumes ok: "pool_ok env h pool bs ls used" and n: "blocks_ok env h pool bs n"
    and b: "b \<in> set bs" "d_last h b \<le> m" "m + sz \<le> b + n"
  shows "pool_ok env (h\<lparr>d_last := (d_last h)(b := m + sz)\<rparr>) pool bs ls ((m, sz) # used)"
proof -
  let ?h = "h\<lparr>d_last := (d_last h)(b := m + sz)\<rparr>"
  have blk: "block_ok env h pool n c" if "c \<in> set bs" for c using n that by (simp add: blocks_ok_def)
  have mono: "d_last h c \<le> d_last ?h c" for c using b(2) by simp
  have hb: "b + header env pool b \<le> m" using blk [OF b(1)] b(2) by (simp add: block_ok_def)
  have blk': "block_ok env ?h pool n c" if "c \<in> set bs" for c
    using blk [OF that] b hb by (auto simp: block_ok_def)
  have "blocks_ok env ?h pool bs n"
    using n blk' by (simp add: blocks_ok_def)
  moreover have old: "in_block env ?h pool bs r" if "r \<in> set used" for r
    using ok that mono unfolding pool_ok_def in_block_def by (meson order_trans)
  moreover have "in_block env ?h pool bs (m, sz)"
    using b(1) hb by (auto simp: in_block_def)
  moreover have "apart (m, sz) r" if r: "r \<in> set used" for r
  proof -
    obtain c where c: "c \<in> set bs" "c + header env pool c \<le> fst r" "fst r + snd r \<le> d_last h c"
      using ok r by (auto simp: pool_ok_def in_block_def)
    show ?thesis
      by (rule block_within [of h env pool n c b])
        (use ok c blk b hb in \<open>auto simp: pool_ok_def\<close>)
  qed
  ultimately show ?thesis
    using ok by (auto simp: pool_ok_def owned_def)
qed

lemma blocks_size: "blocks_ok env h pool bs n \<Longrightarrow> live_ok (os_live h) \<Longrightarrow> size_t (int (d_end h pool) - int pool) = n"
  using size_t_nat [of n] by (cases bs) (auto simp: blocks_ok_def block_ok_def)

lemma pool_ok_blocks: "pool_ok env h pool bs ls used \<Longrightarrow> \<exists>n. blocks_ok env h pool bs n"
  by (simp add: pool_ok_def)

text \<open>A change of the fields the invariant does not read.\<close>

lemma pool_ok_cong:
  assumes "pool_ok env h pool bs ls used"
    and "os_live h' = os_live h" "d_next h' = d_next h" "d_last h' = d_last h" "d_end h' = d_end h"
    and "l_next h' = l_next h" "l_alloc h' = l_alloc h" "p_large h' = p_large h" "p_max h' = p_max h"
    and "p_current h' pool \<in> set bs"
  shows "pool_ok env h' pool bs ls used"
  using assms by (simp add: pool_ok_def blocks_ok_def block_ok_def in_block_def owned_def)

lemma add_block:
  assumes env: "env_ok env" and ok: "pool_ok env h pool bs ls used" and n: "blocks_ok env h pool bs n"
    and m: "fresh m n (os_live h)" "m \<noteq> 0" "NGX_POOL_ALIGNMENT dvd m"
    and sz: "e_sizeof_data env + sz \<le> n"
    and h': "os_live h' = (m, n) # os_live h" "d_next h' = (d_next h)(m := 0, last bs := m)"
      "d_last h' = (d_last h)(m := m + e_sizeof_data env + sz)" "d_end h' = (d_end h)(m := m + n)"
      "p_current h' pool \<in> set bs" "same_lists h h'"
  shows "pool_ok env h' pool (bs @ [m]) ls ((m + e_sizeof_data env, sz) # used)"
proof -
  have live: "live_ok (os_live h)" using ok by (simp add: pool_ok_def)
  have blk: "block_ok env h pool n c" if "c \<in> set bs" for c using n that by (simp add: blocks_ok_def)
  have pool: "nodes (d_next h) pool bs" "bs \<noteq> []" "pool \<in> set bs"
    using n by (cases bs; auto simp: blocks_ok_def)+
  have base: "c \<in> fst ` set (os_live h)" if "c \<in> set bs" for c
    using blk [OF that] by (force simp: block_ok_def)
  have new: "m \<notin> set bs" "m \<noteq> pool" "m \<noteq> last bs"
    using m(1) base pool by (auto simp: fresh_def)
  have own: "owned h' ls = owned h ls" using h'(6) by (simp add: owned_def same_lists_def)
  have live': "live_ok (os_live h')" unfolding h'(1) by (rule live_ok_take [OF live m(2,1)])
  have nodes: "nodes (d_next h') pool (bs @ [m])"
  proof -
    have "nodes ((d_next h)(m := 0)) pool bs"
      using pool(1) new(1) by (subst nodes_cong [where nx' = "d_next h"]) auto
    from nodes_snoc [OF this pool(2) new(1) m(2)] show ?thesis by (simp add: h'(2))
  qed
  have blk': "block_ok env h' pool n c" if "c \<in> set (bs @ [m])" for c
    using blk [of c] that new m(3) sz by (auto simp: block_ok_def h' header_def)
  have "blocks_ok env h' pool (bs @ [m]) n"
    using n nodes blk' h'(5,6) by (auto simp: blocks_ok_def same_lists_def)
  moreover have in': "in_block env h' pool (bs @ [m]) r" if r: "r \<in> set used" for r
  proof -
    obtain b where b: "b \<in> set bs" "b + header env pool b \<le> fst r" "fst r + snd r \<le> d_last h b"
      using ok r by (auto simp: pool_ok_def in_block_def)
    moreover have "d_last h' b = d_last h b" using b(1) new(1) by (auto simp: h'(3))
    ultimately show ?thesis unfolding in_block_def by (intro bexI [of _ b]) simp_all
  qed
  moreover have "in_block env h' pool (bs @ [m]) (m + e_sizeof_data env, sz)"
    using new(2) by (auto simp: in_block_def header_def h'(3))
  moreover have "apart (m + e_sizeof_data env, sz) r" if r: "r \<in> set used" for r
  proof -
    obtain b where b: "b \<in> set bs" "b + header env pool b \<le> fst r" "fst r + snd r \<le> d_last h b"
      using ok r by (auto simp: pool_ok_def in_block_def)
    have "apart (m, n) (b, n)" using m(1) blk [OF b(1)] by (auto simp: fresh_def block_ok_def)
    moreover have "within (m + e_sizeof_data env, sz) (m, n)" "within r (b, n)"
      using sz b blk [OF b(1)] by (auto simp: within_def block_ok_def)
    ultimately show ?thesis by (rule apart_within)
  qed
  moreover have "m \<notin> set (owned h ls)" using ok m(1) by (auto simp: pool_ok_def fresh_def)
  ultimately show ?thesis
    using ok live' own new h'(1,6) by (auto simp: pool_ok_def same_lists_def)
qed

lemma palloc_block_spec:
  assumes env: "env_ok env" and ok: "pool_ok env h pool bs ls used"
    and sz: "sz \<le> p_max h pool \<or> sz = e_sizeof_large env"
  shows "\<exists>p h'. ngx_palloc_block env pool sz h = Some (p, h') \<and> same_lists h h' \<and>
    set (os_live h) \<subseteq> set (os_live h') \<and> e_alignment env dvd p \<and>
    (if p = 0 then pool_ok env h' pool bs ls used \<and> os_live h' = os_live h
     else \<exists>bs'. pool_ok env h' pool (bs @ bs') ls ((p, sz) # used) \<and>
            os_live h' = map (\<lambda>b. (b, d_end h pool - pool)) bs' @ os_live h)"
proof -
  obtain n where n: "blocks_ok env h pool bs n" using ok by (auto simp: pool_ok_def)
  have live: "live_ok (os_live h)" using ok by (simp add: pool_ok_def)
  have ps: "size_t (int (d_end h pool) - int pool) = n" by (rule blocks_size [OF n live])
  have pn: "d_end h pool - pool = n"
    using n by (cases bs) (auto simp: blocks_ok_def block_ok_def)
  define m where "m = e_memalign env NGX_POOL_ALIGNMENT n (os_tick h) (os_live h)"
  have ma: "ngx_memalign env NGX_POOL_ALIGNMENT n h = (m, os_take m n h)"
    by (simp add: ngx_memalign_def m_def Let_def)
  show ?thesis
  proof (cases "m = 0")
    case True
    have "ngx_palloc_block env pool sz h = Some (0, os_take 0 n h)"
      using True by (simp add: ngx_palloc_block_def ps ma)
    moreover have "pool_ok env (os_take 0 n h) pool bs ls used"
      by (rule pool_ok_cong [OF ok]) (use n in \<open>simp_all add: os_take_def blocks_ok_def\<close>)
    moreover have "same_lists h (os_take 0 n h)" by (simp add: same_lists_def os_take_def)
    moreover have "os_live (os_take 0 n h) = os_live h" by (simp add: os_take_def)
    ultimately show ?thesis by simp
  next
    case False
    have m: "fresh m n (os_live h)" "NGX_POOL_ALIGNMENT dvd m"
      using env False by (auto simp: env_ok_def m_def Let_def)
    have al: "e_alignment env dvd m + e_sizeof_data env"
      using env m(2) by (auto simp: env_ok_def intro: dvd_trans)
    define h1 where "h1 = (os_take m n h)\<lparr>d_end := (d_end h)(m := m + n), d_next := (d_next h)(m := 0),
      d_failed := (d_failed h)(m := 0), d_last := (d_last h)(m := m + e_sizeof_data env + sz)\<rparr>"
    have cur: "p_current h pool \<in> set bs" using n by (simp add: blocks_ok_def)
    obtain us vs where suf: "bs = us @ p_current h pool # vs"
        "nodes (d_next h) (p_current h pool) (p_current h pool # vs)"
      using nodes_from [OF _ cur, of "d_next h" pool] n unfolding blocks_ok_def by blast
    have "(b, n) \<in> set (os_live h)" if "b \<in> set bs" for b
      using n that by (simp add: blocks_ok_def block_ok_def)
    then have mb: "m \<notin> set bs"
      using m(1) unfolding fresh_def by (metis fst_conv image_eqI)
    have "nodes (d_next h1) (p_current h1 pool) (p_current h pool # vs)"
      using suf mb by (subst nodes_cong [where nx' = "d_next h"]) (auto simp: h1_def os_take_def)
    moreover have "last (p_current h pool # vs) = last bs" "set (p_current h pool # vs) \<subseteq> set bs"
      using suf(1) by auto
    moreover have "p_current h1 pool \<in> set bs" using cur by (simp add: h1_def os_take_def)
    ultimately obtain f c where bl:
        "block_loop pool (p_current h1 pool) h1 =
         Some (last bs, h1\<lparr>d_failed := f, p_current := (p_current h1)(pool := c)\<rparr>)" "c \<in> set bs"
      using block_loop_spec [of h1 "p_current h1 pool" "p_current h pool # vs" pool] by auto
    define h2 where "h2 = h1\<lparr>d_failed := f, p_current := (p_current h1)(pool := c)\<rparr>"
    define h' where "h' = h2\<lparr>d_next := (d_next h2)(last bs := m)\<rparr>"
    have "ngx_palloc_block env pool sz h = Some (m + e_sizeof_data env, h')"
      using False bl(1) by (simp add: ngx_palloc_block_def ps ma align_id [OF env al] h1_def os_take_def h'_def h2_def Let_def)
    moreover have sl: "same_lists h h'" by (simp add: same_lists_def h'_def h2_def h1_def os_take_def)
    moreover have ol: "os_live h' = (m, n) # os_live h"
      using False by (simp add: h'_def h2_def h1_def os_take_def)
    moreover have "pool_ok env h' pool (bs @ [m]) ls ((m + e_sizeof_data env, sz) # used)"
    proof (rule add_block [OF env ok n m(1) False m(2) _ ol _ _ _ _ sl])
      show "e_sizeof_data env + sz \<le> n"
        using sz n env by (auto simp: blocks_ok_def env_ok_def)
    qed (use bl(2) in \<open>simp_all add: h'_def h2_def h1_def os_take_def\<close>)
    moreover have "m + e_sizeof_data env \<noteq> 0" using False by simp
    ultimately show ?thesis using al pn by (intro exI [of _ "m + e_sizeof_data env"] exI [of _ h']) auto
  qed
qed

lemma palloc_small_spec:
  assumes env: "env_ok env" and ok: "pool_ok env h pool bs ls used"
    and sz: "sz \<le> p_max h pool \<or> sz = e_sizeof_large env"
  shows "\<exists>p h'. ngx_palloc_small env pool sz al h = Some (p, h') \<and> same_lists h h' \<and>
    set (os_live h) \<subseteq> set (os_live h') \<and> (al \<longrightarrow> e_alignment env dvd p) \<and>
    (if p = 0 then pool_ok env h' pool bs ls used \<and> os_live h' = os_live h
     else \<exists>bs'. pool_ok env h' pool (bs @ bs') ls ((p, sz) # used) \<and>
            os_live h' = map (\<lambda>b. (b, d_end h pool - pool)) bs' @ os_live h)"
proof -
  obtain n where n: "blocks_ok env h pool bs n" using ok by (auto simp: pool_ok_def)
  have cur: "p_current h pool \<in> set bs" using n by (simp add: blocks_ok_def)
  obtain us vs where suf: "bs = us @ p_current h pool # vs"
      "nodes (d_next h) (p_current h pool) (p_current h pool # vs)"
    using nodes_from [OF _ cur, of "d_next h" pool] n unfolding blocks_ok_def by blast
  have "\<forall>b \<in> set (p_current h pool # vs). block_ok env h pool n b"
    using n suf(1) by (auto simp: blocks_ok_def)
  moreover have "live_ok (os_live h)" "e_alignment env dvd n" using ok n by (simp_all add: pool_ok_def blocks_ok_def)
  ultimately consider (no) "small_loop env sz al (p_current h pool) h = Some None"
    | (yes) b m where "b \<in> set (p_current h pool # vs)" "d_last h b \<le> m" "m + sz \<le> b + n" "al \<longrightarrow> e_alignment env dvd m"
        "small_loop env sz al (p_current h pool) h = Some (Some (m, h\<lparr>d_last := (d_last h)(b := m + sz)\<rparr>))"
    using small_loop_spec [OF env _ _ _ suf(2), where n = n and sz = sz and al = al] by blast
  then show ?thesis
  proof cases
    case no
    then have "ngx_palloc_small env pool sz al h = ngx_palloc_block env pool sz h"
      by (simp add: ngx_palloc_small_def)
    then show ?thesis using palloc_block_spec [OF assms] by metis
  next
    case yes
    let ?h = "h\<lparr>d_last := (d_last h)(b := m + sz)\<rparr>"
    have b: "b \<in> set bs" using yes(1) suf(1) by auto
    have "b \<noteq> 0" using n b nodes_zero unfolding blocks_ok_def by metis
    moreover have "b \<le> m" using n b yes(2) by (force simp: blocks_ok_def block_ok_def)
    ultimately have "m \<noteq> 0" by simp
    moreover have "ngx_palloc_small env pool sz al h = Some (m, ?h)"
      using yes(5) by (simp add: ngx_palloc_small_def)
    moreover have "pool_ok env ?h pool (bs @ []) ls ((m, sz) # used)"
      using advance_last [OF ok n b yes(2,3)] by simp
    moreover have "same_lists h ?h" by (simp add: same_lists_def)
    moreover have "os_live ?h = map (\<lambda>b. (b, d_end h pool - pool)) [] @ os_live h" by simp
    ultimately show ?thesis using yes(4) by (intro exI [of _ m] exI [of _ ?h]) auto
  qed
qed

section \<open>Large allocations\<close>

lemma pool_ok_base:
  assumes "pool_ok env h pool bs ls used" and "a \<in> set bs \<union> set (owned h ls)"
  shows "\<exists>n. (a, n) \<in> set (os_live h)"
proof (cases "a \<in> set bs")
  case True
  obtain n where "blocks_ok env h pool bs n" using assms(1) by (auto simp: pool_ok_def)
  then show ?thesis using True by (auto simp: blocks_ok_def block_ok_def)
next
  case False
  then have "a \<in> fst ` set (os_live h)" using assms by (auto simp: pool_ok_def)
  then show ?thesis by auto
qed

lemma large_slot_spec:
  "nodes (l_next h) l ls \<Longrightarrow> large_slot h l n \<noteq> 0 \<Longrightarrow>
     large_slot h l n \<in> set ls \<and> l_alloc h (large_slot h l n) = 0"
proof (induction ls arbitrary: l n)
  case Nil
  then show ?case by (simp add: large_slot.simps)
next
  case (Cons x xs)
  show ?case
  proof (cases "l_alloc h x = 0 \<or> n > 3")
    case True
    then show ?thesis using Cons.prems large_slot.simps [of h l n] by auto
  next
    case False
    then have "large_slot h l n = large_slot h (l_next h x) (n + 1)"
      using Cons.prems large_slot.simps [of h l n] by auto
    then show ?thesis using Cons by auto
  qed
qed

lemma pool_ok_live:
  assumes "pool_ok env h pool bs ls used" and "live_ok live" and "live_ok (os_live h)"
    and "\<And>r. r \<in> set (os_live h) \<Longrightarrow> fst r \<in> set bs \<union> set (owned h ls) \<Longrightarrow> r \<in> set live"
  shows "pool_ok env (h\<lparr>os_live := live, os_tick := t\<rparr>) pool bs ls used"
proof -
  let ?h = "h\<lparr>os_live := live, os_tick := t\<rparr>"
  obtain n where n: "blocks_ok env h pool bs n" using assms(1) by (auto simp: pool_ok_def)
  then have "blocks_ok env ?h pool bs n" using assms(4) by (auto simp: blocks_ok_def block_ok_def)
  moreover have "set (owned h ls) \<subseteq> fst ` set live"
  proof
    fix a assume a: "a \<in> set (owned h ls)"
    then obtain r where r: "r \<in> set (os_live h)" "fst r = a" using assms(1) unfolding pool_ok_def by blast
    then have "r \<in> set live" using assms(4) [of r] a by simp
    then show "a \<in> fst ` set live" using r(2) by blast
  qed
  ultimately show ?thesis using assms(1,2) by (auto simp: pool_ok_def owned_def in_block_def)
qed

lemma pool_ok_take:
  assumes "pool_ok env h pool bs ls used" and "a \<noteq> 0" and "fresh a n (os_live h)"
  shows "pool_ok env (os_take a n h) pool bs ls used" and "a \<notin> set bs \<union> set (owned h ls)"
proof -
  have live: "live_ok (os_live h)" using assms(1) by (simp add: pool_ok_def)
  show "pool_ok env (os_take a n h) pool bs ls used"
    using pool_ok_live [OF assms(1) live_ok_take [OF live assms(2,3)] live] assms(2) by (auto simp: os_take_def)
  have "b \<in> fst ` set (os_live h)" if "b \<in> set bs \<union> set (owned h ls)" for b
    using pool_ok_base [OF assms(1) that] by (metis fst_conv image_eqI)
  then show "a \<notin> set bs \<union> set (owned h ls)"
    using assms(1,3) by (auto simp: pool_ok_def fresh_def)
qed

lemma pool_ok_drop:
  assumes "pool_ok env h pool bs ls used" and "a \<notin> set bs \<union> set (owned h ls)"
  shows "pool_ok env (h\<lparr>os_live := filter (\<lambda>r. fst r \<noteq> a) (os_live h)\<rparr>) pool bs ls used"
proof -
  have live: "live_ok (os_live h)" using assms(1) by (simp add: pool_ok_def)
  show ?thesis
    using pool_ok_live [OF assms(1) live_ok_filter [OF live] live, of "\<lambda>r. fst r \<noteq> a" "os_tick h"] assms(2) by auto
qed

text \<open>A record, old or new, takes charge of a region that no record owns yet.\<close>

lemma own_slot:
  assumes ok: "pool_ok env h pool bs ls used" and l: "l \<in> set ls" "l_alloc h l = 0"
    and p: "p \<notin> set bs \<union> set (owned h ls)" "(p, n) \<in> set (os_live h)"
  shows "pool_ok env (h\<lparr>l_alloc := (l_alloc h)(l := p)\<rparr>) pool bs ls used"
    and "set (owned (h\<lparr>l_alloc := (l_alloc h)(l := p)\<rparr>) ls) = insert p (set (owned h ls))"
proof -
  let ?h = "h\<lparr>l_alloc := (l_alloc h)(l := p)\<rparr>"
  obtain n where blk: "blocks_ok env h pool bs n" using ok by (auto simp: pool_ok_def)
  have nd: "nodes (l_next h) (p_large h pool) ls" using ok by (simp add: pool_ok_def)
  obtain us vs where ls: "ls = us @ l # vs" using l(1) by (auto simp: in_set_conv_decomp)
  have d: "l \<notin> set us" "l \<notin> set vs" using nodes_distinct [OF nd] ls by auto
  have p0: "p \<noteq> 0" using p(2) ok by (auto simp: pool_ok_def live_ok_def)
  have old: "owned h ls = owned h us @ owned h vs" using l(2) by (simp add: ls owned_def)
  have new: "owned ?h ls = owned h us @ p # owned h vs"
    using d p0 by (auto simp: ls owned_def map_fun_upd)
  show own: "set (owned ?h ls) = insert p (set (owned h ls))" by (auto simp: old new)
  have "p \<in> fst ` set (os_live h)" using p(2) by (metis fst_conv image_eqI)
  then have "set (owned ?h ls) \<subseteq> fst ` set (os_live h)" using ok own by (auto simp: pool_ok_def)
  moreover have "distinct (bs @ owned ?h ls)" using ok p(1) by (auto simp: pool_ok_def old new)
  moreover have "blocks_ok env ?h pool bs n" using blk by (simp add: blocks_ok_def block_ok_def)
  ultimately show "pool_ok env ?h pool bs ls used"
    using ok by (auto simp: pool_ok_def in_block_def)
qed

lemma own_record:
  assumes env: "env_ok env" and ok: "pool_ok env h pool bs ls ((l, e_sizeof_large env) # used)" and l: "l \<noteq> 0"
    and sub: "\<And>r. r \<in> set ls \<Longrightarrow> (r, e_sizeof_large env) \<in> set used"
    and p: "p \<notin> set bs \<union> set (owned h ls)" "(p, n) \<in> set (os_live h)"
    and h': "h' = h\<lparr>l_alloc := (l_alloc h)(l := p), l_next := (l_next h)(l := p_large h pool),
                   p_large := (p_large h)(pool := l)\<rparr>"
  shows "pool_ok env h' pool bs (l # ls) ((l, e_sizeof_large env) # used)"
    and "set (owned h' (l # ls)) = insert p (set (owned h ls))"
proof -
  obtain n where blk: "blocks_ok env h pool bs n" using ok by (auto simp: pool_ok_def)
  have nd: "nodes (l_next h) (p_large h pool) ls" using ok by (simp add: pool_ok_def)
  have fresh: "l \<notin> set ls"
  proof
    assume "l \<in> set ls"
    then have "apart (l, e_sizeof_large env) (l, e_sizeof_large env)"
      using sub ok by (auto simp: pool_ok_def)
    then show False using env by (simp add: apart_def env_ok_def)
  qed
  have p0: "p \<noteq> 0" using p(2) ok by (auto simp: pool_ok_def live_ok_def)
  have own: "owned h' (l # ls) = p # owned h ls"
    using fresh p0 by (auto simp: h' owned_def map_fun_upd)
  then show "set (owned h' (l # ls)) = insert p (set (owned h ls))" by simp
  have "nodes ((l_next h)(l := p_large h pool)) (p_large h pool) ls"
    using nd fresh by (subst nodes_cong [where nx' = "l_next h"]) auto
  then have "nodes (l_next h') (p_large h' pool) (l # ls)" using l by (simp add: h')
  moreover have "p \<in> fst ` set (os_live h)" using p(2) by (metis fst_conv image_eqI)
  then have "set (owned h' (l # ls)) \<subseteq> fst ` set (os_live h)" using ok by (auto simp: pool_ok_def own)
  moreover have "distinct (bs @ owned h' (l # ls))" using ok p(1) by (auto simp: pool_ok_def own)
  moreover have "blocks_ok env h' pool bs n" using blk by (simp add: blocks_ok_def block_ok_def h')
  ultimately show "pool_ok env h' pool bs (l # ls) ((l, e_sizeof_large env) # used)"
    using ok by (auto simp: pool_ok_def in_block_def h')
qed

section \<open>The regions handed out\<close>

text \<open>\<open>rs\<close> are the regions the callers hold: none of them overlaps another one or a record
  of the pool.\<close>

definition held :: "ngx_env \<Rightarrow> pmem \<Rightarrow> nat list \<Rightarrow> region list \<Rightarrow> region list \<Rightarrow> bool" where
  "held env h ls used rs \<longleftrightarrow> sorted_wrt apart rs \<and>
     (\<forall>r \<in> set rs. (r \<in> set used \<or> r \<in> set (os_live h) \<and> fst r \<in> set (owned h ls)) \<and>
        (\<forall>l \<in> set ls. apart r (l, e_sizeof_large env)))"

text \<open>The live regions that do not belong to the pool.\<close>

definition rest :: "pmem \<Rightarrow> nat list \<Rightarrow> nat list \<Rightarrow> region list" where
  "rest h bs ls = filter (\<lambda>r. fst r \<notin> set bs \<union> set (owned h ls)) (os_live h)"

text \<open>\<open>base\<close> is what is live outside the pool, \<open>pin\<close> are regions inside its blocks.\<close>

definition pool_inv :: "ngx_env \<Rightarrow> pmem \<Rightarrow> nat \<Rightarrow> region list \<Rightarrow> region list \<Rightarrow> region list \<Rightarrow> bool" where
  "pool_inv env h pool base rs pin \<longleftrightarrow>
     (\<exists>bs ls used. pool_ok env h pool bs ls used \<and> held env h ls used rs \<and> rest h bs ls = base \<and>
        set pin \<subseteq> set used)"

lemma pool_invI:
  "pool_ok env h pool bs ls used \<Longrightarrow> held env h ls used rs \<Longrightarrow> rest h bs ls = base \<Longrightarrow> set pin \<subseteq> set used \<Longrightarrow>
   pool_inv env h pool base rs pin"
  unfolding pool_inv_def by blast

text \<open>The cleanup list and the largest small allocation are not touched.\<close>

definition same_cleanup :: "pmem \<Rightarrow> pmem \<Rightarrow> bool" where
  "same_cleanup h h' \<longleftrightarrow> p_cleanup h' = p_cleanup h \<and> c_handler h' = c_handler h \<and> c_data h' = c_data h \<and>
     c_next h' = c_next h \<and> f_fd h' = f_fd h \<and> f_name h' = f_name h \<and> p_max h' = p_max h"

lemma same_cleanup_lists: "same_lists h h' \<Longrightarrow> same_cleanup h h'"
  by (simp add: same_lists_def same_cleanup_def)

lemma rest_more:
  assumes "os_live h' = map (\<lambda>b. (b, n)) bs' @ os_live h" "l_alloc h' = l_alloc h"
    and "pool_ok env h' pool (bs @ bs') ls used"
  shows "rest h' (bs @ bs') ls = rest h bs ls"
proof -
  have own: "owned h' ls = owned h ls" using assms(2) by (simp add: owned_def)
  have "distinct (map fst (os_live h'))" using assms(3) by (simp add: pool_ok_def live_ok_def)
  then have d: "set bs' \<inter> fst ` set (os_live h) = {}" unfolding assms(1) by simp
  have "filter (\<lambda>r. fst r \<notin> set (bs @ bs') \<union> set (owned h ls)) (os_live h) =
      filter (\<lambda>r. fst r \<notin> set bs \<union> set (owned h ls)) (os_live h)"
    using d by (intro filter_cong) auto
  then show ?thesis by (simp add: rest_def own assms(1))
qed

lemma used_apart_owned:
  assumes "pool_ok env h pool bs ls used" "r \<in> set used" "s \<in> set (os_live h)" "fst s \<in> set (owned h ls)"
  shows "apart r s"
proof -
  obtain n where n: "blocks_ok env h pool bs n" using assms(1) by (auto simp: pool_ok_def)
  obtain b where b: "b \<in> set bs" "b + header env pool b \<le> fst r" "fst r + snd r \<le> d_last h b"
    using assms(1,2) by (auto simp: pool_ok_def in_block_def)
  have blk: "(b, n) \<in> set (os_live h)" "d_last h b \<le> b + n" using n b(1) by (auto simp: blocks_ok_def block_ok_def)
  have "fst s \<noteq> b" using assms(1,4) b(1) by (auto simp: pool_ok_def)
  moreover have "live_ok (os_live h)" using assms(1) by (simp add: pool_ok_def)
  ultimately have "apart (b, n) s"
    using live_ok_apart [OF _ blk(1) assms(3)] by (metis fst_conv)
  moreover have "within r (b, n)" using b blk(2) by (auto simp: within_def)
  ultimately show ?thesis by (rule apart_within) (simp add: within_def)
qed

lemma held_small:
  assumes "pool_ok env h' pool bs' ls ((p, n) # used)" and "held env h ls used rs"
    and "\<And>l. l \<in> set ls \<Longrightarrow> (l, e_sizeof_large env) \<in> set used"
    and "set (os_live h) \<subseteq> set (os_live h')" and "l_alloc h' = l_alloc h"
  shows "held env h' ls ((p, n) # used) ((p, n) # rs)"
proof -
  have own: "owned h' ls = owned h ls" using assms(5) by (simp add: owned_def)
  have "apart (p, n) r" if "r \<in> set used" for r using assms(1) that by (simp add: pool_ok_def)
  moreover have "apart (p, n) r" if "r \<in> set rs" for r
  proof (cases "r \<in> set used")
    case False
    then have "r \<in> set (os_live h')" "fst r \<in> set (owned h' ls)"
      using assms(2,4) that own by (auto simp: held_def)
    then show ?thesis using used_apart_owned [OF assms(1)] by simp
  qed (use calculation in blast)
  ultimately show ?thesis using assms(2-4) own by (auto simp: held_def)
qed

lemma held_tl: "held env h ls used (r # rs) \<Longrightarrow> held env h ls used rs"
  by (simp add: held_def)

lemma held_large:
  assumes ok: "pool_ok env h' pool bs' ls' used'" and held: "held env h ls used rs"
    and sub: "set used \<subseteq> set used'" "set (os_live h) \<subseteq> set (os_live h')" "set (owned h ls) \<subseteq> set (owned h' ls')"
    and p: "(p, n) \<in> set (os_live h')" "p \<in> set (owned h' ls')" "p \<notin> set (owned h ls)"
    and rec: "\<And>l r. l \<in> set ls' \<Longrightarrow> r \<in> set rs \<Longrightarrow> r \<in> set used \<Longrightarrow> apart r (l, e_sizeof_large env)"
  shows "held env h' ls' used' ((p, n) # rs)"
proof -
  have live: "live_ok (os_live h')" using ok by (simp add: pool_ok_def)
  have recs: "(l, e_sizeof_large env) \<in> set used'" if "l \<in> set ls'" for l
    using ok that by (simp add: pool_ok_def)
  have big: "apart s (l, e_sizeof_large env)"
    if "s \<in> set (os_live h')" "fst s \<in> set (owned h' ls')" "l \<in> set ls'" for s l
    using used_apart_owned [OF ok recs [OF that(3)] that(1,2)] apart_sym by simp
  have place: "r \<in> set used' \<or> r \<in> set (os_live h') \<and> fst r \<in> set (owned h' ls')" if "r \<in> set rs" for r
    using held that sub by (auto simp: held_def)
  have "apart (p, n) r" if r: "r \<in> set rs" for r
  proof (cases "r \<in> set used")
    case True
    then have "r \<in> set used'" using sub(1) by blast
    then have "apart r (p, n)" by (rule used_apart_owned [OF ok _ p(1)]) (simp add: p(2))
    then show ?thesis using apart_sym by blast
  next
    case False
    then have "r \<in> set (os_live h')" "fst r \<noteq> p" using held r sub(2) p(3) by (auto simp: held_def)
    then show ?thesis by (intro live_ok_apart [OF live p(1)]) auto
  qed
  moreover have "apart r (l, e_sizeof_large env)" if "r \<in> set rs" "l \<in> set ls'" for r l
  proof (cases "r \<in> set used")
    case False
    then have "r \<in> set (os_live h')" "fst r \<in> set (owned h' ls')" using held that(1) sub by (auto simp: held_def)
    then show ?thesis using big that(2) by simp
  qed (use rec that in blast)
  ultimately show ?thesis using held place big p(1,2) by (simp add: held_def)
qed

lemma palloc_small_inv:
  assumes env: "env_ok env" and inv: "pool_inv env h pool base rs pin" and sz: "sz \<le> p_max h pool"
  shows "\<exists>p h'. ngx_palloc_small env pool sz al h = Some (p, h') \<and> (al \<longrightarrow> e_alignment env dvd p) \<and>
    same_cleanup h h' \<and>
    (if p = 0 then pool_inv env h' pool base rs pin
     else pool_inv env h' pool base ((p, sz) # rs) ((p, sz) # pin) \<and> (\<forall>r \<in> set pin. apart (p, sz) r))"
proof -
  obtain bs ls used where ok: "pool_ok env h pool bs ls used" and held: "held env h ls used rs"
      and base: "rest h bs ls = base" "set pin \<subseteq> set used"
    using inv by (auto simp: pool_inv_def)
  obtain p h' where r: "ngx_palloc_small env pool sz al h = Some (p, h')" "same_lists h h'"
      "set (os_live h) \<subseteq> set (os_live h')" "al \<longrightarrow> e_alignment env dvd p"
      "if p = 0 then pool_ok env h' pool bs ls used \<and> os_live h' = os_live h
       else \<exists>bs'. pool_ok env h' pool (bs @ bs') ls ((p, sz) # used) \<and>
              os_live h' = map (\<lambda>b. (b, d_end h pool - pool)) bs' @ os_live h"
    using palloc_small_spec [OF env ok, of sz al] sz by metis
  have al: "l_alloc h' = l_alloc h" using r(2) by (simp add: same_lists_def)
  have "if p = 0 then pool_inv env h' pool base rs pin
     else pool_inv env h' pool base ((p, sz) # rs) ((p, sz) # pin) \<and> (\<forall>r \<in> set pin. apart (p, sz) r)"
  proof (cases "p = 0")
    case True
    then have "held env h' ls used rs" "rest h' bs ls = base"
      using held base r(5) al by (auto simp: held_def owned_def rest_def)
    then show ?thesis using True r(5) base(2) pool_invI by auto
  next
    case False
    then obtain bs' where bs': "pool_ok env h' pool (bs @ bs') ls ((p, sz) # used)"
        "os_live h' = map (\<lambda>b. (b, d_end h pool - pool)) bs' @ os_live h" using r(5) by auto
    have "held env h' ls ((p, sz) # used) ((p, sz) # rs)"
      by (rule held_small [OF bs'(1) held _ r(3) al]) (use ok in \<open>simp add: pool_ok_def\<close>)
    moreover have "rest h' (bs @ bs') ls = base" using rest_more [OF bs'(2) al bs'(1)] base(1) by simp
    moreover have "apart (p, sz) r" if "r \<in> set pin" for r
      using bs'(1) base(2) that by (auto simp: pool_ok_def)
    moreover have "set ((p, sz) # pin) \<subseteq> set ((p, sz) # used)" using base(2) by auto
    ultimately show ?thesis using False pool_invI [OF bs'(1)] by auto
  qed
  then show ?thesis using r same_cleanup_lists by blast
qed

lemma free_filter: "a \<noteq> 0 \<Longrightarrow> a \<in> fst ` set (os_live h) \<Longrightarrow>
    ngx_free a h = Some (h\<lparr>os_live := filter (\<lambda>r. fst r \<noteq> a) (os_live h)\<rparr>)"
  by (simp add: ngx_free_def)

text \<open>Giving up a region that nothing in the pool refers to.\<close>

lemma free_unowned:
  assumes ok: "pool_ok env h pool bs ls used" and held: "held env h ls used rs"
    and p: "p \<notin> set bs \<union> set (owned h ls)" "p \<noteq> 0" "(p, n) \<in> set (os_live h)"
    and base: "filter (\<lambda>r. fst r \<noteq> p) (rest h bs ls) = base" and pin: "set pin \<subseteq> set used"
  shows "\<exists>h'. ngx_free p h = Some h' \<and> pool_inv env h' pool base rs pin \<and> same_cleanup h h'"
proof -
  let ?h = "h\<lparr>os_live := filter (\<lambda>r. fst r \<noteq> p) (os_live h)\<rparr>"
  have "p \<in> fst ` set (os_live h)" using p(3) by (metis fst_conv image_eqI)
  then have "ngx_free p h = Some ?h" by (rule free_filter [OF p(2)])
  moreover have "held env ?h ls used rs" using held p(1) by (auto simp: held_def owned_def)
  moreover have "rest ?h bs ls = base"
    using base by (auto simp: rest_def owned_def conj_commute)
  moreover have "same_cleanup h ?h" by (simp add: same_cleanup_def)
  ultimately show ?thesis using pool_invI [OF pool_ok_drop [OF ok p(1)]] pin by blast
qed

lemma large_record_inv:
  assumes env: "env_ok env" and ok: "pool_ok env h pool bs ls used" and held: "held env h ls used rs"
    and p: "p \<notin> set bs \<union> set (owned h ls)" "p \<noteq> 0" "(p, n) \<in> set (os_live h)"
    and base: "filter (\<lambda>r. fst r \<noteq> p) (rest h bs ls) = base" and pin: "set pin \<subseteq> set used"
  shows "\<exists>q h'. large_record env pool p h = Some (q, h') \<and> (q = 0 \<or> q = p) \<and> same_cleanup h h' \<and>
    pool_inv env h' pool base (if q = 0 then rs else (q, n) # rs) pin"
proof -
  obtain l h1 where r: "ngx_palloc_small env pool (e_sizeof_large env) True h = Some (l, h1)" "same_lists h h1"
      "set (os_live h) \<subseteq> set (os_live h1)"
      "if l = 0 then pool_ok env h1 pool bs ls used \<and> os_live h1 = os_live h
       else \<exists>bs'. pool_ok env h1 pool (bs @ bs') ls ((l, e_sizeof_large env) # used) \<and>
              os_live h1 = map (\<lambda>b. (b, d_end h pool - pool)) bs' @ os_live h"
    using palloc_small_spec [OF env ok, of "e_sizeof_large env" True] by metis
  have al: "l_alloc h1 = l_alloc h" "owned h1 ls = owned h ls" using r(2) by (simp_all add: same_lists_def owned_def)
  have live1: "(p, n) \<in> set (os_live h1)" using p(3) r(3) by auto
  show ?thesis
  proof (cases "l = 0")
    case True
    then have h1: "pool_ok env h1 pool bs ls used" "os_live h1 = os_live h" using r(4) by simp_all
    have "held env h1 ls used rs" "filter (\<lambda>r. fst r \<noteq> p) (rest h1 bs ls) = base"
      using held base h1(2) al by (auto simp: held_def rest_def)
    then obtain h' where "ngx_free p h1 = Some h'" "pool_inv env h' pool base rs pin" "same_cleanup h1 h'"
      using free_unowned [OF h1(1) _ _ p(2) live1 _ pin] p(1) al(2) by metis
    moreover from this have "same_cleanup h h'" using r(2) by (simp add: same_lists_def same_cleanup_def)
    ultimately show ?thesis using True r(1) by (simp add: large_record_def)
  next
    case False
    then obtain bs' where bs': "pool_ok env h1 pool (bs @ bs') ls ((l, e_sizeof_large env) # used)"
        "os_live h1 = map (\<lambda>b. (b, d_end h pool - pool)) bs' @ os_live h"
      using r(4) by auto
    define h' where "h' = h1\<lparr>l_alloc := (l_alloc h1)(l := p), l_next := (l_next h1)(l := p_large h1 pool),
                             p_large := (p_large h1)(pool := l)\<rparr>"
    have recs: "(k, e_sizeof_large env) \<in> set used" if "k \<in> set ls" for k
      using ok that by (simp add: pool_ok_def)
    have "p \<notin> set bs'"
    proof
      assume "p \<in> set bs'"
      moreover have "p \<in> fst ` set (os_live h)" using p(3) by (metis fst_conv image_eqI)
      moreover have "distinct (map fst (os_live h1))" using bs'(1) by (simp add: pool_ok_def live_ok_def)
      then have "set bs' \<inter> fst ` set (os_live h) = {}" unfolding bs'(2) by simp
      ultimately show False by blast
    qed
    then have p1: "p \<notin> set (bs @ bs') \<union> set (owned h1 ls)" using p(1) al by simp
    note rec = own_record [OF env bs'(1) False recs p1 live1 h'_def]
    have "held env h' (l # ls) ((l, e_sizeof_large env) # used) ((p, n) # rs)"
    proof (rule held_large [OF rec(1) held])
      show "(p, n) \<in> set (os_live h')" using live1 by (simp add: h'_def)
      show "set (os_live h) \<subseteq> set (os_live h')" using r(3) by (simp add: h'_def)
      fix k q assume kq: "k \<in> set (l # ls)" "q \<in> set rs" "q \<in> set used"
      show "apart q (k, e_sizeof_large env)"
      proof (cases "k = l")
        case True
        have "apart (l, e_sizeof_large env) q" using bs'(1) kq(3) by (simp add: pool_ok_def)
        then show ?thesis using True apart_sym by simp
      qed (use held kq in \<open>auto simp: held_def\<close>)
    qed (use rec(2) p(1) al in auto)
    moreover have "rest h' (bs @ bs') (l # ls) = base"
    proof -
      have lv: "os_live h' = os_live h1" by (simp add: h'_def)
      have "rest h' (bs @ bs') (l # ls) = filter (\<lambda>r. fst r \<noteq> p) (rest h1 (bs @ bs') ls)"
        unfolding rest_def filter_filter lv by (rule filter_cong) (use rec(2) in auto)
      also have "rest h1 (bs @ bs') ls = rest h bs ls" by (rule rest_more [OF bs'(2) al(1) bs'(1)])
      finally show ?thesis using base by simp
    qed
    ultimately have "pool_inv env h' pool base ((p, n) # rs) pin"
      using pool_invI [OF rec(1)] pin by auto
    moreover have "large_record env pool p h = Some (p, h')"
      using False r(1) by (simp add: large_record_def h'_def)
    moreover have "same_cleanup h h'" using r(2) by (simp add: same_lists_def same_cleanup_def h'_def)
    ultimately show ?thesis using p(2) by auto
  qed
qed

lemma held_take: "held env h ls used rs \<Longrightarrow> held env (os_take a n h) ls used rs"
  by (auto simp: held_def os_take_def owned_def)

lemma rest_take:
  assumes "fresh p n (os_live h)" "p \<noteq> 0" "p \<notin> set bs \<union> set (owned h ls)"
  shows "filter (\<lambda>r. fst r \<noteq> p) (rest (os_take p n h) bs ls) = rest h bs ls"
proof -
  have "fst r \<noteq> p" if "r \<in> set (os_live h)" for r using assms(1) that by (auto simp: fresh_def)
  moreover have "os_live (os_take p n h) = (p, n) # os_live h" "owned (os_take p n h) ls = owned h ls"
    using assms(2) by (simp_all add: os_take_def owned_def)
  moreover have "filter (\<lambda>r. fst r \<notin> set bs \<and> fst r \<notin> set (owned h ls) \<and> fst r \<noteq> p) (os_live h) =
      filter (\<lambda>r. fst r \<notin> set bs \<and> fst r \<notin> set (owned h ls)) (os_live h)"
    using calculation(1) by (intro filter_cong) auto
  ultimately show ?thesis by (simp add: rest_def)
qed

lemma pool_inv_cong:
  assumes "pool_inv env h pool base rs pin"
    and "os_live h' = os_live h" "d_next h' = d_next h" "d_last h' = d_last h" "d_end h' = d_end h"
    and "l_next h' = l_next h" "l_alloc h' = l_alloc h" "p_large h' = p_large h" "p_max h' = p_max h"
    and "p_current h' = p_current h"
  shows "pool_inv env h' pool base rs pin"
  using assms(1) unfolding pool_inv_def
proof (elim exE conjE)
  fix bs ls used
  assume a: "pool_ok env h pool bs ls used" "held env h ls used rs" "rest h bs ls = base" "set pin \<subseteq> set used"
  have "p_current h' pool \<in> set bs" using a(1) assms(10) by (auto simp: pool_ok_def blocks_ok_def)
  then have "pool_ok env h' pool bs ls used" by (rule pool_ok_cong [OF a(1) assms(2-9)])
  moreover have "held env h' ls used rs" "rest h' bs ls = base"
    using a(2,3) assms(2,7) by (simp_all add: held_def owned_def rest_def)
  ultimately show "\<exists>bs ls used. pool_ok env h' pool bs ls used \<and> held env h' ls used rs \<and>
      rest h' bs ls = base \<and> set pin \<subseteq> set used"
    using a(4) by blast
qed

lemma pool_inv_tick: "pool_inv env h pool base rs pin \<Longrightarrow> pool_inv env (os_take 0 n h) pool base rs pin"
  by (erule pool_inv_cong) (simp_all add: os_take_def)

lemma palloc_large_inv:
  assumes env: "env_ok env" and inv: "pool_inv env h pool base rs pin"
  shows "\<exists>p h'. ngx_palloc_large env pool sz h = Some (p, h') \<and> same_cleanup h h' \<and>
    pool_inv env h' pool base (if p = 0 then rs else (p, sz) # rs) pin"
proof -
  obtain bs ls used where ok: "pool_ok env h pool bs ls used" and held: "held env h ls used rs"
      and base: "rest h bs ls = base" "set pin \<subseteq> set used"
    using inv by (auto simp: pool_inv_def)
  define p where "p = e_alloc env sz (os_tick h) (os_live h)"
  have pa: "ngx_alloc env sz h = (p, os_take p sz h)" by (simp add: ngx_alloc_def p_def Let_def)
  have sc: "same_cleanup h (os_take p sz h)" by (simp add: same_cleanup_def os_take_def)
  show ?thesis
  proof (cases "p = 0")
    case True
    then show ?thesis using pool_inv_tick [OF inv, of sz] sc by (simp add: ngx_palloc_large_def pa)
  next
    case False
    let ?h = "os_take p sz h"
    have fr: "fresh p sz (os_live h)" using env False by (auto simp: env_ok_def p_def Let_def)
    note ok1 = pool_ok_take [OF ok False fr]
    have own: "owned ?h ls = owned h ls" by (simp add: owned_def os_take_def)
    have live: "(p, sz) \<in> set (os_live ?h)" using False by (simp add: os_take_def)
    have p1: "p \<notin> set bs \<union> set (owned ?h ls)" using ok1(2) own by simp
    note held1 = held_take [OF held, of p sz]
    have rs1: "filter (\<lambda>r. fst r \<noteq> p) (rest ?h bs ls) = base"
      using rest_take [OF fr False ok1(2)] base(1) by simp
    define l where "l = large_slot ?h (p_large ?h pool) 0"
    show ?thesis
    proof (cases "l = 0")
      case True
      obtain q h' where r: "large_record env pool p ?h = Some (q, h')" "q = 0 \<or> q = p" "same_cleanup ?h h'"
          "pool_inv env h' pool base (if q = 0 then rs else (q, sz) # rs) pin"
        using large_record_inv [OF env ok1(1) held1 p1 False live rs1 base(2)] by auto
      have "same_cleanup h h'" using sc r(3) by (simp add: same_cleanup_def)
      then show ?thesis using r True False by (auto simp: ngx_palloc_large_def pa l_def)
    next
      case l: False
      have "nodes (l_next ?h) (p_large ?h pool) ls" using ok1(1) by (simp add: pool_ok_def)
      then have slot: "l \<in> set ls" "l_alloc ?h l = 0" using large_slot_spec l unfolding l_def by blast+
      let ?h' = "?h\<lparr>l_alloc := (l_alloc ?h)(l := p)\<rparr>"
      note o = own_slot [OF ok1(1) slot p1 live]
      have "held env ?h' ls used ((p, sz) # rs)"
        by (rule held_large [OF o(1) held1]) (use o(2) live p1 held in \<open>auto simp: held_def\<close>)
      moreover have "rest ?h' bs ls = base"
      proof -
        have lv: "os_live ?h' = os_live ?h" by simp
        have "rest ?h' bs ls = filter (\<lambda>r. fst r \<noteq> p) (rest ?h bs ls)"
          unfolding rest_def o(2) filter_filter lv by (rule filter_cong) auto
        then show ?thesis using rs1 by simp
      qed
      ultimately have "pool_inv env ?h' pool base ((p, sz) # rs) pin" using pool_invI [OF o(1)] base(2) by blast
      moreover have "ngx_palloc_large env pool sz h = Some (p, ?h')"
        using False l by (simp add: ngx_palloc_large_def pa l_def [symmetric])
      moreover have "same_cleanup h ?h'" using sc by (simp add: same_cleanup_def)
      ultimately show ?thesis using False by auto
    qed
  qed
qed

lemma pmemalign_inv:
  assumes env: "env_ok env" and inv: "pool_inv env h pool base rs pin"
  shows "\<exists>p h'. ngx_pmemalign env pool sz al h = Some (p, h') \<and> al dvd p \<and> same_cleanup h h' \<and>
    pool_inv env h' pool base (if p = 0 then rs else (p, sz) # rs) pin"
proof -
  obtain bs ls used where ok: "pool_ok env h pool bs ls used" and held: "held env h ls used rs"
      and base: "rest h bs ls = base" "set pin \<subseteq> set used"
    using inv by (auto simp: pool_inv_def)
  define p where "p = e_memalign env al sz (os_tick h) (os_live h)"
  have pa: "ngx_memalign env al sz h = (p, os_take p sz h)" by (simp add: ngx_memalign_def p_def Let_def)
  have sc: "same_cleanup h (os_take p sz h)" by (simp add: same_cleanup_def os_take_def)
  show ?thesis
  proof (cases "p = 0")
    case True
    then show ?thesis using pool_inv_tick [OF inv, of sz] sc by (simp add: ngx_pmemalign_def pa)
  next
    case False
    let ?h = "os_take p sz h"
    have fr: "fresh p sz (os_live h)" and al: "al dvd p" using env False by (auto simp: env_ok_def p_def Let_def)
    note ok1 = pool_ok_take [OF ok False fr]
    have "owned ?h ls = owned h ls" by (simp add: owned_def os_take_def)
    then have p1: "p \<notin> set bs \<union> set (owned ?h ls)" using ok1(2) by simp
    have live: "(p, sz) \<in> set (os_live ?h)" using False by (simp add: os_take_def)
    have rs1: "filter (\<lambda>r. fst r \<noteq> p) (rest ?h bs ls) = base"
      using rest_take [OF fr False ok1(2)] base(1) by simp
    obtain q h' where r: "large_record env pool p ?h = Some (q, h')" "q = 0 \<or> q = p" "same_cleanup ?h h'"
        "pool_inv env h' pool base (if q = 0 then rs else (q, sz) # rs) pin"
      using large_record_inv [OF env ok1(1) held_take [OF held] p1 False live rs1 base(2)] by auto
    have "same_cleanup h h'" using sc r(3) by (simp add: same_cleanup_def)
    then show ?thesis using r al False by (auto simp: ngx_pmemalign_def pa)
  qed
qed

end
