(* ===== verification/Pool_Run.thy ===== *)
theory Pool_Run
  imports Pool_Inv
begin

text \<open>
  The operations of a pool keep its invariant, sequences of operations, and the properties of the
  pool: what it hands out never overlaps, destroying it gives back exactly what it took, and two
  situations in which the code leaves its own memory.
\<close>

section \<open>The operations keep the invariant\<close>

lemma pool_inv_pin: "pool_inv env h pool base rs pin \<Longrightarrow> set pin' \<subseteq> set pin \<Longrightarrow> pool_inv env h pool base rs pin'"
  unfolding pool_inv_def by blast

lemma held_filter: "held env h ls used rs \<Longrightarrow> held env h ls used (filter P rs)"
  by (auto simp: held_def sorted_wrt_filter)

lemma palloc_gen_inv:
  assumes env: "env_ok env" and inv: "pool_inv env h pool base rs pin"
    and f: "f = (if sz \<le> p_max h pool then ngx_palloc_small env pool sz al h else ngx_palloc_large env pool sz h)"
  shows "\<exists>p h'. f = Some (p, h') \<and> same_cleanup h h' \<and>
    pool_inv env h' pool base (if p = 0 then rs else (p, sz) # rs) pin \<and>
    (sz \<le> p_max h pool \<and> al \<longrightarrow> e_alignment env dvd p) \<and>
    (sz \<le> p_max h pool \<and> p \<noteq> 0 \<longrightarrow>
       pool_inv env h' pool base ((p, sz) # rs) ((p, sz) # pin) \<and> (\<forall>r \<in> set pin. apart (p, sz) r))"
proof (cases "sz \<le> p_max h pool")
  case True
  obtain p h' where r: "ngx_palloc_small env pool sz al h = Some (p, h')" "al \<longrightarrow> e_alignment env dvd p"
      "same_cleanup h h'" "if p = 0 then pool_inv env h' pool base rs pin
     else pool_inv env h' pool base ((p, sz) # rs) ((p, sz) # pin) \<and> (\<forall>r \<in> set pin. apart (p, sz) r)"
    using palloc_small_inv [OF env inv True, of al] by auto
  have "pool_inv env h' pool base (if p = 0 then rs else (p, sz) # rs) pin"
    using r(4) pool_inv_pin [of env h' pool base "(p, sz) # rs" "(p, sz) # pin" pin] by (auto split: if_splits)
  then show ?thesis using r f True by (intro exI [of _ p] exI [of _ h']) auto
next
  case False
  then show ?thesis using palloc_large_inv [OF env inv, of sz] f by auto
qed

lemmas palloc_inv = palloc_gen_inv [OF _ _ ngx_palloc_def]
  and pnalloc_inv = palloc_gen_inv [OF _ _ ngx_pnalloc_def]

lemma pcalloc_inv:
  assumes "env_ok env" and "pool_inv env h pool base rs pin"
  shows "\<exists>p h'. ngx_pcalloc env pool sz h = Some (p, h') \<and> same_cleanup h h' \<and>
    pool_inv env h' pool base (if p = 0 then rs else (p, sz) # rs) pin \<and>
    (p \<noteq> 0 \<longrightarrow> (\<forall>a. p \<le> a \<and> a < p + sz \<longrightarrow> m_byte h' a = 0))"
proof -
  obtain p h1 where r: "ngx_palloc env pool sz h = Some (p, h1)" "same_cleanup h h1"
      "pool_inv env h1 pool base (if p = 0 then rs else (p, sz) # rs) pin"
    using palloc_inv [OF assms] by blast
  define h' where "h' = (if p \<noteq> 0 then h1\<lparr>m_byte := (\<lambda>a. if p \<le> a \<and> a < p + sz then 0 else m_byte h1 a)\<rparr> else h1)"
  have "pool_inv env h' pool base (if p = 0 then rs else (p, sz) # rs) pin"
    by (rule pool_inv_cong [OF r(3)]) (simp_all add: h'_def)
  moreover have "same_cleanup h h'" using r(2) by (simp add: same_cleanup_def h'_def)
  moreover have "ngx_pcalloc env pool sz h = Some (p, h')" using r(1) by (simp add: ngx_pcalloc_def h'_def)
  moreover have "p \<noteq> 0 \<longrightarrow> (\<forall>a. p \<le> a \<and> a < p + sz \<longrightarrow> m_byte h' a = 0)" by (simp add: h'_def)
  ultimately show ?thesis by blast
qed

lemma pfree_loop_find:
  "nodes (l_next h) l ls \<Longrightarrow> pfree_loop p l h =
     (case find (\<lambda>k. p = l_alloc h k) ls of None \<Rightarrow> Some (NGX_DECLINED, h)
      | Some k \<Rightarrow> do { h1 \<leftarrow> ngx_free (l_alloc h k) h; Some (NGX_OK, h1\<lparr>l_alloc := (l_alloc h1)(k := 0)\<rparr>) })"
proof (induction ls arbitrary: l)
  case Nil
  then show ?case by (subst pfree_loop.simps) simp
next
  case (Cons k ls)
  then show ?case by (subst pfree_loop.simps) auto
qed

text \<open>A record gives its region back.\<close>

lemma disown_inv:
  assumes ok: "pool_ok env h pool bs ls used" and held: "held env h ls used rs" and k: "k \<in> set ls" "l_alloc h k = p" "p \<noteq> 0"
    and base: "rest h bs ls = base" "set pin \<subseteq> set used"
    and h': "h' = h\<lparr>os_live := filter (\<lambda>r. fst r \<noteq> p) (os_live h), l_alloc := (l_alloc h)(k := 0)\<rparr>"
  shows "pool_inv env h' pool base (filter (\<lambda>r. fst r \<noteq> p) rs) pin"
proof -
  obtain us vs where ls: "ls = us @ k # vs" using k(1) by (auto simp: in_set_conv_decomp)
  have nd: "nodes (l_next h) (p_large h pool) ls" using ok by (simp add: pool_ok_def)
  have d: "k \<notin> set us" "k \<notin> set vs" using nodes_distinct [OF nd] ls by auto
  let ?h = "h\<lparr>l_alloc := (l_alloc h)(k := 0)\<rparr>"
  have old: "owned h ls = owned h us @ p # owned h vs" using k by (simp add: ls owned_def)
  have new: "owned ?h ls = owned h us @ owned h vs" using d by (auto simp: ls owned_def map_fun_upd)
  have dist: "distinct (bs @ owned h us @ p # owned h vs)" using ok old by (simp add: pool_ok_def)
  obtain n where n: "blocks_ok env h pool bs n" using ok by (auto simp: pool_ok_def)
  have "blocks_ok env ?h pool bs n" using n by (simp add: blocks_ok_def block_ok_def)
  then have ok1: "pool_ok env ?h pool bs ls used"
    using ok old dist by (auto simp: pool_ok_def new in_block_def)
  have p1: "p \<notin> set bs \<union> set (owned ?h ls)" using dist by (auto simp: new)
  have eq: "h' = ?h\<lparr>os_live := filter (\<lambda>r. fst r \<noteq> p) (os_live ?h)\<rparr>" by (simp add: h')
  have ok': "pool_ok env h' pool bs ls used" unfolding eq by (rule pool_ok_drop [OF ok1 p1])
  have own': "owned h' ls = owned h us @ owned h vs" unfolding new [symmetric] by (simp add: owned_def h')
  have lv: "os_live h' = filter (\<lambda>r. fst r \<noteq> p) (os_live h)" by (simp add: h')
  have "held env h' ls used (filter (\<lambda>r. fst r \<noteq> p) rs)"
    using held_filter [OF held, of "\<lambda>r. fst r \<noteq> p"] by (auto simp: held_def own' old lv)
  moreover have "rest h' bs ls = base"
  proof -
    have "rest h' bs ls = rest h bs ls"
      unfolding rest_def lv own' filter_filter by (rule filter_cong) (auto simp: old)
    then show ?thesis using base(1) by simp
  qed
  ultimately show ?thesis using pool_invI [OF ok'] base(2) by blast
qed

lemma pfree_inv:
  assumes inv: "pool_inv env h pool base rs pin"
  shows "\<exists>rc h'. ngx_pfree pool p h = Some (rc, h') \<and> same_cleanup h h' \<and>
    pool_inv env h' pool base (if rc = NGX_OK then filter (\<lambda>r. fst r \<noteq> p) rs else rs) pin"
proof -
  obtain bs ls used where ok: "pool_ok env h pool bs ls used" and held: "held env h ls used rs"
      and base: "rest h bs ls = base" "set pin \<subseteq> set used"
    using inv by (auto simp: pool_inv_def)
  have nd: "nodes (l_next h) (p_large h pool) ls" using ok by (simp add: pool_ok_def)
  have eq: "ngx_pfree pool p h = (case find (\<lambda>k. p = l_alloc h k) ls of None \<Rightarrow> Some (NGX_DECLINED, h)
      | Some k \<Rightarrow> do { h1 \<leftarrow> ngx_free (l_alloc h k) h; Some (NGX_OK, h1\<lparr>l_alloc := (l_alloc h1)(k := 0)\<rparr>) })"
    unfolding ngx_pfree_def by (rule pfree_loop_find [OF nd])
  have refl: "same_cleanup h h" by (simp add: same_cleanup_def)
  show ?thesis
  proof (cases "find (\<lambda>k. p = l_alloc h k) ls")
    case None
    then show ?thesis using eq inv refl by auto
  next
    case (Some k)
    then have k: "k \<in> set ls" "l_alloc h k = p" by (auto simp: find_Some_iff)
    show ?thesis
    proof (cases "p = 0")
      case True
      have "(l_alloc h)(k := 0) = l_alloc h" using k(2) True by (simp add: fun_upd_idem)
      then have h: "h\<lparr>l_alloc := (l_alloc h)(k := 0)\<rparr> = h" by simp
      have "pool_inv env h pool base (filter (\<lambda>r. fst r \<noteq> p) rs) pin"
        by (rule pool_invI [OF ok held_filter [OF held] base])
      then show ?thesis using eq Some k(2) True refl h by (simp add: ngx_free_def)
    next
      case False
      define h' where "h' = h\<lparr>os_live := filter (\<lambda>r. fst r \<noteq> p) (os_live h), l_alloc := (l_alloc h)(k := 0)\<rparr>"
      have "p \<in> set (owned h ls)" using k False by (auto simp: owned_def)
      then have "p \<in> fst ` set (os_live h)" using ok by (auto simp: pool_ok_def)
      then have "ngx_pfree pool p h = Some (NGX_OK, h')"
        using eq Some k(2) False by (simp add: free_filter h'_def)
      moreover have "same_cleanup h h'" by (simp add: same_cleanup_def h'_def)
      ultimately show ?thesis using disown_inv [OF ok held k False base h'_def] by auto
    qed
  qed
qed

section \<open>Giving the memory back\<close>

lemma free_large_spec:
  "nodes (l_next h) l ls \<Longrightarrow> distinct (owned h ls) \<Longrightarrow> set (owned h ls) \<subseteq> fst ` set (os_live h) \<Longrightarrow>
   free_large l h = Some (h\<lparr>os_live := filter (\<lambda>r. fst r \<notin> set (owned h ls)) (os_live h)\<rparr>)"
proof (induction ls arbitrary: l h)
  case Nil
  then show ?case by (subst free_large.simps) (simp add: owned_def)
next
  case (Cons k ls)
  have l: "l = k" "k \<noteq> 0" "nodes (l_next h) (l_next h k) ls" using Cons.prems(1) by auto
  show ?case
  proof (cases "l_alloc h k = 0")
    case True
    then have o: "owned h (k # ls) = owned h ls" by (simp add: owned_def)
    have "free_large l h = free_large (l_next h k) h"
      using l True by (subst free_large.simps) simp
    then show ?thesis using Cons.IH [OF l(3)] Cons.prems(2,3) by (simp only: o)
  next
    case False
    let ?a = "l_alloc h k"
    let ?h = "h\<lparr>os_live := filter (\<lambda>r. fst r \<noteq> ?a) (os_live h)\<rparr>"
    have o: "owned h (k # ls) = ?a # owned h ls" using False by (simp add: owned_def)
    have a: "?a \<in> fst ` set (os_live h)" using Cons.prems(3) o by simp
    have "free_large l h = free_large (l_next h k) ?h"
      using l False free_filter [OF False a] by (subst free_large.simps) simp
    moreover have o': "owned ?h ls = owned h ls" by (simp add: owned_def)
    moreover have "set (owned h ls) \<subseteq> fst ` set (os_live ?h)"
    proof
      fix b assume b: "b \<in> set (owned h ls)"
      then have "b \<noteq> ?a" using Cons.prems(2) o by auto
      moreover have "b \<in> fst ` set (os_live h)" using Cons.prems(3) o b by auto
      ultimately show "b \<in> fst ` set (os_live ?h)" by auto
    qed
    moreover have "free_large (l_next h k) ?h =
        Some (?h\<lparr>os_live := filter (\<lambda>r. fst r \<notin> set (owned ?h ls)) (os_live ?h)\<rparr>)"
      by (rule Cons.IH) (use l(3) Cons.prems(2) o calculation in simp_all)
    moreover have "filter (\<lambda>r. fst r \<notin> set (owned h ls)) (filter (\<lambda>r. fst r \<noteq> ?a) (os_live h)) =
        filter (\<lambda>r. fst r \<notin> set (owned h (k # ls))) (os_live h)"
      unfolding filter_filter o by (rule filter_cong) auto
    ultimately show ?thesis by simp
  qed
qed

lemma free_blocks_spec:
  "nodes (d_next h) p (p # bs) \<Longrightarrow> set (p # bs) \<subseteq> fst ` set (os_live h) \<Longrightarrow>
   free_blocks p (d_next h p) h = Some (h\<lparr>os_live := filter (\<lambda>r. fst r \<notin> set (p # bs)) (os_live h)\<rparr>)"
proof (induction bs arbitrary: p h)
  case Nil
  have "p \<noteq> 0" "p \<in> fst ` set (os_live h)" "d_next h p = 0" using Nil by auto
  then show ?case using free_filter [of p h] by (subst free_blocks.simps) simp
next
  case (Cons b bs)
  let ?h = "h\<lparr>os_live := filter (\<lambda>r. fst r \<noteq> p) (os_live h)\<rparr>"
  have p: "p \<noteq> 0" "p \<in> fst ` set (os_live h)" "d_next h p = b" "b \<noteq> 0" using Cons.prems by auto
  have nd: "nodes (d_next h) b (b # bs)" using Cons.prems(1) by simp
  have dist: "p \<notin> set (b # bs)" using nodes_distinct [OF Cons.prems(1)] by simp
  have "free_blocks p (d_next h p) h = free_blocks b (d_next h b) ?h"
    using p free_filter [OF p(1,2)] by (subst free_blocks.simps) simp
  moreover have "set (b # bs) \<subseteq> fst ` set (os_live ?h)"
  proof
    fix c assume c: "c \<in> set (b # bs)"
    then have "c \<noteq> p" "c \<in> fst ` set (os_live h)" using dist Cons.prems(2) by auto
    then show "c \<in> fst ` set (os_live ?h)" by auto
  qed
  moreover have "free_blocks b (d_next ?h b) ?h =
      Some (?h\<lparr>os_live := filter (\<lambda>r. fst r \<notin> set (b # bs)) (os_live ?h)\<rparr>)"
    by (rule Cons.IH) (use nd calculation(2) in simp_all)
  moreover have "filter (\<lambda>r. fst r \<notin> set (b # bs)) (filter (\<lambda>r. fst r \<noteq> p) (os_live h)) =
      filter (\<lambda>r. fst r \<notin> set (p # b # bs)) (os_live h)"
    unfolding filter_filter by (rule filter_cong) auto
  ultimately show ?case by simp
qed

lemma reset_blocks_spec:
  "nodes (d_next h) p bs \<Longrightarrow> \<exists>f. reset_blocks env p h =
     Some (h\<lparr>d_last := (\<lambda>b. if b \<in> set bs then b + e_sizeof_pool env else d_last h b), d_failed := f\<rparr>)"
proof (induction bs arbitrary: p h)
  case Nil
  then have "reset_blocks env p h = Some h" by (subst reset_blocks.simps) simp
  then have "reset_blocks env p h =
      Some (h\<lparr>d_last := (\<lambda>b. if b \<in> set [] then b + e_sizeof_pool env else d_last h b), d_failed := d_failed h\<rparr>)"
    by simp
  then show ?case by blast
next
  case (Cons b bs)
  let ?h = "h\<lparr>d_last := (d_last h)(b := b + e_sizeof_pool env), d_failed := (d_failed h)(b := 0)\<rparr>"
  have b: "p = b" "b \<noteq> 0" "nodes (d_next h) (d_next h b) bs" using Cons.prems by auto
  have "reset_blocks env p h = reset_blocks env (d_next h b) ?h"
    using b by (subst reset_blocks.simps) (simp add: Let_def)
  moreover obtain f where "reset_blocks env (d_next h b) ?h =
      Some (?h\<lparr>d_last := (\<lambda>c. if c \<in> set bs then c + e_sizeof_pool env else d_last ?h c), d_failed := f\<rparr>)"
    using Cons.IH [of ?h "d_next h b"] b(3) by auto
  moreover have "(\<lambda>c. if c \<in> set bs then c + e_sizeof_pool env else d_last ?h c) =
      (\<lambda>c. if c \<in> set (b # bs) then c + e_sizeof_pool env else d_last h c)"
    by auto
  ultimately show ?case by auto
qed

lemma cleanup_loop_spec:
  "nodes (c_next h) c cs \<Longrightarrow> cleanup_loop ok del c h =
     Some (concat (map (\<lambda>c. case c_handler h c of None \<Rightarrow> [] | Some f \<Rightarrow> run_handler ok del h f (c_data h c)) cs))"
proof (induction cs arbitrary: c)
  case Nil
  then show ?case by (subst cleanup_loop.simps) simp
next
  case (Cons x cs)
  then show ?case by (subst cleanup_loop.simps) auto
qed

lemma reset_inv:
  assumes env: "env_ok env" and inv: "pool_inv env h pool base rs pin"
  shows "\<exists>h'. ngx_reset_pool env pool h = Some h' \<and> same_cleanup h h' \<and> pool_inv env h' pool base [] []"
proof -
  obtain bs ls used where ok: "pool_ok env h pool bs ls used" and base: "rest h bs ls = base"
    using inv by (auto simp: pool_inv_def)
  obtain n where n: "blocks_ok env h pool bs n" using ok by (auto simp: pool_ok_def)
  let ?live = "filter (\<lambda>r. fst r \<notin> set (owned h ls)) (os_live h)"
  have fl: "free_large (p_large h pool) h = Some (h\<lparr>os_live := ?live\<rparr>)"
    by (rule free_large_spec) (use ok in \<open>auto simp: pool_ok_def\<close>)
  have nd: "nodes (d_next (h\<lparr>os_live := ?live\<rparr>)) pool bs" using n by (simp add: blocks_ok_def)
  have dl: "d_last (h\<lparr>os_live := ?live\<rparr>) = d_last h" by simp
  from reset_blocks_spec [OF nd, of env, unfolded dl] obtain f where rb: "reset_blocks env pool (h\<lparr>os_live := ?live\<rparr>) =
      Some (h\<lparr>os_live := ?live, d_last := (\<lambda>b. if b \<in> set bs then b + e_sizeof_pool env else d_last h b), d_failed := f\<rparr>)"
    by blast
  define h' where "h' = h\<lparr>os_live := ?live, d_last := (\<lambda>b. if b \<in> set bs then b + e_sizeof_pool env else d_last h b),
    d_failed := f, p_current := (p_current h)(pool := pool), p_chain := (p_chain h)(pool := 0),
    p_large := (p_large h)(pool := 0)\<rparr>"
  have "ngx_reset_pool env pool h = Some h'"
    by (simp add: ngx_reset_pool_def fl rb h'_def)
  moreover have "same_cleanup h h'" by (simp add: same_cleanup_def h'_def)
  moreover have "pool_ok env h' pool bs [] []"
  proof -
    have "live_ok ?live" by (rule live_ok_filter) (use ok in \<open>simp add: pool_ok_def\<close>)
    moreover have "block_ok env h' pool n b" if b: "b \<in> set bs" for b
    proof -
      have "b \<notin> set (owned h ls)" using ok b by (auto simp: pool_ok_def)
      moreover have "header env pool b \<le> e_sizeof_pool env" "e_sizeof_pool env \<le> n"
        using env n by (auto simp: header_def env_ok_def blocks_ok_def)
      ultimately show ?thesis using n b by (auto simp: blocks_ok_def block_ok_def h'_def)
    qed
    moreover have "pool \<in> set bs" using n by (cases bs) (auto simp: blocks_ok_def)
    ultimately have "blocks_ok env h' pool bs n" using n by (simp add: blocks_ok_def h'_def)
    moreover have "distinct bs" using ok by (simp add: pool_ok_def)
    ultimately show ?thesis using \<open>live_ok ?live\<close> by (auto simp: pool_ok_def owned_def h'_def)
  qed
  moreover have "held env h' [] [] []" by (simp add: held_def)
  moreover have "rest h' bs [] = base"
  proof -
    have "rest h' bs [] = filter (\<lambda>r. fst r \<notin> set bs) ?live" by (simp add: rest_def owned_def h'_def)
    also have "\<dots> = rest h bs ls" unfolding rest_def filter_filter by (rule filter_cong) auto
    finally show ?thesis using base by simp
  qed
  ultimately show ?thesis using pool_invI [of env h' pool bs "[]" "[]" "[]" base "[]"] by blast
qed

lemma destroy_inv:
  assumes inv: "pool_inv env h pool base rs pin" and cs: "nodes (c_next h) (p_cleanup h pool) cs"
  shows "\<exists>h'. ngx_destroy_pool ok del pool h =
      Some (concat (map (\<lambda>c. case c_handler h c of None \<Rightarrow> [] | Some f \<Rightarrow> run_handler ok del h f (c_data h c)) cs), h') \<and>
    os_live h' = base"
proof -
  obtain bs ls used where pok: "pool_ok env h pool bs ls used" and base: "rest h bs ls = base"
    using inv by (auto simp: pool_inv_def)
  obtain n where n: "blocks_ok env h pool bs n" using pok by (auto simp: pool_ok_def)
  then obtain bs' where bs: "bs = pool # bs'" by (cases bs) (auto simp: blocks_ok_def)
  let ?live = "filter (\<lambda>r. fst r \<notin> set (owned h ls)) (os_live h)"
  let ?h = "h\<lparr>os_live := ?live\<rparr>"
  have fl: "free_large (p_large h pool) h = Some ?h"
    by (rule free_large_spec) (use pok in \<open>auto simp: pool_ok_def\<close>)
  have "set bs \<subseteq> fst ` set (os_live ?h)"
  proof
    fix b assume b: "b \<in> set bs"
    then have "(b, n) \<in> set (os_live h)" "b \<notin> set (owned h ls)"
      using n pok by (auto simp: blocks_ok_def block_ok_def pool_ok_def)
    then have "(b, n) \<in> set (os_live ?h)" by simp
    then show "b \<in> fst ` set (os_live ?h)" by (metis fst_conv image_eqI)
  qed
  then have fb: "free_blocks pool (d_next ?h pool) ?h =
      Some (?h\<lparr>os_live := filter (\<lambda>r. fst r \<notin> set bs) (os_live ?h)\<rparr>)"
    unfolding bs by (intro free_blocks_spec) (use n bs in \<open>simp_all add: blocks_ok_def\<close>)
  have "filter (\<lambda>r. fst r \<notin> set bs) (os_live ?h) = rest h bs ls"
    unfolding rest_def by simp (rule filter_cong; auto)
  then show ?thesis
    using fl fb cleanup_loop_spec [OF cs] base by (simp add: ngx_destroy_pool_def)
qed

lemma create_inv:
  assumes env: "env_ok env" and sz: "e_sizeof_pool env \<le> sz" "sz < 2 ^ 64" "e_alignment env dvd sz"
    and live: "live_ok (os_live h0)" and c: "ngx_create_pool env sz h0 = (pool, h)" "pool \<noteq> 0"
  shows "pool_inv env h pool (os_live h0) [] [] \<and> p_cleanup h pool = 0 \<and>
    p_max h pool = min (sz - e_sizeof_pool env) (NGX_MAX_ALLOC_FROM_POOL env)"
proof -
  define a where "a = e_memalign env NGX_POOL_ALIGNMENT sz (os_tick h0) (os_live h0)"
  let ?room = "size_t (int sz - int (e_sizeof_pool env))"
  have room: "?room = sz - e_sizeof_pool env" by (rule size_t_diff [OF sz(1,2)])
  define h' where "h' = (os_take a sz h0)\<lparr>d_last := (d_last h0)(a := a + e_sizeof_pool env),
      d_end := (d_end h0)(a := a + sz), d_next := (d_next h0)(a := 0), d_failed := (d_failed h0)(a := 0),
      p_max := (p_max h0)(a := if ?room < NGX_MAX_ALLOC_FROM_POOL env then ?room else NGX_MAX_ALLOC_FROM_POOL env),
      p_current := (p_current h0)(a := a), p_chain := (p_chain h0)(a := 0), p_large := (p_large h0)(a := 0),
      p_cleanup := (p_cleanup h0)(a := 0)\<rparr>"
  have "ngx_create_pool env sz h0 = (if a = 0 then (0, os_take a sz h0) else (a, h'))"
    by (simp add: ngx_create_pool_def ngx_memalign_def a_def [symmetric] h'_def os_take_def Let_def)
  then have a: "pool = a" "h = h'" "a \<noteq> 0" using c by (auto split: if_splits)
  have fr: "NGX_POOL_ALIGNMENT dvd a" "fresh a sz (os_live h0)"
    using env a(3) by (auto simp: env_ok_def a_def Let_def)
  have lv: "os_live h' = (a, sz) # os_live h0" using a(3) by (simp add: h'_def os_take_def)
  have max: "p_max h' a = min (sz - e_sizeof_pool env) (NGX_MAX_ALLOC_FROM_POOL env)"
    by (simp add: h'_def room min_def)
  have "block_ok env h' a sz a" using fr sz(1) lv by (simp add: block_ok_def header_def h'_def)
  moreover have "e_sizeof_pool env + p_max h' a \<le> sz" using max sz(1) by simp
  ultimately have "blocks_ok env h' a [a] sz" using sz a(3) by (simp add: blocks_ok_def) (simp add: h'_def)
  moreover have "live_ok (os_live h')" unfolding lv by (rule live_ok_take [OF live a(3) fr(2)])
  ultimately have "pool_ok env h' a [a] [] []" by (auto simp: pool_ok_def owned_def h'_def)
  moreover have "rest h' [a] [] = os_live h0"
  proof -
    have "filter (\<lambda>r. fst r \<noteq> a) (os_live h0) = os_live h0"
      using fr(2) by (intro filter_True) (auto simp: fresh_def)
    then show ?thesis by (simp add: rest_def owned_def lv)
  qed
  ultimately have "pool_inv env h' a (os_live h0) [] []"
    using pool_invI [of env h' a "[a]" "[]" "[]" "[]"] by (simp add: held_def)
  then show ?thesis using a max by (simp add: h'_def)
qed

section \<open>Cleanup records\<close>

lemma pool_inv_tl: "pool_inv env h pool base (r # rs) pin \<Longrightarrow> pool_inv env h pool base rs pin"
  unfolding pool_inv_def using held_tl by blast

lemma pool_inv_cleanup:
  "pool_inv env h pool base rs pin \<Longrightarrow>
   pool_inv env (h\<lparr>c_data := d, c_handler := f, c_next := nx, p_cleanup := p\<rparr>) pool base rs pin"
  by (erule pool_inv_cong) simp_all

definition cleanup_regions :: "ngx_env \<Rightarrow> nat \<Rightarrow> nat \<Rightarrow> pmem \<Rightarrow> region list" where
  "cleanup_regions env n c h = (if n = 0 then [] else [(c_data h c, n)]) @ [(c, e_sizeof_cleanup env)]"

lemma cleanup_add_inv:
  assumes env: "env_ok env" and inv: "pool_inv env h pool base rs pin"
  shows "\<exists>c h'. ngx_pool_cleanup_add env pool n h = Some (c, h') \<and> p_max h' = p_max h \<and>
    (if c = 0 then pool_inv env h' pool base rs pin \<and> p_cleanup h' = p_cleanup h \<and> c_next h' = c_next h
     else pool_inv env h' pool base (cleanup_regions env n c h' @ rs) pin \<and>
       p_cleanup h' = (p_cleanup h)(pool := c) \<and> c_next h' = (c_next h)(c := p_cleanup h pool) \<and>
       (e_sizeof_cleanup env \<le> p_max h pool \<longrightarrow>
          pool_inv env h' pool base (cleanup_regions env n c h' @ rs) ((c, e_sizeof_cleanup env) # pin) \<and>
          (\<forall>r \<in> set pin. apart (c, e_sizeof_cleanup env) r)))"
proof -
  let ?cl = "e_sizeof_cleanup env"
  obtain c h1 where r1: "ngx_palloc env pool ?cl h = Some (c, h1)" "same_cleanup h h1"
      "pool_inv env h1 pool base (if c = 0 then rs else (c, ?cl) # rs) pin"
      "?cl \<le> p_max h pool \<and> c \<noteq> 0 \<longrightarrow>
         pool_inv env h1 pool base ((c, ?cl) # rs) ((c, ?cl) # pin) \<and> (\<forall>r \<in> set pin. apart (c, ?cl) r)"
    using palloc_inv [OF env inv, of ?cl] by blast
  note s1 = r1(2) [unfolded same_cleanup_def]
  show ?thesis
  proof (cases "c = 0")
    case True
    then show ?thesis using r1 s1 by (simp add: ngx_pool_cleanup_add_def)
  next
    case c: False
    define pin1 where "pin1 = (if ?cl \<le> p_max h pool then (c, ?cl) # pin else pin)"
    have i1: "pool_inv env h1 pool base ((c, ?cl) # rs) pin1" using r1(3,4) c by (simp add: pin1_def)
    have weak: "pool_inv env g pool base qs pin1 \<Longrightarrow> pool_inv env g pool base qs pin" for g qs
      by (erule pool_inv_pin) (simp add: pin1_def subset_insertI)
    have fin: ?thesis if h': "ngx_pool_cleanup_add env pool n h = Some (c, h')" "p_max h' = p_max h"
        "pool_inv env h' pool base (cleanup_regions env n c h' @ rs) pin1"
        "p_cleanup h' = (p_cleanup h)(pool := c)" "c_next h' = (c_next h)(c := p_cleanup h pool)" for h'
      using h' c weak r1(4) by (intro exI [of _ c] exI [of _ h']) (auto simp: pin1_def)
    show ?thesis
    proof (cases "n = 0")
      case True
      define h' where "h' = h1\<lparr>c_data := (c_data h1)(c := 0), c_handler := (c_handler h1)(c := None),
        c_next := (c_next h1)(c := p_cleanup h1 pool), p_cleanup := (p_cleanup h1)(pool := c)\<rparr>"
      have "pool_inv env h' pool base (cleanup_regions env n c h' @ rs) pin1"
        using pool_inv_cleanup [OF i1] True by (simp add: h'_def cleanup_regions_def)
      moreover have "ngx_pool_cleanup_add env pool n h = Some (c, h')"
        using r1(1) c True by (simp add: ngx_pool_cleanup_add_def h'_def)
      ultimately show ?thesis using fin s1 by (simp add: h'_def)
    next
      case n: False
      obtain d h2 where r2: "ngx_palloc env pool n h1 = Some (d, h2)" "same_cleanup h1 h2"
          "pool_inv env h2 pool base (if d = 0 then (c, ?cl) # rs else (d, n) # (c, ?cl) # rs) pin1"
        using palloc_inv [OF env i1, of n] by blast
      note s2 = r2(2) [unfolded same_cleanup_def]
      show ?thesis
      proof (cases "d = 0")
        case True
        define h' where "h' = h2\<lparr>c_data := (c_data h2)(c := 0)\<rparr>"
        have "pool_inv env h2 pool base rs pin"
          using r2(3) True pool_inv_tl weak by metis
        then have "pool_inv env h' pool base rs pin" by (rule pool_inv_cong) (simp_all add: h'_def)
        moreover have "ngx_pool_cleanup_add env pool n h = Some (0, h')"
          using r1(1) r2(1) c n True by (simp add: ngx_pool_cleanup_add_def h'_def)
        ultimately show ?thesis using s1 s2 by (simp add: h'_def)
      next
        case False
        define h' where "h' = h2\<lparr>c_data := (c_data h2)(c := d), c_handler := (c_handler h2)(c := None),
          c_next := (c_next h2)(c := p_cleanup h2 pool), p_cleanup := (p_cleanup h2)(pool := c)\<rparr>"
        have "pool_inv env h2 pool base ((d, n) # (c, ?cl) # rs) pin1" using r2(3) False by simp
        from pool_inv_cleanup [OF this]
        have "pool_inv env h' pool base (cleanup_regions env n c h' @ rs) pin1"
          using n by (simp add: h'_def cleanup_regions_def)
        moreover have "ngx_pool_cleanup_add env pool n h = Some (c, h')"
          using r1(1) r2(1) c n False by (simp add: ngx_pool_cleanup_add_def h'_def)
        ultimately show ?thesis using fin s1 s2 by (simp add: h'_def)
      qed
    qed
  qed
qed

section \<open>Sequences of operations\<close>

text \<open>The calls a client can make on one pool, with the regions it holds; \<open>Set_Handler\<close> is
  the client's assignment to the record that \<open>ngx_pool_cleanup_add\<close> returned.\<close>

datatype pool_op =
    Palloc nat | Pnalloc nat | Pcalloc nat | Pmemalign nat nat | Pfree nat
  | Cleanup_Add nat | Set_Handler nat handler | Reset

fun pool_step :: "ngx_env \<Rightarrow> nat \<Rightarrow> pool_op \<Rightarrow> pmem \<times> region list \<Rightarrow> (pmem \<times> region list) option" where
  "pool_step env pool (Palloc n) (h, rs) =
     map_option (\<lambda>(p, h'). (h', if p = 0 then rs else (p, n) # rs)) (ngx_palloc env pool n h)"
| "pool_step env pool (Pnalloc n) (h, rs) =
     map_option (\<lambda>(p, h'). (h', if p = 0 then rs else (p, n) # rs)) (ngx_pnalloc env pool n h)"
| "pool_step env pool (Pcalloc n) (h, rs) =
     map_option (\<lambda>(p, h'). (h', if p = 0 then rs else (p, n) # rs)) (ngx_pcalloc env pool n h)"
| "pool_step env pool (Pmemalign n al) (h, rs) =
     map_option (\<lambda>(p, h'). (h', if p = 0 then rs else (p, n) # rs)) (ngx_pmemalign env pool n al h)"
| "pool_step env pool (Pfree p) (h, rs) =
     map_option (\<lambda>(rc, h'). (h', if rc = NGX_OK then filter (\<lambda>r. fst r \<noteq> p) rs else rs)) (ngx_pfree pool p h)"
| "pool_step env pool (Cleanup_Add n) (h, rs) =
     map_option (\<lambda>(c, h'). (h', if c = 0 then rs else cleanup_regions env n c h' @ rs))
       (ngx_pool_cleanup_add env pool n h)"
| "pool_step env pool (Set_Handler c f) (h, rs) = Some (h\<lparr>c_handler := (c_handler h)(c := Some f)\<rparr>, rs)"
| "pool_step env pool Reset (h, rs) = map_option (\<lambda>h'. (h', [])) (ngx_reset_pool env pool h)"

fun pool_run :: "ngx_env \<Rightarrow> nat \<Rightarrow> pool_op list \<Rightarrow> pmem \<times> region list \<Rightarrow> (pmem \<times> region list) option" where
  "pool_run env pool [] s = Some s"
| "pool_run env pool (op # ops) s = do { s' \<leftarrow> pool_step env pool op s; pool_run env pool ops s' }"

text \<open>The cleanup records a run registers: what the successful calls of
  \<open>ngx_pool_cleanup_add\<close> return, in their order.\<close>

definition registers :: "ngx_env \<Rightarrow> nat \<Rightarrow> pool_op \<Rightarrow> pmem \<Rightarrow> nat list" where
  "registers env pool op h =
     (case op of
        Cleanup_Add n \<Rightarrow> (case ngx_pool_cleanup_add env pool n h of
            Some (c, h') \<Rightarrow> if c = 0 then [] else [c] | None \<Rightarrow> [])
      | _ \<Rightarrow> [])"

fun registered :: "ngx_env \<Rightarrow> nat \<Rightarrow> pool_op list \<Rightarrow> pmem \<times> region list \<Rightarrow> nat list" where
  "registered env pool [] s = []"
| "registered env pool (op # ops) s = registers env pool op (fst s) @
     (case pool_step env pool op s of None \<Rightarrow> [] | Some s' \<Rightarrow> registered env pool ops s')"

text \<open>The cleanup list of a pool that is never reset while records are registered.\<close>

definition cleanup_inv :: "ngx_env \<Rightarrow> pmem \<Rightarrow> nat \<Rightarrow> region list \<Rightarrow> nat list \<Rightarrow> bool" where
  "cleanup_inv env h pool pin cs \<longleftrightarrow> nodes (c_next h) (p_cleanup h pool) cs \<and>
     (\<forall>c \<in> set cs. (c, e_sizeof_cleanup env) \<in> set pin) \<and> e_sizeof_cleanup env \<le> p_max h pool"

lemma step_inv:
  assumes env: "env_ok env" and inv: "pool_inv env h pool base rs pin"
  shows "\<exists>h' rs' pin'. pool_step env pool op (h, rs) = Some (h', rs') \<and> pool_inv env h' pool base rs' pin' \<and>
    (cleanup_inv env h pool pin cs \<and> (op = Reset \<longrightarrow> cs = []) \<longrightarrow>
       cleanup_inv env h' pool pin' (registers env pool op h @ cs))"
proof -
  have same: "cleanup_inv env h' pool pin cs" if "cleanup_inv env h pool pin cs" "same_cleanup h h'" for h'
    using that by (simp add: cleanup_inv_def same_cleanup_def)
  show ?thesis
  proof (cases op)
    case (Palloc n)
    then show ?thesis using palloc_inv [OF env inv, of n] same by (fastforce simp: registers_def)
  next
    case (Pnalloc n)
    then show ?thesis using pnalloc_inv [OF env inv, of n] same by (fastforce simp: registers_def)
  next
    case (Pcalloc n)
    then show ?thesis using pcalloc_inv [OF env inv, of n] same by (fastforce simp: registers_def)
  next
    case (Pmemalign n al)
    then show ?thesis using pmemalign_inv [OF env inv, of n al] same by (fastforce simp: registers_def)
  next
    case (Pfree p)
    then show ?thesis using pfree_inv [OF inv, of p] same by (fastforce simp: registers_def)
  next
    case (Set_Handler c f)
    have "pool_inv env (h\<lparr>c_handler := (c_handler h)(c := Some f)\<rparr>) pool base rs pin"
      by (rule pool_inv_cong [OF inv]) simp_all
    then show ?thesis using Set_Handler by (auto simp: cleanup_inv_def registers_def)
  next
    case Reset
    obtain h' where r: "ngx_reset_pool env pool h = Some h'" "same_cleanup h h'" "pool_inv env h' pool base [] []"
      using reset_inv [OF env inv] by blast
    have "cleanup_inv env h' pool [] []" if "cleanup_inv env h pool pin []"
      using that r(2) by (simp add: cleanup_inv_def same_cleanup_def)
    then show ?thesis using Reset r by (auto simp: registers_def)
  next
    case (Cleanup_Add n)
    let ?cl = "e_sizeof_cleanup env"
    obtain c h' where r: "ngx_pool_cleanup_add env pool n h = Some (c, h')" "p_max h' = p_max h"
      "if c = 0 then pool_inv env h' pool base rs pin \<and> p_cleanup h' = p_cleanup h \<and> c_next h' = c_next h
       else pool_inv env h' pool base (cleanup_regions env n c h' @ rs) pin \<and>
         p_cleanup h' = (p_cleanup h)(pool := c) \<and> c_next h' = (c_next h)(c := p_cleanup h pool) \<and>
         (?cl \<le> p_max h pool \<longrightarrow>
            pool_inv env h' pool base (cleanup_regions env n c h' @ rs) ((c, ?cl) # pin) \<and>
            (\<forall>r \<in> set pin. apart (c, ?cl) r))"
      using cleanup_add_inv [OF env inv, of n] by blast
    show ?thesis
    proof (cases "c = 0 \<or> \<not> cleanup_inv env h pool pin cs")
      case True
      then show ?thesis using Cleanup_Add r by (auto simp: cleanup_inv_def registers_def split: if_splits)
    next
      case False
      then have ci: "nodes (c_next h) (p_cleanup h pool) cs" "\<And>d. d \<in> set cs \<Longrightarrow> (d, ?cl) \<in> set pin" "?cl \<le> p_max h pool"
        by (auto simp: cleanup_inv_def)
      have "c \<notin> set cs"
      proof
        assume "c \<in> set cs"
        then have "apart (c, ?cl) (c, ?cl)" using ci r(3) False by auto
        then show False using env by (simp add: apart_def env_ok_def)
      qed
      then have "nodes (c_next h') c (c # cs)"
        using ci(1) r(3) False by simp
      then have "cleanup_inv env h' pool ((c, ?cl) # pin) (c # cs)"
        using ci r(2,3) False by (simp add: cleanup_inv_def)
      then show ?thesis using Cleanup_Add r False ci(3) by (auto simp: registers_def)
    qed
  qed
qed

lemma run_inv:
  assumes env: "env_ok env"
  shows "pool_inv env h pool base rs pin \<Longrightarrow>
    \<exists>h' rs' pin'. pool_run env pool ops (h, rs) = Some (h', rs') \<and> pool_inv env h' pool base rs' pin' \<and>
      (cleanup_inv env h pool pin cs \<and> (Reset \<in> set ops \<longrightarrow> cs = [] \<and> (\<forall>n. Cleanup_Add n \<notin> set ops)) \<longrightarrow>
         cleanup_inv env h' pool pin' (rev (registered env pool ops (h, rs)) @ cs))"
proof (induction ops arbitrary: h rs pin cs)
  case Nil
  then show ?case by auto
next
  case (Cons op ops)
  obtain h1 rs1 pin1 where s: "pool_step env pool op (h, rs) = Some (h1, rs1)" "pool_inv env h1 pool base rs1 pin1"
      "cleanup_inv env h pool pin cs \<and> (op = Reset \<longrightarrow> cs = []) \<longrightarrow>
         cleanup_inv env h1 pool pin1 (registers env pool op h @ cs)"
    using step_inv [OF env Cons.prems, of op cs] by blast
  let ?cs = "registers env pool op h @ cs"
  have one: "rev (registers env pool op h) = registers env pool op h"
    by (simp add: registers_def split: pool_op.split option.split)
  have none: "registers env pool op h = []" if "\<forall>n. op \<noteq> Cleanup_Add n"
    using that by (simp add: registers_def split: pool_op.split)
  obtain h' rs' pin' where r: "pool_run env pool ops (h1, rs1) = Some (h', rs')" "pool_inv env h' pool base rs' pin'"
      "cleanup_inv env h1 pool pin1 ?cs \<and> (Reset \<in> set ops \<longrightarrow> ?cs = [] \<and> (\<forall>n. Cleanup_Add n \<notin> set ops)) \<longrightarrow>
         cleanup_inv env h' pool pin' (rev (registered env pool ops (h1, rs1)) @ ?cs)"
    using Cons.IH [OF s(2), of ?cs] by blast
  have "rev (registered env pool (op # ops) (h, rs)) @ cs = rev (registered env pool ops (h1, rs1)) @ ?cs"
    using s(1) one by simp
  then show ?case using s r none
    by (intro exI [of _ h'] exI [of _ rs'] exI [of _ pin']) auto
qed

lemma pool_inv_safe:
  assumes env: "env_ok env" and inv: "pool_inv env h pool base rs pin"
  shows "sorted_wrt apart rs \<and> (\<forall>r \<in> set rs. (\<exists>s \<in> set (os_live h). within r s) \<and> apart r (pool, e_sizeof_pool env))"
proof -
  obtain bs ls used where ok: "pool_ok env h pool bs ls used" and held: "held env h ls used rs"
    using inv by (auto simp: pool_inv_def)
  obtain n where n: "blocks_ok env h pool bs n" using ok by (auto simp: pool_ok_def)
  have live: "live_ok (os_live h)" using ok by (simp add: pool_ok_def)
  have pool: "pool \<in> set bs" using n by (cases bs) (auto simp: blocks_ok_def)
  have blk: "(b, n) \<in> set (os_live h)" "d_last h b \<le> b + n" if "b \<in> set bs" for b
    using n that by (auto simp: blocks_ok_def block_ok_def)
  have head: "within (pool, e_sizeof_pool env) (pool, n)" using n by (simp add: within_def blocks_ok_def)
  have "(\<exists>s \<in> set (os_live h). within r s) \<and> apart r (pool, e_sizeof_pool env)" if r: "r \<in> set rs" for r
  proof (cases "r \<in> set used")
    case True
    then obtain b where b: "b \<in> set bs" "b + header env pool b \<le> fst r" "fst r + snd r \<le> d_last h b"
      using ok by (auto simp: pool_ok_def in_block_def)
    have w: "within r (b, n)" using b blk [OF b(1)] by (auto simp: within_def)
    have "apart r (pool, e_sizeof_pool env)"
    proof (cases "b = pool")
      case True
      then show ?thesis using b(2) by (simp add: apart_def header_def)
    next
      case False
      then have "apart (b, n) (pool, n)" using live_ok_apart [OF live blk(1) [OF b(1)] blk(1) [OF pool]] by simp
      then show ?thesis by (rule apart_within [OF _ w head])
    qed
    then show ?thesis using w blk(1) [OF b(1)] by blast
  next
    case False
    then have r': "r \<in> set (os_live h)" "fst r \<in> set (owned h ls)" using held r by (auto simp: held_def)
    then have "fst r \<noteq> pool" using ok pool by (auto simp: pool_ok_def)
    then have "r \<noteq> (pool, n)" by auto
    then have "apart r (pool, n)" using live_ok_apart [OF live r'(1) blk(1) [OF pool]] by blast
    then have "apart r (pool, e_sizeof_pool env)" by (rule apart_within) (use head in \<open>simp_all add: within_def\<close>)
    then show ?thesis using r'(1) by (auto simp: within_def)
  qed
  then show ?thesis using held by (simp add: held_def)
qed

text \<open>A platform: 8-byte alignment, pages of 4096 bytes, the structure sizes of a 64-bit system and
  an allocator that takes the next free address.\<close>

definition top_of :: "region list \<Rightarrow> nat" where
  "top_of live = foldr (\<lambda>r m. max (fst r + snd r + 1) m) live 4096"

definition bump :: "nat \<Rightarrow> nat \<Rightarrow> region list \<Rightarrow> nat" where
  "bump al n live =
     (let a = (top_of live + al - 1) div al * al in if al \<noteq> 0 \<and> a + n < 2 ^ 64 then a else 0)"

definition sample_env :: ngx_env where
  "sample_env = \<lparr>e_align_ptr = \<lambda>p. (p + 7) div 8 * 8, e_alignment = 8, e_pagesize = 4096,
     e_sizeof_data = 32, e_sizeof_pool = 80, e_sizeof_large = 16, e_sizeof_cleanup = 24,
     e_memalign = \<lambda>al n t live. bump al n live, e_alloc = \<lambda>n t live. bump 16 n live\<rparr>"

definition sample_mem :: pmem where
  "sample_mem = \<lparr>d_last = \<lambda>_. 0, d_end = \<lambda>_. 0, d_next = \<lambda>_. 0, d_failed = \<lambda>_. 0, p_max = \<lambda>_. 0,
     p_current = \<lambda>_. 0, p_chain = \<lambda>_. 0, p_large = \<lambda>_. 0, p_cleanup = \<lambda>_. 0, l_next = \<lambda>_. 0,
     l_alloc = \<lambda>_. 0, c_handler = \<lambda>_. None, c_data = \<lambda>_. 0, c_next = \<lambda>_. 0, f_fd = \<lambda>_. 0,
     f_name = \<lambda>_. 0, m_byte = \<lambda>_. 0, os_live = [], os_tick = 0\<rparr>"

lemma top_of_less: "r \<in> set live \<Longrightarrow> fst r + snd r < top_of live"
  by (induction live) (auto simp: top_of_def)

lemma bump_fresh:
  assumes "bump al n live \<noteq> 0"
  shows "al dvd bump al n live \<and> fresh (bump al n live) n live"
proof -
  let ?a = "(top_of live + al - 1) div al * al"
  have a: "bump al n live = ?a" "al \<noteq> 0" "?a + n < 2 ^ 64"
    using assms by (auto simp: bump_def Let_def split: if_splits)
  have "top_of live + al - 1 < ?a + al"
    using a(2) by (metis div_mult_mod_eq mod_less_divisor nat_add_left_cancel_less neq0_conv)
  then have top: "top_of live \<le> ?a" using a(2) by linarith
  have "fst r + snd r < ?a" if "r \<in> set live" for r using top_of_less [OF that] top by linarith
  then show ?thesis using a by (force simp: fresh_def apart_def)
qed

lemma sample_env_ok: "env_ok sample_env"
proof -
  have "p \<le> (p + 7) div 8 * 8 \<and> (p + 7) div 8 * 8 < p + 8" for p :: nat by presburger
  then show ?thesis
    using bump_fresh by (simp add: env_ok_def sample_env_def NGX_POOL_ALIGNMENT_def Let_def)
qed

section \<open>Properties\<close>

text \<open>C15: whatever a client does with a pool whose size is a multiple of the platform's alignment
  and holds at least its own header (any sequence of allocations of every kind, frees of any address,
  registrations and resets), every call returns, and the regions the client holds never overlap each
  other, lie in memory the system has handed out and has not got back, and stay clear of the pool's
  own header.  Without the alignment it is not so, see \<open>palloc_past_end\<close>.\<close>

theorem pool_never_overlaps:
  assumes "env_ok env" and "live_ok (os_live h0)"
    and "e_sizeof_pool env \<le> sz" and "sz < 2 ^ 64" and "e_alignment env dvd sz"
    and "ngx_create_pool env sz h0 = (pool, h)" and "pool \<noteq> 0"
  shows "\<exists>h' rs. pool_run env pool ops (h, []) = Some (h', rs) \<and> sorted_wrt apart rs \<and>
    (\<forall>r \<in> set rs. (\<exists>s \<in> set (os_live h'). within r s) \<and> apart r (pool, e_sizeof_pool env))"
proof -
  have "pool_inv env h pool (os_live h0) [] []" using create_inv [OF assms(1,3,4,5,2,6,7)] by simp
  then obtain h' rs' pin' where "pool_run env pool ops (h, []) = Some (h', rs')" "pool_inv env h' pool (os_live h0) rs' pin'"
    using run_inv [OF assms(1)] by blast
  then show ?thesis using pool_inv_safe [OF assms(1)] by blast
qed

lemma pool_never_overlaps_witness:
  "\<exists>h' rs. pool_run sample_env 4096 [Palloc 100, Pnalloc 7, Palloc 5000, Pcalloc 900, Pmemalign 64 32, Reset, Palloc 1]
        (snd (ngx_create_pool sample_env 1024 sample_mem), []) = Some (h', rs) \<and>
      sorted_wrt apart rs \<and> (\<forall>r \<in> set rs. (\<exists>s \<in> set (os_live h'). within r s) \<and> apart r (4096, 80))"
proof -
  have "fst (ngx_create_pool sample_env 1024 sample_mem) = 4096"
    by (simp add: ngx_create_pool_def ngx_memalign_def sample_env_def sample_mem_def bump_def top_of_def
        NGX_POOL_ALIGNMENT_def Let_def)
  then have c: "ngx_create_pool sample_env 1024 sample_mem = (4096, snd (ngx_create_pool sample_env 1024 sample_mem))"
    by (simp add: prod_eq_iff)
  have live: "live_ok (os_live sample_mem)" by (simp add: live_ok_def sample_mem_def)
  have sizes: "e_sizeof_pool sample_env = 80" "e_alignment sample_env = 8" by (simp_all add: sample_env_def)
  show ?thesis
    by (rule pool_never_overlaps [OF sample_env_ok live _ _ _ c, unfolded sizes]) simp_all
qed

text \<open>C16: destroying a pool runs the handlers of the registered cleanup records in the reverse
  of the order in which \<open>ngx_pool_cleanup_add\<close> returned them, each once, and gives back every
  region the pool took and nothing else, exactly once: afterwards the system's live memory is what it
  was before the pool was created.  The pool's size is a multiple of the alignment with room for one
  cleanup record, the page size is larger than a record, and the pool is not both reset and given
  handlers (what happens otherwise is in \<open>reset_cleanup_cycle\<close>).\<close>

theorem destroy_gives_back:
  assumes "env_ok env" and "live_ok (os_live h0)"
    and "e_sizeof_pool env + e_sizeof_cleanup env \<le> sz" and "sz < 2 ^ 64" and "e_alignment env dvd sz"
    and "e_sizeof_cleanup env < e_pagesize env" and "e_pagesize env \<le> 2 ^ 64"
    and "ngx_create_pool env sz h0 = (pool, h)" and "pool \<noteq> 0"
    and "Reset \<notin> set ops \<or> (\<forall>n. Cleanup_Add n \<notin> set ops)"
  shows "\<exists>h1 rs h2. pool_run env pool ops (h, []) = Some (h1, rs) \<and>
    ngx_destroy_pool ok del pool h1 = Some (concat (map (\<lambda>c. case c_handler h1 c of None \<Rightarrow> []
      | Some f \<Rightarrow> run_handler ok del h1 f (c_data h1 c)) (rev (registered env pool ops (h, [])))), h2) \<and>
    os_live h2 = os_live h0"
proof -
  have c: "pool_inv env h pool (os_live h0) [] []" "p_cleanup h pool = 0"
      "p_max h pool = min (sz - e_sizeof_pool env) (NGX_MAX_ALLOC_FROM_POOL env)"
    using create_inv [OF assms(1) _ assms(4,5,2,8,9)] assms(3) by simp_all
  have "NGX_MAX_ALLOC_FROM_POOL env = e_pagesize env - 1"
    using size_t_diff [of 1 "e_pagesize env - 1 + 1"] assms(6,7)
    by (cases "e_pagesize env") (auto simp: NGX_MAX_ALLOC_FROM_POOL_def size_t_def)
  then have "e_sizeof_cleanup env \<le> p_max h pool" using c(3) assms(3,6) by linarith
  then have "cleanup_inv env h pool [] []" using c(2) by (simp add: cleanup_inv_def)
  then obtain h1 rs pin where r: "pool_run env pool ops (h, []) = Some (h1, rs)"
      "pool_inv env h1 pool (os_live h0) rs pin" "cleanup_inv env h1 pool pin (rev (registered env pool ops (h, [])) @ [])"
    using run_inv [OF assms(1) c(1), of ops "[]"] assms(10) by blast
  then have cs: "nodes (c_next h1) (p_cleanup h1 pool) (rev (registered env pool ops (h, [])))"
    by (simp add: cleanup_inv_def)
  show ?thesis using destroy_inv [OF r(2) cs] r(1) by blast
qed

lemma destroy_gives_back_witness:
  "\<exists>h1 rs h2 effs. pool_run sample_env 4096 [Cleanup_Add 8, Palloc 5000, Cleanup_Add 0]
        (snd (ngx_create_pool sample_env 1024 sample_mem), []) = Some (h1, rs) \<and>
      ngx_destroy_pool (\<lambda>_. True) (\<lambda>_. None) 4096 h1 = Some (effs, h2) \<and> os_live h2 = []"
proof -
  have "fst (ngx_create_pool sample_env 1024 sample_mem) = 4096"
    by (simp add: ngx_create_pool_def ngx_memalign_def sample_env_def sample_mem_def bump_def top_of_def
        NGX_POOL_ALIGNMENT_def Let_def)
  then have "ngx_create_pool sample_env 1024 sample_mem = (4096, snd (ngx_create_pool sample_env 1024 sample_mem))"
    by (simp add: prod_eq_iff)
  moreover have "live_ok (os_live sample_mem)" by (simp add: live_ok_def sample_mem_def)
  moreover have "e_sizeof_pool sample_env = 80" "e_alignment sample_env = 8" "e_sizeof_cleanup sample_env = 24"
      "e_pagesize sample_env = 4096" by (simp_all add: sample_env_def)
  moreover have "os_live sample_mem = []" by (simp add: sample_mem_def)
  moreover have "Reset \<notin> set [Cleanup_Add 8, Palloc 5000, Cleanup_Add 0]" by simp
  ultimately show ?thesis
    using destroy_gives_back [OF sample_env_ok, of sample_mem 1024 4096 _ "[Cleanup_Add 8, Palloc 5000, Cleanup_Add 0]"
        "\<lambda>_. True" "\<lambda>_. None"] by fastforce
qed

text \<open>A pool whose size is not a multiple of the platform alignment hands out memory behind
  its end: after an unaligned allocation the aligned pointer can be beyond \<open>end\<close>, the unsigned
  difference wraps to a huge size, and the next allocation is taken there.\<close>

theorem palloc_past_end:
  "\<exists>h. pool_run sample_env 4096 [Pnalloc 18, Palloc 1]
      (snd (ngx_create_pool sample_env 100 sample_mem), []) = Some (h, [(4200, 1), (4176, 18)]) \<and>
    fst (ngx_create_pool sample_env 100 sample_mem) = 4096 \<and>
    os_live h = [(4096, 100)] \<and> \<not> within (4200, 1) (4096, 100)"
  by (simp add: ngx_create_pool_def ngx_memalign_def os_take_def sample_env_def sample_mem_def bump_def
      top_of_def NGX_POOL_ALIGNMENT_def NGX_MAX_ALLOC_FROM_POOL_def size_t_def ngx_pnalloc_def ngx_palloc_def
      ngx_palloc_small_def small_loop.simps within_def Let_def)

lemma cleanup_loop_cycle:
  assumes "c \<noteq> 0" "c_next h c = c"
  shows "cleanup_loop ok del c h = None"
proof -
  have "cleanup_loop ok del d g = Some y \<Longrightarrow> d = c \<Longrightarrow> g = h \<Longrightarrow> False" for d g y
  proof (induction rule: cleanup_loop.raw_induct [rotated 1, consumes 1])
    case (1 f ok del d g y)
    then show ?case using assms by (auto split: bind_splits)
  qed
  then show ?thesis by (cases "cleanup_loop ok del c h") auto
qed

text \<open>Resetting a pool keeps its list of cleanup records although their memory is given out
  again: registering one more handler afterwards reuses the address of the first record, which then
  is its own successor, and destroying the pool never ends.\<close>

theorem reset_cleanup_cycle:
  "\<exists>h rs. pool_run sample_env 4096 [Cleanup_Add 0, Reset, Cleanup_Add 0]
      (snd (ngx_create_pool sample_env 1024 sample_mem), []) = Some (h, rs) \<and>
    c_next h (p_cleanup h 4096) = p_cleanup h 4096 \<and> ngx_destroy_pool ok del 4096 h = None"
proof -
  obtain h rs where r: "pool_run sample_env 4096 [Cleanup_Add 0, Reset, Cleanup_Add 0]
      (snd (ngx_create_pool sample_env 1024 sample_mem), []) = Some (h, rs)"
    and c: "p_cleanup h 4096 = 4176" "c_next h 4176 = 4176"
    by (simp add: ngx_create_pool_def ngx_memalign_def os_take_def sample_env_def sample_mem_def bump_def
        top_of_def NGX_POOL_ALIGNMENT_def NGX_MAX_ALLOC_FROM_POOL_def size_t_def ngx_pool_cleanup_add_def
        ngx_palloc_def ngx_palloc_small_def small_loop.simps ngx_reset_pool_def free_large.simps
        reset_blocks.simps cleanup_regions_def Let_def)
  have "ngx_destroy_pool ok del 4096 h = None"
    using cleanup_loop_cycle [of 4176 h] c by (simp add: ngx_destroy_pool_def)
  then show ?thesis using r c by auto
qed

end
