(* ===== verification/Skiplist.thy ===== *)
theory Skiplist
  imports Cvip_Prelude
begin

text \<open>
  The skip list of the timers (\<open>code/timer/skiplist.c\<close>, \<open>skiplist.h\<close>) on a heap of node
  fields.  A node is an address, 0 is \<open>NULL\<close>; \<open>z_slots\<close> is the number of \<open>level\<close> slots a
  node was allocated with, 0 for memory that is not a live node.  \<open>None\<close> is undefined behaviour
  (a slot outside the node, a dead node, an unset local, a failed allocation) or a loop without end.
  The random source is the argument \<open>rnd\<close>, the allocator the argument \<open>mal\<close>; both are
  indexed by the number of earlier calls.
\<close>

section \<open>State\<close>

record zskiplist =
  z_header :: nat
  z_length :: int
  z_level :: nat
  z_forward :: "nat \<Rightarrow> nat \<Rightarrow> nat"
  z_slots :: "nat \<Rightarrow> nat"
  z_score :: "nat \<Rightarrow> u64"
  z_handler :: "nat \<Rightarrow> nat"
  z_mallocs :: nat
  z_draws :: nat

definition ZSKIPLIST_MAXLEVEL :: nat where "ZSKIPLIST_MAXLEVEL = 32"

definition get_forward :: "zskiplist \<Rightarrow> nat \<Rightarrow> nat \<Rightarrow> nat option" where
  "get_forward z x i = (if i < z_slots z x then Some (z_forward z x i) else None)"

definition set_forward :: "nat \<Rightarrow> nat \<Rightarrow> nat \<Rightarrow> zskiplist \<Rightarrow> zskiplist option" where
  "set_forward x i v z =
     (if i < z_slots z x then Some (z\<lparr>z_forward := (z_forward z)(x := (z_forward z x)(i := v))\<rparr>) else None)"

definition get_score :: "zskiplist \<Rightarrow> nat \<Rightarrow> u64 option" where
  "get_score z x = (if 0 < z_slots z x then Some (z_score z x) else None)"

definition zsl_free :: "nat \<Rightarrow> zskiplist \<Rightarrow> zskiplist option" where
  "zsl_free x z = (if 0 < z_slots z x then Some (z\<lparr>z_slots := (z_slots z)(x := 0)\<rparr>) else None)"

section \<open>Creation\<close>

definition zslCreateNode :: "(nat \<Rightarrow> nat) \<Rightarrow> nat \<Rightarrow> u64 \<Rightarrow> nat \<Rightarrow> zskiplist \<Rightarrow> (nat \<times> zskiplist) option" where
  "zslCreateNode mal level score func z =
     (let zn = mal (z_mallocs z) in
      if zn = 0 then None
      else Some (zn, z\<lparr>z_slots := (z_slots z)(zn := level), z_score := (z_score z)(zn := score),
                      z_handler := (z_handler z)(zn := func), z_mallocs := z_mallocs z + 1\<rparr>))"

fun clear_forward :: "nat \<Rightarrow> nat \<Rightarrow> nat \<Rightarrow> zskiplist \<Rightarrow> zskiplist option" where
  "clear_forward x j 0 z = Some z"
| "clear_forward x j (Suc n) z = do { z' \<leftarrow> set_forward x j 0 z; clear_forward x (Suc j) n z' }"

text \<open>\<open>z0\<close> is the memory before the call; the default handler is function 0.\<close>

definition zslCreate :: "(nat \<Rightarrow> nat) \<Rightarrow> zskiplist \<Rightarrow> zskiplist option" where
  "zslCreate mal z0 = do {
     (hd, z) \<leftarrow> zslCreateNode mal ZSKIPLIST_MAXLEVEL 0 0 (z0\<lparr>z_level := 1, z_length := 0\<rparr>);
     clear_forward hd 0 ZSKIPLIST_MAXLEVEL (z\<lparr>z_header := hd\<rparr>)
   }"

partial_function (option) zslFree_loop :: "nat \<Rightarrow> zskiplist \<Rightarrow> zskiplist option" where
  "zslFree_loop node z =
     (if node \<noteq> 0 then do {
        nx \<leftarrow> get_forward z node 0;
        z' \<leftarrow> zsl_free node z;
        zslFree_loop nx z'
      } else Some z)"

definition zslFree :: "zskiplist \<Rightarrow> zskiplist option" where
  "zslFree z = do {
     node \<leftarrow> get_forward z (z_header z) 0;
     z' \<leftarrow> zsl_free (z_header z) z;
     zslFree_loop node z'
   }"

section \<open>Insertion\<close>

text \<open>The test \<open>(arc4random() & 0xFFFF) < (ZSKIPLIST_P * 0xFFFF)\<close> with
  \<open>ZSKIPLIST_P = 0.25\<close>, written on integers.\<close>

definition another_level :: "u32 \<Rightarrow> bool" where
  "another_level r \<longleftrightarrow> 4 * uint (r AND 0xFFFF) < 0xFFFF"

partial_function (option) random_loop :: "(nat \<Rightarrow> u32) \<Rightarrow> nat \<Rightarrow> nat \<Rightarrow> (nat \<times> nat) option" where
  "random_loop rnd t level =
     (if another_level (rnd t) then random_loop rnd (t + 1) (level + 1) else Some (level, t + 1))"

definition zslRandomLevel :: "(nat \<Rightarrow> u32) \<Rightarrow> zskiplist \<Rightarrow> (nat \<times> zskiplist) option" where
  "zslRandomLevel rnd z = do {
     (level, t) \<leftarrow> random_loop rnd (z_draws z) 1;
     Some (if level < ZSKIPLIST_MAXLEVEL then level else ZSKIPLIST_MAXLEVEL, z\<lparr>z_draws := t\<rparr>)
   }"

text \<open>The inner loop on one level, and the loop over the levels that fills \<open>update\<close>.\<close>

partial_function (option) zsl_walk :: "zskiplist \<Rightarrow> u64 \<Rightarrow> nat \<Rightarrow> nat \<Rightarrow> nat option" where
  "zsl_walk z score i x = do {
     f \<leftarrow> get_forward z x i;
     (if f \<noteq> 0 then do {
        s \<leftarrow> get_score z f;
        (if s < score then zsl_walk z score i f else Some x)
      } else Some x)
   }"

fun zsl_search :: "zskiplist \<Rightarrow> u64 \<Rightarrow> nat \<Rightarrow> nat \<Rightarrow> (nat \<rightharpoonup> nat) \<Rightarrow> (nat \<times> (nat \<rightharpoonup> nat)) option" where
  "zsl_search z score 0 x update = Some (x, update)"
| "zsl_search z score (Suc i) x update = do {
     y \<leftarrow> zsl_walk z score i x;
     zsl_search z score i y (update(i \<mapsto> y))
   }"

text \<open>Linking the new node on the levels from \<open>i\<close> on.\<close>

fun zsl_link :: "nat \<Rightarrow> (nat \<rightharpoonup> nat) \<Rightarrow> nat \<Rightarrow> nat \<Rightarrow> zskiplist \<Rightarrow> zskiplist option" where
  "zsl_link x update i 0 z = Some z"
| "zsl_link x update i (Suc n) z = do {
     u \<leftarrow> update i;
     f \<leftarrow> get_forward z u i;
     z1 \<leftarrow> set_forward x i f z;
     z2 \<leftarrow> set_forward u i x z1;
     zsl_link x update (Suc i) n z2
   }"

definition zslInsert ::
  "(nat \<Rightarrow> u32) \<Rightarrow> (nat \<Rightarrow> nat) \<Rightarrow> u64 \<Rightarrow> nat \<Rightarrow> zskiplist \<Rightarrow> (nat \<times> zskiplist) option" where
  "zslInsert rnd mal score func z = do {
     (_, update) \<leftarrow> zsl_search z score (z_level z) (z_header z) Map.empty;
     (level, z1) \<leftarrow> zslRandomLevel rnd z;
     let update' = (\<lambda>i. if z_level z1 \<le> i \<and> i < level then Some (z_header z1) else update i);
     let z2 = (if level > z_level z1 then z1\<lparr>z_level := level\<rparr> else z1);
     (x, z3) \<leftarrow> zslCreateNode mal level score func z2;
     z4 \<leftarrow> zsl_link x update' 0 level z3;
     Some (x, z4\<lparr>z_length := z_length z4 + 1\<rparr>)
   }"

section \<open>Minimum and deletion\<close>

definition zslMin :: "zskiplist \<Rightarrow> nat option" where
  "zslMin z = get_forward z (z_header z) 0"

text \<open>\<open>while (zsl->level > 1 && header->level[level - 1].forward == NULL) zsl->level--;\<close>\<close>

fun zsl_shrink :: "nat \<Rightarrow> zskiplist \<Rightarrow> nat option" where
  "zsl_shrink 0 z = Some 0"
| "zsl_shrink (Suc n) z =
     (if n > 0 then do {
        f \<leftarrow> get_forward z (z_header z) n;
        (if f = 0 then zsl_shrink n z else Some (Suc n))
      } else Some (Suc n))"

fun zsl_behead :: "nat \<Rightarrow> nat \<Rightarrow> zskiplist \<Rightarrow> zskiplist option" where
  "zsl_behead x 0 z = Some z"
| "zsl_behead x (Suc i) z = do {
     f \<leftarrow> get_forward z (z_header z) i;
     z1 \<leftarrow> (if f = x then do { g \<leftarrow> get_forward z x i; set_forward (z_header z) i g z } else Some z);
     zsl_behead x i z1
   }"

definition zslDeleteHead :: "zskiplist \<Rightarrow> zskiplist option" where
  "zslDeleteHead z = do {
     x \<leftarrow> zslMin z;
     (if x = 0 then Some z
      else do {
        z1 \<leftarrow> zsl_behead x (z_level z) z;
        l \<leftarrow> zsl_shrink (z_level z1) z1;
        Some (z1\<lparr>z_level := l, z_length := z_length z1 - 1\<rparr>)
      })
   }"

fun zsl_unlink :: "nat \<Rightarrow> (nat \<rightharpoonup> nat) \<Rightarrow> nat \<Rightarrow> nat \<Rightarrow> zskiplist \<Rightarrow> zskiplist option" where
  "zsl_unlink x update i 0 z = Some z"
| "zsl_unlink x update i (Suc n) z = do {
     u \<leftarrow> update i;
     f \<leftarrow> get_forward z u i;
     z1 \<leftarrow> (if f = x then do { g \<leftarrow> get_forward z x i; set_forward u i g z } else Some z);
     zsl_unlink x update (Suc i) n z1
   }"

definition zslDeleteNode :: "nat \<Rightarrow> (nat \<rightharpoonup> nat) \<Rightarrow> zskiplist \<Rightarrow> zskiplist option" where
  "zslDeleteNode x update z = do {
     z1 \<leftarrow> zsl_unlink x update 0 (z_level z) z;
     l \<leftarrow> zsl_shrink (z_level z1) z1;
     Some (z1\<lparr>z_level := l, z_length := z_length z1 - 1\<rparr>)
   }"

definition zslDelete :: "nat \<Rightarrow> zskiplist \<Rightarrow> zskiplist option" where
  "zslDelete zn z = do {
     score \<leftarrow> get_score z zn;
     (y, update) \<leftarrow> zsl_search z score (z_level z) (z_header z) Map.empty;
     x \<leftarrow> get_forward z y 0;
     (if x \<noteq> 0 then do {
        s \<leftarrow> get_score z x;
        (if score = s then do { z1 \<leftarrow> zslDeleteNode x update z; zsl_free x z1 } else Some z)
      } else Some z)
   }"

section \<open>The timer\<close>

text \<open>\<open>sl-timer.c\<close>: the clock reading is an argument, the handler calls are returned in
  order, as pairs of handler and node.\<close>

definition sl_add_timer ::
  "(nat \<Rightarrow> u32) \<Rightarrow> (nat \<Rightarrow> nat) \<Rightarrow> u32 \<Rightarrow> u32 \<Rightarrow> nat \<Rightarrow> zskiplist \<Rightarrow> (nat \<times> zskiplist) option" where
  "sl_add_timer rnd mal now msec func z = zslInsert rnd mal (ucast (msec + now)) func z"

definition sl_del_timer :: "nat \<Rightarrow> zskiplist \<Rightarrow> zskiplist option" where
  "sl_del_timer zn z = zslDelete zn z"

partial_function (option) sl_expire_timer :: "u32 \<Rightarrow> zskiplist \<Rightarrow> ((nat \<times> nat) list \<times> zskiplist) option" where
  "sl_expire_timer now z = do {
     x \<leftarrow> zslMin z;
     (if x = 0 then Some ([], z)
      else do {
        s \<leftarrow> get_score z x;
        (if s > ucast now then Some ([], z)
         else do {
           z1 \<leftarrow> zslDeleteHead z;
           (calls, z2) \<leftarrow> sl_expire_timer now z1;
           Some ((z_handler z x, x) # calls, z2)
         })
      })
   }"

end
