(* ===== verification/Skiplist_Inv.thy ===== *)
theory Skiplist_Inv
  imports Skiplist
begin

text \<open>
  The skip list is a sorted list: its invariant (every level is the sub-list of the nodes that reach
  it), and the lemmas that each operation keeps it and acts on the list as expected.
\<close>

section \<open>Invariant\<close>

definition lane :: "zskiplist \<Rightarrow> nat list \<Rightarrow> nat \<Rightarrow> nat list" where
  "lane z xs i = filter (\<lambda>x. i < z_slots z x) xs"

definition lanes_ok :: "zskiplist \<Rightarrow> nat list \<Rightarrow> bool" where
  "lanes_ok z xs \<longleftrightarrow> (\<forall>i < ZSKIPLIST_MAXLEVEL.
     nodes (\<lambda>x. z_forward z x i) (z_forward z (z_header z) i) (lane z xs i))"

definition zsl_base :: "zskiplist \<Rightarrow> nat list \<Rightarrow> bool" where
  "zsl_base z xs \<longleftrightarrow>
     z_header z \<noteq> 0 \<and> distinct (z_header z # xs) \<and> z_slots z (z_header z) = ZSKIPLIST_MAXLEVEL \<and>
     (\<forall>x \<in> set xs. 0 < z_slots z x \<and> z_slots z x \<le> z_level z) \<and>
     0 < z_level z \<and> z_level z \<le> ZSKIPLIST_MAXLEVEL \<and> lanes_ok z xs"

definition zsl_inv :: "zskiplist \<Rightarrow> nat list \<Rightarrow> bool" where
  "zsl_inv z xs \<longleftrightarrow> zsl_base z xs \<and> sorted (map (z_score z) xs) \<and> z_length z = int (length xs) \<and>
     (1 < z_level z \<longrightarrow> (\<exists>x \<in> set xs. z_slots z x = z_level z))"

text \<open>The node after which a search for a score ends on level \<open>i\<close>, when \<open>ls\<close> are the nodes
  with a smaller score.\<close>

definition pred_at :: "zskiplist \<Rightarrow> nat list \<Rightarrow> nat \<Rightarrow> nat" where
  "pred_at z ls i = last (z_header z # lane z ls i)"

lemma lane_append [simp]: "lane z (xs @ ys) i = lane z xs i @ lane z ys i"
  by (simp add: lane_def)

lemma lane_Nil [simp]: "lane z [] i = []"
  by (simp add: lane_def)

lemma in_lane: "x \<in> set (lane z xs i) \<longleftrightarrow> x \<in> set xs \<and> i < z_slots z x"
  by (auto simp: lane_def)

lemma pred_at_in: "pred_at z ls i \<in> set (z_header z # lane z ls i)"
  unfolding pred_at_def by (rule last_in_set) simp

lemma lane_nodes:
  "zsl_base z xs \<Longrightarrow> i < ZSKIPLIST_MAXLEVEL \<Longrightarrow>
     nodes (\<lambda>x. z_forward z x i) (z_forward z (z_header z) i) (lane z xs i)"
  by (simp add: zsl_base_def lanes_ok_def)

lemma lane_0: "zsl_base z xs \<Longrightarrow> lane z xs 0 = xs"
  by (simp add: lane_def zsl_base_def)

lemma zsl_nonzero: "zsl_base z xs \<Longrightarrow> 0 \<notin> set xs"
  using lane_nodes [of z xs 0] nodes_zero lane_0 by (fastforce simp: ZSKIPLIST_MAXLEVEL_def)

section \<open>Surgery on one level\<close>

lemma nodes_insert:
  "nodes nx (nx h) (us @ vs) \<Longrightarrow> distinct (h # us @ vs) \<Longrightarrow> x \<notin> set (h # us @ vs) \<Longrightarrow> x \<noteq> 0 \<Longrightarrow>
   nx' = nx(x := nx (last (h # us)), last (h # us) := x) \<Longrightarrow> nodes nx' (nx' h) (us @ x # vs)"
proof (induction us arbitrary: h)
  case Nil
  have "nodes nx' (nx h) vs" by (subst nodes_cong [where nx' = nx]) (use Nil in auto)
  then show ?case using Nil by simp
next
  case (Cons u us)
  have u: "nx h = u" "u \<noteq> 0" "h \<noteq> u" using Cons.prems by auto
  have "last (h # u # us) = last (u # us)" by simp
  moreover have "h \<noteq> last (u # us)" using Cons.prems(2) last_in_set [of "u # us"] by auto
  ultimately have "nx' h = u" using Cons.prems(3,5) u by auto
  moreover have "nodes nx' (nx' u) (us @ x # vs)"
    by (rule Cons.IH) (use Cons.prems u in simp_all)
  ultimately show ?case using u by simp
qed

lemma nodes_remove:
  "nodes nx (nx h) (us @ x # vs) \<Longrightarrow> distinct (h # us @ x # vs) \<Longrightarrow>
   nx' = nx(last (h # us) := nx x) \<Longrightarrow> nodes nx' (nx' h) (us @ vs)"
proof (induction us arbitrary: h)
  case Nil
  have "nodes nx' (nx x) vs" by (subst nodes_cong [where nx' = nx]) (use Nil in auto)
  then show ?case using Nil by simp
next
  case (Cons u us)
  have u: "nx h = u" "u \<noteq> 0" "h \<noteq> u" using Cons.prems by auto
  have "last (h # u # us) = last (u # us)" by simp
  moreover have "h \<noteq> last (u # us)" using Cons.prems(2) last_in_set [of "u # us"] by auto
  ultimately have "nx' h = u" using Cons.prems(3) u by auto
  moreover have "nodes nx' (nx' u) (us @ vs)"
    by (rule Cons.IH) (use Cons.prems u in simp_all)
  ultimately show ?case using u by simp
qed

lemma nodes_next: "nodes nx (nx h) (us @ vs) \<Longrightarrow> nx (last (h # us)) = (if vs = [] then 0 else hd vs)"
proof (induction us arbitrary: h)
  case Nil
  then show ?case by (cases vs) auto
next
  case (Cons u us)
  then show ?case using Cons.IH [of u] by simp
qed

section \<open>Search\<close>

lemma zsl_walk_spec:
  "nodes (\<lambda>x. z_forward z x i) (z_forward z x i) (us @ vs) \<Longrightarrow> \<forall>y \<in> set (x # us @ vs). i < z_slots z y \<Longrightarrow>
   \<forall>y \<in> set us. z_score z y < s \<Longrightarrow> vs = [] \<or> \<not> z_score z (hd vs) < s \<Longrightarrow>
   zsl_walk z s i x = Some (last (x # us))"
proof (induction us arbitrary: x)
  case Nil
  then show ?case
    by (subst zsl_walk.simps) (cases vs; auto simp: get_forward_def get_score_def)
next
  case (Cons u us)
  have "zsl_walk z s i x = zsl_walk z s i u"
    using Cons.prems by (subst zsl_walk.simps) (auto simp: get_forward_def get_score_def)
  moreover have "zsl_walk z s i u = Some (last (u # us))"
    by (rule Cons.IH) (use Cons.prems in auto)
  ultimately show ?case by simp
qed

lemma lane_from:
  assumes "x \<in> set (h # ls)" and "nodes nx (nx h) (ls @ rs)"
  shows "\<exists>us. last (x # us) = last (h # ls) \<and> nodes nx (nx x) (us @ rs) \<and> set us \<subseteq> set ls"
proof (cases "x = h")
  case False
  then obtain ps us where ls: "ls = ps @ x # us" using assms(1) by (auto simp: in_set_conv_decomp)
  have "nodes nx x (x # us @ rs)" using nodes_append [of nx "nx h" ps x "us @ rs"] assms(2) ls by simp
  then show ?thesis using ls by (intro exI [of _ us]) auto
qed (use assms in auto)

lemma zsl_search_spec:
  assumes base: "zsl_base z (ls @ rs)" and less: "\<forall>y \<in> set ls. z_score z y < s" "\<forall>y \<in> set rs. \<not> z_score z y < s"
  shows "n \<le> ZSKIPLIST_MAXLEVEL \<Longrightarrow> n = 0 \<or> x \<in> set (z_header z # lane z ls (n - 1)) \<Longrightarrow>
    zsl_search z s n x upd =
      Some (if n = 0 then x else pred_at z ls 0, \<lambda>i. if i < n then Some (pred_at z ls i) else upd i)"
proof (induction n arbitrary: x upd)
  case 0
  then show ?case by simp
next
  case (Suc i)
  let ?nx = "\<lambda>x. z_forward z x i"
  have "nodes ?nx (?nx (z_header z)) (lane z ls i @ lane z rs i)"
    using lane_nodes [OF base, of i] Suc.prems(1) by simp
  moreover have "x \<in> set (z_header z # lane z ls i)" using Suc.prems(2) by simp
  ultimately obtain us where us: "last (x # us) = pred_at z ls i" "nodes ?nx (?nx x) (us @ lane z rs i)"
      "set us \<subseteq> set (lane z ls i)"
    using lane_from unfolding pred_at_def by metis
  have slots: "\<forall>y \<in> set (x # us @ lane z rs i). i < z_slots z y"
    using us(3) Suc.prems base by (auto simp: in_lane zsl_base_def)
  have "lane z rs i = [] \<or> \<not> z_score z (hd (lane z rs i)) < s"
    using less(2) hd_in_set in_lane by metis
  then have w: "zsl_walk z s i x = Some (pred_at z ls i)"
    using zsl_walk_spec [OF us(2) slots, of s] us(1,3) less(1) in_lane [of _ z ls i] by (metis subsetD)
  have "i = 0 \<or> pred_at z ls i \<in> set (z_header z # lane z ls (i - 1))"
    using pred_at_in [of z ls i] by (auto simp: in_lane)
  then have "zsl_search z s i (pred_at z ls i) (upd(i \<mapsto> pred_at z ls i)) =
      Some (if i = 0 then pred_at z ls i else pred_at z ls 0,
        \<lambda>j. if j < i then Some (pred_at z ls j) else (upd(i \<mapsto> pred_at z ls i)) j)"
    using Suc.IH Suc.prems(1) by simp
  moreover have "(\<lambda>j. if j < i then Some (pred_at z ls j) else (upd(i \<mapsto> pred_at z ls i)) j) =
      (\<lambda>j. if j < Suc i then Some (pred_at z ls j) else upd j)"
    by (auto simp: less_Suc_eq)
  ultimately show ?case using w by auto
qed

lemma zsl_search_top:
  assumes "zsl_base z (ls @ rs)" "\<forall>y \<in> set ls. z_score z y < s" "\<forall>y \<in> set rs. \<not> z_score z y < s"
  shows "zsl_search z s (z_level z) (z_header z) Map.empty =
    Some (pred_at z ls 0, \<lambda>i. if i < z_level z then Some (pred_at z ls i) else None)"
  using zsl_search_spec [OF assms, of "z_level z" "z_header z" Map.empty] assms(1)
  by (simp add: zsl_base_def)

section \<open>Insertion\<close>

lemma zsl_link_spec:
  "\<forall>j. i \<le> j \<and> j < i + n \<longrightarrow> upd j = Some (p j) \<and> j < z_slots z (p j) \<and> j < z_slots z x \<and> p j \<noteq> x \<Longrightarrow>
   zsl_link x upd i n z = Some (z\<lparr>z_forward := \<lambda>y j. if i \<le> j \<and> j < i + n
     then (if y = x then z_forward z (p j) j else if y = p j then x else z_forward z y j)
     else z_forward z y j\<rparr>)"
proof (induction n arbitrary: i z)
  case 0
  have "(\<lambda>y j. if i \<le> j \<and> j < i + 0 then (if y = x then z_forward z (p j) j else if y = p j then x else z_forward z y j)
      else z_forward z y j) = z_forward z"
    by (intro ext) auto
  then show ?case by (simp only: zsl_link.simps) simp
next
  case (Suc n)
  define z2 where "z2 = z\<lparr>z_forward := \<lambda>y j. if j = i
     then (if y = x then z_forward z (p i) i else if y = p i then x else z_forward z y i) else z_forward z y j\<rparr>"
  have i: "upd i = Some (p i)" "i < z_slots z (p i)" "i < z_slots z x" "p i \<noteq> x" using Suc.prems by auto
  have "(z_forward z)(x := (z_forward z x)(i := z_forward z (p i) i),
           p i := (((z_forward z)(x := (z_forward z x)(i := z_forward z (p i) i))) (p i))(i := x)) =
        (\<lambda>y j. if j = i then (if y = x then z_forward z (p i) i else if y = p i then x else z_forward z y i)
              else z_forward z y j)"
    using i(4) by (auto simp: fun_eq_iff)
  then have "zsl_link x upd i (Suc n) z = zsl_link x upd (Suc i) n z2"
    using i by (simp add: get_forward_def set_forward_def z2_def)
  also have "\<dots> = Some (z2\<lparr>z_forward := \<lambda>y j. if Suc i \<le> j \<and> j < Suc i + n
     then (if y = x then z_forward z2 (p j) j else if y = p j then x else z_forward z2 y j)
     else z_forward z2 y j\<rparr>)"
    by (rule Suc.IH) (use Suc.prems in \<open>simp add: z2_def\<close>)
  also have "\<dots> = Some (z\<lparr>z_forward := \<lambda>y j. if i \<le> j \<and> j < i + Suc n
     then (if y = x then z_forward z (p j) j else if y = p j then x else z_forward z y j)
     else z_forward z y j\<rparr>)"
    by (auto simp: z2_def fun_eq_iff intro!: arg_cong [where f = "\<lambda>u. z\<lparr>z_forward := u\<rparr>"])
  finally show ?case .
qed

lemma random_loop_ge: "random_loop rnd t k = Some y \<Longrightarrow> k \<le> fst y"
proof (induction rule: random_loop.raw_induct [rotated 1, consumes 1, case_names step])
  case (step f rnd t k y)
  then show ?case by (fastforce split: if_splits)
qed

lemma zslRandomLevel_range:
  "zslRandomLevel rnd z = Some (l, z1) \<Longrightarrow> 0 < l \<and> l \<le> ZSKIPLIST_MAXLEVEL \<and> (\<exists>t. z1 = z\<lparr>z_draws := t\<rparr>)"
  by (auto simp: zslRandomLevel_def ZSKIPLIST_MAXLEVEL_def bind_eq_Some_conv dest!: random_loop_ge)

lemma dropWhile_sorted: "sorted (map f xs) \<Longrightarrow> y \<in> set (dropWhile (\<lambda>y. f y < s) xs) \<Longrightarrow> \<not> f y < (s::'a::linorder)"
  by (induction xs) (auto split: if_splits)

lemma zsl_base_insert:
  assumes base: "zsl_base z (ls @ rs)" and x: "x \<noteq> 0" "x \<notin> set (z_header z # ls @ rs)"
    and l: "0 < l" "l \<le> ZSKIPLIST_MAXLEVEL"
    and z': "z_header z' = z_header z" "z_slots z' = (z_slots z)(x := l)" "z_level z' = max l (z_level z)"
      "z_forward z' = (\<lambda>y j. if j < l
         then (if y = x then z_forward z (pred_at z ls j) j else if y = pred_at z ls j then x else z_forward z y j)
         else z_forward z y j)"
  shows "zsl_base z' (ls @ x # rs)"
proof -
  have lane: "lane z' ys i = lane z ys i" if "x \<notin> set ys" for ys i
    unfolding lane_def by (rule filter_cong) (use that in \<open>auto simp: z'\<close>)
  have lane': "lane z' (ls @ x # rs) i = lane z ls i @ (if i < l then [x] else []) @ lane z rs i" for i
    using lane [of ls i] lane [of rs i] x by (simp add: lane_def z')
  have "nodes (\<lambda>x. z_forward z' x i) (z_forward z' (z_header z') i) (lane z' (ls @ x # rs) i)"
    if i: "i < ZSKIPLIST_MAXLEVEL" for i
  proof -
    let ?nx = "\<lambda>x. z_forward z x i" and ?us = "lane z ls i" and ?vs = "lane z rs i"
    have nd: "nodes ?nx (?nx (z_header z)) (?us @ ?vs)" using lane_nodes [OF base i] by simp
    have sub: "set ?us \<subseteq> set ls" "set ?vs \<subseteq> set rs" by (auto simp: in_lane)
    show ?thesis
    proof (cases "i < l")
      case True
      have "pred_at z ls i \<noteq> x" using pred_at_in [of z ls i] x(2) sub by auto
      then have "(\<lambda>y. z_forward z' y i) = ?nx(x := ?nx (last (z_header z # ?us)), last (z_header z # ?us) := x)"
        using True by (auto simp: z' pred_at_def)
      moreover have "distinct (z_header z # ?us @ ?vs)"
        using base by (auto simp: zsl_base_def lane_def)
      moreover have "x \<notin> set (z_header z # ?us @ ?vs)" using x(2) sub by auto
      ultimately have "nodes (\<lambda>y. z_forward z' y i) (z_forward z' (z_header z) i) (?us @ x # ?vs)"
        using x(1) by (intro nodes_insert [OF nd])
      then show ?thesis using True by (simp add: lane' z'(1) del: lane_append)
    qed (use nd in \<open>simp add: lane' z' del: lane_append\<close>)
  qed
  then have "lanes_ok z' (ls @ x # rs)" by (simp add: lanes_ok_def)
  moreover have "z_slots z y \<le> max l (z_level z)" if "y \<in> set (ls @ rs)" for y
    using base that by (auto simp: zsl_base_def le_max_iff_disj)
  ultimately show ?thesis using base x l by (auto simp: zsl_base_def z')
qed

lemma zslInsert_spec:
  fixes s :: u64
  assumes inv: "zsl_inv z xs" and x: "x = mal (z_mallocs z)" "x \<noteq> 0" "x \<notin> set (z_header z # xs)"
    and draw: "zslRandomLevel rnd z = Some (l, z1)"
  defines "ls \<equiv> takeWhile (\<lambda>y. z_score z y < s) xs" and "rs \<equiv> dropWhile (\<lambda>y. z_score z y < s) xs"
  shows "\<exists>z'. zslInsert rnd mal s f z = Some (x, z') \<and> zsl_inv z' (ls @ x # rs) \<and>
    z_score z' = (z_score z)(x := s) \<and> z_handler z' = (z_handler z)(x := f) \<and> z_header z' = z_header z \<and>
    z_mallocs z' = z_mallocs z + 1"
proof -
  have xs: "xs = ls @ rs" by (simp add: ls_def rs_def)
  have base: "zsl_base z (ls @ rs)" using inv xs by (simp add: zsl_inv_def)
  have less: "\<forall>y \<in> set ls. z_score z y < s" by (auto simp: ls_def dest: set_takeWhileD)
  have notless: "\<forall>y \<in> set rs. \<not> z_score z y < s"
  proof
    fix y assume "y \<in> set rs"
    then show "\<not> z_score z y < s"
      unfolding rs_def by (rule dropWhile_sorted [rotated]) (use inv in \<open>simp add: zsl_inv_def\<close>)
  qed
  note search = zsl_search_top [OF base less notless]
  obtain t where l: "0 < l" "l \<le> ZSKIPLIST_MAXLEVEL" and z1: "z1 = z\<lparr>z_draws := t\<rparr>"
    using zslRandomLevel_range [OF draw] by blast
  define upd where "upd = (\<lambda>i. if z_level z \<le> i \<and> i < l then Some (z_header z)
      else if i < z_level z then Some (pred_at z ls i) else None)"
  have upd: "upd i = Some (pred_at z ls i)" if "i < l" for i
  proof (cases "i < z_level z")
    case False
    moreover have "\<forall>y \<in> set ls. z_slots z y \<le> z_level z" using base by (simp add: zsl_base_def)
    ultimately have "lane z ls i = []" by (auto simp: lane_def filter_empty_conv)
    then show ?thesis using False that by (simp add: upd_def pred_at_def)
  qed (simp add: upd_def)
  define z3 where "z3 = (if l > z_level z then z1\<lparr>z_level := l\<rparr> else z1)\<lparr>z_slots := (z_slots z)(x := l),
    z_score := (z_score z)(x := s), z_handler := (z_handler z)(x := f), z_mallocs := z_mallocs z + 1\<rparr>"
  have z3: "z_slots z3 = (z_slots z)(x := l)" "z_forward z3 = z_forward z" by (simp_all add: z3_def z1)
  have "\<forall>j. 0 \<le> j \<and> j < 0 + l \<longrightarrow>
      upd j = Some (pred_at z ls j) \<and> j < z_slots z3 (pred_at z ls j) \<and> j < z_slots z3 x \<and> pred_at z ls j \<noteq> x"
  proof (intro allI impI)
    fix j assume j: "0 \<le> j \<and> j < 0 + l"
    have "j < z_slots z (pred_at z ls j)"
      using pred_at_in [of z ls j] base j l by (auto simp: in_lane zsl_base_def)
    moreover have "pred_at z ls j \<noteq> x" using pred_at_in [of z ls j] x(3) xs by (auto simp: in_lane)
    ultimately show "upd j = Some (pred_at z ls j) \<and> j < z_slots z3 (pred_at z ls j) \<and> j < z_slots z3 x \<and> pred_at z ls j \<noteq> x"
      using j upd by (simp add: z3)
  qed
  note link = zsl_link_spec [OF this, unfolded z3(2)]
  define z4 where "z4 = z3\<lparr>z_forward := \<lambda>y j. if 0 \<le> j \<and> j < 0 + l
     then (if y = x then z_forward z (pred_at z ls j) j else if y = pred_at z ls j then x else z_forward z y j)
     else z_forward z y j\<rparr>"
  define z' where "z' = z4\<lparr>z_length := z_length z4 + 1\<rparr>"
  have "zsl_link x upd 0 l z3 = Some z4" unfolding z4_def by (rule link)
  moreover have "zslInsert rnd mal s f z =
      do { z4 \<leftarrow> zsl_link x upd 0 l z3; Some (x, z4\<lparr>z_length := z_length z4 + 1\<rparr>) }"
    using search draw x(2)
    by (cases "l > z_level z")
      (simp_all add: zslInsert_def zslCreateNode_def z1 upd_def z3_def x(1) [symmetric] Let_def cong: if_cong)
  ultimately have run: "zslInsert rnd mal s f z = Some (x, z')" by (simp add: z'_def)
  have f': "z_header z' = z_header z" "z_slots z' = (z_slots z)(x := l)" "z_level z' = max l (z_level z)"
      "z_score z' = (z_score z)(x := s)" "z_handler z' = (z_handler z)(x := f)" "z_length z' = z_length z + 1"
      "z_mallocs z' = z_mallocs z + 1"
    by (auto simp: z'_def z4_def z3_def z1 max_def)
  have base': "zsl_base z' (ls @ x # rs)"
    by (rule zsl_base_insert [OF base x(2) _ l f'(1-3)]) (use x(3) xs in \<open>auto simp: z'_def z4_def\<close>)
  have "sorted (map (z_score z') (ls @ x # rs))"
  proof -
    have m: "map (z_score z') ls = map (z_score z) ls" "map (z_score z') rs = map (z_score z) rs"
      using x(3) xs by (auto simp: f')
    have "sorted (map (z_score z) ls @ map (z_score z) rs)" using inv xs by (simp add: zsl_inv_def)
    then show ?thesis
      using less notless x(3) xs
      by (auto simp: sorted_append m f'(4) not_less intro: less_imp_le)
  qed
  moreover have "1 < z_level z' \<longrightarrow> (\<exists>y \<in> set (ls @ x # rs). z_slots z' y = z_level z')"
    using inv x(3) xs by (auto simp: f' max_def zsl_inv_def)
  ultimately have "zsl_inv z' (ls @ x # rs)"
    using base' inv xs by (simp add: zsl_inv_def f'(6))
  then show ?thesis using run f' by blast
qed

section \<open>Deletion\<close>

text \<open>Unlinking \<open>x\<close> behind \<open>p j\<close> on the levels it reaches.\<close>

definition unlinked :: "zskiplist \<Rightarrow> nat \<Rightarrow> (nat \<Rightarrow> nat) \<Rightarrow> nat \<Rightarrow> nat \<Rightarrow> zskiplist" where
  "unlinked z x p a b = z\<lparr>z_forward := \<lambda>y j. if a \<le> j \<and> j < b \<and> y = p j \<and> z_forward z y j = x
     then z_forward z x j else z_forward z y j\<rparr>"

lemma unlinked_empty: "b \<le> a \<Longrightarrow> unlinked z x p a b = z"
proof -
  assume "b \<le> a"
  then have "(\<lambda>y j. if a \<le> j \<and> j < b \<and> y = p j \<and> z_forward z y j = x then z_forward z x j else z_forward z y j) = z_forward z"
    by (intro ext) auto
  then show ?thesis by (simp only: unlinked_def) simp
qed

lemma unlinked_fields [simp]:
  "z_header (unlinked z x p a b) = z_header z" "z_slots (unlinked z x p a b) = z_slots z"
  "z_level (unlinked z x p a b) = z_level z" "z_length (unlinked z x p a b) = z_length z"
  "z_score (unlinked z x p a b) = z_score z" "z_handler (unlinked z x p a b) = z_handler z"
  by (simp_all add: unlinked_def)

lemma set_forward_eq:
  "i < z_slots z u \<Longrightarrow> set_forward u i v z =
     Some (z\<lparr>z_forward := \<lambda>y j. if y = u \<and> j = i then v else z_forward z y j\<rparr>)"
  by (auto simp: set_forward_def fun_eq_iff intro!: arg_cong [where f = "\<lambda>u. z\<lparr>z_forward := u\<rparr>"])

text \<open>One level of both deletions.\<close>

lemma unlink_step:
  assumes "i < z_slots z (p i)" "z_forward z (p i) i = x \<Longrightarrow> i < z_slots z x" "p i \<noteq> x"
  shows "do { f \<leftarrow> get_forward z (p i) i;
              (if f = x then do { g \<leftarrow> get_forward z x i; set_forward (p i) i g z } else Some z) } =
         Some (unlinked z x p i (Suc i))"
proof (cases "z_forward z (p i) i = x")
  case True
  have "(\<lambda>y j. if y = p i \<and> j = i then z_forward z x i else z_forward z y j) =
      (\<lambda>y j. if i \<le> j \<and> j < Suc i \<and> y = p j \<and> z_forward z y j = x then z_forward z x j else z_forward z y j)"
    using True by (intro ext) (auto simp: less_Suc_eq)
  then show ?thesis using assms True by (simp add: get_forward_def set_forward_eq unlinked_def)
next
  case False
  then have "(\<lambda>y j. if i \<le> j \<and> j < Suc i \<and> y = p j \<and> z_forward z y j = x then z_forward z x j else z_forward z y j) =
      z_forward z"
    by (intro ext) (auto simp: less_Suc_eq)
  then have "unlinked z x p i (Suc i) = z" by (simp only: unlinked_def) simp
  then show ?thesis using assms False by (simp add: get_forward_def)
qed

lemma unlinked_join:
  assumes "\<forall>j. p j \<noteq> x" "a \<le> b" "b \<le> c"
  shows "unlinked (unlinked z x p a b) x p b c = unlinked z x p a c"
    and "unlinked (unlinked z x p b c) x p a b = unlinked z x p a c"
  using assms by (auto simp: unlinked_def fun_eq_iff intro!: arg_cong [where f = "\<lambda>u. z\<lparr>z_forward := u\<rparr>"])

lemma zsl_unlink_spec:
  "\<forall>j. i \<le> j \<and> j < i + n \<longrightarrow> upd j = Some (p j) \<and> j < z_slots z (p j) \<and>
     (z_forward z (p j) j = x \<longrightarrow> j < z_slots z x) \<Longrightarrow> \<forall>j. p j \<noteq> x \<Longrightarrow>
   zsl_unlink x upd i n z = Some (unlinked z x p i (i + n))"
proof (induction n arbitrary: i z)
  case 0
  then show ?case by (simp add: unlinked_empty)
next
  case (Suc n)
  let ?z = "unlinked z x p i (Suc i)"
  have "zsl_unlink x upd i (Suc n) z = zsl_unlink x upd (Suc i) n ?z"
  proof -
    have "upd i = Some (p i)" using Suc.prems by auto
    then have "zsl_unlink x upd i (Suc n) z = do {
        z1 \<leftarrow> do { f \<leftarrow> get_forward z (p i) i;
              (if f = x then do { g \<leftarrow> get_forward z x i; set_forward (p i) i g z } else Some z) };
        zsl_unlink x upd (Suc i) n z1 }"
      by (simp add: bind_assoc)
    also have "\<dots> = zsl_unlink x upd (Suc i) n ?z"
      by (subst unlink_step) (use Suc.prems in auto)
    finally show ?thesis .
  qed
  moreover have "z_forward ?z (p j) j = z_forward z (p j) j" if "Suc i \<le> j" for j
    using that by (simp add: unlinked_def)
  then have "zsl_unlink x upd (Suc i) n ?z = Some (unlinked ?z x p (Suc i) (Suc i + n))"
    using Suc.prems by (intro Suc.IH) auto
  ultimately show ?case using unlinked_join(1) [OF Suc.prems(2), of i "Suc i" "Suc i + n" z] by simp
qed

lemma zsl_behead_spec:
  "\<forall>j < n. j < z_slots z (z_header z) \<and> (z_forward z (z_header z) j = x \<longrightarrow> j < z_slots z x) \<Longrightarrow>
   z_header z \<noteq> x \<Longrightarrow>
   zsl_behead x n z = Some (unlinked z x (\<lambda>_. z_header z) 0 n)"
proof (induction n arbitrary: z)
  case 0
  then show ?case by (simp add: unlinked_empty)
next
  case (Suc i)
  let ?p = "\<lambda>_::nat. z_header z"
  let ?z = "unlinked z x ?p i (Suc i)"
  have "zsl_behead x (Suc i) z = do {
      z1 \<leftarrow> do { f \<leftarrow> get_forward z (?p i) i;
            (if f = x then do { g \<leftarrow> get_forward z x i; set_forward (?p i) i g z } else Some z) };
      zsl_behead x i z1 }"
    by (simp add: bind_assoc)
  also have "\<dots> = zsl_behead x i ?z"
    by (subst unlink_step) (use Suc.prems in auto)
  also have "\<dots> = Some (unlinked ?z x (\<lambda>_. z_header ?z) 0 i)"
    by (rule Suc.IH) (use Suc.prems in \<open>auto simp: unlinked_def\<close>)
  finally show ?case
    using unlinked_join(2) [of ?p x 0 i "Suc i" z] Suc.prems(2) by simp
qed

lemma pred_at_fresh: "zsl_base z (ls @ x # rs) \<Longrightarrow> pred_at z ls j \<noteq> x"
  using pred_at_in [of z ls j] by (auto simp: zsl_base_def in_lane)

lemma pred_at_slots: "zsl_base z (ls @ rs) \<Longrightarrow> j < ZSKIPLIST_MAXLEVEL \<Longrightarrow> j < z_slots z (pred_at z ls j)"
  using pred_at_in [of z ls j] by (auto simp: zsl_base_def in_lane)

lemma pred_at_next:
  assumes "zsl_base z (ls @ rs)" "j < ZSKIPLIST_MAXLEVEL"
  shows "z_forward z (pred_at z ls j) j = (if lane z rs j = [] then 0 else hd (lane z rs j))"
  using nodes_next [of "\<lambda>x. z_forward z x j" "z_header z" "lane z ls j" "lane z rs j"] lane_nodes [OF assms]
  by (simp only: pred_at_def lane_append)

lemma pred_at_x:
  assumes "zsl_base z (ls @ x # rs)" "j < ZSKIPLIST_MAXLEVEL"
  shows "z_forward z (pred_at z ls j) j = x \<longleftrightarrow> j < z_slots z x"
proof -
  have "x \<noteq> 0" "x \<notin> set rs"
    using zsl_nonzero [OF assms(1)] assms(1) by (auto simp: zsl_base_def)
  then show ?thesis
    using pred_at_next [OF assms] hd_in_set [of "lane z rs j"] by (auto simp: lane_def)
qed

lemma zsl_base_unlink:
  assumes base: "zsl_base z (ls @ x # rs)"
  shows "zsl_base (unlinked z x (pred_at z ls) 0 (z_level z)) (ls @ rs)"
proof -
  let ?z = "unlinked z x (pred_at z ls) 0 (z_level z)"
  have lane: "lane ?z ys i = lane z ys i" for ys i by (simp add: lane_def)
  have "nodes (\<lambda>x. z_forward ?z x i) (z_forward ?z (z_header z) i) (lane z ls i @ lane z rs i)"
    if i: "i < ZSKIPLIST_MAXLEVEL" for i
  proof -
    let ?nx = "\<lambda>x. z_forward z x i"
    have nd: "nodes ?nx (?nx (z_header z)) (lane z ls i @ lane z (x # rs) i)" using lane_nodes [OF base i] by simp
    show ?thesis
    proof (cases "i < z_slots z x")
      case True
      then have lv: "i < z_level z" using base by (auto simp: zsl_base_def)
      have nd': "nodes ?nx (?nx (z_header z)) (lane z ls i @ x # lane z rs i)"
        using nd True by (simp add: lane_def)
      have "distinct (z_header z # lane z ls i @ x # lane z rs i)"
        using base by (auto simp: zsl_base_def lane_def)
      moreover have "(\<lambda>y. z_forward ?z y i) = ?nx(last (z_header z # lane z ls i) := ?nx x)"
        using pred_at_x [OF base i] True lv by (auto simp: unlinked_def pred_at_def fun_eq_iff)
      ultimately show ?thesis by (rule nodes_remove [OF nd'])
    next
      case False
      then have "(\<lambda>y. z_forward ?z y i) = ?nx"
        using pred_at_x [OF base i] by (auto simp: unlinked_def fun_eq_iff)
      moreover have "lane z (x # rs) i = lane z rs i" using False by (simp add: lane_def)
      ultimately show ?thesis using nd by (simp add: fun_eq_iff del: lane_append)
    qed
  qed
  then have "lanes_ok ?z (ls @ rs)" by (simp add: lanes_ok_def lane)
  then show ?thesis using base by (auto simp: zsl_base_def)
qed

lemma zsl_shrink_spec:
  "lanes_ok z xs \<Longrightarrow> z_slots z (z_header z) = ZSKIPLIST_MAXLEVEL \<Longrightarrow> 0 < n \<Longrightarrow> n \<le> ZSKIPLIST_MAXLEVEL \<Longrightarrow>
   \<forall>x \<in> set xs. z_slots z x \<le> n \<Longrightarrow>
   \<exists>l. zsl_shrink n z = Some l \<and> 0 < l \<and> l \<le> n \<and> (\<forall>x \<in> set xs. z_slots z x \<le> l) \<and>
     (1 < l \<longrightarrow> (\<exists>x \<in> set xs. z_slots z x = l))"
proof (induction n)
  case (Suc k)
  show ?case
  proof (cases "k = 0")
    case False
    have nd: "nodes (\<lambda>x. z_forward z x k) (z_forward z (z_header z) k) (lane z xs k)"
      using Suc.prems by (simp add: lanes_ok_def)
    show ?thesis
    proof (cases "lane z xs k = []")
      case True
      then have low: "\<forall>x \<in> set xs. z_slots z x \<le> k" by (auto simp: lane_def filter_empty_conv)
      have "zsl_shrink (Suc k) z = zsl_shrink k z"
        using nd True False Suc.prems by (simp add: get_forward_def)
      then show ?thesis using Suc.IH low Suc.prems False by (auto intro: le_SucI)
    next
      case ne: False
      then have "z_forward z (z_header z) k \<noteq> 0" using nd by (cases "lane z xs k") auto
      moreover obtain x where "x \<in> set xs" "k < z_slots z x" using ne by (auto simp: lane_def filter_empty_conv)
      moreover from this have "z_slots z x = Suc k" using Suc.prems(5) by (simp add: le_antisym Suc_leI)
      ultimately show ?thesis using Suc.prems False by (auto simp: get_forward_def)
    qed
  qed (use Suc.prems in auto)
qed simp

text \<open>What both deletions end with.\<close>

lemma zsl_remove:
  assumes inv: "zsl_inv z (ls @ x # rs)" and z1: "z1 = unlinked z x (pred_at z ls) 0 (z_level z)"
  shows "\<exists>l. zsl_shrink (z_level z1) z1 = Some l \<and>
    zsl_inv (z1\<lparr>z_level := l, z_length := z_length z1 - 1\<rparr>) (ls @ rs)"
proof -
  have base: "zsl_base z1 (ls @ rs)" unfolding z1 using zsl_base_unlink inv by (simp add: zsl_inv_def)
  then obtain l where l: "zsl_shrink (z_level z1) z1 = Some l" "0 < l" "l \<le> z_level z1"
      "\<forall>x \<in> set (ls @ rs). z_slots z1 x \<le> l" "1 < l \<longrightarrow> (\<exists>x \<in> set (ls @ rs). z_slots z1 x = l)"
    using zsl_shrink_spec [of z1 "ls @ rs" "z_level z1"] by (auto simp: zsl_base_def)
  let ?z = "z1\<lparr>z_level := l, z_length := z_length z1 - 1\<rparr>"
  have "lanes_ok ?z (ls @ rs)" using base by (simp add: zsl_base_def lanes_ok_def lane_def)
  then have "zsl_base ?z (ls @ rs)" using base l(2-4) by (simp add: zsl_base_def)
  moreover have "sorted (map (z_score ?z) (ls @ rs))"
    using inv by (auto simp: zsl_inv_def z1 sorted_append)
  moreover have "z_length ?z = int (length (ls @ rs))" using inv by (simp add: zsl_inv_def z1)
  ultimately have "zsl_inv ?z (ls @ rs)" using l(5) by (simp add: zsl_inv_def)
  then show ?thesis using l(1) by blast
qed

lemma zslMin_spec: "zsl_inv z xs \<Longrightarrow> zslMin z = Some (if xs = [] then 0 else hd xs)"
proof -
  assume inv: "zsl_inv z xs"
  have "lane z xs 0 = xs" using inv by (simp add: lane_def zsl_inv_def zsl_base_def)
  then have "nodes (\<lambda>x. z_forward z x 0) (z_forward z (z_header z) 0) xs"
    using lane_nodes [of z xs 0] inv by (simp add: zsl_inv_def ZSKIPLIST_MAXLEVEL_def)
  then show ?thesis
    using inv by (cases xs) (auto simp: zslMin_def get_forward_def zsl_inv_def zsl_base_def ZSKIPLIST_MAXLEVEL_def)
qed

lemma zslDeleteHead_spec:
  assumes inv: "zsl_inv z (x # rs)"
  shows "\<exists>z'. zslDeleteHead z = Some z' \<and> zsl_inv z' rs \<and> z_score z' = z_score z \<and>
    z_handler z' = z_handler z \<and> z_slots z' = z_slots z"
proof -
  have base: "zsl_base z ([] @ x # rs)" using inv by (simp add: zsl_inv_def)
  have p: "pred_at z [] = (\<lambda>_. z_header z)" by (simp add: pred_at_def fun_eq_iff)
  define z1 where "z1 = unlinked z x (pred_at z []) 0 (z_level z)"
  have lv: "z_level z \<le> ZSKIPLIST_MAXLEVEL" and hd: "z_header z \<noteq> x" "z_slots z (z_header z) = ZSKIPLIST_MAXLEVEL"
    using base by (auto simp: zsl_base_def)
  have "zsl_behead x (z_level z) z = Some z1"
    unfolding z1_def p
    by (rule zsl_behead_spec) (use pred_at_x [OF base, unfolded p] lv hd in auto)
  moreover obtain l where "zsl_shrink (z_level z1) z1 = Some l"
      "zsl_inv (z1\<lparr>z_level := l, z_length := z_length z1 - 1\<rparr>) rs"
    using zsl_remove [of z "[]" x rs z1] inv z1_def by auto
  moreover have "x \<noteq> 0"
    using lane_nodes [OF base, of 0] base by (auto simp: zsl_base_def lane_def ZSKIPLIST_MAXLEVEL_def)
  ultimately show ?thesis
    using zslMin_spec [OF inv] by (simp add: zslDeleteHead_def z1_def)
qed

lemma zslDelete_spec:
  assumes inv: "zsl_inv z xs" and zn: "0 < z_slots z zn"
    and ls: "ls = takeWhile (\<lambda>y. z_score z y < z_score z zn) xs" and rs: "rs = dropWhile (\<lambda>y. z_score z y < z_score z zn) xs"
  shows "if rs \<noteq> [] \<and> z_score z (hd rs) = z_score z zn
    then \<exists>z'. zslDelete zn z = Some z' \<and> zsl_inv z' (ls @ tl rs) \<and> z_score z' = z_score z \<and>
           z_handler z' = z_handler z \<and> z_slots z' = (z_slots z)(hd rs := 0)
    else zslDelete zn z = Some z"
proof -
  let ?s = "z_score z zn"
  have xs: "xs = ls @ rs" by (simp add: ls rs)
  have base: "zsl_base z (ls @ rs)" using inv xs by (simp add: zsl_inv_def)
  have less: "\<forall>y \<in> set ls. z_score z y < ?s" by (auto simp: ls dest: set_takeWhileD)
  have notless: "\<forall>y \<in> set rs. \<not> z_score z y < ?s"
  proof
    fix y assume "y \<in> set rs"
    then show "\<not> z_score z y < ?s"
      unfolding rs by (rule dropWhile_sorted [rotated]) (use inv in \<open>simp add: zsl_inv_def\<close>)
  qed
  define upd where "upd = (\<lambda>i. if i < z_level z then Some (pred_at z ls i) else None)"
  have search: "zsl_search z ?s (z_level z) (z_header z) Map.empty = Some (pred_at z ls 0, upd)"
    unfolding upd_def by (rule zsl_search_top [OF base less notless])
  have lv: "z_level z \<le> ZSKIPLIST_MAXLEVEL" using base by (simp add: zsl_base_def)
  have "lane z rs 0 = rs" using base by (simp add: lane_def zsl_base_def)
  then have f0: "get_forward z (pred_at z ls 0) 0 = Some (if rs = [] then 0 else hd rs)"
    using pred_at_next [OF base, of 0] pred_at_slots [OF base, of 0]
    by (simp add: get_forward_def ZSKIPLIST_MAXLEVEL_def)
  show ?thesis
  proof (cases "rs = []")
    case True
    then show ?thesis using zn search f0 by (simp add: zslDelete_def get_score_def)
  next
    case False
    then obtain x rs' where rs': "rs = x # rs'" by (cases rs) auto
    have base': "zsl_base z (ls @ x # rs')" using base rs' by simp
    have x: "0 < z_slots z x" "x \<noteq> 0"
      using base' zsl_nonzero [OF base'] by (auto simp: zsl_base_def)
    show ?thesis
    proof (cases "z_score z x = ?s")
      case True
      define z1 where "z1 = unlinked z x (pred_at z ls) 0 (z_level z)"
      have "zsl_unlink x upd 0 (z_level z) z = Some (unlinked z x (pred_at z ls) 0 (0 + z_level z))"
        by (rule zsl_unlink_spec)
          (use pred_at_x [OF base'] pred_at_slots [OF base'] pred_at_fresh [OF base'] lv in \<open>auto simp: upd_def\<close>)
      then have u: "zsl_unlink x upd 0 (z_level z) z = Some z1" by (simp add: z1_def)
      have inv': "zsl_inv z (ls @ x # rs')" using inv xs rs' by simp
      obtain l where l: "zsl_shrink (z_level z1) z1 = Some l"
          "zsl_inv (z1\<lparr>z_level := l, z_length := z_length z1 - 1\<rparr>) (ls @ rs')"
        using zsl_remove [OF inv' z1_def] by blast
      define z2 where "z2 = z1\<lparr>z_level := l, z_length := z_length z1 - 1\<rparr>"
      define z' where "z' = z2\<lparr>z_slots := (z_slots z2)(x := 0)\<rparr>"
      have "zslDelete zn z = Some z'"
        using zn search f0 True rs' x u l(1)
        by (simp add: zslDelete_def get_score_def zslDeleteNode_def zsl_free_def z2_def [symmetric] z'_def)
          (simp add: z2_def z1_def)
      moreover have x': "x \<notin> set (z_header z2 # ls @ rs')"
        using base' by (auto simp: zsl_base_def z2_def z1_def)
      have "zsl_inv z' (ls @ rs')"
      proof -
        have eq: "lane z' (ls @ rs') i = lane z2 (ls @ rs') i" for i
          unfolding lane_def by (rule filter_cong) (use x' in \<open>auto simp: z'_def\<close>)
        have i2: "zsl_inv z2 (ls @ rs')" using l(2) by (simp add: z2_def)
        then have "lanes_ok z' (ls @ rs')"
          unfolding lanes_ok_def zsl_inv_def zsl_base_def eq by (simp add: z'_def)
        moreover have "1 < z_level z2 \<longrightarrow> (\<exists>y \<in> set (ls @ rs'). z_slots z' y = z_level z2)"
          using i2 x' by (auto simp: z'_def zsl_inv_def)
        ultimately show ?thesis
          using i2 x' unfolding zsl_inv_def zsl_base_def by (auto simp: z'_def)
      qed
      ultimately show ?thesis using rs' True by (simp add: z'_def z2_def z1_def)
    next
      case False
      then show ?thesis using zn search f0 rs' x by (simp add: zslDelete_def get_score_def)
    qed
  qed
qed

end
