(* ===== verification/Timer_Queue.thy ===== *)
theory Timer_Queue
  imports Skiplist_Inv
begin

text \<open>
  The contract both timer programs of \<open>code/timer\<close> rely on: a queue of pending timers in a fixed
  order, whose first element is the next to expire.  The loop of \<open>expire_timer\<close> is analysed once
  inside the locale; the skip list provides the contract (with the timers sorted by time).
\<close>

section \<open>The contract\<close>

locale timer_queue =
  fixes items :: "'s \<Rightarrow> 'n list \<Rightarrow> bool"
    and key :: "'s \<Rightarrow> 'n \<Rightarrow> 'k::linorder"
    and call :: "'s \<Rightarrow> 'n \<Rightarrow> 'c"
    and drop_first :: "'n \<Rightarrow> 's \<Rightarrow> 's option"
    and time :: "'w \<Rightarrow> 'k"
    and expire :: "'w \<Rightarrow> 's \<Rightarrow> ('c list \<times> 's) option"
  assumes expire_empty: "items s [] \<Longrightarrow> expire now s = Some ([], s)"
    and expire_first: "items s (x # xs) \<Longrightarrow> expire now s =
      (if time now < key s x then Some ([], s)
       else do { s1 \<leftarrow> drop_first x s; (cs, s2) \<leftarrow> expire now s1; Some (call s x # cs, s2) })"
    and drop_first: "items s (x # xs) \<Longrightarrow> \<exists>s'. drop_first x s = Some s' \<and> items s' xs \<and>
      (\<forall>y \<in> set xs. key s' y = key s y \<and> call s' y = call s y)"
begin

lemma expire_prefix:
  "items s xs \<Longrightarrow> \<exists>s'. expire now s = Some (map (call s) (takeWhile (\<lambda>x. key s x \<le> time now) xs), s') \<and>
     items s' (dropWhile (\<lambda>x. key s x \<le> time now) xs)"
proof (induction xs arbitrary: s)
  case Nil
  then show ?case by (simp add: expire_empty)
next
  case (Cons x xs)
  show ?case
  proof (cases "time now < key s x")
    case True
    then show ?thesis using Cons.prems by (simp add: expire_first [OF Cons.prems])
  next
    case False
    obtain s1 where s1: "drop_first x s = Some s1" "items s1 xs"
        "\<forall>y \<in> set xs. key s1 y = key s y \<and> call s1 y = call s y"
      using drop_first [OF Cons.prems] by blast
    obtain s2 where s2: "expire now s1 = Some (map (call s1) (takeWhile (\<lambda>x. key s1 x \<le> time now) xs), s2)"
        "items s2 (dropWhile (\<lambda>x. key s1 x \<le> time now) xs)"
      using Cons.IH [OF s1(2)] by blast
    have tw: "takeWhile (\<lambda>x. key s1 x \<le> time now) xs = takeWhile (\<lambda>x. key s x \<le> time now) xs"
      and dw: "dropWhile (\<lambda>x. key s1 x \<le> time now) xs = dropWhile (\<lambda>x. key s x \<le> time now) xs"
      using s1(3) by (auto intro: takeWhile_cong dropWhile_cong)
    have "map (call s1) (takeWhile (\<lambda>x. key s x \<le> time now) xs) = map (call s) (takeWhile (\<lambda>x. key s x \<le> time now) xs)"
      using s1(3) by (auto dest: set_takeWhileD)
    then show ?thesis using s1(1) s2 False tw dw by (simp add: expire_first [OF Cons.prems])
  qed
qed

end

text \<open>A queue whose order is the order of the times.\<close>

locale sorted_timer_queue = timer_queue +
  assumes sorted_items: "items s xs \<Longrightarrow> sorted (map (key s) xs)"
begin

lemma expire_due:
  assumes "items s xs"
  shows "\<exists>s'. expire now s = Some (map (call s) (filter (\<lambda>x. key s x \<le> time now) xs), s') \<and>
     items s' (filter (\<lambda>x. time now < key s x) xs)"
proof -
  have "sorted (map (key s) xs) \<Longrightarrow> takeWhile (\<lambda>x. key s x \<le> time now) xs = filter (\<lambda>x. key s x \<le> time now) xs \<and>
      dropWhile (\<lambda>x. key s x \<le> time now) xs = filter (\<lambda>x. time now < key s x) xs"
  proof (induction xs)
    case (Cons x xs)
    have "filter (\<lambda>y. key s y \<le> time now) xs = [] \<and> filter (\<lambda>y. time now < key s y) xs = xs" if "time now < key s x"
      using Cons.prems that by (auto simp: filter_empty_conv filter_id_conv)
    then show ?case using Cons by auto
  qed simp
  then show ?thesis using expire_prefix [OF assms, of now] sorted_items [OF assms] by simp
qed

end

section \<open>The skip list keeps the contract\<close>

lemma sl_expire_step:
  assumes inv: "zsl_inv z xs"
  shows "sl_expire_timer now z = (case xs of [] \<Rightarrow> Some ([], z) | x # _ \<Rightarrow>
     if ucast now < z_score z x then Some ([], z)
     else do { z1 \<leftarrow> zslDeleteHead z; (cs, z2) \<leftarrow> sl_expire_timer now z1; Some ((z_handler z x, x) # cs, z2) })"
proof (cases xs)
  case Nil
  then show ?thesis using zslMin_spec [OF inv] by (subst sl_expire_timer.simps) simp
next
  case (Cons x rs)
  have "x \<noteq> 0" "0 < z_slots z x"
    using inv zsl_nonzero [of z xs] Cons by (auto simp: zsl_inv_def zsl_base_def)
  then show ?thesis using zslMin_spec [OF inv] Cons by (subst sl_expire_timer.simps) (simp add: get_score_def)
qed

interpretation sl: sorted_timer_queue zsl_inv z_score "\<lambda>z x. (z_handler z x, x)"
  "\<lambda>_. zslDeleteHead" "ucast :: u32 \<Rightarrow> u64" sl_expire_timer
proof unfold_locales
  fix z :: zskiplist and x :: nat and xs :: "nat list" and now :: u32
  show "zsl_inv z [] \<Longrightarrow> sl_expire_timer now z = Some ([], z)"
    using sl_expire_step [of z "[]" now] by simp
  show "zsl_inv z (x # xs) \<Longrightarrow> sl_expire_timer now z =
      (if ucast now < z_score z x then Some ([], z)
       else do { s1 \<leftarrow> zslDeleteHead z; (cs, s2) \<leftarrow> sl_expire_timer now s1; Some ((z_handler z x, x) # cs, s2) })"
    using sl_expire_step [of z "x # xs" now] by simp
  show "zsl_inv z (x # xs) \<Longrightarrow> \<exists>s'. zslDeleteHead z = Some s' \<and> zsl_inv s' xs \<and>
      (\<forall>y \<in> set xs. z_score s' y = z_score z y \<and> (z_handler s' y, y) = (z_handler z y, y))"
    using zslDeleteHead_spec [of z x xs] by auto
  show "zsl_inv z xs \<Longrightarrow> sorted (map (z_score z) xs)" by (simp add: zsl_inv_def)
qed

section \<open>Creating and freeing\<close>

lemma clear_forward_spec:
  "j + n \<le> z_slots z x \<Longrightarrow> \<exists>z'. clear_forward x j n z = Some z' \<and>
     (\<forall>i. j \<le> i \<and> i < j + n \<longrightarrow> z_forward z' x i = 0) \<and> (\<forall>i. i < j \<longrightarrow> z_forward z' x i = z_forward z x i) \<and>
     z_header z' = z_header z \<and> z_length z' = z_length z \<and> z_level z' = z_level z \<and> z_slots z' = z_slots z \<and>
     z_mallocs z' = z_mallocs z \<and> z_draws z' = z_draws z"
proof (induction n arbitrary: j z)
  case (Suc n)
  let ?z = "z\<lparr>z_forward := \<lambda>y k. if y = x \<and> k = j then 0 else z_forward z y k\<rparr>"
  have "clear_forward x j (Suc n) z = clear_forward x (Suc j) n ?z"
    using Suc.prems by (simp add: set_forward_eq)
  moreover obtain z' where z': "clear_forward x (Suc j) n ?z = Some z'"
      "\<forall>i. Suc j \<le> i \<and> i < Suc j + n \<longrightarrow> z_forward z' x i = 0"
      "\<forall>i. i < Suc j \<longrightarrow> z_forward z' x i = z_forward ?z x i"
      "z_header z' = z_header z" "z_length z' = z_length z" "z_level z' = z_level z" "z_slots z' = z_slots z"
      "z_mallocs z' = z_mallocs z" "z_draws z' = z_draws z"
    using Suc.IH [of "Suc j" ?z] Suc.prems by auto
  moreover have "z_forward z' x i = 0" if "j \<le> i \<and> i < j + Suc n" for i
    using z'(2,3) that by (cases "i = j") auto
  ultimately show ?case by auto
qed auto

lemma zslCreate_spec:
  assumes "mal (z_mallocs z0) \<noteq> 0"
  shows "\<exists>z. zslCreate mal z0 = Some z \<and> zsl_inv z [] \<and> z_header z = mal (z_mallocs z0) \<and>
    z_mallocs z = z_mallocs z0 + 1 \<and> z_draws z = z_draws z0"
proof -
  let ?h = "mal (z_mallocs z0)"
  define z1 where "z1 = z0\<lparr>z_level := 1, z_length := 0, z_slots := (z_slots z0)(?h := ZSKIPLIST_MAXLEVEL),
    z_score := (z_score z0)(?h := 0), z_handler := (z_handler z0)(?h := 0), z_mallocs := z_mallocs z0 + 1, z_header := ?h\<rparr>"
  have "zslCreate mal z0 = clear_forward ?h 0 ZSKIPLIST_MAXLEVEL z1"
    using assms by (simp add: zslCreate_def zslCreateNode_def z1_def Let_def)
  moreover obtain z where z: "clear_forward ?h 0 ZSKIPLIST_MAXLEVEL z1 = Some z"
      "\<forall>i. i < ZSKIPLIST_MAXLEVEL \<longrightarrow> z_forward z ?h i = 0"
      "z_header z = ?h" "z_length z = 0" "z_level z = 1" "z_slots z ?h = ZSKIPLIST_MAXLEVEL"
      "z_mallocs z = z_mallocs z0 + 1" "z_draws z = z_draws z0"
    using clear_forward_spec [of 0 ZSKIPLIST_MAXLEVEL z1 ?h] by (auto simp: z1_def)
  moreover have "zsl_inv z []"
    using z assms by (simp add: zsl_inv_def zsl_base_def lanes_ok_def ZSKIPLIST_MAXLEVEL_def)
  ultimately show ?thesis by auto
qed

lemma zslFree_loop_spec:
  "nodes (\<lambda>x. z_forward z x 0) n xs \<Longrightarrow> \<forall>x \<in> set xs. 0 < z_slots z x \<Longrightarrow>
   zslFree_loop n z = Some (z\<lparr>z_slots := \<lambda>x. if x \<in> set xs then 0 else z_slots z x\<rparr>)"
proof (induction xs arbitrary: n z)
  case Nil
  then show ?case by (subst zslFree_loop.simps) simp
next
  case (Cons x xs)
  let ?z = "z\<lparr>z_slots := (z_slots z)(x := 0)\<rparr>"
  have x: "n = x" "x \<noteq> 0" "x \<notin> set xs" using Cons.prems(1) nodes_distinct [of _ n "x # xs"] by auto
  have "zslFree_loop n z = zslFree_loop (z_forward z x 0) ?z"
    using Cons.prems(2) x by (subst zslFree_loop.simps) (simp add: get_forward_def zsl_free_def)
  moreover have "zslFree_loop (z_forward z x 0) ?z =
      Some (?z\<lparr>z_slots := \<lambda>y. if y \<in> set xs then 0 else z_slots ?z y\<rparr>)"
    by (rule Cons.IH) (use Cons.prems x in auto)
  moreover have "(\<lambda>y. if y \<in> set xs then 0 else z_slots ?z y) = (\<lambda>y. if y \<in> set (x # xs) then 0 else z_slots z y)"
    by auto
  ultimately show ?case by simp
qed

lemma zslFree_spec:
  assumes "zsl_inv z xs"
  shows "zslFree z = Some (z\<lparr>z_slots := \<lambda>x. if x \<in> set (z_header z # xs) then 0 else z_slots z x\<rparr>)"
proof -
  have base: "zsl_base z xs" using assms by (simp add: zsl_inv_def)
  let ?z = "z\<lparr>z_slots := (z_slots z)(z_header z := 0)\<rparr>"
  have "nodes (\<lambda>x. z_forward ?z x 0) (z_forward z (z_header z) 0) xs"
    using lane_nodes [OF base, of 0] lane_0 [OF base] by (simp add: ZSKIPLIST_MAXLEVEL_def)
  then have "zslFree_loop (z_forward z (z_header z) 0) ?z =
      Some (?z\<lparr>z_slots := \<lambda>x. if x \<in> set xs then 0 else z_slots ?z x\<rparr>)"
    by (rule zslFree_loop_spec) (use base in \<open>auto simp: zsl_base_def\<close>)
  moreover have "(\<lambda>x. if x \<in> set xs then 0 else z_slots ?z x) =
      (\<lambda>x. if x \<in> set (z_header z # xs) then 0 else z_slots z x)"
    by auto
  ultimately show ?thesis
    using base by (simp add: zslFree_def get_forward_def zsl_free_def zsl_base_def ZSKIPLIST_MAXLEVEL_def)
qed

lemma random_loop_ends: "\<not> another_level (rnd (t + k)) \<Longrightarrow> \<exists>y. random_loop rnd t l = Some y"
proof (induction k arbitrary: t l)
  case 0
  then show ?case by (subst random_loop.simps) simp
next
  case (Suc k)
  then show ?case using Suc.IH [of "t + 1" "l + 1"] by (subst random_loop.simps) simp
qed

lemma zslRandomLevel_ends:
  "\<not> another_level (rnd (z_draws z + k)) \<Longrightarrow> \<exists>l z1. zslRandomLevel rnd z = Some (l, z1)"
  using random_loop_ends [of rnd "z_draws z" k 1] by (auto simp: zslRandomLevel_def)

end
