(* ===== verification/Sl_Timer.thy ===== *)
theory Sl_Timer
  imports Timer_Queue
begin

text \<open>Properties of the skip list and of the timer built on it (\<open>sl-timer.c\<close>).\<close>

section \<open>A list with timers\<close>

text \<open>An allocator that never reuses memory and a random source that always stops at one level.\<close>

definition sample_mal :: "nat \<Rightarrow> nat" where "sample_mal n = 16 * (n + 1)"

definition sample_rnd :: "nat \<Rightarrow> u32" where "sample_rnd n = 0xFFFF"

definition sample_zsl :: zskiplist where
  "sample_zsl = \<lparr>z_header = 0, z_length = 0, z_level = 0, z_forward = \<lambda>_ _. 0, z_slots = \<lambda>_. 0,
     z_score = \<lambda>_. 0, z_handler = \<lambda>_. 0, z_mallocs = 0, z_draws = 0\<rparr>"

lemma sample_rnd_stops: "\<not> another_level (sample_rnd n)"
  by (simp add: another_level_def sample_rnd_def)

lemma sample_create:
  "\<exists>z. zslCreate sample_mal sample_zsl = Some z \<and> zsl_inv z [] \<and> z_header z = 16 \<and> z_mallocs z = 1"
proof -
  have "sample_mal (z_mallocs sample_zsl) = 16" "z_mallocs sample_zsl = 0" by (simp_all add: sample_mal_def sample_zsl_def)
  then show ?thesis using zslCreate_spec [of sample_mal sample_zsl] by auto
qed

lemma insert_gen:
  assumes "zsl_inv z xs" and "mal (z_mallocs z) \<notin> insert 0 (set (z_header z # xs))"
    and "\<not> another_level (rnd (z_draws z + k))"
  shows "\<exists>z'. zslInsert rnd mal s f z = Some (mal (z_mallocs z), z') \<and>
    zsl_inv z' (takeWhile (\<lambda>y. z_score z y < s) xs @ mal (z_mallocs z) # dropWhile (\<lambda>y. z_score z y < s) xs) \<and>
    z_score z' = (z_score z)(mal (z_mallocs z) := s) \<and> z_handler z' = (z_handler z)(mal (z_mallocs z) := f) \<and>
    z_header z' = z_header z \<and> z_mallocs z' = z_mallocs z + 1"
proof -
  obtain l z1 where "zslRandomLevel rnd z = Some (l, z1)" using zslRandomLevel_ends [of rnd z k] assms(3) by blast
  then show ?thesis using zslInsert_spec [OF assms(1) refl, of mal rnd l z1 s f] assms(2) by auto
qed

lemma takeWhile_less_hd:
  assumes "sorted (map f xs)" "x \<in> set xs" "f x = (s::'a::linorder)"
  shows "\<exists>y ys. dropWhile (\<lambda>y. f y < s) xs = y # ys \<and> f y = s \<and> hd (filter (\<lambda>y. f y = s) xs) = y \<and>
    takeWhile (\<lambda>y. f y < s) xs @ ys = remove1 y xs"
  using assms
proof (induction xs)
  case (Cons z zs)
  show ?case
  proof (cases "f z < s")
    case True
    then have "x \<in> set zs" using Cons.prems by auto
    then obtain y ys where y: "dropWhile (\<lambda>y. f y < s) zs = y # ys" "f y = s" "hd (filter (\<lambda>y. f y = s) zs) = y"
        "takeWhile (\<lambda>y. f y < s) zs @ ys = remove1 y zs"
      using Cons.IH Cons.prems by auto
    moreover have "z \<noteq> y" using y(2) True by auto
    ultimately show ?thesis using True by auto
  next
    case False
    then have "f z = s" using Cons.prems by auto
    then show ?thesis by auto
  qed
qed simp

section \<open>Properties\<close>

text \<open>C17: inserting returns (when the random source ever stops), the new node has the given score
  and handler, and the list is the old one with the new node in front of the first node whose score is
  not smaller: the list stays sorted on every level and nothing is lost.\<close>

theorem zslInsert_sorted:
  assumes "zsl_inv z xs" and "mal (z_mallocs z) \<notin> insert 0 (set (z_header z # xs))"
    and "\<not> another_level (rnd (z_draws z + k))"
  shows "\<exists>x z'. zslInsert rnd mal s f z = Some (x, z') \<and> z_score z' x = s \<and> z_handler z' x = f \<and>
    zsl_inv z' (takeWhile (\<lambda>y. z_score z y < s) xs @ x # dropWhile (\<lambda>y. z_score z y < s) xs)"
proof -
  obtain z' where "zslInsert rnd mal s f z = Some (mal (z_mallocs z), z')"
      "zsl_inv z' (takeWhile (\<lambda>y. z_score z y < s) xs @ mal (z_mallocs z) # dropWhile (\<lambda>y. z_score z y < s) xs)"
      "z_score z' = (z_score z)(mal (z_mallocs z) := s)" "z_handler z' = (z_handler z)(mal (z_mallocs z) := f)"
    using insert_gen [of z xs mal rnd k s f] assms by blast
  then show ?thesis by (intro exI [of _ "mal (z_mallocs z)"] exI [of _ z']) simp
qed

lemma zslInsert_sorted_witness:
  "\<exists>z x z'. zslCreate sample_mal sample_zsl = Some z \<and> zslInsert sample_rnd sample_mal 3010 7 z = Some (x, z') \<and>
     z_score z' x = 3010 \<and> zsl_inv z' [x]"
proof -
  obtain z where z: "zslCreate sample_mal sample_zsl = Some z" "zsl_inv z []" "z_header z = 16" "z_mallocs z = 1"
    using sample_create by blast
  then show ?thesis
    using zslInsert_sorted [OF z(2), of sample_mal sample_rnd 0 3010 7] sample_rnd_stops
    by (auto simp: sample_mal_def)
qed

text \<open>Deleting a node of the list removes and frees the first node with the same score, and keeps
  the list sorted on every level.  When an equal score stands in front of it, the node that was asked for
  stays in the list and another one is freed.\<close>

theorem zslDelete_first_equal:
  assumes "zsl_inv z xs" and "zn \<in> set xs"
  shows "\<exists>x z'. x = hd (filter (\<lambda>y. z_score z y = z_score z zn) xs) \<and> zslDelete zn z = Some z' \<and>
    zsl_inv z' (remove1 x xs) \<and> z_slots z' x = 0 \<and> (x \<noteq> zn \<longrightarrow> zn \<in> set (remove1 x xs) \<and> 0 < z_slots z' zn)"
proof -
  let ?s = "z_score z zn"
  have "sorted (map (z_score z) xs)" using assms(1) by (simp add: zsl_inv_def)
  from takeWhile_less_hd [OF this assms(2) refl] obtain x ys where x:
      "dropWhile (\<lambda>y. z_score z y < ?s) xs = x # ys" "z_score z x = ?s"
      "hd (filter (\<lambda>y. z_score z y = ?s) xs) = x" "takeWhile (\<lambda>y. z_score z y < ?s) xs @ ys = remove1 x xs"
    by blast
  have zn: "0 < z_slots z zn" using assms by (auto simp: zsl_inv_def zsl_base_def)
  obtain z' where z': "zslDelete zn z = Some z'" "zsl_inv z' (remove1 x xs)" "z_slots z' = (z_slots z)(x := 0)"
    using zslDelete_spec [OF assms(1) zn refl refl] x by auto
  then show ?thesis using x(3) zn assms(2) by auto
qed

lemma zslDelete_first_equal_witness:
  "\<exists>z a z1 b z2 z3. zslCreate sample_mal sample_zsl = Some z \<and>
     zslInsert sample_rnd sample_mal 5 7 z = Some (a, z1) \<and>
     zslInsert sample_rnd sample_mal 5 8 z1 = Some (b, z2) \<and> a \<noteq> b \<and>
     zslDelete a z2 = Some z3 \<and> z_slots z3 b = 0 \<and> zsl_inv z3 [a]"
proof -
  obtain z where z: "zslCreate sample_mal sample_zsl = Some z" "zsl_inv z []" "z_header z = 16" "z_mallocs z = 1"
    using sample_create by blast
  obtain z1 where z1: "zslInsert sample_rnd sample_mal 5 7 z = Some (32, z1)" "zsl_inv z1 [32]" "z_score z1 32 = 5"
      "z_mallocs z1 = 2" "z_header z1 = 16"
    using insert_gen [OF z(2), of sample_mal sample_rnd 0 5 7] sample_rnd_stops z by (auto simp: sample_mal_def)
  obtain z2 where z2: "zslInsert sample_rnd sample_mal 5 8 z1 = Some (48, z2)" "zsl_inv z2 [48, 32]" "z_score z2 32 = 5" "z_score z2 48 = 5"
    using insert_gen [OF z1(2), of sample_mal sample_rnd 0 5 8] sample_rnd_stops z1 by (auto simp: sample_mal_def)
  obtain z3 where z3: "zslDelete 32 z2 = Some z3" "zsl_inv z3 [32]" "z_slots z3 48 = 0"
    using zslDelete_first_equal [OF z2(2), of 32] z2(3,4) by auto
  show ?thesis
    by (rule exI [of _ z], rule exI [of _ 32], rule exI [of _ z1], rule exI [of _ 48], rule exI [of _ z2], rule exI [of _ z3])
      (use z z1 z2 z3 in auto)
qed

text \<open>C18: \<open>expire_timer\<close> runs the handlers of exactly the timers that are due, in the order of
  their times, and the list that remains holds exactly the others.\<close>

theorem sl_expire_runs_due:
  assumes "zsl_inv z xs"
  shows "\<exists>z'. sl_expire_timer now z =
      Some (map (\<lambda>x. (z_handler z x, x)) (filter (\<lambda>x. z_score z x \<le> ucast now) xs), z') \<and>
    zsl_inv z' (filter (\<lambda>x. ucast now < z_score z x) xs)"
  by (rule sl.expire_due [OF assms])

lemma sl_expire_runs_due_witness:
  "\<exists>z z1 z'. zslCreate sample_mal sample_zsl = Some z \<and>
     zslInsert sample_rnd sample_mal 5 7 z = Some (32, z1) \<and> sl_expire_timer 6 z1 = Some ([(7, 32)], z') \<and> zsl_inv z' []"
proof -
  obtain z where z: "zslCreate sample_mal sample_zsl = Some z" "zsl_inv z []" "z_header z = 16" "z_mallocs z = 1"
    using sample_create by blast
  obtain z1 where z1: "zslInsert sample_rnd sample_mal 5 7 z = Some (32, z1)" "zsl_inv z1 [32]" "z_score z1 32 = 5"
      "z_handler z1 32 = 7"
    using insert_gen [OF z(2), of sample_mal sample_rnd 0 5 7] sample_rnd_stops z by (auto simp: sample_mal_def)
  then show ?thesis using sl_expire_runs_due [OF z1(2), of 6] z(1) by auto
qed

text \<open>Freeing a list ends, and releases the header and every node, each once.\<close>

theorem zslFree_releases:
  assumes "zsl_inv z xs"
  shows "\<exists>z'. zslFree z = Some z' \<and>
    (\<forall>x. z_slots z' x = (if x \<in> set (z_header z # xs) then 0 else z_slots z x))"
  using zslFree_spec [OF assms] by auto

lemma zslFree_releases_witness:
  "\<exists>z z'. zslCreate sample_mal sample_zsl = Some z \<and> zslFree z = Some z' \<and> z_slots z' 16 = 0"
proof -
  obtain z where z: "zslCreate sample_mal sample_zsl = Some z" "zsl_inv z []" "z_header z = 16"
    using sample_create by blast
  then show ?thesis using zslFree_releases [OF z(2)] by auto
qed

text \<open>The time of a timer wraps with the 32-bit clock but the comparison does not: a timer added
  to an empty list expires at once, at the very clock reading at which it was added, exactly when its
  delay crosses the end of the clock's range or is zero.\<close>

theorem sl_timer_wraps:
  assumes "zsl_inv z []" and "mal (z_mallocs z) \<notin> {0, z_header z}"
    and "\<not> another_level (rnd (z_draws z + k))"
  shows "\<exists>x z1 calls z2. sl_add_timer rnd mal now msec f z = Some (x, z1) \<and>
    sl_expire_timer now z1 = Some (calls, z2) \<and>
    calls = (if 2 ^ 32 \<le> uint now + uint msec \<or> msec = 0 then [(f, x)] else [])"
proof -
  let ?x = "mal (z_mallocs z)" and ?s = "ucast (msec + now) :: u64"
  obtain z1 where z1: "zslInsert rnd mal ?s f z = Some (?x, z1)" "zsl_inv z1 [?x]"
      "z_score z1 ?x = ?s" "z_handler z1 ?x = f"
    using insert_gen [of z "[]" mal rnd k ?s f] assms by auto
  obtain z2 where z2: "sl_expire_timer now z1 = Some (map (\<lambda>x. (z_handler z1 x, x)) (filter (\<lambda>x. z_score z1 x \<le> ucast now) [?x]), z2)"
    using sl.expire_due [OF z1(2), of now] by blast
  have "?s \<le> ucast now \<longleftrightarrow> uint (msec + now) \<le> uint now"
    by (simp add: word_le_def uint_up_ucast is_up)
  also have "\<dots> \<longleftrightarrow> (uint msec + uint now) mod 2 ^ 32 \<le> uint now" by (simp add: uint_word_ariths)
  also have "\<dots> \<longleftrightarrow> 2 ^ 32 \<le> uint now + uint msec \<or> msec = 0"
  proof (cases "uint now + uint msec < 2 ^ 32")
    case True
    then have "(uint msec + uint now) mod 2 ^ 32 = uint msec + uint now" by (simp add: add.commute)
    moreover have "uint msec \<le> 0 \<longleftrightarrow> msec = 0" using uint_0_iff [of msec] uint_ge_0 [of msec] by linarith
    ultimately show ?thesis using True by simp
  next
    case False
    have "uint now < 2 ^ 32" "uint msec < 2 ^ 32" using uint_lt2p [of now] uint_lt2p [of msec] by simp_all
    then have "(uint msec + uint now - 2 ^ 32) mod 2 ^ 32 = uint msec + uint now - 2 ^ 32"
      using False by (intro mod_pos_pos_trivial) simp_all
    then have "(uint msec + uint now) mod 2 ^ 32 = uint msec + uint now - 2 ^ 32" by (simp only: minus_mod_self2)
    then show ?thesis using False \<open>uint msec < 2 ^ 32\<close> by simp
  qed
  finally show ?thesis using z1 z2 by (auto simp: sl_add_timer_def)
qed

lemma sl_timer_wraps_witness:
  "\<exists>z x z1 z2. zslCreate sample_mal sample_zsl = Some z \<and>
     sl_add_timer sample_rnd sample_mal 4294967000 3000 7 z = Some (x, z1) \<and>
     sl_expire_timer 4294967000 z1 = Some ([(7, x)], z2)"
proof -
  obtain z where z: "zslCreate sample_mal sample_zsl = Some z" "zsl_inv z []" "z_header z = 16" "z_mallocs z = 1"
    using sample_create by blast
  have "sample_mal (z_mallocs z) \<notin> {0, z_header z}" by (simp add: z sample_mal_def)
  then show ?thesis
    using sl_timer_wraps [OF z(2), of sample_mal sample_rnd 0 4294967000 3000 7] sample_rnd_stops z(1) by fastforce
qed

end
