(* ===== verification/Rbtree.thy ===== *)
theory Rbtree
  imports Cvip_Prelude
begin

text \<open>
  The red-black tree of the timer, \<open>code/timer/rbtree.c\<close> and \<open>rbtree.h\<close>, as the code has
  it: nodes in a heap with \<open>left\<close>, \<open>right\<close> and \<open>parent\<close> pointers, a colour and a
  key, and a sentinel node for every missing child (whose \<open>parent\<close> field the deletion uses).  An
  address is a natural number, \<open>NULL\<close> is 0; the heap has one map per field, and an assignment to
  a field is an update of its map, in the order of the source.  A loop is a
  \<open>partial_function\<close>: \<open>None\<close> is a loop that does not end.
\<close>

type_synonym addr = nat

abbreviation NULL :: addr where "NULL \<equiv> 0"

record rbheap =
  rb_key :: "addr \<Rightarrow> u32"
  rb_left :: "addr \<Rightarrow> addr"
  rb_right :: "addr \<Rightarrow> addr"
  rb_parent :: "addr \<Rightarrow> addr"
  rb_color :: "addr \<Rightarrow> u8"
  rb_root :: addr

section \<open>Field assignments\<close>

definition set_left :: "addr \<Rightarrow> addr \<Rightarrow> rbheap \<Rightarrow> rbheap" where
  "set_left a v h = h\<lparr>rb_left := (rb_left h)(a := v)\<rparr>"

definition set_right :: "addr \<Rightarrow> addr \<Rightarrow> rbheap \<Rightarrow> rbheap" where
  "set_right a v h = h\<lparr>rb_right := (rb_right h)(a := v)\<rparr>"

definition set_parent :: "addr \<Rightarrow> addr \<Rightarrow> rbheap \<Rightarrow> rbheap" where
  "set_parent a v h = h\<lparr>rb_parent := (rb_parent h)(a := v)\<rparr>"

definition set_color :: "addr \<Rightarrow> u8 \<Rightarrow> rbheap \<Rightarrow> rbheap" where
  "set_color a v h = h\<lparr>rb_color := (rb_color h)(a := v)\<rparr>"

definition set_key :: "addr \<Rightarrow> u32 \<Rightarrow> rbheap \<Rightarrow> rbheap" where
  "set_key a v h = h\<lparr>rb_key := (rb_key h)(a := v)\<rparr>"

definition set_root :: "addr \<Rightarrow> rbheap \<Rightarrow> rbheap" where
  "set_root v h = h\<lparr>rb_root := v\<rparr>"

lemmas set_defs = set_left_def set_right_def set_parent_def set_color_def set_key_def set_root_def

definition ngx_rbt_red :: "addr \<Rightarrow> rbheap \<Rightarrow> rbheap" where
  "ngx_rbt_red a h = set_color a 1 h"

definition ngx_rbt_black :: "addr \<Rightarrow> rbheap \<Rightarrow> rbheap" where
  "ngx_rbt_black a h = set_color a 0 h"

definition ngx_rbt_is_red :: "rbheap \<Rightarrow> addr \<Rightarrow> bool" where
  "ngx_rbt_is_red h a \<longleftrightarrow> rb_color h a \<noteq> 0"

definition ngx_rbt_is_black :: "rbheap \<Rightarrow> addr \<Rightarrow> bool" where
  "ngx_rbt_is_black h a \<longleftrightarrow> \<not> ngx_rbt_is_red h a"

definition ngx_rbt_copy_color :: "addr \<Rightarrow> addr \<Rightarrow> rbheap \<Rightarrow> rbheap" where
  "ngx_rbt_copy_color a b h = set_color a (rb_color h b) h"

definition ngx_rbtree_init :: "addr \<Rightarrow> rbheap \<Rightarrow> rbheap" where
  "ngx_rbtree_init s h = set_root s (ngx_rbt_black s h)"

section \<open>Rotations\<close>

definition ngx_rbtree_left_rotate :: "addr \<Rightarrow> addr \<Rightarrow> rbheap \<Rightarrow> rbheap" where
  "ngx_rbtree_left_rotate s node h =
     (let temp = rb_right h node;
          h1 = set_right node (rb_left h temp) h;
          h2 = (if rb_left h1 temp \<noteq> s then set_parent (rb_left h1 temp) node h1 else h1);
          h3 = set_parent temp (rb_parent h2 node) h2;
          h4 = (if node = rb_root h3 then set_root temp h3
                else if node = rb_left h3 (rb_parent h3 node) then set_left (rb_parent h3 node) temp h3
                else set_right (rb_parent h3 node) temp h3);
          h5 = set_left temp node h4
      in set_parent node temp h5)"

definition ngx_rbtree_right_rotate :: "addr \<Rightarrow> addr \<Rightarrow> rbheap \<Rightarrow> rbheap" where
  "ngx_rbtree_right_rotate s node h =
     (let temp = rb_left h node;
          h1 = set_left node (rb_right h temp) h;
          h2 = (if rb_right h1 temp \<noteq> s then set_parent (rb_right h1 temp) node h1 else h1);
          h3 = set_parent temp (rb_parent h2 node) h2;
          h4 = (if node = rb_root h3 then set_root temp h3
                else if node = rb_right h3 (rb_parent h3 node) then set_right (rb_parent h3 node) temp h3
                else set_left (rb_parent h3 node) temp h3);
          h5 = set_right temp node h4
      in set_parent node temp h5)"

section \<open>Insertion\<close>

text \<open>The comparisons of the two insert callbacks: is \<open>node->key\<close> left of \<open>temp->key\<close>?\<close>

definition key_lt :: "u32 \<Rightarrow> u32 \<Rightarrow> bool" where
  "key_lt k t \<longleftrightarrow> k < t"

definition timer_lt :: "u32 \<Rightarrow> u32 \<Rightarrow> bool" where
  "timer_lt k t \<longleftrightarrow> sint (k - t) < 0"

text \<open>The descent: the last node and whether the new one goes to its left.\<close>

partial_function (option) insert_descend ::
  "(u32 \<Rightarrow> u32 \<Rightarrow> bool) \<Rightarrow> rbheap \<Rightarrow> addr \<Rightarrow> addr \<Rightarrow> addr \<Rightarrow> (addr \<times> bool) option" where
  "insert_descend lt h s node temp =
     (let goleft = lt (rb_key h node) (rb_key h temp);
          p = (if goleft then rb_left h temp else rb_right h temp)
      in if p = s then Some (temp, goleft) else insert_descend lt h s node p)"

definition insert_at :: "(u32 \<Rightarrow> u32 \<Rightarrow> bool) \<Rightarrow> addr \<Rightarrow> addr \<Rightarrow> addr \<Rightarrow> rbheap \<Rightarrow> rbheap option" where
  "insert_at lt temp node s h =
     (case insert_descend lt h s node temp of
        None \<Rightarrow> None
      | Some (t, goleft) \<Rightarrow>
          let h1 = (if goleft then set_left t node h else set_right t node h);
              h2 = set_parent node t h1;
              h3 = set_left node s h2;
              h4 = set_right node s h3
          in Some (ngx_rbt_red node h4))"

definition ngx_rbtree_insert_value :: "addr \<Rightarrow> addr \<Rightarrow> addr \<Rightarrow> rbheap \<Rightarrow> rbheap option" where
  "ngx_rbtree_insert_value = insert_at key_lt"

definition ngx_rbtree_insert_timer_value :: "addr \<Rightarrow> addr \<Rightarrow> addr \<Rightarrow> rbheap \<Rightarrow> rbheap option" where
  "ngx_rbtree_insert_timer_value = insert_at timer_lt"

text \<open>One iteration of the rebalancing loop, and the loop.\<close>

definition insert_fix_step :: "addr \<Rightarrow> addr \<Rightarrow> rbheap \<Rightarrow> addr \<times> rbheap" where
  "insert_fix_step s node h =
     (let g = rb_parent h (rb_parent h node) in
      if rb_parent h node = rb_left h g then
        let temp = rb_right h g in
        if ngx_rbt_is_red h temp then
          (g, ngx_rbt_red g (ngx_rbt_black temp (ngx_rbt_black (rb_parent h node) h)))
        else
          let (node1, h1) = (if node = rb_right h (rb_parent h node)
                             then (rb_parent h node, ngx_rbtree_left_rotate s (rb_parent h node) h)
                             else (node, h));
              h2 = ngx_rbt_black (rb_parent h1 node1) h1;
              h3 = ngx_rbt_red (rb_parent h2 (rb_parent h2 node1)) h2
          in (node1, ngx_rbtree_right_rotate s (rb_parent h3 (rb_parent h3 node1)) h3)
      else
        let temp = rb_left h g in
        if ngx_rbt_is_red h temp then
          (g, ngx_rbt_red g (ngx_rbt_black temp (ngx_rbt_black (rb_parent h node) h)))
        else
          let (node1, h1) = (if node = rb_left h (rb_parent h node)
                             then (rb_parent h node, ngx_rbtree_right_rotate s (rb_parent h node) h)
                             else (node, h));
              h2 = ngx_rbt_black (rb_parent h1 node1) h1;
              h3 = ngx_rbt_red (rb_parent h2 (rb_parent h2 node1)) h2
          in (node1, ngx_rbtree_left_rotate s (rb_parent h3 (rb_parent h3 node1)) h3))"

partial_function (option) insert_fix :: "addr \<Rightarrow> addr \<Rightarrow> rbheap \<Rightarrow> rbheap option" where
  "insert_fix s node h =
     (if node \<noteq> rb_root h \<and> ngx_rbt_is_red h (rb_parent h node)
      then (case insert_fix_step s node h of (node', h') \<Rightarrow> insert_fix s node' h')
      else Some (ngx_rbt_black (rb_root h) h))"

definition ngx_rbtree_insert ::
  "(addr \<Rightarrow> addr \<Rightarrow> addr \<Rightarrow> rbheap \<Rightarrow> rbheap option) \<Rightarrow> addr \<Rightarrow> addr \<Rightarrow> rbheap \<Rightarrow> rbheap option" where
  "ngx_rbtree_insert ins s node h =
     (if rb_root h = s then
        Some (set_root node (ngx_rbt_black node (set_right node s (set_left node s (set_parent node NULL h)))))
      else do { h1 \<leftarrow> ins (rb_root h) node s h; insert_fix s node h1 })"

section \<open>Minimum and successor\<close>

partial_function (option) ngx_rbtree_min :: "rbheap \<Rightarrow> addr \<Rightarrow> addr \<Rightarrow> addr option" where
  "ngx_rbtree_min h s node =
     (if rb_left h node \<noteq> s then ngx_rbtree_min h s (rb_left h node) else Some node)"

partial_function (option) next_climb :: "rbheap \<Rightarrow> addr \<Rightarrow> addr \<Rightarrow> addr option" where
  "next_climb h root node =
     (let par = rb_parent h node in
      if node = root then Some NULL
      else if node = rb_left h par then Some par
      else next_climb h root par)"

definition ngx_rbtree_next :: "addr \<Rightarrow> rbheap \<Rightarrow> addr \<Rightarrow> addr option" where
  "ngx_rbtree_next s h node =
     (if rb_right h node \<noteq> s then ngx_rbtree_min h s (rb_right h node)
      else next_climb h (rb_root h) node)"

section \<open>Deletion\<close>

text \<open>The node that leaves its place (\<open>subst\<close>) and the one that takes it (\<open>temp\<close>).\<close>

definition delete_choose :: "addr \<Rightarrow> addr \<Rightarrow> rbheap \<Rightarrow> (addr \<times> addr) option" where
  "delete_choose s node h =
     (if rb_left h node = s then Some (node, rb_right h node)
      else if rb_right h node = s then Some (node, rb_left h node)
      else do {
        subst \<leftarrow> ngx_rbtree_min h s (rb_right h node);
        Some (subst, if rb_left h subst \<noteq> s then rb_left h subst else rb_right h subst)
      })"

definition clear_node :: "addr \<Rightarrow> rbheap \<Rightarrow> rbheap" where
  "clear_node node h = set_key node 0 (set_parent node NULL (set_right node NULL (set_left node NULL h)))"

text \<open>Unlinking \<open>subst\<close> and putting it in the place of \<open>node\<close>.\<close>

definition delete_unlink :: "addr \<Rightarrow> addr \<Rightarrow> addr \<Rightarrow> rbheap \<Rightarrow> rbheap" where
  "delete_unlink subst temp node h =
     (if subst = rb_left h (rb_parent h subst) then set_left (rb_parent h subst) temp h
      else set_right (rb_parent h subst) temp h)"

definition delete_replace :: "addr \<Rightarrow> addr \<Rightarrow> addr \<Rightarrow> addr \<Rightarrow> rbheap \<Rightarrow> rbheap" where
  "delete_replace s subst temp node h =
     (let h1 = (if rb_parent h subst = node then set_parent temp subst h
                else set_parent temp (rb_parent h subst) h);
          h2 = set_left subst (rb_left h1 node) h1;
          h3 = set_right subst (rb_right h2 node) h2;
          h4 = set_parent subst (rb_parent h3 node) h3;
          h5 = ngx_rbt_copy_color subst node h4;
          h6 = (if node = rb_root h5 then set_root subst h5
                else if node = rb_left h5 (rb_parent h5 node) then set_left (rb_parent h5 node) subst h5
                else set_right (rb_parent h5 node) subst h5);
          h7 = (if rb_left h6 subst \<noteq> s then set_parent (rb_left h6 subst) subst h6 else h6)
      in if rb_right h7 subst \<noteq> s then set_parent (rb_right h7 subst) subst h7 else h7)"

definition delete_fix_step :: "addr \<Rightarrow> addr \<Rightarrow> rbheap \<Rightarrow> addr \<times> rbheap" where
  "delete_fix_step s temp h =
     (if temp = rb_left h (rb_parent h temp) then
        let w0 = rb_right h (rb_parent h temp);
            (w, h1) = (if ngx_rbt_is_red h w0 then
                         let ha = ngx_rbt_black w0 h;
                             hb = ngx_rbt_red (rb_parent ha temp) ha;
                             hc = ngx_rbtree_left_rotate s (rb_parent hb temp) hb
                         in (rb_right hc (rb_parent hc temp), hc)
                       else (w0, h))
        in if ngx_rbt_is_black h1 (rb_left h1 w) \<and> ngx_rbt_is_black h1 (rb_right h1 w)
           then (rb_parent h1 temp, ngx_rbt_red w h1)
           else
             let (w2, h2) = (if ngx_rbt_is_black h1 (rb_right h1 w) then
                               let ha = ngx_rbt_black (rb_left h1 w) h1;
                                   hb = ngx_rbt_red w ha;
                                   hc = ngx_rbtree_right_rotate s w hb
                               in (rb_right hc (rb_parent hc temp), hc)
                             else (w, h1));
                 h3 = ngx_rbt_copy_color w2 (rb_parent h2 temp) h2;
                 h4 = ngx_rbt_black (rb_parent h3 temp) h3;
                 h5 = ngx_rbt_black (rb_right h4 w2) h4;
                 h6 = ngx_rbtree_left_rotate s (rb_parent h5 temp) h5
             in (rb_root h6, h6)
      else
        let w0 = rb_left h (rb_parent h temp);
            (w, h1) = (if ngx_rbt_is_red h w0 then
                         let ha = ngx_rbt_black w0 h;
                             hb = ngx_rbt_red (rb_parent ha temp) ha;
                             hc = ngx_rbtree_right_rotate s (rb_parent hb temp) hb
                         in (rb_left hc (rb_parent hc temp), hc)
                       else (w0, h))
        in if ngx_rbt_is_black h1 (rb_left h1 w) \<and> ngx_rbt_is_black h1 (rb_right h1 w)
           then (rb_parent h1 temp, ngx_rbt_red w h1)
           else
             let (w2, h2) = (if ngx_rbt_is_black h1 (rb_left h1 w) then
                               let ha = ngx_rbt_black (rb_right h1 w) h1;
                                   hb = ngx_rbt_red w ha;
                                   hc = ngx_rbtree_left_rotate s w hb
                               in (rb_left hc (rb_parent hc temp), hc)
                             else (w, h1));
                 h3 = ngx_rbt_copy_color w2 (rb_parent h2 temp) h2;
                 h4 = ngx_rbt_black (rb_parent h3 temp) h3;
                 h5 = ngx_rbt_black (rb_left h4 w2) h4;
                 h6 = ngx_rbtree_right_rotate s (rb_parent h5 temp) h5
             in (rb_root h6, h6))"

partial_function (option) delete_fix :: "addr \<Rightarrow> addr \<Rightarrow> rbheap \<Rightarrow> rbheap option" where
  "delete_fix s temp h =
     (if temp \<noteq> rb_root h \<and> ngx_rbt_is_black h temp
      then (case delete_fix_step s temp h of (temp', h') \<Rightarrow> delete_fix s temp' h')
      else Some (ngx_rbt_black temp h))"

definition ngx_rbtree_delete :: "addr \<Rightarrow> addr \<Rightarrow> rbheap \<Rightarrow> rbheap option" where
  "ngx_rbtree_delete s node h = do {
     (subst, temp) \<leftarrow> delete_choose s node h;
     (if subst = rb_root h then Some (clear_node node (ngx_rbt_black temp (set_root temp h)))
      else
        let red = ngx_rbt_is_red h subst;
            h1 = delete_unlink subst temp node h;
            h2 = (if subst = node then set_parent temp (rb_parent h1 subst) h1
                  else delete_replace s subst temp node h1);
            h3 = clear_node node h2
        in if red then Some h3 else delete_fix s temp h3)
   }"

end
