(* ===== verification/Rbtree_Shape.thy ===== *)
theory Rbtree_Shape
  imports Rbtree "HOL-Library.Tree"
begin

text \<open>
  The shape of the red-black tree: which tree of addresses a heap holds, a path to one of its nodes
  as a context, and how the pointer operations (relinking a child, the two rotations) change them.
  Colours and keys stay in the heap.
\<close>

section \<open>Trees and contexts in a heap\<close>

fun tree_at :: "rbheap \<Rightarrow> addr \<Rightarrow> addr \<Rightarrow> addr \<Rightarrow> addr tree \<Rightarrow> bool" where
  "tree_at h s par p Leaf \<longleftrightarrow> p = s"
| "tree_at h s par p (Node l a r) \<longleftrightarrow> p = a \<and> a \<noteq> s \<and> rb_parent h a = par \<and>
     tree_at h s a (rb_left h a) l \<and> tree_at h s a (rb_right h a) r"

text \<open>A context: the path from a position up to the root, with the sibling trees.\<close>

datatype frame = InL addr "addr tree" | InR "addr tree" addr

fun frame_addr :: "frame \<Rightarrow> addr" where
  "frame_addr (InL a r) = a" | "frame_addr (InR l a) = a"

fun plug :: "frame list \<Rightarrow> addr tree \<Rightarrow> addr tree" where
  "plug [] t = t"
| "plug (InL a r # c) t = plug c (Node t a r)"
| "plug (InR l a # c) t = plug c (Node l a t)"

text \<open>The nodes before and after the position, in order.\<close>

fun before :: "frame list \<Rightarrow> addr list" where
  "before [] = []"
| "before (InL a r # c) = before c"
| "before (InR l a # c) = before c @ inorder l @ [a]"

fun after :: "frame list \<Rightarrow> addr list" where
  "after [] = []"
| "after (InL a r # c) = a # inorder r @ after c"
| "after (InR l a # c) = after c"

lemma inorder_plug: "inorder (plug c t) = before c @ inorder t @ after c"
  by (induction c t rule: plug.induct) simp_all

definition up :: "rbheap \<Rightarrow> frame list \<Rightarrow> addr \<Rightarrow> addr" where
  "up h c p = (case c of [] \<Rightarrow> rb_parent h p | f # _ \<Rightarrow> frame_addr f)"

lemma up_simps [simp]: "up h [] p = rb_parent h p" "up h (f # c) p = frame_addr f"
  by (simp_all add: up_def)

fun ctx_at :: "rbheap \<Rightarrow> addr \<Rightarrow> frame list \<Rightarrow> addr \<Rightarrow> bool" where
  "ctx_at h s [] p \<longleftrightarrow> rb_root h = p"
| "ctx_at h s (InL a r # c) p \<longleftrightarrow> rb_left h a = p \<and> a \<noteq> s \<and> tree_at h s a (rb_right h a) r \<and>
     rb_parent h a = up h c a \<and> ctx_at h s c a"
| "ctx_at h s (InR l a # c) p \<longleftrightarrow> rb_right h a = p \<and> a \<noteq> s \<and> tree_at h s a (rb_left h a) l \<and>
     rb_parent h a = up h c a \<and> ctx_at h s c a"

definition located :: "rbheap \<Rightarrow> addr \<Rightarrow> frame list \<Rightarrow> addr \<Rightarrow> addr tree \<Rightarrow> bool" where
  "located h s c p t \<longleftrightarrow> ctx_at h s c p \<and> tree_at h s (up h c p) p t \<and> distinct (before c @ inorder t @ after c)"

text \<open>The heap holds tree \<open>t\<close>.\<close>

definition holds_tree :: "rbheap \<Rightarrow> addr \<Rightarrow> addr tree \<Rightarrow> bool" where
  "holds_tree h s t \<longleftrightarrow> located h s [] (rb_root h) t"

text \<open>Moving the focus does not change the tree.\<close>

lemma located_left:
  "located h s c a (Node l a r) \<longleftrightarrow> located h s (InL a r # c) (rb_left h a) l \<and> rb_parent h a = up h c a \<and> ctx_at h s c a"
  by (auto simp: located_def)

lemma located_right:
  "located h s c a (Node l a r) \<longleftrightarrow> located h s (InR l a # c) (rb_right h a) r \<and> rb_parent h a = up h c a \<and> ctx_at h s c a"
  by (auto simp: located_def)

lemma located_up:
  "located h s (InL a r # c) p t \<Longrightarrow> located h s c a (Node t a r)"
  "located h s (InR l a # c) p t \<Longrightarrow> located h s c a (Node l a t)"
  by (auto simp: located_def)

lemma located_plug: "located h s c p t \<Longrightarrow> holds_tree h s (plug c t)"
proof (induction c t arbitrary: p rule: plug.induct)
  case (1 t)
  then show ?case by (auto simp: holds_tree_def located_def)
qed (auto dest: located_up)

lemma tree_at_set: "tree_at h s par p t \<Longrightarrow> (t \<noteq> Leaf \<longleftrightarrow> p \<noteq> s) \<and> (t \<noteq> Leaf \<longrightarrow> p \<in> set (inorder t)) \<and> s \<notin> set (inorder t)"
  by (induction t arbitrary: par p) auto

lemma ctx_at_set: "ctx_at h s c p \<Longrightarrow> s \<notin> set (before c) \<and> s \<notin> set (after c)"
  by (induction h s c p rule: ctx_at.induct) (auto dest: tree_at_set)

lemma frame_addr_in: "frame_addr f \<in> set (before (f # c)) \<union> set (after (f # c))"
  by (cases f) auto

lemma root_in_ctx: "ctx_at h s c p \<Longrightarrow> c \<noteq> [] \<Longrightarrow> rb_root h \<in> set (before c) \<union> set (after c)"
proof (induction h s c p rule: ctx_at.induct)
  case (2 h s a r c p)
  then show ?case by (cases c) auto
next
  case (3 h s l a c p)
  then show ?case by (cases c) auto
qed simp

section \<open>Frame rules\<close>

text \<open>A tree only depends on the links of its nodes, the parent of its root on the last write.\<close>

lemma tree_cong:
  assumes "\<And>a. a \<in> set (inorder t) \<Longrightarrow> rb_left h' a = rb_left h a \<and> rb_right h' a = rb_right h a"
    and "\<And>a. a \<in> set (inorder t) \<Longrightarrow> a \<noteq> p \<Longrightarrow> rb_parent h' a = rb_parent h a"
    and "p \<noteq> s \<Longrightarrow> rb_parent h' p = par'" and "distinct (inorder t)"
    and "tree_at h s par p t"
  shows "tree_at h' s par' p t"
proof (cases t)
  case Leaf
  then show ?thesis using assms(5) by simp
next
  case (Node l a r)
  have sub: "tree_at h' s b q u" if "tree_at h s b q u" "set (inorder u) \<subseteq> set (inorder t) - {p}" for b q u
    using that
  proof (induction u arbitrary: b q)
    case (Node x d y)
    then show ?case using assms(1,2) by auto
  qed simp
  show ?thesis
    using assms(1,3-5) Node by (auto intro!: sub)
qed

lemma tree_same:
  assumes "tree_at h s par p t"
    and "\<And>a. a \<in> set (inorder t) \<Longrightarrow> rb_left h' a = rb_left h a \<and> rb_right h' a = rb_right h a \<and> rb_parent h' a = rb_parent h a"
  shows "tree_at h' s par p t"
  using assms by (induction t arbitrary: par p) auto

lemma ctx_same:
  assumes "ctx_at h s c p" "rb_root h' = rb_root h" "\<And>a. a \<in> set (before c) \<union> set (after c) \<Longrightarrow>
      rb_left h' a = rb_left h a \<and> rb_right h' a = rb_right h a \<and> rb_parent h' a = rb_parent h a"
  shows "ctx_at h' s c p"
  using assms
proof (induction h s c p rule: ctx_at.induct)
  case (2 h s a r c p)
  have "tree_at h' s a (rb_right h a) r" by (rule tree_same [of h]) (use 2 in auto)
  moreover have "up h' c a = up h c a" using 2 by (cases c) auto
  ultimately show ?case using 2 by auto
next
  case (3 h s l a c p)
  have "tree_at h' s a (rb_left h a) l" by (rule tree_same [of h]) (use 3 in auto)
  moreover have "up h' c a = up h c a" using 3 by (cases c) auto
  ultimately show ?case using 3 by auto
qed simp

text \<open>Changing the child pointer of the innermost frame, or the root.\<close>

definition relink :: "frame list \<Rightarrow> addr \<Rightarrow> rbheap \<Rightarrow> rbheap" where
  "relink c v h = (case c of [] \<Rightarrow> set_root v h | InL a _ # _ \<Rightarrow> set_left a v h | InR _ a # _ \<Rightarrow> set_right a v h)"

lemma relink_at:
  assumes "ctx_at h s c p" "distinct (before c @ after c)"
  shows "ctx_at (relink c v h) s c v"
proof (cases c)
  case Nil
  then show ?thesis by (simp add: relink_def set_defs)
next
  case (Cons f c')
  show ?thesis
  proof (cases f)
    case (InL a r)
    have "tree_at (set_left a v h) s a (rb_right h a) r"
      by (rule tree_same [of h]) (use assms Cons InL in \<open>auto simp: set_defs\<close>)
    moreover have "ctx_at (set_left a v h) s c' a"
      by (rule ctx_same [of h]) (use assms Cons InL in \<open>auto simp: set_defs\<close>)
    moreover have "up (set_left a v h) c' a = up h c' a" by (cases c') (simp_all add: set_defs)
    ultimately show ?thesis using assms(1) Cons InL by (simp add: relink_def set_defs)
  next
    case (InR l a)
    have "tree_at (set_right a v h) s a (rb_left h a) l"
      by (rule tree_same [of h]) (use assms Cons InR in \<open>auto simp: set_defs\<close>)
    moreover have "ctx_at (set_right a v h) s c' a"
      by (rule ctx_same [of h]) (use assms Cons InR in \<open>auto simp: set_defs\<close>)
    moreover have "up (set_right a v h) c' a = up h c' a" by (cases c') (simp_all add: set_defs)
    ultimately show ?thesis using assms(1) Cons InR by (simp add: relink_def set_defs)
  qed
qed

text \<open>The code's test of which pointer to change is \<open>relink\<close>.\<close>

lemma relink_test:
  assumes c: "ctx_at h s c p" and p: "rb_parent h p = up h c p" and d: "p \<notin> set (before c) \<union> set (after c)" "p \<noteq> s"
  shows "(if p = rb_root h then set_root v h
          else if p = rb_left h (rb_parent h p) then set_left (rb_parent h p) v h
          else set_right (rb_parent h p) v h) = relink c v h"
    and "(if p = rb_root h then set_root v h
          else if p = rb_right h (rb_parent h p) then set_right (rb_parent h p) v h
          else set_left (rb_parent h p) v h) = relink c v h"
proof -
  have r: "p = rb_root h \<longleftrightarrow> c = []"
  proof (cases "c = []")
    case True
    then show ?thesis using c by simp
  next
    case False
    then show ?thesis using root_in_ctx [OF c] d by auto
  qed
  have q: "rb_left h a \<noteq> p" if "c = InR l a # c'" for l a c'
    using c d that tree_at_set [of h s a "rb_left h a" l] by (cases l) auto
  have q': "rb_right h a \<noteq> p" if "c = InL a l # c'" for l a c'
    using c d that tree_at_set [of h s a "rb_right h a" l] by (cases l) auto
  have "(if p = rb_root h then set_root v h
          else if p = rb_left h (rb_parent h p) then set_left (rb_parent h p) v h
          else set_right (rb_parent h p) v h) = relink c v h \<and>
    (if p = rb_root h then set_root v h
          else if p = rb_right h (rb_parent h p) then set_right (rb_parent h p) v h
          else set_left (rb_parent h p) v h) = relink c v h"
  proof (cases c)
    case Nil
    then show ?thesis using r by (simp add: relink_def)
  next
    case (Cons f c')
    then show ?thesis
    proof (cases f)
      case (InL a t)
      then show ?thesis using r p c Cons q' [of a t c'] by (simp add: relink_def)
    next
      case (InR t a)
      then show ?thesis using r p c Cons q [of t a c'] by (simp add: relink_def)
    qed
  qed
  then show "(if p = rb_root h then set_root v h
          else if p = rb_left h (rb_parent h p) then set_left (rb_parent h p) v h
          else set_right (rb_parent h p) v h) = relink c v h"
    and "(if p = rb_root h then set_root v h
          else if p = rb_right h (rb_parent h p) then set_right (rb_parent h p) v h
          else set_left (rb_parent h p) v h) = relink c v h" by blast+
qed

section \<open>Rotations\<close>

definition same_cells :: "rbheap \<Rightarrow> rbheap \<Rightarrow> bool" where
  "same_cells h h' \<longleftrightarrow> rb_color h' = rb_color h \<and> rb_key h' = rb_key h"

lemma relink_sel:
  "rb_parent (relink c v h) = rb_parent h" "rb_color (relink c v h) = rb_color h" "rb_key (relink c v h) = rb_key h"
  by (simp_all add: relink_def set_defs split: list.splits frame.splits)

lemma relink_out:
  "a \<notin> set (before c) \<union> set (after c) \<Longrightarrow> rb_left (relink c v h) a = rb_left h a \<and> rb_right (relink c v h) a = rb_right h a"
  by (cases c rule: before.cases) (auto simp: relink_def set_defs)

lemma left_rotate_located:
  assumes loc: "located h s c x (Node A x (Node B y C))"
  defines "h' \<equiv> ngx_rbtree_left_rotate s x h"
  shows "located h' s c y (Node (Node A x B) y C) \<and> same_cells h h' \<and>
     (\<forall>a. a \<notin> set (before c @ inorder (Node A x (Node B y C)) @ after c) \<longrightarrow>
        rb_left h' a = rb_left h a \<and> rb_right h' a = rb_right h a \<and> rb_parent h' a = rb_parent h a)"
proof -
  let ?b = "rb_left h y"
  have y: "rb_right h x = y" "x \<noteq> s" "y \<noteq> s" "x \<noteq> y" "rb_parent h x = up h c x" "rb_parent h y = x"
    and tr: "tree_at h s x (rb_left h x) A" "tree_at h s y ?b B" "tree_at h s y (rb_right h y) C"
    and cx: "ctx_at h s c x" and dist: "distinct (before c @ inorder A @ [x] @ inorder B @ [y] @ inorder C @ after c)"
    using loc by (auto simp: located_def)
  have bx: "?b \<noteq> s \<longleftrightarrow> B \<noteq> Leaf" "B \<noteq> Leaf \<Longrightarrow> ?b \<in> set (inorder B)" using tree_at_set [OF tr(2)] by auto
  define h1 where "h1 = set_right x ?b h"
  define h2 where "h2 = (if ?b \<noteq> s then set_parent ?b x h1 else h1)"
  define h3 where "h3 = set_parent y (rb_parent h x) h2"
  have nb: "?b \<noteq> x" "?b \<noteq> y" if "?b \<noteq> s" using bx that dist by auto
  have h3: "rb_root h3 = rb_root h" "rb_left h3 = rb_left h" "rb_right h3 = (rb_right h)(x := ?b)"
      "rb_color h3 = rb_color h" "rb_key h3 = rb_key h"
      "rb_parent h3 = (if ?b \<noteq> s then (rb_parent h)(?b := x, y := rb_parent h x) else (rb_parent h)(y := rb_parent h x))"
    by (simp_all add: h3_def h2_def h1_def set_defs)
  have out: "rb_left h3 a = rb_left h a \<and> rb_right h3 a = rb_right h a \<and> rb_parent h3 a = rb_parent h a"
    if "a \<noteq> x" "a \<noteq> y" "a \<notin> set (inorder B)" for a
    using that bx by (auto simp: h3)
  have c3: "ctx_at h3 s c x"
    by (rule ctx_same [OF cx h3(1)], rule out) (use dist in auto)
  have px: "rb_parent h3 x = rb_parent h x" using y(4) nb by (auto simp: h3)
  have upx: "up h3 c x = up h c x" using px by (cases c) auto
  have dx: "x \<notin> set (before c) \<union> set (after c)" using dist by auto
  have run: "h' = set_parent x y (set_left y x (relink c y h3))"
  proof -
    have e1: "rb_left h1 y = ?b" and e2: "rb_parent h2 x = rb_parent h x"
      using y(4) nb by (auto simp: h1_def h2_def set_defs)
    have p3: "rb_parent h3 x = up h3 c x" using px upx y(5) by simp
    note t = relink_test(1) [OF c3 p3 dx y(2), of y]
    show ?thesis
      unfolding h'_def ngx_rbtree_left_rotate_def Let_def y(1) h1_def [symmetric] e1
        h2_def [symmetric] e2 h3_def [symmetric] t ..
  qed
  let ?r = "relink c y h3"
  have c4: "ctx_at ?r s c y" by (rule relink_at [OF c3]) (use dist in auto)
  have c': "ctx_at h' s c y"
    by (rule ctx_same [OF c4]) (use dist in \<open>auto simp: run set_defs\<close>)
  have fld: "rb_left h' a = (if a = y then x else rb_left h a)" "rb_right h' a = (if a = x then ?b else rb_right h a)"
      "rb_parent h' a = (if a = x then y else if a = y then rb_parent h x else if ?b \<noteq> s \<and> a = ?b then x else rb_parent h a)"
    if "a \<notin> set (before c) \<union> set (after c)" for a
  proof -
    have o: "rb_left ?r a = rb_left h a" "rb_right ?r a = ((rb_right h)(x := ?b)) a"
      using relink_out [OF that, of y h3] by (simp_all add: h3)
    have "rb_left h' a = (if a = y then x else rb_left ?r a)" "rb_right h' a = rb_right ?r a"
        "rb_parent h' a = (if a = x then y else rb_parent h3 a)"
      by (simp_all add: run set_defs relink_sel)
    then show "rb_left h' a = (if a = y then x else rb_left h a)" "rb_right h' a = (if a = x then ?b else rb_right h a)"
        "rb_parent h' a = (if a = x then y else if a = y then rb_parent h x else if ?b \<noteq> s \<and> a = ?b then x else rb_parent h a)"
      unfolding o h3(6) using nb by simp_all
  qed
  have in_c: "a \<notin> set (before c) \<union> set (after c)" if "a \<in> set (inorder A @ [x] @ inorder B @ [y] @ inorder C)" for a
    using that dist by auto
  have keep: "rb_left h' a = rb_left h a \<and> rb_right h' a = rb_right h a \<and> rb_parent h' a = rb_parent h a"
    if "a \<notin> set (before c) \<union> set (after c)" "a \<noteq> x" "a \<noteq> y" "?b \<noteq> s \<Longrightarrow> a \<noteq> ?b" for a
    using fld [OF that(1)] that(2-4) by auto
  have apart: "a \<notin> set (before c) \<union> set (after c)" "a \<noteq> x" "a \<noteq> y" "a \<notin> set (inorder B)"
    if "a \<in> set (inorder A) \<union> set (inorder C)" for a
    using that dist by auto
  have keep_AC: "rb_left h' a = rb_left h a \<and> rb_right h' a = rb_right h a \<and> rb_parent h' a = rb_parent h a"
    if "a \<in> set (inorder A) \<union> set (inorder C)" for a
    using apart [OF that] bx by (intro keep) auto
  have tA: "tree_at h' s x (rb_left h x) A"
    by (rule tree_same [OF tr(1)]) (intro keep_AC, simp)
  have tC: "tree_at h' s y (rb_right h y) C"
    by (rule tree_same [OF tr(3)]) (intro keep_AC, simp)
  have apart_B: "a \<notin> set (before c) \<union> set (after c)" "a \<noteq> x" "a \<noteq> y" if "a \<in> set (inorder B)" for a
    using that dist by auto
  have tB: "tree_at h' s x ?b B"
  proof (rule tree_cong [OF _ _ _ _ tr(2)])
    show "rb_parent h' ?b = x" if "?b \<noteq> s"
      using fld(3) [OF apart_B(1) [of ?b]] bx that nb by auto
    show "rb_left h' a = rb_left h a \<and> rb_right h' a = rb_right h a" if "a \<in> set (inorder B)" for a
      using fld(1,2) [OF apart_B(1) [OF that]] apart_B(2,3) [OF that] by simp
    show "rb_parent h' a = rb_parent h a" if "a \<in> set (inorder B)" "a \<noteq> ?b" for a
      using keep [OF apart_B [OF that(1)]] that(2) by simp
    show "distinct (inorder B)" using dist by simp
  qed
  have upy: "up h' c y = rb_parent h' y" 
  proof (cases c)
    case (Cons f c')
    then show ?thesis using y(5) fld(3) [of y] in_c [of y] y(4) by simp
  qed simp
  have "tree_at h' s (up h' c y) y (Node (Node A x B) y C)"
    using tA tB tC fld [of x] fld [of y] in_c [of x] in_c [of y] y(2-4) upy by auto
  moreover have "same_cells h h'" by (simp add: same_cells_def run set_defs relink_sel h3)
  moreover have "rb_left h' a = rb_left h a \<and> rb_right h' a = rb_right h a \<and> rb_parent h' a = rb_parent h a"
    if "a \<notin> set (before c @ inorder (Node A x (Node B y C)) @ after c)" for a
    using that fld [of a] bx by auto
  ultimately show ?thesis using c' dist by (auto simp: located_def)
qed

section \<open>The mirror image\<close>

text \<open>The right-hand variant of every operation is the left-hand one on the heap with \<open>left\<close> and \<open>right\<close>
  exchanged.\<close>

definition mir :: "rbheap \<Rightarrow> rbheap" where
  "mir h = h\<lparr>rb_left := rb_right h, rb_right := rb_left h\<rparr>"

lemma mir_sel [simp]:
  "rb_left (mir h) = rb_right h" "rb_right (mir h) = rb_left h" "rb_parent (mir h) = rb_parent h"
  "rb_color (mir h) = rb_color h" "rb_key (mir h) = rb_key h" "rb_root (mir h) = rb_root h"
  by (simp_all add: mir_def)

lemma mir_mir [simp]: "mir (mir h) = h"
  by (simp add: mir_def)

lemma mir_set [simp]:
  "set_left a v (mir h) = mir (set_right a v h)" "set_right a v (mir h) = mir (set_left a v h)"
  "set_parent a v (mir h) = mir (set_parent a v h)" "set_color a k (mir h) = mir (set_color a k h)"
  "set_key a y (mir h) = mir (set_key a y h)" "set_root v (mir h) = mir (set_root v h)"
  by (simp_all add: set_defs mir_def)

fun mir_frame :: "frame \<Rightarrow> frame" where
  "mir_frame (InL a r) = InR (mirror r) a"
| "mir_frame (InR l a) = InL a (mirror l)"

abbreviation mir_ctx :: "frame list \<Rightarrow> frame list" where "mir_ctx \<equiv> map mir_frame"

lemma mir_frame_mir [simp]: "mir_frame (mir_frame f) = f"
  by (cases f) simp_all

lemma frame_addr_mir [simp]: "frame_addr (mir_frame f) = frame_addr f"
  by (cases f) simp_all

lemma tree_at_mir [simp]: "tree_at (mir h) s par p (mirror t) = tree_at h s par p t"
  by (induction t arbitrary: par p) auto

lemma up_mir [simp]: "up (mir h) (mir_ctx c) p = up h c p"
  by (cases c) simp_all

lemma before_after_mir: "before (mir_ctx c) = rev (after c) \<and> after (mir_ctx c) = rev (before c)"
proof (induction c)
  case (Cons f c)
  then show ?case by (cases f) (auto simp: inorder_mirror)
qed simp

lemma ctx_at_mir [simp]: "ctx_at (mir h) s (mir_ctx c) p = ctx_at h s c p"
proof (induction c arbitrary: p)
  case (Cons f c)
  then show ?case by (cases f) auto
qed simp

lemma located_mir: "located (mir h) s (mir_ctx c) p (mirror t) \<longleftrightarrow> located h s c p t"
  by (auto simp: located_def before_after_mir inorder_mirror)

lemma mir_color [simp]:
  "ngx_rbt_red a (mir h) = mir (ngx_rbt_red a h)" "ngx_rbt_black a (mir h) = mir (ngx_rbt_black a h)"
  "ngx_rbt_is_red (mir h) a = ngx_rbt_is_red h a" "ngx_rbt_is_black (mir h) a = ngx_rbt_is_black h a"
  "ngx_rbt_copy_color a b (mir h) = mir (ngx_rbt_copy_color a b h)"
  by (simp_all add: ngx_rbt_red_def ngx_rbt_black_def ngx_rbt_is_red_def ngx_rbt_is_black_def ngx_rbt_copy_color_def)

lemma mir_if: "(if b then mir x else mir y) = mir (if b then x else y)"
  by simp

lemma left_rotate_mir: "ngx_rbtree_left_rotate s x (mir h) = mir (ngx_rbtree_right_rotate s x h)"
  unfolding ngx_rbtree_right_rotate_def ngx_rbtree_left_rotate_def Let_def
  by (simp only: mir_sel mir_set mir_if)

lemma right_rotate_mir: "ngx_rbtree_right_rotate s x (mir h) = mir (ngx_rbtree_left_rotate s x h)"
  using left_rotate_mir [of s x "mir h"] by simp

lemma right_rotate_located:
  assumes loc: "located h s c x (Node (Node A y B) x C)"
  defines "h' \<equiv> ngx_rbtree_right_rotate s x h"
  shows "located h' s c y (Node A y (Node B x C))" "same_cells h h'"
    "a \<notin> set (before c @ inorder (Node (Node A y B) x C) @ after c) \<Longrightarrow>
        rb_left h' a = rb_left h a \<and> rb_right h' a = rb_right h a \<and> rb_parent h' a = rb_parent h a"
proof -
  have "located (mir h) s (mir_ctx c) x (Node (mirror C) x (Node (mirror B) y (mirror A)))"
    using located_mir [of h s c x "Node (Node A y B) x C"] loc by simp
  note r = left_rotate_located [OF this, unfolded left_rotate_mir, folded h'_def]
  have "Node (Node (mirror C) x (mirror B)) y (mirror A) = mirror (Node A y (Node B x C))" by simp
  then show "located h' s c y (Node A y (Node B x C))" using r located_mir by metis
  show "same_cells h h'" using r by (simp add: same_cells_def)
  show "rb_left h' a = rb_left h a \<and> rb_right h' a = rb_right h a \<and> rb_parent h' a = rb_parent h a"
    if "a \<notin> set (before c @ inorder (Node (Node A y B) x C) @ after c)"
    using r that by (auto simp: before_after_mir inorder_mirror)
qed

end
