(* ===== verification/Rbtree_Insert.thy ===== *)
theory Rbtree_Insert
  imports Rbtree_Shape
begin

text \<open>
  The red-black invariant of a tree and of a context, and the correctness of the insertion: it ends, puts
  the node where the comparison sends it and keeps the invariant.
\<close>

section \<open>Colours\<close>

type_synonym colors = "addr \<Rightarrow> u8"

fun root_black :: "colors \<Rightarrow> addr tree \<Rightarrow> bool" where
  "root_black col Leaf = True"
| "root_black col (Node l a r) = (col a = 0)"

text \<open>A red node has black children, and every path has \<open>n\<close> black nodes.\<close>

fun rbt :: "colors \<Rightarrow> addr tree \<Rightarrow> nat \<Rightarrow> bool" where
  "rbt col Leaf n = (n = 0)"
| "rbt col (Node l a r) n =
     (if col a = 0 then n \<noteq> 0 \<and> rbt col l (n - 1) \<and> rbt col r (n - 1)
      else root_black col l \<and> root_black col r \<and> rbt col l n \<and> rbt col r n)"

fun sib :: "frame \<Rightarrow> addr tree" where
  "sib (InL a r) = r"
| "sib (InR l a) = l"

text \<open>A context that a tree of black height \<open>n\<close> with a black root completes.\<close>

fun cbt :: "colors \<Rightarrow> frame list \<Rightarrow> nat \<Rightarrow> bool" where
  "cbt col [] n = True"
| "cbt col (f # c) n =
     (rbt col (sib f) n \<and>
      (if col (frame_addr f) = 0 then cbt col c (Suc n)
       else root_black col (sib f) \<and> c \<noteq> [] \<and> col (frame_addr (hd c)) = 0 \<and> cbt col c n))"

lemma root_black_cong: "(\<And>a. a \<in> set (inorder t) \<Longrightarrow> col' a = col a) \<Longrightarrow> root_black col' t = root_black col t"
  by (cases t) auto

lemma rbt_cong: "(\<And>a. a \<in> set (inorder t) \<Longrightarrow> col' a = col a) \<Longrightarrow> rbt col' t n = rbt col t n"
proof (induction t arbitrary: n)
  case (Node l a r)
  then show ?case using root_black_cong [of l col' col] root_black_cong [of r col' col] by simp
qed simp

lemma set_sib: "set (inorder (sib f)) \<union> {frame_addr f} \<subseteq> set (before (f # c)) \<union> set (after (f # c))"
  by (cases f) auto

lemma set_tail: "set (before c) \<union> set (after c) \<subseteq> set (before (f # c)) \<union> set (after (f # c))"
  by (cases f) auto

lemma cbt_cong:
  "(\<And>a. a \<in> set (before c) \<union> set (after c) \<Longrightarrow> col' a = col a) \<Longrightarrow> cbt col' c n = cbt col c n"
proof (induction c arbitrary: n)
  case (Cons f c)
  have s: "a \<in> set (inorder (sib f)) \<union> {frame_addr f} \<Longrightarrow> col' a = col a" for a
    using Cons.prems set_sib [of f c] by blast
  have IH: "cbt col' c m = cbt col c m" for m
    using Cons.prems set_tail [of c f] by (intro Cons.IH) blast
  have "col' (frame_addr (hd c)) = col (frame_addr (hd c))" if "c \<noteq> []"
    using Cons.prems set_tail [of c f] set_sib [of "hd c" "tl c"] that by (cases c) auto
  then show ?case using s IH rbt_cong [of "sib f" col' col] root_black_cong [of "sib f" col' col] by auto
qed simp

lemma root_black_mir [simp]: "root_black col (mirror t) = root_black col t"
  by (cases t) auto

lemma rbt_mir [simp]: "rbt col (mirror t) n = rbt col t n"
  by (induction t arbitrary: n) auto

lemma sib_mir [simp]: "sib (mir_frame f) = mirror (sib f)"
  by (cases f) auto

lemma cbt_mir [simp]: "cbt col (mir_ctx c) n = cbt col c n"
proof (induction c arbitrary: n)
  case (Cons f c)
  have "frame_addr (hd (mir_ctx c)) = frame_addr (hd c)" if "c \<noteq> []" using that by (cases c) auto
  then show ?case using Cons by auto
qed simp

lemma plug_mir: "plug (mir_ctx c) (mirror t) = mirror (plug c t)"
  by (induction c t rule: plug.induct) auto

lemma inorder_plug_mir: "inorder (plug (mir_ctx c) (mirror t)) = rev (inorder (plug c t))"
  unfolding plug_mir by (rule inorder_mirror)

text \<open>Colours do not matter for the shape.\<close>

lemma color_sel [simp]:
  "rb_left (set_color b k h) = rb_left h" "rb_right (set_color b k h) = rb_right h"
  "rb_parent (set_color b k h) = rb_parent h" "rb_root (set_color b k h) = rb_root h"
  "rb_key (set_color b k h) = rb_key h" "rb_color (set_color b k h) = (rb_color h)(b := k)"
  by (simp_all add: set_defs)

lemma tree_at_color [simp]: "tree_at (set_color b k h) s par p t = tree_at h s par p t"
  by (induction t arbitrary: par p) auto

lemma up_color [simp]: "up (set_color b k h) c p = up h c p"
  by (cases c) simp_all

lemma ctx_at_color [simp]: "ctx_at (set_color b k h) s c p = ctx_at h s c p"
proof (induction c arbitrary: p)
  case (Cons f c)
  then show ?case by (cases f) auto
qed simp

lemma located_color [simp]: "located (set_color b k h) s c p t = located h s c p t"
  by (simp add: located_def)

text \<open>Completing a context.\<close>

lemma plug_rbt:
  "rbt col t n \<Longrightarrow> cbt col c n \<Longrightarrow> (c \<noteq> [] \<Longrightarrow> root_black col t \<or> col (frame_addr (hd c)) = 0) \<Longrightarrow>
   \<exists>m. rbt col (plug c t) m"
proof (induction c arbitrary: t n)
  case Nil
  then show ?case by auto
next
  case (Cons f c)
  define u where "u = (case f of InL a r \<Rightarrow> Node t a r | InR l a \<Rightarrow> Node l a t)"
  have p: "plug (f # c) t = plug c u" by (cases f) (simp_all add: u_def)
  show ?case
  proof (cases "col (frame_addr f) = 0")
    case True
    then have "rbt col u (Suc n)" "root_black col u" using Cons.prems by (cases f; simp add: u_def)+
    then show ?thesis unfolding p using Cons.IH Cons.prems True by simp
  next
    case False
    then have "rbt col u n" "c \<noteq> []" "col (frame_addr (hd c)) = 0" using Cons.prems by (cases f; simp add: u_def)+
    then show ?thesis unfolding p using Cons.IH Cons.prems False by simp
  qed
qed

definition rb_tree :: "rbheap \<Rightarrow> addr \<Rightarrow> addr tree \<Rightarrow> bool" where
  "rb_tree h s t \<longleftrightarrow> holds_tree h s t \<and> rb_color h s = 0 \<and> root_black (rb_color h) t \<and> (\<exists>n. rbt (rb_color h) t n)"

text \<open>The last line of the insertion: the root is made black.\<close>

lemma blacken_root:
  assumes "located h s c p t" "rb_color h s = 0" "rbt (rb_color h) t n" "cbt (rb_color h) c n"
    and "c \<noteq> [] \<Longrightarrow> root_black (rb_color h) t \<or> rb_color h (frame_addr (hd c)) = 0"
  shows "rb_tree (ngx_rbt_black (rb_root h) h) s (plug c t)"
proof -
  let ?T = "plug c t"
  obtain m where m: "rbt (rb_color h) ?T m" using plug_rbt assms(3-5) by blast
  have H: "holds_tree h s ?T" by (rule located_plug [OF assms(1)])
  show ?thesis
  proof (cases ?T)
    case Leaf
    then show ?thesis using H assms(2) by (simp add: rb_tree_def ngx_rbt_black_def holds_tree_def)
  next
    case (Node l a r)
    have a: "rb_root h = a" "distinct (inorder l @ a # inorder r)" "a \<noteq> s"
      using H Node by (auto simp: holds_tree_def located_def)
    let ?col = "(rb_color h)(a := 0)"
    have l: "rbt ?col l k = rbt (rb_color h) l k" "rbt ?col r k = rbt (rb_color h) r k" for k
      using a(2) by (intro rbt_cong; auto)+
    have "\<exists>n. rbt ?col ?T n"
    proof (cases "rb_color h a = 0")
      case True
      then show ?thesis using m Node l by auto
    next
      case False
      then have "rbt ?col ?T (Suc m)" using m Node l by simp
      then show ?thesis by blast
    qed
    then show ?thesis using H a Node assms(2) by (auto simp: rb_tree_def holds_tree_def ngx_rbt_black_def)
  qed
qed

section \<open>The rebalancing step\<close>

definition red_node :: "rbheap \<Rightarrow> addr \<Rightarrow> frame list \<Rightarrow> addr \<Rightarrow> addr tree \<Rightarrow> addr tree \<Rightarrow> nat \<Rightarrow> bool" where
  "red_node h s c x l r n \<longleftrightarrow> located h s c x (Node l x r) \<and> rb_color h s = 0 \<and> rb_color h x \<noteq> 0
     \<and> root_black (rb_color h) l \<and> root_black (rb_color h) r
     \<and> rbt (rb_color h) l n \<and> rbt (rb_color h) r n \<and> cbt (rb_color h) c n"

definition settled :: "rbheap \<Rightarrow> addr \<Rightarrow> addr \<Rightarrow> addr list \<Rightarrow> bool" where
  "settled h s x xs \<longleftrightarrow> (\<exists>c y t n. located h s c y t \<and> rb_color h s = 0 \<and> rbt (rb_color h) t n
     \<and> root_black (rb_color h) t \<and> cbt (rb_color h) c n \<and> inorder (plug c t) = xs
     \<and> rb_color h (rb_parent h x) = 0)"

lemma red_node_mir: "red_node (mir h) s (mir_ctx c) x (mirror r) (mirror l) n \<longleftrightarrow> red_node h s c x l r n"
  using located_mir [of h s c x "Node l x r"] by (auto simp: red_node_def)

lemma settled_mir: "settled h s x xs \<Longrightarrow> settled (mir h) s x (rev xs)"
  unfolding settled_def
  by (elim exE conjE, rule_tac x = "mir_ctx c" in exI, rule_tac x = y in exI, rule_tac x = "mirror t" in exI,
      rule_tac x = n in exI) (auto simp: located_mir inorder_plug_mir)

lemma insert_fix_step_mir:
  assumes "(rb_parent h x = rb_left h (rb_parent h (rb_parent h x))) \<noteq> (rb_parent h x = rb_right h (rb_parent h (rb_parent h x)))"
  shows "insert_fix_step s x (mir h) = apsnd mir (insert_fix_step s x h)"
proof (cases "rb_parent h x = rb_left h (rb_parent h (rb_parent h x))")
  case True
  then show ?thesis using assms
    by (simp add: insert_fix_step_def Let_def left_rotate_mir right_rotate_mir split: prod.split)
next
  case False
  then show ?thesis using assms
    by (simp add: insert_fix_step_def Let_def left_rotate_mir right_rotate_mir split: prod.split)
qed

lemma tree_at_red: "tree_at h s par p t \<Longrightarrow> rb_color h s = 0 \<Longrightarrow> root_black (rb_color h) t \<longleftrightarrow> rb_color h p = 0"
  by (cases t) auto

lemma insert_fix_step_left:
  assumes rn: "red_node h s (f # InL ga U # c) x l r n" and red: "rb_color h (frame_addr f) \<noteq> 0"
    and step: "insert_fix_step s x h = (x', h')"
  shows "rb_key h' = rb_key h \<and>
     ((\<exists>l' r'. red_node h' s c x' l' r' (Suc n) \<and>
         inorder (plug c (Node l' x' r')) = inorder (plug (f # InL ga U # c) (Node l x r)))
      \<or> settled h' s x' (inorder (plug (f # InL ga U # c) (Node l x r))))"
proof -
  define p where "p = frame_addr f"
  let ?X = "Node l x r"
  define P where "P = (case f of InL a t \<Rightarrow> Node ?X a t | InR t a \<Rightarrow> Node t a ?X)"
  have loc: "located h s (f # InL ga U # c) x ?X" and s0: "rb_color h s = 0" and x1: "rb_color h x \<noteq> 0"
    and lr: "root_black (rb_color h) l" "root_black (rb_color h) r" "rbt (rb_color h) l n" "rbt (rb_color h) r n"
    and cb: "cbt (rb_color h) (f # InL ga U # c) n"
    using rn unfolding red_node_def by blast+
  have f: "rbt (rb_color h) (sib f) n" "root_black (rb_color h) (sib f)" "rb_color h ga = 0"
    "rbt (rb_color h) U n" "cbt (rb_color h) c (Suc n)"
    using cb red by simp_all
  have X: "rbt (rb_color h) ?X n" using x1 lr by simp
  have locP: "located h s (InL ga U # c) p P" "located h s c ga (Node P ga U)"
  proof -
    show "located h s (InL ga U # c) p P"
      using loc by (cases f) (auto simp: p_def P_def dest: located_up)
    then show "located h s c ga (Node P ga U)" by (rule located_up)
  qed
  have ptr: "rb_parent h x = p" "rb_parent h p = ga" "rb_left h ga = p"
    using loc by (cases f; auto simp: located_def p_def)+
  have dist: "distinct (before c @ inorder P @ ga # inorder U @ after c)" and snot: "s \<notin> set (inorder P @ ga # inorder U)"
    using locP(2) tree_at_set by (auto simp: located_def)
  have pP: "p \<in> set (inorder P)" "x \<in> set (inorder P)" by (cases f; simp add: P_def p_def)+
  have U: "tree_at h s ga (rb_right h ga) U" using locP(2) by (simp add: located_def)
  have xs: "inorder (plug (f # InL ga U # c) ?X) = inorder (plug c (Node P ga U))"
    by (cases f) (simp_all add: P_def)
  show ?thesis
  proof (cases "rb_color h (rb_right h ga) = 0")
    case False
    let ?u = "rb_right h ga"
    have "U \<noteq> Leaf" using False U s0 by (cases U) auto
    then obtain ul ur where Ueq: "U = Node ul ?u ur" using U by (cases U) auto
    have h': "x' = ga" "h' = ngx_rbt_red ga (ngx_rbt_black ?u (ngx_rbt_black p h))"
      using step False ptr by (auto simp: insert_fix_step_def ngx_rbt_is_red_def Let_def)
    let ?col = "(rb_color h)(p := 0, ?u := 0, ga := 1)"
    have col: "rb_color h' = ?col" by (simp add: h' ngx_rbt_red_def ngx_rbt_black_def)
    have Uc: "rbt (rb_color h) ul n" "rbt (rb_color h) ur n" using f(4) False Ueq by simp_all
    have "rbt ?col ul n" "rbt ?col ur n"
      using Uc dist pP Ueq by (subst rbt_cong [of _ _ "rb_color h"]; auto)+
    then have "rbt ?col U (Suc n)" using Ueq dist by auto
    moreover have "rbt ?col P (Suc n)"
    proof -
      have "rbt ?col ?X n"
        using X dist Ueq by (subst rbt_cong [of _ _ "rb_color h"]) (cases f; auto simp: P_def p_def)+
      moreover have "rbt ?col (sib f) n"
        using f(1) dist Ueq by (subst rbt_cong [of _ _ "rb_color h"]) (cases f; auto simp: P_def p_def)+
      moreover have "?col p = 0" using dist pP by auto
      ultimately show ?thesis by (cases f) (simp_all add: P_def p_def)
    qed
    moreover have "cbt ?col c (Suc n)"
      using f(5) dist pP Ueq by (subst cbt_cong [of _ _ "rb_color h"]) auto
    moreover have "root_black ?col U" "root_black ?col P" "?col s = 0" "?col ga \<noteq> 0"
      using Ueq dist pP snot s0 by (cases f; auto simp: P_def p_def)+
    moreover have "located h' s c ga (Node P ga U)"
      using locP(2) by (simp add: h' ngx_rbt_red_def ngx_rbt_black_def)
    ultimately have "red_node h' s c x' P U (Suc n)" unfolding red_node_def col by (simp add: h'(1))
    then show ?thesis using xs h' by (auto simp: ngx_rbt_red_def ngx_rbt_black_def)
  next
    case True
    then have Ub: "root_black (rb_color h) U" using tree_at_red [OF U s0] by simp
    show ?thesis
    proof (cases f)
      case (InL a t)
      then have a: "a = p" by (simp add: p_def)
      have nx: "x \<noteq> rb_right h p"
        using loc InL a tree_at_set [of h s p "rb_right h p" t] by (auto simp: located_def)
      let ?h2 = "ngx_rbt_red ga (ngx_rbt_black p h)"
      have h': "x' = x" "h' = ngx_rbtree_right_rotate s ga ?h2"
        using step True ptr nx by (simp_all add: insert_fix_step_def ngx_rbt_is_red_def Let_def ngx_rbt_red_def ngx_rbt_black_def)
      have "located ?h2 s c ga (Node (Node ?X p t) ga U)"
        using locP(2) InL a by (simp add: P_def ngx_rbt_red_def ngx_rbt_black_def)
      note rot = right_rotate_located [OF this, folded h'(2)]
      let ?col = "(rb_color h)(p := 0, ga := 1)"
      have col: "rb_color h' = ?col" "rb_key h' = rb_key h"
        using rot(2) by (simp_all add: same_cells_def ngx_rbt_red_def ngx_rbt_black_def)
      have d: "distinct (before c @ (inorder ?X @ p # inorder t) @ ga # inorder U @ after c)"
        using dist InL a by (simp add: P_def)
      have "rbt ?col ?X n" using X d by (subst rbt_cong [of _ _ "rb_color h"]) auto
      moreover have "rbt ?col t n" "root_black ?col t"
        using f(1,2) InL d by (subst rbt_cong [of _ _ "rb_color h"] root_black_cong [of _ _ "rb_color h"]; auto)+
      moreover have "rbt ?col U n" "root_black ?col U"
        using f(4) Ub d by (subst rbt_cong [of _ _ "rb_color h"] root_black_cong [of _ _ "rb_color h"]; auto)+
      moreover have pg: "p \<noteq> ga" using d by auto
      ultimately have "rbt ?col (Node ?X p (Node t ga U)) (Suc n)" by simp
      moreover have "cbt ?col c (Suc n)"
        using f(5) d by (subst cbt_cong [of _ _ "rb_color h"]) auto
      moreover have "?col s = 0" using s0 snot by auto
      moreover have "rb_parent h' x = p" using rot(1) by (simp add: located_def)
      ultimately have "settled h' s x' (inorder (plug c (Node ?X p (Node t ga U))))"
        unfolding settled_def using rot(1) pg col(1) h'(1)
        by (intro exI [of _ c] exI [of _ p] exI [of _ "Node ?X p (Node t ga U)"] exI [of _ "Suc n"]) auto
      then show ?thesis using col(2) InL a by (simp add: inorder_plug)
    next
      case (InR t a)
      then have a: "a = p" by (simp add: p_def)
      have rx: "x = rb_right h p" using loc InR a by (auto simp: located_def)
      have "located h s (InL ga U # c) p (Node t p (Node l x r))" using locP(1) InR a by (simp add: P_def)
      note rot1 = left_rotate_located [OF this]
      define h1 where "h1 = ngx_rbtree_left_rotate s p h"
      have l1: "located h1 s (InL ga U # c) x (Node (Node t p l) x r)" and sc1: "same_cells h h1"
        using rot1 by (simp_all add: h1_def)
      have p1: "rb_parent h1 p = x" "rb_parent h1 x = ga" using l1 by (simp_all add: located_def)
      let ?h2 = "ngx_rbt_red ga (ngx_rbt_black x h1)"
      have h': "x' = p" "h' = ngx_rbtree_right_rotate s ga ?h2"
        using step True ptr rx p1 by (auto simp: insert_fix_step_def ngx_rbt_is_red_def Let_def ngx_rbt_red_def ngx_rbt_black_def h1_def)
      have "located ?h2 s c ga (Node (Node (Node t p l) x r) ga U)"
        using located_up(1) [OF l1] by (simp add: ngx_rbt_red_def ngx_rbt_black_def)
      note rot = right_rotate_located [OF this, folded h'(2)]
      let ?col = "(rb_color h)(x := 0, ga := 1)"
      have col: "rb_color h' = ?col" "rb_key h' = rb_key h"
        using rot(2) sc1 by (simp_all add: same_cells_def ngx_rbt_red_def ngx_rbt_black_def)
      have d: "distinct (before c @ (inorder t @ p # inorder l @ x # inorder r) @ ga # inorder U @ after c)"
        using dist InR a by (simp add: P_def)
      have "rbt ?col t n" "root_black ?col t"
        using f(1,2) InR d by (subst rbt_cong [of _ _ "rb_color h"] root_black_cong [of _ _ "rb_color h"]; auto)+
      moreover have "rbt ?col l n" "root_black ?col l" "rbt ?col r n" "root_black ?col r"
        using lr d by (subst rbt_cong [of _ _ "rb_color h"] root_black_cong [of _ _ "rb_color h"]; auto)+
      moreover have "rbt ?col U n" "root_black ?col U"
        using f(4) Ub d by (subst rbt_cong [of _ _ "rb_color h"] root_black_cong [of _ _ "rb_color h"]; auto)+
      moreover have pg: "p \<noteq> ga" "x \<noteq> ga" "p \<noteq> x" using d by auto
      moreover have "rb_color h p \<noteq> 0" using red by (simp add: p_def)
      ultimately have "rbt ?col (Node (Node t p l) x (Node r ga U)) (Suc n)" by simp
      moreover have "cbt ?col c (Suc n)"
        using f(5) d by (subst cbt_cong [of _ _ "rb_color h"]) auto
      moreover have "?col s = 0" using s0 snot by auto
      moreover have "rb_parent h' p = x" using rot(1) by (simp add: located_def)
      ultimately have "settled h' s x' (inorder (plug c (Node (Node t p l) x (Node r ga U))))"
        unfolding settled_def using rot(1) pg col(1) h'(1)
        by (intro exI [of _ c] exI [of _ x] exI [of _ "Node (Node t p l) x (Node r ga U)"] exI [of _ "Suc n"]) auto
      then show ?thesis using col(2) InR a by (simp add: inorder_plug)
    qed
  qed
qed

text \<open>The step in either direction.\<close>

lemma insert_fix_step_ok:
  assumes rn: "red_node h s (f # g # c) x l r n" and red: "rb_color h (frame_addr f) \<noteq> 0"
    and step: "insert_fix_step s x h = (x', h')"
  shows "rb_key h' = rb_key h \<and>
     ((\<exists>l' r'. red_node h' s c x' l' r' (Suc n) \<and>
         inorder (plug c (Node l' x' r')) = inorder (plug (f # g # c) (Node l x r)))
      \<or> settled h' s x' (inorder (plug (f # g # c) (Node l x r))))"
proof (cases g)
  case (InL ga U)
  then show ?thesis using insert_fix_step_left [OF _ red step] rn by simp
next
  case (InR U ga)
  define p where "p = frame_addr f"
  have loc: "located h s (f # InR U ga # c) x (Node l x r)" using rn InR by (simp add: red_node_def)
  then have ptr: "rb_parent h x = p" "rb_parent h p = ga" "rb_right h ga = p"
    by (cases f; auto simp: located_def p_def)+
  have "located h s (InR U ga # c) p (case f of InL a t \<Rightarrow> Node (Node l x r) a t | InR t a \<Rightarrow> Node t a (Node l x r))"
    using loc by (cases f) (auto simp: p_def dest: located_up)
  then have "rb_left h ga \<noteq> p"
    using tree_at_set [of h s ga "rb_left h ga" U] by (cases f) (auto simp: located_def p_def)
  then have st: "insert_fix_step s x (mir h) = (x', mir h')"
    using insert_fix_step_mir [of h x s] ptr step by auto
  let ?f = "mir_frame f" and ?c = "mir_ctx c" and ?l = "mirror r" and ?r = "mirror l"
  have m: "plug (?f # InL ga (mirror U) # ?c) (Node ?l x ?r) = mirror (plug (f # g # c) (Node l x r))"
    using plug_mir [of "f # g # c" "Node l x r"] InR by simp
  have "red_node (mir h) s (?f # InL ga (mirror U) # ?c) x ?l ?r n"
    using red_node_mir [of h s "f # g # c" x r l n] rn InR by simp
  from insert_fix_step_left [OF this _ st, unfolded m inorder_mirror] red
  have res: "rb_key h' = rb_key h" and
    alt: "(\<exists>l' r'. red_node (mir h') s ?c x' l' r' (Suc n)
           \<and> inorder (plug ?c (Node l' x' r')) = rev (inorder (plug (f # g # c) (Node l x r))))
        \<or> settled (mir h') s x' (rev (inorder (plug (f # g # c) (Node l x r))))"
    by auto
  from alt show ?thesis
  proof
    assume "\<exists>l' r'. red_node (mir h') s ?c x' l' r' (Suc n)
           \<and> inorder (plug ?c (Node l' x' r')) = rev (inorder (plug (f # g # c) (Node l x r)))"
    then obtain l' r' where r: "red_node (mir h') s ?c x' l' r' (Suc n)"
      "inorder (plug ?c (Node l' x' r')) = rev (inorder (plug (f # g # c) (Node l x r)))" by blast
    have "red_node h' s c x' (mirror r') (mirror l') (Suc n)"
      using red_node_mir [of h' s c x' "mirror l'" "mirror r'" "Suc n"] r(1) by simp
    moreover have "inorder (plug c (Node (mirror r') x' (mirror l'))) = inorder (plug (f # g # c) (Node l x r))"
      using inorder_plug_mir [of c "Node (mirror r') x' (mirror l')"] r(2) by simp
    ultimately show ?thesis using res by blast
  next
    assume "settled (mir h') s x' (rev (inorder (plug (f # g # c) (Node l x r))))"
    from settled_mir [OF this] show ?thesis using res by simp
  qed
qed

section \<open>The rebalancing loop\<close>

text \<open>The loop ends, and leaves a red-black tree of the same nodes in the same order.\<close>

lemma insert_fix_ok:
  "red_node h s c x l r n \<Longrightarrow>
   \<exists>h' t. insert_fix s x h = Some h' \<and> rb_tree h' s t \<and> rb_key h' = rb_key h
     \<and> inorder t = inorder (plug c (Node l x r))"
proof (induction "length c" arbitrary: h c x l r n rule: less_induct)
  case less
  note rn = less.prems [unfolded red_node_def]
  have done_: ?case if "insert_fix s x h = Some (ngx_rbt_black (rb_root h) h)"
    and "c \<noteq> [] \<Longrightarrow> rb_color h (frame_addr (hd c)) = 0"
  proof -
    have "rb_tree (ngx_rbt_black (rb_root h) h) s (plug c (Node l x r))"
      using rn that(2) by (intro blacken_root [where n = n]) auto
    then show ?thesis using that(1) by (auto simp: ngx_rbt_black_def)
  qed
  show ?case
  proof (cases c)
    case Nil
    then have "x = rb_root h" using rn by (simp add: located_def)
    then have "insert_fix s x h = Some (ngx_rbt_black (rb_root h) h)" by (subst insert_fix.simps) simp
    then show ?thesis using done_ Nil by simp
  next
    case f: (Cons f c1)
    have par: "rb_parent h x = frame_addr f" using rn f by (simp add: located_def)
    have nr: "x \<noteq> rb_root h"
      using root_in_ctx [of h s c x] rn f by (auto simp: located_def)
    show ?thesis
    proof (cases "rb_color h (frame_addr f) = 0")
      case True
      then have "insert_fix s x h = Some (ngx_rbt_black (rb_root h) h)"
        by (subst insert_fix.simps) (simp add: par ngx_rbt_is_red_def)
      then show ?thesis using done_ f True by simp
    next
      case False
      then obtain g c2 where g: "c1 = g # c2" using rn f by (cases c1) auto
      obtain x' h1 where st: "insert_fix_step s x h = (x', h1)" by fastforce
      have unf: "insert_fix s x h = insert_fix s x' h1"
        using nr False st by (subst insert_fix.simps) (simp add: par ngx_rbt_is_red_def)
      from insert_fix_step_ok [OF less.prems [unfolded f g] False st]
      have k: "rb_key h1 = rb_key h" and
        alt: "(\<exists>l' r'. red_node h1 s c2 x' l' r' (Suc n) \<and>
             inorder (plug c2 (Node l' x' r')) = inorder (plug c (Node l x r)))
          \<or> settled h1 s x' (inorder (plug c (Node l x r)))"
        unfolding f g by blast+
      from alt show ?thesis
      proof
        assume "\<exists>l' r'. red_node h1 s c2 x' l' r' (Suc n) \<and>
             inorder (plug c2 (Node l' x' r')) = inorder (plug c (Node l x r))"
        then show ?thesis using less.hyps [of c2 h1 x'] unf k unfolding f g by fastforce
      next
        assume "settled h1 s x' (inorder (plug c (Node l x r)))"
        then obtain c' y t m where s: "located h1 s c' y t" "rb_color h1 s = 0" "rbt (rb_color h1) t m"
          "root_black (rb_color h1) t" "cbt (rb_color h1) c' m" "inorder (plug c' t) = inorder (plug c (Node l x r))"
          "rb_color h1 (rb_parent h1 x') = 0"
          unfolding settled_def by blast
        have "insert_fix s x' h1 = Some (ngx_rbt_black (rb_root h1) h1)"
          using s(7) by (subst insert_fix.simps) (simp add: ngx_rbt_is_red_def)
        moreover have "rb_tree (ngx_rbt_black (rb_root h1) h1) s (plug c' t)"
          using s by (intro blacken_root [where n = m]) auto
        ultimately show ?thesis using unf k s(6) by (auto simp: ngx_rbt_black_def)
      qed
    qed
  qed
qed

end
