(* ===== verification/Rbtree_Place.thy ===== *)
theory Rbtree_Place
  imports Rbtree_Insert
begin

text \<open>
  Where a node is inserted, the insertion as a whole, and the walks to the minimum and to the successor.
\<close>

section \<open>The descent\<close>

text \<open>The part of the red-black invariant that is known at a position.\<close>

definition rb_at :: "rbheap \<Rightarrow> addr \<Rightarrow> frame list \<Rightarrow> addr \<Rightarrow> addr tree \<Rightarrow> nat \<Rightarrow> bool" where
  "rb_at h s c p t n \<longleftrightarrow> located h s c p t \<and> rb_color h s = 0 \<and> rbt (rb_color h) t n \<and> cbt (rb_color h) c n
     \<and> (root_black (rb_color h) t \<or> c \<noteq> [] \<and> rb_color h (frame_addr (hd c)) = 0)"

lemma rb_at_root: "rb_tree h s t \<Longrightarrow> \<exists>n. rb_at h s [] (rb_root h) t n"
  by (auto simp: rb_tree_def rb_at_def holds_tree_def)

lemma rb_at_left: "rb_at h s c a (Node l a r) n \<Longrightarrow> \<exists>m. rb_at h s (InL a r # c) (rb_left h a) l m"
proof -
  assume r: "rb_at h s c a (Node l a r) n"
  show ?thesis
  proof (cases "rb_color h a = 0")
    case True
    then have "rb_at h s (InL a r # c) (rb_left h a) l (n - 1)"
      using r located_left [of h s c a l r] by (auto simp: rb_at_def)
    then show ?thesis by blast
  next
    case False
    then have "rb_at h s (InL a r # c) (rb_left h a) l n"
      using r located_left [of h s c a l r] by (auto simp: rb_at_def)
    then show ?thesis by blast
  qed
qed

lemma rb_at_right: "rb_at h s c a (Node l a r) n \<Longrightarrow> \<exists>m. rb_at h s (InR l a # c) (rb_right h a) r m"
proof -
  assume r: "rb_at h s c a (Node l a r) n"
  show ?thesis
  proof (cases "rb_color h a = 0")
    case True
    then have "rb_at h s (InR l a # c) (rb_right h a) r (n - 1)"
      using r located_right [of h s c a l r] by (auto simp: rb_at_def)
    then show ?thesis by blast
  next
    case False
    then have "rb_at h s (InR l a # c) (rb_right h a) r n"
      using r located_right [of h s c a l r] by (auto simp: rb_at_def)
    then show ?thesis by blast
  qed
qed

lemma rb_at_addr: "rb_at h s c p (Node l a r) n \<Longrightarrow> p = a"
  by (simp add: rb_at_def located_def)

lemma rb_at_leaf: "rb_at h s c p t n \<Longrightarrow> p = s \<longleftrightarrow> t = Leaf"
  using tree_at_set [of h s "up h c p" p t] by (auto simp: rb_at_def located_def)

text \<open>The missing child where a node belongs: nothing before it is right of the node, everything after it is.\<close>

definition gap :: "rbheap \<Rightarrow> addr \<Rightarrow> (addr \<Rightarrow> bool) \<Rightarrow> addr list \<Rightarrow> addr \<Rightarrow> bool \<Rightarrow> frame \<Rightarrow> frame list \<Rightarrow> bool" where
  "gap h s P xs q goleft f c \<longleftrightarrow> (\<exists>m. rb_at h s (f # c) s Leaf m) \<and> frame_addr f = q \<and> goleft = (\<exists>r. f = InL q r)
     \<and> inorder (plug (f # c) Leaf) = xs
     \<and> (\<forall>x \<in> set (before (f # c)). \<not> P x) \<and> (\<forall>x \<in> set (after (f # c)). P x)"

lemma sorted_wrt_around: "sorted_wrt Q (xs @ a # ys) \<Longrightarrow> (\<forall>x \<in> set xs. Q x a) \<and> (\<forall>y \<in> set ys. Q a y)"
  by (simp add: sorted_wrt_append)

lemma mono_split:
  assumes "sorted_wrt (\<lambda>x y. P x \<longrightarrow> P y) (xs @ a # ys)"
  shows "P a \<Longrightarrow> \<forall>y \<in> set ys. P y" "\<not> P a \<Longrightarrow> \<forall>x \<in> set xs. \<not> P x"
proof -
  note q = sorted_wrt_around [OF assms]
  show "\<forall>y \<in> set ys. P y" if "P a"
  proof
    show "P y" if "y \<in> set ys" for y using mp [OF bspec [OF conjunct2 [OF q] that] \<open>P a\<close>] .
  qed
  show "\<forall>x \<in> set xs. \<not> P x" if "\<not> P a"
  proof (intro ballI notI)
    show False if "x \<in> set xs" "P x" for x
      using mp [OF bspec [OF conjunct1 [OF q] that(1)] that(2)] \<open>\<not> P a\<close> by contradiction
  qed
qed

lemma insert_descend_ok:
  "rb_at h s c p t n \<Longrightarrow> t \<noteq> Leaf \<Longrightarrow>
   sorted_wrt (\<lambda>x y. lt (rb_key h node) (rb_key h x) \<longrightarrow> lt (rb_key h node) (rb_key h y)) (inorder (plug c t)) \<Longrightarrow>
   (\<forall>x \<in> set (before c). \<not> lt (rb_key h node) (rb_key h x)) \<Longrightarrow>
   (\<forall>x \<in> set (after c). lt (rb_key h node) (rb_key h x)) \<Longrightarrow>
   \<exists>q goleft f c'. insert_descend lt h s node p = Some (q, goleft)
     \<and> gap h s (\<lambda>x. lt (rb_key h node) (rb_key h x)) (inorder (plug c t)) q goleft f c'"
proof (induction t arbitrary: c p n)
  case (Node l a r)
  let ?P = "\<lambda>x. lt (rb_key h node) (rb_key h x)"
  note p = rb_at_addr [OF Node.prems(1)]
  note at = Node.prems(1) [unfolded p]
  have "sorted_wrt (\<lambda>x y. ?P x \<longrightarrow> ?P y) ((before c @ inorder l) @ a # inorder r @ after c)"
    using Node.prems(3) by (simp add: inorder_plug)
  note srt = mono_split [OF this]
  show ?case
  proof (cases "?P a")
    case True
    obtain m where m: "rb_at h s (InL a r # c) (rb_left h a) l m"
      using rb_at_left [OF at] ..
    have bef: "\<forall>x \<in> set (before (InL a r # c)). \<not> ?P x" using Node.prems(4) by simp
    have aft: "\<forall>x \<in> set (after (InL a r # c)). ?P x"
      using srt(1) [OF True] Node.prems(5) True unfolding after.simps set_append list.set by blast
    have same: "plug (InL a r # c) l = plug c (Node l a r)" by simp
    have step: "insert_descend lt h s node p =
        (if rb_left h a = s then Some (a, True) else insert_descend lt h s node (rb_left h a))"
      using True unfolding p by (subst insert_descend.simps) simp
    show ?thesis
    proof (cases "l = Leaf")
      case l: True
      have e: "rb_left h a = s" using rb_at_leaf [OF m] l by blast
      have "gap h s ?P (inorder (plug c (Node l a r))) a True (InL a r) c"
        unfolding gap_def same [symmetric] using m bef aft unfolding l e by auto
      then show ?thesis using step e by auto
    next
      case False
      then have "rb_left h a \<noteq> s" using rb_at_leaf [OF m] by blast
      then show ?thesis
        using Node.IH(1) [OF m False _ bef aft] Node.prems(3) unfolding same step by auto
    qed
  next
    case False
    obtain m where m: "rb_at h s (InR l a # c) (rb_right h a) r m"
      using rb_at_right [OF at] ..
    have aft: "\<forall>x \<in> set (after (InR l a # c)). ?P x" using Node.prems(5) by simp
    have bef: "\<forall>x \<in> set (before (InR l a # c)). \<not> ?P x"
      using srt(2) [OF False] Node.prems(4) False unfolding before.simps set_append list.set by blast
    have same: "plug (InR l a # c) r = plug c (Node l a r)" by simp
    have step: "insert_descend lt h s node p =
        (if rb_right h a = s then Some (a, False) else insert_descend lt h s node (rb_right h a))"
      using False unfolding p by (subst insert_descend.simps) simp
    show ?thesis
    proof (cases "r = Leaf")
      case r: True
      have e: "rb_right h a = s" using rb_at_leaf [OF m] r by blast
      have "gap h s ?P (inorder (plug c (Node l a r))) a False (InR l a) c"
        unfolding gap_def same [symmetric] using m bef aft unfolding r e by auto
      then show ?thesis using step e by auto
    next
      case False
      then have "rb_right h a \<noteq> s" using rb_at_leaf [OF m] by blast
      then show ?thesis
        using Node.IH(2) [OF m False _ bef aft] Node.prems(3) unfolding same step by auto
    qed
  qed
qed simp

section \<open>Insertion\<close>

lemma link_node:
  assumes at: "rb_at h s (f # c) s Leaf n" and node: "node \<noteq> s" "node \<notin> set (before (f # c)) \<union> set (after (f # c))"
  shows "red_node (ngx_rbt_red node (set_right node s (set_left node s (set_parent node (frame_addr f)
      (relink (f # c) node h))))) s (f # c) node Leaf Leaf n"
proof -
  let ?r = "relink (f # c) node h"
  let ?h = "set_right node s (set_left node s (set_parent node (frame_addr f) ?r))"
  have n: "n = 0" using at by (simp add: rb_at_def)
  have "ctx_at ?r s (f # c) node"
    using at by (intro relink_at) (auto simp: rb_at_def located_def)
  then have "ctx_at ?h s (f # c) node"
    by (rule ctx_same) (use node(2) in \<open>auto simp: set_defs\<close>)
  then have loc: "located ?h s (f # c) node (Node Leaf node Leaf)"
    using at node by (auto simp: located_def rb_at_def set_defs)
  have "cbt ((rb_color h)(node := 1)) (f # c) n"
    using at node(2) by (subst cbt_cong [of _ _ "rb_color h"]) (auto simp: rb_at_def)
  moreover have "rb_color ?h = rb_color h" by (simp add: set_defs relink_sel)
  ultimately show ?thesis
    using loc at n node(1) by (simp add: red_node_def ngx_rbt_red_def rb_at_def del: cbt.simps)
qed

definition put_in :: "(addr \<Rightarrow> bool) \<Rightarrow> addr \<Rightarrow> addr list \<Rightarrow> addr list" where
  "put_in P x xs = takeWhile (\<lambda>y. \<not> P y) xs @ x # dropWhile (\<lambda>y. \<not> P y) xs"

lemma put_in_split: "\<forall>x \<in> set bs. \<not> P x \<Longrightarrow> \<forall>x \<in> set as. P x \<Longrightarrow> put_in P x (bs @ as) = bs @ x # as"
  by (cases as) (simp_all add: put_in_def takeWhile_append dropWhile_append)

lemma insert_ok:
  assumes t: "rb_tree h s t" and node: "node \<noteq> s" "node \<notin> set (inorder t)"
    and mono: "sorted_wrt (\<lambda>x y. lt (rb_key h node) (rb_key h x) \<longrightarrow> lt (rb_key h node) (rb_key h y)) (inorder t)"
  shows "\<exists>h' t'. ngx_rbtree_insert (insert_at lt) s node h = Some h' \<and> rb_tree h' s t' \<and> rb_key h' = rb_key h
     \<and> inorder t' = put_in (\<lambda>x. lt (rb_key h node) (rb_key h x)) node (inorder t)"
proof (cases t)
  case Leaf
  then have r: "rb_root h = s" using t by (auto simp: rb_tree_def holds_tree_def located_def)
  let ?h = "set_root node (ngx_rbt_black node (set_right node s (set_left node s (set_parent node NULL h))))"
  have "located ?h s [] node (Node Leaf node Leaf)"
    using node(1) by (simp add: located_def set_defs ngx_rbt_black_def)
  then have "rb_tree ?h s (Node Leaf node Leaf)"
    using t node(1) by (auto simp: rb_tree_def holds_tree_def set_defs ngx_rbt_black_def intro: exI [of _ 1])
  moreover have "rb_key ?h = rb_key h" by (simp add: set_defs ngx_rbt_black_def)
  ultimately show ?thesis using Leaf r by (auto simp: ngx_rbtree_insert_def put_in_def)
next
  case (Node l a r)
  let ?P = "\<lambda>x. lt (rb_key h node) (rb_key h x)"
  obtain n where "rb_at h s [] (rb_root h) t n" using rb_at_root [OF t] by blast
  from insert_descend_ok [OF this, of lt node] Node mono obtain q goleft f c where
    d1: "insert_descend lt h s node (rb_root h) = Some (q, goleft)" "gap h s ?P (inorder t) q goleft f c"
    by auto
  then obtain m where d: "insert_descend lt h s node (rb_root h) = Some (q, goleft)" "rb_at h s (f # c) s Leaf m"
      "frame_addr f = q" "goleft = (\<exists>r. f = InL q r)" "inorder (plug (f # c) Leaf) = inorder t"
      "\<forall>x \<in> set (before (f # c)). \<not> ?P x" "\<forall>x \<in> set (after (f # c)). ?P x"
    unfolding gap_def by blast
  have xs: "inorder t = before (f # c) @ after (f # c)" using d(5) by (simp only: inorder_plug inorder.simps) simp
  have root: "rb_root h \<noteq> s" using t Node by (auto simp: rb_tree_def holds_tree_def located_def)
  have rl: "relink (f # c) node h = (if goleft then set_left q node h else set_right q node h)"
    using d(3,4) by (cases f) (auto simp: relink_def)
  let ?h = "ngx_rbt_red node (set_right node s (set_left node s (set_parent node q (relink (f # c) node h))))"
  have ins: "ngx_rbtree_insert (insert_at lt) s node h = insert_fix s node ?h"
    using root d(1) by (simp add: ngx_rbtree_insert_def insert_at_def Let_def rl)
  have "red_node ?h s (f # c) node Leaf Leaf m"
    using link_node [OF d(2) node(1)] node(2) xs d(3) by auto
  from insert_fix_ok [OF this] obtain h' t' where
    h': "insert_fix s node ?h = Some h'" "rb_tree h' s t'" "rb_key h' = rb_key ?h"
      "inorder t' = inorder (plug (f # c) (Node Leaf node Leaf))" by blast
  have "rb_key ?h = rb_key h" by (simp add: ngx_rbt_red_def relink_sel) (simp add: set_defs relink_sel)
  moreover have "inorder t' = put_in ?P node (inorder t)"
    unfolding xs put_in_split [OF d(6,7)] using h'(4) by (simp only: inorder_plug inorder.simps) simp
  ultimately show ?thesis using ins h' by auto
qed

section \<open>Minimum and successor\<close>

lemma min_ok:
  "tree_at h s par p t \<Longrightarrow> t \<noteq> Leaf \<Longrightarrow> ngx_rbtree_min h s p = Some (hd (inorder t))"
proof (induction t arbitrary: par p)
  case (Node l a r)
  show ?case
  proof (cases l)
    case Leaf
    then show ?thesis using Node.prems by (subst ngx_rbtree_min.simps) simp
  next
    case n: Node
    then have "rb_left h a \<noteq> s" using Node.prems(1) by simp
    then have "ngx_rbtree_min h s p = ngx_rbtree_min h s (rb_left h a)"
      using Node.prems(1) by (subst ngx_rbtree_min.simps) simp
    also have "\<dots> = Some (hd (inorder l))"
      using Node.IH(1) [of a "rb_left h a"] Node.prems(1) n by simp
    also have "hd (inorder l) = hd (inorder (Node l a r))" using n by (simp add: hd_append)
    finally show ?thesis .
  qed
qed simp

text \<open>The successor of a node in the tree, \<open>NULL\<close> for the last one.\<close>

lemma climb_ok:
  "located h s c p t \<Longrightarrow> t \<noteq> Leaf \<Longrightarrow>
   next_climb h (rb_root h) p = Some (case after c of [] \<Rightarrow> NULL | a # _ \<Rightarrow> a)"
proof (induction c arbitrary: p t)
  case Nil
  then show ?case by (subst next_climb.simps) (simp add: located_def)
next
  case (Cons f c)
  have pt: "p \<in> set (inorder t)" using Cons.prems tree_at_set by (auto simp: located_def)
  have nr: "p \<noteq> rb_root h" using root_in_ctx [of h s "f # c" p] Cons.prems(1) pt by (auto simp: located_def)
  have par: "rb_parent h p = frame_addr f" "p \<noteq> s" using Cons.prems by (cases t; auto simp: located_def)+
  show ?case
  proof (cases f)
    case (InL a r)
    then show ?thesis using Cons.prems(1) nr par by (subst next_climb.simps) (simp add: located_def)
  next
    case (InR l a)
    have "rb_left h a \<noteq> p"
      using Cons.prems(1) InR pt tree_at_set [of h s a "rb_left h a" l] par(2) by (cases "l = Leaf") (auto simp: located_def)
    then have "next_climb h (rb_root h) p = next_climb h (rb_root h) a"
      using nr par InR by (subst next_climb.simps) simp
    then show ?thesis using Cons.IH [OF located_up(2)] Cons.prems(1) InR by simp
  qed
qed

lemma next_ok:
  assumes "located h s c a (Node l a r)"
  shows "ngx_rbtree_next s h a = Some (case inorder r @ after c of [] \<Rightarrow> NULL | x # _ \<Rightarrow> x)"
proof (cases r)
  case Leaf
  then have "rb_right h a = s" using assms by (simp add: located_def)
  then show ?thesis using climb_ok [OF assms] Leaf by (simp add: ngx_rbtree_next_def)
next
  case (Node x b y)
  have tr: "tree_at h s a (rb_right h a) r" using assms by (simp add: located_def)
  have ne: "r \<noteq> Leaf" using Node by simp
  have "rb_right h a \<noteq> s" using tree_at_set [OF tr] ne by blast
  then show ?thesis using min_ok [OF tr ne] ne by (cases "inorder r") (simp_all add: ngx_rbtree_next_def)
qed

text \<open>Every node of the tree has a position.\<close>

lemma locate:
  "located h s c p t \<Longrightarrow> a \<in> set (inorder t) \<Longrightarrow>
   \<exists>c' l r. located h s c' a (Node l a r) \<and> plug c' (Node l a r) = plug c t"
proof (induction t arbitrary: c p)
  case (Node l b r)
  have p: "p = b" using Node.prems(1) by (simp add: located_def)
  consider "a = b" | "a \<in> set (inorder l)" | "a \<in> set (inorder r)" using Node.prems(2) by auto
  then show ?case
  proof cases
    case 1
    then show ?thesis using Node.prems(1) p by blast
  next
    case 2
    then show ?thesis using Node.IH(1) [of "InL b r # c"] Node.prems(1) located_left p by fastforce
  next
    case 3
    then show ?thesis using Node.IH(2) [of "InR l b # c"] Node.prems(1) located_right p by fastforce
  qed
qed simp

end
