(* ===== verification/Rbtree_Fixup.thy ===== *)
theory Rbtree_Fixup
  imports Rbtree_Place
begin

text \<open>
  The loop at the end of the deletion: a position whose subtree lacks one black node moves up the tree
  until a rotation or a recolouring supplies the node.
\<close>

section \<open>Walking down\<close>

text \<open>The address a tree is at.\<close>

fun node_addr :: "addr \<Rightarrow> addr tree \<Rightarrow> addr" where
  "node_addr s Leaf = s"
| "node_addr s (Node l a r) = a"

lemma tree_at_top: "tree_at h s par p t \<Longrightarrow> p = node_addr s t"
  by (cases t) auto

lemma located_top: "located h s c p t \<Longrightarrow> p = node_addr s t"
  by (auto simp: located_def dest: tree_at_top)

lemma located_down:
  assumes "located h s c q (Node l a r)"
  shows "located h s (InL a r # c) (node_addr s l) l" "located h s (InR l a # c) (node_addr s r) r"
proof -
  have q: "q = a" using located_top [OF assms] by simp
  have "located h s (InL a r # c) (rb_left h a) l" "located h s (InR l a # c) (rb_right h a) r"
    using assms unfolding q by (auto simp: located_def)
  then show "located h s (InL a r # c) (node_addr s l) l" "located h s (InR l a # c) (node_addr s r) r"
    using located_top by metis+
qed

text \<open>Every position of the tree the heap holds.\<close>

lemma located_inside: "located h s c q (plug c' t) \<Longrightarrow> located h s (c' @ c) (node_addr s t) t"
proof (induction c' t arbitrary: q rule: plug.induct)
  case (1 t)
  then show ?case using located_top by fastforce
next
  case (2 a r c' t)
  then have "located h s (c' @ c) (node_addr s (Node t a r)) (Node t a r)" by simp
  from located_down(1) [OF this] show ?case by simp
next
  case (3 l a c' t)
  then have "located h s (c' @ c) (node_addr s (Node l a t)) (Node l a t)" by simp
  from located_down(2) [OF this] show ?case by simp
qed

section \<open>The position that lacks a black node\<close>

text \<open>A tree whose root becomes the missing black node when it is red.\<close>

fun rbt0 :: "colors \<Rightarrow> addr tree \<Rightarrow> nat \<Rightarrow> bool" where
  "rbt0 col Leaf n = (n = 0)"
| "rbt0 col (Node l a r) n =
     (if col a = 0 then n \<noteq> 0 \<and> rbt col l (n - 1) \<and> rbt col r (n - 1) else rbt col l n \<and> rbt col r n)"

lemma rbt_rbt0: "rbt col t n \<Longrightarrow> rbt0 col t n"
  by (cases t) auto

lemma rbt0_black: "rbt0 col t n \<Longrightarrow> root_black col t \<Longrightarrow> rbt col t n"
  by (cases t) auto

lemma rbt0_mir [simp]: "rbt0 col (mirror t) n = rbt0 col t n"
  by (cases t) auto

definition hole :: "rbheap \<Rightarrow> addr \<Rightarrow> frame list \<Rightarrow> addr \<Rightarrow> addr tree \<Rightarrow> nat \<Rightarrow> bool" where
  "hole h s c p t n \<longleftrightarrow> located h s c p t \<and> rb_color h s = 0 \<and> rbt0 (rb_color h) t n \<and> cbt (rb_color h) c (Suc n)
     \<and> (c \<noteq> [] \<longrightarrow> rb_parent h p = frame_addr (hd c))"

lemma hole_mir: "hole (mir h) s (mir_ctx c) p (mirror t) n \<longleftrightarrow> hole h s c p t n"
  unfolding hole_def located_mir rbt0_mir cbt_mir mir_sel by (cases c) simp_all

text \<open>The root of a completed context is black.\<close>

lemma cbt_root: "cbt col c n \<Longrightarrow> c \<noteq> [] \<Longrightarrow> root_black col (plug c t)"
proof (induction c arbitrary: n t)
  case (Cons f c)
  define u where "u = (case f of InL a r \<Rightarrow> Node t a r | InR l a \<Rightarrow> Node l a t)"
  have p: "plug (f # c) t = plug c u" by (cases f) (simp_all add: u_def)
  show ?case
  proof (cases "c = []")
    case True
    then show ?thesis using Cons.prems by (cases f) (auto split: if_splits)
  next
    case False
    then show ?thesis unfolding p using Cons.prems by (auto split: if_splits intro: Cons.IH)
  qed
qed simp

text \<open>Making the root of the subtree black ends the repair, at the root or at a red node.\<close>

lemma fill_hole:
  assumes hl: "hole h s c p t n" and fin: "c = [] \<or> rb_color h p \<noteq> 0"
  shows "rb_tree (ngx_rbt_black p h) s (plug c t)"
proof -
  have loc: "located h s c p t" and s0: "rb_color h s = 0" and t: "rbt0 (rb_color h) t n"
    and c: "cbt (rb_color h) c (Suc n)" using hl by (auto simp: hole_def)
  let ?col = "(rb_color h)(p := 0)"
  have H: "holds_tree (ngx_rbt_black p h) s (plug c t)"
    using located_plug [OF loc] by (simp add: ngx_rbt_black_def holds_tree_def)
  obtain m where m: "rbt ?col t m" "c = [] \<or> m = Suc n"
  proof (cases t)
    case Leaf
    then have "p = s" using loc by (simp add: located_def)
    then show ?thesis using that [of 0] fin s0 Leaf by simp
  next
    case (Node l a r)
    then have pa: "p = a" and d: "distinct (inorder l @ a # inorder r)" using loc by (auto simp: located_def)
    have lr: "rbt ?col l k = rbt (rb_color h) l k" "rbt ?col r k = rbt (rb_color h) r k" for k
      using d pa by (intro rbt_cong; auto)+
    show ?thesis
    proof (cases "rb_color h p = 0")
      case True
      then show ?thesis using that [of n] t Node pa lr fin by simp
    next
      case False
      then show ?thesis using that [of "Suc n"] t Node pa lr by simp
    qed
  qed
  have rb: "root_black ?col t" using loc by (cases t) (auto simp: located_def)
  show ?thesis
  proof (cases "c = []")
    case True
    then show ?thesis using H m(1) rb s0 by (auto simp: rb_tree_def ngx_rbt_black_def)
  next
    case False
    have "t \<noteq> Leaf" using False fin loc s0 by (cases t) (auto simp: located_def)
    then have "p \<in> set (inorder t)" using loc tree_at_set by (auto simp: located_def)
    then have "cbt ?col c (Suc n)"
      using c loc by (subst cbt_cong [of _ _ "rb_color h"]) (auto simp: located_def)
    then have "root_black ?col (plug c t)" "\<exists>k. rbt ?col (plug c t) k"
      using cbt_root False plug_rbt [of ?col t m c] m rb by auto
    then show ?thesis using H s0 by (auto simp: rb_tree_def ngx_rbt_black_def)
  qed
qed

section \<open>The cases of one iteration\<close>

text \<open>The repaired state in which the loop stops at the root.\<close>

definition repaired :: "rbheap \<Rightarrow> addr \<Rightarrow> addr list \<Rightarrow> bool" where
  "repaired h s xs \<longleftrightarrow> (\<exists>c y t n. located h s c y t \<and> rb_color h s = 0 \<and> rbt (rb_color h) t n
     \<and> cbt (rb_color h) c n \<and> (c \<noteq> [] \<longrightarrow> root_black (rb_color h) t \<or> rb_color h (frame_addr (hd c)) = 0)
     \<and> inorder (plug c t) = xs)"

lemma repaired_mir: "repaired h s xs \<Longrightarrow> repaired (mir h) s (rev xs)"
  unfolding repaired_def
  by (elim exE conjE, rule_tac x = "mir_ctx c" in exI, rule_tac x = y in exI, rule_tac x = "mirror t" in exI,
      rule_tac x = n in exI) (auto simp: located_mir inorder_plug_mir hd_map)

text \<open>A red sibling is rotated away; the sibling is black then, and the parent red.\<close>

lemma sibling_red:
  assumes hl: "hole h s (InL p W # c) t T n" and w: "rb_color h (rb_right h p) \<noteq> 0"
  defines "w \<equiv> rb_right h p"
  defines "h' \<equiv> ngx_rbtree_left_rotate s p (ngx_rbt_red p (ngx_rbt_black w h))"
  assumes tb: "root_black (rb_color h) T"
  shows "\<exists>W' c'. hole h' s (InL p W' # c') t T n \<and> rb_color h' p \<noteq> 0 \<and> root_black (rb_color h') W'
     \<and> root_black (rb_color h') T \<and> rb_key h' = rb_key h
     \<and> inorder (plug (InL p W' # c') T) = inorder (plug (InL p W # c) T)"
proof -
  have loc: "located h s (InL p W # c) t T" and s0: "rb_color h s = 0" and T: "rbt0 (rb_color h) T n"
    and cb: "rbt (rb_color h) W (Suc n)" "cbt (rb_color h) (InL p W # c) (Suc n)"
    and par: "rb_parent h t = p"
    using hl by (auto simp: hole_def)
  obtain A B where W: "W = Node A w B"
    using loc w s0 unfolding w_def by (cases W) (auto simp: located_def)
  have wr: "rb_color h w \<noteq> 0" using w by (simp add: w_def)
  have p0: "rb_color h p = 0" using cb(2) W wr by (auto split: if_splits)
  have AB: "rbt (rb_color h) A (Suc n)" "rbt (rb_color h) B (Suc n)" "root_black (rb_color h) A" "root_black (rb_color h) B"
    using cb(1) W wr by auto
  have c2: "cbt (rb_color h) c (Suc (Suc n))" using cb(2) p0 by simp
  have locP: "located h s c p (Node T p (Node A w B))" using located_up(1) [OF loc] W by simp
  have dist: "distinct (before c @ inorder T @ p # inorder A @ w # inorder B @ after c)"
    and snot: "s \<notin> {p, w}" "s \<notin> set (inorder T)" using locP tree_at_set by (auto simp: located_def)
  let ?h2 = "ngx_rbt_red p (ngx_rbt_black w h)"
  have "located ?h2 s c p (Node T p (Node A w B))" using locP by (simp add: ngx_rbt_red_def ngx_rbt_black_def)
  note rot = left_rotate_located [OF this, folded h'_def]
  let ?col = "(rb_color h)(w := 0, p := 1)"
  have col: "rb_color h' = ?col" "rb_key h' = rb_key h"
    using rot by (simp_all add: same_cells_def ngx_rbt_red_def ngx_rbt_black_def)
  have l': "located h' s (InL p A # InL w B # c) t T"
  proof -
    have "located h' s c w (Node (Node T p A) w B)" using rot by blast
    from located_down(1) [OF located_down(1) [OF this]]
    show ?thesis using located_top [OF loc] by simp
  qed
  have par': "rb_parent h' t = p"
  proof (cases "T = Leaf")
    case True
    then have "t = s" using loc by (simp add: located_def)
    moreover have "s \<notin> set (before c) \<union> set (after c)" "s \<notin> set (inorder A) \<union> set (inorder B)"
      using locP ctx_at_set tree_at_set by (auto simp: located_def)
    ultimately show ?thesis using rot True snot par by (auto simp: ngx_rbt_red_def ngx_rbt_black_def)
  next
    case False
    then show ?thesis using l' by (cases T) (auto simp: located_def)
  qed
  have "rbt0 ?col T n"
    using rbt0_black [OF T tb] dist by (intro rbt_rbt0, subst rbt_cong [of _ _ "rb_color h"]) auto
  moreover have "root_black ?col T" using tb dist by (subst root_black_cong [of _ _ "rb_color h"]) auto
  moreover have "rbt ?col A (Suc n)" "rbt ?col B (Suc n)" "root_black ?col A"
    using AB dist by (subst rbt_cong [of _ _ "rb_color h"] root_black_cong [of _ _ "rb_color h"]; auto)+
  moreover have "cbt ?col c (Suc (Suc n))" using c2 dist by (subst cbt_cong [of _ _ "rb_color h"]) auto
  moreover have "?col s = 0" "?col w = 0" "?col p = 1" using s0 snot dist by auto
  ultimately have "hole h' s (InL p A # InL w B # c) t T n \<and> rb_color h' p \<noteq> 0 \<and> root_black (rb_color h') A
      \<and> root_black (rb_color h') T"
    using l' par' unfolding hole_def col(1) by simp
  then show ?thesis using col(2) W
    by (intro exI [of _ A] exI [of _ "InL w B # c"]) (simp add: inorder_plug)
qed

text \<open>A black sibling with black children becomes red, and the position moves to the parent.\<close>

lemma sibling_pale:
  assumes hl: "hole h s (InL p (Node A w B) # c) t T n" and tb: "root_black (rb_color h) T"
    and w: "rb_color h w = 0" "root_black (rb_color h) A" "root_black (rb_color h) B"
  shows "hole (ngx_rbt_red w h) s c p (Node T p (Node A w B)) (if rb_color h p = 0 then Suc n else n)"
proof -
  have loc: "located h s (InL p (Node A w B) # c) t T" and s0: "rb_color h s = 0" and T: "rbt (rb_color h) T n"
    and cb: "cbt (rb_color h) (InL p (Node A w B) # c) (Suc n)"
    using hl rbt0_black tb by (auto simp: hole_def simp del: cbt.simps)
  have W: "rbt (rb_color h) (Node A w B) (Suc n)" using cb w(1) by simp
  have locP: "located h s c p (Node T p (Node A w B))" using located_up(1) [OF loc] .
  then have dist: "distinct (before c @ inorder T @ p # inorder A @ w # inorder B @ after c)" and snot: "s \<noteq> w"
    using tree_at_set by (auto simp: located_def)
  let ?col = "(rb_color h)(w := 1)"
  have AB: "rbt (rb_color h) A n" "rbt (rb_color h) B n" using W w(1) by simp_all
  have sub: "rbt ?col T n" "rbt ?col A n" "rbt ?col B n" "root_black ?col A" "root_black ?col B"
    using T AB w dist by (subst rbt_cong [of _ _ "rb_color h"] root_black_cong [of _ _ "rb_color h"]; auto)+
  have cc: "cbt ?col c k = cbt (rb_color h) c k" for k using dist by (intro cbt_cong) auto
  have v: "?col s = 0" "?col w = 1" "?col p = rb_color h p" using s0 snot dist by auto
  let ?m = "if rb_color h p = 0 then Suc n else n"
  have "rbt0 ?col (Node T p (Node A w B)) ?m" using sub v by simp
  moreover have "cbt ?col c (Suc ?m)" using cb cc by (auto split: if_splits)
  moreover have "located (ngx_rbt_red w h) s c p (Node T p (Node A w B))" using locP by (simp add: ngx_rbt_red_def)
  moreover have "c \<noteq> [] \<longrightarrow> rb_parent h p = frame_addr (hd c)" using locP by (cases c) (auto simp: located_def)
  moreover have "rb_color (ngx_rbt_red w h) = ?col" "rb_parent (ngx_rbt_red w h) = rb_parent h"
    by (simp_all add: ngx_rbt_red_def)
  ultimately show ?thesis using v(1) unfolding hole_def by metis
qed

text \<open>A black sibling whose far child is red: a rotation supplies the black node.\<close>

lemma sibling_far:
  assumes loc: "located h s (InL p (Node A w (Node b1 v b2)) # c) t T" and s0: "rb_color h s = 0"
    and T: "rbt (rb_color h) T n" and A: "rbt (rb_color h) A n"
    and B: "rbt (rb_color h) b1 n" "rbt (rb_color h) b2 n"
    and cb: "if rb_color h p = 0 then cbt (rb_color h) c (Suc (Suc n))
       else c \<noteq> [] \<and> rb_color h (frame_addr (hd c)) = 0 \<and> cbt (rb_color h) c (Suc n)"
  defines "h' \<equiv> ngx_rbtree_left_rotate s p (ngx_rbt_black v (ngx_rbt_black p (ngx_rbt_copy_color w p h)))"
  shows "repaired h' s (inorder (plug c (Node T p (Node A w (Node b1 v b2))))) \<and> rb_key h' = rb_key h"
proof -
  let ?h = "ngx_rbt_black v (ngx_rbt_black p (ngx_rbt_copy_color w p h))"
  note sets = ngx_rbt_black_def ngx_rbt_copy_color_def
  have locP: "located h s c p (Node T p (Node A w (Node b1 v b2)))" using located_up(1) [OF loc] .
  then have dist: "distinct (before c @ inorder T @ p # inorder A @ w # inorder b1 @ v # inorder b2 @ after c)"
    and snot: "s \<noteq> w" "s \<noteq> v" "s \<noteq> p"
    using tree_at_set by (auto simp: located_def)
  have "located ?h s c p (Node T p (Node A w (Node b1 v b2)))" using locP by (simp add: sets)
  note rot = left_rotate_located [OF this, folded h'_def]
  let ?col = "(rb_color h)(w := rb_color h p, p := 0, v := 0)"
  have col: "rb_color h' = ?col" "rb_key h' = rb_key h"
    using rot by (simp_all add: same_cells_def sets)
  have sub: "rbt ?col T n" "rbt ?col A n" "rbt ?col b1 n" "rbt ?col b2 n"
    using T A B dist by (subst rbt_cong [of _ _ "rb_color h"]; auto)+
  have cc: "cbt ?col c k = cbt (rb_color h) c k" for k using dist by (intro cbt_cong) auto
  have hc: "?col (frame_addr (hd c)) = rb_color h (frame_addr (hd c))" if "c \<noteq> []"
    using dist that frame_addr_in [of "hd c" "tl c"] by auto
  let ?N = "Node (Node T p A) w (Node b1 v b2)"
  let ?m = "if rb_color h p = 0 then Suc (Suc n) else Suc n"
  have v: "?col w = rb_color h p" "?col p = 0" "?col v = 0" "?col s = 0" using dist snot s0 by auto
  have "rbt k ?N ?m" if "rbt k T n" "rbt k A n" "rbt k b1 n" "rbt k b2 n" "k w = rb_color h p" "k p = 0" "k v = 0" for k
    using that by simp
  note N = this [OF sub v(1-3)]
  have C: "cbt ?col c ?m" "c \<noteq> [] \<longrightarrow> root_black ?col ?N \<or> ?col (frame_addr (hd c)) = 0"
    using cb cc hc v by (auto split: if_splits)
  have "located h' s c w ?N" using rot by blast
  moreover have "inorder (plug c ?N) = inorder (plug c (Node T p (Node A w (Node b1 v b2))))"
    by (simp add: inorder_plug)
  ultimately show ?thesis unfolding repaired_def col(1) using N C v(4) col(2) by blast
qed

text \<open>A black sibling whose near child only is red is rotated first.\<close>

lemma sibling_near:
  assumes loc: "located h s (InL p (Node (Node a1 v a2) w B) # c) t T" and s0: "rb_color h s = 0"
    and par: "rb_parent h t = p"
    and T: "rbt (rb_color h) T n" and a: "rbt (rb_color h) a1 n" "rbt (rb_color h) a2 n" "rbt (rb_color h) B n"
    and cb: "if rb_color h p = 0 then cbt (rb_color h) c (Suc (Suc n))
       else c \<noteq> [] \<and> rb_color h (frame_addr (hd c)) = 0 \<and> cbt (rb_color h) c (Suc n)"
  defines "h1 \<equiv> ngx_rbtree_right_rotate s w (ngx_rbt_red w (ngx_rbt_black v h))"
  defines "h' \<equiv> ngx_rbtree_left_rotate s p (ngx_rbt_black w (ngx_rbt_black p (ngx_rbt_copy_color v p h1)))"
  shows "repaired h' s (inorder (plug c (Node T p (Node (Node a1 v a2) w B)))) \<and> rb_key h' = rb_key h
    \<and> rb_parent h1 t = p \<and> rb_right h1 p = v \<and> rb_right h1 v = w"
proof -
  let ?h = "ngx_rbt_red w (ngx_rbt_black v h)"
  have locP: "located h s c p (Node T p (Node (Node a1 v a2) w B))" using located_up(1) [OF loc] .
  then have dist: "distinct (before c @ inorder T @ p # inorder a1 @ v # inorder a2 @ w # inorder B @ after c)"
    and snot: "s \<notin> {w, v, p}" "s \<notin> set (inorder a1) \<union> set (inorder a2) \<union> set (inorder B) \<union> set (inorder T)"
      "s \<notin> set (before c) \<union> set (after c)"
    using tree_at_set ctx_at_set by (auto simp: located_def)
  have "located ?h s (InR T p # c) w (Node (Node a1 v a2) w B)"
    using located_down(2) [OF locP] by (simp add: ngx_rbt_red_def ngx_rbt_black_def)
  note rot = right_rotate_located [OF this, folded h1_def]
  let ?col = "(rb_color h)(v := 0, w := 1)"
  have col: "rb_color h1 = ?col" "rb_key h1 = rb_key h"
    using rot(2) by (simp_all add: same_cells_def ngx_rbt_red_def ngx_rbt_black_def)
  note up1 = located_up(2) [OF rot(1)]
  have l1: "located h1 s (InL p (Node a1 v (Node a2 w B)) # c) t T"
    using located_down(1) [OF up1] located_top [OF loc] by simp
  have ptr: "rb_right h1 p = v" "rb_right h1 v = w" using up1 by (auto simp: located_def)
  have par1: "rb_parent h1 t = p"
  proof (cases "T = Leaf")
    case True
    then have "t = s" using loc by (simp add: located_def)
    then show ?thesis using rot(3) [of s] snot par True by (auto simp: ngx_rbt_red_def ngx_rbt_black_def)
  next
    case False
    then show ?thesis using l1 by (cases T) (auto simp: located_def)
  qed
  have hc: "?col (frame_addr (hd c)) = rb_color h (frame_addr (hd c))" if "c \<noteq> []"
    using dist that frame_addr_in [of "hd c" "tl c"] by auto
  have pc: "?col p = rb_color h p" "?col s = 0" using dist snot s0 by auto
  have sub: "rbt ?col T n" "rbt ?col a1 n" "rbt ?col a2 n" "rbt ?col B n"
    using T a dist by (subst rbt_cong [of _ _ "rb_color h"]; auto)+
  have cc: "cbt ?col c k = cbt (rb_color h) c k" for k using dist by (intro cbt_cong) auto
  have cb': "if ?col p = 0 then cbt ?col c (Suc (Suc n))
       else c \<noteq> [] \<and> ?col (frame_addr (hd c)) = 0 \<and> cbt ?col c (Suc n)"
    using cb hc unfolding pc cc by auto
  have "repaired h' s (inorder (plug c (Node T p (Node a1 v (Node a2 w B))))) \<and> rb_key h' = rb_key h1"
    unfolding h'_def
    by (rule sibling_far [OF l1, unfolded col(1), OF pc(2) sub cb'])
  then show ?thesis using ptr par1 col(2) by (simp add: inorder_plug)
qed

section \<open>The loop\<close>

text \<open>One iteration with the position on the left: the red sibling first, then the black one.\<close>

definition black_sibling :: "addr \<Rightarrow> addr \<Rightarrow> addr \<Rightarrow> rbheap \<Rightarrow> addr \<times> rbheap" where
  "black_sibling s temp w h1 =
     (if ngx_rbt_is_black h1 (rb_left h1 w) \<and> ngx_rbt_is_black h1 (rb_right h1 w)
           then (rb_parent h1 temp, ngx_rbt_red w h1)
           else
             let (w2, h2) = (if ngx_rbt_is_black h1 (rb_right h1 w) then
                               let ha = ngx_rbt_black (rb_left h1 w) h1;
                                   hb = ngx_rbt_red w ha;
                                   hc = ngx_rbtree_right_rotate s w hb
                               in (rb_right hc (rb_parent hc temp), hc)
                             else (w, h1));
                 h3 = ngx_rbt_copy_color w2 (rb_parent h2 temp) h2;
                 h4 = ngx_rbt_black (rb_parent h3 temp) h3;
                 h5 = ngx_rbt_black (rb_right h4 w2) h4;
                 h6 = ngx_rbtree_left_rotate s (rb_parent h5 temp) h5
             in (rb_root h6, h6))"

lemma delete_fix_step_left:
  assumes "rb_parent h t = p" "rb_left h p = t"
  shows "delete_fix_step s t h =
     (if ngx_rbt_is_red h (rb_right h p) then
        let hc = ngx_rbtree_left_rotate s p (ngx_rbt_red p (ngx_rbt_black (rb_right h p) h))
        in black_sibling s t (rb_right hc (rb_parent hc t)) hc
      else black_sibling s t (rb_right h p) h)"
  using assms
  by (simp add: delete_fix_step_def black_sibling_def Let_def ngx_rbt_red_def ngx_rbt_black_def)

text \<open>What an iteration that meets a black sibling leaves.\<close>

definition moved :: "rbheap \<Rightarrow> addr \<Rightarrow> addr \<Rightarrow> frame list \<Rightarrow> addr list \<Rightarrow> rbheap \<Rightarrow> bool \<Rightarrow> bool" where
  "moved h s t c xs h' red \<longleftrightarrow> rb_key h' = rb_key h \<and>
     ((\<exists>T n. hole h' s c t T n \<and> (red \<longrightarrow> rb_color h' t \<noteq> 0) \<and> inorder (plug c T) = xs)
      \<or> t = rb_root h' \<and> repaired h' s xs)"

lemma black_sibling_ok:
  assumes hl: "hole h s (InL p W # c) t T n" and tb: "root_black (rb_color h) T"
    and w: "rb_color h (rb_right h p) = 0" and step: "black_sibling s t (rb_right h p) h = (t', h')"
  shows "moved h s t' c (inorder (plug (InL p W # c) T)) h' (rb_color h p \<noteq> 0)"
proof -
  let ?w = "rb_right h p"
  have loc: "located h s (InL p W # c) t T" and s0: "rb_color h s = 0" and par: "rb_parent h t = p"
    using hl by (simp_all add: hole_def)
  have cb: "cbt (rb_color h) (InL p W # c) (Suc n)" using hl unfolding hole_def by blast
  have T: "rbt (rb_color h) T n" using hl rbt0_black tb by (simp add: hole_def)
  have W: "rbt (rb_color h) W (Suc n)" using cb by simp
  then obtain A w B where Weq: "W = Node A w B" by (cases W) auto
  have ww: "?w = w" and trA: "tree_at h s w (rb_left h w) A" and trB: "tree_at h s w (rb_right h w) B"
    and pw: "p \<noteq> w" "t \<noteq> w"
    using loc Weq tree_at_set [of h s p t T] by (auto simp: located_def)
  have w0: "rb_color h w = 0" using w ww by simp
  have AB: "rbt (rb_color h) A n" "rbt (rb_color h) B n" using W Weq w0 by simp_all
  have blk: "ngx_rbt_is_black h (rb_left h w) = root_black (rb_color h) A"
      "ngx_rbt_is_black h (rb_right h w) = root_black (rb_color h) B"
    using tree_at_red [OF trA s0] tree_at_red [OF trB s0] by (simp_all add: ngx_rbt_is_black_def ngx_rbt_is_red_def)
  have cb': "if rb_color h p = 0 then cbt (rb_color h) c (Suc (Suc n))
       else c \<noteq> [] \<and> rb_color h (frame_addr (hd c)) = 0 \<and> cbt (rb_color h) c (Suc n)"
    using cb by (auto split: if_splits)
  consider (pale) "root_black (rb_color h) A" "root_black (rb_color h) B"
    | (near) "\<not> root_black (rb_color h) A" "root_black (rb_color h) B"
    | (far) "\<not> root_black (rb_color h) B" by blast
  then show ?thesis
  proof cases
    case pale
    then have h': "t' = p" "h' = ngx_rbt_red w h" using step blk par ww by (simp_all add: black_sibling_def)
    have "rb_color h' p = rb_color h p" "rb_key h' = rb_key h" using pw by (simp_all add: h' ngx_rbt_red_def)
    then show ?thesis
      using sibling_pale [OF hl [unfolded Weq] tb w0 pale, folded h'(2)] h'(1) Weq unfolding moved_def by auto
  next
    case near
    then obtain a1 v a2 where A: "A = Node a1 v a2" "rb_color h v \<noteq> 0" by (cases A) auto
    have lv: "rb_left h w = v" using trA A by simp
    have a: "rbt (rb_color h) a1 n" "rbt (rb_color h) a2 n" using AB A by simp_all
    note res = sibling_near [OF loc [unfolded Weq A(1)] s0 par T a AB(2) cb']
    have "(t', h') = (let hc = ngx_rbtree_right_rotate s w (ngx_rbt_red w (ngx_rbt_black v h));
        h6 = ngx_rbtree_left_rotate s p (ngx_rbt_black w (ngx_rbt_black p (ngx_rbt_copy_color v p hc))) in (rb_root h6, h6))"
      using step near blk ww lv res unfolding black_sibling_def
      by (auto simp add: Let_def ngx_rbt_black_def ngx_rbt_copy_color_def)
    then show ?thesis using res Weq A(1) unfolding moved_def Let_def by auto
  next
    case far
    then obtain b1 v b2 where B: "B = Node b1 v b2" "rb_color h v \<noteq> 0" by (cases B) auto
    have rv: "rb_right h w = v" using trB B by simp
    have b: "rbt (rb_color h) b1 n" "rbt (rb_color h) b2 n" using AB B by simp_all
    note res = sibling_far [OF loc [unfolded Weq B(1)] s0 T AB(1) b cb']
    have "(t', h') = (let
        h6 = ngx_rbtree_left_rotate s p (ngx_rbt_black v (ngx_rbt_black p (ngx_rbt_copy_color w p h))) in (rb_root h6, h6))"
      using step far blk ww rv par unfolding black_sibling_def
      by (auto simp add: Let_def ngx_rbt_black_def ngx_rbt_copy_color_def)
    then show ?thesis using res Weq B(1) unfolding moved_def Let_def by auto
  qed
qed


text \<open>One iteration, with the position on the left.\<close>

lemma delete_fix_step_left_ok:
  assumes hl: "hole h s (InL p W # c) t T n" and tb: "root_black (rb_color h) T"
    and step: "delete_fix_step s t h = (t', h')"
  shows "moved h s t' c (inorder (plug (InL p W # c) T)) h' False \<or>
    (\<exists>c'. moved h s t' c' (inorder (plug (InL p W # c) T)) h' True)"
proof -
  have ptr: "rb_parent h t = p" "rb_left h p = t" using hl by (simp_all add: hole_def located_def)
  show ?thesis
  proof (cases "rb_color h (rb_right h p) = 0")
    case True
    have "black_sibling s t (rb_right h p) h = (t', h')"
      using step True unfolding delete_fix_step_left [OF ptr] by (simp add: ngx_rbt_is_red_def)
    from black_sibling_ok [OF hl tb True this] show ?thesis unfolding moved_def by blast
  next
    case False
    let ?hc = "ngx_rbtree_left_rotate s p (ngx_rbt_red p (ngx_rbt_black (rb_right h p) h))"
    from sibling_red [OF hl False tb] obtain W' c' where
      n: "hole ?hc s (InL p W' # c') t T n" "rb_color ?hc p \<noteq> 0" "root_black (rb_color ?hc) W'"
        "root_black (rb_color ?hc) T" "rb_key ?hc = rb_key h"
        "inorder (plug (InL p W' # c') T) = inorder (plug (InL p W # c) T)" by blast
    have "rb_parent ?hc t = p" using n(1) by (simp add: hole_def)
    then have st: "black_sibling s t (rb_right ?hc p) ?hc = (t', h')"
      using step False unfolding delete_fix_step_left [OF ptr] by (simp add: ngx_rbt_is_red_def Let_def)
    have "tree_at ?hc s p (rb_right ?hc p) W'" "rb_color ?hc s = 0" using n(1) by (simp_all add: hole_def located_def)
    then have "rb_color ?hc (rb_right ?hc p) = 0" using tree_at_red n(3) by blast
    from black_sibling_ok [OF n(1,4) this st]
    have "moved ?hc s t' c' (inorder (plug (InL p W # c) T)) h' True" unfolding n(6) using n(2) by simp
    then have "moved h s t' c' (inorder (plug (InL p W # c) T)) h' True" unfolding moved_def n(5) .
    then show ?thesis by blast
  qed
qed

text \<open>In either direction.\<close>

lemma delete_fix_step_mir:
  assumes "(t = rb_left h (rb_parent h t)) \<noteq> (t = rb_right h (rb_parent h t))"
  shows "delete_fix_step s t (mir h) = apsnd mir (delete_fix_step s t h)"
proof (cases "t = rb_left h (rb_parent h t)")
  case True
  then show ?thesis using assms
    by (simp add: delete_fix_step_def Let_def left_rotate_mir right_rotate_mir split: prod.split)
next
  case False
  then show ?thesis using assms
    by (simp add: delete_fix_step_def Let_def left_rotate_mir right_rotate_mir split: prod.split)
qed

lemma moved_mir: "moved (mir h) s t (mir_ctx c) (rev xs) (mir h') red \<Longrightarrow> moved h s t c xs h' red"
proof -
  assume m: "moved (mir h) s t (mir_ctx c) (rev xs) (mir h') red"
  then have k: "rb_key h' = rb_key h" by (simp add: moved_def)
  from m consider T n where "hole (mir h') s (mir_ctx c) t T n" "red \<longrightarrow> rb_color h' t \<noteq> 0"
      "inorder (plug (mir_ctx c) T) = rev xs"
    | "t = rb_root h'" "repaired (mir h') s (rev xs)"
    unfolding moved_def by auto
  then show ?thesis
  proof cases
    case 1
    have "hole h' s c t (mirror T) n" using hole_mir [of h' s c t "mirror T" n] 1(1) by simp
    moreover have "inorder (plug c (mirror T)) = xs" using inorder_plug_mir [of c "mirror T"] 1(3) by simp
    ultimately show ?thesis using 1(2) k unfolding moved_def by blast
  next
    case 2
    have "repaired h' s xs" using repaired_mir [OF 2(2)] by simp
    then show ?thesis using 2(1) k unfolding moved_def by blast
  qed
qed

lemma delete_fix_step_ok:
  assumes hl: "hole h s (f # c) t T n" and tb: "root_black (rb_color h) T"
    and step: "delete_fix_step s t h = (t', h')"
  shows "moved h s t' c (inorder (plug (f # c) T)) h' False \<or>
    (\<exists>c'. moved h s t' c' (inorder (plug (f # c) T)) h' True)"
proof (cases f)
  case (InL p W)
  then show ?thesis using delete_fix_step_left_ok [OF _ tb step] hl by blast
next
  case (InR W p)
  have loc: "located h s (InR W p # c) t T" and cb: "cbt (rb_color h) (InR W p # c) (Suc n)"
    and par: "rb_parent h t = p" using hl InR by (auto simp: hole_def simp del: cbt.simps)
  have "rbt (rb_color h) W (Suc n)" using cb by simp
  then have "W \<noteq> Leaf" by auto
  then have "rb_left h p \<noteq> t" "rb_right h p = t"
    using loc tree_at_set [of h s p "rb_left h p" W] tree_at_set [of h s p t T] by (auto simp: located_def)
  then have st: "delete_fix_step s t (mir h) = (t', mir h')"
    using delete_fix_step_mir [of t h s] par step by auto
  let ?T = "mirror T" and ?c = "InL p (mirror W) # mir_ctx c"
  have m: "inorder (plug ?c ?T) = rev (inorder (plug (f # c) T))"
    using inorder_plug_mir [of "f # c" T] InR by simp
  have "hole (mir h) s ?c t ?T n" using hole_mir [of h s "f # c" t T n] hl InR by simp
  from delete_fix_step_left_ok [OF this _ st, unfolded m] tb
  consider "moved (mir h) s t' (mir_ctx c) (rev (inorder (plug (f # c) T))) (mir h') False"
    | c' where "moved (mir h) s t' c' (rev (inorder (plug (f # c) T))) (mir h') True"
    by auto
  then show ?thesis
  proof cases
    case 1
    then show ?thesis using moved_mir by blast
  next
    case 2
    have "mir_ctx (mir_ctx c') = c'" by (simp add: map_idI)
    then show ?thesis using moved_mir [of h s t' "mir_ctx c'"] 2 by auto
  qed
qed

text \<open>The loop ends, and leaves a red-black tree of the same nodes in the same order.\<close>

lemma delete_fix_ok:
  "hole h s c t T n \<Longrightarrow>
   \<exists>h' T'. delete_fix s t h = Some h' \<and> rb_tree h' s T' \<and> rb_key h' = rb_key h \<and> inorder T' = inorder (plug c T)"
proof (induction "length c" arbitrary: h c t T n rule: less_induct)
  case less
  note hl = less.prems
  have stop: "\<exists>h' T'. delete_fix s u k = Some h' \<and> rb_tree h' s T' \<and> rb_key h' = rb_key k \<and> inorder T' = inorder (plug c' U)"
    if "hole k s c' u U m" "c' = [] \<or> rb_color k u \<noteq> 0" for k c' u U m
  proof -
    have "c' = [] \<Longrightarrow> u = rb_root k" using that(1) by (simp add: hole_def located_def)
    then have "delete_fix s u k = Some (ngx_rbt_black u k)"
      using that(2) by (subst delete_fix.simps) (auto simp: ngx_rbt_is_black_def ngx_rbt_is_red_def)
    then show ?thesis using fill_hole [OF that] by (auto simp: ngx_rbt_black_def)
  qed
  show ?case
  proof (cases "c = [] \<or> rb_color h t \<noteq> 0")
    case True
    then show ?thesis using stop [OF hl] by blast
  next
    case False
    then obtain f c1 where c: "c = f # c1" by (cases c) auto
    have loc: "located h s c t T" and s0: "rb_color h s = 0" using hl by (simp_all add: hole_def)
    have tb: "root_black (rb_color h) T" using loc False tree_at_red s0 by (auto simp: located_def)
    have nr: "t \<noteq> rb_root h"
    proof
      assume "t = rb_root h"
      then have "t \<in> set (before c) \<union> set (after c)" using root_in_ctx loc c by (auto simp: located_def)
      then show False using loc ctx_at_set [of h s c t] tree_at_set [of h s _ t T] by (auto simp: located_def)
    qed
    obtain t' h1 where st: "delete_fix_step s t h = (t', h1)" by fastforce
    have unf: "delete_fix s t h = delete_fix s t' h1"
      using nr False st by (subst delete_fix.simps) (simp add: ngx_rbt_is_black_def ngx_rbt_is_red_def)
    have rep: ?thesis if at: "t' = rb_root h1" and rp: "repaired h1 s (inorder (plug c T))" and k: "rb_key h1 = rb_key h"
    proof -
      obtain c' y u m where r: "located h1 s c' y u" "rb_color h1 s = 0" "rbt (rb_color h1) u m" "cbt (rb_color h1) c' m"
        "c' \<noteq> [] \<longrightarrow> root_black (rb_color h1) u \<or> rb_color h1 (frame_addr (hd c')) = 0"
        "inorder (plug c' u) = inorder (plug c T)" using rp unfolding repaired_def by blast
      have "delete_fix s t' h1 = Some (ngx_rbt_black (rb_root h1) h1)"
        unfolding at by (subst delete_fix.simps) simp
      moreover have "rb_tree (ngx_rbt_black (rb_root h1) h1) s (plug c' u)"
        using r(5) by (intro blacken_root [OF r(1-4)]) blast
      ultimately show ?thesis using unf r(6) k by (auto simp: ngx_rbt_black_def)
    qed
    from delete_fix_step_ok [OF hl [unfolded c] tb st, folded c]
    consider U m where "hole h1 s c1 t' U m" "inorder (plug c1 U) = inorder (plug c T)" "rb_key h1 = rb_key h"
      | c' U m where "hole h1 s c' t' U m" "rb_color h1 t' \<noteq> 0" "inorder (plug c' U) = inorder (plug c T)" "rb_key h1 = rb_key h"
      | "t' = rb_root h1" "repaired h1 s (inorder (plug c T))" "rb_key h1 = rb_key h"
      unfolding moved_def by blast
    then show ?thesis
    proof cases
      case 1
      then show ?thesis using less.hyps [OF _ 1(1)] unf c by auto
    next
      case 2
      then show ?thesis using stop [OF 2(1)] unf by auto
    next
      case 3
      then show ?thesis by (rule rep)
    qed
  qed
qed

end
