(* ===== verification/Rbtree_Delete.thy ===== *)
theory Rbtree_Delete
  imports Rbtree_Fixup
begin

text \<open>
  The deletion: taking a node with at most one child out of its place, putting the successor in the place of
  a node with two children, and the loop of \<open>Rbtree_Fixup\<close>.
\<close>

section \<open>Positions\<close>

lemma plug_append: "plug (c @ c') t = plug c' (plug c t)"
  by (induction c t rule: plug.induct) simp_all

lemma before_append: "before (c @ c') = before c' @ before c"
  by (induction c rule: before.induct) simp_all

lemma after_append: "after (c @ c') = after c @ after c'"
  by (induction c rule: after.induct) simp_all

text \<open>The leftmost node of a tree.\<close>

lemma min_split: "t \<noteq> Leaf \<Longrightarrow> \<exists>c x R. t = plug c (Node Leaf x R) \<and> before c = []"
proof (induction t)
  case (Node l a r)
  show ?case
  proof (cases "l = Leaf")
    case True
    then have "Node l a r = plug [] (Node Leaf a r)" by simp
    then show ?thesis by fastforce
  next
    case False
    then obtain c x R where "l = plug c (Node Leaf x R)" "before c = []" using Node.IH(1) by blast
    then have "Node l a r = plug (c @ [InL a r]) (Node Leaf x R)" "before (c @ [InL a r]) = []"
      by (simp_all add: plug_append before_append)
    then show ?thesis by blast
  qed
qed simp

lemma rbt_plug_inv:
  "rbt col (plug c t) m \<Longrightarrow> (c \<noteq> [] \<longrightarrow> root_black col (plug c t)) \<Longrightarrow>
   \<exists>n. rbt col t n \<and> cbt col c n \<and> (c \<noteq> [] \<longrightarrow> root_black col t \<or> col (frame_addr (hd c)) = 0)"
proof (induction c arbitrary: t)
  case Nil
  then show ?case by auto
next
  case (Cons f c)
  define u where "u = (case f of InL a r \<Rightarrow> Node t a r | InR l a \<Rightarrow> Node l a t)"
  have p: "plug (f # c) t = plug c u" by (cases f) (simp_all add: u_def)
  obtain n where n: "rbt col u n" "cbt col c n" "c \<noteq> [] \<longrightarrow> root_black col u \<or> col (frame_addr (hd c)) = 0"
    using Cons.IH [of u] Cons.prems unfolding p by auto
  have ub: "root_black col u = (col (frame_addr f) = 0)" by (cases f) (simp_all add: u_def)
  have b: "c = [] \<Longrightarrow> col (frame_addr f) = 0" using Cons.prems(2) ub unfolding p by simp
  have t: "if col (frame_addr f) = 0 then n \<noteq> 0 \<and> rbt col t (n - 1) \<and> rbt col (sib f) (n - 1)
      else root_black col t \<and> root_black col (sib f) \<and> rbt col t n \<and> rbt col (sib f) n"
    using n(1) by (cases f) (auto simp: u_def)
  show ?case
  proof (cases "col (frame_addr f) = 0")
    case True
    then show ?thesis using t n(2) by (intro exI [of _ "n - 1"]) auto
  next
    case False
    then show ?thesis using t n(2,3) b ub by (intro exI [of _ n]) auto
  qed
qed

lemma locate_rb:
  assumes "rb_tree h s t" "a \<in> set (inorder t)"
  shows "\<exists>c l r. t = plug c (Node l a r) \<and> located h s c a (Node l a r)"
  using assms locate [of h s "[]" "rb_root h" t a] by (fastforce simp: rb_tree_def holds_tree_def)

lemma colours_at:
  assumes "rb_tree h s (plug c t)"
  shows "\<exists>n. rbt (rb_color h) t n \<and> cbt (rb_color h) c n
    \<and> (c \<noteq> [] \<longrightarrow> root_black (rb_color h) t \<or> rb_color h (frame_addr (hd c)) = 0)"
  using assms rbt_plug_inv by (auto simp: rb_tree_def)

text \<open>A completed context with a well-coloured tree is a red-black tree.\<close>

lemma rb_tree_plug:
  assumes "located h s c p t" "rb_color h s = 0" "rbt (rb_color h) t n" "cbt (rb_color h) c n" "c \<noteq> []"
    "root_black (rb_color h) t \<or> rb_color h (frame_addr (hd c)) = 0"
  shows "rb_tree h s (plug c t)"
  using located_plug [OF assms(1)] plug_rbt [OF assms(3,4)] cbt_root [OF assms(4,5)] assms(2,6)
  by (auto simp: rb_tree_def)

section \<open>Taking a node out\<close>

lemma clear_located:
  assumes a: "a \<notin> set (before c @ inorder t @ after c)" and loc: "located h s c p t"
  shows "located (clear_node a h) s c p t"
proof -
  have ne: "rb_left (clear_node a h) b = rb_left h b" "rb_right (clear_node a h) b = rb_right h b"
    "rb_parent (clear_node a h) b = rb_parent h b" if "b \<noteq> a" for b
    using that by (simp_all add: clear_node_def set_defs)
  have keep: "rb_left (clear_node a h) b = rb_left h b \<and> rb_right (clear_node a h) b = rb_right h b \<and>
    rb_parent (clear_node a h) b = rb_parent h b" if "b \<in> set (before c @ inorder t @ after c)" for b
  proof -
    have "b \<noteq> a" using a that by blast
    then show ?thesis using ne by simp
  qed
  have "ctx_at (clear_node a h) s c p"
  proof (rule ctx_same)
    show "ctx_at h s c p" using loc by (simp add: located_def)
    show "rb_root (clear_node a h) = rb_root h" by (simp add: clear_node_def set_defs)
  qed (rule keep, auto)
  moreover have "tree_at (clear_node a h) s (up h c p) p t"
    by (rule tree_same [of h]) (use loc in \<open>simp add: located_def\<close>, rule keep, simp)
  moreover have "t = Leaf \<or> up (clear_node a h) c p = up h c p"
  proof (cases c)
    case Nil
    show ?thesis
    proof (cases t)
      case (Node l b r)
      then have "p = b" using loc by (simp add: located_def)
      then show ?thesis using Nil keep [of b] Node by simp
    qed simp
  qed simp
  ultimately show ?thesis using loc by (cases t) (auto simp: located_def)
qed

lemma clear_sel: "rb_color (clear_node a h) = rb_color h" "rb_key (clear_node a h) = (rb_key h)(a := 0)"
  by (simp_all add: clear_node_def set_defs)

lemma clear_parent: "b \<noteq> a \<Longrightarrow> rb_parent (clear_node a h) b = rb_parent h b"
  by (simp add: clear_node_def set_defs)

lemma unlink_relink:
  assumes "located h s (f # c) x (Node l x r)"
  shows "delete_unlink x v node h = relink (f # c) v h"
proof -
  have c: "ctx_at h s (f # c) x" and p: "rb_parent h x = up h (f # c) x"
    and d: "x \<notin> set (before (f # c)) \<union> set (after (f # c))" "x \<noteq> s"
    using assms by (auto simp: located_def)
  have "x \<noteq> rb_root h" using root_in_ctx [OF c] d by auto
  then show ?thesis using relink_test(1) [OF c p d, of v] by (simp add: delete_unlink_def)
qed

lemma one_child:
  assumes "located h s c x X" "X = Node Leaf x R \<or> X = Node R x Leaf"
  shows "tree_at h s x (node_addr s R) R"
proof -
  obtain q where "tree_at h s x q R" using assms by (auto simp: located_def)
  then show ?thesis using tree_at_top by metis
qed

text \<open>The child takes the place of a node that is not the root.\<close>

lemma unlink_located:
  assumes loc: "located h s (f # c) x X" and X: "X = Node Leaf x R \<or> X = Node R x Leaf"
  defines "h' \<equiv> set_parent (node_addr s R) (frame_addr f) (relink (f # c) (node_addr s R) h)"
  shows "located h' s (f # c) (node_addr s R) R" "rb_parent h' (node_addr s R) = frame_addr f"
    "rb_color h' = rb_color h" "rb_key h' = rb_key h" "x \<notin> set (before (f # c) @ inorder R @ after (f # c))"
proof -
  let ?r = "relink (f # c) (node_addr s R) h"
  have cx: "ctx_at h s (f # c) x" and dist: "distinct (before (f # c) @ inorder R @ after (f # c))"
    using loc X by (auto simp: located_def)
  show x: "x \<notin> set (before (f # c) @ inorder R @ after (f # c))" using loc X by (auto simp: located_def)
  note tr = one_child [OF loc X]
  have tin: "R \<noteq> Leaf \<Longrightarrow> node_addr s R \<in> set (inorder R)" "R = Leaf \<Longrightarrow> node_addr s R = s" by (cases R; simp)+
  have tout: "node_addr s R \<notin> set (before (f # c)) \<union> set (after (f # c))"
  proof (cases "R = Leaf")
    case True
    then show ?thesis using tin(2) ctx_at_set [OF cx] by auto
  next
    case False
    then show ?thesis using tin(1) dist by auto
  qed
  have "ctx_at ?r s (f # c) (node_addr s R)" by (rule relink_at [OF cx]) (use dist in auto)
  then have "ctx_at h' s (f # c) (node_addr s R)"
    by (rule ctx_same) (use tout in \<open>auto simp: h'_def set_defs\<close>)
  moreover have "tree_at h' s (frame_addr f) (node_addr s R) R"
  proof (rule tree_cong [OF _ _ _ _ tr])
    show "rb_left h' a = rb_left h a \<and> rb_right h' a = rb_right h a" if "a \<in> set (inorder R)" for a
      using relink_out [of a "f # c" "node_addr s R" h] that dist by (auto simp: h'_def set_parent_def)
    show "rb_parent h' a = rb_parent h a" if "a \<in> set (inorder R)" "a \<noteq> node_addr s R" for a
      using that by (simp add: h'_def set_parent_def relink_sel)
    show "rb_parent h' (node_addr s R) = frame_addr f" by (simp add: h'_def set_parent_def)
    show "distinct (inorder R)" using dist by simp
  qed
  ultimately show "located h' s (f # c) (node_addr s R) R" using dist by (simp add: located_def)
  show "rb_parent h' (node_addr s R) = frame_addr f" "rb_color h' = rb_color h" "rb_key h' = rb_key h"
    by (simp_all add: h'_def set_parent_def relink_sel)
qed

text \<open>The child becomes the root.\<close>

lemma unroot_located:
  assumes loc: "located h s [] x X" and X: "X = Node Leaf x R \<or> X = Node R x Leaf"
  shows "located (set_root (node_addr s R) h) s [] (node_addr s R) R"
proof -
  note tr = one_child [OF loc X]
  have d: "distinct (inorder R)" using loc X by (auto simp: located_def)
  have "tree_at (set_root (node_addr s R) h) s x (node_addr s R) R"
    by (rule tree_same [OF tr]) (simp add: set_defs)
  moreover have "R = Leaf \<or> rb_parent h (node_addr s R) = x" using tr by (cases R) auto
  ultimately show ?thesis using d by (cases R) (auto simp: located_def set_defs)
qed

section \<open>The successor in the place of the node\<close>

definition put_for :: "addr \<Rightarrow> addr \<Rightarrow> addr \<Rightarrow> rbheap \<Rightarrow> rbheap" where
  "put_for s subst node h1 =
     (let h2 = set_left subst (rb_left h1 node) h1;
          h3 = set_right subst (rb_right h2 node) h2;
          h4 = set_parent subst (rb_parent h3 node) h3;
          h5 = ngx_rbt_copy_color subst node h4;
          h6 = (if node = rb_root h5 then set_root subst h5
                else if node = rb_left h5 (rb_parent h5 node) then set_left (rb_parent h5 node) subst h5
                else set_right (rb_parent h5 node) subst h5);
          h7 = (if rb_left h6 subst \<noteq> s then set_parent (rb_left h6 subst) subst h6 else h6)
      in if rb_right h7 subst \<noteq> s then set_parent (rb_right h7 subst) subst h7 else h7)"

lemma delete_replace_put:
  "delete_replace s subst temp node h =
     put_for s subst node (if rb_parent h subst = node then set_parent temp subst h
                else set_parent temp (rb_parent h subst) h)"
  by (simp add: delete_replace_def put_for_def Let_def)

lemma put_for_ok:
  assumes cx: "ctx_at h s c x" and px: "rb_parent h x = up h c x" and xs: "x \<noteq> s" "y \<noteq> s" "y \<noteq> x"
    and tr: "tree_at h s q1 (node_addr s l) l" "tree_at h s q2 (node_addr s r) r" "rb_left h x = node_addr s l" "rb_right h x = node_addr s r"
    and dist: "distinct (before c @ inorder (Node l x r) @ after c)"
    and y: "y \<notin> set (before c @ inorder (Node l x r) @ after c)"
  defines "h' \<equiv> put_for s y x h"
  shows "located h' s c y (Node l y r)" "rb_color h' = (rb_color h)(y := rb_color h x)" "rb_key h' = rb_key h"
    "rb_parent h' s = rb_parent h s"
proof -
  let ?a = "node_addr s l" and ?b = "node_addr s r"
  define h5 where "h5 = ngx_rbt_copy_color y x (set_parent y (rb_parent h x) (set_right y ?b (set_left y ?a h)))"
  have h5: "rb_left h5 = (rb_left h)(y := ?a)" "rb_right h5 = (rb_right h)(y := ?b)"
      "rb_parent h5 = (rb_parent h)(y := rb_parent h x)" "rb_color h5 = (rb_color h)(y := rb_color h x)"
      "rb_key h5 = rb_key h" "rb_root h5 = rb_root h"
    using xs by (simp_all add: h5_def ngx_rbt_copy_color_def set_defs)
  have c5: "ctx_at h5 s c x"
    by (rule ctx_same [OF cx h5(6)]) (use y in \<open>auto simp: h5\<close>)
  have p5: "rb_parent h5 x = up h5 c x" using px xs by (cases c) (auto simp: h5)
  have dx: "x \<notin> set (before c) \<union> set (after c)" using dist by auto
  note t = relink_test(1) [OF c5 p5 dx xs(1), of y]
  let ?r = "relink c y h5"
  have ry: "rb_left ?r y = ?a" "rb_right ?r y = ?b"
    using relink_out [of y c y h5] y by (auto simp: h5)
  define h7 where "h7 = (if ?a \<noteq> s then set_parent ?a y ?r else ?r)"
  have h7: "rb_left h7 = rb_left ?r" "rb_right h7 = rb_right ?r" "rb_root h7 = rb_root ?r"
    "rb_color h7 = rb_color h5" "rb_key h7 = rb_key h" by (simp_all add: h7_def set_defs relink_sel h5)
  have run: "h' = (if ?b \<noteq> s then set_parent ?b y h7 else h7)"
  proof -
    have e: "rb_right (set_left y ?a h) x = ?b" "rb_parent (set_right y ?b (set_left y ?a h)) x = rb_parent h x"
      using tr(4) xs by (simp_all add: set_defs)
    have r7: "rb_right h7 y = ?b" using ry by (simp add: h7)
    show ?thesis
      unfolding h'_def put_for_def Let_def tr(3) e h5_def [symmetric] t ry h7_def [symmetric] r7 ..
  qed
  have fld: "rb_left h' = rb_left ?r" "rb_right h' = rb_right ?r" "rb_root h' = rb_root ?r"
      "rb_color h' = (rb_color h)(y := rb_color h x)" "rb_key h' = rb_key h"
    by (simp_all add: run set_parent_def h7 h5)
  have par: "rb_parent h' d = (if ?b \<noteq> s \<and> d = ?b then y else if ?a \<noteq> s \<and> d = ?a then y else
      if d = y then rb_parent h x else rb_parent h d)" for d
    by (simp add: run h7_def set_parent_def relink_sel h5)
  have ain: "?a \<noteq> s \<Longrightarrow> ?a \<in> set (inorder l)" and bin: "?b \<noteq> s \<Longrightarrow> ?b \<in> set (inorder r)"
    by (cases l; simp) (cases r; simp)
  have "ctx_at ?r s c y" by (rule relink_at [OF c5]) (use dist in auto)
  then have cy: "ctx_at h' s c y"
  proof (rule ctx_same)
    show "rb_left h' d = rb_left ?r d \<and> rb_right h' d = rb_right ?r d \<and> rb_parent h' d = rb_parent ?r d"
      if "d \<in> set (before c) \<union> set (after c)" for d
    proof -
      have "?b \<noteq> s \<Longrightarrow> d \<noteq> ?b" "?a \<noteq> s \<Longrightarrow> d \<noteq> ?a" using that ain bin dist by auto
      then show ?thesis by (auto simp: fld par relink_sel h5)
    qed
  qed (simp add: fld)
  have apart: "d \<notin> set (before c) \<union> set (after c)" "d \<noteq> y"
      if "d \<in> set (inorder l) \<union> set (inorder r)" for d using that dist y by auto
  have lr: "d \<notin> set (inorder l) \<or> d \<notin> set (inorder r)" for d using dist by auto
  have same: "rb_left h' d = rb_left h d \<and> rb_right h' d = rb_right h d"
    if "d \<in> set (inorder l) \<union> set (inorder r)" for d
  proof -
    have "d \<notin> set (before c) \<union> set (after c)" "d \<noteq> y" using apart [OF that] by blast+
    then show ?thesis using relink_out [of d c y h5] by (simp add: fld h5)
  qed
  have tl: "tree_at h' s y ?a l"
  proof (rule tree_cong [OF _ _ _ _ tr(1)])
    show "rb_parent h' d = rb_parent h d" if "d \<in> set (inorder l)" "d \<noteq> ?a" for d
      using that bin lr [of d] apart(2) [of d] unfolding par by auto
    show "rb_parent h' ?a = y" if "?a \<noteq> s" using that by (simp add: par)
  qed (use same dist in simp_all)
  have tr': "tree_at h' s y ?b r"
  proof (rule tree_cong [OF _ _ _ _ tr(2)])
    show "rb_parent h' d = rb_parent h d" if "d \<in> set (inorder r)" "d \<noteq> ?b" for d
      using that ain lr [of d] apart(2) [of d] unfolding par by auto
    show "rb_parent h' ?b = y" if "?b \<noteq> s" using that by (simp add: par)
  qed (use same dist in simp_all)
  have yab: "?a \<noteq> s \<Longrightarrow> y \<noteq> ?a" "?b \<noteq> s \<Longrightarrow> y \<noteq> ?b" using ain bin apart(2) by blast+
  have py: "rb_parent h' y = rb_parent h x" using yab unfolding par by argo
  have "up h' c y = rb_parent h' y"
  proof (cases c)
    case (Cons f c')
    then show ?thesis using py px by simp
  qed simp
  then have "tree_at h' s (up h' c y) y (Node l y r)" using tl tr' ry xs by (simp add: fld)
  moreover have "distinct (before c @ inorder (Node l y r) @ after c)" using dist y by auto
  ultimately show "located h' s c y (Node l y r)" using cy by (simp add: located_def)
  show "rb_parent h' s = rb_parent h s" using xs by (simp add: par)
  show "rb_color h' = (rb_color h)(y := rb_color h x)" "rb_key h' = rb_key h" by (simp_all add: fld)
qed

section \<open>The deletion\<close>

lemma clear_rb_tree: "rb_tree k s t \<Longrightarrow> a \<notin> set (inorder t) \<Longrightarrow> rb_tree (clear_node a k) s t"
  using clear_located [of a "[]" t k s "rb_root k"]
  by (simp add: rb_tree_def holds_tree_def clear_sel) (simp add: clear_node_def set_defs)

text \<open>The last part: nothing for a red node that left its place, the loop for a black one.\<close>

lemma delete_finish:
  assumes loc: "located k s c p R" and s0: "rb_color k s = 0" and ne: "c \<noteq> []"
    and par: "rb_parent k p = frame_addr (hd c)"
    and X: "rbt col X n" "X = Node Leaf x R \<or> X = Node R x Leaf" "rbt (rb_color k) R = rbt col R"
      "root_black (rb_color k) R = root_black col R"
    and cb: "cbt (rb_color k) c n" "root_black col X \<or> rb_color k (frame_addr (hd c)) = 0"
  shows "\<exists>h' T'. (if col x \<noteq> 0 then Some k else delete_fix s p k) = Some h' \<and> rb_tree h' s T' \<and> rb_key h' = rb_key k
    \<and> inorder T' = inorder (plug c R)"
proof (cases "col x = 0")
  case True
  have "n \<noteq> 0" "rbt col R (n - 1)" using X(1,2) True by auto
  then have "hole k s c p R (n - 1)"
    using loc s0 par cb(1) ne X(3) rbt_rbt0 by (simp add: hole_def)
  from delete_fix_ok [OF this] True show ?thesis by auto
next
  case False
  have "rbt col R n" "root_black col R" "\<not> root_black col X" using X(1,2) False by auto
  then have "rb_tree k s (plug c R)"
    using cb X(3,4) by (intro rb_tree_plug [OF loc s0 _ _ ne]) auto
  then show ?thesis using False by auto
qed

lemma delete_one_child:
  assumes t: "rb_tree h s (plug c X)" and loc: "located h s c node X"
    and X: "X = Node Leaf node R \<or> X = Node R node Leaf"
    and ch: "delete_choose s node h = Some (node, node_addr s R)"
  shows "\<exists>h' t'. ngx_rbtree_delete s node h = Some h' \<and> rb_tree h' s t' \<and> inorder t' = inorder (plug c R)
    \<and> rb_key h' = (rb_key h)(node := 0)"
proof -
  have s0: "rb_color h s = 0" using t by (simp add: rb_tree_def)
  obtain n where n: "rbt (rb_color h) X n" "cbt (rb_color h) c n"
    "c \<noteq> [] \<longrightarrow> root_black (rb_color h) X \<or> rb_color h (frame_addr (hd c)) = 0" using colours_at [OF t] by blast
  have Rn: "\<exists>m. rbt (rb_color h) R m" using n(1) X by (auto split: if_splits)
  have out: "node \<notin> set (inorder R)" using loc X by (auto simp: located_def)
  show ?thesis
  proof (cases c)
    case Nil
    let ?k = "set_root (node_addr s R) h"
    have root: "rb_root h = node" using loc Nil by (simp add: located_def)
    have l: "located ?k s [] (node_addr s R) R" using unroot_located loc X Nil by blast
    have col: "rb_color ?k = rb_color h" "rb_root ?k = node_addr s R" by (simp_all add: set_defs)
    obtain m where m: "rbt (rb_color h) R m" using Rn ..
    have "rb_tree (ngx_rbt_black (rb_root ?k) ?k) s (plug [] R)"
      by (rule blacken_root [OF l, where n = m]) (use m s0 col in simp_all)
    then have "rb_tree (clear_node node (ngx_rbt_black (node_addr s R) ?k)) s R"
      using out col by (intro clear_rb_tree) simp_all
    moreover have "ngx_rbtree_delete s node h = Some (clear_node node (ngx_rbt_black (node_addr s R) ?k))"
      using ch root by (simp add: ngx_rbtree_delete_def)
    moreover have "rb_key (clear_node node (ngx_rbt_black (node_addr s R) ?k)) = (rb_key h)(node := 0)"
      by (simp add: clear_sel ngx_rbt_black_def) (simp add: set_defs)
    ultimately show ?thesis using Nil by auto
  next
    case (Cons f C)
    let ?h2 = "set_parent (node_addr s R) (frame_addr f) (relink (f # C) (node_addr s R) h)"
    let ?k = "clear_node node ?h2"
    note u = unlink_located [OF loc [unfolded Cons] X]
    have "ctx_at h s (f # C) node" using loc Cons by (simp add: located_def)
    then have nroot: "node \<noteq> rb_root h" using root_in_ctx u(5) by fastforce
    have par: "rb_parent h node = frame_addr f" using loc Cons X by (auto simp: located_def)
    have ns: "node \<noteq> s" using loc X by (auto simp: located_def)
    have "node_addr s R \<noteq> node" using out ns by (cases R) auto
    then have pk: "rb_parent ?k (node_addr s R) = frame_addr f" using u(2) by (simp add: clear_parent)
    have l: "located ?k s (f # C) (node_addr s R) R" using clear_located [OF u(5) u(1)] .
    have col: "rb_color ?k = rb_color h" using u(3) by (simp add: clear_sel)
    from delete_finish [of ?k s "f # C" "node_addr s R" R "rb_color h" X n node] l s0 pk n X
    obtain h' T' where r: "(if rb_color h node \<noteq> 0 then Some ?k else delete_fix s (node_addr s R) ?k) = Some h'"
      "rb_tree h' s T'" "rb_key h' = rb_key ?k" "inorder T' = inorder (plug (f # C) R)"
      unfolding col Cons by auto
    obtain l0 r0 where Xn: "X = Node l0 node r0" using X by auto
    have un: "delete_unlink node (node_addr s R) node h = relink (f # C) (node_addr s R) h"
      using unlink_relink loc unfolding Cons Xn .
    have "rb_parent (relink (f # C) (node_addr s R) h) node = frame_addr f" using par by (simp add: relink_sel)
    then have "ngx_rbtree_delete s node h = (if rb_color h node \<noteq> 0 then Some ?k else delete_fix s (node_addr s R) ?k)"
      using ch nroot un by (simp add: ngx_rbtree_delete_def Let_def ngx_rbt_is_red_def)
    moreover have "rb_key ?k = (rb_key h)(node := 0)" using u(4) by (simp add: clear_sel)
    ultimately show ?thesis using r Cons by metis
  qed
qed

text \<open>Renaming one frame of a context to an address of the same colour.\<close>

lemma cbt_rename:
  "col' b = col a \<Longrightarrow> (\<And>x. x \<in> set (inorder l) \<union> set (before (c2 @ c) @ after (c2 @ c)) \<Longrightarrow> col' x = col x) \<Longrightarrow>
   cbt col (c2 @ InR l a # c) n \<Longrightarrow> cbt col' (c2 @ InR l b # c) n"
proof (induction c2 arbitrary: n)
  case Nil
  have l: "rbt col' l k = rbt col l k" "root_black col' l = root_black col l" for k
    using Nil.prems(2) by (auto intro!: rbt_cong root_black_cong)
  have c: "cbt col' c k = cbt col c k" for k using Nil.prems(2) by (intro cbt_cong) simp
  have "c \<noteq> [] \<Longrightarrow> col' (frame_addr (hd c)) = col (frame_addr (hd c))"
    using Nil.prems(2) frame_addr_in [of "hd c" "tl c"] by simp
  then show ?case using Nil.prems(1,3) l c by (auto split: if_splits)
next
  case (Cons f c2)
  have st: "set (inorder (sib f)) \<union> {frame_addr f} \<union> (set (before (c2 @ c)) \<union> set (after (c2 @ c)))
      \<subseteq> set (before ((f # c2) @ c)) \<union> set (after ((f # c2) @ c))"
    using set_sib [of f "c2 @ c"] set_tail [of "c2 @ c" f] by simp
  have s: "x \<in> set (inorder (sib f)) \<union> {frame_addr f} \<Longrightarrow> col' x = col x" for x
    using Cons.prems(2) st by auto
  have IH: "cbt col (c2 @ InR l a # c) m \<Longrightarrow> cbt col' (c2 @ InR l b # c) m" for m
    using Cons.prems(1,2) st by (intro Cons.IH) auto
  have f: "rbt col' (sib f) k = rbt col (sib f) k" "root_black col' (sib f) = root_black col (sib f)" for k
    using s by (auto intro!: rbt_cong root_black_cong)
  have "col' (frame_addr (hd (c2 @ InR l b # c))) = col (frame_addr (hd (c2 @ InR l a # c)))"
  proof (cases c2)
    case Nil
    then show ?thesis using Cons.prems(1) by simp
  next
    case c2: (Cons g c3)
    then show ?thesis using Cons.prems(2) set_sib [of g "c3 @ c"] set_tail [of "c2 @ c" f] by auto
  qed
  then show ?case using Cons.prems(3) IH f s by (auto split: if_splits)
qed

lemma located_kids:
  assumes "located h s c a (Node l a r)"
  shows "rb_left h a = node_addr s l" "rb_right h a = node_addr s r" "tree_at h s a (node_addr s l) l" "tree_at h s a (node_addr s r) r"
proof -
  have t: "tree_at h s a (rb_left h a) l" "tree_at h s a (rb_right h a) r" using assms by (simp_all add: located_def)
  show e: "rb_left h a = node_addr s l" "rb_right h a = node_addr s r" using t tree_at_top by blast+
  show "tree_at h s a (node_addr s l) l" "tree_at h s a (node_addr s r) r" using t unfolding e .
qed

text \<open>The positions of the unlinked successor and of its child, before and after the replacement.\<close>

lemma delete_two_heap:
  assumes loc: "located h s (c2 @ InR l node # c) x (Node Leaf x R)"
  defines "h1 \<equiv> relink (c2 @ InR l node # c) (node_addr s R) h"
  defines "h' \<equiv> delete_replace s x (node_addr s R) node h1"
  shows "located h' s (c2 @ InR l x # c) (node_addr s R) R" "rb_color h' = (rb_color h)(x := rb_color h node)"
    "rb_key h' = rb_key h" "rb_parent h' (node_addr s R) = frame_addr (hd (c2 @ InR l x # c))"
proof -
  let ?C = "c2 @ InR l node # c" and ?t = "node_addr s R"
  obtain f C where fC: "?C = f # C" by (cases c2) auto
  let ?u = "set_parent ?t (frame_addr f) h1"
  note u = unlink_located [OF loc [unfolded fC], folded fC, of R]
  have locu: "located ?u s ?C ?t R" and pu: "rb_parent ?u ?t = frame_addr f" and cu: "rb_color ?u = rb_color h"
    "rb_key ?u = rb_key h" and x: "x \<notin> set (before ?C @ inorder R @ after ?C)"
    using u unfolding h1_def by auto
  let ?r = "plug c2 R"
  have "located ?u s (InR l node # c) (node_addr s ?r) ?r"
  proof -
    have "holds_tree ?u s (plug c (plug (InR l node # []) ?r))"
      using located_plug [OF locu] by (simp add: plug_append)
    then have "located ?u s [] (rb_root ?u) (plug (InR l node # c) ?r)" by (simp add: holds_tree_def)
    from located_inside [OF this] show ?thesis by simp
  qed
  then have at: "located ?u s c node (Node l node ?r)" by (rule located_up(2))
  have set_r: "set (before ?C @ inorder R @ after ?C) = set (before c @ inorder (Node l node ?r) @ after c)"
    by (auto simp: before_append after_append inorder_plug)
  have xs: "x \<noteq> s" "node \<noteq> s" "x \<noteq> node" using loc at x unfolding set_r by (auto simp: located_def)
  have yx: "x \<notin> set (before c @ inorder (Node l node ?r) @ after c)" using x unfolding set_r .
  have px: "rb_parent h1 x = frame_addr f" using loc fC by (simp add: h1_def relink_sel located_def)
  have hf: "frame_addr f = node \<longleftrightarrow> c2 = []"
  proof (cases c2)
    case Nil
    then show ?thesis using fC by auto
  next
    case (Cons g c3)
    then have "f = g" using fC by simp
    then have "frame_addr f \<in> set (before c2) \<union> set (after c2)" using Cons frame_addr_in by blast
    moreover have "node \<notin> set (before c2) \<union> set (after c2)"
      using at by (auto simp: located_def inorder_plug)
    ultimately show ?thesis using Cons by auto
  qed
  define k where "k = (if frame_addr f = node then set_parent ?t x h1 else ?u)"
  have run: "h' = put_for s x node k" unfolding h'_def delete_replace_put px k_def ..
  have cx: "ctx_at ?u s c node" and pn: "rb_parent ?u node = up ?u c node"
    and dist: "distinct (before c @ inorder (Node l node ?r) @ after c)"
    using at by (simp_all add: located_def)
  note tl = located_kids(3,1) [OF at] and tr = located_kids(4,2) [OF at]
  have k: "ctx_at k s c node \<and> rb_parent k node = up k c node \<and> tree_at k s node (node_addr s l) l \<and> rb_left k node = node_addr s l
      \<and> (\<exists>q. tree_at k s q (node_addr s ?r) ?r) \<and> rb_right k node = node_addr s ?r \<and> rb_color k = rb_color h \<and> rb_key k = rb_key h
      \<and> rb_parent k ?t = (if c2 = [] then x else frame_addr f)"
  proof (cases "c2 = []")
    case False
    then have "k = ?u" using hf by (simp add: k_def)
    then show ?thesis using cx pn tl tr cu pu False by auto
  next
    case True
    then have kk: "k = set_parent ?t x ?u" using hf by (simp add: k_def set_defs)
    have r: "?r = R" using True by simp
    have tin: "?t = s \<or> ?t \<in> set (inorder R)" by (cases R) auto
    have "s \<notin> set (before c) \<union> set (after c) \<union> set (inorder l)"
      using at ctx_at_set tree_at_set by (auto simp: located_def)
    then have tn: "?t \<notin> set (before c) \<union> set (after c) \<union> set (inorder l)" "?t \<noteq> node"
      using tin dist xs r by auto
    have keep: "rb_left k = rb_left ?u" "rb_right k = rb_right ?u" "rb_root k = rb_root ?u" "rb_color k = rb_color ?u"
      "rb_key k = rb_key ?u" "rb_parent k = (rb_parent ?u)(?t := x)" by (simp_all add: kk set_parent_def)
    have "ctx_at k s c node" by (rule ctx_same [OF cx keep(3)]) (use tn keep in auto)
    moreover have "rb_parent k node = up k c node"
      using pn tn(2) by (cases c) (auto simp: keep)
    moreover have "tree_at k s node (node_addr s l) l" by (rule tree_same [OF tl(1)]) (use tn keep in auto)
    moreover have "tree_at k s x (node_addr s R) R"
      by (rule tree_cong [OF _ _ _ _ tr(1) [unfolded r]]) (use keep dist r in auto)
    ultimately show ?thesis using tl tr cu True by (auto simp: keep)
  qed
  then obtain q where tq: "tree_at k s q (node_addr s ?r) ?r" by blast
  note pf = put_for_ok [of k s c node x node l q ?r, OF _ _ xs(2,1,3) _ tq _ _ dist yx, folded run]
  have at': "located h' s c x (Node l x ?r)" and cl: "rb_color h' = (rb_color k)(x := rb_color k node)"
    and ky: "rb_key h' = rb_key k" and ps: "rb_parent h' s = rb_parent k s"
    using pf k by blast+
  have "located h' s (c2 @ InR l x # c) (node_addr s R) R"
    using located_inside [OF located_down(2) [OF at']] .
  then show l': "located h' s (c2 @ InR l x # c) (node_addr s R) R" .
  show "rb_color h' = (rb_color h)(x := rb_color h node)" "rb_key h' = rb_key h" using cl ky k by simp_all
  show "rb_parent h' (node_addr s R) = frame_addr (hd (c2 @ InR l x # c))"
  proof (cases "R = Leaf")
    case True
    have "frame_addr f = frame_addr (hd (c2 @ InR l x # c))" if "c2 \<noteq> []" using that fC by (cases c2) auto
    then show ?thesis using True ps k by auto
  next
    case False
    then show ?thesis using l' by (cases R; cases c2) (auto simp: located_def)
  qed
qed

lemma delete_two_children:
  assumes t: "rb_tree h s (plug c (Node l node r))" and loc: "located h s c node (Node l node r)"
    and lr: "l \<noteq> Leaf" "r \<noteq> Leaf"
  shows "\<exists>h' t'. ngx_rbtree_delete s node h = Some h' \<and> rb_tree h' s t' \<and> rb_key h' = (rb_key h)(node := 0)
    \<and> inorder t' = before c @ inorder l @ inorder r @ after c"
proof -
  obtain c2 x R where r: "r = plug c2 (Node Leaf x R)" "before c2 = []" using min_split [OF lr(2)] by blast
  let ?C = "c2 @ InR l node # c" and ?C' = "c2 @ InR l x # c"
  let ?X = "Node Leaf x R"
  have locx: "located h s ?C x ?X"
    using located_inside [OF located_down(2) [OF loc, unfolded r(1)]] by simp
  have s0: "rb_color h s = 0" using t by (simp add: rb_tree_def)
  have "plug ?C ?X = plug c (Node l node r)" using r(1) by (simp add: plug_append)
  then obtain n where n: "rbt (rb_color h) ?X n" "cbt (rb_color h) ?C n"
    "root_black (rb_color h) ?X \<or> rb_color h (frame_addr (hd ?C)) = 0"
    using colours_at [of h s ?C ?X] t by auto
  have dist: "distinct (before c @ inorder l @ node # x # inorder R @ after c2 @ after c)"
    using locx r(2) by (simp add: located_def before_append after_append)
  have sn: "s \<noteq> x" "s \<noteq> node" using locx loc by (auto simp: located_def)
  \<comment> \<open>the pointers\<close>
  have trl: "tree_at h s node (rb_left h node) l" "tree_at h s node (rb_right h node) r"
    using loc by (auto simp: located_def)
  have kids: "rb_left h node \<noteq> s" "rb_right h node \<noteq> s" using trl lr tree_at_set by blast+
  have rne: "inorder r = x # inorder R @ after c2" using r by (simp add: inorder_plug)
  have "ngx_rbtree_min h s (rb_right h node) = Some x" using min_ok [OF trl(2) lr(2)] rne by simp
  moreover have "rb_left h x = s" "rb_right h x = node_addr s R"
    using located_kids [OF locx] by simp_all
  ultimately have ch: "delete_choose s node h = Some (x, node_addr s R)" using kids by (simp add: delete_choose_def)
  have "ctx_at h s ?C x" using locx by (simp add: located_def)
  then have nroot: "x \<noteq> rb_root h" using root_in_ctx [of h s ?C x] locx by (auto simp: located_def)
  obtain f C where fC: "?C = f # C" by (cases c2) auto
  have un: "delete_unlink x (node_addr s R) node h = relink ?C (node_addr s R) h"
    using unlink_relink locx unfolding fC .
  let ?h' = "delete_replace s x (node_addr s R) node (relink ?C (node_addr s R) h)"
  note two = delete_two_heap [OF locx]
  let ?k = "clear_node node ?h'"
  have "node \<notin> set (before ?C' @ inorder R @ after ?C')"
    using dist r(2) by (auto simp: before_append after_append)
  then have lock: "located ?k s ?C' (node_addr s R) R" using clear_located two(1) by blast
  have tn: "node_addr s R \<noteq> node" using sn dist by (cases R) auto
  have pk: "rb_parent ?k (node_addr s R) = frame_addr (hd ?C')" using two(4) tn by (simp add: clear_parent)
  let ?col = "(rb_color h)(x := rb_color h node)"
  have ck: "rb_color ?k = ?col" "rb_key ?k = (rb_key h)(node := 0)" using two(2,3) by (simp_all add: clear_sel)
  have "cbt ?col ?C' n"
    by (rule cbt_rename [OF _ _ n(2)]) (use dist r(2) in \<open>auto simp: before_append after_append\<close>)
  moreover have "rbt ?col R = rbt (rb_color h) R" "root_black ?col R = root_black (rb_color h) R"
    using dist by (auto intro!: ext rbt_cong root_black_cong)
  moreover have "?col (frame_addr (hd ?C')) = rb_color h (frame_addr (hd ?C))"
  proof (cases c2)
    case (Cons g c3)
    then have "frame_addr g \<in> set (after c2)" using frame_addr_in [of g c3] r(2) by auto
    then show ?thesis using Cons dist by auto
  qed simp
  moreover have "?col s = 0" using s0 sn by simp
  ultimately obtain h' T' where r': "(if rb_color h x \<noteq> 0 then Some ?k else delete_fix s (node_addr s R) ?k) = Some h'"
      "rb_tree h' s T'" "rb_key h' = rb_key ?k" "inorder T' = inorder (plug ?C' R)"
    using delete_finish [OF lock _ _ pk n(1), of x] n(3) unfolding ck(1) by auto
  have "ngx_rbtree_delete s node h = (if rb_color h x \<noteq> 0 then Some ?k else delete_fix s (node_addr s R) ?k)"
    using ch nroot un dist by (simp add: ngx_rbtree_delete_def Let_def ngx_rbt_is_red_def)
  moreover have "inorder (plug ?C' R) = before c @ inorder l @ inorder r @ after c"
    using rne r(2) by (simp add: inorder_plug before_append after_append)
  ultimately show ?thesis using r' ck(2) by metis
qed

text \<open>The deletion removes exactly the node, keeps the order of the others and the red-black invariant.\<close>

lemma delete_ok:
  assumes t: "rb_tree h s t" and node: "node \<in> set (inorder t)"
  shows "\<exists>h' t'. ngx_rbtree_delete s node h = Some h' \<and> rb_tree h' s t' \<and> rb_key h' = (rb_key h)(node := 0)
    \<and> inorder t' = remove1 node (inorder t)"
proof -
  obtain c l r where p: "t = plug c (Node l node r)" and loc: "located h s c node (Node l node r)"
    using locate_rb [OF t node] by blast
  note t' = t [unfolded p]
  have dist: "distinct (before c @ inorder l @ node # inorder r @ after c)" using loc by (simp add: located_def)
  then have rm: "remove1 node (inorder t) = before c @ inorder l @ inorder r @ after c"
    unfolding p inorder_plug by (simp add: remove1_append)
  note k = located_kids [OF loc]
  have kids: "rb_left h node = node_addr s l" "rb_right h node = node_addr s r"
    "node_addr s l = s \<longleftrightarrow> l = Leaf" "node_addr s r = s \<longleftrightarrow> r = Leaf"
    using k(1,2) tree_at_set [OF k(3)] tree_at_set [OF k(4)] by auto
  consider "l = Leaf" | "l \<noteq> Leaf" "r = Leaf" | "l \<noteq> Leaf" "r \<noteq> Leaf" by blast
  then show ?thesis
  proof cases
    case 1
    then have "delete_choose s node h = Some (node, node_addr s r)" using kids by (simp add: delete_choose_def)
    from delete_one_child [OF t' loc _ this] show ?thesis
      unfolding rm using 1 by (auto simp: inorder_plug)
  next
    case 2
    then have "delete_choose s node h = Some (node, node_addr s l)" using kids by (simp add: delete_choose_def)
    from delete_one_child [OF t' loc _ this] show ?thesis
      unfolding rm using 2 by (auto simp: inorder_plug)
  next
    case 3
    from delete_two_children [OF t' loc this] show ?thesis unfolding rm by auto
  qed
qed

end
