(* ===== verification/Rbt_Timer.thy ===== *)
theory Rbt_Timer
  imports Rbtree_Delete Timer_Queue
begin

text \<open>
  The timer of \<open>code/timer/rbt-timer.c\<close> on the red-black tree.  The program's globals are the
  tree (\<open>timer\<close>) and its sentinel; a timer entry starts with its tree node, so that both have
  the same address.  The clock is read from the C library: its answer is an argument.  A handler is a
  number, and running it is recorded (the program's handlers only print).
\<close>

record rbt_timers =
  tm_heap :: rbheap
  tm_sentinel :: addr
  tm_handler :: "addr \<Rightarrow> nat"
  tm_live :: "addr \<Rightarrow> bool"

section \<open>The operations\<close>

text \<open>\<open>clock_gettime\<close> answers seconds and nanoseconds.\<close>

definition rbt_current_time :: "int \<Rightarrow> int \<Rightarrow> u32" where
  "rbt_current_time sec nsec = word_of_int sec * 1000 + word_of_int (nsec div 1000000)"

definition rbt_init_timer :: "rbt_timers \<Rightarrow> rbt_timers" where
  "rbt_init_timer T = T\<lparr>tm_heap := ngx_rbtree_init (tm_sentinel T) (tm_heap T)\<rparr>"

definition rbt_add_timer :: "u32 \<Rightarrow> addr \<Rightarrow> u32 \<Rightarrow> rbt_timers \<Rightarrow> rbt_timers option" where
  "rbt_add_timer now te msec T = do {
     h \<leftarrow> ngx_rbtree_insert ngx_rbtree_insert_timer_value (tm_sentinel T) te (set_key te (msec + now) (tm_heap T));
     Some (T\<lparr>tm_heap := h\<rparr>)
   }"

definition rbt_del_timer :: "addr \<Rightarrow> rbt_timers \<Rightarrow> rbt_timers option" where
  "rbt_del_timer te T = do {
     h \<leftarrow> ngx_rbtree_delete (tm_sentinel T) te (tm_heap T);
     Some (T\<lparr>tm_heap := h\<rparr>)
   }"

definition rbt_free :: "addr \<Rightarrow> rbt_timers \<Rightarrow> rbt_timers option" where
  "rbt_free te T = (if tm_live T te then Some (T\<lparr>tm_live := (tm_live T)(te := False)\<rparr>) else None)"

partial_function (option) rbt_expire_timer :: "u32 \<Rightarrow> rbt_timers \<Rightarrow> ((nat \<times> addr) list \<times> rbt_timers) option" where
  "rbt_expire_timer now T =
     (if rb_root (tm_heap T) = tm_sentinel T then Some ([], T)
      else do {
        node \<leftarrow> ngx_rbtree_min (tm_heap T) (tm_sentinel T) (rb_root (tm_heap T));
        (if now < rb_key (tm_heap T) node then Some ([], T)
         else do {
           T1 \<leftarrow> rbt_del_timer node T;
           T2 \<leftarrow> rbt_free node T1;
           (cs, T3) \<leftarrow> rbt_expire_timer now T2;
           Some ((tm_handler T node, node) # cs, T3)
         })
      })"

section \<open>The contract of a timer queue\<close>

text \<open>The timers of the tree, from the first to the last.\<close>

definition tm_items :: "rbt_timers \<Rightarrow> addr list \<Rightarrow> bool" where
  "tm_items T xs \<longleftrightarrow> (\<exists>t. rb_tree (tm_heap T) (tm_sentinel T) t \<and> inorder t = xs) \<and> (\<forall>x \<in> set xs. tm_live T x)"

definition tm_key :: "rbt_timers \<Rightarrow> addr \<Rightarrow> u32" where
  "tm_key T x = rb_key (tm_heap T) x"

definition tm_sorted :: "rbt_timers \<Rightarrow> addr list \<Rightarrow> bool" where
  "tm_sorted T xs \<longleftrightarrow> tm_items T xs \<and> sorted (map (tm_key T) xs)"

definition rbt_drop :: "addr \<Rightarrow> rbt_timers \<Rightarrow> rbt_timers option" where
  "rbt_drop x T = do { T1 \<leftarrow> rbt_del_timer x T; rbt_free x T1 }"

lemma tm_distinct: "tm_items T xs \<Longrightarrow> distinct xs \<and> tm_sentinel T \<notin> set xs"
  using tree_at_set by (fastforce simp: tm_items_def rb_tree_def holds_tree_def located_def)

lemma rbt_del_timer_ok:
  assumes "tm_items T xs" "x \<in> set xs"
  shows "\<exists>T'. rbt_del_timer x T = Some T' \<and> tm_items T' (remove1 x xs) \<and>
    (\<forall>y. y \<noteq> x \<longrightarrow> tm_key T' y = tm_key T y) \<and> tm_handler T' = tm_handler T \<and> tm_live T' = tm_live T
    \<and> tm_sentinel T' = tm_sentinel T"
proof -
  obtain t where t: "rb_tree (tm_heap T) (tm_sentinel T) t" "inorder t = xs"
    using assms(1) by (auto simp: tm_items_def)
  obtain h' t' where h': "ngx_rbtree_delete (tm_sentinel T) x (tm_heap T) = Some h'" "rb_tree h' (tm_sentinel T) t'"
    "rb_key h' = (rb_key (tm_heap T))(x := 0)" "inorder t' = remove1 x xs"
    using delete_ok [OF t(1), of x] t(2) assms(2) by auto
  have "tm_items (T\<lparr>tm_heap := h'\<rparr>) (remove1 x xs)"
    using h'(2,4) assms(1) set_remove1_subset [of x xs] by (auto simp: tm_items_def)
  then show ?thesis using h' by (auto simp: rbt_del_timer_def tm_key_def)
qed

lemma rbt_drop_ok:
  assumes "tm_items T (x # xs)"
  shows "\<exists>T'. rbt_drop x T = Some T' \<and> tm_items T' xs \<and>
    (\<forall>y \<in> set xs. tm_key T' y = tm_key T y \<and> tm_handler T' y = tm_handler T y)"
proof -
  have d: "x \<notin> set xs" and l: "tm_live T x" using tm_distinct [OF assms] assms by (auto simp: tm_items_def)
  obtain T1 where T1: "rbt_del_timer x T = Some T1" "tm_items T1 xs" "\<forall>y. y \<noteq> x \<longrightarrow> tm_key T1 y = tm_key T y"
    "tm_handler T1 = tm_handler T" "tm_live T1 = tm_live T"
    using rbt_del_timer_ok [OF assms, of x] by auto
  have "tm_items (T1\<lparr>tm_live := (tm_live T1)(x := False)\<rparr>) xs" using T1(2) d by (auto simp: tm_items_def)
  moreover have "tm_key (T1\<lparr>tm_live := (tm_live T1)(x := False)\<rparr>) = tm_key T1" by (simp add: tm_key_def fun_eq_iff)
  ultimately show ?thesis using T1 l d by (auto simp: rbt_drop_def rbt_free_def)
qed

lemma rbt_expire_step:
  assumes "tm_items T xs"
  shows "rbt_expire_timer now T = (case xs of [] \<Rightarrow> Some ([], T) | x # _ \<Rightarrow>
     if now < tm_key T x then Some ([], T)
     else do { T2 \<leftarrow> rbt_drop x T; (cs, T3) \<leftarrow> rbt_expire_timer now T2; Some ((tm_handler T x, x) # cs, T3) })"
proof -
  obtain t where t: "rb_tree (tm_heap T) (tm_sentinel T) t" "inorder t = xs"
    using assms by (auto simp: tm_items_def)
  have tr: "tree_at (tm_heap T) (tm_sentinel T) (rb_parent (tm_heap T) (rb_root (tm_heap T))) (rb_root (tm_heap T)) t"
    using t(1) by (simp add: rb_tree_def holds_tree_def located_def)
  show ?thesis
  proof (cases "t = Leaf")
    case True
    then show ?thesis using tr t(2) by (subst rbt_expire_timer.simps) auto
  next
    case False
    then obtain x rs where xs: "xs = x # rs" using t(2) by (cases xs) (auto simp: neq_Nil_conv)
    have "rb_root (tm_heap T) \<noteq> tm_sentinel T" using tree_at_set [OF tr] False by blast
    moreover have "ngx_rbtree_min (tm_heap T) (tm_sentinel T) (rb_root (tm_heap T)) = Some x"
      using min_ok [OF tr False] t(2) xs by simp
    ultimately show ?thesis unfolding xs
      by (subst rbt_expire_timer.simps) (auto simp: rbt_drop_def tm_key_def Option.bind_assoc)
  qed
qed

interpretation rbt: timer_queue tm_items tm_key "\<lambda>T x. (tm_handler T x, x)" rbt_drop "\<lambda>w::u32. w" rbt_expire_timer
proof unfold_locales
  fix T :: rbt_timers and x :: addr and xs :: "addr list" and now :: u32
  show "tm_items T [] \<Longrightarrow> rbt_expire_timer now T = Some ([], T)"
    using rbt_expire_step [of T "[]" now] by simp
  show "tm_items T (x # xs) \<Longrightarrow> rbt_expire_timer now T =
      (if now < tm_key T x then Some ([], T)
       else do { s1 \<leftarrow> rbt_drop x T; (cs, s2) \<leftarrow> rbt_expire_timer now s1; Some ((tm_handler T x, x) # cs, s2) })"
    using rbt_expire_step [of T "x # xs" now] by simp
  show "tm_items T (x # xs) \<Longrightarrow> \<exists>s'. rbt_drop x T = Some s' \<and> tm_items s' xs \<and>
      (\<forall>y \<in> set xs. tm_key s' y = tm_key T y \<and> (tm_handler s' y, y) = (tm_handler T y, y))"
    using rbt_drop_ok [of T x xs] by auto
qed

interpretation rbts: sorted_timer_queue tm_sorted tm_key "\<lambda>T x. (tm_handler T x, x)" rbt_drop "\<lambda>w::u32. w" rbt_expire_timer
proof unfold_locales
  fix T :: rbt_timers and x :: addr and xs :: "addr list" and now :: u32
  show "tm_sorted T [] \<Longrightarrow> rbt_expire_timer now T = Some ([], T)"
    using rbt.expire_empty by (simp add: tm_sorted_def)
  show "tm_sorted T (x # xs) \<Longrightarrow> rbt_expire_timer now T =
      (if now < tm_key T x then Some ([], T)
       else do { s1 \<leftarrow> rbt_drop x T; (cs, s2) \<leftarrow> rbt_expire_timer now s1; Some ((tm_handler T x, x) # cs, s2) })"
    using rbt.expire_first [of T x xs now] by (simp add: tm_sorted_def)
  show "\<exists>s'. rbt_drop x T = Some s' \<and> tm_sorted s' xs \<and>
      (\<forall>y \<in> set xs. tm_key s' y = tm_key T y \<and> (tm_handler s' y, y) = (tm_handler T y, y))"
    if srt: "tm_sorted T (x # xs)"
  proof -
    obtain s' where s': "rbt_drop x T = Some s'" "tm_items s' xs"
      "\<forall>y \<in> set xs. tm_key s' y = tm_key T y \<and> tm_handler s' y = tm_handler T y"
      using rbt_drop_ok [of T x xs] srt unfolding tm_sorted_def by blast
    have m: "map (tm_key s') xs = map (tm_key T) xs" using s'(3) by simp
    have "tm_sorted s' xs" unfolding tm_sorted_def m using s'(2) srt by (simp add: tm_sorted_def)
    then show ?thesis using s' by blast
  qed
  show "tm_sorted T xs \<Longrightarrow> sorted (map (tm_key T) xs)" by (simp add: tm_sorted_def)
qed

section \<open>Insertion in the order of the keys\<close>

lemma sorted_put:
  assumes "sorted (map f xs)" "f y = v"
  shows "sorted (map f (takeWhile (\<lambda>x. f x \<le> v) xs @ y # dropWhile (\<lambda>x. f x \<le> (v::'a::linorder)) xs))"
  using assms by (induction xs) (auto dest: set_takeWhileD set_dropWhileD)

lemma set_put: "set (takeWhile P xs @ y # dropWhile P xs) = insert y (set xs)"
proof -
  have "set (takeWhile P xs) \<union> set (dropWhile P xs) = set xs" by (metis set_append takeWhile_dropWhile_id)
  then show ?thesis by auto
qed

lemma tree_at_key [simp]: "tree_at (set_key b k h) s par p t = tree_at h s par p t"
  by (induction t arbitrary: par p) (auto simp: set_defs)

lemma rb_tree_key [simp]: "rb_tree (set_key b k h) s t = rb_tree h s t"
  by (simp add: rb_tree_def holds_tree_def located_def) (simp add: set_defs)

lemma insert_sorted:
  assumes t: "rb_tree h s t" and node: "node \<noteq> s" "node \<notin> set (inorder t)"
    and f: "sorted (map f (inorder t))"
      "\<And>x. x \<in> set (inorder t) \<Longrightarrow> lt (rb_key h node) (rb_key h x) \<longleftrightarrow> (f node::'a::linorder) < f x"
  shows "\<exists>h' t'. ngx_rbtree_insert (insert_at lt) s node h = Some h' \<and> rb_tree h' s t' \<and> rb_key h' = rb_key h
     \<and> inorder t' = takeWhile (\<lambda>x. f x \<le> f node) (inorder t) @ node # dropWhile (\<lambda>x. f x \<le> f node) (inorder t)
     \<and> sorted (map f (inorder t'))"
proof -
  let ?P = "\<lambda>x. lt (rb_key h node) (rb_key h x)"
  have "sorted_wrt (\<lambda>x y. f x \<le> f y) (inorder t)" using f(1) by (simp add: sorted_map)
  then have m: "sorted_wrt (\<lambda>x y. ?P x \<longrightarrow> ?P y) (inorder t)"
    by (rule sorted_wrt_mono_rel [rotated]) (use f(2) in auto)
  have e: "put_in ?P node (inorder t) =
      takeWhile (\<lambda>x. f x \<le> f node) (inorder t) @ node # dropWhile (\<lambda>x. f x \<le> f node) (inorder t)"
  proof -
    have "takeWhile (\<lambda>y. \<not> ?P y) (inorder t) = takeWhile (\<lambda>x. f x \<le> f node) (inorder t)"
      "dropWhile (\<lambda>y. \<not> ?P y) (inorder t) = dropWhile (\<lambda>x. f x \<le> f node) (inorder t)"
      by (rule takeWhile_cong dropWhile_cong; simp add: f(2) not_less)+
    then show ?thesis by (simp add: put_in_def)
  qed
  obtain h' t' where "ngx_rbtree_insert (insert_at lt) s node h = Some h'" "rb_tree h' s t'" "rb_key h' = rb_key h"
    "inorder t' = put_in ?P node (inorder t)" using insert_ok [where lt = lt, OF t node m] by blast
  then show ?thesis using e sorted_put [OF f(1), of node "f node"] by auto
qed

text \<open>The comparison of the timer callback is the order seen from a base within half the clock's range.\<close>

lemma timer_lt_window:
  assumes "unat (k - b) < 2 ^ 31" "unat (t - b) < 2 ^ 31"
  shows "timer_lt k t \<longleftrightarrow> k - b < t - b"
proof -
  have e: "k - t = (k - b) - (t - b)" by simp
  have "timer_lt k t \<longleftrightarrow> 2147483648 \<le> unat (k - t)"
    using unat_u32_lt [of "k - t"] by (simp add: timer_lt_def sint_u32)
  also have "\<dots> \<longleftrightarrow> unat (k - b) < unat (t - b)"
  proof -
    have "2147483648 \<le> unat (u - v) \<longleftrightarrow> unat u < unat v" if "unat u < 2 ^ 31" "unat v < 2 ^ 31" for u v :: u32
      using that by (auto simp: unat_sub_if')
    then show ?thesis unfolding e using assms by blast
  qed
  finally show ?thesis by (simp add: word_less_nat_alt)
qed

lemma rbt_add_timer_ok:
  assumes it: "tm_items T xs" and te: "te \<notin> set xs" "te \<noteq> tm_sentinel T" "tm_live T te"
    and win: "\<forall>x \<in> set xs. unat (tm_key T x - b) < 2 ^ 31" "unat (msec + now - b) < 2 ^ 31"
    and srt: "sorted (map (\<lambda>x. tm_key T x - b) xs)"
  defines "ys \<equiv> takeWhile (\<lambda>x. tm_key T x - b \<le> msec + now - b) xs @ te # dropWhile (\<lambda>x. tm_key T x - b \<le> msec + now - b) xs"
  shows "\<exists>T'. rbt_add_timer now te msec T = Some T' \<and> tm_items T' ys \<and> tm_key T' = (tm_key T)(te := msec + now)
    \<and> sorted (map (\<lambda>x. tm_key T' x - b) ys) \<and> tm_handler T' = tm_handler T \<and> tm_live T' = tm_live T
    \<and> tm_sentinel T' = tm_sentinel T"
proof -
  let ?k = "(tm_key T)(te := msec + now)" and ?h = "set_key te (msec + now) (tm_heap T)"
  obtain t where t: "rb_tree (tm_heap T) (tm_sentinel T) t" "inorder t = xs" using it by (auto simp: tm_items_def)
  have k: "rb_key ?h = ?k" by (simp add: set_defs tm_key_def fun_eq_iff)
  have kx: "x \<in> set xs \<Longrightarrow> ?k x = tm_key T x" for x using te(1) by auto
  have m: "map (\<lambda>x. ?k x - b) xs = map (\<lambda>x. tm_key T x - b) xs" using kx by simp
  have "sorted (map (\<lambda>x. ?k x - b) (inorder t))" unfolding t(2) m by (rule srt)
  moreover have "timer_lt (rb_key ?h te) (rb_key ?h x) \<longleftrightarrow> ?k te - b < ?k x - b" if "x \<in> set (inorder t)" for x
    unfolding k using win that t(2) kx by (intro timer_lt_window) auto
  ultimately obtain h' t' where h': "ngx_rbtree_insert (insert_at timer_lt) (tm_sentinel T) te ?h = Some h'"
      "rb_tree h' (tm_sentinel T) t'" "rb_key h' = ?k"
      "inorder t' = takeWhile (\<lambda>x. ?k x - b \<le> ?k te - b) (inorder t) @ te # dropWhile (\<lambda>x. ?k x - b \<le> ?k te - b) (inorder t)"
      "sorted (map (\<lambda>x. ?k x - b) (inorder t'))"
    using insert_sorted [of ?h "tm_sentinel T" t te "\<lambda>x. ?k x - b" timer_lt] t te k by auto
  have "takeWhile (\<lambda>x. ?k x - b \<le> ?k te - b) xs = takeWhile (\<lambda>x. tm_key T x - b \<le> msec + now - b) xs"
    "dropWhile (\<lambda>x. ?k x - b \<le> ?k te - b) xs = dropWhile (\<lambda>x. tm_key T x - b \<le> msec + now - b) xs"
    by (rule takeWhile_cong dropWhile_cong; use te(1) in auto)+
  then have ys: "inorder t' = ys" using h'(4) t(2) by (simp add: ys_def)
  have sub: "set ys = insert te (set xs)" unfolding ys_def by (rule set_put)
  let ?T = "T\<lparr>tm_heap := h'\<rparr>"
  have "tm_items ?T ys" using h'(2) ys sub te(3) it by (auto simp: tm_items_def)
  moreover have kT: "tm_key ?T = ?k" using h'(3) by (simp add: tm_key_def fun_eq_iff)
  moreover have "sorted (map (\<lambda>x. tm_key ?T x - b) ys)" using h'(5) unfolding kT ys .
  moreover have "rbt_add_timer now te msec T = Some ?T"
    using h'(1) by (simp add: rbt_add_timer_def ngx_rbtree_insert_timer_value_def)
  ultimately show ?thesis by (intro exI [of _ ?T]) simp
qed

text \<open>A fresh tree.\<close>

lemma rbt_init_ok: "tm_items (rbt_init_timer T) []"
proof -
  have "rb_tree (ngx_rbtree_init s h) s Leaf" for s h
    by (simp add: rb_tree_def holds_tree_def located_def ngx_rbtree_init_def ngx_rbt_black_def set_root_def)
  then show ?thesis by (auto simp: tm_items_def rbt_init_timer_def intro!: exI [of _ Leaf])
qed

section \<open>The height\<close>

text \<open>The longest path has at most twice as many nodes as the black nodes of any path.\<close>

lemma rbt_height: "rbt col t n \<Longrightarrow> height t \<le> (if root_black col t then 2 * n else 2 * n + 1)"
proof (induction t arbitrary: n)
  case (Node l a r)
  show ?case
  proof (cases "col a = 0")
    case True
    then obtain m where n: "n = Suc m" "rbt col l m" "rbt col r m" using Node.prems by (cases n) auto
    have "height l \<le> 2 * m + 1" "height r \<le> 2 * m + 1"
      using Node.IH n(2,3) by (fastforce split: if_splits)+
    then show ?thesis using True n(1) by simp
  next
    case False
    then have "height l \<le> 2 * n" "height r \<le> 2 * n" using Node.IH Node.prems by (auto split: if_splits)
    then show ?thesis using False by simp
  qed
qed simp

lemma rbt_size: "rbt col t n \<Longrightarrow> 2 ^ n \<le> size1 t"
proof (induction t arbitrary: n)
  case (Node l a r)
  show ?case
  proof (cases "col a = 0")
    case True
    then obtain m where n: "n = Suc m" "rbt col l m" "rbt col r m" using Node.prems by (cases n) auto
    then show ?thesis using Node.IH(1) [OF n(2)] Node.IH(2) [OF n(3)] by simp
  next
    case False
    then show ?thesis using Node.IH(1) [of n] Node.prems by simp
  qed
qed simp

lemma rb_height:
  assumes "rb_tree h s t"
  shows "2 ^ height t \<le> (length (inorder t) + 1) ^ 2"
proof -
  obtain n where n: "rbt (rb_color h) t n" "root_black (rb_color h) t" using assms by (auto simp: rb_tree_def)
  have "(2::nat) ^ height t \<le> 2 ^ (2 * n)" using rbt_height [OF n(1)] n(2) by (intro power_increasing) simp_all
  also have "\<dots> = (2 ^ n) ^ 2" by (simp add: power_mult power2_eq_square flip: power_mult_distrib)
  also have "\<dots> \<le> (size1 t) ^ 2" using rbt_size [OF n(1)] by (intro power_mono) simp_all
  finally show ?thesis by (simp add: size1_size)
qed

section \<open>A first tree\<close>

definition sample_heap :: rbheap where
  "sample_heap = \<lparr>rb_key = \<lambda>a. of_nat a, rb_left = \<lambda>_. 0, rb_right = \<lambda>_. 0, rb_parent = \<lambda>_. 0,
     rb_color = \<lambda>_. 0, rb_root = 0\<rparr>"

definition sample_timers :: rbt_timers where
  "sample_timers = \<lparr>tm_heap = sample_heap, tm_sentinel = 1, tm_handler = \<lambda>x. x + 7, tm_live = \<lambda>_. True\<rparr>"

lemma sample_tree: "rb_tree (ngx_rbtree_init 1 sample_heap) 1 Leaf" "rb_key (ngx_rbtree_init 1 sample_heap) = of_nat"
  by (simp_all add: rb_tree_def holds_tree_def located_def ngx_rbtree_init_def ngx_rbt_black_def set_root_def
      set_color_def sample_heap_def fun_eq_iff)

section \<open>Properties\<close>

text \<open>C8: inserting a node into a tree that is sorted by key ends, and gives a red-black tree that is
  sorted by key again: the old nodes with the new one behind every node whose key is not larger.  The
  height stays logarithmic.\<close>

theorem rbtree_insert_sorted:
  assumes "rb_tree h s t" and "node \<noteq> s" and "node \<notin> set (inorder t)" and "sorted (map (rb_key h) (inorder t))"
  shows "\<exists>h' t'. ngx_rbtree_insert ngx_rbtree_insert_value s node h = Some h' \<and> rb_tree h' s t' \<and> rb_key h' = rb_key h
     \<and> inorder t' = takeWhile (\<lambda>x. rb_key h x \<le> rb_key h node) (inorder t) @ node #
         dropWhile (\<lambda>x. rb_key h x \<le> rb_key h node) (inorder t)
     \<and> sorted (map (rb_key h') (inorder t')) \<and> 2 ^ height t' \<le> (length (inorder t') + 1) ^ 2"
proof -
  obtain h' t' where "ngx_rbtree_insert (insert_at key_lt) s node h = Some h'" "rb_tree h' s t'" "rb_key h' = rb_key h"
    "inorder t' = takeWhile (\<lambda>x. rb_key h x \<le> rb_key h node) (inorder t) @ node #
         dropWhile (\<lambda>x. rb_key h x \<le> rb_key h node) (inorder t)" "sorted (map (rb_key h) (inorder t'))"
    using insert_sorted [OF assms, of key_lt] by (auto simp: key_lt_def)
  then show ?thesis using rb_height [of h' s t'] unfolding ngx_rbtree_insert_value_def by metis
qed

lemma rbtree_insert_sorted_witness:
  "\<exists>h1 t1 h2 t2. ngx_rbtree_insert ngx_rbtree_insert_value 1 16 (ngx_rbtree_init 1 sample_heap) = Some h1 \<and>
     rb_tree h1 1 t1 \<and> ngx_rbtree_insert ngx_rbtree_insert_value 1 32 h1 = Some h2 \<and> rb_tree h2 1 t2 \<and> inorder t2 = [16, 32]"
proof -
  obtain h1 t1 where h1: "ngx_rbtree_insert ngx_rbtree_insert_value 1 16 (ngx_rbtree_init 1 sample_heap) = Some h1"
      "rb_tree h1 1 t1" "inorder t1 = [16]" "rb_key h1 = of_nat"
    using rbtree_insert_sorted [OF sample_tree(1), of 16] sample_tree(2) by auto
  then show ?thesis using rbtree_insert_sorted [OF h1(2), of 32] by auto
qed

text \<open>C9: deleting a node of a red-black tree ends, and gives a red-black tree of logarithmic height that
  has exactly the other nodes, in the same order and with the same keys; the key of the deleted node is
  cleared.\<close>

theorem rbtree_delete_removes:
  assumes "rb_tree h s t" and "node \<in> set (inorder t)"
  shows "\<exists>h' t'. ngx_rbtree_delete s node h = Some h' \<and> rb_tree h' s t' \<and> inorder t' = remove1 node (inorder t)
    \<and> node \<notin> set (inorder t') \<and> rb_key h' = (rb_key h)(node := 0) \<and> 2 ^ height t' \<le> (length (inorder t') + 1) ^ 2"
proof -
  obtain h' t' where "ngx_rbtree_delete s node h = Some h'" "rb_tree h' s t'" "rb_key h' = (rb_key h)(node := 0)"
    "inorder t' = remove1 node (inorder t)" using delete_ok [OF assms] by blast
  moreover have "distinct (inorder t)" using assms(1) by (simp add: rb_tree_def holds_tree_def located_def)
  moreover have "node \<notin> set (remove1 node (inorder t))" using calculation(5) by simp
  ultimately show ?thesis using rb_height by metis
qed

lemma sample_two:
  "\<exists>h t. rb_tree h 1 t \<and> inorder t = [16, 32] \<and> rb_key h = of_nat"
proof -
  obtain h t where h: "rb_tree h 1 t" "inorder t = [16]" "rb_key h = of_nat"
    using insert_sorted [OF sample_tree(1), of 16 id key_lt] sample_tree(2) by auto
  have lt: "key_lt (rb_key h 32) (rb_key h x) \<longleftrightarrow> (32::nat) < x" if "x \<in> set (inorder t)" for x
    using that h(2,3) by (simp add: key_lt_def)
  obtain h2 t2 where "rb_tree h2 1 t2" "inorder t2 = [16, 32]" "rb_key h2 = of_nat"
    using insert_sorted [OF h(1), of 32 "\<lambda>x. x" key_lt] h(2,3) lt by auto
  then show ?thesis by blast
qed

lemma rbtree_delete_removes_witness:
  "\<exists>h t h' t'. rb_tree h 1 t \<and> inorder t = [16, 32] \<and> ngx_rbtree_delete 1 16 h = Some h' \<and> rb_tree h' 1 t' \<and> inorder t' = [32]"
proof -
  obtain h t where h: "rb_tree h 1 t" "inorder t = [16, 32]" using sample_two by blast
  then show ?thesis using rbtree_delete_removes [OF h(1), of 16] by auto
qed

text \<open>Adding a timer while every pending time is within half the range of the clock from some base
  puts it behind every timer that is not later, across the wrap of the clock; the queue stays ordered.\<close>

theorem rbt_add_timer_ordered:
  assumes "tm_items T xs" and "te \<notin> set xs" and "te \<noteq> tm_sentinel T" and "tm_live T te"
    and "\<forall>x \<in> set xs. unat (tm_key T x - b) < 2 ^ 31" and "unat (msec + now - b) < 2 ^ 31"
    and "sorted (map (\<lambda>x. tm_key T x - b) xs)"
  shows "\<exists>T' ys. rbt_add_timer now te msec T = Some T' \<and> tm_items T' ys
    \<and> ys = takeWhile (\<lambda>x. tm_key T x - b \<le> msec + now - b) xs @ te # dropWhile (\<lambda>x. tm_key T x - b \<le> msec + now - b) xs
    \<and> tm_key T' = (tm_key T)(te := msec + now) \<and> sorted (map (\<lambda>x. tm_key T' x - b) ys)"
  using rbt_add_timer_ok [OF assms] by blast

lemma rbt_add_timer_ordered_witness:
  "\<exists>T. rbt_add_timer 4294967000 16 3000 (rbt_init_timer sample_timers) = Some T \<and> tm_items T [16] \<and> tm_key T 16 = 2704"
proof -
  have i: "tm_items (rbt_init_timer sample_timers) []" by (rule rbt_init_ok)
  have "(16::nat) \<noteq> tm_sentinel (rbt_init_timer sample_timers)" "tm_live (rbt_init_timer sample_timers) 16"
    by (simp_all add: rbt_init_timer_def sample_timers_def)
  from rbt_add_timer_ordered [OF i _ this, of 4294967000 3000 4294967000] show ?thesis by auto
qed

text \<open>C10: When the pending times are in plain order (the tree orders them across the wrap of the clock),
  \<open>expire_timer\<close> returns, runs the handlers of exactly the timers that are due, in order, takes them out of the tree
  and frees them, and keeps exactly the others.\<close>

theorem rbt_expire_timer_due:
  assumes "tm_items T xs" and "sorted (map (tm_key T) xs)"
  shows "\<exists>T'. rbt_expire_timer now T = Some (map (\<lambda>x. (tm_handler T x, x)) (filter (\<lambda>x. tm_key T x \<le> now) xs), T')
    \<and> tm_items T' (filter (\<lambda>x. now < tm_key T x) xs)"
  using rbts.expire_due [of T xs now] assms unfolding tm_sorted_def by blast

lemma rbt_expire_timer_due_witness:
  "\<exists>T T'. rbt_add_timer 5 16 10 (rbt_init_timer sample_timers) = Some T \<and> rbt_expire_timer 20 T = Some ([(23, 16)], T') \<and>
     tm_items T' []"
proof -
  have i: "tm_items (rbt_init_timer sample_timers) []" by (rule rbt_init_ok)
  have "(16::nat) \<noteq> tm_sentinel (rbt_init_timer sample_timers)" "tm_live (rbt_init_timer sample_timers) 16"
    and hd: "tm_handler (rbt_init_timer sample_timers) 16 = 23"
    by (simp_all add: rbt_init_timer_def sample_timers_def)
  from rbt_add_timer_ok [OF i _ this(1,2), of 0 10 5] obtain T where
    T: "rbt_add_timer 5 16 10 (rbt_init_timer sample_timers) = Some T" "tm_items T [16]" "tm_key T 16 = 15"
      "tm_handler T 16 = 23" using hd by auto
  show ?thesis using rbt_expire_timer_due [OF T(2), of 20] T by auto
qed

text \<open>The tree orders the times across the wrap of the clock, but \<open>expire_timer\<close> compares them
  plainly: a timer of \<open>msec\<close>, looked at \<open>d\<close> milliseconds after it was added to an empty
  queue, runs exactly when its delay has passed if both readings lie on the same side of the wrap, and
  otherwise runs too early (only its own time wrapped) or not at all (only the clock wrapped).\<close>

theorem rbt_timer_wraps:
  assumes "tm_items T []" and "te \<noteq> tm_sentinel T" and "tm_live T te"
    and "unat msec < 2 ^ 31" and "unat d < 2 ^ 31"
  shows "\<exists>T1 calls T2. rbt_add_timer now te msec T = Some T1 \<and> rbt_expire_timer (now + d) T1 = Some (calls, T2) \<and>
    calls = (if (2 ^ 32 \<le> unat now + unat msec) = (2 ^ 32 \<le> unat now + unat d) \<and> msec \<le> d
               \<or> 2 ^ 32 \<le> unat now + unat msec \<and> unat now + unat d < 2 ^ 32
             then [(tm_handler T te, te)] else [])"
proof -
  have w: "unat (msec + now - now) < 2 ^ 31" using assms(4) by simp
  obtain T1 where T1: "rbt_add_timer now te msec T = Some T1" "tm_items T1 [te]" "tm_key T1 te = msec + now"
    "tm_handler T1 = tm_handler T"
    using rbt_add_timer_ok [OF assms(1) _ assms(2,3) _ w] by auto
  obtain T2 where T2: "rbt_expire_timer (now + d) T1 = Some (map (\<lambda>x. (tm_handler T1 x, x))
      (takeWhile (\<lambda>x. tm_key T1 x \<le> now + d) [te]), T2)"
    using rbt.expire_prefix [OF T1(2), of "now + d"] by blast
  have plus: "unat (now + v) = (if 2 ^ 32 \<le> unat now + unat v then unat now + unat v - 2 ^ 32 else unat now + unat v)" for v
    using unat_u32_lt [of now] unat_u32_lt [of v] by (simp add: unat_plus_if')
  have "msec + now \<le> now + d \<longleftrightarrow> unat (now + msec) \<le> unat (now + d)"
    by (simp add: word_le_nat_alt add.commute)
  also have "\<dots> \<longleftrightarrow> (2 ^ 32 \<le> unat now + unat msec) = (2 ^ 32 \<le> unat now + unat d) \<and> msec \<le> d
               \<or> 2 ^ 32 \<le> unat now + unat msec \<and> unat now + unat d < 2 ^ 32"
    unfolding plus word_le_nat_alt using assms(4,5) unat_u32_lt [of now] unat_u32_lt [of d] unat_u32_lt [of msec]
    by auto
  finally show ?thesis using T1 T2 by auto
qed

lemma rbt_timer_wraps_witness:
  "\<exists>T1 T2. rbt_add_timer 4294967000 16 10 (rbt_init_timer sample_timers) = Some T1 \<and>
     rbt_expire_timer (4294967000 + 1000) T1 = Some ([], T2)"
proof -
  have i: "tm_items (rbt_init_timer sample_timers) []" by (rule rbt_init_ok)
  have "(16::nat) \<noteq> tm_sentinel (rbt_init_timer sample_timers)" "tm_live (rbt_init_timer sample_timers) 16"
    by (simp_all add: rbt_init_timer_def sample_timers_def)
  from rbt_timer_wraps [OF i this, of 10 1000 4294967000] show ?thesis by auto
qed

end
