(* ===== verification/Tree_Rbtree.thy ===== *)
theory Tree_Rbtree
  imports Cvip_Prelude
begin

text \<open>
  The red-black tree of \<open>code/tree/rbtree.c\<close>: a dictionary from integer keys to pointers.  As in the tree of
  the timer, nodes live in a heap with one map per field, and a node \<open>nil\<close> stands for every missing child;
  here \<open>nil\<close> is also the parent of the root, the colours are 1 and 2, equal keys are refused, and a deletion
  moves the key and the value of the successor instead of the node.  A loop that does not end is \<open>None\<close>.
\<close>

type_synonym tnode = nat

record rbtree =
  t_color :: "tnode \<Rightarrow> u8"
  t_right :: "tnode \<Rightarrow> tnode"
  t_left :: "tnode \<Rightarrow> tnode"
  t_parent :: "tnode \<Rightarrow> tnode"
  t_key :: "tnode \<Rightarrow> int"
  t_value :: "tnode \<Rightarrow> nat"
  t_root :: tnode
  t_nil :: tnode

definition RED :: u8 where "RED = 1"

definition BLACK :: u8 where "BLACK = 2"

section \<open>Field assignments\<close>

definition put_color :: "tnode \<Rightarrow> u8 \<Rightarrow> rbtree \<Rightarrow> rbtree" where
  "put_color a v T = T\<lparr>t_color := (t_color T)(a := v)\<rparr>"

definition put_right :: "tnode \<Rightarrow> tnode \<Rightarrow> rbtree \<Rightarrow> rbtree" where
  "put_right a v T = T\<lparr>t_right := (t_right T)(a := v)\<rparr>"

definition put_left :: "tnode \<Rightarrow> tnode \<Rightarrow> rbtree \<Rightarrow> rbtree" where
  "put_left a v T = T\<lparr>t_left := (t_left T)(a := v)\<rparr>"

definition put_parent :: "tnode \<Rightarrow> tnode \<Rightarrow> rbtree \<Rightarrow> rbtree" where
  "put_parent a v T = T\<lparr>t_parent := (t_parent T)(a := v)\<rparr>"

definition put_root :: "tnode \<Rightarrow> rbtree \<Rightarrow> rbtree" where
  "put_root v T = T\<lparr>t_root := v\<rparr>"

lemmas put_defs = put_color_def put_right_def put_left_def put_parent_def put_root_def

section \<open>Walks\<close>

partial_function (option) rbtree_mini :: "rbtree \<Rightarrow> tnode \<Rightarrow> tnode option" where
  "rbtree_mini T x = (if t_left T x \<noteq> t_nil T then rbtree_mini T (t_left T x) else Some x)"

partial_function (option) rbtree_maxi :: "rbtree \<Rightarrow> tnode \<Rightarrow> tnode option" where
  "rbtree_maxi T x = (if t_right T x \<noteq> t_nil T then rbtree_maxi T (t_right T x) else Some x)"

partial_function (option) successor_climb :: "rbtree \<Rightarrow> tnode \<Rightarrow> tnode \<Rightarrow> tnode option" where
  "successor_climb T x y =
     (if y \<noteq> t_nil T \<and> x = t_right T y then successor_climb T y (t_parent T y) else Some y)"

definition rbtree_successor :: "rbtree \<Rightarrow> tnode \<Rightarrow> tnode option" where
  "rbtree_successor T x =
     (let y = t_parent T x in
      if t_right T x \<noteq> t_nil T then rbtree_mini T (t_right T x) else successor_climb T x y)"

partial_function (option) search_loop :: "rbtree \<Rightarrow> int \<Rightarrow> tnode \<Rightarrow> tnode option" where
  "search_loop T key node =
     (if node \<noteq> t_nil T then
        if key < t_key T node then search_loop T key (t_left T node)
        else if key > t_key T node then search_loop T key (t_right T node)
        else Some node
      else Some (t_nil T))"

definition rbtree_search :: "rbtree \<Rightarrow> int \<Rightarrow> tnode option" where
  "rbtree_search T key = search_loop T key (t_root T)"

text \<open>The keys and colours in the order in which they are printed.\<close>

partial_function (option) rbtree_traversal :: "rbtree \<Rightarrow> tnode \<Rightarrow> (int \<times> u8) list option" where
  "rbtree_traversal T node =
     (if node \<noteq> t_nil T then do {
        xs \<leftarrow> rbtree_traversal T (t_left T node);
        ys \<leftarrow> rbtree_traversal T (t_right T node);
        Some (xs @ (t_key T node, t_color T node) # ys)
      } else Some [])"

section \<open>Rotations\<close>

definition rbtree_left_rotate :: "rbtree \<Rightarrow> tnode \<Rightarrow> rbtree" where
  "rbtree_left_rotate T x =
     (let y = t_right T x;
          T1 = put_right x (t_left T y) T;
          T2 = (if t_left T1 y \<noteq> t_nil T1 then put_parent (t_left T1 y) x T1 else T1);
          T3 = put_parent y (t_parent T2 x) T2;
          T4 = (if t_parent T3 x = t_nil T3 then put_root y T3
                else if x = t_left T3 (t_parent T3 x) then put_left (t_parent T3 x) y T3
                else put_right (t_parent T3 x) y T3);
          T5 = put_left y x T4
      in put_parent x y T5)"

definition rbtree_right_rotate :: "rbtree \<Rightarrow> tnode \<Rightarrow> rbtree" where
  "rbtree_right_rotate T y =
     (let x = t_left T y;
          T1 = put_left y (t_right T x) T;
          T2 = (if t_right T1 x \<noteq> t_nil T1 then put_parent (t_right T1 x) y T1 else T1);
          T3 = put_parent x (t_parent T2 y) T2;
          T4 = (if t_parent T3 y = t_nil T3 then put_root x T3
                else if y = t_right T3 (t_parent T3 y) then put_right (t_parent T3 y) x T3
                else put_left (t_parent T3 y) x T3);
          T5 = put_right x y T4
      in put_parent y x T5)"

section \<open>Insertion\<close>

definition insert_fixup_step :: "rbtree \<Rightarrow> tnode \<Rightarrow> tnode \<times> rbtree" where
  "insert_fixup_step T z =
     (let p = t_parent T z; g = t_parent T p in
      if p = t_left T g then
        let y = t_right T g in
        if t_color T y = RED then
          (g, put_color g RED (put_color y BLACK (put_color p BLACK T)))
        else
          let (z1, T1) = (if z = t_right T p then (p, rbtree_left_rotate T p) else (z, T));
              T2 = put_color (t_parent T1 z1) BLACK T1;
              T3 = put_color (t_parent T2 (t_parent T2 z1)) RED T2
          in (z1, rbtree_right_rotate T3 (t_parent T3 (t_parent T3 z1)))
      else
        let y = t_left T g in
        if t_color T y = RED then
          (g, put_color g RED (put_color y BLACK (put_color p BLACK T)))
        else
          let (z1, T1) = (if z = t_left T p then (p, rbtree_right_rotate T p) else (z, T));
              T2 = put_color (t_parent T1 z1) BLACK T1;
              T3 = put_color (t_parent T2 (t_parent T2 z1)) RED T2
          in (z1, rbtree_left_rotate T3 (t_parent T3 (t_parent T3 z1))))"

partial_function (option) rbtree_insert_fixup :: "rbtree \<Rightarrow> tnode \<Rightarrow> rbtree option" where
  "rbtree_insert_fixup T z =
     (if t_color T (t_parent T z) = RED
      then (case insert_fixup_step T z of (z', T') \<Rightarrow> rbtree_insert_fixup T' z')
      else Some (put_color (t_root T) BLACK T))"

text \<open>The descent: the parent of the new node, or \<open>Inl\<close> a node with the same key.\<close>

partial_function (option) insert_walk :: "rbtree \<Rightarrow> int \<Rightarrow> tnode \<Rightarrow> tnode \<Rightarrow> (tnode + tnode) option" where
  "insert_walk T key x y =
     (if x \<noteq> t_nil T then
        if key < t_key T x then insert_walk T key (t_left T x) x
        else if key > t_key T x then insert_walk T key (t_right T x) x
        else Some (Inl x)
      else Some (Inr y))"

definition rbtree_insert :: "rbtree \<Rightarrow> tnode \<Rightarrow> rbtree option" where
  "rbtree_insert T z = do {
     r \<leftarrow> insert_walk T (t_key T z) (t_root T) (t_nil T);
     case r of
       Inl _ \<Rightarrow> Some T
     | Inr y \<Rightarrow>
         let T1 = put_parent z y T;
             T2 = (if y = t_nil T1 then put_root z T1
                   else if t_key T1 z < t_key T1 y then put_left y z T1
                   else put_right y z T1);
             T3 = put_left z (t_nil T2) T2;
             T4 = put_right z (t_nil T3) T3;
             T5 = put_color z RED T4
         in rbtree_insert_fixup T5 z
   }"

section \<open>Deletion\<close>

definition delete_fixup_step :: "rbtree \<Rightarrow> tnode \<Rightarrow> tnode \<times> rbtree" where
  "delete_fixup_step T x =
     (if x = t_left T (t_parent T x) then
        let w0 = t_right T (t_parent T x);
            (w, T1) = (if t_color T w0 = RED then
                         let Ta = put_color w0 BLACK T;
                             Tb = put_color (t_parent Ta x) RED Ta;
                             Tc = rbtree_left_rotate Tb (t_parent Tb x)
                         in (t_right Tc (t_parent Tc x), Tc)
                       else (w0, T))
        in if t_color T1 (t_left T1 w) = BLACK \<and> t_color T1 (t_right T1 w) = BLACK
           then let Ta = put_color w RED T1 in (t_parent Ta x, Ta)
           else
             let (w2, T2) = (if t_color T1 (t_right T1 w) = BLACK then
                               let Ta = put_color (t_left T1 w) BLACK T1;
                                   Tb = put_color w RED Ta;
                                   Tc = rbtree_right_rotate Tb w
                               in (t_right Tc (t_parent Tc x), Tc)
                             else (w, T1));
                 T3 = put_color w2 (t_color T2 (t_parent T2 x)) T2;
                 T4 = put_color (t_parent T3 x) BLACK T3;
                 T5 = put_color (t_right T4 w2) BLACK T4;
                 T6 = rbtree_left_rotate T5 (t_parent T5 x)
             in (t_root T6, T6)
      else
        let w0 = t_left T (t_parent T x);
            (w, T1) = (if t_color T w0 = RED then
                         let Ta = put_color w0 BLACK T;
                             Tb = put_color (t_parent Ta x) RED Ta;
                             Tc = rbtree_right_rotate Tb (t_parent Tb x)
                         in (t_left Tc (t_parent Tc x), Tc)
                       else (w0, T))
        in if t_color T1 (t_left T1 w) = BLACK \<and> t_color T1 (t_right T1 w) = BLACK
           then let Ta = put_color w RED T1 in (t_parent Ta x, Ta)
           else
             let (w2, T2) = (if t_color T1 (t_left T1 w) = BLACK then
                               let Ta = put_color (t_right T1 w) BLACK T1;
                                   Tb = put_color w RED Ta;
                                   Tc = rbtree_left_rotate Tb w
                               in (t_left Tc (t_parent Tc x), Tc)
                             else (w, T1));
                 T3 = put_color w2 (t_color T2 (t_parent T2 x)) T2;
                 T4 = put_color (t_parent T3 x) BLACK T3;
                 T5 = put_color (t_left T4 w2) BLACK T4;
                 T6 = rbtree_right_rotate T5 (t_parent T5 x)
             in (t_root T6, T6))"

partial_function (option) rbtree_delete_fixup :: "rbtree \<Rightarrow> tnode \<Rightarrow> rbtree option" where
  "rbtree_delete_fixup T x =
     (if x \<noteq> t_root T \<and> t_color T x = BLACK
      then (case delete_fixup_step T x of (x', T') \<Rightarrow> rbtree_delete_fixup T' x')
      else Some (put_color x BLACK T))"

text \<open>The child \<open>x\<close> of \<open>y\<close> takes its place.\<close>

definition delete_splice :: "rbtree \<Rightarrow> tnode \<Rightarrow> tnode \<Rightarrow> rbtree" where
  "delete_splice T y x =
     (let T1 = put_parent x (t_parent T y) T in
      if t_parent T1 y = t_nil T1 then put_root x T1
      else if y = t_left T1 (t_parent T1 y) then put_left (t_parent T1 y) x T1
      else put_right (t_parent T1 y) x T1)"

definition rbtree_delete :: "rbtree \<Rightarrow> tnode \<Rightarrow> (tnode \<times> rbtree) option" where
  "rbtree_delete T z = do {
     y \<leftarrow> (if t_left T z = t_nil T \<or> t_right T z = t_nil T then Some z else rbtree_successor T z);
     let x = (if t_left T y \<noteq> t_nil T then t_left T y
              else if t_right T y \<noteq> t_nil T then t_right T y else t_nil T);
         T1 = delete_splice T y x;
         T2 = (if y \<noteq> z then T1\<lparr>t_key := (t_key T1)(z := t_key T1 y), t_value := (t_value T1)(z := t_value T1 y)\<rparr>
               else T1)
     in if t_color T2 y = BLACK then do { T3 \<leftarrow> rbtree_delete_fixup T2 x; Some (y, T3) } else Some (y, T2)
   }"


section \<open>The program\<close>

text \<open>\<open>main\<close>: the sentinel, one node for every key, and the deletion of the keys one by one.  The addresses
  are those that \<open>malloc\<close> returns; only the colour of the sentinel is set.\<close>

definition main_tree :: "tnode \<Rightarrow> rbtree \<Rightarrow> rbtree" where
  "main_tree nil T = T\<lparr>t_nil := nil, t_color := (t_color T)(nil := BLACK), t_root := nil\<rparr>"

fun main_insert :: "(tnode \<times> int) list \<Rightarrow> rbtree \<Rightarrow> rbtree option" where
  "main_insert [] T = Some T"
| "main_insert ((a, k) # xs) T = do {
     T1 \<leftarrow> rbtree_insert (T\<lparr>t_key := (t_key T)(a := k), t_value := (t_value T)(a := 0)\<rparr>) a;
     main_insert xs T1
   }"

fun main_delete :: "int list \<Rightarrow> rbtree \<Rightarrow> rbtree option" where
  "main_delete [] T = Some T"
| "main_delete (k # ks) T = do {
     a \<leftarrow> rbtree_search T k;
     (cur, T1) \<leftarrow> rbtree_delete T a;
     main_delete ks T1
   }"

end
