(* ===== verification/Tree_Rbtree_Sim.thy ===== *)
theory Tree_Rbtree_Sim
  imports Tree_Rbtree Rbtree_Delete
begin

text \<open>
  The rebalancing of \<open>code/tree/rbtree.c\<close> is simulated by that of the timer's tree: what a heap of the one
  holds is read as a heap of the other, every rotation and every iteration commutes with that reading, and
  so the results on shape, order and colours carry over.
\<close>

section \<open>The reading\<close>

definition view :: "rbtree \<Rightarrow> rbheap" where
  "view T = \<lparr>rb_key = \<lambda>_. 0, rb_left = t_left T, rb_right = t_right T, rb_parent = t_parent T,
     rb_color = \<lambda>a. if t_color T a = RED then 1 else 0, rb_root = t_root T\<rparr>"

lemma view_sel [simp]:
  "rb_left (view T) = t_left T" "rb_right (view T) = t_right T" "rb_parent (view T) = t_parent T"
  "rb_root (view T) = t_root T" "rb_color (view T) a = (if t_color T a = RED then 1 else 0)"
  by (simp_all add: view_def)

lemma put_sel [simp]:
  "t_color (put_color a k T) = (t_color T)(a := k)" "t_left (put_color a k T) = t_left T" "t_right (put_color a k T) = t_right T"
  "t_parent (put_color a k T) = t_parent T" "t_root (put_color a k T) = t_root T" "t_nil (put_color a k T) = t_nil T"
  "t_key (put_color a k T) = t_key T" "t_value (put_color a k T) = t_value T"
  by (simp_all add: put_defs)

lemma BLACK_RED [simp]: "BLACK \<noteq> RED" "RED \<noteq> BLACK"
  by (simp_all add: RED_def BLACK_def)

lemma view_color [simp]:
  "view (put_color a RED T) = ngx_rbt_red a (view T)" "view (put_color a BLACK T) = ngx_rbt_black a (view T)"
  "view (put_color a (t_color T b) T) = ngx_rbt_copy_color a b (view T)"
  by (auto simp: view_def put_defs set_defs ngx_rbt_red_def ngx_rbt_black_def ngx_rbt_copy_color_def)

lemma view_put:
  "view (put_left a v T) = set_left a v (view T)" "view (put_right a v T) = set_right a v (view T)"
  "view (put_parent a v T) = set_parent a v (view T)" "view (put_root v T) = set_root v (view T)"
  by (simp_all add: view_def put_defs set_defs)

text \<open>What the rebalancing does not touch.\<close>

definition payload :: "rbtree \<Rightarrow> (tnode \<Rightarrow> int) \<times> (tnode \<Rightarrow> nat) \<times> tnode" where
  "payload T = (t_key T, t_value T, t_nil T)"

lemma payload_color [simp]: "payload (put_color a k T) = payload T"
  by (simp add: payload_def)

definition rooted :: "rbheap \<Rightarrow> addr \<Rightarrow> bool" where
  "rooted h s \<longleftrightarrow> rb_parent h (rb_root h) = s"

lemma rooted_color [simp]: "rooted (set_color a k h) s = rooted h s"
  by (simp add: rooted_def)

lemma at_root:
  assumes "located h s c x (Node l x r)" "rooted h s"
  shows "rb_parent h x = s \<longleftrightarrow> x = rb_root h"
proof (cases c)
  case Nil
  then show ?thesis using assms by (auto simp: located_def rooted_def)
next
  case (Cons f c')
  have cx: "ctx_at h s (f # c') x" and p: "rb_parent h x = frame_addr f"
    and d: "x \<notin> set (before (f # c')) \<union> set (after (f # c'))"
    using assms(1) Cons by (auto simp: located_def)
  have "frame_addr f \<noteq> s" using ctx_at_set [OF cx] frame_addr_in [of f c'] by auto
  moreover have "x \<noteq> rb_root h" using root_in_ctx [OF cx] d by auto
  ultimately show ?thesis using p by simp
qed

section \<open>Rotations\<close>

lemma left_rotate_fields:
  assumes "rb_left h (rb_right h x) \<noteq> x" "rb_right h x \<noteq> x"
  shows "rb_root (ngx_rbtree_left_rotate s x h) = (if x = rb_root h then rb_right h x else rb_root h)"
    "rb_parent (ngx_rbtree_left_rotate s x h) =
      (let b = rb_left h (rb_right h x); P = (if b \<noteq> s then (rb_parent h)(b := x) else rb_parent h)
       in P(rb_right h x := rb_parent h x, x := rb_right h x))"
  using assms by (cases "x = rb_root h"; cases "rb_left h (rb_right h x) = s"; simp add: ngx_rbtree_left_rotate_def Let_def set_defs)+

lemma left_rotate_view:
  assumes loc: "located (view T) (t_nil T) c x (Node A x (Node B y C))" and root: "rooted (view T) (t_nil T)"
  shows "view (rbtree_left_rotate T x) = ngx_rbtree_left_rotate (t_nil T) x (view T)
    \<and> rooted (view (rbtree_left_rotate T x)) (t_nil T) \<and> payload (rbtree_left_rotate T x) = payload T
    \<and> t_color (rbtree_left_rotate T x) = t_color T"
proof -
  let ?s = "t_nil T"
  define b where "b = t_left T y"
  have y: "t_right T x = y" "y \<noteq> ?s" "x \<noteq> ?s" "x \<noteq> y" "t_parent T y = x" "t_left T y = b"
    and tb: "tree_at (view T) ?s y b B" and d: "x \<notin> set (inorder B)" "y \<notin> set (inorder B)"
    using loc by (auto simp: located_def b_def)
  have b: "b \<noteq> x" "b \<noteq> y" "b = ?s \<or> t_parent T b = y"
    using tree_at_set [OF tb] tb d y by (cases B; auto)+
  note px = at_root [OF loc root, simplified]
  define T1 where "T1 = put_right x b T"
  define T2 where "T2 = (if b \<noteq> ?s then put_parent b x T1 else T1)"
  define T3 where "T3 = put_parent y (t_parent T x) T2"
  define h1 where "h1 = set_right x b (view T)"
  define h2 where "h2 = (if b \<noteq> ?s then set_parent b x h1 else h1)"
  define h3 where "h3 = set_parent y (t_parent T x) h2"
  have v3: "view T3 = h3" by (simp add: T3_def T2_def T1_def h3_def h2_def h1_def view_put)
  have s3: "t_left T1 y = b" "t_nil T1 = ?s" "t_parent T2 x = t_parent T x"
      "t_parent T3 x = t_parent T x" "t_nil T3 = ?s" "t_left T3 = t_left T"
    using y b by (simp_all add: T3_def T2_def T1_def put_defs)
  have r3: "rb_left h1 y = b" "rb_parent h2 x = t_parent T x"
      "rb_parent h3 x = t_parent T x" "rb_root h3 = t_root T" "rb_left h3 = t_left T"
    using y b by (simp_all add: h3_def h2_def h1_def set_defs)
  have yy: "rb_right (view T) x = y" "rb_left (view T) y = b" using y by simp_all
  define T4 where "T4 = (if t_parent T x = ?s then put_root y T3
      else if x = t_left T (t_parent T x) then put_left (t_parent T x) y T3 else put_right (t_parent T x) y T3)"
  define h4 where "h4 = (if x = t_root T then set_root y h3
      else if x = t_left T (t_parent T x) then set_left (t_parent T x) y h3 else set_right (t_parent T x) y h3)"
  have runT: "rbtree_left_rotate T x = put_parent x y (put_left y x T4)"
    unfolding rbtree_left_rotate_def Let_def y(1,6) T1_def [symmetric] s3(1,2) T2_def [symmetric] s3(3)
      T3_def [symmetric] s3(4-6) T4_def [symmetric] ..
  have runh: "ngx_rbtree_left_rotate ?s x (view T) = set_parent x y (set_left y x h4)"
    unfolding ngx_rbtree_left_rotate_def Let_def yy h1_def [symmetric] r3(1) h2_def [symmetric] r3(2)
      h3_def [symmetric] r3(3-5) h4_def [symmetric] ..
  have "view T4 = h4" unfolding T4_def h4_def px v3 [symmetric] by (simp add: view_put)
  then have v: "view (rbtree_left_rotate T x) = ngx_rbtree_left_rotate ?s x (view T)"
    unfolding runT runh by (simp add: view_put)
  have f: "rb_left (view T) (rb_right (view T) x) \<noteq> x" "rb_right (view T) x \<noteq> x" using y b by simp_all
  note fl = left_rotate_fields [OF f, of ?s, unfolded yy Let_def]
  have "rooted (ngx_rbtree_left_rotate ?s x (view T)) ?s"
    using root y b px unfolding rooted_def fl by auto
  moreover have "payload T4 = payload T" "t_color T4 = t_color T"
    by (simp_all add: payload_def T4_def T3_def T2_def T1_def put_defs)
  then have "payload (rbtree_left_rotate T x) = payload T \<and> t_color (rbtree_left_rotate T x) = t_color T"
    unfolding runT by (simp add: payload_def put_defs)
  ultimately show ?thesis using v by simp
qed

text \<open>The mirror image.\<close>

definition mirT :: "rbtree \<Rightarrow> rbtree" where
  "mirT T = T\<lparr>t_left := t_right T, t_right := t_left T\<rparr>"

lemma mirT_sel [simp]:
  "t_left (mirT T) = t_right T" "t_right (mirT T) = t_left T" "t_parent (mirT T) = t_parent T"
  "t_color (mirT T) = t_color T" "t_key (mirT T) = t_key T" "t_value (mirT T) = t_value T" "t_root (mirT T) = t_root T"
  "t_nil (mirT T) = t_nil T" "mirT (mirT T) = T" "view (mirT T) = mir (view T)" "payload (mirT T) = payload T"
  by (simp_all add: mirT_def view_def mir_def payload_def)

lemma mirT_put [simp]:
  "put_left a v (mirT T) = mirT (put_right a v T)" "put_right a v (mirT T) = mirT (put_left a v T)"
  "put_parent a v (mirT T) = mirT (put_parent a v T)" "put_color a k (mirT T) = mirT (put_color a k T)"
  "put_root v (mirT T) = mirT (put_root v T)"
  by (simp_all add: put_defs mirT_def)

lemma rooted_mir [simp]: "rooted (mir h) s = rooted h s"
  by (simp add: rooted_def)

lemma mirT_if: "(if b then mirT x else mirT y) = mirT (if b then x else y)"
  by simp

lemma left_rotate_mirT: "rbtree_left_rotate (mirT T) x = mirT (rbtree_right_rotate T x)"
  unfolding rbtree_right_rotate_def rbtree_left_rotate_def Let_def
  by (simp only: mirT_sel mirT_put mirT_if)

lemma right_rotate_mirT: "rbtree_right_rotate (mirT T) x = mirT (rbtree_left_rotate T x)"
  using left_rotate_mirT [of "mirT T" x] by simp

lemma right_rotate_view:
  assumes loc: "located (view T) (t_nil T) c x (Node (Node A y B) x C)" and root: "rooted (view T) (t_nil T)"
  shows "view (rbtree_right_rotate T x) = ngx_rbtree_right_rotate (t_nil T) x (view T)
    \<and> rooted (view (rbtree_right_rotate T x)) (t_nil T) \<and> payload (rbtree_right_rotate T x) = payload T
    \<and> t_color (rbtree_right_rotate T x) = t_color T"
proof -
  have "located (view (mirT T)) (t_nil (mirT T)) (mir_ctx c) x (Node (mirror C) x (Node (mirror B) y (mirror A)))"
    using located_mir [of "view T" "t_nil T" c x "Node (Node A y B) x C"] loc by simp
  from left_rotate_view [OF this, unfolded left_rotate_mirT] root show ?thesis
    using left_rotate_mir [of "t_nil T" x "view T"] by (metis mirT_sel mir_mir rooted_mir)
qed

section \<open>An iteration of the rebalancing after an insertion\<close>

definition simulates :: "rbtree \<Rightarrow> tnode \<times> rbtree \<Rightarrow> addr \<times> rbheap \<Rightarrow> bool" where
  "simulates T r r' \<longleftrightarrow> fst r = fst r' \<and> view (snd r) = snd r' \<and> rooted (snd r') (t_nil T) \<and> payload (snd r) = payload T"

lemma payload_nil: "payload T' = payload T \<Longrightarrow> t_nil T' = t_nil T"
  by (simp add: payload_def)

lemma insert_step_sim_left:
  assumes rn: "red_node (view T) (t_nil T) (f # InL ga U # c) x l r n" and root: "rooted (view T) (t_nil T)"
  shows "simulates T (insert_fixup_step T x) (insert_fix_step (t_nil T) x (view T))"
proof -
  let ?s = "t_nil T"
  define p where "p = frame_addr f"
  define P where "P = (case f of InL a t \<Rightarrow> Node (Node l x r) a t | InR t a \<Rightarrow> Node t a (Node l x r))"
  have loc: "located (view T) ?s (f # InL ga U # c) x (Node l x r)" using rn by (simp add: red_node_def)
  have locP: "located (view T) ?s (InL ga U # c) p P" "located (view T) ?s c ga (Node P ga U)"
  proof -
    show "located (view T) ?s (InL ga U # c) p P"
      using loc by (cases f) (auto simp: p_def P_def dest: located_up)
    then show "located (view T) ?s c ga (Node P ga U)" by (rule located_up)
  qed
  have ptr: "t_parent T x = p" "t_parent T p = ga" "t_left T ga = p"
    using loc by (cases f; auto simp: located_def p_def)+
  show ?thesis
  proof (cases "t_color T (t_right T ga) = RED")
    case True
    then show ?thesis using ptr root
      by (simp add: simulates_def insert_fixup_step_def insert_fix_step_def ngx_rbt_is_red_def)
         (simp add: ngx_rbt_red_def ngx_rbt_black_def)
  next
    case False
    show ?thesis
    proof (cases f)
      case (InL a t)
      then have a: "a = p" by (simp add: p_def)
      have nx: "x \<noteq> t_right T p"
        using loc InL a tree_at_set [of "view T" ?s p "t_right T p" t] by (auto simp: located_def)
      let ?T = "put_color ga RED (put_color p BLACK T)"
      have "located (view ?T) (t_nil ?T) c ga (Node (Node (Node l x r) p t) ga U)"
        using locP(2) InL a by (simp add: P_def ngx_rbt_red_def ngx_rbt_black_def)
      from right_rotate_view [OF this] root
      have "view (rbtree_right_rotate ?T ga) = ngx_rbtree_right_rotate ?s ga (view ?T)"
        "rooted (view (rbtree_right_rotate ?T ga)) ?s" "payload (rbtree_right_rotate ?T ga) = payload T"
        by (auto simp: ngx_rbt_red_def ngx_rbt_black_def)
      then show ?thesis using ptr False nx
        by (simp add: simulates_def insert_fixup_step_def insert_fix_step_def ngx_rbt_is_red_def Let_def)
           (simp add: ngx_rbt_red_def ngx_rbt_black_def)
    next
      case (InR t a)
      then have a: "a = p" by (simp add: p_def)
      have rx: "x = t_right T p" using loc InR a by (auto simp: located_def)
      define T1 where "T1 = rbtree_left_rotate T p"
      let ?h1 = "ngx_rbtree_left_rotate ?s p (view T)"
      have l0: "located (view T) ?s (InL ga U # c) p (Node t p (Node l x r))" using locP(1) InR a by (simp add: P_def)
      have v1: "view T1 = ?h1" "rooted (view T1) ?s" "payload T1 = payload T"
        using left_rotate_view [OF l0 root] unfolding T1_def by blast+
      note n1 = payload_nil [OF v1(3)]
      have l1: "located (view T1) ?s (InL ga U # c) x (Node (Node t p l) x r)"
        using left_rotate_located [OF l0] v1(1) by simp
      have p1: "t_parent T1 p = x" "t_parent T1 x = ga" using l1 by (simp_all add: located_def)
      let ?T = "put_color ga RED (put_color x BLACK T1)"
      have "located (view ?T) (t_nil ?T) c ga (Node (Node (Node t p l) x r) ga U)"
        using located_up(1) [OF l1] n1 by (simp add: ngx_rbt_red_def ngx_rbt_black_def)
      from right_rotate_view [OF this] v1 n1
      have w: "view (rbtree_right_rotate ?T ga) = ngx_rbtree_right_rotate ?s ga (view ?T)"
        "rooted (view (rbtree_right_rotate ?T ga)) ?s" "payload (rbtree_right_rotate ?T ga) = payload T"
        by (auto simp: ngx_rbt_red_def ngx_rbt_black_def)
      have "insert_fixup_step T x = (p, rbtree_right_rotate ?T ga)"
        using ptr False rx p1 by (simp add: insert_fixup_step_def Let_def T1_def)
      moreover have q1: "rb_parent ?h1 p = x" "rb_parent ?h1 x = ga" using p1 unfolding v1(1) [symmetric] by simp_all
      have "insert_fix_step ?s x (view T) = (p, ngx_rbtree_right_rotate ?s ga (ngx_rbt_red ga (ngx_rbt_black x ?h1)))"
        using ptr False rx q1
        by (auto simp: insert_fix_step_def ngx_rbt_is_red_def Let_def ngx_rbt_red_def ngx_rbt_black_def)
      ultimately show ?thesis using w v1(1) by (simp add: simulates_def)
    qed
  qed
qed

lemma insert_fixup_step_mirT:
  assumes "(t_parent T x = t_left T (t_parent T (t_parent T x))) \<noteq> (t_parent T x = t_right T (t_parent T (t_parent T x)))"
  shows "insert_fixup_step (mirT T) x = apsnd mirT (insert_fixup_step T x)"
proof (cases "t_parent T x = t_left T (t_parent T (t_parent T x))")
  case True
  then show ?thesis using assms
    by (simp add: insert_fixup_step_def Let_def left_rotate_mirT right_rotate_mirT split: prod.split)
next
  case False
  then show ?thesis using assms
    by (simp add: insert_fixup_step_def Let_def left_rotate_mirT right_rotate_mirT split: prod.split)
qed

lemma insert_step_sim:
  assumes rn: "red_node (view T) (t_nil T) (f # g # c) x l r n" and root: "rooted (view T) (t_nil T)"
  shows "simulates T (insert_fixup_step T x) (insert_fix_step (t_nil T) x (view T))"
proof (cases g)
  case (InL ga U)
  then show ?thesis using insert_step_sim_left rn root by blast
next
  case (InR U ga)
  define p where "p = frame_addr f"
  have loc: "located (view T) (t_nil T) (f # InR U ga # c) x (Node l x r)" using rn InR by (simp add: red_node_def)
  then have ptr: "t_parent T x = p" "t_parent T p = ga" "t_right T ga = p"
    by (cases f; auto simp: located_def p_def)+
  have "located (view T) (t_nil T) (InR U ga # c) p (case f of InL a t \<Rightarrow> Node (Node l x r) a t | InR t a \<Rightarrow> Node t a (Node l x r))"
    using loc by (cases f) (auto simp: p_def dest: located_up)
  then have nl: "t_left T ga \<noteq> p"
    using tree_at_set [of "view T" "t_nil T" ga "t_left T ga" U] by (cases f) (auto simp: located_def p_def)
  have "red_node (view (mirT T)) (t_nil (mirT T)) (mir_frame f # InL ga (mirror U) # mir_ctx c) x (mirror r) (mirror l) n"
    using red_node_mir [of "view T" "t_nil T" "f # g # c" x r l n] rn InR by simp
  from insert_step_sim_left [OF this] root
  have "simulates (mirT T) (insert_fixup_step (mirT T) x) (insert_fix_step (t_nil T) x (mir (view T)))" by simp
  moreover have "insert_fixup_step (mirT T) x = apsnd mirT (insert_fixup_step T x)"
    using insert_fixup_step_mirT ptr nl by simp
  moreover have "insert_fix_step (t_nil T) x (mir (view T)) = apsnd mir (insert_fix_step (t_nil T) x (view T))"
    using insert_fix_step_mir [of "view T" x] ptr nl by simp
  ultimately show ?thesis
    by (auto simp: simulates_def) (metis mir_mir)
qed


text \<open>The loop.\<close>

definition sane :: "tnode set \<Rightarrow> rbtree \<Rightarrow> bool" where
  "sane S T \<longleftrightarrow> (\<forall>a \<in> S. t_color T a = RED \<or> t_color T a = BLACK)"

lemma sane_put: "sane S T \<Longrightarrow> k = RED \<or> k = BLACK \<Longrightarrow> sane S (put_color a k T)"
  by (auto simp: sane_def)

lemma sane_cong: "t_color T' = t_color T \<Longrightarrow> sane S T' = sane S T"
  by (simp add: sane_def)

lemma rotate_color [simp]:
  "t_color (rbtree_left_rotate T x) = t_color T" "t_color (rbtree_right_rotate T x) = t_color T"
  by (simp_all add: rbtree_left_rotate_def rbtree_right_rotate_def Let_def put_defs)

lemma insert_step_sane: "sane S T \<Longrightarrow> sane S (snd (insert_fixup_step T x))"
  unfolding insert_fixup_step_def Let_def
  by (simp split: prod.split if_splits) (auto simp: sane_def split: if_splits)

lemma insert_fixup_sim:
  "insert_fix s x h = Some h' \<Longrightarrow> view T = h \<Longrightarrow> t_nil T = s \<Longrightarrow> rooted h s \<Longrightarrow> rb_color h s = 0 \<Longrightarrow> sane S T \<Longrightarrow>
   (\<exists>c l r n. red_node h s c x l r n) \<or> rb_color h (rb_parent h x) = 0 \<Longrightarrow>
   \<exists>T'. rbtree_insert_fixup T x = Some T' \<and> view T' = h' \<and> rooted h' s \<and> payload T' = payload T \<and> sane S T'"
proof (induction arbitrary: T rule: insert_fix.raw_induct [rotated 1, consumes 1, case_names step])
  case (step insfix s x h h')
  show ?case
  proof (cases "x \<noteq> rb_root h \<and> ngx_rbt_is_red h (rb_parent h x)")
    case False
    then have h': "h' = ngx_rbt_black (rb_root h) h" using step(2) by (auto split: if_splits)
    have "t_color T (t_parent T x) \<noteq> RED"
      using False step(3-6) by (auto simp: rooted_def ngx_rbt_is_red_def split: if_splits)
    then have "rbtree_insert_fixup T x = Some (put_color (t_root T) BLACK T)"
      by (subst rbtree_insert_fixup.simps) simp
    then show ?thesis using h' step(3,5,7) by (auto simp: sane_put ngx_rbt_black_def)
  next
    case True
    obtain x1 h1 where st: "insert_fix_step s x h = (x1, h1)" by fastforce
    have rec: "insfix s x1 h1 = Some h'" using step(2) True st by simp
    have col: "t_color T (t_parent T x) = RED" using True step(3) by (auto simp: ngx_rbt_is_red_def split: if_splits)
    from step(8) True obtain c l r n where rn: "red_node h s c x l r n" by (auto simp: ngx_rbt_is_red_def)
    then have loc: "located h s c x (Node l x r)" by (simp add: red_node_def)
    then obtain f c1 where c1: "c = f # c1" using True by (cases c) (auto simp: located_def)
    have red: "rb_color h (frame_addr f) \<noteq> 0"
      using True loc c1 by (auto simp: located_def ngx_rbt_is_red_def)
    then obtain g c2 where c: "c = f # g # c2" using rn c1 by (cases c1) (auto simp: red_node_def)
    obtain x2 T1 where st2: "insert_fixup_step T x = (x2, T1)" by fastforce
    have "simulates T (x2, T1) (x1, h1)"
      using insert_step_sim [of T f g c2 x l r n] rn c step(3-5) st st2 by simp
    then have sim: "x2 = x1" "view T1 = h1" "rooted h1 s" "payload T1 = payload T"
      using step(4) by (simp_all add: simulates_def)
    have unf: "rbtree_insert_fixup T x = rbtree_insert_fixup T1 x1"
      using col st2 sim(1) by (subst rbtree_insert_fixup.simps) simp
    from insert_fix_step_ok [OF rn [unfolded c] red st]
    have "(\<exists>c l r n. red_node h1 s c x1 l r n) \<or> rb_color h1 (rb_parent h1 x1) = 0" "rb_color h1 s = 0"
      unfolding settled_def red_node_def by blast+
    from step(1) [OF rec sim(2) _ sim(3) this(2) _ this(1)]
    show ?thesis unfolding unf using payload_nil [OF sim(4)] step(4,7) insert_step_sane [of S T x] st2 sim(4) by auto
  qed
qed


section \<open>An iteration of the rebalancing after a deletion\<close>

definition black_siblingT :: "rbtree \<Rightarrow> tnode \<Rightarrow> tnode \<Rightarrow> tnode \<times> rbtree" where
  "black_siblingT T1 x w =
     (if t_color T1 (t_left T1 w) = BLACK \<and> t_color T1 (t_right T1 w) = BLACK
           then let Ta = put_color w RED T1 in (t_parent Ta x, Ta)
           else
             let (w2, T2) = (if t_color T1 (t_right T1 w) = BLACK then
                               let Ta = put_color (t_left T1 w) BLACK T1;
                                   Tb = put_color w RED Ta;
                                   Tc = rbtree_right_rotate Tb w
                               in (t_right Tc (t_parent Tc x), Tc)
                             else (w, T1));
                 T3 = put_color w2 (t_color T2 (t_parent T2 x)) T2;
                 T4 = put_color (t_parent T3 x) BLACK T3;
                 T5 = put_color (t_right T4 w2) BLACK T4;
                 T6 = rbtree_left_rotate T5 (t_parent T5 x)
             in (t_root T6, T6))"

lemma delete_fixup_step_left:
  assumes "t_parent T x = p" "t_left T p = x"
  shows "delete_fixup_step T x =
     (if t_color T (t_right T p) = RED then
        let Tc = rbtree_left_rotate (put_color p RED (put_color (t_right T p) BLACK T)) p
        in black_siblingT Tc x (t_right Tc (t_parent Tc x))
      else black_siblingT T x (t_right T p))"
  using assms by (simp add: delete_fixup_step_def black_siblingT_def Let_def)

lemma sane_black: "sane S T \<Longrightarrow> a \<in> S \<Longrightarrow> t_color T a = BLACK \<longleftrightarrow> rb_color (view T) a = 0"
  by (auto simp: sane_def)

lemma tree_top_in: "tree_at h s par p t \<Longrightarrow> p \<in> insert s (set (inorder t))"
  by (cases t) auto

lemma black_sibling_sim:
  assumes hl: "hole (view T) (t_nil T) (InL p W # c) x T0 n" and tb: "root_black (rb_color (view T)) T0"
    and w: "t_color T (t_right T p) \<noteq> RED" and root: "rooted (view T) (t_nil T)" and sn: "sane S T"
    and sub: "insert (t_nil T) (set (inorder (plug (InL p W # c) T0))) \<subseteq> S"
  shows "simulates T (black_siblingT T x (t_right T p)) (black_sibling (t_nil T) x (t_right T p) (view T))
    \<and> sane S (snd (black_siblingT T x (t_right T p)))"
proof -
  let ?s = "t_nil T" and ?h = "view T" and ?w = "t_right T p"
  have pS: "t_color T p = RED \<or> t_color T p = BLACK" using sub sn by (auto simp: sane_def inorder_plug)
  have loc: "located ?h ?s (InL p W # c) x T0" and s0: "rb_color ?h ?s = 0" and par: "t_parent T x = p"
    using hl by (simp_all add: hole_def)
  have cb: "cbt (rb_color ?h) (InL p W # c) (Suc n)" using hl unfolding hole_def by blast
  have T0: "rbt (rb_color ?h) T0 n" using hl rbt0_black tb by (simp add: hole_def)
  have W: "rbt (rb_color ?h) W (Suc n)" using cb by simp
  then obtain A w B where Weq: "W = Node A w B" by (cases W) auto
  have ww: "?w = w" and trA: "tree_at ?h ?s w (t_left T w) A" and trB: "tree_at ?h ?s w (t_right T w) B"
    using loc Weq by (auto simp: located_def)
  have w0: "rb_color ?h w = 0" using w ww by simp
  have AB: "rbt (rb_color ?h) A n" "rbt (rb_color ?h) B n" using W Weq w0 by simp_all
  have "t_left T w \<in> S" "t_right T w \<in> S"
    using tree_top_in [OF trA] tree_top_in [OF trB] sub Weq by (auto simp: inorder_plug)
  then have blkT: "t_color T (t_left T w) = BLACK \<longleftrightarrow> root_black (rb_color ?h) A"
      "t_color T (t_right T w) = BLACK \<longleftrightarrow> root_black (rb_color ?h) B"
    using tree_at_red [OF trA s0] tree_at_red [OF trB s0] sane_black [OF sn] by auto
  have blk: "ngx_rbt_is_black ?h (rb_left ?h w) = root_black (rb_color ?h) A"
      "ngx_rbt_is_black ?h (rb_right ?h w) = root_black (rb_color ?h) B"
    using tree_at_red [OF trA s0] tree_at_red [OF trB s0] by (simp_all add: ngx_rbt_is_black_def ngx_rbt_is_red_def)
  have cb': "if rb_color ?h p = 0 then cbt (rb_color ?h) c (Suc (Suc n))
       else c \<noteq> [] \<and> rb_color ?h (frame_addr (hd c)) = 0 \<and> cbt (rb_color ?h) c (Suc n)"
    using cb by (auto simp del: view_sel split: if_splits)
  have locP: "located ?h ?s c p (Node T0 p (Node A w B))" using located_up(1) [OF loc] Weq by simp
  consider (pale) "root_black (rb_color ?h) A" "root_black (rb_color ?h) B"
    | (near) "\<not> root_black (rb_color ?h) A" "root_black (rb_color ?h) B"
    | (far) "\<not> root_black (rb_color ?h) B" by blast
  then show ?thesis
  proof cases
    case pale
    have "black_siblingT T x ?w = (p, put_color w RED T)" using pale blkT par ww by (simp add: black_siblingT_def)
    moreover have "black_sibling ?s x ?w ?h = (p, ngx_rbt_red w ?h)" using pale blk par ww by (simp add: black_sibling_def)
    ultimately show ?thesis using root sn by (simp add: simulates_def ngx_rbt_red_def sane_put)
  next
    case near
    then obtain a1 v a2 where A: "A = Node a1 v a2" "rb_color ?h v \<noteq> 0" by (cases A) auto
    have lv: "t_left T w = v" using trA A by simp
    have a: "rbt (rb_color ?h) a1 n" "rbt (rb_color ?h) a2 n" using AB A by simp_all
    note res = sibling_near [OF loc [unfolded Weq A(1)] s0 _ T0 a AB(2) cb', simplified view_sel, OF par]
    let ?Tb = "put_color w RED (put_color v BLACK T)"
    define Tc where "Tc = rbtree_right_rotate ?Tb w"
    define hc where "hc = ngx_rbtree_right_rotate ?s w (ngx_rbt_red w (ngx_rbt_black v ?h))"
    have "located ?h ?s (InR T0 p # c) w (Node (Node a1 v a2) w B)"
      using locP ww A by (simp add: located_right)
    then have lb: "located (view ?Tb) (t_nil ?Tb) (InR T0 p # c) w (Node (Node a1 v a2) w B)"
      by (simp add: ngx_rbt_red_def ngx_rbt_black_def)
    from right_rotate_view [OF lb] root have vc: "view Tc = hc" "rooted hc ?s" "payload Tc = payload T"
      unfolding Tc_def hc_def by (auto simp: ngx_rbt_red_def ngx_rbt_black_def)
    from right_rotate_located(1) [OF lb] have "located hc ?s (InR T0 p # c) v (Node a1 v (Node a2 w B))"
      by (simp add: hc_def)
    from located_up(2) [OF this] have lc: "located hc ?s c p (Node T0 p (Node a1 v (Node a2 w B)))" .
    have pc: "t_parent Tc x = p" "t_right Tc p = v" "t_right Tc v = w"
      using res unfolding hc_def [symmetric] vc(1) [symmetric] by simp_all
    let ?T5 = "put_color w BLACK (put_color p BLACK (put_color v (t_color Tc p) Tc))"
    have v5: "view ?T5 = ngx_rbt_black w (ngx_rbt_black p (ngx_rbt_copy_color v p hc))" using vc by simp
    have "located (view ?T5) (t_nil ?T5) c p (Node T0 p (Node a1 v (Node a2 w B)))" "rooted (view ?T5) (t_nil ?T5)"
      using lc vc(2) payload_nil [OF vc(3)]
      unfolding v5 by (simp_all add: ngx_rbt_black_def ngx_rbt_copy_color_def)
    from left_rotate_view [OF this] have v6: "view (rbtree_left_rotate ?T5 p) = ngx_rbtree_left_rotate ?s p (view ?T5)"
      "rooted (view (rbtree_left_rotate ?T5 p)) ?s" "payload (rbtree_left_rotate ?T5 p) = payload T"
      using payload_nil [OF vc(3)] vc(3) by auto
    have "black_siblingT T x ?w = (t_root (rbtree_left_rotate ?T5 p), rbtree_left_rotate ?T5 p)"
      using near blkT lv pc ww unfolding black_siblingT_def by (simp add: Let_def Tc_def [symmetric])
    moreover have "rb_parent hc x = p" "rb_right hc p = v" "rb_right hc v = w"
      using pc unfolding vc(1) [symmetric] by simp_all
    then have "black_sibling ?s x ?w ?h = (let h6 = ngx_rbtree_left_rotate ?s p (view ?T5) in (rb_root h6, h6))"
      using near blk lv ww unfolding black_sibling_def v5
      by (simp add: Let_def hc_def [symmetric, unfolded ngx_rbt_black_def] ngx_rbt_black_def ngx_rbt_copy_color_def del: view_sel(5))
    moreover have "sane S (rbtree_left_rotate ?T5 p)"
      using sn pS by (auto simp: sane_def Tc_def)
    ultimately show ?thesis using v6 unfolding simulates_def Let_def by (metis fst_conv snd_conv view_sel(4))
  next
    case far
    then obtain b1 v b2 where B: "B = Node b1 v b2" by (cases B) auto
    have rv: "t_right T w = v" using trB B by simp
    let ?T5 = "put_color v BLACK (put_color p BLACK (put_color w (t_color T p) T))"
    have v5: "view ?T5 = ngx_rbt_black v (ngx_rbt_black p (ngx_rbt_copy_color w p ?h))" by simp
    have "located (view ?T5) (t_nil ?T5) c p (Node T0 p (Node A w (Node b1 v b2)))" "rooted (view ?T5) (t_nil ?T5)"
      using locP root B unfolding v5 by (simp_all add: ngx_rbt_black_def ngx_rbt_copy_color_def)
    from left_rotate_view [OF this] have v6: "view (rbtree_left_rotate ?T5 p) = ngx_rbtree_left_rotate ?s p (view ?T5)"
      "rooted (view (rbtree_left_rotate ?T5 p)) ?s" "payload (rbtree_left_rotate ?T5 p) = payload T"
      by auto
    have "black_siblingT T x ?w = (t_root (rbtree_left_rotate ?T5 p), rbtree_left_rotate ?T5 p)"
      using far blkT rv par ww unfolding black_siblingT_def by (simp add: Let_def)
    moreover have "black_sibling ?s x ?w ?h = (let h6 = ngx_rbtree_left_rotate ?s p (view ?T5) in (rb_root h6, h6))"
      using far blk rv ww par unfolding black_sibling_def v5
      by (simp add: Let_def ngx_rbt_black_def ngx_rbt_copy_color_def del: view_sel(5))
    moreover have "sane S (rbtree_left_rotate ?T5 p)"
      using sn pS by (auto simp: sane_def)
    ultimately show ?thesis using v6 unfolding simulates_def Let_def by (metis fst_conv snd_conv view_sel(4))
  qed
qed


lemma delete_step_sim_left:
  assumes hl: "hole (view T) (t_nil T) (InL p W # c) x T0 n" and tb: "root_black (rb_color (view T)) T0"
    and root: "rooted (view T) (t_nil T)" and sn: "sane S T"
    and sub: "insert (t_nil T) (set (inorder (plug (InL p W # c) T0))) \<subseteq> S"
  shows "simulates T (delete_fixup_step T x) (delete_fix_step (t_nil T) x (view T)) \<and> sane S (snd (delete_fixup_step T x))"
proof -
  let ?s = "t_nil T" and ?h = "view T" and ?w = "t_right T p"
  have ptr: "t_parent T x = p" "t_left T p = x" using hl by (simp_all add: hole_def located_def)
  then have ptrh: "rb_parent ?h x = p" "rb_left ?h p = x" by simp_all
  show ?thesis
  proof (cases "t_color T ?w = RED")
    case False
    then show ?thesis using black_sibling_sim [OF hl tb False root sn sub]
      by (simp add: delete_fixup_step_left [OF ptr] delete_fix_step_left [OF ptrh] ngx_rbt_is_red_def)
  next
    case True
    let ?T0 = "put_color p RED (put_color ?w BLACK T)"
    define Tc where "Tc = rbtree_left_rotate ?T0 p"
    define hc where "hc = ngx_rbtree_left_rotate ?s p (ngx_rbt_red p (ngx_rbt_black ?w ?h))"
    have loc: "located ?h ?s (InL p W # c) x T0" and s0: "rb_color ?h ?s = 0" using hl by (simp_all add: hole_def)
    have "rb_color ?h ?w \<noteq> 0" using True by simp
    then obtain A B where W: "W = Node A ?w B" using loc s0 by (cases W) (auto simp: located_def)
    have "located (view ?T0) (t_nil ?T0) c p (Node T0 p (Node A ?w B))" "rooted (view ?T0) (t_nil ?T0)"
      using located_up(1) [OF loc] W root by (simp_all add: ngx_rbt_red_def ngx_rbt_black_def)
    from left_rotate_view [OF this] have vc: "view Tc = hc" "rooted hc ?s" "payload Tc = payload T"
      unfolding Tc_def hc_def by auto
    note nil = payload_nil [OF vc(3)]
    have sc: "sane S Tc" unfolding Tc_def by (simp add: sane_cong [OF rotate_color(1)] sane_put sn)
    obtain W' c' where k: "hole hc ?s (InL p W' # c') x T0 n" "root_black (rb_color hc) W'" "root_black (rb_color hc) T0"
        "inorder (plug (InL p W' # c') T0) = inorder (plug (InL p W # c) T0)"
      using sibling_red [OF hl _ tb] \<open>rb_color ?h ?w \<noteq> 0\<close> unfolding hc_def by auto
    have px: "t_parent Tc x = p" "rb_parent hc x = p" using k(1) vc(1) by (auto simp: hole_def)
    have "tree_at hc ?s p (rb_right hc p) W'" "rb_color hc ?s = 0" using k(1) by (simp_all add: hole_def located_def)
    then have "rb_color hc (rb_right hc p) = 0" using tree_at_red k(2) by blast
    then have w': "t_color Tc (t_right Tc p) \<noteq> RED" unfolding vc(1) [symmetric] by (simp split: if_splits)
    have sub': "insert (t_nil Tc) (set (inorder (plug (InL p W' # c') T0))) \<subseteq> S" unfolding nil k(4) by (rule sub)
    have hT: "hole (view Tc) (t_nil Tc) (InL p W' # c') x T0 n" "root_black (rb_color (view Tc)) T0" "rooted (view Tc) (t_nil Tc)"
      using k(1,3) vc nil by simp_all
    note sib = black_sibling_sim [OF hT(1,2) w' hT(3) sc sub']
    have "delete_fixup_step T x = black_siblingT Tc x (t_right Tc p)"
      using True px by (simp add: delete_fixup_step_left [OF ptr] Tc_def [symmetric] Let_def)
    moreover have "delete_fix_step ?s x ?h = black_sibling ?s x (rb_right hc p) hc"
      using True px by (simp add: delete_fix_step_left [OF ptrh] hc_def [symmetric] Let_def ngx_rbt_is_red_def)
    moreover have "rb_right hc = t_right Tc" unfolding vc(1) [symmetric] by simp
    ultimately show ?thesis using sib nil vc by (simp add: simulates_def)
  qed
qed

lemma delete_fixup_step_mirT:
  assumes "(x = t_left T (t_parent T x)) \<noteq> (x = t_right T (t_parent T x))"
  shows "delete_fixup_step (mirT T) x = apsnd mirT (delete_fixup_step T x)"
proof (cases "x = t_left T (t_parent T x)")
  case True
  then show ?thesis using assms
    by (simp add: delete_fixup_step_def Let_def left_rotate_mirT right_rotate_mirT split: prod.split)
next
  case False
  then show ?thesis using assms
    by (simp add: delete_fixup_step_def Let_def left_rotate_mirT right_rotate_mirT split: prod.split)
qed


lemma sane_mirT [simp]: "sane S (mirT T) = sane S T"
  by (simp add: sane_def)

lemma delete_step_sim:
  assumes hl: "hole (view T) (t_nil T) (f # c) x T0 n" and tb: "root_black (rb_color (view T)) T0"
    and root: "rooted (view T) (t_nil T)" and sn: "sane S T"
    and sub: "insert (t_nil T) (set (inorder (plug (f # c) T0))) \<subseteq> S"
  shows "simulates T (delete_fixup_step T x) (delete_fix_step (t_nil T) x (view T)) \<and> sane S (snd (delete_fixup_step T x))"
proof (cases f)
  case (InL p W)
  show ?thesis by (rule delete_step_sim_left [OF hl [unfolded InL] tb root sn sub [unfolded InL]])
next
  case (InR W p)
  have loc: "located (view T) (t_nil T) (InR W p # c) x T0" and cb: "cbt (rb_color (view T)) (InR W p # c) (Suc n)"
    and par: "t_parent T x = p" using hl InR by (auto simp: hole_def simp del: cbt.simps view_sel(5))
  have "rbt (rb_color (view T)) W (Suc n)" using cb by simp
  then have "W \<noteq> Leaf" by auto
  then have ch: "t_left T p \<noteq> x" "t_right T p = x"
    using loc tree_at_set [of "view T" "t_nil T" p "t_left T p" W] tree_at_set [of "view T" "t_nil T" p x T0]
    by (auto simp: located_def)
  have "hole (view (mirT T)) (t_nil (mirT T)) (InL p (mirror W) # mir_ctx c) x (mirror T0) n"
    using hole_mir [of "view T" "t_nil T" "f # c" x T0 n] hl InR by simp
  moreover have "root_black (rb_color (view (mirT T))) (mirror T0)" using tb by simp
  moreover have "insert (t_nil (mirT T)) (set (inorder (plug (InL p (mirror W) # mir_ctx c) (mirror T0)))) \<subseteq> S"
  proof -
    have "inorder (plug (InL p (mirror W) # mir_ctx c) (mirror T0)) = rev (inorder (plug (f # c) T0))"
      using inorder_plug_mir [of "f # c" T0] InR by simp
    then show ?thesis using sub by (simp del: set_inorder plug.simps)
  qed
  ultimately have "simulates (mirT T) (delete_fixup_step (mirT T) x) (delete_fix_step (t_nil T) x (mir (view T)))
      \<and> sane S (snd (delete_fixup_step (mirT T) x))"
    using delete_step_sim_left [of "mirT T" p "mirror W" "mir_ctx c" x "mirror T0" n S] root sn by simp
  moreover have "delete_fixup_step (mirT T) x = apsnd mirT (delete_fixup_step T x)"
    using delete_fixup_step_mirT par ch by simp
  moreover have "delete_fix_step (t_nil T) x (mir (view T)) = apsnd mir (delete_fix_step (t_nil T) x (view T))"
    using delete_fix_step_mir [of x "view T"] par ch by simp
  ultimately show ?thesis
    by (auto simp: simulates_def) (metis mir_mir)
qed

lemma delete_fixup_sim:
  "delete_fix s x h = Some h' \<Longrightarrow> view T = h \<Longrightarrow> t_nil T = s \<Longrightarrow> rooted h s \<Longrightarrow> sane S T \<Longrightarrow> x \<in> S \<Longrightarrow>
   x = rb_root h \<or> (\<exists>c T0 n. hole h s c x T0 n \<and> insert s (set (inorder (plug c T0))) \<subseteq> S) \<Longrightarrow>
   \<exists>T'. rbtree_delete_fixup T x = Some T' \<and> view T' = h' \<and> rooted h' s \<and> payload T' = payload T \<and> sane S T'"
proof (induction arbitrary: T rule: delete_fix.raw_induct [rotated 1, consumes 1, case_names step])
  case (step delfix s x h h')
  have blk: "t_color T x = BLACK \<longleftrightarrow> ngx_rbt_is_black h x"
    using sane_black [OF step(6,7)] step(3) by (simp add: ngx_rbt_is_black_def ngx_rbt_is_red_def)
  show ?case
  proof (cases "x \<noteq> rb_root h \<and> ngx_rbt_is_black h x")
    case False
    then have h': "h' = ngx_rbt_black x h" using step(2) by (auto split: if_splits)
    have "rbtree_delete_fixup T x = Some (put_color x BLACK T)"
      using False blk step(3) by (subst rbtree_delete_fixup.simps) auto
    then show ?thesis using h' step(3,5,6) by (auto simp: sane_put ngx_rbt_black_def)
  next
    case True
    obtain x1 h1 where st: "delete_fix_step s x h = (x1, h1)" by fastforce
    have rec: "delfix s x1 h1 = Some h'" using step(2) True st by simp
    from step(8) True obtain c T0 n where hl: "hole h s c x T0 n" and sub: "insert s (set (inorder (plug c T0))) \<subseteq> S" by blast
    have loc: "located h s c x T0" and s0: "rb_color h s = 0" using hl by (simp_all add: hole_def)
    obtain f c1 where c: "c = f # c1" using loc True by (cases c) (auto simp: located_def)
    have tb: "root_black (rb_color h) T0"
      using loc True s0 tree_at_red [of h s _ x T0] by (auto simp: located_def ngx_rbt_is_black_def ngx_rbt_is_red_def)
    obtain x2 T1 where st2: "delete_fixup_step T x = (x2, T1)" by fastforce
    have "simulates T (x2, T1) (x1, h1) \<and> sane S T1"
      using delete_step_sim [of T f c1 x T0 n S] hl tb c step(3-6) sub st st2 by simp
    then have sim: "x2 = x1" "view T1 = h1" "rooted h1 s" "payload T1 = payload T" "sane S T1"
      using step(4) by (simp_all add: simulates_def)
    note nil = payload_nil [OF sim(4)]
    have unf: "rbtree_delete_fixup T x = rbtree_delete_fixup T1 x1"
      using True blk st2 sim(1) step(3) by (subst rbtree_delete_fixup.simps) auto
    obtain c' red where "moved h s x1 c' (inorder (plug c T0)) h1 red"
      using delete_fix_step_ok [OF hl [unfolded c] tb st] unfolding c by blast
    then consider (again) T2 m where "hole h1 s c' x1 T2 m" "inorder (plug c' T2) = inorder (plug c T0)"
      | (stop) "x1 = rb_root h1" "repaired h1 s (inorder (plug c T0))" unfolding moved_def by blast
    then have "x1 \<in> S \<and> (x1 = rb_root h1 \<or> (\<exists>c T0 n. hole h1 s c x1 T0 n \<and> insert s (set (inorder (plug c T0))) \<subseteq> S))"
    proof cases
      case again
      have "x1 \<in> insert s (set (inorder (plug c' T2)))"
        using again(1) tree_top_in [of h1 s _ x1 T2] by (auto simp: hole_def located_def inorder_plug)
      then show ?thesis using again sub by (metis subsetD)
    next
      case stop
      then obtain c2 y t m where k: "located h1 s c2 y t" "inorder (plug c2 t) = inorder (plug c T0)"
        unfolding repaired_def by blast
      have "rb_root h1 \<in> insert s (set (inorder (plug c2 t)))"
        using located_plug [OF k(1)] tree_top_in by (fastforce simp: holds_tree_def located_def)
      then show ?thesis using stop(1) sub unfolding k(2) by blast
    qed
    then show ?thesis
      using step(1) [OF rec sim(2) _ sim(3,5)] nil step(4) sim(4) unfolding unf by auto
  qed
qed

end
