(* ===== verification/Tree_Rbtree_Props.thy ===== *)
theory Tree_Rbtree_Props
  imports Tree_Rbtree_Sim
begin

text \<open>
  The red-black tree of \<open>code/tree/rbtree.c\<close> implements a finite map: insertion, deletion, search and
  traversal end, keep the red-black invariant, and do to the map what their names say.
\<close>

section \<open>The invariant and the map\<close>

definition entries :: "rbtree \<Rightarrow> tnode list \<Rightarrow> (int \<times> nat) list" where
  "entries T xs = map (\<lambda>a. (t_key T a, t_value T a)) xs"

lemma entries_simps [simp]:
  "entries T [] = []" "entries T (a # xs) = (t_key T a, t_value T a) # entries T xs"
  "entries T (xs @ ys) = entries T xs @ entries T ys"
  by (simp_all add: entries_def)

lemma entries_payload: "payload T' = payload T \<Longrightarrow> entries T' xs = entries T xs"
  by (simp add: entries_def payload_def)

lemma keys_entries: "map fst (entries T xs) = map (t_key T) xs"
  by (simp add: entries_def)

definition tree_ok :: "rbtree \<Rightarrow> addr tree \<Rightarrow> bool" where
  "tree_ok T t \<longleftrightarrow> rb_tree (view T) (t_nil T) t \<and> (t \<noteq> Leaf \<longrightarrow> rooted (view T) (t_nil T))
     \<and> sane (insert (t_nil T) (set (inorder t))) T \<and> sorted_wrt (<) (map (t_key T) (inorder t))"

text \<open>The tree holds the nodes \<open>N\<close>, and the map \<open>m\<close> from keys to values.\<close>

definition stores :: "rbtree \<Rightarrow> tnode set \<Rightarrow> (int \<rightharpoonup> nat) \<Rightarrow> bool" where
  "stores T N m \<longleftrightarrow> (\<exists>t. tree_ok T t \<and> N = set (inorder t) \<and> m = map_of (entries T (inorder t)))"

lemma dom_entries: "dom (map_of (entries T xs)) = t_key T ` set xs"
  by (simp add: dom_map_of_conv_image_fst entries_def image_image)

lemma map_of_put:
  "k \<notin> fst ` set xs \<Longrightarrow> map_of (xs @ (k, v) # ys) = (map_of (xs @ ys))(k \<mapsto> v)"
  by (induction xs) (auto simp: fun_eq_iff)

lemma map_of_drop:
  "k \<notin> fst ` set xs \<Longrightarrow> k \<notin> fst ` set ys \<Longrightarrow> map_of (xs @ ys) = (map_of (xs @ (k, v) # ys))(k := None)"
proof (induction xs)
  case Nil
  then have "map_of ys k = None" by (simp add: map_of_eq_None_iff)
  then show ?case by (auto simp: fun_eq_iff)
qed (auto simp: fun_eq_iff)

section \<open>Search\<close>

lemma search_loop_ok:
  "tree_at (view T) (t_nil T) par p t \<Longrightarrow> sorted_wrt (<) (map (t_key T) (inorder t)) \<Longrightarrow>
   \<exists>a. search_loop T k p = Some a \<and> (if k \<in> t_key T ` set (inorder t) then a \<in> set (inorder t) \<and> t_key T a = k else a = t_nil T)"
proof (induction t arbitrary: par p)
  case Leaf
  then show ?case by (subst search_loop.simps) simp
next
  case (Node l a r)
  have p: "p = a" "a \<noteq> t_nil T" and sub: "tree_at (view T) (t_nil T) a (t_left T a) l" "tree_at (view T) (t_nil T) a (t_right T a) r"
    using Node.prems(1) by simp_all
  have srt: "sorted_wrt (<) (map (t_key T) (inorder l))" "sorted_wrt (<) (map (t_key T) (inorder r))"
    "\<forall>x \<in> set (inorder l). t_key T x < t_key T a" "\<forall>x \<in> set (inorder r). t_key T a < t_key T x"
    using Node.prems(2) by (simp_all add: sorted_wrt_append)
  consider "k < t_key T a" | "t_key T a < k" | "k = t_key T a" by linarith
  then show ?case
  proof cases
    case 1
    then have s: "search_loop T k p = search_loop T k (t_left T a)" using p by (subst search_loop.simps) simp
    have iff: "k \<in> t_key T ` set (inorder (Node l a r)) \<longleftrightarrow> k \<in> t_key T ` set (inorder l)" using srt(4) 1 by force
    then show ?thesis using Node.IH(1) [OF sub(1) srt(1)] unfolding s iff by auto
  next
    case 2
    then have s: "search_loop T k p = search_loop T k (t_right T a)" using p by (subst search_loop.simps) simp
    have iff: "k \<in> t_key T ` set (inorder (Node l a r)) \<longleftrightarrow> k \<in> t_key T ` set (inorder r)" using srt(3) 2 by force
    then show ?thesis using Node.IH(2) [OF sub(2) srt(2)] unfolding s iff by auto
  next
    case 3
    then show ?thesis using p by (subst search_loop.simps) simp
  qed
qed

lemma traversal_ok:
  "tree_at (view T) (t_nil T) par p t \<Longrightarrow>
   rbtree_traversal T p = Some (map (\<lambda>a. (t_key T a, t_color T a)) (inorder t))"
proof (induction t arbitrary: par p)
  case Leaf
  then show ?case by (subst rbtree_traversal.simps) simp
next
  case (Node l a r)
  then have p: "p = a" "a \<noteq> t_nil T" and sub: "tree_at (view T) (t_nil T) a (t_left T a) l" "tree_at (view T) (t_nil T) a (t_right T a) r"
    by simp_all
  show ?case using Node.IH(1) [OF sub(1)] Node.IH(2) [OF sub(2)] p by (subst rbtree_traversal.simps) simp
qed

section \<open>Insertion\<close>

definition above :: "tnode \<Rightarrow> frame list \<Rightarrow> tnode" where
  "above s c = (case c of [] \<Rightarrow> s | f # _ \<Rightarrow> frame_addr f)"

definition fits :: "rbtree \<Rightarrow> int \<Rightarrow> frame list \<Rightarrow> bool" where
  "fits T k c \<longleftrightarrow> (\<forall>x \<in> set (before c). t_key T x < k) \<and> (\<forall>x \<in> set (after c). k < t_key T x)"

lemma insert_walk_ok:
  "rb_at (view T) (t_nil T) c p t n \<Longrightarrow> sorted_wrt (<) (map (t_key T) (inorder (plug c t))) \<Longrightarrow> fits T k c \<Longrightarrow>
   (\<exists>a. insert_walk T k p (above (t_nil T) c) = Some (Inl a) \<and> a \<in> set (inorder t) \<and> t_key T a = k) \<or>
   (\<exists>c' m. insert_walk T k p (above (t_nil T) c) = Some (Inr (above (t_nil T) c')) \<and> rb_at (view T) (t_nil T) c' (t_nil T) Leaf m
      \<and> inorder (plug c' Leaf) = inorder (plug c t) \<and> fits T k c')"
proof (induction t arbitrary: c p n)
  case Leaf
  then have p: "p = t_nil T" using rb_at_leaf by blast
  then have "insert_walk T k p (above (t_nil T) c) = Some (Inr (above (t_nil T) c))" by (subst insert_walk.simps) simp
  then show ?case using Leaf p by blast
next
  case (Node l a r)
  note p = rb_at_addr [OF Node.prems(1)]
  have pn: "a \<noteq> t_nil T" using rb_at_leaf [OF Node.prems(1)] p by blast
  note at = Node.prems(1) [unfolded p]
  have "sorted_wrt (<) (map (t_key T) ((before c @ inorder l) @ a # inorder r @ after c))"
    using Node.prems(2) by (simp add: inorder_plug)
  then have srt: "\<forall>x \<in> set (before c @ inorder l). t_key T x < t_key T a" "\<forall>x \<in> set (inorder r @ after c). t_key T a < t_key T x"
    unfolding map_append list.map sorted_wrt_append by auto
  consider "k < t_key T a" | "t_key T a < k" | "k = t_key T a" by linarith
  then show ?case
  proof cases
    case 1
    obtain m where m: "rb_at (view T) (t_nil T) (InL a r # c) (t_left T a) l m" using rb_at_left [OF at] by auto
    have ft: "fits T k (InL a r # c)" using Node.prems(3) srt(2) 1 unfolding fits_def by (auto intro: less_trans [of k "t_key T a"])
    have same: "plug (InL a r # c) l = plug c (Node l a r)" by simp
    have step: "insert_walk T k p (above (t_nil T) c) = insert_walk T k (t_left T a) (above (t_nil T) (InL a r # c))"
      using 1 pn unfolding p by (subst insert_walk.simps) (simp add: above_def)
    show ?thesis using Node.IH(1) [OF m _ ft] Node.prems(2) unfolding same step by auto
  next
    case 2
    obtain m where m: "rb_at (view T) (t_nil T) (InR l a # c) (t_right T a) r m" using rb_at_right [OF at] by auto
    have ft: "fits T k (InR l a # c)" using Node.prems(3) srt(1) 2 unfolding fits_def by (auto intro: less_trans [of _ "t_key T a"])
    have same: "plug (InR l a # c) r = plug c (Node l a r)" by simp
    have step: "insert_walk T k p (above (t_nil T) c) = insert_walk T k (t_right T a) (above (t_nil T) (InR l a # c))"
      using 2 pn unfolding p by (subst insert_walk.simps) (simp add: above_def)
    show ?thesis using Node.IH(2) [OF m _ ft] Node.prems(2) unfolding same step by auto
  next
    case 3
    then have "insert_walk T k p (above (t_nil T) c) = Some (Inl a)"
      using pn unfolding p by (subst insert_walk.simps) simp
    then show ?thesis using 3 by simp
  qed
qed

text \<open>The node is linked at the position that the descent found.\<close>

definition link :: "rbtree \<Rightarrow> tnode \<Rightarrow> tnode \<Rightarrow> rbtree" where
  "link T z y =
     (let T1 = put_parent z y T;
          T2 = (if y = t_nil T1 then put_root z T1
                else if t_key T1 z < t_key T1 y then put_left y z T1
                else put_right y z T1);
          T3 = put_left z (t_nil T2) T2;
          T4 = put_right z (t_nil T3) T3
      in put_color z RED T4)"

lemma link_sel: "payload (link T z y) = payload T" "t_color (link T z y) = (t_color T)(z := RED)"
  by (simp_all add: link_def Let_def put_defs payload_def)

lemma link_view:
  assumes at: "rb_at (view T) (t_nil T) c (t_nil T) Leaf m" and z: "z \<noteq> t_nil T" "z \<notin> set (before c) \<union> set (after c)"
    and ft: "fits T (t_key T z) c" and root: "c \<noteq> [] \<longrightarrow> rooted (view T) (t_nil T)"
  shows "red_node (view (link T z (above (t_nil T) c))) (t_nil T) c z Leaf Leaf m \<and> rooted (view (link T z (above (t_nil T) c))) (t_nil T)"
proof (cases c)
  case Nil
  let ?h = "view (link T z (t_nil T))"
  have h: "rb_left ?h z = t_nil T" "rb_right ?h z = t_nil T" "rb_parent ?h z = t_nil T" "rb_root ?h = z"
    by (simp_all add: link_def Let_def put_defs)
  have "t_color T (t_nil T) \<noteq> RED" "m = 0" using at by (auto simp: rb_at_def split: if_splits)
  then show ?thesis using h z(1) Nil unfolding red_node_def rooted_def
    by (simp add: located_def above_def link_sel del: view_sel(1-4))
next
  case (Cons f c')
  let ?s = "t_nil T" and ?y = "frame_addr f"
  have cx: "ctx_at (view T) ?s (f # c') ?s" using at Cons by (simp add: rb_at_def located_def)
  have y: "?y \<noteq> ?s" using ctx_at_set [OF cx] frame_addr_in [of f c'] by auto
  have yz: "?y \<noteq> z" using z(2) Cons frame_addr_in [of f c'] by auto
  have "view (link T z ?y) =
      ngx_rbt_red z (set_right z ?s (set_left z ?s (set_parent z ?y (relink (f # c') z (view T)))))"
    using ft y yz Cons by (cases f) (auto simp: fits_def relink_def link_def Let_def view_put ngx_rbt_red_def put_defs set_defs view_def)
  then have v: "view (link T z (above ?s c)) =
      ngx_rbt_red z (set_right z ?s (set_left z ?s (set_parent z ?y (relink (f # c') z (view T)))))"
    using Cons by (simp add: above_def)
  have "rb_root (view T) \<in> set (before (f # c')) \<union> set (after (f # c'))" using root_in_ctx [OF cx] by simp
  then have "z \<noteq> rb_root (view T)" using z(2) Cons by auto
  then have "rooted (view (link T z (above ?s c))) ?s"
    using root Cons unfolding v by (cases f) (auto simp: rooted_def relink_def set_defs ngx_rbt_red_def)
  then show ?thesis using link_node [OF at [unfolded Cons] z(1)] z(2) Cons unfolding v by simp
qed


lemma rbtree_insert_link:
  "rbtree_insert T z = do {
     r \<leftarrow> insert_walk T (t_key T z) (t_root T) (t_nil T);
     case r of Inl _ \<Rightarrow> Some T | Inr y \<Rightarrow> rbtree_insert_fixup (link T z y) z
   }"
  unfolding rbtree_insert_def link_def Let_def ..

lemma sane_nil: "sane S T \<Longrightarrow> rb_color (view T) a = 0 \<Longrightarrow> a \<in> S \<Longrightarrow> t_color T a = BLACK"
  using sane_black by blast

lemma tree_ok_insert:
  assumes ok: "tree_ok T t" and z: "z \<noteq> t_nil T" "z \<notin> set (inorder t)"
  shows "(\<exists>a \<in> set (inorder t). t_key T a = t_key T z) \<and> rbtree_insert T z = Some T \<or>
    (\<exists>T' t' xs ys. rbtree_insert T z = Some T' \<and> tree_ok T' t' \<and> payload T' = payload T
       \<and> inorder t = xs @ ys \<and> inorder t' = xs @ z # ys
       \<and> (\<forall>x \<in> set xs. t_key T x < t_key T z) \<and> (\<forall>x \<in> set ys. t_key T z < t_key T x))"
proof -
  let ?s = "t_nil T" and ?k = "t_key T z"
  have rb: "rb_tree (view T) ?s t" and root: "t \<noteq> Leaf \<longrightarrow> rooted (view T) ?s"
    and sn: "sane (insert ?s (set (inorder t))) T" and srt: "sorted_wrt (<) (map (t_key T) (inorder t))"
    using ok by (simp_all add: tree_ok_def)
  obtain n where at: "rb_at (view T) ?s [] (t_root T) t n" using rb_at_root [OF rb] by auto
  have "fits T ?k []" by (simp add: fits_def)
  moreover have "sorted_wrt (<) (map (t_key T) (inorder (plug [] t)))" using srt by simp
  ultimately have "(\<exists>a. insert_walk T ?k (t_root T) (above ?s []) = Some (Inl a) \<and> a \<in> set (inorder t) \<and> t_key T a = ?k) \<or>
    (\<exists>c m. insert_walk T ?k (t_root T) (above ?s []) = Some (Inr (above ?s c)) \<and> rb_at (view T) ?s c ?s Leaf m
        \<and> inorder (plug c Leaf) = inorder (plug [] t) \<and> fits T ?k c)"
    using insert_walk_ok [OF at] by blast
  then show ?thesis
  proof (elim disjE exE)
    fix a assume "insert_walk T ?k (t_root T) (above ?s []) = Some (Inl a) \<and> a \<in> set (inorder t) \<and> t_key T a = ?k"
    then show ?thesis by (auto simp: rbtree_insert_link above_def)
  next
    fix c m assume "insert_walk T ?k (t_root T) (above ?s []) = Some (Inr (above ?s c)) \<and> rb_at (view T) ?s c ?s Leaf m
        \<and> inorder (plug c Leaf) = inorder (plug [] t) \<and> fits T ?k c"
    then have w: "insert_walk T ?k (t_root T) ?s = Some (Inr (above ?s c))" and at: "rb_at (view T) ?s c ?s Leaf m"
      and xs: "inorder t = before c @ after c" and ft: "fits T ?k c" by (auto simp: above_def inorder_plug)
    let ?L = "link T z (above ?s c)" and ?S = "insert ?s (insert z (set (inorder t)))"
    have "c \<noteq> [] \<longrightarrow> t \<noteq> Leaf" using xs frame_addr_in [of "hd c" "tl c"] by (cases c) auto
    then have rn: "red_node (view ?L) ?s c z Leaf Leaf m" "rooted (view ?L) ?s"
      using link_view [OF at z(1) _ ft] z(2) xs root by auto
    from insert_fix_ok [OF rn(1)] obtain h' t' where fix_: "insert_fix ?s z (view ?L) = Some h'" "rb_tree h' ?s t'"
      "inorder t' = inorder (plug c (Node Leaf z Leaf))" by blast
    have nil: "t_nil ?L = ?s" using link_sel(1) [of T z] payload_nil by blast
    have "sane ?S ?L" using sn by (auto simp: sane_def link_sel)
    moreover have "rb_color (view ?L) ?s = 0" using rn(1) by (simp add: red_node_def)
    ultimately obtain T' where T': "rbtree_insert_fixup ?L z = Some T'" "view T' = h'" "rooted h' ?s" "payload T' = payload ?L" "sane ?S T'"
      using insert_fixup_sim [OF fix_(1) refl nil rn(2), of ?S] rn(1) by blast
    have p: "payload T' = payload T" using T'(4) by (simp add: link_sel)
    have ino: "inorder t' = before c @ z # after c" using fix_(3) by (simp add: inorder_plug)
    have key: "t_key T' = t_key T" "t_nil T' = ?s" using p by (simp_all add: payload_def)
    have "set (inorder t') = insert z (set (inorder t))" unfolding ino xs by auto
    moreover have "sorted_wrt (<) (map (t_key T) (before c @ z # after c))"
      using srt ft unfolding xs fits_def by (auto simp: sorted_wrt_append)
    ultimately have "tree_ok T' t'"
      using fix_(2) T'(2,3,5) unfolding tree_ok_def key ino by simp
    moreover have "rbtree_insert T z = Some T'" using w T'(1) by (simp add: rbtree_insert_link)
    ultimately show ?thesis using p ino xs ft unfolding fits_def by blast
  qed
qed

section \<open>Deletion\<close>

text \<open>The child takes the place of the node.\<close>

lemma parent_root_located:
  "located h s [] x R \<Longrightarrow> located (set_parent x v h) s [] x R"
proof (cases R)
  case (Node l a r)
  assume loc: "located h s [] x R"
  then have x: "x = a" "a \<noteq> s" "rb_root h = a" and d: "distinct (inorder l @ a # inorder r)"
    and tr: "tree_at h s a (rb_left h a) l" "tree_at h s a (rb_right h a) r" using Node by (auto simp: located_def)
  have "tree_at (set_parent a v h) s a (rb_left h a) l" by (rule tree_same [OF tr(1)]) (use d in \<open>auto simp: set_defs\<close>)
  moreover have "tree_at (set_parent a v h) s a (rb_right h a) r" by (rule tree_same [OF tr(2)]) (use d in \<open>auto simp: set_defs\<close>)
  ultimately show ?thesis using Node x d by (simp add: located_def set_defs)
qed (simp add: located_def set_defs)

lemma splice_view:
  assumes loc: "located (view T) (t_nil T) c y X" and X: "X = Node Leaf y R \<or> X = Node R y Leaf"
    and root: "rooted (view T) (t_nil T)"
  defines "x \<equiv> node_addr (t_nil T) R"
  shows "view (delete_splice T y x) =
     (case c of [] \<Rightarrow> set_parent x (t_nil T) (set_root x (view T))
      | f # _ \<Rightarrow> set_parent x (frame_addr f) (relink c x (view T)))"
    and "t_key (delete_splice T y x) = t_key T" "t_value (delete_splice T y x) = t_value T"
      "t_nil (delete_splice T y x) = t_nil T" "t_color (delete_splice T y x) = t_color T"
proof -
  have y: "t_parent T y = t_nil T \<longleftrightarrow> y = t_root T" using at_root [OF _ root] loc X by auto
  have xy: "x \<noteq> y" using loc X unfolding x_def by (cases R) (auto simp: located_def)
  show "view (delete_splice T y x) =
     (case c of [] \<Rightarrow> set_parent x (t_nil T) (set_root x (view T))
      | f # _ \<Rightarrow> set_parent x (frame_addr f) (relink c x (view T)))"
  proof (cases c)
    case Nil
    then have "y = t_root T" using loc by (simp add: located_def)
    then have "t_parent T y = t_nil T" using y by simp
    then show ?thesis using Nil xy by (simp add: delete_splice_def Let_def put_defs set_defs view_def)
  next
    case (Cons f c')
    have par: "t_parent T y = frame_addr f" and cx: "ctx_at (view T) (t_nil T) (f # c') y"
      using loc X Cons by (auto simp: located_def)
    have "frame_addr f \<noteq> t_nil T" using ctx_at_set [OF cx] frame_addr_in [of f c'] by auto
    then have nr: "t_parent T y \<noteq> t_nil T" using par by simp
    obtain l r where "X = Node l y r" using X by blast
    note u = unlink_relink [OF loc [unfolded Cons this], of x y]
    have "view (delete_splice T y x) = set_parent x (frame_addr f) (delete_unlink y x y (view T))"
      using nr par xy by (simp add: delete_splice_def delete_unlink_def Let_def put_defs set_defs view_def)
    then show ?thesis using u Cons by simp
  qed
  show "t_key (delete_splice T y x) = t_key T" "t_value (delete_splice T y x) = t_value T"
    "t_nil (delete_splice T y x) = t_nil T" "t_color (delete_splice T y x) = t_color T"
    by (simp_all add: delete_splice_def Let_def put_defs)
qed


text \<open>The loop repairs the colours.\<close>

lemma unlink_ok:
  assumes tree: "rb_tree (view T) (t_nil T) (plug c X)" and loc: "located (view T) (t_nil T) c y X"
    and X: "X = Node Leaf y R \<or> X = Node R y Leaf" and root: "rooted (view T) (t_nil T)"
    and sn: "sane S T" and S: "S = insert (t_nil T) (set (inorder (plug c X)))" and x: "x = node_addr (t_nil T) R"
    and T2: "view T2 = view (delete_splice T y x)" "t_nil T2 = t_nil T" "t_color T2 = t_color T"
  shows "\<exists>T3 t'. (if t_color T2 y = BLACK then rbtree_delete_fixup T2 x else Some T2) = Some T3 \<and>
    rb_tree (view T3) (t_nil T) t' \<and> inorder t' = inorder (plug c R) \<and> rooted (view T3) (t_nil T) \<and>
    payload T3 = payload T2 \<and> sane S T3"
proof -
  let ?s = "t_nil T" and ?h = "view T" and ?k = "view T2"
  note sv = splice_view(1) [OF loc X root, folded x, folded T2(1)]
  have s0: "rb_color ?h ?s = 0" using tree by (simp add: rb_tree_def)
  have ck: "rb_color ?k = rb_color ?h" by (rule ext) (simp add: T2(3))
  have sn2: "sane S T2" using sn sane_cong [OF T2(3)] by simp
  have yS: "y \<in> S" using X unfolding S by (auto simp: inorder_plug)
  have xR: "x \<in> insert ?s (set (inorder R))" unfolding x by (cases R) auto
  then have xS: "x \<in> S" using X unfolding S by (auto simp: inorder_plug)
  have yb: "t_color T2 y = BLACK \<longleftrightarrow> rb_color ?h y = 0" using sane_black [OF sn2 yS] unfolding ck .
  obtain n where n: "rbt (rb_color ?h) X n" "cbt (rb_color ?h) c n"
    "c \<noteq> [] \<longrightarrow> root_black (rb_color ?h) X \<or> rb_color ?h (frame_addr (hd c)) = 0" using colours_at [OF tree] by blast
  show ?thesis
  proof (cases c)
    case Nil
    have k: "?k = set_parent x ?s (set_root x ?h)" using sv Nil by simp
    have lk: "located ?k ?s [] x R"
      unfolding k by (rule parent_root_located) (use unroot_located loc X Nil x in blast)
    have rk: "rooted ?k ?s" "rb_root ?k = x" by (simp_all add: k rooted_def set_defs)
    have "rb_color ?h y = 0" using tree X Nil by (auto simp: rb_tree_def simp del: view_sel(5))
    then have b: "t_color T2 y = BLACK" using yb by blast
    obtain m where m: "rbt (rb_color ?h) R m" using n(1) X by (auto split: if_splits simp del: view_sel(5))
    have "rb_tree (ngx_rbt_black (rb_root ?k) ?k) ?s (plug [] R)"
      by (rule blacken_root [OF lk, where n = m]) (use m s0 ck in \<open>simp_all del: view_sel(5)\<close>)
    moreover have "delete_fix ?s x ?k = Some (ngx_rbt_black (rb_root ?k) ?k)"
      using rk(2) by (subst delete_fix.simps) simp
    ultimately show ?thesis
      using delete_fixup_sim [of ?s x ?k _ T2 S] rk T2(2) sn2 xS b Nil by auto
  next
    case (Cons f C)
    have k: "?k = set_parent x (frame_addr f) (relink (f # C) x ?h)" using sv Cons by simp
    note u = unlink_located [OF loc [unfolded Cons] X, folded x, folded k, folded Cons]
    have lk: "located ?k ?s c x R" by (rule u(1))
    have cx: "ctx_at ?k ?s (f # C) x" using lk Cons by (simp add: located_def)
    have xo: "x \<notin> set (before c) \<union> set (after c)"
      using xR lk ctx_at_set [of ?k ?s c x] by (auto simp: located_def)
    have "rb_root ?k \<noteq> x" using root_in_ctx [OF cx] xo Cons by auto
    moreover have "rb_root ?k = rb_root ?h" unfolding k by (cases f) (simp_all add: relink_def set_defs)
    moreover have "rb_parent ?k a = rb_parent ?h a" if "a \<noteq> x" for a
      unfolding k using that by (cases f) (simp_all add: relink_def set_defs)
    ultimately have rk: "rooted ?k ?s" using root by (simp add: rooted_def)
    have par: "rb_parent ?k x = frame_addr (hd c)" using u(2) Cons by simp
    have ne: "c \<noteq> []" using Cons by simp
    note fin = delete_finish [OF lk _ ne par n(1) X, unfolded ck, OF s0 refl refl n(2) mp [OF n(3) ne]]
    show ?thesis
    proof (cases "t_color T2 y = BLACK")
      case False
      then have "rb_color ?h y \<noteq> 0" using yb by blast
      then show ?thesis using fin False rk sn2 Cons by auto
    next
      case True
      then have y0: "rb_color ?h y = 0" using yb by blast
      obtain h' t' where h': "delete_fix ?s x ?k = Some h'" "rb_tree h' ?s t'" "inorder t' = inorder (plug c R)"
        using fin y0 by auto
      have "n \<noteq> 0" "rbt (rb_color ?h) R (n - 1)" using n(1) X y0 by (auto simp del: view_sel(5))
      then have "hole ?k ?s c x R (n - 1)"
        unfolding hole_def ck using lk s0 par n(2) rbt_rbt0 by (simp del: view_sel(5))
      moreover have "insert ?s (set (inorder (plug c R))) \<subseteq> S" using X unfolding S by (auto simp: inorder_plug)
      ultimately show ?thesis
        using delete_fixup_sim [OF h'(1) refl T2(2) rk sn2 xS] h'(2,3) True by auto
    qed
  qed
qed


lemma mini_ok:
  "tree_at (view T) (t_nil T) par p t \<Longrightarrow> t \<noteq> Leaf \<Longrightarrow> rbtree_mini T p = Some (hd (inorder t))"
proof (induction t arbitrary: par p)
  case (Node l a r)
  show ?case
  proof (cases l)
    case Leaf
    then show ?thesis using Node.prems by (subst rbtree_mini.simps) simp
  next
    case n: Node
    then have "t_left T a \<noteq> t_nil T" using Node.prems(1) by simp
    then have "rbtree_mini T p = rbtree_mini T (t_left T a)"
      using Node.prems(1) by (subst rbtree_mini.simps) simp
    also have "\<dots> = Some (hd (inorder l))"
      using Node.IH(1) [of a "t_left T a"] Node.prems(1) n by simp
    also have "hd (inorder l) = hd (inorder (Node l a r))" using n by (simp add: hd_append)
    finally show ?thesis .
  qed
qed simp

definition delete_target :: "rbtree \<Rightarrow> tnode \<Rightarrow> tnode \<Rightarrow> tnode \<Rightarrow> rbtree" where
  "delete_target T z y x =
     (let T1 = delete_splice T y x in
      if y \<noteq> z then T1\<lparr>t_key := (t_key T1)(z := t_key T1 y), t_value := (t_value T1)(z := t_value T1 y)\<rparr> else T1)"

lemma rbtree_delete_steps:
  assumes "(if t_left T z = t_nil T \<or> t_right T z = t_nil T then Some z else rbtree_successor T z) = Some y"
    and "(if t_left T y \<noteq> t_nil T then t_left T y else if t_right T y \<noteq> t_nil T then t_right T y else t_nil T) = x"
    and "T2 = delete_target T z y x"
    and "(if t_color T2 y = BLACK then rbtree_delete_fixup T2 x else Some T2) = Some T3"
  shows "rbtree_delete T z = Some (y, T3)"
proof -
  have "rbtree_delete T z =
     (if t_color T2 y = BLACK then do { T3 \<leftarrow> rbtree_delete_fixup T2 x; Some (y, T3) } else Some (y, T2))"
    unfolding rbtree_delete_def assms(1) bind.bind_lunit Let_def assms(2) assms(3) delete_target_def ..
  then show ?thesis using assms(4) by (auto split: if_splits)
qed

lemma target_sel:
  fixes z :: tnode
  assumes loc: "located (view T) (t_nil T) c y X" and X: "X = Node Leaf y R \<or> X = Node R y Leaf"
    and root: "rooted (view T) (t_nil T)"
  defines "T2 \<equiv> delete_target T z y (node_addr (t_nil T) R)"
  shows "view T2 = view (delete_splice T y (node_addr (t_nil T) R))" "t_nil T2 = t_nil T" "t_color T2 = t_color T"
    "t_key T2 = (t_key T)(z := t_key T y)" "t_value T2 = (t_value T)(z := t_value T y)"
  using splice_view(2-5) [OF loc X root]
  by (auto simp: T2_def delete_target_def Let_def) (simp add: view_def)

lemma tree_ok_delete:
  assumes ok: "tree_ok T t" and z: "z \<in> set (inorder t)"
  shows "\<exists>y T3 t' A B. rbtree_delete T z = Some (y, T3) \<and> tree_ok T3 t' \<and> inorder t = A @ z # B \<and> y \<in> set (inorder t)
    \<and> set (inorder t') = set (inorder t) - {y} \<and> entries T3 (inorder t') = entries T (A @ B) \<and> t_nil T3 = t_nil T"
proof -
  let ?s = "t_nil T" and ?S = "insert (t_nil T) (set (inorder t))"
  have rb: "rb_tree (view T) ?s t" and root: "rooted (view T) ?s" and sn: "sane ?S T"
    and srt: "sorted_wrt (<) (map (t_key T) (inorder t))"
    using ok z by (cases t; simp add: tree_ok_def)+
  obtain c l r where p: "t = plug c (Node l z r)" and loc: "located (view T) ?s c z (Node l z r)"
    using locate_rb [OF rb z] by blast
  note kids = located_kids [OF loc, simplified view_sel]
  have kid_nil: "t_left T z = ?s \<longleftrightarrow> l = Leaf" "t_right T z = ?s \<longleftrightarrow> r = Leaf"
    using kids(1,2) tree_at_set [OF kids(3)] tree_at_set [OF kids(4)] by auto
  define A where "A = before c @ inorder l"
  define B where "B = inorder r @ after c"
  have AB: "inorder t = A @ z # B" unfolding p A_def B_def by (simp add: inorder_plug)
  have dist: "distinct (A @ z # B)" using loc unfolding A_def B_def by (auto simp: located_def)
  have srt': "sorted_wrt (<) (map (t_key T) (A @ B))" using srt unfolding AB by (auto simp: sorted_wrt_append)
  have finish: ?thesis
    if at: "located (view T) ?s C y X" "t = plug C X" and X: "X = Node Leaf y R \<or> X = Node R y Leaf"
      and y: "(if t_left T z = ?s \<or> t_right T z = ?s then Some z else rbtree_successor T z) = Some y"
      and e: "map ((t_key T)(z := t_key T y)) (inorder (plug C R)) = map (t_key T) (A @ B)"
        "map (\<lambda>a. (((t_key T)(z := t_key T y)) a, ((t_value T)(z := t_value T y)) a)) (inorder (plug C R)) = entries T (A @ B)"
    for C y X R
  proof -
    let ?x = "node_addr ?s R"
    let ?T2 = "delete_target T z y ?x"
    note ts = target_sel [OF at(1) X root, of z]
    have lr: "(if t_left T y \<noteq> ?s then t_left T y else if t_right T y \<noteq> ?s then t_right T y else ?s) = ?x"
      using X located_kids [of "view T" ?s C y Leaf R] located_kids [of "view T" ?s C y R Leaf] at(1) by auto
    have yt: "y \<in> set (inorder t)" using X at(2) by (auto simp: inorder_plug)
    obtain T3 t' where T3: "(if t_color ?T2 y = BLACK then rbtree_delete_fixup ?T2 ?x else Some ?T2) = Some T3"
      "rb_tree (view T3) ?s t'" "inorder t' = inorder (plug C R)" "rooted (view T3) ?s" "payload T3 = payload ?T2" "sane ?S T3"
      using unlink_ok [OF rb [unfolded at(2)] at(1) X root sn [unfolded at(2)] refl refl ts(1-3)] unfolding at(2) by blast
    have sel: "t_key T3 = (t_key T)(z := t_key T y)" "t_value T3 = (t_value T)(z := t_value T y)" "t_nil T3 = ?s"
      using T3(5) ts(2,4,5) by (simp_all add: payload_def)
    have "distinct (inorder t)" using AB dist by simp
    then have st: "set (inorder t') = set (inorder t) - {y}"
      using X unfolding T3(3) at(2) by (auto simp: inorder_plug)
    have "sane (insert ?s (set (inorder t'))) T3" using T3(6) unfolding st sane_def by auto
    moreover have "sorted_wrt (<) (map (t_key T3) (inorder t'))" unfolding T3(3) sel(1) e(1) by (rule srt')
    ultimately have "tree_ok T3 t'" using T3(2,4) unfolding tree_ok_def sel(3) by simp
    moreover have "entries T3 (inorder t') = entries T (A @ B)"
      using e(2) unfolding T3(3) entries_def sel(1,2) by simp
    ultimately show ?thesis using rbtree_delete_steps [OF y lr refl T3(1)] AB st yt sel(3) by blast
  qed
  have plain: "map ((t_key T)(z := t_key T z)) xs = map (t_key T) xs"
    "map (\<lambda>a. (((t_key T)(z := t_key T z)) a, ((t_value T)(z := t_value T z)) a)) xs = entries T xs" for xs
    by (auto simp: entries_def)
  consider "l = Leaf" | "l \<noteq> Leaf" "r = Leaf" | "l \<noteq> Leaf" "r \<noteq> Leaf" by blast
  then show ?thesis
  proof cases
    case 1
    show ?thesis
      by (rule finish [OF loc p, of r]) (use 1 kid_nil plain in \<open>auto simp: inorder_plug A_def B_def\<close>)
  next
    case 2
    show ?thesis
      by (rule finish [OF loc p, of l]) (use 2 kid_nil plain in \<open>auto simp: inorder_plug A_def B_def\<close>)
  next
    case 3
    obtain c2 y R where r: "r = plug c2 (Node Leaf y R)" "before c2 = []" using min_split [OF 3(2)] by blast
    let ?C = "c2 @ InR l z # c"
    have locy: "located (view T) ?s ?C y (Node Leaf y R)"
      using located_inside [OF located_down(2) [OF loc, unfolded r(1)]] by simp
    have ty: "t = plug ?C (Node Leaf y R)" unfolding p r(1) by (simp add: plug_append)
    have ir: "inorder r = y # inorder R @ after c2" unfolding r(1) by (simp add: inorder_plug r(2))
    have "tree_at (view T) ?s z (t_right T z) r" using kids(2,4) by simp
    then have "rbtree_successor T z = Some y"
      using mini_ok [of T z "t_right T z" r] 3(2) kid_nil ir by (simp add: rbtree_successor_def Let_def)
    moreover have ino: "inorder (plug ?C R) = A @ z # inorder R @ after c2 @ after c"
      by (simp add: inorder_plug before_append after_append r(2) A_def)
    have z': "z \<notin> set A" "z \<notin> set (inorder R @ after c2 @ after c)" using dist unfolding B_def ir by auto
    have B': "B = y # inorder R @ after c2 @ after c" unfolding B_def ir by simp
    have eq: "a \<in> set A \<union> set (inorder R @ after c2 @ after c) \<Longrightarrow> a \<noteq> z" for a using z' by auto
    have "map ((t_key T)(z := t_key T y)) (inorder (plug ?C R)) = map (t_key T) (A @ B)"
      unfolding ino B' using eq by (auto intro!: map_cong)
    moreover have "map (\<lambda>a. (((t_key T)(z := t_key T y)) a, ((t_value T)(z := t_value T y)) a)) (inorder (plug ?C R)) = entries T (A @ B)"
      unfolding ino B' entries_def using eq by (auto intro!: map_cong)
    ultimately show ?thesis
      using 3 kid_nil by (intro finish [OF locy ty, of R]) auto
  qed
qed


section \<open>Successor\<close>

lemma climb_nil_ok:
  "located (view T) (t_nil T) c p t \<Longrightarrow> t \<noteq> Leaf \<Longrightarrow> rooted (view T) (t_nil T) \<Longrightarrow>
   successor_climb T p (t_parent T p) = Some (case after c of [] \<Rightarrow> t_nil T | a # _ \<Rightarrow> a)"
proof (induction c arbitrary: p t)
  case Nil
  then have "t_parent T p = t_nil T" by (auto simp: located_def rooted_def)
  then show ?case by (subst successor_climb.simps) simp
next
  case (Cons f c)
  have par: "t_parent T p = frame_addr f" "p \<noteq> t_nil T" using Cons.prems by (cases t; auto simp: located_def)+
  have cx: "ctx_at (view T) (t_nil T) (f # c) p" using Cons.prems(1) by (simp add: located_def)
  have fn: "frame_addr f \<noteq> t_nil T" using ctx_at_set [OF cx] frame_addr_in [of f c] by auto
  have pt: "p \<in> set (inorder t)" using Cons.prems tree_at_set by (auto simp: located_def)
  show ?case
  proof (cases f)
    case (InL a r)
    have "t_right T a \<noteq> p"
      using Cons.prems(1) InL pt tree_at_set [of "view T" "t_nil T" a "t_right T a" r] par(2)
      by (cases "r = Leaf") (auto simp: located_def)
    then show ?thesis using par fn InL by (subst successor_climb.simps) auto
  next
    case (InR l a)
    then have "t_right T a = p" using cx by simp
    then have "successor_climb T p (t_parent T p) = successor_climb T a (t_parent T a)"
      using par fn InR by (subst successor_climb.simps) simp
    then show ?thesis using Cons.IH [OF located_up(2)] Cons.prems(1,3) InR by simp
  qed
qed

lemma successor_ok:
  assumes "located (view T) (t_nil T) c a (Node l a r)" "rooted (view T) (t_nil T)"
  shows "rbtree_successor T a = Some (case inorder r @ after c of [] \<Rightarrow> t_nil T | x # _ \<Rightarrow> x)"
proof (cases r)
  case Leaf
  then have "t_right T a = t_nil T" using assms(1) by (simp add: located_def)
  then show ?thesis using climb_nil_ok [OF assms(1) _ assms(2)] Leaf by (simp add: rbtree_successor_def)
next
  case (Node x b y)
  have tr: "tree_at (view T) (t_nil T) a (t_right T a) r" using assms(1) by (simp add: located_def)
  have ne: "r \<noteq> Leaf" using Node by simp
  have "t_right T a \<noteq> t_nil T" using tree_at_set [OF tr] ne by blast
  then show ?thesis using mini_ok [OF tr ne] ne by (cases "inorder r") (simp_all add: rbtree_successor_def Let_def)
qed

section \<open>The map\<close>

lemma stores_insert:
  assumes "stores T N m" "z \<noteq> t_nil T" "z \<notin> N"
  shows "\<exists>T'. rbtree_insert T z = Some T' \<and> t_nil T' = t_nil T \<and>
     (if t_key T z \<in> dom m then T' = T else stores T' (insert z N) (m(t_key T z \<mapsto> t_value T z)))"
proof -
  obtain t where t: "tree_ok T t" "N = set (inorder t)" "m = map_of (entries T (inorder t))"
    using assms(1) by (auto simp: stores_def)
  have dm: "dom m = t_key T ` set (inorder t)" unfolding t(3) by (rule dom_entries)
  have "z \<notin> set (inorder t)" using assms(3) t(2) by simp
  from tree_ok_insert [OF t(1) assms(2) this] show ?thesis
  proof (elim disjE exE conjE)
    assume "\<exists>a \<in> set (inorder t). t_key T a = t_key T z" "rbtree_insert T z = Some T"
    moreover from this(1) have "t_key T z \<in> dom m" unfolding dm by (metis imageI)
    ultimately show ?thesis by simp
  next
    fix T' t' xs ys
    assume a: "rbtree_insert T z = Some T'" "tree_ok T' t'" "payload T' = payload T" "inorder t = xs @ ys"
      "inorder t' = xs @ z # ys" "\<forall>x \<in> set xs. t_key T x < t_key T z" "\<forall>x \<in> set ys. t_key T z < t_key T x"
    have new: "t_key T z \<notin> dom m" unfolding dm a(4) using a(6,7) by force
    have "t_key T z \<notin> fst ` set (entries T xs)" using a(6) by (force simp: entries_def)
    then have "map_of (entries T' (inorder t')) = m(t_key T z \<mapsto> t_value T z)"
      unfolding entries_payload [OF a(3)] a(5) t(3) a(4) by (simp add: map_of_put del: map_of_append)
    moreover have "insert z N = set (inorder t')" unfolding t(2) a(4,5) by auto
    ultimately have "stores T' (insert z N) (m(t_key T z \<mapsto> t_value T z))"
      using a(2) unfolding stores_def by metis
    then show ?thesis using a(1) new payload_nil [OF a(3)] by simp
  qed
qed

lemma stores_delete:
  assumes "stores T N m" "z \<in> N"
  shows "\<exists>y T'. rbtree_delete T z = Some (y, T') \<and> y \<in> N \<and> t_nil T' = t_nil T \<and> stores T' (N - {y}) (m(t_key T z := None))"
proof -
  obtain t where t: "tree_ok T t" "N = set (inorder t)" "m = map_of (entries T (inorder t))"
    using assms(1) by (auto simp: stores_def)
  have "z \<in> set (inorder t)" using assms(2) t(2) by simp
  from tree_ok_delete [OF t(1) this] obtain y T3 t' A B where d: "rbtree_delete T z = Some (y, T3)" "tree_ok T3 t'"
    "inorder t = A @ z # B" "y \<in> set (inorder t)" "set (inorder t') = set (inorder t) - {y}"
    "entries T3 (inorder t') = entries T (A @ B)" "t_nil T3 = t_nil T" by blast
  have "sorted_wrt (<) (map (t_key T) (A @ z # B))" using t(1) d(3) by (simp add: tree_ok_def)
  then have k: "t_key T z \<notin> fst ` set (entries T A)" "t_key T z \<notin> fst ` set (entries T B)"
    by (force simp: sorted_wrt_append entries_def)+
  have "map_of (entries T3 (inorder t')) = m(t_key T z := None)"
    unfolding d(6) t(3) d(3) using map_of_drop [OF k, of "t_value T z"] by (simp del: map_of_append)
  then have "stores T3 (N - {y}) (m(t_key T z := None))"
    unfolding stores_def t(2) using d(2,5) by metis
  then show ?thesis using d(1,4,7) t(2) by blast
qed

lemma stores_search:
  assumes "stores T N m"
  shows "\<exists>a. rbtree_search T k = Some a \<and>
    (case m k of None \<Rightarrow> a = t_nil T | Some v \<Rightarrow> a \<in> N \<and> t_key T a = k \<and> t_value T a = v)"
proof -
  obtain t where t: "tree_ok T t" "N = set (inorder t)" "m = map_of (entries T (inorder t))"
    using assms(1) by (auto simp: stores_def)
  have srt: "sorted_wrt (<) (map (t_key T) (inorder t))" using t(1) by (simp add: tree_ok_def)
  have dm: "dom m = t_key T ` set (inorder t)" unfolding t(3) by (rule dom_entries)
  have "\<exists>par. tree_at (view T) (t_nil T) par (t_root T) t"
    using t(1) by (auto simp: tree_ok_def rb_tree_def holds_tree_def located_def)
  then obtain a where a: "rbtree_search T k = Some a"
    "if k \<in> t_key T ` set (inorder t) then a \<in> set (inorder t) \<and> t_key T a = k else a = t_nil T"
    using search_loop_ok srt unfolding rbtree_search_def by blast
  show ?thesis
  proof (cases "k \<in> dom m")
    case True
    then have k: "a \<in> set (inorder t)" "t_key T a = k" using a(2) dm by auto
    have "distinct (map fst (entries T (inorder t)))"
      using srt unfolding keys_entries by (simp add: strict_sorted_iff)
    moreover have "(k, t_value T a) \<in> set (entries T (inorder t))" using k by (auto simp: entries_def)
    ultimately have "m k = Some (t_value T a)" unfolding t(3) by simp
    then show ?thesis using a(1) k t(2) by simp
  next
    case False
    have "m k = None" using False by (simp add: domIff)
    moreover have "k \<notin> t_key T ` set (inorder t)" using False dm by simp
    ultimately show ?thesis using a by simp
  qed
qed


lemma stores_nil: "stores T N m \<Longrightarrow> t_nil T \<notin> N"
  using tree_at_set by (fastforce simp: stores_def tree_ok_def rb_tree_def holds_tree_def located_def)

lemma stores_dom: "stores T N m \<Longrightarrow> N = {} \<longleftrightarrow> m = Map.empty"
  by (auto simp: stores_def entries_def)

lemma stores_empty: "stores T {} m \<Longrightarrow> t_root T = t_nil T"
  by (auto simp: stores_def tree_ok_def rb_tree_def holds_tree_def located_def)

text \<open>A node outside the tree may be filled in.\<close>

lemma stores_fill:
  assumes "stores T N m" "a \<notin> N"
  shows "stores (T\<lparr>t_key := (t_key T)(a := k), t_value := (t_value T)(a := v)\<rparr>) N m"
proof -
  let ?T = "T\<lparr>t_key := (t_key T)(a := k), t_value := (t_value T)(a := v)\<rparr>"
  obtain t where t: "tree_ok T t" "N = set (inorder t)" "m = map_of (entries T (inorder t))"
    using assms(1) by (auto simp: stores_def)
  have ne: "b \<in> set (inorder t) \<Longrightarrow> b \<noteq> a" for b using assms(2) t(2) by auto
  have "view ?T = view T" by (simp add: view_def)
  moreover have "map (t_key ?T) (inorder t) = map (t_key T) (inorder t)" using ne by simp
  moreover have "sane S ?T = sane S T" for S by (simp add: sane_def)
  moreover have "t_nil ?T = t_nil T" by simp
  ultimately have "tree_ok ?T t" using t(1) unfolding tree_ok_def by metis
  moreover have "entries ?T (inorder t) = entries T (inorder t)" using ne by (auto simp: entries_def)
  ultimately show ?thesis using t(2,3) unfolding stores_def by metis
qed

lemma main_tree_stores: "stores (main_tree nil T) {} Map.empty \<and> t_nil (main_tree nil T) = nil"
  by (auto simp: stores_def tree_ok_def rb_tree_def holds_tree_def located_def main_tree_def sane_def intro!: exI [of _ Leaf])

lemma main_insert_ok:
  "stores T N m \<Longrightarrow> distinct (map fst xs) \<Longrightarrow> fst ` set xs \<inter> insert (t_nil T) N = {} \<Longrightarrow>
   \<exists>T' N' m'. main_insert xs T = Some T' \<and> stores T' N' m' \<and> dom m' = dom m \<union> snd ` set xs"
proof (induction xs arbitrary: T N m)
  case (Cons x xs)
  obtain a k where x: "x = (a, k)" by (cases x)
  let ?T = "T\<lparr>t_key := (t_key T)(a := k), t_value := (t_value T)(a := 0)\<rparr>"
  have a: "a \<notin> N" "a \<noteq> t_nil ?T" using Cons.prems(3) x by auto
  have st: "stores ?T N m" by (rule stores_fill [OF Cons.prems(1) a(1)])
  have sel: "t_key ?T a = k" "t_value ?T a = 0" "t_nil ?T = t_nil T" by simp_all
  from stores_insert [OF st a(2,1), unfolded sel] obtain T1 where T1: "rbtree_insert ?T a = Some T1" "t_nil T1 = t_nil T"
    "if k \<in> dom m then T1 = ?T else stores T1 (insert a N) (m(k \<mapsto> 0))" by blast
  obtain N1 m1 where n: "stores T1 N1 m1" "N1 \<subseteq> insert a N" "dom m1 = insert k (dom m)"
  proof (cases "k \<in> dom m")
    case True
    then show ?thesis using that [of N m] T1(3) st by auto
  next
    case False
    then show ?thesis using that [of "insert a N" "m(k \<mapsto> 0)"] T1(3) by auto
  qed
  have "fst ` set xs \<inter> insert (t_nil T1) N1 = {}"
  proof -
    have "a \<notin> fst ` set xs" "fst ` set xs \<inter> insert (t_nil T) N = {}" using Cons.prems(2,3) x by auto
    moreover have "insert (t_nil T1) N1 \<subseteq> insert a (insert (t_nil T) N)" using n(2) T1(2) by auto
    ultimately show ?thesis unfolding disjoint_iff by (metis insertE subsetD)
  qed
  from Cons.IH [OF n(1) _ this] Cons.prems(2) x T1(1) n(3) show ?case by auto
qed auto

lemma main_delete_ok:
  "stores T N m \<Longrightarrow> distinct ks \<Longrightarrow> set ks \<subseteq> dom m \<Longrightarrow>
   \<exists>T' N' m'. main_delete ks T = Some T' \<and> stores T' N' m' \<and> dom m' = dom m - set ks"
proof (induction ks arbitrary: T N m)
  case (Cons k ks)
  obtain v where v: "m k = Some v" using Cons.prems(3) by auto
  from stores_search [OF Cons.prems(1), of k] v obtain a where a: "rbtree_search T k = Some a" "a \<in> N" "t_key T a = k" by auto
  from stores_delete [OF Cons.prems(1) a(2)] a(3) obtain y T1 where d: "rbtree_delete T a = Some (y, T1)"
    "stores T1 (N - {y}) (m(k := None))" by auto
  have dm: "dom (m(k := None)) = dom m - {k}" by simp
  have "set ks \<subseteq> dom m - {k}" using Cons.prems(2,3) by auto
  from Cons.IH [OF d(2) _ this [folded dm], unfolded dm] Cons.prems(2) obtain T' N' m' where
    "main_delete ks T1 = Some T'" "stores T' N' m'" "dom m' = dom m - {k} - set ks" by auto
  moreover have "dom m - {k} - set ks = dom m - set (k # ks)" by auto
  ultimately show ?case using a(1) d(1) by auto
qed auto

section \<open>Properties\<close>

text \<open>C26: inserting a node into a red-black tree that holds a map ends; if the key is present nothing
  changes, otherwise the result is a red-black tree that holds the updated map and the node besides the
  others.\<close>

theorem tree_rbtree_insert_updates:
  assumes "stores T N m" and "z \<noteq> t_nil T" and "z \<notin> N"
  shows "\<exists>T'. rbtree_insert T z = Some T' \<and> t_nil T' = t_nil T \<and>
     (if t_key T z \<in> dom m then T' = T else stores T' (insert z N) (m(t_key T z \<mapsto> t_value T z)))"
  using assms by (rule stores_insert)

definition blank :: rbtree where
  "blank = \<lparr>t_color = \<lambda>_. 0, t_right = \<lambda>_. 7, t_left = \<lambda>_. 7, t_parent = \<lambda>_. 7, t_key = int, t_value = \<lambda>a. 100 + a,
     t_root = 7, t_nil = 7\<rparr>"

lemma tree_rbtree_insert_updates_witness:
  "\<exists>T'. rbtree_insert (main_tree 1 blank) 5 = Some T' \<and> stores T' {5} [5 \<mapsto> 105]"
  using tree_rbtree_insert_updates [of "main_tree 1 blank" "{}" Map.empty 5] main_tree_stores [of 1 blank]
  by (auto simp: main_tree_def blank_def)

text \<open>C27: deleting a node of the tree ends and gives a red-black tree without its key; the node that leaves
  the tree, which the caller frees, is one of the old ones.\<close>

theorem tree_rbtree_delete_removes:
  assumes "stores T N m" and "z \<in> N"
  shows "\<exists>y T'. rbtree_delete T z = Some (y, T') \<and> y \<in> N \<and> t_nil T' = t_nil T \<and>
     stores T' (N - {y}) (m(t_key T z := None))"
  using assms by (rule stores_delete)

lemma tree_rbtree_delete_removes_witness:
  "\<exists>T T'. rbtree_insert (main_tree 1 blank) 5 = Some T \<and> rbtree_delete T 5 = Some (5, T') \<and> t_root T' = t_nil T'"
proof -
  obtain T where T: "rbtree_insert (main_tree 1 blank) 5 = Some T" "stores T {5} [5 \<mapsto> 105]"
    using stores_insert [of "main_tree 1 blank" "{}" Map.empty 5] main_tree_stores [of 1 blank]
    by (auto simp: main_tree_def blank_def)
  from tree_rbtree_delete_removes [OF T(2), of 5] obtain y T' where "rbtree_delete T 5 = Some (y, T')" "y = 5" "stores T' ({5} - {y}) (([5 \<mapsto> 105])(t_key T 5 := None))"
    by auto
  then show ?thesis using T(1) stores_empty [of T'] by auto
qed

text \<open>A search ends and finds the node of the key, or the sentinel when there is none; the traversal
  lists the keys in ascending order.\<close>

theorem tree_rbtree_search_finds:
  assumes "stores T N m"
  shows "(\<exists>a. rbtree_search T k = Some a \<and>
      (case m k of None \<Rightarrow> a = t_nil T | Some v \<Rightarrow> a \<in> N \<and> t_key T a = k \<and> t_value T a = v)) \<and>
    (\<exists>xs. rbtree_traversal T (t_root T) = Some xs \<and> sorted_wrt (<) (map fst xs) \<and> set (map fst xs) = dom m)"
proof -
  obtain t where t: "tree_ok T t" "m = map_of (entries T (inorder t))"
    using assms by (auto simp: stores_def)
  obtain par where tr: "tree_at (view T) (t_nil T) par (t_root T) t"
    using t(1) by (auto simp: tree_ok_def rb_tree_def holds_tree_def located_def)
  have "map fst (map (\<lambda>a. (t_key T a, t_color T a)) (inorder t)) = map (t_key T) (inorder t)" by simp
  then have "\<exists>xs. rbtree_traversal T (t_root T) = Some xs \<and> map fst xs = map (t_key T) (inorder t)"
    using traversal_ok [OF tr] by blast
  moreover have "set (map (t_key T) (inorder t)) = dom m" unfolding t(2) dom_entries by simp
  moreover have "sorted_wrt (<) (map (t_key T) (inorder t))" using t(1) by (simp add: tree_ok_def)
  ultimately show ?thesis using stores_search [OF assms] by metis
qed

lemma tree_rbtree_search_finds_witness:
  "\<exists>T. rbtree_insert (main_tree 1 blank) 5 = Some T \<and> rbtree_search T 5 = Some 5 \<and> rbtree_search T 6 = Some 1"
proof -
  obtain T where T: "rbtree_insert (main_tree 1 blank) 5 = Some T" "stores T {5} [5 \<mapsto> 105]" "t_nil T = 1"
    using stores_insert [of "main_tree 1 blank" "{}" Map.empty 5] main_tree_stores [of 1 blank]
    by (auto simp: main_tree_def blank_def)
  from tree_rbtree_search_finds [OF T(2), of 5] tree_rbtree_search_finds [OF T(2), of 6] T show ?thesis by auto
qed

text \<open>The program builds a tree of its keys and deletes them again: for distinct keys and the distinct
  nodes that \<open>malloc\<close> gives it ends, and the tree is empty.\<close>

theorem tree_rbtree_main_empties:
  assumes "distinct (map fst xs)" and "nil \<notin> set (map fst xs)" and "distinct (map snd xs)"
  shows "\<exists>T1 T2. main_insert xs (main_tree nil T) = Some T1 \<and> main_delete (map snd xs) T1 = Some T2 \<and> t_root T2 = t_nil T2"
proof -
  note mt = main_tree_stores [of nil T]
  have "fst ` set xs \<inter> insert (t_nil (main_tree nil T)) {} = {}" using assms(2) mt by auto
  from main_insert_ok [OF conjunct1 [OF mt] assms(1) this] obtain T1 N1 m1 where
    T1: "main_insert xs (main_tree nil T) = Some T1" "stores T1 N1 m1" "dom m1 = snd ` set xs" by auto
  obtain T2 N2 m2 where T2: "main_delete (map snd xs) T1 = Some T2" "stores T2 N2 m2" "dom m2 = {}"
    using main_delete_ok [OF T1(2) assms(3)] T1(3) by auto
  then have "t_root T2 = t_nil T2" using stores_dom [OF T2(2)] stores_empty by fastforce
  then show ?thesis using T1(1) T2(1) by blast
qed

lemma tree_rbtree_main_empties_witness:
  "\<exists>T1 T2. main_insert [(2, 24), (3, 25), (4, 13)] (main_tree 1 blank) = Some T1 \<and>
     main_delete [24, 25, 13] T1 = Some T2 \<and> t_root T2 = t_nil T2"
  using tree_rbtree_main_empties [of "[(2, 24), (3, 25), (4, 13)]" 1 blank] by simp

end
