(* ===== verification/Cjson.thy ===== *)
theory Cjson
  imports Cvip_Prelude
begin

text \<open>
  The JSON library (\<open>code/json/cjson/cJSON.c\<close>, \<open>cJSON.h\<close>): items, the parser, and the printer
  without a print buffer.  A pointer into a text is the rest of the text, which ends with its NUL byte;
  reading behind it is undefined behaviour (\<open>None\<close>), as is a write behind an allocated string.
  A function that may return \<open>NULL\<close> is a \<open>proc\<close>: it reads and updates a state, here the number of allocations
  so far (the argument \<open>mal\<close> says which ones succeed) and the error pointer \<open>ep\<close>.  C's double
  arithmetic and its formatting are the argument \<open>fp\<close>.
\<close>

section \<open>Procedures\<close>

type_synonym ('s, 'a) sproc = "'s \<Rightarrow> ('a option \<times> 's) option"

definition pret :: "'a \<Rightarrow> ('s, 'a) sproc" where "pret a = (\<lambda>st. Some (Some a, st))"

definition pnull :: "('s, 'a) sproc" where "pnull = (\<lambda>st. Some (None, st))"

definition plift :: "'a option \<Rightarrow> ('s, 'a) sproc" where
  "plift x = (\<lambda>st. case x of None \<Rightarrow> None | Some a \<Rightarrow> Some (Some a, st))"

definition pbind :: "('s, 'a) sproc \<Rightarrow> ('a \<Rightarrow> ('s, 'b) sproc) \<Rightarrow> ('s, 'b) sproc" where
  "pbind m f = (\<lambda>st. case m st of None \<Rightarrow> None
     | Some (None, st') \<Rightarrow> Some (None, st') | Some (Some a, st') \<Rightarrow> f a st')"

lemma lift_bind [simp]: "pbind (plift (Some a)) f = f a" "pbind (plift None) f = plift None"
  by (rule ext; simp add: pbind_def plift_def)+

text \<open>Keep a \<open>NULL\<close> result as a value.\<close>

definition ptry :: "('s, 'a) sproc \<Rightarrow> ('s, 'a option) sproc" where
  "ptry m = (\<lambda>st. case m st of None \<Rightarrow> None | Some (r, st') \<Rightarrow> Some (Some r, st'))"

type_synonym pst = "nat \<times> bytes option"

type_synonym 'a proc = "(pst, 'a) sproc"

text \<open>\<open>ep = s; return 0;\<close>\<close>

definition perror :: "bytes \<Rightarrow> 'a proc" where "perror s = (\<lambda>st. Some (None, (fst st, Some s)))"

definition palloc :: "(nat \<Rightarrow> bool) \<Rightarrow> unit proc" where
  "palloc mal = (\<lambda>st. Some (if mal (fst st) then Some () else None, (fst st + 1, snd st)))"

section \<open>Items\<close>

definition cJSON_False :: int where "cJSON_False = 0"
definition cJSON_True :: int where "cJSON_True = 1"
definition cJSON_NULL :: int where "cJSON_NULL = 2"
definition cJSON_Number :: int where "cJSON_Number = 3"
definition cJSON_String :: int where "cJSON_String = 4"
definition cJSON_Array :: int where "cJSON_Array = 5"
definition cJSON_Object :: int where "cJSON_Object = 6"

lemmas cjson_types = cJSON_False_def cJSON_True_def cJSON_NULL_def cJSON_Number_def cJSON_String_def
  cJSON_Array_def cJSON_Object_def

text \<open>The chain of a container's items (\<open>child\<close>, \<open>next\<close>, \<open>prev\<close>) is a list.\<close>

datatype 'd cJSON = CJSON (cj_type: int) (cj_valuestring: "bytes option") (cj_valueint: int)
  (cj_valuedouble: 'd) (cj_string: "bytes option") (cj_child: "'d cJSON list")

record 'd fp =
  f_of_int :: "int \<Rightarrow> 'd"
  f_add :: "'d \<Rightarrow> 'd \<Rightarrow> 'd"
  f_mul :: "'d \<Rightarrow> 'd \<Rightarrow> 'd"
  f_pow10 :: "'d \<Rightarrow> 'd"
  f_to_int :: "'d \<Rightarrow> int"
  f_is_zero :: "'d \<Rightarrow> bool"
  f_is_int :: "int \<Rightarrow> 'd \<Rightarrow> bool"
  f_is_whole :: "'d \<Rightarrow> bool"
  f_is_extreme :: "'d \<Rightarrow> bool"
  f_print_whole :: "'d \<Rightarrow> bytes"
  f_print_exp :: "'d \<Rightarrow> bytes"
  f_print_fix :: "'d \<Rightarrow> bytes"

definition cJSON_New_Item :: "'d fp \<Rightarrow> (nat \<Rightarrow> bool) \<Rightarrow> 'd cJSON proc" where
  "cJSON_New_Item fp mal = pbind (palloc mal) (\<lambda>_. pret (CJSON 0 None 0 (f_of_int fp 0) None []))"

section \<open>Characters\<close>

abbreviation QUOTE :: u8 where "QUOTE \<equiv> 34"
abbreviation BACKSLASH :: u8 where "BACKSLASH \<equiv> 92"

definition is_digit :: "u8 \<Rightarrow> bool" where "is_digit c \<longleftrightarrow> 48 \<le> c \<and> c \<le> 57"

fun cur :: "bytes \<Rightarrow> u8 option" where
  "cur [] = None"
| "cur (c # r) = Some c"

fun skip :: "bytes \<Rightarrow> bytes option" where
  "skip [] = None"
| "skip (c # r) = (if c \<noteq> 0 \<and> c \<le> 32 then skip r else Some (c # r))"

fun strncmp_eq :: "bytes \<Rightarrow> bytes \<Rightarrow> bool option" where
  "strncmp_eq [] s = Some True"
| "strncmp_eq (w # ws) [] = None"
| "strncmp_eq (w # ws) (c # r) = (if w = c then strncmp_eq ws r else Some False)"

section \<open>Parsing numbers\<close>

text \<open>The digit loops: \<open>n = n * 10.0 + digit\<close>, with the count of digits.\<close>

fun digits :: "'d fp \<Rightarrow> bytes \<Rightarrow> 'd \<Rightarrow> int \<Rightarrow> ('d \<times> int \<times> bytes) option" where
  "digits fp [] n k = None"
| "digits fp (c # r) n k =
     (if is_digit c then digits fp r (f_add fp (f_mul fp n (f_of_int fp 10)) (f_of_int fp (uint c - 48))) (k + 1)
      else Some (n, k, c # r))"

text \<open>The exponent is an \<open>int\<close>: its overflow is undefined.\<close>

fun exp_digits :: "bytes \<Rightarrow> int \<Rightarrow> (int \<times> bytes) option" where
  "exp_digits [] e = None"
| "exp_digits (c # r) e =
     (if is_digit c then
        (let e' = e * 10 + (uint c - 48) in if e' < 2 ^ 31 then exp_digits r e' else None)
      else Some (e, c # r))"

definition parse_int_part :: "'d fp \<Rightarrow> bytes \<Rightarrow> ('d \<times> bytes) option" where
  "parse_int_part fp s0 = do {
     c0 \<leftarrow> cur s0;
     let s1 = (if c0 = 48 then tl s0 else s0);
     c1 \<leftarrow> cur s1;
     (if 49 \<le> c1 \<and> c1 \<le> 57 then do { (n, _, s2) \<leftarrow> digits fp s1 (f_of_int fp 0) 0; Some (n, s2) }
      else Some (f_of_int fp 0, s1))
   }"

definition parse_fraction :: "'d fp \<Rightarrow> 'd \<Rightarrow> bytes \<Rightarrow> ('d \<times> int \<times> bytes) option" where
  "parse_fraction fp n s = do {
     c \<leftarrow> cur s;
     (if c = 46 then do {
        d \<leftarrow> cur (tl s);
        (if is_digit d then do { (n', k, s') \<leftarrow> digits fp (tl s) n 0; Some (n', - k, s') }
         else Some (n, 0, s))
      } else Some (n, 0, s))
   }"

definition parse_exponent :: "bytes \<Rightarrow> (int \<times> bytes) option" where
  "parse_exponent s = do {
     c \<leftarrow> cur s;
     (if c = 101 \<or> c = 69 then do {
        d \<leftarrow> cur (tl s);
        let (sg, s') = (if d = 43 then (1, tl (tl s)) else if d = 45 then (- 1, tl (tl s)) else (1, tl s));
        (e, r) \<leftarrow> exp_digits s' 0;
        Some (e * sg, r)
      } else Some (0, s))
   }"

definition parse_number :: "'d fp \<Rightarrow> bytes \<Rightarrow> ('d \<times> int \<times> bytes) option" where
  "parse_number fp num = do {
     c \<leftarrow> cur num;
     let (sign, s) = (if c = 45 then (- 1, tl num) else (1, num));
     (n, s1) \<leftarrow> parse_int_part fp s;
     (n1, scale, s2) \<leftarrow> parse_fraction fp n s1;
     (e, s3) \<leftarrow> parse_exponent s2;
     let d = f_mul fp (f_mul fp (f_of_int fp sign) n1) (f_pow10 fp (f_of_int fp (scale + e)));
     Some (d, f_to_int fp d, s3)
   }"

section \<open>Parsing strings\<close>

definition hex_digit :: "u8 \<Rightarrow> u32 option" where
  "hex_digit c =
     (if 48 \<le> c \<and> c \<le> 57 then Some (ucast c - 48)
      else if 65 \<le> c \<and> c \<le> 70 then Some (10 + ucast c - 65)
      else if 97 \<le> c \<and> c \<le> 102 then Some (10 + ucast c - 97) else None)"

fun hex_loop :: "nat \<Rightarrow> u32 \<Rightarrow> bytes \<Rightarrow> u32 option" where
  "hex_loop 0 h s = Some h"
| "hex_loop (Suc n) h [] = None"
| "hex_loop (Suc n) h (c # r) =
     (case hex_digit c of None \<Rightarrow> Some 0
      | Some v \<Rightarrow> if n = 0 then Some (h + v) else hex_loop n (push_bit 4 (h + v)) r)"

definition parse_hex4 :: "bytes \<Rightarrow> u32 option" where "parse_hex4 s = hex_loop 4 0 s"

definition firstByteMark :: "nat \<Rightarrow> u32" where
  "firstByteMark n = [0x00, 0x00, 0xC0, 0xE0, 0xF0, 0xF8, 0xFC] ! n"

text \<open>The fall-through \<open>switch (len)\<close>, which fills the bytes from the last to the first.\<close>

fun utf8_fill :: "nat \<Rightarrow> nat \<Rightarrow> u32 \<Rightarrow> bytes \<Rightarrow> bytes" where
  "utf8_fill len 0 uc acc = acc"
| "utf8_fill len (Suc 0) uc acc = ucast (uc OR firstByteMark len) # acc"
| "utf8_fill len (Suc (Suc n)) uc acc =
     utf8_fill len (Suc n) (drop_bit 6 uc) (ucast ((uc OR 0x80) AND 0xBF) # acc)"

definition utf8_len :: "u32 \<Rightarrow> nat" where
  "utf8_len uc = (if uc < 0x80 then 1 else if uc < 0x800 then 2 else if uc < 0x10000 then 3 else 4)"

definition utf8 :: "u32 \<Rightarrow> bytes" where
  "utf8 uc = utf8_fill (utf8_len uc) (utf8_len uc) uc []"

text \<open>A \<open>\u\<close> escape, from the \<open>u\<close> on: the bytes written and the text behind it.\<close>

definition parse_unicode :: "bytes \<Rightarrow> (bytes \<times> bytes) option" where
  "parse_unicode s = do {
     uc \<leftarrow> parse_hex4 (drop 1 s);
     let p = drop 4 s;
     (if (0xDC00 \<le> uc \<and> uc \<le> 0xDFFF) \<or> uc = 0 then Some ([], drop 1 p)
      else if 0xD800 \<le> uc \<and> uc \<le> 0xDBFF then do {
        c1 \<leftarrow> cur (drop 1 p);
        (if c1 \<noteq> BACKSLASH then Some ([], drop 1 p)
         else do {
           c2 \<leftarrow> cur (drop 2 p);
           (if c2 \<noteq> 117 then Some ([], drop 1 p)
            else do {
              uc2 \<leftarrow> parse_hex4 (drop 3 p);
              let p' = drop 6 p;
              (if uc2 < 0xDC00 \<or> 0xDFFF < uc2 then Some ([], drop 1 p')
               else Some (utf8 (0x10000 + (push_bit 10 (uc AND 0x3FF) OR (uc2 AND 0x3FF))), drop 1 p'))
            })
         })
      } else Some (utf8 uc, drop 1 p))
   }"

text \<open>The first loop computes the size of the copy.\<close>

fun string_len :: "bytes \<Rightarrow> nat \<Rightarrow> nat option" where
  "string_len [] n = None"
| "string_len (c # r) n =
     (if c = QUOTE \<or> c = 0 then Some n
      else if c = BACKSLASH then (case r of [] \<Rightarrow> None | _ # r' \<Rightarrow> string_len r' (n + 1))
      else string_len r (n + 1))"

definition put :: "nat \<Rightarrow> bytes \<Rightarrow> bytes \<Rightarrow> bytes option" where
  "put cap bs out = (if length out + length bs \<le> cap then Some (out @ bs) else None)"

definition unescape :: "u8 \<Rightarrow> u8" where
  "unescape c = (if c = 98 then 8 else if c = 102 then 12 else if c = 110 then 10
     else if c = 114 then 13 else if c = 116 then 9 else c)"

lemma parse_unicode_shorter: "parse_unicode s = Some (bs, r) \<Longrightarrow> s \<noteq> [] \<Longrightarrow> length r < length s"
  by (cases s) (auto simp: parse_unicode_def Let_def bind_eq_Some_conv split: if_splits)

text \<open>The second loop copies into the string of size \<open>cap\<close>.\<close>

function string_copy :: "nat \<Rightarrow> bytes \<Rightarrow> bytes \<Rightarrow> (bytes \<times> bytes) option" where
  "string_copy cap s out =
     (case s of [] \<Rightarrow> None
      | c # r \<Rightarrow>
        if c = QUOTE \<or> c = 0 then Some (out, s)
        else if c \<noteq> BACKSLASH then
          (case put cap [c] out of None \<Rightarrow> None | Some out' \<Rightarrow> string_copy cap r out')
        else (case r of [] \<Rightarrow> None
          | e # r' \<Rightarrow>
            if e = 117 then
              (case parse_unicode r of None \<Rightarrow> None
               | Some (bs, r2) \<Rightarrow> (case put cap bs out of None \<Rightarrow> None | Some out' \<Rightarrow> string_copy cap r2 out'))
            else (case put cap [unescape e] out of None \<Rightarrow> None | Some out' \<Rightarrow> string_copy cap r' out')))"
  by pat_completeness auto
termination
  by (relation "measure (\<lambda>(cap, s, out). length s)") (auto dest: parse_unicode_shorter)

declare string_copy.simps [simp del]

definition parse_string :: "(nat \<Rightarrow> bool) \<Rightarrow> bytes \<Rightarrow> (bytes \<times> bytes) proc" where
  "parse_string mal s =
     pbind (plift (cur s)) (\<lambda>c.
       if c \<noteq> QUOTE then perror s
       else pbind (plift (string_len (tl s) 0)) (\<lambda>len.
         pbind (palloc mal) (\<lambda>_.
         pbind (plift (do {
             (out, r) \<leftarrow> string_copy (len + 1) (tl s) [];
             _ \<leftarrow> put (len + 1) [0] out;
             d \<leftarrow> cur r;
             Some (out, if d = QUOTE then tl r else r)
           })) pret)))"

section \<open>Parsing values\<close>

text \<open>The recursion depth and the loops are bounded by the fuel, which is undefined when used up;
  every call consumes a character, so the length of the text suffices.\<close>

definition word_null :: bytes where "word_null = [110, 117, 108, 108]"
definition word_false :: bytes where "word_false = [102, 97, 108, 115, 101]"
definition word_true :: bytes where "word_true = [116, 114, 117, 101]"

text \<open>Each body takes the functions it calls as arguments; the recursion below ties them together.
  \<open>array_loop\<close> and \<open>object_loop\<close> are the \<open>while (*value==',')\<close> loops, from an item on.\<close>

type_synonym 'd pfun = "'d cJSON \<Rightarrow> bytes \<Rightarrow> ('d cJSON \<times> bytes) proc"

type_synonym 'd pitems = "bytes \<Rightarrow> ('d cJSON list \<times> bytes) proc"

definition parse_value_body ::
  "'d fp \<Rightarrow> (nat \<Rightarrow> bool) \<Rightarrow> 'd pfun \<Rightarrow> 'd pfun \<Rightarrow> 'd pfun" where
  "parse_value_body fp mal parr pobj item value =
     (case item of CJSON ty vs vi vd nm ch \<Rightarrow>
      pbind (plift (strncmp_eq word_null value)) (\<lambda>b1.
      if b1 then pret (CJSON cJSON_NULL vs vi vd nm ch, drop 4 value) else
      pbind (plift (strncmp_eq word_false value)) (\<lambda>b2.
      if b2 then pret (CJSON cJSON_False vs vi vd nm ch, drop 5 value) else
      pbind (plift (strncmp_eq word_true value)) (\<lambda>b3.
      if b3 then pret (CJSON cJSON_True vs 1 vd nm ch, drop 4 value) else
      pbind (plift (cur value)) (\<lambda>c.
      if c = QUOTE then pbind (parse_string mal value) (\<lambda>(s, r). pret (CJSON cJSON_String (Some s) vi vd nm ch, r))
      else if c = 45 \<or> is_digit c then
        pbind (plift (parse_number fp value)) (\<lambda>(d, i, r). pret (CJSON cJSON_Number vs i d nm ch, r))
      else if c = 91 then parr item value
      else if c = 123 then pobj item value
      else perror value)))))"

definition parse_array_body :: "'d pitems \<Rightarrow> 'd pfun" where
  "parse_array_body items item value =
     (case item of CJSON ty vs vi vd nm ch \<Rightarrow>
      pbind (plift (cur value)) (\<lambda>c0.
      if c0 \<noteq> 91 then perror value
      else pbind (plift (skip (tl value))) (\<lambda>v.
        pbind (plift (cur v)) (\<lambda>c.
        if c = 93 then pret (CJSON cJSON_Array vs vi vd nm ch, tl v)
        else pbind (items v) (\<lambda>(cs, r). pret (CJSON cJSON_Array vs vi vd nm cs, r))))))"

definition array_loop_body ::
  "'d fp \<Rightarrow> (nat \<Rightarrow> bool) \<Rightarrow> 'd pfun \<Rightarrow> 'd pitems \<Rightarrow> 'd pitems" where
  "array_loop_body fp mal pval items value =
     pbind (cJSON_New_Item fp mal) (\<lambda>child.
     pbind (plift (skip value)) (\<lambda>v.
     pbind (pval child v) (\<lambda>(c, r).
     pbind (plift (skip r)) (\<lambda>r'.
     pbind (plift (cur r')) (\<lambda>ch.
     if ch = 44 then pbind (items (tl r')) (\<lambda>(cs, r2). pret (c # cs, r2))
     else if ch = 93 then pret ([c], tl r')
     else perror r')))))"

definition parse_object_body :: "'d pitems \<Rightarrow> 'd pfun" where
  "parse_object_body items item value =
     (case item of CJSON ty vs vi vd nm ch \<Rightarrow>
      pbind (plift (cur value)) (\<lambda>c0.
      if c0 \<noteq> 123 then perror value
      else pbind (plift (skip (tl value))) (\<lambda>v.
        pbind (plift (cur v)) (\<lambda>c.
        if c = 125 then pret (CJSON cJSON_Object vs vi vd nm ch, tl v)
        else pbind (items v) (\<lambda>(cs, r). pret (CJSON cJSON_Object vs vi vd nm cs, r))))))"

text \<open>The name is parsed as a string value, then moved to \<open>string\<close>.\<close>

definition object_loop_body ::
  "'d fp \<Rightarrow> (nat \<Rightarrow> bool) \<Rightarrow> 'd pfun \<Rightarrow> 'd pitems \<Rightarrow> 'd pitems" where
  "object_loop_body fp mal pval items value =
     pbind (cJSON_New_Item fp mal) (\<lambda>child.
     pbind (plift (skip value)) (\<lambda>v.
     pbind (parse_string mal v) (\<lambda>(s, r).
     pbind (plift (skip r)) (\<lambda>r1.
     pbind (plift (cur r1)) (\<lambda>c1.
     if c1 \<noteq> 58 then perror r1
     else pbind (plift (skip (tl r1))) (\<lambda>v1.
       pbind (pval (CJSON cJSON_String None (cj_valueint child) (cj_valuedouble child) (Some s) []) v1) (\<lambda>(c, r2).
       pbind (plift (skip r2)) (\<lambda>r3.
       pbind (plift (cur r3)) (\<lambda>ch.
       if ch = 44 then pbind (items (tl r3)) (\<lambda>(cs, r4). pret (c # cs, r4))
       else if ch = 125 then pret ([c], tl r3)
       else perror r3)))))))))"

fun parse_value :: "'d fp \<Rightarrow> (nat \<Rightarrow> bool) \<Rightarrow> nat \<Rightarrow> 'd pfun"
  and parse_array :: "'d fp \<Rightarrow> (nat \<Rightarrow> bool) \<Rightarrow> nat \<Rightarrow> 'd pfun"
  and array_loop :: "'d fp \<Rightarrow> (nat \<Rightarrow> bool) \<Rightarrow> nat \<Rightarrow> 'd pitems"
  and parse_object :: "'d fp \<Rightarrow> (nat \<Rightarrow> bool) \<Rightarrow> nat \<Rightarrow> 'd pfun"
  and object_loop :: "'d fp \<Rightarrow> (nat \<Rightarrow> bool) \<Rightarrow> nat \<Rightarrow> 'd pitems"
where
  "parse_value fp mal 0 = (\<lambda>item value. plift None)"
| "parse_value fp mal (Suc k) = parse_value_body fp mal (parse_array fp mal k) (parse_object fp mal k)"
| "parse_array fp mal 0 = (\<lambda>item value. plift None)"
| "parse_array fp mal (Suc k) = parse_array_body (array_loop fp mal k)"
| "array_loop fp mal 0 = (\<lambda>value. plift None)"
| "array_loop fp mal (Suc k) = array_loop_body fp mal (parse_value fp mal k) (array_loop fp mal k)"
| "parse_object fp mal 0 = (\<lambda>item value. plift None)"
| "parse_object fp mal (Suc k) = parse_object_body (object_loop fp mal k)"
| "object_loop fp mal 0 = (\<lambda>value. plift None)"
| "object_loop fp mal (Suc k) = object_loop_body fp mal (parse_value fp mal k) (object_loop fp mal k)"

definition cJSON_ParseWithOpts ::
  "'d fp \<Rightarrow> (nat \<Rightarrow> bool) \<Rightarrow> bytes \<Rightarrow> bool \<Rightarrow> nat \<Rightarrow> ((('d cJSON \<times> bytes) option) \<times> pst) option" where
  "cJSON_ParseWithOpts fp mal value require_null_terminated allocs =
     pbind (cJSON_New_Item fp mal) (\<lambda>c.
     pbind (plift (skip value)) (\<lambda>v.
     pbind (parse_value fp mal (3 * length value) c v) (\<lambda>(item, e).
     if require_null_terminated then
       pbind (plift (skip e)) (\<lambda>e'.
       pbind (plift (cur e')) (\<lambda>ch. if ch \<noteq> 0 then perror e' else pret (item, e')))
     else pret (item, e)))) (allocs, None)"

definition cJSON_Parse :: "'d fp \<Rightarrow> (nat \<Rightarrow> bool) \<Rightarrow> bytes \<Rightarrow> nat \<Rightarrow> ((('d cJSON \<times> bytes) option) \<times> pst) option" where
  "cJSON_Parse fp mal value allocs = cJSON_ParseWithOpts fp mal value False allocs"

end
