(* ===== verification/Cjson_Print.thy ===== *)
theory Cjson_Print
  imports Cjson
begin

text \<open>
  The printer of \<open>cJSON.c\<close> without a print buffer (\<open>p == 0\<close>).  A string is the list of its characters
  before the NUL byte.  A string under construction is the list of the bytes written so far and its
  allocated size \<open>cap\<close>; a write behind it is undefined behaviour.
  \<open>render\<close> is the text that the printer is meant to produce.
\<close>

section \<open>Formatting\<close>

definition cstr :: "bytes \<Rightarrow> bytes" where "cstr s = takeWhile (\<lambda>c. c \<noteq> 0) s"

fun dec_nat :: "nat \<Rightarrow> bytes" where
  "dec_nat n = (if n < 10 then [of_nat (48 + n)] else dec_nat (n div 10) @ [of_nat (48 + n mod 10)])"

declare dec_nat.simps [simp del]

definition fmt_d :: "int \<Rightarrow> bytes" where
  "fmt_d i = (if i < 0 then 45 # dec_nat (nat (- i)) else dec_nat (nat i))"

definition hexchar :: "nat \<Rightarrow> u8" where
  "hexchar n = (if n < 10 then of_nat (48 + n) else of_nat (87 + n))"

text \<open>\<open>"u%04x"\<close> of a token, which is a byte.\<close>

definition fmt_u04x :: "u8 \<Rightarrow> bytes" where
  "fmt_u04x c = [117, 48, 48, hexchar (unat c div 16), hexchar (unat c mod 16)]"

text \<open>A write that is terminated by a NUL byte, which the next write overwrites.\<close>

definition put0 :: "nat \<Rightarrow> bytes \<Rightarrow> bytes \<Rightarrow> bytes option" where
  "put0 cap bs out = do { _ \<leftarrow> put cap (bs @ [0]) out; put cap bs out }"

definition cJSON_strdup :: "(nat \<Rightarrow> bool) \<Rightarrow> bytes \<Rightarrow> bytes proc" where
  "cJSON_strdup mal s = pbind (palloc mal) (\<lambda>_. plift (put0 (length s + 1) s []))"

section \<open>Numbers and strings\<close>

text \<open>The allocated size, and the text written into it.\<close>

definition number_size :: "'d fp \<Rightarrow> int \<Rightarrow> 'd \<Rightarrow> nat" where
  "number_size fp i d = (if f_is_zero fp d then 2 else if f_is_int fp i d then 21 else 64)"

definition number_text :: "'d fp \<Rightarrow> int \<Rightarrow> 'd \<Rightarrow> bytes" where
  "number_text fp i d = (if f_is_zero fp d then [48] else if f_is_int fp i d then fmt_d i
     else if f_is_whole fp d then f_print_whole fp d
     else if f_is_extreme fp d then f_print_exp fp d else f_print_fix fp d)"

definition print_number :: "'d fp \<Rightarrow> (nat \<Rightarrow> bool) \<Rightarrow> int \<Rightarrow> 'd \<Rightarrow> bytes proc" where
  "print_number fp mal i d =
     pbind (palloc mal) (\<lambda>_. plift (put0 (number_size fp i d) (number_text fp i d) []))"

definition flagged :: "u8 \<Rightarrow> bool" where
  "flagged c \<longleftrightarrow> (0 < c \<and> c < 32) \<or> c = QUOTE \<or> c = BACKSLASH"

definition is_short :: "u8 \<Rightarrow> bool" where
  "is_short c \<longleftrightarrow> c \<in> {QUOTE, BACKSLASH, 8, 12, 10, 13, 9}"

fun esc_len :: "bytes \<Rightarrow> nat \<Rightarrow> nat" where
  "esc_len [] n = n"
| "esc_len (c # r) n = esc_len r (n + 1 + (if is_short c then 1 else if c < 32 then 5 else 0))"

text \<open>The character behind the backslash.\<close>

definition short_char :: "u8 \<Rightarrow> u8 option" where
  "short_char c = (if c = BACKSLASH then Some BACKSLASH else if c = QUOTE then Some QUOTE
     else if c = 8 then Some 98 else if c = 12 then Some 102 else if c = 10 then Some 110
     else if c = 13 then Some 114 else if c = 9 then Some 116 else None)"

fun esc_copy :: "nat \<Rightarrow> bytes \<Rightarrow> bytes \<Rightarrow> bytes option" where
  "esc_copy cap [] out = Some out"
| "esc_copy cap (c # r) out =
     (if 31 < c \<and> c \<noteq> QUOTE \<and> c \<noteq> BACKSLASH then do { o1 \<leftarrow> put cap [c] out; esc_copy cap r o1 }
      else do {
        o1 \<leftarrow> put cap [BACKSLASH] out;
        o2 \<leftarrow> (case short_char c of Some e \<Rightarrow> put cap [e] o1 | None \<Rightarrow> put0 cap (fmt_u04x c) o1);
        esc_copy cap r o2
      })"

text \<open>The size that is allocated for a string, and the text written into a space of \<open>cap\<close> bytes.\<close>

definition string_size :: "bytes \<Rightarrow> nat" where
  "string_size s = (if \<not> list_ex flagged s then length s + 3 else esc_len s 0 + 3)"

definition string_text :: "bytes \<Rightarrow> nat \<Rightarrow> bytes option" where
  "string_text s cap =
     (if \<not> list_ex flagged s then do {
        o1 \<leftarrow> put cap [QUOTE] [];
        o2 \<leftarrow> put0 cap s o1;
        put0 cap [QUOTE] o2 }
      else do {
        o1 \<leftarrow> put cap [QUOTE] [];
        o2 \<leftarrow> esc_copy cap s o1;
        put0 cap [QUOTE] o2 })"

text \<open>The loop that sets \<open>flag\<close> reads through \<open>str\<close> before the test for \<open>NULL\<close>.\<close>

definition print_string_ptr :: "(nat \<Rightarrow> bool) \<Rightarrow> bytes option \<Rightarrow> bytes proc" where
  "print_string_ptr mal str =
     (case str of None \<Rightarrow> plift None
      | Some s0 \<Rightarrow>
        let s = cstr s0 in pbind (palloc mal) (\<lambda>_. plift (string_text s (string_size s))))"

section \<open>Containers\<close>

definition array_sep :: "bool \<Rightarrow> bytes" where "array_sep fmt = (if fmt then [44, 32] else [44])"

definition tabs :: "bool \<Rightarrow> nat \<Rightarrow> bytes" where "tabs fmt n = (if fmt then replicate n 9 else [])"

fun array_compose :: "nat \<Rightarrow> bool \<Rightarrow> bytes list \<Rightarrow> bytes \<Rightarrow> bytes option" where
  "array_compose cap fmt [] out = Some out"
| "array_compose cap fmt (t # ts) out = do {
     o1 \<leftarrow> put cap t out;
     o2 \<leftarrow> (if ts = [] then Some o1 else put0 cap (array_sep fmt) o1);
     array_compose cap fmt ts o2
   }"

definition print_array :: "(nat \<Rightarrow> bool) \<Rightarrow> bool \<Rightarrow> bool \<Rightarrow> bytes list option proc \<Rightarrow> bytes proc" where
  "print_array mal fmt noch entries =
     (if noch then pbind (palloc mal) (\<lambda>_. plift (put0 3 [91, 93] []))
      else pbind (palloc mal) (\<lambda>_. pbind entries (\<lambda>es.
        case es of None \<Rightarrow> pnull
        | Some ts \<Rightarrow>
          let len = 5 + (\<Sum>t\<leftarrow>ts. length t + 2 + (if fmt then 1 else 0)) in
          pbind (palloc mal) (\<lambda>_. plift (do {
            o1 \<leftarrow> put0 len [91] [];
            o2 \<leftarrow> array_compose len fmt ts o1;
            put0 len [93] o2 })))))"

fun object_compose :: "nat \<Rightarrow> bool \<Rightarrow> nat \<Rightarrow> (bytes \<times> bytes) list \<Rightarrow> bytes \<Rightarrow> bytes option" where
  "object_compose cap fmt depth [] out = Some out"
| "object_compose cap fmt depth ((n, t) # es) out = do {
     o1 \<leftarrow> put cap (tabs fmt depth) out;
     o2 \<leftarrow> put cap n o1;
     o3 \<leftarrow> put cap (58 # tabs fmt 1) o2;
     o4 \<leftarrow> put0 cap t o3;
     o5 \<leftarrow> put0 cap ((if es = [] then [] else [44]) @ (if fmt then [10] else [])) o4;
     object_compose cap fmt depth es o5
   }"

text \<open>\<open>depth\<close> is the depth of the object itself; the code increments it before the loop.\<close>

definition print_object ::
  "(nat \<Rightarrow> bool) \<Rightarrow> bool \<Rightarrow> nat \<Rightarrow> bool \<Rightarrow> (bytes \<times> bytes) list option proc \<Rightarrow> bytes proc" where
  "print_object mal fmt depth noch entries =
     (if noch then
        let cap = (if fmt then depth + 4 else 3) in
        pbind (palloc mal) (\<lambda>_. plift (do {
          o1 \<leftarrow> put cap (123 # (if fmt then [10] else [])) [];
          o2 \<leftarrow> put cap (tabs fmt (depth - 1)) o1;
          put0 cap [125] o2 }))
      else pbind (palloc mal) (\<lambda>_. pbind (palloc mal) (\<lambda>_. pbind entries (\<lambda>r.
        case r of None \<Rightarrow> pnull
        | Some es \<Rightarrow>
          let d = depth + 1;
              len = 7 + (if fmt then d else 0)
                + (\<Sum>(n, t)\<leftarrow>es. length t + length n + 2 + (if fmt then 2 + d else 0)) in
          pbind (palloc mal) (\<lambda>_. plift (do {
            o1 \<leftarrow> put0 len (123 # (if fmt then [10] else [])) [];
            o2 \<leftarrow> object_compose len fmt d es o1;
            o3 \<leftarrow> put len (tabs fmt (d - 1)) o2;
            put0 len [125] o3 }))))))"

section \<open>Values\<close>

text \<open>A value, the loop over an array's items, and the loop over an object's items, which goes on after a
  failure.\<close>

fun print_value :: "'d fp \<Rightarrow> (nat \<Rightarrow> bool) \<Rightarrow> bool \<Rightarrow> nat \<Rightarrow> 'd cJSON \<Rightarrow> bytes proc"
  and array_entries :: "'d fp \<Rightarrow> (nat \<Rightarrow> bool) \<Rightarrow> bool \<Rightarrow> nat \<Rightarrow> 'd cJSON list \<Rightarrow> bytes list option proc"
  and object_entries ::
    "'d fp \<Rightarrow> (nat \<Rightarrow> bool) \<Rightarrow> bool \<Rightarrow> nat \<Rightarrow> 'd cJSON list \<Rightarrow> (bytes \<times> bytes) list option proc"
where
  "print_value fp mal fmt depth (CJSON ty vs vi vd nm ch) =
     (let k = ty mod 256 in
      if k = cJSON_NULL then cJSON_strdup mal word_null
      else if k = cJSON_False then cJSON_strdup mal word_false
      else if k = cJSON_True then cJSON_strdup mal word_true
      else if k = cJSON_Number then print_number fp mal vi vd
      else if k = cJSON_String then print_string_ptr mal vs
      else if k = cJSON_Array then print_array mal fmt (ch = []) (array_entries fp mal fmt (depth + 1) ch)
      else if k = cJSON_Object then print_object mal fmt depth (ch = []) (object_entries fp mal fmt (depth + 1) ch)
      else pnull)"
| "array_entries fp mal fmt depth [] = pret (Some [])"
| "array_entries fp mal fmt depth (c # cs) =
     pbind (ptry (print_value fp mal fmt depth c)) (\<lambda>ret.
       case ret of None \<Rightarrow> pret None
       | Some t \<Rightarrow> pbind (array_entries fp mal fmt depth cs) (\<lambda>ts. pret (map_option (\<lambda>l. t # l) ts)))"
| "object_entries fp mal fmt depth [] = pret (Some [])"
| "object_entries fp mal fmt depth (c # cs) =
     pbind (ptry (print_string_ptr mal (cj_string c))) (\<lambda>str.
     pbind (ptry (print_value fp mal fmt depth c)) (\<lambda>ret.
     pbind (object_entries fp mal fmt depth cs) (\<lambda>es.
       pret (do { n \<leftarrow> str; t \<leftarrow> ret; l \<leftarrow> es; Some ((n, t) # l) }))))"

definition cJSON_Print :: "'d fp \<Rightarrow> (nat \<Rightarrow> bool) \<Rightarrow> 'd cJSON \<Rightarrow> bytes proc" where
  "cJSON_Print fp mal item = print_value fp mal True 0 item"

definition cJSON_PrintUnformatted :: "'d fp \<Rightarrow> (nat \<Rightarrow> bool) \<Rightarrow> 'd cJSON \<Rightarrow> bytes proc" where
  "cJSON_PrintUnformatted fp mal item = print_value fp mal False 0 item"

section \<open>The text of an item\<close>

definition esc_char :: "u8 \<Rightarrow> bytes" where
  "esc_char c = (if 31 < c \<and> c \<noteq> QUOTE \<and> c \<noteq> BACKSLASH then [c]
     else BACKSLASH # (case short_char c of Some e \<Rightarrow> [e] | None \<Rightarrow> fmt_u04x c))"

definition render_string :: "bytes \<Rightarrow> bytes" where
  "render_string s = [QUOTE] @ concat (map esc_char (cstr s)) @ [QUOTE]"

fun join :: "bytes \<Rightarrow> bytes list \<Rightarrow> bytes" where
  "join sep [] = []"
| "join sep [t] = t"
| "join sep (t # u # ts) = t @ sep @ join sep (u # ts)"

fun render :: "'d fp \<Rightarrow> bool \<Rightarrow> nat \<Rightarrow> 'd cJSON \<Rightarrow> bytes" where
  "render fp fmt depth (CJSON ty vs vi vd nm ch) =
     (let k = ty mod 256; nl = (if fmt then [10] else []) in
      if k = cJSON_NULL then word_null
      else if k = cJSON_False then word_false
      else if k = cJSON_True then word_true
      else if k = cJSON_Number then number_text fp vi vd
      else if k = cJSON_String then render_string (the vs)
      else if k = cJSON_Array then [91] @ join (array_sep fmt) (map (render fp fmt (depth + 1)) ch) @ [93]
      else if ch = [] then [123] @ nl @ tabs fmt (depth - 1) @ [125]
      else [123] @ nl
        @ join ([44] @ nl)
            (map (\<lambda>c. tabs fmt (depth + 1) @ render_string (the (cj_string c)) @ [58] @ tabs fmt 1
                       @ render fp fmt (depth + 1) c) ch)
        @ nl @ tabs fmt depth @ [125])"

text \<open>The items that the printer takes: a known type, a string where the type has one, a name in an
  object, and numbers whose formatted text fits into the 64 bytes the code allocates.\<close>

definition printable_number :: "'d fp \<Rightarrow> int \<Rightarrow> 'd \<Rightarrow> bool" where
  "printable_number fp i d \<longleftrightarrow> f_is_zero fp d \<or> (f_is_int fp i d \<and> - (2 ^ 31) \<le> i \<and> i < 2 ^ 31)
     \<or> (\<not> f_is_int fp i d \<and> length (number_text fp i d) < 64 \<and> 0 \<notin> set (number_text fp i d))"

fun printable :: "'d fp \<Rightarrow> 'd cJSON \<Rightarrow> bool" where
  "printable fp (CJSON ty vs vi vd nm ch) \<longleftrightarrow>
     0 \<le> ty mod 256 \<and> ty mod 256 \<le> 6
     \<and> (ty mod 256 = cJSON_Number \<longrightarrow> printable_number fp vi vd)
     \<and> (ty mod 256 = cJSON_String \<longrightarrow> vs \<noteq> None)
     \<and> (ty mod 256 = cJSON_Object \<longrightarrow> (\<forall>c \<in> set ch. cj_string c \<noteq> None))
     \<and> (ty mod 256 = cJSON_Array \<or> ty mod 256 = cJSON_Object \<longrightarrow> (\<forall>c \<in> set ch. printable fp c))"

end
