(* ===== verification/Cjson_Items.thy ===== *)
theory Cjson_Items
  imports Cjson_Print
begin

unbundle bit_operations_syntax

text \<open>
  The operations on items of \<open>cJSON.c\<close>: looking up, adding, detaching, inserting and replacing the items
  of a container, creating and duplicating items, and \<open>cJSON_Minify\<close>.  The items of a container are a
  list; the items that the code frees or hands over are simply no longer part of it.
\<close>

section \<open>Looking up\<close>

definition cJSON_IsReference :: int where "cJSON_IsReference = 256"
definition cJSON_StringIsConst :: int where "cJSON_StringIsConst = 512"

definition to_lower :: "u8 \<Rightarrow> u8" where
  "to_lower c = (if 65 \<le> c \<and> c \<le> 90 then c + 32 else c)"

fun casecmp :: "bytes \<Rightarrow> bytes \<Rightarrow> int" where
  "casecmp [] [] = 0"
| "casecmp [] (d # s) = - uint (to_lower d)"
| "casecmp (c # r) [] = uint (to_lower c)"
| "casecmp (c # r) (d # s) =
     (if to_lower c = to_lower d then casecmp r s else uint (to_lower c) - uint (to_lower d))"

definition cJSON_strcasecmp :: "bytes option \<Rightarrow> bytes option \<Rightarrow> int" where
  "cJSON_strcasecmp s1 s2 =
     (case s1 of None \<Rightarrow> if s2 = None then 0 else 1
      | Some a \<Rightarrow> (case s2 of None \<Rightarrow> 1 | Some b \<Rightarrow> casecmp (cstr a) (cstr b)))"

definition cJSON_GetArraySize :: "'d cJSON \<Rightarrow> nat" where
  "cJSON_GetArraySize array = length (cj_child array)"

fun item_at :: "'d cJSON list \<Rightarrow> int \<Rightarrow> 'd cJSON option" where
  "item_at [] item = None"
| "item_at (c # cs) item = (if 0 < item then item_at cs (item - 1) else Some c)"

definition cJSON_GetArrayItem :: "'d cJSON \<Rightarrow> int \<Rightarrow> 'd cJSON option" where
  "cJSON_GetArrayItem array item = item_at (cj_child array) item"

fun item_named :: "'d cJSON list \<Rightarrow> bytes option \<Rightarrow> 'd cJSON option" where
  "item_named [] string = None"
| "item_named (c # cs) string =
     (if cJSON_strcasecmp (cj_string c) string \<noteq> 0 then item_named cs string else Some c)"

definition cJSON_GetObjectItem :: "'d cJSON \<Rightarrow> bytes option \<Rightarrow> 'd cJSON option" where
  "cJSON_GetObjectItem object string = item_named (cj_child object) string"

section \<open>Changing containers\<close>

definition set_child :: "'d cJSON \<Rightarrow> 'd cJSON list \<Rightarrow> 'd cJSON" where
  "set_child item cs = (case item of CJSON ty vs vi vd nm _ \<Rightarrow> CJSON ty vs vi vd nm cs)"

definition set_string :: "'d cJSON \<Rightarrow> bytes option \<Rightarrow> 'd cJSON" where
  "set_string item nm = (case item of CJSON ty vs vi vd _ ch \<Rightarrow> CJSON ty vs vi vd nm ch)"

definition set_type :: "'d cJSON \<Rightarrow> int \<Rightarrow> 'd cJSON" where
  "set_type item ty = (case item of CJSON _ vs vi vd nm ch \<Rightarrow> CJSON ty vs vi vd nm ch)"

definition cJSON_AddItemToArray :: "'d cJSON \<Rightarrow> 'd cJSON option \<Rightarrow> 'd cJSON" where
  "cJSON_AddItemToArray array item =
     (case item of None \<Rightarrow> array | Some i \<Rightarrow> set_child array (cj_child array @ [i]))"

definition cJSON_AddItemToObject ::
  "(nat \<Rightarrow> bool) \<Rightarrow> 'd cJSON \<Rightarrow> bytes \<Rightarrow> 'd cJSON option \<Rightarrow> 'd cJSON proc" where
  "cJSON_AddItemToObject mal object string item =
     (case item of None \<Rightarrow> pret object
      | Some i \<Rightarrow> pbind (ptry (cJSON_strdup mal (cstr string))) (\<lambda>nm.
          pret (cJSON_AddItemToArray object (Some (set_string i nm)))))"

definition cJSON_AddItemToObjectCS :: "'d cJSON \<Rightarrow> bytes \<Rightarrow> 'd cJSON option \<Rightarrow> 'd cJSON" where
  "cJSON_AddItemToObjectCS object string item =
     (case item of None \<Rightarrow> object
      | Some i \<Rightarrow> cJSON_AddItemToArray object
          (Some (set_type (set_string i (Some string)) (cj_type i OR cJSON_StringIsConst))))"

definition create_reference :: "'d fp \<Rightarrow> (nat \<Rightarrow> bool) \<Rightarrow> 'd cJSON \<Rightarrow> 'd cJSON proc" where
  "create_reference fp mal item =
     pbind (cJSON_New_Item fp mal) (\<lambda>_. pret (set_type (set_string item None) (cj_type item OR cJSON_IsReference)))"

definition cJSON_AddItemReferenceToArray ::
  "'d fp \<Rightarrow> (nat \<Rightarrow> bool) \<Rightarrow> 'd cJSON \<Rightarrow> 'd cJSON \<Rightarrow> 'd cJSON proc" where
  "cJSON_AddItemReferenceToArray fp mal array item =
     pbind (ptry (create_reference fp mal item)) (\<lambda>ref. pret (cJSON_AddItemToArray array ref))"

definition cJSON_AddItemReferenceToObject ::
  "'d fp \<Rightarrow> (nat \<Rightarrow> bool) \<Rightarrow> 'd cJSON \<Rightarrow> bytes \<Rightarrow> 'd cJSON \<Rightarrow> 'd cJSON proc" where
  "cJSON_AddItemReferenceToObject fp mal object string item =
     pbind (ptry (create_reference fp mal item)) (\<lambda>ref. cJSON_AddItemToObject mal object string ref)"

fun detach_at :: "'d cJSON list \<Rightarrow> int \<Rightarrow> 'd cJSON option \<times> 'd cJSON list" where
  "detach_at [] which = (None, [])"
| "detach_at (c # cs) which =
     (if 0 < which then (let (r, cs') = detach_at cs (which - 1) in (r, c # cs')) else (Some c, cs))"

definition cJSON_DetachItemFromArray :: "'d cJSON \<Rightarrow> int \<Rightarrow> 'd cJSON option \<times> 'd cJSON" where
  "cJSON_DetachItemFromArray array which =
     (let (r, cs) = detach_at (cj_child array) which in (r, set_child array cs))"

definition cJSON_DeleteItemFromArray :: "'d cJSON \<Rightarrow> int \<Rightarrow> 'd cJSON" where
  "cJSON_DeleteItemFromArray array which = snd (cJSON_DetachItemFromArray array which)"

fun index_named :: "'d cJSON list \<Rightarrow> bytes option \<Rightarrow> int \<Rightarrow> int option" where
  "index_named [] string i = None"
| "index_named (c # cs) string i =
     (if cJSON_strcasecmp (cj_string c) string \<noteq> 0 then index_named cs string (i + 1) else Some i)"

definition cJSON_DetachItemFromObject :: "'d cJSON \<Rightarrow> bytes option \<Rightarrow> 'd cJSON option \<times> 'd cJSON" where
  "cJSON_DetachItemFromObject object string =
     (case index_named (cj_child object) string 0 of Some i \<Rightarrow> cJSON_DetachItemFromArray object i
      | None \<Rightarrow> (None, object))"

definition cJSON_DeleteItemFromObject :: "'d cJSON \<Rightarrow> bytes option \<Rightarrow> 'd cJSON" where
  "cJSON_DeleteItemFromObject object string = snd (cJSON_DetachItemFromObject object string)"

fun insert_child :: "'d cJSON list \<Rightarrow> int \<Rightarrow> 'd cJSON \<Rightarrow> 'd cJSON list" where
  "insert_child [] which newitem = [newitem]"
| "insert_child (c # cs) which newitem =
     (if 0 < which then c # insert_child cs (which - 1) newitem else newitem # c # cs)"

definition cJSON_InsertItemInArray :: "'d cJSON \<Rightarrow> int \<Rightarrow> 'd cJSON \<Rightarrow> 'd cJSON" where
  "cJSON_InsertItemInArray array which newitem = set_child array (insert_child (cj_child array) which newitem)"

fun replace_at :: "'d cJSON list \<Rightarrow> int \<Rightarrow> 'd cJSON \<Rightarrow> 'd cJSON list" where
  "replace_at [] which newitem = []"
| "replace_at (c # cs) which newitem =
     (if 0 < which then c # replace_at cs (which - 1) newitem else newitem # cs)"

definition cJSON_ReplaceItemInArray :: "'d cJSON \<Rightarrow> int \<Rightarrow> 'd cJSON \<Rightarrow> 'd cJSON" where
  "cJSON_ReplaceItemInArray array which newitem = set_child array (replace_at (cj_child array) which newitem)"

definition cJSON_ReplaceItemInObject ::
  "(nat \<Rightarrow> bool) \<Rightarrow> 'd cJSON \<Rightarrow> bytes \<Rightarrow> 'd cJSON \<Rightarrow> 'd cJSON proc" where
  "cJSON_ReplaceItemInObject mal object string newitem =
     (case index_named (cj_child object) (Some string) 0 of
        Some i \<Rightarrow> pbind (ptry (cJSON_strdup mal (cstr string))) (\<lambda>nm.
          pret (cJSON_ReplaceItemInArray object i (set_string newitem nm)))
      | None \<Rightarrow> pret object)"

section \<open>Creating items\<close>

definition create :: "'d fp \<Rightarrow> (nat \<Rightarrow> bool) \<Rightarrow> int \<Rightarrow> 'd cJSON proc" where
  "create fp mal ty = pbind (cJSON_New_Item fp mal) (\<lambda>item. pret (set_type item ty))"

definition cJSON_CreateNull :: "'d fp \<Rightarrow> (nat \<Rightarrow> bool) \<Rightarrow> 'd cJSON proc" where
  "cJSON_CreateNull fp mal = create fp mal cJSON_NULL"
definition cJSON_CreateTrue :: "'d fp \<Rightarrow> (nat \<Rightarrow> bool) \<Rightarrow> 'd cJSON proc" where
  "cJSON_CreateTrue fp mal = create fp mal cJSON_True"
definition cJSON_CreateFalse :: "'d fp \<Rightarrow> (nat \<Rightarrow> bool) \<Rightarrow> 'd cJSON proc" where
  "cJSON_CreateFalse fp mal = create fp mal cJSON_False"
definition cJSON_CreateBool :: "'d fp \<Rightarrow> (nat \<Rightarrow> bool) \<Rightarrow> int \<Rightarrow> 'd cJSON proc" where
  "cJSON_CreateBool fp mal b = create fp mal (if b \<noteq> 0 then cJSON_True else cJSON_False)"
definition cJSON_CreateArray :: "'d fp \<Rightarrow> (nat \<Rightarrow> bool) \<Rightarrow> 'd cJSON proc" where
  "cJSON_CreateArray fp mal = create fp mal cJSON_Array"
definition cJSON_CreateObject :: "'d fp \<Rightarrow> (nat \<Rightarrow> bool) \<Rightarrow> 'd cJSON proc" where
  "cJSON_CreateObject fp mal = create fp mal cJSON_Object"

definition cJSON_CreateNumber :: "'d fp \<Rightarrow> (nat \<Rightarrow> bool) \<Rightarrow> 'd \<Rightarrow> 'd cJSON proc" where
  "cJSON_CreateNumber fp mal num =
     pbind (cJSON_New_Item fp mal) (\<lambda>_. pret (CJSON cJSON_Number None (f_to_int fp num) num None []))"

definition cJSON_CreateString :: "'d fp \<Rightarrow> (nat \<Rightarrow> bool) \<Rightarrow> bytes \<Rightarrow> 'd cJSON proc" where
  "cJSON_CreateString fp mal string =
     pbind (cJSON_New_Item fp mal) (\<lambda>_. pbind (ptry (cJSON_strdup mal (cstr string))) (\<lambda>s.
       pret (CJSON cJSON_String s 0 (f_of_int fp 0) None [])))"

text \<open>The loop of the \<open>cJSON_Create...Array\<close> functions: \<open>first\<close> is \<open>!i\<close>, \<open>p\<close> the last item, and
  \<open>suffix_object\<close> dereferences both its arguments.\<close>

fun create_loop :: "('x \<Rightarrow> 'd cJSON proc) \<Rightarrow> 'x list \<Rightarrow> bool \<Rightarrow> 'd cJSON option \<Rightarrow> 'd cJSON list \<Rightarrow> 'd cJSON list proc" where
  "create_loop mk [] first p cs = pret cs"
| "create_loop mk (x # xs) first p cs =
     pbind (ptry (mk x)) (\<lambda>n.
       if first then create_loop mk xs False n (case n of None \<Rightarrow> [] | Some c \<Rightarrow> [c])
       else (case (p, n) of (Some _, Some c) \<Rightarrow> create_loop mk xs False n (cs @ [c]) | _ \<Rightarrow> plift None))"

definition create_array :: "'d fp \<Rightarrow> (nat \<Rightarrow> bool) \<Rightarrow> ('x \<Rightarrow> 'd cJSON proc) \<Rightarrow> 'x list \<Rightarrow> 'd cJSON proc" where
  "create_array fp mal mk xs =
     pbind (cJSON_CreateArray fp mal) (\<lambda>a. pbind (create_loop mk xs True None []) (\<lambda>cs. pret (set_child a cs)))"

definition cJSON_CreateIntArray :: "'d fp \<Rightarrow> (nat \<Rightarrow> bool) \<Rightarrow> int list \<Rightarrow> 'd cJSON proc" where
  "cJSON_CreateIntArray fp mal numbers =
     create_array fp mal (\<lambda>n. cJSON_CreateNumber fp mal (f_of_int fp n)) numbers"

definition cJSON_CreateDoubleArray :: "'d fp \<Rightarrow> (nat \<Rightarrow> bool) \<Rightarrow> 'd list \<Rightarrow> 'd cJSON proc" where
  "cJSON_CreateDoubleArray fp mal numbers = create_array fp mal (cJSON_CreateNumber fp mal) numbers"

definition cJSON_CreateStringArray :: "'d fp \<Rightarrow> (nat \<Rightarrow> bool) \<Rightarrow> bytes list \<Rightarrow> 'd cJSON proc" where
  "cJSON_CreateStringArray fp mal strings = create_array fp mal (cJSON_CreateString fp mal) strings"

section \<open>Duplication\<close>

definition dup_string :: "(nat \<Rightarrow> bool) \<Rightarrow> bytes option \<Rightarrow> bytes option proc" where
  "dup_string mal s =
     (case s of None \<Rightarrow> pret None | Some t \<Rightarrow> pbind (cJSON_strdup mal (cstr t)) (\<lambda>u. pret (Some u)))"

fun cJSON_Duplicate :: "'d fp \<Rightarrow> (nat \<Rightarrow> bool) \<Rightarrow> bool \<Rightarrow> 'd cJSON \<Rightarrow> 'd cJSON proc"
  and duplicate_items :: "'d fp \<Rightarrow> (nat \<Rightarrow> bool) \<Rightarrow> 'd cJSON list \<Rightarrow> 'd cJSON list proc"
where
  "cJSON_Duplicate fp mal recurse (CJSON ty vs vi vd nm ch) =
     pbind (cJSON_New_Item fp mal) (\<lambda>_.
     pbind (dup_string mal vs) (\<lambda>vs'.
     pbind (dup_string mal nm) (\<lambda>nm'.
       if \<not> recurse then pret (CJSON (ty AND NOT cJSON_IsReference) vs' vi vd nm' [])
       else pbind (duplicate_items fp mal ch) (\<lambda>ch'.
         pret (CJSON (ty AND NOT cJSON_IsReference) vs' vi vd nm' ch')))))"
| "duplicate_items fp mal [] = pret []"
| "duplicate_items fp mal (c # cs) =
     pbind (cJSON_Duplicate fp mal True c) (\<lambda>c'. pbind (duplicate_items fp mal cs) (\<lambda>cs'. pret (c' # cs')))"

section \<open>Minification\<close>

text \<open>The text with its NUL byte; the result is what is written over it.\<close>

fun line_end :: "bytes \<Rightarrow> bytes" where
  "line_end [] = []"
| "line_end (c # r) = (if c \<noteq> 0 \<and> c \<noteq> 10 then line_end r else c # r)"

fun comment_end :: "bytes \<Rightarrow> bytes" where
  "comment_end [] = []"
| "comment_end (c # r) =
     (if c = 0 then c # r else if c = 42 \<and> r \<noteq> [] \<and> hd r = 47 then c # r else comment_end r)"

text \<open>A string literal behind its quote: what is copied, closing quote included, and the rest.\<close>

fun literal_end :: "bytes \<Rightarrow> (bytes \<times> bytes) option" where
  "literal_end [] = None"
| "literal_end (c # r) =
     (if c = 0 \<or> c = QUOTE then Some ([c], r)
      else if c = BACKSLASH then
        (case r of [] \<Rightarrow> None
         | e # r' \<Rightarrow> map_option (\<lambda>(w, s). (c # e # w, s)) (literal_end r'))
      else map_option (\<lambda>(w, s). (c # w, s)) (literal_end r))"

lemma line_end_length: "length (line_end s) \<le> length s"
  by (induction s) auto

lemma comment_end_length: "length (comment_end s) \<le> length s"
  by (induction s) auto

lemma literal_end_length: "literal_end s = Some (w, r) \<Longrightarrow> length r < length s"
  by (induction s arbitrary: w r rule: literal_end.induct) (fastforce split: if_splits list.splits)+

function minify :: "bytes \<Rightarrow> bytes option" where
  "minify s =
     (case s of [] \<Rightarrow> None
      | c # r \<Rightarrow>
        if c = 0 then Some [0]
        else if c = 32 \<or> c = 9 \<or> c = 13 \<or> c = 10 then minify r
        else if c = 47 \<and> r \<noteq> [] \<and> hd r = 47 then minify (line_end (tl r))
        else if c = 47 \<and> r \<noteq> [] \<and> hd r = 42 then minify (drop 2 (comment_end r))
        else if c = QUOTE then
          (case literal_end r of None \<Rightarrow> None
           | Some (w, r') \<Rightarrow> map_option (\<lambda>t. c # w @ t) (minify r'))
        else map_option (\<lambda>t. c # t) (minify r))"
  by pat_completeness auto
termination
proof (relation "measure length", goal_cases)
  case (3 s c r)
  then show ?case using line_end_length [of "tl r"] by (cases r) auto
next
  case (4 s c r)
  then show ?case using comment_end_length [of r] by auto
qed (auto dest: literal_end_length)

declare minify.simps [simp del]

definition cJSON_Minify :: "bytes \<Rightarrow> bytes option" where "cJSON_Minify json = minify json"

end
