(* ===== verification/Cjson_Printed.thy ===== *)
theory Cjson_Printed
  imports Cjson_Print
begin

text \<open>
  What the printer delivers: for every item it can print, either the text \<open>render\<close> or, when an allocation
  fails, \<open>NULL\<close>; it never writes behind a string it allocated.
\<close>

section \<open>Procedures that deliver a value\<close>

definition delivers :: "(nat \<Rightarrow> bool) \<Rightarrow> 'a proc \<Rightarrow> 'a \<Rightarrow> bool" where
  "delivers mal p t \<longleftrightarrow> (\<forall>st. \<exists>r st'. p st = Some (r, st') \<and> (r = Some t \<or> r = None \<and> \<not> (\<forall>n. mal n)))"

definition collects :: "(nat \<Rightarrow> bool) \<Rightarrow> 'a option proc \<Rightarrow> 'a \<Rightarrow> bool" where
  "collects mal p t \<longleftrightarrow>
     (\<forall>st. \<exists>r st'. p st = Some (Some r, st') \<and> (r = Some t \<or> r = None \<and> \<not> (\<forall>n. mal n)))"

lemma delivers_lift [simp]: "delivers mal (plift (Some t)) t"
  by (auto simp: delivers_def plift_def)

lemma delivers_alloc: "delivers mal (f ()) t \<Longrightarrow> delivers mal (pbind (palloc mal) f) t"
  unfolding delivers_def pbind_def palloc_def by (auto split: if_splits)

lemma collects_try: "delivers mal p t \<Longrightarrow> collects mal (ptry p) t"
  unfolding delivers_def collects_def ptry_def by (fastforce split: option.splits)

lemma collects_ret [simp]: "collects mal (pret (Some t)) t"
  by (simp add: collects_def pret_def)

text \<open>The next step is taken with the value or, after a failed allocation, with \<open>None\<close>.\<close>

lemma collects_bind:
  assumes "collects mal p t" and "collects mal (f (Some t)) u"
    and "\<not> (\<forall>n. mal n) \<Longrightarrow> collects mal (f None) u"
  shows "collects mal (pbind p f) u"
  unfolding collects_def
proof
  fix st
  obtain r st1 where p: "p st = Some (Some r, st1)" and r: "r = Some t \<or> r = None \<and> \<not> (\<forall>n. mal n)"
    using assms(1) unfolding collects_def by blast
  have "collects mal (f r) u" using r assms(2,3) by blast
  then show "\<exists>r st'. pbind p f st = Some (Some r, st') \<and> (r = Some u \<or> r = None \<and> \<not> (\<forall>n. mal n))"
    using p unfolding collects_def pbind_def by (simp del: split_paired_All split_paired_Ex)
qed

lemma collects_fail: "\<not> (\<forall>n. mal n) \<Longrightarrow> collects mal (pret None) t"
  by (simp add: collects_def pret_def)

lemma delivers_collected:
  assumes "collects mal p t" and "delivers mal (f (Some t)) u" and "f None = pnull"
  shows "delivers mal (pbind p f) u"
  unfolding delivers_def
proof
  fix st
  obtain r st1 where p: "p st = Some (Some r, st1)" and r: "r = Some t \<or> r = None \<and> \<not> (\<forall>n. mal n)"
    using assms(1) unfolding collects_def by blast
  have "delivers mal (f r) u"
    using r assms(2,3) by (auto simp: delivers_def pnull_def)
  then show "\<exists>r st'. pbind p f st = Some (r, st') \<and> (r = Some u \<or> r = None \<and> \<not> (\<forall>n. mal n))"
    using p unfolding delivers_def pbind_def by (simp del: split_paired_All split_paired_Ex)
qed

section \<open>Writing into a string\<close>

lemma put_fits [simp]: "length out + length bs \<le> cap \<Longrightarrow> put cap bs out = Some (out @ bs)"
  by (simp add: put_def)

lemma put0_fits [simp]: "length out + length bs < cap \<Longrightarrow> put0 cap bs out = Some (out @ bs)"
  by (simp add: put0_def)

lemma strdup_delivers [simp]: "delivers mal (cJSON_strdup mal s) s"
  by (simp add: cJSON_strdup_def delivers_alloc)

lemma dec_nat_length: "n < 10 ^ k \<Longrightarrow> 0 < k \<Longrightarrow> length (dec_nat n) \<le> k"
proof (induction k arbitrary: n)
  case (Suc k)
  show ?case
  proof (cases "n < 10")
    case False
    then have "n div 10 < 10 ^ k" "0 < k" using Suc.prems by (cases k; auto)+
    then show ?thesis using Suc.IH [of "n div 10"] False by (subst dec_nat.simps) simp
  qed (subst dec_nat.simps, simp)
qed simp

lemma fmt_d_length:
  assumes "- (2 ^ 31) \<le> i" "i < 2 ^ 31"
  shows "length (fmt_d i) < 21"
proof -
  have "nat i < 10 ^ 11" "nat (- i) < 10 ^ 11" using assms by simp_all
  from this [THEN dec_nat_length] show ?thesis by (cases "i < 0") (simp_all add: fmt_d_def)
qed

lemma number_delivers:
  "printable_number fp i d \<Longrightarrow> delivers mal (print_number fp mal i d) (number_text fp i d)"
  using fmt_d_length [of i]
  by (auto simp: print_number_def number_text_def number_size_def printable_number_def intro!: delivers_alloc)

lemma short_char_None: "short_char c = None \<longleftrightarrow> \<not> is_short c"
  by (simp add: short_char_def is_short_def)

lemma length_esc_char: "length (esc_char c) = 1 + (if is_short c then 1 else if c < 32 then 5 else 0)"
proof (cases "is_short c")
  case True
  then show ?thesis
    unfolding is_short_def by (elim insertE emptyE) (simp_all add: esc_char_def short_char_def is_short_def)
next
  case False
  then have "c \<noteq> QUOTE" "c \<noteq> BACKSLASH" "short_char c = None" "31 < c \<longleftrightarrow> \<not> c < 32"
    by (auto simp: short_char_None is_short_def word_less_nat_alt)
  then show ?thesis using False by (simp add: esc_char_def fmt_u04x_def)
qed

lemma esc_len_eq: "esc_len s n = n + length (concat (map esc_char s))"
  by (induction s arbitrary: n) (simp_all add: length_esc_char del: One_nat_def)

lemma esc_copy_eq:
  "length out + length (concat (map esc_char s)) < cap \<Longrightarrow>
   esc_copy cap s out = Some (out @ concat (map esc_char s))"
proof (induction s arbitrary: out)
  case (Cons c s)
  show ?case
  proof (cases "31 < c \<and> c \<noteq> QUOTE \<and> c \<noteq> BACKSLASH")
    case True
    then show ?thesis using Cons.IH [of "out @ [c]"] Cons.prems by (simp add: esc_char_def)
  next
    case False
    then show ?thesis using Cons.IH [of "out @ esc_char c"] Cons.prems
      by (auto simp: esc_char_def split: option.splits)
  qed
qed simp

lemma unflagged: "c \<noteq> 0 \<Longrightarrow> \<not> flagged c \<Longrightarrow> esc_char c = [c]"
  using unat_eq_zero [of c] by (auto simp: flagged_def esc_char_def word_less_nat_alt)

lemma cstr_nonzero: "c \<in> set (cstr s) \<Longrightarrow> c \<noteq> 0"
  unfolding cstr_def by (blast dest: set_takeWhileD)

lemma unflagged_text: "\<not> list_ex flagged (cstr s) \<Longrightarrow> concat (map esc_char (cstr s)) = cstr s"
proof -
  assume "\<not> list_ex flagged (cstr s)"
  then have "concat (map esc_char (cstr s)) = concat (map (\<lambda>c. [c]) (cstr s))"
    using unflagged cstr_nonzero
    by (intro arg_cong [of _ _ concat] map_cong) (auto simp: list_ex_iff)
  then show ?thesis by simp
qed

lemma string_text_eq:
  "string_size (cstr s) \<le> cap \<Longrightarrow> string_text (cstr s) cap = Some (render_string s)"
  using unflagged_text [of s]
  by (auto simp: string_text_def string_size_def esc_len_eq esc_copy_eq render_string_def split: if_splits)

lemma string_size_eq: "string_size (cstr s) = length (render_string s) + 1"
  using unflagged_text [of s] by (auto simp: string_size_def esc_len_eq render_string_def)

lemma string_delivers: "delivers mal (print_string_ptr mal (Some s)) (render_string s)"
  by (auto simp: print_string_ptr_def Let_def string_text_eq intro!: delivers_alloc)

section \<open>Containers\<close>

lemma join_Cons: "join sep (t # ts) = t @ (if ts = [] then [] else sep @ join sep ts)"
  by (cases ts) simp_all

lemma join_length: "length (join sep ts) \<le> (\<Sum>t\<leftarrow>ts. length t + length sep)"
  by (induction ts) (auto simp: join_Cons simp del: join.simps(2,3))

lemma array_compose_eq:
  "length out + length (join (array_sep fmt) ts) < cap \<Longrightarrow>
   array_compose cap fmt ts out = Some (out @ join (array_sep fmt) ts)"
proof (induction ts arbitrary: out)
  case (Cons t ts)
  show ?case
  proof (cases "ts = []")
    case False
    then show ?thesis
      using Cons.IH [of "out @ t @ array_sep fmt"] Cons.prems
      by (simp add: join_Cons del: join.simps(2,3))
  qed (use Cons.prems in simp)
qed simp

lemma array_sum: "(\<Sum>t\<leftarrow>ts. length t + 2 + (if fmt then 1 else 0))
    = (\<Sum>t\<leftarrow>ts. length t + length (array_sep fmt)) + length ts"
  by (induction ts) (auto simp: array_sep_def)

lemma array_delivers:
  assumes "noch \<Longrightarrow> ts = []" "\<not> noch \<Longrightarrow> collects mal entries ts"
  shows "delivers mal (print_array mal fmt noch entries) ([91] @ join (array_sep fmt) ts @ [93])"
proof (cases noch)
  case False
  let ?len = "5 + (\<Sum>t\<leftarrow>ts. length t + 2 + (if fmt then 1 else 0))"
  have l: "length (join (array_sep fmt) ts) + 5 \<le> ?len"
    using join_length [of "array_sep fmt" ts] unfolding array_sum by simp
  have "array_compose ?len fmt ts [91] = Some ([91] @ join (array_sep fmt) ts)"
    using l by (intro array_compose_eq) simp
  then show ?thesis
    using False l assms(2)
    unfolding print_array_def Let_def
    by (auto intro!: delivers_alloc delivers_collected [where t = ts] simp del: array_compose.simps)
qed (use assms(1) in \<open>auto simp: print_array_def intro!: delivers_alloc\<close>)

definition member_text :: "bool \<Rightarrow> nat \<Rightarrow> bytes \<times> bytes \<Rightarrow> bytes" where
  "member_text fmt d = (\<lambda>(n, t). tabs fmt d @ n @ [58] @ tabs fmt 1 @ t)"

definition nl :: "bool \<Rightarrow> bytes" where "nl fmt = (if fmt then [10] else [])"

lemma tabs_length [simp]: "length (tabs fmt d) = (if fmt then d else 0)"
  by (simp add: tabs_def)

lemma nl_length [simp]: "length (nl fmt) = (if fmt then 1 else 0)"
  by (simp add: nl_def)

lemma object_compose_eq:
  "length out + length (join ([44] @ nl fmt) (map (member_text fmt d) es)) + length (nl fmt) < cap \<Longrightarrow>
   es \<noteq> [] \<Longrightarrow>
   object_compose cap fmt d es out = Some (out @ join ([44] @ nl fmt) (map (member_text fmt d) es) @ nl fmt)"
proof (induction es arbitrary: out)
  case (Cons e es)
  obtain n t where e: "e = (n, t)" by fastforce
  have mt: "member_text fmt d e = tabs fmt d @ n @ 58 # tabs fmt 1 @ t" by (simp add: member_text_def e)
  show ?case
  proof (cases "es = []")
    case True
    then show ?thesis using Cons.prems by (simp add: e mt [unfolded e] nl_def [symmetric] split del: if_split)
  next
    case False
    then show ?thesis
      using Cons.IH [of "out @ member_text fmt d e @ [44] @ nl fmt"] Cons.prems
      by (simp add: e mt [unfolded e] join_Cons nl_def [symmetric] del: join.simps(2,3) split del: if_split)
  qed
qed simp

lemma object_sum:
  "(\<Sum>(n, t)\<leftarrow>es. length t + length n + 2 + (if fmt then 2 + d else 0))
    = (\<Sum>t\<leftarrow>map (member_text fmt d) es. length t + length ([44] @ nl fmt))"
  by (induction es) (auto simp: member_text_def)

lemma object_delivers:
  assumes "noch \<longleftrightarrow> es = []" "\<not> noch \<Longrightarrow> collects mal entries es"
  shows "delivers mal (print_object mal fmt depth noch entries)
    (if es = [] then [123] @ nl fmt @ tabs fmt (depth - 1) @ [125]
     else [123] @ nl fmt @ join ([44] @ nl fmt) (map (member_text fmt (depth + 1)) es) @ nl fmt
            @ tabs fmt depth @ [125])"
proof (cases noch)
  case True
  then show ?thesis using assms(1)
    by (auto simp: print_object_def Let_def nl_def intro!: delivers_alloc)
next
  case False
  let ?d = "depth + 1"
  let ?len = "7 + (if fmt then ?d else 0)
    + (\<Sum>(n, t)\<leftarrow>es. length t + length n + 2 + (if fmt then 2 + ?d else 0))"
  let ?j = "join ([44] @ nl fmt) (map (member_text fmt ?d) es)"
  have l: "length ?j + 7 + (if fmt then ?d else 0) \<le> ?len"
    using join_length [of "[44] @ nl fmt" "map (member_text fmt ?d) es"] unfolding object_sum by simp
  have "object_compose ?len fmt ?d es ([123] @ nl fmt) = Some (([123] @ nl fmt) @ ?j @ nl fmt)"
    using l False assms(1) by (intro object_compose_eq) (auto split: if_splits)
  then have "do { o1 \<leftarrow> put0 ?len (123 # (if fmt then [10] else [])) [];
            o2 \<leftarrow> object_compose ?len fmt ?d es o1;
            o3 \<leftarrow> put ?len (tabs fmt (?d - 1)) o2;
            put0 ?len [125] o3 } = Some ([123] @ nl fmt @ ?j @ nl fmt @ tabs fmt depth @ [125])"
    using l by (simp add: nl_def [symmetric] split: if_splits)
  then show ?thesis
    using False assms
    unfolding print_object_def Let_def
    by (auto intro!: delivers_alloc delivers_collected [where t = es] simp del: object_compose.simps)
qed

section \<open>Values\<close>

lemma kind_cases: "0 \<le> m \<Longrightarrow> m \<le> (6::int) \<Longrightarrow>
    m = 0 \<or> m = 1 \<or> m = 2 \<or> m = 3 \<or> m = 4 \<or> m = 5 \<or> m = 6"
  by presburger

lemma render_object:
  "ty mod 256 = cJSON_Object \<Longrightarrow> render fp fmt depth (CJSON ty vs vi vd nm ch) =
     (if ch = [] then [123] @ nl fmt @ tabs fmt (depth - 1) @ [125]
      else [123] @ nl fmt @ join ([44] @ nl fmt) (map (member_text fmt (depth + 1))
             (map (\<lambda>c. (render_string (the (cj_string c)), render fp fmt (depth + 1) c)) ch))
           @ nl fmt @ tabs fmt depth @ [125])"
  by (auto simp: Let_def cjson_types member_text_def nl_def comp_def)

text \<open>The printer delivers the text of every printable item.\<close>

lemma print_delivers:
  "printable fp item \<Longrightarrow> delivers mal (print_value fp mal fmt depth item) (render fp fmt depth item)"
  "\<forall>c \<in> set cs. printable fp c \<Longrightarrow>
   collects mal (array_entries fp mal fmt depth cs) (map (render fp fmt depth) cs)"
  "\<forall>c \<in> set cs. printable fp c \<and> cj_string c \<noteq> None \<Longrightarrow>
   collects mal (object_entries fp mal fmt depth cs)
     (map (\<lambda>c. (render_string (the (cj_string c)), render fp fmt depth c)) cs)"
proof (induction fp mal fmt depth item and fp mal fmt depth cs and fp mal fmt depth cs
    rule: print_value_array_entries_object_entries.induct)
  case (1 fp mal fmt depth ty vs vi vd nm ch)
  consider "ty mod 256 = 0" | "ty mod 256 = 1" | "ty mod 256 = 2" | "ty mod 256 = cJSON_Number"
    | "ty mod 256 = cJSON_String" | "ty mod 256 = cJSON_Array" | "ty mod 256 = cJSON_Object"
    using kind_cases [of "ty mod 256"] 1(3) unfolding cjson_types by auto
  then show ?case
  proof cases
    case 6
    then have "collects mal (array_entries fp mal fmt (depth + 1) ch) (map (render fp fmt (depth + 1)) ch)"
      using 1 by (auto simp: cjson_types)
    then have "delivers mal (print_array mal fmt (ch = []) (array_entries fp mal fmt (depth + 1) ch))
        ([91] @ join (array_sep fmt) (map (render fp fmt (depth + 1)) ch) @ [93])"
      by (intro array_delivers) auto
    then show ?thesis using 6 by (simp add: Let_def cjson_types)
  next
    case 7
    let ?es = "map (\<lambda>c. (render_string (the (cj_string c)), render fp fmt (depth + 1) c)) ch"
    have "collects mal (object_entries fp mal fmt (depth + 1) ch) ?es"
      using 1 7 by (auto simp: cjson_types)
    then have "delivers mal (print_object mal fmt depth (ch = []) (object_entries fp mal fmt (depth + 1) ch))
        (render fp fmt depth (CJSON ty vs vi vd nm ch))"
      using object_delivers [of "ch = []" ?es mal "object_entries fp mal fmt (depth + 1) ch" fmt depth]
      unfolding render_object [OF 7] by (auto split: if_splits)
    then show ?thesis using 7 by (simp add: Let_def cjson_types del: render.simps)
  qed (use 1(3) in \<open>auto simp: Let_def cjson_types number_delivers string_delivers\<close>)
next
  case (3 fp mal fmt depth c cs)
  show ?case
    unfolding array_entries.simps list.map
  proof (rule collects_bind [where t = "render fp fmt depth c"])
    show "collects mal (ptry (print_value fp mal fmt depth c)) (render fp fmt depth c)"
      using 3 by (intro collects_try) simp
    have "collects mal (array_entries fp mal fmt depth cs) (map (render fp fmt depth) cs)"
      using 3 by simp
    then show "collects mal (case Some (render fp fmt depth c) of None \<Rightarrow> pret None
       | Some t \<Rightarrow> pbind (array_entries fp mal fmt depth cs) (\<lambda>ts. pret (map_option (\<lambda>l. t # l) ts)))
       (render fp fmt depth c # map (render fp fmt depth) cs)"
      by (auto intro!: collects_bind [where t = "map (render fp fmt depth) cs"] collects_fail)
  qed (auto intro: collects_fail)
next
  case (5 fp mal fmt depth c cs)
  let ?es = "map (\<lambda>c. (render_string (the (cj_string c)), render fp fmt depth c)) cs"
  obtain s where s: "cj_string c = Some s" using 5(3) by auto
  have v: "collects mal (ptry (print_value fp mal fmt depth c)) (render fp fmt depth c)"
    using 5 by (intro collects_try) simp
  have n: "collects mal (ptry (print_string_ptr mal (cj_string c))) (render_string s)"
    using string_delivers s by (intro collects_try) simp
  have es: "collects mal (object_entries fp mal fmt depth cs) ?es" using 5 by simp
  show ?case
    unfolding object_entries.simps
    by (rule collects_bind [OF n]; rule collects_bind [OF v]; rule collects_bind [OF es])
      (auto simp: s intro: collects_fail)
qed auto

end
