(* ===== verification/Cjson_Roundtrip.thy ===== *)
theory Cjson_Roundtrip
  imports Cjson_Printed
begin

text \<open>
  Printing an item and parsing the text again: the parser reads back every item whose numbers are
  integers, formatted or not.
\<close>

section \<open>Procedures that succeed\<close>

definition yields :: "'a proc \<Rightarrow> 'a \<Rightarrow> bool" where
  "yields p t \<longleftrightarrow> (\<forall>st. \<exists>st'. p st = Some (Some t, st'))"

lemma yields_bind: "yields p t \<Longrightarrow> yields (f t) u \<Longrightarrow> yields (pbind p f) u"
  unfolding yields_def pbind_def by (fastforce split: option.splits)

lemma yields_ret [simp]: "yields (pret t) u \<longleftrightarrow> t = u"
  by (simp add: yields_def pret_def)

lemma yields_lift [simp]: "yields (plift x) t \<longleftrightarrow> x = Some t"
  by (auto simp: yields_def plift_def split: option.splits)

lemma yields_alloc: "\<forall>n. mal n \<Longrightarrow> yields (palloc mal) ()"
  by (simp add: yields_def palloc_def)

lemma yields_ret_bind [simp]: "pbind (pret t) f = f t"
  by (rule ext) (simp add: pbind_def pret_def)

abbreviation fresh :: "'d fp \<Rightarrow> int \<Rightarrow> bytes option \<Rightarrow> 'd cJSON" where
  "fresh fp ty nm \<equiv> CJSON ty None 0 (f_of_int fp 0) nm []"

lemma yields_New_Item: "\<forall>n. mal n \<Longrightarrow> yields (cJSON_New_Item fp mal) (fresh fp 0 None)"
  unfolding cJSON_New_Item_def by (rule yields_bind [OF yields_alloc]) simp_all

section \<open>White space\<close>

definition white :: "bytes \<Rightarrow> bool" where "white w \<longleftrightarrow> (\<forall>c \<in> set w. c \<noteq> 0 \<and> c \<le> 32)"

lemma skip_white: "white w \<Longrightarrow> skip (w @ r) = skip r"
  by (induction w) (auto simp: white_def)

lemma white_tabs [simp]: "white (tabs fmt d)"
  by (simp add: white_def tabs_def)

lemma white_nl [simp]: "white (nl fmt)"
  by (simp add: white_def nl_def)

lemma white_append [simp]: "white (v @ w) \<longleftrightarrow> white v \<and> white w"
  by (auto simp: white_def)

section \<open>Numbers\<close>

text \<open>Double arithmetic is exact on the integers an \<open>int\<close> holds (a scanned number also reaches
  \<open>2 ^ 31\<close> before its sign is applied), they convert back to \<open>int\<close> without change, and
  only 0 is zero.  Nothing is required of \<open>-0.0\<close> and of the conversion of larger numbers.\<close>

definition exact_ints :: "'d fp \<Rightarrow> bool" where
  "exact_ints fp \<longleftrightarrow>
     (\<forall>n d. 0 \<le> n \<and> 0 \<le> d \<and> d \<le> 9 \<and> n * 10 + d \<le> 2 ^ 31 \<longrightarrow>
        f_add fp (f_mul fp (f_of_int fp n) (f_of_int fp 10)) (f_of_int fp d) = f_of_int fp (n * 10 + d))
     \<and> (\<forall>s n. (s = 1 \<and> 0 \<le> n \<or> s = -1 \<and> 1 \<le> n) \<and> n \<le> 2 ^ 31 \<longrightarrow>
        f_mul fp (f_of_int fp s) (f_of_int fp n) = f_of_int fp (s * n))
     \<and> (\<forall>i. - (2 ^ 31) \<le> i \<and> i < 2 ^ 31 \<longrightarrow>
        f_mul fp (f_of_int fp i) (f_pow10 fp (f_of_int fp 0)) = f_of_int fp i
        \<and> (f_is_zero fp (f_of_int fp i) \<longleftrightarrow> i = 0) \<and> f_is_int fp i (f_of_int fp i)
        \<and> f_to_int fp (f_of_int fp i) = i)"

lemma unat_digit: "n < 10 \<Longrightarrow> unat (of_nat (48 + n) :: u8) = 48 + n"
  by (subst unat_of_nat) (simp add: take_bit_eq_mod)

lemma is_digit_of_nat [simp]: "n < 10 \<Longrightarrow> is_digit (of_nat (48 + n))"
  unfolding is_digit_def word_le_nat_alt unat_digit by simp

lemma uint_digit: "n < 10 \<Longrightarrow> uint (of_nat (48 + n) :: u8) = 48 + int n"
  unfolding uint_nat unat_digit by simp

lemma digit_nonzero:
  assumes "1 \<le> n" "n \<le> 9"
  shows "(of_nat (48 + n) :: u8) \<noteq> 48" "(of_nat (48 + n) :: u8) \<noteq> 45"
    "(49 :: u8) \<le> of_nat (48 + n)" "of_nat (48 + n) \<le> (57 :: u8)"
  using assms unat_digit [of n] unfolding word_unat_eq_iff word_le_nat_alt by simp_all

lemma digits_step:
  "n < 10 \<Longrightarrow> digits fp (of_nat (48 + n) # r) x k
     = digits fp r (f_add fp (f_mul fp x (f_of_int fp 10)) (f_of_int fp (int n))) (k + 1)"
  using uint_digit [of n] is_digit_of_nat [of n] by (simp del: of_nat_add)

lemma digits_dec:
  "exact_ints fp \<Longrightarrow> int n \<le> 2 ^ 31 \<Longrightarrow>
   digits fp (dec_nat n @ r) (f_of_int fp 0) k
     = digits fp r (f_of_int fp (int n)) (k + int (length (dec_nat n)))"
proof (induction n arbitrary: r k rule: dec_nat.induct)
  case (1 n)
  have add: "\<And>m d. 0 \<le> m \<and> 0 \<le> d \<and> d \<le> 9 \<and> m * 10 + d \<le> 2 ^ 31 \<Longrightarrow>
      f_add fp (f_mul fp (f_of_int fp m) (f_of_int fp 10)) (f_of_int fp d) = f_of_int fp (m * 10 + d)"
    using 1(2) unfolding exact_ints_def by blast
  show ?case
  proof (cases "n < 10")
    case True
    then show ?thesis using add [of 0 "int n"]
      by (subst (1 2) dec_nat.simps) (simp add: uint_digit del: of_nat_add)
  next
    case False
    have IH: "digits fp (dec_nat (n div 10) @ r') (f_of_int fp 0) k
       = digits fp r' (f_of_int fp (int (n div 10))) (k + int (length (dec_nat (n div 10))))" for r'
      using 1(1) [OF False 1(2), of r' k] 1(3) by (simp add: zdiv_int)
    have "int (n div 10) * 10 + int (n mod 10) = int n"
      by (metis div_mult_mod_eq of_nat_add of_nat_mult of_nat_numeral)
    then have "f_add fp (f_mul fp (f_of_int fp (int (n div 10))) (f_of_int fp 10)) (f_of_int fp (int (n mod 10)))
        = f_of_int fp (int n)"
      using add [of "int (n div 10)" "int (n mod 10)"] 1(3) by simp
    then show ?thesis using False
      by (subst (1 2) dec_nat.simps) (simp add: IH uint_digit add_ac del: of_nat_add of_nat_numeral)
  qed
qed

lemma dec_nat_first:
  "0 < n \<Longrightarrow> \<exists>d t. 1 \<le> d \<and> d \<le> 9 \<and> dec_nat n = of_nat (48 + d) # t"
proof (induction n rule: dec_nat.induct)
  case (1 n)
  show ?case
  proof (cases "n < 10")
    case True
    then show ?thesis using 1(2) by (subst dec_nat.simps) (auto intro!: exI [of _ n])
  next
    case False
    then show ?thesis using 1(1) [OF False] by (subst dec_nat.simps) fastforce
  qed
qed

definition follow :: "u8 \<Rightarrow> bool" where "follow c \<longleftrightarrow> c \<in> {44, 93, 125, 10, 0}"

lemma follow_not: "follow c \<Longrightarrow> \<not> is_digit c \<and> c \<noteq> 46 \<and> c \<noteq> 101 \<and> c \<noteq> 69 \<and> \<not> (49 \<le> c \<and> c \<le> 57)"
  by (auto simp: follow_def is_digit_def)

lemma int_part_dec:
  assumes fp: "exact_ints fp" and n: "int n \<le> 2 ^ 31" and c: "follow c"
  shows "parse_int_part fp (dec_nat n @ c # r) = Some (f_of_int fp (int n), c # r)"
proof (cases "n = 0")
  case True
  then show ?thesis using follow_not [OF c]
    by (subst dec_nat.simps) (auto simp: parse_int_part_def Let_def)
next
  case False
  obtain d t where d: "1 \<le> d" "d \<le> 9" and t: "dec_nat n = of_nat (48 + d) # t"
    using dec_nat_first False by blast
  have "digits fp (dec_nat n @ c # r) (f_of_int fp 0) 0
      = Some (f_of_int fp (int n), int (length (dec_nat n)), c # r)"
    using digits_dec [OF fp n, of "c # r" 0] follow_not [OF c] by simp
  then show ?thesis
    unfolding parse_int_part_def t using digit_nonzero [OF d] by (simp add: Let_def del: of_nat_add)
qed

lemma parse_number_fmt:
  assumes fp: "exact_ints fp" and i: "- (2 ^ 31) \<le> i" "i < 2 ^ 31" and c: "follow c"
  shows "parse_number fp (fmt_d i @ c # r) = Some (f_of_int fp i, i, c # r)"
proof -
  have ex: "f_mul fp (f_of_int fp i) (f_pow10 fp (f_of_int fp 0)) = f_of_int fp i"
    "f_to_int fp (f_of_int fp i) = i"
    using fp i unfolding exact_ints_def by auto
  have sgn: "f_mul fp (f_of_int fp s) (f_of_int fp n) = f_of_int fp (s * n)"
    if "s = 1 \<and> 0 \<le> n \<or> s = -1 \<and> 1 \<le> n" "n \<le> 2 ^ 31" for s n
    using fp that unfolding exact_ints_def by blast
  have rest: "parse_fraction fp x (c # r) = Some (x, 0, c # r)" "parse_exponent (c # r) = Some (0, c # r)" for x
    using follow_not [OF c] by (auto simp: parse_fraction_def parse_exponent_def)
  show ?thesis
  proof (cases "i < 0")
    case True
    then have "parse_int_part fp (dec_nat (nat (- i)) @ c # r) = Some (f_of_int fp (- i), c # r)"
      using int_part_dec [OF fp _ c, of "nat (- i)" r] i by simp
    then show ?thesis
      using True i rest ex sgn [of "-1" "- i"] by (simp add: parse_number_def fmt_d_def)
  next
    case False
    then have p: "parse_int_part fp (dec_nat (nat i) @ c # r) = Some (f_of_int fp i, c # r)"
      using int_part_dec [OF fp _ c, of "nat i" r] i by simp
    obtain x t where x: "dec_nat (nat i) = x # t" "x \<noteq> 45"
    proof (cases "nat i = 0")
      case True
      then show ?thesis using that [of 48 "[]"] by (simp add: dec_nat.simps)
    next
      case f: False
      then obtain d t where d: "1 \<le> d" "d \<le> 9" and t: "dec_nat (nat i) = of_nat (48 + d) # t"
        using dec_nat_first [of "nat i"] by blast
      from digit_nonzero(2) [OF d] show ?thesis using that t by blast
    qed
    show ?thesis
      using False i rest ex p x sgn [of 1 i] by (simp add: parse_number_def fmt_d_def)
  qed
qed

section \<open>Strings\<close>

lemma hex_digit_hexchar:
  assumes "n < 16"
  shows "hex_digit (hexchar n) = Some (of_nat n)"
proof -
  have "n \<in> set [0..<16]" using assms by simp
  then show ?thesis by (simp add: upt_rec hexchar_def hex_digit_def; elim disjE; simp)
qed

lemma unat_byte: "unat (c :: u8) < 256"
  using unsigned_less [of c, where 'a = nat] by simp

lemma unat_ucast_byte: "unat (ucast (c :: u8) :: u32) = unat c"
  using unat_byte [of c] by (simp add: unsigned_ucast_eq take_bit_eq_mod)

lemma parse_hex4_u04x: "parse_hex4 (drop 1 (fmt_u04x c @ r)) = Some (ucast c)"
proof -
  have "unat c < 256" by (rule unat_byte)
  then have d: "unat c div 16 < 16" "unat c mod 16 < 16" by auto
  have z: "hex_digit 48 = Some 0" by (simp add: hex_digit_def)
  have "push_bit 4 (of_nat (unat c div 16) :: u32) + of_nat (unat c mod 16)
      = of_nat (unat c div 16 * 16 + unat c mod 16)"
    unfolding push_bit_eq_mult of_nat_add of_nat_mult by simp
  also have "\<dots> = ucast c" by (simp only: div_mult_mod_eq of_nat_unat)
  finally have e: "push_bit 4 (of_nat (unat c div 16) :: u32) + of_nat (unat c mod 16) = ucast c" .
  have "parse_hex4 s = hex_loop (Suc (Suc (Suc (Suc 0)))) 0 s" for s
    by (simp add: parse_hex4_def numeral_eq_Suc)
  then show ?thesis
    using e by (simp add: fmt_u04x_def z hex_digit_hexchar [OF d(1)] hex_digit_hexchar [OF d(2)])
qed

lemma ucast_ucast_byte: "ucast (ucast (c :: u8) :: u32) = c"
proof -
  have "unat (ucast (ucast c :: u32) :: u8) = unat (of_nat (unat (ucast c :: u32)) :: u8)" by (simp only: of_nat_unat)
  also have "unat (of_nat (unat (ucast c :: u32)) :: u8) = unat c"
    unfolding unat_of_nat unat_ucast_byte using unat_byte [of c] by simp
  finally show ?thesis by (simp add: word_unat_eq_iff)
qed

lemma utf8_ascii: "c < 128 \<Longrightarrow> utf8 (ucast (c :: u8)) = [c]"
proof -
  assume c: "c < 128"
  have "(ucast c :: u32) < 0x80" using c unat_ucast_byte [of c] by (simp add: word_less_nat_alt)
  then show ?thesis by (simp add: utf8_def utf8_len_def firstByteMark_def ucast_ucast_byte)
qed

lemma parse_unicode_u04x:
  assumes "c \<noteq> 0" "c < 32"
  shows "parse_unicode (fmt_u04x c @ r) = Some ([c], r)"
proof -
  note u = unat_ucast_byte [of c]
  have "unat c \<noteq> 0" using assms(1) by (simp add: unat_eq_zero)
  then have "(ucast c :: u32) \<noteq> 0" using u by (metis unat_0)
  moreover have "\<not> (0xDC00 \<le> (ucast c :: u32))" "\<not> (0xD800 \<le> (ucast c :: u32))" "c < 128"
    using assms(2) u by (simp_all add: word_le_nat_alt word_less_nat_alt)
  ultimately show ?thesis
    using parse_hex4_u04x [of c r] utf8_ascii [of c]
    by (simp add: parse_unicode_def fmt_u04x_def)
qed

lemma esc_char_cases:
  obtains (plain) "31 < c" "c \<noteq> QUOTE" "c \<noteq> BACKSLASH" "esc_char c = [c]"
  | (short) e where "esc_char c = [BACKSLASH, e]" "e \<noteq> 117" "unescape e = c"
  | (unicode) "c < 32" "esc_char c = BACKSLASH # fmt_u04x c"
proof (cases "is_short c")
  case True
  then show ?thesis unfolding is_short_def
    by (elim insertE emptyE; intro short [of "the (short_char c)"])
      (simp_all add: esc_char_def short_char_def unescape_def)
next
  case False
  then have "c \<noteq> QUOTE" "c \<noteq> BACKSLASH" "short_char c = None" "31 < c \<longleftrightarrow> \<not> c < 32"
    by (auto simp: short_char_None is_short_def word_less_nat_alt)
  then show ?thesis using plain unicode by (cases "c < 32") (simp_all add: esc_char_def)
qed

lemma hexchar_plain: "hexchar n \<notin> {QUOTE, BACKSLASH, 0}" if "n < 16"
proof -
  have "n \<in> set [0..<16]" using that by simp
  then show ?thesis by (simp add: upt_rec hexchar_def; elim disjE; simp)
qed

lemma string_len_esc:
  "\<exists>m. string_len (esc_char c @ r) n = string_len r m \<and> n < m"
proof (cases c rule: esc_char_cases)
  case plain
  then show ?thesis by (auto simp: word_less_nat_alt)
next
  case unicode
  have "unat c < 256" by (rule unat_byte)
  then have "unat c div 16 < 16" "unat c mod 16 < 16" by auto
  then show ?thesis
    using hexchar_plain [of "unat c div 16"] hexchar_plain [of "unat c mod 16"]
    by (simp add: unicode fmt_u04x_def) (metis lessI less_SucI)
qed auto

lemma string_len_escs:
  "\<exists>m \<ge> n + length s. string_len (concat (map esc_char s) @ QUOTE # r) n = Some m"
proof (induction s arbitrary: n)
  case (Cons c s)
  obtain m where m: "string_len (esc_char c @ concat (map esc_char s) @ QUOTE # r) n
      = string_len (concat (map esc_char s) @ QUOTE # r) m" "n < m"
    using string_len_esc by blast
  then show ?case using Cons [of m] by fastforce
qed simp

lemma string_copy_esc:
  assumes "c \<noteq> 0" "length out < cap"
  shows "string_copy cap (esc_char c @ r) out = string_copy cap r (out @ [c])"
proof (cases c rule: esc_char_cases)
  case plain
  then show ?thesis using assms by (subst string_copy.simps) simp
next
  case (short e)
  then show ?thesis using assms by (subst string_copy.simps) simp
next
  case unicode
  have "string_copy cap (BACKSLASH # fmt_u04x c @ r) out = string_copy cap r (out @ [c])"
    using assms parse_unicode_u04x [OF assms(1) unicode(1), of r]
    by (subst string_copy.simps) (simp add: fmt_u04x_def)
  then show ?thesis by (simp add: unicode)
qed

lemma string_copy_escs:
  "\<forall>c \<in> set s. c \<noteq> 0 \<Longrightarrow> length out + length s \<le> cap \<Longrightarrow>
   string_copy cap (concat (map esc_char s) @ QUOTE # r) out = Some (out @ s, QUOTE # r)"
proof (induction s arbitrary: out)
  case Nil
  then show ?case by (subst string_copy.simps) simp
next
  case (Cons c s)
  then show ?case by (simp add: string_copy_esc)
qed

text \<open>The escaped text of a string is parsed back to the string.\<close>

lemma parse_render_string:
  assumes "\<forall>n. mal n"
  shows "yields (parse_string mal (render_string s @ r)) (cstr s, r)"
proof -
  let ?t = "concat (map esc_char (cstr s)) @ QUOTE # r"
  obtain m where m: "length (cstr s) \<le> m" "string_len ?t 0 = Some m"
    using string_len_escs [of 0 "cstr s" r] by auto
  have "\<forall>c \<in> set (cstr s). c \<noteq> 0" using cstr_nonzero by blast
  then have "string_copy (m + 1) ?t [] = Some (cstr s, QUOTE # r)"
    using string_copy_escs [of "cstr s" "[]" "m + 1" r] m(1) by simp
  then have "yields (pbind (palloc mal) (\<lambda>_. pbind (plift (do {
             (out, r) \<leftarrow> string_copy (m + 1) ?t [];
             _ \<leftarrow> put (m + 1) [0] out;
             d \<leftarrow> cur r;
             Some (out, if d = QUOTE then tl r else r)
           })) pret)) (cstr s, r)"
    using m(1) by (intro yields_bind [OF yields_alloc [OF assms]]) simp
  then show ?thesis
    using m(2) by (simp add: parse_string_def render_string_def)
qed

end
