(* ===== verification/Cjson_Fuel.thy ===== *)
theory Cjson_Fuel
  imports Cjson
begin

text \<open>
  The parser consumes what it reads: every successful call leaves a shorter text, so the recursion ends
  and the fuel of \<open>cJSON_ParseWithOpts\<close> is never the reason of its result.
\<close>

section \<open>Shrinking texts\<close>

text \<open>\<open>shrinks p n\<close>: a successful \<open>p\<close> leaves a text shorter than \<open>n\<close>.\<close>

definition shrinks :: "('a \<times> bytes) proc \<Rightarrow> nat \<Rightarrow> bool" where
  "shrinks p n \<longleftrightarrow> (\<forall>st a r st'. p st = Some (Some (a, r), st') \<longrightarrow> length r < n)"

lemma bind_Some:
  "pbind m f st = Some (Some a, st') \<longleftrightarrow>
     (\<exists>b st1. m st = Some (Some b, st1) \<and> f b st1 = Some (Some a, st'))"
  by (auto simp: pbind_def split: option.splits)

lemma lift_Some [simp]: "plift x st = Some (Some a, st') \<longleftrightarrow> x = Some a \<and> st' = st"
  by (auto simp: plift_def split: option.splits)

lemma ret_Some [simp]: "pret x st = Some (Some a, st') \<longleftrightarrow> x = a \<and> st' = st"
  by (auto simp: pret_def)

lemma error_Some [simp]: "perror s st \<noteq> Some (Some a, st')"
  by (simp add: perror_def)

lemma alloc_Some: "palloc mal st = Some (Some (), st') \<Longrightarrow> True"
  by simp

lemma shrinks_bind:
  "(\<And>st b st1. m st = Some (Some b, st1) \<Longrightarrow> shrinks (f b) n) \<Longrightarrow> shrinks (pbind m f) n"
  unfolding shrinks_def bind_Some by blast

lemma shrinks_error [simp]: "shrinks (perror s) n"
  by (simp add: shrinks_def)

lemma shrinks_ret [simp]: "shrinks (pret (a, r)) n \<longleftrightarrow> length r < n"
  by (auto simp: shrinks_def)

lemma shrinks_undefined [simp]: "shrinks (plift None) n"
  by (simp add: shrinks_def)

lemma shrinks_mono: "shrinks p m \<Longrightarrow> m \<le> n \<Longrightarrow> shrinks p n"
  unfolding shrinks_def by (blast intro: less_le_trans)

lemma skip_length: "skip s = Some r \<Longrightarrow> length r \<le> length s \<and> r \<noteq> []"
  by (induction s rule: skip.induct) (auto split: if_splits)

lemma strncmp_length: "strncmp_eq w s = Some True \<Longrightarrow> length w \<le> length s"
  by (induction w s rule: strncmp_eq.induct) (auto split: if_splits)

lemma digits_length: "digits fp s n k = Some (n', k', r) \<Longrightarrow>
    length r \<le> length s \<and> (s \<noteq> [] \<and> is_digit (hd s) \<longrightarrow> length r < length s)"
  by (induction fp s n k arbitrary: n' k' r rule: digits.induct) (fastforce split: if_splits)+

lemma exp_digits_length: "exp_digits s e = Some (e', r) \<Longrightarrow> length r \<le> length s"
  by (induction s e arbitrary: e' r rule: exp_digits.induct) (fastforce simp: Let_def split: if_splits)+

lemma int_part_length: "parse_int_part fp s = Some (n, r) \<Longrightarrow>
    length r \<le> length s \<and> (s \<noteq> [] \<and> is_digit (hd s) \<longrightarrow> length r < length s)"
proof -
  assume p: "parse_int_part fp s = Some (n, r)"
  then obtain c0 t where s: "s = c0 # t" by (cases s) (auto simp: parse_int_part_def)
  show ?thesis
  proof (cases "c0 = 48")
    case True
    then show ?thesis using p s
      by (auto simp: parse_int_part_def Let_def bind_eq_Some_conv dest: digits_length split: if_splits)
  next
    case False
    show ?thesis
    proof (cases "49 \<le> c0 \<and> c0 \<le> 57")
      case True
      then have "is_digit c0" by (auto simp: is_digit_def word_le_nat_alt)
      then show ?thesis using p s False True
        by (auto simp: parse_int_part_def bind_eq_Some_conv dest!: digits_length)
    next
      case nd: False
      then have "\<not> is_digit c0" using False
        by (auto simp: is_digit_def word_le_nat_alt word_unat_eq_iff)
      then show ?thesis using p s False nd by (auto simp: parse_int_part_def bind_eq_Some_conv)
    qed
  qed
qed

lemma fraction_length: "parse_fraction fp n s = Some (n', k, r) \<Longrightarrow> length r \<le> length s"
  by (auto simp: parse_fraction_def bind_eq_Some_conv dest!: digits_length split: if_splits)

lemma exponent_length: "parse_exponent s = Some (e, r) \<Longrightarrow> length r \<le> length s"
  by (auto simp: parse_exponent_def Let_def bind_eq_Some_conv dest!: exp_digits_length split: if_splits)

lemma number_length:
  assumes "parse_number fp (c # s) = Some (d, i, r)" "c = 45 \<or> is_digit c"
  shows "length r < length (c # s)"
proof -
  let ?s = "if c = 45 then s else c # s"
  obtain n s1 n1 sc s2 e where
    "parse_int_part fp ?s = Some (n, s1)" "parse_fraction fp n s1 = Some (n1, sc, s2)"
    "parse_exponent s2 = Some (e, r)"
    using assms(1) by (auto simp: parse_number_def Let_def bind_eq_Some_conv split: if_splits)
  then show ?thesis using assms(2)
    by (auto dest!: int_part_length fraction_length exponent_length split: if_splits)
qed

lemma string_copy_length:
  "string_copy cap s out = Some (out', r) \<Longrightarrow> length r \<le> length s"
proof (induction "length s" arbitrary: s out rule: less_induct)
  case less
  have IH: "length r \<le> length s'" if "string_copy cap s' o1 = Some (out', r)" "length s' < length s" for s' o1
    using less.hyps that by blast
  show ?case
  proof (cases s)
    case Nil
    then show ?thesis using less.prems by (subst (asm) string_copy.simps) simp
  next
    case (Cons c q)
    consider "c = QUOTE \<or> c = 0" | "c \<noteq> QUOTE" "c \<noteq> 0" "c \<noteq> BACKSLASH" | "c = BACKSLASH" by blast
    then show ?thesis
    proof cases
      case 1
      then show ?thesis using less.prems Cons by (subst (asm) string_copy.simps) auto
    next
      case 2
      then obtain o1 where "string_copy cap q o1 = Some (out', r)"
        using less.prems Cons by (subst (asm) string_copy.simps) (auto split: option.splits)
      then show ?thesis using IH [of q o1] Cons by simp
    next
      case 3
      then obtain e q' where q: "q = e # q'"
        using less.prems Cons by (subst (asm) string_copy.simps) (auto split: list.splits)
      obtain o1 s' where "string_copy cap s' o1 = Some (out', r)" "length s' < length s"
      proof (cases "e = 117")
        case True
        then obtain bs r2 o1 where "parse_unicode q = Some (bs, r2)" "string_copy cap r2 o1 = Some (out', r)"
          using less.prems Cons 3 q by (subst (asm) string_copy.simps) (auto split: option.splits)
        then show ?thesis using that [of r2 o1] parse_unicode_shorter [of q] q Cons by auto
      next
        case False
        then obtain o1 where "string_copy cap q' o1 = Some (out', r)"
          using less.prems Cons 3 q by (subst (asm) string_copy.simps) (auto split: option.splits)
        then show ?thesis using that [of q' o1] q Cons by auto
      qed
      then show ?thesis using IH by (meson less_imp_le order_trans)
    qed
  qed
qed

lemma string_shrinks: "shrinks (parse_string mal s) (length s)"
proof (cases s)
  case Nil
  then show ?thesis by (auto simp: shrinks_def parse_string_def bind_Some)
next
  case (Cons c q)
  have "length r < length s" if "string_copy n q [] = Some (out, r')" "r = r' \<or> r = tl r'" for n out r r'
    using string_copy_length [OF that(1)] that(2) Cons by auto
  then show ?thesis
    unfolding shrinks_def parse_string_def bind_Some
    by (auto simp: bind_Some Cons bind_eq_Some_conv split: if_splits)
qed

section \<open>The parser shrinks its text\<close>

definition shrinking :: "'d pfun \<Rightarrow> bool" where
  "shrinking p \<longleftrightarrow> (\<forall>item v. shrinks (p item v) (length v))"

definition shrinking_items :: "'d pitems \<Rightarrow> bool" where
  "shrinking_items p \<longleftrightarrow> (\<forall>v. shrinks (p v) (length v))"

lemma value_body_shrinks:
  assumes "shrinking parr" "shrinking pobj"
  shows "shrinking (parse_value_body fp mal parr pobj)"
  unfolding shrinking_def
proof (intro allI)
  fix item :: "'a cJSON" and v
  obtain ty vs vi vd nm ch where item: "item = CJSON ty vs vi vd nm ch" by (cases item)
  have str: "shrinks (pbind (parse_string mal v) (\<lambda>(s, r). pret (CJSON cJSON_String (Some s) vi vd nm ch, r))) (length v)"
    using string_shrinks [of mal v] unfolding shrinks_def bind_Some by fastforce
  have num: "shrinks (pbind (plift (parse_number fp v)) (\<lambda>(d, i, r). pret (CJSON cJSON_Number vs i d nm ch, r))) (length v)"
    if "cur v = Some c" "c = 45 \<or> is_digit c" for c
    using that number_length [of fp c "tl v"] by (cases v) (auto simp: shrinks_def bind_Some)
  have w: "strncmp_eq word_null v = Some True \<Longrightarrow> length v - 4 < length v"
    "strncmp_eq word_false v = Some True \<Longrightarrow> length v - 5 < length v"
    "strncmp_eq word_true v = Some True \<Longrightarrow> length v - 4 < length v"
    by (drule strncmp_length, simp add: word_null_def word_false_def word_true_def)+
  show "shrinks (parse_value_body fp mal parr pobj item v) (length v)"
    unfolding parse_value_body_def item cJSON.case
    by (intro shrinks_bind)
      (use assms str num w in \<open>auto simp: shrinking_def intro!: shrinks_bind split: if_splits\<close>)
qed

lemma array_body_shrinks: "shrinking_items items \<Longrightarrow> shrinking (parse_array_body items)"
  unfolding shrinking_def
proof (intro allI)
  fix item :: "'a cJSON" and v assume i: "shrinking_items items"
  show "shrinks (parse_array_body items item v) (length v)"
  proof (cases v)
    case Nil
    then show ?thesis by (auto simp: parse_array_body_def shrinks_def bind_Some split: cJSON.splits)
  next
    case (Cons c0 q)
    have "length r < length v" if "skip q = Some w" "items w st = Some (Some (cs, r), st')" for w st cs r st'
      using i that skip_length [of q w] Cons unfolding shrinking_items_def shrinks_def by fastforce
    then show ?thesis
      unfolding shrinks_def parse_array_body_def
      by (auto simp: bind_Some Cons dest: skip_length split: cJSON.splits if_splits)
  qed
qed

lemma object_body_shrinks: "shrinking_items items \<Longrightarrow> shrinking (parse_object_body items)"
  unfolding shrinking_def
proof (intro allI)
  fix item :: "'a cJSON" and v assume i: "shrinking_items items"
  show "shrinks (parse_object_body items item v) (length v)"
  proof (cases v)
    case Nil
    then show ?thesis by (auto simp: parse_object_body_def shrinks_def bind_Some split: cJSON.splits)
  next
    case (Cons c0 q)
    have "length r < length v" if "skip q = Some w" "items w st = Some (Some (cs, r), st')" for w st cs r st'
      using i that skip_length [of q w] Cons unfolding shrinking_items_def shrinks_def by fastforce
    then show ?thesis
      unfolding shrinks_def parse_object_body_def
      by (auto simp: bind_Some Cons dest: skip_length split: cJSON.splits if_splits)
  qed
qed

lemma array_loop_body_shrinks:
  assumes "shrinking pv" "shrinking_items items"
  shows "shrinking_items (array_loop_body fp mal pv items)"
  unfolding shrinking_items_def
proof
  fix v :: bytes
  have "shrinks (pbind (plift (skip r)) (\<lambda>r'. pbind (plift (cur r')) (\<lambda>ch.
      if ch = 44 then pbind (items (tl r')) (\<lambda>(cs, r2). pret (c # cs, r2))
      else if ch = 93 then pret ([c], tl r') else perror r'))) (length v)" if "length r < length v" for c r
  proof -
    have "length r2 < length v" if "items (tl r') st = Some (Some (cs, r2), st')" "skip r = Some r'" for r' st cs r2 st'
      using assms(2) that skip_length [of r r'] \<open>length r < length v\<close>
      unfolding shrinking_items_def shrinks_def by fastforce
    then show ?thesis
      using that unfolding shrinks_def by (auto simp: bind_Some dest: skip_length split: if_splits)
  qed
  moreover have "length r < length v" if "skip v = Some w" "pv child w st = Some (Some (c, r), st')" for w child st c r st'
    using assms(1) that skip_length [of v w] unfolding shrinking_def shrinks_def by fastforce
  ultimately show "shrinks (array_loop_body fp mal pv items v) (length v)"
    unfolding array_loop_body_def by (intro shrinks_bind) (auto split: prod.splits)
qed

lemma object_loop_body_shrinks:
  assumes "shrinking pv" "shrinking_items items"
  shows "shrinking_items (object_loop_body fp mal pv items)"
  unfolding shrinking_items_def
proof
  fix v :: bytes
  have tail: "shrinks (pbind (plift (skip r)) (\<lambda>r'. pbind (plift (cur r')) (\<lambda>ch.
      if ch = 44 then pbind (items (tl r')) (\<lambda>(cs, r2). pret (c # cs, r2))
      else if ch = 125 then pret ([c], tl r') else perror r'))) (length v)" if "length r < length v" for c r
  proof -
    have "length r2 < length v" if "items (tl r') st = Some (Some (cs, r2), st')" "skip r = Some r'" for r' st cs r2 st'
      using assms(2) that skip_length [of r r'] \<open>length r < length v\<close>
      unfolding shrinking_items_def shrinks_def by fastforce
    then show ?thesis
      using that unfolding shrinks_def by (auto simp: bind_Some dest: skip_length split: if_splits)
  qed
  have str: "length r < length v" if "skip v = Some w" "parse_string mal w st = Some (Some (s, r), st')" for w st s r st'
    using string_shrinks [of mal w] that skip_length [of v w] unfolding shrinks_def by fastforce
  have val: "length r2 < length v" if "length r < length v" "skip r = Some r1" "skip (tl r1) = Some v1"
    "pv child v1 st = Some (Some (c, r2), st')" for r r1 v1 child st c r2 st'
    using assms(1) that skip_length [of r r1] skip_length [of "tl r1" v1] unfolding shrinking_def shrinks_def by fastforce
  show "shrinks (object_loop_body fp mal pv items v) (length v)"
    unfolding object_loop_body_def
    by (intro shrinks_bind)
      (auto intro!: shrinks_bind tail split: prod.splits, rule val [OF str], assumption+)
qed

lemma parser_shrinks:
  "shrinking (parse_value fp mal k)" "shrinking (parse_array fp mal k)" "shrinking_items (array_loop fp mal k)"
  "shrinking (parse_object fp mal k)" "shrinking_items (object_loop fp mal k)"
proof (induction k)
  case 0
  { case 1 show ?case by (simp add: shrinking_def) }
  { case 2 show ?case by (simp add: shrinking_def) }
  { case 3 show ?case by (simp add: shrinking_items_def) }
  { case 4 show ?case by (simp add: shrinking_def) }
  { case 5 show ?case by (simp add: shrinking_items_def) }
next
  case (Suc k)
  { case 1 show ?case using Suc value_body_shrinks by simp }
  { case 2 show ?case using Suc array_body_shrinks by simp }
  { case 3 show ?case using Suc array_loop_body_shrinks by simp }
  { case 4 show ?case using Suc object_body_shrinks by simp }
  { case 5 show ?case using Suc object_loop_body_shrinks by simp }
qed

section \<open>The fuel\<close>

text \<open>Two procedures that agree on what can follow a first step.\<close>

lemma bind_cong:
  "(\<And>st b st1. m st = Some (Some b, st1) \<Longrightarrow> f b = g b) \<Longrightarrow> pbind m f = pbind m g"
  by (rule ext) (auto simp: pbind_def split: option.splits)

text \<open>One item of a container and the loop behind it.\<close>

lemma step_cong:
  assumes "pv child w = pv' child w" and "shrinking pv'" and "length w \<le> length v"
    and "\<And>u. Suc (length u) < length v \<Longrightarrow> items u = items' u"
  shows "pbind (pv child w) (\<lambda>(c, r). pbind (plift (skip r)) (\<lambda>r'. pbind (plift (cur r')) (\<lambda>ch.
           if ch = 44 then pbind (items (tl r')) (\<lambda>(cs, r2). pret (c # cs, r2)) else X c ch r')))
       = pbind (pv' child w) (\<lambda>(c, r). pbind (plift (skip r)) (\<lambda>r'. pbind (plift (cur r')) (\<lambda>ch.
           if ch = 44 then pbind (items' (tl r')) (\<lambda>(cs, r2). pret (c # cs, r2)) else X c ch r')))"
  unfolding assms(1)
proof (intro bind_cong, clarify)
  fix a e c r a' e'
  assume "pv' child w (a, e) = Some (Some (c, r), a', e')"
  then have r: "length r < length v"
    using assms(2,3) unfolding shrinking_def shrinks_def by fastforce
  have "items (tl r') = items' (tl r')" if "skip r = Some r'" for r'
    using skip_length [OF that] r by (intro assms(4)) (cases r'; simp)
  then show "pbind (plift (skip r)) (\<lambda>r'. pbind (plift (cur r')) (\<lambda>ch.
       if ch = 44 then pbind (items (tl r')) (\<lambda>(cs, r2). pret (c # cs, r2)) else X c ch r'))
      = pbind (plift (skip r)) (\<lambda>r'. pbind (plift (cur r')) (\<lambda>ch.
       if ch = 44 then pbind (items' (tl r')) (\<lambda>(cs, r2). pret (c # cs, r2)) else X c ch r'))"
    by (auto intro!: bind_cong)
qed

lemma fuel_enough:
  "3 * length v \<le> k \<Longrightarrow> 3 * length v \<le> k' \<Longrightarrow>
     parse_value fp mal k item v = parse_value fp mal k' item v"
  "3 * length v \<le> Suc k \<Longrightarrow> 3 * length v \<le> Suc k' \<Longrightarrow>
     parse_array fp mal k item v = parse_array fp mal k' item v"
  "3 * length v < k \<Longrightarrow> 3 * length v < k' \<Longrightarrow> array_loop fp mal k v = array_loop fp mal k' v"
  "3 * length v \<le> Suc k \<Longrightarrow> 3 * length v \<le> Suc k' \<Longrightarrow>
     parse_object fp mal k item v = parse_object fp mal k' item v"
  "3 * length v < k \<Longrightarrow> 3 * length v < k' \<Longrightarrow> object_loop fp mal k v = object_loop fp mal k' v"
proof (induction k arbitrary: k' v item)
  case 0
  { case 1
    then show ?case by (cases k'; cases item) (auto simp: parse_value_body_def word_null_def) }
  { case 2
    then have "v = []" by (cases v) auto
    then show ?case by (cases k'; cases item) (auto simp: parse_array_body_def) }
  { case 4
    then have "v = []" by (cases v) auto
    then show ?case by (cases k'; cases item) (auto simp: parse_object_body_def) }
next
  case (Suc k)
  { case 1
    show ?case
    proof (cases k')
      case 0
      then show ?thesis using 1 by (cases item) (simp add: parse_value_body_def word_null_def)
    next
      case k': (Suc n)
      show ?thesis unfolding k' parse_value.simps parse_value_body_def
        using Suc(2) [of v n item] Suc(4) [of v n item] 1 k'
        by (cases item) (simp cong: if_cong)
    qed }
  { case 2
    show ?case
    proof (cases k')
      case 0
      then have "v = []" using 2 by (cases v) auto
      then show ?thesis using 0 by (cases item) (simp add: parse_array_body_def)
    next
      case k': (Suc n)
      have "array_loop fp mal k w = array_loop fp mal n w" if "skip (tl v) = Some w" "cur v = Some c" for w c
        using Suc(3) [of w n] skip_length [OF that(1)] that(2) 2 k' by (cases v) auto
      then show ?thesis unfolding k' parse_array.simps parse_array_body_def
        by (cases item) (auto intro!: bind_cong)
    qed }
  { case 3
    then obtain n where k': "k' = Suc n" by (cases k') auto
    have "array_loop fp mal k u = array_loop fp mal n u" if "Suc (length u) < length v" for u
      using Suc(3) [of u n] that 3 k' by simp
    moreover have "parse_value fp mal k child w = parse_value fp mal n child w" "length w \<le> length v"
      if "skip v = Some w" for child w
      using Suc(1) [of w n child] skip_length [OF that] 3 k' by auto
    ultimately show ?case unfolding k' array_loop.simps array_loop_body_def
      by (intro bind_cong step_cong [where v = v] parser_shrinks) auto }
  { case 4
    show ?case
    proof (cases k')
      case 0
      then have "v = []" using 4 by (cases v) auto
      then show ?thesis using 0 by (cases item) (simp add: parse_object_body_def)
    next
      case k': (Suc n)
      have "object_loop fp mal k w = object_loop fp mal n w" if "skip (tl v) = Some w" "cur v = Some c" for w c
        using Suc(5) [of w n] skip_length [OF that(1)] that(2) 4 k' by (cases v) auto
      then show ?thesis unfolding k' parse_object.simps parse_object_body_def
        by (cases item) (auto intro!: bind_cong)
    qed }
  { case 5
    then obtain n where k': "k' = Suc n" by (cases k') auto
    have it: "object_loop fp mal k u = object_loop fp mal n u" if "Suc (length u) < length v" for u
      using Suc(5) [of u n] that 5 k' by simp
    have pv: "parse_value fp mal k child w = parse_value fp mal n child w" if "length w \<le> length v" for child w
      using Suc(1) [of w n child] that 5 k' by simp
    have v1: "length v1 \<le> length v"
      if "skip v = Some w" "parse_string mal w st = Some (Some (s, r), st')" "skip r = Some r1" "skip (tl r1) = Some v1"
      for w st s r st' r1 v1
      using string_shrinks [of mal w] that skip_length [of v w] skip_length [of r r1] skip_length [of "tl r1" v1]
      unfolding shrinks_def by fastforce
    show ?case unfolding k' object_loop.simps object_loop_body_def
      by (auto intro!: bind_cong step_cong [where v = v] parser_shrinks pv it) (rule v1; assumption)+ }
qed auto


section \<open>The fuel is never used up\<close>

text \<open>The same recursion with arbitrary procedures \<open>zf\<close> and \<open>zi\<close> in the place where the
  fuel is used up.  A recursion that does not end comes there with any fuel and has their result.\<close>

fun value_upto :: "'d pfun \<Rightarrow> 'd pitems \<Rightarrow> 'd fp \<Rightarrow> (nat \<Rightarrow> bool) \<Rightarrow> nat \<Rightarrow> 'd pfun"
  and array_upto :: "'d pfun \<Rightarrow> 'd pitems \<Rightarrow> 'd fp \<Rightarrow> (nat \<Rightarrow> bool) \<Rightarrow> nat \<Rightarrow> 'd pfun"
  and array_loop_upto :: "'d pfun \<Rightarrow> 'd pitems \<Rightarrow> 'd fp \<Rightarrow> (nat \<Rightarrow> bool) \<Rightarrow> nat \<Rightarrow> 'd pitems"
  and object_upto :: "'d pfun \<Rightarrow> 'd pitems \<Rightarrow> 'd fp \<Rightarrow> (nat \<Rightarrow> bool) \<Rightarrow> nat \<Rightarrow> 'd pfun"
  and object_loop_upto :: "'d pfun \<Rightarrow> 'd pitems \<Rightarrow> 'd fp \<Rightarrow> (nat \<Rightarrow> bool) \<Rightarrow> nat \<Rightarrow> 'd pitems"
where
  "value_upto zf zi fp mal 0 = zf"
| "value_upto zf zi fp mal (Suc k) =
     parse_value_body fp mal (array_upto zf zi fp mal k) (object_upto zf zi fp mal k)"
| "array_upto zf zi fp mal 0 = zf"
| "array_upto zf zi fp mal (Suc k) = parse_array_body (array_loop_upto zf zi fp mal k)"
| "array_loop_upto zf zi fp mal 0 = zi"
| "array_loop_upto zf zi fp mal (Suc k) =
     array_loop_body fp mal (value_upto zf zi fp mal k) (array_loop_upto zf zi fp mal k)"
| "object_upto zf zi fp mal 0 = zf"
| "object_upto zf zi fp mal (Suc k) = parse_object_body (object_loop_upto zf zi fp mal k)"
| "object_loop_upto zf zi fp mal 0 = zi"
| "object_loop_upto zf zi fp mal (Suc k) =
     object_loop_body fp mal (value_upto zf zi fp mal k) (object_loop_upto zf zi fp mal k)"

lemma upto_enough:
  "v \<noteq> [] \<Longrightarrow> 3 * length v \<le> k \<Longrightarrow> value_upto zf zi fp mal k item v = parse_value fp mal k item v"
  "v \<noteq> [] \<Longrightarrow> 3 * length v \<le> Suc k \<Longrightarrow> array_upto zf zi fp mal k item v = parse_array fp mal k item v"
  "3 * length v < k \<Longrightarrow> array_loop_upto zf zi fp mal k v = array_loop fp mal k v"
  "v \<noteq> [] \<Longrightarrow> 3 * length v \<le> Suc k \<Longrightarrow> object_upto zf zi fp mal k item v = parse_object fp mal k item v"
  "3 * length v < k \<Longrightarrow> object_loop_upto zf zi fp mal k v = object_loop fp mal k v"
proof (induction k arbitrary: v item)
  case 0
  { case 1 then show ?case by (cases v) auto }
  { case 2 then show ?case by (cases v) auto }
  { case 4 then show ?case by (cases v) auto }
next
  case (Suc k)
  { case 1
    show ?case unfolding value_upto.simps parse_value.simps parse_value_body_def
      using Suc(2) [of v item] Suc(4) [of v item] 1 by (cases item) (simp cong: if_cong) }
  { case 2
    have "array_loop_upto zf zi fp mal k w = array_loop fp mal k w" if "skip (tl v) = Some w" "cur v = Some c" for w c
      using Suc(3) [of w] skip_length [OF that(1)] that(2) 2 by (cases v) auto
    then show ?case unfolding array_upto.simps parse_array.simps parse_array_body_def
      by (cases item) (auto intro!: bind_cong) }
  { case 3
    have "array_loop_upto zf zi fp mal k u = array_loop fp mal k u" if "Suc (length u) < length v" for u
      using Suc(3) [of u] that 3 by simp
    moreover have "value_upto zf zi fp mal k child w = parse_value fp mal k child w" "length w \<le> length v"
      if "skip v = Some w" for child w
      using Suc(1) [of w child] skip_length [OF that] 3 by auto
    ultimately show ?case unfolding array_loop_upto.simps array_loop.simps array_loop_body_def
      by (intro bind_cong step_cong [where v = v] parser_shrinks) auto }
  { case 4
    have "object_loop_upto zf zi fp mal k w = object_loop fp mal k w" if "skip (tl v) = Some w" "cur v = Some c" for w c
      using Suc(5) [of w] skip_length [OF that(1)] that(2) 4 by (cases v) auto
    then show ?case unfolding object_upto.simps parse_object.simps parse_object_body_def
      by (cases item) (auto intro!: bind_cong) }
  { case 5
    have it: "object_loop_upto zf zi fp mal k u = object_loop fp mal k u" if "Suc (length u) < length v" for u
      using Suc(5) [of u] that 5 by simp
    have pv: "value_upto zf zi fp mal k child w = parse_value fp mal k child w" if "w \<noteq> []" "length w \<le> length v" for child w
      using Suc(1) [of w child] that 5 by simp
    have v1: "v1 \<noteq> [] \<and> length v1 \<le> length v"
      if "skip v = Some w" "parse_string mal w st = Some (Some (s, r), st')" "skip r = Some r1" "skip (tl r1) = Some v1"
      for w st s r st' r1 v1
      using string_shrinks [of mal w] that skip_length [of v w] skip_length [of r r1] skip_length [of "tl r1" v1]
      unfolding shrinks_def by fastforce
    have v2: "v1 \<noteq> []" "length v1 \<le> length v"
      if "skip v = Some w" "parse_string mal w st = Some (Some (s, r), st')" "skip r = Some r1" "skip (tl r1) = Some v1"
      for w st s r st' r1 v1
      using v1 [OF that] by simp_all
    show ?case unfolding object_loop_upto.simps object_loop.simps object_loop_body_def
      by (auto intro!: bind_cong step_cong [where v = v] parser_shrinks pv it) (use skip_length in blast, (rule v2(2); assumption)+) }
qed auto

end
