(* ===== verification/Cjson_Safe.thy ===== *)
theory Cjson_Safe
  imports Cjson_Fuel
begin

text \<open>When \<open>parse_string\<close> stays within the text and within the copy it allocates.\<close>

definition is_hex :: "u8 \<Rightarrow> bool" where "is_hex c \<longleftrightarrow> hex_digit c \<noteq> None"

fun well_escaped :: "bytes \<Rightarrow> bool" where
  "well_escaped [] = False"
| "well_escaped (c # r) =
     (if c = QUOTE \<or> c = 0 then True
      else if c \<noteq> BACKSLASH then well_escaped r
      else (case r of [] \<Rightarrow> False
            | e # r' \<Rightarrow> if e = 0 then False
                else if e = 117 then 4 \<le> length r' \<and> list_all is_hex (take 4 r') \<and> well_escaped (drop 4 r')
                else well_escaped r'))"

lemma is_hex_plain: "is_hex c \<Longrightarrow> c \<noteq> QUOTE \<and> c \<noteq> BACKSLASH \<and> c \<noteq> 0"
  by (auto simp: is_hex_def hex_digit_def)

lemma parse_hex4_Suc: "parse_hex4 s = hex_loop (Suc (Suc (Suc (Suc 0)))) 0 s"
  by (simp add: parse_hex4_def numeral_eq_Suc)

lemma parse_hex4_safe: "list_all is_hex hs \<Longrightarrow> length hs = 4 \<Longrightarrow> \<exists>h. parse_hex4 (hs @ r) = Some h"
  by (auto simp: length_Suc_conv numeral_eq_Suc parse_hex4_def is_hex_def)

lemma utf8_fill_length: "length (utf8_fill len n uc acc) = n + length acc"
  by (induction len n uc acc rule: utf8_fill.induct) simp_all

lemma utf8_length: "length (utf8 uc) \<le> 4"
  by (simp add: utf8_def utf8_fill_length utf8_len_def)

lemma hex_run: "4 \<le> length r \<Longrightarrow> list_all is_hex (take 4 r) \<Longrightarrow>
    \<exists>h1 h2 h3 h4 q. r = h1 # h2 # h3 # h4 # q \<and> is_hex h1 \<and> is_hex h2 \<and> is_hex h3 \<and> is_hex h4"
  by (cases r; cases "tl r"; cases "tl (tl r)"; cases "tl (tl (tl r))") auto

text \<open>A backslash in a well-escaped text.\<close>

lemma well_escaped_backslash:
  assumes "well_escaped (BACKSLASH # r)"
  obtains (unicode) h1 h2 h3 h4 q where "r = 117 # h1 # h2 # h3 # h4 # q" "is_hex h1" "is_hex h2" "is_hex h3"
      "is_hex h4" "well_escaped q"
  | (other) e q where "r = e # q" "e \<noteq> 117" "well_escaped q"
proof -
  obtain e q where r: "r = e # q" "e \<noteq> 0" using assms by (cases r) (auto split: if_splits)
  show ?thesis
  proof (cases "e = 117")
    case True
    then have q: "4 \<le> length q" "list_all is_hex (take 4 q)" "well_escaped (drop 4 q)"
      using assms r by simp_all
    from hex_run [OF q(1,2)] obtain h1 h2 h3 h4 q' where "q = h1 # h2 # h3 # h4 # q'"
      "is_hex h1" "is_hex h2" "is_hex h3" "is_hex h4" by blast
    then show ?thesis using unicode [of h1 h2 h3 h4 q'] True r q(3) by simp
  next
    case False
    then show ?thesis using other [of e q] r assms by simp
  qed
qed

lemma parse_unicode_safe:
  assumes "is_hex h1" "is_hex h2" "is_hex h3" "is_hex h4" "well_escaped q"
  shows "\<exists>bs r. parse_unicode (117 # h1 # h2 # h3 # h4 # q) = Some (bs, r) \<and> length bs \<le> 4
     \<and> (r = q \<or> (\<exists>k1 k2 k3 k4. q = BACKSLASH # 117 # k1 # k2 # k3 # k4 # r
              \<and> is_hex k1 \<and> is_hex k2 \<and> is_hex k3 \<and> is_hex k4 \<and> well_escaped r))"
proof -
  obtain uc where uc: "parse_hex4 (h1 # h2 # h3 # h4 # q) = Some uc"
    using parse_hex4_safe [of "[h1, h2, h3, h4]" q] assms by auto
  obtain c t where q: "q = c # t" using assms(5) by (cases q) auto
  show ?thesis
  proof (cases "c = BACKSLASH \<and> t \<noteq> [] \<and> hd t = 117")
    case False
    moreover have "c = BACKSLASH \<Longrightarrow> t \<noteq> []" using assms(5) q by (cases t) auto
    ultimately show ?thesis
      using uc q utf8_length by (cases t) (auto simp: parse_unicode_def Let_def)
  next
    case True
    then have "well_escaped (BACKSLASH # t)" "t = 117 # tl t" using assms(5) q by (cases t; simp)+
    then obtain k1 k2 k3 k4 r where r: "t = 117 # k1 # k2 # k3 # k4 # r" "is_hex k1" "is_hex k2" "is_hex k3"
      "is_hex k4" "well_escaped r"
      by (elim well_escaped_backslash) auto
    obtain uc2 where "parse_hex4 (k1 # k2 # k3 # k4 # r) = Some uc2"
      using parse_hex4_safe [of "[k1, k2, k3, k4]" r] r by auto
    then show ?thesis
      using uc r True q utf8_length by (auto simp: parse_unicode_def Let_def)
  qed
qed

lemma string_copy_stop: "c = QUOTE \<or> c = 0 \<Longrightarrow> string_copy cap (c # r) out = Some (out, c # r)"
  by (subst string_copy.simps) simp

lemma string_copy_plain:
  "c \<noteq> QUOTE \<Longrightarrow> c \<noteq> 0 \<Longrightarrow> c \<noteq> BACKSLASH \<Longrightarrow> length out < cap \<Longrightarrow>
   string_copy cap (c # r) out = string_copy cap r (out @ [c])"
  by (subst string_copy.simps) (simp add: put_def)

lemma string_copy_unicode:
  "parse_unicode (117 # q) = Some (bs, r) \<Longrightarrow> length out + length bs \<le> cap \<Longrightarrow>
   string_copy cap (BACKSLASH # 117 # q) out = string_copy cap r (out @ bs)"
  by (subst string_copy.simps) (simp add: put_def)

lemma string_copy_other:
  "e \<noteq> 117 \<Longrightarrow> length out < cap \<Longrightarrow>
   string_copy cap (BACKSLASH # e # r) out = string_copy cap r (out @ [unescape e])"
  by (subst string_copy.simps) (simp add: put_def)

text \<open>The copy of a well-escaped text fits into the size that the first loop counts.\<close>

definition copies :: "bytes \<Rightarrow> nat \<Rightarrow> bool" where
  "copies s m \<longleftrightarrow> (\<forall>out cap. length out + m \<le> cap \<longrightarrow>
     (\<exists>out' r. string_copy cap s out = Some (out', r) \<and> length out' \<le> length out + m \<and> r \<noteq> []))"

lemma copies_step:
  assumes "copies r m" "\<And>out cap. length out + k \<le> cap \<Longrightarrow> string_copy cap s out = string_copy cap r (out @ bs)"
    and "length bs \<le> k"
  shows "copies s (k + m)"
  unfolding copies_def
proof (intro allI impI)
  fix out :: bytes and cap assume "length out + (k + m) \<le> cap"
  then show "\<exists>out' r. string_copy cap s out = Some (out', r) \<and> length out' \<le> length out + (k + m) \<and> r \<noteq> []"
    using assms(1) [unfolded copies_def, rule_format, of "out @ bs" cap] assms(2) [of out cap] assms(3) by fastforce
qed

lemma hex_len:
  assumes "is_hex h1" "is_hex h2" "is_hex h3" "is_hex h4"
  shows "string_len (BACKSLASH # 117 # h1 # h2 # h3 # h4 # q) n = string_len q (n + 5)"
proof -
  have "string_len q (n + 5) = string_len q (Suc (Suc (Suc (Suc (Suc n)))))"
    by (rule arg_cong [where f = "string_len q"]) simp
  then show ?thesis using assms [THEN is_hex_plain] by simp
qed

lemma copy_safe:
  "well_escaped s \<Longrightarrow> \<exists>m. (\<forall>n. string_len s n = Some (n + m)) \<and> copies s m"
proof (induction "length s" arbitrary: s rule: less_induct)
  case less
  obtain c r where s: "s = c # r" using less.prems by (cases s) auto
  consider (stop) "c = QUOTE \<or> c = 0" | (plain) "c \<noteq> QUOTE" "c \<noteq> 0" "c \<noteq> BACKSLASH" | (bs) "c = BACKSLASH"
    by blast
  then show ?case
  proof cases
    case stop
    then show ?thesis by (intro exI [of _ 0]) (auto simp: s copies_def string_copy_stop)
  next
    case plain
    then have "well_escaped r" using less.prems s by simp
    then obtain m where m: "\<forall>n. string_len r n = Some (n + m)" "copies r m"
      using less.hyps [of r] s by auto
    have "copies s (1 + m)"
      using plain by (intro copies_step [OF m(2), of _ _ "[c]"]) (simp_all add: s string_copy_plain)
    then show ?thesis using m(1) plain by (intro exI [of _ "1 + m"]) (simp add: s)
  next
    case bs
    from less.prems [unfolded s bs] show ?thesis
    proof (cases rule: well_escaped_backslash)
      case (other e q)
      then obtain m where m: "\<forall>n. string_len q n = Some (n + m)" "copies q m"
        using less.hyps [of q] s by auto
      have "copies s (1 + m)"
        using other by (intro copies_step [OF m(2), of _ _ "[unescape e]"]) (simp_all add: s bs string_copy_other)
      then show ?thesis using m(1) other by (intro exI [of _ "1 + m"]) (simp add: s bs)
    next
      case (unicode h1 h2 h3 h4 q)
      note len = hex_len [OF unicode(2,3,4,5)]
      obtain bs r' where p: "parse_unicode (117 # h1 # h2 # h3 # h4 # q) = Some (bs, r')" "length bs \<le> 4"
        and r': "r' = q \<or> (\<exists>k1 k2 k3 k4. q = BACKSLASH # 117 # k1 # k2 # k3 # k4 # r'
              \<and> is_hex k1 \<and> is_hex k2 \<and> is_hex k3 \<and> is_hex k4 \<and> well_escaped r')"
        using parse_unicode_safe [OF unicode(2-6)] by blast
      have cp: "string_copy cap s out = string_copy cap r' (out @ bs)" if "length out + 5 \<le> cap" for out cap
        using p that unfolding s \<open>c = BACKSLASH\<close> unicode(1) by (intro string_copy_unicode) simp_all
      from r' show ?thesis
      proof
        assume q: "r' = q"
        obtain m where m: "\<forall>n. string_len q n = Some (n + m)" "copies q m"
          using less.hyps [of q] s unicode by auto
        have "copies s (5 + m)"
          using p(2) cp by (intro copies_step [OF m(2), of _ _ bs]) (simp_all add: q)
        then show ?thesis using m(1) len [of q] unicode(1)
          by (intro exI [of _ "5 + m"]) (simp add: s \<open>c = BACKSLASH\<close> del: string_len.simps)
      next
        assume "\<exists>k1 k2 k3 k4. q = BACKSLASH # 117 # k1 # k2 # k3 # k4 # r'
              \<and> is_hex k1 \<and> is_hex k2 \<and> is_hex k3 \<and> is_hex k4 \<and> well_escaped r'"
        then obtain k1 k2 k3 k4 where q: "q = BACKSLASH # 117 # k1 # k2 # k3 # k4 # r'"
          "is_hex k1" "is_hex k2" "is_hex k3" "is_hex k4" "well_escaped r'" by blast
        obtain m where m: "\<forall>n. string_len r' n = Some (n + m)" "copies r' m"
          using less.hyps [of r'] s unicode q by auto
        have cp': "string_copy cap s out = string_copy cap r' (out @ bs)" if "length out + 10 \<le> cap" for out cap
          using cp that by simp
        have "copies s (10 + m)"
          using p(2) cp' by (intro copies_step [OF m(2), of _ _ bs]) simp_all
        then show ?thesis using m(1) len [of q] hex_len [OF q(2-5)] unicode(1) q(1)
          by (intro exI [of _ "10 + m"]) (simp add: s \<open>c = BACKSLASH\<close> del: string_len.simps)
      qed
    qed
  qed
qed

lemma string_safe: "well_escaped s \<Longrightarrow> parse_string mal (QUOTE # s) st \<noteq> None"
proof -
  assume "well_escaped s"
  then obtain m where m: "\<forall>n. string_len s n = Some (n + m)" "copies s m" using copy_safe by blast
  obtain out r where c: "string_copy (m + 1) s [] = Some (out, r)" "length out \<le> m" "r \<noteq> []"
    using m(2) [unfolded copies_def, rule_format, of "[]" "m + 1"] by auto
  obtain d t where "r = d # t" using c(3) by (cases r) auto
  then show ?thesis
    using m(1) c(1,2) by (simp add: parse_string_def pbind_def palloc_def put_def plift_def pret_def)
qed

text \<open>The text \<open>"\u1"AAAAAAAA"\<close>.\<close>

definition jumping_text :: bytes where
  "jumping_text = [34, 92, 117, 49, 34, 65, 65, 65, 65, 65, 65, 65, 65, 34, 0]"

lemmas string_copy_Cons = string_copy.simps [of _ "c # r" for c r]

lemma string_overflow: "parse_string (\<lambda>_. True) jumping_text st = None"
proof -
  have u: "parse_unicode (117 # 49 # 34 # r) = Some ([], drop (Suc (Suc 0)) r)" for r
    by (simp add: parse_unicode_def parse_hex4_Suc hex_digit_def)
  have "string_copy (Suc (Suc (Suc 0))) [92, 117, 49, 34, 65, 65, 65, 65, 65, 65, 65, 65, 34, 0] [] = None"
    by (simp add: string_copy_Cons u put_def)
  then show ?thesis
    by (simp add: parse_string_def jumping_text_def plift_def pbind_def palloc_def)
qed

end
