(* ===== verification/Cjson_Text.thy ===== *)
theory Cjson_Text
  imports Cjson_Roundtrip Cjson_Safe
begin

text \<open>
  The round trip of whole items, and the properties of the JSON library: the printer delivers the text
  of an item within the strings it allocates, and the parser reads that text back.
\<close>

section \<open>Items as the parser builds them\<close>

text \<open>What is kept of an item, with the name \<open>nm\<close>: the fields that its type uses.\<close>

fun as_parsed :: "'d fp \<Rightarrow> bytes option \<Rightarrow> 'd cJSON \<Rightarrow> 'd cJSON" where
  "as_parsed fp nm (CJSON ty vs vi vd _ ch) =
     (let k = ty mod 256; z = f_of_int fp 0 in
      if k = cJSON_True then CJSON k None 1 z nm []
      else if k = cJSON_Number then CJSON k None vi vd nm []
      else if k = cJSON_String then CJSON k (map_option cstr vs) 0 z nm []
      else if k = cJSON_Array then CJSON k None 0 z nm (map (as_parsed fp None) ch)
      else if k = cJSON_Object then
        CJSON k None 0 z nm (map (\<lambda>c. as_parsed fp (map_option cstr (cj_string c)) c) ch)
      else CJSON k None 0 z nm [])"

fun integral :: "'d fp \<Rightarrow> 'd cJSON \<Rightarrow> bool" where
  "integral fp (CJSON ty vs vi vd nm ch) \<longleftrightarrow>
     (ty mod 256 = cJSON_Number \<longrightarrow> vd = f_of_int fp vi \<and> - (2 ^ 31) \<le> vi \<and> vi < 2 ^ 31)
     \<and> (ty mod 256 = cJSON_Array \<or> ty mod 256 = cJSON_Object \<longrightarrow> (\<forall>c \<in> set ch. integral fp c))"

definition opens :: "u8 \<Rightarrow> bool" where
  "opens c \<longleftrightarrow> c \<in> {110, 102, 116, QUOTE, 45, 91, 123} \<or> is_digit c"

lemma opens_not: "opens c \<Longrightarrow> c \<noteq> 0 \<and> \<not> c \<le> 32 \<and> c \<noteq> 93 \<and> c \<noteq> 125"
  by (auto simp: opens_def is_digit_def word_le_nat_alt)

lemma skip_opens: "opens c \<Longrightarrow> skip (c # r) = Some (c # r)"
  using opens_not by auto

text \<open>The text of a string starts with a quote, that of a number with a digit or a sign.\<close>

lemma fmt_d_first: "\<exists>c t. fmt_d i = c # t \<and> (c = 45 \<or> is_digit c)"
proof -
  have "\<exists>c t. dec_nat n = c # t \<and> is_digit c" for n
  proof (cases "n = 0")
    case True
    then show ?thesis by (subst dec_nat.simps) (simp add: is_digit_def)
  next
    case False
    then obtain d t where "1 \<le> d" "d \<le> 9" "dec_nat n = of_nat (48 + d) # t"
      using dec_nat_first by blast
    then show ?thesis using is_digit_of_nat [of d] by auto
  qed
  from this [of "nat i"] show ?thesis by (auto simp: fmt_d_def)
qed

lemma number_text_int:
  assumes "exact_ints fp" "- (2 ^ 31) \<le> i" "i < 2 ^ 31"
  shows "number_text fp i (f_of_int fp i) = fmt_d i"
proof -
  have "f_is_zero fp (f_of_int fp i) \<longleftrightarrow> i = 0" "f_is_int fp i (f_of_int fp i)"
    using assms unfolding exact_ints_def by auto
  moreover have "fmt_d 0 = [48]" by (simp add: fmt_d_def dec_nat.simps)
  ultimately show ?thesis by (auto simp: number_text_def)
qed

lemma render_first:
  assumes "exact_ints fp" "printable fp item" "integral fp item"
  shows "\<exists>c t. render fp fmt depth item = c # t \<and> opens c"
proof (cases item)
  case (CJSON ty vs vi vd nm ch)
  obtain c t where c: "fmt_d vi = c # t" "c = 45 \<or> is_digit c" using fmt_d_first by blast
  show ?thesis
    using assms c number_text_int [OF assms(1), of vi] unfolding CJSON
    by (auto simp: Let_def opens_def word_null_def word_false_def word_true_def render_string_def)
qed

section \<open>Reading back\<close>

definition reads :: "('d cJSON \<Rightarrow> bytes \<Rightarrow> ('d cJSON \<times> bytes) proc) \<Rightarrow> 'd fp \<Rightarrow> 'd cJSON \<Rightarrow> bytes \<Rightarrow> bool" where
  "reads pv fp item t \<longleftrightarrow> (\<forall>ty nm c r. follow c \<longrightarrow>
     yields (pv (fresh fp ty nm) (t @ c # r)) (as_parsed fp nm item, c # r))"

lemma strncmp_first: "w \<noteq> c \<Longrightarrow> strncmp_eq (w # ws) (c # r) = Some False"
  by simp

lemma parse_value_first:
  assumes "c \<noteq> 110" "c \<noteq> 102" "c \<noteq> 116"
  shows "parse_value fp mal (Suc k) (CJSON ty vs vi vd nm ch) (c # r) =
     (if c = QUOTE then
        pbind (parse_string mal (c # r)) (\<lambda>(s, r'). pret (CJSON cJSON_String (Some s) vi vd nm ch, r'))
      else if c = 45 \<or> is_digit c then
        pbind (plift (parse_number fp (c # r))) (\<lambda>(d, i, r'). pret (CJSON cJSON_Number vs i d nm ch, r'))
      else if c = 91 then parse_array fp mal k (CJSON ty vs vi vd nm ch) (c # r)
      else if c = 123 then parse_object fp mal k (CJSON ty vs vi vd nm ch) (c # r)
      else perror (c # r))"
  using assms by (simp add: parse_value_body_def word_null_def word_false_def word_true_def)

text \<open>The loop over an array's items.\<close>

lemma array_loop_reads:
  assumes mal: "\<forall>n. mal n"
  shows "\<lbrakk> cs \<noteq> []; white w; 3 * length (join (array_sep fmt) (map T cs)) < k;
     \<forall>c \<in> set cs. (\<exists>x t. T c = x # t \<and> opens x)
        \<and> (\<forall>k' \<ge> 3 * length (T c). reads (parse_value fp mal k') fp c (T c)) \<rbrakk> \<Longrightarrow>
   yields (array_loop fp mal k (w @ join (array_sep fmt) (map T cs) @ 93 # r))
     (map (as_parsed fp None) cs, r)"
proof (induction cs arbitrary: w k)
  case (Cons c cs)
  obtain k1 where k: "k = Suc k1" using Cons.prems(3) by (cases k) auto
  obtain x t where x: "T c = x # t" "opens x" using Cons.prems(4) by auto
  let ?J = "join (array_sep fmt) (map T cs)"
  define tail where "tail = (if cs = [] then 93 # r else array_sep fmt @ ?J @ 93 # r)"
  have tx: "join (array_sep fmt) (map T (c # cs)) @ 93 # r = T c @ tail"
    by (simp add: join_Cons tail_def del: join.simps(2,3))
  have len: "length (join (array_sep fmt) (map T (c # cs)))
      = length (T c) + (if cs = [] then 0 else length (array_sep fmt) + length ?J)"
    by (simp add: join_Cons del: join.simps(2,3))
  obtain y u where y: "tail = y # u" "follow y" "skip (y # u) = Some (y # u)"
  proof (cases "cs = []")
    case True
    then show ?thesis using that [of 93 r] by (simp add: tail_def follow_def)
  next
    case False
    then show ?thesis using that [of 44 "tl (array_sep fmt) @ ?J @ 93 # r"]
      by (simp add: tail_def follow_def array_sep_def)
  qed
  have "reads (parse_value fp mal k1) fp c (T c)"
    using Cons.prems(3,4) k len by auto
  then have v: "yields (parse_value fp mal k1 (fresh fp 0 None) (T c @ y # u)) (as_parsed fp None c, y # u)"
    using y(2) unfolding reads_def by blast
  have sk: "skip (w @ T c @ tail) = Some (T c @ y # u)"
    using skip_white [OF Cons.prems(2)] skip_opens [OF x(2)] x(1) y(1) by simp
  have loop: "yields (if y = 44 then pbind (array_loop fp mal k1 u) (\<lambda>(cs, r2). pret (as_parsed fp None c # cs, r2))
     else if y = 93 then pret ([as_parsed fp None c], u) else perror (y # u))
     (map (as_parsed fp None) (c # cs), r)"
  proof (cases "cs = []")
    case True
    then show ?thesis using y(1) by (simp add: tail_def)
  next
    case False
    obtain w' where w': "white w'" "array_sep fmt = 44 # w'"
      using that [of "tl (array_sep fmt)"] by (simp add: array_sep_def white_def)
    have "yields (array_loop fp mal k1 (w' @ ?J @ 93 # r)) (map (as_parsed fp None) cs, r)"
      using Cons.prems(3,4) k len False w' by (intro Cons.IH) auto
    then have "yields (array_loop fp mal k1 u) (map (as_parsed fp None) cs, r)" "y = 44"
      using y(1) False w'(2) by (auto simp: tail_def)
    then show ?thesis by (auto intro: yields_bind)
  qed
  show ?case
    unfolding tx k array_loop.simps array_loop_body_def
    by (rule yields_bind [OF yields_New_Item [OF mal]], unfold sk lift_bind,
        rule yields_bind [OF v], unfold prod.case y(3) lift_bind cur.simps list.sel)
      (use loop in \<open>simp split del: if_split\<close>)
qed simp

text \<open>The loop over an object's members, which end with the white space \<open>nl fmt @ tabs fmt d\<close>.\<close>

lemma object_loop_reads:
  assumes mal: "\<forall>n. mal n" and M: "\<And>c. M c = member_text fmt d1 (render_string (the (cj_string c)), T c)"
  shows "\<lbrakk> cs \<noteq> []; white w; 3 * length (join ([44] @ nl fmt) (map M cs)) < k;
     \<forall>c \<in> set cs. cj_string c \<noteq> None \<and> (\<exists>x t. T c = x # t \<and> opens x)
        \<and> (\<forall>k' \<ge> 3 * length (T c). reads (parse_value fp mal k') fp c (T c)) \<rbrakk> \<Longrightarrow>
   yields (object_loop fp mal k (w @ join ([44] @ nl fmt) (map M cs) @ nl fmt @ tabs fmt d @ 125 # r))
     (map (\<lambda>c. as_parsed fp (map_option cstr (cj_string c)) c) cs, r)"
proof (induction cs arbitrary: w k)
  case (Cons c cs)
  obtain k1 where k: "k = Suc k1" using Cons.prems(3) by (cases k) auto
  obtain x t where x: "T c = x # t" "opens x" using Cons.prems(4) by auto
  obtain s where s: "cj_string c = Some s" using Cons.prems(4) by auto
  let ?J = "join ([44] @ nl fmt) (map M cs)"
  let ?fin = "nl fmt @ tabs fmt d @ 125 # r"
  define tail where "tail = (if cs = [] then ?fin else 44 # nl fmt @ ?J @ ?fin)"
  have tx: "w @ join ([44] @ nl fmt) (map M (c # cs)) @ ?fin
      = (w @ tabs fmt d1) @ render_string s @ 58 # tabs fmt 1 @ T c @ tail"
    by (simp add: join_Cons tail_def M member_text_def s del: join.simps(2,3))
  have len: "length (join ([44] @ nl fmt) (map M (c # cs)))
      = length (M c) + (if cs = [] then 0 else 1 + length (nl fmt) + length ?J)" "length (T c) < length (M c)"
    by (simp_all add: join_Cons M member_text_def del: join.simps(2,3))
  obtain y u where y: "tail = y # u" "follow y"
  proof (cases "cs = [] \<and> fmt")
    case True
    then show ?thesis using that [of 10 "tabs fmt d @ 125 # r"] by (simp add: tail_def follow_def nl_def)
  next
    case False
    then show ?thesis using that [of 125 r] that [of 44 "nl fmt @ ?J @ ?fin"]
      by (cases "cs = []") (auto simp: tail_def follow_def nl_def tabs_def)
  qed
  have sk: "skip (y # u) = Some (if cs = [] then 125 # r else tail)"
  proof (cases "cs = []")
    case True
    then have "y # u = (nl fmt @ tabs fmt d) @ 125 # r" using y(1) by (simp add: tail_def)
    then show ?thesis using True skip_white [of "nl fmt @ tabs fmt d" "125 # r"] by simp
  qed (simp add: tail_def flip: y(1))
  have sk1: "skip ((w @ tabs fmt d1) @ render_string s @ q) = Some (render_string s @ q)" for q
    using Cons.prems(2) by (subst skip_white) (simp_all add: render_string_def)
  have sk2: "skip (tabs fmt 1 @ T c @ y # u) = Some (T c @ y # u)"
    using skip_opens [OF x(2)] x(1) by (subst skip_white) simp_all
  have "reads (parse_value fp mal k1) fp c (T c)"
    using Cons.prems(3,4) k len by auto
  then have v: "yields (parse_value fp mal k1 (fresh fp cJSON_String (Some (cstr s))) (T c @ y # u))
      (as_parsed fp (Some (cstr s)) c, y # u)"
    using y(2) unfolding reads_def by blast
  let ?c = "as_parsed fp (Some (cstr s)) c"
  have loop: "yields (pbind (plift (cur (if cs = [] then 125 # r else tail))) (\<lambda>ch.
       if ch = 44 then pbind (object_loop fp mal k1 (tl (if cs = [] then 125 # r else tail)))
         (\<lambda>(cs, r4). pret (?c # cs, r4))
       else if ch = 125 then pret ([?c], tl (if cs = [] then 125 # r else tail))
       else perror (if cs = [] then 125 # r else tail)))
     (map (\<lambda>c. as_parsed fp (map_option cstr (cj_string c)) c) (c # cs), r)"
  proof (cases "cs = []")
    case True
    then show ?thesis by (simp add: s)
  next
    case False
    have "yields (object_loop fp mal k1 (nl fmt @ ?J @ ?fin))
        (map (\<lambda>c. as_parsed fp (map_option cstr (cj_string c)) c) cs, r)"
      using Cons.prems(3,4) k len False by (intro Cons.IH) auto
    then show ?thesis using False by (auto simp: tail_def s intro: yields_bind)
  qed
  have inner: "yields (pbind (plift (skip (tabs fmt 1 @ T c @ tail))) (\<lambda>v1.
       pbind (parse_value fp mal k1 (fresh fp cJSON_String (Some (cstr s))) v1) (\<lambda>(c, r2).
       pbind (plift (skip r2)) (\<lambda>r3.
       pbind (plift (cur r3)) (\<lambda>ch.
       if ch = 44 then pbind (object_loop fp mal k1 (tl r3)) (\<lambda>(cs, r4). pret (c # cs, r4))
       else if ch = 125 then pret ([c], tl r3)
       else perror r3)))))
     (map (\<lambda>c. as_parsed fp (map_option cstr (cj_string c)) c) (c # cs), r)"
    unfolding y(1) sk2 lift_bind
    by (rule yields_bind [OF v]) (unfold prod.case sk lift_bind, rule loop)
  show ?case
    unfolding tx k object_loop.simps object_loop_body_def
    by (rule yields_bind [OF yields_New_Item [OF mal]], unfold sk1 lift_bind,
        rule yields_bind [OF parse_render_string [OF mal]])
      (use inner in simp)
qed simp

text \<open>The parser reads back the text of every item whose numbers are integers.\<close>

lemma word_lengths: "length word_null = 4" "length word_false = 5" "length word_true = 4"
  by (simp_all add: word_null_def word_false_def word_true_def)

lemma parse_words:
  "parse_value fp mal (Suc k) (CJSON ty vs vi vd nm ch) (word_null @ r) = pret (CJSON cJSON_NULL vs vi vd nm ch, r)"
  "parse_value fp mal (Suc k) (CJSON ty vs vi vd nm ch) (word_false @ r) = pret (CJSON cJSON_False vs vi vd nm ch, r)"
  "parse_value fp mal (Suc k) (CJSON ty vs vi vd nm ch) (word_true @ r) = pret (CJSON cJSON_True vs 1 vd nm ch, r)"
  by (simp_all add: parse_value_body_def word_null_def word_false_def word_true_def)

lemma array_reads:
  assumes mal: "\<forall>n. mal n" and k: "3 * length ([91] @ join (array_sep fmt) (map T cs) @ [93]) \<le> k"
    and T: "\<forall>c \<in> set cs. (\<exists>x t. T c = x # t \<and> opens x)
        \<and> (\<forall>k' \<ge> 3 * length (T c). reads (parse_value fp mal k') fp c (T c))"
  shows "yields (parse_value fp mal k (fresh fp ty nm) (([91] @ join (array_sep fmt) (map T cs) @ [93]) @ r))
    (CJSON cJSON_Array None 0 (f_of_int fp 0) nm (map (as_parsed fp None) cs), r)"
proof -
  let ?J = "join (array_sep fmt) (map T cs)"
  obtain k1 where k1: "k = Suc (Suc k1)" using k by (cases k; cases "k - 1") auto
  have "yields (parse_array fp mal (Suc k1) (fresh fp ty nm) (91 # ?J @ 93 # r))
    (CJSON cJSON_Array None 0 (f_of_int fp 0) nm (map (as_parsed fp None) cs), r)"
  proof (cases cs)
    case Nil
    then show ?thesis by (simp add: parse_array_body_def)
  next
    case (Cons c cs')
    then obtain x t where x: "T c = x # t" "opens x" using T by auto
    obtain u where u: "?J @ 93 # r = x # u" using x by (auto simp: Cons join_Cons simp del: join.simps(2,3))
    have "yields (array_loop fp mal k1 ([] @ ?J @ 93 # r)) (map (as_parsed fp None) cs, r)"
      using k k1 T by (intro array_loop_reads [OF mal]) (auto simp: Cons white_def)
    then have "yields (array_loop fp mal k1 (x # u)) (map (as_parsed fp None) cs, r)"
      using u by simp
    then have "yields (pbind (array_loop fp mal k1 (x # u))
        (\<lambda>(cs, r). pret (CJSON cJSON_Array None 0 (f_of_int fp 0) nm cs, r)))
      (CJSON cJSON_Array None 0 (f_of_int fp 0) nm (map (as_parsed fp None) cs), r)"
      by (rule yields_bind) simp
    then show ?thesis
      using opens_not [OF x(2)] skip_opens [OF x(2), of u]
      by (simp add: parse_array_body_def u del: skip.simps)
  qed
  then show ?thesis
    unfolding k1 by (simp add: parse_value_first is_digit_def del: parse_array.simps parse_value.simps)
qed

lemma object_reads:
  assumes mal: "\<forall>n. mal n" and M: "\<And>c. M c = member_text fmt d1 (render_string (the (cj_string c)), T c)"
    and k: "3 * length ([123] @ nl fmt @ join ([44] @ nl fmt) (map M cs) @ nl fmt @ tabs fmt d @ [125]) \<le> k"
    and ne: "cs \<noteq> []"
    and T: "\<forall>c \<in> set cs. cj_string c \<noteq> None \<and> (\<exists>x t. T c = x # t \<and> opens x)
        \<and> (\<forall>k' \<ge> 3 * length (T c). reads (parse_value fp mal k') fp c (T c))"
  shows "yields (parse_value fp mal k (fresh fp ty nm)
      (([123] @ nl fmt @ join ([44] @ nl fmt) (map M cs) @ nl fmt @ tabs fmt d @ [125]) @ r))
    (CJSON cJSON_Object None 0 (f_of_int fp 0) nm
      (map (\<lambda>c. as_parsed fp (map_option cstr (cj_string c)) c) cs), r)"
proof -
  let ?J = "join ([44] @ nl fmt) (map M cs)"
  let ?cs = "map (\<lambda>c. as_parsed fp (map_option cstr (cj_string c)) c) cs"
  obtain k1 where k1: "k = Suc (Suc k1)" using k by (cases k; cases "k - 1") auto
  obtain c cs' where Cons: "cs = c # cs'" using ne by (cases cs) auto
  obtain u where u: "?J @ nl fmt @ tabs fmt d @ 125 # r = tabs fmt d1 @ QUOTE # u"
    by (auto simp: Cons join_Cons M member_text_def render_string_def simp del: join.simps(2,3))
  have sk: "skip (nl fmt @ ?J @ nl fmt @ tabs fmt d @ 125 # r) = Some (QUOTE # u)"
    unfolding u by (simp add: skip_white)
  have "yields (object_loop fp mal k1 (QUOTE # u)) (?cs, r)"
  proof -
    have "yields (object_loop fp mal k1 (tabs fmt d1 @ QUOTE # u)) (?cs, r)"
      using object_loop_reads [OF mal M, where cs = cs and w = "[]" and k = k1 and fp = fp and d = d and r = r] k k1 T ne u by (auto simp: white_def)
    moreover have "object_loop fp mal k1 (tabs fmt d1 @ QUOTE # u) = object_loop fp mal k1 (QUOTE # u)"
      by (cases k1) (simp_all add: object_loop_body_def skip_white)
    ultimately show ?thesis by simp
  qed
  then have "yields (pbind (object_loop fp mal k1 (QUOTE # u))
        (\<lambda>(cs, r). pret (CJSON cJSON_Object None 0 (f_of_int fp 0) nm cs, r)))
      (CJSON cJSON_Object None 0 (f_of_int fp 0) nm ?cs, r)"
    by (rule yields_bind) simp
  then have "yields (parse_object fp mal (Suc k1) (fresh fp ty nm)
      (123 # nl fmt @ ?J @ nl fmt @ tabs fmt d @ 125 # r))
    (CJSON cJSON_Object None 0 (f_of_int fp 0) nm ?cs, r)"
    by (simp add: parse_object_body_def sk [simplified] del: skip.simps)
  then show ?thesis
    unfolding k1 by (simp add: parse_value_first is_digit_def del: parse_object.simps parse_value.simps)
qed

lemma render_reads:
  assumes mal: "\<forall>n. mal n" and fp: "exact_ints fp"
  shows "printable fp item \<Longrightarrow> integral fp item \<Longrightarrow> 3 * length (render fp fmt depth item) \<le> k \<Longrightarrow>
    reads (parse_value fp mal k) fp item (render fp fmt depth item)"
proof (induction item arbitrary: depth k)
  case (CJSON ty vs vi vd nm0 ch)
  let ?item = "CJSON ty vs vi vd nm0 ch"
  have r1: "\<exists>c t. render fp fmt depth ?item = c # t \<and> opens c"
    by (rule render_first [OF fp CJSON.prems(1,2)])
  then obtain k1 where k: "k = Suc k1" using CJSON.prems(3) by (cases k) auto
  have sub: "\<forall>c \<in> set ch. (\<exists>x t. render fp fmt (depth + 1) c = x # t \<and> opens x)
      \<and> (\<forall>k' \<ge> 3 * length (render fp fmt (depth + 1) c).
           reads (parse_value fp mal k') fp c (render fp fmt (depth + 1) c))"
    if "ty mod 256 = cJSON_Array \<or> ty mod 256 = cJSON_Object"
    using that CJSON.prems(1,2) CJSON.IH render_first [OF fp] by auto
  consider "ty mod 256 = 0" | "ty mod 256 = 1" | "ty mod 256 = 2" | "ty mod 256 = cJSON_Number"
    | "ty mod 256 = cJSON_String" | "ty mod 256 = cJSON_Array" | "ty mod 256 = cJSON_Object"
    using kind_cases [of "ty mod 256"] CJSON.prems(1) unfolding cjson_types by auto
  then show ?case
  proof cases
    case 4
    then have vd: "vd = f_of_int fp vi" and vi: "- (2 ^ 31) \<le> vi" "vi < 2 ^ 31"
      using CJSON.prems(2) by auto
    have t: "render fp fmt depth ?item = fmt_d vi"
      using 4 vd number_text_int [OF fp vi] by (simp add: Let_def cjson_types)
    obtain x u where x: "fmt_d vi = x # u" "x = 45 \<or> is_digit x" using fmt_d_first by blast
    have ne: "x \<noteq> 110" "x \<noteq> 102" "x \<noteq> 116" "x \<noteq> QUOTE" using x(2) by (auto simp: is_digit_def)
    show ?thesis
      unfolding reads_def k
    proof (intro allI impI)
      fix ty' nm c r assume c: "follow c"
      have "parse_number fp (x # u @ c # r) = Some (vd, vi, c # r)"
        using parse_number_fmt [OF fp vi c, of r] x(1) vd by simp
      then show "yields (parse_value fp mal (Suc k1) (fresh fp ty' nm) (render fp fmt depth ?item @ c # r))
          (as_parsed fp nm ?item, c # r)"
        unfolding t x(1) using ne x(2) 4
        by (simp add: parse_value_first Let_def cjson_types del: parse_value.simps)
    qed
  next
    case 5
    then obtain s where s: "vs = Some s" using CJSON.prems(1) by auto
    have t: "render fp fmt depth ?item = render_string s" using 5 s by (simp add: Let_def cjson_types)
    obtain u where u: "render_string s = QUOTE # u" by (simp add: render_string_def)
    show ?thesis
      unfolding reads_def k
    proof (intro allI impI)
      fix ty' nm c r
      have "yields (parse_string mal (QUOTE # u @ c # r)) (cstr s, c # r)"
        using parse_render_string [OF mal, of s "c # r"] u by simp
      then have "yields (pbind (parse_string mal (QUOTE # u @ c # r))
          (\<lambda>(s, r'). pret (CJSON cJSON_String (Some s) 0 (f_of_int fp 0) nm [], r')))
          (CJSON cJSON_String (Some (cstr s)) 0 (f_of_int fp 0) nm [], c # r)"
        by (rule yields_bind) simp
      then show "yields (parse_value fp mal (Suc k1) (fresh fp ty' nm) (render fp fmt depth ?item @ c # r))
          (as_parsed fp nm ?item, c # r)"
        unfolding t u using 5 s
        by (simp add: parse_value_first Let_def cjson_types del: parse_value.simps)
    qed
  next
    case 6
    then have t: "render fp fmt depth ?item = [91] @ join (array_sep fmt) (map (render fp fmt (depth + 1)) ch) @ [93]"
      by (simp add: Let_def cjson_types)
    have p: "as_parsed fp nm ?item = CJSON cJSON_Array None 0 (f_of_int fp 0) nm (map (as_parsed fp None) ch)" for nm
      using 6 by (simp add: Let_def cjson_types)
    show ?thesis
      unfolding reads_def p t using array_reads [OF mal, of fmt "render fp fmt (depth + 1)" ch k fp]
        CJSON.prems(3) [unfolded t] sub 6 by blast
  next
    case 7
    let ?M = "\<lambda>c. member_text fmt (depth + 1) (render_string (the (cj_string c)), render fp fmt (depth + 1) c)"
    have p: "as_parsed fp nm ?item = CJSON cJSON_Object None 0 (f_of_int fp 0) nm
        (map (\<lambda>c. as_parsed fp (map_option cstr (cj_string c)) c) ch)" for nm
      using 7 by (simp add: Let_def cjson_types)
    show ?thesis
    proof (cases "ch = []")
      case True
      then have t: "render fp fmt depth ?item @ r = 123 # (nl fmt @ tabs fmt (depth - 1)) @ 125 # r" for r
        unfolding render_object [OF 7] by simp
      obtain k2 where k2: "k1 = Suc k2"
        using CJSON.prems(3) t [of "[]"] k by (cases k1) auto
      have "parse_value fp mal k (fresh fp ty' nm) (render fp fmt depth ?item @ r)
          = pret (as_parsed fp nm ?item, r)" for ty' nm r
        using skip_white [of "nl fmt @ tabs fmt (depth - 1)" "125 # r"]
        unfolding t p unfolding k k2 True
        by (simp add: parse_value_first is_digit_def parse_object_body_def del: parse_value.simps)
      then show ?thesis unfolding reads_def by simp
    next
      case False
      have t: "render fp fmt depth ?item
          = [123] @ nl fmt @ join ([44] @ nl fmt) (map ?M ch) @ nl fmt @ tabs fmt depth @ [125]"
        unfolding render_object [OF 7] using False by (simp add: comp_def)
      have names: "\<forall>c \<in> set ch. cj_string c \<noteq> None" using CJSON.prems(1) 7 by simp
      show ?thesis
        unfolding reads_def p t
        using object_reads [OF mal refl CJSON.prems(3) [unfolded t] False] sub 7 names by blast
    qed
  qed (unfold reads_def k, auto simp: Let_def cjson_types parse_words simp del: parse_value.simps)
qed

section \<open>Properties\<close>

text \<open>Arithmetic on integers, for examples: exact, with conversions to a 32-bit \<open>int\<close> that give
  the smallest \<open>int\<close> for what does not fit.\<close>

definition int_fp :: "int fp" where
  "int_fp = \<lparr> f_of_int = id, f_add = (+), f_mul = (*), f_pow10 = (\<lambda>e. 10 ^ nat e), f_to_int = (\<lambda>d. if - (2 ^ 31) \<le> d \<and> d < 2 ^ 31 then d else - (2 ^ 31)),
     f_is_zero = (\<lambda>d. d = 0), f_is_int = (\<lambda>i d. i = d \<and> d < 2 ^ 31 \<and> - (2 ^ 31) \<le> d), f_is_whole = (\<lambda>_. True), f_is_extreme = (\<lambda>_. False),
     f_print_whole = fmt_d, f_print_exp = fmt_d, f_print_fix = fmt_d \<rparr>"

lemma exact_int_fp: "exact_ints int_fp"
  by (simp add: exact_ints_def int_fp_def)

text \<open>\<open>{"a": [-12, "x\n"]}\<close>\<close>

definition sample_item :: "int cJSON" where
  "sample_item = CJSON cJSON_Object None 0 0 None
     [CJSON cJSON_Array None 0 0 (Some [97])
        [CJSON cJSON_Number None (- 12) (- 12) None [], CJSON cJSON_String (Some [120, 10]) 0 0 None []]]"

lemma sample_printable: "printable int_fp sample_item" "integral int_fp sample_item"
  by (simp_all add: sample_item_def cjson_types int_fp_def printable_number_def)

text \<open>C20: Printing, formatted or not, never writes behind a string it allocated: for every printable item
  the printer returns either \<open>NULL\<close>, and only when an allocation failed, or exactly the text of the item.\<close>

theorem cjson_print_delivers:
  assumes "printable fp item"
  shows "\<exists>r st'. print_value fp mal fmt depth item st = Some (r, st')
     \<and> (r = Some (render fp fmt depth item) \<or> r = None \<and> \<not> (\<forall>n. mal n))"
  using print_delivers(1) [OF assms] unfolding delivers_def by blast

theorem cjson_print_delivers_witness:
  "\<exists>r st'. print_value int_fp (\<lambda>n. n \<noteq> 3) True 0 sample_item (0, None) = Some (r, st')
     \<and> (r = Some (render int_fp True 0 sample_item) \<or> r = None \<and> \<not> (\<forall>n. n \<noteq> (3::nat)))"
  using cjson_print_delivers [OF sample_printable(1)] by blast

text \<open>C19: The round trip: when allocations succeed, \<open>cJSON_Parse\<close> reads the text printed for an item
  whose numbers are all integers of 32 bits back as that item, up to the fields its types do not use, whether it was printed formatted or not.\<close>

theorem cjson_round_trip:
  assumes "\<forall>n. mal n" and "exact_ints fp" and "printable fp item" and "integral fp item"
  shows "\<exists>t st1 st2. print_value fp mal fmt 0 item (a, e) = Some (Some t, st1)
     \<and> cJSON_Parse fp mal (t @ [0]) b = Some (Some (as_parsed fp None item, [0]), st2)"
proof -
  let ?t = "render fp fmt 0 item"
  obtain st1 where p: "print_value fp mal fmt 0 item (a, e) = Some (Some ?t, st1)"
    using print_delivers(1) [OF assms(3)] assms(1) unfolding delivers_def by blast
  obtain c u where c: "?t = c # u" "opens c" using render_first [OF assms(2,3,4)] by blast
  have "yields (parse_value fp mal (3 * length (?t @ [0])) (fresh fp 0 None) (?t @ 0 # [])) (as_parsed fp None item, [0])"
    using render_reads [OF assms(1,2,3,4), of fmt 0 "3 * length (?t @ [0])"]
    unfolding reads_def by (simp add: follow_def)
  then have "yields (pbind (cJSON_New_Item fp mal) (\<lambda>c.
     pbind (plift (skip (?t @ [0]))) (\<lambda>v.
     pbind (parse_value fp mal (3 * length (?t @ [0])) c v) (\<lambda>(item, e). pret (item, e)))))
     (as_parsed fp None item, [0])"
    using skip_opens [OF c(2), of "u @ [0]"] c(1)
    by (intro yields_bind [OF yields_New_Item [OF assms(1)]])
      (auto intro: yields_bind simp del: skip.simps parse_value.simps)
  then have "\<exists>st2. cJSON_Parse fp mal (?t @ [0]) b = Some (Some (as_parsed fp None item, [0]), st2)"
    unfolding cJSON_Parse_def cJSON_ParseWithOpts_def yields_def if_False by blast
  then show ?thesis using p by blast
qed

theorem cjson_round_trip_witness:
  "\<exists>t st1 st2. print_value int_fp (\<lambda>_. True) True 0 sample_item (0, None) = Some (Some t, st1)
     \<and> cJSON_Parse int_fp (\<lambda>_. True) (t @ [0]) 0 = Some (Some (as_parsed int_fp None sample_item, [0]), st2)"
  by (rule cjson_round_trip [OF _ exact_int_fp sample_printable]) simp

text \<open>C21: The parser ends on every text: its recursion never goes deeper than three calls for each
  byte.  With that much fuel, or more, the recursion gives the result of the parser whatever procedures
  \<open>zf\<close> and \<open>zi\<close> stand in the place where the fuel is used up, so no call ever gets there; a
  recursion that does not end would give their result instead.\<close>

theorem cjson_parse_ends:
  assumes "v \<noteq> []" and "3 * length v \<le> k"
  shows "value_upto zf zi fp mal k item v = parse_value fp mal (3 * length v) item v"
  using upto_enough(1) [OF assms, of zf zi fp mal item] fuel_enough(1) [OF assms(2) order_refl, of fp mal item] by simp

theorem cjson_parse_ends_witness:
  "value_upto (\<lambda>item v. pret (item, [7])) (\<lambda>v. pret ([], [7])) int_fp (\<lambda>_. True) 100 (fresh int_fp 0 None) [91, 91, 93, 93, 0]
   = parse_value int_fp (\<lambda>_. True) (3 * length [91, 91, 93, 93, 0 :: u8]) (fresh int_fp 0 None) [91, 91, 93, 93, 0]"
  by (rule cjson_parse_ends) simp_all

text \<open>Parsing a string never reads behind the text nor writes behind the copy, when every backslash
  before the closing quote is followed by a character, and every \<open>\u\<close> by four hexadecimal digits.\<close>

theorem cjson_string_safe:
  assumes "well_escaped s"
  shows "parse_string mal (QUOTE # s) st \<noteq> None"
  by (rule string_safe [OF assms])

text \<open>\<open>x\u00e9\ud83d\ude00"\<close>\<close>

theorem cjson_string_safe_witness:
  "parse_string (\<lambda>_. True) (QUOTE # [120, 92, 117, 48, 48, 101, 57, 92, 117, 100, 56, 51, 100,
     92, 117, 100, 101, 48, 48, 34, 0]) (0, None) \<noteq> None"
  by (rule cjson_string_safe) (simp add: is_hex_def hex_digit_def)

text \<open>Without that condition it does: in \<open>"\u1"AAAAAAAA"\<close> the escape makes the copy jump over the quote
  at which the size was counted, and the copy is longer than the string allocated for it.\<close>

theorem cjson_string_overflow:
  "cJSON_Parse int_fp (\<lambda>_. True) jumping_text 0 = None"
proof -
  have "\<exists>t. jumping_text = QUOTE # t \<and> skip jumping_text = Some (QUOTE # t)
      \<and> 3 * length jumping_text = Suc (3 * length t + 2)"
    by (simp add: jumping_text_def)
  then obtain t where t: "jumping_text = QUOTE # t" "skip jumping_text = Some (QUOTE # t)"
    "3 * length jumping_text = Suc (3 * length t + 2)" by blast
  have "parse_string (\<lambda>_. True) (QUOTE # t) st = None" for st
    using string_overflow [of st] t(1) by simp
  then have "parse_value int_fp (\<lambda>_. True) (Suc (3 * length t + 2)) (fresh int_fp 0 None) (QUOTE # t) st = None" for st
    by (simp add: parse_value_first pbind_def del: parse_value.simps)
  then show ?thesis
    unfolding cJSON_Parse_def cJSON_ParseWithOpts_def t(2,3)
    by (simp add: cJSON_New_Item_def pbind_def palloc_def pret_def plift_def del: parse_value.simps)
qed

end
