(* ===== verification/Cjson_Buffer.thy ===== *)
theory Cjson_Buffer
  imports Cjson_Print
begin

unbundle bit_operations_syntax

text \<open>
  Printing into a growing buffer (\<open>ensure\<close>, \<open>update\<close>, the branches for \<open>p != 0\<close>, \<open>cJSON_PrintBuffered\<close>).
  The state holds the number of allocations, the buffer (\<open>NULL\<close> or its bytes, whose number is
  \<open>p->length\<close>) and \<open>p->offset\<close>.  A pointer into the buffer is its index.  New memory starts with the bytes
  that \<open>junk\<close> gives.
\<close>

type_synonym pbuf = "nat \<times> bytes option \<times> nat"

type_synonym 'a bproc = "(pbuf, 'a) sproc"

definition pow2gt :: "u32 \<Rightarrow> u32" where
  "pow2gt x0 =
     (let x1 = x0 - 1; x2 = x1 OR drop_bit 1 x1; x3 = x2 OR drop_bit 2 x2; x4 = x3 OR drop_bit 4 x3;
          x5 = x4 OR drop_bit 8 x4; x6 = x5 OR drop_bit 16 x5 in x6 + 1)"

definition grown :: "(nat \<Rightarrow> u8) \<Rightarrow> bytes \<Rightarrow> nat \<Rightarrow> bytes option" where
  "grown junk buf newsize =
     (if length buf \<le> newsize then Some (buf @ map junk [length buf..<newsize]) else None)"

definition ensure :: "(nat \<Rightarrow> bool) \<Rightarrow> (nat \<Rightarrow> u8) \<Rightarrow> nat \<Rightarrow> nat bproc" where
  "ensure mal junk needed = (\<lambda>(a, b, off).
     case b of None \<Rightarrow> Some (None, a, b, off)
     | Some buf \<Rightarrow>
       if needed + off \<le> length buf then Some (Some off, a, b, off)
       else if \<not> mal a then Some (None, a + 1, None, off)
       else (case grown junk buf (unat (pow2gt (of_nat (needed + off)))) of None \<Rightarrow> None
             | Some buf' \<Rightarrow> Some (Some off, a + 1, Some buf', off)))"

definition bwrite :: "nat \<Rightarrow> bytes \<Rightarrow> unit bproc" where
  "bwrite pos bs = (\<lambda>(a, b, off).
     case b of None \<Rightarrow> None
     | Some buf \<Rightarrow>
       if pos + length bs \<le> length buf
       then Some (Some (), a, Some (take pos buf @ bs @ drop (pos + length bs) buf), off) else None)"

definition advance :: "nat \<Rightarrow> unit bproc" where
  "advance n = (\<lambda>(a, b, off). Some (Some (), a, b, off + n))"

definition the_offset :: "nat bproc" where "the_offset = (\<lambda>(a, b, off). Some (Some off, a, b, off))"

text \<open>\<open>p->offset = update(p)\<close>\<close>

definition update :: "unit bproc" where
  "update = (\<lambda>(a, b, off).
     case b of None \<Rightarrow> Some (Some (), a, b, 0)
     | Some buf \<Rightarrow>
       if 0 \<in> set (drop off buf) then Some (Some (), a, b, off + length (cstr (drop off buf))) else None)"

definition b_text :: "(nat \<Rightarrow> bool) \<Rightarrow> (nat \<Rightarrow> u8) \<Rightarrow> nat \<Rightarrow> bytes \<Rightarrow> nat bproc" where
  "b_text mal junk needed t =
     pbind (ensure mal junk needed) (\<lambda>p. pbind (bwrite p (t @ [0])) (\<lambda>_. pret p))"

definition b_print_number ::
  "'d fp \<Rightarrow> (nat \<Rightarrow> bool) \<Rightarrow> (nat \<Rightarrow> u8) \<Rightarrow> int \<Rightarrow> 'd \<Rightarrow> nat bproc" where
  "b_print_number fp mal junk i d = b_text mal junk (number_size fp i d) (number_text fp i d)"

text \<open>The text is written from the pointer on, into what remains of the buffer.\<close>

definition b_print_string_ptr :: "(nat \<Rightarrow> bool) \<Rightarrow> (nat \<Rightarrow> u8) \<Rightarrow> bytes option \<Rightarrow> nat bproc" where
  "b_print_string_ptr mal junk str =
     (case str of None \<Rightarrow> plift None
      | Some s0 \<Rightarrow>
        let s = cstr s0 in
        pbind (ensure mal junk (string_size s)) (\<lambda>p (a, b, off).
          (case b of None \<Rightarrow> None
           | Some buf \<Rightarrow> pbind (plift (string_text s (length buf - p)))
               (\<lambda>t. pbind (bwrite p (t @ [0])) (\<lambda>_. pret p)) (a, b, off))))"

section \<open>Containers\<close>

text \<open>Ensure \<open>needed\<close> bytes, write, and move the offset by \<open>len\<close>.\<close>

definition b_emit :: "(nat \<Rightarrow> bool) \<Rightarrow> (nat \<Rightarrow> u8) \<Rightarrow> nat \<Rightarrow> bytes \<Rightarrow> nat \<Rightarrow> unit bproc" where
  "b_emit mal junk needed bs len =
     pbind (ensure mal junk needed) (\<lambda>p. pbind (bwrite p bs) (\<lambda>_. advance len))"

definition b_print_array :: "(nat \<Rightarrow> bool) \<Rightarrow> (nat \<Rightarrow> u8) \<Rightarrow> bool \<Rightarrow> unit bproc \<Rightarrow> nat bproc" where
  "b_print_array mal junk noch items =
     (if noch then b_text mal junk 3 [91, 93]
      else pbind the_offset (\<lambda>i.
        pbind (b_emit mal junk 1 [91] 1) (\<lambda>_.
        pbind items (\<lambda>_.
        pbind (b_emit mal junk 2 [93, 0] 0) (\<lambda>_. pret i)))))"

definition b_print_object ::
  "(nat \<Rightarrow> bool) \<Rightarrow> (nat \<Rightarrow> u8) \<Rightarrow> bool \<Rightarrow> nat \<Rightarrow> bool \<Rightarrow> unit bproc \<Rightarrow> nat bproc" where
  "b_print_object mal junk fmt depth noch items =
     (if noch then
        b_text mal junk (if fmt then depth + 4 else 3)
          (123 # (if fmt then [10] else []) @ tabs fmt (depth - 1) @ [125])
      else pbind the_offset (\<lambda>i.
        let len = (if fmt then 2 else 1); d = depth + 1 in
        pbind (b_emit mal junk (len + 1) (123 # (if fmt then [10] else []) @ [0]) len) (\<lambda>_.
        pbind items (\<lambda>_.
        pbind (b_emit mal junk (if fmt then d + 1 else 2) (tabs fmt (d - 1) @ [125, 0]) 0) (\<lambda>_. pret i)))))"

text \<open>The loops over the items; the result of printing an item is ignored.\<close>

fun b_print_value ::
    "'d fp \<Rightarrow> (nat \<Rightarrow> bool) \<Rightarrow> (nat \<Rightarrow> u8) \<Rightarrow> bool \<Rightarrow> nat \<Rightarrow> 'd cJSON \<Rightarrow> nat bproc"
  and b_array_items ::
    "'d fp \<Rightarrow> (nat \<Rightarrow> bool) \<Rightarrow> (nat \<Rightarrow> u8) \<Rightarrow> bool \<Rightarrow> nat \<Rightarrow> 'd cJSON list \<Rightarrow> unit bproc"
  and b_object_items ::
    "'d fp \<Rightarrow> (nat \<Rightarrow> bool) \<Rightarrow> (nat \<Rightarrow> u8) \<Rightarrow> bool \<Rightarrow> nat \<Rightarrow> 'd cJSON list \<Rightarrow> unit bproc"
where
  "b_print_value fp mal junk fmt depth (CJSON ty vs vi vd nm ch) =
     (let k = ty mod 256 in
      if k = cJSON_NULL then b_text mal junk 5 word_null
      else if k = cJSON_False then b_text mal junk 6 word_false
      else if k = cJSON_True then b_text mal junk 5 word_true
      else if k = cJSON_Number then b_print_number fp mal junk vi vd
      else if k = cJSON_String then b_print_string_ptr mal junk vs
      else if k = cJSON_Array then
        b_print_array mal junk (ch = []) (b_array_items fp mal junk fmt (depth + 1) ch)
      else if k = cJSON_Object then
        b_print_object mal junk fmt depth (ch = []) (b_object_items fp mal junk fmt (depth + 1) ch)
      else pnull)"
| "b_array_items fp mal junk fmt depth [] = pret ()"
| "b_array_items fp mal junk fmt depth (c # cs) =
     pbind (ptry (b_print_value fp mal junk fmt depth c)) (\<lambda>_.
     pbind update (\<lambda>_.
     pbind (if cs = [] then pret ()
            else b_emit mal junk ((if fmt then 2 else 1) + 1) (array_sep fmt @ [0]) (if fmt then 2 else 1)) (\<lambda>_.
       b_array_items fp mal junk fmt depth cs)))"
| "b_object_items fp mal junk fmt depth [] = pret ()"
| "b_object_items fp mal junk fmt depth (c # cs) =
     pbind (if fmt then b_emit mal junk depth (tabs fmt depth) depth else pret ()) (\<lambda>_.
     pbind (ptry (b_print_string_ptr mal junk (cj_string c))) (\<lambda>_.
     pbind update (\<lambda>_.
     pbind (b_emit mal junk (if fmt then 2 else 1) (58 # tabs fmt 1) (if fmt then 2 else 1)) (\<lambda>_.
     pbind (ptry (b_print_value fp mal junk fmt depth c)) (\<lambda>_.
     pbind update (\<lambda>_.
     let len = (if fmt then 1 else 0) + (if cs = [] then 0 else 1) in
     pbind (b_emit mal junk (len + 1) ((if cs = [] then [] else [44]) @ (if fmt then [10] else []) @ [0]) len) (\<lambda>_.
       b_object_items fp mal junk fmt depth cs)))))))"

text \<open>The result is the pointer and the state at the end.\<close>

definition cJSON_PrintBuffered ::
  "'d fp \<Rightarrow> (nat \<Rightarrow> bool) \<Rightarrow> (nat \<Rightarrow> u8) \<Rightarrow> 'd cJSON \<Rightarrow> nat \<Rightarrow> bool \<Rightarrow> nat \<Rightarrow> (nat option \<times> pbuf) option" where
  "cJSON_PrintBuffered fp mal junk item prebuffer fmt allocs =
     b_print_value fp mal junk fmt 0 item
       (allocs + 1, if mal allocs then Some (map junk [0..<prebuffer]) else None, 0)"

end
