(* ===== verification/Cjson_Buffered.thy ===== *)
theory Cjson_Buffered
  imports Cjson_Buffer Cjson_Printed
begin

unbundle bit_operations_syntax

text \<open>
  Printing into a buffer gives the same text as printing into strings: what every step appends to the
  buffer, that it never leaves the buffer, and what remains when the buffer is lost.
\<close>

section \<open>Growing\<close>

lemma smear:
  "uint (x :: u32) < 2 ^ 30 \<Longrightarrow> uint x \<le> uint (x OR drop_bit n x) \<and> uint (x OR drop_bit n x) < 2 ^ 30"
proof -
  assume x: "uint x < 2 ^ 30"
  have d: "uint (drop_bit n x) = uint x div 2 ^ n"
    unfolding unsigned_drop_bit_eq
    using x take_bit_int_eq_self [of "uint x" 32] by (simp add: drop_bit_eq_div)
  have "uint x div 2 ^ n \<le> uint x" by (simp add: div_le_dividend zdiv_mono2 [of _ 1, simplified])
  then have "0 \<le> uint (drop_bit n x)" "uint (drop_bit n x) < 2 ^ 30" using x d by (auto simp: pos_imp_zdiv_nonneg_iff)
  then have "uint x OR uint (drop_bit n x) < 2 ^ 30" using x by (intro OR_upper) auto
  moreover have "uint x \<le> uint x OR uint (drop_bit n x)" by (simp add: or_greater_eq)
  ultimately show ?thesis by (simp add: unsigned_or_eq)
qed

lemma pow2gt_ge:
  assumes "0 < n" "n \<le> 2 ^ 30"
  shows "n \<le> unat (pow2gt (of_nat n))"
proof -
  let ?x = "of_nat n - 1 :: u32"
  have x: "?x = of_nat (n - 1)" using assms(1) by (simp add: of_nat_diff)
  have u: "uint ?x = int (n - 1)"
  proof -
    have "unat (of_nat (n - 1) :: u32) = n - 1" using assms unfolding unat_of_nat by simp
    then show ?thesis unfolding x uint_nat by simp
  qed
  define x2 where "x2 = ?x OR drop_bit 1 ?x"
  define x3 where "x3 = x2 OR drop_bit 2 x2"
  define x4 where "x4 = x3 OR drop_bit 4 x3"
  define x5 where "x5 = x4 OR drop_bit 8 x4"
  define x6 where "x6 = x5 OR drop_bit 16 x5"
  have "uint ?x < 2 ^ 30" using u assms by simp
  then have x2: "uint ?x \<le> uint x2 \<and> uint x2 < 2 ^ 30" unfolding x2_def by (rule smear)
  then have x3: "uint x2 \<le> uint x3 \<and> uint x3 < 2 ^ 30" unfolding x3_def by (rule smear [OF conjunct2])
  then have x4: "uint x3 \<le> uint x4 \<and> uint x4 < 2 ^ 30" unfolding x4_def by (rule smear [OF conjunct2])
  then have x5: "uint x4 \<le> uint x5 \<and> uint x5 < 2 ^ 30" unfolding x5_def by (rule smear [OF conjunct2])
  then have x6: "uint x5 \<le> uint x6 \<and> uint x6 < 2 ^ 30" unfolding x6_def by (rule smear [OF conjunct2])
  have le: "int (n - 1) \<le> uint x6" using u x2 x3 x4 x5 x6 by linarith
  have "uint (x6 + 1) = uint x6 + 1" using x6 by (subst uint_plus_simple_iff [THEN iffD1]) (auto simp: word_le_def uint_word_ariths)
  moreover have "pow2gt (of_nat n) = x6 + 1"
    by (simp add: pow2gt_def Let_def x2_def x3_def x4_def x5_def x6_def)
  ultimately show ?thesis using le assms(1) by (simp add: unat_eq_nat_uint) 
qed

section \<open>Steps on a buffer\<close>

text \<open>On a lost buffer a step does nothing.\<close>

definition b_dead :: "'a bproc \<Rightarrow> bool" where
  "b_dead p \<longleftrightarrow> (\<forall>a off. \<exists>r a' off'. p (a, None, off) = Some (r, a', None, off'))"

text \<open>A step that appends \<open>t\<close> at the offset, and one that leaves \<open>t\<close> with its NUL byte there; either loses
  the buffer instead when an allocation fails.\<close>

definition b_appends :: "(nat \<Rightarrow> bool) \<Rightarrow> 'a bproc \<Rightarrow> bytes \<Rightarrow> bool" where
  "b_appends mal p t \<longleftrightarrow> b_dead p \<and>
     (\<forall>a buf off. off \<le> length buf \<and> off + length t + 64 \<le> 2 ^ 30 \<longrightarrow>
       (\<exists>r a' b' off'. p (a, Some buf, off) = Some (r, a', b', off') \<and>
          ((\<exists>rest. r \<noteq> None \<and> b' = Some (take off buf @ t @ rest) \<and> off' = off + length t)
           \<or> (b' = None \<and> \<not> (\<forall>n. mal n)))))"

definition b_delivers :: "(nat \<Rightarrow> bool) \<Rightarrow> nat bproc \<Rightarrow> bytes \<Rightarrow> bool" where
  "b_delivers mal p t \<longleftrightarrow> (\<forall>a off. \<exists>a' off'. p (a, None, off) = Some (None, a', None, off')) \<and>
     (\<forall>a buf off. off \<le> length buf \<and> off + length t + 64 \<le> 2 ^ 30 \<longrightarrow>
       (\<exists>r a' b' off'. p (a, Some buf, off) = Some (r, a', b', off') \<and>
          ((\<exists>rest. r = Some off \<and> b' = Some (take off buf @ t @ 0 # rest) \<and> off \<le> off' \<and> off' \<le> off + length t)
           \<or> (r = None \<and> b' = None \<and> \<not> (\<forall>n. mal n)))))"

lemma ensure_cases:
  assumes "off \<le> length buf" "0 < needed" "needed + off \<le> 2 ^ 30"
  shows "(\<exists>a' ext. ensure mal junk needed (a, Some buf, off) = Some (Some off, a', Some (buf @ ext), off)
            \<and> needed + off \<le> length (buf @ ext))
      \<or> (\<exists>a'. ensure mal junk needed (a, Some buf, off) = Some (None, a', None, off) \<and> \<not> (\<forall>n. mal n))"
proof (cases "needed + off \<le> length buf")
  case True
  then show ?thesis by (intro disjI1 exI [of _ a] exI [of _ "[]"]) (simp add: ensure_def)
next
  case False
  let ?n = "unat (pow2gt (of_nat (needed + off)))"
  have n: "needed + off \<le> ?n" using assms by (intro pow2gt_ge) simp_all
  show ?thesis
  proof (cases "mal a")
    case True
    then show ?thesis using False n
      by (intro disjI1 exI [of _ "a + 1"] exI [of _ "map junk [length buf..<?n]"]) (simp add: ensure_def grown_def)
  next
    case f: False
    then show ?thesis using False by (intro disjI2) (auto simp: ensure_def)
  qed
qed

text \<open>Ensuring and writing \<open>bs\<close>: the buffer up to the offset stays.\<close>

lemma ensure_write:
  assumes "off \<le> length buf" "0 < needed" "needed + off \<le> 2 ^ 30" "length bs \<le> needed"
  shows "(\<exists>a' rest. pbind (ensure mal junk needed) (\<lambda>p. pbind (bwrite p bs) (\<lambda>_. k p)) (a, Some buf, off)
            = k off (a', Some (take off buf @ bs @ rest), off))
      \<or> (\<exists>a'. pbind (ensure mal junk needed) (\<lambda>p. pbind (bwrite p bs) (\<lambda>_. k p)) (a, Some buf, off)
            = Some (None, a', None, off) \<and> \<not> (\<forall>n. mal n))"
  using ensure_cases [OF assms(1-3), of mal junk a]
proof
  assume "\<exists>a' ext. ensure mal junk needed (a, Some buf, off) = Some (Some off, a', Some (buf @ ext), off)
            \<and> needed + off \<le> length (buf @ ext)"
  then obtain a' ext where e: "ensure mal junk needed (a, Some buf, off) = Some (Some off, a', Some (buf @ ext), off)"
    "needed + off \<le> length (buf @ ext)" by blast
  then have "bwrite off bs (a', Some (buf @ ext), off)
      = Some (Some (), a', Some (take off buf @ bs @ drop (off + length bs) (buf @ ext)), off)"
    using assms(1,4) by (simp add: bwrite_def)
  then show ?thesis using e(1) by (intro disjI1) (auto simp: pbind_def)
next
  assume "\<exists>a'. ensure mal junk needed (a, Some buf, off) = Some (None, a', None, off) \<and> \<not> (\<forall>n. mal n)"
  then show ?thesis by (auto simp: pbind_def)
qed

lemma ensure_dead: "ensure mal junk needed (a, None, off) = Some (None, a, None, off)"
  by (simp add: ensure_def)

lemma text_delivers:
  assumes "length t < needed" "needed \<le> length t + 64"
  shows "b_delivers mal (b_text mal junk needed t) t"
  unfolding b_delivers_def
proof (intro conjI allI impI)
  fix a off show "\<exists>a' off'. b_text mal junk needed t (a, None, off) = Some (None, a', None, off')"
    by (simp add: b_text_def pbind_def ensure_dead)
next
  fix a :: nat and buf :: bytes and off :: nat assume "off \<le> length buf \<and> off + length t + 64 \<le> 2 ^ 30"
  then show "\<exists>r a' b' off'. b_text mal junk needed t (a, Some buf, off) = Some (r, a', b', off') \<and>
      ((\<exists>rest. r = Some off \<and> b' = Some (take off buf @ t @ 0 # rest) \<and> off \<le> off' \<and> off' \<le> off + length t)
       \<or> (r = None \<and> b' = None \<and> \<not> (\<forall>n. mal n)))"
    using ensure_write [of off buf needed "t @ [0]" mal junk pret a] assms
    unfolding b_text_def by (auto simp: pret_def)
qed

lemma emit_appends:
  assumes "len \<le> length bs" "length bs \<le> needed" "needed \<le> len + 64" "0 < needed"
  shows "b_appends mal (b_emit mal junk needed bs len) (take len bs)"
  unfolding b_appends_def
proof (intro conjI allI impI)
  show "b_dead (b_emit mal junk needed bs len)"
    by (simp add: b_dead_def b_emit_def pbind_def ensure_dead)
next
  fix a :: nat and buf :: bytes and off :: nat assume h: "off \<le> length buf \<and> off + length (take len bs) + 64 \<le> 2 ^ 30"
  let ?p = "b_emit mal junk needed bs len (a, Some buf, off)"
  have "(\<exists>a' rest. ?p = advance len (a', Some (take off buf @ bs @ rest), off))
      \<or> (\<exists>a'. ?p = Some (None, a', None, off) \<and> \<not> (\<forall>n. mal n))"
    unfolding b_emit_def using assms h by (intro ensure_write) auto
  then show "\<exists>r a' b' off'. ?p = Some (r, a', b', off') \<and>
      ((\<exists>rest. r \<noteq> None \<and> b' = Some (take off buf @ take len bs @ rest) \<and> off' = off + length (take len bs))
       \<or> (b' = None \<and> \<not> (\<forall>n. mal n)))"
  proof (elim disjE exE conjE)
    fix a' rest assume p: "?p = advance len (a', Some (take off buf @ bs @ rest), off)"
    have "take off buf @ bs @ rest = take off buf @ take len bs @ drop len bs @ rest" by simp
    then show ?thesis
      unfolding p advance_def prod.case using assms(1)
      by (intro exI conjI disjI1) (rule refl, simp, rule arg_cong [where f = Some], assumption, simp)
  next
    fix a' assume "?p = Some (None, a', None, off)" "\<not> (\<forall>n. mal n)"
    then show ?thesis by blast
  qed
qed

lemma appends_bind:
  assumes "b_appends mal p t" "b_appends mal q u"
  shows "b_appends mal (pbind p (\<lambda>_. q)) (t @ u)"
  unfolding b_appends_def
proof (intro conjI allI impI)
  show "b_dead (pbind p (\<lambda>_. q))"
    unfolding b_dead_def
  proof (intro allI)
    fix a off
    obtain r a1 off1 where p: "p (a, None, off) = Some (r, a1, None, off1)"
      using assms(1) unfolding b_appends_def b_dead_def by blast
    obtain r2 a2 off2 where q: "q (a1, None, off1) = Some (r2, a2, None, off2)"
      using assms(2) unfolding b_appends_def b_dead_def by blast
    show "\<exists>r a' off'. pbind p (\<lambda>_. q) (a, None, off) = Some (r, a', None, off')"
      using p q by (cases r) (auto simp: pbind_def)
  qed
next
  fix a :: nat and buf :: bytes and off :: nat assume h: "off \<le> length buf \<and> off + length (t @ u) + 64 \<le> 2 ^ 30"
  then obtain r a1 b1 off1 where p: "p (a, Some buf, off) = Some (r, a1, b1, off1)"
    and c: "(\<exists>rest. r \<noteq> None \<and> b1 = Some (take off buf @ t @ rest) \<and> off1 = off + length t)
           \<or> (b1 = None \<and> \<not> (\<forall>n. mal n))"
  proof -
    have "off \<le> length buf \<and> off + length t + 64 \<le> 2 ^ 30" using h by simp
    then show ?thesis using that assms(1) unfolding b_appends_def by blast
  qed
  from c show "\<exists>r a' b' off'. pbind p (\<lambda>_. q) (a, Some buf, off) = Some (r, a', b', off') \<and>
      ((\<exists>rest. r \<noteq> None \<and> b' = Some (take off buf @ (t @ u) @ rest) \<and> off' = off + length (t @ u))
       \<or> (b' = None \<and> \<not> (\<forall>n. mal n)))"
  proof
    assume "\<exists>rest. r \<noteq> None \<and> b1 = Some (take off buf @ t @ rest) \<and> off1 = off + length t"
    then obtain x rest where x: "r = Some x" "b1 = Some (take off buf @ t @ rest)" "off1 = off + length t" by blast
    let ?b = "take off buf @ t @ rest"
    have tk: "take off1 ?b = take off buf @ t" using h x(3) by simp
    obtain r2 a2 b2 off2 where q: "q (a1, Some ?b, off1) = Some (r2, a2, b2, off2)"
      and c2: "(\<exists>rest. r2 \<noteq> None \<and> b2 = Some (take off1 ?b @ u @ rest) \<and> off2 = off1 + length u)
           \<or> (b2 = None \<and> \<not> (\<forall>n. mal n))"
    proof -
      have "off1 \<le> length ?b \<and> off1 + length u + 64 \<le> 2 ^ 30" using h x(3) by simp
      then show ?thesis using that assms(2) unfolding b_appends_def by blast
    qed
    show ?thesis
      using p q x c2 unfolding tk by (auto simp: pbind_def)
  next
    assume b: "b1 = None \<and> \<not> (\<forall>n. mal n)"
    obtain r2 a2 off2 where "q (a1, None, off1) = Some (r2, a2, None, off2)"
      using assms(2) unfolding b_appends_def b_dead_def by blast
    then show ?thesis using p b by (cases r) (auto simp: pbind_def)
  qed
qed

lemma appends_ret [simp]: "b_appends mal (pret ()) []"
  unfolding b_appends_def b_dead_def pret_def
proof (simp, intro allI impI)
  fix buf :: bytes and off :: nat
  show "\<exists>rest. buf = take off buf @ rest" by (rule exI [of _ "drop off buf"]) simp
qed

lemma bind_assoc: "pbind (pbind p f) g = pbind p (\<lambda>x. pbind (f x) g)"
  by (rule ext) (simp add: pbind_def split: option.splits)

lemma appends_seq:
  "b_appends mal p t \<Longrightarrow> b_appends mal q u \<Longrightarrow> v = t @ u \<Longrightarrow> b_appends mal (pbind p (\<lambda>_. q)) v"
  using appends_bind by blast

text \<open>\<open>update\<close> moves the offset behind a text that was left in the buffer.\<close>

lemma update_appends:
  assumes "b_delivers mal p t" "0 \<notin> set t"
  shows "b_appends mal (pbind (ptry p) (\<lambda>_. update)) t"
  unfolding b_appends_def
proof (intro conjI allI impI)
  show "b_dead (pbind (ptry p) (\<lambda>_. update))"
    unfolding b_dead_def
  proof (intro allI)
    fix a off
    obtain a' off' where "p (a, None, off) = Some (None, a', None, off')"
      using assms(1) unfolding b_delivers_def by blast
    then show "\<exists>r a' off'. pbind (ptry p) (\<lambda>_. update) (a, None, off) = Some (r, a', None, off')"
      by (simp add: pbind_def ptry_def update_def)
  qed
next
  fix a :: nat and buf :: bytes and off :: nat assume h: "off \<le> length buf \<and> off + length t + 64 \<le> 2 ^ 30"
  then obtain r a' b' off' where p: "p (a, Some buf, off) = Some (r, a', b', off')"
    and c: "(\<exists>rest. r = Some off \<and> b' = Some (take off buf @ t @ 0 # rest) \<and> off \<le> off' \<and> off' \<le> off + length t)
           \<or> (r = None \<and> b' = None \<and> \<not> (\<forall>n. mal n))"
    using assms(1) unfolding b_delivers_def by blast
  let ?q = "pbind (ptry p) (\<lambda>_. update) (a, Some buf, off)"
  from c show "\<exists>r a' b' off'. ?q = Some (r, a', b', off') \<and>
      ((\<exists>rest. r \<noteq> None \<and> b' = Some (take off buf @ t @ rest) \<and> off' = off + length t)
       \<or> (b' = None \<and> \<not> (\<forall>n. mal n)))"
  proof (elim disjE exE conjE)
    fix rest
    assume b: "r = Some off" "b' = Some (take off buf @ t @ 0 # rest)" "off \<le> off'" "off' \<le> off + length t"
    have d: "drop off' (take off buf @ t @ 0 # rest) = drop (off' - off) t @ 0 # rest"
      using b(3,4) h by simp
    have "x \<noteq> 0" if "x \<in> set (drop (off' - off) t)" for x
      using that assms(2) by (metis in_set_dropD)
    then have "cstr (drop (off' - off) t @ 0 # rest) = drop (off' - off) t"
      unfolding cstr_def by (subst takeWhile_append2) auto
    then have "update (a', Some (take off buf @ t @ 0 # rest), off')
        = Some (Some (), a', Some (take off buf @ t @ 0 # rest), off + length t)"
      unfolding update_def prod.case option.case d using b(3,4) by simp
    then have "?q = Some (Some (), a', b', off + length t)"
      using p b(1) unfolding b(2) by (simp add: pbind_def ptry_def)
    then show ?thesis using b(2) by blast
  next
    assume b: "r = None" "b' = None" "\<not> (\<forall>n. mal n)"
    then have "?q = Some (Some (), a', None, 0)" using p by (simp add: pbind_def ptry_def update_def)
    then show ?thesis using b(3) by blast
  qed
qed

text \<open>The end of a container: the closing text is left at the offset, with its NUL byte.\<close>

lemma closing_delivers:
  assumes p: "b_appends mal p t" and n: "length cl < needed" "needed \<le> length cl + 64"
  shows "b_delivers mal (pbind the_offset (\<lambda>i. pbind p (\<lambda>_.
     pbind (b_emit mal junk needed (cl @ [0]) 0) (\<lambda>_. pret i)))) (t @ cl)"
    (is "b_delivers mal ?p _")
  unfolding b_delivers_def
proof (intro conjI allI impI)
  fix a off
  obtain r a' off' where "p (a, None, off) = Some (r, a', None, off')"
    using p unfolding b_appends_def b_dead_def by blast
  then show "\<exists>a' off'. ?p (a, None, off) = Some (None, a', None, off')"
    by (cases r) (simp_all add: pbind_def the_offset_def b_emit_def ensure_dead)
next
  fix a :: nat and buf :: bytes and off :: nat assume h: "off \<le> length buf \<and> off + length (t @ cl) + 64 \<le> 2 ^ 30"
  then have "off \<le> length buf \<and> off + length t + 64 \<le> 2 ^ 30" by simp
  then obtain r a1 b1 off1 where p: "p (a, Some buf, off) = Some (r, a1, b1, off1)"
    and c: "(\<exists>rest. r \<noteq> None \<and> b1 = Some (take off buf @ t @ rest) \<and> off1 = off + length t)
           \<or> (b1 = None \<and> \<not> (\<forall>n. mal n))"
    using p unfolding b_appends_def by blast
  from c show "\<exists>r a' b' off'. ?p (a, Some buf, off) = Some (r, a', b', off') \<and>
      ((\<exists>rest. r = Some off \<and> b' = Some (take off buf @ (t @ cl) @ 0 # rest) \<and> off \<le> off' \<and> off' \<le> off + length (t @ cl))
       \<or> (r = None \<and> b' = None \<and> \<not> (\<forall>n. mal n)))"
  proof (elim disjE exE conjE)
    fix rest assume b: "r \<noteq> None" "b1 = Some (take off buf @ t @ rest)" "off1 = off + length t"
    let ?b = "take off buf @ t @ rest"
    have tk: "take off1 ?b = take off buf @ t" using h b(3) by simp
    have q: "?p (a, Some buf, off) = pbind (b_emit mal junk needed (cl @ [0]) 0) (\<lambda>_. pret off) (a1, Some ?b, off1)"
      using p b(1,2) by (auto simp: pbind_def the_offset_def)
    have e: "pbind (b_emit mal junk needed (cl @ [0]) 0) (\<lambda>_. pret off)
        = pbind (ensure mal junk needed) (\<lambda>p. pbind (bwrite p (cl @ [0])) (\<lambda>_. pbind (advance 0) (\<lambda>_. pret off)))"
      by (simp add: b_emit_def bind_assoc)
    have "(\<exists>a' rest. ?p (a, Some buf, off)
              = pbind (advance 0) (\<lambda>_. pret off) (a', Some (take off1 ?b @ (cl @ [0]) @ rest), off1))
        \<or> (\<exists>a'. ?p (a, Some buf, off) = Some (None, a', None, off1) \<and> \<not> (\<forall>n. mal n))"
      unfolding q e using h b(3) n by (intro ensure_write) auto
    then show ?thesis
    proof (elim disjE exE conjE)
      fix a' rest'
      assume "?p (a, Some buf, off) = pbind (advance 0) (\<lambda>_. pret off) (a', Some (take off1 ?b @ (cl @ [0]) @ rest'), off1)"
      then have "?p (a, Some buf, off) = Some (Some off, a', Some (take off buf @ (t @ cl) @ 0 # rest'), off1)"
        unfolding tk by (simp add: pbind_def advance_def pret_def)
      moreover have "off \<le> off1" "off1 \<le> off + length (t @ cl)" using b(3) by auto
      ultimately show ?thesis by blast
    qed blast
  next
    assume b: "b1 = None" "\<not> (\<forall>n. mal n)"
    then have "?p (a, Some buf, off) = Some (None, a1, None, off1)"
      using p by (cases r) (simp_all add: pbind_def the_offset_def b_emit_def ensure_dead)
    then show ?thesis using b(2) by blast
  qed
qed

section \<open>Values\<close>

lemma string_delivers_buffer: "b_delivers mal (b_print_string_ptr mal junk (Some s)) (render_string s)"
  unfolding b_delivers_def
proof (intro conjI allI impI)
  fix a off
  show "\<exists>a' off'. b_print_string_ptr mal junk (Some s) (a, None, off) = Some (None, a', None, off')"
    by (simp add: b_print_string_ptr_def Let_def pbind_def ensure_dead)
next
  fix a :: nat and buf :: bytes and off :: nat
  assume h: "off \<le> length buf \<and> off + length (render_string s) + 64 \<le> 2 ^ 30"
  let ?p = "b_print_string_ptr mal junk (Some s) (a, Some buf, off)"
  let ?n = "string_size (cstr s)"
  note size = string_size_eq [of s]
  from ensure_cases [of off buf ?n mal junk a] h size
  have "(\<exists>a' ext. ensure mal junk ?n (a, Some buf, off) = Some (Some off, a', Some (buf @ ext), off)
            \<and> ?n + off \<le> length (buf @ ext))
      \<or> (\<exists>a'. ensure mal junk ?n (a, Some buf, off) = Some (None, a', None, off) \<and> \<not> (\<forall>n. mal n))"
    by simp
  then show "\<exists>r a' b' off'. ?p = Some (r, a', b', off') \<and>
      ((\<exists>rest. r = Some off \<and> b' = Some (take off buf @ render_string s @ 0 # rest) \<and> off \<le> off' \<and> off' \<le> off + length (render_string s))
       \<or> (r = None \<and> b' = None \<and> \<not> (\<forall>n. mal n)))"
  proof (elim disjE exE conjE)
    fix a' ext
    assume e: "ensure mal junk ?n (a, Some buf, off) = Some (Some off, a', Some (buf @ ext), off)"
      "?n + off \<le> length (buf @ ext)"
    define B where "B = buf @ ext"
    have B: "take off B = take off buf" "?n + off \<le> length B" using e(2) h unfolding B_def by simp_all
    have t: "string_text (cstr s) (length B - off) = Some (render_string s)"
      using B(2) by (intro string_text_eq) linarith
    have w: "bwrite off (render_string s @ [0]) (a', Some B, off) = Some (Some (), a',
        Some (take off buf @ render_string s @ 0 # drop (off + length (render_string s @ [0])) B), off)"
      unfolding bwrite_def using B size by simp
    have "?p = Some (Some off, a', Some (take off buf @ render_string s @ 0 #
        drop (off + length (render_string s @ [0])) B), off)"
      unfolding b_print_string_ptr_def Let_def option.case
      using e(1) [folded B_def] t w by (simp add: pbind_def pret_def plift_def)
    then show ?thesis by simp
  next
    fix a' assume "ensure mal junk ?n (a, Some buf, off) = Some (None, a', None, off)" "\<not> (\<forall>n. mal n)"
    then show ?thesis by (simp add: b_print_string_ptr_def Let_def pbind_def)
  qed
qed

text \<open>No text contains a NUL byte.\<close>

lemma esc_char_nonzero: "c \<noteq> 0 \<Longrightarrow> 0 \<notin> set (esc_char c)"
proof -
  assume c: "c \<noteq> 0"
  have "hexchar n \<noteq> 0" if "n < 16" for n
  proof -
    have "n \<in> set [0..<16]" using that by simp
    then show ?thesis by (simp add: upt_rec hexchar_def; elim disjE; simp)
  qed
  moreover have "unat c < 256" using unsigned_less [of c, where 'a = nat] by simp
  ultimately show ?thesis using c
    by (auto simp: esc_char_def short_char_def fmt_u04x_def split: option.splits if_splits)
qed

lemma render_string_nonzero: "0 \<notin> set (render_string s)"
  using esc_char_nonzero cstr_nonzero by (auto simp: render_string_def)

lemma dec_nat_nonzero: "0 \<notin> set (dec_nat n)"
proof (induction n rule: dec_nat.induct)
  case (1 n)
  have "(of_nat (48 + d) :: u8) \<noteq> 0" if "d < 10" for d
  proof -
    have "unat (of_nat (48 + d) :: u8) = 48 + d" using that unfolding unat_of_nat by simp
    then show ?thesis by (metis add_is_0 unat_0 zero_neq_numeral)
  qed
  then show ?case using 1 by (subst dec_nat.simps) (auto simp del: of_nat_add of_nat_numeral)
qed

lemma number_text_nonzero: "printable_number fp i d \<Longrightarrow> 0 \<notin> set (number_text fp i d)"
  using dec_nat_nonzero by (auto simp: printable_number_def number_text_def fmt_d_def)

lemma join_nonzero: "0 \<notin> set sep \<Longrightarrow> \<forall>t \<in> set ts. 0 \<notin> set t \<Longrightarrow> 0 \<notin> set (join sep ts)"
  by (induction ts) (auto simp: join_Cons simp del: join.simps(2,3))

lemma tabs_nonzero [simp]: "0 \<notin> set (tabs fmt d)" "0 \<notin> set (nl fmt)" "0 \<notin> set (array_sep fmt)"
  by (auto simp: tabs_def nl_def array_sep_def)

lemma render_nonzero: "printable fp item \<Longrightarrow> 0 \<notin> set (render fp fmt depth item)"
proof (induction item arbitrary: depth)
  case (CJSON ty vs vi vd nm0 ch)
  consider "ty mod 256 = 0" | "ty mod 256 = 1" | "ty mod 256 = 2" | "ty mod 256 = cJSON_Number"
    | "ty mod 256 = cJSON_String" | "ty mod 256 = cJSON_Array" | "ty mod 256 = cJSON_Object"
    using kind_cases [of "ty mod 256"] CJSON.prems unfolding cjson_types by auto
  then show ?case
  proof cases
    case 6
    then have "0 \<notin> set (join (array_sep fmt) (map (render fp fmt (depth + 1)) ch))"
      using CJSON by (intro join_nonzero) auto
    then show ?thesis using 6 by (simp add: Let_def cjson_types)
  next
    case 7
    have "0 \<notin> set (join ([44] @ nl fmt) (map (member_text fmt (depth + 1))
             (map (\<lambda>c. (render_string (the (cj_string c)), render fp fmt (depth + 1) c)) ch)))"
      using CJSON 7 by (intro join_nonzero) (auto simp: member_text_def render_string_nonzero)
    then show ?thesis unfolding render_object [OF 7] by simp
  qed (use CJSON.prems in \<open>auto simp: Let_def cjson_types word_null_def word_false_def word_true_def
        render_string_nonzero number_text_nonzero\<close>)
qed

lemma emit_text:
  assumes "length (t @ e) \<le> needed" "needed \<le> length t + 64" "0 < needed" "len = length t" "bs = t @ e"
  shows "b_appends mal (b_emit mal junk needed bs len) t"
  using emit_appends [of len bs needed mal junk] assms by simp

text \<open>Printing one item into the buffer and taking up its text.\<close>

lemma item_appends:
  assumes "b_delivers mal p t" "0 \<notin> set t" "b_appends mal q u" "v = t @ u"
  shows "b_appends mal (pbind (ptry p) (\<lambda>_. pbind update (\<lambda>_. q))) v"
  using appends_bind [OF update_appends [OF assms(1,2)] assms(3)] assms(4) by (simp add: bind_assoc)

definition members_text :: "'d fp \<Rightarrow> bool \<Rightarrow> nat \<Rightarrow> 'd cJSON list \<Rightarrow> bytes" where
  "members_text fp fmt d cs = (if cs = [] then [] else
     join ([44] @ nl fmt) (map (member_text fmt d)
       (map (\<lambda>c. (render_string (the (cj_string c)), render fp fmt d c)) cs)) @ nl fmt)"

lemma members_Cons:
  "members_text fp fmt d (c # cs) = tabs fmt d @ render_string (the (cj_string c)) @ (58 # tabs fmt 1)
     @ render fp fmt d c @ ((if cs = [] then [] else [44]) @ nl fmt) @ members_text fp fmt d cs"
  by (simp add: members_text_def member_text_def join_Cons del: join.simps(2,3))

lemma buffer_delivers:
  "printable fp item \<Longrightarrow> b_delivers mal (b_print_value fp mal junk fmt depth item) (render fp fmt depth item)"
  "\<forall>c \<in> set cs. printable fp c \<Longrightarrow>
   b_appends mal (b_array_items fp mal junk fmt depth cs) (join (array_sep fmt) (map (render fp fmt depth) cs))"
  "\<forall>c \<in> set cs. printable fp c \<and> cj_string c \<noteq> None \<Longrightarrow> 0 < depth \<Longrightarrow>
   b_appends mal (b_object_items fp mal junk fmt depth cs) (members_text fp fmt depth cs)"
proof (induction fp mal junk fmt depth item and fp mal junk fmt depth cs and fp mal junk fmt depth cs
    rule: b_print_value_b_array_items_b_object_items.induct)
  case (1 fp mal junk fmt depth ty vs vi vd nm ch)
  consider "ty mod 256 = 0" | "ty mod 256 = 1" | "ty mod 256 = 2" | "ty mod 256 = cJSON_Number"
    | "ty mod 256 = cJSON_String" | "ty mod 256 = cJSON_Array" | "ty mod 256 = cJSON_Object"
    using kind_cases [of "ty mod 256"] 1(3) unfolding cjson_types by auto
  then show ?case
  proof cases
    case 4
    then have p: "printable_number fp vi vd" using 1(3) by simp
    then have "length (number_text fp vi vd) < number_size fp vi vd" "number_size fp vi vd \<le> 64"
      using fmt_d_length [of vi] by (auto simp: printable_number_def number_size_def number_text_def)
    then have "b_delivers mal (b_print_number fp mal junk vi vd) (number_text fp vi vd)"
      unfolding b_print_number_def by (intro text_delivers) auto
    then show ?thesis using 4 by (simp add: Let_def cjson_types)
  next
    case 5
    then obtain s where "vs = Some s" using 1(3) by auto
    then show ?thesis using 5 string_delivers_buffer [of mal junk s] by (simp add: Let_def cjson_types)
  next
    case 6
    let ?j = "join (array_sep fmt) (map (render fp fmt (depth + 1)) ch)"
    have "b_delivers mal (b_print_array mal junk (ch = []) (b_array_items fp mal junk fmt (depth + 1) ch))
        ([91] @ ?j @ [93])"
    proof (cases "ch = []")
      case True
      then show ?thesis using text_delivers [of "[91, 93]" 3 mal junk] by (simp add: b_print_array_def)
    next
      case False
      have "b_appends mal (b_array_items fp mal junk fmt (depth + 1) ch) ?j"
        using 1 6 by (auto simp: cjson_types)
      then have "b_appends mal (pbind (b_emit mal junk 1 [91] 1) (\<lambda>_. b_array_items fp mal junk fmt (depth + 1) ch)) ([91] @ ?j)"
        by (intro appends_bind emit_text [where e = "[]"]) auto
      from closing_delivers [OF this, of "[93]" 2 junk] show ?thesis
        using False by (simp add: b_print_array_def bind_assoc)
    qed
    then show ?thesis using 6 by (simp add: Let_def cjson_types)
  next
    case 7
    let ?items = "b_object_items fp mal junk fmt (depth + 1) ch"
    have "b_delivers mal (b_print_object mal junk fmt depth (ch = []) ?items)
        (render fp fmt depth (CJSON ty vs vi vd nm ch))"
    proof (cases "ch = []")
      case True
      have "b_delivers mal (b_text mal junk (if fmt then depth + 4 else 3)
          (123 # nl fmt @ tabs fmt (depth - 1) @ [125])) (123 # nl fmt @ tabs fmt (depth - 1) @ [125])"
        by (intro text_delivers) auto
      then show ?thesis
        unfolding render_object [OF 7] using True by (simp add: b_print_object_def nl_def [symmetric])
    next
      case False
      let ?len = "if fmt then 2 else 1 :: nat"
      have "b_appends mal ?items (members_text fp fmt (depth + 1) ch)"
        using 1 7 by (auto simp: cjson_types)
      then have "b_appends mal (pbind (b_emit mal junk (?len + 1) (123 # nl fmt @ [0]) ?len) (\<lambda>_. ?items))
          ((123 # nl fmt) @ members_text fp fmt (depth + 1) ch)"
        by (intro appends_bind emit_text [where e = "[0]"]) auto
      from closing_delivers [OF this, of "tabs fmt depth @ [125]" "if fmt then depth + 1 + 1 else 2" junk]
      show ?thesis
        unfolding render_object [OF 7] using False
        by (cases fmt) (simp_all add: b_print_object_def Let_def bind_assoc members_text_def nl_def)
    qed
    then show ?thesis using 7 by (simp add: Let_def cjson_types del: render.simps)
  qed (simp_all add: Let_def cjson_types text_delivers word_null_def word_false_def word_true_def)
next
  case (3 fp mal junk fmt depth c cs)
  have v: "b_delivers mal (b_print_value fp mal junk fmt depth c) (render fp fmt depth c)"
    using 3 by simp
  have z: "0 \<notin> set (render fp fmt depth c)" using 3(3) by (intro render_nonzero) simp
  have cs: "b_appends mal (b_array_items fp mal junk fmt depth cs) (join (array_sep fmt) (map (render fp fmt depth) cs))"
    using 3 by simp
  have "b_appends mal (if cs = [] then pret ()
        else b_emit mal junk ((if fmt then 2 else 1) + 1) (array_sep fmt @ [0]) (if fmt then 2 else 1))
      (if cs = [] then [] else array_sep fmt)"
    by (auto intro!: emit_text [where e = "[0]"] simp: array_sep_def)
  note tail = appends_bind [OF this cs]
  have eq: "join (array_sep fmt) (map (render fp fmt depth) (c # cs)) = render fp fmt depth c
      @ (if cs = [] then [] else array_sep fmt) @ join (array_sep fmt) (map (render fp fmt depth) cs)"
    by (cases "cs = []"; simp add: join_Cons del: join.simps(2,3))
  show ?case unfolding b_array_items.simps by (rule item_appends [OF v z tail eq])
next
  case (5 fp mal junk fmt depth c cs)
  obtain s where s: "cj_string c = Some s" using 5(3) by auto
  have v: "b_delivers mal (b_print_value fp mal junk fmt depth c) (render fp fmt depth c)"
    using 5 by simp
  have z: "0 \<notin> set (render fp fmt depth c)" using 5(3) by (intro render_nonzero) simp
  have cs: "b_appends mal (b_object_items fp mal junk fmt depth cs) (members_text fp fmt depth cs)"
    using 5 by simp
  have e1: "b_appends mal (if fmt then b_emit mal junk depth (tabs fmt depth) depth else pret ()) (tabs fmt depth)"
    using 5(4) by (auto intro!: emit_text [where e = "[]"]) (simp add: tabs_def)
  have e2: "b_appends mal (b_emit mal junk (if fmt then 2 else 1) (58 # tabs fmt 1) (if fmt then 2 else 1)) (58 # tabs fmt 1)"
    by (intro emit_text [where e = "[]"]) auto
  let ?len = "(if fmt then 1 else 0) + (if cs = [] then 0 else 1) :: nat"
  let ?t = "(if cs = [] then [] else [44]) @ nl fmt"
  have e3: "b_appends mal (b_emit mal junk (?len + 1) ((if cs = [] then [] else [44]) @ nl fmt @ [0]) ?len) ?t"
    by (intro emit_text [where e = "[0]"]) auto
  show ?case
    unfolding b_object_items.simps Let_def s nl_def [symmetric] members_Cons option.sel
    by (intro appends_seq [OF e1] item_appends [OF string_delivers_buffer render_string_nonzero]
        appends_seq [OF e2] item_appends [OF v z] appends_seq [OF e3 cs] refl) simp_all
qed (simp_all add: members_text_def)

end
