(* ===== verification/Cjson_Minified.thy ===== *)
theory Cjson_Minified
  imports Cjson_Items Cjson_Text Cjson_Buffered
begin

text \<open>
  Properties of the item operations: minifying the formatted text of an item gives its unformatted text,
  a duplicate is the same item in new memory, and printing into a buffer gives the text of printing into
  strings.
\<close>

section \<open>Minification\<close>

lemmas minify_Cons = minify.simps [of "c # r" for c r]

definition minifies :: "bytes \<Rightarrow> bytes \<Rightarrow> bool" where
  "minifies a b \<longleftrightarrow> (\<forall>r. minify (a @ r) = map_option (\<lambda>t. b @ t) (minify r))"

lemma minifies_Nil [simp]: "minifies [] []"
  by (simp add: minifies_def option.map_ident)

lemma minifies_append: "minifies a b \<Longrightarrow> minifies c d \<Longrightarrow> minifies (a @ c) (b @ d)"
  by (simp add: minifies_def option.map_comp comp_def)

lemma minifies_Cons: "minifies [x] b \<Longrightarrow> minifies c d \<Longrightarrow> minifies (x # c) (b @ d)"
  using minifies_append [of "[x]"] by simp

definition plain :: "u8 \<Rightarrow> bool" where "plain c \<longleftrightarrow> c \<notin> {0, 32, 9, 13, 10, 47, QUOTE}"

lemma minifies_plain: "plain c \<Longrightarrow> minifies [c] [c]"
  by (auto simp: minifies_def plain_def minify_Cons)

lemma minifies_plains: "list_all plain cs \<Longrightarrow> minifies cs cs"
proof (induction cs)
  case (Cons c cs)
  then show ?case using minifies_append [OF minifies_plain, of c cs cs] by simp
qed simp

lemma minifies_space: "c \<in> {32, 9, 13, 10} \<Longrightarrow> minifies [c] []"
  by (auto simp: minifies_def minify_Cons option.map_ident)

lemma minifies_tabs: "minifies (tabs fmt d) []"
proof (cases fmt)
  case True
  have "minifies (replicate d 9) []"
  proof (induction d)
    case (Suc d)
    then show ?case using minifies_append [OF minifies_space [of 9], of "replicate d 9" "[]"] by simp
  qed simp
  then show ?thesis using True by (simp add: tabs_def)
qed (simp add: tabs_def)

lemma minifies_nl: "minifies (nl fmt) []"
  by (simp add: nl_def minifies_space)

lemma minifies_join:
  "list_all2 minifies ts us \<Longrightarrow> minifies sep sep' \<Longrightarrow> minifies (join sep ts) (join sep' us)"
proof (induction ts us rule: list_all2_induct)
  case (Cons t ts u us)
  then show ?case
    by (cases ts; cases us) (auto intro: minifies_append)
qed simp

lemma literal_end_esc:
  "c \<noteq> 0 \<Longrightarrow> literal_end (esc_char c @ r) = map_option (\<lambda>(w, s). (esc_char c @ w, s)) (literal_end r)"
proof (cases c rule: esc_char_cases)
  case plain
  then show ?thesis if "c \<noteq> 0" using that by simp
next
  case (short e)
  then show ?thesis by simp
next
  case unicode
  have "unat c div 16 < 16" "unat c mod 16 < 16" using unat_byte [of c] by auto
  note hexchar_plain [OF this(1)] hexchar_plain [OF this(2)]
  then show ?thesis
    unfolding unicode(2) fmt_u04x_def by (simp add: option.map_comp comp_def case_prod_unfold)
qed

lemma literal_end_escs:
  "\<forall>c \<in> set s. c \<noteq> 0 \<Longrightarrow>
   literal_end (concat (map esc_char s) @ QUOTE # r) = Some (concat (map esc_char s) @ [QUOTE], r)"
  by (induction s) (simp_all add: literal_end_esc)

lemma minifies_string: "minifies (render_string s) (render_string s)"
proof -
  have "\<forall>c \<in> set (cstr s). c \<noteq> 0" using cstr_nonzero by blast
  then show ?thesis by (simp add: minifies_def render_string_def minify_Cons literal_end_escs)
qed

lemma dec_nat_digits: "list_all is_digit (dec_nat n)"
proof (induction n rule: dec_nat.induct)
  case (1 n)
  then show ?case using is_digit_of_nat [of n] is_digit_of_nat [of "n mod 10"]
    by (subst dec_nat.simps) (simp del: of_nat_add of_nat_numeral)
qed

lemma minifies_int: "minifies (fmt_d i) (fmt_d i)"
proof (rule minifies_plains)
  have "is_digit c \<Longrightarrow> plain c" for c by (auto simp: is_digit_def plain_def)
  then have "list_all plain (dec_nat n)" for n
    using dec_nat_digits [of n] by (auto simp: list_all_iff)
  then show "list_all plain (fmt_d i)" by (simp add: fmt_d_def plain_def)
qed

lemma minifies_words:
  "minifies word_null word_null" "minifies word_false word_false" "minifies word_true word_true"
  by (rule minifies_plains, simp add: word_null_def word_false_def word_true_def plain_def)+

lemma list_all2_map_same: "(\<And>c. c \<in> set cs \<Longrightarrow> P (f c) (g c)) \<Longrightarrow> list_all2 P (map f cs) (map g cs)"
  by (induction cs) auto

lemma minifies_render:
  assumes fp: "exact_ints fp"
  shows "printable fp item \<Longrightarrow> integral fp item \<Longrightarrow> minifies (render fp True depth item) (render fp False depth item)"
proof (induction item arbitrary: depth)
  case (CJSON ty vs vi vd nm0 ch)
  let ?item = "CJSON ty vs vi vd nm0 ch"
  have sub: "list_all2 minifies (map (render fp True d) ch) (map (render fp False d) ch)"
    if "ty mod 256 = cJSON_Array \<or> ty mod 256 = cJSON_Object" for d
    using that CJSON.prems CJSON.IH by (intro list_all2_map_same) auto
  consider "ty mod 256 = 0" | "ty mod 256 = 1" | "ty mod 256 = 2" | "ty mod 256 = cJSON_Number"
    | "ty mod 256 = cJSON_String" | "ty mod 256 = cJSON_Array" | "ty mod 256 = cJSON_Object"
    using kind_cases [of "ty mod 256"] CJSON.prems(1) unfolding cjson_types by auto
  then show ?case
  proof cases
    case 4
    then show ?thesis
      using CJSON.prems(2) number_text_int [OF fp, of vi] by (auto simp: Let_def cjson_types minifies_int)
  next
    case 6
    have "minifies (array_sep True) (array_sep False)"
      using minifies_append [OF minifies_plain [of 44] minifies_space [of 32]]
      by (simp add: array_sep_def plain_def)
    then have "minifies (join (array_sep True) (map (render fp True (depth + 1)) ch))
        (join (array_sep False) (map (render fp False (depth + 1)) ch))"
      using sub 6 by (intro minifies_join) auto
    then have "minifies ([91] @ join (array_sep True) (map (render fp True (depth + 1)) ch) @ [93])
        ([91] @ join (array_sep False) (map (render fp False (depth + 1)) ch) @ [93])"
      by (intro minifies_append minifies_plain) (auto simp: plain_def)
    then show ?thesis using 6 by (simp add: Let_def cjson_types)
  next
    case 7
    let ?M = "\<lambda>fmt. map (member_text fmt (depth + 1))
      (map (\<lambda>c. (render_string (the (cj_string c)), render fp fmt (depth + 1) c)) ch)"
    have "minifies (member_text True (depth + 1) (render_string (the (cj_string c)), render fp True (depth + 1) c))
        (member_text False (depth + 1) (render_string (the (cj_string c)), render fp False (depth + 1) c))"
      if "c \<in> set ch" for c
    proof -
      have r: "minifies (render fp True (depth + 1) c) (render fp False (depth + 1) c)"
        using that 7 CJSON.prems CJSON.IH by auto
      have "minifies (tabs True (depth + 1) @ render_string (the (cj_string c)) @ [58] @ tabs True 1
            @ render fp True (depth + 1) c)
          ([] @ render_string (the (cj_string c)) @ [58] @ [] @ render fp False (depth + 1) c)"
        by (intro minifies_append minifies_tabs minifies_string minifies_plain r) (simp add: plain_def)
      then show ?thesis by (simp add: member_text_def tabs_def)
    qed
    then have "list_all2 minifies (?M True) (?M False)" unfolding map_map comp_def by (intro list_all2_map_same)
    moreover have "minifies ([44] @ nl True) ([44] @ [])"
      by (intro minifies_append minifies_plain minifies_nl) (simp add: plain_def)
    ultimately have "minifies (join ([44] @ nl True) (?M True)) (join ([44] @ nl False) (?M False))"
      by (intro minifies_join) (simp_all add: nl_def)
    then have "minifies ([123] @ nl True @ join ([44] @ nl True) (?M True) @ nl True @ tabs True depth @ [125])
        ([123] @ [] @ join ([44] @ nl False) (?M False) @ [] @ [] @ [125])"
      by (intro minifies_append minifies_plain minifies_nl minifies_tabs) (simp_all add: plain_def)
    moreover have "minifies ([123] @ nl True @ tabs True (depth - 1) @ [125]) ([123] @ [] @ [] @ [125])"
      by (intro minifies_append minifies_plain minifies_nl minifies_tabs) (simp_all add: plain_def)
    ultimately show ?thesis
      unfolding render_object [OF 7] by (simp add: nl_def [of False] tabs_def [of False])
  qed (auto simp: Let_def cjson_types minifies_words minifies_string)
qed

section \<open>Duplication\<close>

text \<open>The item without its reference marks.\<close>

fun copy_of :: "bool \<Rightarrow> 'd cJSON \<Rightarrow> 'd cJSON" where
  "copy_of recurse (CJSON ty vs vi vd nm ch) =
     CJSON (ty AND NOT cJSON_IsReference) (map_option cstr vs) vi vd (map_option cstr nm)
       (if recurse then map (copy_of True) ch else [])"

lemma delivers_bind:
  assumes "delivers mal p t" "delivers mal (f t) u"
  shows "delivers mal (pbind p f) u"
  unfolding delivers_def
proof
  fix st
  obtain r st1 where p: "p st = Some (r, st1)" and r: "r = Some t \<or> r = None \<and> \<not> (\<forall>n. mal n)"
    using assms(1) unfolding delivers_def by blast
  show "\<exists>r st'. pbind p f st = Some (r, st') \<and> (r = Some u \<or> r = None \<and> \<not> (\<forall>n. mal n))"
    using r assms(2) p unfolding delivers_def pbind_def by (auto simp del: split_paired_All split_paired_Ex)
qed

lemma delivers_ret [simp]: "delivers mal (pret t) t"
  by (simp add: delivers_def pret_def)

lemma dup_string_delivers: "delivers mal (dup_string mal s) (map_option cstr s)"
  unfolding dup_string_def
  by (cases s) (auto intro: delivers_bind [OF strdup_delivers])

lemma new_item_delivers: "delivers mal (cJSON_New_Item fp mal) (fresh fp 0 None)"
  by (simp add: cJSON_New_Item_def delivers_alloc)

lemma duplicate_delivers:
  "delivers mal (cJSON_Duplicate fp mal recurse item) (copy_of recurse item)"
  "delivers mal (duplicate_items fp mal cs) (map (copy_of True) cs)"
proof (induction fp mal recurse item and fp mal cs rule: cJSON_Duplicate_duplicate_items.induct)
  case (1 fp mal recurse ty vs vi vd nm ch)
  then show ?case
    unfolding cJSON_Duplicate.simps
    by (intro delivers_bind [OF new_item_delivers] delivers_bind [OF dup_string_delivers])
      (auto intro: delivers_bind)
next
  case (3 fp mal c cs)
  then show ?case by (auto intro!: delivers_bind)
qed simp

section \<open>Properties\<close>

text \<open>C22: Minifying in place the formatted text of an item whose numbers are all integers of 32 bits gives
  exactly its unformatted text.\<close>

theorem cjson_minify_text:
  assumes "exact_ints fp" and "printable fp item" and "integral fp item"
  shows "cJSON_Minify (render fp True 0 item @ [0]) = Some (render fp False 0 item @ [0])"
proof -
  have "minify [0] = Some [0]" by (simp add: minify_Cons)
  then show ?thesis
    using minifies_render [OF assms, of 0] by (simp add: cJSON_Minify_def minifies_def)
qed

theorem cjson_minify_text_witness:
  "cJSON_Minify (render int_fp True 0 sample_item @ [0]) = Some (render int_fp False 0 sample_item @ [0])"
  by (rule cjson_minify_text [OF exact_int_fp sample_printable])

text \<open>A duplicate is, when its allocations succeed, the same item and with \<open>recurse\<close> all that it
  contains, without reference marks; when one fails the result is \<open>NULL\<close>.\<close>

theorem cjson_duplicate_copies:
  "\<exists>r st'. cJSON_Duplicate fp mal recurse item st = Some (r, st')
     \<and> (r = Some (copy_of recurse item) \<or> r = None \<and> \<not> (\<forall>n. mal n))"
  using duplicate_delivers(1) unfolding delivers_def by blast

text \<open>\<open>cJSON_PrintBuffered\<close> never writes behind its buffer, however small it was at first, and leaves in it
  the text that \<open>cJSON_Print\<close> returns, ended by a NUL byte; it returns \<open>NULL\<close> only when an allocation failed.\<close>

theorem cjson_buffered_text:
  assumes "printable fp item" and "length (render fp fmt 0 item) + 64 \<le> 2 ^ 30"
  shows "\<exists>r st. cJSON_PrintBuffered fp mal junk item prebuffer fmt a = Some (r, st)
     \<and> ((\<exists>rest. r = Some 0 \<and> fst (snd st) = Some (render fp fmt 0 item @ 0 # rest)) \<or> r = None \<and> \<not> (\<forall>n. mal n))"
proof -
  note d = buffer_delivers(1) [OF assms(1), of mal junk fmt 0, unfolded b_delivers_def]
  show ?thesis
  proof (cases "mal a")
    case True
    have "0 \<le> length (map junk [0..<prebuffer]) \<and> 0 + length (render fp fmt 0 item) + 64 \<le> 2 ^ 30"
      using assms(2) by simp
    with d [THEN conjunct2, rule_format, of 0 "map junk [0..<prebuffer]" "a + 1"] show ?thesis
      using True unfolding cJSON_PrintBuffered_def by fastforce
  next
    case False
    obtain a' off' where "b_print_value fp mal junk fmt 0 item (a + 1, None, 0) = Some (None, a', None, off')"
      using d by blast
    then show ?thesis using False unfolding cJSON_PrintBuffered_def by auto
  qed
qed

theorem cjson_buffered_text_witness:
  "\<exists>r st. cJSON_PrintBuffered int_fp (\<lambda>_. True) (\<lambda>_. 7) sample_item 1 True 0 = Some (r, st)
     \<and> ((\<exists>rest. r = Some 0 \<and> fst (snd st) = Some (render int_fp True 0 sample_item @ 0 # rest))
        \<or> r = None \<and> \<not> (\<forall>n :: nat. True))"
proof (rule cjson_buffered_text [OF sample_printable(1)])
  have "length (render int_fp True 0 sample_item) \<le> 30" by code_simp
  then show "length (render int_fp True 0 sample_item) + 64 \<le> 2 ^ 30" by simp
qed

text \<open>A failed allocation behind the first item of an array under construction makes
  \<open>cJSON_CreateIntArray\<close> dereference a null pointer.\<close>

lemma cjson_create_array_crash:
  "cJSON_CreateIntArray fp (\<lambda>n. n < 2) [i, j] (0, None) = None"
  by (simp add: cJSON_CreateIntArray_def create_array_def cJSON_CreateArray_def create_def cJSON_CreateNumber_def
      cJSON_New_Item_def pbind_def palloc_def pret_def ptry_def plift_def)

end
