(* ===== verification/Bloom.thy ===== *)
theory Bloom
  imports Cvip_Prelude
begin

text \<open>
  The Bloom filter of \<open>code/bloomfilter/bloomfilter.h\<close>: MurmurHash2, double hashing, the
  filter with its lazy reset, and the file format.  The C library's \<open>malloc\<close>, the files and the
  double arithmetic that sizes the filter are arguments; a use of freed or null memory, a
  division by zero and an access out of bounds are \<open>None\<close>.  Byte order is little endian.
\<close>

section \<open>The data\<close>

text \<open>A pointer to allocated memory, with its contents.\<close>

datatype 'a block = Null | Freed | Live 'a

fun block_get :: "'a block \<Rightarrow> 'a option" where
  "block_get (Live x) = Some x"
| "block_get _ = None"

text \<open>\<open>free\<close>: nothing for a null pointer, undefined for one that was freed.\<close>

fun block_free :: "'a block \<Rightarrow> 'a block option" where
  "block_free Null = Some Null"
| "block_free Freed = None"
| "block_free (Live x) = Some Freed"

record 'd bloom =
  bf_init :: u8
  bf_max :: u32
  bf_prob :: 'd
  bf_bits :: u32
  bf_funcs :: u32
  bf_seed :: u32
  bf_count :: u32
  bf_size :: u32
  bf_filter :: "bytes block"
  bf_pos :: "u32 list block"

record 'd bloom_head =
  hd_magic :: u32
  hd_seed :: u32
  hd_count :: u32
  hd_max :: u32
  hd_prob :: 'd
  hd_bits :: u32
  hd_funcs :: u32
  hd_resv :: "u32 list"
  hd_crc :: u32
  hd_size :: u32

definition BLOOM_MAGIC :: u32 where "BLOOM_MAGIC = 0x01464C42"

text \<open>What the code takes from its environment: double arithmetic, and \<open>malloc\<close>, which gives a block of
  the requested size with any contents, or fails.\<close>

record 'd bloom_env =
  be_bad_prob :: "'d \<Rightarrow> bool"
  be_bits :: "u32 \<Rightarrow> 'd \<Rightarrow> u32"
  be_funcs :: "u32 \<Rightarrow> u32 \<Rightarrow> u32"
  be_bytes :: "nat \<Rightarrow> bytes option"
  be_words :: "nat \<Rightarrow> u32 list option"

section \<open>Setting up and releasing\<close>

definition calc_param :: "'d bloom_env \<Rightarrow> u32 \<Rightarrow> 'd \<Rightarrow> u32 \<times> u32" where
  "calc_param E n p =
     (let m0 = be_bits E n p;
          m = (m0 - m0 mod 64) + 64
      in (m, be_funcs E m n))"

definition InitBloomFilter :: "'d bloom_env \<Rightarrow> u32 \<Rightarrow> u32 \<Rightarrow> 'd \<Rightarrow> 'd bloom \<Rightarrow> (int \<times> 'd bloom) option" where
  "InitBloomFilter E seed items prob b =
     (if be_bad_prob E prob then Some (-2, b)
      else do {
        _ \<leftarrow> block_free (bf_filter b);
        _ \<leftarrow> block_free (bf_pos b);
        let (m, k) = calc_param E items prob;
            b1 = \<lparr>bf_init = 0, bf_max = items, bf_prob = prob, bf_bits = m, bf_funcs = k, bf_seed = seed,
                  bf_count = 0, bf_size = m div 8, bf_filter = Null, bf_pos = Null\<rparr>
        in (case be_bytes E (unat (bf_size b1)) of
              None \<Rightarrow> Some (-100, b1)
            | Some bs \<Rightarrow>
                let b2 = b1\<lparr>bf_filter := Live bs\<rparr>
                in (case be_words E (unat k) of
                      None \<Rightarrow> Some (-200, b2)
                    | Some ws \<Rightarrow>
                        Some (0, b2\<lparr>bf_pos := Live ws, bf_filter := Live (replicate (unat (bf_size b2)) 0),
                                   bf_init := 1\<rparr>)))
      })"

definition FreeBloomFilter :: "'d bloom \<Rightarrow> (int \<times> 'd bloom) option" where
  "FreeBloomFilter b = do {
     _ \<leftarrow> block_free (bf_filter b);
     _ \<leftarrow> block_free (bf_pos b);
     Some (0, b\<lparr>bf_init := 0, bf_count := 0, bf_filter := Null, bf_pos := Null\<rparr>)
   }"

definition ResetBloomFilter :: "'d bloom \<Rightarrow> int \<times> 'd bloom" where
  "ResetBloomFilter b = (0, b\<lparr>bf_init := 0, bf_count := 0\<rparr>)"

text \<open>\<open>memset(pstFilter, 0, dwFilterSize)\<close>\<close>

definition clear_filter :: "'d bloom \<Rightarrow> 'd bloom option" where
  "clear_filter b = do {
     bs \<leftarrow> block_get (bf_filter b);
     (if unat (bf_size b) \<le> length bs
      then Some (b\<lparr>bf_filter := Live (replicate (unat (bf_size b)) 0 @ drop (unat (bf_size b)) bs)\<rparr>)
      else None)
   }"

definition RealResetBloomFilter :: "'d bloom \<Rightarrow> (int \<times> 'd bloom) option" where
  "RealResetBloomFilter b = do { b1 \<leftarrow> clear_filter b; Some (0, b1\<lparr>bf_init := 1, bf_count := 0\<rparr>) }"

section \<open>Hashing\<close>

definition murmur_m :: u64 where "murmur_m = 0xc6a4a7935bd1e995"

definition load64 :: "bytes \<Rightarrow> nat \<Rightarrow> u64 option" where
  "load64 key j =
     (if j + 8 \<le> length key
      then Some (foldr (\<lambda>c acc. ucast c OR push_bit 8 acc) (take 8 (drop j key)) 0) else None)"

definition mix64 :: "u64 \<Rightarrow> u64 \<Rightarrow> u64" where
  "mix64 k h =
     (let k1 = k * murmur_m;
          k2 = k1 XOR drop_bit 47 k1;
          k3 = k2 * murmur_m
      in (h XOR k3) * murmur_m)"

text \<open>The loop over whole words: \<open>i\<close> is the index of \<open>data\<close>, then the number of words left.\<close>

fun murmur_words :: "bytes \<Rightarrow> nat \<Rightarrow> nat \<Rightarrow> u64 \<Rightarrow> u64 option" where
  "murmur_words key i 0 h = Some h"
| "murmur_words key i (Suc n) h = do { k \<leftarrow> load64 key (8 * i); murmur_words key (i + 1) n (mix64 k h) }"

text \<open>The \<open>switch\<close> over the remaining bytes falls through from case \<open>Suc t\<close> to case 1.\<close>

fun murmur_tail :: "bytes \<Rightarrow> nat \<Rightarrow> nat \<Rightarrow> u64 \<Rightarrow> u64 option" where
  "murmur_tail key base 0 h = Some h"
| "murmur_tail key base (Suc t) h = do {
     c \<leftarrow> aget key (int (base + t));
     let h1 = h XOR push_bit (8 * t) (ucast c)
     in if t = 0 then Some (h1 * murmur_m) else murmur_tail key base t h1
   }"

definition MurmurHash2_x64 :: "bytes \<Rightarrow> int \<Rightarrow> u32 \<Rightarrow> u64 option" where
  "MurmurHash2_x64 key len seed = do {
     let h = ucast seed XOR (word_of_int len * murmur_m);
     h1 \<leftarrow> murmur_words key 0 (nat (len div 8)) h;
     h2 \<leftarrow> murmur_tail key (8 * nat (len div 8)) (nat (len mod 8)) h1;
     let h3 = h2 XOR drop_bit 47 h2;
         h4 = h3 * murmur_m
     in Some (h4 XOR drop_bit 47 h4)
   }"

definition MIX_UINT64 :: "u64 \<Rightarrow> u32" where
  "MIX_UINT64 v = ucast (drop_bit 32 v XOR v)"

text \<open>The loop of \<open>bloom_hash\<close> from \<open>i\<close> on, for the \<open>n\<close> functions left.\<close>

fun hash_loop :: "u64 \<Rightarrow> u64 \<Rightarrow> u32 \<Rightarrow> nat \<Rightarrow> nat \<Rightarrow> u32 list \<Rightarrow> u32 list option" where
  "hash_loop hash1 hash2 bits i 0 pos = Some pos"
| "hash_loop hash1 hash2 bits i (Suc n) pos =
     (if bits = 0 then None
      else do {
        pos1 \<leftarrow> aset pos (int i) (ucast ((hash1 + of_nat i * hash2) mod ucast bits));
        hash_loop hash1 hash2 bits (i + 1) n pos1
      })"

definition bloom_hash :: "bytes \<Rightarrow> int \<Rightarrow> 'd bloom \<Rightarrow> 'd bloom option" where
  "bloom_hash key len b = do {
     hash1 \<leftarrow> MurmurHash2_x64 key len (bf_seed b);
     hash2 \<leftarrow> MurmurHash2_x64 key len (MIX_UINT64 hash1);
     let n = nat (sint (bf_funcs b)) in
     if n = 0 then Some b
     else do {
       pos \<leftarrow> block_get (bf_pos b);
       pos1 \<leftarrow> hash_loop hash1 hash2 (bf_bits b) 0 n pos;
       Some (b\<lparr>bf_pos := Live pos1\<rparr>)
     }
   }"

section \<open>Adding and checking\<close>

definition set_bit_at :: "u32 \<Rightarrow> bytes \<Rightarrow> bytes option" where
  "set_bit_at n bs = do {
     c \<leftarrow> aget bs (int (unat (n div 8)));
     aset bs (int (unat (n div 8))) (c OR push_bit (unat (n mod 8)) 1)
   }"

definition get_bit_at :: "u32 \<Rightarrow> bytes \<Rightarrow> bool option" where
  "get_bit_at n bs = do {
     c \<leftarrow> aget bs (int (unat (n div 8)));
     Some (c AND push_bit (unat (n mod 8)) 1 \<noteq> 0)
   }"

fun add_loop :: "u32 list \<Rightarrow> nat \<Rightarrow> nat \<Rightarrow> bytes \<Rightarrow> bytes option" where
  "add_loop pos i 0 bs = Some bs"
| "add_loop pos i (Suc n) bs = do {
     p \<leftarrow> aget pos (int i);
     bs1 \<leftarrow> set_bit_at p bs;
     add_loop pos (i + 1) n bs1
   }"

text \<open>Is every bit set?\<close>

fun check_loop :: "u32 list \<Rightarrow> nat \<Rightarrow> nat \<Rightarrow> bytes \<Rightarrow> bool option" where
  "check_loop pos i 0 bs = Some True"
| "check_loop pos i (Suc n) bs = do {
     p \<leftarrow> aget pos (int i);
     g \<leftarrow> get_bit_at p bs;
     if g then check_loop pos (i + 1) n bs else Some False
   }"

definition BloomFilter_Add :: "bytes option \<Rightarrow> int \<Rightarrow> 'd bloom \<Rightarrow> (int \<times> 'd bloom) option" where
  "BloomFilter_Add key len b =
     (if key = None \<or> len \<le> 0 then Some (-1, b)
      else do {
        b1 \<leftarrow> (if bf_init b \<noteq> 1 then do { b0 \<leftarrow> clear_filter b; Some (b0\<lparr>bf_init := 1\<rparr>) } else Some b);
        b2 \<leftarrow> bloom_hash (the key) len b1;
        let n = nat (sint (bf_funcs b2));
        b3 \<leftarrow> (if n = 0 then Some b2
               else do {
                 pos \<leftarrow> block_get (bf_pos b2);
                 bs \<leftarrow> block_get (bf_filter b2);
                 bs1 \<leftarrow> add_loop pos 0 n bs;
                 Some (b2\<lparr>bf_filter := Live bs1\<rparr>)
               });
        let b4 = b3\<lparr>bf_count := bf_count b3 + 1\<rparr>
        in Some (if bf_count b4 \<le> bf_max b4 then 0 else 1, b4)
      })"

definition BloomFilter_Check :: "bytes option \<Rightarrow> int \<Rightarrow> 'd bloom \<Rightarrow> (int \<times> 'd bloom) option" where
  "BloomFilter_Check key len b =
     (if key = None \<or> len \<le> 0 then Some (-1, b)
      else do {
        b1 \<leftarrow> bloom_hash (the key) len b;
        let n = nat (sint (bf_funcs b1));
        found \<leftarrow> (if n = 0 then Some True
               else do {
                 pos \<leftarrow> block_get (bf_pos b1);
                 bs \<leftarrow> block_get (bf_filter b1);
                 check_loop pos 0 n bs
               });
        Some (if found then 0 else 1, b1)
      })"

section \<open>Files\<close>

text \<open>The file is its head and its data.  \<open>opened\<close>: does \<open>fopen\<close> succeed; \<open>head_done\<close>: is the head
  transferred; \<open>data_done\<close>: how many bytes of the data are.\<close>

definition SaveBloomFilterToFile ::
  "bool \<Rightarrow> bool \<Rightarrow> (nat \<Rightarrow> nat) \<Rightarrow> 'd bloom \<Rightarrow> (int \<times> ('d bloom_head \<times> bytes) option) option" where
  "SaveBloomFilterToFile opened head_done data_done b =
     (if \<not> opened then Some (-11, None)
      else
        let fh = \<lparr>hd_magic = BLOOM_MAGIC, hd_seed = bf_seed b, hd_count = bf_count b, hd_max = bf_max b,
                  hd_prob = bf_prob b, hd_bits = bf_bits b, hd_funcs = bf_funcs b, hd_resv = replicate 6 0,
                  hd_crc = 0, hd_size = bf_size b\<rparr>
        in if \<not> head_done then Some (-21, None)
           else do {
             bs \<leftarrow> block_get (bf_filter b);
             (if length bs < unat (bf_size b) then None
              else
                let n = data_done (unat (bf_size b))
                in if n \<noteq> unat (bf_size b) then Some (-31, Some (fh, take n bs))
                   else Some (0, Some (fh, take n bs)))
           })"

definition LoadBloomFilterFromFile ::
  "'d bloom_env \<Rightarrow> ('d bloom_head option \<times> bytes) option \<Rightarrow> 'd bloom \<Rightarrow> (int \<times> 'd bloom) option" where
  "LoadBloomFilterFromFile E file b = do {
     f \<leftarrow> block_free (bf_filter b);
     p \<leftarrow> block_free (bf_pos b);
     let b0 = b\<lparr>bf_filter := f, bf_pos := p\<rparr> in
     case file of
       None \<Rightarrow> Some (-11, b0)
     | Some (None, _) \<Rightarrow> Some (-21, b0)
     | Some (Some fh, content) \<Rightarrow>
         if hd_magic fh \<noteq> BLOOM_MAGIC \<or> hd_bits fh \<noteq> hd_size fh * 8 then Some (-50, b0)
         else
           let b1 = b0\<lparr>bf_max := hd_max fh, bf_prob := hd_prob fh, bf_bits := hd_bits fh, bf_funcs := hd_funcs fh,
                       bf_seed := hd_seed fh, bf_count := hd_count fh, bf_size := hd_size fh\<rparr>
           in (case be_bytes E (unat (bf_size b1)) of
                 None \<Rightarrow> Some (-100, b1\<lparr>bf_filter := Null\<rparr>)
               | Some bs \<Rightarrow>
                   let b2 = b1\<lparr>bf_filter := Live bs\<rparr>
                   in (case be_words E (unat (bf_funcs b2)) of
                         None \<Rightarrow> Some (-200, b2\<lparr>bf_pos := Null\<rparr>)
                       | Some ws \<Rightarrow>
                           let n = min (length content) (unat (bf_size b2));
                               b3 = b2\<lparr>bf_pos := Live ws, bf_filter := Live (take n content @ drop n bs)\<rparr>
                           in if n \<noteq> unat (bf_size b3) then Some (-31, b3)
                              else Some (0, b3\<lparr>bf_init := 1\<rparr>)))
   }"

end
