(* ===== verification/Bloom_Props.thy ===== *)
theory Bloom_Props
  imports Bloom
begin

text \<open>
  Correctness of the Bloom filter: the filter holds exactly the bits of the keys added since it was last
  emptied, so that a key that was added is always found; and what survives a reset and a file.
\<close>

section \<open>The hash positions of a key\<close>

lemma murmur_words_ends: "8 * (i + n) \<le> length key \<Longrightarrow> \<exists>h'. murmur_words key i n h = Some h'"
proof (induction n arbitrary: i h)
  case (Suc n)
  then show ?case by (auto simp: load64_def)
qed simp

lemma murmur_tail_ends: "base + n \<le> length key \<Longrightarrow> \<exists>h'. murmur_tail key base n h = Some h'"
  by (induction n arbitrary: h) (auto simp: Let_def aget_nat simp del: of_nat_add)

lemma murmur_ends:
  assumes "0 < len" "nat len \<le> length key"
  shows "\<exists>h. MurmurHash2_x64 key len seed = Some h"
proof -
  have "8 * (len div 8) + len mod 8 = len" by simp
  moreover have "0 \<le> len div 8" "0 \<le> len mod 8" using assms(1) by (simp_all add: pos_imp_zdiv_nonneg_iff)
  ultimately have n: "8 * nat (len div 8) + nat (len mod 8) \<le> length key" using assms by linarith
  obtain h1 where "murmur_words key 0 (nat (len div 8)) (ucast seed XOR (word_of_int len * murmur_m)) = Some h1"
    using murmur_words_ends [of 0 "nat (len div 8)" key] n by fastforce
  moreover obtain h2 where "murmur_tail key (8 * nat (len div 8)) (nat (len mod 8)) h1 = Some h2"
    using murmur_tail_ends [OF n] by blast
  ultimately show ?thesis by (simp add: MurmurHash2_x64_def Let_def)
qed

text \<open>The \<open>i\<close>th position, from the two hashes.\<close>

definition position :: "u64 \<Rightarrow> u64 \<Rightarrow> u32 \<Rightarrow> nat \<Rightarrow> u32" where
  "position hash1 hash2 bits i = ucast ((hash1 + of_nat i * hash2) mod ucast bits)"

lemma position_less: "bits \<noteq> 0 \<Longrightarrow> position h1 h2 bits i < bits"
proof -
  assume b: "bits \<noteq> 0"
  let ?x = "h1 + of_nat i * h2" and ?b = "ucast bits :: u64"
  have ub: "unat ?b = unat bits" using unat_u32_lt [of bits] by (simp add: unsigned_ucast_eq take_bit_eq_mod)
  have "unat bits \<noteq> 0" using b by (simp add: unat_eq_0)
  then have lt: "unat (?x mod ?b) < unat bits" by (simp add: unat_mod ub)
  then have "unat (?x mod ?b) < 2 ^ 32" using unat_u32_lt [of bits] by simp
  then have "unat (ucast (?x mod ?b) :: u32) = unat (?x mod ?b)" by (simp add: unsigned_ucast_eq take_bit_eq_mod)
  then show ?thesis using lt by (simp add: position_def word_less_nat_alt)
qed

lemma hash_loop_ok:
  "bits \<noteq> 0 \<Longrightarrow> i + n \<le> length pos \<Longrightarrow>
   hash_loop h1 h2 bits i n pos = Some (take i pos @ map (position h1 h2 bits) [i..<i + n] @ drop (i + n) pos)"
proof (induction n arbitrary: i pos)
  case (Suc n)
  let ?p = "position h1 h2 bits i"
  have "hash_loop h1 h2 bits i (Suc n) pos = hash_loop h1 h2 bits (i + 1) n (pos[i := ?p])"
    using Suc.prems by (simp add: aset_nat position_def)
  also have "\<dots> = Some (take (i + 1) (pos[i := ?p]) @ map (position h1 h2 bits) [i + 1..<i + 1 + n] @ drop (i + 1 + n) (pos[i := ?p]))"
    using Suc by simp
  also have "take (i + 1) (pos[i := ?p]) = take i pos @ [?p]"
    using Suc.prems by (simp add: take_Suc_conv_app_nth)
  also have "drop (i + 1 + n) (pos[i := ?p]) = drop (i + Suc n) pos" by simp
  finally have r: "hash_loop h1 h2 bits i (Suc n) pos = Some ((take i pos @ [?p]) @
      map (position h1 h2 bits) [i + 1..<i + 1 + n] @ drop (i + Suc n) pos)" .
  have u: "[i..<i + Suc n] = i # [i + 1..<i + 1 + n]" by (simp add: upt_conv_Cons del: upt_Suc)
  show ?case unfolding r u by simp
qed simp

definition key_positions :: "u32 \<Rightarrow> u32 \<Rightarrow> u32 \<Rightarrow> bytes \<Rightarrow> int \<Rightarrow> u32 list" where
  "key_positions seed bits k key len =
     (let h1 = the (MurmurHash2_x64 key len seed);
          h2 = the (MurmurHash2_x64 key len (MIX_UINT64 h1))
      in map (position h1 h2 bits) [0..<nat (sint k)])"

section \<open>The filter as a set of bits\<close>

definition bit_set :: "bytes \<Rightarrow> u32 \<Rightarrow> bool" where
  "bit_set bs n \<longleftrightarrow> unat (n div 8) < length bs \<and> bit (bs ! unat (n div 8)) (unat (n mod 8))"

definition bloom_ok :: "'d bloom \<Rightarrow> bool" where
  "bloom_ok b \<longleftrightarrow> unat (bf_bits b) = 8 * unat (bf_size b) \<and> bf_bits b \<noteq> 0 \<and>
     (\<exists>bs. bf_filter b = Live bs \<and> length bs = unat (bf_size b)) \<and>
     (\<exists>ps. bf_pos b = Live ps \<and> length ps = unat (bf_funcs b)) \<and> unat (bf_funcs b) < 2 ^ 31"

text \<open>The set bits: none before the first addition after a reset, which empties the filter.\<close>

definition bloom_bits :: "'d bloom \<Rightarrow> u32 set" where
  "bloom_bits b = (if bf_init b = 1 then {n. n < bf_bits b \<and> bit_set (the (block_get (bf_filter b))) n} else {})"

abbreviation positions_of :: "'d bloom \<Rightarrow> bytes \<Rightarrow> int \<Rightarrow> u32 list" where
  "positions_of b key len \<equiv> key_positions (bf_seed b) (bf_bits b) (bf_funcs b) key len"

lemma key_positions_less: "bits \<noteq> 0 \<Longrightarrow> p \<in> set (key_positions seed bits k key len) \<Longrightarrow> p < bits"
  by (auto simp: key_positions_def Let_def position_less)

lemma div8_less:
  assumes "n < m" "unat m = 8 * s"
  shows "unat (n div 8 :: u32) < s"
proof -
  have "unat (n div 8) = unat n div 8" by (simp add: unat_div)
  moreover have "unat n < 8 * s" using assms by (simp add: word_less_nat_alt)
  ultimately show ?thesis by (simp add: less_mult_imp_div_less mult.commute)
qed

lemma mod8_less: "unat (n mod 8 :: u32) < 8"
  by (simp add: unat_mod)

lemma div_mod_inj: "n div 8 = m div 8 \<Longrightarrow> n mod 8 = m mod 8 \<Longrightarrow> n = (m :: u32)"
  by (metis word_mod_div_equality)

lemma bit_or_push: "j < 8 \<Longrightarrow> bit (c OR 2 ^ k :: u8) j \<longleftrightarrow> bit c j \<or> j = k"
  by (auto simp: bit_or_iff bit_exp_iff)

lemma bit_and_push: "k < 8 \<Longrightarrow> (c AND 2 ^ k :: u8) \<noteq> 0 \<longleftrightarrow> bit c k"
  by (simp add: bit_iff_and_push_bit_not_eq_0)

lemma set_bit_at_ok:
  assumes "unat (n div 8) < length bs"
  shows "\<exists>bs'. set_bit_at n bs = Some bs' \<and> length bs' = length bs \<and> (\<forall>m. bit_set bs' m \<longleftrightarrow> bit_set bs m \<or> m = n)"
proof -
  let ?i = "unat (n div 8)"
  let ?bs = "bs[?i := bs ! ?i OR push_bit (unat (n mod 8)) 1]"
  have "set_bit_at n bs = Some ?bs" using assms by (simp add: set_bit_at_def aget_nat aset_nat)
  moreover have "bit_set ?bs m \<longleftrightarrow> bit_set bs m \<or> m = n" for m
  proof (cases "unat (m div 8) = ?i")
    case True
    then have "m div 8 = n div 8" by (simp only: word_unat_eq_iff)
    moreover have "unat (m mod 8) = unat (n mod 8) \<longleftrightarrow> m mod 8 = n mod 8" by (simp only: word_unat_eq_iff)
    ultimately have "m = n \<longleftrightarrow> unat (m mod 8) = unat (n mod 8)" using div_mod_inj by blast
    then show ?thesis using True assms mod8_less [of m] by (simp add: bit_set_def bit_or_push)
  next
    case False
    then show ?thesis by (auto simp: bit_set_def)
  qed
  ultimately show ?thesis by auto
qed

lemma get_bit_at_ok: "unat (n div 8) < length bs \<Longrightarrow> get_bit_at n bs = Some (bit_set bs n)"
  by (simp add: get_bit_at_def aget_nat bit_set_def bit_and_push mod8_less)

lemma add_loop_ok:
  "i + n \<le> length pos \<Longrightarrow> (\<forall>p \<in> set (take n (drop i pos)). unat (p div 8) < length bs) \<Longrightarrow>
   \<exists>bs'. add_loop pos i n bs = Some bs' \<and> length bs' = length bs \<and>
     (\<forall>m. bit_set bs' m \<longleftrightarrow> bit_set bs m \<or> m \<in> set (take n (drop i pos)))"
proof (induction n arbitrary: i bs)
  case (Suc n)
  let ?p = "pos ! i"
  have d: "take (Suc n) (drop i pos) = ?p # take n (drop (i + 1) pos)"
    using Suc.prems(1) by (simp add: Cons_nth_drop_Suc [symmetric])
  obtain b1 where b1: "set_bit_at ?p bs = Some b1" "length b1 = length bs" "\<forall>m. bit_set b1 m \<longleftrightarrow> bit_set bs m \<or> m = ?p"
    using set_bit_at_ok [of ?p bs] Suc.prems(2) unfolding d by auto
  obtain b2 where b2: "add_loop pos (i + 1) n b1 = Some b2" "length b2 = length b1"
    "\<forall>m. bit_set b2 m \<longleftrightarrow> bit_set b1 m \<or> m \<in> set (take n (drop (i + 1) pos))"
    using Suc.IH [of "i + 1" b1] Suc.prems b1(2) unfolding d by auto
  have "add_loop pos i (Suc n) bs = Some b2" using Suc.prems(1) b1(1) b2(1) by (simp add: aget_nat)
  then show ?case using b1(2,3) b2(2,3) unfolding d by auto
qed simp

lemma check_loop_ok:
  "i + n \<le> length pos \<Longrightarrow> (\<forall>p \<in> set (take n (drop i pos)). unat (p div 8) < length bs) \<Longrightarrow>
   check_loop pos i n bs = Some (\<forall>p \<in> set (take n (drop i pos)). bit_set bs p)"
proof (induction n arbitrary: i)
  case (Suc n)
  have d: "take (Suc n) (drop i pos) = pos ! i # take n (drop (i + 1) pos)"
    using Suc.prems(1) by (simp add: Cons_nth_drop_Suc [symmetric])
  show ?case using Suc by (simp add: d aget_nat get_bit_at_ok)
qed simp

section \<open>The operations\<close>

lemma nat_sint_funcs: "unat (k :: u32) < 2 ^ 31 \<Longrightarrow> nat (sint k) = unat k"
  by (simp add: sint_u32)

lemma bloom_hash_ok:
  assumes b: "bloom_ok b" and key: "0 < len" "nat len \<le> length key"
  shows "bloom_hash key len b = Some (b\<lparr>bf_pos := Live (positions_of b key len)\<rparr>)"
    "length (positions_of b key len) = unat (bf_funcs b)"
proof -
  obtain h1 where h1: "MurmurHash2_x64 key len (bf_seed b) = Some h1" using murmur_ends [OF key] by blast
  obtain h2 where h2: "MurmurHash2_x64 key len (MIX_UINT64 h1) = Some h2" using murmur_ends [OF key] by blast
  obtain ps where ps: "bf_pos b = Live ps" "length ps = unat (bf_funcs b)" using b by (auto simp: bloom_ok_def)
  have k: "nat (sint (bf_funcs b)) = unat (bf_funcs b)" using b nat_sint_funcs by (auto simp: bloom_ok_def)
  have p: "positions_of b key len = map (position h1 h2 (bf_bits b)) [0..<unat (bf_funcs b)]"
    by (simp add: key_positions_def h1 h2 k)
  show "length (positions_of b key len) = unat (bf_funcs b)" by (simp add: p)
  have nz: "bf_bits b \<noteq> 0" using b by (simp add: bloom_ok_def)
  show "bloom_hash key len b = Some (b\<lparr>bf_pos := Live (positions_of b key len)\<rparr>)"
  proof (cases "unat (bf_funcs b) = 0")
    case True
    then have "b\<lparr>bf_pos := Live []\<rparr> = b" using ps by simp
    then show ?thesis using True h1 h2 k p by (simp add: bloom_hash_def)
  next
    case False
    then show ?thesis using h1 h2 k p ps hash_loop_ok [OF nz, of 0 "unat (bf_funcs b)" ps h1 h2]
      by (simp add: bloom_hash_def)
  qed
qed

text \<open>Adding: the bits of the key are added to the set, which a pending reset empties first.\<close>

lemma bloom_add_ok:
  assumes b: "bloom_ok b" and key: "0 < len" "nat len \<le> length key"
  shows "\<exists>b'. BloomFilter_Add (Some key) len b = Some (if bf_count b + 1 \<le> bf_max b then 0 else 1, b') \<and>
    bloom_ok b' \<and> bloom_bits b' = bloom_bits b \<union> set (positions_of b key len) \<and> bf_init b' = 1 \<and>
    bf_seed b' = bf_seed b \<and> bf_bits b' = bf_bits b \<and> bf_funcs b' = bf_funcs b \<and> bf_max b' = bf_max b \<and>
    bf_count b' = bf_count b + 1"
proof -
  obtain bs where bs: "bf_filter b = Live bs" "length bs = unat (bf_size b)" using b by (auto simp: bloom_ok_def)
  let ?bs = "if bf_init b = 1 then bs else replicate (length bs) 0"
  let ?b1 = "b\<lparr>bf_filter := Live ?bs, bf_init := 1\<rparr>"
  have init: "(if bf_init b \<noteq> 1 then do { b0 \<leftarrow> clear_filter b; Some (b0\<lparr>bf_init := 1\<rparr>) } else Some b) = Some ?b1"
    using bs by (cases "bf_init b = 1") (simp_all add: clear_filter_def)
  have b1: "bloom_ok ?b1" using b bs by (simp add: bloom_ok_def)
  have ps: "positions_of ?b1 key len = positions_of b key len" by simp
  let ?ps = "positions_of b key len" and ?k = "unat (bf_funcs b)"
  let ?b2 = "?b1\<lparr>bf_pos := Live ?ps\<rparr>"
  have hash: "bloom_hash key len ?b1 = Some ?b2" and lps: "length ?ps = ?k"
    using bloom_hash_ok [OF b1 key] ps by simp_all
  have nz: "bf_bits b \<noteq> 0" and sz: "unat (bf_bits b) = 8 * unat (bf_size b)" and kk: "nat (sint (bf_funcs b)) = ?k"
    using b nat_sint_funcs by (auto simp: bloom_ok_def)
  have inb: "\<forall>p \<in> set ?ps. unat (p div 8) < length ?bs"
    using key_positions_less [OF nz] div8_less [OF _ sz] bs(2) by auto
  obtain bs' where bs': "add_loop ?ps 0 ?k ?bs = Some bs'" "length bs' = length ?bs"
    "\<forall>m. bit_set bs' m \<longleftrightarrow> bit_set ?bs m \<or> m \<in> set ?ps"
    using add_loop_ok [of 0 ?k ?ps ?bs] lps inb by auto
  let ?b4 = "?b2\<lparr>bf_filter := Live bs', bf_count := bf_count b + 1\<rparr>"
  have "?k = 0 \<Longrightarrow> bs' = ?bs" using bs'(1) by simp
  then have run: "BloomFilter_Add (Some key) len b = Some (if bf_count b + 1 \<le> bf_max b then 0 else 1, ?b4)"
    unfolding BloomFilter_Add_def init using key(1) hash bs'(1) kk lps by simp
  have ok4: "bloom_ok ?b4" using b bs bs'(2) lps by (simp add: bloom_ok_def)
  have zero: "\<not> bit_set (replicate n 0) m" for n m by (auto simp: bit_set_def)
  have "bloom_bits ?b4 = bloom_bits b \<union> set ?ps"
  proof (cases "bf_init b = 1")
    case True
    then show ?thesis using bs'(3) bs(1) key_positions_less [OF nz] by (auto simp: bloom_bits_def)
  next
    case False
    then show ?thesis using bs'(3) bs(1) key_positions_less [OF nz] zero by (auto simp: bloom_bits_def)
  qed
  then show ?thesis using run ok4 by (intro exI [of _ ?b4]) simp
qed

text \<open>Checking: the bits that are there, a pending reset or not.\<close>

lemma bloom_check_ok:
  assumes b: "bloom_ok b" and key: "0 < len" "nat len \<le> length key"
  shows "BloomFilter_Check (Some key) len b =
    Some (if \<forall>p \<in> set (positions_of b key len). bit_set (the (block_get (bf_filter b))) p then 0 else 1,
          b\<lparr>bf_pos := Live (positions_of b key len)\<rparr>)"
proof -
  obtain bs where bs: "bf_filter b = Live bs" "length bs = unat (bf_size b)" using b by (auto simp: bloom_ok_def)
  have nz: "bf_bits b \<noteq> 0" and sz: "unat (bf_bits b) = 8 * unat (bf_size b)"
    and kk: "nat (sint (bf_funcs b)) = unat (bf_funcs b)"
    using b nat_sint_funcs by (auto simp: bloom_ok_def)
  let ?ps = "positions_of b key len"
  note h = bloom_hash_ok [OF b key]
  have inb: "\<forall>p \<in> set ?ps. unat (p div 8) < length bs"
    using key_positions_less [OF nz] div8_less [OF _ sz] bs(2) by auto
  have "check_loop ?ps 0 (unat (bf_funcs b)) bs = Some (\<forall>p \<in> set ?ps. bit_set bs p)"
    using check_loop_ok [of 0 "unat (bf_funcs b)" ?ps bs] h(2) inb by simp
  moreover have "unat (bf_funcs b) = 0 \<Longrightarrow> ?ps = []" using h(2) by simp
  ultimately show ?thesis using h(1) key(1) kk bs(1) by (simp add: BloomFilter_Check_def)
qed

section \<open>Runs\<close>

definition valid_key :: "bytes \<times> int \<Rightarrow> bool" where
  "valid_key k \<longleftrightarrow> 0 < snd k \<and> nat (snd k) \<le> length (fst k)"

fun bloom_adds :: "(bytes \<times> int) list \<Rightarrow> 'd bloom \<Rightarrow> 'd bloom option" where
  "bloom_adds [] b = Some b"
| "bloom_adds (k # ks) b = do { (_, b1) \<leftarrow> BloomFilter_Add (Some (fst k)) (snd k) b; bloom_adds ks b1 }"

definition bloom_check :: "bytes \<times> int \<Rightarrow> 'd bloom \<Rightarrow> int option" where
  "bloom_check k b = map_option fst (BloomFilter_Check (Some (fst k)) (snd k) b)"

lemma bloom_check_bits:
  assumes "bloom_ok b" "valid_key k" "bf_init b = 1"
  shows "bloom_check k b = Some (if set (positions_of b (fst k) (snd k)) \<subseteq> bloom_bits b then 0 else 1)"
proof -
  have nz: "bf_bits b \<noteq> 0" using assms(1) by (simp add: bloom_ok_def)
  have "(\<forall>p \<in> set (positions_of b (fst k) (snd k)). bit_set (the (block_get (bf_filter b))) p) \<longleftrightarrow>
      set (positions_of b (fst k) (snd k)) \<subseteq> bloom_bits b"
    using key_positions_less [OF nz] assms(3) by (auto simp: bloom_bits_def)
  then show ?thesis
    using bloom_check_ok [OF assms(1), of "snd k" "fst k"] assms(2) by (simp add: bloom_check_def valid_key_def)
qed

lemma bloom_adds_ok:
  "bloom_ok b \<Longrightarrow> \<forall>k \<in> set ks. valid_key k \<Longrightarrow>
   \<exists>b'. bloom_adds ks b = Some b' \<and> bloom_ok b' \<and>
     bloom_bits b' = bloom_bits b \<union> (\<Union>k \<in> set ks. set (positions_of b (fst k) (snd k))) \<and>
     bf_seed b' = bf_seed b \<and> bf_bits b' = bf_bits b \<and> bf_funcs b' = bf_funcs b \<and>
     (bf_init b = 1 \<or> ks \<noteq> [] \<longrightarrow> bf_init b' = 1) \<and> bf_count b' = bf_count b + of_nat (length ks)"
proof (induction ks arbitrary: b)
  case (Cons k ks)
  obtain b1 where b1: "BloomFilter_Add (Some (fst k)) (snd k) b = Some (if bf_count b + 1 \<le> bf_max b then 0 else 1, b1)"
    "bloom_ok b1" "bloom_bits b1 = bloom_bits b \<union> set (positions_of b (fst k) (snd k))" "bf_init b1 = 1"
    "bf_seed b1 = bf_seed b" "bf_bits b1 = bf_bits b" "bf_funcs b1 = bf_funcs b" "bf_count b1 = bf_count b + 1"
    using bloom_add_ok [OF Cons.prems(1), of "snd k" "fst k"] Cons.prems(2) by (auto simp: valid_key_def)
  obtain b2 where b2: "bloom_adds ks b1 = Some b2" "bloom_ok b2"
    "bloom_bits b2 = bloom_bits b1 \<union> (\<Union>k \<in> set ks. set (positions_of b1 (fst k) (snd k)))"
    "bf_seed b2 = bf_seed b1" "bf_bits b2 = bf_bits b1" "bf_funcs b2 = bf_funcs b1" "bf_init b2 = 1"
    "bf_count b2 = bf_count b1 + of_nat (length ks)"
    using Cons.IH [OF b1(2)] Cons.prems(2) b1(4) by auto
  have "bloom_adds (k # ks) b = Some b2" using b1(1) b2(1) by simp
  then show ?case using b1 b2 by (intro exI [of _ b2]) (simp add: Un_assoc)
qed auto

text \<open>What \<open>malloc\<close> returns has the requested size.\<close>

definition alloc_ok :: "'d bloom_env \<Rightarrow> bool" where
  "alloc_ok E \<longleftrightarrow> (\<forall>n bs. be_bytes E n = Some bs \<longrightarrow> length bs = n) \<and> (\<forall>n ws. be_words E n = Some ws \<longrightarrow> length ws = n)"

text \<open>The filter size is the requested number of bits, rounded up to a multiple of 64, when it fits.\<close>

lemma calc_bits:
  assumes "unat (be_bits E n p) < 2 ^ 32 - 64"
  shows "unat (fst (calc_param E n p)) = 64 * (unat (be_bits E n p) div 64) + 64"
proof -
  let ?m = "be_bits E n p"
  have le: "?m mod 64 \<le> ?m" by (simp add: word_le_nat_alt unat_mod)
  have "unat (?m - ?m mod 64) = unat ?m - unat ?m mod 64" using unat_sub [OF le] by (simp add: unat_mod)
  also have "\<dots> = 64 * (unat ?m div 64)" by (simp add: minus_mod_eq_mult_div)
  finally have s: "unat (?m - ?m mod 64) = 64 * (unat ?m div 64)" .
  have "64 * (unat ?m div 64) + 64 < 2 ^ 32" using assms by linarith
  then have "unat (?m - ?m mod 64 + 64) = 64 * (unat ?m div 64) + 64"
    using s by (simp add: unat_word_ariths)
  then show ?thesis by (simp add: calc_param_def Let_def)
qed

lemma bloom_init_ok:
  assumes "InitBloomFilter E seed items prob b0 = Some (0, b)" and "alloc_ok E"
    and "unat (be_bits E items prob) < 2 ^ 32 - 64" and "unat (bf_funcs b) < 2 ^ 31"
  shows "bloom_ok b \<and> bf_init b = 1 \<and> bloom_bits b = {} \<and> bf_count b = 0 \<and> bf_seed b = seed
    \<and> unat (be_bits E items prob) < unat (bf_bits b)"
proof -
  obtain m k where mk: "calc_param E items prob = (m, k)" by fastforce
  then have m: "unat m = 64 * (unat (be_bits E items prob) div 64) + 64" using calc_bits [OF assms(3)] by simp
  obtain ws where b: "b = \<lparr>bf_init = 1, bf_max = items, bf_prob = prob, bf_bits = m, bf_funcs = k, bf_seed = seed,
      bf_count = 0, bf_size = m div 8, bf_filter = Live (replicate (unat (m div 8)) 0), bf_pos = Live ws\<rparr>"
    and ws: "be_words E (unat k) = Some ws"
    using assms(1) mk by (auto simp: InitBloomFilter_def bind_eq_Some_conv Let_def split: if_splits option.splits)
  have s: "unat (m div 8) = unat m div 8" by (simp add: unat_div)
  have z: "\<not> bit_set (replicate n 0) q" for n q by (auto simp: bit_set_def)
  have "m \<noteq> 0" using m by (auto simp: unat_eq_0 [symmetric])
  moreover have "unat m = 8 * (unat m div 8)" unfolding m by simp
  moreover have "unat (be_bits E items prob) < unat m" unfolding m by linarith
  ultimately show ?thesis using b ws s assms(2,4) z by (auto simp: bloom_ok_def bloom_bits_def alloc_ok_def)
qed

section \<open>Properties\<close>

definition bloom_sample_env :: "bool bloom_env" where
  "bloom_sample_env = \<lparr>be_bad_prob = \<lambda>_. False, be_bits = \<lambda>n _. 10 * n, be_funcs = \<lambda>_ _. 3,
     be_bytes = \<lambda>n. Some (replicate n 7), be_words = \<lambda>n. Some (replicate n 0)\<rparr>"

definition sample_blank :: "bool bloom" where
  "sample_blank = \<lparr>bf_init = 0, bf_max = 0, bf_prob = False, bf_bits = 0, bf_funcs = 0, bf_seed = 0, bf_count = 0,
     bf_size = 0, bf_filter = Null, bf_pos = Null\<rparr>"

lemma sample_init:
  "\<exists>b. InitBloomFilter bloom_sample_env 5 100 True sample_blank = Some (0, b) \<and> bf_funcs b = 3"
  by (simp add: InitBloomFilter_def bloom_sample_env_def sample_blank_def calc_param_def Let_def)

lemma bloom_sample_env_ok: "alloc_ok bloom_sample_env" "unat (be_bits bloom_sample_env 100 p) < 2 ^ 32 - 64"
  by (simp_all add: alloc_ok_def bloom_sample_env_def)

text \<open>C23: a filter that was set up and given keys answers every question: it finds exactly the keys all
  of whose hash positions are positions of the added keys, so every key that was added is found, and
  no operation leaves the memory of the filter.\<close>

theorem bloom_finds_added:
  assumes "InitBloomFilter E seed items prob b0 = Some (0, b)" and "alloc_ok E"
    and "unat (be_bits E items prob) < 2 ^ 32 - 64" and "unat (bf_funcs b) < 2 ^ 31"
    and "\<forall>k \<in> set ks. valid_key k"
  shows "\<exists>b'. bloom_adds ks b = Some b' \<and> bf_count b' = of_nat (length ks) \<and>
    (\<forall>k \<in> set ks. bloom_check k b' = Some 0) \<and>
    (\<forall>k. valid_key k \<longrightarrow> bloom_check k b' =
       Some (if set (positions_of b (fst k) (snd k)) \<subseteq> (\<Union>a \<in> set ks. set (positions_of b (fst a) (snd a))) then 0 else 1))"
proof -
  have b: "bloom_ok b" "bf_init b = 1" "bloom_bits b = {}" "bf_count b = 0"
    using bloom_init_ok [OF assms(1-4)] by blast+
  obtain b' where b': "bloom_adds ks b = Some b'" "bloom_ok b'"
    "bloom_bits b' = (\<Union>k \<in> set ks. set (positions_of b (fst k) (snd k)))"
    "bf_seed b' = bf_seed b" "bf_bits b' = bf_bits b" "bf_funcs b' = bf_funcs b" "bf_init b' = 1"
    "bf_count b' = of_nat (length ks)"
    using bloom_adds_ok [OF b(1) assms(5)] b by auto
  have chk: "bloom_check k b' =
       Some (if set (positions_of b (fst k) (snd k)) \<subseteq> (\<Union>a \<in> set ks. set (positions_of b (fst a) (snd a))) then 0 else 1)"
    if "valid_key k" for k
    using bloom_check_bits [OF b'(2) that b'(7)] b'(3-6) by simp
  moreover have "bloom_check k b' = Some 0" if "k \<in> set ks" for k
    using chk [of k] assms(5) that by auto
  ultimately show ?thesis using b'(1,8) by blast
qed

lemma bloom_finds_added_witness:
  "\<exists>b b'. InitBloomFilter bloom_sample_env 5 100 True sample_blank = Some (0, b) \<and>
     bloom_adds [([1, 2, 3], 3), ([9, 9], 1)] b = Some b' \<and> bloom_check ([1, 2, 3], 3) b' = Some 0"
proof -
  obtain b where b: "InitBloomFilter bloom_sample_env 5 100 True sample_blank = Some (0, b)" "bf_funcs b = 3"
    using sample_init by blast
  have "unat (bf_funcs b) < 2 ^ 31" by (simp add: b(2))
  from bloom_finds_added [OF b(1) bloom_sample_env_ok this, of "[([1, 2, 3], 3), ([9, 9], 1)]"]
  show ?thesis using b(1) by (auto simp: valid_key_def)
qed

text \<open>A reset only takes effect with the next addition.  Until then the filter still finds every key
  that it found before; the next addition leaves exactly the positions of its own key.\<close>

theorem bloom_reset_is_late:
  assumes "bloom_ok b" and "bf_init b = 1" and "valid_key k" and "valid_key a"
  shows "bloom_check k (snd (ResetBloomFilter b)) = bloom_check k b \<and>
    (\<exists>b'. bloom_adds [a] (snd (ResetBloomFilter b)) = Some b' \<and> bf_count b' = 1 \<and>
      bloom_check k b' = Some (if set (positions_of b (fst k) (snd k)) \<subseteq> set (positions_of b (fst a) (snd a)) then 0 else 1))"
proof -
  let ?r = "snd (ResetBloomFilter b)"
  have r: "?r = b\<lparr>bf_init := 0, bf_count := 0\<rparr>" by (simp add: ResetBloomFilter_def)
  have ok: "bloom_ok ?r" using assms(1) by (simp add: r bloom_ok_def)
  have k: "0 < snd k" "nat (snd k) \<le> length (fst k)" using assms(3) by (auto simp: valid_key_def)
  have "bloom_check k ?r = bloom_check k b"
    using bloom_check_ok [OF ok k] bloom_check_ok [OF assms(1) k] by (simp add: bloom_check_def r)
  moreover obtain b' where b': "bloom_adds [a] ?r = Some b'" "bloom_ok b'"
    "bloom_bits b' = set (positions_of b (fst a) (snd a))" "bf_seed b' = bf_seed b" "bf_bits b' = bf_bits b"
    "bf_funcs b' = bf_funcs b" "bf_init b' = 1" "bf_count b' = 1"
    using bloom_adds_ok [OF ok, of "[a]"] assms(4) by (auto simp: r bloom_bits_def)
  ultimately show ?thesis using bloom_check_bits [OF b'(2) assms(3) b'(7)] by auto
qed

lemma bloom_reset_is_late_witness:
  "\<exists>b b1. InitBloomFilter bloom_sample_env 5 100 True sample_blank = Some (0, b) \<and> bloom_adds [([1, 2, 3], 3)] b = Some b1 \<and>
     bloom_check ([1, 2, 3], 3) (snd (ResetBloomFilter b1)) = Some 0"
proof -
  obtain b where b: "InitBloomFilter bloom_sample_env 5 100 True sample_blank = Some (0, b)" "bf_funcs b = 3"
    using sample_init by blast
  have v: "valid_key ([1, 2, 3], 3)" by (simp add: valid_key_def)
  have ok: "bloom_ok b" "bf_init b = 1"
    using bloom_init_ok [OF b(1) bloom_sample_env_ok] b(2) by simp_all
  obtain b1 where b1: "bloom_adds [([1, 2, 3], 3)] b = Some b1" "bloom_ok b1" "bf_init b1 = 1"
    "set (positions_of b1 [1, 2, 3] 3) \<subseteq> bloom_bits b1"
    using bloom_adds_ok [OF ok(1), of "[([1, 2, 3], 3)]"] v by (auto simp del: bloom_adds.simps)
  have "bloom_check ([1, 2, 3], 3) b1 = Some 0"
    using bloom_check_bits [OF b1(2) v b1(3)] b1(4) by simp
  then show ?thesis using bloom_reset_is_late [OF b1(2,3) v v] b1(1) b(1) by auto
qed

text \<open>A filter that is written to a file and read back into any filter whose memory is its own answers
  every question as before, with the same counters, and can be used further.\<close>

theorem bloom_file_round_trip:
  assumes "bloom_ok b" and "bf_init b = 1" and "alloc_ok E" and "be_bytes E (unat (bf_size b)) \<noteq> None"
    and "be_words E (unat (bf_funcs b)) \<noteq> None" and "bf_filter t \<noteq> Freed" and "bf_pos t \<noteq> Freed"
  shows "\<exists>fh bs b'. SaveBloomFilterToFile True True (\<lambda>n. n) b = Some (0, Some (fh, bs)) \<and>
    LoadBloomFilterFromFile E (Some (Some fh, bs)) t = Some (0, b') \<and> bloom_ok b' \<and>
    bloom_bits b' = bloom_bits b \<and> bf_count b' = bf_count b \<and> bf_max b' = bf_max b \<and>
    (\<forall>k. valid_key k \<longrightarrow> bloom_check k b' = bloom_check k b)"
proof -
  obtain bs where bs: "bf_filter b = Live bs" "length bs = unat (bf_size b)" using assms(1) by (auto simp: bloom_ok_def)
  obtain ms ws where al: "be_bytes E (unat (bf_size b)) = Some ms" "length ms = unat (bf_size b)"
    "be_words E (unat (bf_funcs b)) = Some ws" "length ws = unat (bf_funcs b)"
    using assms(3-5) by (auto simp: alloc_ok_def)
  obtain f p where fr: "block_free (bf_filter t) = Some f" "block_free (bf_pos t) = Some p"
    using assms(6,7) by (cases "bf_filter t"; cases "bf_pos t") auto
  let ?fh = "\<lparr>hd_magic = BLOOM_MAGIC, hd_seed = bf_seed b, hd_count = bf_count b, hd_max = bf_max b,
                  hd_prob = bf_prob b, hd_bits = bf_bits b, hd_funcs = bf_funcs b, hd_resv = replicate 6 0,
                  hd_crc = 0, hd_size = bf_size b\<rparr>"
  let ?b = "\<lparr>bf_init = 1, bf_max = bf_max b, bf_prob = bf_prob b, bf_bits = bf_bits b, bf_funcs = bf_funcs b,
      bf_seed = bf_seed b, bf_count = bf_count b, bf_size = bf_size b, bf_filter = Live bs, bf_pos = Live ws\<rparr>"
  have save: "SaveBloomFilterToFile True True (\<lambda>n. n) b = Some (0, Some (?fh, bs))"
    using bs by (simp add: SaveBloomFilterToFile_def Let_def)
  have "unat (bf_bits b) = unat (bf_size b * 8)"
  proof -
    have "unat (bf_bits b) = 8 * unat (bf_size b)" using assms(1) by (simp add: bloom_ok_def)
    moreover have "8 * unat (bf_size b) < 2 ^ 32" using calculation unat_u32_lt [of "bf_bits b"] by simp
    ultimately show ?thesis by (simp add: unat_word_ariths mult.commute)
  qed
  then have sz: "bf_bits b = bf_size b * 8" by (simp only: word_unat_eq_iff)
  have load: "LoadBloomFilterFromFile E (Some (Some ?fh, bs)) t = Some (0, ?b)"
    using fr al bs sz by (simp add: LoadBloomFilterFromFile_def Let_def)
  have ok: "bloom_ok ?b" using assms(1) bs al by (auto simp: bloom_ok_def)
  have bits: "bloom_bits ?b = bloom_bits b" using bs assms(2) by (simp add: bloom_bits_def)
  have "bloom_check k ?b = bloom_check k b" if "valid_key k" for k
    using bloom_check_bits [OF ok that] bloom_check_bits [OF assms(1) that assms(2)] bits by simp
  then show ?thesis using save load ok bits by (intro exI [of _ ?fh] exI [of _ bs] exI [of _ ?b]) simp
qed

lemma bloom_file_round_trip_witness:
  "\<exists>b fh bs b'. InitBloomFilter bloom_sample_env 5 100 True sample_blank = Some (0, b) \<and>
     SaveBloomFilterToFile True True (\<lambda>n. n) b = Some (0, Some (fh, bs)) \<and>
     LoadBloomFilterFromFile bloom_sample_env (Some (Some fh, bs)) sample_blank = Some (0, b') \<and> bloom_ok b'"
proof -
  obtain b where b: "InitBloomFilter bloom_sample_env 5 100 True sample_blank = Some (0, b)" "bf_funcs b = 3"
    using sample_init by blast
  have ok: "bloom_ok b" "bf_init b = 1" using bloom_init_ok [OF b(1) bloom_sample_env_ok] b(2) by simp_all
  have e: "be_bytes bloom_sample_env n \<noteq> None" "be_words bloom_sample_env n \<noteq> None" "bf_filter sample_blank \<noteq> Freed"
    "bf_pos sample_blank \<noteq> Freed" for n by (simp_all add: bloom_sample_env_def sample_blank_def)
  show ?thesis using bloom_file_round_trip [OF ok bloom_sample_env_ok(1) e] b(1) by blast
qed

text \<open>Loading frees the memory of the filter before it opens the file: when the file cannot be
  opened, the filter keeps pointers to freed memory, and every later operation that uses or frees them is
  undefined.\<close>

theorem bloom_failed_load_dangles:
  assumes "bloom_ok b" and "\<not> be_bad_prob E prob" and "valid_key k" and "bf_funcs b \<noteq> 0"
  shows "\<exists>b'. LoadBloomFilterFromFile E None b = Some (-11, b') \<and> InitBloomFilter E seed items prob b' = None \<and>
    FreeBloomFilter b' = None \<and> bloom_check k b' = None"
proof -
  let ?b = "b\<lparr>bf_filter := Freed, bf_pos := Freed\<rparr>"
  have load: "LoadBloomFilterFromFile E None b = Some (-11, ?b)"
    using assms(1) by (auto simp: bloom_ok_def LoadBloomFilterFromFile_def)
  have "nat (sint (bf_funcs b)) \<noteq> 0"
    using assms(1,4) nat_sint_funcs [of "bf_funcs b"] by (auto simp: bloom_ok_def unat_eq_0)
  then have "bloom_hash (fst k) (snd k) ?b = None" by (simp add: bloom_hash_def bind_eq_None_conv)
  then have "bloom_check k ?b = None" using assms(3) by (simp add: bloom_check_def BloomFilter_Check_def valid_key_def)
  then show ?thesis using load assms(2) by (intro exI [of _ ?b]) (simp add: InitBloomFilter_def FreeBloomFilter_def)
qed

lemma bloom_failed_load_dangles_witness:
  "\<exists>b b'. InitBloomFilter bloom_sample_env 5 100 True sample_blank = Some (0, b) \<and>
     LoadBloomFilterFromFile bloom_sample_env None b = Some (-11, b') \<and> FreeBloomFilter b' = None"
proof -
  obtain b where b: "InitBloomFilter bloom_sample_env 5 100 True sample_blank = Some (0, b)" "bf_funcs b = 3"
    using sample_init by blast
  have ok: "bloom_ok b" using bloom_init_ok [OF b(1) bloom_sample_env_ok] b(2) by simp
  have e: "\<not> be_bad_prob bloom_sample_env True" "valid_key ([1], 1)" "bf_funcs b \<noteq> 0"
    by (simp_all add: bloom_sample_env_def valid_key_def b(2))
  show ?thesis using bloom_failed_load_dangles [OF ok e] b(1) by blast
qed

end
