(* ===== verification/Thread_Pool.thy ===== *)
theory Thread_Pool
  imports Cvip_Prelude
begin

text \<open>
  The thread pool of \<open>code/threadpool/threadpool.c\<close> as a system of interleaved steps.  Every thread
  has a program counter; a step is one access to the shared state or one call of the pthread library,
  whose mutex and condition variable follow POSIX: a wait releases the mutex in one step with going to
  sleep, a signal wakes one waiting thread if there is one, and a thread may also wake without a signal.
  One thread (\<open>main\<close>) calls the interface.  A job is handed to its function by recording it in
  \<open>t_ran\<close>; \<open>t_added\<close> records the jobs that were put into the queue, \<open>t_threads\<close> the threads that
  were created, \<open>t_down\<close> that a shutdown began, and \<open>t_bad\<close> that a thread used the memory of a worker
  that was freed.
\<close>

section \<open>State\<close>

type_synonym loc = nat

datatype worker_pc =
    W_None | W_Lock | W_Test | W_Idle | W_Wait | W_Relock | W_Term | W_Take | W_Run loc | W_Free | W_Exit

datatype main_pc =
    M_Idle
  | M_New nat | M_Spawn nat loc | M_Link nat loc
  | Q_Lock loc | Q_Add loc | Q_Signal | Q_Unlock
  | S_Set loc | S_Next loc | S_Lock | S_Clear | S_Broadcast | S_Unlock

datatype owner = ByMain | ByWorker loc

record tp_state =
  w_next :: "loc \<Rightarrow> loc"
  w_prev :: "loc \<Rightarrow> loc"
  w_term :: "loc \<Rightarrow> bool"
  w_live :: "loc \<Rightarrow> bool"
  w_pc :: "loc \<Rightarrow> worker_pc"
  j_next :: "loc \<Rightarrow> loc"
  j_prev :: "loc \<Rightarrow> loc"
  q_workers :: loc
  q_jobs :: loc
  q_mutex :: "owner option"
  m_pc :: main_pc
  t_added :: "loc list"
  t_ran :: "loc list"
  t_threads :: "loc list"
  t_down :: bool
  t_bad :: bool

section \<open>The list macros\<close>

definition add_job :: "loc \<Rightarrow> tp_state \<Rightarrow> tp_state" where
  "add_job j s = s\<lparr>j_prev := (j_prev s)(j := 0), j_next := (j_next s)(j := q_jobs s), q_jobs := j\<rparr>"

definition add_worker :: "loc \<Rightarrow> tp_state \<Rightarrow> tp_state" where
  "add_worker w s = s\<lparr>w_prev := (w_prev s)(w := 0), w_next := (w_next s)(w := q_workers s), q_workers := w\<rparr>"

definition remove_job :: "loc \<Rightarrow> tp_state \<Rightarrow> tp_state" where
  "remove_job j s =
     (let s1 = (if j_prev s j \<noteq> 0 then s\<lparr>j_next := (j_next s)(j_prev s j := j_next s j)\<rparr> else s);
          s2 = (if j_next s1 j \<noteq> 0 then s1\<lparr>j_prev := (j_prev s1)(j_next s1 j := j_prev s1 j)\<rparr> else s1);
          s3 = (if q_jobs s2 = j then s2\<lparr>q_jobs := j_next s2 j\<rparr> else s2)
      in s3\<lparr>j_next := (j_next s3)(j := 0), j_prev := (j_prev s3)(j := 0)\<rparr>)"

section \<open>A worker thread\<close>

definition goto :: "loc \<Rightarrow> worker_pc \<Rightarrow> tp_state \<Rightarrow> tp_state" where
  "goto w p s = s\<lparr>w_pc := (w_pc s)(w := p)\<rparr>"

definition acquire :: "owner \<Rightarrow> tp_state \<Rightarrow> tp_state option" where
  "acquire ow s = (if q_mutex s = None then Some (s\<lparr>q_mutex := Some ow\<rparr>) else None)"

definition release :: "tp_state \<Rightarrow> tp_state" where
  "release s = s\<lparr>q_mutex := None\<rparr>"

text \<open>\<open>WorkerThread\<close>; \<open>None\<close> is a step that is not possible now.\<close>

fun WorkerThread :: "loc \<Rightarrow> worker_pc \<Rightarrow> tp_state \<Rightarrow> tp_state option" where
  "WorkerThread w W_Lock s = map_option (goto w W_Test) (acquire (ByWorker w) s)"
| "WorkerThread w W_Test s = Some (goto w (if q_jobs s = 0 then W_Idle else W_Term) s)"
| "WorkerThread w W_Idle s =
     Some (if w_term s w then goto w W_Term s else goto w W_Wait (release s))"
| "WorkerThread w W_Relock s = map_option (goto w W_Test) (acquire (ByWorker w) s)"
| "WorkerThread w W_Term s =
     Some (if w_term s w then goto w W_Free (release s) else goto w W_Take s)"
| "WorkerThread w W_Take s =
     (let j = q_jobs s in
      if j = 0 then Some (goto w W_Lock (release s))
      else Some (goto w (W_Run j) (release (remove_job j s))))"
| "WorkerThread w (W_Run j) s = Some (goto w W_Lock (s\<lparr>t_ran := t_ran s @ [j]\<rparr>))"
| "WorkerThread w W_Free s = Some (goto w W_Exit (s\<lparr>w_live := (w_live s)(w := False)\<rparr>))"
| "WorkerThread w _ s = None"

section \<open>The interface\<close>

text \<open>The calls \<open>ThreadPoolCreate\<close>, \<open>ThreadPoolQueue\<close> and \<open>ThreadPoolShutdown\<close>.\<close>

datatype call = Create int | Queue loc | Shutdown

text \<open>What the environment decides in a step of \<open>main\<close>: the address that \<open>malloc\<close> returns, whether
  \<open>pthread_create\<close> succeeds, which waiting thread a signal wakes.\<close>

record choice =
  c_addr :: loc
  c_ok :: bool

definition waiting :: "tp_state \<Rightarrow> loc \<Rightarrow> bool" where
  "waiting s w \<longleftrightarrow> w_pc s w = W_Wait"

fun begin_call :: "call \<Rightarrow> tp_state \<Rightarrow> tp_state option" where
  "begin_call (Create n) s =
     (if t_threads s = [] \<and> q_jobs s = 0 \<and> q_mutex s = None \<and> \<not> t_down s
      then Some (s\<lparr>q_workers := 0, m_pc := M_New (nat (max n 1))\<rparr>) else None)"
| "begin_call (Queue j) s =
     (if j \<noteq> 0 \<and> count_list (t_added s) j = count_list (t_ran s) j then Some (s\<lparr>m_pc := Q_Lock j\<rparr>) else None)"
| "begin_call Shutdown s = Some (s\<lparr>m_pc := S_Set (q_workers s), t_down := True\<rparr>)"

fun main_step :: "choice \<Rightarrow> main_pc \<Rightarrow> tp_state \<Rightarrow> tp_state option" where
  "main_step c M_Idle s = None"
| "main_step c (M_New n) s =
     (if n = 0 then Some (s\<lparr>m_pc := M_Idle\<rparr>)
      else if c_addr c = 0 then Some (s\<lparr>m_pc := M_Idle\<rparr>)
      else if w_live s (c_addr c) \<or> c_addr c \<in> set (t_threads s) then None
      else Some (s\<lparr>w_live := (w_live s)(c_addr c := True), w_term := (w_term s)(c_addr c := False),
                  w_next := (w_next s)(c_addr c := 0), w_prev := (w_prev s)(c_addr c := 0),
                  m_pc := M_Spawn n (c_addr c)\<rparr>))"
| "main_step c (M_Spawn n w) s =
     Some (if c_ok c then goto w W_Lock (s\<lparr>m_pc := M_Link n w, t_threads := w # t_threads s\<rparr>)
           else s\<lparr>w_live := (w_live s)(w := False), m_pc := M_Idle\<rparr>)"
| "main_step c (M_Link n w) s = Some (add_worker w (s\<lparr>m_pc := M_New (n - 1)\<rparr>))"
| "main_step c (Q_Lock j) s = map_option (\<lambda>s. s\<lparr>m_pc := Q_Add j\<rparr>) (acquire ByMain s)"
| "main_step c (Q_Add j) s = Some (add_job j (s\<lparr>m_pc := Q_Signal, t_added := t_added s @ [j]\<rparr>))"
| "main_step c Q_Signal s =
     (if waiting s (c_addr c) then Some (goto (c_addr c) W_Relock (s\<lparr>m_pc := Q_Unlock\<rparr>))
      else if list_ex (waiting s) (t_threads s) then None else Some (s\<lparr>m_pc := Q_Unlock\<rparr>))"
| "main_step c Q_Unlock s = Some (release (s\<lparr>m_pc := M_Idle\<rparr>))"
| "main_step c (S_Set w) s =
     (if w = 0 then Some (s\<lparr>m_pc := S_Lock\<rparr>)
      else if w_live s w then Some (s\<lparr>w_term := (w_term s)(w := True), m_pc := S_Next w\<rparr>)
      else Some (s\<lparr>t_bad := True\<rparr>))"
| "main_step c (S_Next w) s =
     (if w_live s w then Some (s\<lparr>m_pc := S_Set (w_next s w)\<rparr>) else Some (s\<lparr>t_bad := True\<rparr>))"
| "main_step c S_Lock s = map_option (\<lambda>s. s\<lparr>m_pc := S_Clear\<rparr>) (acquire ByMain s)"
| "main_step c S_Clear s = Some (s\<lparr>q_workers := 0, q_jobs := 0, m_pc := S_Broadcast\<rparr>)"
| "main_step c S_Broadcast s =
     Some (s\<lparr>w_pc := (\<lambda>w. if w_pc s w = W_Wait then W_Relock else w_pc s w), m_pc := S_Unlock\<rparr>)"
| "main_step c S_Unlock s = Some (release (s\<lparr>m_pc := M_Idle\<rparr>))"

section \<open>The system\<close>

datatype act = Call call | Main choice | Worker loc | Wake loc

definition tp_step :: "act \<Rightarrow> tp_state \<Rightarrow> tp_state option" where
  "tp_step a s =
     (if t_bad s then None
      else case a of
        Call c \<Rightarrow> if m_pc s = M_Idle then begin_call c s else None
      | Main c \<Rightarrow> main_step c (m_pc s) s
      | Worker w \<Rightarrow> WorkerThread w (w_pc s w) s
      | Wake w \<Rightarrow> if waiting s w then Some (goto w W_Relock s) else None)"

definition tp_start :: tp_state where
  "tp_start = \<lparr>w_next = \<lambda>_. 0, w_prev = \<lambda>_. 0, w_term = \<lambda>_. False, w_live = \<lambda>_. False, w_pc = \<lambda>_. W_None,
     j_next = \<lambda>_. 0, j_prev = \<lambda>_. 0, q_workers = 0, q_jobs = 0, q_mutex = None, m_pc = M_Idle,
     t_added = [], t_ran = [], t_threads = [], t_down = False, t_bad = False\<rparr>"

inductive tp_reach :: "tp_state \<Rightarrow> bool" where
  tp_reach_start: "tp_reach tp_start"
| tp_reach_step: "tp_reach s \<Longrightarrow> tp_step a s = Some s' \<Longrightarrow> tp_reach s'"

inductive_cases tp_reachE: "tp_reach s"

fun tp_run :: "act list \<Rightarrow> tp_state \<Rightarrow> tp_state option" where
  "tp_run [] s = Some s"
| "tp_run (a # as) s = do { s1 \<leftarrow> tp_step a s; tp_run as s1 }"

lemma tp_run_reach: "tp_run as s = Some s' \<Longrightarrow> tp_reach s \<Longrightarrow> tp_reach s'"
  by (induction as arbitrary: s) (auto simp: bind_eq_Some_conv intro: tp_reach_step)

end
