(* ===== verification/Thread_Pool_Inv.thy ===== *)
theory Thread_Pool_Inv
  imports Thread_Pool
begin

text \<open>
  The invariants of the thread pool: who holds the mutex, which threads exist, where every job is, and
  that no wake-up is lost; and the properties that follow.
\<close>

section \<open>Mutual exclusion\<close>

fun w_holds :: "worker_pc \<Rightarrow> bool" where
  "w_holds W_Test = True" | "w_holds W_Idle = True" | "w_holds W_Term = True" | "w_holds W_Take = True"
| "w_holds _ = False"

fun m_holds :: "main_pc \<Rightarrow> bool" where
  "m_holds (Q_Add j) = True" | "m_holds Q_Signal = True" | "m_holds Q_Unlock = True"
| "m_holds S_Clear = True" | "m_holds S_Broadcast = True" | "m_holds S_Unlock = True"
| "m_holds _ = False"

definition mutex_inv :: "tp_state \<Rightarrow> bool" where
  "mutex_inv s \<longleftrightarrow> (\<forall>w. w_holds (w_pc s w) \<longleftrightarrow> q_mutex s = Some (ByWorker w)) \<and>
     (m_holds (m_pc s) \<longleftrightarrow> q_mutex s = Some ByMain)"

text \<open>What the pieces of a step leave alone.\<close>

lemma remove_job_sel [simp]:
  "w_pc (remove_job j s) = w_pc s" "q_mutex (remove_job j s) = q_mutex s" "m_pc (remove_job j s) = m_pc s"
  "w_term (remove_job j s) = w_term s" "t_threads (remove_job j s) = t_threads s" "t_added (remove_job j s) = t_added s"
  "t_ran (remove_job j s) = t_ran s" "t_down (remove_job j s) = t_down s" "w_live (remove_job j s) = w_live s"
  "t_bad (remove_job j s) = t_bad s"
  by (simp_all add: remove_job_def Let_def)

lemma goto_sel [simp]:
  "w_pc (goto w p s) = (w_pc s)(w := p)" "q_mutex (goto w p s) = q_mutex s" "m_pc (goto w p s) = m_pc s"
  "w_term (goto w p s) = w_term s" "t_threads (goto w p s) = t_threads s" "t_added (goto w p s) = t_added s"
  "t_ran (goto w p s) = t_ran s" "t_down (goto w p s) = t_down s" "q_jobs (goto w p s) = q_jobs s"
  "j_next (goto w p s) = j_next s" "j_prev (goto w p s) = j_prev s" "t_bad (goto w p s) = t_bad s"
  by (simp_all add: goto_def)

lemma release_sel [simp]:
  "w_pc (release s) = w_pc s" "q_mutex (release s) = None" "m_pc (release s) = m_pc s"
  "w_term (release s) = w_term s" "t_threads (release s) = t_threads s" "t_added (release s) = t_added s"
  "t_ran (release s) = t_ran s" "t_down (release s) = t_down s" "q_jobs (release s) = q_jobs s"
  "j_next (release s) = j_next s" "j_prev (release s) = j_prev s" "t_bad (release s) = t_bad s"
  by (simp_all add: release_def)

lemma add_worker_sel [simp]:
  "w_pc (add_worker w s) = w_pc s" "q_mutex (add_worker w s) = q_mutex s" "m_pc (add_worker w s) = m_pc s"
  "w_term (add_worker w s) = w_term s" "t_threads (add_worker w s) = t_threads s" "t_added (add_worker w s) = t_added s"
  "t_ran (add_worker w s) = t_ran s" "t_down (add_worker w s) = t_down s" "q_jobs (add_worker w s) = q_jobs s"
  "j_next (add_worker w s) = j_next s" "j_prev (add_worker w s) = j_prev s"
  by (simp_all add: add_worker_def)

lemma add_job_sel [simp]:
  "w_pc (add_job j s) = w_pc s" "q_mutex (add_job j s) = q_mutex s" "m_pc (add_job j s) = m_pc s"
  "w_term (add_job j s) = w_term s" "t_threads (add_job j s) = t_threads s" "t_added (add_job j s) = t_added s"
  "t_ran (add_job j s) = t_ran s" "t_down (add_job j s) = t_down s" "q_jobs (add_job j s) = j"
  "j_next (add_job j s) = (j_next s)(j := q_jobs s)" "j_prev (add_job j s) = (j_prev s)(j := 0)"
  by (simp_all add: add_job_def)

lemma acquire_Some: "acquire ow s = Some s' \<longleftrightarrow> q_mutex s = None \<and> s' = s\<lparr>q_mutex := Some ow\<rparr>"
  by (auto simp: acquire_def)

lemma mutex_worker:
  assumes "mutex_inv s" "w_pc s' = (w_pc s)(w := p)" "m_pc s' = m_pc s"
    and "w_holds p \<and> q_mutex s' = Some (ByWorker w) \<and> q_mutex s \<in> {None, Some (ByWorker w)} \<or>
      \<not> w_holds p \<and> q_mutex s' = None \<and> q_mutex s = Some (ByWorker w) \<or>
      \<not> w_holds p \<and> \<not> w_holds (w_pc s w) \<and> q_mutex s' = q_mutex s"
  shows "mutex_inv s'"
  using assms unfolding mutex_inv_def by (elim disjE conjE) auto

lemma mutex_main:
  assumes "mutex_inv s" "w_pc s' = w_pc s"
    and "m_holds (m_pc s') \<and> q_mutex s' = Some ByMain \<and> q_mutex s \<in> {None, Some ByMain} \<or>
      \<not> m_holds (m_pc s') \<and> q_mutex s' = None \<and> q_mutex s = Some ByMain \<or>
      \<not> m_holds (m_pc s') \<and> \<not> m_holds (m_pc s) \<and> q_mutex s' = q_mutex s"
  shows "mutex_inv s'"
  using assms unfolding mutex_inv_def by (elim disjE conjE) auto

lemma mutex_holds: "mutex_inv s \<Longrightarrow> w_holds (w_pc s w) \<Longrightarrow> q_mutex s = Some (ByWorker w)"
  by (simp add: mutex_inv_def)

lemma mutex_holds_main: "mutex_inv s \<Longrightarrow> m_holds (m_pc s) \<Longrightarrow> q_mutex s = Some ByMain"
  by (simp add: mutex_inv_def)

lemma worker_mutex:
  assumes inv: "mutex_inv s" and st: "WorkerThread w (w_pc s w) s = Some s'"
  shows "mutex_inv s'"
proof -
  obtain p where p: "w_pc s' = (w_pc s)(w := p)" "m_pc s' = m_pc s"
      "w_holds p \<and> q_mutex s' = Some (ByWorker w) \<and> q_mutex s \<in> {None, Some (ByWorker w)} \<or>
      \<not> w_holds p \<and> q_mutex s' = None \<and> q_mutex s = Some (ByWorker w) \<or>
      \<not> w_holds p \<and> \<not> w_holds (w_pc s w) \<and> q_mutex s' = q_mutex s"
    using st mutex_holds [OF inv, of w]
    by (cases "w_pc s w") (auto simp: acquire_Some Let_def split: if_splits)
  show ?thesis by (rule mutex_worker [OF inv p])
qed

lemma wake_mutex:
  assumes "mutex_inv s" "w_pc s w = W_Wait" "w_pc s' = (w_pc s)(w := W_Relock)" "q_mutex s' = q_mutex s" "m_pc s' = m_pc s"
  shows "mutex_inv s'"
  by (rule mutex_worker [OF assms(1,3,5)]) (use assms in simp)

lemma mutex_goto:
  assumes "mutex_inv s" "\<not> w_holds (w_pc s w)" "\<not> w_holds p" "w_pc s' = (w_pc s)(w := p)" "q_mutex s' = q_mutex s"
    "m_holds (m_pc s') = m_holds (m_pc s)"
  shows "mutex_inv s'"
  using assms by (auto simp: mutex_inv_def)

section \<open>Threads\<close>

fun m_down :: "main_pc \<Rightarrow> bool" where
  "m_down (S_Set w) = True" | "m_down (S_Next w) = True" | "m_down S_Lock = True" | "m_down S_Clear = True"
| "m_down S_Broadcast = True" | "m_down S_Unlock = True" | "m_down _ = False"

fun m_new :: "main_pc \<Rightarrow> loc set" where
  "m_new (M_Spawn n w) = {w}" | "m_new _ = {}"

definition thread_inv :: "tp_state \<Rightarrow> bool" where
  "thread_inv s \<longleftrightarrow> (\<forall>w. w_pc s w \<noteq> W_None \<longleftrightarrow> w \<in> set (t_threads s)) \<and>
     (\<forall>w \<in> m_new (m_pc s). w \<notin> set (t_threads s) \<and> \<not> w_term s w) \<and> (m_down (m_pc s) \<longrightarrow> t_down s) \<and>
     (\<forall>w \<in> set (t_threads s). w_term s w \<or> w_pc s w \<in> {W_Free, W_Exit} \<longrightarrow> t_down s)"

lemma thread_main:
  assumes "thread_inv s" "w_pc s' = w_pc s" "t_threads s' = t_threads s" "t_down s \<Longrightarrow> t_down s'"
    and "\<And>w. w \<in> set (t_threads s) \<Longrightarrow> w_term s' w \<Longrightarrow> w_term s w \<or> t_down s'"
    and "\<And>w. w \<in> m_new (m_pc s') \<Longrightarrow> w \<notin> set (t_threads s) \<and> \<not> w_term s' w"
    and "m_down (m_pc s') \<Longrightarrow> t_down s'"
  shows "thread_inv s'"
  using assms(1,4-7) unfolding thread_inv_def assms(2,3) by blast

lemma thread_goto:
  assumes "thread_inv s" "w_pc s' = (w_pc s)(w := p)" "p \<noteq> W_None" "w_term s' = w_term s" "t_down s' = t_down s"
    and "w \<in> set (t_threads s) \<and> t_threads s' = t_threads s \<or>
      w \<notin> set (t_threads s) \<and> \<not> w_term s w \<and> t_threads s' = w # t_threads s"
    and "p \<in> {W_Free, W_Exit} \<Longrightarrow> w_term s w \<or> w_pc s w = W_Free"
    and "\<And>v. v \<in> m_new (m_pc s') \<Longrightarrow> v \<notin> set (t_threads s') \<and> \<not> w_term s' v" "m_down (m_pc s') \<longrightarrow> t_down s"
  shows "thread_inv s'"
proof -
  have inv: "\<And>v. w_pc s v \<noteq> W_None \<longleftrightarrow> v \<in> set (t_threads s)"
    "\<And>v. v \<in> set (t_threads s) \<Longrightarrow> w_term s v \<or> w_pc s v \<in> {W_Free, W_Exit} \<Longrightarrow> t_down s"
    using assms(1) unfolding thread_inv_def by blast+
  have set: "v \<in> set (t_threads s') \<longleftrightarrow> v = w \<or> v \<in> set (t_threads s)" for v using assms(6) by auto
  have "w_pc s' v \<noteq> W_None \<longleftrightarrow> v \<in> set (t_threads s')" for v
    using inv(1) [of v] assms(2,3) set [of v] by auto
  moreover have "t_down s'" if "v \<in> set (t_threads s')" "w_term s' v \<or> w_pc s' v \<in> {W_Free, W_Exit}" for v
  proof (cases "v = w")
    case True
    then have "w_term s w \<or> w_pc s w = W_Free" using that(2) assms(2,4,7) by auto
    moreover have "w \<in> set (t_threads s)" using calculation assms(6) inv(1) [of w] by auto
    ultimately show ?thesis using inv(2) [of w] assms(5) by auto
  next
    case False
    then show ?thesis using that set [of v] inv(2) [of v] assms(2,4,5) by auto
  qed
  ultimately show ?thesis using assms(5,8,9) unfolding thread_inv_def by auto
qed

lemma worker_threads:
  assumes inv: "thread_inv s" and st: "WorkerThread w (w_pc s w) s = Some s'"
  shows "thread_inv s'"
proof -
  obtain p where p: "w_pc s' = (w_pc s)(w := p)" "w_pc s w \<noteq> W_None" "p \<noteq> W_None" "m_pc s' = m_pc s"
      "t_threads s' = t_threads s" "w_term s' = w_term s" "t_down s' = t_down s"
      "p \<in> {W_Free, W_Exit} \<longrightarrow> w_term s w \<or> w_pc s w = W_Free"
    using st by (cases "w_pc s w") (auto simp: acquire_Some Let_def split: if_splits)
  have w: "w \<in> set (t_threads s)" using inv p(2) by (simp add: thread_inv_def)
  show ?thesis
    by (rule thread_goto [OF inv p(1,3,6,7)])
      (use w p(4-8) inv in \<open>auto simp: thread_inv_def\<close>)
qed

lemma main_threads:
  assumes inv: "thread_inv s" and st: "main_step c (m_pc s) s = Some s'"
  shows "thread_inv s'"
proof (cases "m_pc s")
  case (M_Spawn n w)
  have w: "w \<notin> set (t_threads s)" "\<not> w_term s w" using inv M_Spawn by (auto simp: thread_inv_def)
  show ?thesis
  proof (cases "c_ok c")
    case True
    then have "s' = goto w W_Lock (s\<lparr>m_pc := M_Link n w, t_threads := w # t_threads s\<rparr>)" using st M_Spawn by simp
    then show ?thesis using w by (intro thread_goto [OF inv, of _ w W_Lock]) simp_all
  next
    case False
    then show ?thesis using st M_Spawn by (intro thread_main [OF inv]) auto
  qed
next
  case Q_Signal
  have "waiting s (c_addr c) \<Longrightarrow> c_addr c \<in> set (t_threads s)" using inv by (auto simp: thread_inv_def waiting_def)
  then show ?thesis
    using st Q_Signal thread_goto [OF inv, of s' "c_addr c" W_Relock] thread_main [OF inv, of s']
    by (auto split: if_splits)
next
  case S_Broadcast
  have d: "t_down s" using inv S_Broadcast by (simp add: thread_inv_def)
  have "w_pc s' w \<noteq> W_None \<longleftrightarrow> w_pc s w \<noteq> W_None" for w
    using st S_Broadcast by (auto split: if_splits)
  then show ?thesis using inv st S_Broadcast d by (auto simp: thread_inv_def)
next
  case (M_New n)
  then show ?thesis using st by (intro thread_main [OF inv]) (auto split: if_splits)
next
  case (S_Set w)
  then have d: "t_down s" using inv by (simp add: thread_inv_def)
  then show ?thesis using st S_Set by (intro thread_main [OF inv]) (auto split: if_splits)
next
  case (S_Next w)
  then have d: "t_down s" using inv by (simp add: thread_inv_def)
  then show ?thesis using st S_Next by (intro thread_main [OF inv]) (auto split: if_splits)
next
  case S_Lock
  then have d: "t_down s" using inv by (simp add: thread_inv_def)
  then show ?thesis using st S_Lock by (intro thread_main [OF inv]) (auto simp: acquire_Some)
next
  case S_Clear
  then have d: "t_down s" using inv by (simp add: thread_inv_def)
  then show ?thesis using st S_Clear by (intro thread_main [OF inv]) auto
next
  case (M_Link n w)
  then show ?thesis using st by (intro thread_main [OF inv]) auto
next
  case (Q_Lock j)
  then show ?thesis using st by (intro thread_main [OF inv]) (auto simp: acquire_Some)
next
  case (Q_Add j)
  then show ?thesis using st by (intro thread_main [OF inv]) auto
next
  case Q_Unlock
  then show ?thesis using st by (intro thread_main [OF inv]) auto
next
  case S_Unlock
  then show ?thesis using st by (intro thread_main [OF inv]) auto
qed (use st in simp)

lemma call_threads: "thread_inv s \<Longrightarrow> m_pc s = M_Idle \<Longrightarrow> begin_call c s = Some s' \<Longrightarrow> thread_inv s'"
  by (cases c) (auto intro!: thread_main [of s] split: if_splits)

lemma main_mutex:
  assumes inv: "mutex_inv s" "thread_inv s" and st: "main_step c (m_pc s) s = Some s'"
  shows "mutex_inv s'"
proof (cases "m_pc s")
  case (M_Spawn n w)
  have "w_pc s w = W_None" using inv(2) M_Spawn by (auto simp: thread_inv_def)
  then show ?thesis
    using st M_Spawn mutex_goto [OF inv(1), of w W_Lock s'] mutex_main [OF inv(1), of s'] by (auto split: if_splits)
next
  case Q_Signal
  then show ?thesis
    using st mutex_goto [OF inv(1), of "c_addr c" W_Relock s'] mutex_main [OF inv(1), of s'] mutex_holds_main [OF inv(1)]
    by (auto simp: waiting_def split: if_splits)
next
  case S_Broadcast
  have "w_holds (if w_pc s w = W_Wait then W_Relock else w_pc s w) = w_holds (w_pc s w)" for w by simp
  then show ?thesis using inv(1) st S_Broadcast by (auto simp: mutex_inv_def)
qed (use st mutex_main [OF inv(1), of s'] mutex_holds_main [OF inv(1)] in
  \<open>auto simp: acquire_Some split: if_splits\<close>)

lemma call_mutex: "mutex_inv s \<Longrightarrow> m_pc s = M_Idle \<Longrightarrow> begin_call c s = Some s' \<Longrightarrow> mutex_inv s'"
  using mutex_main [of s s'] by (cases c) (auto split: if_splits)

section \<open>Where the jobs are\<close>

definition running :: "loc \<Rightarrow> tp_state \<Rightarrow> nat" where
  "running j s = card {w. w_pc s w = W_Run j}"

text \<open>Every job that was added is waiting, running, has run, or was dropped by a shutdown.\<close>

definition jobs_at :: "tp_state \<Rightarrow> loc list \<Rightarrow> loc list \<Rightarrow> bool" where
  "jobs_at s ws ds \<longleftrightarrow> nodes (j_next s) (q_jobs s) ws \<and> (\<forall>j \<in> set ws. j_prev s j = 0) \<and>
     (\<forall>j. count_list (t_added s) j = count_list ws j + running j s + count_list (t_ran s) j + count_list ds j) \<and>
     (\<not> t_down s \<longrightarrow> ds = [])"

lemma running_same: "(\<And>w. w_pc s' w = W_Run j \<longleftrightarrow> w_pc s w = W_Run j) \<Longrightarrow> running j s' = running j s"
  by (simp add: running_def)

lemma running_goto:
  assumes fin: "finite {w. w_pc s w \<noteq> W_None}" and pc: "w_pc s' = (w_pc s)(w := p)"
  shows "running j s' + (if w_pc s w = W_Run j then 1 else 0) = running j s + (if p = W_Run j then 1 else 0)"
proof -
  define A where "A = {v. w_pc s v = W_Run j} - {w}"
  have "finite A" unfolding A_def by (rule finite_subset [OF _ fin]) auto
  moreover have "w \<notin> A" by (simp add: A_def)
  moreover have "{v. w_pc s v = W_Run j} = (if w_pc s w = W_Run j then insert w A else A)"
    by (auto simp: A_def)
  moreover have "{v. w_pc s' v = W_Run j} = (if p = W_Run j then insert w A else A)"
    by (auto simp: A_def pc)
  ultimately show ?thesis by (simp add: running_def)
qed

lemma jobs_same:
  assumes "jobs_at s ws ds" "j_next s' = j_next s" "j_prev s' = j_prev s" "q_jobs s' = q_jobs s" "t_added s' = t_added s"
    "t_ran s' = t_ran s" "t_down s \<longrightarrow> t_down s'" "\<And>j. running j s' = running j s"
  shows "jobs_at s' ws ds"
  using assms by (auto simp: jobs_at_def)

lemma remove_head:
  assumes ws: "nodes (j_next s) (q_jobs s) (j # ws)" and pv: "\<forall>i \<in> set (j # ws). j_prev s i = 0"
  shows "nodes (j_next (remove_job j s)) (q_jobs (remove_job j s)) ws \<and> (\<forall>i \<in> set ws. j_prev (remove_job j s) i = 0)"
proof -
  have j: "q_jobs s = j" "j \<noteq> 0" "j \<notin> set ws" and n: "nodes (j_next s) (j_next s j) ws"
    using ws nodes_distinct [OF ws] by auto
  have "q_jobs (remove_job j s) = j_next s j" "j_next (remove_job j s) = (j_next s)(j := 0)"
    using j pv by (simp_all add: remove_job_def Let_def)
  moreover have "j_prev (remove_job j s) i = 0" if "i \<in> set ws" for i
    using that j pv by (auto simp: remove_job_def Let_def)
  ultimately show ?thesis using n j by simp
qed

lemma worker_jobs:
  assumes jb: "jobs_at s ws ds" and th: "thread_inv s" and st: "WorkerThread w (w_pc s w) s = Some s'"
  shows "\<exists>ws'. jobs_at s' ws' ds \<and> (ws' = ws \<or> ws' = tl ws)"
proof -
  have "{v. w_pc s v \<noteq> W_None} = set (t_threads s)" using th by (auto simp: thread_inv_def)
  then have fin: "finite {v. w_pc s v \<noteq> W_None}" by simp
  consider (take) "w_pc s w = W_Take" "q_jobs s \<noteq> 0" | (run) j where "w_pc s w = W_Run j"
    | (other) p where "w_pc s' = (w_pc s)(w := p)" "\<And>j. w_pc s w \<noteq> W_Run j" "\<And>j. p \<noteq> W_Run j"
      "j_next s' = j_next s" "j_prev s' = j_prev s" "q_jobs s' = q_jobs s" "t_added s' = t_added s"
      "t_ran s' = t_ran s" "t_down s' = t_down s"
    using st by (cases "w_pc s w") (auto simp: acquire_Some Let_def split: if_splits)
  then show ?thesis
  proof cases
    case take
    obtain j rs where ws: "ws = j # rs" "q_jobs s = j" using jb take(2) by (cases ws) (auto simp: jobs_at_def)
    have s': "s' = goto w (W_Run j) (release (remove_job j s))" using st take ws by simp
    have r: "running i s' = running i s + (if i = j then 1 else 0)" for i
      using running_goto [OF fin, of s' w "W_Run j" i] take(1) by (simp add: s' split: if_splits)
    have rm: "nodes (j_next (remove_job j s)) (q_jobs (remove_job j s)) rs" "\<forall>i \<in> set rs. j_prev (remove_job j s) i = 0"
      using remove_head [of s j rs] jb ws by (auto simp: jobs_at_def)
    have "jobs_at s' rs ds" using jb rm r by (auto simp: jobs_at_def ws(1) s')
    then show ?thesis using ws(1) by auto
  next
    case (run j)
    have s': "s' = goto w W_Lock (s\<lparr>t_ran := t_ran s @ [j]\<rparr>)" using st run by simp
    have r: "running i s' + (if i = j then 1 else 0) = running i s" for i
      using running_goto [OF fin, of s' w W_Lock i] run by (simp add: s' split: if_splits)
    have "count_list ws i + running i s' + count_list (t_ran s') i + count_list ds i =
      count_list ws i + running i s + count_list (t_ran s) i + count_list ds i" for i
      using r [of i] by (cases "i = j") (simp_all add: s')
    then have "jobs_at s' ws ds" using jb by (auto simp: jobs_at_def s')
    then show ?thesis by blast
  next
    case other
    have "running j s' = running j s" for j using other(1-3) by (intro running_same) auto
    then have "jobs_at s' ws ds" using other by (intro jobs_same [OF jb]) auto
    then show ?thesis by blast
  qed
qed

text \<open>A job may be queued once it has run as often as it was added: then it is not waiting.\<close>

lemma main_jobs:
  assumes jb: "jobs_at s ws ds" and th: "thread_inv s" and new: "\<And>j. m_pc s = Q_Lock j \<or> m_pc s = Q_Add j \<Longrightarrow>
      j \<noteq> 0 \<and> count_list (t_added s) j = count_list (t_ran s) j"
    and st: "main_step c (m_pc s) s = Some s'"
  shows "\<exists>ws' ds'. jobs_at s' ws' ds'"
proof -
  consider (add) j where "m_pc s = Q_Add j" | (clear) "m_pc s = S_Clear"
    | (other) "\<And>j w. w_pc s' w = W_Run j \<longleftrightarrow> w_pc s w = W_Run j"
      "j_next s' = j_next s" "j_prev s' = j_prev s" "q_jobs s' = q_jobs s" "t_added s' = t_added s"
      "t_ran s' = t_ran s" "t_down s' = t_down s"
  proof (cases "m_pc s")
    case (M_Spawn n w)
    have "w_pc s w = W_None" using th M_Spawn by (auto simp: thread_inv_def)
    then show ?thesis using st M_Spawn that(3) by (auto split: if_splits)
  next
    case Q_Signal
    then show ?thesis using st that(3) by (auto simp: waiting_def split: if_splits)
  next
    case S_Broadcast
    then show ?thesis using st that(3) by (auto split: if_splits)
  qed (use st that in \<open>auto simp: acquire_Some split: if_splits\<close>)
  then show ?thesis
  proof cases
    case (add j)
    have s': "s' = add_job j (s\<lparr>m_pc := Q_Signal, t_added := t_added s @ [j]\<rparr>)" using st add by simp
    have j: "j \<noteq> 0" "count_list (t_added s) j = count_list (t_ran s) j" using new add by auto
    then have "count_list ws j = 0" using jb by (auto simp: jobs_at_def)
    then have "j \<notin> set ws" by (simp add: count_list_0_iff)
    moreover have "running i s' = running i s" for i by (rule running_same) (simp add: s')
    ultimately have "jobs_at s' (j # ws) ds" using jb j(1) by (auto simp: jobs_at_def s')
    then show ?thesis by blast
  next
    case clear
    have s': "s' = s\<lparr>q_workers := 0, q_jobs := 0, m_pc := S_Broadcast\<rparr>" using st clear by simp
    have "t_down s" using th clear by (simp add: thread_inv_def)
    moreover have "running i s' = running i s" for i by (rule running_same) (simp add: s')
    ultimately have "jobs_at s' [] (ws @ ds)" using jb by (auto simp: jobs_at_def s')
    then show ?thesis by blast
  next
    case other
    then have "jobs_at s' ws ds" by (intro jobs_same [OF jb] running_same) auto
    then show ?thesis by blast
  qed
qed

section \<open>The invariant\<close>

fun m_adds :: "main_pc \<Rightarrow> loc set" where
  "m_adds (Q_Lock j) = {j}" | "m_adds (Q_Add j) = {j}" | "m_adds _ = {}"

text \<open>The job that \<open>main\<close> is about to add is not in the pool.\<close>

definition call_inv :: "tp_state \<Rightarrow> bool" where
  "call_inv s \<longleftrightarrow> (\<forall>j \<in> m_adds (m_pc s). j \<noteq> 0 \<and> count_list (t_added s) j = count_list (t_ran s) j)"

text \<open>No wake-up is lost: a thread that goes to sleep saw the queue empty, and while a job waits not all
  threads sleep, except between the addition of a job and its signal.\<close>

definition wake_inv :: "tp_state \<Rightarrow> bool" where
  "wake_inv s \<longleftrightarrow> (\<forall>w. w_pc s w = W_Idle \<longrightarrow> q_jobs s = 0) \<and>
     (q_jobs s \<noteq> 0 \<and> m_pc s \<noteq> Q_Signal \<and> \<not> t_down s \<and> t_threads s \<noteq> [] \<longrightarrow>
        (\<exists>w \<in> set (t_threads s). w_pc s w \<noteq> W_Wait))"

lemma wake_awake:
  assumes "\<And>w. w_pc s w = W_Idle \<Longrightarrow> q_jobs s = 0" "w \<in> set (t_threads s)" "w_pc s w \<noteq> W_Wait"
  shows "wake_inv s"
  using assms by (auto simp: wake_inv_def)

lemma wake_same:
  assumes "wake_inv s" "w_pc s' = w_pc s" "q_jobs s' = q_jobs s" "t_threads s' = t_threads s" "t_down s \<longrightarrow> t_down s'"
    and "m_pc s = Q_Signal \<longrightarrow> m_pc s' = Q_Signal"
  shows "wake_inv s'"
  using assms by (auto simp: wake_inv_def)

lemma worker_wake:
  assumes wk: "wake_inv s" and mx: "mutex_inv s" and th: "thread_inv s" and st: "WorkerThread w (w_pc s w) s = Some s'"
  shows "wake_inv s'"
proof -
  have w: "w \<in> set (t_threads s)" using th st by (cases "w_pc s w") (auto simp: thread_inv_def)
  have idle: "q_jobs s = 0" if "w_pc s v = W_Idle" for v using wk that unfolding wake_inv_def by blast
  show ?thesis
  proof (cases "w_pc s w = W_Idle")
    case True
    then have "q_jobs s' = 0" using idle [of w] st by (auto split: if_splits)
    then show ?thesis by (simp add: wake_inv_def)
  next
    case False
    have w': "w \<in> set (t_threads s')" using worker_threads [OF th st] st False w
      by (cases "w_pc s w") (auto simp: acquire_Some Let_def split: if_splits)
    have pc: "w_pc s' w \<noteq> W_Wait" "\<And>v. v \<noteq> w \<Longrightarrow> w_pc s' v = w_pc s v"
      using st False by (cases "w_pc s w"; auto simp: acquire_Some Let_def split: if_splits)+
    have "q_jobs s' = 0" if v: "w_pc s' v = W_Idle" for v
    proof (cases "v = w")
      case True
      then show ?thesis using st False v
        by (cases "w_pc s w") (auto simp: acquire_Some Let_def split: if_splits)
    next
      case vw: False
      then have vi: "w_pc s v = W_Idle" using pc v by simp
      then have m: "q_mutex s = Some (ByWorker v)" using mutex_holds [OF mx] by simp
      have "w_pc s w \<noteq> W_Take" using mutex_holds [OF mx, of w] m vw by auto
      then show ?thesis using st idle [OF vi] False
        by (cases "w_pc s w") (auto simp: acquire_Some Let_def split: if_splits)
    qed
    then show ?thesis using wake_awake [OF _ w' pc(1)] by blast
  qed
qed

lemma main_wake:
  assumes wk: "wake_inv s" and mx: "mutex_inv s" and th: "thread_inv s" and st: "main_step c (m_pc s) s = Some s'"
  shows "wake_inv s'"
proof -
  have idle: "\<And>v. w_pc s v = W_Idle \<Longrightarrow> q_jobs s = 0" using wk unfolding wake_inv_def by blast
  have in_th: "\<And>v. w_pc s v \<noteq> W_None \<Longrightarrow> v \<in> set (t_threads s)" using th by (simp add: thread_inv_def)
  show ?thesis
  proof (cases "m_pc s")
    case (M_Spawn n w)
    show ?thesis
    proof (cases "c_ok c")
      case True
      then have s': "s' = goto w W_Lock (s\<lparr>m_pc := M_Link n w, t_threads := w # t_threads s\<rparr>)" using st M_Spawn by simp
      show ?thesis by (rule wake_awake [of _ w]) (use idle in \<open>auto simp: s' split: if_splits\<close>)
    next
      case False
      then show ?thesis using st M_Spawn by (intro wake_same [OF wk]) auto
    qed
  next
    case (Q_Add j)
    have "q_mutex s = Some ByMain" using mutex_holds_main [OF mx] Q_Add by simp
    then have "w_pc s v \<noteq> W_Idle" for v using mutex_holds [OF mx, of v] by auto
    then show ?thesis using st Q_Add by (auto simp: wake_inv_def)
  next
    case Q_Signal
    show ?thesis
    proof (cases "waiting s (c_addr c)")
      case True
      then have s': "s' = goto (c_addr c) W_Relock (s\<lparr>m_pc := Q_Unlock\<rparr>)" using st Q_Signal by simp
      have "c_addr c \<in> set (t_threads s)" using in_th True by (simp add: waiting_def)
      then show ?thesis by (intro wake_awake [of _ "c_addr c"]) (use idle in \<open>auto simp: s' split: if_splits\<close>)
    next
      case False
      then have s': "s' = s\<lparr>m_pc := Q_Unlock\<rparr>" and no: "\<forall>v \<in> set (t_threads s). w_pc s v \<noteq> W_Wait"
        using st Q_Signal by (auto simp: list_ex_iff waiting_def split: if_splits)
      show ?thesis using no idle by (cases "t_threads s") (auto simp: wake_inv_def s')
    qed
  next
    case S_Broadcast
    then have "t_down s" using th by (simp add: thread_inv_def)
    then show ?thesis using st S_Broadcast idle by (auto simp: wake_inv_def split: if_splits)
  next
    case S_Clear
    then show ?thesis using st by (auto simp: wake_inv_def)
  next
    case (M_New n)
    then show ?thesis using st by (intro wake_same [OF wk]) (auto split: if_splits)
  next
    case (M_Link n w)
    then show ?thesis using st by (intro wake_same [OF wk]) auto
  next
    case (Q_Lock j)
    then show ?thesis using st by (intro wake_same [OF wk]) (auto simp: acquire_Some)
  next
    case Q_Unlock
    then show ?thesis using st by (intro wake_same [OF wk]) auto
  next
    case (S_Set w)
    then show ?thesis using st by (intro wake_same [OF wk]) (auto split: if_splits)
  next
    case (S_Next w)
    then show ?thesis using st by (intro wake_same [OF wk]) (auto split: if_splits)
  next
    case S_Lock
    then show ?thesis using st by (intro wake_same [OF wk]) (auto simp: acquire_Some)
  next
    case S_Unlock
    then show ?thesis using st by (intro wake_same [OF wk]) auto
  qed (use st in simp)
qed

definition tp_inv :: "tp_state \<Rightarrow> bool" where
  "tp_inv s \<longleftrightarrow> mutex_inv s \<and> thread_inv s \<and> (\<exists>ws ds. jobs_at s ws ds) \<and> call_inv s \<and> wake_inv s"

lemma worker_call:
  assumes cl: "call_inv s" and jb: "jobs_at s ws ds" and th: "thread_inv s" and st: "WorkerThread w (w_pc s w) s = Some s'"
  shows "call_inv s'"
proof -
  have m: "m_pc s' = m_pc s" "t_added s' = t_added s"
    using st by (cases "w_pc s w"; auto simp: acquire_Some Let_def split: if_splits)+
  show ?thesis
  proof (cases "\<exists>j. w_pc s w = W_Run j")
    case True
    then obtain j where j: "w_pc s w = W_Run j" ..
    have "{v. w_pc s v \<noteq> W_None} = set (t_threads s)" using th by (auto simp: thread_inv_def)
    then have "finite {v. w_pc s v \<noteq> W_None}" by simp
    then have fin: "finite {v. w_pc s v = W_Run j}" by (rule rev_finite_subset) auto
    have "0 < running j s" unfolding running_def using fin j by (auto simp: card_gt_0_iff)
    moreover have "count_list (t_added s) j = count_list ws j + running j s + count_list (t_ran s) j + count_list ds j"
      using jb by (simp add: jobs_at_def)
    ultimately have "count_list (t_added s) j \<noteq> count_list (t_ran s) j" by linarith
    then have "j \<notin> m_adds (m_pc s)" using cl by (auto simp: call_inv_def)
    moreover have "t_ran s' = t_ran s @ [j]" using st j by auto
    ultimately show ?thesis using cl by (auto simp: call_inv_def m)
  next
    case False
    then have "t_ran s' = t_ran s"
      using st by (cases "w_pc s w") (auto simp: acquire_Some Let_def split: if_splits)
    then show ?thesis using cl by (simp add: call_inv_def m)
  qed
qed

lemma main_call: "call_inv s \<Longrightarrow> main_step c (m_pc s) s = Some s' \<Longrightarrow> call_inv s'"
  by (cases "m_pc s") (auto simp: call_inv_def acquire_Some split: if_splits)

lemma wake_step:
  assumes inv: "tp_inv s" and w: "waiting s w"
  shows "tp_inv (goto w W_Relock s)"
proof -
  let ?s = "goto w W_Relock s"
  obtain ws ds where j: "jobs_at s ws ds" using inv by (auto simp: tp_inv_def)
  have pc: "w_pc s w = W_Wait" using w by (simp add: waiting_def)
  have th: "thread_inv s" using inv by (simp add: tp_inv_def)
  have wt: "w \<in> set (t_threads s)" using th pc by (auto simp: thread_inv_def)
  have "mutex_inv ?s" by (rule wake_mutex [of s w]) (use inv pc in \<open>auto simp: tp_inv_def\<close>)
  moreover have "thread_inv ?s"
    by (rule thread_goto [OF th, of _ w W_Relock]) (use wt th in \<open>auto simp: thread_inv_def\<close>)
  moreover have "jobs_at ?s ws ds" by (rule jobs_same [OF j]) (use pc in \<open>auto intro!: running_same split: if_splits\<close>)
  moreover have "call_inv ?s" using inv by (simp add: tp_inv_def call_inv_def)
  moreover have "wake_inv ?s"
    by (rule wake_awake [of _ w]) (use inv wt in \<open>auto simp: tp_inv_def wake_inv_def split: if_splits\<close>)
  ultimately show ?thesis unfolding tp_inv_def by blast
qed

lemma call_step:
  assumes inv: "tp_inv s" and idle: "m_pc s = M_Idle" and st: "begin_call c s = Some s'"
  shows "tp_inv s'"
proof -
  obtain ws ds where j: "jobs_at s ws ds" using inv by (auto simp: tp_inv_def)
  have "mutex_inv s'" "thread_inv s'"
    using call_mutex [OF _ idle st] call_threads [OF _ idle st] inv by (simp_all add: tp_inv_def)
  moreover have same: "w_pc s' = w_pc s \<and> j_next s' = j_next s \<and> j_prev s' = j_prev s \<and> q_jobs s' = q_jobs s \<and>
    t_added s' = t_added s \<and> t_ran s' = t_ran s \<and> t_threads s' = t_threads s \<and> (t_down s \<longrightarrow> t_down s')"
  proof (cases c)
    case (Create n)
    then show ?thesis using st by (auto split: if_splits)
  next
    case (Queue j)
    then show ?thesis using st by (auto split: if_splits)
  next
    case Shutdown
    then show ?thesis using st by auto
  qed
  moreover have "jobs_at s' ws ds" 
    by (rule jobs_same [OF j]) (use same in \<open>simp_all add: running_def\<close>)
  moreover have "call_inv s'" using st by (cases c) (auto simp: call_inv_def split: if_splits)
  moreover have "wake_inv s'" by (rule wake_same [of s]) (use inv same idle in \<open>simp_all add: tp_inv_def\<close>)
  ultimately show ?thesis unfolding tp_inv_def by blast
qed

lemma tp_step_inv:
  assumes inv: "tp_inv s" and st: "tp_step a s = Some s'"
  shows "tp_inv s'"
proof -
  obtain ws ds where i: "mutex_inv s" "thread_inv s" "jobs_at s ws ds" "call_inv s" "wake_inv s"
    using inv by (auto simp: tp_inv_def)
  show ?thesis
  proof (cases a)
    case (Call c)
    then show ?thesis using st call_step [OF inv] by (auto simp: tp_step_def split: if_splits)
  next
    case (Main c)
    then have m: "main_step c (m_pc s) s = Some s'" using st by (auto simp: tp_step_def split: if_splits)
    have "\<exists>ws' ds'. jobs_at s' ws' ds'"
      by (rule main_jobs [OF i(3,2) _ m]) (use i(4) in \<open>auto simp: call_inv_def\<close>)
    then show ?thesis
      using main_mutex [OF i(1,2) m] main_threads [OF i(2) m] main_call [OF i(4) m] main_wake [OF i(5,1,2) m]
      by (simp add: tp_inv_def)
  next
    case (Worker w)
    then have m: "WorkerThread w (w_pc s w) s = Some s'" using st by (auto simp: tp_step_def split: if_splits)
    then show ?thesis
      using worker_mutex [OF i(1) m] worker_threads [OF i(2) m] worker_call [OF i(4,3,2) m]
        worker_wake [OF i(5,1,2) m] worker_jobs [OF i(3,2) m] by (auto simp: tp_inv_def)
  next
    case (Wake w)
    then show ?thesis using st wake_step [OF inv] by (auto simp: tp_step_def split: if_splits)
  qed
qed

lemma tp_start_inv: "tp_inv tp_start"
proof -
  have "jobs_at tp_start [] []" by (simp add: jobs_at_def tp_start_def running_def)
  then show ?thesis
    by (auto simp: tp_inv_def mutex_inv_def thread_inv_def call_inv_def wake_inv_def)
      (auto simp: tp_start_def)
qed

lemma tp_reach_inv: "tp_reach s \<Longrightarrow> tp_inv s"
  by (induction rule: tp_reach.induct) (auto intro: tp_start_inv tp_step_inv)

lemma bad_down: "tp_reach s \<Longrightarrow> t_bad s \<longrightarrow> t_down s"
proof (induction rule: tp_reach.induct)
  case (tp_reach_step s a s')
  have th: "thread_inv s" using tp_reach_inv [OF tp_reach_step.hyps(1)] by (simp add: tp_inv_def)
  have nb: "\<not> t_bad s" using tp_reach_step.hyps(2) by (auto simp: tp_step_def split: if_splits)
  show ?case
  proof (cases a)
    case (Call c)
    then show ?thesis using tp_reach_step.hyps(2) nb by (cases c) (auto simp: tp_step_def split: if_splits)
  next
    case (Main c)
    have "m_down (m_pc s) \<Longrightarrow> t_down s" using th by (simp add: thread_inv_def)
    then show ?thesis using tp_reach_step.hyps(2) nb Main
      by (cases "m_pc s") (auto simp: tp_step_def acquire_Some add_worker_def add_job_def release_def split: if_splits)
  next
    case (Worker w)
    then show ?thesis using tp_reach_step.hyps(2) nb
      by (cases "w_pc s w") (auto simp: tp_step_def acquire_Some Let_def split: if_splits)
  next
    case (Wake w)
    then show ?thesis using tp_reach_step.hyps(2) nb by (auto simp: tp_step_def split: if_splits)
  qed
qed (simp add: tp_start_def)

section \<open>A first run\<close>

text \<open>One worker is created and sleeps, a job is queued; the worker runs it.\<close>

definition nothing :: choice where "nothing = \<lparr>c_addr = 0, c_ok = False\<rparr>"

definition create_one :: "act list" where
  "create_one = [Call (Create 1), Main \<lparr>c_addr = 16, c_ok = True\<rparr>, Main \<lparr>c_addr = 16, c_ok = True\<rparr>, Main nothing, Main nothing]"

definition queue_job :: "loc \<Rightarrow> act list" where
  "queue_job j = [Call (Queue j), Main nothing, Main nothing, Main nothing, Main nothing]"

lemmas run_defs = tp_step_def tp_start_def create_one_def queue_job_def nothing_def acquire_def goto_def release_def
  add_worker_def add_job_def waiting_def

lemma sample_queued:
  "\<exists>s. tp_run (create_one @ queue_job 48) tp_start = Some s \<and> q_jobs s = 48 \<and> t_threads s = [16] \<and> \<not> t_down s \<and> t_added s = [48]"
  by (simp add: run_defs)

section \<open>Properties\<close>

text \<open>C24: in every reachable state the queue is a list of jobs, at most one worker holds the mutex, and
  every job that was added is, as often as it was added, waiting in the queue, being run by one worker,
  has been run, or was dropped, which only a shutdown does.  No job is lost or run twice.\<close>

theorem tp_jobs_once:
  assumes "tp_reach s"
  shows "\<exists>ws ds. nodes (j_next s) (q_jobs s) ws \<and> (\<not> t_down s \<longrightarrow> ds = []) \<and>
    (\<forall>j. count_list (t_added s) j = count_list ws j + card {w. w_pc s w = W_Run j} + count_list (t_ran s) j + count_list ds j) \<and>
    (\<forall>v w. w_holds (w_pc s v) \<and> w_holds (w_pc s w) \<longrightarrow> v = w)"
proof -
  obtain ws ds where j: "jobs_at s ws ds" and m: "mutex_inv s"
    using tp_reach_inv [OF assms] by (auto simp: tp_inv_def)
  have "v = w" if "w_holds (w_pc s v)" "w_holds (w_pc s w)" for v w
    using mutex_holds [OF m that(1)] mutex_holds [OF m that(2)] by simp
  then show ?thesis using j unfolding jobs_at_def running_def by blast
qed

lemma tp_jobs_once_witness:
  "\<exists>s ws. tp_run (create_one @ queue_job 48) tp_start = Some s \<and> nodes (j_next s) (q_jobs s) ws \<and> count_list ws 48 \<le> 1"
proof -
  obtain s where s: "tp_run (create_one @ queue_job 48) tp_start = Some s" "t_added s = [48]"
    using sample_queued by blast
  have "tp_reach s" using tp_run_reach [OF s(1) tp_reach_start] .
  from tp_jobs_once [OF this] obtain ws ds where w: "nodes (j_next s) (q_jobs s) ws"
    "\<forall>j. count_list (t_added s) j = count_list ws j + card {w. w_pc s w = W_Run j} + count_list (t_ran s) j + count_list ds j"
    by blast
  have "count_list ws 48 \<le> count_list (t_added s) 48" using w(2) by simp
  then show ?thesis using s w(1) by auto
qed

text \<open>C25: while a job waits, there is a worker, and no shutdown has begun, the pool is never stuck: some
  thread can take a step, and unless \<open>main\<close> is about to signal, some worker is awake.  No wake-up is lost.\<close>

theorem tp_never_stuck:
  assumes "tp_reach s" and "q_jobs s \<noteq> 0" and "t_threads s \<noteq> []" and "\<not> t_down s"
  shows "(\<exists>s'. (\<exists>c. tp_step (Main c) s = Some s') \<or> (\<exists>w. tp_step (Worker w) s = Some s')) \<and>
    (m_pc s = Q_Signal \<or> (\<exists>w \<in> set (t_threads s). w_pc s w \<noteq> W_Wait))"
proof -
  have inv: "mutex_inv s" "thread_inv s" "wake_inv s" using tp_reach_inv [OF assms(1)] by (auto simp: tp_inv_def)
  have nb: "\<not> t_bad s" using bad_down [OF assms(1)] assms(4) by blast
  have awake: "m_pc s = Q_Signal \<or> (\<exists>w \<in> set (t_threads s). w_pc s w \<noteq> W_Wait)"
    using inv(3) assms(2-4) by (auto simp: wake_inv_def)
  have worker: "\<exists>s'. tp_step (Worker w) s = Some s'" if "WorkerThread w (w_pc s w) s \<noteq> None" for w
    using that nb by (simp add: tp_step_def)
  have main: "\<exists>s'. tp_step (Main c) s = Some s'" if "main_step c (m_pc s) s \<noteq> None" for c
    using that nb by (simp add: tp_step_def)
  have signal: "\<exists>c. main_step c (m_pc s) s \<noteq> None" if "m_pc s = Q_Signal"
  proof (cases "\<exists>w. waiting s w")
    case True
    then obtain w where "waiting s w" ..
    then have "main_step \<lparr>c_addr = w, c_ok = True\<rparr> (m_pc s) s \<noteq> None" using that by simp
    then show ?thesis by blast
  next
    case False
    then have "main_step nothing (m_pc s) s \<noteq> None" using that by (simp add: list_ex_iff nothing_def)
    then show ?thesis by blast
  qed
  have "\<exists>s'. (\<exists>c. tp_step (Main c) s = Some s') \<or> (\<exists>w. tp_step (Worker w) s = Some s')"
  proof (cases "q_mutex s")
    case None
    then have "m_pc s \<noteq> Q_Signal" using mutex_holds_main [OF inv(1)] by fastforce
    then obtain w where w: "w \<in> set (t_threads s)" "w_pc s w \<noteq> W_Wait" using awake by blast
    have "w_pc s w \<noteq> W_None" "w_pc s w \<notin> {W_Free, W_Exit}" using inv(2) w(1) assms(4) by (auto simp: thread_inv_def)
    moreover have "\<not> w_holds (w_pc s w)" using mutex_holds [OF inv(1), of w] None by auto
    ultimately have "WorkerThread w (w_pc s w) s \<noteq> None"
      using w(2) None by (cases "w_pc s w") (auto simp: acquire_def)
    then show ?thesis using worker by blast
  next
    case (Some ow)
    show ?thesis
    proof (cases ow)
      case ByMain
      then have "m_holds (m_pc s)" using inv(1) Some by (simp add: mutex_inv_def)
      moreover have "\<not> m_down (m_pc s)" using inv(2) assms(4) by (auto simp: thread_inv_def)
      ultimately have "\<exists>c. main_step c (m_pc s) s \<noteq> None" using signal by (cases "m_pc s") auto
      then show ?thesis using main by blast
    next
      case (ByWorker w)
      then have "w_holds (w_pc s w)" using inv(1) Some by (simp add: mutex_inv_def)
      then have "WorkerThread w (w_pc s w) s \<noteq> None" by (cases "w_pc s w") (auto simp: Let_def)
      then show ?thesis using worker by blast
    qed
  qed
  then show ?thesis using awake by blast
qed

lemma tp_never_stuck_witness:
  "\<exists>s s'. tp_run (create_one @ queue_job 48) tp_start = Some s \<and>
     ((\<exists>c. tp_step (Main c) s = Some s') \<or> (\<exists>w. tp_step (Worker w) s = Some s'))"
proof -
  obtain s where s: "tp_run (create_one @ queue_job 48) tp_start = Some s" "q_jobs s = 48" "t_threads s = [16]" "\<not> t_down s"
    using sample_queued by blast
  have "tp_reach s" using tp_run_reach [OF s(1) tp_reach_start] .
  from tp_never_stuck [OF this] s show ?thesis by auto
qed

text \<open>\<open>ThreadPoolShutdown\<close> marks the workers without the mutex and reads the link of a worker after
  marking it.  A worker that sees the mark in between frees itself: the shutdown then uses freed memory.\<close>

theorem tp_shutdown_use_after_free:
  "\<exists>as s. tp_run (create_one @ [Call Shutdown, Main nothing] @ as @ [Main nothing]) tp_start = Some s \<and>
     as = replicate 5 (Worker 16) \<and> t_bad s"
  by (simp add: run_defs numeral_nat replicate_def)

end
