(* ===== verification/Reactor.thy ===== *)
theory Reactor
  imports Cvip_Prelude
begin

text \<open>
  The reactor of \<open>code/io/reactor.c\<close>: a table with one entry for each descriptor, the callbacks that read,
  write and accept, and the loop that closes idle descriptors and dispatches what \<open>epoll_wait\<close> reports.
  The kernel is an argument, a record of the system calls on a state of its own; \<open>None\<close> is an access out of
  the table or out of a buffer.  A pointer to an entry is its index.
\<close>

unbundle bit_operations_syntax

section \<open>The kernel\<close>

datatype ctl = CTL_ADD | CTL_MOD | CTL_DEL

text \<open>\<open>k_recv\<close> gives the bytes read (none at the end of the stream) or \<open>None\<close> for an error.  \<open>k_interest\<close> is
  what the kernel watches for a descriptor: the events and the pointer given to \<open>epoll_ctl\<close>.\<close>

record 'k kernel =
  k_ctl :: "ctl \<Rightarrow> int \<Rightarrow> u32 \<Rightarrow> nat \<Rightarrow> 'k \<Rightarrow> int \<times> 'k"
  k_close :: "int \<Rightarrow> 'k \<Rightarrow> 'k"
  k_recv :: "int \<Rightarrow> nat \<Rightarrow> 'k \<Rightarrow> bytes option \<times> 'k"
  k_send :: "int \<Rightarrow> bytes \<Rightarrow> 'k \<Rightarrow> int \<times> 'k"
  k_accept :: "int \<Rightarrow> 'k \<Rightarrow> int \<times> 'k"
  k_nonblock :: "int \<Rightarrow> 'k \<Rightarrow> int \<times> 'k"
  k_time :: "'k \<Rightarrow> int \<times> 'k"
  k_wait :: "'k \<Rightarrow> (nat \<times> u32) list option \<times> 'k"
  k_interest :: "'k \<Rightarrow> int \<Rightarrow> (u32 \<times> nat) option"

definition EPOLLIN :: u32 where "EPOLLIN = 1"

definition EPOLLOUT :: u32 where "EPOLLOUT = 4"

section \<open>State\<close>

definition BUFFER_LENGTH :: nat where "BUFFER_LENGTH = 4096"

definition MAX_EPOLL_EVENTS :: nat where "MAX_EPOLL_EVENTS = 51200"

datatype callback = Recv_cb | Send_cb | Accept_cb

record ntyevent =
  e_fd :: int
  e_events :: u32
  e_callback :: callback
  e_status :: int
  e_buffer :: bytes
  e_length :: int
  e_last_active :: int

record 'k ntyreactor =
  r_events :: "ntyevent list"
  r_k :: 'k

definition get_ev :: "'k ntyreactor \<Rightarrow> int \<Rightarrow> ntyevent option" where
  "get_ev s i = aget (r_events s) i"

definition put_ev :: "int \<Rightarrow> ntyevent \<Rightarrow> 'k ntyreactor \<Rightarrow> 'k ntyreactor" where
  "put_ev i ev s = s\<lparr>r_events := (r_events s)[nat i := ev]\<rparr>"

section \<open>Entries\<close>

definition nty_event_set :: "'k kernel \<Rightarrow> int \<Rightarrow> int \<Rightarrow> callback \<Rightarrow> 'k ntyreactor \<Rightarrow> 'k ntyreactor option" where
  "nty_event_set K i fd cb s = do {
     ev \<leftarrow> get_ev s i;
     let (now, k) = k_time K (r_k s)
     in Some (put_ev i (ev\<lparr>e_fd := fd, e_callback := cb, e_events := 0, e_last_active := now\<rparr>) (s\<lparr>r_k := k\<rparr>))
   }"

definition nty_event_add :: "'k kernel \<Rightarrow> u32 \<Rightarrow> int \<Rightarrow> 'k ntyreactor \<Rightarrow> (int \<times> 'k ntyreactor) option" where
  "nty_event_add K events i s = do {
     ev \<leftarrow> get_ev s i;
     let (op, ev1) = (if e_status ev = 1 then (CTL_MOD, ev\<lparr>e_events := events\<rparr>)
                      else (CTL_ADD, ev\<lparr>e_events := events, e_status := 1\<rparr>));
         (r, k) = k_ctl K op (e_fd ev1) events (nat i) (r_k s)
     in Some (if r < 0 then -1 else 0, put_ev i ev1 (s\<lparr>r_k := k\<rparr>))
   }"

definition nty_event_del :: "'k kernel \<Rightarrow> int \<Rightarrow> 'k ntyreactor \<Rightarrow> (int \<times> 'k ntyreactor) option" where
  "nty_event_del K i s = do {
     ev \<leftarrow> get_ev s i;
     (if e_status ev \<noteq> 1 then Some (-1, s)
      else let (r, k) = k_ctl K CTL_DEL (e_fd ev) 0 (nat i) (r_k s)
           in Some (0, put_ev i (ev\<lparr>e_status := 0\<rparr>) (s\<lparr>r_k := k\<rparr>)))
   }"

section \<open>Callbacks\<close>

definition send_cb :: "'k kernel \<Rightarrow> int \<Rightarrow> 'k ntyreactor \<Rightarrow> (int \<times> 'k ntyreactor) option" where
  "send_cb K fd s = do {
     ev \<leftarrow> get_ev s fd;
     (if e_length ev < 0 \<or> int (length (e_buffer ev)) < e_length ev then None
      else
        let (len, k) = k_send K fd (take (nat (e_length ev)) (e_buffer ev)) (r_k s);
            s1 = s\<lparr>r_k := k\<rparr>
        in if len > 0 then do {
             (_, s2) \<leftarrow> nty_event_del K fd s1;
             s3 \<leftarrow> nty_event_set K fd fd Recv_cb s2;
             (_, s4) \<leftarrow> nty_event_add K EPOLLIN fd s3;
             Some (len, s4)
           }
           else do {
             let s2 = s1\<lparr>r_k := k_close K (e_fd ev) (r_k s1)\<rparr>;
             (_, s3) \<leftarrow> nty_event_del K fd s2;
             Some (len, s3)
           })
   }"

definition recv_cb :: "'k kernel \<Rightarrow> int \<Rightarrow> 'k ntyreactor \<Rightarrow> (int \<times> 'k ntyreactor) option" where
  "recv_cb K fd s = do {
     ev \<leftarrow> get_ev s fd;
     let (r, k) = k_recv K fd BUFFER_LENGTH (r_k s);
     let data = (case r of Some bs \<Rightarrow> bs | None \<Rightarrow> []);
     let s1 = put_ev fd (ev\<lparr>e_buffer := data @ drop (length data) (e_buffer ev)\<rparr>) (s\<lparr>r_k := k\<rparr>);
     let len = (case r of Some bs \<Rightarrow> int (length bs) | None \<Rightarrow> -1);
     (_, s2) \<leftarrow> nty_event_del K fd s1;
     ev2 \<leftarrow> get_ev s2 fd;
     (if len > 0 then do {
        buf \<leftarrow> aset (e_buffer ev2) len 0;
        let s3 = put_ev fd (ev2\<lparr>e_length := len, e_buffer := buf\<rparr>) s2;
        s4 \<leftarrow> nty_event_set K fd fd Send_cb s3;
        (_, s5) \<leftarrow> nty_event_add K EPOLLOUT fd s4;
        Some (len, s5)
      }
      else Some (len, s2\<lparr>r_k := k_close K (e_fd ev2) (r_k s2)\<rparr>))
   }"

text \<open>The loop that looks for a free entry, for the \<open>n\<close> entries from \<open>i\<close> on.\<close>

fun free_entry :: "ntyevent list \<Rightarrow> nat \<Rightarrow> nat \<Rightarrow> nat option" where
  "free_entry evs i 0 = Some i"
| "free_entry evs i (Suc n) = do {
     ev \<leftarrow> aget evs (int i);
     if e_status ev = 0 then Some i else free_entry evs (i + 1) n
   }"

text \<open>The last step is the message about the new connection, which reads entry \<open>i\<close>.\<close>

definition accept_cb :: "'k kernel \<Rightarrow> int \<Rightarrow> 'k ntyreactor \<Rightarrow> (int \<times> 'k ntyreactor) option" where
  "accept_cb K fd s =
     (let (clientfd, k) = k_accept K fd (r_k s); s1 = s\<lparr>r_k := k\<rparr>
      in if clientfd = -1 then Some (-1, s1)
         else do {
           i \<leftarrow> free_entry (r_events s1) 0 MAX_EPOLL_EVENTS;
           s2 \<leftarrow> (if i = MAX_EPOLL_EVENTS then Some s1
                  else let (r, k1) = k_nonblock K clientfd (r_k s1); s1' = s1\<lparr>r_k := k1\<rparr>
                       in if r < 0 then Some s1'
                          else do {
                            sa \<leftarrow> nty_event_set K clientfd clientfd Recv_cb s1';
                            (_, sb) \<leftarrow> nty_event_add K EPOLLIN clientfd sa;
                            Some sb
                          });
           _ \<leftarrow> get_ev s2 (int i);
           Some (0, s2)
         })"

fun call_back :: "'k kernel \<Rightarrow> callback \<Rightarrow> int \<Rightarrow> 'k ntyreactor \<Rightarrow> (int \<times> 'k ntyreactor) option" where
  "call_back K Recv_cb fd s = recv_cb K fd s"
| "call_back K Send_cb fd s = send_cb K fd s"
| "call_back K Accept_cb fd s = accept_cb K fd s"

definition ntyreactor_addlistener :: "'k kernel \<Rightarrow> int \<Rightarrow> callback \<Rightarrow> 'k ntyreactor \<Rightarrow> (int \<times> 'k ntyreactor) option" where
  "ntyreactor_addlistener K sockfd acceptor s = do {
     s1 \<leftarrow> nty_event_set K sockfd sockfd acceptor s;
     (_, s2) \<leftarrow> nty_event_add K EPOLLIN sockfd s1;
     Some (0, s2)
   }"

section \<open>The loop\<close>

text \<open>The check for idle descriptors: \<open>n\<close> rounds left.\<close>

fun check_idle :: "'k kernel \<Rightarrow> int \<Rightarrow> nat \<Rightarrow> nat \<Rightarrow> 'k ntyreactor \<Rightarrow> (nat \<times> 'k ntyreactor) option" where
  "check_idle K now 0 checkpos s = Some (checkpos, s)"
| "check_idle K now (Suc n) checkpos s = do {
     let pos = (if checkpos = MAX_EPOLL_EVENTS then 0 else checkpos);
     ev \<leftarrow> get_ev s (int pos);
     (if e_status ev \<noteq> 1 then check_idle K now n (pos + 1) s
      else if now - e_last_active ev \<ge> 60 then do {
        (_, s1) \<leftarrow> nty_event_del K (int pos) (s\<lparr>r_k := k_close K (e_fd ev) (r_k s)\<rparr>);
        check_idle K now n (pos + 1) s1
      }
      else check_idle K now n (pos + 1) s)
   }"

definition dispatch_one :: "'k kernel \<Rightarrow> nat \<Rightarrow> u32 \<Rightarrow> 'k ntyreactor \<Rightarrow> 'k ntyreactor option" where
  "dispatch_one K p events s = do {
     ev \<leftarrow> get_ev s (int p);
     s1 \<leftarrow> (if events AND EPOLLIN \<noteq> 0 \<and> e_events ev AND EPOLLIN \<noteq> 0
            then map_option snd (call_back K (e_callback ev) (e_fd ev) s) else Some s);
     ev1 \<leftarrow> get_ev s1 (int p);
     (if events AND EPOLLOUT \<noteq> 0 \<and> e_events ev1 AND EPOLLOUT \<noteq> 0
      then map_option snd (call_back K (e_callback ev1) (e_fd ev1) s1) else Some s1)
   }"

fun dispatch :: "'k kernel \<Rightarrow> (nat \<times> u32) list \<Rightarrow> 'k ntyreactor \<Rightarrow> 'k ntyreactor option" where
  "dispatch K [] s = Some s"
| "dispatch K ((p, events) # xs) s = do { s1 \<leftarrow> dispatch_one K p events s; dispatch K xs s1 }"

text \<open>One round of \<open>ntyreactor_run\<close>.\<close>

definition run_round :: "'k kernel \<Rightarrow> nat \<Rightarrow> 'k ntyreactor \<Rightarrow> (nat \<times> 'k ntyreactor) option" where
  "run_round K checkpos s = do {
     let (now, k) = k_time K (r_k s);
     (checkpos1, s1) \<leftarrow> check_idle K now (MAX_EPOLL_EVENTS div 10) checkpos (s\<lparr>r_k := k\<rparr>);
     let (ready, k1) = k_wait K (r_k s1); s2 = s1\<lparr>r_k := k1\<rparr>
     in (case ready of
           None \<Rightarrow> Some (checkpos1, s2)
         | Some xs \<Rightarrow> map_option (Pair checkpos1) (dispatch K xs s2))
   }"

fun ntyreactor_run :: "'k kernel \<Rightarrow> nat \<Rightarrow> nat \<Rightarrow> 'k ntyreactor \<Rightarrow> (nat \<times> 'k ntyreactor) option" where
  "ntyreactor_run K 0 checkpos s = Some (checkpos, s)"
| "ntyreactor_run K (Suc rounds) checkpos s = do {
     (checkpos1, s1) \<leftarrow> run_round K checkpos s;
     ntyreactor_run K rounds checkpos1 s1
   }"

text \<open>\<open>ntyreactor_init\<close>: \<open>epfd\<close> is what \<open>epoll_create\<close> returns, \<open>table\<close> what \<open>posix_memalign\<close> gives, with
  the contents that the memory has.\<close>

definition ntyreactor_init :: "int \<Rightarrow> ntyevent list option \<Rightarrow> 'k \<Rightarrow> int + 'k ntyreactor" where
  "ntyreactor_init epfd table k =
     (if epfd \<le> 0 then Inl (-2)
      else case table of None \<Rightarrow> Inl (-3) | Some evs \<Rightarrow> Inr \<lparr>r_events = evs, r_k = k\<rparr>)"


text \<open>\<open>main\<close>: the listening sockets that \<open>init_sock\<close> returns are arguments, as is the number of rounds.\<close>

fun add_listeners :: "'k kernel \<Rightarrow> int list \<Rightarrow> 'k ntyreactor \<Rightarrow> 'k ntyreactor option" where
  "add_listeners K [] s = Some s"
| "add_listeners K (fd # fds) s = do { (_, s1) \<leftarrow> ntyreactor_addlistener K fd Accept_cb s; add_listeners K fds s1 }"

definition reactor_main :: "'k kernel \<Rightarrow> int list \<Rightarrow> nat \<Rightarrow> 'k ntyreactor \<Rightarrow> (nat \<times> 'k ntyreactor) option" where
  "reactor_main K listenfd rounds s = do { s1 \<leftarrow> add_listeners K listenfd s; ntyreactor_run K rounds 0 s1 }"

end
