(* ===== verification/Reactor_Props.thy ===== *)
theory Reactor_Props
  imports Reactor
begin

text \<open>
  The reactor keeps its table well typed: whatever the kernel can report refers to an entry whose callback
  fits the event.  So it never leaves the table or a buffer, while reads are short and descriptors small
  enough; and it echoes what it read.
\<close>

unbundle bit_operations_syntax

section \<open>What the code relies on\<close>

text \<open>The kernel watches what a successful \<open>epoll_ctl\<close> asked for, until the descriptor is deleted or closed;
  a new descriptor is not watched; an event belongs to a watched descriptor.\<close>

definition kernel_ok :: "'k kernel \<Rightarrow> bool" where
  "kernel_ok K \<longleftrightarrow>
     (\<forall>op fd e p k. op \<noteq> CTL_DEL \<longrightarrow> k_interest K (snd (k_ctl K op fd e p k)) =
        (if fst (k_ctl K op fd e p k) < 0 then k_interest K k else (k_interest K k)(fd \<mapsto> (e, p)))) \<and>
     (\<forall>fd e p k. k_interest K (snd (k_ctl K CTL_DEL fd e p k)) = (k_interest K k)(fd := None)) \<and>
     (\<forall>fd k. k_interest K (k_close K fd k) = (k_interest K k)(fd := None)) \<and>
     (\<forall>fd n k. k_interest K (snd (k_recv K fd n k)) = k_interest K k \<and>
        (\<forall>bs. fst (k_recv K fd n k) = Some bs \<longrightarrow> length bs \<le> n)) \<and>
     (\<forall>fd bs k. k_interest K (snd (k_send K fd bs k)) = k_interest K k) \<and>
     (\<forall>fd k. k_interest K (snd (k_accept K fd k)) = k_interest K k \<and>
        (fst (k_accept K fd k) \<noteq> -1 \<longrightarrow> 0 \<le> fst (k_accept K fd k) \<and> k_interest K k (fst (k_accept K fd k)) = None)) \<and>
     (\<forall>fd k. k_interest K (snd (k_nonblock K fd k)) = k_interest K k) \<and>
     (\<forall>k. k_interest K (snd (k_time K k)) = k_interest K k) \<and>
     (\<forall>k. k_interest K (snd (k_wait K k)) = k_interest K k \<and>
        (\<forall>xs p e. fst (k_wait K k) = Some xs \<longrightarrow> (p, e) \<in> set xs \<longrightarrow> (\<exists>fd e'. k_interest K k fd = Some (e', p))))"

text \<open>Runs on which the code stays in bounds, and no property of the kernel: the new descriptors are below
  \<open>lim\<close>, and no read fills the buffer.\<close>

definition fds_below :: "'k kernel \<Rightarrow> nat \<Rightarrow> bool" where
  "fds_below K lim \<longleftrightarrow> lim < MAX_EPOLL_EVENTS \<and> (\<forall>fd k. fst (k_accept K fd k) < int lim) \<and>
     (\<forall>fd n k bs. fst (k_recv K fd n k) = Some bs \<longrightarrow> length bs < BUFFER_LENGTH)"

section \<open>The table\<close>

definition entry_ok :: "nat \<Rightarrow> ntyevent \<Rightarrow> bool" where
  "entry_ok i ev \<longleftrightarrow> length (e_buffer ev) = BUFFER_LENGTH \<and>
     (e_events ev = 0 \<or> e_fd ev = int i \<and>
        (e_events ev = EPOLLIN \<and> e_callback ev \<noteq> Send_cb \<or>
         e_events ev = EPOLLOUT \<and> e_callback ev = Send_cb \<and> 0 < e_length ev \<and> e_length ev < int BUFFER_LENGTH))"

definition entries_ok :: "nat \<Rightarrow> ntyevent list \<Rightarrow> (int \<Rightarrow> (u32 \<times> nat) option) \<Rightarrow> bool" where
  "entries_ok lim evs I \<longleftrightarrow> length evs = MAX_EPOLL_EVENTS \<and> lim \<le> MAX_EPOLL_EVENTS \<and>
     (\<forall>i < MAX_EPOLL_EVENTS. entry_ok i (evs ! i)) \<and>
     (\<forall>i. lim \<le> i \<longrightarrow> i < MAX_EPOLL_EVENTS \<longrightarrow> e_status (evs ! i) = 0) \<and>
     (\<forall>fd e p. I fd = Some (e, p) \<longrightarrow> 0 \<le> fd \<and> fd < int lim \<and> p = nat fd \<and> e \<noteq> 0 \<and>
        e_status (evs ! p) = 1 \<and> e_events (evs ! p) = e)"

definition reactor_ok :: "'k kernel \<Rightarrow> nat \<Rightarrow> 'k ntyreactor \<Rightarrow> bool" where
  "reactor_ok K lim s \<longleftrightarrow> entries_ok lim (r_events s) (k_interest K (r_k s))"

lemma table_shrink: "entries_ok lim evs I \<Longrightarrow> entries_ok lim evs (I(fd := None))"
  by (simp add: entries_ok_def)

lemma table_interest:
  assumes "entries_ok lim evs I" "I (int i) = Some (e, p)"
  shows "p = i \<and> i < lim \<and> e \<noteq> 0 \<and> e_status (evs ! i) = 1 \<and> e_events (evs ! i) = e"
proof -
  have "0 \<le> int i \<and> int i < int lim \<and> p = nat (int i) \<and> e \<noteq> 0 \<and> e_status (evs ! p) = 1 \<and> e_events (evs ! p) = e"
    using assms unfolding entries_ok_def by blast
  then show ?thesis by auto
qed

lemma table_update:
  assumes "entries_ok lim evs I" "i < lim" "entry_ok i ev" "I (int i) = None"
  shows "entries_ok lim (evs[i := ev]) I"
proof -
  have "p \<noteq> i" if "I fd = Some (e, p)" for fd e p
  proof -
    have "p = nat fd" "0 \<le> fd" using assms(1) that by (simp_all add: entries_ok_def)
    then have "fd = int p" by simp
    then show ?thesis using assms(4) that by auto
  qed
  then show ?thesis using assms(1-3) unfolding entries_ok_def by (auto simp: nth_list_update)
qed

lemma table_same:
  assumes "entries_ok lim evs I" "i < MAX_EPOLL_EVENTS" "entry_ok i ev"
    "e_status ev = e_status (evs ! i)" "e_events ev = e_events (evs ! i)"
  shows "entries_ok lim (evs[i := ev]) I"
  using assms unfolding entries_ok_def by (auto simp: nth_list_update)

lemma table_watch:
  assumes "entries_ok lim evs I" "i < lim" "e_status (evs ! i) = 1" "e_events (evs ! i) = e" "e \<noteq> 0"
  shows "entries_ok lim evs (I(int i \<mapsto> (e, i)))"
  using assms unfolding entries_ok_def by auto

lemma table_clear:
  assumes "entries_ok lim evs I" "i < lim"
  shows "entries_ok lim (evs[i := (evs ! i)\<lparr>e_status := 0\<rparr>]) (I(int i := None))"
proof (rule table_update [OF table_shrink [OF assms(1)] assms(2)])
  have "i < MAX_EPOLL_EVENTS" using assms by (simp add: entries_ok_def)
  then show "entry_ok i ((evs ! i)\<lparr>e_status := 0\<rparr>)" using assms(1) by (simp add: entries_ok_def entry_ok_def)
qed simp

section \<open>The operations on an entry\<close>

lemma get_ok: "reactor_ok K lim s \<Longrightarrow> i < MAX_EPOLL_EVENTS \<Longrightarrow> get_ev s (int i) = Some (r_events s ! i)"
  by (simp add: reactor_ok_def entries_ok_def get_ev_def aget_nat)

lemma put_ev_sel [simp]: "r_events (put_ev i ev s) = (r_events s)[nat i := ev]" "r_k (put_ev i ev s) = r_k s"
  by (simp_all add: put_ev_def)

text \<open>The interest list after each call.\<close>

lemma kernel_sel:
  assumes "kernel_ok K"
  shows "op \<noteq> CTL_DEL \<Longrightarrow> k_ctl K op fd e p k = (r, k') \<Longrightarrow>
      k_interest K k' = (if r < 0 then k_interest K k else (k_interest K k)(fd \<mapsto> (e, p)))"
    "k_ctl K CTL_DEL fd e p k = (r, k') \<Longrightarrow> k_interest K k' = (k_interest K k)(fd := None)"
    "k_interest K (k_close K fd k) = (k_interest K k)(fd := None)"
    "k_recv K fd n k = (d, k') \<Longrightarrow> k_interest K k' = k_interest K k"
    "k_recv K fd n k = (Some bs, k') \<Longrightarrow> length bs \<le> n"
    "k_send K fd bs k = (r, k') \<Longrightarrow> k_interest K k' = k_interest K k"
    "k_accept K fd k = (r, k') \<Longrightarrow> k_interest K k' = k_interest K k \<and> (r \<noteq> -1 \<longrightarrow> 0 \<le> r \<and> k_interest K k r = None)"
    "k_nonblock K fd k = (r, k') \<Longrightarrow> k_interest K k' = k_interest K k"
    "k_time K k = (t, k') \<Longrightarrow> k_interest K k' = k_interest K k"
    "k_wait K k = (xs, k') \<Longrightarrow> k_interest K k' = k_interest K k"
    "k_wait K k = (Some ys, k') \<Longrightarrow> (p, e) \<in> set ys \<Longrightarrow> \<exists>fd e'. k_interest K k fd = Some (e', p)"
  using assms unfolding kernel_ok_def by (metis fst_conv snd_conv)+

lemma set_ok:
  assumes K: "kernel_ok K" and s: "reactor_ok K lim s" and i: "i < lim" "k_interest K (r_k s) (int i) = None"
  shows "\<exists>s' now. nty_event_set K (int i) (int i) cb s = Some s' \<and> reactor_ok K lim s' \<and>
     k_interest K (r_k s') = k_interest K (r_k s) \<and>
     r_events s' = (r_events s)[i := (r_events s ! i)\<lparr>e_fd := int i, e_callback := cb, e_events := 0, e_last_active := now\<rparr>]"
proof -
  have m: "i < MAX_EPOLL_EVENTS" using s i by (simp add: reactor_ok_def entries_ok_def)
  obtain now k where t: "k_time K (r_k s) = (now, k)" by fastforce
  note k = kernel_sel(9) [OF K t]
  let ?ev = "(r_events s ! i)\<lparr>e_fd := int i, e_callback := cb, e_events := 0, e_last_active := now\<rparr>"
  have "entry_ok i ?ev" using s m by (simp add: reactor_ok_def entries_ok_def entry_ok_def)
  then have "entries_ok lim ((r_events s)[i := ?ev]) (k_interest K (r_k s))"
    using s i unfolding reactor_ok_def by (intro table_update)
  then show ?thesis using get_ok [OF s m] t k
    by (intro exI [of _ "put_ev (int i) ?ev (s\<lparr>r_k := k\<rparr>)"] exI [of _ now])
       (simp add: nty_event_set_def reactor_ok_def)
qed

lemma add_ok:
  assumes K: "kernel_ok K" and s: "reactor_ok K lim s" and i: "i < lim" "k_interest K (r_k s) (int i) = None"
    and fd: "e_fd (r_events s ! i) = int i"
    and ev: "events = EPOLLIN \<and> e_callback (r_events s ! i) \<noteq> Send_cb \<or>
      events = EPOLLOUT \<and> e_callback (r_events s ! i) = Send_cb \<and>
        0 < e_length (r_events s ! i) \<and> e_length (r_events s ! i) < int BUFFER_LENGTH"
  shows "\<exists>r s'. nty_event_add K events (int i) s = Some (r, s') \<and> reactor_ok K lim s' \<and>
     (\<forall>fd. fd \<noteq> int i \<longrightarrow> k_interest K (r_k s') fd = k_interest K (r_k s) fd) \<and>
     r_events s' = (r_events s)[i := (r_events s ! i)\<lparr>e_events := events, e_status := 1\<rparr>]"
proof -
  let ?ev = "(r_events s ! i)\<lparr>e_events := events, e_status := 1\<rparr>"
  let ?evs = "(r_events s)[i := ?ev]"
  define op where "op = (if e_status (r_events s ! i) = 1 then CTL_MOD else CTL_ADD)"
  have m: "i < MAX_EPOLL_EVENTS" "length (r_events s) = MAX_EPOLL_EVENTS" using s i by (simp_all add: reactor_ok_def entries_ok_def)
  obtain r k where c: "k_ctl K op (int i) events i (r_k s) = (r, k)" by fastforce
  have "op \<noteq> CTL_DEL" by (simp add: op_def)
  note k = kernel_sel(1) [OF K this c]
  have "entry_ok i ?ev" using s m ev fd by (auto simp: reactor_ok_def entries_ok_def entry_ok_def)
  then have "entries_ok lim ?evs (k_interest K (r_k s))"
    using s i unfolding reactor_ok_def by (intro table_update)
  moreover have "events \<noteq> 0" using ev by (auto simp: EPOLLIN_def EPOLLOUT_def)
  ultimately have "entries_ok lim ?evs (k_interest K k)"
    using table_watch [of lim ?evs "k_interest K (r_k s)" i events] i m by (auto simp: k)
  moreover have "(if e_status (r_events s ! i) = 1 then (CTL_MOD, (r_events s ! i)\<lparr>e_events := events\<rparr>)
      else (CTL_ADD, (r_events s ! i)\<lparr>e_events := events, e_status := 1\<rparr>)) = (op, ?ev)"
    by (simp add: op_def)
  moreover have "\<forall>fd. fd \<noteq> int i \<longrightarrow> k_interest K k fd = k_interest K (r_k s) fd" by (simp add: k)
  ultimately show ?thesis using get_ok [OF s m(1)] c fd
    by (simp add: nty_event_add_def reactor_ok_def)
qed

lemma del_ok:
  assumes K: "kernel_ok K" and s: "reactor_ok K lim s" and m: "i < MAX_EPOLL_EVENTS"
  shows "\<exists>r s'. nty_event_del K (int i) s = Some (r, s') \<and> reactor_ok K lim s' \<and> k_interest K (r_k s') (int i) = None \<and>
     (\<forall>fd. k_interest K (r_k s) fd = None \<longrightarrow> k_interest K (r_k s') fd = None) \<and>
     r_events s' = (r_events s)[i := (r_events s ! i)\<lparr>e_status := (if e_status (r_events s ! i) = 1 then 0 else e_status (r_events s ! i))\<rparr>]"
proof (cases "e_status (r_events s ! i) = 1")
  case False
  have "k_interest K (r_k s) (int i) = None"
  proof (rule ccontr)
    assume "\<not> ?thesis"
    then obtain e p where "k_interest K (r_k s) (int i) = Some (e, p)" by auto
    then show False using table_interest s False unfolding reactor_ok_def by blast
  qed
  moreover have "(r_events s)[i := (r_events s ! i)\<lparr>e_status := e_status (r_events s ! i)\<rparr>] = r_events s" by simp
  ultimately show ?thesis using False s get_ok [OF s m] by (simp add: nty_event_del_def)
next
  case True
  have il: "i < lim" using True s m by (cases "lim \<le> i") (auto simp: reactor_ok_def entries_ok_def)
  let ?ev = "r_events s ! i"
  obtain r k where c: "k_ctl K CTL_DEL (e_fd ?ev) 0 i (r_k s) = (r, k)" by fastforce
  note k = kernel_sel(2) [OF K c]
  let ?I = "(k_interest K (r_k s))(e_fd ?ev := None)"
  have none: "?I (int i) = None"
  proof (cases "e_fd ?ev = int i")
    case False
    have "k_interest K (r_k s) (int i) = None"
    proof (rule ccontr)
      assume "\<not> ?thesis"
      then obtain e p where I: "k_interest K (r_k s) (int i) = Some (e, p)" by auto
      then have "e_events (r_events s ! i) = e" "e \<noteq> 0" using table_interest s unfolding reactor_ok_def by blast+
      moreover have "entry_ok i ?ev" using s m by (simp add: reactor_ok_def entries_ok_def)
      ultimately show False using False by (simp add: entry_ok_def)
    qed
    then show ?thesis by simp
  qed simp
  have "entries_ok lim (r_events s) ?I" using s table_shrink by (simp add: reactor_ok_def)
  then have "entries_ok lim ((r_events s)[i := ?ev\<lparr>e_status := 0\<rparr>]) ?I"
    using table_clear [of lim "r_events s" ?I i] il none by (simp add: fun_upd_idem)
  then show ?thesis using True get_ok [OF s m] c none by (simp add: nty_event_del_def reactor_ok_def k)
qed


section \<open>The callbacks\<close>

text \<open>Reading and writing the kernel state alone keeps the table.\<close>

lemma reactor_ok_k: "reactor_ok K lim s \<Longrightarrow> k_interest K k = k_interest K (r_k s) \<Longrightarrow> reactor_ok K lim (s\<lparr>r_k := k\<rparr>)"
  by (simp add: reactor_ok_def)

lemma reactor_ok_close:
  "kernel_ok K \<Longrightarrow> reactor_ok K lim s \<Longrightarrow> reactor_ok K lim (s\<lparr>r_k := k_close K fd (r_k s)\<rparr>)"
  using kernel_sel(3) [of K fd "r_k s"] table_shrink by (simp add: reactor_ok_def)

lemma reactor_entry: "reactor_ok K lim s \<Longrightarrow> i < MAX_EPOLL_EVENTS \<Longrightarrow> entry_ok i (r_events s ! i)"
  by (simp add: reactor_ok_def entries_ok_def)

lemma reactor_len: "reactor_ok K lim s \<Longrightarrow> length (r_events s) = MAX_EPOLL_EVENTS \<and> lim \<le> MAX_EPOLL_EVENTS"
  by (simp add: reactor_ok_def entries_ok_def)

text \<open>Re-arming an entry: delete, set, add.\<close>

lemma rearm_ok:
  assumes K: "kernel_ok K" and s: "reactor_ok K lim s" and i: "i < lim" and none: "k_interest K (r_k s) (int i) = None"
    and ev: "events = EPOLLIN \<and> cb \<noteq> Send_cb \<or>
      events = EPOLLOUT \<and> cb = Send_cb \<and> 0 < e_length (r_events s ! i) \<and> e_length (r_events s ! i) < int BUFFER_LENGTH"
  shows "\<exists>s1 r s2. nty_event_set K (int i) (int i) cb s = Some s1 \<and> nty_event_add K events (int i) s1 = Some (r, s2) \<and>
     reactor_ok K lim s2 \<and> (\<forall>fd. fd \<noteq> int i \<longrightarrow> k_interest K (r_k s2) fd = k_interest K (r_k s) fd) \<and> (\<exists>now. r_events s2 = (r_events s)[i := (r_events s ! i)\<lparr>e_fd := int i, e_callback := cb,
       e_last_active := now, e_events := events, e_status := 1\<rparr>])"
proof -
  have m: "i < length (r_events s)" using reactor_len [OF s] i by simp
  obtain s1 now where s1: "nty_event_set K (int i) (int i) cb s = Some s1" "reactor_ok K lim s1"
    "k_interest K (r_k s1) = k_interest K (r_k s)"
    "r_events s1 = (r_events s)[i := (r_events s ! i)\<lparr>e_fd := int i, e_callback := cb, e_events := 0, e_last_active := now\<rparr>]"
    using set_ok [OF K s i none] by blast
  have e1: "r_events s1 ! i = (r_events s ! i)\<lparr>e_fd := int i, e_callback := cb, e_events := 0, e_last_active := now\<rparr>"
    using s1(4) m by simp
  obtain r s2 where s2: "nty_event_add K events (int i) s1 = Some (r, s2)" "reactor_ok K lim s2"
    "\<forall>fd. fd \<noteq> int i \<longrightarrow> k_interest K (r_k s2) fd = k_interest K (r_k s1) fd"
    "r_events s2 = (r_events s1)[i := (r_events s1 ! i)\<lparr>e_events := events, e_status := 1\<rparr>]"
    using add_ok [OF K s1(2) i, of events] none ev by (auto simp: s1(3) e1)
  have "r_events s2 = (r_events s)[i := (r_events s ! i)\<lparr>e_fd := int i, e_callback := cb,
       e_last_active := now, e_events := events, e_status := 1\<rparr>]"
    unfolding s2(4) e1 s1(4) using m by simp
  then show ?thesis using s1(1) s2(1,2) s2(3)[unfolded s1(3)] by blast
qed

lemma send_ok:
  assumes K: "kernel_ok K" and s: "reactor_ok K lim s" and i: "i < lim"
    and ev: "e_events (r_events s ! i) = EPOLLOUT"
  shows "\<exists>n k s'. k_send K (int i) (take (nat (e_length (r_events s ! i))) (e_buffer (r_events s ! i))) (r_k s) = (n, k) \<and>
     send_cb K (int i) s = Some (n, s') \<and> reactor_ok K lim s' \<and>
     (n > 0 \<longrightarrow> e_callback (r_events s' ! i) = Recv_cb \<and> e_events (r_events s' ! i) = EPOLLIN \<and> e_status (r_events s' ! i) = 1)"
proof -
  have m: "i < MAX_EPOLL_EVENTS" "i < length (r_events s)" using reactor_len [OF s] i by simp_all
  let ?ev = "r_events s ! i"
  have "entry_ok i ?ev" by (rule reactor_entry [OF s m(1)])
  then have e: "length (e_buffer ?ev) = BUFFER_LENGTH" "0 < e_length ?ev" "e_length ?ev < int BUFFER_LENGTH"
    using ev by (auto simp: entry_ok_def EPOLLIN_def EPOLLOUT_def)
  obtain n k where snd: "k_send K (int i) (take (nat (e_length ?ev)) (e_buffer ?ev)) (r_k s) = (n, k)" by fastforce
  let ?s1 = "s\<lparr>r_k := k\<rparr>"
  have s1: "reactor_ok K lim ?s1" by (rule reactor_ok_k [OF s kernel_sel(6) [OF K snd]])
  have start: "send_cb K (int i) s = (if n > 0 then do {
             (_, s2) \<leftarrow> nty_event_del K (int i) ?s1;
             s3 \<leftarrow> nty_event_set K (int i) (int i) Recv_cb s2;
             (_, s4) \<leftarrow> nty_event_add K EPOLLIN (int i) s3;
             Some (n, s4) }
           else do {
             (_, s3) \<leftarrow> nty_event_del K (int i) (?s1\<lparr>r_k := k_close K (e_fd ?ev) (r_k ?s1)\<rparr>);
             Some (n, s3) })"
    using get_ok [OF s m(1)] e snd by (simp add: send_cb_def)
  show ?thesis
  proof (cases "n > 0")
    case True
    obtain r s2 where s2: "nty_event_del K (int i) ?s1 = Some (r, s2)" "reactor_ok K lim s2" "k_interest K (r_k s2) (int i) = None"
      using del_ok [OF K s1 m(1)] by blast
    obtain s3 r4 s4 now where s4: "nty_event_set K (int i) (int i) Recv_cb s2 = Some s3" "nty_event_add K EPOLLIN (int i) s3 = Some (r4, s4)"
      "reactor_ok K lim s4" "r_events s4 = (r_events s2)[i := (r_events s2 ! i)\<lparr>e_fd := int i, e_callback := Recv_cb,
       e_last_active := now, e_events := EPOLLIN, e_status := 1\<rparr>]"
      using rearm_ok [OF K s2(2) i s2(3), of EPOLLIN Recv_cb] by auto
    have "i < length (r_events s2)" using reactor_len [OF s2(2)] i by simp
    then show ?thesis using True snd s2(1) s4 by (simp add: start)
  next
    case False
    have "reactor_ok K lim (?s1\<lparr>r_k := k_close K (e_fd ?ev) (r_k ?s1)\<rparr>)" by (rule reactor_ok_close [OF K s1])
    from del_ok [OF K this m(1)] obtain r s3 where
      "nty_event_del K (int i) (?s1\<lparr>r_k := k_close K (e_fd ?ev) (r_k ?s1)\<rparr>) = Some (r, s3)" "reactor_ok K lim s3" by blast
    then show ?thesis using False snd by (simp add: start)
  qed
qed

lemma recv_ok:
  assumes K: "kernel_ok K" and s: "reactor_ok K lim s" and i: "i < lim" and r: "k_recv K (int i) BUFFER_LENGTH (r_k s) = (d, k)"
    and short: "\<And>bs. d = Some bs \<Longrightarrow> length bs < BUFFER_LENGTH"
  shows "\<exists>n s'. recv_cb K (int i) s = Some (n, s') \<and> reactor_ok K lim s' \<and>
     (\<forall>bs. d = Some bs \<and> bs \<noteq> [] \<longrightarrow> n = int (length bs) \<and> e_callback (r_events s' ! i) = Send_cb \<and>
        e_events (r_events s' ! i) = EPOLLOUT \<and> take (nat (e_length (r_events s' ! i))) (e_buffer (r_events s' ! i)) = bs)"
proof -
  have m: "i < MAX_EPOLL_EVENTS" "i < length (r_events s)" using reactor_len [OF s] i by simp_all
  let ?ev = "r_events s ! i"
  define bs where "bs = (case d of Some bs \<Rightarrow> bs | None \<Rightarrow> [])"
  define n where "n = (case d of Some bs \<Rightarrow> int (length bs) | None \<Rightarrow> -1)"
  let ?buf = "bs @ drop (length bs) (e_buffer ?ev)"
  have ev: "entry_ok i ?ev" by (rule reactor_entry [OF s m(1)])
  have lb: "length bs < BUFFER_LENGTH" using short by (auto simp: bs_def BUFFER_LENGTH_def split: option.split)
  define s1 where "s1 = put_ev (int i) (?ev\<lparr>e_buffer := ?buf\<rparr>) (s\<lparr>r_k := k\<rparr>)"
  have "entry_ok i (?ev\<lparr>e_buffer := ?buf\<rparr>)" using ev lb by (auto simp: entry_ok_def)
  then have s1: "reactor_ok K lim s1"
    using table_same [OF _ m(1), of lim "r_events s"] s kernel_sel(4) [OF K r] by (simp add: s1_def reactor_ok_def)
  obtain q s2 where s2: "nty_event_del K (int i) s1 = Some (q, s2)" "reactor_ok K lim s2" "k_interest K (r_k s2) (int i) = None"
    "r_events s2 = (r_events s1)[i := (r_events s1 ! i)\<lparr>e_status := (if e_status (r_events s1 ! i) = 1 then 0 else e_status (r_events s1 ! i))\<rparr>]"
    using del_ok [OF K s1 m(1)] by blast
  let ?ev2 = "r_events s2 ! i"
  have m2: "i < length (r_events s2)" using reactor_len [OF s2(2)] i by simp
  have b2: "e_buffer ?ev2 = ?buf" using m2 by (simp add: s2(4) s1_def)
  have start: "recv_cb K (int i) s = (if n > 0 then do {
        buf \<leftarrow> aset (e_buffer ?ev2) n 0;
        s4 \<leftarrow> nty_event_set K (int i) (int i) Send_cb (put_ev (int i) (?ev2\<lparr>e_length := n, e_buffer := buf\<rparr>) s2);
        (_, s5) \<leftarrow> nty_event_add K EPOLLOUT (int i) s4;
        Some (n, s5) }
      else Some (n, s2\<lparr>r_k := k_close K (e_fd ?ev2) (r_k s2)\<rparr>))"
    using get_ok [OF s m(1)] get_ok [OF s2(2) m(1)] s2(1) r
    by (simp add: recv_cb_def s1_def bs_def n_def Let_def)
  show ?thesis
  proof (cases "n > 0")
    case False
    then have "\<not> (\<exists>bs. d = Some bs \<and> bs \<noteq> [])" by (auto simp: n_def)
    then show ?thesis using False reactor_ok_close [OF K s2(2)] by (auto simp: start)
  next
    case True
    then have d: "d = Some bs" and nl: "n = int (length bs)" by (auto simp: n_def bs_def split: option.splits)
    have lbuf: "length ?buf = BUFFER_LENGTH" using ev lb by (simp add: entry_ok_def)
    let ?b3 = "?buf[length bs := 0]"
    have w: "aset (e_buffer ?ev2) n 0 = Some ?b3" unfolding b2 nl using lb lbuf by (simp add: aset_def)
    define s3 where "s3 = put_ev (int i) (?ev2\<lparr>e_length := n, e_buffer := ?b3\<rparr>) s2"
    have e2: "entry_ok i ?ev2" by (rule reactor_entry [OF s2(2) m(1)])
    have lb3: "length ?b3 = BUFFER_LENGTH" using lbuf by simp
    have e3: "entry_ok i (?ev2\<lparr>e_length := n, e_buffer := ?b3\<rparr>)"
      using e2 lb True nl lb3 unfolding entry_ok_def by auto
    then have s3: "reactor_ok K lim s3"
      using table_same [OF _ m(1), of lim "r_events s2"] s2(2) by (simp add: s3_def reactor_ok_def)
    have v3: "r_events s3 ! i = ?ev2\<lparr>e_length := n, e_buffer := ?b3\<rparr>" using m2 by (simp add: s3_def)
    have "k_interest K (r_k s3) (int i) = None" using s2(3) by (simp add: s3_def)
    from rearm_ok [OF K s3 i this, of EPOLLOUT Send_cb] obtain s4 r5 s5 now where
      s5: "nty_event_set K (int i) (int i) Send_cb s3 = Some s4" "nty_event_add K EPOLLOUT (int i) s4 = Some (r5, s5)"
      "reactor_ok K lim s5" "r_events s5 = (r_events s3)[i := (r_events s3 ! i)\<lparr>e_fd := int i, e_callback := Send_cb,
       e_last_active := now, e_events := EPOLLOUT, e_status := 1\<rparr>]"
      unfolding v3 using True nl lb by auto
    have m3: "i < length (r_events s3)" using reactor_len [OF s3] i by simp
    have v5: "e_callback (r_events s5 ! i) = Send_cb" "e_events (r_events s5 ! i) = EPOLLOUT"
      "e_length (r_events s5 ! i) = n" "e_buffer (r_events s5 ! i) = ?b3"
      using m3 by (simp_all add: s5(4) v3)
    have "take (nat n) ?b3 = bs" using nl by simp
    moreover have "recv_cb K (int i) s = Some (n, s5)"
      using True w s5(1,2) unfolding start by (simp add: s3_def)
    ultimately show ?thesis using s5(3) v5 d nl by auto
  qed
qed


lemma free_entry_ok:
  "i + n \<le> length evs \<Longrightarrow> \<exists>j. free_entry evs i n = Some j \<and> i \<le> j \<and> j \<le> i + n \<and>
     ((\<exists>k. i \<le> k \<and> k < i + n \<and> e_status (evs ! k) = 0) \<longrightarrow> j < i + n)"
proof (induction n arbitrary: i)
  case (Suc n)
  then obtain j where j: "free_entry evs (i + 1) n = Some j" "i + 1 \<le> j" "j \<le> i + 1 + n"
    "(\<exists>k. i + 1 \<le> k \<and> k < i + 1 + n \<and> e_status (evs ! k) = 0) \<longrightarrow> j < i + 1 + n" using Suc.IH [of "i + 1"] by auto
  show ?case
  proof (cases "e_status (evs ! i) = 0")
    case True
    then show ?thesis using Suc.prems by (simp add: aget_nat)
  next
    case False
    have "j < i + 1 + n" if "i \<le> k" "k < i + Suc n" "e_status (evs ! k) = 0" for k
    proof -
      have "k \<noteq> i" using False that(3) by auto
      then show ?thesis using j(4) that by auto
    qed
    then show ?thesis using Suc.prems j(1-3) False by (auto simp: aget_nat)
  qed
qed simp

lemma accept_ok:
  assumes K: "kernel_ok K" and s: "reactor_ok K lim s" and lim: "\<And>fd k. fst (k_accept K fd k) < int lim"
    and room: "lim < MAX_EPOLL_EVENTS"
  shows "\<exists>n s'. accept_cb K fd s = Some (n, s') \<and> reactor_ok K lim s' \<and>
    (\<forall>i < MAX_EPOLL_EVENTS. k_interest K (r_k s) (int i) \<noteq> None \<longrightarrow> r_events s' ! i = r_events s ! i)"
proof -
  obtain c k where c: "k_accept K fd (r_k s) = (c, k)" by fastforce
  note kc = kernel_sel(7) [OF K c]
  let ?s1 = "s\<lparr>r_k := k\<rparr>"
  have s1: "reactor_ok K lim ?s1" using reactor_ok_k [OF s] kc by blast
  note len = reactor_len [OF s]
  have "e_status (r_events s ! lim) = 0" using s room by (simp add: reactor_ok_def entries_ok_def)
  then obtain j where j: "free_entry (r_events s) 0 MAX_EPOLL_EVENTS = Some j" "j < MAX_EPOLL_EVENTS"
    using free_entry_ok [of 0 MAX_EPOLL_EVENTS "r_events s"] len room by (metis add_0 le_refl zero_le)
  show ?thesis
  proof (cases "c = -1")
    case True
    then show ?thesis using c s1 by (simp add: accept_cb_def)
  next
    case False
    then have c0: "0 \<le> c" "k_interest K (r_k s) c = None" "c < int lim" using kc lim [of fd "r_k s"] c by auto
    then obtain i where i: "c = int i" "i < lim" by (metis nonneg_int_cases of_nat_less_iff)
    obtain r k1 where nb: "k_nonblock K c k = (r, k1)" by fastforce
    note k1 = kernel_sel(8) [OF K nb]
    let ?s2 = "?s1\<lparr>r_k := k1\<rparr>"
    have s2: "reactor_ok K lim ?s2" using reactor_ok_k [OF s1] k1 by simp
    show ?thesis
    proof (cases "r < 0")
      case True
      have "get_ev ?s2 (int j) = Some (r_events s ! j)" using get_ok [OF s2 j(2)] by simp
      then show ?thesis using c False j nb True s2 by (simp add: accept_cb_def)
    next
      case r: False
      have "k_interest K (r_k ?s2) (int i) = None" using c0 i k1 kc by simp
      from rearm_ok [OF K s2 i(2) this, of EPOLLIN Recv_cb] obtain sa q sb now where
        sb: "nty_event_set K (int i) (int i) Recv_cb ?s2 = Some sa" "nty_event_add K EPOLLIN (int i) sa = Some (q, sb)"
        "reactor_ok K lim sb" "r_events sb = (r_events s)[i := (r_events s ! i)\<lparr>e_fd := int i, e_callback := Recv_cb,
       e_last_active := now, e_events := EPOLLIN, e_status := 1\<rparr>]" by auto
      have "accept_cb K fd s = Some (0, sb)"
        using c False j nb r sb(1,2) get_ok [OF sb(3) j(2)] unfolding i(1) by (simp add: accept_cb_def)
      moreover have "r_events sb ! p = r_events s ! p" if "k_interest K (r_k s) (int p) \<noteq> None" for p
        using that c0(2) i(1) unfolding sb(4) by (cases "p = i") auto
      ultimately show ?thesis using sb(3) by blast
    qed
  qed
qed

section \<open>The loop\<close>

lemma bits [simp]: "EPOLLIN AND EPOLLIN \<noteq> 0" "EPOLLOUT AND EPOLLIN = 0" "EPOLLIN AND EPOLLOUT = 0" "EPOLLOUT AND EPOLLOUT \<noteq> 0"
  "EPOLLIN \<noteq> EPOLLOUT" "EPOLLIN \<noteq> 0" "EPOLLOUT \<noteq> 0"
  by (simp_all add: EPOLLIN_def EPOLLOUT_def)





definition idle :: "int \<Rightarrow> ntyevent \<Rightarrow> bool" where
  "idle now ev \<longleftrightarrow> e_status ev = 1 \<and> now - e_last_active ev \<ge> 60"

text \<open>The check closes exactly the idle entries among the \<open>n\<close> that it visits.\<close>

lemma check_idle_ok:
  "kernel_ok K \<Longrightarrow> reactor_ok K lim s \<Longrightarrow> pos \<le> MAX_EPOLL_EVENTS \<Longrightarrow>
   \<exists>pos' s'. check_idle K now n pos s = Some (pos', s') \<and> reactor_ok K lim s' \<and> pos' \<le> MAX_EPOLL_EVENTS \<and>
     (\<forall>fd. k_interest K (r_k s) fd = None \<longrightarrow> k_interest K (r_k s') fd = None) \<and>
     (\<forall>i < MAX_EPOLL_EVENTS.
        if (\<exists>j < n. i = (pos + j) mod MAX_EPOLL_EVENTS) \<and> idle now (r_events s ! i)
        then e_status (r_events s' ! i) = 0 \<and> k_interest K (r_k s') (int i) = None
        else r_events s' ! i = r_events s ! i)"
proof (induction n arbitrary: pos s)
  case (Suc n)
  define p where "p = (if pos = MAX_EPOLL_EVENTS then 0 else pos)"
  have p: "p < MAX_EPOLL_EVENTS" "p = pos mod MAX_EPOLL_EVENTS"
    using Suc.prems(3) by (auto simp: p_def MAX_EPOLL_EVENTS_def)
  let ?ev = "r_events s ! p"
  obtain s1 where s1: "check_idle K now (Suc n) pos s = check_idle K now n (p + 1) s1" "reactor_ok K lim s1"
    "\<forall>fd. k_interest K (r_k s) fd = None \<longrightarrow> k_interest K (r_k s1) fd = None"
    "\<forall>i < MAX_EPOLL_EVENTS. i \<noteq> p \<longrightarrow> r_events s1 ! i = r_events s ! i"
    "if idle now ?ev then e_status (r_events s1 ! p) = 0 \<and> k_interest K (r_k s1) (int p) = None else r_events s1 ! p = ?ev"
  proof (cases "idle now ?ev")
    case False
    then have "check_idle K now (Suc n) pos s = check_idle K now n (p + 1) s"
      using get_ok [OF Suc.prems(2) p(1)] by (simp add: idle_def p_def [symmetric] Let_def)
    then show ?thesis using that [of s] Suc.prems(2) False by simp
  next
    case True
    let ?s = "s\<lparr>r_k := k_close K (e_fd ?ev) (r_k s)\<rparr>"
    have c: "reactor_ok K lim ?s" by (rule reactor_ok_close [OF Suc.prems(1,2)])
    obtain r s1 where d: "nty_event_del K (int p) ?s = Some (r, s1)" "reactor_ok K lim s1" "k_interest K (r_k s1) (int p) = None"
      "\<forall>fd. k_interest K (r_k ?s) fd = None \<longrightarrow> k_interest K (r_k s1) fd = None"
      "r_events s1 = (r_events ?s)[p := (r_events ?s ! p)\<lparr>e_status := (if e_status (r_events ?s ! p) = 1 then 0 else e_status (r_events ?s ! p))\<rparr>]"
      using del_ok [OF Suc.prems(1) c p(1)] by blast
    have "check_idle K now (Suc n) pos s = check_idle K now n (p + 1) s1"
      using True get_ok [OF Suc.prems(2) p(1)] d(1) by (simp add: idle_def p_def [symmetric] Let_def)
    moreover have "\<forall>fd. k_interest K (r_k s) fd = None \<longrightarrow> k_interest K (r_k s1) fd = None"
      using d(4) kernel_sel(3) [OF Suc.prems(1)] by simp
    moreover have "e_status (r_events s1 ! p) = 0"
      using True p(1) reactor_len [OF Suc.prems(2)] by (simp add: d(5) idle_def)
    moreover have "r_events s1 ! i = r_events s ! i" if "i \<noteq> p" for i using that by (simp add: d(5))
    ultimately show ?thesis using that [of s1] d(2,3) True by simp
  qed
  have p1: "p + 1 \<le> MAX_EPOLL_EVENTS" using p(1) by simp
  from Suc.IH [OF Suc.prems(1) s1(2) p1] obtain pos' s' where IH: "check_idle K now n (p + 1) s1 = Some (pos', s')"
    "reactor_ok K lim s'" "pos' \<le> MAX_EPOLL_EVENTS"
    "\<forall>fd. k_interest K (r_k s1) fd = None \<longrightarrow> k_interest K (r_k s') fd = None"
    "\<forall>i < MAX_EPOLL_EVENTS.
        if (\<exists>j < n. i = (p + 1 + j) mod MAX_EPOLL_EVENTS) \<and> idle now (r_events s1 ! i)
        then e_status (r_events s' ! i) = 0 \<and> k_interest K (r_k s') (int i) = None
        else r_events s' ! i = r_events s1 ! i" by blast
  have vis: "(\<exists>j < Suc n. i = (pos + j) mod MAX_EPOLL_EVENTS) \<longleftrightarrow> i = p \<or> (\<exists>j < n. i = (p + 1 + j) mod MAX_EPOLL_EVENTS)" for i
  proof -
    have "(pos + Suc j) mod MAX_EPOLL_EVENTS = (p + 1 + j) mod MAX_EPOLL_EVENTS" for j
      unfolding p(2) by (metis add.assoc mod_add_left_eq plus_1_eq_Suc)
    then show ?thesis unfolding Ex_less_Suc2 using p(2) by simp
  qed
  have "if (\<exists>j < Suc n. i = (pos + j) mod MAX_EPOLL_EVENTS) \<and> idle now (r_events s ! i)
        then e_status (r_events s' ! i) = 0 \<and> k_interest K (r_k s') (int i) = None
        else r_events s' ! i = r_events s ! i" if i: "i < MAX_EPOLL_EVENTS" for i
  proof (cases "i = p")
    case False
    then show ?thesis using IH(5) s1(4) i unfolding vis by metis
  next
    case True
    then show ?thesis
    proof (cases "idle now ?ev")
      case idle: True
      then have s0: "e_status (r_events s1 ! p) = 0" "k_interest K (r_k s1) (int p) = None" using s1(5) by simp_all
      then have "r_events s' ! p = r_events s1 ! p" using IH(5) p(1) by (auto simp: idle_def)
      then show ?thesis using True idle s0 IH(4) unfolding vis by simp
    next
      case False
      then have "r_events s1 ! p = ?ev" using s1(5) by simp
      then show ?thesis using True False IH(5) p(1) by auto
    qed
  qed
  then show ?case using s1(1,3) IH(1-4) by auto
qed simp






section \<open>Runs without limits\<close>








section \<open>Properties\<close>


definition sample_kernel :: "(int \<Rightarrow> (u32 \<times> nat) option) kernel" where
  "sample_kernel = \<lparr>k_ctl = \<lambda>op fd e p k. (0, if op = CTL_DEL then k(fd := None) else k(fd \<mapsto> (e, p))),
     k_close = \<lambda>fd k. k(fd := None), k_recv = \<lambda>fd n k. (Some (if n = 0 then [] else [104]), k),
     k_send = \<lambda>fd bs k. (int (length bs), k), k_accept = \<lambda>fd k. (if k 9 = None then 9 else -1, k),
     k_nonblock = \<lambda>fd k. (0, k), k_time = \<lambda>k. (1000, k),
     k_wait = \<lambda>k. (Some (case k 5 of None \<Rightarrow> [] | Some (e, p) \<Rightarrow> [(p, e)]), k), k_interest = \<lambda>k. k\<rparr>"

definition zero_entry :: ntyevent where
  "zero_entry = \<lparr>e_fd = 0, e_events = 0, e_callback = Recv_cb, e_status = 0, e_buffer = replicate BUFFER_LENGTH 0,
     e_length = 0, e_last_active = 0\<rparr>"

lemma sample_kernel_ok: "kernel_ok sample_kernel" "fds_below sample_kernel 1024"
  by (auto simp: kernel_ok_def sample_kernel_def fds_below_def MAX_EPOLL_EVENTS_def BUFFER_LENGTH_def
      split: option.splits if_splits) metis


text \<open>C29: after a short read \<open>recv_cb\<close> leaves an entry that waits to send exactly the bytes that were read, and
  \<open>send_cb\<close> then hands exactly these to \<open>send\<close>.  When \<open>send\<close> takes any of them, the entry waits for input
  again, whether or not it took all.\<close>

theorem reactor_echoes:
  assumes "kernel_ok K" and "reactor_ok K lim s" and "i < lim"
    and "k_recv K (int i) BUFFER_LENGTH (r_k s) = (Some bs, k)" and "bs \<noteq> []" and "length bs < BUFFER_LENGTH"
  shows "\<exists>s1 n k1 s2. recv_cb K (int i) s = Some (int (length bs), s1) \<and>
    e_callback (r_events s1 ! i) = Send_cb \<and> e_events (r_events s1 ! i) = EPOLLOUT \<and>
    k_send K (int i) bs (r_k s1) = (n, k1) \<and> send_cb K (int i) s1 = Some (n, s2) \<and>
    (n > 0 \<longrightarrow> e_callback (r_events s2 ! i) = Recv_cb \<and> e_events (r_events s2 ! i) = EPOLLIN \<and> e_status (r_events s2 ! i) = 1)"
proof -
  obtain s1 where s1: "recv_cb K (int i) s = Some (int (length bs), s1)" "reactor_ok K lim s1"
    "e_callback (r_events s1 ! i) = Send_cb" "e_events (r_events s1 ! i) = EPOLLOUT"
    "take (nat (e_length (r_events s1 ! i))) (e_buffer (r_events s1 ! i)) = bs"
    using recv_ok [OF assms(1-4)] assms(5,6) by auto
  from send_ok [OF assms(1) s1(2) assms(3) s1(4)] s1 show ?thesis by auto
qed

lemma reactor_echoes_witness:
  "\<exists>s1 s2. recv_cb sample_kernel 5 \<lparr>r_events = replicate MAX_EPOLL_EVENTS zero_entry, r_k = \<lambda>_. None\<rparr> = Some (1, s1) \<and>
     send_cb sample_kernel 5 s1 = Some (1, s2) \<and> e_callback (r_events s2 ! 5) = Recv_cb"
proof -
  let ?s = "\<lparr>r_events = replicate MAX_EPOLL_EVENTS zero_entry, r_k = \<lambda>_. None\<rparr> :: (int \<Rightarrow> (u32 \<times> nat) option) ntyreactor"
  have "reactor_ok sample_kernel 1024 ?s"
    by (auto simp: reactor_ok_def entries_ok_def entry_ok_def zero_entry_def sample_kernel_def MAX_EPOLL_EVENTS_def)
  from reactor_echoes [OF sample_kernel_ok(1) this, of 5 "[104]" "\<lambda>_. None"] show ?thesis
    by (fastforce simp: sample_kernel_def BUFFER_LENGTH_def)
qed

text \<open>A listening socket is closed by the first check that reaches it 60 seconds after it was added, even
  though it accepted a connection in between.\<close>

theorem reactor_closes_listener:
  assumes "kernel_ok K" and "fds_below K lim" and "reactor_ok K lim s" and "l < MAX_EPOLL_EVENTS"
    and "k_interest K (r_k s) (int l) \<noteq> None" and "accept_cb K (int l) s = Some (r, s1)"
    and "check_idle K now n pos s1 = Some (pos', s2)" and "pos \<le> MAX_EPOLL_EVENTS"
    and "j < n" and "l = (pos + j) mod MAX_EPOLL_EVENTS" and "e_last_active (r_events s ! l) + 60 \<le> now"
  shows "e_status (r_events s2 ! l) = 0 \<and> k_interest K (r_k s2) (int l) = None"
proof -
  have a: "reactor_ok K lim s1" "r_events s1 ! l = r_events s ! l"
    using accept_ok [OF assms(1,3), of "int l"] assms(2,4-6) by (auto simp: fds_below_def)
  obtain e p where "k_interest K (r_k s) (int l) = Some (e, p)" using assms(5) by auto
  then have "e_status (r_events s ! l) = 1" using table_interest assms(3) unfolding reactor_ok_def by blast
  then have "idle now (r_events s1 ! l)" using assms(11) a(2) by (simp add: idle_def)
  moreover have all: "\<forall>i < MAX_EPOLL_EVENTS. if (\<exists>j < n. i = (pos + j) mod MAX_EPOLL_EVENTS) \<and> idle now (r_events s1 ! i)
      then e_status (r_events s2 ! i) = 0 \<and> k_interest K (r_k s2) (int i) = None
      else r_events s2 ! i = r_events s1 ! i"
    using check_idle_ok [OF assms(1) a(1) assms(8), of now n] assms(7) by simp
  moreover have "\<exists>j < n. l = (pos + j) mod MAX_EPOLL_EVENTS" using assms(9,10) by blast
  ultimately show ?thesis using all [rule_format, OF assms(4)] by presburger
qed

lemma reactor_closes_listener_witness:
  "\<exists>s s1 pos s2. ntyreactor_addlistener sample_kernel 5 Accept_cb \<lparr>r_events = replicate MAX_EPOLL_EVENTS zero_entry, r_k = \<lambda>_. None\<rparr> = Some (0, s) \<and>
     accept_cb sample_kernel 5 s = Some (0, s1) \<and> check_idle sample_kernel 1060 1 5 s1 = Some (pos, s2) \<and>
     k_interest sample_kernel (r_k s) 5 \<noteq> None \<and> k_interest sample_kernel (r_k s2) 5 = None"
proof -
  let ?s = "\<lparr>r_events = replicate MAX_EPOLL_EVENTS zero_entry, r_k = \<lambda>_. None\<rparr> :: (int \<Rightarrow> (u32 \<times> nat) option) ntyreactor"
  have ok: "reactor_ok sample_kernel 1024 ?s"
    by (auto simp: reactor_ok_def entries_ok_def entry_ok_def zero_entry_def sample_kernel_def MAX_EPOLL_EVENTS_def)
  obtain s where s: "ntyreactor_addlistener sample_kernel 5 Accept_cb ?s = Some (0, s)" "reactor_ok sample_kernel 1024 s"
    "r_k s = (\<lambda>_. None)(5 \<mapsto> (EPOLLIN, 5))" "e_last_active (r_events s ! 5) = 1000" "e_status (r_events s ! 0) = 0"
  proof -
    from rearm_ok [OF sample_kernel_ok(1) ok, of 5 EPOLLIN Accept_cb]
    have "\<exists>s. ntyreactor_addlistener sample_kernel 5 Accept_cb ?s = Some (0, s) \<and> reactor_ok sample_kernel 1024 s"
      by (auto simp: ntyreactor_addlistener_def sample_kernel_def)
    then obtain s where s: "ntyreactor_addlistener sample_kernel 5 Accept_cb ?s = Some (0, s)" "reactor_ok sample_kernel 1024 s" by blast
    have m: "MAX_EPOLL_EVENTS = 6 + 51194" by (simp add: MAX_EPOLL_EVENTS_def)
    have "r_k s = (\<lambda>_. None)(5 \<mapsto> (EPOLLIN, 5)) \<and> e_last_active (r_events s ! 5) = 1000 \<and> e_status (r_events s ! 0) = 0"
      using s(1) by (auto simp: ntyreactor_addlistener_def nty_event_set_def nty_event_add_def sample_kernel_def get_ev_def aget_def
          put_ev_def m zero_entry_def nth_list_update split: if_splits)
    with s show ?thesis by (intro that) auto
  qed
  obtain s1 where s1: "accept_cb sample_kernel 5 s = Some (0, s1)" "reactor_ok sample_kernel 1024 s1"
  proof -
    obtain q s1 where q: "accept_cb sample_kernel 5 s = Some (q, s1)" "reactor_ok sample_kernel 1024 s1"
      using accept_ok [OF sample_kernel_ok(1) s(2), of 5] sample_kernel_ok(2) unfolding fds_below_def by blast
    obtain c k where c: "k_accept sample_kernel 5 (r_k s) = (c, k)" "c \<noteq> -1" using s(3) by (simp add: sample_kernel_def)
    then have "q = 0" using q(1) by (auto simp: accept_cb_def Let_def split: bind_splits)
    with q show ?thesis by (intro that) auto
  qed
  obtain pos s2 where s2: "check_idle sample_kernel 1060 1 5 s1 = Some (pos, s2)"
    using check_idle_ok [OF sample_kernel_ok(1) s1(2), of 5 1060 1] by (auto simp: MAX_EPOLL_EVENTS_def)
  have "k_interest sample_kernel (r_k s2) (int 5) = None"
    using reactor_closes_listener [OF sample_kernel_ok s(2), of 5 0 s1 1060 1 5 pos s2 0] s s1 s2
    by (simp add: MAX_EPOLL_EVENTS_def sample_kernel_def)
  moreover have "k_interest sample_kernel (r_k s) 5 \<noteq> None" using s(3) by (simp add: sample_kernel_def)
  ultimately show ?thesis using s s1 s2 by fastforce
qed

end
