(* ===== verification/B_Tree.thy ===== *)
theory B_Tree
  imports Cvip_Prelude
begin

text \<open>
  The B-tree of \<open>code/tree/b-tree.c\<close>: nodes on a heap, each with its two arrays, creation, splitting,
  insertion, traversal, printing, search in a node, merging, deletion, and the loops of \<open>main\<close>.
  A pointer to a node is a natural number, 0 is \<open>NULL\<close>; \<open>None\<close> is an access to no node or out of an
  array, a failed assertion, or a recursion that does not end.
\<close>

section \<open>State\<close>

record btree_node =
  n_keys :: "int list"
  n_childrens :: "nat list"
  n_num :: int
  n_leaf :: int

record btree =
  b_root :: nat
  b_t :: int
  b_nodes :: "nat \<rightharpoonup> btree_node"

definition DEGREE :: int where "DEGREE = 3"

definition put_node :: "nat \<Rightarrow> btree_node \<Rightarrow> btree \<Rightarrow> btree" where
  "put_node p n T = T\<lparr>b_nodes := (b_nodes T)(p \<mapsto> n)\<rparr>"

text \<open>The allocator is an argument: given the nodes there are, the address of a new one, or \<open>None\<close> for the
  failure that the code asserts away.  The array of children has room for \<open>2 * t\<close> nodes, not pointers: with
  pointers of 8 bytes a node has 24, so there is room for \<open>6 * t\<close> pointers.\<close>

type_synonym allocator = "(nat \<rightharpoonup> btree_node) \<Rightarrow> nat option"

definition btree_create_node :: "allocator \<Rightarrow> int \<Rightarrow> int \<Rightarrow> btree \<Rightarrow> (nat \<times> btree) option" where
  "btree_create_node new t leaf T = do {
     p \<leftarrow> new (b_nodes T);
     Some (p, put_node p \<lparr>n_keys = replicate (nat (2 * t - 1)) 0, n_childrens = replicate (3 * nat (2 * t)) 0,
       n_num = 0, n_leaf = leaf\<rparr> T)
   }"

definition btree_destroy_node :: "nat \<Rightarrow> btree \<Rightarrow> btree option" where
  "btree_destroy_node p T = (if p = 0 then None else do {
     _ \<leftarrow> b_nodes T p;
     Some (T\<lparr>b_nodes := (b_nodes T)(p := None)\<rparr>)
   })"

definition btree_create :: "allocator \<Rightarrow> int \<Rightarrow> btree option" where
  "btree_create new t = do {
     (x, T) \<leftarrow> btree_create_node new t 1 \<lparr>b_root = 0, b_t = t, b_nodes = (\<lambda>_. None)\<rparr>;
     Some (T\<lparr>b_root := x\<rparr>)
   }"

section \<open>The loops over arrays\<close>

text \<open>\<open>for (j = 0; j < n; j++) dst[a + j] = src[b + j]\<close>, for \<open>n\<close> rounds.\<close>

fun copy_up :: "nat \<Rightarrow> 'a list \<Rightarrow> int \<Rightarrow> 'a list \<Rightarrow> int \<Rightarrow> 'a list option" where
  "copy_up 0 dst a src b = Some dst"
| "copy_up (Suc n) dst a src b = do {
     v \<leftarrow> aget src b;
     dst1 \<leftarrow> aset dst a v;
     copy_up n dst1 (a + 1) src (b + 1)
   }"

text \<open>\<open>for (; j >= lo; j--) xs[j + 1] = xs[j]\<close>\<close>

function shift_up :: "'a list \<Rightarrow> int \<Rightarrow> int \<Rightarrow> 'a list option" where
  "shift_up xs j lo = (if j < lo then Some xs else do {
     v \<leftarrow> aget xs j;
     ys \<leftarrow> aset xs (j + 1) v;
     shift_up ys (j - 1) lo
   })"
  by pat_completeness auto
termination by (relation "measure (\<lambda>(xs, j, lo). nat (j - lo + 1))") auto

text \<open>\<open>for (; i < n; i++) xs[i] = xs[i + 1]\<close>\<close>

function shift_down :: "'a list \<Rightarrow> int \<Rightarrow> int \<Rightarrow> 'a list option" where
  "shift_down xs i n = (if n \<le> i then Some xs else do {
     v \<leftarrow> aget xs (i + 1);
     ys \<leftarrow> aset xs i v;
     shift_down ys (i + 1) n
   })"
  by pat_completeness auto
termination by (relation "measure (\<lambda>(xs, i, n). nat (n - i))") auto

text \<open>The loop that moves the keys above \<open>k\<close> up in a leaf.\<close>

function shift_larger :: "int list \<Rightarrow> int \<Rightarrow> int \<Rightarrow> (int \<times> int list) option" where
  "shift_larger keys i k = (if i < 0 then Some (i, keys) else do {
     v \<leftarrow> aget keys i;
     (if v > k then do { ks \<leftarrow> aset keys (i + 1) v; shift_larger ks (i - 1) k } else Some (i, keys))
   })"
  by pat_completeness auto
termination by (relation "measure (\<lambda>(keys, i, k). nat (i + 1))") auto

text \<open>The loop that skips the keys above \<open>k\<close> of an inner node.\<close>

function skip_larger :: "int list \<Rightarrow> int \<Rightarrow> int \<Rightarrow> int option" where
  "skip_larger keys i k = (if i < 0 then Some i else do {
     v \<leftarrow> aget keys i;
     (if v > k then skip_larger keys (i - 1) k else Some i)
   })"
  by pat_completeness auto
termination by (relation "measure (\<lambda>(keys, i, k). nat (i + 1))") auto

text \<open>The loop of \<open>btree_delete_key\<close> that looks for the first key that is not below \<open>key\<close>.\<close>

function find_key :: "int list \<Rightarrow> int \<Rightarrow> int \<Rightarrow> int \<Rightarrow> int option" where
  "find_key keys num key idx = (if num \<le> idx then Some idx else do {
     v \<leftarrow> aget keys idx;
     (if key > v then find_key keys num key (idx + 1) else Some idx)
   })"
  by pat_completeness auto
termination by (relation "measure (\<lambda>(keys, num, key, idx). nat (num - idx))") auto

declare shift_up.simps [simp del] shift_down.simps [simp del] shift_larger.simps [simp del]
  skip_larger.simps [simp del] find_key.simps [simp del]

section \<open>Insertion\<close>

definition btree_split_child :: "allocator \<Rightarrow> btree \<Rightarrow> nat \<Rightarrow> int \<Rightarrow> btree option" where
  "btree_split_child new T x i = do {
     let t = b_t T;
     xn0 \<leftarrow> b_nodes T x;
     y \<leftarrow> aget (n_childrens xn0) i;
     yn \<leftarrow> b_nodes T y;
     (z, T1) \<leftarrow> btree_create_node new t (n_leaf yn) T;
     zn \<leftarrow> b_nodes T1 z;
     zk \<leftarrow> copy_up (nat (t - 1)) (n_keys zn) 0 (n_keys yn) t;
     zc \<leftarrow> (if n_leaf yn = 0 then copy_up (nat t) (n_childrens zn) 0 (n_childrens yn) t else Some (n_childrens zn));
     let T2 = put_node z (zn\<lparr>n_keys := zk, n_childrens := zc, n_num := t - 1\<rparr>) T1;
     let T3 = put_node y (yn\<lparr>n_num := t - 1\<rparr>) T2;
     xn \<leftarrow> b_nodes T3 x;
     c1 \<leftarrow> shift_up (n_childrens xn) (n_num xn) (i + 1);
     c2 \<leftarrow> aset c1 (i + 1) z;
     k1 \<leftarrow> shift_up (n_keys xn) (n_num xn - 1) i;
     v \<leftarrow> aget (n_keys yn) (t - 1);
     k2 \<leftarrow> aset k1 i v;
     Some (put_node x (xn\<lparr>n_keys := k2, n_childrens := c2, n_num := n_num xn + 1\<rparr>) T3)
   }"

partial_function (option) btree_insert_nonfull :: "allocator \<Rightarrow> btree \<Rightarrow> nat \<Rightarrow> int \<Rightarrow> btree option" where
  "btree_insert_nonfull new T x k = do {
     xn \<leftarrow> b_nodes T x;
     (if n_leaf xn = 1 then do {
        (i, ks) \<leftarrow> shift_larger (n_keys xn) (n_num xn - 1) k;
        ks1 \<leftarrow> aset ks (i + 1) k;
        Some (put_node x (xn\<lparr>n_keys := ks1, n_num := n_num xn + 1\<rparr>) T)
      }
      else do {
        i \<leftarrow> skip_larger (n_keys xn) (n_num xn - 1) k;
        c \<leftarrow> aget (n_childrens xn) (i + 1);
        cn \<leftarrow> b_nodes T c;
        (i1, T1) \<leftarrow> (if n_num cn = 2 * b_t T - 1 then do {
            T1 \<leftarrow> btree_split_child new T x (i + 1);
            xn1 \<leftarrow> b_nodes T1 x;
            v \<leftarrow> aget (n_keys xn1) (i + 1);
            Some (if k > v then i + 1 else i, T1)
          } else Some (i, T));
        xn2 \<leftarrow> b_nodes T1 x;
        c1 \<leftarrow> aget (n_childrens xn2) (i1 + 1);
        btree_insert_nonfull new T1 c1 k
      })
   }"

definition btree_insert :: "allocator \<Rightarrow> btree \<Rightarrow> int \<Rightarrow> btree option" where
  "btree_insert new T key = do {
     let r = b_root T;
     rn \<leftarrow> b_nodes T r;
     (if n_num rn = 2 * b_t T - 1 then do {
        (node, T1) \<leftarrow> btree_create_node new (b_t T) 0 T;
        let T2 = T1\<lparr>b_root := node\<rparr>;
        nn \<leftarrow> b_nodes T2 node;
        cs \<leftarrow> aset (n_childrens nn) 0 r;
        T3 \<leftarrow> btree_split_child new (put_node node (nn\<lparr>n_childrens := cs\<rparr>) T2) node 0;
        nn3 \<leftarrow> b_nodes T3 node;
        v \<leftarrow> aget (n_keys nn3) 0;
        c \<leftarrow> aget (n_childrens nn3) (if v < key then 1 else 0);
        btree_insert_nonfull new T3 c key
      }
      else btree_insert_nonfull new T r key)
   }"

section \<open>Walks\<close>

text \<open>What \<open>btree_traverse\<close> prints, from position \<open>i\<close> of its loop on.\<close>

partial_function (option) traverse_from :: "btree \<Rightarrow> nat \<Rightarrow> int \<Rightarrow> int list option" where
  "traverse_from T x i = do {
     xn \<leftarrow> b_nodes T x;
     a \<leftarrow> (if n_leaf xn = 0 then do { c \<leftarrow> aget (n_childrens xn) i; traverse_from T c 0 } else Some []);
     (if i < n_num xn then do {
        v \<leftarrow> aget (n_keys xn) i;
        b \<leftarrow> traverse_from T x (i + 1);
        Some (a @ v # b)
      } else Some a)
   }"

definition btree_traverse :: "btree \<Rightarrow> nat \<Rightarrow> int list option" where
  "btree_traverse T x = traverse_from T x 0"

text \<open>\<open>btree_print\<close> prints a line for each node: its layer, the number of keys, the leaf flag, the keys.\<close>

type_synonym line = "int \<times> int \<times> int \<times> int list"

definition print_node :: "btree \<Rightarrow> nat \<Rightarrow> int \<Rightarrow> line option" where
  "print_node T p layer = do {
     pn \<leftarrow> b_nodes T p;
     ks \<leftarrow> those (map (\<lambda>i. aget (n_keys pn) (int i)) [0..<nat (n_num pn)]);
     Some (layer, n_num pn, n_leaf pn, ks)
   }"

partial_function (option) print_children :: "btree \<Rightarrow> nat \<Rightarrow> int \<Rightarrow> int \<Rightarrow> line list option" where
  "print_children T p layer i = do {
     pn \<leftarrow> b_nodes T p;
     (if i \<le> n_num pn then do {
        c \<leftarrow> aget (n_childrens pn) i;
        a \<leftarrow> (if c = 0 then Some [] else do {
            h \<leftarrow> print_node T c layer;
            b \<leftarrow> print_children T c (layer + 1) 0;
            Some (h # b)
          });
        rest \<leftarrow> print_children T p layer (i + 1);
        Some (a @ rest)
      } else Some [])
   }"

definition btree_print :: "btree \<Rightarrow> nat \<Rightarrow> int \<Rightarrow> line list option" where
  "btree_print T p layer = (if p = 0 then Some [] else do {
     h \<leftarrow> print_node T p layer;
     b \<leftarrow> print_children T p (layer + 1) 0;
     Some (h # b)
   })"

function bin_search_loop :: "int list \<Rightarrow> int \<Rightarrow> int \<Rightarrow> int \<Rightarrow> int option" where
  "bin_search_loop keys low high key = (if high < low then Some low else do {
     let mid = (low + high) div 2;
     v \<leftarrow> aget keys mid;
     (if key > v then bin_search_loop keys (mid + 1) high key else bin_search_loop keys low (mid - 1) key)
   })"
  by pat_completeness auto
termination by (relation "measure (\<lambda>(keys, low, high, key). nat (high - low + 1))") auto

declare bin_search_loop.simps [simp del]

definition btree_bin_search :: "btree_node \<Rightarrow> int \<Rightarrow> int \<Rightarrow> int \<Rightarrow> int option" where
  "btree_bin_search node low high key =
     (if low > high \<or> low < 0 \<or> high < 0 then Some (-1) else bin_search_loop (n_keys node) low high key)"

section \<open>Deletion\<close>

definition btree_merge :: "btree \<Rightarrow> nat \<Rightarrow> int \<Rightarrow> btree option" where
  "btree_merge T node idx = do {
     let t = b_t T;
     nn \<leftarrow> b_nodes T node;
     left \<leftarrow> aget (n_childrens nn) idx;
     right \<leftarrow> aget (n_childrens nn) (idx + 1);
     ln \<leftarrow> b_nodes T left;
     rn \<leftarrow> b_nodes T right;
     v \<leftarrow> aget (n_keys nn) idx;
     k1 \<leftarrow> aset (n_keys ln) (t - 1) v;
     k2 \<leftarrow> copy_up (nat (t - 1)) k1 t (n_keys rn) 0;
     c2 \<leftarrow> (if n_leaf ln = 0 then copy_up (nat t) (n_childrens ln) t (n_childrens rn) 0 else Some (n_childrens ln));
     T2 \<leftarrow> btree_destroy_node right (put_node left (ln\<lparr>n_keys := k2, n_childrens := c2, n_num := n_num ln + t\<rparr>) T);
     nn2 \<leftarrow> b_nodes T2 node;
     nk \<leftarrow> shift_down (n_keys nn2) idx (n_num nn2 - 1);
     nc \<leftarrow> shift_down (n_childrens nn2) (idx + 1) (n_num nn2);
     nc1 \<leftarrow> aset nc (max (idx + 1) (n_num nn2) + 1) 0;
     let T3 = put_node node (nn2\<lparr>n_keys := nk, n_childrens := nc1, n_num := n_num nn2 - 1\<rparr>) T2;
     (if n_num nn2 - 1 = 0 then btree_destroy_node node (T3\<lparr>b_root := left\<rparr>) else Some T3)
   }"

definition delete_leaf_key :: "btree \<Rightarrow> nat \<Rightarrow> int \<Rightarrow> btree option" where
  "delete_leaf_key T node idx = do {
     nn \<leftarrow> b_nodes T node;
     ks \<leftarrow> shift_down (n_keys nn) idx (n_num nn - 1);
     ks1 \<leftarrow> aset ks (n_num nn - 1) 0;
     let T1 = put_node node (nn\<lparr>n_keys := ks1, n_num := n_num nn - 1\<rparr>) T;
     Some (if n_num nn - 1 = 0 then T1\<lparr>b_root := 0, b_nodes := (b_nodes T1)(node := None)\<rparr> else T1)
   }"

definition borrow_next :: "btree \<Rightarrow> nat \<Rightarrow> int \<Rightarrow> nat \<Rightarrow> nat \<Rightarrow> btree option" where
  "borrow_next T node idx child right = do {
     cn \<leftarrow> b_nodes T child;
     nn \<leftarrow> b_nodes T node;
     rn \<leftarrow> b_nodes T right;
     k \<leftarrow> aget (n_keys nn) idx;
     ck \<leftarrow> aset (n_keys cn) (n_num cn) k;
     c0 \<leftarrow> aget (n_childrens rn) 0;
     cc \<leftarrow> aset (n_childrens cn) (n_num cn + 1) c0;
     let T1 = put_node child (cn\<lparr>n_keys := ck, n_childrens := cc, n_num := n_num cn + 1\<rparr>) T;
     nn1 \<leftarrow> b_nodes T1 node;
     rn1 \<leftarrow> b_nodes T1 right;
     k0 \<leftarrow> aget (n_keys rn1) 0;
     nk \<leftarrow> aset (n_keys nn1) idx k0;
     let T2 = put_node node (nn1\<lparr>n_keys := nk\<rparr>) T1;
     rn2 \<leftarrow> b_nodes T2 right;
     rk \<leftarrow> shift_down (n_keys rn2) 0 (n_num rn2 - 1);
     rc \<leftarrow> shift_down (n_childrens rn2) 0 (n_num rn2 - 1);
     rk1 \<leftarrow> aset rk (n_num rn2 - 1) 0;
     c \<leftarrow> aget rc (n_num rn2);
     rc1 \<leftarrow> aset rc (n_num rn2 - 1) c;
     rc2 \<leftarrow> aset rc1 (n_num rn2) 0;
     Some (put_node right (rn2\<lparr>n_keys := rk1, n_childrens := rc2, n_num := n_num rn2 - 1\<rparr>) T2)
   }"

definition borrow_prev :: "btree \<Rightarrow> nat \<Rightarrow> int \<Rightarrow> nat \<Rightarrow> nat \<Rightarrow> btree option" where
  "borrow_prev T node idx child left = do {
     cn \<leftarrow> b_nodes T child;
     nn \<leftarrow> b_nodes T node;
     ln \<leftarrow> b_nodes T left;
     ck \<leftarrow> shift_up (n_keys cn) (n_num cn - 1) 0;
     cc \<leftarrow> shift_up (n_childrens cn) (n_num cn) 1;
     c0 \<leftarrow> aget cc 0;
     cc1 \<leftarrow> aset cc 1 c0;
     l \<leftarrow> aget (n_childrens ln) (n_num ln);
     cc2 \<leftarrow> aset cc1 0 l;
     k \<leftarrow> aget (n_keys nn) (idx - 1);
     ck1 \<leftarrow> aset ck 0 k;
     let T1 = put_node child (cn\<lparr>n_keys := ck1, n_childrens := cc2, n_num := n_num cn + 1\<rparr>) T;
     nn1 \<leftarrow> b_nodes T1 node;
     ln1 \<leftarrow> b_nodes T1 left;
     v \<leftarrow> aget (n_keys ln1) (n_num ln1 - 1);
     nk \<leftarrow> aset (n_keys nn1) (idx - 1) v;
     let T2 = put_node node (nn1\<lparr>n_keys := nk\<rparr>) T1;
     ln2 \<leftarrow> b_nodes T2 left;
     lk \<leftarrow> aset (n_keys ln2) (n_num ln2 - 1) 0;
     lc \<leftarrow> aset (n_childrens ln2) (n_num ln2) 0;
     Some (put_node left (ln2\<lparr>n_keys := lk, n_childrens := lc, n_num := n_num ln2 - 1\<rparr>) T2)
   }"

text \<open>\<open>p && p->num >= T->t\<close> and \<open>!p || p->num == T->t - 1\<close>\<close>

definition has_spare :: "btree \<Rightarrow> nat \<Rightarrow> bool option" where
  "has_spare T p = (if p = 0 then Some False else do { n \<leftarrow> b_nodes T p; Some (n_num n \<ge> b_t T) })"

definition is_minimal :: "btree \<Rightarrow> nat \<Rightarrow> bool option" where
  "is_minimal T p = (if p = 0 then Some True else do { n \<leftarrow> b_nodes T p; Some (n_num n = b_t T - 1) })"

text \<open>What is done before the descent into a child with as few keys as it may have; the result has the child
  to go to.\<close>

definition fill_child :: "btree \<Rightarrow> nat \<Rightarrow> int \<Rightarrow> nat \<Rightarrow> (btree \<times> nat) option" where
  "fill_child T node idx child = do {
     nn \<leftarrow> b_nodes T node;
     left \<leftarrow> (if idx - 1 \<ge> 0 then aget (n_childrens nn) (idx - 1) else Some 0);
     right \<leftarrow> (if idx + 1 \<le> n_num nn then aget (n_childrens nn) (idx + 1) else Some 0);
     ls \<leftarrow> has_spare T left;
     spare \<leftarrow> (if ls then Some True else has_spare T right);
     (if spare then do {
        richR \<leftarrow> (if left \<noteq> 0 \<and> right \<noteq> 0
          then do { rn \<leftarrow> b_nodes T right; ln \<leftarrow> b_nodes T left; Some (n_num rn > n_num ln) }
          else Some (right \<noteq> 0));
        rs \<leftarrow> has_spare T right;
        T1 \<leftarrow> (if rs \<and> richR then borrow_next T node idx child right else borrow_prev T node idx child left);
        Some (T1, child)
      }
      else do {
        lm \<leftarrow> is_minimal T left;
        rm \<leftarrow> (if lm then is_minimal T right else Some False);
        (if lm \<and> rm then
           if left \<noteq> 0 then do { T1 \<leftarrow> btree_merge T node (idx - 1); Some (T1, left) }
           else if right \<noteq> 0 then do { T1 \<leftarrow> btree_merge T node idx; Some (T1, child) }
           else Some (T, child)
         else Some (T, child))
      })
   }"

partial_function (option) btree_delete_key :: "btree \<Rightarrow> nat \<Rightarrow> int \<Rightarrow> btree option" where
  "btree_delete_key T node key = (if node = 0 then Some T else do {
     nn \<leftarrow> b_nodes T node;
     idx \<leftarrow> find_key (n_keys nn) (n_num nn) key 0;
     hit \<leftarrow> (if idx < n_num nn then do { v \<leftarrow> aget (n_keys nn) idx; Some (key = v) } else Some False);
     (if hit then
        if n_leaf nn \<noteq> 0 then delete_leaf_key T node idx
        else do {
          left \<leftarrow> aget (n_childrens nn) idx;
          ln \<leftarrow> b_nodes T left;
          (if n_num ln \<ge> b_t T then do {
             v \<leftarrow> aget (n_keys ln) (n_num ln - 1);
             ks \<leftarrow> aset (n_keys nn) idx v;
             let T1 = put_node node (nn\<lparr>n_keys := ks\<rparr>) T;
             ln1 \<leftarrow> b_nodes T1 left;
             v1 \<leftarrow> aget (n_keys ln1) (n_num ln1 - 1);
             btree_delete_key T1 left v1
           }
           else do {
             right \<leftarrow> aget (n_childrens nn) (idx + 1);
             rn \<leftarrow> b_nodes T right;
             (if n_num rn \<ge> b_t T then do {
                v \<leftarrow> aget (n_keys rn) 0;
                ks \<leftarrow> aset (n_keys nn) idx v;
                let T1 = put_node node (nn\<lparr>n_keys := ks\<rparr>) T;
                rn1 \<leftarrow> b_nodes T1 right;
                v1 \<leftarrow> aget (n_keys rn1) 0;
                btree_delete_key T1 right v1
              }
              else do {
                T1 \<leftarrow> btree_merge T node idx;
                nn1 \<leftarrow> b_nodes T1 node;
                c \<leftarrow> aget (n_childrens nn1) idx;
                btree_delete_key T1 c key
              })
           })
        }
      else do {
        child \<leftarrow> aget (n_childrens nn) idx;
        (if child = 0 then Some T
         else do {
           cn \<leftarrow> b_nodes T child;
           (T1, child1) \<leftarrow> (if n_num cn = b_t T - 1 then fill_child T node idx child else Some (T, child));
           btree_delete_key T1 child1 key
         })
      })
   })"

definition btree_delete :: "btree \<Rightarrow> int \<Rightarrow> (int \<times> btree) option" where
  "btree_delete T key = (if b_root T = 0 then Some (-1, T) else do {
     T1 \<leftarrow> btree_delete_key T (b_root T) key;
     Some (0, T1)
   })"

section \<open>The program\<close>

fun insert_all :: "allocator \<Rightarrow> int list \<Rightarrow> btree \<Rightarrow> btree option" where
  "insert_all new [] T = Some T"
| "insert_all new (k # ks) T = do { T1 \<leftarrow> btree_insert new T k; insert_all new ks T1 }"

text \<open>Delete each key and print the tree that is left.\<close>

fun delete_all :: "int list \<Rightarrow> btree \<Rightarrow> (line list list \<times> btree) option" where
  "delete_all [] T = Some ([], T)"
| "delete_all (k # ks) T = do {
     (_, T1) \<leftarrow> btree_delete T k;
     out \<leftarrow> btree_print T1 (b_root T1) 0;
     (outs, T2) \<leftarrow> delete_all ks T1;
     Some (out # outs, T2)
   }"

definition btree_main :: "allocator \<Rightarrow> int list \<Rightarrow> (line list list \<times> btree) option" where
  "btree_main new key = do {
     T \<leftarrow> btree_create new 3;
     T1 \<leftarrow> insert_all new key T;
     out \<leftarrow> btree_print T1 (b_root T1) 0;
     (outs, T2) \<leftarrow> delete_all (rev key) T1;
     Some (out # outs, T2)
   }"

end
