(* ===== verification/B_Tree_Inv.thy ===== *)
theory B_Tree_Inv
  imports B_Tree
begin

text \<open>
  The loops of the B-tree on the parts of an array, and the tree that the heap represents.
\<close>

section \<open>Loops\<close>

lemma aget_append [arr_simps]: "i = int (length as) \<Longrightarrow> aget (as @ b # bs) i = Some b"
  by (simp add: aget_def)

lemma aset_append [arr_simps]: "i = int (length as) \<Longrightarrow> aset (as @ b # bs) i v = Some (as @ v # bs)"
  by (simp add: aset_def)

lemma copy_up_parts:
  "n = length cp \<Longrightarrow> a = int (length as) \<Longrightarrow> b = int (length xs) \<Longrightarrow> length bs = length cp \<Longrightarrow>
   copy_up n (as @ bs @ cs) a (xs @ cp @ ys) b = Some (as @ cp @ cs)"
proof (induction cp arbitrary: n a as b xs bs)
  case (Cons c cp)
  then obtain b0 bs' where bs: "bs = b0 # bs'" by (cases bs) auto
  have "copy_up (length cp) ((as @ [c]) @ bs' @ cs) (a + 1) ((xs @ [c]) @ cp @ ys) (b + 1) = Some ((as @ [c]) @ cp @ cs)"
    using Cons.prems bs by (intro Cons.IH) auto
  then show ?case using Cons.prems bs by (simp add: arr_simps)
qed simp

lemma shift_up_parts:
  "j = int (length as + length bs) - 1 \<Longrightarrow> lo = int (length as) \<Longrightarrow>
   shift_up (as @ bs @ x # cs) j lo = Some (as @ hd (bs @ [x]) # bs @ cs)"
proof (induction bs arbitrary: j x cs rule: rev_induct)
  case Nil
  then show ?case by (subst shift_up.simps) simp
next
  case (snoc b bs)
  have "shift_up (as @ bs @ b # b # cs) (j - 1) lo = Some (as @ hd (bs @ [b]) # bs @ b # cs)"
    using snoc by simp
  then show ?case using snoc.prems aget_append [of j "as @ bs" b "x # cs"] aset_append [of "j + 1" "as @ bs @ [b]" x cs b]
    by (subst shift_up.simps) (simp add: hd_append)
qed

lemma shift_down_parts:
  "i = int (length as) \<Longrightarrow> n = int (length as + length bs) \<Longrightarrow>
   shift_down (as @ b # bs @ cs) i n = Some (as @ bs @ last (b # bs) # cs)"
proof (induction bs arbitrary: i as b)
  case Nil
  then show ?case by (subst shift_down.simps) simp
next
  case (Cons c bs)
  have "shift_down ((as @ [c]) @ c # bs @ cs) (i + 1) n = Some ((as @ [c]) @ bs @ last (c # bs) # cs)"
    using Cons.prems by (intro Cons.IH) auto
  then show ?case using Cons.prems aget_append [of "i + 1" "as @ [b]" c "bs @ cs"] aset_append [of i as b "c # bs @ cs" c]
    by (subst shift_down.simps) simp
qed

lemma shift_larger_parts:
  "\<forall>a \<in> set as. a \<le> k \<Longrightarrow> \<forall>b \<in> set bs. k < b \<Longrightarrow> i = int (length as + length bs) - 1 \<Longrightarrow>
   shift_larger (as @ bs @ x # cs) i k = Some (int (length as) - 1, as @ hd (bs @ [x]) # bs @ cs)"
proof (induction bs arbitrary: i x cs rule: rev_induct)
  case Nil
  then show ?case using aget_append [of i "butlast as" "last as" "x # cs"]
    by (subst shift_larger.simps) (cases as rule: rev_cases; simp)
next
  case (snoc b bs)
  have "shift_larger (as @ bs @ b # b # cs) (i - 1) k = Some (int (length as) - 1, as @ hd (bs @ [b]) # bs @ b # cs)"
    using snoc by simp
  then show ?case using snoc.prems aget_append [of i "as @ bs" b "x # cs"] aset_append [of "i + 1" "as @ bs @ [b]" x cs b]
    by (subst shift_larger.simps) (simp add: hd_append)
qed

lemma skip_larger_parts:
  "\<forall>a \<in> set as. a \<le> k \<Longrightarrow> \<forall>b \<in> set bs. k < b \<Longrightarrow> i = int (length as + length bs) - 1 \<Longrightarrow>
   skip_larger (as @ bs @ cs) i k = Some (int (length as) - 1)"
proof (induction bs arbitrary: i cs rule: rev_induct)
  case Nil
  then show ?case using aget_append [of i "butlast as" "last as" cs]
    by (subst skip_larger.simps) (cases as rule: rev_cases; simp)
next
  case (snoc b bs)
  have "skip_larger (as @ bs @ b # cs) (i - 1) k = Some (int (length as) - 1)" using snoc by simp
  then show ?case using snoc.prems aget_append [of i "as @ bs" b cs] by (subst skip_larger.simps) simp
qed

lemma find_key_parts:
  "\<forall>a \<in> set as. a < key \<Longrightarrow> \<forall>b \<in> set (take 1 bs). key \<le> b \<Longrightarrow> i \<le> length as \<Longrightarrow> num = int (length as + length bs) \<Longrightarrow>
   find_key (as @ bs @ cs) num key (int i) = Some (int (length as))"
proof (induction "length as - i" arbitrary: i)
  case 0
  then have i: "i = length as" by simp
  show ?case
  proof (cases bs)
    case (Cons b bs')
    then have "find_key (as @ b # bs' @ cs) num key (int i) = Some (int i)"
      using i 0 aget_append [of "int i" as b "bs' @ cs"] by (subst find_key.simps) simp
    then show ?thesis using Cons i by simp
  qed (use i 0 in \<open>subst find_key.simps, simp\<close>)
next
  case (Suc n)
  then have i: "i < length as" by simp
  then have "as ! i < key" using Suc by simp
  moreover have "aget (as @ bs @ cs) (int i) = Some (as ! i)" using i by (simp add: aget_def nth_append)
  moreover have "find_key (as @ bs @ cs) num key (int (i + 1)) = Some (int (length as))" using Suc by (intro Suc.hyps(1)) auto
  ultimately show ?case using Suc.prems(4) i by (subst find_key.simps) (simp add: add.commute)
qed


section \<open>The tree on the heap\<close>

text \<open>A tree as the heap represents it: the address of the node, its keys, its children.\<close>

datatype bt = Bt (bt_ptr: nat) (bt_keys: "int list") (bt_subs: "bt list")

fun ptrs :: "bt \<Rightarrow> nat list" where
  "ptrs (Bt p ks cs) = p # concat (map ptrs cs)"

definition keys_before :: "int list list \<Rightarrow> int list \<Rightarrow> int list" where
  "keys_before cs ks = concat (map2 (\<lambda>c k. c @ [k]) cs ks)"

definition keys_after :: "int list \<Rightarrow> int list list \<Rightarrow> int list" where
  "keys_after ks cs = concat (map2 (#) ks cs)"

definition weave :: "int list \<Rightarrow> int list list \<Rightarrow> int list" where
  "weave ks cs = (case cs of [] \<Rightarrow> ks | c # cs' \<Rightarrow> c @ keys_after ks cs')"

text \<open>The keys in order, and those that lie in inner nodes.\<close>

fun inord :: "bt \<Rightarrow> int list" where
  "inord (Bt p ks cs) = weave ks (map inord cs)"

fun inner :: "bt \<Rightarrow> int set" where
  "inner (Bt p ks cs) = (if cs = [] then {} else set ks \<union> (\<Union>c \<in> set cs. inner c))"

text \<open>All leaves have the same depth; all nodes but the root have at least \<open>d - 1\<close> keys, and no node more
  than \<open>2 * d - 1\<close>.\<close>

fun balanced :: "nat \<Rightarrow> nat \<Rightarrow> bt \<Rightarrow> bool" where
  "balanced d 0 (Bt p ks cs) \<longleftrightarrow> length ks \<le> 2 * d - 1 \<and> cs = []"
| "balanced d (Suc h) (Bt p ks cs) \<longleftrightarrow> length ks \<le> 2 * d - 1 \<and> length cs = length ks + 1 \<and>
     (\<forall>c \<in> set cs. balanced d h c \<and> d - 1 \<le> length (bt_keys c))"

definition node_ok :: "nat \<Rightarrow> btree_node \<Rightarrow> int list \<Rightarrow> nat list \<Rightarrow> bool" where
  "node_ok d n ks ps \<longleftrightarrow> length (n_keys n) = 2 * d - 1 \<and> length (n_childrens n) = 6 * d \<and>
     n_num n = int (length ks) \<and> (\<exists>kj. n_keys n = ks @ kj) \<and>
     (if ps = [] then n_leaf n = 1 \<and> n_childrens n = replicate (6 * d) 0
      else n_leaf n = 0 \<and> length ps = length ks + 1 \<and> (\<exists>cj. n_childrens n = ps @ cj))"

fun rep :: "nat \<Rightarrow> (nat \<rightharpoonup> btree_node) \<Rightarrow> bt \<Rightarrow> bool" where
  "rep d H (Bt p ks cs) \<longleftrightarrow> p \<noteq> 0 \<and> (\<exists>n. H p = Some n \<and> node_ok d n ks (map bt_ptr cs)) \<and> (\<forall>c \<in> set cs. rep d H c)"

definition owns :: "nat \<Rightarrow> (nat \<rightharpoonup> btree_node) \<Rightarrow> bt \<Rightarrow> bool" where
  "owns d H t \<longleftrightarrow> rep d H t \<and> distinct (ptrs t)"

lemma keys_before_simps [simp]: "keys_before [] ks = []" "keys_before (c # cs) (k # ks) = c @ k # keys_before cs ks"
  by (simp_all add: keys_before_def)

lemma keys_after_simps [simp]: "keys_after [] cs = []" "keys_after (k # ks) (c # cs) = k # c @ keys_after ks cs"
  by (simp_all add: keys_after_def)

lemma keys_after_append: "length ks1 = length cs1 \<Longrightarrow> keys_after (ks1 @ ks2) (cs1 @ cs2) = keys_after ks1 cs1 @ keys_after ks2 cs2"
  by (induction ks1 cs1 rule: list_induct2) simp_all

lemma keys_before_append: "length ks1 = length cs1 \<Longrightarrow> keys_before (cs1 @ cs2) (ks1 @ ks2) = keys_before cs1 ks1 @ keys_before cs2 ks2"
  by (induction ks1 cs1 rule: list_induct2) simp_all

lemma weave_leaf [simp]: "weave ks [] = ks"
  by (simp add: weave_def)

lemma weave_parts:
  "length ks1 = length cs1 \<Longrightarrow> weave (ks1 @ ks2) (cs1 @ c # cs2) = keys_before cs1 ks1 @ c @ keys_after ks2 cs2"
proof (induction ks1 cs1 arbitrary: rule: list_induct2)
  case (Cons k ks1 c1 cs1)
  then show ?case by (cases cs1) (auto simp: weave_def)
qed (simp add: weave_def)

lemma inord_ne: "balanced d h t \<Longrightarrow> bt_keys t \<noteq> [] \<Longrightarrow> inord t \<noteq> []"
  by (cases t; cases h; cases "bt_keys t") (auto simp: weave_def length_Suc_conv)

lemma set_keys_before: "length cs = length ks \<Longrightarrow> set (keys_before cs ks) = set ks \<union> (\<Union>c \<in> set cs. set c)"
  by (induction cs ks rule: list_induct2) auto

lemma set_keys_after: "length ks = length cs \<Longrightarrow> set (keys_after ks cs) = set ks \<union> (\<Union>c \<in> set cs. set c)"
  by (induction ks cs rule: list_induct2) auto

lemma set_weave: "cs \<noteq> [] \<Longrightarrow> length cs = length ks + 1 \<Longrightarrow> set (weave ks cs) = set ks \<union> (\<Union>c \<in> set cs. set c)"
  by (cases cs) (auto simp: weave_def set_keys_after)

lemma inner_inord: "balanced d h t \<Longrightarrow> inner t \<subseteq> set (inord t)"
proof (induction d h t rule: balanced.induct)
  case (2 d h p ks cs)
  then show ?case by (auto simp: set_weave)
qed simp

lemma ptr_in [simp]: "bt_ptr t \<in> set (ptrs t)"
  by (cases t) simp

lemma rep_live: "rep d H t \<Longrightarrow> q \<in> set (ptrs t) \<Longrightarrow> H q \<noteq> None \<and> q \<noteq> 0"
  by (induction d H t rule: rep.induct) auto

lemma rep_frame: "rep d H t \<Longrightarrow> (\<And>q. q \<in> set (ptrs t) \<Longrightarrow> H' q = H q) \<Longrightarrow> rep d H' t"
  by (induction d H t rule: rep.induct) auto

lemma rep_upd: "rep d H t \<Longrightarrow> p \<notin> set (ptrs t) \<Longrightarrow> rep d (H(p := v)) t"
  by (erule rep_frame) auto

lemma node_keys: "node_ok d n ks ps \<Longrightarrow> \<exists>kj. n_keys n = ks @ kj \<and> length ks + length kj = 2 * d - 1"
  by (auto simp: node_ok_def)

lemma node_subs: "node_ok d n ks ps \<Longrightarrow> ps \<noteq> [] \<Longrightarrow>
  \<exists>cj. n_childrens n = ps @ cj \<and> length cj = 6 * d - length ps \<and> length ps \<le> 2 * d \<and> length ps = length ks + 1"
  by (auto simp: node_ok_def)

lemma node_num: "node_ok d n ks ps \<Longrightarrow> n_num n = int (length ks) \<and> length ks \<le> 2 * d - 1"
  by (auto simp: node_ok_def)


lemma put_node_sel [simp]: "b_root (put_node p n T) = b_root T" "b_t (put_node p n T) = b_t T"
  "b_nodes (put_node p n T) = (b_nodes T)(p \<mapsto> n)"
  by (simp_all add: put_node_def)

lemma owns_parts:
  assumes "owns d H (Bt p ks (cs1 @ c # cs2))"
  shows "owns d H c" "p \<notin> set (ptrs c)"
    "\<And>b. b \<in> set cs1 \<union> set cs2 \<Longrightarrow> rep d H b \<and> p \<notin> set (ptrs b) \<and> set (ptrs b) \<inter> set (ptrs c) = {}"
  using assms by (auto simp: owns_def)

section \<open>Splitting\<close>

lemma create_node:
  assumes "new (b_nodes T) = Some z"
  shows "btree_create_node new (int d) leaf T = Some (z, put_node z \<lparr>n_keys = replicate (2 * d - 1) 0,
    n_childrens = replicate (6 * d) 0, n_num = 0, n_leaf = leaf\<rparr> T)"
proof -
  have "nat (2 * int d - 1) = 2 * d - 1" "nat (2 * int d) = 2 * d" by linarith+
  then show ?thesis using assms by (simp add: btree_create_node_def)
qed

lemma split_child_ok:
  assumes d: "2 \<le> d" "b_t T = int d"
    and owns: "owns d (b_nodes T) (Bt x (ks1 @ ks2) (cs1 @ Bt y (yk1 @ m # yk2) (yc1 @ yc2) # cs2))"
    and len: "length ks1 = length cs1" "length (ks1 @ ks2) < 2 * d - 1"
      "length yk1 = d - 1" "length yk2 = d - 1" "yc1 = [] \<and> yc2 = [] \<or> length yc1 = d \<and> length yc2 = d"
    and z: "new (b_nodes T) = Some z" "b_nodes T z = None" "z \<noteq> 0"
  shows "\<exists>T'. btree_split_child new T x (int (length ks1)) = Some T' \<and> b_root T' = b_root T \<and> b_t T' = int d \<and>
    owns d (b_nodes T') (Bt x (ks1 @ m # ks2) (cs1 @ Bt y yk1 yc1 # Bt z yk2 yc2 # cs2)) \<and>
    (\<forall>q. q \<notin> {x, y, z} \<longrightarrow> b_nodes T' q = b_nodes T q) \<and> dom (b_nodes T') = insert z (dom (b_nodes T))"
proof -
  let ?H = "b_nodes T"
  let ?cs = "cs1 @ Bt y (yk1 @ m # yk2) (yc1 @ yc2) # cs2"
  have r: "rep d ?H (Bt x (ks1 @ ks2) ?cs)" and dist: "distinct (ptrs (Bt x (ks1 @ ks2) ?cs))"
    using owns by (simp_all add: owns_def)
  obtain xn where xn: "?H x = Some xn" "node_ok d xn (ks1 @ ks2) (map bt_ptr ?cs)" "x \<noteq> 0" using r by auto
  obtain yn where yn: "?H y = Some yn" "node_ok d yn (yk1 @ m # yk2) (map bt_ptr (yc1 @ yc2))" "y \<noteq> 0" using r by auto
  note parts = owns_parts [OF owns]
  have sub: "rep d ?H c \<and> x \<notin> set (ptrs c) \<and> y \<notin> set (ptrs c) \<and> z \<notin> set (ptrs c)"
    if c: "c \<in> set cs1 \<union> set cs2 \<union> set yc1 \<union> set yc2" for c
  proof -
    have "rep d ?H c \<and> x \<notin> set (ptrs c) \<and> y \<notin> set (ptrs c)"
    proof (cases "c \<in> set cs1 \<union> set cs2")
      case True
      then show ?thesis using parts(3) [OF True] by auto
    next
      case False
      then have "c \<in> set (yc1 @ yc2)" using c by simp
      then show ?thesis using parts(1,2) by (auto simp: owns_def)
    qed
    then show ?thesis using rep_live [of d ?H c z] z by blast
  qed
  have zn: "z \<noteq> x" "z \<noteq> y" "x \<noteq> y" using z xn yn parts(2) by auto
  obtain kj where kj: "n_keys xn = ks1 @ ks2 @ kj" "length (ks1 @ ks2) + length kj = 2 * d - 1" "n_num xn = int (length (ks1 @ ks2))"
    using node_keys [OF xn(2)] node_num [OF xn(2)] by auto
  then obtain k0 kj' where k0: "kj = k0 # kj'" using len(2) by (cases kj) auto
  obtain cj where cj: "n_childrens xn = map bt_ptr cs1 @ y # map bt_ptr cs2 @ cj"
    "length cj = 6 * d - length ?cs" "length ?cs \<le> 2 * d" "length cs2 = length ks2" "n_leaf xn = 0"
    using node_subs [OF xn(2)] len(1) xn(2) by (auto simp: node_ok_def)
  then obtain c0 cj' where c0: "cj = c0 # cj'" using d by (cases cj) auto
  obtain yj where yj': "n_keys yn = (yk1 @ m # yk2) @ yj" "length (yk1 @ m # yk2) + length yj = 2 * d - 1"
    using node_keys [OF yn(2)] by blast
  then have "length yj = 0" using len(3,4) d(1) by (simp del: length_0_conv)
  then have yj: "n_keys yn = yk1 @ m # yk2" using yj' by simp
  let ?z0 = "\<lparr>n_keys = replicate (2 * d - 1) 0, n_childrens = replicate (6 * d) 0, n_num = 0, n_leaf = n_leaf yn\<rparr>"
  define zc where "zc = map bt_ptr yc2 @ replicate (6 * d - length yc2) 0"
  have zk: "copy_up (nat (int d - 1)) (replicate (2 * d - 1) 0) 0 (n_keys yn) (int d) = Some (yk2 @ replicate d 0)"
    using copy_up_parts [of "d - 1" yk2 0 "[]" "int d" "yk1 @ [m]" "replicate (d - 1) 0" "replicate d 0" "[]"] len d yj
    by (simp add: replicate_add [symmetric] nat_diff_distrib mult_2)
  have zc: "(if n_leaf yn = 0 then copy_up (nat (int d)) (n_childrens ?z0) 0 (n_childrens yn) (int d)
     else Some (n_childrens ?z0)) = Some zc"
  proof (cases "yc2 = []")
    case True
    then have "n_leaf yn = 1" using len(5) d yn(2) by (auto simp: node_ok_def)
    then show ?thesis using True by (simp add: zc_def)
  next
    case False
    then have l: "length yc1 = d" "length yc2 = d" "n_leaf yn = 0" using len(5) yn(2) by (auto simp: node_ok_def)
    obtain yj' where "n_childrens yn = map bt_ptr yc1 @ map bt_ptr yc2 @ yj'" using node_subs [OF yn(2)] False by auto
    then show ?thesis
      using copy_up_parts [of d "map bt_ptr yc2" 0 "[]" "int d" "map bt_ptr yc1" "replicate d 0" "replicate (5 * d) 0" yj'] l d
      by (simp add: replicate_add [symmetric] zc_def)
  qed
  have ok: "node_ok d \<lparr>n_keys = yk2 @ replicate d 0, n_childrens = zc, n_num = int d - 1, n_leaf = n_leaf yn\<rparr> yk2 (map bt_ptr yc2)"
    "node_ok d (yn\<lparr>n_num := int d - 1\<rparr>) yk1 (map bt_ptr yc1)"
    "node_ok d (xn\<lparr>n_keys := ks1 @ m # ks2 @ kj', n_childrens := map bt_ptr cs1 @ y # z # map bt_ptr cs2 @ cj', n_num := n_num xn + 1\<rparr>)
       (ks1 @ m # ks2) (map bt_ptr (cs1 @ Bt y yk1 yc1 # Bt z yk2 yc2 # cs2))"
    using len d yn(2) xn(2) kj k0 cj c0 yj by (auto simp: node_ok_def zc_def)
  let ?zn = "\<lparr>n_keys = yk2 @ replicate d 0, n_childrens = zc, n_num = int d - 1, n_leaf = n_leaf yn\<rparr>"
  let ?yn = "yn\<lparr>n_num := int d - 1\<rparr>"
  let ?xn = "xn\<lparr>n_keys := ks1 @ m # ks2 @ kj', n_childrens := map bt_ptr cs1 @ y # z # map bt_ptr cs2 @ cj', n_num := n_num xn + 1\<rparr>"
  let ?T = "put_node x ?xn (put_node y ?yn (put_node z ?zn (put_node z ?z0 T)))"
  have c: "shift_up (n_childrens xn) (n_num xn) (int (length ks1) + 1) =
      Some ((map bt_ptr cs1 @ [y]) @ hd (map bt_ptr cs2 @ [c0]) # map bt_ptr cs2 @ cj')"
    using shift_up_parts [of "n_num xn" "map bt_ptr cs1 @ [y]" "map bt_ptr cs2" "int (length ks1) + 1" c0 cj'] kj cj c0 len by simp
  have k: "shift_up (n_keys xn) (n_num xn - 1) (int (length ks1)) = Some (ks1 @ hd (ks2 @ [k0]) # ks2 @ kj')"
    using shift_up_parts [of "n_num xn - 1" ks1 ks2 "int (length ks1)" k0 kj'] kj k0 by simp
  have v: "aget (n_keys yn) (int d - 1) = Some m" using aget_append [of "int d - 1" yk1 m yk2] yj len d by simp
  have y: "aget (n_childrens xn) (int (length ks1)) = Some y" using aget_append [of "int (length ks1)" "map bt_ptr cs1"] cj len by simp
  have w: "aset ((map bt_ptr cs1 @ [y]) @ hd (map bt_ptr cs2 @ [c0]) # map bt_ptr cs2 @ cj') (int (length ks1) + 1) z =
      Some (map bt_ptr cs1 @ y # z # map bt_ptr cs2 @ cj')"
    "aset (ks1 @ hd (ks2 @ [k0]) # ks2 @ kj') (int (length ks1)) m = Some (ks1 @ m # ks2 @ kj')"
    using aset_append [of "int (length ks1) + 1" "map bt_ptr cs1 @ [y]"] aset_append [of "int (length ks1)" ks1] len by simp_all
  have "btree_split_child new T x (int (length ks1)) = Some ?T"
    using xn(1) yn(1) zn by (simp add: btree_split_child_def Let_def d(2) y create_node [of new T z d] z(1) zk zc c k v w
        del: append_assoc append.simps One_nat_def split del: if_split)
  moreover have "rep d (b_nodes ?T) (Bt x (ks1 @ m # ks2) (cs1 @ Bt y yk1 yc1 # Bt z yk2 yc2 # cs2))"
    using ok sub zn xn(3) yn(3) z(3) by (auto intro!: rep_upd)
  moreover have "distinct (ptrs (Bt x (ks1 @ m # ks2) (cs1 @ Bt y yk1 yc1 # Bt z yk2 yc2 # cs2)))"
  proof -
    define P1 P2 Q1 Q2 where "P1 = concat (map ptrs cs1)" and "P2 = concat (map ptrs cs2)"
      and "Q1 = concat (map ptrs yc1)" and "Q2 = concat (map ptrs yc2)"
    have "distinct (x # P1 @ y # Q1 @ Q2 @ P2)" using owns by (simp add: owns_def P1_def P2_def Q1_def Q2_def)
    moreover have "z \<notin> set P1 \<union> set P2 \<union> set Q1 \<union> set Q2" using sub by (auto simp: P1_def P2_def Q1_def Q2_def)
    ultimately have "distinct (x # P1 @ y # Q1 @ z # Q2 @ P2)" using zn by auto
    then show ?thesis by (simp add: P1_def P2_def Q1_def Q2_def)
  qed
  moreover have "dom (b_nodes ?T) = insert z (dom (b_nodes T))" using xn(1) yn(1) by auto
  ultimately show ?thesis using d(2) by (intro exI [of _ ?T]) (auto simp: owns_def)
qed

end
