(* ===== verification/B_Tree_Insert.thy ===== *)
theory B_Tree_Insert
  imports B_Tree_Inv "HOL-Library.Multiset"
begin

text \<open>
  Insertion into the B-tree: the keys stay sorted, the tree balanced, and only nodes of the tree and new ones
  change.
\<close>

section \<open>Order\<close>

lemma sorted_same: "sorted xs \<Longrightarrow> sorted ys \<Longrightarrow> mset xs = mset ys \<Longrightarrow> xs = (ys :: int list)"
  by (metis properties_for_sort sorted_sort_id)

lemma insort_parts:
  assumes s: "sorted (A @ C @ B)" and A: "\<forall>a \<in> set A. a \<le> k" and B: "\<forall>b \<in> set B. k \<le> b"
  shows "insort k (A @ C @ B) = A @ insort k C @ (B :: int list)"
  using s A B by (intro sorted_same) (auto simp: sorted_append sorted_insort set_insort_key)

lemma keys_before_le:
  assumes "sorted (keys_before cs ks @ xs)" "length cs = length ks" "\<forall>a \<in> set ks. a \<le> k" "a \<in> set (keys_before cs ks)"
  shows "a \<le> (k :: int)"
proof -
  have "a \<le> k" if ne: "ks \<noteq> []"
  proof -
    obtain ks' l where ks: "ks = ks' @ [l]" using ne by (cases ks rule: rev_cases) auto
    obtain cs' c where cs: "cs = cs' @ [c]" using ks assms(2) by (cases cs rule: rev_cases) auto
    have "keys_before cs ks = keys_before cs' ks' @ c @ [l]" using ks cs assms(2) by (simp add: keys_before_append)
    then have "a \<le> l" using assms(1,4) by (auto simp: sorted_append)
    then show ?thesis using assms(3) ks by force
  qed
  then show ?thesis using assms(2,4) by (cases ks) auto
qed

lemma keys_before_less:
  assumes "sorted (keys_before cs ks @ xs)" "length cs = length ks" "\<forall>a \<in> set ks. a < k" "a \<in> set (keys_before cs ks)"
  shows "a < (k :: int)"
  using keys_before_le [of cs ks xs "k - 1" a] assms by fastforce

lemma keys_after_ge:
  assumes "sorted (xs @ keys_after ks cs)" "length cs = length ks" "\<forall>b \<in> set (take 1 ks). k \<le> b" "b \<in> set (keys_after ks cs)"
  shows "k \<le> (b :: int)"
proof (cases ks)
  case (Cons k0 ks')
  then obtain c cs' where "cs = c # cs'" using assms(2) by (cases cs) auto
  then have "k0 \<le> b" using Cons assms(1,4) by (auto simp: sorted_append)
  then show ?thesis using assms(3) Cons by simp
qed (use assms in simp)

lemma sorted_keys_after: "length ks = length cs \<Longrightarrow> sorted (keys_after ks cs) \<Longrightarrow> sorted ks"
  by (induction ks cs rule: list_induct2) (auto simp: sorted_append set_keys_after)

lemma sorted_keys: "sorted (inord (Bt x ks cs)) \<Longrightarrow> cs = [] \<or> length cs = length ks + 1 \<Longrightarrow> sorted ks"
  by (cases cs) (auto simp: weave_def sorted_append dest: sorted_keys_after [rotated])

section \<open>Frames\<close>

definition touches :: "(nat \<rightharpoonup> btree_node) \<Rightarrow> (nat \<rightharpoonup> btree_node) \<Rightarrow> bt \<Rightarrow> bt \<Rightarrow> bool" where
  "touches H H' t t' \<longleftrightarrow> (\<forall>q. H q \<noteq> None \<longrightarrow> q \<notin> set (ptrs t) \<longrightarrow> H' q = H q) \<and>
     set (ptrs t') \<subseteq> set (ptrs t) \<union> {q. H q = None}"

lemma touches_trans:
  assumes f: "touches H H' t t'" and g: "touches H' H'' t' t''"
  shows "touches H H'' t t''"
proof -
  have a: "H' q = H q \<and> q \<notin> set (ptrs t')" if "H q \<noteq> None" "q \<notin> set (ptrs t)" for q
    using f that by (auto simp: touches_def)
  then have "H'' q = H q" if "H q \<noteq> None" "q \<notin> set (ptrs t)" for q using g that unfolding touches_def by metis
  moreover have "q \<in> set (ptrs t) \<union> {q. H q = None}" if "q \<in> set (ptrs t'')" for q
    using g that a unfolding touches_def by force
  ultimately show ?thesis unfolding touches_def by blast
qed

lemma touches_focus:
  "touches H H' c c' \<Longrightarrow> touches H H' (Bt x ks (cs1 @ c # cs2)) (Bt x ks' (cs1 @ c' # cs2))"
  by (auto simp: touches_def)

lemma refocus:
  assumes owns: "owns d H (Bt x ks (cs1 @ c # cs2))" and owns': "owns d H' c'" and p: "bt_ptr c' = bt_ptr c" and f: "touches H H' c c'"
  shows "owns d H' (Bt x ks (cs1 @ c' # cs2))"
proof -
  note parts = owns_parts [OF owns]
  obtain n where n: "H x = Some n" "x \<noteq> 0" "node_ok d n ks (map bt_ptr (cs1 @ c # cs2))" using owns by (auto simp: owns_def)
  have x: "H' x = H x" "x \<notin> set (ptrs c')" using f n(1) parts(2) by (auto simp: touches_def)
  have b: "rep d H' b \<and> x \<notin> set (ptrs b) \<and> set (ptrs b) \<inter> set (ptrs c') = {}" if m: "b \<in> set cs1 \<union> set cs2" for b
  proof -
    note q = parts(3) [OF m]
    have live: "H q \<noteq> None" if "q \<in> set (ptrs b)" for q using rep_live q that by blast
    then have "rep d H' b" using q f rep_frame [of d H b H'] unfolding touches_def by blast
    then show ?thesis using q live f unfolding touches_def by blast
  qed
  have "rep d H' (Bt x ks (cs1 @ c' # cs2))" using n x b owns' p by (auto simp: owns_def)
  moreover have "distinct (ptrs (Bt x ks (cs1 @ c' # cs2)))"
  proof -
    define P1 P2 where "P1 = concat (map ptrs cs1)" and "P2 = concat (map ptrs cs2)"
    have "distinct (x # P1 @ ptrs c @ P2)" using owns by (simp add: owns_def P1_def P2_def)
    moreover have "set P1 \<inter> set (ptrs c') = {}" "set P2 \<inter> set (ptrs c') = {}" using b by (auto simp: P1_def P2_def)
    ultimately have "distinct (x # P1 @ ptrs c' @ P2)" using x(2) owns' by (auto simp: owns_def)
    then show ?thesis by (simp add: P1_def P2_def)
  qed
  ultimately show ?thesis by (simp add: owns_def)
qed

section \<open>Insertion\<close>

text \<open>The allocator hands out an address that is not in use.\<close>

definition calloc_ok :: "allocator \<Rightarrow> bool" where
  "calloc_ok new \<longleftrightarrow> (\<forall>H. finite (dom H) \<longrightarrow> (\<exists>z. new H = Some z \<and> H z = None \<and> z \<noteq> 0))"

definition inserted :: "nat \<Rightarrow> nat \<Rightarrow> btree \<Rightarrow> bt \<Rightarrow> int \<Rightarrow> btree \<Rightarrow> bt \<Rightarrow> bool" where
  "inserted d h T t k T' t' \<longleftrightarrow> owns d (b_nodes T') t' \<and> bt_ptr t' = bt_ptr t \<and> balanced d h t' \<and>
     inord t' = insort k (inord t) \<and> length (bt_keys t) \<le> length (bt_keys t') \<and>
     b_root T' = b_root T \<and> b_t T' = b_t T \<and> finite (dom (b_nodes T')) \<and> touches (b_nodes T) (b_nodes T') t t'"

lemma insert_leaf:
  assumes owns: "owns d (b_nodes T) t" and bal: "balanced d 0 t" and len: "length (bt_keys t) < 2 * d - 1"
    and s: "sorted (inord t)" and fin: "finite (dom (b_nodes T))"
  shows "\<exists>T' t'. btree_insert_nonfull new T (bt_ptr t) k = Some T' \<and> inserted d 0 T t k T' t'"
proof -
  obtain x ks where t: "t = Bt x ks []" using bal by (cases t) auto
  define as bs where "as = takeWhile (\<lambda>a. a \<le> k) ks" and "bs = dropWhile (\<lambda>a. a \<le> k) ks"
  have ks: "ks = as @ bs" by (simp add: as_def bs_def)
  have as: "\<forall>a \<in> set as. a \<le> k" by (auto simp: as_def dest: set_takeWhileD)
  have bs: "\<forall>b \<in> set bs. k < b"
  proof (cases bs)
    case (Cons b bs')
    then have "k < b" using hd_dropWhile [of "\<lambda>a. a \<le> k" ks] by (auto simp: bs_def)
    then show ?thesis using Cons s t ks by (auto simp: sorted_append)
  qed simp
  obtain xn where xn: "b_nodes T x = Some xn" "node_ok d xn ks []" "x \<noteq> 0" using owns t by (auto simp: owns_def)
  obtain kj where kj: "n_keys xn = as @ bs @ kj" "length ks + length kj = 2 * d - 1" using node_keys [OF xn(2)] ks by auto
  then obtain k0 kj' where k0: "kj = k0 # kj'" using len t by (cases kj) auto
  have num: "n_num xn = int (length as + length bs)" "n_leaf xn = 1" using xn(2) ks by (auto simp: node_ok_def)
  let ?xn = "xn\<lparr>n_keys := as @ k # bs @ kj', n_num := n_num xn + 1\<rparr>"
  let ?T = "put_node x ?xn T"
  have "shift_larger (n_keys xn) (n_num xn - 1) k = Some (int (length as) - 1, as @ hd (bs @ [k0]) # bs @ kj')"
    using shift_larger_parts [OF as bs] kj k0 num by simp
  then have "btree_insert_nonfull new T (bt_ptr t) k = Some ?T"
    using xn num by (subst btree_insert_nonfull.simps) (simp add: t aset_append)
  moreover have "node_ok d ?xn (as @ k # bs) []" using xn(2) ks kj k0 num by (auto simp: node_ok_def)
  then have "owns d (b_nodes ?T) (Bt x (as @ k # bs) [])" using xn(3) by (simp add: owns_def)
  moreover have "insort k ks = as @ k # bs" using insort_parts [of as "[]" bs k] s as bs by (simp add: t ks less_imp_le)
  ultimately show ?thesis using len ks fin
    by (intro exI [of _ ?T] exI [of _ "Bt x (as @ k # bs) []"]) (auto simp: inserted_def t touches_def)
qed


lemma insert_below:
  assumes IH: "\<And>T t. b_t T = int d \<Longrightarrow> owns d (b_nodes T) t \<Longrightarrow> balanced d h t \<Longrightarrow> length (bt_keys t) < 2 * d - 1 \<Longrightarrow>
      sorted (inord t) \<Longrightarrow> finite (dom (b_nodes T)) \<Longrightarrow>
      \<exists>T' t'. btree_insert_nonfull new T (bt_ptr t) k = Some T' \<and> inserted d h T t k T' t'"
    and T: "b_t T = int d" "owns d (b_nodes T) (Bt x (ks1 @ ks2) (cs1 @ c # cs2))" "balanced d (Suc h) (Bt x (ks1 @ ks2) (cs1 @ c # cs2))"
    and len: "length ks1 = length cs1" "length (bt_keys c) < 2 * d - 1"
    and s: "sorted (inord (Bt x (ks1 @ ks2) (cs1 @ c # cs2)))" and fin: "finite (dom (b_nodes T))"
    and k: "\<forall>a \<in> set ks1. a \<le> k" "\<forall>b \<in> set (take 1 ks2). k \<le> b"
  shows "\<exists>T' c'. btree_insert_nonfull new T (bt_ptr c) k = Some T' \<and>
    inserted d (Suc h) T (Bt x (ks1 @ ks2) (cs1 @ c # cs2)) k T' (Bt x (ks1 @ ks2) (cs1 @ c' # cs2))"
proof -
  let ?A = "keys_before (map inord cs1) ks1" and ?B = "keys_after ks2 (map inord cs2)"
  have io: "inord (Bt x (ks1 @ ks2) (cs1 @ c # cs2)) = ?A @ inord c @ ?B" for c
    using weave_parts [of ks1 "map inord cs1" ks2 "inord c" "map inord cs2"] len by simp
  have sc: "sorted (?A @ inord c @ ?B)" using s io by simp
  obtain T' c' where ins: "btree_insert_nonfull new T (bt_ptr c) k = Some T'" "inserted d h T c k T' c'"
    using IH [of T c] T owns_parts(1) [OF T(2)] len(2) sc fin by (auto simp: sorted_append)
  have "owns d (b_nodes T') (Bt x (ks1 @ ks2) (cs1 @ c' # cs2))"
    using refocus [OF T(2)] ins(2) by (auto simp: inserted_def)
  moreover have "touches (b_nodes T) (b_nodes T') (Bt x (ks1 @ ks2) (cs1 @ c # cs2)) (Bt x (ks1 @ ks2) (cs1 @ c' # cs2))"
    using ins(2) touches_focus by (auto simp: inserted_def)
  moreover have "insort k (?A @ inord c @ ?B) = ?A @ insort k (inord c) @ ?B"
  proof (rule insort_parts [OF sc])
    show "\<forall>a \<in> set ?A. a \<le> k" using keys_before_le [of "map inord cs1" ks1 "inord c @ ?B" k] sc len k by auto
    have "length cs2 = length ks2" using T(3) len by simp
    then show "\<forall>b \<in> set ?B. k \<le> b" using keys_after_ge [of "?A @ inord c" ks2 "map inord cs2" k] sc k by auto
  qed
  ultimately show ?thesis using ins T(3) io [of c] io [of c']
    by (intro exI [of _ T'] exI [of _ c']) (auto simp: inserted_def simp del: inord.simps)
qed


lemma weave_halves:
  assumes "length ks1 + 1 = length cs1 \<and> length ks2 + 1 = length cs2 \<or> cs1 = [] \<and> cs2 = []"
  shows "weave (ks1 @ m # ks2) (cs1 @ cs2) = weave ks1 cs1 @ m # weave ks2 cs2"
  using assms by (cases cs1; cases cs2) (auto simp: weave_def keys_after_append)

lemma full_parts:
  assumes "balanced d h c" and "length (bt_keys c) = 2 * d - 1" and "2 \<le> d"
  obtains y yk1 m yk2 yc1 yc2 where "c = Bt y (yk1 @ m # yk2) (yc1 @ yc2)" "length yk1 = d - 1" "length yk2 = d - 1"
    "yc1 = [] \<and> yc2 = [] \<or> length yc1 = d \<and> length yc2 = d"
    "\<And>y. balanced d h (Bt y yk1 yc1)" "\<And>z. balanced d h (Bt z yk2 yc2)"
    "\<And>y z. inord c = inord (Bt y yk1 yc1) @ m # inord (Bt z yk2 yc2)"
proof -
  obtain y ks cs where c: "c = Bt y ks cs" by (cases c)
  define k1 m k2 where "k1 = take (d - 1) ks" and "m = ks ! (d - 1)" and "k2 = drop d ks"
  have ks: "ks = k1 @ m # k2" using assms(2,3) c id_take_nth_drop [of "d - 1" ks] by (simp add: k1_def m_def k2_def)
  have l: "length k1 = d - 1" "length k2 = d - 1" using assms(2,3) c by (auto simp: k1_def k2_def)
  show ?thesis
  proof (cases h)
    case 0
    then have "cs = []" using assms(1) c by simp
    then show ?thesis using that [of y k1 m k2 "[]" "[]"] l ks assms c 0 by simp
  next
    case (Suc h')
    define c1 c2 where "c1 = take d cs" and "c2 = drop d cs"
    have cs: "cs = c1 @ c2" by (simp add: c1_def c2_def)
    have lc: "length c1 = d" "length c2 = d" using assms c Suc by (auto simp: c1_def c2_def)
    have "inord c = inord (Bt y k1 c1) @ m # inord (Bt z k2 c2)" for y z
      using weave_halves [of k1 "map inord c1" k2 "map inord c2" m] lc l assms(3) by (simp add: c cs ks)
    then show ?thesis using that [of y k1 m k2 c1 c2] l lc assms c cs ks Suc by auto
  qed
qed

lemma node_at:
  assumes "owns d H (Bt x ks (cs1 @ c # cs2))"
  obtains n where "H x = Some n" "n_leaf n = 0" "n_num n = int (length ks)" "node_ok d n ks (map bt_ptr (cs1 @ c # cs2))"
    "aget (n_childrens n) (int (length cs1)) = Some (bt_ptr c)"
    "\<And>ks1 m ks2. ks = ks1 @ m # ks2 \<Longrightarrow> aget (n_keys n) (int (length ks1)) = Some m"
proof -
  obtain n where n: "H x = Some n" "node_ok d n ks (map bt_ptr (cs1 @ c # cs2))" using assms by (auto simp: owns_def)
  obtain kj where "n_keys n = ks @ kj" using node_keys [OF n(2)] by auto
  then have "\<And>ks1 m ks2. ks = ks1 @ m # ks2 \<Longrightarrow> aget (n_keys n) (int (length ks1)) = Some m" by (simp add: aget_append)
  moreover obtain cj where "n_childrens n = map bt_ptr cs1 @ bt_ptr c # map bt_ptr cs2 @ cj" using node_subs [OF n(2)] by auto
  then have "aget (n_childrens n) (int (length cs1)) = Some (bt_ptr c)" by (simp add: aget_append)
  ultimately show ?thesis using that n by (auto simp: node_ok_def)
qed


lemma child_at: "owns d H (Bt x ks (cs1 @ c # cs2)) \<Longrightarrow> H x = Some n \<Longrightarrow> i = int (length cs1) \<Longrightarrow>
  aget (n_childrens n) i = Some (bt_ptr c)"
  by (erule node_at) simp

lemma key_at: "owns d H (Bt x (ks1 @ m # ks2) cs) \<Longrightarrow> H x = Some n \<Longrightarrow> i = int (length ks1) \<Longrightarrow> aget (n_keys n) i = Some m"
  by (auto simp: owns_def node_ok_def aget_append)

text \<open>A full child of a node that is not full can be split.\<close>

lemma split_step:
  assumes new: "calloc_ok new" and d: "2 \<le> d" "b_t T = int d"
    and owns: "owns d (b_nodes T) (Bt x (ks1 @ ks2) (cs1 @ c # cs2))" and fin: "finite (dom (b_nodes T))"
    and bal: "balanced d h c" "length (bt_keys c) = 2 * d - 1" and len: "length ks1 = length cs1" "length (ks1 @ ks2) < 2 * d - 1"
  obtains T' m y z where "btree_split_child new T x (int (length ks1)) = Some T'" "b_root T' = b_root T" "b_t T' = int d"
    "owns d (b_nodes T') (Bt x (ks1 @ m # ks2) (cs1 @ y # z # cs2))" "finite (dom (b_nodes T'))"
    "inord c = inord y @ m # inord z" "balanced d h y" "balanced d h z" "length (bt_keys y) = d - 1" "length (bt_keys z) = d - 1"
    "touches (b_nodes T) (b_nodes T') (Bt x (ks1 @ ks2) (cs1 @ c # cs2)) (Bt x (ks1 @ m # ks2) (cs1 @ y # z # cs2))"
proof -
  obtain y yk1 m yk2 yc1 yc2 where c: "c = Bt y (yk1 @ m # yk2) (yc1 @ yc2)" "length yk1 = d - 1" "length yk2 = d - 1"
    "yc1 = [] \<and> yc2 = [] \<or> length yc1 = d \<and> length yc2 = d"
    "\<And>y. balanced d h (Bt y yk1 yc1)" "\<And>z. balanced d h (Bt z yk2 yc2)"
    "\<And>y z. inord c = inord (Bt y yk1 yc1) @ m # inord (Bt z yk2 yc2)"
    using full_parts [OF bal d(1)] by metis
  obtain z where z: "new (b_nodes T) = Some z" "b_nodes T z = None" "z \<noteq> 0" using new fin unfolding calloc_ok_def by blast
  obtain T' where T': "btree_split_child new T x (int (length ks1)) = Some T'" "b_root T' = b_root T" "b_t T' = int d"
    "owns d (b_nodes T') (Bt x (ks1 @ m # ks2) (cs1 @ Bt y yk1 yc1 # Bt z yk2 yc2 # cs2))"
    "\<forall>q. q \<notin> {x, y, z} \<longrightarrow> b_nodes T' q = b_nodes T q" "dom (b_nodes T') = insert z (dom (b_nodes T))"
    using split_child_ok [of d T x ks1 ks2 cs1 y yk1 m yk2 yc1 yc2 cs2 new z] d owns len c(1-4) z by auto
  have "touches (b_nodes T) (b_nodes T') (Bt x (ks1 @ ks2) (cs1 @ c # cs2))
      (Bt x (ks1 @ m # ks2) (cs1 @ Bt y yk1 yc1 # Bt z yk2 yc2 # cs2))"
    unfolding touches_def
  proof
    show "\<forall>q. b_nodes T q \<noteq> None \<longrightarrow> q \<notin> set (ptrs (Bt x (ks1 @ ks2) (cs1 @ c # cs2))) \<longrightarrow> b_nodes T' q = b_nodes T q"
      using T'(5) z(2) c(1) by auto
    show "set (ptrs (Bt x (ks1 @ m # ks2) (cs1 @ Bt y yk1 yc1 # Bt z yk2 yc2 # cs2)))
        \<subseteq> set (ptrs (Bt x (ks1 @ ks2) (cs1 @ c # cs2))) \<union> {q. b_nodes T q = None}"
      using c(1) z(2) by auto
  qed
  then show ?thesis using that [OF T'(1-4)] c T'(6) fin by (metis bt.sel(2) finite_insert)
qed

lemma insert_nonfull_ok:
  "calloc_ok new \<Longrightarrow> 2 \<le> d \<Longrightarrow> b_t T = int d \<Longrightarrow> owns d (b_nodes T) t \<Longrightarrow> balanced d h t \<Longrightarrow> length (bt_keys t) < 2 * d - 1 \<Longrightarrow>
   sorted (inord t) \<Longrightarrow> finite (dom (b_nodes T)) \<Longrightarrow>
   \<exists>T' t'. btree_insert_nonfull new T (bt_ptr t) k = Some T' \<and> inserted d h T t k T' t'"
proof (induction h arbitrary: T t)
  case 0
  then show ?case using insert_leaf by blast
next
  case (Suc h)
  note IH = Suc.IH [OF Suc.prems(1,2)]
  obtain x ks cs where t: "t = Bt x ks cs" by (cases t)
  define ks1 ks2 where "ks1 = takeWhile (\<lambda>a. a \<le> k) ks" and "ks2 = dropWhile (\<lambda>a. a \<le> k) ks"
  have ks: "ks = ks1 @ ks2" by (simp add: ks1_def ks2_def)
  have "length ks1 < length cs" using Suc.prems(5) t ks by simp
  then obtain cs1 c cs2 where cs: "cs = cs1 @ c # cs2" "length ks1 = length cs1" by (metis id_take_nth_drop length_take min.absorb4)
  note t = t [unfolded ks cs]
  have k1: "\<forall>a \<in> set ks1. a \<le> k" by (auto simp: ks1_def dest: set_takeWhileD)
  have k2: "\<forall>b \<in> set (take 1 ks2). k < b"
    using hd_dropWhile [of "\<lambda>a. a \<le> k" ks] by (cases ks2) (auto simp: ks2_def [symmetric])
  obtain xn where xn: "b_nodes T x = Some xn" "n_leaf xn = 0" "n_num xn = int (length (ks1 @ ks2))"
    "node_ok d xn (ks1 @ ks2) (map bt_ptr (cs1 @ c # cs2))" "aget (n_childrens xn) (int (length cs1)) = Some (bt_ptr c)"
    using node_at Suc.prems(4) t by metis
  obtain kj where kj: "n_keys xn = ks1 @ ks2 @ kj" using node_keys [OF xn(4)] by auto
  have sk: "sorted ks" using sorted_keys [of x "ks1 @ ks2" "cs1 @ c # cs2"] Suc.prems(5,7) t ks by simp
  have k2': "\<forall>b \<in> set ks2. k < b" using k2 sk ks by (cases ks2) (auto simp: sorted_append)
  have i: "skip_larger (n_keys xn) (n_num xn - 1) k = Some (int (length ks1) - 1)"
    using skip_larger_parts [OF k1 k2', of "n_num xn - 1" kj] xn(3) kj by simp
  have c: "owns d (b_nodes T) c" "balanced d h c" "length (bt_keys c) \<le> 2 * d - 1"
    using Suc.prems(4,5) t owns_parts(1) by (auto elim: balanced.elims)
  show ?case
  proof (cases "length (bt_keys c) = 2 * d - 1")
    case False
    obtain T' c' where r: "btree_insert_nonfull new T (bt_ptr c) k = Some T'" "inserted d (Suc h) T t k T' (Bt x (ks1 @ ks2) (cs1 @ c' # cs2))"
      using insert_below [OF IH, of T x ks1 ks2 cs1 c cs2] Suc.prems(3-8) t cs(2) c(3) False k1 k2 by fastforce
    obtain cn where cn: "b_nodes T (bt_ptr c) = Some cn" "n_num cn = int (length (bt_keys c))"
      using c(1) by (cases c) (auto simp: owns_def node_ok_def)
    have "n_num cn \<noteq> 2 * b_t T - 1" using cn(2) False Suc.prems(2,3) by simp
    then have "btree_insert_nonfull new T x k = btree_insert_nonfull new T (bt_ptr c) k"
      using xn cn(1) i cs(2) by (subst btree_insert_nonfull.simps) simp
    then show ?thesis using r t by auto
  next
    case True
    obtain T1 m y z where T1: "btree_split_child new T x (int (length ks1)) = Some T1" "b_root T1 = b_root T" "b_t T1 = int d"
      "owns d (b_nodes T1) (Bt x (ks1 @ m # ks2) (cs1 @ y # z # cs2))" "finite (dom (b_nodes T1))"
      "inord c = inord y @ m # inord z" "balanced d h y" "balanced d h z" "length (bt_keys y) = d - 1" "length (bt_keys z) = d - 1"
      "touches (b_nodes T) (b_nodes T1) (Bt x (ks1 @ ks2) (cs1 @ c # cs2)) (Bt x (ks1 @ m # ks2) (cs1 @ y # z # cs2))"
    proof (rule split_step [OF Suc.prems(1-3) _ Suc.prems(8) c(2) True cs(2)])
      show "owns d (b_nodes T) (Bt x (ks1 @ ks2) (cs1 @ c # cs2))" using Suc.prems(4) t by simp
      show "length (ks1 @ ks2) < 2 * d - 1" using Suc.prems(6) t by simp
    qed
    let ?t1 = "Bt x (ks1 @ m # ks2) (cs1 @ y # z # cs2)"
    have bal: "balanced d (Suc h) ?t1" using Suc.prems(5,6) t T1(7-10) by auto
    have io: "inord ?t1 = inord t"
      using weave_parts [of ks1 "map inord cs1" ks2 "inord c" "map inord cs2"]
        weave_parts [of ks1 "map inord cs1" "m # ks2" "inord y" "inord z # map inord cs2"] cs(2) t T1(6) by simp
    have small: "length (bt_keys y) < 2 * d - 1" "length (bt_keys z) < 2 * d - 1" using T1(9,10) Suc.prems(2) by simp_all
    have lift: "inserted d (Suc h) T t k T' t'" if I: "inserted d (Suc h) T1 ?t1 k T' t'" for T' t'
      using I io t T1(2,3,11) Suc.prems(3) by (auto simp: inserted_def intro: touches_trans)
    obtain cn where cn: "b_nodes T (bt_ptr c) = Some cn" "n_num cn = int (length (bt_keys c))"
      using c(1) by (cases c) (auto simp: owns_def node_ok_def)
    have full: "n_num cn = 2 * b_t T - 1" using cn(2) True Suc.prems(2,3) by simp
    obtain n where n: "b_nodes T1 x = Some n" "aget (n_keys n) (int (length ks1)) = Some m"
      "aget (n_childrens n) (int (length cs1)) = Some (bt_ptr y)"
      using node_at [OF T1(4)] by metis
    have zc: "aget (n_childrens n) (int (length cs1) + 1) = Some (bt_ptr z)"
      using node_at [of d "b_nodes T1" x "ks1 @ m # ks2" "cs1 @ [y]" z cs2] T1(4) n(1) by (auto simp: add.commute)
    have run: "btree_insert_nonfull new T x k = btree_insert_nonfull new T1 (bt_ptr (if k > m then z else y)) k"
      using xn cn(1) full i cs(2) T1(1) n zc by (subst btree_insert_nonfull.simps) simp
    show ?thesis
    proof (cases "k > m")
      case True
      obtain T' z' where r: "btree_insert_nonfull new T1 (bt_ptr z) k = Some T'"
        "inserted d (Suc h) T1 ?t1 k T' (Bt x (ks1 @ m # ks2) (cs1 @ y # z' # cs2))"
        using insert_below [OF IH, of T1 x "ks1 @ [m]" ks2 "cs1 @ [y]" z cs2] T1(3-5) bal cs(2) small(2) io Suc.prems(7) k1 k2 True t
        by (fastforce simp del: inord.simps balanced.simps)
      then show ?thesis using run lift True t by auto
    next
      case False
      obtain T' y' where r: "btree_insert_nonfull new T1 (bt_ptr y) k = Some T'"
        "inserted d (Suc h) T1 ?t1 k T' (Bt x (ks1 @ m # ks2) (cs1 @ y' # z # cs2))"
        using insert_below [OF IH, of T1 x ks1 "m # ks2" cs1 y "z # cs2"] T1(3-5) bal cs(2) small(1) io Suc.prems(7) k1 k2 False t
        by (fastforce simp del: inord.simps balanced.simps)
      then show ?thesis using run lift False t by auto
    qed
  qed
qed


section \<open>The tree and its keys\<close>

definition btree_wf :: "nat \<Rightarrow> nat \<Rightarrow> btree \<Rightarrow> bt \<Rightarrow> bool" where
  "btree_wf d h T t \<longleftrightarrow> 2 \<le> d \<and> b_t T = int d \<and> b_root T = bt_ptr t \<and> owns d (b_nodes T) t \<and> balanced d h t \<and>
     (h \<noteq> 0 \<longrightarrow> bt_keys t \<noteq> []) \<and> sorted (inord t) \<and> finite (dom (b_nodes T))"

text \<open>The tree is a balanced search tree with these keys, in order.\<close>

definition btree_holds :: "nat \<Rightarrow> btree \<Rightarrow> int list \<Rightarrow> bool" where
  "btree_holds d T xs \<longleftrightarrow> (\<exists>h t. btree_wf d h T t \<and> inord t = xs)"

lemma root_node:
  assumes "owns d H t"
  obtains n where "H (bt_ptr t) = Some n" "n_num n = int (length (bt_keys t))" "bt_ptr t \<noteq> 0"
  using assms by (cases t) (auto simp: owns_def node_ok_def)

lemma new_root:
  assumes owns: "owns d (b_nodes T) t" and d: "2 \<le> d" and p: "b_nodes T p = None" "p \<noteq> 0"
    and n: "n = \<lparr>n_keys = replicate (2 * d - 1) 0, n_childrens = (replicate (6 * d) 0)[0 := bt_ptr t], n_num = 0, n_leaf = 0\<rparr>"
  shows "owns d ((b_nodes T)(p \<mapsto> n)) (Bt p [] [t])"
proof -
  have np: "p \<notin> set (ptrs t)" using owns p rep_live unfolding owns_def by blast
  have "6 * d = Suc (6 * d - 1)" using d by simp
  then have "(replicate (6 * d) 0)[0 := bt_ptr t] = bt_ptr t # replicate (6 * d - 1) 0"
    by (metis list_update_code(2) replicate_Suc)
  then have "node_ok d n [] [bt_ptr t]" using d by (auto simp: n node_ok_def)
  then show ?thesis using owns np p rep_upd by (auto simp: owns_def)
qed

lemma insert_holds:
  assumes new: "calloc_ok new" and holds: "btree_holds d T xs"
  shows "\<exists>T'. btree_insert new T k = Some T' \<and> btree_holds d T' (insort k xs)"
proof -
  obtain h t where wf: "2 \<le> d" "b_t T = int d" "b_root T = bt_ptr t" "owns d (b_nodes T) t" "balanced d h t"
    "h \<noteq> 0 \<longrightarrow> bt_keys t \<noteq> []" "sorted (inord t)" "finite (dom (b_nodes T))" "inord t = xs"
    using holds by (auto simp: btree_holds_def btree_wf_def)
  obtain rn where rn: "b_nodes T (bt_ptr t) = Some rn" "n_num rn = int (length (bt_keys t))" "bt_ptr t \<noteq> 0"
    using root_node [OF wf(4)] by metis
  have short: "length (bt_keys t) \<le> 2 * d - 1" using wf(5) by (auto elim: balanced.elims)
  show ?thesis
  proof (cases "length (bt_keys t) = 2 * d - 1")
    case False
    then have "length (bt_keys t) < 2 * d - 1" using short by simp
    from insert_nonfull_ok [OF new wf(1,2,4,5) this wf(7,8)] obtain T' t'
      where r: "btree_insert_nonfull new T (bt_ptr t) k = Some T'" "inserted d h T t k T' t'" by blast
    have "n_num rn \<noteq> 2 * b_t T - 1" using rn(2) False wf(1,2) by simp
    then have "btree_insert new T k = Some T'" using r(1) rn(1) wf(3) by (simp add: btree_insert_def Let_def)
    moreover have "btree_wf d h T' t'"
      using r(2) wf by (auto simp: inserted_def btree_wf_def sorted_insort)
    ultimately show ?thesis using r(2) wf(9) by (auto simp: btree_holds_def inserted_def)
  next
    case True
    obtain p where p: "new (b_nodes T) = Some p" "b_nodes T p = None" "p \<noteq> 0" using new wf(8) unfolding calloc_ok_def by blast
    let ?fresh = "\<lparr>n_keys = replicate (2 * d - 1) 0, n_childrens = replicate (6 * d) 0, n_num = 0, n_leaf = 0\<rparr>"
    let ?n = "?fresh\<lparr>n_childrens := (replicate (6 * d) 0)[0 := bt_ptr t]\<rparr>"
    define T3 where "T3 = put_node p ?n (put_node p ?fresh T\<lparr>b_root := p\<rparr>)"
    have T3: "b_nodes T3 = (b_nodes T)(p \<mapsto> ?n)" "b_root T3 = p" "b_t T3 = int d" by (simp_all add: T3_def put_node_def wf(2))
    have own3: "owns d (b_nodes T3) (Bt p ([] @ []) ([] @ t # []))"
      using new_root [OF wf(4,1) p(2,3)] by (simp add: T3(1))
    have fin3: "finite (dom (b_nodes T3))" using wf(8) by (simp add: T3(1))
    obtain T4 m y z where T4: "btree_split_child new T3 p (int (length ([] :: int list))) = Some T4" "b_root T4 = b_root T3" "b_t T4 = int d"
      "owns d (b_nodes T4) (Bt p ([] @ m # []) ([] @ y # z # []))" "finite (dom (b_nodes T4))"
      "inord t = inord y @ m # inord z" "balanced d h y" "balanced d h z" "length (bt_keys y) = d - 1" "length (bt_keys z) = d - 1"
      "touches (b_nodes T3) (b_nodes T4) (Bt p ([] @ []) ([] @ t # [])) (Bt p ([] @ m # []) ([] @ y # z # []))"
      by (rule split_step [OF new wf(1) T3(3) own3 fin3 wf(5) True]) (use wf(1) in auto)
    have bal: "balanced d (Suc h) (Bt p [m] [y, z])" using T4(7-10) wf(1) by simp
    have io: "inord (Bt p [m] [y, z]) = xs" using T4(6) wf(9) by (simp add: weave_def)
    have "\<exists>T' t'. btree_insert_nonfull new T4 (bt_ptr (if m < k then z else y)) k = Some T' \<and>
        inserted d (Suc h) T4 (Bt p [m] [y, z]) k T' t'"
    proof (cases "m < k")
      case True
      have "\<exists>T' c'. btree_insert_nonfull new T4 (bt_ptr z) k = Some T' \<and>
          inserted d (Suc h) T4 (Bt p ([m] @ []) ([y] @ z # [])) k T' (Bt p ([m] @ []) ([y] @ c' # []))"
        by (rule insert_below [OF insert_nonfull_ok [OF new wf(1), where h = h and k = k]])
          (use T4(3-5,10) bal io wf(1,7,9) True in \<open>simp_all del: inord.simps balanced.simps\<close>)
      then show ?thesis using True by auto
    next
      case False
      have "\<exists>T' c'. btree_insert_nonfull new T4 (bt_ptr y) k = Some T' \<and>
          inserted d (Suc h) T4 (Bt p ([] @ [m]) ([] @ y # [z])) k T' (Bt p ([] @ [m]) ([] @ c' # [z]))"
        by (rule insert_below [OF insert_nonfull_ok [OF new wf(1), where h = h and k = k]])
          (use T4(3-5,9) bal io wf(1,7,9) False in \<open>simp_all del: inord.simps balanced.simps\<close>)
      then show ?thesis using False by auto
    qed
    then obtain T' t' where r: "btree_insert_nonfull new T4 (bt_ptr (if m < k then z else y)) k = Some T'"
        "inserted d (Suc h) T4 (Bt p [m] [y, z]) k T' t'" by blast
    obtain n where n: "b_nodes T4 p = Some n" using T4(4) by (auto simp: owns_def)
    have at: "aget (n_keys n) 0 = Some m" "aget (n_childrens n) 0 = Some (bt_ptr y)" "aget (n_childrens n) 1 = Some (bt_ptr z)"
      using key_at [of d "b_nodes T4" p "[]" m "[]" _ n 0] child_at [of d "b_nodes T4" p "[m]" "[]" y "[z]" n 0]
        child_at [of d "b_nodes T4" p "[m]" "[y]" z "[]" n 1] T4(4) n by auto
    have "n_num rn = 2 * b_t T - 1" using rn(2) True wf(1,2) by simp
    moreover have "btree_create_node new (b_t T) 0 T = Some (p, put_node p ?fresh T)" using create_node [of new T p d 0] p(1) wf(2) by simp
    moreover have "aset (n_childrens ?fresh) 0 (bt_ptr t) = Some (n_childrens ?n)" using wf(1) by (simp add: aset_def)
    moreover have "put_node p ?n ((put_node p ?fresh T)\<lparr>b_root := p\<rparr>) = T3" by (simp add: T3_def put_node_def)
    ultimately have "btree_insert new T k = Some T'"
      using rn(1) wf(3) T4(1) n at r(1) by (simp add: btree_insert_def Let_def split: if_splits)
    moreover have "btree_wf d (Suc h) T' t'"
      using r(2) wf T4(2,3) T3(2) io by (auto simp: inserted_def btree_wf_def sorted_insort)
    ultimately show ?thesis using r(2) io unfolding btree_holds_def inserted_def by metis
  qed
qed

end
