(* ===== verification/B_Tree_Delete.thy ===== *)
theory B_Tree_Delete
  imports B_Tree_Insert
begin

text \<open>
  Deletion of a key that lies in a leaf: merging and borrowing keep the tree balanced and its keys in order.
\<close>

section \<open>Two neighbours\<close>

lemma two_parts:
  assumes owns: "owns d H (Bt x ks (cs1 @ Bt a ak ac # Bt b bk bc # cs2))"
  shows "distinct [x, a, b]"
    "\<And>c. c \<in> set cs1 \<union> set cs2 \<union> set ac \<union> set bc \<Longrightarrow> rep d H c \<and> set (ptrs c) \<inter> {x, a, b} = {}"
proof -
  show "distinct [x, a, b]" using owns by (simp add: owns_def)
  fix c assume c: "c \<in> set cs1 \<union> set cs2 \<union> set ac \<union> set bc"
  note A = owns_parts [OF owns]
  have owns': "owns d H (Bt x ks ((cs1 @ [Bt a ak ac]) @ Bt b bk bc # cs2))" using owns by simp
  note B = owns_parts [OF owns']
  consider "c \<in> set cs1 \<union> set cs2" | "c \<in> set ac" | "c \<in> set bc" using c by blast
  then show "rep d H c \<and> set (ptrs c) \<inter> {x, a, b} = {}"
  proof cases
    case 1
    then show ?thesis using A(3) [of c] B(3) [of c] by auto
  next
    case 2
    then show ?thesis using A(1,2) B(3) [of "Bt a ak ac"] by (auto simp: owns_def)
  next
    case 3
    then show ?thesis using B(1,2) A(3) [of "Bt b bk bc"] by (auto simp: owns_def)
  qed
qed

lemma two_changed:
  assumes owns: "owns d H (Bt x ks (cs1 @ Bt a ak ac # Bt b bk bc # cs2))"
    and x: "H' x = Some n" "node_ok d n ks' (map bt_ptr cs1 @ a # b # map bt_ptr cs2)"
    and a: "H' a = Some na" "node_ok d na ak' (map bt_ptr ac')"
    and b: "H' b = Some nb" "node_ok d nb bk' (map bt_ptr bc')"
    and same: "ac' @ bc' = ac @ bc" "\<And>q. q \<notin> {x, a, b} \<Longrightarrow> H' q = H q"
  shows "owns d H' (Bt x ks' (cs1 @ Bt a ak' ac' # Bt b bk' bc' # cs2)) \<and>
    touches H H' (Bt x ks (cs1 @ Bt a ak ac # Bt b bk bc # cs2)) (Bt x ks' (cs1 @ Bt a ak' ac' # Bt b bk' bc' # cs2))"
proof -
  note P = two_parts [OF owns]
  have sub: "set ac' \<union> set bc' = set ac \<union> set bc" using same(1) by (metis set_append)
  have live: "x \<noteq> 0" "a \<noteq> 0" "b \<noteq> 0" using owns by (auto simp: owns_def)
  have "rep d H' c" if "c \<in> set cs1 \<union> set cs2 \<union> set ac' \<union> set bc'" for c
    using P(2) [of c] that sub same(2) by (intro rep_frame [of d H c H']) blast+
  then have "rep d H' (Bt x ks' (cs1 @ Bt a ak' ac' # Bt b bk' bc' # cs2))" using x a b live by auto
  moreover define P1 P2 Q1 Q2 Q1' Q2' where "P1 = concat (map ptrs cs1)" and "P2 = concat (map ptrs cs2)"
    and "Q1 = concat (map ptrs ac)" and "Q2 = concat (map ptrs bc)"
    and "Q1' = concat (map ptrs ac')" and "Q2' = concat (map ptrs bc')"
  have Q: "Q1' @ Q2' = Q1 @ Q2" using same(1) by (simp add: Q1_def Q2_def Q1'_def Q2'_def flip: concat_append map_append)
  then have Qs: "set Q1' \<union> set Q2' = set Q1 \<union> set Q2" "distinct (Q1' @ Q2') = distinct (Q1 @ Q2)" by (metis set_append)+
  have "distinct (x # P1 @ (a # Q1) @ (b # Q2) @ P2)" using owns by (simp add: owns_def P1_def P2_def Q1_def Q2_def)
  then have "distinct (x # P1 @ (a # Q1') @ (b # Q2') @ P2)" using Qs by auto
  then have "distinct (ptrs (Bt x ks' (cs1 @ Bt a ak' ac' # Bt b bk' bc' # cs2)))" by (simp add: P1_def P2_def Q1'_def Q2'_def)
  moreover have "set (ptrs (Bt x ks' (cs1 @ Bt a ak' ac' # Bt b bk' bc' # cs2))) = set (ptrs (Bt x ks (cs1 @ Bt a ak ac # Bt b bk bc # cs2)))"
    using Qs(1) by (auto simp: Q1_def Q2_def Q1'_def Q2'_def)
  moreover have "\<forall>q. q \<notin> set (ptrs (Bt x ks (cs1 @ Bt a ak ac # Bt b bk bc # cs2))) \<longrightarrow> H' q = H q" using same(2) by simp
  ultimately show ?thesis by (simp add: owns_def touches_def del: ptrs.simps rep.simps)
qed

lemma two_merged:
  assumes owns: "owns d H (Bt x ks (cs1 @ Bt a ak ac # Bt b bk bc # cs2))"
    and x: "H' x = Some n" "node_ok d n ks' (map bt_ptr cs1 @ a # map bt_ptr cs2)"
    and a: "H' a = Some na" "node_ok d na ak' (map bt_ptr (ac @ bc))"
    and same: "\<And>q. q \<notin> {x, a, b} \<Longrightarrow> H' q = H q"
  shows "owns d H' (Bt x ks' (cs1 @ Bt a ak' (ac @ bc) # cs2)) \<and>
    touches H H' (Bt x ks (cs1 @ Bt a ak ac # Bt b bk bc # cs2)) (Bt x ks' (cs1 @ Bt a ak' (ac @ bc) # cs2))"
proof -
  note P = two_parts [OF owns]
  have live: "x \<noteq> 0" "a \<noteq> 0" using owns by (auto simp: owns_def)
  have "rep d H' c" if "c \<in> set cs1 \<union> set cs2 \<union> set ac \<union> set bc" for c
    using P(2) [of c] that same by (intro rep_frame [of d H c H']) blast+
  then have "rep d H' (Bt x ks' (cs1 @ Bt a ak' (ac @ bc) # cs2))" using x a live by auto
  moreover define P1 P2 Q1 Q2 where "P1 = concat (map ptrs cs1)" and "P2 = concat (map ptrs cs2)"
    and "Q1 = concat (map ptrs ac)" and "Q2 = concat (map ptrs bc)"
  have "distinct (x # P1 @ (a # Q1) @ (b # Q2) @ P2)" using owns by (simp add: owns_def P1_def P2_def Q1_def Q2_def)
  then have "distinct (x # P1 @ (a # Q1 @ Q2) @ P2)" by auto
  then have "distinct (ptrs (Bt x ks' (cs1 @ Bt a ak' (ac @ bc) # cs2)))" by (simp add: P1_def P2_def Q1_def Q2_def)
  moreover have "set (ptrs (Bt x ks' (cs1 @ Bt a ak' (ac @ bc) # cs2))) \<subseteq> set (ptrs (Bt x ks (cs1 @ Bt a ak ac # Bt b bk bc # cs2)))"
    by auto
  moreover have "\<forall>q. q \<notin> set (ptrs (Bt x ks (cs1 @ Bt a ak ac # Bt b bk bc # cs2))) \<longrightarrow> H' q = H q" using same by simp
  ultimately show ?thesis by (simp add: owns_def touches_def del: ptrs.simps rep.simps) blast
qed


section \<open>Merging and borrowing\<close>

text \<open>Two neighbours are both leaves, or both inner nodes.\<close>

definition alike :: "int list \<Rightarrow> bt list \<Rightarrow> int list \<Rightarrow> bt list \<Rightarrow> bool" where
  "alike ak ac bk bc \<longleftrightarrow> ac = [] \<and> bc = [] \<or> length ac = length ak + 1 \<and> length bc = length bk + 1"

lemma node_child:
  assumes owns: "owns d H (Bt x ks (cs1 @ c # cs2))"
  obtains n where "H (bt_ptr c) = Some n" "node_ok d n (bt_keys c) (map bt_ptr (bt_subs c))" "bt_ptr c \<noteq> 0"
  using owns_parts(1) [OF owns] by (cases c) (auto simp: owns_def)

lemma merge_ok:
  assumes d: "2 \<le> d" "b_t T = int d"
    and owns: "owns d (b_nodes T) (Bt x (ks1 @ m # ks2) (cs1 @ Bt a ak ac # Bt b bk bc # cs2))"
    and len: "length ks1 = length cs1" "length ak = d - 1" "length bk = d - 1" "alike ak ac bk bc"
  shows "\<exists>T3. btree_merge T x (int (length ks1)) = Some (if ks1 @ ks2 = [] then T3\<lparr>b_root := a, b_nodes := (b_nodes T3)(x := None)\<rparr> else T3) \<and>
    b_root T3 = b_root T \<and> b_t T3 = int d \<and> dom (b_nodes T3) \<subseteq> dom (b_nodes T) \<and>
    owns d (b_nodes T3) (Bt x (ks1 @ ks2) (cs1 @ Bt a (ak @ m # bk) (ac @ bc) # cs2)) \<and>
    touches (b_nodes T) (b_nodes T3) (Bt x (ks1 @ m # ks2) (cs1 @ Bt a ak ac # Bt b bk bc # cs2))
      (Bt x (ks1 @ ks2) (cs1 @ Bt a (ak @ m # bk) (ac @ bc) # cs2))"
proof -
  let ?H = "b_nodes T"
  have owns': "owns d ?H (Bt x (ks1 @ m # ks2) ((cs1 @ [Bt a ak ac]) @ Bt b bk bc # cs2))" using owns by simp
  obtain xn where xn: "?H x = Some xn" "node_ok d xn (ks1 @ m # ks2) (map bt_ptr (cs1 @ Bt a ak ac # Bt b bk bc # cs2))" "x \<noteq> 0"
    using owns by (auto simp: owns_def)
  obtain an where an: "?H a = Some an" "node_ok d an ak (map bt_ptr ac)" "a \<noteq> 0" using node_child [OF owns] by auto
  obtain bn where bn: "?H b = Some bn" "node_ok d bn bk (map bt_ptr bc)" "b \<noteq> 0" using node_child [OF owns'] by auto
  have ne: "x \<noteq> a" "x \<noteq> b" "a \<noteq> b" using two_parts(1) [OF owns] by auto
  obtain kj where kj: "n_keys xn = ks1 @ m # ks2 @ kj" "length (ks1 @ m # ks2) + length kj = 2 * d - 1" "n_num xn = int (length (ks1 @ m # ks2))"
    using node_keys [OF xn(2)] node_num [OF xn(2)] by auto
  obtain cj where cj: "n_childrens xn = map bt_ptr cs1 @ a # b # map bt_ptr cs2 @ cj"
    "length cj = 6 * d - (length cs1 + length cs2 + 2)" "length cs1 + length cs2 + 2 \<le> 2 * d" "length cs2 = length ks2" "n_leaf xn = 0"
    using node_subs [OF xn(2)] len(1) xn(2) by (auto simp: node_ok_def)
  then obtain c0 cj' where c0: "cj = c0 # cj'" using d by (cases cj) auto
  obtain aj where aj: "n_keys an = ak @ aj" "length aj = d" using node_keys [OF an(2)] len d by auto
  then obtain j0 aj' where j0: "aj = j0 # aj'" "length aj' = d - 1" using d by (cases aj) auto
  obtain bj where bj: "n_keys bn = bk @ bj" using node_keys [OF bn(2)] by auto
  define ac' where "ac' = (if ac = [] then n_childrens an else map bt_ptr ac @ map bt_ptr bc @ drop (2 * d) (n_childrens an))"
  have k: "copy_up (nat (int d - 1)) (ak @ m # aj') (int d) (n_keys bn) 0 = Some (ak @ m # bk)"
    using copy_up_parts [of "d - 1" bk "int d" "ak @ [m]" 0 "[]" aj' "[]" bj] len d j0 bj by (simp add: nat_diff_distrib)
  have c: "(if n_leaf an = 0 then copy_up (nat (int d)) (n_childrens an) (int d) (n_childrens bn) 0 else Some (n_childrens an)) = Some ac'"
  proof (cases "ac = []")
    case True
    then have "n_leaf an = 1" using an(2) by (simp add: node_ok_def)
    then show ?thesis using True by (simp add: ac'_def)
  next
    case False
    then have l: "length ac = d" "length bc = d" "bc \<noteq> []" using len d by (auto simp: alike_def)
    obtain aj where aj: "n_childrens an = map bt_ptr ac @ aj" "length aj = 5 * d" "n_leaf an = 0"
      using node_subs [OF an(2)] an(2) False l by (auto simp: node_ok_def)
    obtain bj where bj: "n_childrens bn = map bt_ptr bc @ bj" using node_subs [OF bn(2)] l by auto
    have "copy_up d (map bt_ptr ac @ take d aj @ drop d aj) (int d) ([] @ map bt_ptr bc @ bj) 0 = Some (map bt_ptr ac @ map bt_ptr bc @ drop d aj)"
      using l aj by (intro copy_up_parts) auto
    then show ?thesis using aj bj False l by (simp add: ac'_def)
  qed
  define lk lc where "lk = last (m # ks2)" and "lc = last (b # map bt_ptr cs2)"
  define nk where "nk = ks1 @ ks2 @ lk # kj"
  define an1 where "an1 = an\<lparr>n_keys := ak @ m # bk, n_childrens := ac', n_num := n_num an + int d\<rparr>"
  define xn1 where "xn1 = xn\<lparr>n_keys := nk,
    n_childrens := map bt_ptr cs1 @ a # map bt_ptr cs2 @ lc # 0 # cj', n_num := n_num xn - 1\<rparr>"
  have ok: "node_ok d an1 (ak @ m # bk) (map bt_ptr (ac @ bc))"
    "node_ok d xn1 (ks1 @ ks2) (map bt_ptr cs1 @ a # map bt_ptr cs2)"
  proof -
    show "node_ok d an1 (ak @ m # bk) (map bt_ptr (ac @ bc))"
    proof (cases "ac = []")
      case True
      then show ?thesis using an(2) len d by (auto simp: an1_def ac'_def node_ok_def alike_def)
    next
      case False
      then show ?thesis using an(2) len d by (auto simp: an1_def ac'_def node_ok_def alike_def)
    qed
    show "node_ok d xn1 (ks1 @ ks2) (map bt_ptr cs1 @ a # map bt_ptr cs2)"
      using xn(2) kj cj c0 len(1) by (auto simp: xn1_def nk_def node_ok_def)
  qed
  have xk: "shift_down (n_keys xn) (int (length ks1)) (n_num xn - 1) = Some nk"
    using shift_down_parts [of "int (length ks1)" ks1 "n_num xn - 1" ks2 m kj] kj by (simp add: lk_def nk_def)
  have xc: "shift_down (n_childrens xn) (int (length ks1) + 1) (n_num xn) =
      Some ((map bt_ptr cs1 @ [a]) @ map bt_ptr cs2 @ lc # cj)"
    using shift_down_parts [of "int (length ks1) + 1" "map bt_ptr cs1 @ [a]" "n_num xn" "map bt_ptr cs2" b cj] cj(1,4) kj(3) len(1) by (simp add: lc_def)
  have xc1: "aset ((map bt_ptr cs1 @ [a]) @ map bt_ptr cs2 @ lc # cj)
      (max (int (length ks1) + 1) (n_num xn) + 1) 0 = Some (n_childrens xn1)"
    using aset_append [of "n_num xn + 1" "map bt_ptr cs1 @ a # map bt_ptr cs2 @ [lc]" c0 cj' 0] kj(3) cj(4) c0 len(1)
    by (simp add: max_def xn1_def)
  define T1 T2 T3 where "T1 = put_node a an1 T" and "T2 = T1\<lparr>b_nodes := (b_nodes T1)(b := None)\<rparr>" and "T3 = put_node x xn1 T2"
  have "aget (n_childrens xn) (int (length ks1)) = Some a" "aget (n_childrens xn) (int (length ks1) + 1) = Some b"
    "aget (n_keys xn) (int (length ks1)) = Some m"
    using child_at [OF owns xn(1)] child_at [OF owns' xn(1)] key_at [OF owns xn(1)] len(1) by (simp_all add: add.commute)
  moreover have "aset (n_keys an) (int d - 1) m = Some (ak @ m # aj')" using aset_append [of "int d - 1" ak] aj j0 len d by simp
  moreover have "btree_destroy_node b T1 = Some T2" using bn ne by (simp add: btree_destroy_node_def T1_def T2_def)
  moreover have "b_nodes T2 x = Some xn" using xn(1) ne by (simp add: T2_def T1_def)
  moreover have "btree_destroy_node x (T3\<lparr>b_root := a\<rparr>) = Some (T3\<lparr>b_root := a, b_nodes := (b_nodes T3)(x := None)\<rparr>)"
    using xn(3) by (simp add: btree_destroy_node_def T3_def)
  moreover have "n_num xn = 1 \<longleftrightarrow> ks1 @ ks2 = []" using kj(3) by (cases ks1; cases ks2) auto
  moreover have "xn\<lparr>n_keys := nk, n_childrens := n_childrens xn1, n_num := n_num xn - 1\<rparr> = xn1" by (simp add: xn1_def)
  ultimately have "btree_merge T x (int (length ks1)) = Some (if ks1 @ ks2 = [] then T3\<lparr>b_root := a, b_nodes := (b_nodes T3)(x := None)\<rparr> else T3)"
    using xn(1) an(1) bn(1) ne k c xk xc xc1 d(2)
    by (simp add: btree_merge_def Let_def an1_def [symmetric] T1_def [symmetric] T3_def [symmetric] del: append_assoc)
  moreover have "owns d (b_nodes T3) (Bt x (ks1 @ ks2) (cs1 @ Bt a (ak @ m # bk) (ac @ bc) # cs2)) \<and>
    touches (b_nodes T) (b_nodes T3) (Bt x (ks1 @ m # ks2) (cs1 @ Bt a ak ac # Bt b bk bc # cs2))
      (Bt x (ks1 @ ks2) (cs1 @ Bt a (ak @ m # bk) (ac @ bc) # cs2))"
    using two_merged [OF owns, of "b_nodes T3" xn1 "ks1 @ ks2" an1 "ak @ m # bk"] ok ne by (simp add: T3_def T2_def T1_def)
  moreover have "dom (b_nodes T3) \<subseteq> dom (b_nodes T)" using xn(1) an(1) by (auto simp: T3_def T2_def T1_def)
  ultimately show ?thesis using d(2) by (intro exI [of _ T3]) (simp add: T3_def T2_def T1_def)
qed


text \<open>The two ends of a node: a key and, in an inner node, a child is added or taken away.  \<open>qs\<close> is that
  child, or nothing in a leaf, where the arrays of children hold only null pointers.\<close>

definition edge :: "int list \<Rightarrow> nat list \<Rightarrow> nat list \<Rightarrow> bool" where
  "edge ks ps qs \<longleftrightarrow> ps = [] \<and> qs = [] \<or> length ps = length ks + 1 \<and> length qs = 1"

definition edge_ptr :: "nat list \<Rightarrow> nat" where
  "edge_ptr qs = (if qs = [] then 0 else hd qs)"

lemma replicate_set [simp]: "(replicate n v)[i := v] = replicate n v"
  by (metis list_update_id list_update_beyond length_replicate linorder_not_less nth_replicate)

lemma shift_down_zeros: "0 \<le> i \<Longrightarrow> m < int n \<Longrightarrow> shift_down (replicate n v) i m = Some (replicate n v)"
proof (induction "nat (m - i)" arbitrary: i)
  case (Suc k)
  then show ?case by (subst shift_down.simps) (simp add: aget_def aset_def)
qed (simp add: shift_down.simps)

lemma shift_up_zeros: "0 \<le> lo \<Longrightarrow> j + 1 < int n \<Longrightarrow> shift_up (replicate n v) j lo = Some (replicate n v)"
proof (induction "nat (j - lo + 1)" arbitrary: j)
  case (Suc k)
  then show ?case by (subst shift_up.simps) (simp add: aget_def aset_def)
qed (simp add: shift_up.simps)

lemma update_key:
  assumes "node_ok d n (ks1 @ m # ks2) ps"
  shows "\<exists>k. aset (n_keys n) (int (length ks1)) v = Some k \<and> node_ok d (n\<lparr>n_keys := k\<rparr>) (ks1 @ v # ks2) ps"
  using assms by (auto simp: node_ok_def aset_append)

lemma put_last:
  assumes n: "node_ok d n ks ps" "length ks < 2 * d - 1" "edge ks ps qs" "2 \<le> d"
  shows "\<exists>k c. aset (n_keys n) (n_num n) m = Some k \<and> aset (n_childrens n) (n_num n + 1) (edge_ptr qs) = Some c \<and>
    node_ok d (n\<lparr>n_keys := k, n_childrens := c, n_num := n_num n + 1\<rparr>) (ks @ [m]) (ps @ qs)"
proof -
  obtain kj where kj: "n_keys n = ks @ kj" "length ks + length kj = 2 * d - 1" "n_num n = int (length ks)"
    using node_keys [OF n(1)] node_num [OF n(1)] by auto
  then obtain k0 kj' where k0: "kj = k0 # kj'" using n(2) by (cases kj) auto
  show ?thesis
  proof (cases "ps = []")
    case True
    then show ?thesis using n kj k0 by (auto simp: node_ok_def edge_def edge_ptr_def aset_append aset_def [of "replicate _ _"])
  next
    case False
    then obtain q where q: "qs = [q]" "length ps = length ks + 1" using n(3) by (auto simp: edge_def length_Suc_conv)
    obtain cj where cj: "n_childrens n = ps @ cj" "length cj = 6 * d - length ps" "length ps \<le> 2 * d" using node_subs [OF n(1) False] by auto
    then obtain c0 cj' where c0: "cj = c0 # cj'" using n(4) by (cases cj) auto
    have "aset (n_childrens n) (n_num n + 1) q = Some (ps @ q # cj')" using cj c0 q kj by (simp add: aset_append)
    then show ?thesis using n(1) False kj k0 q cj c0 by (auto simp: node_ok_def edge_ptr_def aset_append)
  qed
qed

lemma take_first:
  assumes n: "node_ok d n (b # ks) (qs @ ps)" "edge ks ps qs" "2 \<le> d"
  shows "aget (n_childrens n) 0 = Some (edge_ptr qs)"
    "\<exists>rk rc rk1 c rc1 rc2. shift_down (n_keys n) 0 (n_num n - 1) = Some rk \<and> shift_down (n_childrens n) 0 (n_num n - 1) = Some rc \<and>
      aset rk (n_num n - 1) 0 = Some rk1 \<and> aget rc (n_num n) = Some c \<and> aset rc (n_num n - 1) c = Some rc1 \<and> aset rc1 (n_num n) 0 = Some rc2 \<and>
      node_ok d (n\<lparr>n_keys := rk1, n_childrens := rc2, n_num := n_num n - 1\<rparr>) ks ps"
proof -
  obtain kj where kj: "n_keys n = b # ks @ kj" "Suc (length ks) + length kj = 2 * d - 1" "n_num n = int (length ks) + 1"
    using node_keys [OF n(1)] node_num [OF n(1)] by auto
  have small: "length ks + 1 < 6 * d" using kj(2) n(3) by linarith
  have rk: "shift_down (n_keys n) 0 (n_num n - 1) = Some (ks @ last (b # ks) # kj)"
    using shift_down_parts [of 0 "[]" "n_num n - 1" ks b kj] kj by simp
  have rk1: "aset (ks @ last (b # ks) # kj) (n_num n - 1) 0 = Some (ks @ 0 # kj)" using kj by (simp add: aset_append)
  have *: "aget (n_childrens n) 0 = Some (edge_ptr qs) \<and> (\<exists>rc c rc1 rc2. shift_down (n_childrens n) 0 (n_num n - 1) = Some rc \<and>
      aget rc (n_num n) = Some c \<and> aset rc (n_num n - 1) c = Some rc1 \<and> aset rc1 (n_num n) 0 = Some rc2 \<and>
      length rc2 = 6 * d \<and> (if ps = [] then rc2 = replicate (6 * d) 0 else \<exists>cj. rc2 = ps @ cj))"
  proof (cases "qs = []")
    case True
    then have z: "n_childrens n = replicate (6 * d) 0" "ps = []" using n(1,2) by (auto simp: node_ok_def edge_def)
    then have "shift_down (n_childrens n) 0 (n_num n - 1) = Some (replicate (6 * d) 0)"
      using shift_down_zeros [of 0 "n_num n - 1" "6 * d"] kj small by simp
    then show ?thesis using z kj True n(3) small by (simp add: aget_def aset_def edge_ptr_def)
  next
    case False
    then obtain q where q: "qs = [q]" "length ps = length ks + 1" using n(2) by (auto simp: edge_def length_Suc_conv)
    then obtain ps' l where l: "ps = ps' @ [l]" "length ps' = length ks" by (cases ps rule: rev_cases) auto
    obtain cj where cj: "n_childrens n = q # ps' @ l # cj" "length cj + length ks + 2 = 6 * d"
      using node_subs [OF n(1)] False q l by auto
    have "shift_down (n_childrens n) 0 (n_num n - 1) = Some (ps' @ last (q # ps') # l # cj)"
      using shift_down_parts [of 0 "[]" "n_num n - 1" ps' q "l # cj"] cj l kj by simp
    moreover have "aget (ps' @ last (q # ps') # l # cj) (n_num n) = Some l"
      using aget_append [of "n_num n" "ps' @ [last (q # ps')]" l cj] l kj by simp
    moreover have "aset (ps' @ last (q # ps') # l # cj) (n_num n - 1) l = Some (ps' @ l # l # cj)" using l kj by (simp add: aset_append)
    moreover have "aset (ps' @ l # l # cj) (n_num n) 0 = Some (ps' @ l # 0 # cj)"
      using aset_append [of "n_num n" "ps' @ [l]" l cj 0] l kj by simp
    ultimately show ?thesis using l q cj by (auto simp: aget_def edge_ptr_def)
  qed
  show "aget (n_childrens n) 0 = Some (edge_ptr qs)" using * by blast
  obtain rc c rc1 rc2 where rc: "shift_down (n_childrens n) 0 (n_num n - 1) = Some rc"
      "aget rc (n_num n) = Some c" "aset rc (n_num n - 1) c = Some rc1" "aset rc1 (n_num n) 0 = Some rc2"
      "length rc2 = 6 * d" "if ps = [] then rc2 = replicate (6 * d) 0 else \<exists>cj. rc2 = ps @ cj"
    using * by blast
  have "node_ok d (n\<lparr>n_keys := ks @ 0 # kj, n_childrens := rc2, n_num := n_num n - 1\<rparr>) ks ps"
    using n(1,2) rc(5,6) kj by (auto simp: node_ok_def edge_def split: if_splits)
  then show "\<exists>rk rc rk1 c rc1 rc2. shift_down (n_keys n) 0 (n_num n - 1) = Some rk \<and> shift_down (n_childrens n) 0 (n_num n - 1) = Some rc \<and>
      aset rk (n_num n - 1) 0 = Some rk1 \<and> aget rc (n_num n) = Some c \<and> aset rc (n_num n - 1) c = Some rc1 \<and> aset rc1 (n_num n) 0 = Some rc2 \<and>
      node_ok d (n\<lparr>n_keys := rk1, n_childrens := rc2, n_num := n_num n - 1\<rparr>) ks ps"
    using rk rk1 rc by blast
qed


lemma put_first:
  assumes n: "node_ok d n ks ps" "length ks < 2 * d - 1" "edge ks ps qs" "2 \<le> d"
  shows "\<exists>ck cc c0 cc1 cc2 ck1. shift_up (n_keys n) (n_num n - 1) 0 = Some ck \<and> shift_up (n_childrens n) (n_num n) 1 = Some cc \<and>
    aget cc 0 = Some c0 \<and> aset cc 1 c0 = Some cc1 \<and> aset cc1 0 (edge_ptr qs) = Some cc2 \<and> aset ck 0 m = Some ck1 \<and>
    node_ok d (n\<lparr>n_keys := ck1, n_childrens := cc2, n_num := n_num n + 1\<rparr>) (m # ks) (qs @ ps)"
proof -
  obtain kj where kj: "n_keys n = ks @ kj" "length ks + length kj = 2 * d - 1" "n_num n = int (length ks)"
    using node_keys [OF n(1)] node_num [OF n(1)] by auto
  then obtain k0 kj' where k0: "kj = k0 # kj'" using n(2) by (cases kj) auto
  have ck: "shift_up (n_keys n) (n_num n - 1) 0 = Some (hd (ks @ [k0]) # ks @ kj')"
    using shift_up_parts [of "n_num n - 1" "[]" ks 0 k0 kj'] kj k0 by simp
  have ck1: "aset (hd (ks @ [k0]) # ks @ kj') 0 m = Some (m # ks @ kj')" by (simp add: aset_def)
  have "\<exists>cc c0 cc1 cc2. shift_up (n_childrens n) (n_num n) 1 = Some cc \<and> aget cc 0 = Some c0 \<and> aset cc 1 c0 = Some cc1 \<and>
      aset cc1 0 (edge_ptr qs) = Some cc2 \<and> length cc2 = 6 * d \<and>
      (if ps = [] then cc2 = replicate (6 * d) 0 else \<exists>cj. cc2 = qs @ ps @ cj)"
  proof (cases "ps = []")
    case True
    then have z: "n_childrens n = replicate (6 * d) 0" "qs = []" using n(1,3) by (auto simp: node_ok_def edge_def)
    have "n_num n + 1 < int (6 * d)" using kj n(2) by linarith
    then have "shift_up (n_childrens n) (n_num n) 1 = Some (replicate (6 * d) 0)"
      using shift_up_zeros [of 1 "n_num n" "6 * d"] z by simp
    then show ?thesis using z True n(4) by (simp add: aget_def aset_def edge_ptr_def)
  next
    case False
    then obtain q where q: "qs = [q]" "length ps = length ks + 1" using n(3) by (auto simp: edge_def length_Suc_conv)
    then obtain p ps' where p: "ps = p # ps'" "length ps' = length ks" by (cases ps) auto
    obtain cj where cj: "n_childrens n = p # ps' @ cj" "length cj = 6 * d - length ps" "length ps \<le> 2 * d"
      using node_subs [OF n(1) False] p by auto
    then obtain c0 cj' where c0: "cj = c0 # cj'" using n(4) by (cases cj) auto
    have "shift_up (n_childrens n) (n_num n) 1 = Some (p # hd (ps' @ [c0]) # ps' @ cj')"
      using shift_up_parts [of "n_num n" "[p]" ps' 1 c0 cj'] cj c0 p kj by simp
    moreover have "aset (p # hd (ps' @ [c0]) # ps' @ cj') 1 p = Some (p # p # ps' @ cj')" using aset_append [of 1 "[p]"] by simp
    moreover have "aset (p # p # ps' @ cj') 0 q = Some (q # p # ps' @ cj')" by (simp add: aset_def)
    ultimately show ?thesis using p q cj c0 by (auto simp: aget_def edge_ptr_def)
  qed
  then obtain cc c0 cc1 cc2 where cc: "shift_up (n_childrens n) (n_num n) 1 = Some cc" "aget cc 0 = Some c0" "aset cc 1 c0 = Some cc1"
      "aset cc1 0 (edge_ptr qs) = Some cc2" "length cc2 = 6 * d" "if ps = [] then cc2 = replicate (6 * d) 0 else \<exists>cj. cc2 = qs @ ps @ cj"
    by blast
  have "node_ok d (n\<lparr>n_keys := m # ks @ kj', n_childrens := cc2, n_num := n_num n + 1\<rparr>) (m # ks) (qs @ ps)"
    using n(1,3) cc(5,6) kj k0 by (auto simp: node_ok_def edge_def split: if_splits)
  then show ?thesis using ck ck1 cc by blast
qed

lemma drop_last:
  assumes n: "node_ok d n (ks @ [b]) (ps @ qs)" "edge ks ps qs" "2 \<le> d"
  shows "aget (n_childrens n) (n_num n) = Some (edge_ptr qs)" "aget (n_keys n) (n_num n - 1) = Some b"
    "\<exists>lk lc. aset (n_keys n) (n_num n - 1) 0 = Some lk \<and> aset (n_childrens n) (n_num n) 0 = Some lc \<and>
      node_ok d (n\<lparr>n_keys := lk, n_childrens := lc, n_num := n_num n - 1\<rparr>) ks ps"
proof -
  obtain kj where kj: "n_keys n = ks @ b # kj" "Suc (length ks) + length kj = 2 * d - 1" "n_num n = int (length ks) + 1"
    using node_keys [OF n(1)] node_num [OF n(1)] by auto
  have small: "length ks + 1 < 6 * d" using kj(2) n(3) by linarith
  show "aget (n_keys n) (n_num n - 1) = Some b" using kj by (simp add: aget_append)
  have lk: "aset (n_keys n) (n_num n - 1) 0 = Some (ks @ 0 # kj)" using kj by (simp add: aset_append)
  have *: "aget (n_childrens n) (n_num n) = Some (edge_ptr qs) \<and> (\<exists>lc. aset (n_childrens n) (n_num n) 0 = Some lc \<and>
      length lc = 6 * d \<and> (if ps = [] then lc = replicate (6 * d) 0 else \<exists>cj. lc = ps @ cj))"
  proof (cases "qs = []")
    case True
    then have "n_childrens n = replicate (6 * d) 0" "ps = []" using n(1,2) by (auto simp: node_ok_def edge_def)
    then show ?thesis using kj True small by (simp add: aget_def aset_def edge_ptr_def)
  next
    case False
    then obtain q where q: "qs = [q]" "length ps = length ks + 1" using n(2) by (auto simp: edge_def length_Suc_conv)
    obtain cj where cj: "n_childrens n = ps @ q # cj" "length cj + length ks + 2 = 6 * d" using node_subs [OF n(1)] q by auto
    then show ?thesis using q kj by (auto simp: aget_append aset_append edge_ptr_def)
  qed
  show "aget (n_childrens n) (n_num n) = Some (edge_ptr qs)" using * by blast
  obtain lc where lc: "aset (n_childrens n) (n_num n) 0 = Some lc" "length lc = 6 * d"
      "if ps = [] then lc = replicate (6 * d) 0 else \<exists>cj. lc = ps @ cj"
    using * by blast
  have "node_ok d (n\<lparr>n_keys := ks @ 0 # kj, n_childrens := lc, n_num := n_num n - 1\<rparr>) ks ps"
    using n(1,2) lc(2,3) kj by (auto simp: node_ok_def edge_def split: if_splits)
  then show "\<exists>lk lc. aset (n_keys n) (n_num n - 1) 0 = Some lk \<and> aset (n_childrens n) (n_num n) 0 = Some lc \<and>
      node_ok d (n\<lparr>n_keys := lk, n_childrens := lc, n_num := n_num n - 1\<rparr>) ks ps"
    using lk lc by blast
qed

lemma borrow_next_ok:
  assumes d: "2 \<le> d"
    and owns: "owns d (b_nodes T) (Bt x (ks1 @ m # ks2) (cs1 @ Bt a ak ac # Bt b (v # bk) (bs @ bc) # cs2))"
    and len: "length ks1 = length cs1" "length ak < 2 * d - 1"
    and edge: "edge ak (map bt_ptr ac) (map bt_ptr bs)" "edge bk (map bt_ptr bc) (map bt_ptr bs)"
  shows "\<exists>T'. borrow_next T x (int (length ks1)) a b = Some T' \<and> b_root T' = b_root T \<and> b_t T' = b_t T \<and>
    dom (b_nodes T') \<subseteq> dom (b_nodes T) \<and>
    owns d (b_nodes T') (Bt x (ks1 @ v # ks2) (cs1 @ Bt a (ak @ [m]) (ac @ bs) # Bt b bk bc # cs2)) \<and>
    touches (b_nodes T) (b_nodes T') (Bt x (ks1 @ m # ks2) (cs1 @ Bt a ak ac # Bt b (v # bk) (bs @ bc) # cs2))
      (Bt x (ks1 @ v # ks2) (cs1 @ Bt a (ak @ [m]) (ac @ bs) # Bt b bk bc # cs2))"
proof -
  let ?H = "b_nodes T"
  have owns': "owns d ?H (Bt x (ks1 @ m # ks2) ((cs1 @ [Bt a ak ac]) @ Bt b (v # bk) (bs @ bc) # cs2))" using owns by simp
  obtain xn where xn: "?H x = Some xn" "node_ok d xn (ks1 @ m # ks2) (map bt_ptr (cs1 @ Bt a ak ac # Bt b (v # bk) (bs @ bc) # cs2))"
    using owns by (auto simp: owns_def)
  obtain an where an: "?H a = Some an" "node_ok d an ak (map bt_ptr ac)" using node_child [OF owns] by auto
  obtain bn where bn: "?H b = Some bn" "node_ok d bn (v # bk) (map bt_ptr bs @ map bt_ptr bc)" using node_child [OF owns'] by auto
  have ne: "x \<noteq> a" "x \<noteq> b" "a \<noteq> b" using two_parts(1) [OF owns] by auto
  obtain nk where nk: "aset (n_keys xn) (int (length ks1)) v = Some nk"
    "node_ok d (xn\<lparr>n_keys := nk\<rparr>) (ks1 @ v # ks2) (map bt_ptr (cs1 @ Bt a ak ac # Bt b (v # bk) (bs @ bc) # cs2))"
    using update_key [OF xn(2)] by blast
  obtain ak' ac' where a: "aset (n_keys an) (n_num an) m = Some ak'" "aset (n_childrens an) (n_num an + 1) (edge_ptr (map bt_ptr bs)) = Some ac'"
    "node_ok d (an\<lparr>n_keys := ak', n_childrens := ac', n_num := n_num an + 1\<rparr>) (ak @ [m]) (map bt_ptr (ac @ bs))"
    using put_last [OF an(2) len(2) edge(1) d, of m] by auto
  obtain rk rc rk1 c rc1 rc2 where b: "shift_down (n_keys bn) 0 (n_num bn - 1) = Some rk" "shift_down (n_childrens bn) 0 (n_num bn - 1) = Some rc"
      "aset rk (n_num bn - 1) 0 = Some rk1" "aget rc (n_num bn) = Some c" "aset rc (n_num bn - 1) c = Some rc1" "aset rc1 (n_num bn) 0 = Some rc2"
      "node_ok d (bn\<lparr>n_keys := rk1, n_childrens := rc2, n_num := n_num bn - 1\<rparr>) bk (map bt_ptr bc)"
    using take_first(2) [OF bn(2) edge(2) d] by blast
  have b0: "aget (n_childrens bn) 0 = Some (edge_ptr (map bt_ptr bs))" by (rule take_first(1) [OF bn(2) edge(2) d])
  have m: "aget (n_keys xn) (int (length ks1)) = Some m" using key_at [OF owns xn(1)] by simp
  have v: "aget (n_keys bn) 0 = Some v" using node_keys [OF bn(2)] by (auto simp: aget_def)
  define an1 xn1 bn1 where "an1 = an\<lparr>n_keys := ak', n_childrens := ac', n_num := n_num an + 1\<rparr>" and "xn1 = xn\<lparr>n_keys := nk\<rparr>"
    and "bn1 = bn\<lparr>n_keys := rk1, n_childrens := rc2, n_num := n_num bn - 1\<rparr>"
  let ?T = "put_node b bn1 (put_node x xn1 (put_node a an1 T))"
  have "borrow_next T x (int (length ks1)) a b = Some ?T"
    using xn(1) an(1) bn(1) ne nk(1) a(1,2) b(1-6) b0 m v
    by (simp add: borrow_next_def Let_def an1_def [symmetric] xn1_def [symmetric] bn1_def [symmetric])
  moreover have "owns d (b_nodes ?T) (Bt x (ks1 @ v # ks2) (cs1 @ Bt a (ak @ [m]) (ac @ bs) # Bt b bk bc # cs2)) \<and>
    touches (b_nodes T) (b_nodes ?T) (Bt x (ks1 @ m # ks2) (cs1 @ Bt a ak ac # Bt b (v # bk) (bs @ bc) # cs2))
      (Bt x (ks1 @ v # ks2) (cs1 @ Bt a (ak @ [m]) (ac @ bs) # Bt b bk bc # cs2))"
    using two_changed [OF owns, of "b_nodes ?T" xn1 "ks1 @ v # ks2" an1 "ak @ [m]" "ac @ bs" bn1 bk bc] nk(2) a(3) b(7) ne
    by (simp add: an1_def xn1_def bn1_def)
  moreover have "dom (b_nodes ?T) \<subseteq> dom (b_nodes T)" using xn(1) an(1) bn(1) by auto
  ultimately show ?thesis by (intro exI [of _ ?T]) simp
qed


lemma borrow_prev_ok:
  assumes d: "2 \<le> d"
    and owns: "owns d (b_nodes T) (Bt x (ks1 @ m # ks2) (cs1 @ Bt a (ak @ [v]) (ac @ as) # Bt b bk bc # cs2))"
    and len: "length ks1 = length cs1" "length bk < 2 * d - 1"
    and edge: "edge ak (map bt_ptr ac) (map bt_ptr as)" "edge bk (map bt_ptr bc) (map bt_ptr as)"
  shows "\<exists>T'. borrow_prev T x (int (length ks1) + 1) b a = Some T' \<and> b_root T' = b_root T \<and> b_t T' = b_t T \<and>
    dom (b_nodes T') \<subseteq> dom (b_nodes T) \<and>
    owns d (b_nodes T') (Bt x (ks1 @ v # ks2) (cs1 @ Bt a ak ac # Bt b (m # bk) (as @ bc) # cs2)) \<and>
    touches (b_nodes T) (b_nodes T') (Bt x (ks1 @ m # ks2) (cs1 @ Bt a (ak @ [v]) (ac @ as) # Bt b bk bc # cs2))
      (Bt x (ks1 @ v # ks2) (cs1 @ Bt a ak ac # Bt b (m # bk) (as @ bc) # cs2))"
proof -
  let ?H = "b_nodes T"
  have owns': "owns d ?H (Bt x (ks1 @ m # ks2) ((cs1 @ [Bt a (ak @ [v]) (ac @ as)]) @ Bt b bk bc # cs2))" using owns by simp
  obtain xn where xn: "?H x = Some xn" "node_ok d xn (ks1 @ m # ks2) (map bt_ptr (cs1 @ Bt a (ak @ [v]) (ac @ as) # Bt b bk bc # cs2))"
    using owns by (auto simp: owns_def)
  obtain an where an: "?H a = Some an" "node_ok d an (ak @ [v]) (map bt_ptr ac @ map bt_ptr as)" using node_child [OF owns] by auto
  obtain bn where bn: "?H b = Some bn" "node_ok d bn bk (map bt_ptr bc)" using node_child [OF owns'] by auto
  have ne: "x \<noteq> a" "x \<noteq> b" "a \<noteq> b" using two_parts(1) [OF owns] by auto
  obtain nk where nk: "aset (n_keys xn) (int (length ks1)) v = Some nk"
    "node_ok d (xn\<lparr>n_keys := nk\<rparr>) (ks1 @ v # ks2) (map bt_ptr (cs1 @ Bt a (ak @ [v]) (ac @ as) # Bt b bk bc # cs2))"
    using update_key [OF xn(2)] by blast
  obtain ck cc c0 cc1 cc2 ck1 where b: "shift_up (n_keys bn) (n_num bn - 1) 0 = Some ck" "shift_up (n_childrens bn) (n_num bn) 1 = Some cc"
      "aget cc 0 = Some c0" "aset cc 1 c0 = Some cc1" "aset cc1 0 (edge_ptr (map bt_ptr as)) = Some cc2" "aset ck 0 m = Some ck1"
      "node_ok d (bn\<lparr>n_keys := ck1, n_childrens := cc2, n_num := n_num bn + 1\<rparr>) (m # bk) (map bt_ptr as @ map bt_ptr bc)"
    using put_first [OF bn(2) len(2) edge(2) d, of m] by blast
  note a0 = drop_last(1,2) [OF an(2) edge(1) d]
  obtain lk lc where a: "aset (n_keys an) (n_num an - 1) 0 = Some lk" "aset (n_childrens an) (n_num an) 0 = Some lc"
      "node_ok d (an\<lparr>n_keys := lk, n_childrens := lc, n_num := n_num an - 1\<rparr>) ak (map bt_ptr ac)"
    using drop_last(3) [OF an(2) edge(1) d] by blast
  have m: "aget (n_keys xn) (int (length ks1)) = Some m" using key_at [OF owns xn(1)] by simp
  define bn1 xn1 an1 where "bn1 = bn\<lparr>n_keys := ck1, n_childrens := cc2, n_num := n_num bn + 1\<rparr>" and "xn1 = xn\<lparr>n_keys := nk\<rparr>"
    and "an1 = an\<lparr>n_keys := lk, n_childrens := lc, n_num := n_num an - 1\<rparr>"
  let ?T = "put_node a an1 (put_node x xn1 (put_node b bn1 T))"
  have "borrow_prev T x (int (length ks1) + 1) b a = Some ?T"
    using xn(1) an(1) bn(1) ne nk(1) a(1,2) b(1-6) a0 m
    by (simp add: borrow_prev_def Let_def an1_def [symmetric] xn1_def [symmetric] bn1_def [symmetric])
  moreover have "owns d (b_nodes ?T) (Bt x (ks1 @ v # ks2) (cs1 @ Bt a ak ac # Bt b (m # bk) (as @ bc) # cs2)) \<and>
    touches (b_nodes T) (b_nodes ?T) (Bt x (ks1 @ m # ks2) (cs1 @ Bt a (ak @ [v]) (ac @ as) # Bt b bk bc # cs2))
      (Bt x (ks1 @ v # ks2) (cs1 @ Bt a ak ac # Bt b (m # bk) (as @ bc) # cs2))"
    using two_changed [OF owns, of "b_nodes ?T" xn1 "ks1 @ v # ks2" an1 ak ac bn1 "m # bk" "as @ bc"] nk(2) a(3) b(7) ne
    by (simp add: an1_def xn1_def bn1_def)
  moreover have "dom (b_nodes ?T) \<subseteq> dom (b_nodes T)" using xn(1) an(1) bn(1) by auto
  ultimately show ?thesis by (intro exI [of _ ?T]) simp
qed

end
