(* ===== verification/B_Tree_Remove.thy ===== *)
theory B_Tree_Remove
  imports B_Tree_Delete
begin

text \<open>
  The descent of \<open>btree_delete_key\<close>: a child with as few keys as it may have is filled before the code goes
  into it, and a key that lies in a leaf is removed from there.
\<close>

section \<open>Filling a child\<close>

lemma spare_at:
  assumes owns: "owns d (b_nodes T) (Bt x ks (cs1 @ c # cs2))" and t: "b_t T = int d"
  shows "has_spare T (bt_ptr c) = Some (d \<le> length (bt_keys c))"
    "is_minimal T (bt_ptr c) = Some (int (length (bt_keys c)) = int d - 1)"
    "\<exists>n. b_nodes T (bt_ptr c) = Some n \<and> n_num n = int (length (bt_keys c)) \<and> bt_ptr c \<noteq> 0"
  by (rule node_child [OF owns]; auto simp: has_spare_def is_minimal_def t node_ok_def)+

lemma fill_child_cases:
  assumes d: "2 \<le> d" "b_t T = int d"
    and owns: "owns d (b_nodes T) (Bt x (ks1 @ ks2) (cs1 @ c # cs2))"
    and len: "length ks1 = length cs1" "length ks2 = length cs2" "ks1 @ ks2 \<noteq> []"
    and min: "\<forall>b \<in> set cs1 \<union> set cs2. d - 1 \<le> length (bt_keys b)"
  shows "(\<exists>r cs2'. cs2 = r # cs2' \<and> d \<le> length (bt_keys r) \<and> fill_child T x (int (length ks1)) (bt_ptr c) =
        Option.bind (borrow_next T x (int (length ks1)) (bt_ptr c) (bt_ptr r)) (\<lambda>T1. Some (T1, bt_ptr c))) \<or>
    (\<exists>l cs1'. cs1 = cs1' @ [l] \<and> d \<le> length (bt_keys l) \<and> fill_child T x (int (length ks1)) (bt_ptr c) =
        Option.bind (borrow_prev T x (int (length ks1)) (bt_ptr c) (bt_ptr l)) (\<lambda>T1. Some (T1, bt_ptr c))) \<or>
    (\<exists>l cs1'. cs1 = cs1' @ [l] \<and> length (bt_keys l) = d - 1 \<and> fill_child T x (int (length ks1)) (bt_ptr c) =
        Option.bind (btree_merge T x (int (length ks1) - 1)) (\<lambda>T1. Some (T1, bt_ptr l))) \<or>
    (\<exists>r cs2'. cs1 = [] \<and> cs2 = r # cs2' \<and> length (bt_keys r) = d - 1 \<and> fill_child T x (int (length ks1)) (bt_ptr c) =
        Option.bind (btree_merge T x (int (length ks1))) (\<lambda>T1. Some (T1, bt_ptr c)))"
proof -
  obtain xn where xn: "b_nodes T x = Some xn" "n_num xn = int (length (ks1 @ ks2))" using node_at [OF owns] by metis
  have L: "aget (n_childrens xn) (int (length ks1) - 1) = Some (bt_ptr l)"
      "has_spare T (bt_ptr l) = Some (d \<le> length (bt_keys l))"
      "is_minimal T (bt_ptr l) = Some (int (length (bt_keys l)) = int d - 1)"
      "\<exists>n. b_nodes T (bt_ptr l) = Some n \<and> n_num n = int (length (bt_keys l)) \<and> bt_ptr l \<noteq> 0"
    if "cs1 = cs1' @ [l]" for cs1' l
  proof -
    have o: "owns d (b_nodes T) (Bt x (ks1 @ ks2) (cs1' @ l # c # cs2))" using owns that by simp
    show "aget (n_childrens xn) (int (length ks1) - 1) = Some (bt_ptr l)"
      using child_at [OF o xn(1)] len(1) that by simp
  qed (use spare_at [OF _ d(2), of x "ks1 @ ks2" cs1' l "c # cs2"] owns that in auto)
  have R: "aget (n_childrens xn) (int (length ks1) + 1) = Some (bt_ptr r)"
      "has_spare T (bt_ptr r) = Some (d \<le> length (bt_keys r))"
      "is_minimal T (bt_ptr r) = Some (int (length (bt_keys r)) = int d - 1)"
      "\<exists>n. b_nodes T (bt_ptr r) = Some n \<and> n_num n = int (length (bt_keys r)) \<and> bt_ptr r \<noteq> 0"
    if "cs2 = r # cs2'" for cs2' r
  proof -
    have o: "owns d (b_nodes T) (Bt x (ks1 @ ks2) ((cs1 @ [c]) @ r # cs2'))" using owns that by simp
    show "aget (n_childrens xn) (int (length ks1) + 1) = Some (bt_ptr r)"
      using child_at [OF o xn(1)] len(1) that by (simp add: add.commute)
  qed (use spare_at [OF _ d(2), of x "ks1 @ ks2" "cs1 @ [c]" r cs2'] owns that in auto)
  have z: "has_spare T 0 = Some False" "is_minimal T 0 = Some True" by (simp_all add: has_spare_def is_minimal_def)
  show ?thesis
  proof (cases cs1 rule: rev_cases)
    case Nil
    then obtain r cs2' where cs2: "cs2 = r # cs2'" using len by (cases cs2) auto
    note r = R [OF cs2]
    show ?thesis
    proof (cases "d \<le> length (bt_keys r)")
      case True
      then show ?thesis using xn r z Nil cs2 len by (auto simp: fill_child_def)
    next
      case False
      then have "length (bt_keys r) = d - 1" using min cs2 by force
      then show ?thesis using xn r z Nil cs2 len d(1) by (auto simp: fill_child_def of_nat_diff)
    qed
  next
    case (snoc cs1' l)
    note l = L [OF snoc]
    show ?thesis
    proof (cases cs2)
      case Nil
      show ?thesis
      proof (cases "d \<le> length (bt_keys l)")
        case True
        then show ?thesis using xn l z Nil snoc len by (auto simp: fill_child_def)
      next
        case False
        then have "length (bt_keys l) = d - 1" using min snoc by force
        then show ?thesis using xn l z Nil snoc len d(1) by (auto simp: fill_child_def of_nat_diff)
      qed
    next
      case (Cons r cs2')
      note r = R [OF Cons]
      consider "d \<le> length (bt_keys r)" "length (bt_keys l) < length (bt_keys r)"
        | "d \<le> length (bt_keys l)" "length (bt_keys r) \<le> length (bt_keys l)"
        | "length (bt_keys l) = d - 1" "length (bt_keys r) = d - 1"
        using min snoc Cons by force
      then show ?thesis
      proof cases
        case 1
        then have "fill_child T x (int (length ks1)) (bt_ptr c) =
            Option.bind (borrow_next T x (int (length ks1)) (bt_ptr c) (bt_ptr r)) (\<lambda>T1. Some (T1, bt_ptr c))"
          using xn l r snoc Cons len by (auto simp: fill_child_def)
        then show ?thesis using 1 Cons by blast
      next
        case 2
        then have "fill_child T x (int (length ks1)) (bt_ptr c) =
            Option.bind (borrow_prev T x (int (length ks1)) (bt_ptr c) (bt_ptr l)) (\<lambda>T1. Some (T1, bt_ptr c))"
          using xn l r snoc Cons len by (auto simp: fill_child_def)
        then show ?thesis using 2 snoc by blast
      next
        case 3
        then have "fill_child T x (int (length ks1)) (bt_ptr c) =
            Option.bind (btree_merge T x (int (length ks1) - 1)) (\<lambda>T1. Some (T1, bt_ptr l))"
          using xn l r snoc Cons len d(1) by (auto simp: fill_child_def of_nat_diff)
        then show ?thesis using 3 snoc by blast
      qed
    qed
  qed
qed


lemma weave_snoc:
  "cs = [] \<and> qs = [] \<or> length cs = length ks + 1 \<and> length qs = 1 \<Longrightarrow> weave (ks @ [m]) (cs @ qs) = weave ks cs @ m # concat qs"
  by (cases cs; cases qs) (auto simp: weave_def keys_after_append)

lemma weave_cons:
  "cs = [] \<and> qs = [] \<or> length cs = length ks + 1 \<and> length qs = 1 \<Longrightarrow> weave (v # ks) (qs @ cs) = concat qs @ v # weave ks cs"
  by (cases cs; cases qs) (auto simp: weave_def keys_after_def)

lemma split_first:
  assumes "balanced d h r" "bt_keys r \<noteq> []"
  obtains b v bk bs bc where "r = Bt b (v # bk) (bs @ bc)" "h = 0 \<Longrightarrow> bs = [] \<and> bc = []" "h \<noteq> 0 \<Longrightarrow> length bs = 1 \<and> length bc = length bk + 1"
proof -
  obtain b v bk cs where r: "r = Bt b (v # bk) cs" using assms(2) by (cases r; cases "bt_keys r") auto
  show ?thesis
  proof (cases h)
    case 0
    then show ?thesis using that [of b v bk "[]" "[]"] assms(1) r by simp
  next
    case (Suc h')
    then show ?thesis using that [of b v bk "take 1 cs" "drop 1 cs"] assms(1) r by (cases cs) auto
  qed
qed

lemma split_last:
  assumes "balanced d h l" "bt_keys l \<noteq> []"
  obtains a v ak as ac where "l = Bt a (ak @ [v]) (ac @ as)" "h = 0 \<Longrightarrow> as = [] \<and> ac = []" "h \<noteq> 0 \<Longrightarrow> length as = 1 \<and> length ac = length ak + 1"
proof -
  obtain a v ak cs where l: "l = Bt a (ak @ [v]) cs" using assms(2) by (cases l; cases "bt_keys l" rule: rev_cases) auto
  show ?thesis
  proof (cases h)
    case 0
    then show ?thesis using that [of a ak v "[]" "[]"] assms(1) l by simp
  next
    case (Suc h')
    then show ?thesis using that [of a ak v "butlast cs" "[last cs]"] assms(1) l by (cases cs rule: rev_cases) auto
  qed
qed

definition filled :: "nat \<Rightarrow> nat \<Rightarrow> btree \<Rightarrow> nat \<Rightarrow> int list \<Rightarrow> int list \<Rightarrow> bt list \<Rightarrow> bt \<Rightarrow> bt list \<Rightarrow> btree \<Rightarrow> bt \<Rightarrow> bool" where
  "filled d h T x ks1 ks2 cs1 c cs2 T' c' \<longleftrightarrow> b_t T' = b_t T \<and> dom (b_nodes T') \<subseteq> dom (b_nodes T) \<and>
     balanced d h c' \<and> d \<le> length (bt_keys c') \<and>
     (\<exists>ks1' ks2' cs1' cs2' X Y. length ks1' = length cs1' \<and> length ks2' = length cs2' \<and>
        keys_before (map inord cs1) ks1 = keys_before (map inord cs1') ks1' @ X \<and> keys_after ks2 (map inord cs2) = Y @ keys_after ks2' (map inord cs2') \<and>
        inord c' = X @ inord c @ Y \<and> inner c' \<subseteq> inner c \<union> set X \<union> set Y \<and> length (ks1 @ ks2) \<le> Suc (length (ks1' @ ks2')) \<and>
        (if ks1' @ ks2' = [] then b_root T' = bt_ptr c' \<and> owns d (b_nodes T') c'
         else b_root T' = b_root T \<and> owns d (b_nodes T') (Bt x (ks1' @ ks2') (cs1' @ c' # cs2')) \<and>
           balanced d (Suc h) (Bt x (ks1' @ ks2') (cs1' @ c' # cs2')) \<and>
           touches (b_nodes T) (b_nodes T') (Bt x (ks1 @ ks2) (cs1 @ c # cs2)) (Bt x (ks1' @ ks2') (cs1' @ c' # cs2'))))"

lemma filledI:
  assumes "b_t T' = b_t T" "dom (b_nodes T') \<subseteq> dom (b_nodes T)" "balanced d h c'" "d \<le> length (bt_keys c')"
    and "length ks1' = length cs1'" "length ks2' = length cs2'"
    and "keys_before (map inord cs1) ks1 = keys_before (map inord cs1') ks1' @ X" "keys_after ks2 (map inord cs2) = Y @ keys_after ks2' (map inord cs2')"
    and "inord c' = X @ inord c @ Y" "inner c' \<subseteq> inner c \<union> set X \<union> set Y" "length (ks1 @ ks2) \<le> Suc (length (ks1' @ ks2'))"
    and "if ks1' @ ks2' = [] then b_root T' = bt_ptr c' \<and> owns d (b_nodes T') c'
      else b_root T' = b_root T \<and> owns d (b_nodes T') (Bt x (ks1' @ ks2') (cs1' @ c' # cs2')) \<and>
        balanced d (Suc h) (Bt x (ks1' @ ks2') (cs1' @ c' # cs2')) \<and>
        touches (b_nodes T) (b_nodes T') (Bt x (ks1 @ ks2) (cs1 @ c # cs2)) (Bt x (ks1' @ ks2') (cs1' @ c' # cs2'))"
  shows "filled d h T x ks1 ks2 cs1 c cs2 T' c'"
  unfolding filled_def
  by (intro conjI exI [of _ ks1'] exI [of _ ks2'] exI [of _ cs1'] exI [of _ cs2'] exI [of _ X] exI [of _ Y] assms)

lemma fill_next:
  assumes d: "2 \<le> d" and owns: "owns d (b_nodes T) (Bt x (ks1 @ m # ks2) (cs1 @ c # r # cs2))"
    and bal: "balanced d (Suc h) (Bt x (ks1 @ m # ks2) (cs1 @ c # r # cs2))"
    and len: "length ks1 = length cs1" "length ks2 = length cs2" "length (bt_keys c) = d - 1" "d \<le> length (bt_keys r)"
  shows "\<exists>T' c'. borrow_next T x (int (length ks1)) (bt_ptr c) (bt_ptr r) = Some T' \<and> bt_ptr c' = bt_ptr c \<and>
    filled d h T x ks1 (m # ks2) cs1 c (r # cs2) T' c'"
proof -
  obtain a ak ac where c: "c = Bt a ak ac" by (cases c)
  have bc: "balanced d h c" "balanced d h r" using bal by simp_all
  have "bt_keys r \<noteq> []" using len(4) d by auto
  then obtain b v bk bs bcs where r: "r = Bt b (v # bk) (bs @ bcs)" "h = 0 \<Longrightarrow> bs = [] \<and> bcs = []"
      "h \<noteq> 0 \<Longrightarrow> length bs = 1 \<and> length bcs = length bk + 1"
    using split_first [OF bc(2)] by metis
  have ac: "if h = 0 then ac = [] else length ac = length ak + 1" using bc(1) c by (cases h) auto
  have e: "edge ak (map bt_ptr ac) (map bt_ptr bs)" "edge bk (map bt_ptr bcs) (map bt_ptr bs)"
    using r(2,3) ac by (cases "h = 0"; simp add: edge_def)+
  have small: "length ak < 2 * d - 1" using len(3) c d by simp
  obtain T' where T': "borrow_next T x (int (length ks1)) a b = Some T'" "b_root T' = b_root T" "b_t T' = b_t T"
    "dom (b_nodes T') \<subseteq> dom (b_nodes T)"
    "owns d (b_nodes T') (Bt x (ks1 @ v # ks2) (cs1 @ Bt a (ak @ [m]) (ac @ bs) # Bt b bk bcs # cs2))"
    "touches (b_nodes T) (b_nodes T') (Bt x (ks1 @ m # ks2) (cs1 @ c # r # cs2))
      (Bt x (ks1 @ v # ks2) (cs1 @ Bt a (ak @ [m]) (ac @ bs) # Bt b bk bcs # cs2))"
    using borrow_next_ok [OF d, of T x ks1 m ks2 cs1 a ak ac b v bk bs bcs cs2] owns len(1) small c r(1) e by auto
  let ?c = "Bt a (ak @ [m]) (ac @ bs)" and ?r = "Bt b bk bcs"
  have new: "balanced d h ?c" "balanced d h ?r" "d - 1 \<le> length bk"
  proof -
    show "d - 1 \<le> length bk" using len(4) r(1) by simp
    show "balanced d h ?c" "balanced d h ?r" using bc c r ac len(3,4) d by (cases h; auto)+
  qed
  have sub: "cs = [] \<and> qs = [] \<or> length cs = length ks + 1 \<and> length qs = 1"
    if "edge ks (map bt_ptr (us :: bt list)) (map bt_ptr vs)" "cs = map inord us" "qs = map inord vs" for ks us vs cs qs
    using that by (auto simp: edge_def)
  have io: "inord ?c = inord c @ m # concat (map inord bs)" "inord r = concat (map inord bs) @ v # inord ?r"
    using weave_snoc [OF sub [OF e(1) refl refl]] weave_cons [OF sub [OF e(2) refl refl]] c r(1) by simp_all
  have ib: "inner b' \<subseteq> set (inord b')" if "b' \<in> set bs" for b' 
    using bc(2) r(1) that inner_inord by (cases h) auto
  have "inner ?c \<subseteq> inner c \<union> set ([] :: int list) \<union> set (m # concat (map inord bs))"
    using ib c e(1) by (auto simp: edge_def split: if_splits)
  moreover have "balanced d (Suc h) (Bt x (ks1 @ v # ks2) (cs1 @ ?c # ?r # cs2))" using bal new len(3) c by simp
  ultimately have "filled d h T x ks1 (m # ks2) cs1 c (r # cs2) T' ?c"
    using T' new(1) len io c
    by (intro filledI [of T' T d h _ ks1 cs1 "v # ks2" "?r # cs2" _ _ "[]" _ _ "m # concat (map inord bs)"])
      (simp_all del: inord.simps balanced.simps inner.simps ptrs.simps)
  then show ?thesis using T'(1) c r(1) by (intro exI [of _ T'] exI [of _ ?c]) simp
qed


lemma fill_prev:
  assumes d: "2 \<le> d" and owns: "owns d (b_nodes T) (Bt x (ks1 @ m # ks2) (cs1 @ l # c # cs2))"
    and bal: "balanced d (Suc h) (Bt x (ks1 @ m # ks2) (cs1 @ l # c # cs2))"
    and len: "length ks1 = length cs1" "length ks2 = length cs2" "length (bt_keys c) = d - 1" "d \<le> length (bt_keys l)"
  shows "\<exists>T' c'. borrow_prev T x (int (length ks1) + 1) (bt_ptr c) (bt_ptr l) = Some T' \<and> bt_ptr c' = bt_ptr c \<and>
    filled d h T x (ks1 @ [m]) ks2 (cs1 @ [l]) c cs2 T' c'"
proof -
  obtain b bk bc where c: "c = Bt b bk bc" by (cases c)
  have bl: "balanced d h c" "balanced d h l" using bal by simp_all
  have "bt_keys l \<noteq> []" using len(4) d by auto
  then obtain a v ak as ac where l: "l = Bt a (ak @ [v]) (ac @ as)" "h = 0 \<Longrightarrow> as = [] \<and> ac = []"
      "h \<noteq> 0 \<Longrightarrow> length as = 1 \<and> length ac = length ak + 1"
    using split_last [OF bl(2)] by metis
  have bc: "if h = 0 then bc = [] else length bc = length bk + 1" using bl(1) c by (cases h) auto
  have e: "edge ak (map bt_ptr ac) (map bt_ptr as)" "edge bk (map bt_ptr bc) (map bt_ptr as)"
    using l(2,3) bc by (cases "h = 0"; simp add: edge_def)+
  have small: "length bk < 2 * d - 1" using len(3) c d by simp
  obtain T' where T': "borrow_prev T x (int (length ks1) + 1) b a = Some T'" "b_root T' = b_root T" "b_t T' = b_t T"
    "dom (b_nodes T') \<subseteq> dom (b_nodes T)"
    "owns d (b_nodes T') (Bt x (ks1 @ v # ks2) (cs1 @ Bt a ak ac # Bt b (m # bk) (as @ bc) # cs2))"
    "touches (b_nodes T) (b_nodes T') (Bt x (ks1 @ m # ks2) (cs1 @ l # c # cs2))
      (Bt x (ks1 @ v # ks2) (cs1 @ Bt a ak ac # Bt b (m # bk) (as @ bc) # cs2))"
    using borrow_prev_ok [OF d, of T x ks1 m ks2 cs1 a ak v ac as b bk bc cs2] owns len(1) small c l(1) e by auto
  let ?c = "Bt b (m # bk) (as @ bc)" and ?l = "Bt a ak ac"
  have new: "balanced d h ?c" "balanced d h ?l" "d - 1 \<le> length ak"
  proof -
    show "d - 1 \<le> length ak" using len(4) l(1) by simp
    show "balanced d h ?c" "balanced d h ?l" using bl c l bc len(3,4) d by (cases h; auto)+
  qed
  have sub: "cs = [] \<and> qs = [] \<or> length cs = length ks + 1 \<and> length qs = 1"
    if "edge ks (map bt_ptr (us :: bt list)) (map bt_ptr vs)" "cs = map inord us" "qs = map inord vs" for ks us vs cs qs
    using that by (auto simp: edge_def)
  have io: "inord ?c = (concat (map inord as) @ [m]) @ inord c" "inord l = inord ?l @ v # concat (map inord as)"
    using weave_snoc [OF sub [OF e(1) refl refl]] weave_cons [OF sub [OF e(2) refl refl]] c l(1) by simp_all
  have ib: "inner b' \<subseteq> set (inord b')" if "b' \<in> set as" for b'
    using bl(2) l(1) that inner_inord by (cases h) auto
  have "inner ?c \<subseteq> inner c \<union> set (concat (map inord as) @ [m]) \<union> set ([] :: int list)"
    using ib c e(2) by (auto simp: edge_def split: if_splits)
  moreover have "balanced d (Suc h) (Bt x (ks1 @ v # ks2) (cs1 @ ?l # ?c # cs2))" using bal new len(3) c by simp
  moreover have "keys_before (map inord (cs1 @ [l])) (ks1 @ [m]) = keys_before (map inord (cs1 @ [?l])) (ks1 @ [v]) @ concat (map inord as) @ [m]"
    using len(1) io(2) by (simp add: keys_before_append del: inord.simps)
  ultimately have "filled d h T x (ks1 @ [m]) ks2 (cs1 @ [l]) c cs2 T' ?c"
    using T' new(1) len io(1) c
    by (intro filledI [of T' T d h _ "ks1 @ [v]" "cs1 @ [?l]" ks2 cs2 _ _ "concat (map inord as) @ [m]" _ _ "[]"])
      (simp_all del: inord.simps balanced.simps inner.simps ptrs.simps)
  then show ?thesis using T'(1) c l(1) by (intro exI [of _ T'] exI [of _ ?c]) simp
qed


lemma fill_merge:
  assumes d: "2 \<le> d" "b_t T = int d" and owns: "owns d (b_nodes T) (Bt x (ks1 @ m # ks2) (cs1 @ l # r # cs2))"
    and bal: "balanced d (Suc h) (Bt x (ks1 @ m # ks2) (cs1 @ l # r # cs2))"
    and len: "length ks1 = length cs1" "length ks2 = length cs2" "length (bt_keys l) = d - 1" "length (bt_keys r) = d - 1"
  shows "\<exists>T' c'. btree_merge T x (int (length ks1)) = Some T' \<and> bt_ptr c' = bt_ptr l \<and>
    filled d h T x ks1 (m # ks2) cs1 l (r # cs2) T' c' \<and> filled d h T x (ks1 @ [m]) ks2 (cs1 @ [l]) r cs2 T' c'"
proof -
  obtain a ak ac b bk bc where lr: "l = Bt a ak ac" "r = Bt b bk bc" by (cases l; cases r)
  have bl: "balanced d h l" "balanced d h r" using bal by simp_all
  have sub: "ac = [] \<and> bc = [] \<or> length ac = length ak + 1 \<and> length bc = length bk + 1" using bl lr by (cases h) auto
  let ?M = "Bt a (ak @ m # bk) (ac @ bc)"
  obtain T3 where T3: "btree_merge T x (int (length ks1)) = Some (if ks1 @ ks2 = [] then T3\<lparr>b_root := a, b_nodes := (b_nodes T3)(x := None)\<rparr> else T3)"
    "b_root T3 = b_root T" "b_t T3 = int d" "dom (b_nodes T3) \<subseteq> dom (b_nodes T)"
    "owns d (b_nodes T3) (Bt x (ks1 @ ks2) (cs1 @ ?M # cs2))"
    "touches (b_nodes T) (b_nodes T3) (Bt x (ks1 @ m # ks2) (cs1 @ l # r # cs2)) (Bt x (ks1 @ ks2) (cs1 @ ?M # cs2))"
    using merge_ok [OF d, of x ks1 m ks2 cs1 a ak ac b bk bc cs2] owns len lr sub by (auto simp: alike_def)
  define T' where "T' = (if ks1 @ ks2 = [] then T3\<lparr>b_root := a, b_nodes := (b_nodes T3)(x := None)\<rparr> else T3)"
  have M: "balanced d h ?M" "length (bt_keys ?M) = 2 * d - 1"
    using bl lr len(3,4) d(1) sub by (cases h; auto)+
  have io: "inord ?M = inord l @ m # inord r"
    using weave_halves [of ak "map inord ac" bk "map inord bc" m] sub lr by (auto simp del: weave_leaf)
  have inn: "inner ?M \<subseteq> inner l \<union> {m} \<union> set (inord r)" "inner ?M \<subseteq> inner r \<union> {m} \<union> set (inord l)"
    using inner_inord [OF bl(1)] inner_inord [OF bl(2)] sub lr by (auto simp del: inord.simps split: if_splits)
  have b: "b_t T' = b_t T" "dom (b_nodes T') \<subseteq> dom (b_nodes T)" using T3(3,4) d(2) by (auto simp: T'_def)
  have fin: "if ks1 @ ks2 = [] then b_root T' = bt_ptr ?M \<and> owns d (b_nodes T') ?M
      else b_root T' = b_root T \<and> owns d (b_nodes T') (Bt x (ks1 @ ks2) (cs1 @ ?M # cs2)) \<and>
           balanced d (Suc h) (Bt x (ks1 @ ks2) (cs1 @ ?M # cs2)) \<and>
           touches (b_nodes T) (b_nodes T') (Bt x (ks1 @ m # ks2) (cs1 @ l # r # cs2)) (Bt x (ks1 @ ks2) (cs1 @ ?M # cs2))"
  proof (cases "ks1 @ ks2 = []")
    case True
    then have "owns d (b_nodes T3) (Bt x (ks1 @ ks2) ([] @ ?M # []))" using T3(5) len by simp
    from owns_parts(1,2) [OF this] have "owns d ((b_nodes T3)(x := None)) ?M" unfolding owns_def by (metis rep_upd)
    then show ?thesis using True by (simp add: T'_def)
  next
    case False
    then show ?thesis using T3 bal M len by (auto simp: T'_def)
  qed
  have "filled d h T x ks1 (m # ks2) cs1 l (r # cs2) T' ?M"
    using b M d(1) fin len(1,2) io inn(1)
    by (intro filledI [of T' T d h _ ks1 cs1 ks2 cs2 _ _ "[]" _ _ "m # inord r"])
      (simp_all del: inord.simps balanced.simps inner.simps ptrs.simps)
  moreover have bf: "keys_before (map inord (cs1 @ [l])) (ks1 @ [m]) = keys_before (map inord cs1) ks1 @ inord l @ [m]"
    using len(1) by (simp add: keys_before_append del: inord.simps)
  have inn': "inner ?M \<subseteq> inner r \<union> set (inord l @ [m]) \<union> set ([] :: int list)" using inn(2) by auto
  have "filled d h T x (ks1 @ [m]) ks2 (cs1 @ [l]) r cs2 T' ?M"
    using b M d(1) fin len(1,2) io inn' bf
    by (intro filledI [of T' T d h _ ks1 cs1 ks2 cs2 _ _ "inord l @ [m]" _ _ "[]"])
      (simp_all del: inord.simps balanced.simps inner.simps ptrs.simps)
  ultimately show ?thesis using T3(1) lr(1) unfolding T'_def by (intro exI [of _ T'] exI [of _ ?M]) (simp add: T'_def)
qed


lemma fill_ok:
  assumes d: "2 \<le> d" "b_t T = int d" and owns: "owns d (b_nodes T) (Bt x (ks1 @ ks2) (cs1 @ c # cs2))"
    and bal: "balanced d (Suc h) (Bt x (ks1 @ ks2) (cs1 @ c # cs2))"
    and len: "length ks1 = length cs1" "length ks2 = length cs2" "length (bt_keys c) = d - 1" "ks1 @ ks2 \<noteq> []"
  shows "\<exists>T' c'. fill_child T x (int (length ks1)) (bt_ptr c) = Some (T', bt_ptr c') \<and> filled d h T x ks1 ks2 cs1 c cs2 T' c'"
proof -
  have min: "\<forall>b \<in> set cs1 \<union> set cs2. d - 1 \<le> length (bt_keys b)" using bal by simp
  from fill_child_cases [OF d owns len(1,2,4) min] show ?thesis
  proof (elim disjE exE conjE)
    fix r cs2' assume r: "cs2 = r # cs2'" "d \<le> length (bt_keys r)" and f: "fill_child T x (int (length ks1)) (bt_ptr c) =
        Option.bind (borrow_next T x (int (length ks1)) (bt_ptr c) (bt_ptr r)) (\<lambda>T1. Some (T1, bt_ptr c))"
    then obtain m ks2' where m: "ks2 = m # ks2'" using len(2) by (cases ks2) auto
    have l2: "length ks2' = length cs2'" using len(2) r(1) m by simp
    from fill_next [OF d(1) owns [unfolded r(1) m] bal [unfolded r(1) m] len(1) l2 len(3) r(2)] obtain T' c'
      where "borrow_next T x (int (length ks1)) (bt_ptr c) (bt_ptr r) = Some T'" "bt_ptr c' = bt_ptr c"
        "filled d h T x ks1 ks2 cs1 c cs2 T' c'"
      unfolding r(1) m by blast
    then show ?thesis using f by (metis bind.bind_lunit)
  next
    fix l cs1' assume l: "cs1 = cs1' @ [l]" "d \<le> length (bt_keys l)" and f: "fill_child T x (int (length ks1)) (bt_ptr c) =
        Option.bind (borrow_prev T x (int (length ks1)) (bt_ptr c) (bt_ptr l)) (\<lambda>T1. Some (T1, bt_ptr c))"
    then obtain m ks1' where m: "ks1 = ks1' @ [m]" using len(1) by (cases ks1 rule: rev_cases) auto
    have o: "owns d (b_nodes T) (Bt x (ks1' @ m # ks2) (cs1' @ l # c # cs2))" "balanced d (Suc h) (Bt x (ks1' @ m # ks2) (cs1' @ l # c # cs2))"
      using owns bal l(1) m by simp_all
    have l1: "length ks1' = length cs1'" using len(1) l(1) m by simp
    from fill_prev [OF d(1) o l1 len(2,3) l(2)] obtain T' c'
      where "borrow_prev T x (int (length ks1') + 1) (bt_ptr c) (bt_ptr l) = Some T'" "bt_ptr c' = bt_ptr c"
        "filled d h T x ks1 ks2 cs1 c cs2 T' c'"
      unfolding l(1) m by blast
    moreover have "int (length ks1) = int (length ks1') + 1" using m by simp
    ultimately show ?thesis using f by (metis bind.bind_lunit)
  next
    fix l cs1' assume l: "cs1 = cs1' @ [l]" "length (bt_keys l) = d - 1" and f: "fill_child T x (int (length ks1)) (bt_ptr c) =
        Option.bind (btree_merge T x (int (length ks1) - 1)) (\<lambda>T1. Some (T1, bt_ptr l))"
    then obtain m ks1' where m: "ks1 = ks1' @ [m]" using len(1) by (cases ks1 rule: rev_cases) auto
    have o: "owns d (b_nodes T) (Bt x (ks1' @ m # ks2) (cs1' @ l # c # cs2))" "balanced d (Suc h) (Bt x (ks1' @ m # ks2) (cs1' @ l # c # cs2))"
      using owns bal l(1) m by simp_all
    have l1: "length ks1' = length cs1'" using len(1) l(1) m by simp
    from fill_merge [OF d o l1 len(2) l(2) len(3)] obtain T' c'
      where "btree_merge T x (int (length ks1')) = Some T'" "bt_ptr c' = bt_ptr l" "filled d h T x ks1 ks2 cs1 c cs2 T' c'"
      unfolding l(1) m by blast
    moreover have "int (length ks1) - 1 = int (length ks1')" using m by simp
    ultimately show ?thesis using f by (metis bind.bind_lunit)
  next
    fix r cs2' assume r: "cs1 = []" "cs2 = r # cs2'" "length (bt_keys r) = d - 1" and f: "fill_child T x (int (length ks1)) (bt_ptr c) =
        Option.bind (btree_merge T x (int (length ks1))) (\<lambda>T1. Some (T1, bt_ptr c))"
    then obtain m ks2' where m: "ks2 = m # ks2'" using len(2) by (cases ks2) auto
    have l2: "length ks2' = length cs2'" using len(2) r(2) m by simp
    from fill_merge [OF d owns [unfolded r(2) m] bal [unfolded r(2) m] len(1) l2 len(3) r(3)] obtain T' c'
      where "btree_merge T x (int (length ks1)) = Some T'" "bt_ptr c' = bt_ptr c" "filled d h T x ks1 ks2 cs1 c cs2 T' c'"
      unfolding r(2) m by blast
    then show ?thesis using f by (metis bind.bind_lunit)
  qed
qed

section \<open>Deletion from a leaf\<close>

text \<open>The outcome of deleting below a node that stays, and of deleting below a root that gives way to its only
  child.\<close>

definition kept :: "nat \<Rightarrow> nat \<Rightarrow> btree \<Rightarrow> bt \<Rightarrow> int \<Rightarrow> btree \<Rightarrow> bt \<Rightarrow> bool" where
  "kept d h T t key T' t' \<longleftrightarrow> b_t T' = b_t T \<and> dom (b_nodes T') \<subseteq> dom (b_nodes T) \<and> owns d (b_nodes T') t' \<and>
     inord t' = remove1 key (inord t) \<and> balanced d h t' \<and> bt_ptr t' = bt_ptr t \<and> b_root T' = b_root T \<and>
     touches (b_nodes T) (b_nodes T') t t' \<and> length (bt_keys t) \<le> Suc (length (bt_keys t')) \<and> (h \<noteq> 0 \<longrightarrow> bt_keys t' \<noteq> [])"

definition shrunk :: "nat \<Rightarrow> nat \<Rightarrow> btree \<Rightarrow> bt \<Rightarrow> int \<Rightarrow> btree \<Rightarrow> bt \<Rightarrow> bool" where
  "shrunk d h T t key T' t' \<longleftrightarrow> b_t T' = b_t T \<and> dom (b_nodes T') \<subseteq> dom (b_nodes T) \<and> owns d (b_nodes T') t' \<and>
     inord t' = remove1 key (inord t) \<and> balanced d h t' \<and> b_root T' = bt_ptr t' \<and> bt_keys t' \<noteq> [] \<and> length (bt_keys t) = 1"

lemma remove1_parts: "key \<notin> set A \<Longrightarrow> key \<notin> set B \<Longrightarrow> remove1 key (A @ C @ B) = A @ remove1 key C @ B"
  by (cases "key \<in> set C") (auto simp: remove1_append remove1_idem)

lemma split_keys:
  fixes ks :: "int list"
  assumes "sorted ks"
  obtains ks1 ks2 where "ks = ks1 @ ks2" "\<forall>a \<in> set ks1. a < key" "\<forall>b \<in> set ks2. key \<le> b"
proof -
  have "key \<le> b" if b: "b \<in> set (dropWhile (\<lambda>a. a < key) ks)" for b
  proof -
    obtain c cs where c: "dropWhile (\<lambda>a. a < key) ks = c # cs" using b by (cases "dropWhile (\<lambda>a. a < key) ks") auto
    have "key \<le> c" using hd_dropWhile [of "\<lambda>a. a < key" ks] c by simp
    moreover have "sorted (c # cs)" using assms c by (metis sorted_dropWhile)
    ultimately show ?thesis using b c by auto
  qed
  then show ?thesis using that [of "takeWhile (\<lambda>a. a < key) ks" "dropWhile (\<lambda>a. a < key) ks"] by (auto dest: set_takeWhileD)
qed

lemma delete_leaf:
  assumes owns: "owns d (b_nodes T) (Bt x ks [])" and d: "2 \<le> d" and s: "sorted ks"
  shows "\<exists>T'. btree_delete_key T x key = Some T' \<and>
    (if ks = [key] then b_root T' = 0 else \<exists>t'. kept d 0 T (Bt x ks []) key T' t')"
proof -
  obtain ks1 ks2 where ks: "ks = ks1 @ ks2" "\<forall>a \<in> set ks1. a < key" "\<forall>b \<in> set ks2. key \<le> b" using split_keys [OF s] by metis
  obtain xn where xn: "b_nodes T x = Some xn" "node_ok d xn ks []" "x \<noteq> 0" using owns by (auto simp: owns_def)
  obtain kj where kj: "n_keys xn = ks1 @ ks2 @ kj" "length ks + length kj = 2 * d - 1" "n_num xn = int (length ks1 + length ks2)" "n_leaf xn = 1"
    using node_keys [OF xn(2)] ks(1) xn(2) by (auto simp: node_ok_def)
  have "\<forall>b \<in> set (take 1 ks2). key \<le> b" using ks(3) by (cases ks2) auto
  then have idx: "find_key (n_keys xn) (n_num xn) key 0 = Some (int (length ks1))"
    using find_key_parts [OF ks(2), of ks2 0 "n_num xn" kj] kj by simp
  have k1: "key \<notin> set ks1" using ks(2) by auto
  show ?thesis
  proof (cases "\<exists>ks2'. ks2 = key # ks2'")
    case True
    then obtain ks2' where k2: "ks2 = key # ks2'" by blast
    define l where "l = last (key # ks2')"
    let ?xn = "xn\<lparr>n_keys := ks1 @ ks2' @ 0 # kj, n_num := n_num xn - 1\<rparr>"
    define T1 where "T1 = put_node x ?xn T"
    have "shift_down (n_keys xn) (int (length ks1)) (n_num xn - 1) = Some (ks1 @ ks2' @ l # kj)"
      using shift_down_parts [of "int (length ks1)" ks1 "n_num xn - 1" ks2' key kj] kj k2 by (simp add: l_def)
    moreover have "aset (ks1 @ ks2' @ l # kj) (n_num xn - 1) 0 = Some (ks1 @ ks2' @ 0 # kj)"
      using aset_append [of "n_num xn - 1" "ks1 @ ks2'" l kj 0] kj k2 by simp
    ultimately have "delete_leaf_key T x (int (length ks1)) =
        Some (if n_num xn - 1 = 0 then T1\<lparr>b_root := 0, b_nodes := (b_nodes T1)(x := None)\<rparr> else T1)"
      using xn(1) by (simp add: delete_leaf_key_def Let_def T1_def)
    moreover have "aget (n_keys xn) (int (length ks1)) = Some key" using kj k2 by (simp add: aget_append)
    ultimately have run: "btree_delete_key T x key =
        Some (if n_num xn - 1 = 0 then T1\<lparr>b_root := 0, b_nodes := (b_nodes T1)(x := None)\<rparr> else T1)"
      using xn kj(3,4) idx k2 by (subst btree_delete_key.simps) simp
    show ?thesis
    proof (cases "ks = [key]")
      case True
      then have "n_num xn - 1 = 0" using kj ks(1) by (cases ks1) auto
      then show ?thesis using run True by simp
    next
      case False
      then have "ks1 @ ks2' \<noteq> []" using ks(1) k2 by auto
      then have "n_num xn - 1 \<noteq> 0" using kj(3) k2 by (cases ks1; cases ks2') auto
      moreover have "node_ok d ?xn (ks1 @ ks2') []" using xn(2) ks(1) kj k2 by (auto simp: node_ok_def)
      moreover have "remove1 key ks = ks1 @ ks2'" using k1 ks(1) k2 by (simp add: remove1_append)
      ultimately have "kept d 0 T (Bt x ks []) key T1 (Bt x (ks1 @ ks2') [])"
        using xn ks(1) kj(2) k2 by (auto simp: kept_def owns_def touches_def T1_def)
      then show ?thesis using run False \<open>n_num xn - 1 \<noteq> 0\<close> by auto
    qed
  next
    case False
    then have nk: "key \<notin> set ks" using ks k1 s by (cases ks2) (auto simp: sorted_append)
    have "n_childrens xn = replicate (6 * d) 0" using xn(2) by (simp add: node_ok_def)
    then have "aget (n_childrens xn) (int (length ks1)) = Some 0" using kj(2) ks(1) d by (simp add: aget_def)
    moreover have "(if int (length ks1) < n_num xn then Option.bind (aget (n_keys xn) (int (length ks1))) (\<lambda>v. Some (key = v)) else Some False) = Some False"
      using kj False by (cases ks2) (auto simp: aget_append)
    ultimately have "btree_delete_key T x key = Some T" using xn idx by (subst btree_delete_key.simps) simp
    moreover have "kept d 0 T (Bt x ks []) key T (Bt x ks [])"
      using owns nk xn(2) by (auto simp: kept_def touches_def remove1_idem node_ok_def)
    ultimately show ?thesis using nk by auto
  qed
qed

end
