(* ===== verification/B_Tree_Props.thy ===== *)
theory B_Tree_Props
  imports B_Tree_Remove
begin

text \<open>
  The theorems on the B-tree: insertion, deletion of a key that lies in a leaf, the whole program, and what
  deletion does to a key of an inner node.
\<close>

section \<open>The descent\<close>

lemma touches_refl: "touches H H t t"
  by (simp add: touches_def)

lemma filled_refl:
  assumes "owns d (b_nodes T) (Bt x (ks1 @ ks2) (cs1 @ c # cs2))" "balanced d (Suc h) (Bt x (ks1 @ ks2) (cs1 @ c # cs2))"
    and "length ks1 = length cs1" "length ks2 = length cs2" "d \<le> length (bt_keys c)" "ks1 @ ks2 \<noteq> []"
  shows "filled d h T x ks1 ks2 cs1 c cs2 T c"
  by (rule filledI [of T T d h c ks1 cs1 ks2 cs2 _ _ "[]" _ _ "[]"]) (use assms touches_refl in auto)

lemma inord_focus:
  "length ks1 = length cs1 \<Longrightarrow> inord (Bt x (ks1 @ ks2) (cs1 @ c # cs2)) = keys_before (map inord cs1) ks1 @ inord c @ keys_after ks2 (map inord cs2)"
  using weave_parts [of ks1 "map inord cs1" ks2 "inord c" "map inord cs2"] by simp

lemma delete_below:
  assumes IH: "\<And>T t. b_t T = int d \<Longrightarrow> owns d (b_nodes T) t \<Longrightarrow> balanced d h t \<Longrightarrow> d \<le> length (bt_keys t) \<Longrightarrow>
      sorted (inord t) \<Longrightarrow> key \<notin> inner t \<Longrightarrow> \<exists>T' t'. btree_delete_key T (bt_ptr t) key = Some T' \<and> kept d h T t key T' t'"
    and d: "2 \<le> d" "b_t T = int d" and f: "filled d h T x ks1 ks2 cs1 c cs2 T1 c1"
    and len: "length ks1 = length cs1" and one: "ks1 @ ks2 \<noteq> []"
    and s: "sorted (inord (Bt x (ks1 @ ks2) (cs1 @ c # cs2)))"
    and key: "key \<notin> inner c" "key \<notin> set (keys_before (map inord cs1) ks1)" "key \<notin> set (keys_after ks2 (map inord cs2))"
  shows "\<exists>T' t'. btree_delete_key T1 (bt_ptr c1) key = Some T' \<and>
    (kept d (Suc h) T (Bt x (ks1 @ ks2) (cs1 @ c # cs2)) key T' t' \<or> shrunk d h T (Bt x (ks1 @ ks2) (cs1 @ c # cs2)) key T' t')"
proof -
  let ?t = "Bt x (ks1 @ ks2) (cs1 @ c # cs2)"
  obtain ks1' ks2' cs1' cs2' X Y where f: "b_t T1 = b_t T" "dom (b_nodes T1) \<subseteq> dom (b_nodes T)" "balanced d h c1" "d \<le> length (bt_keys c1)"
    "length ks1' = length cs1'" "length ks2' = length cs2'"
    "keys_before (map inord cs1) ks1 = keys_before (map inord cs1') ks1' @ X" "keys_after ks2 (map inord cs2) = Y @ keys_after ks2' (map inord cs2')"
    "inord c1 = X @ inord c @ Y" "inner c1 \<subseteq> inner c \<union> set X \<union> set Y" "length (ks1 @ ks2) \<le> Suc (length (ks1' @ ks2'))"
    "if ks1' @ ks2' = [] then b_root T1 = bt_ptr c1 \<and> owns d (b_nodes T1) c1
      else b_root T1 = b_root T \<and> owns d (b_nodes T1) (Bt x (ks1' @ ks2') (cs1' @ c1 # cs2')) \<and>
        balanced d (Suc h) (Bt x (ks1' @ ks2') (cs1' @ c1 # cs2')) \<and>
        touches (b_nodes T) (b_nodes T1) ?t (Bt x (ks1' @ ks2') (cs1' @ c1 # cs2'))"
    using f unfolding filled_def by blast
  let ?A = "keys_before (map inord cs1') ks1'" and ?B = "keys_after ks2' (map inord cs2')"
  have io: "inord ?t = ?A @ inord c1 @ ?B" unfolding inord_focus [OF len] f(7-9) by simp
  then have sc: "sorted (inord c1)" using s by (simp add: sorted_append)
  have own1: "owns d (b_nodes T1) c1" using f(12) owns_parts(1) by (metis (full_types))
  have k1: "key \<notin> inner c1" "key \<notin> set ?A" "key \<notin> set ?B" using key f(7,8,10) by auto
  obtain T2 c2 where T2: "btree_delete_key T1 (bt_ptr c1) key = Some T2" "kept d h T1 c1 key T2 c2"
    using IH [OF _ own1 f(3,4) sc k1(1)] f(1) d(2) by auto
  note K = T2(2) [unfolded kept_def]
  have rem: "remove1 key (inord ?t) = ?A @ inord c2 @ ?B" unfolding io using remove1_parts [OF k1(2,3)] K by simp
  have dom: "dom (b_nodes T2) \<subseteq> dom (b_nodes T)" using K f(2) by (metis order_trans)
  have long: "d - 1 \<le> length (bt_keys c2)" using K f(4) by auto
  show ?thesis
  proof (cases "ks1' @ ks2' = []")
    case True
    then have "?A = []" "?B = []" using f(5,6) by simp_all
    moreover have "length (ks1 @ ks2) = 1" using True f(11) one by (cases ks1; cases ks2) auto
    moreover have "b_root T1 = bt_ptr c1" using f(12) True by simp
    ultimately have "shrunk d h T ?t key T2 c2"
      unfolding shrunk_def using K f(1) dom rem long d(1) by (cases "bt_keys c2") (simp_all del: inord.simps)
    then show ?thesis using T2(1) by blast
  next
    case False
    let ?t1 = "Bt x (ks1' @ ks2') (cs1' @ c1 # cs2')" and ?t2 = "Bt x (ks1' @ ks2') (cs1' @ c2 # cs2')"
    have g: "b_root T1 = b_root T" "owns d (b_nodes T1) ?t1" "balanced d (Suc h) ?t1" "touches (b_nodes T) (b_nodes T1) ?t ?t1"
      using f(12) unfolding if_not_P [OF False] by blast+
    have "owns d (b_nodes T2) ?t2" using refocus [OF g(2)] K by blast
    moreover have "touches (b_nodes T) (b_nodes T2) ?t ?t2" using touches_trans [OF g(4) touches_focus] K by blast
    moreover have "balanced d (Suc h) ?t2" using g(3) K long by simp
    moreover have "inord ?t2 = remove1 key (inord ?t)" unfolding rem by (rule inord_focus [OF f(5)])
    ultimately have "kept d (Suc h) T ?t key T2 ?t2"
      unfolding kept_def using K f(1,11) dom g(1) False by (simp del: inord.simps balanced.simps)
    then show ?thesis using T2(1) by blast
  qed
qed

lemma delete_step:
  assumes IH: "\<And>T t. b_t T = int d \<Longrightarrow> owns d (b_nodes T) t \<Longrightarrow> balanced d h t \<Longrightarrow> d \<le> length (bt_keys t) \<Longrightarrow>
      sorted (inord t) \<Longrightarrow> key \<notin> inner t \<Longrightarrow> \<exists>T' t'. btree_delete_key T (bt_ptr t) key = Some T' \<and> kept d h T t key T' t'"
    and d: "2 \<le> d" "b_t T = int d" and owns: "owns d (b_nodes T) t" and bal: "balanced d (Suc h) t"
    and one: "bt_keys t \<noteq> []" and s: "sorted (inord t)" and key: "key \<notin> inner t"
  shows "\<exists>T' t'. btree_delete_key T (bt_ptr t) key = Some T' \<and> (kept d (Suc h) T t key T' t' \<or> shrunk d h T t key T' t')"
proof -
  obtain x ks cs where t: "t = Bt x ks cs" by (cases t)
  have sk: "sorted ks" using sorted_keys [of x ks cs] bal s t by auto
  obtain ks1 ks2 where ks: "ks = ks1 @ ks2" "\<forall>a \<in> set ks1. a < key" "\<forall>b \<in> set ks2. key \<le> b" using split_keys [OF sk] by metis
  have nk: "key \<notin> set ks" using key bal t by (auto split: if_splits)
  then have k2: "\<forall>b \<in> set ks2. key < b" using ks by (auto simp: less_le)
  have "length ks1 < length cs" using bal t ks(1) by simp
  then obtain cs1 c cs2 where cs: "cs = cs1 @ c # cs2" "length ks1 = length cs1" by (metis id_take_nth_drop length_take min.absorb4)
  note t = t [unfolded ks(1) cs(1)]
  have len2: "length ks2 = length cs2" using bal t cs(2) by simp
  have ne: "ks1 @ ks2 \<noteq> []" using one t by simp
  obtain xn where xn: "b_nodes T x = Some xn" "n_num xn = int (length (ks1 @ ks2))" "node_ok d xn (ks1 @ ks2) (map bt_ptr (cs1 @ c # cs2))"
    "aget (n_childrens xn) (int (length cs1)) = Some (bt_ptr c)"
    using node_at owns t by metis
  have x: "x \<noteq> 0" using owns t by (auto simp: owns_def)
  obtain kj where kj: "n_keys xn = ks1 @ ks2 @ kj" using node_keys [OF xn(3)] by auto
  have "\<forall>b \<in> set (take 1 ks2). key \<le> b" using ks(3) by (cases ks2) auto
  then have idx: "find_key (n_keys xn) (n_num xn) key 0 = Some (int (length ks1))"
    using find_key_parts [OF ks(2), of ks2 0 "n_num xn" kj] kj xn(2) by simp
  have miss: "(if int (length ks1) < n_num xn then Option.bind (aget (n_keys xn) (int (length ks1))) (\<lambda>v. Some (key = v)) else Some False) = Some False"
    using kj xn(2) k2 by (cases ks2) (auto simp: aget_append)
  have io: "inord t = keys_before (map inord cs1) ks1 @ inord c @ keys_after ks2 (map inord cs2)" using inord_focus [OF cs(2)] t by simp
  have kA: "key \<notin> set (keys_before (map inord cs1) ks1)" using keys_before_less [of "map inord cs1" ks1 "inord c @ keys_after ks2 (map inord cs2)" key key] s io ks(2) cs(2) by auto
  have "\<forall>b \<in> set (take 1 ks2). key + 1 \<le> b" using k2 by (cases ks2) auto
  then have kB: "key \<notin> set (keys_after ks2 (map inord cs2))"
    using keys_after_ge [of "keys_before (map inord cs1) ks1 @ inord c" ks2 "map inord cs2" "key + 1" key] s io len2 by auto
  have kc: "key \<notin> inner c" using key t by auto
  obtain cn where cn: "b_nodes T (bt_ptr c) = Some cn" "n_num cn = int (length (bt_keys c))" "bt_ptr c \<noteq> 0"
    using root_node owns_parts(1) owns t by metis
  have st: "sorted (inord (Bt x (ks1 @ ks2) (cs1 @ c # cs2)))" using s t by simp
  have own_t: "owns d (b_nodes T) (Bt x (ks1 @ ks2) (cs1 @ c # cs2))" and bal_t: "balanced d (Suc h) (Bt x (ks1 @ ks2) (cs1 @ c # cs2))"
    using owns bal t by simp_all
  have "\<exists>T1 c1. (if n_num cn = b_t T - 1 then fill_child T x (int (length ks1)) (bt_ptr c) else Some (T, bt_ptr c)) = Some (T1, bt_ptr c1) \<and>
      filled d h T x ks1 ks2 cs1 c cs2 T1 c1"
  proof (cases "length (bt_keys c) = d - 1")
    case True
    then have "n_num cn = b_t T - 1" using cn(2) d by (simp add: of_nat_diff)
    then show ?thesis using fill_ok [OF d own_t bal_t cs(2) len2 True ne] by simp
  next
    case False
    then have "d \<le> length (bt_keys c)" using bal_t by auto
    moreover from this have "n_num cn \<noteq> b_t T - 1" using cn(2) d by simp
    ultimately show ?thesis using filled_refl [OF own_t bal_t cs(2) len2 _ ne] by auto
  qed
  then obtain T1 c1 where T1: "(if n_num cn = b_t T - 1 then fill_child T x (int (length ks1)) (bt_ptr c) else Some (T, bt_ptr c)) = Some (T1, bt_ptr c1)"
      "filled d h T x ks1 ks2 cs1 c cs2 T1 c1" by blast
  have "aget (n_childrens xn) (int (length ks1)) = Some (bt_ptr c)" using xn(4) cs(2) by simp
  then have "btree_delete_key T x key = btree_delete_key T1 (bt_ptr c1) key"
    using xn(1) idx miss cn(1,3) x T1(1) by (subst btree_delete_key.simps) (simp split del: if_split)
  then show ?thesis using delete_below [OF IH d T1(2) cs(2) ne st kc kA kB] t by simp
qed


lemma delete_sub:
  "2 \<le> d \<Longrightarrow> b_t T = int d \<Longrightarrow> owns d (b_nodes T) t \<Longrightarrow> balanced d h t \<Longrightarrow> d \<le> length (bt_keys t) \<Longrightarrow> sorted (inord t) \<Longrightarrow>
   key \<notin> inner t \<Longrightarrow> \<exists>T' t'. btree_delete_key T (bt_ptr t) key = Some T' \<and> kept d h T t key T' t'"
proof (induction h arbitrary: T t)
  case 0
  then obtain x ks where t: "t = Bt x ks []" by (cases t) auto
  then have "sorted ks" "ks \<noteq> [key]" using 0 by auto
  then show ?case using delete_leaf [of d T x ks key] 0 t by auto
next
  case (Suc h)
  have "bt_keys t \<noteq> []" using Suc.prems(1,5) by auto
  from delete_step [OF Suc.IH [OF Suc.prems(1)] Suc.prems(1-4) this Suc.prems(6,7)]
  obtain T' t' where r: "btree_delete_key T (bt_ptr t) key = Some T'" "kept d (Suc h) T t key T' t' \<or> shrunk d h T t key T' t'" by blast
  have "\<not> shrunk d h T t key T' t'" using Suc.prems(1,5) by (auto simp: shrunk_def)
  then show ?case using r by blast
qed

lemma sorted_remove: "sorted xs \<Longrightarrow> sorted (remove1 key (xs :: int list))"
  by (rule sorted_remove1)

lemma delete_holds:
  assumes wf: "btree_wf d h T t" and key: "key \<notin> inner t"
  shows "\<exists>T'. btree_delete T key = Some (0, T') \<and>
    (if inord t = [key] then b_root T' = 0 else btree_holds d T' (remove1 key (inord t)))"
proof -
  have d: "2 \<le> d" "b_t T = int d" "b_root T = bt_ptr t" "owns d (b_nodes T) t" "balanced d h t" "h \<noteq> 0 \<longrightarrow> bt_keys t \<noteq> []"
    "sorted (inord t)" "finite (dom (b_nodes T))"
    using wf by (simp_all add: btree_wf_def)
  have root: "bt_ptr t \<noteq> 0" using root_node [OF d(4)] by metis
  have keep: "btree_holds d T' (remove1 key (inord t))" if K: "kept d h T t key T' t'" for T' t'
    unfolding btree_holds_def btree_wf_def
    by (rule exI [of _ h], rule exI [of _ t'])
      (use K d sorted_remove [OF d(7)] in \<open>auto simp: kept_def intro: finite_subset\<close>)
  show ?thesis
  proof (cases h)
    case 0
    then obtain x ks where t: "t = Bt x ks []" using d(5) by (cases t) auto
    from delete_leaf [of d T x ks key] obtain T' where T': "btree_delete_key T x key = Some T'"
      "if ks = [key] then b_root T' = 0 else \<exists>t'. kept d 0 T (Bt x ks []) key T' t'" using d t by auto
    then show ?thesis using keep d(3) root t 0 by (auto simp: btree_delete_def split: if_splits)
  next
    case (Suc h')
    have "bt_keys t \<noteq> []" "set (bt_keys t) \<subseteq> inner t" using d(5,6) Suc by (cases t; auto)+
    then have ne: "inord t \<noteq> [key]" using inner_inord [OF d(5)] key by (cases "bt_keys t") auto
    from delete_step [OF delete_sub [OF d(1)] d(1,2,4) d(5) [unfolded Suc] _ d(7) key]
    obtain T' t' where r: "btree_delete_key T (bt_ptr t) key = Some T'" "kept d (Suc h') T t key T' t' \<or> shrunk d h' T t key T' t'"
      using d(6) Suc by blast
    have "btree_holds d T' (remove1 key (inord t))"
      using r(2)
    proof
      assume S: "shrunk d h' T t key T' t'"
      show ?thesis unfolding btree_holds_def btree_wf_def
        by (rule exI [of _ h'], rule exI [of _ t'])
          (use S d sorted_remove [OF d(7)] in \<open>auto simp: shrunk_def intro: finite_subset\<close>)
    qed (use keep Suc in blast)
    then show ?thesis using r(1) ne d(3) root by (simp add: btree_delete_def)
  qed
qed


section \<open>Walks\<close>

lemma node_of:
  assumes "owns d (b_nodes T) (Bt x ks cs)"
  obtains n where "b_nodes T x = Some n" "n_num n = int (length ks)" "n_leaf n = (if cs = [] then 1 else 0)"
    "cs = [] \<Longrightarrow> n_childrens n = replicate (6 * d) 0" "\<exists>kj. n_keys n = ks @ kj"
  using assms by (auto simp: owns_def node_ok_def split: if_splits)

lemma traverse_leaf: "owns d (b_nodes T) (Bt x (ks1 @ ks2) []) \<Longrightarrow> traverse_from T x (int (length ks1)) = Some ks2"
proof (induction ks2 arbitrary: ks1)
  case Nil
  show ?case
  proof (rule node_of [OF Nil])
    fix n assume n: "b_nodes T x = Some n" "n_num n = int (length (ks1 @ []))" "n_leaf n = (if ([] :: bt list) = [] then 1 else 0)"
    then show ?thesis by (subst traverse_from.simps) simp
  qed
next
  case (Cons k ks2)
  have IH: "traverse_from T x (int (length ks1) + 1) = Some ks2" using Cons.IH [of "ks1 @ [k]"] Cons.prems by (simp add: add.commute)
  show ?case
  proof (rule node_of [OF Cons.prems])
    fix n assume n: "b_nodes T x = Some n" "n_num n = int (length (ks1 @ k # ks2))" "n_leaf n = (if ([] :: bt list) = [] then 1 else 0)"
      "\<exists>kj. n_keys n = (ks1 @ k # ks2) @ kj"
    then have "aget (n_keys n) (int (length ks1)) = Some k" by (auto simp: aget_append)
    then show ?thesis using n(1-3) IH by (subst traverse_from.simps) simp
  qed
qed

lemma traverse_inner:
  assumes IH: "\<And>c. owns d (b_nodes T) c \<Longrightarrow> balanced d h c \<Longrightarrow> traverse_from T (bt_ptr c) 0 = Some (inord c)"
  shows "owns d (b_nodes T) (Bt x (ks1 @ ks2) (cs1 @ c # cs2)) \<Longrightarrow> balanced d (Suc h) (Bt x (ks1 @ ks2) (cs1 @ c # cs2)) \<Longrightarrow>
    length ks1 = length cs1 \<Longrightarrow> traverse_from T x (int (length ks1)) = Some (inord c @ keys_after ks2 (map inord cs2))"
proof (induction ks2 arbitrary: ks1 cs1 c cs2)
  case Nil
  show ?case
  proof (rule node_of [OF Nil(1)])
    fix n assume n: "b_nodes T x = Some n" "n_num n = int (length (ks1 @ []))" "n_leaf n = (if cs1 @ c # cs2 = [] then 1 else 0)"
    have "aget (n_childrens n) (int (length ks1)) = Some (bt_ptr c)" using child_at [OF Nil(1) n(1)] Nil(3) by simp
    then show ?thesis using n IH [of c] owns_parts(1) [OF Nil(1)] Nil(2) by (subst traverse_from.simps) simp
  qed
next
  case (Cons k ks2)
  then obtain c' cs2' where cs2: "cs2 = c' # cs2'" by (cases cs2) auto
  have IH2: "traverse_from T x (int (length ks1) + 1) = Some (inord c' @ keys_after ks2 (map inord cs2'))"
    using Cons.IH [of "ks1 @ [k]" "cs1 @ [c]" c' cs2'] Cons.prems cs2 by (simp add: add.commute)
  show ?case
  proof (rule node_of [OF Cons.prems(1)])
    fix n assume n: "b_nodes T x = Some n" "n_num n = int (length (ks1 @ k # ks2))" "n_leaf n = (if cs1 @ c # cs2 = [] then 1 else 0)"
      "\<exists>kj. n_keys n = (ks1 @ k # ks2) @ kj"
    then have "aget (n_keys n) (int (length ks1)) = Some k" by (auto simp: aget_append)
    moreover have "aget (n_childrens n) (int (length ks1)) = Some (bt_ptr c)" using child_at [OF Cons.prems(1) n(1)] Cons.prems(3) by simp
    ultimately show ?thesis using n(1-3) IH [of c] IH2 owns_parts(1) [OF Cons.prems(1)] Cons.prems(2) cs2
      by (subst traverse_from.simps) simp
  qed
qed

lemma traverse_ok: "owns d (b_nodes T) t \<Longrightarrow> balanced d h t \<Longrightarrow> traverse_from T (bt_ptr t) 0 = Some (inord t)"
proof (induction h arbitrary: t)
  case 0
  then obtain x ks where "t = Bt x ks []" by (cases t) auto
  then show ?case using traverse_leaf [of d T x "[]" ks] 0 by simp
next
  case (Suc h)
  obtain x ks c cs where t: "t = Bt x ([] @ ks) ([] @ c # cs)" using Suc.prems(2) by (cases t; cases "bt_subs t") auto
  have "traverse_from T x (int (length ([] :: int list))) = Some (inord c @ keys_after ks (map inord cs))"
    by (rule traverse_inner [OF Suc.IH]) (use Suc.prems t in auto)
  then show ?case using t by (simp add: weave_def)
qed

lemma traverse_holds: "btree_holds d T xs \<Longrightarrow> btree_traverse T (b_root T) = Some xs"
  unfolding btree_holds_def btree_wf_def btree_traverse_def using traverse_ok by metis

lemma those_all: "(\<And>i. i \<in> set is \<Longrightarrow> f i \<noteq> None) \<Longrightarrow> those (map f is) \<noteq> None"
  by (induction "is") (force split: option.splits)+

lemma print_node_ok: "owns d (b_nodes T) t \<Longrightarrow> \<exists>l. print_node T (bt_ptr t) layer = Some l"
proof (cases t)
  case (Bt x ks cs)
  assume "owns d (b_nodes T) t"
  then have "owns d (b_nodes T) (Bt x ks cs)" using Bt by simp
  then show ?thesis
  proof (rule node_of)
    fix n assume n: "b_nodes T x = Some n" "n_num n = int (length ks)" "\<exists>kj. n_keys n = ks @ kj"
    have "those (map (\<lambda>i. aget (n_keys n) (int i)) [0..<nat (n_num n)]) \<noteq> None" by (rule those_all) (use n in \<open>auto simp: aget_def\<close>)
    then show ?thesis using Bt n(1) by (auto simp: print_node_def)
  qed
qed

lemma print_leaf: "2 \<le> d \<Longrightarrow> owns d (b_nodes T) (Bt x ks []) \<Longrightarrow> i + k = length ks + 1 \<Longrightarrow> print_children T x layer (int i) = Some []"
proof (induction k arbitrary: i)
  case 0
  show ?case by (rule node_of [OF 0(2)]) (use 0(3) in \<open>subst print_children.simps, simp\<close>)
next
  case (Suc k)
  have IH: "print_children T x layer (int i + 1) = Some []" using Suc.IH [of "i + 1"] Suc.prems by (simp add: add.commute)
  show ?case
  proof (rule node_of [OF Suc.prems(2)])
    fix n assume n: "b_nodes T x = Some n" "n_num n = int (length ks)" "[] = ([] :: bt list) \<Longrightarrow> n_childrens n = replicate (6 * d) 0"
    have "length ks \<le> 2 * d - 1" using Suc.prems(2) by (auto simp: owns_def node_ok_def)
    then have "i < 6 * d" using Suc.prems(1,3) by linarith
    then have "aget (n_childrens n) (int i) = Some 0" using n(3) by (simp add: aget_def)
    then show ?thesis using n(1,2) IH Suc.prems(3) by (subst print_children.simps) simp
  qed
qed


lemma print_inner:
  assumes IH: "\<And>c layer. owns d (b_nodes T) c \<Longrightarrow> balanced d h c \<Longrightarrow> \<exists>ls. print_children T (bt_ptr c) layer 0 = Some ls"
  shows "owns d (b_nodes T) (Bt x ks (cs1 @ cs2)) \<Longrightarrow> balanced d (Suc h) (Bt x ks (cs1 @ cs2)) \<Longrightarrow>
    \<exists>ls. print_children T x layer (int (length cs1)) = Some ls"
proof (induction cs2 arbitrary: cs1)
  case Nil
  show ?case by (rule node_of [OF Nil(1)]) (use Nil(2) in \<open>subst print_children.simps, simp\<close>)
next
  case (Cons c cs2)
  obtain ls where ls: "print_children T x layer (int (length cs1) + 1) = Some ls"
    using Cons.IH [of "cs1 @ [c]"] Cons.prems by (auto simp: add.commute)
  have owns: "owns d (b_nodes T) c" using owns_parts(1) Cons.prems(1) by blast
  obtain l where l: "print_node T (bt_ptr c) layer = Some l" using print_node_ok [OF owns] by blast
  obtain ls' where ls': "print_children T (bt_ptr c) (layer + 1) 0 = Some ls'" using IH [OF owns] Cons.prems(2) by auto
  show ?case
  proof (rule node_of [OF Cons.prems(1)])
    fix n assume n: "b_nodes T x = Some n" "n_num n = int (length ks)"
    have "aget (n_childrens n) (int (length cs1)) = Some (bt_ptr c)" using child_at [OF Cons.prems(1) n(1)] by simp
    moreover have "int (length cs1) \<le> n_num n" using n(2) Cons.prems(2) by simp
    ultimately show ?thesis using n(1) ls l ls' by (subst print_children.simps) simp
  qed
qed

lemma print_children_ok:
  "2 \<le> d \<Longrightarrow> owns d (b_nodes T) t \<Longrightarrow> balanced d h t \<Longrightarrow> \<exists>ls. print_children T (bt_ptr t) layer 0 = Some ls"
proof (induction h arbitrary: t layer)
  case 0
  then obtain x ks where "t = Bt x ks []" by (cases t) auto
  then show ?case using print_leaf [of d T x ks 0 "length ks + 1" layer] 0 by simp
next
  case (Suc h)
  obtain x ks cs where t: "t = Bt x ks ([] @ cs)" by (cases t) auto
  have "\<exists>ls. print_children T x layer (int (length ([] :: bt list))) = Some ls"
    by (rule print_inner [OF Suc.IH]) (use Suc.prems t in auto)
  then show ?case using t by simp
qed

lemma print_holds:
  assumes "btree_holds d T xs"
  shows "\<exists>ls. btree_print T (b_root T) layer = Some ls"
proof -
  obtain h t where wf: "btree_wf d h T t" using assms by (auto simp: btree_holds_def)
  then have t: "2 \<le> d" "owns d (b_nodes T) t" "balanced d h t" "b_root T = bt_ptr t" by (simp_all add: btree_wf_def)
  obtain l where l: "print_node T (bt_ptr t) layer = Some l" using print_node_ok [OF t(2)] by blast
  obtain ls where "print_children T (bt_ptr t) (layer + 1) 0 = Some ls" using print_children_ok [OF t(1-3)] by blast
  then show ?thesis using l t(4) by (simp add: btree_print_def)
qed

text \<open>The search in a node finds the first key that is not below the one looked for.\<close>

lemma bin_search_loop_ok:
  "0 \<le> low \<Longrightarrow> low \<le> high + 1 \<Longrightarrow> high < int n \<Longrightarrow> n \<le> length keys \<Longrightarrow> sorted (take n keys) \<Longrightarrow>
   (\<And>i. int i < low \<Longrightarrow> keys ! i < key) \<Longrightarrow> (\<And>i. high < int i \<Longrightarrow> i < n \<Longrightarrow> key \<le> keys ! i) \<Longrightarrow>
   \<exists>r. bin_search_loop keys low high key = Some (int r) \<and> r \<le> n \<and> (\<forall>i < r. keys ! i < key) \<and> (\<forall>i. r \<le> i \<longrightarrow> i < n \<longrightarrow> key \<le> keys ! i)"
proof (induction keys low high key rule: bin_search_loop.induct)
  case (1 keys low high key)
  show ?case
  proof (cases "high < low")
    case True
    then have "bin_search_loop keys low high key = Some (int (nat low))" using 1(3) by (subst bin_search_loop.simps) simp
    moreover have "\<forall>i < nat low. keys ! i < key" "\<forall>i. nat low \<le> i \<longrightarrow> i < n \<longrightarrow> key \<le> keys ! i"
      using 1(8,9) True by auto
    ultimately show ?thesis using 1(4,5) True by (intro exI [of _ "nat low"]) auto
  next
    case False
    define mid where "mid = (low + high) div 2"
    have m: "low \<le> mid" "mid \<le> high" using False by (auto simp: mid_def)
    then obtain j where j: "mid = int j" "j < n" using 1(3,5) by (metis int_ops(1) le_less_trans of_nat_less_iff order_trans zero_le_imp_eq_int)
    have v: "aget keys mid = Some (keys ! j)" using j 1(6) by (simp add: aget_def)
    have srt: "keys ! a \<le> keys ! b" if "a \<le> b" "b < n" for a b
      using sorted_nth_mono [OF 1(7), of a b] that 1(6) by simp
    show ?thesis
    proof (cases "key > keys ! j")
      case True
      have "bin_search_loop keys low high key = bin_search_loop keys (mid + 1) high key"
        using False v True by (subst bin_search_loop.simps) (simp add: mid_def [symmetric] Let_def)
      moreover have "keys ! i < key" if "int i < mid + 1" for i using srt [of i j] that j True by auto
      ultimately show ?thesis using 1(1) [OF False refl v [unfolded mid_def] True] 1(3-9) m by (auto simp: mid_def)
    next
      case F: False
      have "bin_search_loop keys low high key = bin_search_loop keys low (mid - 1) key"
        using False v F by (subst bin_search_loop.simps) (simp add: mid_def [symmetric] Let_def)
      moreover have "key \<le> keys ! i" if "mid - 1 < int i" "i < n" for i using srt [of j i] that j F by auto
      ultimately show ?thesis using 1(2) [OF False refl v [unfolded mid_def] F] 1(3-9) m by (auto simp: mid_def)
    qed
  qed
qed

lemma bin_search_finds:
  assumes "node_ok d n ks ps" "sorted ks" "ks \<noteq> []"
  shows "\<exists>r. btree_bin_search n 0 (n_num n - 1) key = Some (int r) \<and> r \<le> length ks \<and>
    (\<forall>i < r. ks ! i < key) \<and> (\<forall>i. r \<le> i \<longrightarrow> i < length ks \<longrightarrow> key \<le> ks ! i)"
proof -
  obtain kj where kj: "n_keys n = ks @ kj" using node_keys [OF assms(1)] by blast
  have num: "n_num n = int (length ks)" "0 < length ks" using node_num [OF assms(1)] assms(3) by auto
  have "\<exists>r. bin_search_loop (n_keys n) 0 (n_num n - 1) key = Some (int r) \<and> r \<le> length ks \<and> (\<forall>i < r. n_keys n ! i < key) \<and>
      (\<forall>i. r \<le> i \<longrightarrow> i < length ks \<longrightarrow> key \<le> n_keys n ! i)"
    by (rule bin_search_loop_ok) (use assms(2) kj num in auto)
  then show ?thesis using num kj by (auto simp: btree_bin_search_def nth_append)
qed

section \<open>The program\<close>

lemma create_holds:
  assumes new: "calloc_ok new" and d: "2 \<le> d"
  shows "\<exists>T. btree_create new (int d) = Some T \<and> btree_holds d T []"
proof -
  let ?base = "\<lparr>b_root = 0, b_t = int d, b_nodes = (\<lambda>_. None)\<rparr>"
  obtain z where z: "new (\<lambda>_. None) = Some z" "z \<noteq> 0" using new unfolding calloc_ok_def by (metis dom_empty finite.emptyI)
  let ?n = "\<lparr>n_keys = replicate (2 * d - 1) 0, n_childrens = replicate (6 * d) 0, n_num = 0, n_leaf = 1\<rparr>"
  let ?T = "(put_node z ?n ?base)\<lparr>b_root := z\<rparr>"
  have "btree_create new (int d) = Some ?T" using create_node [of new ?base z d 1] z by (simp add: btree_create_def)
  moreover have "btree_wf d 0 ?T (Bt z [] [])" using z d by (simp add: btree_wf_def owns_def node_ok_def)
  moreover have "inord (Bt z [] []) = []" by simp
  ultimately show ?thesis unfolding btree_holds_def by blast
qed

lemma insert_all_holds:
  "calloc_ok new \<Longrightarrow> btree_holds d T xs \<Longrightarrow> \<exists>T'. insert_all new ks T = Some T' \<and> btree_holds d T' (sort (ks @ xs))"
proof (induction ks arbitrary: T xs)
  case Nil
  then have "sorted xs" by (auto simp: btree_holds_def btree_wf_def)
  then show ?case using Nil.prems(2) by (simp add: sorted_sort_id)
next
  case (Cons k ks)
  obtain T1 where T1: "btree_insert new T k = Some T1" "btree_holds d T1 (insort k xs)" using insert_holds Cons.prems by blast
  obtain T' where "insert_all new ks T1 = Some T'" "btree_holds d T' (sort (ks @ insort k xs))" using Cons.IH [OF Cons.prems(1) T1(2)] by blast
  moreover have "sort (ks @ insort k xs) = sort ((k # ks) @ xs)" by (rule sorted_same) (simp_all add: sorted_insort)
  ultimately show ?case using T1(1) by simp
qed

lemma last_leaf: "2 \<le> d \<Longrightarrow> balanced d h t \<Longrightarrow> distinct (inord t) \<Longrightarrow> bt_keys t \<noteq> [] \<Longrightarrow> last (inord t) \<notin> inner t"
proof (induction h arbitrary: t)
  case 0
  then show ?case by (cases t) auto
next
  case (Suc h)
  obtain x ks cs c where t: "t = Bt x (ks @ []) (cs @ c # [])" "length ks = length cs"
    using Suc.prems(2) by (cases t; cases "bt_subs t" rule: rev_cases) auto
  have io: "inord t = keys_before (map inord cs) ks @ inord c" using inord_focus [OF t(2), of x "[]" c "[]"] t by simp
  have c: "balanced d h c" "bt_keys c \<noteq> []" using Suc.prems(1,2) t by auto
  have ne: "inord c \<noteq> []" by (rule inord_ne [OF c])
  have "last (inord c) \<notin> inner c" using Suc.IH [OF Suc.prems(1) c(1) _ c(2)] Suc.prems(3) io by simp
  moreover have "last (inord c) \<notin> set (keys_before (map inord cs) ks)" using ne io Suc.prems(3) by auto
  moreover have "inner t \<subseteq> set (keys_before (map inord cs) ks) \<union> inner c"
    using set_keys_before [of "map inord cs" ks] t Suc.prems(2) inner_inord by fastforce
  ultimately show ?case using io ne by auto
qed

lemma delete_all_ok:
  "btree_holds d T xs \<Longrightarrow> distinct xs \<Longrightarrow> xs \<noteq> [] \<Longrightarrow> \<exists>outs T'. delete_all (rev xs) T = Some (outs, T') \<and> b_root T' = 0 \<and> length outs = length xs"
proof (induction xs arbitrary: T rule: rev_induct)
  case (snoc k xs)
  obtain h t where wf: "btree_wf d h T t" "inord t = xs @ [k]" using snoc.prems(1) by (auto simp: btree_holds_def)
  then have "bt_keys t \<noteq> []" by (cases h; cases t) (auto simp: btree_wf_def)
  then have "k \<notin> inner t" using last_leaf [of d h t] wf snoc.prems(2) by (auto simp: btree_wf_def)
  moreover have "remove1 k (xs @ [k]) = xs" "xs @ [k] = [k] \<longleftrightarrow> xs = []" using snoc.prems(2) by (auto simp: remove1_append)
  ultimately obtain T1 where T1: "btree_delete T k = Some (0, T1)" "if xs = [] then b_root T1 = 0 else btree_holds d T1 xs"
    using delete_holds [OF wf(1), of k] unfolding wf(2) by metis
  show ?case
  proof (cases "xs = []")
    case True
    then show ?thesis using T1 by (simp add: btree_print_def)
  next
    case False
    obtain out where "btree_print T1 (b_root T1) 0 = Some out" using print_holds T1(2) False by (metis (full_types))
    moreover obtain outs T' where "delete_all (rev xs) T1 = Some (outs, T')" "b_root T' = 0" "length outs = length xs"
      using snoc.IH [of T1] T1(2) False snoc.prems(2) by auto
    ultimately show ?thesis using T1(1) by simp
  qed
qed simp


section \<open>A deletion that goes wrong\<close>

definition sample_node :: "int list \<Rightarrow> nat list \<Rightarrow> btree_node" where
  "sample_node ks ps = \<lparr>n_keys = ks @ replicate (3 - length ks) 0, n_childrens = ps @ replicate (12 - length ps) 0,
     n_num = int (length ks), n_leaf = (if ps = [] then 1 else 0)\<rparr>"

text \<open>The tree with the key 30 in its root, where the left child is an inner node.\<close>

definition sample_tall :: btree where
  "sample_tall = \<lparr>b_root = 1, b_t = 2, b_nodes = [1 \<mapsto> sample_node [30] [2, 3], 2 \<mapsto> sample_node [10, 20] [4, 5, 6], 3 \<mapsto> sample_node [40] [7, 8],
     4 \<mapsto> sample_node [5] [], 5 \<mapsto> sample_node [15] [], 6 \<mapsto> sample_node [25] [], 7 \<mapsto> sample_node [35] [], 8 \<mapsto> sample_node [45] []]\<rparr>"

lemma sample_tall_wf: "btree_wf 2 2 sample_tall (Bt 1 [30] [Bt 2 [10, 20] [Bt 4 [5] [], Bt 5 [15] [], Bt 6 [25] []],
    Bt 3 [40] [Bt 7 [35] [], Bt 8 [45] []]])"
  by (simp add: btree_wf_def sample_tall_def owns_def node_ok_def sample_node_def numeral_2_eq_2 weave_def keys_after_def)


section \<open>A key of the root whose children are minimal\<close>

text \<open>When the root has one key and both of its children are minimal, deleting that key merges them, frees the
  root, and then reads the freed root.\<close>

lemma btree_delete_freed:
  assumes d: "2 \<le> d" "b_t T = int d" and root: "b_root T = x"
    and owns: "owns d (b_nodes T) (Bt x [key] [Bt a ak ac, Bt b bk bc])"
    and len: "length ak = d - 1" "length bk = d - 1" "alike ak ac bk bc"
  shows "btree_delete T key = None"
proof -
  have own0: "owns d (b_nodes T) (Bt x ([] @ key # []) ([] @ Bt a ak ac # Bt b bk bc # []))"
    and own1: "owns d (b_nodes T) (Bt x [key] ([Bt a ak ac] @ Bt b bk bc # []))" using owns by simp_all
  obtain xn kj where xn: "b_nodes T x = Some xn" "n_num xn = 1" "n_leaf xn = 0" "n_keys xn = key # kj" "x \<noteq> 0"
    using owns by (auto simp: owns_def node_ok_def)
  have at: "aget (n_childrens xn) 0 = Some a" "aget (n_childrens xn) 1 = Some b"
    using child_at [OF own0 xn(1)] child_at [OF own1 xn(1)] by simp_all
  obtain an where an: "b_nodes T a = Some an" "n_num an = int d - 1"
    using node_child [OF own0] len(1) d by (auto simp: node_ok_def of_nat_diff)
  obtain bn where bn: "b_nodes T b = Some bn" "n_num bn = int d - 1"
    using node_child [OF own1] len(2) d by (auto simp: node_ok_def of_nat_diff)
  obtain T3 where T3: "btree_merge T x 0 = Some (T3\<lparr>b_root := a, b_nodes := (b_nodes T3)(x := None)\<rparr>)"
    using merge_ok [OF d own0 _ len] by auto
  have "find_key (n_keys xn) (n_num xn) key 0 = Some 0" using find_key_parts [of "[]" key "[key]" 0 1 kj] xn(2,4) by simp
  then have "btree_delete_key T x key = None"
    using xn at an bn T3 d(2) by (subst btree_delete_key.simps) (simp add: aget_def [of "key # kj"])
  then show ?thesis using root xn(5) by (simp add: btree_delete_def)
qed

section \<open>Properties\<close>

text \<open>C30: insertion into a tree that holds a sorted list of keys ends and gives a balanced tree that holds
  the list with the new key in its place, which is what the traversal prints.\<close>

theorem btree_insert_inserts:
  assumes "calloc_ok new" and "btree_holds d T xs"
  shows "\<exists>T'. btree_insert new T k = Some T' \<and> btree_holds d T' (insort k xs) \<and>
    btree_traverse T' (b_root T') = Some (insort k xs)"
  using insert_holds [OF assms] traverse_holds by blast

definition sample_calloc :: allocator where
  "sample_calloc H = Some (Suc (Max (insert 0 (dom H))))"

lemma sample_calloc_ok: "calloc_ok sample_calloc"
proof -
  have "H (Suc (Max (insert 0 (dom H)))) = None" if "finite (dom H)" for H :: "nat \<rightharpoonup> btree_node"
    using Max_ge [of "insert 0 (dom H)" "Suc (Max (insert 0 (dom H)))"] that by fastforce
  then show ?thesis by (simp add: calloc_ok_def sample_calloc_def)
qed

lemma btree_insert_inserts_witness:
  "\<exists>T'. btree_insert sample_calloc sample_tall 12 = Some T' \<and>
     btree_traverse T' (b_root T') = Some [5, 10, 12, 15, 20, 25, 30, 35, 40, 45]"
proof -
  have "btree_holds 2 sample_tall [5, 10, 15, 20, 25, 30, 35, 40, 45]"
    using sample_tall_wf unfolding btree_holds_def by (intro exI conjI) (assumption, simp add: weave_def)
  from btree_insert_inserts [OF sample_calloc_ok this, of 12] show ?thesis by auto
qed

text \<open>C31: deleting a key that lies in no inner node ends, returns 0, and leaves a balanced tree that holds
  the other keys; the tree loses its root when the key was its only one.  A key that does not occur leaves
  the same keys, though the way down may have reshaped the tree.\<close>

theorem btree_delete_removes:
  assumes "btree_wf d h T t" and "key \<notin> inner t"
  shows "\<exists>T'. btree_delete T key = Some (0, T') \<and>
    (if inord t = [key] then b_root T' = 0
     else btree_holds d T' (remove1 key (inord t)) \<and> btree_traverse T' (b_root T') = Some (remove1 key (inord t)))"
  using delete_holds [OF assms] traverse_holds by (metis (full_types))

lemma btree_delete_removes_witness:
  "\<exists>T'. btree_delete sample_tall 15 = Some (0, T') \<and> btree_traverse T' (b_root T') = Some [5, 10, 20, 25, 30, 35, 40, 45]"
  using btree_delete_removes [OF sample_tall_wf, of 15] by (auto simp: weave_def)

text \<open>C32: for keys in strictly ascending order the program ends: it builds the tree, prints it, deletes the
  keys from the largest to the smallest, prints the tree after each, and is left with no tree.\<close>

theorem btree_main_empties:
  assumes "calloc_ok new" and "sorted keys" and "distinct keys" and "keys \<noteq> []"
  shows "\<exists>outs T. btree_main new keys = Some (outs, T) \<and> b_root T = 0 \<and> length outs = length keys + 1"
proof -
  obtain T where T: "btree_create new 3 = Some T" "btree_holds 3 T []" using create_holds [OF assms(1), of 3] by auto
  obtain T1 where T1: "insert_all new keys T = Some T1" "btree_holds 3 T1 keys"
    using insert_all_holds [OF assms(1) T(2), of keys] assms(2) by (auto simp: sorted_sort_id)
  obtain out where "btree_print T1 (b_root T1) 0 = Some out" using print_holds [OF T1(2)] by blast
  then show ?thesis using T(1) T1(1) delete_all_ok [OF T1(2) assms(3,4)] by (auto simp: btree_main_def)
qed

lemma btree_main_empties_witness:
  "\<exists>outs T. btree_main sample_calloc [65, 66, 67, 68, 69, 70, 71, 72] = Some (outs, T) \<and> b_root T = 0 \<and> length outs = 9"
  using btree_main_empties [OF sample_calloc_ok, of "[65, 66, 67, 68, 69, 70, 71, 72]"] by (simp add: eval_nat_numeral)

text \<open>Deleting a key of an inner node whose left child is an inner node replaces it with the last key of
  that child, not with the largest key below it: the keys are no longer in order.\<close>

theorem btree_delete_misplaces:
  "btree_traverse sample_tall (b_root sample_tall) = Some [5, 10, 15, 20, 25, 30, 35, 40, 45] \<and>
   map_option (\<lambda>(r, T). btree_traverse T (b_root T)) (btree_delete sample_tall 30) = Some (Some [5, 10, 15, 25, 20, 35, 40, 45])"
  by (simp add: btree_delete_def sample_tall_def sample_node_def numeral_eq_Suc btree_delete_key.simps find_key.simps
      shift_down.simps aget_def aset_def Let_def put_node_def btree_merge_def btree_destroy_node_def delete_leaf_key_def
      btree_traverse_def traverse_from.simps)

end
