(* ===== verification/Xdp.thy ===== *)
theory Xdp
  imports Cvip_Prelude
begin

text \<open>
  The XDP program of \<open>code/ebpf/libbpf/xdp/xdp.bpf.c\<close>, which forwards ICMP, TCP and UDP packets between
  clients and a server: the checks of the headers, the rewriting of addresses with the incremental update of
  the checksums, and the handler \<open>xdp_pass_func\<close>.

  A packet is its list of bytes and a header its offset, so that headers may overlap as in memory; \<open>None\<close> is
  an access behind the end of the packet.  An address or port in network order is the list of its bytes.  The
  host is little-endian, as the build line of the program says.
\<close>

unbundle bit_operations_syntax

section \<open>Packets\<close>

definition mget :: "bytes \<Rightarrow> nat \<Rightarrow> nat \<Rightarrow> bytes option" where
  "mget pkt off n = (if off + n \<le> length pkt then Some (take n (drop off pkt)) else None)"

definition mput :: "bytes \<Rightarrow> nat \<Rightarrow> bytes \<Rightarrow> bytes option" where
  "mput pkt off bs = (if off + length bs \<le> length pkt then Some (take off pkt @ bs @ drop (off + length bs) pkt) else None)"

definition le16 :: "u16 \<Rightarrow> bytes" where
  "le16 w = [ucast w, ucast (drop_bit 8 w)]"

definition ld16 :: "bytes \<Rightarrow> u16" where
  "ld16 bs = ucast (bs ! 0) + push_bit 8 (ucast (bs ! 1))"

definition ntohs :: "bytes \<Rightarrow> u16" where
  "ntohs bs = push_bit 8 (ucast (bs ! 0)) + ucast (bs ! 1)"

text \<open>The headers of the Linux kernel: sizes, and offsets of the fields that the program uses.\<close>

definition "ETH_HLEN = (14 :: nat)"
definition "IP_HLEN = (20 :: nat)"
definition "ICMP_HLEN = (8 :: nat)"
definition "TCP_HLEN = (20 :: nat)"
definition "UDP_HLEN = (8 :: nat)"

lemmas hlen_defs = ETH_HLEN_def IP_HLEN_def ICMP_HLEN_def TCP_HLEN_def UDP_HLEN_def

datatype xdp_action = XDP_ABORTED | XDP_DROP | XDP_PASS | XDP_TX | XDP_REDIRECT

fun action_num :: "xdp_action \<Rightarrow> nat" where
  "action_num XDP_ABORTED = 0"
| "action_num XDP_DROP = 1"
| "action_num XDP_PASS = 2"
| "action_num XDP_TX = 3"
| "action_num XDP_REDIRECT = 4"

section \<open>State\<close>

record xdp_globals =
  g_gataway_mac :: bytes
  g_local_mac :: bytes
  g_icmp_server_ip :: bytes
  g_tcp_server_ip :: bytes
  g_udp_server_ip :: bytes
  g_local_ip :: bytes

definition xdp_globals0 :: xdp_globals where
  "xdp_globals0 = \<lparr>g_gataway_mac = [0xfa, 0x16, 0x3e, 0xff, 0x8b, 0xd5], g_local_mac = [0xfa, 0x16, 0x3e, 0xb0, 0x08, 0xb5],
     g_icmp_server_ip = [0x0e, 0x77, 0x68, 0xfe], g_tcp_server_ip = [0x0e, 0x77, 0x68, 0xfe],
     g_udp_server_ip = [0xdb, 0x90, 0x4f, 0x71], g_local_ip = [0xc0, 0xa8, 0x00, 0xad]\<rparr>"

text \<open>The helpers of the kernel are an argument, with the hash map of clients as a state of their own.\<close>

record 'm bpf =
  bpf_csum_diff :: "bytes \<Rightarrow> bytes \<Rightarrow> u32 \<Rightarrow> u32"
  client_update :: "bytes \<Rightarrow> bytes \<Rightarrow> 'm \<Rightarrow> int \<times> 'm"
  client_lookup :: "bytes \<Rightarrow> 'm \<Rightarrow> bytes option \<times> 'm"

record xdp_struct =
  rx_packets :: u64
  rx_bytes :: u64

text \<open>The state: the map of clients, the counters of this CPU for each action, and the static variables of the
  TCP and of the UDP case.\<close>

record 'm xdp_state =
  x_clients :: 'm
  x_stats :: "xdp_struct list"
  tcp_client_addr :: bytes
  tcp_client_port :: bytes
  udp_client_addr :: bytes
  udp_client_port :: bytes

definition xdp_state0 :: "'m \<Rightarrow> 'm xdp_state" where
  "xdp_state0 m = \<lparr>x_clients = m, x_stats = replicate 5 \<lparr>rx_packets = 0, rx_bytes = 0\<rparr>, tcp_client_addr = [0, 0, 0, 0],
     tcp_client_port = [0, 0], udp_client_addr = [0, 0, 0, 0], udp_client_port = [0, 0]\<rparr>"

section \<open>Headers\<close>

text \<open>\<open>check_header_fix\<close>: the offset of a header of this size, or \<open>NULL\<close>.\<close>

definition check_header_fix :: "nat \<Rightarrow> bytes \<Rightarrow> nat \<Rightarrow> nat option" where
  "check_header_fix hlen pkt off = (if off + hlen < length pkt then Some off else None)"

definition check_ethhdr_fix :: "bytes \<Rightarrow> nat \<Rightarrow> nat option" where
  "check_ethhdr_fix = check_header_fix ETH_HLEN"

definition check_ipv4_fix :: "bytes \<Rightarrow> nat \<Rightarrow> nat option" where
  "check_ipv4_fix = check_header_fix IP_HLEN"

definition check_icmp_fix :: "bytes \<Rightarrow> nat \<Rightarrow> nat option" where
  "check_icmp_fix = check_header_fix ICMP_HLEN"

definition check_tcp_fix :: "bytes \<Rightarrow> nat \<Rightarrow> nat option" where
  "check_tcp_fix = check_header_fix TCP_HLEN"

definition check_udp_fix :: "bytes \<Rightarrow> nat \<Rightarrow> nat option" where
  "check_udp_fix = check_header_fix UDP_HLEN"

definition ihl :: "bytes \<Rightarrow> nat \<Rightarrow> nat option" where
  "ihl pkt ipv4 = do { b \<leftarrow> mget pkt ipv4 1; Some (unat (b ! 0 AND 15)) }"

section \<open>Checksums\<close>

definition make_checksum_from :: "u32 \<Rightarrow> u32" where
  "make_checksum_from n = drop_bit 16 n + (n AND 0xFFFF)"

definition make_checksum_from32 :: "u32 \<Rightarrow> u16" where
  "make_checksum_from32 n = ucast (make_checksum_from (make_checksum_from n))"

text \<open>Store the checksum that follows from the old one: \<open>old\<close> and \<open>new\<close> are the data before and after.\<close>

definition update_check :: "'m bpf \<Rightarrow> bytes \<Rightarrow> nat \<Rightarrow> bytes \<Rightarrow> bytes \<Rightarrow> bytes \<Rightarrow> bytes option" where
  "update_check K pkt off old_csum old new =
     mput pkt off (le16 (NOT (make_checksum_from32 (bpf_csum_diff K old new (NOT (ucast (ld16 old_csum)))))))"

text \<open>The steps that the rewriting functions share: set the hardware addresses; take the checksum out of the
  IP header and copy the header; count down the time to live; put the new checksum in.\<close>

definition set_macs :: "xdp_globals \<Rightarrow> bytes \<Rightarrow> nat \<Rightarrow> bytes option" where
  "set_macs G pkt eth = do {
     p1 \<leftarrow> mput pkt (eth + 6) (g_local_mac G);
     mput p1 eth (g_gataway_mac G)
   }"

definition ip_begin :: "bytes \<Rightarrow> nat \<Rightarrow> (bytes \<times> bytes \<times> bytes) option" where
  "ip_begin pkt ipv4 = do {
     old_csum \<leftarrow> mget pkt (ipv4 + 10) 2;
     p1 \<leftarrow> mput pkt (ipv4 + 10) [0, 0];
     ipv4_old \<leftarrow> mget p1 ipv4 IP_HLEN;
     Some (old_csum, ipv4_old, p1)
   }"

definition ip_finish :: "'m bpf \<Rightarrow> bytes \<Rightarrow> nat \<Rightarrow> bytes \<Rightarrow> bytes \<Rightarrow> bytes option" where
  "ip_finish K pkt ipv4 old_csum ipv4_old = do {
     new \<leftarrow> mget pkt ipv4 IP_HLEN;
     update_check K pkt (ipv4 + 10) old_csum ipv4_old new
   }"

definition set_addrs :: "bytes \<Rightarrow> nat \<Rightarrow> bytes \<Rightarrow> bytes \<Rightarrow> bytes option" where
  "set_addrs pkt ipv4 saddr daddr = do {
     p1 \<leftarrow> mput pkt (ipv4 + 12) saddr;
     mput p1 (ipv4 + 16) daddr
   }"

definition dec_ttl :: "bytes \<Rightarrow> nat \<Rightarrow> bytes option" where
  "dec_ttl pkt ipv4 = do {
     b \<leftarrow> mget pkt (ipv4 + 8) 1;
     mput pkt (ipv4 + 8) [b ! 0 - 1]
   }"

text \<open>The pseudo headers; the length of the TCP one is computed in \<open>size_t\<close> and cut to 16 bits.\<close>

definition tcp_pseudo :: "bytes \<Rightarrow> nat \<Rightarrow> bytes option" where
  "tcp_pseudo pkt ipv4 = do {
     addrs \<leftarrow> mget pkt (ipv4 + 12) 8;
     protocol \<leftarrow> mget pkt (ipv4 + 9) 1;
     tot_len \<leftarrow> mget pkt (ipv4 + 2) 2;
     h \<leftarrow> ihl pkt ipv4;
     Some (addrs @ 0 # protocol @ le16 (ntohs tot_len - of_nat (h * 4) - of_nat TCP_HLEN))
   }"

definition udp_pseudo :: "bytes \<Rightarrow> nat \<Rightarrow> nat \<Rightarrow> bytes option" where
  "udp_pseudo pkt ipv4 udp = do {
     addrs \<leftarrow> mget pkt (ipv4 + 12) 8;
     protocol \<leftarrow> mget pkt (ipv4 + 9) 1;
     len \<leftarrow> mget pkt (udp + 4) 2;
     Some (addrs @ 0 # protocol @ len)
   }"

section \<open>Rewriting\<close>

text \<open>\<open>icmp_reply\<close> answers an echo request in place; the handler has its call commented out.\<close>

definition icmp_reply :: "'m bpf \<Rightarrow> bytes \<Rightarrow> nat \<Rightarrow> nat \<Rightarrow> nat \<Rightarrow> bytes option" where
  "icmp_reply K pkt eth ipv4 icmp = do {
     smac \<leftarrow> mget pkt (eth + 6) 6;
     dmac \<leftarrow> mget pkt eth 6;
     p1 \<leftarrow> mput pkt (eth + 6) dmac;
     p2 \<leftarrow> mput p1 eth smac;
     (old_csum, ipv4_old, p3) \<leftarrow> ip_begin p2 ipv4;
     saddr \<leftarrow> mget p3 (ipv4 + 12) 4;
     daddr \<leftarrow> mget p3 (ipv4 + 16) 4;
     p4 \<leftarrow> set_addrs p3 ipv4 daddr saddr;
     p5 \<leftarrow> ip_finish K p4 ipv4 old_csum ipv4_old;
     icmp_csum \<leftarrow> mget p5 (icmp + 2) 2;
     p6 \<leftarrow> mput p5 (icmp + 2) [0, 0];
     icmp_old \<leftarrow> mget p6 icmp ICMP_HLEN;
     p7 \<leftarrow> mput p6 icmp [0];
     icmp_new \<leftarrow> mget p7 icmp ICMP_HLEN;
     update_check K p7 (icmp + 2) icmp_csum icmp_old icmp_new
   }"

definition icmp_request_server :: "'m bpf \<Rightarrow> xdp_globals \<Rightarrow> bytes \<Rightarrow> nat \<Rightarrow> nat \<Rightarrow> bytes option" where
  "icmp_request_server K G pkt eth ipv4 = do {
     p1 \<leftarrow> set_macs G pkt eth;
     (old_csum, ipv4_old, p2) \<leftarrow> ip_begin p1 ipv4;
     p3 \<leftarrow> set_addrs p2 ipv4 (g_local_ip G) (g_icmp_server_ip G);
     ip_finish K p3 ipv4 old_csum ipv4_old
   }"

definition icmp_reply_server :: "'m bpf \<Rightarrow> xdp_globals \<Rightarrow> bytes \<Rightarrow> nat \<Rightarrow> nat \<Rightarrow> bytes \<Rightarrow> bytes option" where
  "icmp_reply_server K G pkt eth ipv4 client_addr = do {
     p1 \<leftarrow> set_macs G pkt eth;
     (old_csum, ipv4_old, p2) \<leftarrow> ip_begin p1 ipv4;
     p3 \<leftarrow> set_addrs p2 ipv4 (g_local_ip G) client_addr;
     ip_finish K p3 ipv4 old_csum ipv4_old
   }"

definition tcp_redirect_to_server :: "'m bpf \<Rightarrow> xdp_globals \<Rightarrow> bytes \<Rightarrow> nat \<Rightarrow> nat \<Rightarrow> nat \<Rightarrow> bytes option" where
  "tcp_redirect_to_server K G pkt eth ipv4 tcp = do {
     p1 \<leftarrow> set_macs G pkt eth;
     (old_csum, ipv4_old, p2) \<leftarrow> ip_begin p1 ipv4;
     pseudo_old \<leftarrow> tcp_pseudo p2 ipv4;
     p3 \<leftarrow> set_addrs p2 ipv4 (g_local_ip G) (g_tcp_server_ip G);
     p4 \<leftarrow> dec_ttl p3 ipv4;
     p5 \<leftarrow> ip_finish K p4 ipv4 old_csum ipv4_old;
     pseudo \<leftarrow> tcp_pseudo p5 ipv4;
     check \<leftarrow> mget p5 (tcp + 16) 2;
     update_check K p5 (tcp + 16) check pseudo_old pseudo
   }"

definition tcp_redirect_to_client :: "'m bpf \<Rightarrow> xdp_globals \<Rightarrow> bytes \<Rightarrow> nat \<Rightarrow> nat \<Rightarrow> nat \<Rightarrow> bytes \<Rightarrow> bytes option" where
  "tcp_redirect_to_client K G pkt eth ipv4 tcp client_addr = do {
     p1 \<leftarrow> set_macs G pkt eth;
     (old_csum, ipv4_old, p2) \<leftarrow> ip_begin p1 ipv4;
     pseudo_old \<leftarrow> tcp_pseudo p2 ipv4;
     p3 \<leftarrow> set_addrs p2 ipv4 (g_local_ip G) client_addr;
     p4 \<leftarrow> dec_ttl p3 ipv4;
     p5 \<leftarrow> ip_finish K p4 ipv4 old_csum ipv4_old;
     pseudo \<leftarrow> tcp_pseudo p5 ipv4;
     check \<leftarrow> mget p5 (tcp + 16) 2;
     update_check K p5 (tcp + 16) check pseudo_old pseudo
   }"

definition udp_redirect_to_server :: "'m bpf \<Rightarrow> xdp_globals \<Rightarrow> bytes \<Rightarrow> nat \<Rightarrow> nat \<Rightarrow> nat \<Rightarrow> bytes option" where
  "udp_redirect_to_server K G pkt eth ipv4 udp = do {
     p1 \<leftarrow> set_macs G pkt eth;
     (old_csum, ipv4_old, p2) \<leftarrow> ip_begin p1 ipv4;
     pseudo_old \<leftarrow> udp_pseudo p2 ipv4 udp;
     p3 \<leftarrow> set_addrs p2 ipv4 (g_local_ip G) (g_udp_server_ip G);
     p4 \<leftarrow> dec_ttl p3 ipv4;
     p5 \<leftarrow> ip_finish K p4 ipv4 old_csum ipv4_old;
     pseudo \<leftarrow> udp_pseudo p5 ipv4 udp;
     check \<leftarrow> mget p5 (udp + 6) 2;
     update_check K p5 (udp + 6) check pseudo_old pseudo
   }"

definition udp_redirect_to_client :: "'m bpf \<Rightarrow> xdp_globals \<Rightarrow> bytes \<Rightarrow> nat \<Rightarrow> nat \<Rightarrow> nat \<Rightarrow> bytes \<Rightarrow> bytes option" where
  "udp_redirect_to_client K G pkt eth ipv4 udp client_addr = do {
     p1 \<leftarrow> set_macs G pkt eth;
     (old_csum, ipv4_old, p2) \<leftarrow> ip_begin p1 ipv4;
     pseudo_old \<leftarrow> udp_pseudo p2 ipv4 udp;
     p3 \<leftarrow> set_addrs p2 ipv4 (g_local_ip G) client_addr;
     p4 \<leftarrow> dec_ttl p3 ipv4;
     p5 \<leftarrow> ip_finish K p4 ipv4 old_csum ipv4_old;
     pseudo \<leftarrow> udp_pseudo p5 ipv4 udp;
     check \<leftarrow> mget p5 (udp + 6) 2;
     update_check K p5 (udp + 6) check pseudo_old pseudo
   }"

section \<open>The handler\<close>

text \<open>The three cases of \<open>xdp_pass_func\<close>: the action, the packet and the state afterwards.\<close>

definition pass_tcp :: "'m bpf \<Rightarrow> xdp_globals \<Rightarrow> bytes \<Rightarrow> nat \<Rightarrow> nat \<Rightarrow> 'm xdp_state \<Rightarrow> (xdp_action \<times> bytes \<times> 'm xdp_state) option" where
  "pass_tcp K G pkt eth ipv4 s = do {
     h \<leftarrow> ihl pkt ipv4;
     (case check_tcp_fix pkt (ETH_HLEN + h * 4) of
        None \<Rightarrow> Some (XDP_PASS, pkt, s)
      | Some tcp \<Rightarrow> do {
          dest \<leftarrow> mget pkt (tcp + 2) 2;
          (if dest = [0, 80] then do {
             saddr \<leftarrow> mget pkt (ipv4 + 12) 4;
             source \<leftarrow> mget pkt tcp 2;
             p1 \<leftarrow> tcp_redirect_to_server K G pkt eth ipv4 tcp;
             Some (XDP_TX, p1, s\<lparr>tcp_client_addr := saddr, tcp_client_port := source\<rparr>)
           }
           else if dest = tcp_client_port s then do {
             p1 \<leftarrow> tcp_redirect_to_client K G pkt eth ipv4 tcp (tcp_client_addr s);
             Some (XDP_TX, p1, s)
           }
           else Some (XDP_PASS, pkt, s))
        })
   }"

definition pass_udp :: "'m bpf \<Rightarrow> xdp_globals \<Rightarrow> bytes \<Rightarrow> nat \<Rightarrow> nat \<Rightarrow> 'm xdp_state \<Rightarrow> (xdp_action \<times> bytes \<times> 'm xdp_state) option" where
  "pass_udp K G pkt eth ipv4 s = do {
     h \<leftarrow> ihl pkt ipv4;
     (case check_udp_fix pkt (ETH_HLEN + h * 4) of
        None \<Rightarrow> Some (XDP_PASS, pkt, s)
      | Some udp \<Rightarrow> do {
          dest \<leftarrow> mget pkt (udp + 2) 2;
          (if dest = [0x96, 0x2f] then do {
             saddr \<leftarrow> mget pkt (ipv4 + 12) 4;
             source \<leftarrow> mget pkt udp 2;
             p1 \<leftarrow> udp_redirect_to_server K G pkt eth ipv4 udp;
             Some (XDP_TX, p1, s\<lparr>udp_client_addr := saddr, udp_client_port := source\<rparr>)
           }
           else if dest = udp_client_port s then do {
             p1 \<leftarrow> udp_redirect_to_client K G pkt eth ipv4 udp (udp_client_addr s);
             Some (XDP_TX, p1, s)
           }
           else Some (XDP_PASS, pkt, s))
        })
   }"

definition pass_icmp :: "'m bpf \<Rightarrow> xdp_globals \<Rightarrow> bytes \<Rightarrow> nat \<Rightarrow> nat \<Rightarrow> 'm xdp_state \<Rightarrow> (xdp_action \<times> bytes \<times> 'm xdp_state) option" where
  "pass_icmp K G pkt eth ipv4 s = do {
     h \<leftarrow> ihl pkt ipv4;
     (case check_icmp_fix pkt (ETH_HLEN + h * 4) of
        None \<Rightarrow> Some (XDP_PASS, pkt, s)
      | Some icmp \<Rightarrow> do {
          type \<leftarrow> mget pkt icmp 1;
          (if type = [8] then do {
             client_identify \<leftarrow> mget pkt (icmp + 4) 4;
             saddr \<leftarrow> mget pkt (ipv4 + 12) 4;
             let (ret, m) = client_update K client_identify saddr (x_clients s);
             let s1 = s\<lparr>x_clients := m\<rparr>;
             (if ret \<noteq> 0 then Some (XDP_PASS, pkt, s1)
              else do { p1 \<leftarrow> icmp_request_server K G pkt eth ipv4; Some (XDP_TX, p1, s1) })
           }
           else if type = [0] then do {
             client_identify \<leftarrow> mget pkt (icmp + 4) 4;
             let (r, m) = client_lookup K client_identify (x_clients s);
             let s1 = s\<lparr>x_clients := m\<rparr>;
             (case r of
                None \<Rightarrow> Some (XDP_PASS, pkt, s1)
              | Some client_addr \<Rightarrow> do { p1 \<leftarrow> icmp_reply_server K G pkt eth ipv4 client_addr; Some (XDP_TX, p1, s1) })
           }
           else Some (XDP_PASS, pkt, s))
        })
   }"

text \<open>The counters: \<open>None\<close> of the look-up aborts the packet.\<close>

definition count_packet :: "u64 \<Rightarrow> xdp_action \<times> bytes \<times> 'm xdp_state \<Rightarrow> xdp_action \<times> bytes \<times> 'm xdp_state" where
  "count_packet len r = (case r of (action, pkt, s) \<Rightarrow>
     let i = action_num action
     in if i < length (x_stats s)
        then (action, pkt, s\<lparr>x_stats := (x_stats s)[i := \<lparr>rx_packets = rx_packets (x_stats s ! i) + 1,
               rx_bytes = rx_bytes (x_stats s ! i) + len\<rparr>]\<rparr>)
        else (XDP_ABORTED, pkt, s))"

definition xdp_pass_func :: "'m bpf \<Rightarrow> xdp_globals \<Rightarrow> bytes \<Rightarrow> 'm xdp_state \<Rightarrow> (xdp_action \<times> bytes \<times> 'm xdp_state) option" where
  "xdp_pass_func K G pkt s = map_option (count_packet (of_nat (length pkt)))
     (case check_ethhdr_fix pkt 0 of
        None \<Rightarrow> Some (XDP_PASS, pkt, s)
      | Some eth \<Rightarrow> do {
          h_proto \<leftarrow> mget pkt (eth + 12) 2;
          (if h_proto \<noteq> [8, 0] then Some (XDP_PASS, pkt, s)
           else case check_ipv4_fix pkt ETH_HLEN of
             None \<Rightarrow> Some (XDP_PASS, pkt, s)
           | Some ipv4 \<Rightarrow> do {
               protocol \<leftarrow> mget pkt (ipv4 + 9) 1;
               (if protocol = [6] then pass_tcp K G pkt eth ipv4 s
                else if protocol = [17] then pass_udp K G pkt eth ipv4 s
                else if protocol = [1] then pass_icmp K G pkt eth ipv4 s
                else Some (XDP_PASS, pkt, s))
             })
        })"

definition xdp_drop_func :: "xdp_action" where
  "xdp_drop_func = XDP_DROP"

definition xdp_aborted_func :: "xdp_action" where
  "xdp_aborted_func = XDP_ABORTED"

end
