(* ===== verification/Xdp_Sum.thy ===== *)
theory Xdp_Sum
  imports Xdp
begin

text \<open>
  The checksums of the XDP program: sums of 16-bit words modulo 65535, and what writing to a packet does to
  the sum of a part of it.
\<close>

unbundle bit_operations_syntax

section \<open>Sums of 16-bit words\<close>

fun sum16 :: "bytes \<Rightarrow> int" where
  "sum16 [] = 0"
| "sum16 [a] = uint a"
| "sum16 (a # b # xs) = uint a + 256 * uint b + sum16 xs"

lemma sum16_append: "even (length xs) \<Longrightarrow> sum16 (xs @ ys) = sum16 xs + sum16 ys"
  by (induction xs rule: sum16.induct) auto

lemma ld16_uint: "uint (ld16 [a, b]) = uint a + 256 * uint b"
proof -
  have a: "uint a < 256" "uint b < 256" using uint_lt2p [of a] uint_lt2p [of b] by simp_all
  then have "uint (ucast a :: u16) = uint a" by (simp add: unsigned_ucast_eq take_bit_int_eq_self)
  moreover have "uint (push_bit 8 (ucast b) :: u16) = 256 * uint b"
    using a by (simp add: push_bit_eq_mult uint_word_ariths unsigned_ucast_eq take_bit_int_eq_self mult.commute)
  ultimately show ?thesis using a by (simp add: ld16_def uint_word_ariths)
qed

lemma ld16_sum: "length bs = 2 \<Longrightarrow> uint (ld16 bs) = sum16 bs"
  by (auto simp: numeral_2_eq_2 length_Suc_conv ld16_uint)

lemma le16_sum: "sum16 (le16 w) = uint w"
proof -
  have "uint (ucast w :: u8) = uint w mod 256" by (simp add: uint_up_ucast unsigned_ucast_eq take_bit_eq_mod)
  moreover have "uint (ucast (drop_bit 8 w) :: u8) = uint w div 256"
  proof -
    have "uint w div 256 < 256" using uint_lt2p [of w] by simp
    moreover have "0 \<le> uint w div 256" by (simp add: pos_imp_zdiv_nonneg_iff)
    ultimately have "uint w div 256 mod 256 = uint w div 256" by (rule mod_pos_pos_trivial [rotated])
    then show ?thesis by (simp add: unsigned_ucast_eq take_bit_eq_mod uint_div_distrib drop_bit_eq_div)
  qed
  ultimately show ?thesis by (simp add: le16_def)
qed

lemma le16_length [simp]: "length (le16 w) = 2"
  by (simp add: le16_def)

text \<open>The documented behaviour of \<open>bpf_csum_diff\<close>: it adds to the seed the words of the second buffer and
  takes away those of the first, in the one's complement arithmetic of checksums.\<close>

definition csum_ok :: "'m bpf \<Rightarrow> bool" where
  "csum_ok K \<longleftrightarrow> (\<forall>old new seed. length old mod 4 = 0 \<longrightarrow> length new mod 4 = 0 \<longrightarrow>
     uint (bpf_csum_diff K old new seed) mod 65535 = (uint seed + sum16 new - sum16 old) mod 65535)"

lemma from_uint: "uint (make_checksum_from n) = uint n div 65536 + uint n mod 65536"
proof -
  have "uint n < 4294967296" using uint_lt2p [of n] by simp
  then have "uint n div 65536 < 65536" by linarith
  moreover have "uint n mod 65536 < 65536" by simp
  ultimately have "uint n div 65536 + uint n mod 65536 < 4294967296" by linarith
  moreover have "0 \<le> uint n div 65536 + uint n mod 65536" by (simp add: pos_imp_zdiv_nonneg_iff)
  moreover have "n AND 0xFFFF = take_bit 16 n" by (simp add: take_bit_eq_mask mask_eq_exp_minus_1)
  moreover have "uint (drop_bit 16 n) = uint n div 65536" by (simp add: uint_div_distrib drop_bit_eq_div)
  moreover have "uint (take_bit 16 n) = uint n mod 65536" by (simp add: uint_mod_distrib take_bit_eq_mod)
  ultimately show ?thesis by (simp add: make_checksum_from_def uint_word_ariths)
qed

lemma mod_sum: "(x div 65536 + x mod 65536) mod 65535 = x mod (65535 :: int)"
proof -
  have "x = (x div 65536 + x mod 65536) + 65535 * (x div 65536)" by (simp add: algebra_simps)
  then show ?thesis by (metis mod_mult_self2)
qed

lemma from32_uint: "uint (make_checksum_from32 n) mod 65535 = uint n mod 65535"
proof -
  let ?m = "make_checksum_from n"
  have n: "uint n < 4294967296" using uint_lt2p [of n] by simp
  then have "uint n div 65536 < 65536" by linarith
  then have m: "uint ?m \<le> 131070" unfolding from_uint using pos_mod_bound [of 65536 "uint n"] by linarith
  have "uint ?m div 65536 + uint ?m mod 65536 < 65536"
  proof (cases "uint ?m < 65536")
    case False
    then have "uint ?m div 65536 = 1" using m by auto
    moreover from this have "uint ?m mod 65536 = uint ?m - 65536" using minus_mult_div_eq_mod [of "uint ?m" 65536] by simp
    ultimately show ?thesis using m by simp
  qed simp
  moreover have "0 \<le> uint ?m div 65536 + uint ?m mod 65536" by (simp add: pos_imp_zdiv_nonneg_iff)
  ultimately have "uint (make_checksum_from32 n) = uint ?m div 65536 + uint ?m mod 65536"
    by (simp add: make_checksum_from32_def unsigned_ucast_eq from_uint [of ?m] take_bit_int_eq_self)
  then show ?thesis by (simp only: mod_sum from_uint)
qed

lemma neg_mod:
  assumes "a mod m = b mod (m :: int)"
  shows "(- a) mod m = (- b) mod m"
proof -
  have "(- a) mod m = (- (a mod m)) mod m" by (rule mod_minus_eq [symmetric])
  also have "\<dots> = (- (b mod m)) mod m" using assms by simp
  finally show ?thesis by (simp add: mod_minus_eq)
qed

lemma not_u16: "uint (NOT (w :: u16)) = 65535 - uint w"
  using uint_lt2p [of w] by (simp add: take_bit_int_eq_self add: unsigned_not_eq take_bit_not_eq_mask_diff mask_eq_exp_minus_1)

lemma not_seed: "uint (NOT (ucast (w :: u16) :: u32)) mod 65535 = (- uint w) mod 65535"
proof -
  have "uint (NOT (ucast w :: u32)) = 4294967295 - uint w"
    using uint_lt2p [of w] by (simp add: unsigned_not_eq take_bit_not_eq_mask_diff mask_eq_exp_minus_1 unsigned_ucast_eq take_bit_int_eq_self)
  also have "\<dots> = - uint w + 65535 * 65537" by simp
  finally show ?thesis by (simp only: mod_mult_self2)
qed

text \<open>The checksum that \<open>update_check\<close> stores.\<close>

lemma new_check:
  assumes "csum_ok K" "length old mod 4 = 0" "length new mod 4 = 0"
  shows "uint (NOT (make_checksum_from32 (bpf_csum_diff K old new (NOT (ucast (w :: u16)))))) mod 65535 = (uint w + sum16 old - sum16 new) mod 65535"
proof -
  let ?c = "bpf_csum_diff K old new (NOT (ucast w))"
  have "uint (make_checksum_from32 ?c) mod 65535 = (uint (NOT (ucast w :: u32)) + sum16 new - sum16 old) mod 65535"
    using assms by (simp add: from32_uint csum_ok_def)
  also have "\<dots> = ((- uint w) + (sum16 new - sum16 old)) mod 65535"
    using mod_add_cong [OF not_seed refl, of w "sum16 new - sum16 old"] by (simp add: algebra_simps)
  finally have *: "uint (make_checksum_from32 ?c) mod 65535 = (- uint w + (sum16 new - sum16 old)) mod 65535" .
  have "(65535 - uint (make_checksum_from32 ?c)) mod 65535 = (- uint (make_checksum_from32 ?c)) mod 65535"
    using mod_add_self1 [of 65535 "- uint (make_checksum_from32 ?c)"] by simp
  also have "\<dots> = (- (- uint w + (sum16 new - sum16 old))) mod 65535" by (rule neg_mod [OF *])
  finally show ?thesis by (simp add: not_u16 algebra_simps)
qed


section \<open>Regions of a packet\<close>

definition pkt_part :: "bytes \<Rightarrow> nat \<Rightarrow> nat \<Rightarrow> bytes" where
  "pkt_part p off n = take n (drop off p)"

text \<open>The packets have the same length, and the same bytes outside \<open>S\<close>.\<close>

definition same_but :: "nat set \<Rightarrow> bytes \<Rightarrow> bytes \<Rightarrow> bool" where
  "same_but S p q \<longleftrightarrow> length p = length q \<and> (\<forall>i < length p. i \<notin> S \<longrightarrow> p ! i = q ! i)"

lemma pkt_part_nth: "i < n \<Longrightarrow> off + i < length p \<Longrightarrow> pkt_part p off n ! i = p ! (off + i)"
  by (simp add: pkt_part_def)

lemma pkt_part_length [simp]: "length (pkt_part p off n) = min n (length p - off)"
  by (simp add: pkt_part_def min.commute)

lemma pkt_part_same: "same_but S p q \<Longrightarrow> S \<inter> {off..<off + n} = {} \<Longrightarrow> pkt_part p off n = pkt_part q off n"
proof (rule nth_equalityI)
  assume s: "same_but S p q" and d: "S \<inter> {off..<off + n} = {}"
  then show "length (pkt_part p off n) = length (pkt_part q off n)" by (simp add: same_but_def)
  fix i assume i: "i < length (pkt_part p off n)"
  then have "off + i \<notin> S" using d by auto
  moreover have "i < n" "off + i < length p" "off + i < length q" using s i by (auto simp: same_but_def)
  ultimately show "pkt_part p off n ! i = pkt_part q off n ! i" using s by (simp add: same_but_def pkt_part_nth)
qed

lemma same_but_refl: "same_but S p p"
  by (simp add: same_but_def)

lemma same_but_trans: "same_but S p q \<Longrightarrow> same_but R q r \<Longrightarrow> same_but (S \<union> R) p r"
  by (simp add: same_but_def)

lemma same_but_mono: "same_but S p q \<Longrightarrow> S \<subseteq> R \<Longrightarrow> same_but R p q"
  by (auto simp: same_but_def)

lemma same_but_length: "same_but S p q \<Longrightarrow> length p = length q"
  by (simp add: same_but_def)

lemma mget_some: "off + n \<le> length p \<Longrightarrow> mget p off n = Some (pkt_part p off n)"
  by (simp add: mget_def pkt_part_def)

lemma mput_some:
  assumes "off + length bs \<le> length p"
  obtains q where "mput p off bs = Some q" "same_but {off..<off + length bs} q p" "pkt_part q off (length bs) = bs"
proof -
  let ?q = "take off p @ bs @ drop (off + length bs) p"
  have "same_but {off..<off + length bs} ?q p"
    using assms by (auto simp: same_but_def nth_append)
  moreover have "pkt_part ?q off (length bs) = bs" using assms by (simp add: pkt_part_def)
  ultimately show ?thesis using that assms by (simp add: mput_def)
qed

lemma mput_at:
  assumes "off + n \<le> length p" "length bs = n" "e = off + n"
  shows "\<exists>q. mput p off bs = Some q \<and> same_but {off..<e} q p \<and> pkt_part q off n = bs"
  using mput_some [of off bs p] assms by metis

lemma pkt_part_split: "k \<le> n \<Longrightarrow> pkt_part p off n = pkt_part p off k @ pkt_part p (off + k) (n - k)"
  using take_add [of k "n - k" "drop off p"] by (simp add: pkt_part_def add.commute)

text \<open>A part of a packet whose bytes change only in a word of it.\<close>

lemma sum_word:
  assumes s: "same_but {w..<w + 2} q p" and w: "off \<le> w" "even (w - off)" "w + 2 \<le> off + n" "w + 2 \<le> length p"
  shows "sum16 (pkt_part q off n) = sum16 (pkt_part p off n) - sum16 (pkt_part p w 2) + sum16 (pkt_part q w 2)"
proof -
  have split: "pkt_part r off n = pkt_part r off (w - off) @ pkt_part r w 2 @ pkt_part r (w + 2) (off + n - (w + 2))" for r
    using pkt_part_split [of "w - off" n r off] pkt_part_split [of 2 "n - (w - off)" r w] w by (simp add: add.commute)
  have l: "even (length (pkt_part r off (w - off)))" "even (length (pkt_part r w 2))" if "length r = length p" for r
    using w that by (simp_all add: min_def)
  have "pkt_part q off (w - off) = pkt_part p off (w - off)" "pkt_part q (w + 2) (off + n - (w + 2)) = pkt_part p (w + 2) (off + n - (w + 2))"
    using w by (intro pkt_part_same [OF s]; auto)+
  then show ?thesis using split [of p] split [of q] l [of p] l [of q] same_but_length [OF s] by (simp add: sum16_append)
qed

end
