(* ===== verification/Xdp_Props.thy ===== *)
theory Xdp_Props
  imports Xdp_Sum
begin

text \<open>
  The theorems on the XDP program: no access behind the end of any packet, checksums that stay as valid or
  invalid as they were, and echo replies that find their way back to the client.
\<close>

unbundle bit_operations_syntax

section \<open>The steps of a rewriting\<close>

text \<open>The configuration and the state hold addresses of their sizes.\<close>

definition globals_ok :: "xdp_globals \<Rightarrow> bool" where
  "globals_ok G \<longleftrightarrow> length (g_gataway_mac G) = 6 \<and> length (g_local_mac G) = 6 \<and> length (g_icmp_server_ip G) = 4 \<and>
     length (g_tcp_server_ip G) = 4 \<and> length (g_udp_server_ip G) = 4 \<and> length (g_local_ip G) = 4"

lemma set_macs_ok:
  assumes "globals_ok G" "14 \<le> length pkt"
  shows "\<exists>p. set_macs G pkt 0 = Some p \<and> same_but {0..<12} p pkt"
proof -
  have l: "length (g_gataway_mac G) = 6" "length (g_local_mac G) = 6" using assms(1) by (simp_all add: globals_ok_def)
  have h1: "6 + 6 \<le> length pkt" "length (g_local_mac G) = 6" "12 = (6 + 6 :: nat)" using assms(2) l by simp_all
  obtain p1 where p1: "mput pkt 6 (g_local_mac G) = Some p1" "same_but {6..<12} p1 pkt"
    using mput_at [OF h1] by auto
  have h2: "0 + 6 \<le> length p1" "length (g_gataway_mac G) = 6" "6 = (0 + 6 :: nat)" using assms(2) l same_but_length [OF p1(2)] by simp_all
  obtain p2 where p2: "mput p1 0 (g_gataway_mac G) = Some p2" "same_but {0..<6} p2 p1"
    using mput_at [OF h2] by auto
  have "same_but {0..<12} p2 pkt" by (rule same_but_mono [OF same_but_trans [OF p2(2) p1(2)]]) auto
  then show ?thesis using p1(1) p2(1) by (simp add: set_macs_def)
qed

lemma ip_begin_ok:
  assumes "34 \<le> length pkt"
  shows "\<exists>p. ip_begin pkt 14 = Some (pkt_part pkt 24 2, pkt_part p 14 20, p) \<and> same_but {24..<26} p pkt \<and> pkt_part p 24 2 = [0, 0]"
proof -
  have h3: "24 + 2 \<le> length pkt" "length ([0, 0] :: bytes) = 2" "26 = (24 + 2 :: nat)" using assms by simp_all
  obtain p where p: "mput pkt 24 [0, 0] = Some p" "same_but {24..<26} p pkt" "pkt_part p 24 2 = [0, 0]"
    using mput_at [OF h3] by auto
  then show ?thesis using assms same_but_length [OF p(2)] by (simp add: ip_begin_def mget_some IP_HLEN_def)
qed

lemma set_addrs_ok:
  assumes "34 \<le> length pkt" "length saddr = 4" "length daddr = 4"
  shows "\<exists>p. set_addrs pkt 14 saddr daddr = Some p \<and> same_but {26..<34} p pkt \<and> pkt_part p 26 4 = saddr \<and> pkt_part p 30 4 = daddr"
proof -
  have h4: "26 + 4 \<le> length pkt" "length (saddr) = 4" "30 = (26 + 4 :: nat)" using assms by simp_all
  obtain p1 where p1: "mput pkt 26 saddr = Some p1" "same_but {26..<30} p1 pkt" "pkt_part p1 26 4 = saddr"
    using mput_at [OF h4] by auto
  have h5: "30 + 4 \<le> length p1" "length (daddr) = 4" "34 = (30 + 4 :: nat)" using assms same_but_length [OF p1(2)] by simp_all
  obtain p2 where p2: "mput p1 30 daddr = Some p2" "same_but {30..<34} p2 p1" "pkt_part p2 30 4 = daddr"
    using mput_at [OF h5] by auto
  have "same_but {26..<34} p2 pkt" by (rule same_but_mono [OF same_but_trans [OF p2(2) p1(2)]]) auto
  moreover have "pkt_part p2 26 4 = pkt_part p1 26 4" by (rule pkt_part_same [OF p2(2)]) auto
  ultimately show ?thesis using p1 p2 by (simp add: set_addrs_def)
qed

lemma dec_ttl_ok:
  assumes "34 \<le> length pkt"
  shows "\<exists>p. dec_ttl pkt 14 = Some p \<and> same_but {22..<23} p pkt"
proof -
  have "22 + 1 \<le> length pkt" using assms by simp
  from mput_at [OF this, of "[pkt_part pkt 22 1 ! 0 - 1]" 23] show ?thesis using assms by (auto simp: dec_ttl_def mget_some)
qed

lemma update_check_ok:
  assumes "off + 2 \<le> length pkt" "length old_csum = 2"
  shows "\<exists>p. update_check K pkt off old_csum old new = Some p \<and> same_but {off..<off + 2} p pkt \<and>
    (csum_ok K \<longrightarrow> length old mod 4 = 0 \<longrightarrow> length new mod 4 = 0 \<longrightarrow>
     sum16 (pkt_part p off 2) mod 65535 = (sum16 old_csum + sum16 old - sum16 new) mod 65535)"
proof -
  let ?c = "NOT (make_checksum_from32 (bpf_csum_diff K old new (NOT (ucast (ld16 old_csum)))))"
  have h6: "off + 2 \<le> length pkt" "length (le16 ?c) = 2" "off + 2 = (off + 2 :: nat)" using assms(1) by simp_all
  obtain p where p: "mput pkt off (le16 ?c) = Some p" "same_but {off..<off + 2} p pkt" "pkt_part p off 2 = le16 ?c"
    using mput_at [OF h6] by auto
  moreover have "uint ?c mod 65535 = (sum16 old_csum + sum16 old - sum16 new) mod 65535"
    if "csum_ok K" "length old mod 4 = 0" "length new mod 4 = 0"
    using new_check [OF that, of "ld16 old_csum"] ld16_sum [OF assms(2)] by simp
  ultimately show ?thesis by (auto simp: update_check_def le16_sum)
qed

text \<open>The rewriting of the IP header as a whole: \<open>p2\<close> and \<open>p4\<close> are the packets that \<open>ip_begin\<close> leaves and
  that \<open>ip_finish\<close> finds.  The sum of the header does not change.\<close>

lemma ip_rewrite_ok:
  assumes len: "34 \<le> length p1" and p2: "same_but {24..<26} p2 p1" "pkt_part p2 24 2 = [0, 0]"
    and p4: "same_but {22..<23} p4 p3" "same_but {26..<34} p3 p2" and n: "20 \<le> n"
  shows "\<exists>p5. ip_finish K p4 14 (pkt_part p1 24 2) (pkt_part p2 14 20) = Some p5 \<and> same_but {24..<26} p5 p4 \<and>
    (csum_ok K \<longrightarrow> sum16 (pkt_part p5 14 n) mod 65535 = sum16 (pkt_part p1 14 n) mod 65535)"
proof -
  have l: "length p2 = length p1" "length p4 = length p1"
    using same_but_length [OF p2(1)] same_but_length [OF p4(1)] same_but_length [OF p4(2)] by simp_all
  have d: "same_but ({22..<23} \<union> {26..<34}) p4 p2" by (rule same_but_trans [OF p4])
  obtain p5 where p5: "update_check K p4 24 (pkt_part p1 24 2) (pkt_part p2 14 20) (pkt_part p4 14 20) = Some p5"
    "same_but {24..<24 + 2} p5 p4"
    "csum_ok K \<longrightarrow> sum16 (pkt_part p5 24 2) mod 65535 = (sum16 (pkt_part p1 24 2) + sum16 (pkt_part p2 14 20) - sum16 (pkt_part p4 14 20)) mod 65535"
    using update_check_ok [of 24 p4 "pkt_part p1 24 2" K "pkt_part p2 14 20" "pkt_part p4 14 20"] l len by auto
  have run: "ip_finish K p4 14 (pkt_part p1 24 2) (pkt_part p2 14 20) = Some p5"
    using p5(1) l len by (simp add: ip_finish_def mget_some IP_HLEN_def)
  have "sum16 (pkt_part p5 14 n) mod 65535 = sum16 (pkt_part p1 14 n) mod 65535" if K: "csum_ok K"
  proof -
    have "pkt_part p4 24 2 = pkt_part p2 24 2" by (rule pkt_part_same [OF d]) auto
    then have z: "pkt_part p4 24 2 = [0, 0]" using p2(2) by simp
    have split: "sum16 (pkt_part q 14 n) = sum16 (pkt_part q 14 20) + sum16 (pkt_part q 34 (n - 20))" if "length q = length p1" for q
      using pkt_part_split [OF n, of q 14] sum16_append [of "pkt_part q 14 20"] that len by simp
    have "pkt_part p4 34 (n - 20) = pkt_part p2 34 (n - 20)" by (rule pkt_part_same [OF d]) auto
    moreover have "pkt_part p2 34 (n - 20) = pkt_part p1 34 (n - 20)" by (rule pkt_part_same [OF p2(1)]) auto
    ultimately have tail: "pkt_part p4 34 (n - 20) = pkt_part p1 34 (n - 20)" by simp
    have p2s: "sum16 (pkt_part p2 14 20) = sum16 (pkt_part p1 14 20) - sum16 (pkt_part p1 24 2)"
      using sum_word [of 24 p2 p1 14 20] p2 len by simp
    have "sum16 (pkt_part p5 14 n) = sum16 (pkt_part p4 14 n) + sum16 (pkt_part p5 24 2)"
      using sum_word [OF p5(2), of 14 n] z l len n by simp
    then have "sum16 (pkt_part p5 14 n) mod 65535 = (sum16 (pkt_part p4 14 n) + (sum16 (pkt_part p1 24 2) + sum16 (pkt_part p2 14 20) - sum16 (pkt_part p4 14 20))) mod 65535"
      using p5(3) K mod_add_cong [OF refl, of "sum16 (pkt_part p5 24 2)" 65535 _ "sum16 (pkt_part p4 14 n)"] by simp
    also have "sum16 (pkt_part p4 14 n) + (sum16 (pkt_part p1 24 2) + sum16 (pkt_part p2 14 20) - sum16 (pkt_part p4 14 20)) = sum16 (pkt_part p1 14 n)"
      using split [of p4] split [of p1] l tail p2s by simp
    finally show ?thesis .
  qed
  then show ?thesis using run p5(2) by simp
qed


lemma same_but_part: "same_but S p q \<Longrightarrow> S \<inter> {off..<off + n} = {} \<Longrightarrow> pkt_part q off n = X \<Longrightarrow> pkt_part p off n = X"
  using pkt_part_same by simp

text \<open>The rewriting of the addresses, with and without the time to live.\<close>

lemma redirect_ip:
  assumes G: "globals_ok G" and len: "34 \<le> length pkt" "length dst = 4"
  shows "\<exists>p1 p2 p3 p4 p5. set_macs G pkt 0 = Some p1 \<and> ip_begin p1 14 = Some (pkt_part p1 24 2, pkt_part p2 14 20, p2) \<and>
    set_addrs p2 14 (g_local_ip G) dst = Some p3 \<and> (if ttl then dec_ttl p3 14 = Some p4 else p4 = p3) \<and>
    ip_finish K p4 14 (pkt_part p1 24 2) (pkt_part p2 14 20) = Some p5 \<and>
    same_but {0..<12} p1 pkt \<and> same_but {24..<26} p2 p1 \<and> same_but {22..<34} p5 p2 \<and> pkt_part p5 23 1 = pkt_part pkt 23 1 \<and>
    pkt_part p5 26 4 = g_local_ip G \<and> pkt_part p5 30 4 = dst \<and>
    (csum_ok K \<longrightarrow> (\<forall>n \<ge> 20. sum16 (pkt_part p5 14 n) mod 65535 = sum16 (pkt_part pkt 14 n) mod 65535))"
proof -
  have "14 \<le> length pkt" using len by simp
  then obtain p1 where p1: "set_macs G pkt 0 = Some p1" "same_but {0..<12} p1 pkt" using set_macs_ok [OF G] by blast
  have l1: "34 \<le> length p1" using same_but_length [OF p1(2)] len by simp
  obtain p2 where p2: "ip_begin p1 14 = Some (pkt_part p1 24 2, pkt_part p2 14 20, p2)" "same_but {24..<26} p2 p1" "pkt_part p2 24 2 = [0, 0]"
    using ip_begin_ok [OF l1] by blast
  have l2: "34 \<le> length p2" using same_but_length [OF p2(2)] l1 by simp
  have loc: "length (g_local_ip G) = 4" using G by (simp add: globals_ok_def)
  obtain p3 where p3: "set_addrs p2 14 (g_local_ip G) dst = Some p3" "same_but {26..<34} p3 p2" "pkt_part p3 26 4 = g_local_ip G" "pkt_part p3 30 4 = dst"
    using set_addrs_ok [OF l2 loc len(2)] by blast
  have l3: "34 \<le> length p3" using same_but_length [OF p3(2)] l2 by simp
  obtain p4 where p4: "if ttl then dec_ttl p3 14 = Some p4 else p4 = p3" "same_but {22..<23} p4 p3"
    using dec_ttl_ok [OF l3] same_but_refl by (cases ttl) auto
  obtain p5 where p5: "ip_finish K p4 14 (pkt_part p1 24 2) (pkt_part p2 14 20) = Some p5" "same_but {24..<26} p5 p4"
    using ip_rewrite_ok [OF l1 p2(2,3) p4(2) p3(2) order_refl] by blast
  have d4: "same_but {22..<34} p4 p2" by (rule same_but_mono [OF same_but_trans [OF p4(2) p3(2)]]) auto
  have d5: "same_but {22..<34} p5 p2" by (rule same_but_mono [OF same_but_trans [OF p5(2) d4]]) auto
  have addr: "pkt_part p5 26 4 = g_local_ip G" "pkt_part p5 30 4 = dst"
    by (rule same_but_part [OF p5(2) _ same_but_part [OF p4(2) _ p3(3)]]; auto)
      (rule same_but_part [OF p5(2) _ same_but_part [OF p4(2) _ p3(4)]]; auto)
  have "pkt_part p5 23 1 = pkt_part p3 23 1"
    by (rule same_but_part [OF p5(2) _ same_but_part [OF p4(2) _ refl]]) auto
  moreover have "pkt_part p3 23 1 = pkt_part pkt 23 1"
    by (rule same_but_part [OF p3(2) _ same_but_part [OF p2(2) _ same_but_part [OF p1(2) _ refl]]]) auto
  moreover have "sum16 (pkt_part p5 14 n) mod 65535 = sum16 (pkt_part pkt 14 n) mod 65535" if "csum_ok K" "20 \<le> n" for n
  proof -
    have "pkt_part p1 14 n = pkt_part pkt 14 n" by (rule pkt_part_same [OF p1(2)]) auto
    then show ?thesis using ip_rewrite_ok [OF l1 p2(2,3) p4(2) p3(2) that(2), of K] p5(1) that(1) by simp
  qed
  ultimately show ?thesis using p1 p2(1,2) p3(1) p4(1) p5(1) d5 addr by metis
qed

lemma icmp_reply_server_ok:
  assumes G: "globals_ok G" and len: "34 \<le> length pkt" "length dst = 4"
  shows "\<exists>p. icmp_reply_server K G pkt 0 14 dst = Some p \<and> length p = length pkt \<and>
    same_but {0..<34} p pkt \<and> pkt_part p 26 4 = g_local_ip G \<and> pkt_part p 30 4 = dst \<and>
    (csum_ok K \<longrightarrow> (\<forall>n \<ge> 20. sum16 (pkt_part p 14 n) mod 65535 = sum16 (pkt_part pkt 14 n) mod 65535))"
  using redirect_ip [OF assms, of False K] by (auto simp: icmp_reply_server_def same_but_def)

lemma icmp_request_server_eq: "icmp_request_server K G pkt eth ipv4 = icmp_reply_server K G pkt eth ipv4 (g_icmp_server_ip G)"
  by (simp add: icmp_request_server_def icmp_reply_server_def)

lemma tcp_redirect_to_server_eq: "tcp_redirect_to_server K G pkt eth ipv4 tcp = tcp_redirect_to_client K G pkt eth ipv4 tcp (g_tcp_server_ip G)"
  by (simp add: tcp_redirect_to_server_def tcp_redirect_to_client_def)

lemma udp_redirect_to_server_eq: "udp_redirect_to_server K G pkt eth ipv4 udp = udp_redirect_to_client K G pkt eth ipv4 udp (g_udp_server_ip G)"
  by (simp add: udp_redirect_to_server_def udp_redirect_to_client_def)

text \<open>The checksum of the transport layer: what the pseudo header and the segment add up to stays the same.\<close>

lemma transport_ok:
  assumes K: "csum_ok K" and d: "same_but {22..<34} p5 p2" "same_but {24..<26} p2 p1" "same_but {0..<12} p1 pkt"
    and l4: "34 \<le> l4" "even c" "l4 + c + 2 \<le> length pkt"
    and ps: "length rest = 4"
    and p6: "update_check K p5 (l4 + c) (pkt_part p5 (l4 + c) 2) (pkt_part p2 26 8 @ rest) (pkt_part p5 26 8 @ rest) = Some p6"
    and n: "c + 2 \<le> n"
  shows "(sum16 (pkt_part p6 26 8) + sum16 (pkt_part p6 l4 n)) mod 65535 = (sum16 (pkt_part pkt 26 8) + sum16 (pkt_part pkt l4 n)) mod 65535"
proof -
  have l: "length p5 = length pkt" "length p2 = length pkt"
    using same_but_length [OF d(1)] same_but_length [OF d(2)] same_but_length [OF d(3)] by simp_all
  have e: "even (length (pkt_part p2 26 8))" "even (length (pkt_part p5 26 8))" "length (pkt_part p2 26 8 @ rest) mod 4 = 0" "length (pkt_part p5 26 8 @ rest) mod 4 = 0"
    using l l4 ps by simp_all
  have s: "same_but {l4 + c..<l4 + c + 2} p6 p5"
    "sum16 (pkt_part p6 (l4 + c) 2) mod 65535 = (sum16 (pkt_part p5 (l4 + c) 2) + sum16 (pkt_part p2 26 8) - sum16 (pkt_part p5 26 8)) mod 65535"
    using update_check_ok [of "l4 + c" p5 "pkt_part p5 (l4 + c) 2" K "pkt_part p2 26 8 @ rest" "pkt_part p5 26 8 @ rest"] l l4 e K p6
    by (simp_all add: sum16_append algebra_simps)
  have w: "sum16 (pkt_part p6 l4 n) = sum16 (pkt_part p5 l4 n) - sum16 (pkt_part p5 (l4 + c) 2) + sum16 (pkt_part p6 (l4 + c) 2)"
    using sum_word [OF s(1), of l4 n] l l4 n by simp
  have p2: "pkt_part p2 26 8 = pkt_part pkt 26 8"
    by (rule same_but_part [OF d(2) _ same_but_part [OF d(3) _ refl]]) auto
  have p5: "pkt_part p5 l4 n = pkt_part pkt l4 n"
    by (rule same_but_part [OF d(1) _ same_but_part [OF d(2) _ same_but_part [OF d(3) _ refl]]]) (use l4 in auto)
  have p6a: "pkt_part p6 26 8 = pkt_part p5 26 8" by (rule pkt_part_same [OF s(1)]) (use l4 in auto)
  have "(sum16 (pkt_part p6 26 8) + sum16 (pkt_part p6 l4 n)) mod 65535 =
      ((sum16 (pkt_part p5 26 8) + sum16 (pkt_part pkt l4 n) - sum16 (pkt_part p5 (l4 + c) 2)) + sum16 (pkt_part p6 (l4 + c) 2)) mod 65535"
    by (simp add: w p5 p6a algebra_simps)
  also have "\<dots> = ((sum16 (pkt_part p5 26 8) + sum16 (pkt_part pkt l4 n) - sum16 (pkt_part p5 (l4 + c) 2)) +
      (sum16 (pkt_part p5 (l4 + c) 2) + sum16 (pkt_part p2 26 8) - sum16 (pkt_part p5 26 8))) mod 65535"
    by (rule mod_add_cong [OF refl s(2)])
  finally show ?thesis by (simp add: p2 algebra_simps)
qed

lemma list1: "length (xs :: bytes) = 1 \<Longrightarrow> xs = [xs ! 0]"
  by (cases xs) auto

text \<open>What a forwarding function gives for a segment at \<open>l4\<close>: the packet \<open>p\<close> with the addresses \<open>dst\<close> and our
  own; the IP header of \<open>n\<close> bytes in front of \<open>l4\<close> and the segment of at least \<open>m\<close> bytes keep their sums.\<close>

definition forwarded :: "'m bpf \<Rightarrow> xdp_globals \<Rightarrow> bytes \<Rightarrow> bytes \<Rightarrow> nat \<Rightarrow> nat \<Rightarrow> bytes \<Rightarrow> bool" where
  "forwarded K G pkt dst l4 m p \<longleftrightarrow> length p = length pkt \<and>
     (34 \<le> l4 \<longrightarrow> pkt_part p 26 4 = g_local_ip G \<and> pkt_part p 30 4 = dst \<and>
       (csum_ok K \<longrightarrow> sum16 (pkt_part p 14 (l4 - 14)) mod 65535 = sum16 (pkt_part pkt 14 (l4 - 14)) mod 65535 \<and>
         (\<forall>n \<ge> m. (sum16 (pkt_part p 26 8) + sum16 (pkt_part p l4 n)) mod 65535 = (sum16 (pkt_part pkt 26 8) + sum16 (pkt_part pkt l4 n)) mod 65535)))"

lemma forwarded_of_steps:
  assumes d: "same_but {0..<12} p1 pkt" "same_but {24..<26} p2 p1" "same_but {22..<34} p5 p2"
    and addr: "pkt_part p5 26 4 = g_local_ip G" "pkt_part p5 30 4 = dst"
    and ip: "csum_ok K \<longrightarrow> (\<forall>n \<ge> 20. sum16 (pkt_part p5 14 n) mod 65535 = sum16 (pkt_part pkt 14 n) mod 65535)"
    and l4: "even c" "l4 + c + 2 \<le> length pkt" "c + 2 \<le> m" and ps: "length rest = 4"
    and p6: "update_check K p5 (l4 + c) (pkt_part p5 (l4 + c) 2) (pkt_part p2 26 8 @ rest) (pkt_part p5 26 8 @ rest) = Some p6"
    and s6: "same_but {l4 + c..<l4 + c + 2} p6 p5"
  shows "forwarded K G pkt dst l4 m p6"
proof -
  have l: "length p6 = length pkt"
    using same_but_length [OF d(1)] same_but_length [OF d(2)] same_but_length [OF d(3)] same_but_length [OF s6] by simp
  have "pkt_part p6 26 4 = g_local_ip G" "pkt_part p6 30 4 = dst" "pkt_part p6 14 (l4 - 14) = pkt_part p5 14 (l4 - 14)" if "34 \<le> l4"
    using that addr by (auto intro: same_but_part [OF s6])
  moreover have "(sum16 (pkt_part p6 26 8) + sum16 (pkt_part p6 l4 n)) mod 65535 = (sum16 (pkt_part pkt 26 8) + sum16 (pkt_part pkt l4 n)) mod 65535"
    if "34 \<le> l4" "csum_ok K" "m \<le> n" for n
    by (rule transport_ok [OF that(2) d(3) d(2) d(1) that(1) l4(1,2) ps p6]) (use that(3) l4(3) in simp)
  ultimately show ?thesis using l ip by (simp add: forwarded_def)
qed

lemma tcp_pseudo_eq: "34 \<le> length p \<Longrightarrow> tcp_pseudo p 14 = Some (pkt_part p 26 8 @ 0 # pkt_part p 23 1 @
    le16 (ntohs (pkt_part p 16 2) - of_nat (unat (pkt_part p 14 1 ! 0 AND 15) * 4) - of_nat TCP_HLEN))"
  by (simp add: tcp_pseudo_def ihl_def mget_some)

lemma udp_pseudo_eq: "34 \<le> length p \<Longrightarrow> udp + 6 \<le> length p \<Longrightarrow>
    udp_pseudo p 14 udp = Some (pkt_part p 26 8 @ 0 # pkt_part p 23 1 @ pkt_part p (udp + 4) 2)"
  by (simp add: udp_pseudo_def mget_some)

lemma tcp_redirect_to_client_ok:
  assumes G: "globals_ok G" and len: "34 \<le> length pkt" "length dst = 4" and l4: "l4 + 20 \<le> length pkt"
  shows "\<exists>p. tcp_redirect_to_client K G pkt 0 14 l4 dst = Some p \<and> forwarded K G pkt dst l4 20 p"
proof -
  obtain p1 p2 p3 p4 p5 where st: "set_macs G pkt 0 = Some p1" "ip_begin p1 14 = Some (pkt_part p1 24 2, pkt_part p2 14 20, p2)"
    "set_addrs p2 14 (g_local_ip G) dst = Some p3" "dec_ttl p3 14 = Some p4" "ip_finish K p4 14 (pkt_part p1 24 2) (pkt_part p2 14 20) = Some p5"
    and d: "same_but {0..<12} p1 pkt" "same_but {24..<26} p2 p1" "same_but {22..<34} p5 p2" and pr: "pkt_part p5 23 1 = pkt_part pkt 23 1"
    and addr: "pkt_part p5 26 4 = g_local_ip G" "pkt_part p5 30 4 = dst"
    and ip: "csum_ok K \<longrightarrow> (\<forall>n \<ge> 20. sum16 (pkt_part p5 14 n) mod 65535 = sum16 (pkt_part pkt 14 n) mod 65535)"
    using redirect_ip [OF G len, of True K] by (simp only: if_True) metis
  have l: "length p1 = length pkt" "length p2 = length pkt" "length p5 = length pkt"
    using same_but_length [OF d(1)] same_but_length [OF d(2)] same_but_length [OF d(3)] by simp_all
  define rest where "rest = 0 # pkt_part pkt 23 1 @ le16 (ntohs (pkt_part pkt 16 2) - of_nat (unat (pkt_part pkt 14 1 ! 0 AND 15) * 4) - of_nat TCP_HLEN)"
  have pre: "pkt_part p2 off n = pkt_part pkt off n" if "12 \<le> off" "off + n \<le> 24" for off n
    using that by (intro same_but_part [OF d(2) _ same_but_part [OF d(1) _ refl]]) auto
  have "pkt_part p5 off n = pkt_part pkt off n" if "12 \<le> off" "off + n \<le> 22" for off n
    using that by (intro same_but_part [OF d(3) _ pre]) auto
  then have ps: "tcp_pseudo p2 14 = Some (pkt_part p2 26 8 @ rest)" "tcp_pseudo p5 14 = Some (pkt_part p5 26 8 @ rest)"
    using len l pr by (simp_all add: tcp_pseudo_eq pre rest_def)
  have rl: "length rest = 4" using len by (simp add: rest_def)
  obtain p6 where p6: "update_check K p5 (l4 + 16) (pkt_part p5 (l4 + 16) 2) (pkt_part p2 26 8 @ rest) (pkt_part p5 26 8 @ rest) = Some p6"
    "same_but {l4 + 16..<l4 + 16 + 2} p6 p5"
    using update_check_ok [of "l4 + 16" p5 "pkt_part p5 (l4 + 16) 2"] l l4 by fastforce
  have "forwarded K G pkt dst l4 20 p6"
    by (rule forwarded_of_steps [OF d addr ip _ _ _ rl p6]) (use l4 in simp_all)
  moreover have "tcp_redirect_to_client K G pkt 0 14 l4 dst = Some p6"
    using st ps p6(1) l l4 by (simp add: tcp_redirect_to_client_def mget_some)
  ultimately show ?thesis by blast
qed

lemma udp_redirect_to_client_ok:
  assumes G: "globals_ok G" and len: "34 \<le> length pkt" "length dst = 4" and l4: "14 \<le> l4" "l4 + 8 \<le> length pkt"
  shows "\<exists>p. udp_redirect_to_client K G pkt 0 14 l4 dst = Some p \<and> forwarded K G pkt dst l4 8 p"
proof -
  obtain p1 p2 p3 p4 p5 where st: "set_macs G pkt 0 = Some p1" "ip_begin p1 14 = Some (pkt_part p1 24 2, pkt_part p2 14 20, p2)"
    "set_addrs p2 14 (g_local_ip G) dst = Some p3" "dec_ttl p3 14 = Some p4" "ip_finish K p4 14 (pkt_part p1 24 2) (pkt_part p2 14 20) = Some p5"
    and d: "same_but {0..<12} p1 pkt" "same_but {24..<26} p2 p1" "same_but {22..<34} p5 p2" and pr: "pkt_part p5 23 1 = pkt_part pkt 23 1"
    and addr: "pkt_part p5 26 4 = g_local_ip G" "pkt_part p5 30 4 = dst"
    and ip: "csum_ok K \<longrightarrow> (\<forall>n \<ge> 20. sum16 (pkt_part p5 14 n) mod 65535 = sum16 (pkt_part pkt 14 n) mod 65535)"
    using redirect_ip [OF G len, of True K] by (simp only: if_True) metis
  have l: "length p1 = length pkt" "length p2 = length pkt" "length p5 = length pkt"
    using same_but_length [OF d(1)] same_but_length [OF d(2)] same_but_length [OF d(3)] by simp_all
  define r2 where "r2 = 0 # pkt_part pkt 23 1 @ pkt_part p2 (l4 + 4) 2"
  define r5 where "r5 = 0 # pkt_part pkt 23 1 @ pkt_part p5 (l4 + 4) 2"
  have "pkt_part p2 23 1 = pkt_part pkt 23 1"
    by (rule same_but_part [OF d(2) _ same_but_part [OF d(1) _ refl]]) auto
  then have ps: "udp_pseudo p2 14 l4 = Some (pkt_part p2 26 8 @ r2)" "udp_pseudo p5 14 l4 = Some (pkt_part p5 26 8 @ r5)"
    using len l l4 pr by (simp_all add: udp_pseudo_eq r2_def r5_def)
  have rl: "length r2 = 4" using len l l4 by (simp add: r2_def)
  obtain p6 where p6: "update_check K p5 (l4 + 6) (pkt_part p5 (l4 + 6) 2) (pkt_part p2 26 8 @ r2) (pkt_part p5 26 8 @ r5) = Some p6"
    "same_but {l4 + 6..<l4 + 6 + 2} p6 p5"
    using update_check_ok [of "l4 + 6" p5 "pkt_part p5 (l4 + 6) 2"] l l4 by fastforce
  have "forwarded K G pkt dst l4 8 p6"
  proof (cases "34 \<le> l4")
    case True
    then have "r5 = r2" using pkt_part_same [OF d(3), of "l4 + 4" 2] by (simp add: r2_def r5_def)
    then show ?thesis by (intro forwarded_of_steps [OF d addr ip _ _ _ rl _ p6(2)]) (use l4 p6(1) in simp_all)
  next
    case False
    then show ?thesis using same_but_length [OF p6(2)] l by (simp add: forwarded_def)
  qed
  moreover have "udp_redirect_to_client K G pkt 0 14 l4 dst = Some p6"
    using st ps p6(1) l l4 by (simp add: udp_redirect_to_client_def mget_some)
  ultimately show ?thesis by blast
qed


section \<open>The handler\<close>

text \<open>What is documented of the map of clients: its values have the size of an address.\<close>

definition map_ok :: "'m bpf \<Rightarrow> ('m \<Rightarrow> bool) \<Rightarrow> bool" where
  "map_ok K I \<longleftrightarrow> (\<forall>m i. I m \<longrightarrow> I (snd (client_lookup K i m)) \<and>
     (\<forall>a. fst (client_lookup K i m) = Some a \<longrightarrow> length a = 4) \<and> (\<forall>a. length a = 4 \<longrightarrow> I (snd (client_update K i a m))))"

definition xdp_ok :: "('m \<Rightarrow> bool) \<Rightarrow> 'm xdp_state \<Rightarrow> bool" where
  "xdp_ok I s \<longleftrightarrow> I (x_clients s) \<and> length (x_stats s) = 5 \<and> length (tcp_client_addr s) = 4 \<and> length (udp_client_addr s) = 4"

abbreviation header_end :: "bytes \<Rightarrow> nat" where
  "header_end pkt \<equiv> 14 + unat (pkt_part pkt 14 1 ! 0 AND 15) * 4"

text \<open>What may have happened to a packet that is sent back.\<close>

definition rewritten :: "'m bpf \<Rightarrow> xdp_globals \<Rightarrow> bytes \<Rightarrow> bytes \<Rightarrow> bool" where
  "rewritten K G pkt p \<longleftrightarrow> length p = length pkt \<and> (34 \<le> header_end pkt \<longrightarrow> pkt_part p 26 4 = g_local_ip G \<and>
     (csum_ok K \<longrightarrow>
       sum16 (pkt_part p 14 (header_end pkt - 14)) mod 65535 = sum16 (pkt_part pkt 14 (header_end pkt - 14)) mod 65535 \<and>
       (let x = pkt_part pkt 23 1 ! 0 in x = 1 \<and> same_but {0..<34} p pkt \<or>
          (x = 6 \<or> x = 17) \<and> (\<forall>n \<ge> if x = 6 then 20 else 8.
            (sum16 (pkt_part p 26 8) + sum16 (pkt_part p (header_end pkt) n)) mod 65535 =
            (sum16 (pkt_part pkt 26 8) + sum16 (pkt_part pkt (header_end pkt) n)) mod 65535))))"

definition handled :: "'m bpf \<Rightarrow> xdp_globals \<Rightarrow> ('m \<Rightarrow> bool) \<Rightarrow> bytes \<Rightarrow> 'm xdp_state \<Rightarrow> (xdp_action \<times> bytes \<times> 'm xdp_state) option \<Rightarrow> bool" where
  "handled K G I pkt s r \<longleftrightarrow> (\<exists>a p s'. r = Some (a, p, s') \<and> xdp_ok I s' \<and> x_stats s' = x_stats s \<and>
     (a = XDP_PASS \<and> p = pkt \<or> a = XDP_TX \<and> rewritten K G pkt p))"

lemma handled_pass: "xdp_ok I s' \<Longrightarrow> x_stats s' = x_stats s \<Longrightarrow> handled K G I pkt s (Some (XDP_PASS, pkt, s'))"
  by (simp add: handled_def)

lemma handled_tx: "xdp_ok I s' \<Longrightarrow> x_stats s' = x_stats s \<Longrightarrow> rewritten K G pkt p \<Longrightarrow> handled K G I pkt s (Some (XDP_TX, p, s'))"
  by (simp add: handled_def)

lemma rewritten_tcp: "pkt_part pkt 23 1 = [6] \<Longrightarrow> forwarded K G pkt dst (header_end pkt) 20 p \<Longrightarrow> rewritten K G pkt p"
  by (simp add: rewritten_def forwarded_def)

lemma rewritten_udp: "pkt_part pkt 23 1 = [17] \<Longrightarrow> forwarded K G pkt dst (header_end pkt) 8 p \<Longrightarrow> rewritten K G pkt p"
  by (simp add: rewritten_def forwarded_def)

lemma ihl_some: "34 \<le> length pkt \<Longrightarrow> ihl pkt 14 = Some (unat (pkt_part pkt 14 1 ! 0 AND 15))"
  by (simp add: ihl_def mget_some)

lemma pass_tcp_handled:
  assumes G: "globals_ok G" and s: "xdp_ok I s" and len: "34 \<le> length pkt" and pr: "pkt_part pkt 23 1 = [6]"
  shows "handled K G I pkt s (pass_tcp K G pkt 0 14 s)"
proof (cases "header_end pkt + 20 < length pkt")
  case False
  then show ?thesis using len s by (simp add: pass_tcp_def ihl_some check_tcp_fix_def check_header_fix_def hlen_defs handled_pass)
next
  case True
  have a: "length (g_tcp_server_ip G) = 4" "length (tcp_client_addr s) = 4" using G s by (simp_all add: globals_ok_def xdp_ok_def)
  have l4: "header_end pkt + 20 \<le> length pkt" using True by simp
  obtain p1 where p1: "tcp_redirect_to_server K G pkt 0 14 (header_end pkt) = Some p1" "rewritten K G pkt p1"
    using tcp_redirect_to_client_ok [OF G len a(1) l4] rewritten_tcp [OF pr] unfolding tcp_redirect_to_server_eq by blast
  obtain p2 where p2: "tcp_redirect_to_client K G pkt 0 14 (header_end pkt) (tcp_client_addr s) = Some p2" "rewritten K G pkt p2"
    using tcp_redirect_to_client_ok [OF G len a(2) l4] rewritten_tcp [OF pr] by blast
  have st: "xdp_ok I (s\<lparr>tcp_client_addr := pkt_part pkt 26 4, tcp_client_port := P\<rparr>)" for P
    using s len by (simp add: xdp_ok_def)
  show ?thesis using True len s p1 p2 st
    by (simp add: pass_tcp_def ihl_some check_tcp_fix_def check_header_fix_def hlen_defs mget_some handled_pass handled_tx)
qed

lemma pass_udp_handled:
  assumes G: "globals_ok G" and s: "xdp_ok I s" and len: "34 \<le> length pkt" and pr: "pkt_part pkt 23 1 = [17]"
  shows "handled K G I pkt s (pass_udp K G pkt 0 14 s)"
proof (cases "header_end pkt + 8 < length pkt")
  case False
  then show ?thesis using len s by (simp add: pass_udp_def ihl_some check_udp_fix_def check_header_fix_def hlen_defs handled_pass)
next
  case True
  have a: "length (g_udp_server_ip G) = 4" "length (udp_client_addr s) = 4" using G s by (simp_all add: globals_ok_def xdp_ok_def)
  have l4: "14 \<le> header_end pkt" "header_end pkt + 8 \<le> length pkt" using True by simp_all
  obtain p1 where p1: "udp_redirect_to_server K G pkt 0 14 (header_end pkt) = Some p1" "rewritten K G pkt p1"
    using udp_redirect_to_client_ok [OF G len a(1) l4] rewritten_udp [OF pr] unfolding udp_redirect_to_server_eq by blast
  obtain p2 where p2: "udp_redirect_to_client K G pkt 0 14 (header_end pkt) (udp_client_addr s) = Some p2" "rewritten K G pkt p2"
    using udp_redirect_to_client_ok [OF G len a(2) l4] rewritten_udp [OF pr] by blast
  have st: "xdp_ok I (s\<lparr>udp_client_addr := pkt_part pkt 26 4, udp_client_port := P\<rparr>)" for P
    using s len by (simp add: xdp_ok_def)
  show ?thesis using True len s p1 p2 st
    by (simp add: pass_udp_def ihl_some check_udp_fix_def check_header_fix_def hlen_defs mget_some handled_pass handled_tx)
qed

text \<open>Both ICMP cases at once: the answer of the map decides.\<close>

lemma icmp_rewritten:
  assumes G: "globals_ok G" and len: "34 \<le> length pkt" "length dst = 4" and pr: "pkt_part pkt 23 1 = [1]"
  shows "\<exists>p. icmp_reply_server K G pkt 0 14 dst = Some p \<and> rewritten K G pkt p \<and> same_but {0..<34} p pkt \<and> pkt_part p 30 4 = dst"
  using icmp_reply_server_ok [OF G len, of K] pr by (auto simp: rewritten_def)

lemma pass_icmp_handled:
  assumes G: "globals_ok G" and M: "map_ok K I" and s: "xdp_ok I s" and len: "34 \<le> length pkt" and pr: "pkt_part pkt 23 1 = [1]"
  shows "handled K G I pkt s (pass_icmp K G pkt 0 14 s)"
proof (cases "header_end pkt + 8 < length pkt")
  case False
  then show ?thesis using len s by (simp add: pass_icmp_def ihl_some check_icmp_fix_def check_header_fix_def hlen_defs handled_pass)
next
  case True
  let ?i = "pkt_part pkt (header_end pkt + 4) 4"
  have a: "length (g_icmp_server_ip G) = 4" using G by (simp add: globals_ok_def)
  obtain p1 where p1: "icmp_request_server K G pkt 0 14 = Some p1" "rewritten K G pkt p1"
    using icmp_rewritten [OF G len a pr] unfolding icmp_request_server_eq by blast
  obtain ru mu where u: "client_update K ?i (pkt_part pkt 26 4) (x_clients s) = (ru, mu)" by fastforce
  obtain rl ml where l: "client_lookup K ?i (x_clients s) = (rl, ml)" by fastforce
  have "length (pkt_part pkt 26 4) = 4" using len by simp
  then have st: "xdp_ok I (s\<lparr>x_clients := mu\<rparr>)" "xdp_ok I (s\<lparr>x_clients := ml\<rparr>)"
    using M s u l unfolding map_ok_def xdp_ok_def by (metis snd_conv xdp_state.ext_inject xdp_state.surjective xdp_state.update_convs(1))+
  have look: "length c = 4" if "rl = Some c" for c using M s l that unfolding map_ok_def xdp_ok_def by (metis fst_conv)
  have tx: "\<exists>p. icmp_reply_server K G pkt 0 14 c = Some p \<and> rewritten K G pkt p" if "rl = Some c" for c
    using icmp_rewritten [OF G len look [OF that] pr] by blast
  have "handled K G I pkt s (case rl of None \<Rightarrow> Some (XDP_PASS, pkt, s\<lparr>x_clients := ml\<rparr>)
      | Some c \<Rightarrow> do { p1 \<leftarrow> icmp_reply_server K G pkt 0 14 c; Some (XDP_TX, p1, s\<lparr>x_clients := ml\<rparr>) })"
    using st(2) tx by (cases rl) (auto simp: handled_pass intro!: handled_tx)
  then show ?thesis using True len s p1 st u l
    by (simp add: pass_icmp_def Let_def ihl_some check_icmp_fix_def check_header_fix_def hlen_defs mget_some handled_pass handled_tx)
qed

lemmas xdp_run = xdp_pass_func_def check_ethhdr_fix_def check_ipv4_fix_def check_header_fix_def hlen_defs mget_some

lemma xdp_cases:
  assumes G: "globals_ok G" and M: "map_ok K I" and s: "xdp_ok I s"
  shows "\<exists>r. xdp_pass_func K G pkt s = map_option (count_packet (of_nat (length pkt))) r \<and> handled K G I pkt s r"
proof (cases "34 < length pkt")
  case True
  show ?thesis
  proof (cases "pkt_part pkt 12 2 = [8, 0]")
    case eth: True
    have "pkt_part pkt 23 1 = [pkt_part pkt 23 1 ! 0]" using True by (intro list1) simp
    then consider "pkt_part pkt 23 1 = [6]" | "pkt_part pkt 23 1 = [17]" | "pkt_part pkt 23 1 = [1]" |
      "pkt_part pkt 23 1 \<noteq> [6] \<and> pkt_part pkt 23 1 \<noteq> [17] \<and> pkt_part pkt 23 1 \<noteq> [1]" by metis
    then show ?thesis
    proof cases
      case 1
      then show ?thesis using True eth pass_tcp_handled [OF G s, of pkt K] by (intro exI [of _ "pass_tcp K G pkt 0 14 s"]) (simp add: xdp_run)
    next
      case 2
      then show ?thesis using True eth pass_udp_handled [OF G s, of pkt K] by (intro exI [of _ "pass_udp K G pkt 0 14 s"]) (simp add: xdp_run)
    next
      case 3
      then show ?thesis using True eth pass_icmp_handled [OF G M s, of pkt] by (intro exI [of _ "pass_icmp K G pkt 0 14 s"]) (simp add: xdp_run)
    next
      case 4
      then show ?thesis using True eth s by (intro exI [of _ "Some (XDP_PASS, pkt, s)"]) (simp add: xdp_run handled_pass)
    qed
  next
    case False
    then show ?thesis using True s by (intro exI [of _ "Some (XDP_PASS, pkt, s)"]) (simp add: xdp_run handled_pass)
  qed
next
  case False
  then show ?thesis using s by (intro exI [of _ "Some (XDP_PASS, pkt, s)"]) (simp add: xdp_run handled_pass)
qed

text \<open>The counters after a packet of this length.\<close>

definition stats_after :: "xdp_action \<Rightarrow> nat \<Rightarrow> 'm xdp_state \<Rightarrow> xdp_struct list" where
  "stats_after a len s = (let i = action_num a in
     (x_stats s)[i := \<lparr>rx_packets = rx_packets (x_stats s ! i) + 1, rx_bytes = rx_bytes (x_stats s ! i) + of_nat len\<rparr>])"

lemma xdp_result:
  assumes "globals_ok G" "map_ok K I" "xdp_ok I s"
  shows "\<exists>a p s'. xdp_pass_func K G pkt s = Some (a, p, s') \<and> xdp_ok I s' \<and> x_stats s' = stats_after a (length pkt) s \<and>
    (a = XDP_PASS \<and> p = pkt \<or> a = XDP_TX \<and> rewritten K G pkt p)"
proof -
  obtain a p t where r: "xdp_pass_func K G pkt s = Some (count_packet (of_nat (length pkt)) (a, p, t))" "xdp_ok I t" "x_stats t = x_stats s"
    "a = XDP_PASS \<and> p = pkt \<or> a = XDP_TX \<and> rewritten K G pkt p"
    using xdp_cases [OF assms, of pkt] by (auto simp: handled_def)
  have "action_num a < length (x_stats t)" using r by (auto simp: xdp_ok_def)
  then show ?thesis using r by (simp add: count_packet_def stats_after_def Let_def xdp_ok_def)
qed

section \<open>An instance of the kernel\<close>

definition demo_bpf :: "(bytes \<Rightarrow> bytes option) bpf" where
  "demo_bpf = \<lparr>bpf_csum_diff = \<lambda>old new seed. word_of_int ((uint seed + sum16 new - sum16 old) mod 65535),
     client_update = \<lambda>i a m. (0, m(i := Some a)), client_lookup = \<lambda>i m. (m i, m)\<rparr>"

definition demo_map_ok :: "(bytes \<Rightarrow> bytes option) \<Rightarrow> bool" where
  "demo_map_ok m \<longleftrightarrow> (\<forall>a \<in> ran m. length a = 4)"

definition eth_ip :: "u8 \<Rightarrow> bytes \<Rightarrow> bytes \<Rightarrow> bytes" where
  "eth_ip proto src rest = [2, 0, 0, 0, 0, 1, 2, 0, 0, 0, 0, 2, 8, 0] @
     [0x45, 0, 0, 40, 0, 1, 0, 0, 64, proto, 0x12, 0x34] @ src @ [192, 168, 0, 173] @ rest"

lemma demo_laws: "globals_ok xdp_globals0" "map_ok demo_bpf demo_map_ok" "csum_ok demo_bpf"
  "xdp_ok demo_map_ok (xdp_state0 (\<lambda>_. None))"
proof -
  show "globals_ok xdp_globals0" by (simp add: globals_ok_def xdp_globals0_def)
  show "map_ok demo_bpf demo_map_ok" by (auto simp: map_ok_def demo_bpf_def demo_map_ok_def ran_def)
  have "uint (word_of_int (x mod 65535) :: u32) = x mod 65535" for x
    using pos_mod_bound [of 65535 x] pos_mod_sign [of 65535 x] by (simp add: unsigned_of_int take_bit_int_eq_self)
  then show "csum_ok demo_bpf" by (simp add: csum_ok_def demo_bpf_def)
  show "xdp_ok demo_map_ok (xdp_state0 (\<lambda>_. None))" by (simp add: xdp_ok_def xdp_state0_def demo_map_ok_def ran_def)
qed

definition demo_segment :: bytes where
  "demo_segment = [4, 0, 0, 80, 0, 0, 0, 1, 0, 0, 0, 0, 0x50, 2, 0, 0, 0xab, 0xcd, 0, 0, 1]"

lemma action_tx: "action_num a = 3 \<longleftrightarrow> a = XDP_TX"
  by (cases a) auto

lemma demo_forwarded: "\<exists>p s'. xdp_pass_func demo_bpf xdp_globals0 (eth_ip 6 [10, 0, 0, 1] demo_segment) (xdp_state0 (\<lambda>_. None)) = Some (XDP_TX, p, s')"
proof -
  have "(case xdp_pass_func demo_bpf xdp_globals0 (eth_ip 6 [10, 0, 0, 1] demo_segment) (xdp_state0 (\<lambda>_. None)) of
      None \<Rightarrow> False | Some (a, _, _) \<Rightarrow> action_num a = 3)" by code_simp
  then show ?thesis by (auto simp: action_tx split: option.splits)
qed

text \<open>A UDP checksum of zero means that there is none; the handler makes a checksum of it that is not valid.\<close>

lemma udp_zero_check: "(case xdp_pass_func demo_bpf xdp_globals0 (eth_ip 17 [10, 0, 0, 1] [1, 2, 0x96, 0x2f, 0, 9, 0, 0, 7]) (xdp_state0 (\<lambda>_. None)) of
      None \<Rightarrow> False | Some (_, p, _) \<Rightarrow> pkt_part p 40 2 \<noteq> [0, 0])"
  by code_simp

section \<open>Echo requests and replies\<close>

text \<open>An ICMP packet of this type with this identifier and sequence number, long enough to be handled.\<close>

definition icmp_echo :: "u8 \<Rightarrow> bytes \<Rightarrow> bytes \<Rightarrow> bool" where
  "icmp_echo type ident pkt \<longleftrightarrow> 34 < length pkt \<and> header_end pkt + 8 < length pkt \<and> pkt_part pkt 12 2 = [8, 0] \<and>
     pkt_part pkt 23 1 = [1] \<and> pkt_part pkt (header_end pkt) 1 = [type] \<and> pkt_part pkt (header_end pkt + 4) 4 = ident"

text \<open>What is documented of the map, which is a hash that drops the least recently used entries: an update that succeeds
  is found by the next look-up, an update of another key leaves an entry as it is or drops it, and a look-up changes
  no entry.\<close>

definition map_finds :: "'m bpf \<Rightarrow> bool" where
  "map_finds K \<longleftrightarrow> (\<forall>m i a. fst (client_update K i a m) = 0 \<longrightarrow> fst (client_lookup K i (snd (client_update K i a m))) = Some a) \<and>
     (\<forall>m i j a. i \<noteq> j \<longrightarrow> fst (client_lookup K i (snd (client_update K j a m))) \<in> {fst (client_lookup K i m), None}) \<and>
     (\<forall>m i j. fst (client_lookup K i (snd (client_lookup K j m))) = fst (client_lookup K i m))"

text \<open>What a packet does to the map.\<close>

lemma pass_tcp_clients: "pass_tcp K G pkt e v s = Some (a, q, s') \<Longrightarrow> x_clients s' = x_clients s"
  by (auto simp: pass_tcp_def bind_eq_Some_conv split: option.splits if_splits)

lemma pass_udp_clients: "pass_udp K G pkt e v s = Some (a, q, s') \<Longrightarrow> x_clients s' = x_clients s"
  by (auto simp: pass_udp_def bind_eq_Some_conv split: option.splits if_splits)

definition clients_step :: "'m bpf \<Rightarrow> bytes \<Rightarrow> 'm \<Rightarrow> 'm \<Rightarrow> bool" where
  "clients_step K pkt m m' \<longleftrightarrow> m' = m \<or> (\<exists>i. icmp_echo 8 i pkt \<and> m' = snd (client_update K i (pkt_part pkt 26 4) m)) \<or>
     (\<exists>i. m' = snd (client_lookup K i m))"

lemma pass_icmp_clients:
  assumes "pass_icmp K G pkt 0 14 s = Some (a, q, s')" "34 < length pkt" "pkt_part pkt 12 2 = [8, 0]" "pkt_part pkt 23 1 = [1]"
  shows "clients_step K pkt (x_clients s) (x_clients s')"
proof (cases "header_end pkt + 8 < length pkt")
  case False
  then show ?thesis using assms by (simp add: pass_icmp_def ihl_some check_icmp_fix_def check_header_fix_def hlen_defs clients_step_def)
next
  case True
  let ?i = "pkt_part pkt (header_end pkt + 4) 4"
  obtain ru mu where u: "client_update K ?i (pkt_part pkt 26 4) (x_clients s) = (ru, mu)" by fastforce
  obtain rl ml where l: "client_lookup K ?i (x_clients s) = (rl, ml)" by fastforce
  have "x_clients s' = x_clients s \<or> pkt_part pkt (header_end pkt) 1 = [8] \<and> x_clients s' = mu \<or> x_clients s' = ml"
    using assms True u l
    by (auto simp: pass_icmp_def Let_def ihl_some check_icmp_fix_def check_header_fix_def hlen_defs mget_some bind_eq_Some_conv
        split: if_splits option.splits)
  moreover have "ml = snd (client_lookup K ?i (x_clients s))" "mu = snd (client_update K ?i (pkt_part pkt 26 4) (x_clients s))"
    using u l by simp_all
  ultimately show ?thesis using assms True unfolding clients_step_def icmp_echo_def by blast
qed

lemma count_clients: "x_clients (snd (snd (count_packet n (a, p, s)))) = x_clients s"
  by (simp add: count_packet_def Let_def)

lemma xdp_clients:
  assumes "xdp_pass_func K G pkt s = Some (a, q, s')"
  shows "clients_step K pkt (x_clients s) (x_clients s')"
proof -
  have same: "clients_step K pkt m m" for m by (simp add: clients_step_def)
  consider "length pkt \<le> 34 \<or> pkt_part pkt 12 2 \<noteq> [8, 0]" | "34 < length pkt" "pkt_part pkt 12 2 = [8, 0]" by fastforce
  then show ?thesis
  proof cases
    case 1
    then have "xdp_pass_func K G pkt s = Some (count_packet (of_nat (length pkt)) (XDP_PASS, pkt, s))" by (auto simp: xdp_run)
    then have "x_clients s' = x_clients s" using assms count_clients [of "of_nat (length pkt)" XDP_PASS pkt s] by (metis option.inject snd_conv)
    then show ?thesis using same by simp
  next
    case 2
    let ?r = "if pkt_part pkt 23 1 = [6] then pass_tcp K G pkt 0 14 s else if pkt_part pkt 23 1 = [17] then pass_udp K G pkt 0 14 s
      else if pkt_part pkt 23 1 = [1] then pass_icmp K G pkt 0 14 s else Some (XDP_PASS, pkt, s)"
    have "xdp_pass_func K G pkt s = map_option (count_packet (of_nat (length pkt))) ?r" using 2 by (simp add: xdp_run)
    then have "map_option (count_packet (of_nat (length pkt))) ?r = Some (a, q, s')" using assms by simp
    then obtain z where z: "?r = Some z" "count_packet (of_nat (length pkt)) z = (a, q, s')" unfolding map_option_eq_Some by blast
    obtain a' q' t where "z = (a', q', t)" using prod_cases3 by blast
    then have t: "?r = Some (a', q', t)" "count_packet (of_nat (length pkt)) (a', q', t) = (a, q, s')" using z by blast+
    have "clients_step K pkt (x_clients s) (x_clients t)"
      using t(1) same pass_icmp_clients [OF _ 2, of K G s] by (auto split: if_splits dest!: pass_tcp_clients pass_udp_clients)
    then show ?thesis using t(2) count_clients [of "of_nat (length pkt)" a' q' t] by simp
  qed
qed

text \<open>The packets that arrive one after the other.\<close>

fun xdp_handle :: "'m bpf \<Rightarrow> xdp_globals \<Rightarrow> bytes list \<Rightarrow> 'm xdp_state \<Rightarrow> 'm xdp_state option" where
  "xdp_handle K G [] s = Some s"
| "xdp_handle K G (pkt # pkts) s = do { (a, p, s') \<leftarrow> xdp_pass_func K G pkt s; xdp_handle K G pkts s' }"

lemma clients_kept:
  assumes "map_finds K" "clients_step K pkt m m'" "\<not> icmp_echo 8 ident pkt"
  shows "fst (client_lookup K ident m') \<in> {fst (client_lookup K ident m), None}"
    and "(\<forall>i. \<not> icmp_echo 8 i pkt) \<Longrightarrow> fst (client_lookup K ident m') = fst (client_lookup K ident m)"
  using assms unfolding clients_step_def map_finds_def by (metis insertCI)+

lemma xdp_handle_keeps:
  assumes K: "globals_ok G" "map_ok K I" "map_finds K"
  shows "xdp_ok I s \<Longrightarrow> (\<forall>p \<in> set pkts. \<not> icmp_echo 8 ident p) \<Longrightarrow> \<exists>t. xdp_handle K G pkts s = Some t \<and> xdp_ok I t \<and>
    fst (client_lookup K ident (x_clients t)) \<in> {fst (client_lookup K ident (x_clients s)), None} \<and>
    ((\<forall>p \<in> set pkts. \<forall>i. \<not> icmp_echo 8 i p) \<longrightarrow> fst (client_lookup K ident (x_clients t)) = fst (client_lookup K ident (x_clients s)))"
proof (induction pkts arbitrary: s)
  case (Cons pkt pkts)
  obtain a p s' where r: "xdp_pass_func K G pkt s = Some (a, p, s')" "xdp_ok I s'" using xdp_result [OF K(1,2) Cons.prems(1), of pkt] by blast
  obtain t where t: "xdp_handle K G pkts s' = Some t" "xdp_ok I t"
    "fst (client_lookup K ident (x_clients t)) \<in> {fst (client_lookup K ident (x_clients s')), None}"
    "(\<forall>p \<in> set pkts. \<forall>i. \<not> icmp_echo 8 i p) \<longrightarrow> fst (client_lookup K ident (x_clients t)) = fst (client_lookup K ident (x_clients s'))"
    using Cons.IH [OF r(2)] Cons.prems(2) by auto
  have "\<not> icmp_echo 8 ident pkt" using Cons.prems(2) by simp
  note kept = clients_kept [OF K(3) xdp_clients [OF r(1)] this]
  have "fst (client_lookup K ident (x_clients t)) \<in> {fst (client_lookup K ident (x_clients s)), None}" using t(3) kept(1) by auto
  then show ?case using r(1) t kept(2) by auto
qed simp

lemma count_tx: "length (x_stats s) = 5 \<Longrightarrow> \<exists>s'. count_packet n (XDP_TX, p, s) = (XDP_TX, p, s') \<and> x_clients s' = x_clients s"
  by (simp add: count_packet_def Let_def)

lemma echo_request:
  assumes G: "globals_ok G" and e: "icmp_echo 8 ident pkt" and len: "length (x_stats s) = 5"
    and u: "fst (client_update K ident (pkt_part pkt 26 4) (x_clients s)) = 0"
  shows "\<exists>p s'. xdp_pass_func K G pkt s = Some (XDP_TX, p, s') \<and> same_but {0..<34} p pkt \<and> pkt_part p 30 4 = g_icmp_server_ip G \<and>
    x_clients s' = snd (client_update K ident (pkt_part pkt 26 4) (x_clients s))"
proof -
  have l: "34 \<le> length pkt" "length (g_icmp_server_ip G) = 4" "pkt_part pkt 23 1 = [1]" using e G by (simp_all add: icmp_echo_def globals_ok_def)
  obtain p where p: "icmp_request_server K G pkt 0 14 = Some p" "same_but {0..<34} p pkt" "pkt_part p 30 4 = g_icmp_server_ip G"
    using icmp_rewritten [OF G l] unfolding icmp_request_server_eq by blast
  obtain m where m: "client_update K ident (pkt_part pkt 26 4) (x_clients s) = (0, m)" using u by (metis prod.collapse)
  have "pass_icmp K G pkt 0 14 s = Some (XDP_TX, p, s\<lparr>x_clients := m\<rparr>)"
    using e l p(1) m by (simp add: pass_icmp_def Let_def ihl_some check_icmp_fix_def check_header_fix_def hlen_defs mget_some icmp_echo_def)
  then have "xdp_pass_func K G pkt s = Some (count_packet (of_nat (length pkt)) (XDP_TX, p, s\<lparr>x_clients := m\<rparr>))"
    using e by (simp add: xdp_run icmp_echo_def)
  then show ?thesis using count_tx [of "s\<lparr>x_clients := m\<rparr>" "of_nat (length pkt)" p] len p(2,3) m by auto
qed

lemma echo_reply:
  assumes G: "globals_ok G" and e: "icmp_echo 0 ident pkt" and len: "length (x_stats s) = 5" "length c = 4"
    and u: "fst (client_lookup K ident (x_clients s)) = Some c"
  shows "\<exists>p s'. xdp_pass_func K G pkt s = Some (XDP_TX, p, s') \<and> same_but {0..<34} p pkt \<and> pkt_part p 30 4 = c"
proof -
  have l: "34 \<le> length pkt" "length c = 4" "pkt_part pkt 23 1 = [1]" using e len(2) by (simp_all add: icmp_echo_def)
  obtain p where p: "icmp_reply_server K G pkt 0 14 c = Some p" "same_but {0..<34} p pkt" "pkt_part p 30 4 = c"
    using icmp_rewritten [OF G l] by blast
  obtain m where m: "client_lookup K ident (x_clients s) = (Some c, m)" using u by (metis prod.collapse)
  have "pass_icmp K G pkt 0 14 s = Some (XDP_TX, p, s\<lparr>x_clients := m\<rparr>)"
    using e l p(1) m by (simp add: pass_icmp_def Let_def ihl_some check_icmp_fix_def check_header_fix_def hlen_defs mget_some icmp_echo_def)
  then have "xdp_pass_func K G pkt s = Some (count_packet (of_nat (length pkt)) (XDP_TX, p, s\<lparr>x_clients := m\<rparr>))"
    using e by (simp add: xdp_run icmp_echo_def)
  then show ?thesis using count_tx [of "s\<lparr>x_clients := m\<rparr>" "of_nat (length pkt)" p] len(1) p(2,3) m by auto
qed

lemma echo_reply_none:
  assumes e: "icmp_echo 0 ident pkt" and u: "fst (client_lookup K ident (x_clients s)) = None" and len: "length (x_stats s) = 5"
  shows "\<exists>s'. xdp_pass_func K G pkt s = Some (XDP_PASS, pkt, s')"
proof -
  obtain m where m: "client_lookup K ident (x_clients s) = (None, m)" using u by (metis prod.collapse)
  have l: "34 \<le> length pkt" using e by (simp add: icmp_echo_def)
  have "pass_icmp K G pkt 0 14 s = Some (XDP_PASS, pkt, s\<lparr>x_clients := m\<rparr>)"
    using e l m by (simp add: pass_icmp_def Let_def ihl_some check_icmp_fix_def check_header_fix_def hlen_defs mget_some icmp_echo_def)
  then have "xdp_pass_func K G pkt s = Some (count_packet (of_nat (length pkt)) (XDP_PASS, pkt, s\<lparr>x_clients := m\<rparr>))"
    using e by (simp add: xdp_run icmp_echo_def)
  then show ?thesis using len by (simp add: count_packet_def Let_def)
qed

section \<open>The properties\<close>

text \<open>C33: The XDP handler never reads or writes behind the end of a packet: for every packet whatsoever it ends with
  \<open>XDP_PASS\<close> and the packet untouched, or with \<open>XDP_TX\<close> and a packet of the same length; one packet and its length are
  added to the counters of just that action, and the state stays well formed.\<close>

theorem xdp_in_bounds:
  assumes "globals_ok G" "map_ok K I" "xdp_ok I s"
  shows "\<exists>a p s'. xdp_pass_func K G pkt s = Some (a, p, s') \<and> xdp_ok I s' \<and> x_stats s' = stats_after a (length pkt) s \<and>
    (a = XDP_PASS \<and> p = pkt \<or> a = XDP_TX \<and> length p = length pkt)"
  using xdp_result [OF assms] unfolding rewritten_def by blast

theorem xdp_in_bounds_witness:
  "\<exists>a p s'. xdp_pass_func demo_bpf xdp_globals0 (eth_ip 17 [10, 0, 0, 1] [1, 2, 0x96, 0x2f, 0, 9, 0, 0, 7]) (xdp_state0 (\<lambda>_. None)) = Some (a, p, s') \<and>
    length p = 43"
  using xdp_in_bounds [OF demo_laws(1,2,4), of "eth_ip 17 [10, 0, 0, 1] [1, 2, 0x96, 0x2f, 0, 9, 0, 0, 7]"]
  by (auto simp: eth_ip_def)

text \<open>C34: With the documented behaviour of \<open>bpf_csum_diff\<close>, the incremental updates of the checksums are right: in a
  packet that is sent back, whose IP header has at least its least length, the sum of the IP header including its
  checksum is modulo 65535 what it was, and so is the sum of addresses and segment for TCP and UDP; a valid packet
  stays valid.  The packet leaves with the local address as its source, and of an ICMP packet nothing else changes.\<close>

theorem xdp_keeps_checksums:
  assumes "globals_ok G" "map_ok K I" "xdp_ok I s" "csum_ok K"
    and "xdp_pass_func K G pkt s = Some (XDP_TX, p, s')" "34 \<le> header_end pkt"
  shows "pkt_part p 26 4 = g_local_ip G \<and>
    sum16 (pkt_part p 14 (header_end pkt - 14)) mod 65535 = sum16 (pkt_part pkt 14 (header_end pkt - 14)) mod 65535 \<and>
    (let x = pkt_part pkt 23 1 ! 0 in x = 1 \<and> same_but {0..<34} p pkt \<or>
      (x = 6 \<or> x = 17) \<and> (\<forall>n \<ge> if x = 6 then 20 else 8.
        (sum16 (pkt_part p 26 8) + sum16 (pkt_part p (header_end pkt) n)) mod 65535 =
        (sum16 (pkt_part pkt 26 8) + sum16 (pkt_part pkt (header_end pkt) n)) mod 65535))"
  using xdp_result [OF assms(1-3), of pkt] assms(4-6) by (auto simp: rewritten_def)

theorem xdp_keeps_checksums_witness:
  "\<exists>p s'. xdp_pass_func demo_bpf xdp_globals0 (eth_ip 6 [10, 0, 0, 1] demo_segment) (xdp_state0 (\<lambda>_. None)) = Some (XDP_TX, p, s') \<and>
    pkt_part p 26 4 = [192, 168, 0, 173] \<and>
    sum16 (pkt_part p 14 20) mod 65535 = sum16 (pkt_part (eth_ip 6 [10, 0, 0, 1] demo_segment) 14 20) mod 65535"
proof -
  obtain p s' where r: "xdp_pass_func demo_bpf xdp_globals0 (eth_ip 6 [10, 0, 0, 1] demo_segment) (xdp_state0 (\<lambda>_. None)) = Some (XDP_TX, p, s')"
    using demo_forwarded by blast
  have h: "header_end (eth_ip 6 [10, 0, 0, 1] demo_segment) = 34" by code_simp
  have "34 \<le> header_end (eth_ip 6 [10, 0, 0, 1] demo_segment)" using h by simp
  from xdp_keeps_checksums [OF demo_laws(1,2,4,3) r this] have "pkt_part p 26 4 = g_local_ip xdp_globals0"
    "sum16 (pkt_part p 14 20) mod 65535 = sum16 (pkt_part (eth_ip 6 [10, 0, 0, 1] demo_segment) 14 20) mod 65535"
    unfolding h by simp_all
  then show ?thesis using r by (auto simp: xdp_globals0_def)
qed

text \<open>C35: An ICMP echo request with data behind its header, for which the map takes the entry, goes to the server.  After
  any packets whatsoever in which no other such request has the same identifier and sequence number, the reply that
  carries them goes to the client that sent the request, or, when the map has dropped the entry meanwhile, is passed
  on untouched; it never goes to somebody else.  The entry is there as long as no other echo request comes.  Of both
  packets nothing behind the first 34 bytes changes.\<close>

theorem xdp_icmp_round_trip:
  assumes "globals_ok G" "map_ok K I" "map_finds K" "xdp_ok I s"
    and "icmp_echo 8 ident pkt" "fst (client_update K ident (pkt_part pkt 26 4) (x_clients s)) = 0" "icmp_echo 0 ident rep"
    and "\<forall>p \<in> set pkts. \<not> icmp_echo 8 ident p"
  shows "\<exists>p s1 t. xdp_pass_func K G pkt s = Some (XDP_TX, p, s1) \<and> pkt_part p 30 4 = g_icmp_server_ip G \<and> same_but {0..<34} p pkt \<and>
    xdp_handle K G pkts s1 = Some t \<and>
    (case fst (client_lookup K ident (x_clients t)) of
       None \<Rightarrow> (\<exists>x \<in> set pkts. \<exists>i. icmp_echo 8 i x) \<and> (\<exists>s2. xdp_pass_func K G rep t = Some (XDP_PASS, rep, s2))
     | Some c \<Rightarrow> c = pkt_part pkt 26 4 \<and>
         (\<exists>q s2. xdp_pass_func K G rep t = Some (XDP_TX, q, s2) \<and> pkt_part q 30 4 = c \<and> same_but {0..<34} q rep))"
proof -
  have five: "length (x_stats s) = 5" using assms(4) by (simp add: xdp_ok_def)
  obtain p s1 where p: "xdp_pass_func K G pkt s = Some (XDP_TX, p, s1)" "same_but {0..<34} p pkt" "pkt_part p 30 4 = g_icmp_server_ip G"
    "x_clients s1 = snd (client_update K ident (pkt_part pkt 26 4) (x_clients s))"
    using echo_request [OF assms(1,5) five assms(6)] by blast
  have "xdp_ok I s1" using xdp_result [OF assms(1,2,4), of pkt] p(1) by auto
  then obtain t where t: "xdp_handle K G pkts s1 = Some t" "xdp_ok I t"
    "fst (client_lookup K ident (x_clients t)) \<in> {fst (client_lookup K ident (x_clients s1)), None}"
    "(\<forall>x \<in> set pkts. \<forall>i. \<not> icmp_echo 8 i x) \<longrightarrow> fst (client_lookup K ident (x_clients t)) = fst (client_lookup K ident (x_clients s1))"
    using xdp_handle_keeps [OF assms(1-3) _ assms(8)] by blast
  have five: "length (x_stats t) = 5" using t(2) by (simp add: xdp_ok_def)
  have found: "fst (client_lookup K ident (x_clients s1)) = Some (pkt_part pkt 26 4)" using assms(3,6) p(4) by (simp add: map_finds_def)
  have "34 < length pkt" using assms(5) by (simp add: icmp_echo_def)
  then have four: "length (pkt_part pkt 26 4) = 4" by simp
  show ?thesis
  proof (cases "fst (client_lookup K ident (x_clients t))")
    case None
    then have "\<exists>x \<in> set pkts. \<exists>i. icmp_echo 8 i x" using t(4) found by auto
    then have "case fst (client_lookup K ident (x_clients t)) of
       None \<Rightarrow> (\<exists>x \<in> set pkts. \<exists>i. icmp_echo 8 i x) \<and> (\<exists>s2. xdp_pass_func K G rep t = Some (XDP_PASS, rep, s2))
     | Some c \<Rightarrow> c = pkt_part pkt 26 4 \<and>
         (\<exists>q s2. xdp_pass_func K G rep t = Some (XDP_TX, q, s2) \<and> pkt_part q 30 4 = c \<and> same_but {0..<34} q rep)"
      using echo_reply_none [OF assms(7) None five, of G] unfolding None option.case by blast
    then show ?thesis using p(1-3) t(1) by blast
  next
    case (Some c)
    then have c: "c = pkt_part pkt 26 4" using t(3) found by simp
    then show ?thesis using p(1-3) t(1) Some echo_reply [OF assms(1,7) five four, of K] by (intro exI conjI) auto
  qed
qed

theorem xdp_icmp_round_trip_witness:
  "\<exists>p s1 t q s2. xdp_pass_func demo_bpf xdp_globals0 (eth_ip 1 [10, 0, 0, 1] [8, 0, 0, 0, 0, 7, 0, 1, 65]) (xdp_state0 (\<lambda>_. None)) = Some (XDP_TX, p, s1) \<and>
    xdp_handle demo_bpf xdp_globals0 [eth_ip 6 [10, 0, 0, 9] demo_segment, eth_ip 17 [10, 0, 0, 9] [1, 2, 0x96, 0x2f, 0, 9, 0, 0, 7]] s1 = Some t \<and>
    xdp_pass_func demo_bpf xdp_globals0 (eth_ip 1 [14, 119, 104, 254] [0, 0, 0, 0, 0, 7, 0, 1, 65]) t = Some (XDP_TX, q, s2) \<and>
    pkt_part q 30 4 = [10, 0, 0, 1]"
proof -
  have f: "map_finds demo_bpf" by (simp add: map_finds_def demo_bpf_def)
  have e: "icmp_echo 8 [0, 7, 0, 1] (eth_ip 1 [10, 0, 0, 1] [8, 0, 0, 0, 0, 7, 0, 1, 65])" by code_simp
  have e': "icmp_echo 0 [0, 7, 0, 1] (eth_ip 1 [14, 119, 104, 254] [0, 0, 0, 0, 0, 7, 0, 1, 65])" by code_simp
  let ?between = "[eth_ip 6 [10, 0, 0, 9] demo_segment, eth_ip 17 [10, 0, 0, 9] [1, 2, 0x96, 0x2f, 0, 9, 0, 0, 7]]"
  have "pkt_part (eth_ip 6 [10, 0, 0, 9] demo_segment) 23 1 \<noteq> [1]" "pkt_part (eth_ip 17 [10, 0, 0, 9] [1, 2, 0x96, 0x2f, 0, 9, 0, 0, 7]) 23 1 \<noteq> [1]"
    by code_simp+
  then have b: "\<not> icmp_echo 8 i x" if "x \<in> set ?between" for i x using that by (auto simp: icmp_echo_def)
  then have b': "\<forall>x \<in> set ?between. \<not> icmp_echo 8 [0, 7, 0, 1] x" by blast
  have a: "pkt_part (eth_ip 1 [10, 0, 0, 1] [8, 0, 0, 0, 0, 7, 0, 1, 65]) 26 4 = [10, 0, 0, 1]" by code_simp
  have u: "fst (client_update demo_bpf i x m) = 0" for i x m by (simp add: demo_bpf_def)
  obtain p s1 t where p: "xdp_pass_func demo_bpf xdp_globals0 (eth_ip 1 [10, 0, 0, 1] [8, 0, 0, 0, 0, 7, 0, 1, 65]) (xdp_state0 (\<lambda>_. None)) = Some (XDP_TX, p, s1)"
    "xdp_handle demo_bpf xdp_globals0 ?between s1 = Some t"
    "case fst (client_lookup demo_bpf [0, 7, 0, 1] (x_clients t)) of
       None \<Rightarrow> (\<exists>x \<in> set ?between. \<exists>i. icmp_echo 8 i x) \<and>
         (\<exists>s2. xdp_pass_func demo_bpf xdp_globals0 (eth_ip 1 [14, 119, 104, 254] [0, 0, 0, 0, 0, 7, 0, 1, 65]) t =
           Some (XDP_PASS, eth_ip 1 [14, 119, 104, 254] [0, 0, 0, 0, 0, 7, 0, 1, 65], s2))
     | Some c \<Rightarrow> c = [10, 0, 0, 1] \<and>
         (\<exists>q s2. xdp_pass_func demo_bpf xdp_globals0 (eth_ip 1 [14, 119, 104, 254] [0, 0, 0, 0, 0, 7, 0, 1, 65]) t = Some (XDP_TX, q, s2) \<and>
           pkt_part q 30 4 = c \<and> same_but {0..<34} q (eth_ip 1 [14, 119, 104, 254] [0, 0, 0, 0, 0, 7, 0, 1, 65]))"
    using xdp_icmp_round_trip [OF demo_laws(1,2) f demo_laws(4) e u e' b'] unfolding a by blast
  show ?thesis
  proof (cases "fst (client_lookup demo_bpf [0, 7, 0, 1] (x_clients t))")
    case None
    then have "\<exists>x \<in> set ?between. \<exists>i. icmp_echo 8 i x" using p(3) by (simp only: option.case simp_thms)
    then show ?thesis using b by blast
  next
    case (Some c)
    then have "\<exists>q s2. xdp_pass_func demo_bpf xdp_globals0 (eth_ip 1 [14, 119, 104, 254] [0, 0, 0, 0, 0, 7, 0, 1, 65]) t = Some (XDP_TX, q, s2) \<and>
        pkt_part q 30 4 = [10, 0, 0, 1]" using p(3) by (simp only: option.case) blast
    then show ?thesis using p(1,2) by blast
  qed
qed

end
