(* ===== verification/Try_Catch.thy ===== *)
theory Try_Catch
  imports Cvip_Prelude
begin

text \<open>
  The exception macros of \<open>code/exception/trycatch_finally.c\<close>: \<open>Try\<close>, \<open>Catch\<close>, \<open>Finally\<close>, \<open>EndTry\<close> and
  \<open>Throw\<close> over \<open>setjmp\<close> and \<open>longjmp\<close>, with the stack of frames that each thread keeps, and the two programs
  of the file that use them.

  A C fragment that uses the macros is a statement; what the macros expand to is its execution.  A frame is
  a local variable of the block of its \<open>Try\<close>: it lives from the macro on until the block is left, in whatever
  way, and an access to it afterwards is \<open>None\<close>.  The effect of \<open>longjmp\<close> is an outcome that is handed outwards
  to the block whose frame it names.
\<close>

section \<open>Exceptions and frames\<close>

text \<open>An exception is known by its address.\<close>

record ntyException =
  ex_addr :: nat
  ex_name :: string

record throw_loc =
  l_func :: string
  l_file :: string
  l_line :: nat

record ntyExceptionFrame =
  f_exception :: "ntyException option"
  f_loc :: "throw_loc option"
  f_prev :: nat
  f_message :: string

text \<open>What is printed: by the program, and for an exception that no frame awaits.\<close>

datatype event = Printed string | Uncaught ntyException "string option" throw_loc

record exc_state =
  e_frames :: "nat \<Rightarrow> ntyExceptionFrame option"
  e_stack :: nat
  e_fresh :: nat
  e_out :: "event list"

text \<open>A thread starts with no frame on its stack; 0 is \<open>NULL\<close>.\<close>

definition exc_start :: exc_state where
  "exc_start = \<lparr>e_frames = (\<lambda>_. None), e_stack = 0, e_fresh = 1, e_out = []\<rparr>"

definition ntyExceptionPopStack :: "exc_state \<Rightarrow> exc_state option" where
  "ntyExceptionPopStack s = do {
     f \<leftarrow> e_frames s (e_stack s);
     Some (s\<lparr>e_stack := f_prev f\<rparr>)
   }"

datatype outcome = Normal | Jump nat | Returned

definition message_text :: "string \<Rightarrow> string" where
  "message_text cause = take 511 cause"

definition ntyExceptionThrow :: "ntyException \<Rightarrow> throw_loc \<Rightarrow> string option \<Rightarrow> exc_state \<Rightarrow> (outcome \<times> exc_state) option" where
  "ntyExceptionThrow excep l cause s =
     (if e_stack s \<noteq> 0 then do {
        f \<leftarrow> e_frames s (e_stack s);
        let f1 = f\<lparr>f_exception := Some excep, f_loc := Some l,
                   f_message := (case cause of None \<Rightarrow> f_message f | Some c \<Rightarrow> message_text c)\<rparr>;
        let s1 = s\<lparr>e_frames := (e_frames s)(e_stack s \<mapsto> f1)\<rparr>;
        s2 \<leftarrow> ntyExceptionPopStack s1;
        Some (Jump (e_stack s), s2)
      }
      else Some (Normal, s\<lparr>e_out := e_out s @ [Uncaught excep (map_option message_text cause) l]\<rparr>))"

section \<open>Programs that use the macros\<close>

text \<open>The grammar of the macros: a \<open>Try\<close> is followed by any number of \<open>Catch\<close>, then perhaps by \<open>Finally\<close>, then
  by \<open>EndTry\<close>.  \<open>Call\<close> is the body of a function, which \<open>Return\<close> leaves.\<close>

datatype stmt = Nop | Print string | Throw ntyException "string option" throw_loc | Return
  | Then stmt stmt | Call stmt | Try stmt clauses
and clauses = Catch ntyException stmt clauses | Finally stmt | EndTry

datatype exc_flag = ExceptionEntered | ExceptionThrown | ExceptionHandled | ExceptionFinalized

text \<open>The macro \<open>Try\<close>: the new frame.\<close>

definition enter_frame :: "exc_state \<Rightarrow> exc_state" where
  "enter_frame s = s\<lparr>e_frames := (e_frames s)(e_fresh s \<mapsto> \<lparr>f_exception = None, f_loc = None, f_prev = e_stack s, f_message = []\<rparr>),
     e_stack := e_fresh s, e_fresh := e_fresh s + 1\<rparr>"

text \<open>The end of the block of a \<open>Try\<close>.\<close>

definition leave_frame :: "nat \<Rightarrow> exc_state \<Rightarrow> exc_state" where
  "leave_frame f s = s\<lparr>e_frames := (e_frames s)(f := None)\<rparr>"

definition pop_if_entered :: "exc_flag \<Rightarrow> exc_state \<Rightarrow> exc_state option" where
  "pop_if_entered flag s = (if flag = ExceptionEntered then ntyExceptionPopStack s else Some s)"

text \<open>\<open>EndTry\<close> after its first brace: an exception that is still there is thrown again, without its message.\<close>

definition end_try :: "nat \<Rightarrow> exc_flag \<Rightarrow> exc_state \<Rightarrow> (outcome \<times> exc_state) option" where
  "end_try f flag s =
     (if flag = ExceptionThrown then do {
        fr \<leftarrow> e_frames s f;
        e \<leftarrow> f_exception fr;
        l \<leftarrow> f_loc fr;
        (r, s1) \<leftarrow> ntyExceptionThrow e l None s;
        Some (r, leave_frame f s1)
      }
      else Some (Normal, leave_frame f s))"

text \<open>Every macro that ends a branch pops the frame if nothing was thrown in it.  \<open>catch_clauses\<close> is the chain of
  comparisons after a jump to this frame; \<open>final_clause\<close> goes to what follows the last \<open>Catch\<close>.\<close>

fun exec :: "stmt \<Rightarrow> exc_state \<Rightarrow> (outcome \<times> exc_state) option"
and catch_clauses :: "nat \<Rightarrow> clauses \<Rightarrow> exc_state \<Rightarrow> (outcome \<times> exc_state) option"
and final_clause :: "nat \<Rightarrow> exc_flag \<Rightarrow> clauses \<Rightarrow> exc_state \<Rightarrow> (outcome \<times> exc_state) option"
where
  "exec Nop s = Some (Normal, s)"
| "exec (Print t) s = Some (Normal, s\<lparr>e_out := e_out s @ [Printed t]\<rparr>)"
| "exec (Throw e cause l) s = ntyExceptionThrow e l cause s"
| "exec Return s = Some (Returned, s)"
| "exec (Then a b) s = do {
     (r, s1) \<leftarrow> exec a s;
     (if r = Normal then exec b s1 else Some (r, s1))
   }"
| "exec (Call a) s = do {
     (r, s1) \<leftarrow> exec a s;
     Some (if r = Returned then Normal else r, s1)
   }"
| "exec (Try a cl) s = do {
     let f = e_fresh s;
     (r, s1) \<leftarrow> exec a (enter_frame s);
     (if r = Normal then do {
        s2 \<leftarrow> pop_if_entered ExceptionEntered s1;
        final_clause f ExceptionEntered cl s2
      }
      else if r = Jump f then catch_clauses f cl s1
      else Some (r, leave_frame f s1))
   }"
| "catch_clauses f (Catch e a cl) s = do {
     fr \<leftarrow> e_frames s f;
     ex \<leftarrow> f_exception fr;
     (if ex_addr ex = ex_addr e then do {
        (r, s1) \<leftarrow> exec a s;
        (if r = Normal then do {
           s2 \<leftarrow> pop_if_entered ExceptionHandled s1;
           final_clause f ExceptionHandled cl s2
         }
         else Some (r, leave_frame f s1))
      }
      else catch_clauses f cl s)
   }"
| "catch_clauses f (Finally a) s = final_clause f ExceptionThrown (Finally a) s"
| "catch_clauses f EndTry s = final_clause f ExceptionThrown EndTry s"
| "final_clause f flag (Catch e a cl) s = final_clause f flag cl s"
| "final_clause f flag (Finally a) s = do {
     let flag1 = (if flag = ExceptionEntered then ExceptionFinalized else flag);
     (r, s1) \<leftarrow> exec a s;
     (if r = Normal then do {
        s2 \<leftarrow> pop_if_entered flag1 s1;
        end_try f flag1 s2
      }
      else Some (r, leave_frame f s1))
   }"
| "final_clause f flag EndTry s = end_try f flag s"

section \<open>The programs of the file\<close>

definition ex_A :: ntyException where "ex_A = \<lparr>ex_addr = 1, ex_name = ''AException''\<rparr>"
definition ex_B :: ntyException where "ex_B = \<lparr>ex_addr = 2, ex_name = ''BException''\<rparr>"
definition ex_C :: ntyException where "ex_C = \<lparr>ex_addr = 3, ex_name = ''CException''\<rparr>"
definition ex_D :: ntyException where "ex_D = \<lparr>ex_addr = 4, ex_name = ''DException''\<rparr>"

definition at_line :: "string \<Rightarrow> nat \<Rightarrow> throw_loc" where
  "at_line func line = \<lparr>l_func = func, l_file = ''trycatch_finally.c'', l_line = line\<rparr>"

fun seq :: "stmt list \<Rightarrow> stmt" where
  "seq [] = Nop"
| "seq (a # as) = Then a (seq as)"

text \<open>The function of the test threads, with the text of its identifier, and \<open>main\<close>; creating and joining the
  threads is left out.\<close>

definition thread :: "string \<Rightarrow> stmt" where
  "thread selfid = Call (seq [
     Try (Throw ex_A (Some ''A'') (at_line ''thread'' 163))
       (Catch ex_A (Print (''catch A : '' @ selfid @ ''\<newline>'')) EndTry),
     Try (Throw ex_B (Some ''B'') (at_line ''thread'' 175))
       (Catch ex_B (Print (''catch B : '' @ selfid @ ''\<newline>'')) EndTry),
     Try (Throw ex_C (Some ''C'') (at_line ''thread'' 187))
       (Catch ex_C (Print (''catch C : '' @ selfid @ ''\<newline>'')) EndTry),
     Try (Throw ex_D (Some ''D'') (at_line ''thread'' 199))
       (Catch ex_D (Print (''catch D : '' @ selfid @ ''\<newline>'')) EndTry),
     Try (seq [Throw ex_A (Some ''A Again'') (at_line ''thread'' 211), Throw ex_B (Some ''B Again'') (at_line ''thread'' 212),
               Throw ex_C (Some ''C Again'') (at_line ''thread'' 213), Throw ex_D (Some ''D Again'') (at_line ''thread'' 214)])
       (Catch ex_A (Print (''catch A again : '' @ selfid @ ''\<newline>''))
       (Catch ex_B (Print (''catch B again : '' @ selfid @ ''\<newline>''))
       (Catch ex_C (Print (''catch C again : '' @ selfid @ ''\<newline>''))
       (Catch ex_D (Print (''catch B again : '' @ selfid @ ''\<newline>'')) EndTry))))])"

definition exc_main :: stmt where
  "exc_main = Call (seq [
     Throw ex_D None (at_line ''main'' 246),
     Throw ex_C (Some ''null C'') (at_line ''main'' 248),
     Print ''\<newline>\<newline>=> Test1: Try-Catch\<newline>'',
     Try (seq [
         Try (Throw ex_B (Some ''recall B'') (at_line ''main'' 257))
           (Catch ex_B (Print ''recall B \<newline>'') EndTry),
         Throw ex_A None (at_line ''main'' 265)])
       (Catch ex_A (Print (CHR 0x09 # ''Result: Ok\<newline>'')) EndTry),
     Print ''=> Test1: Ok\<newline>\<newline>'',
     Print ''=> Test2: Test Thread-safeness\<newline>'',
     Print ''=> Test2: Ok\<newline>\<newline>''])"

end
