(* ===== verification/Try_Catch_Props.thy ===== *)
theory Try_Catch_Props
  imports Try_Catch
begin

text \<open>
  The meaning that the exception macros are meant to have, as a big-step semantics of structured exceptions
  without frames and jumps, and the theorem that the macros implement it; what the programs of the file print;
  and two ways of using the macros in which they do something else: a handler that throws, and a return out of a block.
\<close>

section \<open>Structured exceptions\<close>

datatype ended = Fine | Raised ntyException throw_loc string

text \<open>To throw: in a \<open>Try\<close> (\<open>b\<close>) the exception is raised, outside of any it is reported and the program goes on.\<close>

definition raised :: "bool \<Rightarrow> ntyException \<Rightarrow> throw_loc \<Rightarrow> string option \<Rightarrow> event list \<times> ended" where
  "raised b e l c = (if b then ([], Raised e l (case c of None \<Rightarrow> [] | Some t \<Rightarrow> message_text t))
     else ([Uncaught e (map_option message_text c) l], Fine))"

text \<open>To go on with another statement unless an exception was raised; and to run a final clause after whatever
  happened, whose own exception takes the place of the first.\<close>

fun and_then :: "event list \<times> ended \<Rightarrow> event list \<times> ended \<Rightarrow> event list \<times> ended" where
  "and_then (o1, Fine) (o2, r2) = (o1 @ o2, r2)"
| "and_then (o1, r1) q = (o1, r1)"

fun finally_do :: "event list \<times> ended \<Rightarrow> event list \<times> ended \<Rightarrow> event list \<times> ended" where
  "finally_do (o1, r1) (o2, r2) = (o1 @ o2, if r2 = Fine then r1 else r2)"

fun meaning :: "bool \<Rightarrow> stmt \<Rightarrow> event list \<times> ended"
and caught :: "bool \<Rightarrow> ended \<Rightarrow> clauses \<Rightarrow> event list \<times> ended"
and final :: "bool \<Rightarrow> clauses \<Rightarrow> event list \<times> ended"
where
  "meaning b Nop = ([], Fine)"
| "meaning b (Print t) = ([Printed t], Fine)"
| "meaning b (Throw e c l) = raised b e l c"
| "meaning b Return = ([], Fine)"
| "meaning b (Then x y) = and_then (meaning b x) (meaning b y)"
| "meaning b (Call x) = meaning b x"
| "meaning b (Try x cl) = (case meaning True x of (evs, r) \<Rightarrow> (case caught b r cl of (evs', r') \<Rightarrow> (evs @ evs', r')))"
| "caught b Fine cl = final b cl"
| "caught b (Raised e l m) (Catch e' h cl) =
     (if ex_addr e = ex_addr e' then finally_do (meaning b h) (final b cl) else caught b (Raised e l m) cl)"
| "caught b (Raised e l m) (Finally x) = and_then (meaning b x) (raised b e l None)"
| "caught b (Raised e l m) EndTry = raised b e l None"
| "final b (Catch e h cl) = final b cl"
| "final b (Finally x) = meaning b x"
| "final b EndTry = ([], Fine)"

text \<open>The statements for which the macros keep to it: no \<open>Return\<close>, and no exception out of a handler that a
  final clause follows.\<close>

fun has_final :: "clauses \<Rightarrow> bool" where
  "has_final (Catch e h cl) = has_final cl"
| "has_final (Finally x) = True"
| "has_final EndTry = False"

fun tidy :: "bool \<Rightarrow> stmt \<Rightarrow> bool" and tidy_clauses :: "bool \<Rightarrow> clauses \<Rightarrow> bool" where
  "tidy b Nop = True"
| "tidy b (Print t) = True"
| "tidy b (Throw e c l) = True"
| "tidy b Return = False"
| "tidy b (Then x y) = (tidy b x \<and> tidy b y)"
| "tidy b (Call x) = tidy b x"
| "tidy b (Try x cl) = (tidy True x \<and> tidy_clauses b cl)"
| "tidy_clauses b (Catch e h cl) = (tidy b h \<and> tidy_clauses b cl \<and> (has_final cl \<longrightarrow> snd (meaning b h) = Fine))"
| "tidy_clauses b (Finally x) = tidy b x"
| "tidy_clauses b EndTry = True"

section \<open>The frames under execution\<close>

text \<open>The state in which a statement is executed: \<open>b\<close> says whether a frame awaits an exception.\<close>

definition exc_ok :: "bool \<Rightarrow> exc_state \<Rightarrow> bool" where
  "exc_ok b s \<longleftrightarrow> (b \<longleftrightarrow> e_stack s \<noteq> 0) \<and> (b \<longrightarrow> (\<exists>x. e_frames s (e_stack s) = Some x \<and> f_message x = [])) \<and>
     e_stack s < e_fresh s \<and> (\<forall>i \<ge> e_fresh s. e_frames s i = None)"

text \<open>What an execution comes to, with the frames \<open>fr\<close> and the stack \<open>t\<close> that it is to leave: nothing else than
  output, or a jump to the frame on top of the stack, which has the exception in it and is off the stack.\<close>

definition comes_to :: "nat \<Rightarrow> (nat \<Rightarrow> ntyExceptionFrame option) \<Rightarrow> event list \<Rightarrow> nat \<Rightarrow> (outcome \<times> exc_state) option \<Rightarrow> event list \<times> ended \<Rightarrow> bool" where
  "comes_to t fr out n res q \<longleftrightarrow> (case q of
     (evs, Fine) \<Rightarrow> (\<exists>s. res = Some (Normal, s) \<and> e_frames s = fr \<and> e_stack s = t \<and> e_out s = out @ evs \<and> n \<le> e_fresh s)
   | (evs, Raised e l m) \<Rightarrow> (\<exists>s x. res = Some (Jump t, s) \<and> fr t = Some x \<and>
       e_frames s = fr(t \<mapsto> x\<lparr>f_exception := Some e, f_loc := Some l, f_message := m\<rparr>) \<and> e_stack s = f_prev x \<and>
       e_out s = out @ evs \<and> n \<le> e_fresh s))"

lemma comes_fine: "comes_to t fr out n res (evs, Fine) \<longleftrightarrow>
    (\<exists>s. res = Some (Normal, s) \<and> e_frames s = fr \<and> e_stack s = t \<and> e_out s = out @ evs \<and> n \<le> e_fresh s)"
  by (simp add: comes_to_def)

lemma comes_raised: "comes_to t fr out n res (evs, Raised e l m) \<longleftrightarrow> (\<exists>s x. res = Some (Jump t, s) \<and> fr t = Some x \<and>
    e_frames s = fr(t \<mapsto> x\<lparr>f_exception := Some e, f_loc := Some l, f_message := m\<rparr>) \<and> e_stack s = f_prev x \<and>
    e_out s = out @ evs \<and> n \<le> e_fresh s)"
  by (simp add: comes_to_def)

lemma comes_out: "comes_to t fr (out @ o1) n res (evs, r) \<Longrightarrow> comes_to t fr out n res (o1 @ evs, r)"
  by (cases r) (auto simp: comes_to_def)

lemma comes_less: "comes_to t fr out n res q \<Longrightarrow> m \<le> n \<Longrightarrow> comes_to t fr out m res q"
  unfolding comes_to_def by (auto split: ended.splits prod.splits intro: le_trans; meson le_trans)

lemma throw_comes:
  assumes "exc_ok b s"
  shows "comes_to (e_stack s) (e_frames s) (e_out s) (e_fresh s) (ntyExceptionThrow e l c s) (raised b e l c)"
proof (cases b)
  case True
  then obtain x where x: "e_frames s (e_stack s) = Some x" "f_message x = []" "e_stack s \<noteq> 0" using assms by (auto simp: exc_ok_def)
  then show ?thesis using True by (cases c) (auto simp: raised_def comes_raised ntyExceptionThrow_def ntyExceptionPopStack_def Let_def)
next
  case False
  then have "e_stack s = 0" using assms by (simp add: exc_ok_def)
  then show ?thesis using False by (simp add: raised_def comes_fine ntyExceptionThrow_def)
qed

lemma exc_ok_next: "exc_ok b s \<Longrightarrow> e_frames s' = e_frames s \<Longrightarrow> e_stack s' = e_stack s \<Longrightarrow> e_fresh s \<le> e_fresh s' \<Longrightarrow> exc_ok b s'"
  by (auto simp: exc_ok_def)

text \<open>A frame \<open>f\<close> whose block is being left: it is off the stack, and the frames that remain are the others.\<close>

definition leaving :: "nat \<Rightarrow> bool \<Rightarrow> exc_state \<Rightarrow> bool" where
  "leaving f b s \<longleftrightarrow> exc_ok b s \<and> f \<noteq> e_stack s \<and> f < e_fresh s"

definition comes_leaving :: "nat \<Rightarrow> exc_state \<Rightarrow> (outcome \<times> exc_state) option \<Rightarrow> event list \<times> ended \<Rightarrow> bool" where
  "comes_leaving f s res q \<longleftrightarrow> comes_to (e_stack s) ((e_frames s)(f := None)) (e_out s) (e_fresh s) res q"

lemma comes_leave:
  assumes "f \<noteq> e_stack s" "comes_to (e_stack s) (e_frames s) (e_out s) (e_fresh s) res q"
  shows "comes_leaving f s (map_option (\<lambda>(r, s1). (r, leave_frame f s1)) res) q"
proof (cases q)
  case (Pair evs r)
  then show ?thesis using assms by (cases r) (auto simp: comes_leaving_def comes_fine comes_raised leave_frame_def fun_upd_twist)
qed

lemma end_try_fine: "f \<noteq> e_stack s \<Longrightarrow> flag \<noteq> ExceptionThrown \<Longrightarrow> comes_leaving f s (end_try f flag s) ([], Fine)"
  by (auto simp: end_try_def comes_leaving_def comes_fine leave_frame_def)

lemma end_try_raised:
  assumes "leaving f b s" "e_frames s f = Some x" "f_exception x = Some e" "f_loc x = Some l"
  shows "comes_leaving f s (end_try f ExceptionThrown s) (raised b e l None)"
proof -
  have "end_try f ExceptionThrown s = map_option (\<lambda>(r, s1). (r, leave_frame f s1)) (ntyExceptionThrow e l None s)"
    using assms by (cases "ntyExceptionThrow e l None s") (auto simp: end_try_def)
  then show ?thesis using comes_leave [OF _ throw_comes] assms by (simp add: leaving_def)
qed

text \<open>A statement before the block is left, and what follows it if it raises nothing.\<close>

lemma comes_then:
  assumes f: "leaving f b s" and x: "comes_to (e_stack s) (e_frames s) (e_out s) (e_fresh s) res q"
    and k: "\<And>s1. leaving f b s1 \<Longrightarrow> e_frames s1 = e_frames s \<Longrightarrow> e_stack s1 = e_stack s \<Longrightarrow> comes_leaving f s1 (k s1) q2"
  shows "comes_leaving f s (do { (r, s1) \<leftarrow> res; (if r = Normal then k s1 else Some (r, leave_frame f s1)) }) (and_then q q2)"
proof -
  obtain evs r where q: "q = (evs, r)" by fastforce
  obtain evs2 r2 where q2: "q2 = (evs2, r2)" by fastforce
  show ?thesis
  proof (cases r)
    case Fine
    then obtain s1 where s1: "res = Some (Normal, s1)" "e_frames s1 = e_frames s" "e_stack s1 = e_stack s" "e_out s1 = e_out s @ evs"
      "e_fresh s \<le> e_fresh s1" using x q by (auto simp: comes_fine)
    have "leaving f b s1" using f exc_ok_next [OF _ s1(2,3,5)] s1(3,5) by (auto simp: leaving_def)
    from k [OF this s1(2,3)] have "comes_leaving f s (k s1) (evs @ evs2, r2)"
      using s1 q2 unfolding comes_leaving_def by (auto intro!: comes_out elim: comes_less)
    then show ?thesis using s1(1) Fine q q2 by simp
  next
    case (Raised e l m)
    then show ?thesis using comes_leave [OF _ x, of f] f x q by (auto simp: leaving_def comes_raised)
  qed
qed

section \<open>The macros implement structured exceptions\<close>

lemma final_none: "\<not> has_final cl \<Longrightarrow> final b cl = ([], Fine)"
  by (induction cl rule: has_final.induct) auto

lemma finally_then: "snd q = Fine \<or> q2 = ([], Fine) \<Longrightarrow> finally_do q q2 = and_then q q2"
  by (cases q; cases q2; cases "snd q") auto

lemma enter_ok: "exc_ok b s \<Longrightarrow> exc_ok True (enter_frame s)"
  by (simp add: exc_ok_def enter_frame_def)

lemma enter_sel: "e_stack (enter_frame s) = e_fresh s" "e_out (enter_frame s) = e_out s" "e_fresh (enter_frame s) = e_fresh s + 1"
  by (simp_all add: enter_frame_def)

text \<open>The block of a \<open>Try\<close> after its body: \<open>s\<close> is the state before, \<open>f\<close> its frame with the contents \<open>x\<close>.\<close>

lemma left_body:
  assumes "exc_ok b s" "e_frames s1 = (e_frames s)(e_fresh s \<mapsto> x)" "e_stack s1 = e_stack s" "e_fresh s < e_fresh s1"
  shows "leaving (e_fresh s) b s1" and "(e_frames s1)(e_fresh s := None) = e_frames s"
  using assms by (auto simp: leaving_def exc_ok_def fun_eq_iff)

lemma try_fine:
  assumes s: "exc_ok b s" and x: "comes_to (e_fresh s) (e_frames (enter_frame s)) (e_out s) (e_fresh s + 1) (exec a (enter_frame s)) (evs, Fine)"
    and cl: "\<And>s1. leaving (e_fresh s) b s1 \<Longrightarrow> comes_leaving (e_fresh s) s1 (final_clause (e_fresh s) ExceptionEntered cl s1) (evs2, r)"
  shows "comes_to (e_stack s) (e_frames s) (e_out s) (e_fresh s) (exec (Try a cl) s) (evs @ evs2, r)"
proof -
  obtain s1 where s1: "exec a (enter_frame s) = Some (Normal, s1)" "e_frames s1 = e_frames (enter_frame s)" "e_stack s1 = e_fresh s"
    "e_out s1 = e_out s @ evs" "e_fresh s + 1 \<le> e_fresh s1" using x unfolding comes_fine by blast
  let ?s2 = "s1\<lparr>e_stack := e_stack s\<rparr>"
  have pop: "pop_if_entered ExceptionEntered s1 = Some ?s2"
    using s1(2,3) by (simp add: pop_if_entered_def ntyExceptionPopStack_def enter_frame_def)
  have l: "leaving (e_fresh s) b ?s2" "(e_frames ?s2)(e_fresh s := None) = e_frames s"
    using left_body [OF s, of ?s2] s1(2,5) by (simp_all add: enter_frame_def)
  from cl [OF l(1)] have "comes_to (e_stack s) (e_frames s) (e_out s) (e_fresh s) (final_clause (e_fresh s) ExceptionEntered cl ?s2) (evs @ evs2, r)"
    using l(2) s1(4,5) unfolding comes_leaving_def by (auto intro!: comes_out elim: comes_less)
  then show ?thesis using s1(1) pop by (simp add: Let_def)
qed

lemma try_raised:
  assumes s: "exc_ok b s" and x: "comes_to (e_fresh s) (e_frames (enter_frame s)) (e_out s) (e_fresh s + 1) (exec a (enter_frame s)) (evs, Raised e l m)"
    and cl: "\<And>s1 x. leaving (e_fresh s) b s1 \<Longrightarrow> e_frames s1 (e_fresh s) = Some x \<Longrightarrow> f_exception x = Some e \<Longrightarrow> f_loc x = Some l \<Longrightarrow>
      comes_leaving (e_fresh s) s1 (catch_clauses (e_fresh s) cl s1) (evs2, r)"
  shows "comes_to (e_stack s) (e_frames s) (e_out s) (e_fresh s) (exec (Try a cl) s) (evs @ evs2, r)"
proof -
  obtain s1 y where s1: "exec a (enter_frame s) = Some (Jump (e_fresh s), s1)" "e_frames (enter_frame s) (e_fresh s) = Some y"
    "e_frames s1 = (e_frames (enter_frame s))(e_fresh s \<mapsto> y\<lparr>f_exception := Some e, f_loc := Some l, f_message := m\<rparr>)"
    "e_stack s1 = f_prev y" "e_out s1 = e_out s @ evs" "e_fresh s + 1 \<le> e_fresh s1" using x unfolding comes_raised by blast
  have l: "leaving (e_fresh s) b s1" "(e_frames s1)(e_fresh s := None) = e_frames s"
    using left_body [OF s, of s1] s1(2,3,4,6) by (auto simp: enter_frame_def)
  from cl [OF l(1)] have "comes_leaving (e_fresh s) s1 (catch_clauses (e_fresh s) cl s1) (evs2, r)" using s1(3) by simp
  then have "comes_to (e_stack s) (e_frames s) (e_out s) (e_fresh s) (catch_clauses (e_fresh s) cl s1) (evs @ evs2, r)"
    using l(2) s1(2,4,5,6) unfolding comes_leaving_def by (auto simp: enter_frame_def intro!: comes_out elim!: comes_less)
  then show ?thesis using s1(1) by (simp add: Let_def)
qed

text \<open>The cases of the induction: a sequence, a handler that is chosen, a final clause.\<close>

lemma then_case:
  assumes s: "exc_ok b s" and a1: "comes_to (e_stack s) (e_frames s) (e_out s) (e_fresh s) (exec a1 s) (meaning b a1)"
    and a2: "\<And>s1. exc_ok b s1 \<Longrightarrow> comes_to (e_stack s1) (e_frames s1) (e_out s1) (e_fresh s1) (exec a2 s1) (meaning b a2)"
  shows "comes_to (e_stack s) (e_frames s) (e_out s) (e_fresh s) (exec (Then a1 a2) s) (meaning b (Then a1 a2))"
proof -
  obtain evs r where q: "meaning b a1 = (evs, r)" by fastforce
  obtain evs2 r2 where q2: "meaning b a2 = (evs2, r2)" by fastforce
  show ?thesis
  proof (cases r)
    case Fine
    then obtain s1 where s1: "exec a1 s = Some (Normal, s1)" "e_frames s1 = e_frames s" "e_stack s1 = e_stack s" "e_out s1 = e_out s @ evs"
      "e_fresh s \<le> e_fresh s1" using a1 q by (auto simp: comes_fine)
    have "comes_to (e_stack s) (e_frames s) (e_out s @ evs) (e_fresh s1) (exec a2 s1) (evs2, r2)"
      using a2 [OF exc_ok_next [OF s s1(2,3,5)]] s1(2-4) q2 by simp
    then show ?thesis using s1(1,5) Fine q q2 by (auto intro!: comes_out elim: comes_less)
  next
    case (Raised e l m)
    then show ?thesis using a1 q by (auto simp: comes_raised)
  qed
qed

lemma catch_case:
  assumes f: "leaving f b s" and x: "e_frames s f = Some x" "f_exception x = Some e" "ex_addr e = ex_addr e'"
    and h: "comes_to (e_stack s) (e_frames s) (e_out s) (e_fresh s) (exec h s) (meaning b h)"
    and fin: "\<And>s1. leaving f b s1 \<Longrightarrow> comes_leaving f s1 (final_clause f ExceptionHandled cl s1) (final b cl)"
    and t: "has_final cl \<longrightarrow> snd (meaning b h) = Fine"
  shows "comes_leaving f s (catch_clauses f (Catch e' h cl) s) (caught b (Raised e l m) (Catch e' h cl))"
proof -
  have "finally_do (meaning b h) (final b cl) = and_then (meaning b h) (final b cl)"
    using t final_none [of cl b] by (intro finally_then) auto
  moreover have "comes_leaving f s (do { (r, s1) \<leftarrow> exec h s; (if r = Normal then final_clause f ExceptionHandled cl s1 else Some (r, leave_frame f s1)) })
      (and_then (meaning b h) (final b cl))"
    by (rule comes_then [OF f h fin])
  ultimately show ?thesis using x by (simp add: pop_if_entered_def cong: if_cong)
qed

lemma final_case:
  assumes f: "leaving f b s" and a: "comes_to (e_stack s) (e_frames s) (e_out s) (e_fresh s) (exec a s) (meaning b a)"
  shows "flag \<noteq> ExceptionThrown \<Longrightarrow> comes_leaving f s (final_clause f flag (Finally a) s) (meaning b a)"
    and "e_frames s f = Some x \<Longrightarrow> f_exception x = Some e \<Longrightarrow> f_loc x = Some l \<Longrightarrow>
      comes_leaving f s (catch_clauses f (Finally a) s) (caught b (Raised e l m) (Finally a))"
proof -
  have run: "final_clause f g (Finally a) s = do { (r, s1) \<leftarrow> exec a s; (if r = Normal
      then end_try f (if g = ExceptionEntered then ExceptionFinalized else g) s1 else Some (r, leave_frame f s1)) }" for g
    by (simp add: pop_if_entered_def cong: if_cong)
  have skip: "and_then q ([], Fine) = q" for q by (cases q; cases "snd q") auto
  have "comes_leaving f s (final_clause f flag (Finally a) s) (and_then (meaning b a) ([], Fine))" if "flag \<noteq> ExceptionThrown"
    unfolding run by (rule comes_then [OF f a]) (use that in \<open>auto intro!: end_try_fine simp: leaving_def\<close>)
  then show "flag \<noteq> ExceptionThrown \<Longrightarrow> comes_leaving f s (final_clause f flag (Finally a) s) (meaning b a)" unfolding skip .
  have "comes_leaving f s (final_clause f ExceptionThrown (Finally a) s) (and_then (meaning b a) (raised b e l None))"
    if "e_frames s f = Some x" "f_exception x = Some e" "f_loc x = Some l"
    unfolding run by (rule comes_then [OF f a]) (use that in \<open>auto intro!: end_try_raised\<close>)
  then show "e_frames s f = Some x \<Longrightarrow> f_exception x = Some e \<Longrightarrow> f_loc x = Some l \<Longrightarrow>
      comes_leaving f s (catch_clauses f (Finally a) s) (caught b (Raised e l m) (Finally a))" by simp
qed

lemma exec_comes:
  shows "tidy b a \<Longrightarrow> exc_ok b s \<Longrightarrow> comes_to (e_stack s) (e_frames s) (e_out s) (e_fresh s) (exec a s) (meaning b a)"
    and "tidy_clauses b cl \<Longrightarrow> leaving f b s \<Longrightarrow>
      (flag \<noteq> ExceptionThrown \<longrightarrow> comes_leaving f s (final_clause f flag cl s) (final b cl)) \<and>
      (e_frames s f = Some x \<longrightarrow> f_exception x = Some e \<longrightarrow> f_loc x = Some l \<longrightarrow>
        comes_leaving f s (catch_clauses f cl s) (caught b (Raised e l m) cl))"
proof (induction a and cl arbitrary: b s and b f s flag x e l m)
  case (Then a1 a2)
  then show ?case by (intro then_case) simp_all
next
  case (Call a)
  then have "comes_to (e_stack s) (e_frames s) (e_out s) (e_fresh s) (exec a s) (meaning b a)" by simp
  then show ?case by (cases "snd (meaning b a)"; cases "meaning b a") (auto simp: comes_fine comes_raised)
next
  case (Try a cl)
  obtain evs r where q: "meaning True a = (evs, r)" by fastforce
  obtain evs2 r2 where q2: "caught b r cl = (evs2, r2)" by fastforce
  have a: "comes_to (e_fresh s) (e_frames (enter_frame s)) (e_out s) (e_fresh s + 1) (exec a (enter_frame s)) (evs, r)"
    using Try.IH(1) [of True "enter_frame s"] Try.prems enter_ok q by (simp add: enter_sel)
  have cl: "tidy_clauses b cl" using Try.prems by simp
  have "comes_to (e_stack s) (e_frames s) (e_out s) (e_fresh s) (exec (Try a cl) s) (evs @ evs2, r2)"
  proof (cases r)
    case Fine
    show ?thesis by (rule try_fine [OF Try.prems(2) a [unfolded Fine]]) (use Try.IH(2) [OF cl] q2 Fine in auto)
  next
    case (Raised e l m)
    show ?thesis
    proof (rule try_raised [OF Try.prems(2) a [unfolded Raised]])
      fix s1 x assume "leaving (e_fresh s) b s1" "e_frames s1 (e_fresh s) = Some x" "f_exception x = Some e" "f_loc x = Some l"
      then show "comes_leaving (e_fresh s) s1 (catch_clauses (e_fresh s) cl s1) (evs2, r2)"
        using Try.IH(2) [OF cl, of "e_fresh s" s1 ExceptionEntered x e l m] q2 Raised by simp
    qed
  qed
  then show ?case using q q2 by simp
next
  case (Catch e' h cl)
  have h: "comes_to (e_stack s) (e_frames s) (e_out s) (e_fresh s) (exec h s) (meaning b h)"
    using Catch.IH(1) Catch.prems by (simp add: leaving_def)
  have fin: "comes_leaving f s1 (final_clause f ExceptionHandled cl s1) (final b cl)" if "leaving f b s1" for s1
    using Catch.IH(2) [of b f s1 ExceptionHandled] Catch.prems(1) that by simp
  show ?case using Catch.IH(2) [of b f s flag x e l m] Catch.prems catch_case [OF Catch.prems(2) _ _ _ h fin, of x e e' l m]
    by (cases "ex_addr e = ex_addr e'") auto
next
  case (Finally a)
  have a: "comes_to (e_stack s) (e_frames s) (e_out s) (e_fresh s) (exec a s) (meaning b a)"
    using Finally.IH Finally.prems by (simp add: leaving_def)
  show ?case using final_case [OF Finally.prems(2) a] unfolding final.simps by blast
next
  case EndTry
  then show ?case using end_try_raised end_try_fine by (simp add: leaving_def)
qed (simp_all add: comes_fine throw_comes)

lemma meaning_top:
  shows "snd (meaning False a) = Fine" and "snd (caught False r cl) = Fine \<and> snd (final False cl) = Fine"
proof (induction a and cl arbitrary: and r)
  case (Then x y)
  then show ?case by (cases "meaning False x"; cases "meaning False y") auto
next
  case (Try x cl)
  then show ?case by (auto split: prod.splits) (metis snd_conv)
next
  case (Catch e h cl)
  then show ?case by (cases r; cases "meaning False h"; cases "final False cl") auto
next
  case (Finally x)
  then show ?case by (cases r; cases "meaning False x") (auto simp: raised_def)
next
  case EndTry
  then show ?case by (cases r) (auto simp: raised_def)
qed (auto simp: raised_def)

lemma exc_start_ok: "exc_ok False exc_start"
  by (simp add: exc_ok_def exc_start_def)

lemma exec_fine:
  assumes "tidy b a" "exc_ok b s" "meaning b a = (evs, Fine)"
  shows "\<exists>s'. exec a s = Some (Normal, s') \<and> e_frames s' = e_frames s \<and> e_stack s' = e_stack s \<and> e_out s' = e_out s @ evs \<and> exc_ok b s'"
  using exec_comes(1) [OF assms(1,2)] exc_ok_next [OF assms(2)] by (auto simp: assms(3) comes_fine)

lemma exec_start:
  assumes "tidy False a"
  shows "\<exists>s. exec a exc_start = Some (Normal, s) \<and> e_frames s = (\<lambda>_. None) \<and> e_stack s = 0 \<and> e_out s = fst (meaning False a)"
proof -
  have "meaning False a = (fst (meaning False a), Fine)" using meaning_top(1) [of a] by (cases "meaning False a") simp
  from exec_fine [OF assms exc_start_ok this] obtain s where "exec a exc_start = Some (Normal, s)"
    "e_frames s = (\<lambda>_. None) \<and> e_stack s = 0 \<and> e_out s = fst (meaning False a)" by (auto simp: exc_start_def)
  then show ?thesis by blast
qed

lemma message_short: "length c \<le> 511 \<Longrightarrow> message_text c = c"
  by (simp add: message_text_def)

lemma main_tidy: "tidy False exc_main"
  by code_simp

lemma thread_tidy: "tidy False (thread selfid)"
  by (simp add: thread_def)

lemma main_text: "fst (meaning False exc_main) =
    [Uncaught ex_D None (at_line ''main'' 246), Uncaught ex_C (Some ''null C'') (at_line ''main'' 248),
     Printed ''\<newline>\<newline>=> Test1: Try-Catch\<newline>'', Printed ''recall B \<newline>'', Printed (CHR 0x09 # ''Result: Ok\<newline>''),
     Printed ''=> Test1: Ok\<newline>\<newline>'', Printed ''=> Test2: Test Thread-safeness\<newline>'', Printed ''=> Test2: Ok\<newline>\<newline>'']"
  by code_simp

lemma thread_text: "fst (meaning False (thread selfid)) =
    map (\<lambda>t. Printed (t @ selfid @ ''\<newline>'')) [''catch A : '', ''catch B : '', ''catch C : '', ''catch D : '', ''catch A again : '']"
  by (simp add: thread_def raised_def ex_A_def ex_B_def ex_C_def ex_D_def)

section \<open>The properties\<close>

text \<open>C36: The exception macros implement structured exceptions for the statements for which they are made: those without
  a return in them, in which no handler of a block with a final clause lets an exception out (\<open>tidy\<close>; what happens with
  the others is below).  From any state of a thread, whether or not a \<open>Try\<close> is waiting, such a statement prints
  what the semantics says and ends normally with the frames as they were, or jumps to the innermost waiting frame with
  the exception, its place and its message stored there and the frame off the stack; and when no frame is waiting it
  always ends normally.\<close>

theorem try_means:
  assumes "tidy b a" "exc_ok b s"
  shows "case meaning b a of
       (evs, Fine) \<Rightarrow> \<exists>s'. exec a s = Some (Normal, s') \<and> e_frames s' = e_frames s \<and> e_stack s' = e_stack s \<and> e_out s' = e_out s @ evs
     | (evs, Raised e l m) \<Rightarrow> b \<and> (\<exists>s' x. exec a s = Some (Jump (e_stack s), s') \<and> e_frames s (e_stack s) = Some x \<and>
         e_frames s' = (e_frames s)(e_stack s \<mapsto> x\<lparr>f_exception := Some e, f_loc := Some l, f_message := m\<rparr>) \<and>
         e_stack s' = f_prev x \<and> e_out s' = e_out s @ evs)"
proof (cases "meaning b a")
  case (Pair evs r)
  then show ?thesis
  proof (cases r)
    case (Raised e l m)
    have "b" using meaning_top(1) [of a] Pair Raised by (cases b) auto
    then show ?thesis using exec_comes(1) [OF assms] Pair Raised by (auto simp: comes_raised)
  qed (use exec_fine [OF assms] in auto)
qed

definition nested_demo :: stmt where
  "nested_demo = Try (Then (Try (Throw ex_B (Some ''b'') (at_line ''demo'' 1)) (Catch ex_A Nop (Finally (Print ''inner'')))) (Print ''never''))
     (Catch ex_B (Print ''outer'') (Finally (Print ''last'')))"

theorem try_means_witness:
  "\<exists>s. exec nested_demo exc_start = Some (Normal, s) \<and> e_out s = [Printed ''inner'', Printed ''outer'', Printed ''last''] \<and> e_stack s = 0"
proof -
  have t: "tidy False nested_demo" by code_simp
  have m: "meaning False nested_demo = ([Printed ''inner'', Printed ''outer'', Printed ''last''], Fine)" by code_simp
  from try_means [OF t exc_start_ok] show ?thesis unfolding m by (auto simp: exc_start_def)
qed

text \<open>The programs of the file: \<open>main\<close> reports the two exceptions that nothing catches and goes on, catches the
  inner and then the outer exception, and leaves no frame; the function of the test threads catches each of its
  exceptions in the handler of its own and, of the four that the last block would throw, the first only.\<close>

theorem try_programs_print:
  "(\<exists>s. exec exc_main exc_start = Some (Normal, s) \<and> e_frames s = (\<lambda>_. None) \<and> e_stack s = 0 \<and> e_out s =
      [Uncaught ex_D None (at_line ''main'' 246), Uncaught ex_C (Some ''null C'') (at_line ''main'' 248),
       Printed ''\<newline>\<newline>=> Test1: Try-Catch\<newline>'', Printed ''recall B \<newline>'', Printed (CHR 0x09 # ''Result: Ok\<newline>''),
       Printed ''=> Test1: Ok\<newline>\<newline>'', Printed ''=> Test2: Test Thread-safeness\<newline>'', Printed ''=> Test2: Ok\<newline>\<newline>'']) \<and>
   (\<exists>s. exec (thread selfid) exc_start = Some (Normal, s) \<and> e_frames s = (\<lambda>_. None) \<and> e_stack s = 0 \<and> e_out s =
      map (\<lambda>t. Printed (t @ selfid @ ''\<newline>'')) [''catch A : '', ''catch B : '', ''catch C : '', ''catch D : '', ''catch A again : ''])"
  using exec_start [OF main_tidy] exec_start [OF thread_tidy, of selfid] unfolding main_text thread_text by (intro conjI)

text \<open>C37: What the macros do with a handler that throws.  In a \<open>Try\<close> that another one surrounds, let the body raise an exception
  that a handler takes, and let the handler raise one itself: then the block is left for the surrounding one at once,
  with the exception of the handler and the output of body and handler only.  Whatever clauses follow, none of them
  is executed, a final clause neither, although the semantics has its output there.\<close>

theorem try_handler_throws:
  assumes "exc_ok True s" "tidy True a" "meaning True a = (evs, Raised e l m)" "ex_addr e = ex_addr e'"
    and "tidy True h" "meaning True h = (evs2, Raised e2 l2 m2)"
  shows "(\<exists>s' x. exec (Try a (Catch e' h cl)) s = Some (Jump (e_stack s), s') \<and> e_frames s (e_stack s) = Some x \<and>
      e_frames s' = (e_frames s)(e_stack s \<mapsto> x\<lparr>f_exception := Some e2, f_loc := Some l2, f_message := m2\<rparr>) \<and>
      e_stack s' = f_prev x \<and> e_out s' = e_out s @ evs @ evs2) \<and>
    fst (meaning True (Try a (Catch e' h (Finally f)))) = evs @ evs2 @ fst (meaning True f)"
proof
  have body: "comes_to (e_fresh s) (e_frames (enter_frame s)) (e_out s) (e_fresh s + 1) (exec a (enter_frame s)) (evs, Raised e l m)"
    using exec_comes(1) [OF assms(2) enter_ok [OF assms(1)]] assms(3) by (simp add: enter_sel)
  have "comes_to (e_stack s) (e_frames s) (e_out s) (e_fresh s) (exec (Try a (Catch e' h cl)) s) (evs @ evs2, Raised e2 l2 m2)"
  proof (rule try_raised [OF assms(1) body])
    fix s1 x assume s1: "leaving (e_fresh s) True s1" "e_frames s1 (e_fresh s) = Some x" "f_exception x = Some e" "f_loc x = Some l"
    have h: "comes_to (e_stack s1) (e_frames s1) (e_out s1) (e_fresh s1) (exec h s1) (evs2, Raised e2 l2 m2)"
      using exec_comes(1) [OF assms(5), of s1] s1(1) assms(6) by (simp add: leaving_def)
    then obtain s2 where "exec h s1 = Some (Jump (e_stack s1), s2)" by (auto simp: comes_raised)
    then have "catch_clauses (e_fresh s) (Catch e' h cl) s1 = map_option (\<lambda>(r, s2). (r, leave_frame (e_fresh s) s2)) (exec h s1)"
      using s1(2,3) assms(4) by simp
    then show "comes_leaving (e_fresh s) s1 (catch_clauses (e_fresh s) (Catch e' h cl) s1) (evs2, Raised e2 l2 m2)"
      using comes_leave [OF _ h, of "e_fresh s"] s1(1) by (simp add: leaving_def)
  qed
  then show "\<exists>s' x. exec (Try a (Catch e' h cl)) s = Some (Jump (e_stack s), s') \<and> e_frames s (e_stack s) = Some x \<and>
      e_frames s' = (e_frames s)(e_stack s \<mapsto> x\<lparr>f_exception := Some e2, f_loc := Some l2, f_message := m2\<rparr>) \<and>
      e_stack s' = f_prev x \<and> e_out s' = e_out s @ evs @ evs2" by (auto simp: comes_raised)
  show "fst (meaning True (Try a (Catch e' h (Finally f)))) = evs @ evs2 @ fst (meaning True f)"
    using assms(3,4,6) by (cases "meaning True f") simp
qed

definition in_try :: exc_state where
  "in_try = enter_frame exc_start"

theorem try_handler_throws_witness:
  "\<exists>s. exec (Try (Throw ex_A (Some ''A'') (at_line ''f'' 1)) (Catch ex_A (Throw ex_B (Some ''B'') (at_line ''f'' 2)) (Finally (Print ''last'')))) in_try =
      Some (Jump 1, s) \<and> e_out s = []"
proof -
  have s: "exc_ok True in_try" using enter_ok [OF exc_start_ok] by (simp add: in_try_def)
  have "meaning True (Throw ex_A (Some ''A'') (at_line ''f'' 1)) = ([], Raised ex_A (at_line ''f'' 1) ''A'')"
    "meaning True (Throw ex_B (Some ''B'') (at_line ''f'' 2)) = ([], Raised ex_B (at_line ''f'' 2) ''B'')" by code_simp+
  from try_handler_throws [OF s _ this(1) refl _ this(2)]
  obtain s' where "exec (Try (Throw ex_A (Some ''A'') (at_line ''f'' 1)) (Catch ex_A (Throw ex_B (Some ''B'') (at_line ''f'' 2)) (Finally (Print ''last'')))) in_try =
      Some (Jump (e_stack in_try), s')" "e_out s' = e_out in_try @ [] @ []" by (auto simp del: exec.simps)
  then show ?thesis by (auto simp: in_try_def enter_frame_def exc_start_def)
qed

text \<open>C38: A return out of a \<open>Try\<close>, after any statement that raises nothing, leaves the frame of the block on the stack of
  the thread: the function returns normally, and the stack points to a frame that is gone, whatever clauses the
  block has.  The next exception of the thread is then stored through that pointer, and no surrounding \<open>Try\<close> with
  any handlers gets it.\<close>

theorem try_return_dangles:
  assumes "exc_ok b s" "tidy True a" "meaning True a = (evs, Fine)"
  shows "(\<exists>s'. exec (Call (Try (Then a Return) cl)) s = Some (Normal, s') \<and> e_out s' = e_out s @ evs \<and>
      e_stack s' \<noteq> 0 \<and> e_stack s' \<noteq> e_stack s \<and> e_frames s' (e_stack s') = None) \<and>
    exec (Then (Call (Try (Then a Return) cl)) (Throw e c l)) s = None \<and>
    exec (Try (Then (Call (Try (Then a Return) cl)) (Throw e c l)) cl2) s = None"
proof -
  have run: "\<exists>s'. exec (Call (Try (Then a Return) cl)) s = Some (Normal, s') \<and> e_out s' = e_out s @ evs \<and>
      e_stack s' \<noteq> 0 \<and> e_stack s' \<noteq> e_stack s \<and> e_frames s' (e_stack s') = None" if s: "exc_ok b s" for b s
  proof -
    have "comes_to (e_fresh s) (e_frames (enter_frame s)) (e_out s) (e_fresh s + 1) (exec a (enter_frame s)) (evs, Fine)"
      using exec_comes(1) [OF assms(2) enter_ok [OF s]] assms(3) by (simp add: enter_sel)
    then obtain s1 where s1: "exec a (enter_frame s) = Some (Normal, s1)" "e_stack s1 = e_fresh s" "e_out s1 = e_out s @ evs"
      unfolding comes_fine by blast
    then have "exec (Call (Try (Then a Return) cl)) s = Some (Normal, leave_frame (e_fresh s) s1)" by (simp add: Let_def)
    then show ?thesis using s s1(2,3) by (simp add: leave_frame_def exc_ok_def)
  qed
  have throw: "exec (Then (Call (Try (Then a Return) cl)) (Throw e c l)) s = None" if s: "exc_ok b s" for b s
    using run [OF s] by (subst exec.simps(5)) (auto simp: ntyExceptionThrow_def simp del: exec.simps(6,7))
  have "exec (Then (Call (Try (Then a Return) cl)) (Throw e c l)) (enter_frame s) = None" using throw [OF enter_ok [OF assms(1)]] .
  then have "exec (Try (Then (Call (Try (Then a Return) cl)) (Throw e c l)) cl2) s = None"
    by (subst exec.simps(7)) (simp only: Let_def bind.simps)
  then show ?thesis using run [OF assms(1)] throw [OF assms(1)] by blast
qed

theorem try_return_dangles_witness:
  "exec (Try (Then (Call (Try (Then (Print ''found'') Return) (Finally (Print ''last'')))) (Throw ex_A None (at_line ''f'' 3)))
     (Catch ex_A (Print ''A'') EndTry)) exc_start = None"
proof -
  have "tidy True (Print ''found'')" "meaning True (Print ''found'') = ([Printed ''found''], Fine)" by simp_all
  from try_return_dangles [OF exc_start_ok this] show ?thesis by blast
qed

end
