(* ===== verification/User_Stack.thy ===== *)
theory User_Stack
  imports Xdp_Sum
begin

text \<open>
  The user-level protocol stack of \<open>code/netmap/user_stack.c\<close>: it takes packets from a network card and answers
  ARP requests, echo requests and UDP packets.

  A packet is a list of bytes, as in \<open>Xdp\<close>, and a field of the packed structures its offset; \<open>None\<close> is an access
  outside a buffer.  A received packet stands at the front of a buffer of the card, which is usually longer than
  the packet.  The host is little-endian.
\<close>

unbundle bit_operations_syntax

section \<open>Printing and reading addresses\<close>

text \<open>The characters of a printed text are bytes, with the codes of ASCII.\<close>

definition nibble_char :: "u8 \<Rightarrow> u8" where
  "nibble_char d = (if d < 10 then d + 48 else d + 87)"

definition hex2 :: "u8 \<Rightarrow> bytes" where
  "hex2 b = [nibble_char (drop_bit 4 b), nibble_char (b AND 15)]"

fun print_mac :: "bytes \<Rightarrow> bytes" where
  "print_mac [] = []"
| "print_mac [b] = hex2 b"
| "print_mac (b # bs) = hex2 b @ 58 # print_mac bs"

definition dec_byte :: "u8 \<Rightarrow> bytes" where
  "dec_byte b = (if b < 10 then [b + 48] else if b < 100 then [b div 10 + 48, b mod 10 + 48]
     else [b div 100 + 48, b div 10 mod 10 + 48, b mod 10 + 48])"

fun print_ip :: "bytes \<Rightarrow> bytes" where
  "print_ip [] = []"
| "print_ip [b] = dec_byte b"
| "print_ip (b # bs) = dec_byte b @ 46 # print_ip bs"

definition print_arp :: "bytes \<Rightarrow> bytes option" where
  "print_arp arp = do {
     h_dest \<leftarrow> mget arp 0 6;
     h_source \<leftarrow> mget arp 6 6;
     h_proto \<leftarrow> mget arp 12 2;
     Some (print_mac h_dest @ 32 # print_mac h_source @ [32, 48, 120] @ hex2 (h_proto ! 0) @ hex2 (h_proto ! 1) @ [32, 32, 32])
   }"

text \<open>The value of a hexadecimal digit, \<open>None\<close> for any other character.\<close>

definition hex_value :: "u8 \<Rightarrow> u8 option" where
  "hex_value c = (if c \<le> 57 \<and> c \<ge> 48 then Some (c - 48)
     else if c \<le> 102 \<and> c \<ge> 97 then Some (c - 97 + 10)
     else if c \<le> 70 \<and> c \<ge> 65 then Some (c - 65 + 10) else None)"

text \<open>The loop of \<open>str2mac\<close> over the characters of the string; the bytes of the address go to the buffer at
  \<open>mac + i\<close>.  The condition of the loop compares the pointer, and holds always.\<close>

fun str2mac_loop :: "bytes \<Rightarrow> nat \<Rightarrow> nat \<Rightarrow> u8 \<Rightarrow> bytes \<Rightarrow> (bytes \<times> nat \<times> u8) option" where
  "str2mac_loop buf mac i v [] = None"
| "str2mac_loop buf mac i v (c # str) =
     (if c = 58 then do {
        buf1 \<leftarrow> mput buf (mac + i) [v];
        str2mac_loop buf1 mac (i + 1) 0 str
      }
      else case hex_value c of
        None \<Rightarrow> Some (buf, i, v)
      | Some temp \<Rightarrow> str2mac_loop buf mac i (push_bit 4 v OR temp) str)"

definition str2mac :: "bytes \<Rightarrow> nat \<Rightarrow> bytes \<Rightarrow> bytes option" where
  "str2mac buf mac str = do {
     (buf1, i, v) \<leftarrow> str2mac_loop buf mac 0 0 str;
     mput buf1 (mac + i) [v]
   }"

section \<open>The answers\<close>

definition sizeof_arppkt :: nat where "sizeof_arppkt = 42"
definition sizeof_udppkt :: nat where "sizeof_udppkt = 42"
definition sizeof_icmppkt :: nat where "sizeof_icmppkt = 74"
definition sizeof_icmphdr :: nat where "sizeof_icmphdr = 40"

lemmas sizeof_defs = sizeof_arppkt_def sizeof_udppkt_def sizeof_icmppkt_def sizeof_icmphdr_def

text \<open>Each gives the answer that the code assembles in a local variable.\<close>

definition echo_arp_pkt :: "bytes \<Rightarrow> bytes \<Rightarrow> bytes option" where
  "echo_arp_pkt arp hmac = do {
     p0 \<leftarrow> mget arp 0 sizeof_arppkt;
     h_source \<leftarrow> mget arp 6 6;
     p1 \<leftarrow> mput p0 0 h_source;
     p2 \<leftarrow> str2mac p1 6 hmac;
     h_proto \<leftarrow> mget arp 12 2;
     p3 \<leftarrow> mput p2 12 h_proto;
     p4 \<leftarrow> mput p3 18 [6];
     p5 \<leftarrow> mput p4 19 [4];
     p6 \<leftarrow> mput p5 20 [0, 2];
     p7 \<leftarrow> str2mac p6 22 hmac;
     dip \<leftarrow> mget arp 38 4;
     p8 \<leftarrow> mput p7 28 dip;
     smac \<leftarrow> mget arp 22 6;
     p9 \<leftarrow> mput p8 32 smac;
     sip \<leftarrow> mget arp 28 4;
     mput p9 38 sip
   }"

definition echo_udp_pkt :: "bytes \<Rightarrow> bytes option" where
  "echo_udp_pkt udp = do {
     p0 \<leftarrow> mget udp 0 sizeof_udppkt;
     h_source \<leftarrow> mget udp 6 6;
     p1 \<leftarrow> mput p0 0 h_source;
     h_dest \<leftarrow> mget udp 0 6;
     p2 \<leftarrow> mput p1 6 h_dest;
     daddr \<leftarrow> mget udp 30 4;
     p3 \<leftarrow> mput p2 26 daddr;
     saddr \<leftarrow> mget udp 26 4;
     p4 \<leftarrow> mput p3 30 saddr;
     dest \<leftarrow> mget udp 36 2;
     p5 \<leftarrow> mput p4 34 dest;
     source \<leftarrow> mget udp 34 2;
     mput p5 36 source
   }"

text \<open>The sum of 16-bit words in an \<open>int\<close>, whose overflow is undefined.\<close>

definition add_int :: "int \<Rightarrow> int \<Rightarrow> int option" where
  "add_int a b = (if a + b < 2 ^ 31 then Some (a + b) else None)"

fun cksum_loop :: "bytes \<Rightarrow> int \<Rightarrow> int option" where
  "cksum_loop (a # b # w) s = do { s1 \<leftarrow> add_int s (uint (ld16 [a, b])); cksum_loop w s1 }"
| "cksum_loop [a] s = add_int s (uint a)"
| "cksum_loop [] s = Some s"

definition in_cksum :: "bytes \<Rightarrow> u16 option" where
  "in_cksum addr = do {
     s \<leftarrow> cksum_loop addr 0;
     let s1 = drop_bit 16 s + (s AND 0xffff);
     let s2 = s1 + drop_bit 16 s1;
     Some (word_of_int (NOT s2))
   }"

definition echo_icmp_pkt :: "bytes \<Rightarrow> bytes option" where
  "echo_icmp_pkt icmp = do {
     p0 \<leftarrow> mget icmp 0 sizeof_icmppkt;
     p1 \<leftarrow> mput p0 34 [0];
     p2 \<leftarrow> mput p1 35 [0];
     p3 \<leftarrow> mput p2 36 [0, 0];
     daddr \<leftarrow> mget icmp 30 4;
     p4 \<leftarrow> mput p3 26 daddr;
     saddr \<leftarrow> mget icmp 26 4;
     p5 \<leftarrow> mput p4 30 saddr;
     h_source \<leftarrow> mget icmp 6 6;
     p6 \<leftarrow> mput p5 0 h_source;
     h_dest \<leftarrow> mget icmp 0 6;
     p7 \<leftarrow> mput p6 6 h_dest;
     hdr \<leftarrow> mget p7 34 sizeof_icmphdr;
     c \<leftarrow> in_cksum hdr;
     mput p7 36 (le16 c)
   }"

section \<open>The main loop\<close>

text \<open>What the program prints: for a UDP packet its source, the port as it is in memory, both lengths and the
  text up to the zero byte.\<close>

datatype us_output = Udp_Line bytes u16 nat u16 bytes | Icmp_Line u8 u16 | Other_Line

fun c_string :: "bytes \<Rightarrow> bytes option" where
  "c_string [] = None"
| "c_string (c # cs) = (if c = 0 then Some [] else map_option (Cons c) (c_string cs))"

definition local_addr :: bytes where "local_addr = [192, 168, 2, 217]"

text \<open>The text \<open>00:50:56:33:1c:ca\<close> with its zero byte.\<close>

definition local_mac :: bytes where "local_mac = [48, 48, 58, 53, 48, 58, 53, 54, 58, 51, 51, 58, 49, 99, 58, 99, 97, 0]"

text \<open>The two protocols that are answered: the buffer afterwards, what is sent and what is printed.\<close>

definition handle_udp :: "bytes \<Rightarrow> (bytes \<times> bytes list \<times> us_output list) option" where
  "handle_udp stream = do {
     saddr \<leftarrow> mget stream 26 4;
     len \<leftarrow> mget stream 38 2;
     source \<leftarrow> mget stream 34 2;
     tot_len \<leftarrow> mget stream 16 2;
     let udp_length = unat (ntohs len);
     stream1 \<leftarrow> mput stream (34 + udp_length) [0];
     body \<leftarrow> c_string (drop 42 stream1);
     udp_rt \<leftarrow> echo_udp_pkt stream1;
     Some (stream1, [udp_rt], [Udp_Line (print_ip saddr) (ld16 source) udp_length (ntohs tot_len) body])
   }"

definition handle_icmp :: "bytes \<Rightarrow> (bytes \<times> bytes list \<times> us_output list) option" where
  "handle_icmp stream = do {
     type \<leftarrow> mget stream 34 1;
     check \<leftarrow> mget stream 36 2;
     (if type = [8] then do {
        icmp_rt \<leftarrow> echo_icmp_pkt stream;
        Some (stream, [icmp_rt], [Icmp_Line (type ! 0) (ld16 check)])
      }
      else Some (stream, [], [Icmp_Line (type ! 0) (ld16 check)]))
   }"

definition handle_packet :: "bytes \<Rightarrow> (bytes \<times> bytes list \<times> us_output list) option" where
  "handle_packet stream = do {
     h_proto \<leftarrow> mget stream 12 2;
     (if h_proto = [8, 0] then do {
        protocol \<leftarrow> mget stream 23 1;
        (if protocol = [17] then handle_udp stream
         else if protocol = [1] then handle_icmp stream
         else if protocol = [2] then Some (stream, [], [])
         else Some (stream, [], [Other_Line]))
      }
      else if h_proto = [8, 6] then do {
        dip \<leftarrow> mget stream 38 4;
        (if dip = local_addr then do {
           arp_rt \<leftarrow> echo_arp_pkt stream local_mac;
           Some (stream, [arp_rt], [])
         }
         else Some (stream, [], []))
      }
      else Some (stream, [], []))
   }"

text \<open>The loop over the packets that arrive.\<close>

fun us_main :: "bytes list \<Rightarrow> (bytes list \<times> us_output list) option" where
  "us_main [] = Some ([], [])"
| "us_main (stream # ps) = do {
     (_, sent, out) \<leftarrow> handle_packet stream;
     (sent', out') \<leftarrow> us_main ps;
     Some (sent @ sent', out @ out')
   }"

end
