(* ===== verification/User_Stack_Props.thy ===== *)
theory User_Stack_Props
  imports User_Stack
begin

text \<open>
  The theorems on the user-level protocol stack: reading back a printed address, the answers byte by byte with
  a checksum that fits, and exactly which packets make the program write or read outside the buffer.
\<close>

unbundle bit_operations_syntax

section \<open>Writing to a packet\<close>

definition wr :: "bytes \<Rightarrow> nat \<Rightarrow> bytes \<Rightarrow> bytes" where
  "wr p off bs = take (length p) (take off p @ bs @ drop (off + length bs) p)"

lemma wr_in: "off + length bs \<le> length p \<Longrightarrow> wr p off bs = take off p @ bs @ drop (off + length bs) p"
  by (simp add: wr_def)

lemma mput_wr: "off + length bs \<le> length p \<Longrightarrow> mput p off bs = Some (wr p off bs)"
  by (simp add: mput_def wr_in)

lemma wr_length: "length (wr p off bs) = length p"
  by (simp add: wr_def)

lemma part_wr: "off + n \<le> length p \<Longrightarrow> n = length bs \<Longrightarrow> pkt_part (wr p off bs) off n = bs"
  by (simp add: wr_in pkt_part_def)

lemma part_other: "i + n \<le> off \<or> off + length bs \<le> i \<Longrightarrow> pkt_part (wr p off bs) i n = pkt_part p i n"
  by (rule pkt_part_same [of "{off..<off + length bs}"]) (auto simp: same_but_def wr_def nth_append)

lemma part_part: "i + n \<le> m \<Longrightarrow> pkt_part (pkt_part p off m) i n = pkt_part p (off + i) n"
  by (simp add: pkt_part_def take_drop min_def add.commute)

lemmas wr_simps = mget_some mput_wr wr_length part_wr part_other part_part

text \<open>A packet is made up of its parts.\<close>

fun parts_at :: "bytes \<Rightarrow> nat \<Rightarrow> nat list \<Rightarrow> bytes" where
  "parts_at p off [] = []"
| "parts_at p off (n # ns) = pkt_part p off n @ parts_at p (off + n) ns"

lemma parts_at_all: "off \<le> length p \<Longrightarrow> off + sum_list ns = length p \<Longrightarrow> parts_at p off ns = drop off p"
proof (induction ns arbitrary: off)
  case (Cons n ns)
  then have "parts_at p off (n # ns) = take n (drop off p) @ drop n (drop off p)" by (simp add: pkt_part_def add.commute)
  then show ?case by (simp only: append_take_drop_id)
qed simp

lemma parts_all: "sum_list ns = length p \<Longrightarrow> p = parts_at p 0 ns"
  using parts_at_all [of 0 p ns] by simp

section \<open>Addresses as text\<close>

lemma u8_small:
  assumes "(d :: u8) < 16"
  shows "d \<in> set [0, 1, 2, 3, 4, 5, 6, 7, 8, 9, 10, 11, 12, 13, 14, 15]"
proof -
  have "unat d < 16" using assms by (simp add: word_less_nat_alt)
  then have "unat d \<in> set [0..<16]" by simp
  then have "(of_nat (unat d) :: u8) \<in> of_nat ` set [0..<16]" by (rule imageI)
  then show ?thesis by (simp add: upt_conv_Cons of_nat_unat)
qed

lemma hex_value_digit: "d < 16 \<Longrightarrow> hex_value (nibble_char d) = Some d \<and> nibble_char d \<noteq> 58"
proof -
  have "list_all (\<lambda>d. hex_value (nibble_char d) = Some d \<and> nibble_char d \<noteq> 58) [0, 1, 2, 3, 4, 5, 6, 7, 8, 9, 10, 11, 12, 13, 14, 15]" by code_simp
  moreover assume "d < 16"
  ultimately show ?thesis using u8_small [of d] unfolding list_all_iff by blast
qed

lemma nibbles: "drop_bit 4 (b :: u8) < 16" "b AND 15 < 16" "push_bit 4 (drop_bit 4 b) OR (b AND 15) = b"
proof -
  have "unat b < 256" using unsigned_less [of b] by simp
  then have "unat b div 16 < 16" by simp
  then show "drop_bit 4 b < 16" by (simp add: word_less_nat_alt unat_div_distrib drop_bit_eq_div)
  have m: "b AND 15 = take_bit 4 b" by (simp add: take_bit_eq_mask mask_eq_exp_minus_1)
  show "b AND 15 < 16" unfolding m by (simp add: word_less_nat_alt unat_mod_distrib take_bit_eq_mod)
  show "push_bit 4 (drop_bit 4 b) OR (b AND 15) = b" unfolding m by (rule bit_word_eqI) (auto simp: bit_simps)
qed

lemma loop_hex2: "str2mac_loop buf mac i 0 (hex2 b @ cs) = str2mac_loop buf mac i b cs"
  using hex_value_digit [OF nibbles(1), of b] hex_value_digit [OF nibbles(2), of b] nibbles(3) [of b] by (simp add: hex2_def)

lemma str2mac_from:
  assumes "m \<noteq> []" "mac + i + length m \<le> length buf" "hex_value c = None" "c \<noteq> 58"
  shows "(do { (b, j, v) \<leftarrow> str2mac_loop buf mac i 0 (print_mac m @ c # cs); mput b (mac + j) [v] }) = Some (wr buf (mac + i) m)"
  using assms
proof (induction m arbitrary: buf i rule: print_mac.induct)
  case (2 b)
  then show ?case by (simp add: loop_hex2 mput_wr)
next
  case (3 b b' bs)
  have w: "mput buf (mac + i) [b] = Some (wr buf (mac + i) [b])" "length (wr buf (mac + i) [b]) = length buf"
    using 3(3) by (simp_all add: mput_wr wr_length)
  have "wr (wr buf (mac + i) [b]) (mac + (i + 1)) (b' # bs) = wr buf (mac + i) (b # b' # bs)"
    using 3(3) by (simp add: wr_in wr_length add_ac)
  then show ?case using 3 w by (simp add: loop_hex2)
qed simp

lemma str2mac_print: "m \<noteq> [] \<Longrightarrow> mac + length m \<le> length buf \<Longrightarrow> hex_value c = None \<Longrightarrow> c \<noteq> 58 \<Longrightarrow>
    str2mac buf mac (print_mac m @ c # cs) = Some (wr buf mac m)"
  using str2mac_from [of m mac 0 buf c cs] by (simp add: str2mac_def)

section \<open>Checksums\<close>

lemma sum16_range: "0 \<le> sum16 xs \<and> sum16 xs \<le> 65535 * int (length xs)"
proof (induction xs rule: sum16.induct)
  case (2 a)
  then show ?case using uint_lt2p [of a] by simp
next
  case (3 a b xs)
  then show ?case using uint_lt2p [of a] uint_lt2p [of b] by simp
qed simp

lemma cksum_sum: "s + sum16 xs < 2 ^ 31 \<Longrightarrow> cksum_loop xs s = Some (s + sum16 xs)"
proof (induction xs s rule: cksum_loop.induct)
  case (1 a b w s)
  then show ?case using sum16_range [of w] by (simp add: add_int_def ld16_uint)
qed (simp_all add: add_int_def)

lemma in_cksum_fits:
  assumes "sum16 xs < 2 ^ 31"
  shows "\<exists>c. in_cksum xs = Some c \<and> (uint c + sum16 xs) mod 65535 = 0"
proof -
  define s where "s = sum16 xs"
  define s1 where "s1 = s div 65536 + s mod 65536"
  define s2 where "s2 = s1 + s1 div 65536"
  have s: "0 \<le> s" "s < 2 ^ 31" using assms sum16_range [of xs] by (simp_all add: s_def)
  have and16: "x AND 65535 = x mod 65536" for x :: int
    using take_bit_eq_mask [of 16 x] by (simp add: take_bit_eq_mod mask_eq_exp_minus_1)
  have run: "in_cksum xs = Some (word_of_int (NOT s2))"
    using cksum_sum [of 0 xs] assms by (simp add: in_cksum_def Let_def s2_def s1_def s_def drop_bit_eq_div and16)
  have s1: "0 \<le> s1" "s1 \<le> 98302" "s1 mod 65535 = s mod 65535"
    using s pos_mod_bound [of 65536 s] by (simp_all add: s1_def mod_sum pos_imp_zdiv_nonneg_iff)
  have c: "uint (word_of_int (NOT s2) :: u16) = (- s2 - 1) mod 65536"
    using unsigned_of_int [of "NOT s2", where 'a = int and 'b = 16] by (simp only: take_bit_eq_mod) (simp add: not_eq_complement)
  have "uint (word_of_int (NOT s2) :: u16) = 65535 - s1 \<or> uint (word_of_int (NOT s2) :: u16) = 131070 - s1"
  proof (cases "s1 < 65536")
    case True
    then have "s2 = s1" using s1 by (simp add: s2_def)
    moreover have "(- s1 - 1) mod 65536 = (- s1 - 1 + 65536) mod 65536" by (rule mod_add_self2 [symmetric])
    moreover have "\<dots> = 65535 - s1" using True s1 by (simp add: mod_pos_pos_trivial)
    ultimately show ?thesis using c by simp
  next
    case False
    then have "s1 div 65536 = 1" using s1 by auto
    then have "s2 = s1 + 1" by (simp add: s2_def)
    moreover have "(- (s1 + 1) - 1) mod 65536 = (- (s1 + 1) - 1 + 65536 * 2) mod 65536" by (rule mod_mult_self2 [symmetric])
    moreover have "\<dots> = 131070 - s1" using False s1 by (simp add: mod_pos_pos_trivial)
    ultimately show ?thesis using c by simp
  qed
  then have "(uint (word_of_int (NOT s2) :: u16) + s) mod 65535 = 0"
  proof -
    have "65535 dvd s1 - s" using s1(3) by (simp add: mod_eq_dvd_iff)
    then obtain k where "s1 = s + 65535 * k" by (metis dvdE add.commute diff_add_cancel)
    then have "65535 - s1 + s = (1 - k) * 65535" "131070 - s1 + s = (2 - k) * 65535" by simp_all
    then show ?thesis using \<open>_ \<or> _\<close> by (metis mod_mult_self2_is_0)
  qed
  then show ?thesis using run by (simp add: s_def)
qed

section \<open>The answers, byte by byte\<close>

definition "my_mac = ([0, 0x50, 0x56, 0x33, 0x1c, 0xca] :: bytes)"

lemma str2mac_local:
  assumes "mac + 6 \<le> length buf"
  shows "str2mac buf mac local_mac = Some (wr buf mac my_mac)"
proof -
  have "local_mac = print_mac my_mac @ 0 # []" by code_simp
  moreover have "hex_value 0 = None" by code_simp
  ultimately show ?thesis using str2mac_print [of my_mac mac buf 0 "[]"] assms by (simp add: my_mac_def)
qed

lemma arp_answer:
  assumes "42 \<le> length arp"
  shows "echo_arp_pkt arp local_mac = Some (pkt_part arp 6 6 @ my_mac @ pkt_part arp 12 6 @ [6, 4, 0, 2] @
    my_mac @ pkt_part arp 38 4 @ pkt_part arp 22 6 @ pkt_part arp 28 4)"
proof -
  have m: "length my_mac = 6" by (simp add: my_mac_def)
  define p0 where "p0 = pkt_part arp 0 42"
  have l: "length p0 = 42" using assms by (simp add: p0_def)
  define q where "q = wr (wr (wr (wr (wr (wr (wr (wr (wr (wr p0 0 (pkt_part arp 6 6)) 6 my_mac) 12 (pkt_part arp 12 2)) 18 [6]) 19 [4])
    20 [0, 2]) 22 my_mac) 28 (pkt_part arp 38 4)) 32 (pkt_part arp 22 6)) 38 (pkt_part arp 28 4)"
  have "echo_arp_pkt arp local_mac = Some q"
    using assms l m by (simp add: echo_arp_pkt_def sizeof_defs q_def str2mac_local wr_simps flip: p0_def)
  moreover have "q = parts_at q 0 [6, 6, 2, 4, 1, 1, 2, 6, 4, 6, 4]"
    using assms l m by (intro parts_all) (simp add: q_def wr_simps)
  moreover have "pkt_part q 0 6 = pkt_part arp 6 6" "pkt_part q 6 6 = my_mac" "pkt_part q 12 2 = pkt_part arp 12 2"
    "pkt_part q 14 4 = pkt_part p0 14 4" "pkt_part q 18 1 = [6]" "pkt_part q 19 1 = [4]" "pkt_part q 20 2 = [0, 2]" "pkt_part q 22 6 = my_mac"
    "pkt_part q 28 4 = pkt_part arp 38 4" "pkt_part q 32 6 = pkt_part arp 22 6" "pkt_part q 38 4 = pkt_part arp 28 4"
    unfolding q_def using assms l m by (simp_all add: wr_simps)
  moreover have "pkt_part p0 14 4 = pkt_part arp 14 4" by (simp add: p0_def part_part)
  moreover have "pkt_part arp 12 6 = pkt_part arp 12 2 @ pkt_part arp 14 4" using pkt_part_split [of 2 6 arp 12] by simp
  ultimately show ?thesis by simp
qed

lemma udp_answer:
  assumes "42 \<le> length udp"
  shows "echo_udp_pkt udp = Some (pkt_part udp 6 6 @ pkt_part udp 0 6 @ pkt_part udp 12 14 @ pkt_part udp 30 4 @ pkt_part udp 26 4 @
    pkt_part udp 36 2 @ pkt_part udp 34 2 @ pkt_part udp 38 4)"
proof -
  define p0 where "p0 = pkt_part udp 0 42"
  have l: "length p0 = 42" using assms by (simp add: p0_def)
  define q where "q = wr (wr (wr (wr (wr (wr p0 0 (pkt_part udp 6 6)) 6 (pkt_part udp 0 6)) 26 (pkt_part udp 30 4)) 30 (pkt_part udp 26 4))
    34 (pkt_part udp 36 2)) 36 (pkt_part udp 34 2)"
  have "echo_udp_pkt udp = Some q"
    using assms l by (simp add: echo_udp_pkt_def sizeof_defs q_def wr_simps flip: p0_def)
  moreover have "q = parts_at q 0 [6, 6, 14, 4, 4, 2, 2, 4]"
    using assms l by (intro parts_all) (simp add: q_def wr_simps)
  moreover have "pkt_part q 0 6 = pkt_part udp 6 6" "pkt_part q 6 6 = pkt_part udp 0 6" "pkt_part q 12 14 = pkt_part p0 12 14"
    "pkt_part q 26 4 = pkt_part udp 30 4" "pkt_part q 30 4 = pkt_part udp 26 4" "pkt_part q 34 2 = pkt_part udp 36 2"
    "pkt_part q 36 2 = pkt_part udp 34 2" "pkt_part q 38 4 = pkt_part p0 38 4"
    unfolding q_def using assms l by (simp_all add: wr_simps)
  moreover have "pkt_part p0 12 14 = pkt_part udp 12 14" "pkt_part p0 38 4 = pkt_part udp 38 4" by (simp_all add: p0_def part_part)
  ultimately show ?thesis by simp
qed

lemma icmp_answer:
  assumes "74 \<le> length icmp"
  shows "\<exists>c. echo_icmp_pkt icmp = Some (pkt_part icmp 6 6 @ pkt_part icmp 0 6 @ pkt_part icmp 12 14 @ pkt_part icmp 30 4 @ pkt_part icmp 26 4 @
      [0, 0] @ le16 c @ pkt_part icmp 38 36) \<and> sum16 ([0, 0] @ le16 c @ pkt_part icmp 38 36) mod 65535 = 0"
proof -
  define p0 where "p0 = pkt_part icmp 0 74"
  define p1 where "p1 = wr p0 34 [0]"
  define p2 where "p2 = wr p1 35 [0]"
  define p3 where "p3 = wr p2 36 [0, 0]"
  define p4 where "p4 = wr p3 26 (pkt_part icmp 30 4)"
  define p5 where "p5 = wr p4 30 (pkt_part icmp 26 4)"
  define p6 where "p6 = wr p5 0 (pkt_part icmp 6 6)"
  define p7 where "p7 = wr p6 6 (pkt_part icmp 0 6)"
  have l: "length p0 = 74" using assms by (simp add: p0_def)
  have l7: "length p1 = 74" "length p2 = 74" "length p3 = 74" "length p4 = 74" "length p5 = 74" "length p6 = 74" "length p7 = 74"
    using assms l by (simp_all add: p1_def p2_def p3_def p4_def p5_def p6_def p7_def wr_length)
  have steps: "mget icmp 0 74 = Some p0" "mput p0 34 [0] = Some p1" "mput p1 35 [0] = Some p2" "mput p2 36 [0, 0] = Some p3"
    "mput p3 26 (pkt_part icmp 30 4) = Some p4" "mput p4 30 (pkt_part icmp 26 4) = Some p5" "mput p5 0 (pkt_part icmp 6 6) = Some p6"
    "mput p6 6 (pkt_part icmp 0 6) = Some p7"
    using assms l l7(1-6) by (simp_all add: mput_wr mget_some flip: p0_def p1_def p2_def p3_def p4_def p5_def p6_def p7_def)
  have other: "i + n \<le> 34 \<or> 35 \<le> i \<Longrightarrow> pkt_part p1 i n = pkt_part p0 i n" "i + n \<le> 35 \<or> 36 \<le> i \<Longrightarrow> pkt_part p2 i n = pkt_part p1 i n"
    "i + n \<le> 36 \<or> 38 \<le> i \<Longrightarrow> pkt_part p3 i n = pkt_part p2 i n" "i + n \<le> 26 \<or> 30 \<le> i \<Longrightarrow> pkt_part p4 i n = pkt_part p3 i n"
    "i + n \<le> 30 \<or> 34 \<le> i \<Longrightarrow> pkt_part p5 i n = pkt_part p4 i n" "i + n \<le> 0 \<or> 6 \<le> i \<Longrightarrow> pkt_part p6 i n = pkt_part p5 i n"
    "i + n \<le> 6 \<or> 12 \<le> i \<Longrightarrow> pkt_part p7 i n = pkt_part p6 i n" for i n
    using assms l l7(1-6) by (simp_all add: p1_def p2_def p3_def p4_def p5_def p6_def p7_def part_other)
  have at: "pkt_part p1 34 1 = [0]" "pkt_part p2 35 1 = [0]" "pkt_part p3 36 2 = [0, 0]" "pkt_part p4 26 4 = pkt_part icmp 30 4"
    "pkt_part p5 30 4 = pkt_part icmp 26 4" "pkt_part p6 0 6 = pkt_part icmp 6 6" "pkt_part p7 6 6 = pkt_part icmp 0 6"
    using assms l l7(1-6) by (simp_all add: p1_def p2_def p3_def p4_def p5_def p6_def p7_def part_wr)
  have e: "pkt_part p0 12 14 = pkt_part icmp 12 14" "pkt_part p0 38 36 = pkt_part icmp 38 36" by (simp_all add: p0_def part_part)
  have parts: "pkt_part p7 0 6 = pkt_part icmp 6 6" "pkt_part p7 6 6 = pkt_part icmp 0 6" "pkt_part p7 12 14 = pkt_part icmp 12 14"
    "pkt_part p7 26 4 = pkt_part icmp 30 4" "pkt_part p7 30 4 = pkt_part icmp 26 4" "pkt_part p7 34 1 = [0]" "pkt_part p7 35 1 = [0]"
    "pkt_part p7 36 2 = [0, 0]" "pkt_part p7 38 36 = pkt_part icmp 38 36"
    using e by (simp_all add: other at [unfolded One_nat_def])
  have "pkt_part p7 34 40 = pkt_part p7 34 1 @ pkt_part p7 35 1 @ pkt_part p7 36 2 @ pkt_part p7 38 36"
    using pkt_part_split [of 1 40 p7 34] pkt_part_split [of 1 39 p7 35] pkt_part_split [of 2 38 p7 36] by simp
  then have hdr: "pkt_part p7 34 40 = [0, 0, 0, 0] @ pkt_part icmp 38 36" using parts by simp
  have small: "sum16 (pkt_part p7 34 40) < 2 ^ 31" using sum16_range [of "pkt_part p7 34 40"] l7 by simp
  obtain c where c: "in_cksum (pkt_part p7 34 40) = Some c" "(uint c + sum16 (pkt_part p7 34 40)) mod 65535 = 0"
    using in_cksum_fits [OF small] by (elim exE conjE) (rule that)
  define q where "q = wr p7 36 (le16 c)"
  have "echo_icmp_pkt icmp = Some q"
    using assms steps l7(7) c(1) by (simp add: echo_icmp_pkt_def sizeof_defs q_def mget_some mput_wr)
  moreover have "q = parts_at q 0 [6, 6, 14, 4, 4, 1, 1, 2, 36]"
    using l7 by (intro parts_all) (simp add: q_def wr_simps)
  moreover have "pkt_part q 0 6 = pkt_part p7 0 6" "pkt_part q 6 6 = pkt_part p7 6 6" "pkt_part q 12 14 = pkt_part p7 12 14"
    "pkt_part q 26 4 = pkt_part p7 26 4" "pkt_part q 30 4 = pkt_part p7 30 4" "pkt_part q 34 1 = pkt_part p7 34 1" "pkt_part q 35 1 = pkt_part p7 35 1"
    "pkt_part q 36 2 = le16 c" "pkt_part q 38 36 = pkt_part p7 38 36"
    unfolding q_def using l7 by (simp_all add: wr_simps)
  moreover have "sum16 ([0, 0] @ le16 c @ pkt_part icmp 38 36) = uint c + sum16 (pkt_part p7 34 40)"
    unfolding hdr by (simp add: sum16_append le16_sum)
  ultimately show ?thesis using parts c(2) by (intro exI [of _ c]) simp
qed

section \<open>The handler\<close>

text \<open>What kind of packet the program takes the buffer for.\<close>

definition is_udp :: "bytes \<Rightarrow> bool" where
  "is_udp stream \<longleftrightarrow> pkt_part stream 12 2 = [8, 0] \<and> pkt_part stream 23 1 = [17]"

definition is_echo :: "bytes \<Rightarrow> bool" where
  "is_echo stream \<longleftrightarrow> pkt_part stream 12 2 = [8, 0] \<and> pkt_part stream 23 1 = [1] \<and> pkt_part stream 34 1 = [8]"

definition is_arp :: "bytes \<Rightarrow> bool" where
  "is_arp stream \<longleftrightarrow> pkt_part stream 12 2 = [8, 6] \<and> pkt_part stream 38 4 = local_addr"

definition udp_len :: "bytes \<Rightarrow> nat" where
  "udp_len stream = unat (ntohs (pkt_part stream 38 2))"

text \<open>The ICMP message that a receiver takes from a packet, by the lengths in its IP header, and the test that it makes: the
  packet is as long as it says, and the message sums to 0.\<close>

definition icmp_accepted :: "bytes \<Rightarrow> bool" where
  "icmp_accepted pkt = (case ihl pkt 14 of None \<Rightarrow> False | Some h \<Rightarrow>
     let n = unat (ntohs (pkt_part pkt 16 2))
     in 14 + n \<le> length pkt \<and> 4 * h + 8 \<le> n \<and> sum16 (pkt_part pkt (14 + 4 * h) (n - 4 * h)) mod 65535 = 0)"

text \<open>The answer to an echo request, with its checksum \<open>c\<close>.\<close>

definition echo_of :: "bytes \<Rightarrow> u16 \<Rightarrow> bytes" where
  "echo_of icmp c = pkt_part icmp 6 6 @ pkt_part icmp 0 6 @ pkt_part icmp 12 14 @ pkt_part icmp 30 4 @ pkt_part icmp 26 4 @
     [0, 0] @ le16 c @ pkt_part icmp 38 36"

lemma echo_of_parts:
  assumes "74 \<le> length icmp"
  shows "length (echo_of icmp c) = 74" "pkt_part (echo_of icmp c) 14 1 = pkt_part icmp 14 1" "pkt_part (echo_of icmp c) 16 2 = pkt_part icmp 16 2"
    "pkt_part (echo_of icmp c) 34 40 = [0, 0] @ le16 c @ pkt_part icmp 38 36"
proof -
  have l: "length (le16 c) = 2" by (simp add: le16_def)
  show "length (echo_of icmp c) = 74" using assms l by (simp add: echo_of_def)
  have mid: "pkt_part (echo_of icmp c) 12 14 = pkt_part icmp 12 14" using assms by (simp add: echo_of_def pkt_part_def)
  show "pkt_part (echo_of icmp c) 14 1 = pkt_part icmp 14 1" "pkt_part (echo_of icmp c) 16 2 = pkt_part icmp 16 2"
    using part_part [of 2 1 14 "echo_of icmp c" 12] part_part [of 2 1 14 icmp 12] part_part [of 4 2 14 "echo_of icmp c" 12] part_part [of 4 2 14 icmp 12] mid
    by simp_all
  show "pkt_part (echo_of icmp c) 34 40 = [0, 0] @ le16 c @ pkt_part icmp 38 36" using assms l by (simp add: echo_of_def pkt_part_def)
qed

lemma echo_of_accepted:
  assumes "74 \<le> length icmp" "ihl icmp 14 = Some 5" "sum16 ([0, 0] @ le16 c @ pkt_part icmp 38 36) mod 65535 = 0"
  shows "ntohs (pkt_part icmp 16 2) = 60 \<Longrightarrow> icmp_accepted (echo_of icmp c)"
    and "60 < ntohs (pkt_part icmp 16 2) \<Longrightarrow> \<not> icmp_accepted (echo_of icmp c)"
proof -
  have h: "ihl (echo_of icmp c) 14 = Some 5" using assms(1,2) echo_of_parts [OF assms(1), of c] by (simp add: ihl_def mget_some)
  show "ntohs (pkt_part icmp 16 2) = 60 \<Longrightarrow> icmp_accepted (echo_of icmp c)"
    using h assms(3) echo_of_parts [OF assms(1), of c] by (simp add: icmp_accepted_def Let_def)
  show "60 < ntohs (pkt_part icmp 16 2) \<Longrightarrow> \<not> icmp_accepted (echo_of icmp c)"
    using h echo_of_parts [OF assms(1), of c] by (simp add: icmp_accepted_def Let_def word_less_nat_alt)
qed

lemma c_string_none: "c_string bs = None \<longleftrightarrow> 0 \<notin> set bs"
  by (induction bs) auto

lemma c_string_some: "0 \<in> set bs \<Longrightarrow> c_string bs = Some (takeWhile (\<lambda>c. c \<noteq> 0) bs)"
  by (induction bs) auto

lemma wr_one: "off < length p \<Longrightarrow> wr p off [x] = p[off := x]"
  by (simp add: wr_in upd_conv_take_nth_drop)

lemma handle_udp_run:
  assumes "74 \<le> length stream"
  shows "handle_udp stream = (if length stream \<le> 34 + udp_len stream then None else
    let s1 = stream[34 + udp_len stream := 0] in map_option (\<lambda>body. (s1, [the (echo_udp_pkt s1)],
      [Udp_Line (print_ip (pkt_part stream 26 4)) (ld16 (pkt_part stream 34 2)) (udp_len stream) (ntohs (pkt_part stream 16 2)) body]))
      (c_string (drop 42 s1)))"
proof (cases "length stream \<le> 34 + udp_len stream")
  case True
  then have "mput stream (34 + udp_len stream) [0] = None" by (simp add: mput_def)
  then show ?thesis using assms True by (simp add: handle_udp_def mget_some Let_def flip: udp_len_def)
next
  case False
  define s1 where "s1 = stream[34 + udp_len stream := 0]"
  have m: "mput stream (34 + udp_len stream) [0] = Some s1" using False by (simp add: mput_wr wr_one s1_def)
  have "42 \<le> length s1" using assms by (simp add: s1_def)
  then obtain r where e: "echo_udp_pkt s1 = Some r" using udp_answer by blast
  show ?thesis using assms False m e
    by (cases "c_string (drop 42 s1)") (simp_all add: handle_udp_def mget_some Let_def flip: udp_len_def s1_def)
qed

lemma handle_other:
  assumes "74 \<le> length stream" "\<not> is_udp stream"
  shows "handle_packet stream \<noteq> None"
  using assms icmp_answer [of stream] arp_answer [of stream]
  by (auto simp: handle_packet_def handle_icmp_def mget_some is_udp_def)

text \<open>A terminating zero below the end of the header does not end the text.\<close>

lemma zero_written:
  assumes "34 + n < length p"
  shows "0 \<in> set (drop 42 (p[34 + n := 0])) \<longleftrightarrow> 8 \<le> n \<or> 0 \<in> set (drop 42 p)"
proof (cases "8 \<le> n")
  case True
  then have "drop 42 (p[34 + n := 0]) = (drop 42 p)[n - 8 := 0]" by (simp add: drop_update_swap)
  then show ?thesis using True assms by (simp add: set_update_memI)
next
  case False
  then show ?thesis by (simp add: drop_update_cancel)
qed

section \<open>The properties\<close>

text \<open>Printing a hardware address and reading it back gives the address: when \<open>str2mac\<close> reads what \<open>print_mac\<close> has
  printed, up to the first character that is neither a hexadecimal digit nor a colon, it writes just the bytes of the
  address to the buffer, and nothing else.\<close>

theorem us_mac_round_trip:
  assumes "addr \<noteq> []" "mac + length addr \<le> length buf" "hex_value c = None" "c \<noteq> 58"
  shows "\<exists>p. str2mac buf mac (print_mac addr @ c # rest) = Some p \<and> pkt_part p mac (length addr) = addr \<and>
    same_but {mac..<mac + length addr} p buf"
  using str2mac_print [OF assms] part_wr [OF assms(2) refl] assms(2)
  by (auto simp: same_but_def wr_def nth_append)

theorem us_mac_round_trip_witness:
  "\<exists>p. str2mac [1, 2, 3, 4, 5, 6, 7, 8] 1 (print_mac [0, 0x50, 0x56, 0x33, 0x1c, 0xca] @ [0]) = Some p \<and>
    pkt_part p 1 6 = [0, 0x50, 0x56, 0x33, 0x1c, 0xca]"
proof -
  have "hex_value 0 = None" by code_simp
  moreover have l: "length ([0, 0x50, 0x56, 0x33, 0x1c, 0xca] :: bytes) = 6" by simp
  moreover have "[0, 0x50, 0x56, 0x33, 0x1c, 0xca] \<noteq> ([] :: bytes)" "1 + length ([0, 0x50, 0x56, 0x33, 0x1c, 0xca] :: bytes) \<le> length ([1, 2, 3, 4, 5, 6, 7, 8] :: bytes)"
    by simp_all
  ultimately show ?thesis using us_mac_round_trip [of "[0, 0x50, 0x56, 0x33, 0x1c, 0xca]" 1 "[1, 2, 3, 4, 5, 6, 7, 8]" 0 "[]"] unfolding l by auto
qed

text \<open>C39: The answers byte by byte.  An ARP request for the address of the stack is answered with the hardware address
  of the stack, to the one who asked.  An echo request is answered with 74 bytes whatever its own length: both
  pairs of addresses are exchanged, type and code are zero, identifier, number and the first 32 bytes of data are as they
  were, and the checksum is the one of these 40 bytes.  A receiver accepts it when the request was of that size (an
  IP length of 60 without options); an answer to a longer request is shorter than it says, and no receiver accepts it.\<close>

theorem us_answers:
  assumes "74 \<le> length stream"
  shows "(is_arp stream \<longrightarrow> handle_packet stream = Some (stream, [pkt_part stream 6 6 @ my_mac @ pkt_part stream 12 6 @ [6, 4, 0, 2] @
      my_mac @ local_addr @ pkt_part stream 22 6 @ pkt_part stream 28 4], [])) \<and>
    (is_echo stream \<longrightarrow> (\<exists>c out. handle_packet stream = Some (stream, [echo_of stream c], [out]) \<and>
      sum16 ([0, 0] @ le16 c @ pkt_part stream 38 36) mod 65535 = 0 \<and>
      (ihl stream 14 = Some 5 \<and> ntohs (pkt_part stream 16 2) = 60 \<longrightarrow> icmp_accepted (echo_of stream c)) \<and>
      (ihl stream 14 = Some 5 \<and> 60 < ntohs (pkt_part stream 16 2) \<longrightarrow> \<not> icmp_accepted (echo_of stream c))))"
proof -
  obtain c where c: "echo_icmp_pkt stream = Some (echo_of stream c)" "sum16 ([0, 0] @ le16 c @ pkt_part stream 38 36) mod 65535 = 0"
    using icmp_answer [OF assms] by (elim exE conjE) (rule that; simp only: echo_of_def)
  have "handle_packet stream = map_option (\<lambda>r. (stream, [r], [])) (echo_arp_pkt stream local_mac)" if "is_arp stream"
    using that assms by (cases "echo_arp_pkt stream local_mac") (simp_all add: is_arp_def handle_packet_def mget_some)
  moreover have echo: "handle_packet stream = map_option (\<lambda>r. (stream, [r], [Icmp_Line 8 (ld16 (pkt_part stream 36 2))])) (echo_icmp_pkt stream)"
    if "is_echo stream"
    using that assms by (cases "echo_icmp_pkt stream") (simp_all add: is_echo_def handle_packet_def handle_icmp_def mget_some)
  moreover have "\<exists>out. handle_packet stream = Some (stream, [echo_of stream c], [out])" if "is_echo stream" using echo [OF that] c(1) by simp
  ultimately show ?thesis using c(2) echo_of_accepted [OF assms _ c(2)] arp_answer [of stream] assms unfolding is_arp_def by force
qed

definition demo_echo :: bytes where
  "demo_echo = replicate 6 2 @ replicate 6 3 @ [8, 0] @ [0x45, 0, 0, 60] @ replicate 5 0 @ [1] @ [0, 0, 10, 0, 0, 1, 10, 0, 0, 2] @ [8, 0, 1, 2] @ replicate 36 7"

theorem us_answers_witness:
  "\<exists>c out. handle_packet demo_echo = Some (demo_echo, [replicate 6 3 @ replicate 6 2 @ pkt_part demo_echo 12 14 @ [10, 0, 0, 2, 10, 0, 0, 1] @
      [0, 0] @ le16 c @ replicate 36 7], [out]) \<and> icmp_accepted (echo_of demo_echo c)"
proof -
  have l: "74 \<le> length demo_echo" by (simp add: demo_echo_def)
  have e: "is_echo demo_echo" by code_simp
  have n: "ihl demo_echo 14 = Some 5" "ntohs (pkt_part demo_echo 16 2) = 60" by code_simp+
  have p: "pkt_part demo_echo 6 6 = replicate 6 3" "pkt_part demo_echo 0 6 = replicate 6 2" "pkt_part demo_echo 30 4 = [10, 0, 0, 2]"
    "pkt_part demo_echo 26 4 = [10, 0, 0, 1]" "pkt_part demo_echo 38 36 = replicate 36 7" by code_simp+
  have q: "echo_of demo_echo c = replicate 6 3 @ replicate 6 2 @ pkt_part demo_echo 12 14 @ [10, 0, 0, 2, 10, 0, 0, 1] @ [0, 0] @ le16 c @ replicate 36 7" for c
    unfolding echo_of_def p by simp
  obtain c out where "handle_packet demo_echo = Some (demo_echo, [echo_of demo_echo c], [out])" "icmp_accepted (echo_of demo_echo c)"
    using us_answers [OF l] e n by blast
  then show ?thesis unfolding q by blast
qed

text \<open>C40: Exactly when a packet makes the program leave its buffer: for any contents of a buffer that has room for the
  largest structure, this happens only for UDP, and there when the length field of the packet, which nothing checks, puts the
  terminating zero behind the end of the buffer, or when that length is below the 8 bytes of the header, the zero
  is written into the header, and no other zero ends the text that is printed.\<close>

theorem us_in_bounds:
  assumes "74 \<le> length stream"
  shows "handle_packet stream = None \<longleftrightarrow> is_udp stream \<and>
    (length stream \<le> 34 + udp_len stream \<or> udp_len stream < 8 \<and> 0 \<notin> set (drop 42 stream))"
proof (cases "is_udp stream")
  case True
  then have "handle_packet stream = handle_udp stream" using assms by (simp add: is_udp_def handle_packet_def mget_some)
  then show ?thesis using True zero_written [of "udp_len stream" stream]
    by (auto simp: handle_udp_run [OF assms] Let_def c_string_none)
next
  case False
  then show ?thesis using handle_other [OF assms] by simp
qed

theorem us_in_bounds_witness:
  "handle_packet (take 12 demo_echo @ [8, 0] @ replicate 9 0 @ [17] @ replicate 14 0 @ [0, 0x40] @ replicate 40 7) = None"
proof -
  let ?s = "take 12 demo_echo @ [8, 0] @ replicate 9 0 @ [17] @ replicate 14 0 @ [0, 0x40] @ replicate 40 7"
  have "74 \<le> length ?s" by (simp add: demo_echo_def)
  moreover have "is_udp ?s \<and> length ?s \<le> 34 + udp_len ?s" by code_simp
  ultimately show ?thesis using us_in_bounds by blast
qed

end
