(* ===== verification/Bs_Tree.thy ===== *)
theory Bs_Tree
  imports Cvip_Prelude "HOL-Library.Tree" "HOL-Library.Multiset"
begin

text \<open>
  The binary search tree of \<open>code/tree/btree.c\<close>: insertion and traversal over nodes on a heap, and that they
  sort.  A pointer is a natural number, 0 is \<open>NULL\<close>; the result of \<open>malloc\<close> is an argument, \<open>None\<close> an
  access outside the live nodes, the failed assertion of the allocation or a loop that does not end.
\<close>

section \<open>The program\<close>

record bstree_node =
  bs_data :: int
  bs_left :: nat
  bs_right :: nat

record bstree =
  bs_heap :: "nat \<Rightarrow> bstree_node option"
  bs_root :: nat

definition bstree_create_node :: "nat \<Rightarrow> int \<Rightarrow> bstree \<Rightarrow> (nat \<times> bstree) option" where
  "bstree_create_node node key T =
     (if node = 0 then None
      else Some (node, T\<lparr>bs_heap := (bs_heap T)(node \<mapsto> \<lparr>bs_data = key, bs_left = 0, bs_right = 0\<rparr>)\<rparr>))"

partial_function (option) bstree_descend :: "(nat \<Rightarrow> bstree_node option) \<Rightarrow> int \<Rightarrow> nat \<Rightarrow> nat \<Rightarrow> nat option" where
  "bstree_descend H key node tmp =
     (if node = 0 then Some tmp
      else do {
        n \<leftarrow> H node;
        bstree_descend H key (if key < bs_data n then bs_left n else bs_right n) node
      })"

text \<open>The first argument is what \<open>malloc\<close> returns.\<close>

definition bstree_insert :: "nat \<Rightarrow> bstree \<Rightarrow> int \<Rightarrow> (int \<times> bstree) option" where
  "bstree_insert m T key =
     (if bs_root T = 0 then do {
        (p, T1) \<leftarrow> bstree_create_node m key T;
        Some (0, T1\<lparr>bs_root := p\<rparr>)
      }
      else do {
        tmp \<leftarrow> bstree_descend (bs_heap T) key (bs_root T) (bs_root T);
        n \<leftarrow> bs_heap T tmp;
        (p, T1) \<leftarrow> bstree_create_node m key T;
        n1 \<leftarrow> bs_heap T1 tmp;
        Some (0, T1\<lparr>bs_heap := (bs_heap T1)(tmp \<mapsto> (if key < bs_data n then n1\<lparr>bs_left := p\<rparr> else n1\<lparr>bs_right := p\<rparr>))\<rparr>)
      })"

text \<open>The keys that are printed.\<close>

partial_function (option) bstree_traversal :: "(nat \<Rightarrow> bstree_node option) \<Rightarrow> nat \<Rightarrow> int list option" where
  "bstree_traversal H node =
     (if node = 0 then Some []
      else do {
        n \<leftarrow> H node;
        l \<leftarrow> bstree_traversal H (bs_left n);
        r \<leftarrow> bstree_traversal H (bs_right n);
        Some (l @ bs_data n # r)
      })"

fun bstree_insert_all :: "(nat \<times> int) list \<Rightarrow> bstree \<Rightarrow> bstree option" where
  "bstree_insert_all [] T = Some T"
| "bstree_insert_all ((m, key) # ks) T = do { (_, T1) \<leftarrow> bstree_insert m T key; bstree_insert_all ks T1 }"

text \<open>\<open>main\<close> for the results of its calls of \<open>malloc\<close>.\<close>

definition bstree_main :: "nat list \<Rightarrow> int list option" where
  "bstree_main ms = do {
     T \<leftarrow> bstree_insert_all (zip ms [24, 25, 13, 35, 23, 26, 67, 47, 38, 98, 20, 13, 17, 49, 12, 21, 9, 18, 14, 15])
       \<lparr>bs_heap = (\<lambda>_. None), bs_root = 0\<rparr>;
     bstree_traversal (bs_heap T) (bs_root T)
   }"

section \<open>The tree on the heap\<close>

text \<open>The heap holds this tree of addresses and keys.\<close>

fun bs_rep :: "(nat \<Rightarrow> bstree_node option) \<Rightarrow> nat \<Rightarrow> (nat \<times> int) tree \<Rightarrow> bool" where
  "bs_rep H p \<langle>\<rangle> \<longleftrightarrow> p = 0"
| "bs_rep H p \<langle>l, (a, k), r\<rangle> \<longleftrightarrow> p = a \<and> a \<noteq> 0 \<and> a \<notin> fst ` (set_tree l \<union> set_tree r) \<and> fst ` set_tree l \<inter> fst ` set_tree r = {} \<and>
     (\<exists>n. H a = Some n \<and> bs_data n = k \<and> bs_rep H (bs_left n) l \<and> bs_rep H (bs_right n) r)"

fun bs_ins :: "nat \<Rightarrow> int \<Rightarrow> (nat \<times> int) tree \<Rightarrow> (nat \<times> int) tree" where
  "bs_ins m key \<langle>\<rangle> = \<langle>\<langle>\<rangle>, (m, key), \<langle>\<rangle>\<rangle>"
| "bs_ins m key \<langle>l, (a, k), r\<rangle> = (if key < k then \<langle>bs_ins m key l, (a, k), r\<rangle> else \<langle>l, (a, k), bs_ins m key r\<rangle>)"

abbreviation bs_keys :: "(nat \<times> int) tree \<Rightarrow> int list" where
  "bs_keys t \<equiv> map snd (inorder t)"

lemma bs_rep_frame: "bs_rep H p t \<Longrightarrow> \<forall>a \<in> fst ` set_tree t. H' a = H a \<Longrightarrow> bs_rep H' p t"
  by (induction H p t rule: bs_rep.induct) auto

lemma set_bs_ins: "set_tree (bs_ins m key t) = insert (m, key) (set_tree t)"
  by (induction m key t rule: bs_ins.induct) auto

text \<open>Descending from a node: the parent of the new node, and the tree once it is linked there.\<close>

lemma descend_ok:
  assumes "bs_rep H p t" "p \<noteq> 0" "m \<noteq> 0" "m \<notin> fst ` set_tree t"
  shows "\<exists>tmp n. bstree_descend H key p q = Some tmp \<and> tmp \<in> fst ` set_tree t \<and> H tmp = Some n \<and>
    bs_rep (H(m \<mapsto> \<lparr>bs_data = key, bs_left = 0, bs_right = 0\<rparr>, tmp \<mapsto> (if key < bs_data n then n\<lparr>bs_left := m\<rparr> else n\<lparr>bs_right := m\<rparr>)))
      p (bs_ins m key t)"
  using assms
proof (induction m key t arbitrary: p q rule: bs_ins.induct)
  case (2 m key l a k r)
  let ?leaf = "\<lparr>bs_data = key, bs_left = 0, bs_right = 0\<rparr>"
  let ?link = "\<lambda>n. if key < bs_data n then n\<lparr>bs_left := m\<rparr> else n\<lparr>bs_right := m\<rparr>"
  obtain n where n: "p = a" "a \<noteq> 0" "H a = Some n" "bs_data n = k" "bs_rep H (bs_left n) l" "bs_rep H (bs_right n) r" using 2(3) by auto
  define c where "c = (if key < k then bs_left n else bs_right n)"
  have go: "bstree_descend H key p q = bstree_descend H key c p"
    using n(1-4) by (subst bstree_descend.simps) (simp add: c_def)
  show ?case
  proof (cases "c = 0")
    case True
    then have leaf: "(if key < k then l else r) = \<langle>\<rangle>"
      using n(5,6) by (cases l; cases r) (auto simp: c_def split: if_splits)
    have "bstree_descend H key c p = Some a" using True n(1) by (subst bstree_descend.simps) simp
    moreover have "bs_rep (H(m \<mapsto> ?leaf, a \<mapsto> ?link n)) (bs_left n) l" by (rule bs_rep_frame [OF n(5)]) (use 2(3,6) in auto)
    moreover have "bs_rep (H(m \<mapsto> ?leaf, a \<mapsto> ?link n)) (bs_right n) r" by (rule bs_rep_frame [OF n(6)]) (use 2(3,6) in auto)
    ultimately have d: "bstree_descend H key c p = Some a" "bs_rep (H(m \<mapsto> ?leaf, a \<mapsto> ?link n)) a (bs_ins m key \<langle>l, (a, k), r\<rangle>)"
      using 2(3,5,6) n(2-4) leaf by (auto split: if_splits)
    show ?thesis
    proof (intro exI conjI)
      show "bstree_descend H key p q = Some a" using d(1) go by simp
      show "a \<in> fst ` set_tree \<langle>l, (a, k), r\<rangle>" by simp
      show "bs_rep (H(m \<mapsto> ?leaf, a \<mapsto> ?link n)) p (bs_ins m key \<langle>l, (a, k), r\<rangle>)" unfolding n(1) by (rule d(2))
    qed (rule n(3))
  next
    case False
    have "bs_rep H c (if key < k then l else r)" "m \<notin> fst ` set_tree (if key < k then l else r)"
      using n(5,6) 2(6) by (auto simp: c_def)
    then obtain tmp x where x: "bstree_descend H key c p = Some tmp" "tmp \<in> fst ` set_tree (if key < k then l else r)" "H tmp = Some x"
      "bs_rep (H(m \<mapsto> ?leaf, tmp \<mapsto> ?link x)) c (bs_ins m key (if key < k then l else r))"
      using 2(1) [OF _ _ False 2(5), of p] 2(2) [OF _ _ False 2(5), of p] by (cases "key < k") (simp_all only: if_True if_False, blast+)
    let ?H = "H(m \<mapsto> ?leaf, tmp \<mapsto> ?link x)"
    have tmp: "tmp \<noteq> a" "m \<noteq> a" using x(2) 2(3,6) by (auto split: if_splits)
    have o: "bs_rep ?H (bs_left n) l" if "\<not> key < k" by (rule bs_rep_frame [OF n(5)]) (use that x(2) 2(3,6) in auto)
    have o': "bs_rep ?H (bs_right n) r" if "key < k" by (rule bs_rep_frame [OF n(6)]) (use that x(2) 2(3,6) in auto)
    have "?H a = Some n" using tmp n(3) by simp
    then have d: "bs_rep ?H a (bs_ins m key \<langle>l, (a, k), r\<rangle>)"
      using x(4) o o' n 2(3,6) by (cases "key < k") (auto simp: c_def set_bs_ins)
    show ?thesis
    proof (intro exI conjI)
      show "bstree_descend H key p q = Some tmp" using x(1) go by simp
      show "tmp \<in> fst ` set_tree \<langle>l, (a, k), r\<rangle>" using x(2) by (auto split: if_splits)
      show "bs_rep ?H p (bs_ins m key \<langle>l, (a, k), r\<rangle>)" unfolding n(1) by (rule d)
    qed (rule x(3))
  qed
qed simp

lemma insort_split:
  assumes "sorted (xs @ k # ys)"
  shows "insort key (xs @ k # ys) = (if key < k then insort key xs @ k # ys else xs @ k # insort key (ys :: int list))"
proof -
  let ?zs = "if key < k then insort key xs @ k # ys else xs @ k # insort key ys"
  have "sorted ?zs"
  proof (cases "key < k")
    case True
    then show ?thesis using assms by (auto simp: sorted_append sorted_insort set_insort_key)
  next
    case False
    then show ?thesis using assms by (fastforce simp: sorted_append sorted_insort set_insort_key)
  qed
  moreover have "mset ?zs = mset (key # xs @ k # ys)" by simp
  ultimately have "sort (key # xs @ k # ys) = ?zs" by (intro properties_for_sort)
  moreover have "sort (key # xs @ k # ys) = insort key (xs @ k # ys)" using assms by (simp only: sort_key_simps sorted_sort_id)
  ultimately show ?thesis by simp
qed

lemma keys_bs_ins: "sorted (bs_keys t) \<Longrightarrow> bs_keys (bs_ins m key t) = insort key (bs_keys t)"
  by (induction m key t rule: bs_ins.induct) (auto simp: insort_split sorted_append)

section \<open>What the program does\<close>

text \<open>The heap of \<open>T\<close> holds a search tree with these keys in order, in nodes at these addresses.\<close>

definition bs_holds :: "bstree \<Rightarrow> nat set \<Rightarrow> int list \<Rightarrow> bool" where
  "bs_holds T A ks \<longleftrightarrow> (\<exists>t. bs_rep (bs_heap T) (bs_root T) t \<and> fst ` set_tree t = A \<and> bs_keys t = ks \<and> sorted ks)"

lemma bstree_insert_holds:
  assumes "bs_holds T A ks" "m \<noteq> 0" "m \<notin> A"
  shows "\<exists>T'. bstree_insert m T key = Some (0, T') \<and> bs_holds T' (insert m A) (insort key ks)"
proof -
  obtain t where t: "bs_rep (bs_heap T) (bs_root T) t" "fst ` set_tree t = A" "bs_keys t = ks" "sorted ks"
    using assms(1) by (auto simp: bs_holds_def)
  have new: "fst ` set_tree (bs_ins m key t) = insert m A" "bs_keys (bs_ins m key t) = insort key ks"
    using t by (simp_all add: set_bs_ins keys_bs_ins)
  show ?thesis
  proof (cases "bs_root T = 0")
    case True
    then have "t = \<langle>\<rangle>" using t(1) by (cases t) auto
    then show ?thesis using True assms(2) t new
      by (auto simp: bstree_insert_def bstree_create_node_def bs_holds_def sorted_insort intro!: exI [of _ "bs_ins m key t"])
  next
    case False
    from descend_ok [OF t(1) False assms(2), of key "bs_root T"] t(2) assms(3) obtain tmp n where
      d: "bstree_descend (bs_heap T) key (bs_root T) (bs_root T) = Some tmp" "tmp \<in> A" "bs_heap T tmp = Some n"
      "bs_rep ((bs_heap T)(m \<mapsto> \<lparr>bs_data = key, bs_left = 0, bs_right = 0\<rparr>, tmp \<mapsto> (if key < bs_data n then n\<lparr>bs_left := m\<rparr> else n\<lparr>bs_right := m\<rparr>)))
        (bs_root T) (bs_ins m key t)" by auto
    have "tmp \<noteq> m" using d(2) assms(3) by auto
    then show ?thesis using False assms(2) d new t(4)
      by (auto simp: bstree_insert_def bstree_create_node_def bs_holds_def sorted_insort intro!: exI [of _ "bs_ins m key t"])
  qed
qed

lemma bs_traversal_ok: "bs_rep H p t \<Longrightarrow> bstree_traversal H p = Some (bs_keys t)"
  by (induction H p t rule: bs_rep.induct) (subst bstree_traversal.simps, auto)+

lemma insert_all_ok:
  "bs_holds T A ks \<Longrightarrow> distinct (map fst xs) \<Longrightarrow> 0 \<notin> fst ` set xs \<Longrightarrow> A \<inter> fst ` set xs = {} \<Longrightarrow>
    \<exists>T'. bstree_insert_all xs T = Some T' \<and> bs_holds T' (A \<union> fst ` set xs) (foldl (\<lambda>ks k. insort k ks) ks (map snd xs))"
proof (induction xs arbitrary: T A ks)
  case (Cons x xs)
  obtain m k where x: "x = (m, k)" by fastforce
  obtain T1 where T1: "bstree_insert m T k = Some (0, T1)" "bs_holds T1 (insert m A) (insort k ks)"
    using bstree_insert_holds [OF Cons.prems(1), of m k] Cons.prems x by auto
  show ?case using Cons.IH [OF T1(2)] Cons.prems T1(1) x by auto
qed simp

text \<open>For any addresses that \<open>malloc\<close> gives, none of them null and no two the same, the program prints its keys
  in ascending order.\<close>

theorem bstree_main_sorts:
  assumes "length ms = 20" "distinct ms" "0 \<notin> set ms"
  shows "bstree_main ms = Some [9, 12, 13, 13, 14, 15, 17, 18, 20, 21, 23, 24, 25, 26, 35, 38, 47, 49, 67, 98]"
proof -
  let ?ks = "[24, 25, 13, 35, 23, 26, 67, 47, 38, 98, 20, 13, 17, 49, 12, 21, 9, 18, 14, 15 :: int]"
  have "bs_holds \<lparr>bs_heap = (\<lambda>_. None), bs_root = 0\<rparr> {} []" by (auto simp: bs_holds_def intro!: exI [of _ "\<langle>\<rangle>"])
  moreover have fs: "map fst (zip ms ?ks) = ms" "map snd (zip ms ?ks) = ?ks" using assms(1) by simp_all
  moreover have "fst ` set (zip ms ?ks) = set ms" using fs(1) by (metis set_map)
  ultimately obtain T where T: "bstree_insert_all (zip ms ?ks) \<lparr>bs_heap = (\<lambda>_. None), bs_root = 0\<rparr> = Some T"
    "bs_holds T (set ms) (foldl (\<lambda>ks k. insort k ks) [] ?ks)"
    using insert_all_ok [of "\<lparr>bs_heap = (\<lambda>_. None), bs_root = 0\<rparr>" "{}" "[]" "zip ms ?ks"] assms by auto
  then show ?thesis using bs_traversal_ok by (auto simp: bs_holds_def bstree_main_def)
qed

end
