(* ===== verification/Spec2Isabelle.thy ===== *)
theory Spec2Isabelle
  imports Kcp_Arrive Kcp_Links Sorting Kmp Pool_Run Sl_Timer Rbt_Timer Tree_Rbtree_Props Cjson_Minified Bloom_Props Thread_Pool_Inv Reactor_Props B_Tree_Props Xdp_Props Try_Catch_Props User_Stack_Props Bs_Tree
begin

text \<open>
  A verification library for the C programs of the CVIP collection, under \<open>src/code\<close>.

  The collection is a set of small systems that do not link with each other: the KCP reliable transport,
  a JSON library, a memory pool, timers on a skip list and on a red-black tree, three search trees, a Bloom
  filter, a thread pool, an event reactor, a packet forwarder for the kernel, a user-level protocol stack,
  exception macros, and sorting and string search.  Each has a group of theories here that reads in the order of
  its source, and ends with the theorems that make it correct.

  \<^bold>\<open>Conventions.\<close>  A fixed-width unsigned integer is a word of its width, so that its arithmetic wraps
  as in C; an \<open>int\<close> is an integer, stored through \<open>i32\<close> where the code lets it wrap.  A pointer into a
  structure is a natural number, 0 is \<open>NULL\<close>, and memory is a record with a map for each field of the
  structure.  A partial result \<open>None\<close> is undefined behaviour (an access out of bounds, a dead or null
  pointer, signed overflow) or a loop that does not end: theorems that state \<open>Some\<close> therefore say that
  the code returns and stays within its memory.  This holds of the components whose memory is a partial map
  or checked arrays.  Three keep total maps for the fields of their nodes, the intrusive queues of KCP, the
  red-black tree of the timers and the dictionary tree: there a null or dead pointer reads some value, \<open>None\<close>
  is only a loop that does not end, and the theorems say instead of which nodes the structure consists.  The
  signed estimates of \<open>ikcp_update_ack\<close> wrap through \<open>i32\<close>, as the usual compilers do.  A loop that may not end is a \<open>partial_function\<close>, a
  loop with an evident measure a \<open>function\<close>.  Errors of the code are values: negative return codes, null
  results.  What the sources call but the repository does not contain (the system allocator, the random
  source, the clock, the kernel, output and log callbacks, double arithmetic and its formatting) is an argument of the
  definitions, and its documented behaviour a named hypothesis, such as \<open>env_ok\<close> or
  \<open>exact_ints\<close>.  Where the code does not survive a failed allocation, its success is such a hypothesis
  (\<open>calloc_ok\<close> of the B-tree).

  \<^bold>\<open>Shared lemmas.\<close>  \<open>Cvip_Prelude\<close>: types of words, checked arrays (\<open>aget\<close>, \<open>aset\<close>), and \<open>nodes\<close>, the
  linked structure of a chain of nodes, with its frame lemmas.

  \<^bold>\<open>The KCP transport\<close> (\<open>code/kcp/ikcp.c\<close>, \<open>ikcp.h\<close>).  \<open>Kcp_Base\<close>: constants, codec, segments, control
  block, parameter setting.  \<open>Kcp_Send\<close>: \<open>ikcp_send\<close> with fragmentation and stream mode.  \<open>Kcp_Recv\<close>:
  \<open>ikcp_recv\<close>, \<open>ikcp_peeksize\<close>, \<open>ikcp_parse_data\<close>.  \<open>Kcp_Input\<close>: \<open>ikcp_input\<close> and the acknowledgement
  handling it calls.  \<open>Kcp_Flush\<close>: \<open>ikcp_flush\<close>, \<open>ikcp_update\<close>, \<open>ikcp_check\<close>.  \<open>Kcp_Queue\<close>: the intrusive
  queues of the header, link by link; the locale \<open>intrusive_queue\<close> is the contract of the macros, which are its
  interpretation.  The other theories have the four queues as lists; \<open>Kcp_Links\<close> proves, for the insertion
  of \<open>ikcp_parse_data\<close> with its move of deliverable segments and for the move of the flush into the send
  window, that the loops on links do to a linked queue what those theories do to the list.  \<open>Kcp_Inv\<close> proves the
  invariant of the send buffer, the acknowledgement block and the round-trip estimate under input;
  \<open>Kcp_Spec\<close> and \<open>Kcp_Conn\<close> prove what a flush puts on the wire, that a peer accepts it, when the timers
  fire, and that every state that the interface can reach is safe; a step of \<open>conn_step\<close> may set any parameter,
  but the receive window only below 2^31, and the size of a datagram only up to 2^29 and, while data is queued, not
  below what it was: lowering it then makes the code overflow its buffer (\<open>setmtu_overflow\<close>).  \<open>Kcp_Arrive\<close>: a message that was split by \<open>ikcp_send\<close>
  is received whole, whatever the order, repetition and grouping of the datagrams.  Input loops recurse on the
  datagram.

  \<^bold>\<open>The JSON library\<close> (\<open>code/json/cjson/cJSON.c\<close>).  \<open>Cjson\<close>: items and the parser; the recursion has
  three units of fuel for each byte of the text.  \<open>Cjson_Fuel\<close> has the same parser with any value in the place where
  fuel runs out (\<open>value_upto\<close>) and proves that its result does not depend on that value: the place is never reached.
  \<open>Cjson_Print\<close>: the printer into allocated strings, with every write checked against the size that the code
  computed, and \<open>render\<close>, the text it is meant to produce.  \<open>Cjson_Buffer\<close>: the same printer into a growing
  buffer.  \<open>Cjson_Items\<close>: lookup, container edits, creation, duplication, minification.  \<open>Cjson_Printed\<close>,
  \<open>Cjson_Buffered\<close>: both printers deliver \<open>render\<close> or, when an allocation fails, \<open>NULL\<close>.  \<open>Cjson_Roundtrip\<close>,
  \<open>Cjson_Text\<close>: the parser reads that text back.  \<open>Cjson_Safe\<close>: which strings the parser reads within its
  memory, and a text for which it does not.  \<open>Cjson_Minified\<close>: minification and duplication.  Lengths are
  natural numbers: texts are assumed shorter than 2^31 bytes (2^30 for the growing buffer, stated there).

  \<^bold>\<open>The memory pool\<close> (\<open>code/mmpool/ngx_palloc.c\<close>).  \<open>Pool\<close>: all operations on a heap of structure fields.
  \<open>Pool_Inv\<close>: the invariant (the chain of blocks, the records of large allocations, the regions handed out)
  and that each operation keeps it.  \<open>Pool_Run\<close>: runs of operations, with \<open>registered\<close>, the handlers in the order in which
  they were registered; destruction, and two defects.

  \<^bold>\<open>The timers\<close> (\<open>code/timer\<close>).  \<open>Skiplist\<close>: \<open>skiplist.c\<close> and the operations of \<open>sl-timer.c\<close>.
  \<open>Skiplist_Inv\<close>: what a heap holds when it holds a skip list, and the effect of each operation on it.
  \<open>Timer_Queue\<close>: the locales \<open>timer_queue\<close> and \<open>sorted_timer_queue\<close>, the contract under which the loop of
  \<open>expire_timer\<close> is analysed once, interpreted on the skip list.  \<open>Sl_Timer\<close>: its properties.  \<open>Rbtree\<close>: the
  red-black tree of \<open>rbtree.c\<close>, with nodes, parent pointers and the sentinel.  \<open>Rbtree_Shape\<close>: the tree of
  addresses a heap holds, positions as contexts, the effect of the rotations, and the mirror image that gives
  every right-hand case from the left-hand one.  \<open>Rbtree_Insert\<close>, \<open>Rbtree_Place\<close>: insertion, minimum and
  successor; \<open>Rbtree_Fixup\<close>, \<open>Rbtree_Delete\<close>: deletion.  \<open>Rbt_Timer\<close>: \<open>rbt-timer.c\<close>, its interpretation of
  the two locales and the properties.

  \<^bold>\<open>The Bloom filter\<close> (\<open>code/bloomfilter/bloomfilter.h\<close>).  \<open>Bloom\<close>: all operations, with the state of
  each pointer (null, freed, live) kept.  \<open>Bloom_Props\<close>: a key that was added is found, and what a reset, a file
  and a failed load leave behind.

  \<^bold>\<open>The thread pool\<close> (\<open>code/threadpool/threadpool.c\<close>).  \<open>Thread_Pool\<close>: the threads as program counters and
  every access to shared state as a step.  \<open>Thread_Pool_Inv\<close>: the invariants of the reachable states, that no
  job is lost or run twice and no wake-up is lost, and the race of \<open>ThreadPoolShutdown\<close>.

  \<^bold>\<open>The dictionary red-black tree\<close> (\<open>code/tree/rbtree.c\<close>).  The theories \<open>Tree_Rbtree\<close>, with the operations on
  nodes that own their keys, and those whose names begin with it: insertion overwrites or adds, deletion removes
  and frees, and \<open>main\<close> leaves nothing allocated.

  \<^bold>\<open>The B-tree\<close> (\<open>code/tree/b-tree.c\<close>).  \<open>B_Tree\<close>: all operations, with the arrays of every node on a heap.
  \<open>B_Tree_Inv\<close>: the balanced tree that a heap holds.  \<open>B_Tree_Insert\<close>, \<open>B_Tree_Delete\<close>, \<open>B_Tree_Remove\<close>: insertion,
  the ways of filling up a child, deletion from a leaf.  \<open>B_Tree_Props\<close>: the properties, and the deletion of keys of
  inner nodes that goes wrong.  \<open>Bs_Tree\<close>: the binary search tree of \<open>code/tree/btree.c\<close>, which sorts.

  \<^bold>\<open>The reactor\<close> (\<open>code/io/reactor.c\<close>).  \<open>Reactor\<close>: the table of events, the callbacks and the loop, with the
  kernel as an argument that answers each call.  \<open>Reactor_Props\<close>: the table and the kernel agree in every reachable
  state, and what a client gets back.  That the loop also stays in its memory needs \<open>fds_below\<close>, a condition on the run
  (no read fills the buffer, no descriptor is above the table) that the kernel does not promise.

  \<^bold>\<open>The XDP program\<close> (\<open>code/ebpf/libbpf/xdp/xdp.bpf.c\<close>).  \<open>Xdp\<close>: header checks, rewriting and the handler on packets
  as bytes, with the helpers of the kernel as an argument.  \<open>Xdp_Sum\<close>: sums modulo 65535 and parts of packets.
  \<open>Xdp_Props\<close>: no access behind a packet, checksums that keep their validity, replies that find their client whatever
  packets come in between; the
  documented behaviour of the helpers is \<open>csum_ok\<close>, \<open>map_ok\<close> and \<open>map_finds\<close>, which \<open>demo_bpf\<close> satisfies.

  \<^bold>\<open>The user-level protocol stack\<close> (\<open>code/netmap/user_stack.c\<close>).  \<open>User_Stack\<close>: the answers to ARP, echo requests and
  UDP, and the loop over the packets that arrive.  \<open>User_Stack_Props\<close>: the answers byte by byte, and exactly which packets
  make it leave its buffer.

  \<^bold>\<open>The exception macros\<close> (\<open>code/exception/trycatch_finally.c\<close>).  \<open>Try_Catch\<close>: a C fragment that uses the macros is a
  statement, what they expand to is its execution over frames with lifetimes.  \<open>Try_Catch_Props\<close>: a semantics of
  structured exceptions, the proof that the macros implement it for \<open>tidy\<close> statements, and what they do with the
  others: a handler that throws skips the final clause, a return out of a block leaves its frame on the stack.

  \<^bold>\<open>Algorithms.\<close>  \<open>Sorting\<close>: \<open>code/sort/sort.c\<close>.  \<open>Kmp\<close>: \<open>code/search/kmp.c\<close>.

  \<^bold>\<open>Not modelled.\<close>  The examples of the collection that only call third-party libraries or the kernel
  (database, cache and message clients, the socket loops beside the reactor, the eBPF loaders and probes, the
  nginx module), the ELF printer and the samples for linkers and debuggers, the drafts of the exception macros,
  vendored and generated headers, and the \<open>main\<close> functions and printing of some of the modelled programs.
  Freeing of JSON items and the allocation hooks are left out: the model of items has no ownership.  The
  exercises and samples in C++ (\<open>src/leetcode\<close>, design patterns, object models, the test drivers of KCP) are
  unrelated single functions and classes in another language, and no part of these systems.
\<close>

end
